(* ===== verification/Py_Prelude.thy ===== *)
theory Py_Prelude
  imports Main "HOL-Library.Char_ord" "HOL-Library.List_Lexorder"
begin

text \<open>
  Shared foundations of the development: results with errors, the Python string and integer
  operations the sources use, and insertion-ordered dictionaries. Text is a list of characters
  read as ASCII code points: case mapping and character classes are the ASCII ones; white space
  and line breaks are those of \<open>str.strip\<close> and \<open>str.splitlines\<close> on code points below 256.
\<close>

named_theorems res_simps \<open>inversion of error-monad steps\<close>
named_theorems str_simps \<open>facts about Python string operations\<close>
named_theorems dict_simps \<open>facts about insertion-ordered dictionaries\<close>

section \<open>Results\<close>

text \<open>A fallible computation returns \<open>Inl\<close> an error or \<open>Inr\<close> a value.\<close>

definition bindE :: "'e + 'a \<Rightarrow> ('a \<Rightarrow> 'e + 'b) \<Rightarrow> 'e + 'b" where
  "bindE r f = (case r of Inl e \<Rightarrow> Inl e | Inr x \<Rightarrow> f x)"

definition assertE :: "bool \<Rightarrow> 'e \<Rightarrow> 'e + unit" where
  "assertE b e = (if b then Inr () else Inl e)"

fun mapE :: "('a \<Rightarrow> 'e + 'b) \<Rightarrow> 'a list \<Rightarrow> 'e + 'b list" where
  "mapE f [] = Inr []"
| "mapE f (x # xs) = bindE (f x) (\<lambda>y. bindE (mapE f xs) (\<lambda>ys. Inr (y # ys)))"

fun foldE :: "('s \<Rightarrow> 'a \<Rightarrow> 'e + 's) \<Rightarrow> 's \<Rightarrow> 'a list \<Rightarrow> 'e + 's" where
  "foldE f s [] = Inr s"
| "foldE f s (x # xs) = bindE (f s x) (\<lambda>s'. foldE f s' xs)"

fun forE :: "('a \<Rightarrow> 'e + unit) \<Rightarrow> 'a list \<Rightarrow> 'e + unit" where
  "forE f [] = Inr ()"
| "forE f (x # xs) = bindE (f x) (\<lambda>_. forE f xs)"

lemma bindE_Inl [simp]: "bindE (Inl e) f = Inl e"
  by (simp add: bindE_def)

lemma bindE_Inr [simp]: "bindE (Inr x) f = f x"
  by (simp add: bindE_def)

lemma bindE_eq_Inr [res_simps]: "bindE r f = Inr y \<longleftrightarrow> (\<exists>x. r = Inr x \<and> f x = Inr y)"
  by (cases r) auto

lemma bindE_eq_Inl [res_simps]:
  "bindE r f = Inl e \<longleftrightarrow> r = Inl e \<or> (\<exists>x. r = Inr x \<and> f x = Inl e)"
  by (cases r) auto

lemma assertE_eq_Inr [res_simps]: "assertE b e = Inr u \<longleftrightarrow> b"
  by (simp add: assertE_def)

lemma assertE_eq_Inl [res_simps]: "assertE b e = Inl e' \<longleftrightarrow> \<not> b \<and> e' = e"
  by (auto simp: assertE_def)

lemma assertE_simps [simp]: "assertE True e = Inr ()" "assertE False e = Inl e"
  by (simp_all add: assertE_def)

lemma forE_eq_Inr [res_simps]: "forE f xs = Inr u \<longleftrightarrow> (\<forall>x\<in>set xs. f x = Inr ())"
  by (induction xs) (auto simp: bindE_eq_Inr)

lemma foldE_append: "foldE f s (xs @ ys) = bindE (foldE f s xs) (\<lambda>s'. foldE f s' ys)"
  by (induction xs arbitrary: s) (auto simp: bindE_def split: sum.splits)

lemma foldE_invariant:
  assumes "foldE f s xs = Inr t" and "I s"
    and "\<And>s x s'. I s \<Longrightarrow> x \<in> set xs \<Longrightarrow> f s x = Inr s' \<Longrightarrow> I s'"
  shows "I t"
  using assms
proof (induction xs arbitrary: s)
  case Nil
  then show ?case by simp
next
  case (Cons x xs)
  from Cons.prems(1) obtain s' where s': "f s x = Inr s'" "foldE f s' xs = Inr t"
    by (auto simp: bindE_eq_Inr)
  have "I s'" by (rule Cons.prems(3) [OF Cons.prems(2) _ s'(1)]) simp
  then show ?case by (rule Cons.IH [OF s'(2)]) (auto intro: Cons.prems(3))
qed

lemma mapE_eq_Inr_length: "mapE f xs = Inr ys \<Longrightarrow> length ys = length xs"
  by (induction xs arbitrary: ys) (auto simp: bindE_eq_Inr)

lemma mapE_total: "(\<And>x. x \<in> set xs \<Longrightarrow> f x = Inr (g x)) \<Longrightarrow> mapE f xs = Inr (map g xs)"
  by (induction xs) auto

lemma mapE_all2:
  "(\<And>x. x \<in> set xs \<Longrightarrow> \<exists>y. f x = Inr y \<and> P x y) \<Longrightarrow> \<exists>ys. mapE f xs = Inr ys \<and> list_all2 P xs ys"
proof (induction xs)
  case (Cons x xs)
  obtain y where "f x = Inr y" "P x y" using Cons.prems by auto
  moreover obtain ys where "mapE f xs = Inr ys" "list_all2 P xs ys" using Cons.IH Cons.prems by auto
  ultimately show ?case by simp
qed simp

lemma mapE_Inr_all2: "mapE f xs = Inr ys \<Longrightarrow> list_all2 (\<lambda>x y. f x = Inr y) xs ys"
  by (induction xs arbitrary: ys) (auto simp: bindE_eq_Inr)

lemma mapE_set: "mapE f xs = Inr ys \<Longrightarrow> y \<in> set ys \<Longrightarrow> \<exists>x \<in> set xs. f x = Inr y"
  by (induction xs arbitrary: ys) (auto simp: bindE_eq_Inr)

section \<open>Characters\<close>

text \<open>\<open>str.isspace\<close> on code points below 256.\<close>

definition is_space :: "char \<Rightarrow> bool" where
  "is_space c = (of_char c \<in> {9, 10, 11, 12, 13, 28, 29, 30, 31, 32, 133, 160 :: int})"

text \<open>The line boundaries of \<open>str.splitlines\<close> below code point 256.\<close>

definition is_break :: "char \<Rightarrow> bool" where
  "is_break c = (of_char c \<in> {10, 11, 12, 13, 28, 29, 30, 133 :: int})"

definition is_digit :: "char \<Rightarrow> bool" where
  "is_digit c = (48 \<le> (of_char c :: int) \<and> (of_char c :: int) \<le> 57)"

definition is_upper :: "char \<Rightarrow> bool" where
  "is_upper c = (65 \<le> (of_char c :: int) \<and> (of_char c :: int) \<le> 90)"

definition is_lower :: "char \<Rightarrow> bool" where
  "is_lower c = (97 \<le> (of_char c :: int) \<and> (of_char c :: int) \<le> 122)"

definition is_alpha :: "char \<Rightarrow> bool" where
  "is_alpha c = (is_upper c \<or> is_lower c)"

definition is_alnum :: "char \<Rightarrow> bool" where
  "is_alnum c = (is_alpha c \<or> is_digit c)"

definition is_hex_digit :: "char \<Rightarrow> bool" where
  "is_hex_digit c = (is_digit c \<or> (65 \<le> (of_char c :: int) \<and> (of_char c :: int) \<le> 70)
                    \<or> (97 \<le> (of_char c :: int) \<and> (of_char c :: int) \<le> 102))"

definition upper_char :: "char \<Rightarrow> char" where
  "upper_char c = (if is_lower c then char_of ((of_char c :: int) - 32) else c)"

definition lower_char :: "char \<Rightarrow> char" where
  "lower_char c = (if is_upper c then char_of ((of_char c :: int) + 32) else c)"

abbreviation py_upper :: "string \<Rightarrow> string" where
  "py_upper s \<equiv> map upper_char s"

abbreviation py_lower :: "string \<Rightarrow> string" where
  "py_lower s \<equiv> map lower_char s"

definition hex_val :: "char \<Rightarrow> int" where
  "hex_val c = (let n = of_char c in
     if n \<le> 57 then n - 48 else if n \<le> 70 then n - 55 else n - 87)"

definition digit_char :: "nat \<Rightarrow> char" where
  "digit_char n = char_of (48 + int n)"

lemma is_break_is_space: "is_break c \<Longrightarrow> is_space c"
  by (auto simp: is_break_def is_space_def)

lemma is_digit_not_space [str_simps]: "is_digit c \<Longrightarrow> \<not> is_space c"
  by (auto simp: is_digit_def is_space_def)

lemma is_digit_not_break [str_simps]: "is_digit c \<Longrightarrow> \<not> is_break c"
  using is_break_is_space is_digit_not_space by blast

lemma is_alnum_not_space [str_simps]: "is_alnum c \<Longrightarrow> \<not> is_space c"
  by (auto simp: is_alnum_def is_alpha_def is_upper_def is_lower_def is_digit_def is_space_def)

lemma of_char_digit_char [simp]: "n < 10 \<Longrightarrow> of_char (digit_char n) = 48 + int n"
  by (simp add: digit_char_def)

lemma is_digit_digit_char [str_simps]: "n < 10 \<Longrightarrow> is_digit (digit_char n)"
  by (simp add: is_digit_def)

lemma upper_char_idem [simp]: "upper_char (upper_char c) = upper_char c"
proof (cases "is_lower c")
  case True
  then have "of_char (upper_char c) = (of_char c :: int) - 32"
    by (auto simp: upper_char_def is_lower_def)
  with True have "\<not> is_lower (upper_char c)"
    by (auto simp: is_lower_def)
  then show ?thesis by (simp add: upper_char_def [of "upper_char c"])
next
  case False
  then show ?thesis by (simp add: upper_char_def)
qed

lemma py_upper_idem [simp]: "py_upper (py_upper s) = py_upper s"
  by simp

section \<open>Strings\<close>

definition lstrip :: "string \<Rightarrow> string" where
  "lstrip s = dropWhile is_space s"

definition rstrip :: "string \<Rightarrow> string" where
  "rstrip s = rev (dropWhile is_space (rev s))"

definition strip :: "string \<Rightarrow> string" where
  "strip s = rstrip (lstrip s)"

text \<open>\<open>s.strip\<close> of double quotes.\<close>

definition strip_quotes :: "string \<Rightarrow> string" where
  "strip_quotes s = rev (dropWhile (\<lambda>c. c = CHR 0x22) (rev (dropWhile (\<lambda>c. c = CHR 0x22) s)))"

definition starts_with :: "string \<Rightarrow> string \<Rightarrow> bool" where
  "starts_with p s = (take (length p) s = p)"

definition ends_with :: "string \<Rightarrow> string \<Rightarrow> bool" where
  "ends_with p s = starts_with (rev p) (rev s)"

fun contains :: "string \<Rightarrow> string \<Rightarrow> bool" where
  "contains p [] = (p = [])"
| "contains p (c # s) = (starts_with p (c # s) \<or> contains p s)"

text \<open>\<open>s.split(c, n)\<close>: at most \<open>n\<close> splits at the character \<open>c\<close>.\<close>

fun split_max :: "char \<Rightarrow> nat \<Rightarrow> string \<Rightarrow> string list" where
  "split_max c 0 s = [s]"
| "split_max c (Suc n) s =
     (case dropWhile (\<lambda>d. d \<noteq> c) s of
        [] \<Rightarrow> [s]
      | _ # r \<Rightarrow> takeWhile (\<lambda>d. d \<noteq> c) s # split_max c n r)"

text \<open>\<open>s.partition(c)\<close>: the part before the separator, whether it occurs, the part after.\<close>

definition partition_at :: "char \<Rightarrow> string \<Rightarrow> string \<times> bool \<times> string" where
  "partition_at c s =
     (case dropWhile (\<lambda>d. d \<noteq> c) s of
        [] \<Rightarrow> (s, False, [])
      | _ # r \<Rightarrow> (takeWhile (\<lambda>d. d \<noteq> c) s, True, r))"

text \<open>\<open>s.replace(old, new)\<close> for a non-empty \<open>old\<close>.\<close>

fun replace_skip :: "nat \<Rightarrow> string \<Rightarrow> string \<Rightarrow> string \<Rightarrow> string" where
  "replace_skip k old new [] = []"
| "replace_skip (Suc k) old new (c # cs) = replace_skip k old new cs"
| "replace_skip 0 old new (c # cs) =
     (if starts_with old (c # cs) then new @ replace_skip (length old - 1) old new cs
      else c # replace_skip 0 old new cs)"

definition replace_all :: "string \<Rightarrow> string \<Rightarrow> string \<Rightarrow> string" where
  "replace_all old new s = replace_skip 0 old new s"

text \<open>\<open>s.split()\<close>: the runs without white space.\<close>

function split_blanks :: "string \<Rightarrow> string list" where
  "split_blanks s =
     (case dropWhile is_space s of
        [] \<Rightarrow> []
      | c # cs \<Rightarrow> (c # takeWhile (\<lambda>d. \<not> is_space d) cs) # split_blanks (dropWhile (\<lambda>d. \<not> is_space d) cs))"
  by pat_completeness auto
termination
proof (relation "measure length")
  fix s c cs
  assume "dropWhile is_space s = c # cs"
  then have "Suc (length cs) \<le> length s" using length_dropWhile_le [of is_space s] by simp
  moreover have "length (dropWhile (\<lambda>d. \<not> is_space d) cs) \<le> length cs" by (rule length_dropWhile_le)
  ultimately show "(dropWhile (\<lambda>d. \<not> is_space d) cs, s) \<in> measure length" by simp
qed simp

declare split_blanks.simps [simp del]

text \<open>Replacing a pair of characters by the pair with a blank between them leaves no such pair.\<close>

definition has_pair :: "char \<Rightarrow> char \<Rightarrow> string \<Rightarrow> bool" where
  "has_pair a b s = (\<exists>p q. s = p @ a # b # q)"

lemma has_pair_Nil [simp]: "\<not> has_pair a b []"
  by (simp add: has_pair_def)

lemma has_pair_Cons: "has_pair a b (x # s) \<longleftrightarrow> (x = a \<and> (\<exists>q. s = b # q)) \<or> has_pair a b s"
  unfolding has_pair_def by (metis append_Cons append_Nil list.exhaust list.inject)

lemma has_pair_Cons2 [simp]: "has_pair a b (x # y # s) \<longleftrightarrow> (x = a \<and> y = b) \<or> has_pair a b (y # s)"
  by (simp add: has_pair_Cons [of a b x])

lemma has_pair_single [simp]: "\<not> has_pair a b [x]"
  by (simp add: has_pair_Cons)

lemma replace_pair:
  "replace_all [a, b] new (x # y # s) =
     (if x = a \<and> y = b then new @ replace_all [a, b] new s else x # replace_all [a, b] new (y # s))"
  by (simp add: replace_all_def starts_with_def)

lemma replace_pair_short [simp]: "replace_all [a, b] new [] = []" "replace_all [a, b] new [x] = [x]"
  by (simp_all add: replace_all_def starts_with_def)

fun pairs_of :: "string \<Rightarrow> string list" where
  "pairs_of (x # y # s) = [x, y] # pairs_of (y # s) @ pairs_of s"
| "pairs_of _ = []"

lemma spaced_no_pair:
  assumes "a \<noteq> b" "a \<noteq> CHR '' ''" "b \<noteq> CHR '' ''" "c \<noteq> CHR '' ''" "d \<noteq> CHR '' ''"
  shows "\<not> has_pair a b (replace_all [a, b] [a, CHR '' '', b] s) \<and>
    (s \<noteq> [] \<longrightarrow> (\<exists>r. replace_all [a, b] [a, CHR '' '', b] s = hd s # r)) \<and>
    (\<not> has_pair c d s \<longrightarrow> \<not> has_pair c d (replace_all [a, b] [a, CHR '' '', b] s))"
proof (induction s rule: pairs_of.induct)
  case (1 x y s)
  let ?r = "replace_all [a, b] [a, CHR '' '', b]"
  obtain r where r: "?r (y # s) = y # r" using "1.IH"(1) by auto
  show ?case
  proof (cases "x = a \<and> y = b")
    case True
    show ?thesis
    proof (cases s)
      case (Cons z zs)
      then obtain q where "?r s = z # q" using "1.IH"(2) by auto
      then show ?thesis using "1.IH"(2) True assms Cons by (auto simp: replace_pair)
    qed (use True assms in \<open>simp add: replace_pair\<close>)
  next
    case False
    then show ?thesis using "1.IH"(1) r by (auto simp: replace_pair)
  qed
qed simp_all

fun join :: "string \<Rightarrow> string list \<Rightarrow> string" where
  "join sep [] = []"
| "join sep [x] = x"
| "join sep (x # y # xs) = x @ sep @ join sep (y # xs)"

text \<open>\<open>str.splitlines\<close>: CR LF is one break, a final break opens no empty line.\<close>

fun drop_break :: "string \<Rightarrow> string" where
  "drop_break [] = []"
| "drop_break (c # cs) =
     (if of_char c = (13 :: int) \<and> cs \<noteq> [] \<and> of_char (hd cs) = (10 :: int) then tl cs else cs)"

lemma length_drop_break: "length (drop_break s) \<le> length s - 1"
  by (cases s) auto

function splitlines :: "string \<Rightarrow> string list" where
  "splitlines s =
     (if s = [] then []
      else takeWhile (\<lambda>c. \<not> is_break c) s
           # splitlines (drop_break (dropWhile (\<lambda>c. \<not> is_break c) s)))"
  by pat_completeness auto
termination
proof (relation "measure length")
  fix s :: string
  assume "s \<noteq> []"
  have "length (dropWhile (\<lambda>c. \<not> is_break c) s) \<le> length s"
    by (rule length_dropWhile_le)
  moreover have "length (drop_break (dropWhile (\<lambda>c. \<not> is_break c) s))
      \<le> length (dropWhile (\<lambda>c. \<not> is_break c) s) - 1"
    by (rule length_drop_break)
  ultimately have "length (drop_break (dropWhile (\<lambda>c. \<not> is_break c) s)) < length s"
    using \<open>s \<noteq> []\<close> by (cases s) auto
  then show "(drop_break (dropWhile (\<lambda>c. \<not> is_break c) s), s) \<in> measure length" by simp
qed simp

declare splitlines.simps [simp del]

definition newline :: char where
  "newline = CHR 0x0A"

text \<open>A stripped string has no white space at either end.\<close>

definition stripped :: "string \<Rightarrow> bool" where
  "stripped s = (s = [] \<or> (\<not> is_space (hd s) \<and> \<not> is_space (last s)))"

lemma strip_Nil [simp]: "strip [] = []"
  by (simp add: strip_def lstrip_def rstrip_def)

lemma strip_stripped [str_simps]: "stripped s \<Longrightarrow> strip s = s"
proof (cases s)
  case (Cons c cs)
  assume "stripped s"
  with Cons have a: "\<not> is_space c" and b: "\<not> is_space (last s)"
    by (auto simp: stripped_def)
  from a Cons have "lstrip s = s" by (simp add: lstrip_def)
  moreover have "rstrip s = s"
  proof -
    from Cons have "rev s = last s # rev (butlast s)"
      by (metis append_butlast_last_id list.distinct(1) rev_eq_Cons_iff rev_rev_ident)
    with b have "dropWhile is_space (rev s) = rev s"
      by (metis dropWhile.simps(2))
    then show ?thesis by (simp add: rstrip_def)
  qed
  ultimately show ?thesis by (simp add: strip_def)
qed simp

lemma rstrip_last: "rstrip s \<noteq> [] \<Longrightarrow> \<not> is_space (last (rstrip s))"
  by (simp add: rstrip_def last_rev hd_dropWhile)

lemma rstrip_prefix: "\<exists>t. s = rstrip s @ t"
proof -
  have "rev s = takeWhile is_space (rev s) @ dropWhile is_space (rev s)" by simp
  then have "s = rev (dropWhile is_space (rev s)) @ rev (takeWhile is_space (rev s))"
    by (metis rev_append rev_rev_ident)
  then show ?thesis unfolding rstrip_def by blast
qed

lemma stripped_strip [str_simps]: "stripped (strip s)"
proof (cases "strip s = []")
  case True
  then show ?thesis by (simp add: stripped_def)
next
  case False
  obtain t where t: "lstrip s = strip s @ t"
    using rstrip_prefix unfolding strip_def by blast
  with False have "hd (strip s) = hd (lstrip s)" by (metis hd_append2)
  moreover from t False have "lstrip s \<noteq> []" by auto
  then have "\<not> is_space (hd (lstrip s))"
    unfolding lstrip_def by (rule hd_dropWhile)
  ultimately show ?thesis
    using False rstrip_last [of "lstrip s"] by (simp add: stripped_def strip_def)
qed

lemma strip_idem [simp]: "strip (strip s) = strip s"
  by (simp add: strip_stripped stripped_strip)

lemma set_strip: "set (strip s) \<subseteq> set s"
proof
  fix c assume "c \<in> set (strip s)"
  then have "c \<in> set (rev (dropWhile is_space s))"
    unfolding strip_def rstrip_def lstrip_def set_rev [of "dropWhile _ (rev _)"]
    by (rule set_dropWhileD)
  then show "c \<in> set s" by (auto dest: set_dropWhileD)
qed

lemma splitlines_no_break: "l \<in> set (splitlines s) \<Longrightarrow> c \<in> set l \<Longrightarrow> \<not> is_break c"
proof (induction s rule: splitlines.induct)
  case (1 s)
  then show ?case
    by (subst (asm) (2) splitlines.simps) (auto split: if_splits dest: set_takeWhileD)
qed

lemma splitlines_step:
  assumes "\<And>c. c \<in> set l \<Longrightarrow> \<not> is_break c"
  shows "splitlines (l @ newline # s) = l # splitlines s"
proof -
  have nl: "is_break newline" by (simp add: newline_def is_break_def)
  have "dropWhile (\<lambda>c. \<not> is_break c) (l @ newline # s) = newline # s"
    using assms nl by (induction l) auto
  moreover have "takeWhile (\<lambda>c. \<not> is_break c) (l @ newline # s) = l"
    using assms nl by (induction l) auto
  moreover have "drop_break (newline # s) = s"
    by (simp add: newline_def)
  ultimately show ?thesis
    by (subst splitlines.simps) simp
qed

lemma splitlines_Nil [simp]: "splitlines [] = []"
  by (simp add: splitlines.simps)

text \<open>Joining break-free lines with newlines and splitting again is the identity.\<close>

lemma splitlines_join:
  assumes "\<And>l c. l \<in> set ls \<Longrightarrow> c \<in> set l \<Longrightarrow> \<not> is_break c" and "ls \<noteq> []"
  shows "splitlines (join [newline] ls @ [newline]) = ls"
  using assms
proof (induction "[newline]" ls rule: join.induct)
  case 1
  then show ?case by simp
next
  case (2 x)
  then show ?case using splitlines_step [of x "[]"] by simp
next
  case (3 x y xs)
  have "splitlines (join [newline] (y # xs) @ [newline]) = y # xs"
    by (rule 3(1)) (use 3(2) in auto)
  moreover have "join [newline] (x # y # xs) @ [newline]
      = x @ newline # (join [newline] (y # xs) @ [newline])"
    by simp
  ultimately show ?case
    using splitlines_step [of x "join [newline] (y # xs) @ [newline]"] 3(2) [of x] by simp
qed

lemma split_max_step [str_simps]:
  assumes "c \<notin> set l"
  shows "split_max c (Suc n) (l @ c # s) = l # split_max c n s"
proof -
  have "dropWhile (\<lambda>d. d \<noteq> c) (l @ c # s) = c # s"
    using assms by (induction l) auto
  moreover have "takeWhile (\<lambda>d. d \<noteq> c) (l @ c # s) = l"
    using assms by (induction l) auto
  ultimately show ?thesis by simp
qed

lemma split_max_parts:
  "p \<in> set (split_max c n s) \<Longrightarrow> set p \<subseteq> set s"
proof (induction n arbitrary: s p)
  case 0
  then show ?case by simp
next
  case (Suc n)
  show ?case
  proof (cases "dropWhile (\<lambda>d. d \<noteq> c) s")
    case Nil
    with Suc.prems show ?thesis by simp
  next
    case (Cons d r)
    then have "set r \<subseteq> set s"
      by (metis set_dropWhileD set_subset_Cons subset_iff)
    with Suc Cons show ?thesis
      by (auto dest: set_takeWhileD)
  qed
qed

lemma split_max_no_sep:
  assumes "split_max c (Suc n) s = p # q # ps"
  shows "c \<notin> set p"
  using assms by (auto split: list.splits dest: set_takeWhileD)

section \<open>Integers\<close>

text \<open>\<open>str(n)\<close>: decimal digits of a non-negative number, with a sign for an integer.\<close>

function show_pos :: "int \<Rightarrow> string" where
  "show_pos n = (if n < 10 then [digit_char (nat n)]
                 else show_pos (n div 10) @ [digit_char (nat (n mod 10))])"
  by pat_completeness auto
termination
  by (relation "measure nat") auto

declare show_pos.simps [simp del]

definition show_int :: "int \<Rightarrow> string" where
  "show_int i = (if i < 0 then CHR ''-'' # show_pos (- i) else show_pos i)"

definition show_nat :: "nat \<Rightarrow> string" where
  "show_nat n = show_pos (int n)"

text \<open>
  The digit string of \<open>int\<close>: digits of a base, single underscores allowed between them (and
  before them when \<open>u\<close>, as after a base prefix).
\<close>

fun digits_ok :: "(char \<Rightarrow> bool) \<Rightarrow> bool \<Rightarrow> string \<Rightarrow> bool" where
  "digits_ok P u [] = False"
| "digits_ok P u (c # cs) =
     (if P c then cs = [] \<or> digits_ok P True cs
      else u \<and> c = CHR ''_'' \<and> cs \<noteq> [] \<and> P (hd cs) \<and> digits_ok P True cs)"

fun read_base :: "int \<Rightarrow> int \<Rightarrow> string \<Rightarrow> int" where
  "read_base b acc [] = acc"
| "read_base b acc (c # cs) =
     (if c = CHR ''_'' then read_base b acc cs else read_base b (acc * b + hex_val c) cs)"

definition read_nat :: "string \<Rightarrow> nat" where
  "read_nat s = nat (read_base 10 0 s)"

definition split_sign :: "string \<Rightarrow> int \<times> string" where
  "split_sign s = (case s of
     [] \<Rightarrow> (1, [])
   | c # cs \<Rightarrow> if c = CHR ''-'' then (-1, cs) else if c = CHR ''+'' then (1, cs) else (1, s))"

text \<open>\<open>int(text, 10)\<close>; \<open>None\<close> is \<open>ValueError\<close>.\<close>

definition int_base10 :: "string \<Rightarrow> int option" where
  "int_base10 s = (let (sg, ds) = split_sign (strip s) in
     if digits_ok is_digit False ds then Some (sg * read_base 10 0 ds) else None)"

definition int_base16 :: "string \<Rightarrow> int option" where
  "int_base16 s = (let (sg, ds) = split_sign (strip s);
       (lead, hs) = (if starts_with ''0x'' (py_lower ds) then (True, drop 2 ds) else (False, ds)) in
     if digits_ok is_hex_digit lead hs then Some (sg * read_base 16 0 hs) else None)"

text \<open>\<open>int(text, 0)\<close>: the base comes from the prefix; a decimal has no leading zero.\<close>

definition is_base_digit :: "int \<Rightarrow> char \<Rightarrow> bool" where
  "is_base_digit b c = (is_hex_digit c \<and> hex_val c < b)"

definition int_base0 :: "string \<Rightarrow> int option" where
  "int_base0 s = (let (sg, ds) = split_sign (strip s); p = take 2 (py_lower ds) in
     if p = ''0x'' then (if digits_ok (is_base_digit 16) True (drop 2 ds)
                         then Some (sg * read_base 16 0 (drop 2 ds)) else None)
     else if p = ''0o'' then (if digits_ok (is_base_digit 8) True (drop 2 ds)
                         then Some (sg * read_base 8 0 (drop 2 ds)) else None)
     else if p = ''0b'' then (if digits_ok (is_base_digit 2) True (drop 2 ds)
                         then Some (sg * read_base 2 0 (drop 2 ds)) else None)
     else if digits_ok is_digit False ds
             \<and> (hd ds = CHR ''0'' \<longrightarrow> read_base 10 0 ds = 0)
          then Some (sg * read_base 10 0 ds) else None)"

lemma show_pos_digits: "0 \<le> n \<Longrightarrow> c \<in> set (show_pos n) \<Longrightarrow> is_digit c"
proof (induction n rule: show_pos.induct)
  case (1 n)
  show ?case
  proof (cases "n < 10")
    case True
    with 1 show ?thesis by (subst (asm) (2) show_pos.simps) (simp add: is_digit_digit_char)
  next
    case False
    with 1(3) have "c \<in> set (show_pos (n div 10)) \<or> c = digit_char (nat (n mod 10))"
      by (subst (asm) show_pos.simps) auto
    with 1(1) [OF False] 1(2) show ?thesis by (auto simp: is_digit_digit_char)
  qed
qed

lemma show_pos_not_Nil [simp]: "show_pos n \<noteq> []"
  by (subst show_pos.simps) simp

lemma read_base_append: "read_base b acc (xs @ ys) = read_base b (read_base b acc xs) ys"
  by (induction xs arbitrary: acc) auto

lemma hex_val_digit_char: "n < 10 \<Longrightarrow> hex_val (digit_char n) = int n"
  by (simp add: hex_val_def)

lemma digit_char_not_under: "n < 10 \<Longrightarrow> digit_char n \<noteq> CHR ''_''"
proof
  assume "n < 10" and "digit_char n = CHR ''_''"
  then have "of_char CHR ''_'' = 48 + int n" by (metis of_char_digit_char)
  with \<open>n < 10\<close> show False by simp
qed

lemma read_base_show_pos [simp]: "0 \<le> n \<Longrightarrow> read_base 10 0 (show_pos n) = n"
proof (induction n rule: show_pos.induct)
  case (1 n)
  show ?case
  proof (cases "n < 10")
    case True
    with 1(2) show ?thesis
      by (subst show_pos.simps) (simp add: hex_val_digit_char digit_char_not_under)
  next
    case False
    have m: "nat (n mod 10) < 10" by simp
    from False 1 have "read_base 10 0 (show_pos (n div 10)) = n div 10" by simp
    with False show ?thesis
      by (subst show_pos.simps)
        (simp add: read_base_append hex_val_digit_char [OF m] digit_char_not_under [OF m])
  qed
qed

lemma digits_ok_digits: "s \<noteq> [] \<Longrightarrow> \<forall>c\<in>set s. P c \<Longrightarrow> digits_ok P u s"
  by (induction s arbitrary: u) auto

lemma digits_ok_show_pos: "0 \<le> n \<Longrightarrow> digits_ok is_digit u (show_pos n)"
  by (rule digits_ok_digits) (auto dest: show_pos_digits)

lemma hd_show_pos: "0 \<le> n \<Longrightarrow> is_digit (hd (show_pos n))"
  by (rule show_pos_digits [of n]) simp_all

lemma split_sign_digits:
  assumes "s \<noteq> []" and "is_digit (hd s)"
  shows "split_sign s = (1, s)"
  using assms by (cases s) (auto simp: split_sign_def is_digit_def)

lemma split_sign_show_pos: "0 \<le> n \<Longrightarrow> split_sign (show_pos n) = (1, show_pos n)"
  by (rule split_sign_digits) (simp_all add: hd_show_pos)

lemma stripped_digits: "\<forall>c\<in>set s. is_digit c \<Longrightarrow> stripped s"
  by (auto simp: stripped_def is_digit_not_space)

lemma stripped_show_pos: "0 \<le> n \<Longrightarrow> stripped (show_pos n)"
  by (rule stripped_digits) (auto dest: show_pos_digits)

lemma int_base10_show_pos: "0 \<le> n \<Longrightarrow> int_base10 (show_pos n) = Some n"
  by (simp add: int_base10_def strip_stripped stripped_show_pos split_sign_show_pos digits_ok_show_pos)

lemma show_pos_hd_zero: "0 \<le> n \<Longrightarrow> hd (show_pos n) = CHR ''0'' \<Longrightarrow> n = 0"
proof (induction n rule: show_pos.induct)
  case (1 n)
  show ?case
  proof (cases "n < 10")
    case True
    with 1(3) have "digit_char (nat n) = CHR ''0''" by (subst (asm) show_pos.simps) simp
    then have "(of_char (digit_char (nat n)) :: int) = 48" by simp
    with True 1(2) show ?thesis by simp
  next
    case False
    with 1(3) have "hd (show_pos (n div 10)) = CHR ''0''" by (subst (asm) show_pos.simps) simp
    with 1 False have "n div 10 = 0" by simp
    with False show ?thesis by simp
  qed
qed

lemma take2_show_pos:
  assumes "0 \<le> n" and "take 2 (py_lower (show_pos n)) = [a, b]"
  shows "is_digit b"
proof -
  from assms have l: "2 \<le> length (show_pos n)"
    by (cases "show_pos n" rule: list.exhaust; cases "tl (show_pos n)") auto
  have "b = lower_char (show_pos n ! 1)"
    using assms l by (metis One_nat_def Suc_1 Suc_le_lessD lessI nth_Cons_0 nth_Cons_Suc nth_map nth_take)
  moreover have d: "is_digit (show_pos n ! 1)"
    using l assms(1) by (intro show_pos_digits [of n]) simp_all
  then have "lower_char (show_pos n ! 1) = show_pos n ! 1"
    by (auto simp: lower_char_def is_digit_def is_upper_def)
  ultimately show ?thesis using d by simp
qed

lemma int_base0_show_pos:
  assumes "0 \<le> n"
  shows "int_base0 (show_pos n) = Some n"
proof -
  have p: "take 2 (py_lower (show_pos n)) \<noteq> [a, b]" if "\<not> is_digit b" for a b
    using take2_show_pos assms that by blast
  have nb: "\<not> is_digit CHR ''x''" "\<not> is_digit CHR ''o''" "\<not> is_digit CHR ''b''"
    by (simp_all add: is_digit_def)
  show ?thesis
    using assms p nb show_pos_hd_zero [of n]
    by (simp add: int_base0_def Let_def strip_stripped stripped_show_pos split_sign_show_pos
        digits_ok_show_pos)
qed

lemma show_nat_digits: "c \<in> set (show_nat n) \<Longrightarrow> is_digit c"
  unfolding show_nat_def by (rule show_pos_digits) simp_all

lemma show_nat_not_Nil [simp]: "show_nat n \<noteq> []"
  by (simp add: show_nat_def)

lemma read_show_nat [simp]: "read_nat (show_nat n) = n"
  by (simp add: read_nat_def show_nat_def)

section \<open>Insertion-ordered dictionaries\<close>

text \<open>
  A Python dict is an association list with distinct keys, in insertion order. Storing under an
  existing key keeps its position; a new key goes to the end.
\<close>

type_synonym ('k, 'v) dict = "('k \<times> 'v) list"

abbreviation dget :: "('k, 'v) dict \<Rightarrow> 'k \<Rightarrow> 'v option" where
  "dget d k \<equiv> map_of d k"

fun dset :: "'k \<Rightarrow> 'v \<Rightarrow> ('k, 'v) dict \<Rightarrow> ('k, 'v) dict" where
  "dset k v [] = [(k, v)]"
| "dset k v ((k', v') # d) = (if k' = k then (k, v) # d else (k', v') # dset k v d)"

abbreviation dkeys :: "('k, 'v) dict \<Rightarrow> 'k list" where
  "dkeys d \<equiv> map fst d"

definition dmem :: "'k \<Rightarrow> ('k, 'v) dict \<Rightarrow> bool" where
  "dmem k d = (k \<in> set (dkeys d))"

definition dsetdefault :: "'k \<Rightarrow> 'v \<Rightarrow> ('k, 'v) dict \<Rightarrow> ('k, 'v) dict" where
  "dsetdefault k v d = (if dmem k d then d else dset k v d)"

definition dpop :: "'k \<Rightarrow> ('k, 'v) dict \<Rightarrow> ('k, 'v) dict" where
  "dpop k d = filter (\<lambda>(k', _). k' \<noteq> k) d"

text \<open>\<open>d.update(pairs)\<close> and dictionary displays insert the pairs in order.\<close>

definition dupdate :: "('k, 'v) dict \<Rightarrow> ('k \<times> 'v) list \<Rightarrow> ('k, 'v) dict" where
  "dupdate d kvs = foldl (\<lambda>d (k, v). dset k v d) d kvs"

abbreviation dict_of :: "('k \<times> 'v) list \<Rightarrow> ('k, 'v) dict" where
  "dict_of kvs \<equiv> dupdate [] kvs"

definition dict_ok :: "('k, 'v) dict \<Rightarrow> bool" where
  "dict_ok d = distinct (dkeys d)"

lemma dget_dset [dict_simps]: "dget (dset k v d) k' = (if k' = k then Some v else dget d k')"
  by (induction d) auto

lemma set_dkeys_dset [dict_simps]: "fst ` set (dset k v d) = insert k (fst ` set d)"
proof (induction d)
  case (Cons kv d)
  then show ?case by (cases kv; cases "fst kv = k") (simp_all add: insert_commute)
qed simp

lemma dset_mem: "e \<in> set (dset k v d) \<Longrightarrow> e = (k, v) \<or> e \<in> set d"
  by (induction d) (auto split: if_splits)

lemma dkeys_dset_mem [dict_simps]: "k \<in> fst ` set d \<Longrightarrow> dkeys (dset k v d) = dkeys d"
proof (induction d)
  case (Cons kv d)
  then show ?case by (cases kv; cases "fst kv = k") simp_all
qed simp

lemma dset_new [dict_simps]: "k \<notin> fst ` set d \<Longrightarrow> dset k v d = d @ [(k, v)]"
proof (induction d)
  case (Cons kv d)
  then show ?case by (cases kv) auto
qed simp

lemma dict_ok_dset [dict_simps]: "dict_ok d \<Longrightarrow> dict_ok (dset k v d)"
proof (induction d)
  case (Cons kv d)
  then show ?case
    by (cases kv; cases "fst kv = k") (simp_all add: dict_ok_def set_dkeys_dset)
qed (simp add: dict_ok_def)

lemma dict_ok_Nil [simp]: "dict_ok []"
  by (simp add: dict_ok_def)

lemma dmem_iff [dict_simps]: "dmem k d \<longleftrightarrow> dget d k \<noteq> None"
  by (simp add: dmem_def map_of_eq_None_iff)

lemma dupdate_Nil [simp]: "dupdate d [] = d"
  by (simp add: dupdate_def)

lemma dupdate_Cons [simp]: "dupdate d (kv # kvs) = dupdate (dset (fst kv) (snd kv) d) kvs"
  by (simp add: dupdate_def split_beta)

text \<open>
  The interface the clients of a keyed store rely on: a lookup after a store sees the stored
  value under that key and nothing else changes. What a sequence of stores leaves behind
  follows from this law alone.
\<close>

locale keyed_store =
  fixes get :: "'s \<Rightarrow> 'k \<Rightarrow> 'v option" and put :: "'k \<Rightarrow> 'v \<Rightarrow> 's \<Rightarrow> 's"
  assumes get_put: "get (put k v s) k' = (if k' = k then Some v else get s k')"
begin

lemma get_put_same [simp]: "get (put k v s) k = Some v"
  by (simp add: get_put)

lemma get_put_other [simp]: "k' \<noteq> k \<Longrightarrow> get (put k v s) k' = get s k'"
  by (simp add: get_put)

lemma get_foldl_put:
  "get (foldl (\<lambda>s (k, v). put k v s) s kvs) k =
     (case map_of (rev kvs) k of None \<Rightarrow> get s k | Some v \<Rightarrow> Some v)"
proof (induction kvs rule: rev_induct)
  case (snoc kv kvs)
  then show ?case by (cases kv) (auto simp: get_put)
qed simp

end

interpretation od: keyed_store dget dset
  by unfold_locales (rule dget_dset)

lemma dget_dupdate [dict_simps]:
  "dget (dupdate d kvs) k = (case dget (rev kvs) k of None \<Rightarrow> dget d k | Some v \<Rightarrow> Some v)"
  unfolding dupdate_def by (rule od.get_foldl_put)

lemma dict_ok_dupdate [dict_simps]: "dict_ok d \<Longrightarrow> dict_ok (dupdate d kvs)"
  by (induction kvs arbitrary: d) (auto simp: dict_ok_dset)

lemma set_dkeys_dupdate [dict_simps]:
  "fst ` set (dupdate d kvs) = fst ` set d \<union> fst ` set kvs"
  by (induction kvs arbitrary: d) (simp_all add: set_dkeys_dset)

lemma dkeys_dupdate_subset [dict_simps]:
  "fst ` set kvs \<subseteq> fst ` set d \<Longrightarrow> dkeys (dupdate d kvs) = dkeys d"
proof (induction kvs arbitrary: d)
  case (Cons kv kvs)
  then show ?case using Cons.IH [of "dset (fst kv) (snd kv) d"]
    by (simp add: set_dkeys_dset dkeys_dset_mem insert_absorb)
qed simp

lemma dict_of_distinct [dict_simps]:
  assumes "distinct (map fst (d @ kvs))"
  shows "dupdate d kvs = d @ kvs"
  using assms
proof (induction kvs arbitrary: d)
  case (Cons kv kvs)
  obtain k v where kv: "kv = (k, v)" by force
  with Cons.prems have "k \<notin> fst ` set d" by auto
  then have "dset k v d = d @ [(k, v)]" by (simp add: dset_new)
  with Cons kv show ?case by simp
qed simp

lemma dict_eqI:
  assumes "dkeys d = dkeys e" and "dict_ok d"
    and "\<And>k. k \<in> set (dkeys d) \<Longrightarrow> dget d k = dget e k"
  shows "d = e"
  using assms
proof (induction d arbitrary: e)
  case (Cons kv d)
  obtain k v where kv: "kv = (k, v)" by force
  with Cons.prems(1) obtain v' e' where e: "e = (k, v') # e'" "dkeys e' = dkeys d"
    by (cases e) auto
  have "v' = v" using Cons.prems(3) [of k] kv e by simp
  moreover have "dget d k' = dget e' k'" if "k' \<in> set (dkeys d)" for k'
    using Cons.prems(2) Cons.prems(3) [of k'] kv e that by (auto simp: dict_ok_def split: if_splits)
  then have "d = e'" using Cons.IH [of e'] Cons.prems(2) e kv by (simp add: dict_ok_def)
  ultimately show ?case using e kv by simp
qed simp

end
