(* ===== verification/Llvm_Layout.thy ===== *)
theory Llvm_Layout
  imports Py_Prelude
begin

text \<open>
  The LLVM IR reader of \<open>compiler/harness/llvm_ir.py\<close>: the type representation, the type parser
  and the x86_64 layout computation (\<open>size_align\<close>, \<open>struct_size_align\<close>,
  \<open>struct_field_layout\<close>). The layout recursion threads the cache of named types exactly as the
  code does; its fuel counts nested expansions of named types and is shown to be enough when it
  is the number of definitions.
\<close>

section \<open>Types\<close>

datatype llvm_type =
    LInt nat
  | LFloat nat
  | LPtr
  | LVoid
  | LArray nat llvm_type
  | LVector nat llvm_type
  | LStruct "llvm_type list"
  | LNamed string

datatype llvm_error =
    AssertionFailed
  | UnsupportedType string
  | UndefinedNamed string
  | OutOfFuel

type_synonym llvm_defs = "(string, llvm_type) dict"
type_synonym layout_cache = "(string, nat \<times> nat) dict"

section \<open>Parsing\<close>

text \<open>\<open>split_fields\<close>: split at commas outside every bracket; an empty tail is dropped.\<close>

definition nest :: "int \<Rightarrow> char \<Rightarrow> int" where
  "nest depth ch = (if ch \<in> set ''[{<('' then depth + 1
                    else if ch \<in> set '']}>)'' then depth - 1 else depth)"

fun split_go :: "int \<Rightarrow> string \<Rightarrow> string \<Rightarrow> string list" where
  "split_go depth cur [] = (let tail = strip cur in if tail = [] then [] else [tail])"
| "split_go depth cur (ch # body) =
     (let d = nest depth ch in
      if ch = CHR '','' \<and> d = 0 then strip cur # split_go d [] body
      else split_go d (cur @ [ch]) body)"

definition split_fields :: "string \<Rightarrow> string list" where
  "split_fields body = split_go 0 [] body"

text \<open>The match of \<open>^(\d+)\s*x\s*(.*)$\<close>: the count and the element text.\<close>

definition match_count :: "string \<Rightarrow> (nat \<times> string) option" where
  "match_count s =
     (let ds = takeWhile is_digit s; r = lstrip (dropWhile is_digit s) in
      if ds = [] then None
      else case r of
             [] \<Rightarrow> None
           | c # r' \<Rightarrow> if c = CHR ''x'' then Some (read_nat ds, lstrip r') else None)"

definition float_bits :: "string \<Rightarrow> nat option" where
  "float_bits s = dget [(''half'', 16), (''float'', 32), (''double'', 64),
                        (''fp128'', 128), (''x86_fp80'', 80)] s"

lemma length_lstrip: "length (lstrip s) \<le> length s"
  by (simp add: lstrip_def length_dropWhile_le)

lemma length_rstrip: "length (rstrip s) \<le> length s"
  by (simp add: rstrip_def) (metis length_dropWhile_le length_rev)

lemma length_strip: "length (strip s) \<le> length s"
  unfolding strip_def using length_rstrip [of "lstrip s"] length_lstrip [of s] by simp

lemma split_go_length: "p \<in> set (split_go d cur body) \<Longrightarrow> length p \<le> length cur + length body"
proof (induction d cur body rule: split_go.induct)
  case (1 depth cur)
  then show ?case using length_strip [of cur] by (auto simp: Let_def split: if_splits)
next
  case (2 depth cur ch body)
  let ?d = "nest depth ch"
  consider (sep) "ch = CHR '',''" "?d = 0" | (other) "\<not> (ch = CHR '','' \<and> ?d = 0)" by blast
  then show ?case
  proof cases
    case sep
    with 2(3) have "p = strip cur \<or> p \<in> set (split_go ?d [] body)" by (simp add: Let_def)
    moreover have "p \<in> set (split_go ?d [] body) \<Longrightarrow> length p \<le> length body"
      using 2(1) [OF refl] sep by simp
    ultimately show ?thesis using length_strip [of cur] by auto
  next
    case other
    with 2(3) have "p \<in> set (split_go ?d (cur @ [ch]) body)" by (simp add: Let_def)
    then show ?thesis using 2(2) [OF refl other] by simp
  qed
qed

lemma match_count_length: "match_count s = Some (n, r) \<Longrightarrow> length r < length s"
proof -
  assume a: "match_count s = Some (n, r)"
  then obtain c r' where r: "lstrip (dropWhile is_digit s) = c # r'" "r = lstrip r'"
    by (auto simp: match_count_def Let_def split: if_splits list.splits)
  have "length (c # r') \<le> length s"
    using length_lstrip [of "dropWhile is_digit s"] length_dropWhile_le [of is_digit s] r by simp
  then show ?thesis using length_lstrip [of r'] r by simp
qed

lemma bindE_cong [fundef_cong]:
  "r = r' \<Longrightarrow> (\<And>x. r' = Inr x \<Longrightarrow> f x = g x) \<Longrightarrow> bindE r f = bindE r' g"
  by (cases r') auto

lemma mapE_cong [fundef_cong]:
  "xs = ys \<Longrightarrow> (\<And>x. x \<in> set ys \<Longrightarrow> f x = g x) \<Longrightarrow> mapE f xs = mapE g ys"
  by (induction ys arbitrary: xs) (auto intro!: bindE_cong)

text \<open>The text between the first and the last character (\<open>text[1:-1]\<close>).\<close>

abbreviation inner :: "string \<Rightarrow> string" where
  "inner s \<equiv> butlast (tl s)"

function parse_type :: "string \<Rightarrow> llvm_error + llvm_type" where
  "parse_type raw =
     (let text = strip raw in
      if text = ''ptr'' then Inr LPtr
      else if text = ''void'' then Inr LVoid
      else if text \<noteq> [] \<and> hd text = CHR ''i'' \<and> tl text \<noteq> [] \<and> list_all is_digit (tl text)
        then Inr (LInt (read_nat (tl text)))
      else case float_bits text of Some b \<Rightarrow> Inr (LFloat b) | None \<Rightarrow>
        if starts_with ''%'' text then Inr (LNamed text)
        else if starts_with ''['' text then
          (if ends_with '']'' text then
             (case match_count (inner text) of
                None \<Rightarrow> Inl AssertionFailed
              | Some (n, e) \<Rightarrow> bindE (parse_type e) (\<lambda>t. Inr (LArray n t)))
           else Inl AssertionFailed)
        else if starts_with ''<'' text then
          (if ends_with ''>'' text then
             (case match_count (inner text) of
                None \<Rightarrow> Inl AssertionFailed
              | Some (n, e) \<Rightarrow> bindE (parse_type e) (\<lambda>t. Inr (LVector n t)))
           else Inl AssertionFailed)
        else if starts_with ''{'' text then
          (if ends_with ''}'' text
           then bindE (mapE parse_type (split_fields (inner text))) (\<lambda>ts. Inr (LStruct ts))
           else Inl AssertionFailed)
        else Inl (UnsupportedType text))"
  by pat_completeness auto
termination
proof (relation "measure length", goal_cases)
  case 1
  then show ?case by simp
next
  case (2 raw x n p e)
  then have "length e < length (inner (strip raw))" by (auto dest: match_count_length)
  then show ?case using length_strip [of raw] by simp
next
  case (3 raw x n p e)
  then have "length e < length (inner (strip raw))" by (auto dest: match_count_length)
  then show ?case using length_strip [of raw] by simp
next
  case (4 raw x z)
  then have "length z \<le> length (inner (strip raw))"
    using split_go_length [of z 0 "[]" "inner (strip raw)"] by (simp add: split_fields_def)
  moreover have "strip raw \<noteq> []" using 4 by (auto simp: starts_with_def)
  ultimately show ?case using length_strip [of raw] by (cases "strip raw") auto
qed

declare parse_type.simps [simp del]

section \<open>Layout\<close>

text \<open>\<open>if offset % align: offset += align - offset % align\<close>\<close>

definition align_up :: "nat \<Rightarrow> nat \<Rightarrow> nat" where
  "align_up offset al = (if offset mod al \<noteq> 0 then offset + (al - offset mod al) else offset)"

definition int_size_align :: "nat \<Rightarrow> nat \<times> nat" where
  "int_size_align bits =
     (let size = max 1 ((bits + 7) div 8) in
      if bits > 64 then ((bits + 7) div 8, 16) else (size, min size 8))"

fun size_align :: "nat \<Rightarrow> llvm_defs \<Rightarrow> layout_cache \<Rightarrow> llvm_type \<Rightarrow>
      llvm_error + ((nat \<times> nat) \<times> layout_cache)"
  and struct_size_align :: "nat \<Rightarrow> llvm_defs \<Rightarrow> layout_cache \<Rightarrow> nat \<Rightarrow> nat \<Rightarrow> llvm_type list \<Rightarrow>
      llvm_error + ((nat \<times> nat) \<times> layout_cache)" where
  "size_align n D c LPtr = Inr ((8, 8), c)"
| "size_align n D c LVoid = Inr ((0, 1), c)"
| "size_align n D c (LInt bits) = Inr (int_size_align bits, c)"
| "size_align n D c (LFloat bits) =
     (let size = max 1 ((bits + 7) div 8) in Inr ((size, size), c))"
| "size_align n D c (LArray k t) =
     bindE (size_align n D c t) (\<lambda>((s, a), c'). Inr ((k * s, a), c'))"
| "size_align n D c (LVector k t) =
     bindE (size_align n D c t) (\<lambda>((s, a), c'). Inr ((k * s, a), c'))"
| "size_align n D c (LStruct fs) = struct_size_align n D c 1 0 fs"
| "size_align n D c (LNamed name) =
     (case dget c name of
        Some r \<Rightarrow> Inr (r, c)
      | None \<Rightarrow>
        (case dget D name of
           None \<Rightarrow> Inl (UndefinedNamed name)
         | Some t \<Rightarrow>
           (case n of
              0 \<Rightarrow> Inl OutOfFuel
            | Suc m \<Rightarrow> bindE (size_align m D (dset name (0, 1) c) t)
                         (\<lambda>(r, c'). Inr (r, dset name r c')))))"
| "struct_size_align n D c max_align offset [] =
     Inr (((if max_align > 1 then align_up offset max_align else offset), max_align), c)"
| "struct_size_align n D c max_align offset (f # fs) =
     bindE (size_align n D c f)
       (\<lambda>((s, a), c'). struct_size_align n D c' (max max_align a) (align_up offset a + s) fs)"

fun field_layout :: "nat \<Rightarrow> llvm_defs \<Rightarrow> layout_cache \<Rightarrow> nat \<Rightarrow> llvm_type list \<Rightarrow>
      llvm_error + (nat \<times> nat \<times> llvm_type) list" where
  "field_layout n D c offset [] = Inr []"
| "field_layout n D c offset (f # fs) =
     bindE (size_align n D c f)
       (\<lambda>((s, a), c'). bindE (field_layout n D c' (align_up offset a + s) fs)
          (\<lambda>rest. Inr ((align_up offset a, s, f) # rest)))"

text \<open>The calls of the code: an empty cache and as much fuel as there are definitions.\<close>

definition type_size_align :: "llvm_defs \<Rightarrow> llvm_type \<Rightarrow> llvm_error + (nat \<times> nat)" where
  "type_size_align D t = bindE (size_align (length D) D [] t) (\<lambda>(r, _). Inr r)"

definition struct_size :: "llvm_defs \<Rightarrow> llvm_type list \<Rightarrow> llvm_error + nat" where
  "struct_size D fs = bindE (struct_size_align (length D) D [] 1 0 fs) (\<lambda>((s, _), _). Inr s)"

definition struct_field_layout :: "llvm_defs \<Rightarrow> llvm_type list \<Rightarrow>
      llvm_error + (nat \<times> nat \<times> llvm_type) list" where
  "struct_field_layout D fs = field_layout (length D) D [] 0 fs"

section \<open>The fuel is enough\<close>

lemma struct_size_align_ConsE:
  assumes "struct_size_align n D c m off (f # fs) = Inr r"
  obtains s a c' where "size_align n D c f = Inr ((s, a), c')"
    and "struct_size_align n D c' (max m a) (align_up off a + s) fs = Inr r"
  using assms by (auto simp: bindE_eq_Inr)

text \<open>Every run only adds names to the cache.\<close>

lemma size_align_cache:
  "size_align n D c t = Inr (r, c') \<Longrightarrow> fst ` set c \<subseteq> fst ` set c'"
  "struct_size_align n D c m off fs = Inr (r, c') \<Longrightarrow> fst ` set c \<subseteq> fst ` set c'"
proof (induction n D c t and n D c m off fs arbitrary: r c' and r c'
    rule: size_align_struct_size_align.induct)
  case (8 n D c name)
  show ?case
  proof (cases "dget c name")
    case None
    with 8(2) obtain t where t: "dget D name = Some t" by (cases "dget D name") auto
    with None 8(2) obtain m where m: "n = Suc m" by (cases n) auto
    with None t 8(2) obtain r' c'' where
      s: "size_align m D (dset name (0, 1) c) t = Inr (r', c'')" "c' = dset name r' c''"
      by (auto simp: bindE_eq_Inr)
    from 8(1) [OF None t m s(1)] s(2) show ?thesis
      by (auto simp: set_dkeys_dset)
  qed (use 8 in auto)
next
  case (10 n D c m off f fs)
  from struct_size_align_ConsE [OF 10(3)] obtain s a c1 where
    s: "size_align n D c f = Inr ((s, a), c1)"
    "struct_size_align n D c1 (max m a) (align_up off a + s) fs = Inr (r, c')"
    by metis
  from 10(1) [OF s(1)] 10(2) [OF s(1) refl refl s(2)] show ?case by blast
next
  case (5 n D c k t)
  then show ?case by (simp add: bindE_eq_Inr split_beta) blast
next
  case (6 n D c k t)
  then show ?case by (simp add: bindE_eq_Inr split_beta) blast
qed (simp_all add: Let_def)

definition pending :: "llvm_defs \<Rightarrow> layout_cache \<Rightarrow> nat" where
  "pending D c = card (fst ` set D - fst ` set c)"

lemma pending_mono: "fst ` set c \<subseteq> fst ` set c' \<Longrightarrow> pending D c' \<le> pending D c"
  unfolding pending_def by (intro card_mono) auto

lemma pending_dset:
  assumes "dget c name = None" and "dget D name = Some t"
  shows "Suc (pending D (dset name r c)) = pending D c"
proof -
  have "name \<in> fst ` set D - fst ` set c"
    using assms by (force simp: map_of_eq_None_iff dest: map_of_SomeD)
  then have "card (fst ` set D - fst ` set c) = Suc (card (fst ` set D - fst ` set c - {name}))"
    by (intro card.remove) auto
  moreover have "fst ` set D - fst ` set (dset name r c) = fst ` set D - fst ` set c - {name}"
    by (auto simp: set_dkeys_dset)
  ultimately show ?thesis by (simp add: pending_def)
qed

lemma size_align_fuel:
  "pending D c \<le> n \<Longrightarrow> size_align n D c t \<noteq> Inl OutOfFuel"
  "pending D c \<le> n \<Longrightarrow> struct_size_align n D c m off fs \<noteq> Inl OutOfFuel"
proof (induction n D c t and n D c m off fs rule: size_align_struct_size_align.induct)
  case (8 n D c name)
  show ?case
  proof (cases "dget c name = None \<and> dget D name \<noteq> None")
    case True
    then obtain t where n: "dget c name = None" and t: "dget D name = Some t" by auto
    from pending_dset [OF this] 8(2) obtain m where m: "n = Suc m" by (cases n) auto
    with pending_dset [OF n t, of "(0, 1)"] 8(2) have "pending D (dset name (0, 1) c) \<le> m" by simp
    with 8(1) [OF n t m] n t m show ?thesis by (auto simp: bindE_eq_Inl)
  qed (auto split: option.splits)
next
  case (10 n D c m off f fs)
  show ?case
  proof
    assume "struct_size_align n D c m off (f # fs) = Inl OutOfFuel"
    with 10(1) [OF 10(3)] obtain s a c1 where s: "size_align n D c f = Inr ((s, a), c1)"
      "struct_size_align n D c1 (max m a) (align_up off a + s) fs = Inl OutOfFuel"
      by (auto simp: bindE_eq_Inl)
    have "pending D c1 \<le> n"
      using pending_mono [OF size_align_cache(1) [OF s(1)]] 10(3) order_trans by blast
    then show False using 10(2) [OF s(1) refl refl] s(2) by blast
  qed
qed (auto simp: bindE_eq_Inl Let_def)

lemma pending_start: "pending D [] \<le> length D"
  unfolding pending_def using card_length [of "map fst D"] by simp

lemma field_layout_fuel: "pending D c \<le> n \<Longrightarrow> field_layout n D c off fs \<noteq> Inl OutOfFuel"
proof (induction fs arbitrary: c off)
  case (Cons f fs)
  have "pending D c1 \<le> n" if "size_align n D c f = Inr (r, c1)" for r c1
    using pending_mono [OF size_align_cache(1) [OF that]] Cons.prems order_trans by blast
  with Cons show ?case using size_align_fuel(1) [OF Cons.prems, of f]
    by (auto simp: bindE_eq_Inl)
qed simp

section \<open>Layout facts\<close>

lemma align_up_ge: "off \<le> align_up off a"
  by (simp add: align_up_def)

lemma align_up_dvd: "0 < a \<Longrightarrow> a dvd align_up off a"
proof -
  assume "0 < a"
  have "a dvd off + (a - off mod a)"
  proof -
    have "off + (a - off mod a) = (off - off mod a) + a"
      using mod_less_eq_dividend [of off a] mod_less_divisor [OF \<open>0 < a\<close>, of off] by linarith
    moreover have "a dvd off - off mod a" by (rule dvd_minus_mod)
    ultimately show ?thesis by (metis dvd_add_triv_right_iff)
  qed
  then show ?thesis by (auto simp: align_up_def mod_eq_0_iff_dvd)
qed

lemma align_up_less: "0 < a \<Longrightarrow> align_up off a < off + a"
  by (auto simp: align_up_def)

definition cache_pos :: "layout_cache \<Rightarrow> bool" where
  "cache_pos c = (\<forall>k s a. dget c k = Some (s, a) \<longrightarrow> 0 < a)"

lemma size_align_pos:
  "size_align n D c t = Inr ((s, a), c') \<Longrightarrow> cache_pos c \<Longrightarrow> 0 < a \<and> cache_pos c'"
  "struct_size_align n D c m off fs = Inr ((s, a), c') \<Longrightarrow> cache_pos c \<Longrightarrow> 0 < m \<Longrightarrow>
     m \<le> a \<and> cache_pos c' \<and> off \<le> s \<and> a dvd s"
proof (induction n D c t and n D c m off fs arbitrary: s a c' and s a c'
    rule: size_align_struct_size_align.induct)
  case (8 n D c name)
  show ?case
  proof (cases "dget c name")
    case None
    with 8(2) obtain t where t: "dget D name = Some t" by (cases "dget D name") auto
    with None 8(2) obtain m where m: "n = Suc m" by (cases n) auto
    with None t 8(2) obtain s' a' c'' where
      s: "size_align m D (dset name (0, 1) c) t = Inr ((s', a'), c'')"
      "c' = dset name (s', a') c''" "s' = s" "a' = a"
      by (auto simp: bindE_eq_Inr)
    have "cache_pos (dset name (0, 1) c)" using 8(3) by (auto simp: cache_pos_def dget_dset)
    from 8(1) [OF None t m s(1) this] s show ?thesis by (auto simp: cache_pos_def dget_dset)
  qed (use 8 in \<open>auto simp: cache_pos_def\<close>)
next
  case (9 n D c m off)
  show ?case
  proof (cases "m = 1")
    case True
    with 9 show ?thesis by auto
  next
    case False
    with 9 show ?thesis using align_up_ge [of off m] align_up_dvd [of m off] by auto
  qed
next
  case (10 n D c m off f fs)
  from struct_size_align_ConsE [OF 10(3)] obtain s1 a1 c1 where
    s: "size_align n D c f = Inr ((s1, a1), c1)"
    "struct_size_align n D c1 (max m a1) (align_up off a1 + s1) fs = Inr ((s, a), c')"
    by metis
  from 10(1) [OF s(1) 10(4)] have c1: "cache_pos c1" by simp
  from 10(2) [OF s(1) refl refl s(2) c1] 10(5)
  have "max m a1 \<le> a \<and> cache_pos c' \<and> align_up off a1 + s1 \<le> s \<and> a dvd s" by simp
  then show ?case using align_up_ge [of off a1] by linarith
qed (auto simp: bindE_eq_Inr Let_def int_size_align_def split: if_splits prod.splits)

text \<open>A field list is laid out in order from an offset: no two fields overlap.\<close>

fun in_order :: "nat \<Rightarrow> (nat \<times> nat \<times> llvm_type) list \<Rightarrow> bool" where
  "in_order off [] = True"
| "in_order off ((o', s, t) # fs) = (off \<le> o' \<and> in_order (o' + s) fs)"

lemma field_layout_ConsE:
  assumes "field_layout n D c off (f # fs) = Inr l"
  obtains s a c' l' where "size_align n D c f = Inr ((s, a), c')"
    and "field_layout n D c' (align_up off a + s) fs = Inr l'"
    and "l = (align_up off a, s, f) # l'"
  using assms by (auto simp: bindE_eq_Inr)

lemma field_layout_in_order: "field_layout n D c off fs = Inr l \<Longrightarrow> in_order off l"
proof (induction fs arbitrary: c off l)
  case (Cons f fs)
  from field_layout_ConsE [OF Cons.prems] obtain s a c' l' where
    "l = (align_up off a, s, f) # l'" "field_layout n D c' (align_up off a + s) fs = Inr l'"
    by metis
  then show ?case using Cons.IH align_up_ge by simp
qed simp

lemma field_layout_types: "field_layout n D c off fs = Inr l \<Longrightarrow> map (\<lambda>(_, _, t). t) l = fs"
proof (induction fs arbitrary: c off l)
  case (Cons f fs)
  from field_layout_ConsE [OF Cons.prems] obtain s a c' l' where
    "l = (align_up off a, s, f) # l'" "field_layout n D c' (align_up off a + s) fs = Inr l'"
    by metis
  then show ?case using Cons.IH by simp
qed simp

text \<open>The offsets the layout gives and the struct size come from the same walk.\<close>

fun layout_end :: "nat \<Rightarrow> (nat \<times> nat \<times> llvm_type) list \<Rightarrow> nat" where
  "layout_end off [] = off"
| "layout_end off ((o', s, t) # fs) = layout_end (o' + s) fs"

lemma field_layout_end:
  assumes "field_layout n D c off fs = Inr l" and "cache_pos c" and "0 < m"
  shows "\<exists>s a c'. struct_size_align n D c m off fs = Inr ((s, a), c') \<and> layout_end off l \<le> s"
  using assms
proof (induction fs arbitrary: c off l m)
  case Nil
  then show ?case using align_up_ge [of off m] by simp
next
  case (Cons f fs)
  from field_layout_ConsE [OF Cons.prems(1)] obtain s1 a1 c1 l' where
    s: "size_align n D c f = Inr ((s1, a1), c1)"
    "field_layout n D c1 (align_up off a1 + s1) fs = Inr l'"
    "l = (align_up off a1, s1, f) # l'"
    by metis
  from size_align_pos(1) [OF s(1) Cons.prems(2)] have "cache_pos c1" by simp
  from Cons.IH [OF s(2) this, of "max m a1"] Cons.prems(3) s show ?case by auto
qed

lemma in_order_end: "in_order off l \<Longrightarrow> (o', s, t) \<in> set l \<Longrightarrow> off \<le> o' \<and> o' + s \<le> layout_end off l"
proof (induction off l rule: in_order.induct)
  case (2 off o1 s1 t1 fs)
  have "in_order x l \<Longrightarrow> x \<le> layout_end x l" for x l
    by (induction x l rule: in_order.induct) auto
  with 2 show ?case by fastforce
qed simp

lemma in_order_nth:
  "in_order off l \<Longrightarrow> i < j \<Longrightarrow> j < length l \<Longrightarrow>
     fst (l ! i) + fst (snd (l ! i)) \<le> fst (l ! j)"
proof (induction off l arbitrary: i j rule: in_order.induct)
  case (2 off o1 s1 t1 fs)
  then obtain j' where j: "j = Suc j'" by (cases j) auto
  show ?case
  proof (cases i)
    case 0
    have "(fst (fs ! j'), fst (snd (fs ! j')), snd (snd (fs ! j'))) \<in> set fs"
      using 2(4) j by simp
    from in_order_end [OF _ this] 2(2) j 0 show ?thesis by auto
  next
    case (Suc i')
    with 2 j show ?thesis by simp
  qed
qed simp

end
