(* ===== verification/Harness_Abi.thy ===== *)
theory Harness_Abi
  imports Llvm_Layout
begin

text \<open>
  The target ABI of \<open>compiler/harness/abi.py\<close>: type specifications, parameters, the selection of
  frame and shared fields, the resolution of STG types and the cross-check of STG facts against
  the IR layout. The reading of LLVM IR text by regular expressions is not modelled: the entry
  points take the facts it extracts (the instance type and its member GEPs, the parameter
  bindings, the types of allocas).
\<close>

section \<open>Data\<close>

datatype abi_error =
    UnknownKind string
  | DoesNotResolve string
  | NoStgType string
  | NoCapacity string
  | UnresolvedBounds string
  | UnsupportedKind string
  | ExpectedPointer string
  | SizeMismatch string
  | FloatMismatch string
  | UnsupportedRole string
  | ByRefWithoutPointer string
  | NoIrLayout string
  | NoInstanceType string
  | GepsIncomplete
  | NoVtable
  | NoStgSymbol string
  | BadMember string
  | MissingMembers "string list"
  | UnexpectedReturn string
  | UnsupportedByValue string
  | CopyTooLarge string
  | TwoReturns
  | NoReturnSymbol
  | AbiKeyError string
  | AbiTypeError
  | AbiAttributeError
  | AbiIndexError
  | AbiLayout llvm_error

datatype type_spec = TypeSpec
  (ts_kind: string)
  (ts_name: string)
  (ts_c_type: "string option")
  (ts_size: int)
  (ts_length: "int option")
  (ts_element: "type_spec option")
  (ts_count: "int option")
  (ts_align: int)

record param =
  p_name :: string
  p_spec :: type_spec
  p_block_kind :: string
  p_constant :: bool
  p_offset :: "int option"
  p_index :: "int option"

record call_slot =
  cs_param :: param
  cs_ir_type :: llvm_type

record target_abi =
  a_kind :: string
  a_name :: string
  a_params :: "param list"
  a_outputs :: "param list"
  a_state_fields :: "param list"
  a_snapshot_fields :: "param list"
  a_instance_size :: int
  a_instance_align :: int
  a_ret :: "param option"
  a_ret_by_value :: "llvm_type option"
  a_call_slots :: "call_slot list"

definition SCALAR_TYPES :: "(string \<times> string \<times> int) list" where
  "SCALAR_TYPES =
    [(''BOOL'', ''uint8_t'', 1), (''SINT'', ''int8_t'', 1), (''USINT'', ''uint8_t'', 1),
     (''BYTE'', ''uint8_t'', 1), (''CHAR'', ''uint8_t'', 1), (''INT'', ''int16_t'', 2),
     (''UINT'', ''uint16_t'', 2), (''WORD'', ''uint16_t'', 2), (''WCHAR'', ''uint16_t'', 2),
     (''DINT'', ''int32_t'', 4), (''UDINT'', ''uint32_t'', 4), (''DWORD'', ''uint32_t'', 4),
     (''LINT'', ''int64_t'', 8), (''ULINT'', ''uint64_t'', 8), (''LWORD'', ''uint64_t'', 8),
     (''REAL'', ''float'', 4), (''LREAL'', ''double'', 8), (''TIME'', ''int64_t'', 8),
     (''LTIME'', ''int64_t'', 8), (''DATE'', ''int64_t'', 8), (''LDATE'', ''int64_t'', 8),
     (''DATE_AND_TIME'', ''int64_t'', 8), (''DT'', ''int64_t'', 8),
     (''LDATE_AND_TIME'', ''int64_t'', 8), (''LDT'', ''int64_t'', 8),
     (''TIME_OF_DAY'', ''int64_t'', 8), (''TOD'', ''int64_t'', 8),
     (''LTIME_OF_DAY'', ''int64_t'', 8), (''LTOD'', ''int64_t'', 8)]"

definition INTEGER_BY_WIDTH :: "((int \<times> bool) \<times> string) list" where
  "INTEGER_BY_WIDTH =
    [((8, True), ''SINT''), ((8, False), ''USINT''), ((16, True), ''INT''), ((16, False), ''UINT''),
     ((32, True), ''DINT''), ((32, False), ''UDINT''), ((64, True), ''LINT''), ((64, False), ''ULINT'')]"

definition MAX_POINTEE_BYTES :: int where
  "MAX_POINTEE_BYTES = 1048576"

definition ROLE_BLOCKS :: "(string \<times> string) list" where
  "ROLE_BLOCKS =
    [(''input'', ''VAR_INPUT''), (''output'', ''VAR_OUTPUT''), (''in_out'', ''VAR_IN_OUT''),
     (''local'', ''VAR''), (''persistent_state'', ''VAR''), (''temporary'', ''VAR_TEMP''),
     (''return'', ''RETURN'')]"

section \<open>Type specifications\<close>

fun byte_size :: "type_spec \<Rightarrow> abi_error + int" where
  "byte_size (TypeSpec kind name ct sz len el cnt al) =
     (if kind = ''scalar'' \<or> kind = ''opaque'' then Inr sz
      else if kind = ''string'' then
        (case len of None \<Rightarrow> Inl AbiTypeError | Some l \<Rightarrow> Inr ((l + 1) * sz))
      else if kind = ''array'' then
        (case el of
           None \<Rightarrow> Inl AbiAttributeError
         | Some e \<Rightarrow> bindE (byte_size e) (\<lambda>b.
             case cnt of None \<Rightarrow> Inl AbiTypeError | Some k \<Rightarrow> Inr (k * b)))
      else if kind = ''pointer'' then Inr 8
      else Inl (UnknownKind kind))"

fun flat_c_type :: "type_spec \<Rightarrow> abi_error + string option" where
  "flat_c_type (TypeSpec kind name ct sz len el cnt al) =
     (if kind = ''scalar'' then Inr ct
      else if kind = ''string'' then Inr ct
      else if kind = ''array'' then
        (case el of None \<Rightarrow> Inl AbiAttributeError | Some e \<Rightarrow> flat_c_type e)
      else Inr (Some ''uint8_t''))"

fun flat_count :: "type_spec \<Rightarrow> abi_error + int" where
  "flat_count (TypeSpec kind name ct sz len el cnt al) =
     (if kind = ''scalar'' then Inr 1
      else if kind = ''string'' then
        (case len of None \<Rightarrow> Inl AbiTypeError | Some l \<Rightarrow> Inr (l + 1))
      else if kind = ''array'' then
        (case el of
           None \<Rightarrow> Inl AbiAttributeError
         | Some e \<Rightarrow> bindE (flat_count e) (\<lambda>b.
             case cnt of None \<Rightarrow> Inl AbiTypeError | Some k \<Rightarrow> Inr (k * b)))
      else if kind = ''pointer'' then Inr 8
      else Inr sz)"

definition pointee_bytes :: "type_spec \<Rightarrow> abi_error + int" where
  "pointee_bytes s =
     (case ts_element s of
        None \<Rightarrow> Inr 1
      | Some e \<Rightarrow> if ts_kind s \<noteq> ''pointer'' then Inr 1
                  else bindE (byte_size e) (\<lambda>b. Inr (max 1 (min b MAX_POINTEE_BYTES))))"

definition scalar_spec :: "string \<Rightarrow> abi_error + type_spec" where
  "scalar_spec name =
     (case dget SCALAR_TYPES name of
        None \<Rightarrow> Inl (AbiKeyError name)
      | Some (ct, sz) \<Rightarrow> Inr (TypeSpec ''scalar'' name (Some ct) sz None None None sz))"

section \<open>Frame and shared fields\<close>

definition frame_params :: "target_abi \<Rightarrow> param list" where
  "frame_params abi = filter (\<lambda>p. p_block_kind p = ''VAR_INPUT'' \<and> \<not> p_constant p) (a_params abi)"

text \<open>The loop of \<open>shared_params\<close>: the first parameter of each upper-case name.\<close>

definition is_shared :: "param \<Rightarrow> bool" where
  "is_shared p = (p_block_kind p = ''VAR_IN_OUT'' \<or> (p_block_kind p = ''VAR_INPUT'' \<and> p_constant p))"

fun shared_loop :: "string set \<Rightarrow> param list \<Rightarrow> param list" where
  "shared_loop seen [] = []"
| "shared_loop seen (p # ps) =
     (if is_shared p \<and> py_upper (p_name p) \<notin> seen
      then p # shared_loop (insert (py_upper (p_name p)) seen) ps
      else shared_loop seen ps)"

definition shared_params :: "target_abi \<Rightarrow> param list" where
  "shared_params abi = shared_loop {} (a_state_fields abi)"

definition frame_action_params :: "target_abi \<Rightarrow> param list" where
  "frame_action_params abi =
     frame_params abi @ filter (\<lambda>p. p_block_kind p = ''VAR_IN_OUT'') (shared_params abi)"

section \<open>STG types\<close>

text \<open>An entry of the STG model's type list; an absent JSON key is \<open>None\<close>.\<close>

record stg_type =
  st_name :: string
  st_kind :: string
  st_element_type :: "string option"
  st_bit_width :: "int option"
  st_signed :: "bool option"
  st_string_capacity :: "int option"
  st_string_encoding :: "string option"
  st_dimensions :: "(int option \<times> int option) list option"
  st_pointer_target :: "string option"

record stg_types =
  types :: "(string, stg_type) dict"
  definitions :: llvm_defs

definition mk_stg_types :: "stg_type list \<Rightarrow> llvm_defs \<Rightarrow> stg_types" where
  "mk_stg_types ts D = \<lparr>types = dict_of (map (\<lambda>t. (py_upper (st_name t), t)) ts), definitions = D\<rparr>"

definition require :: "string \<Rightarrow> 'a option \<Rightarrow> abi_error + 'a" where
  "require key v = (case v of None \<Rightarrow> Inl (AbiKeyError key) | Some x \<Rightarrow> Inr x)"

definition lift_layout :: "llvm_error + 'a \<Rightarrow> abi_error + 'a" where
  "lift_layout r = (case r of Inl e \<Rightarrow> Inl (AbiLayout e) | Inr x \<Rightarrow> Inr x)"

text \<open>The element count of an array type: the product over its dimensions.\<close>

definition array_count :: "string \<Rightarrow> (int option \<times> int option) list \<Rightarrow> abi_error + int" where
  "array_count type_name dims =
     foldE (\<lambda>count (lo, hi).
        case (lo, hi) of
          (Some l, Some u) \<Rightarrow> Inr (count * max 0 (u - l + 1))
        | _ \<Rightarrow> Inl (UnresolvedBounds type_name)) 1 dims"

text \<open>The IR definition of a struct type, under its own name or as the only numbered variant.\<close>

definition struct_definition :: "stg_types \<Rightarrow> string \<Rightarrow> llvm_type option" where
  "struct_definition env name =
     (case dget (definitions env) (CHR ''%'' # name) of
        Some d \<Rightarrow> Some d
      | None \<Rightarrow>
        (let prefix = CHR ''%'' # name @ ''.'';
             matches = filter (\<lambda>(k, _). starts_with (py_upper prefix) (py_upper k)
                          \<and> drop (length prefix) k \<noteq> []
                          \<and> list_all is_digit (drop (length prefix) k)) (definitions env) in
         case matches of [(_, d)] \<Rightarrow> Some d | _ \<Rightarrow> None))"

function stg_spec :: "stg_types \<Rightarrow> string \<Rightarrow> nat \<Rightarrow> abi_error + type_spec" where
  "stg_spec env type_name depth =
     (if depth > 32 then Inl (DoesNotResolve type_name)
      else case dget (types env) (py_upper type_name) of
        None \<Rightarrow> if dmem (py_upper type_name) SCALAR_TYPES then scalar_spec (py_upper type_name)
                else Inl (NoStgType type_name)
      | Some ty \<Rightarrow>
        (let kind = st_kind ty in
         if kind \<in> {''alias'', ''subrange'', ''enum''} then
           bindE (require ''element_type'' (st_element_type ty)) (\<lambda>el. stg_spec env el (depth + 1))
         else if kind = ''boolean'' then scalar_spec ''BOOL''
         else if kind = ''integer'' then
           (if dmem (py_upper (st_name ty)) SCALAR_TYPES then scalar_spec (py_upper (st_name ty))
            else bindE (require ''bit_width'' (st_bit_width ty)) (\<lambda>w.
              bindE (require ''signed'' (st_signed ty)) (\<lambda>sg.
              bindE (require ''width'' (dget INTEGER_BY_WIDTH (w, sg))) scalar_spec)))
         else if kind = ''float'' then
           bindE (require ''bit_width'' (st_bit_width ty))
             (\<lambda>w. scalar_spec (if w = 64 then ''LREAL'' else ''REAL''))
         else if kind = ''string'' then
           (case st_string_capacity ty of
              None \<Rightarrow> Inl (NoCapacity type_name)
            | Some capacity \<Rightarrow>
              if capacity = 0 then Inl (NoCapacity type_name)
              else let wide = (st_string_encoding ty = Some ''utf16'') in
                Inr (TypeSpec ''string'' (if wide then ''WSTRING'' else ''STRING'')
                  (Some (if wide then ''uint16_t'' else ''uint8_t'')) (if wide then 2 else 1)
                  (Some (capacity - 1)) None None (if wide then 2 else 1)))
         else if kind = ''array'' then
           bindE (require ''dimensions'' (st_dimensions ty)) (\<lambda>dims.
           bindE (array_count type_name dims) (\<lambda>count.
           bindE (require ''element_type'' (st_element_type ty)) (\<lambda>et.
           bindE (stg_spec env et (depth + 1)) (\<lambda>el.
             Inr (TypeSpec ''array'' (''ARRAY OF '' @ ts_name el) None 0 None (Some el)
                    (Some count) (ts_align el))))))
         else if kind = ''pointer'' then
           bindE (require ''pointer_target'' (st_pointer_target ty)) (\<lambda>pt.
           bindE (stg_spec env pt (depth + 1)) (\<lambda>el.
             Inr (TypeSpec ''pointer'' (''REF_TO '' @ ts_name el) None 0 None (Some el) None 8)))
         else if kind = ''struct'' then
           (case struct_definition env (st_name ty) of
              None \<Rightarrow> Inr (TypeSpec ''opaque'' (st_name ty) None 0 None None None 1)
            | Some d \<Rightarrow> bindE (lift_layout (type_size_align (definitions env) d)) (\<lambda>(sz, al).
                Inr (TypeSpec ''opaque'' (st_name ty) None (int sz) None None None (int al))))
         else Inl (UnsupportedKind kind)))"
  by pat_completeness auto
termination
  by (relation "measure (\<lambda>(env, tn, depth). 33 - depth)") auto

declare stg_spec.simps [simp del]

section \<open>Cross-checks against the IR\<close>

fun is_ptr :: "llvm_type \<Rightarrow> bool" where
  "is_ptr LPtr = True"
| "is_ptr _ = False"

fun is_float :: "llvm_type \<Rightarrow> bool" where
  "is_float (LFloat _) = True"
| "is_float _ = False"

text \<open>\<open>_check_field\<close>; an opaque field takes size and alignment from the IR.\<close>

definition check_field :: "param \<Rightarrow> llvm_type \<Rightarrow> int \<Rightarrow> int \<Rightarrow> abi_error + param" where
  "check_field p ir_type ir_size ir_align =
     (let spec = p_spec p in
      if p_block_kind p = ''VAR_IN_OUT'' \<or> ts_kind spec = ''pointer'' then
        (if is_ptr ir_type then Inr p else Inl (ExpectedPointer (p_name p)))
      else if ts_kind spec = ''opaque'' then
        (if ts_size spec \<noteq> 0 \<and> ts_size spec \<noteq> ir_size then Inl (SizeMismatch (p_name p))
         else Inr (p\<lparr>p_spec := TypeSpec (ts_kind spec) (ts_name spec) (ts_c_type spec) ir_size
                     (ts_length spec) (ts_element spec) (ts_count spec) ir_align\<rparr>))
      else if ts_kind spec = ''scalar''
              \<and> is_float ir_type \<noteq> (ts_name spec \<in> {''REAL'', ''LREAL''})
        then Inl (FloatMismatch (p_name p))
      else bindE (byte_size spec) (\<lambda>b.
        if b \<noteq> ir_size then Inl (SizeMismatch (p_name p)) else Inr p))"

fun sized :: "type_spec \<Rightarrow> abi_error + bool" where
  "sized (TypeSpec kind name ct sz len el cnt al) =
     (if kind = ''opaque'' then Inr (sz > 0)
      else if kind = ''array'' \<or> kind = ''pointer'' then
        (case el of None \<Rightarrow> Inl AbiAttributeError | Some e \<Rightarrow> sized e)
      else Inr True)"

record stg_symbol =
  sy_name :: string
  sy_role :: string
  sy_type_name :: string
  sy_by_reference :: bool
  sy_configuration_source :: bool \<comment> \<open>whether the key holds a value other than null\<close>
  sy_constant :: bool

definition symbol_param :: "stg_symbol \<Rightarrow> stg_types \<Rightarrow> bool \<Rightarrow> abi_error + param" where
  "symbol_param symbol env instance_member =
     (case dget ROLE_BLOCKS (sy_role symbol) of
        None \<Rightarrow> Inl (UnsupportedRole (sy_name symbol))
      | Some block_kind \<Rightarrow>
        bindE (if sy_by_reference symbol then
                 (case dget (types env) (py_upper (sy_type_name symbol)) of
                    None \<Rightarrow> Inl (ByRefWithoutPointer (sy_name symbol))
                  | Some pointer \<Rightarrow>
                    if st_kind pointer \<noteq> ''pointer'' then Inl (ByRefWithoutPointer (sy_name symbol))
                    else require ''pointer_target'' (st_pointer_target pointer))
               else Inr (sy_type_name symbol)) (\<lambda>type_name.
        let constant = (if sy_role symbol = ''input'' then sy_configuration_source symbol
                        else sy_constant symbol) in
        bindE (stg_spec env type_name 0) (\<lambda>spec.
        bindE (sized spec) (\<lambda>ok.
        bindE (if ok then Inr spec
               else if \<not> instance_member \<or> sy_by_reference symbol
                 then Inl (NoIrLayout (sy_name symbol))
               else Inr (TypeSpec ''opaque'' (ts_name spec) None 0 None None None 1)) (\<lambda>spec'.
          Inr \<lparr>p_name = sy_name symbol, p_spec = spec', p_block_kind = block_kind,
               p_constant = constant, p_offset = None, p_index = None\<rparr>)))))"

section \<open>Function blocks\<close>

text \<open>One instance member: its symbol, its parameter, the check against the IR field.\<close>

definition fb_member :: "stg_types \<Rightarrow> (string, stg_symbol) dict \<Rightarrow> (nat \<times> nat \<times> llvm_type) list \<Rightarrow>
    nat \<times> string \<Rightarrow> abi_error + param" where
  "fb_member env by_name layout im =
     (case im of (index, member) \<Rightarrow>
      (case dget by_name (py_upper member) of
         None \<Rightarrow> Inl (NoStgSymbol member)
       | Some symbol \<Rightarrow>
         bindE (symbol_param symbol env True) (\<lambda>p.
         if p_block_kind p \<in> {''VAR_TEMP'', ''RETURN''} then Inl (BadMember member)
         else if \<not> index < length layout then Inl AbiIndexError
         else (case layout ! index of (offset, sz, ir_type) \<Rightarrow>
           bindE (lift_layout (type_size_align (definitions env) ir_type)) (\<lambda>(_, al).
           bindE (check_field p ir_type (int sz) (int al)) (\<lambda>p'.
             Inr (p'\<lparr>p_offset := Some (int offset), p_index := Some (int index)\<rparr>)))))))"

definition function_block_abi :: "string \<Rightarrow> string \<Rightarrow> (nat \<times> string) list \<Rightarrow> stg_types \<Rightarrow>
    (string, stg_symbol) dict \<Rightarrow> abi_error + target_abi" where
  "function_block_abi name struct_type members env by_name =
     (case dget (definitions env) struct_type of
        Some (LStruct fds) \<Rightarrow>
          bindE (lift_layout (struct_field_layout (definitions env) fds)) (\<lambda>layout.
          if map fst members \<noteq> [0..<length layout] then Inl GepsIncomplete
          else if members = [] then Inl AbiIndexError
          else if snd (hd members) \<noteq> ''__vtable'' \<or> \<not> is_ptr (snd (snd (hd layout)))
            then Inl NoVtable
          else bindE (lift_layout (struct_size_align (length (definitions env)) (definitions env)
                                     [] 1 0 fds)) (\<lambda>((instance_size, instance_align), _).
          bindE (mapE (fb_member env by_name layout) (tl members)) (\<lambda>state_fields.
          let stored = (\<lambda>p. py_upper (p_name p)) ` set state_fields;
              missing = map (\<lambda>(_, s). sy_name s)
                (filter (\<lambda>(key, s). key \<notin> stored
                   \<and> sy_role s \<notin> {''temporary'', ''global'', ''external''}) by_name) in
          if missing \<noteq> [] then Inl (MissingMembers missing)
          else Inr \<lparr>a_kind = ''FUNCTION_BLOCK'', a_name = name,
             a_params = filter (\<lambda>p. p_block_kind p \<in> {''VAR_INPUT'', ''VAR_IN_OUT''}) state_fields,
             a_outputs = filter (\<lambda>p. p_block_kind p = ''VAR_OUTPUT'') state_fields,
             a_state_fields = state_fields,
             a_snapshot_fields = filter (\<lambda>p. p_block_kind p \<in> {''VAR_OUTPUT'', ''VAR_IN_OUT''}
                 \<or> (p_block_kind p = ''VAR'' \<and> \<not> p_constant p)) state_fields,
             a_instance_size = int instance_size, a_instance_align = int instance_align,
             a_ret = None, a_ret_by_value = None, a_call_slots = []\<rparr>)))
      | _ \<Rightarrow> Inl (NoInstanceType struct_type))"

section \<open>Functions\<close>

record param_binding =
  pb_position :: nat
  pb_variable :: string
  pb_by_copy_bytes :: "int option"

text \<open>
  One argument of a function: the parameter, checked against its IR type. \<open>alloca\<close> gives the
  type of the local a by-value argument is copied to.
\<close>

definition function_slot :: "(string \<Rightarrow> llvm_type option) \<Rightarrow> llvm_type list \<Rightarrow> stg_types \<Rightarrow>
    (string, stg_symbol) dict \<Rightarrow> param_binding \<Rightarrow> abi_error + call_slot" where
  "function_slot alloca ir_params env by_name binding =
     (case dget by_name (py_upper (pb_variable binding)) of
        None \<Rightarrow> Inl (NoStgSymbol (pb_variable binding))
      | Some symbol \<Rightarrow>
        bindE (symbol_param symbol env False) (\<lambda>p0.
        let p = p0\<lparr>p_index := Some (int (pb_position binding))\<rparr>; spec = p_spec p in
        if \<not> pb_position binding < length ir_params then Inl AbiIndexError
        else let ir_type = ir_params ! pb_position binding in
        bindE
          (if p_block_kind p = ''RETURN'' then
             (if \<not> is_ptr ir_type \<or> ts_kind spec \<notin> {''string'', ''array'', ''opaque''}
              then Inl (UnexpectedReturn (ts_name spec)) else Inr p)
           else if p_block_kind p \<in> {''VAR_IN_OUT'', ''VAR_OUTPUT''} \<or> ts_kind spec = ''pointer'' then
             (if is_ptr ir_type then Inr p else Inl (ExpectedPointer (p_name p)))
           else case pb_by_copy_bytes binding of
             Some copied \<Rightarrow>
               bindE (case alloca (pb_variable binding) of
                        None \<Rightarrow> Inr None
                      | Some (LNamed _) \<Rightarrow> Inr None
                      | Some local \<Rightarrow> bindE (lift_layout (type_size_align [] local))
                                        (\<lambda>(s, _). Inr (Some (int s)))) (\<lambda>local_size.
               if ts_kind spec = ''opaque'' then Inl (UnsupportedByValue (p_name p))
               else bindE (byte_size spec) (\<lambda>b.
                 if local_size \<noteq> None \<and> local_size \<noteq> Some b then Inl (SizeMismatch (p_name p))
                 else if copied > b then Inl (CopyTooLarge (p_name p))
                 else Inr p))
           | None \<Rightarrow>
               bindE (lift_layout (type_size_align [] ir_type)) (\<lambda>(s, al).
                 check_field p ir_type (int s) (int al)))
          (\<lambda>p'. Inr \<lparr>cs_param = p', cs_ir_type = ir_type\<rparr>)))"

definition function_abi :: "string \<Rightarrow> param_binding list \<Rightarrow> (string \<Rightarrow> llvm_type option) \<Rightarrow>
    llvm_type list \<Rightarrow> llvm_type \<Rightarrow> stg_types \<Rightarrow> (string, stg_symbol) dict \<Rightarrow> abi_error + target_abi" where
  "function_abi name bindings alloca ir_params return_type env by_name =
     bindE (mapE (function_slot alloca ir_params env by_name) bindings) (\<lambda>slots.
     let returns = filter (\<lambda>sl. p_block_kind (cs_param sl) = ''RETURN'') slots;
         ret = (if returns = [] then None else Some (cs_param (last returns))) in
     bindE
       (if return_type = LVoid then Inr (ret, None)
        else if ret \<noteq> None then Inl TwoReturns
        else case dget by_name (py_upper name) of
          None \<Rightarrow> Inl NoReturnSymbol
        | Some symbol \<Rightarrow>
          if sy_role symbol \<noteq> ''return'' then Inl NoReturnSymbol
          else bindE (symbol_param symbol env False) (\<lambda>p.
            bindE (lift_layout (type_size_align [] return_type)) (\<lambda>(s, _).
            bindE (check_field p return_type (int s) 1) (\<lambda>p'.
              Inr (Some p', Some return_type)))))
       (\<lambda>(ret', by_value).
         Inr \<lparr>a_kind = ''FUNCTION'', a_name = name,
           a_params = map cs_param (filter (\<lambda>sl. p_block_kind (cs_param sl)
                         \<in> {''VAR_INPUT'', ''VAR_IN_OUT''}) slots),
           a_outputs = map cs_param (filter (\<lambda>sl. p_block_kind (cs_param sl) = ''VAR_OUTPUT'') slots),
           a_state_fields = [], a_snapshot_fields = [], a_instance_size = 0, a_instance_align = 1,
           a_ret = ret', a_ret_by_value = by_value, a_call_slots = slots\<rparr>))"

section \<open>Well-formed specifications\<close>

fun spec_wf :: "type_spec \<Rightarrow> bool" where
  "spec_wf (TypeSpec kind name ct sz len el cnt al) =
     (if kind = ''scalar'' then (\<exists>c. ct = Some c \<and> dget SCALAR_TYPES name = Some (c, sz)) \<and> al = sz
      else if kind = ''string'' then (\<exists>l \<ge> 0. len = Some l) \<and> (sz = 1 \<or> sz = 2)
      else if kind = ''array'' then
        (case el of None \<Rightarrow> False | Some e \<Rightarrow> spec_wf e) \<and> (\<exists>k \<ge> 0. cnt = Some k)
      else if kind = ''pointer'' then (case el of None \<Rightarrow> False | Some e \<Rightarrow> spec_wf e)
      else kind = ''opaque'' \<and> 0 \<le> sz)"

text \<open>Declared string capacities are positive, as the compiler resolves them.\<close>

definition capacities_ok :: "stg_types \<Rightarrow> bool" where
  "capacities_ok env = (\<forall>(_, t) \<in> set (types env). \<forall>c. st_string_capacity t = Some c \<longrightarrow> 0 \<le> c)"

lemma SCALAR_TYPES_sizes:
  "list_all (\<lambda>(_, _, sz). sz = 1 \<or> sz = 2 \<or> sz = 4 \<or> sz = 8) SCALAR_TYPES"
  by (simp add: SCALAR_TYPES_def)

lemma scalar_size_pos:
  assumes "dget SCALAR_TYPES n = Some (c, sz)"
  shows "sz = 1 \<or> sz = 2 \<or> sz = 4 \<or> sz = 8"
proof -
  from map_of_SomeD [OF assms] have "(n, c, sz) \<in> set SCALAR_TYPES" .
  with SCALAR_TYPES_sizes show ?thesis unfolding list_all_iff by fastforce
qed

lemma scalar_spec_wf: "scalar_spec name = Inr s \<Longrightarrow> spec_wf s"
  by (auto simp: scalar_spec_def split: option.splits)

lemma require_eq_Inr [res_simps]: "require k v = Inr x \<longleftrightarrow> v = Some x"
  by (auto simp: require_def split: option.splits)

lemma lift_layout_eq_Inr [res_simps]: "lift_layout r = Inr x \<longleftrightarrow> r = Inr x"
  by (auto simp: lift_layout_def split: sum.splits)

lemma array_count_nonneg: "array_count tn dims = Inr k \<Longrightarrow> 0 \<le> k"
  unfolding array_count_def
  by (erule foldE_invariant [where I = "\<lambda>k. 0 \<le> k"]) (auto split: option.splits)

lemma capacities_okD:
  assumes "capacities_ok env" and "dget (types env) n = Some t" and "st_string_capacity t = Some c"
  shows "0 \<le> c"
  using assms by (auto simp: capacities_ok_def dest!: map_of_SomeD)

lemma stg_spec_wf: "stg_spec env tn depth = Inr s \<Longrightarrow> capacities_ok env \<Longrightarrow> spec_wf s"
proof (induction env tn depth arbitrary: s rule: stg_spec.induct)
  case (1 env tn depth)
  have d: "\<not> depth > 32" using 1(4) by (subst (asm) stg_spec.simps) (auto split: if_splits)
  show ?case
  proof (cases "dget (types env) (py_upper tn)")
    case None
    then show ?thesis using 1(4) d
      by (subst (asm) stg_spec.simps) (auto split: if_splits intro: scalar_spec_wf)
  next
    case (Some ty)
    note IH = 1(1-3) [OF d Some refl]
    note eq = 1(4) [unfolded stg_spec.simps [of env tn depth], simplified d Some Let_def, simplified]
    consider "st_kind ty \<in> {''alias'', ''subrange'', ''enum''}" | "st_kind ty = ''boolean''"
      | "st_kind ty = ''integer''" | "st_kind ty = ''float''" | "st_kind ty = ''string''"
      | "st_kind ty = ''array''" | "st_kind ty = ''pointer''" | "st_kind ty = ''struct''"
      using eq by (auto split: if_splits)
    then show ?thesis
    proof cases
      case 1
      with eq obtain el where "st_element_type ty = Some el" "stg_spec env el (depth + 1) = Inr s"
        by (auto simp: res_simps)
      with IH(1) [OF 1] \<open>capacities_ok env\<close> show ?thesis by (auto simp: res_simps)
    next
      case 5
      with eq capacities_okD [OF \<open>capacities_ok env\<close> Some] show ?thesis
        by (fastforce simp: Let_def split: option.splits if_splits)
    next
      case 6
      with eq obtain dims k et el where *: "st_dimensions ty = Some dims" "array_count tn dims = Inr k"
        "st_element_type ty = Some et" "stg_spec env et (depth + 1) = Inr el"
        "s = TypeSpec ''array'' (''ARRAY OF '' @ ts_name el) None 0 None (Some el) (Some k) (ts_align el)"
        by (auto simp: res_simps)
      have "spec_wf el" using IH(2) 6 * \<open>capacities_ok env\<close> by (auto simp: res_simps)
      with * array_count_nonneg show ?thesis by simp
    next
      case 7
      with eq obtain pt el where *: "st_pointer_target ty = Some pt"
        "stg_spec env pt (depth + 1) = Inr el"
        "s = TypeSpec ''pointer'' (''REF_TO '' @ ts_name el) None 0 None (Some el) None 8"
        by (auto simp: res_simps)
      have "spec_wf el" using IH(3) 7 * \<open>capacities_ok env\<close> by (auto simp: res_simps)
      with * show ?thesis by simp
    next
      case 8
      with eq show ?thesis by (auto simp: res_simps split: option.splits prod.splits)
    qed (use eq in \<open>auto simp: res_simps split: if_splits intro: scalar_spec_wf\<close>)
  qed
qed

lemma spec_wf_byte_size: "spec_wf s \<Longrightarrow> \<exists>n. byte_size s = Inr n \<and> 0 \<le> n"
proof (induction s rule: byte_size.induct)
  case (1 kind name ct sz len el cnt al)
  note wf = 1(2)
  consider (scalar) "kind = ''scalar''" | (string) "kind = ''string''" | (array) "kind = ''array''"
    | (pointer) "kind = ''pointer''" | (opaque) "kind = ''opaque''"
    using wf unfolding spec_wf.simps by argo
  then show ?case
  proof cases
    case scalar
    with wf obtain c where "dget SCALAR_TYPES name = Some (c, sz)" by auto
    from scalar_size_pos [OF this] scalar show ?thesis by auto
  next
    case array
    with wf obtain e k where e: "el = Some e" "spec_wf e" "cnt = Some k" "0 \<le> k"
      by (auto split: option.splits)
    have "\<exists>n. byte_size e = Inr n \<and> 0 \<le> n" by (rule 1(1)) (use array e in simp_all)
    then obtain n where "byte_size e = Inr n" "0 \<le> n" by blast
    with array e show ?thesis by simp
  qed (use wf in auto)
qed

section \<open>Instance members\<close>

lemma check_field_Inr:
  assumes "check_field p t sz al = Inr p'"
  shows "p_name p' = p_name p \<and> p_block_kind p' = p_block_kind p \<and> ts_kind (p_spec p') = ts_kind (p_spec p)
    \<and> (p_block_kind p' \<noteq> ''VAR_IN_OUT'' \<and> ts_kind (p_spec p') \<noteq> ''pointer''
        \<longrightarrow> byte_size (p_spec p') = Inr sz)"
  using assms by (auto simp: check_field_def Let_def res_simps split: if_splits)

lemma fb_member_Inr:
  assumes "fb_member env by_name layout (index, member) = Inr p"
  shows "index < length layout \<and> p_offset p = Some (int (fst (layout ! index)))
    \<and> (p_block_kind p \<noteq> ''VAR_IN_OUT'' \<and> ts_kind (p_spec p) \<noteq> ''pointer''
        \<longrightarrow> byte_size (p_spec p) = Inr (int (fst (snd (layout ! index)))))"
proof -
  from assms obtain symbol q a al p' where
    *: "index < length layout"
    "check_field q (snd (snd (layout ! index))) (int (fst (snd (layout ! index)))) (int al) = Inr p'"
    "p = p'\<lparr>p_offset := Some (int (fst (layout ! index))), p_index := Some (int index)\<rparr>"
    by (auto simp: fb_member_def res_simps split: option.splits if_splits prod.splits)
  from check_field_Inr [OF *(2)] *(1,3) show ?thesis by auto
qed

lemma mapE_nth: "mapE f xs = Inr ys \<Longrightarrow> i < length xs \<Longrightarrow> f (xs ! i) = Inr (ys ! i)"
proof (induction xs arbitrary: ys i)
  case (Cons x xs)
  then show ?case by (cases i) (auto simp: bindE_eq_Inr)
qed simp

lemma function_block_abi_layout:
  assumes "function_block_abi name st members env by_name = Inr abi"
  obtains fds layout s a c where "dget (definitions env) st = Some (LStruct fds)"
    and "struct_field_layout (definitions env) fds = Inr layout"
    and "struct_size_align (length (definitions env)) (definitions env) [] 1 0 fds = Inr ((s, a), c)"
    and "a_instance_size abi = int s"
    and "length (a_state_fields abi) = length layout - 1"
    and "\<And>i. i < length (a_state_fields abi) \<Longrightarrow>
           fb_member env by_name layout (Suc i, snd (members ! Suc i)) = Inr (a_state_fields abi ! i)"
proof -
  from assms obtain fds layout s a c fs where
    *: "dget (definitions env) st = Some (LStruct fds)"
    "struct_field_layout (definitions env) fds = Inr layout"
    "struct_size_align (length (definitions env)) (definitions env) [] 1 0 fds = Inr ((s, a), c)"
    "map fst members = [0..<length layout]"
    "mapE (fb_member env by_name layout) (tl members) = Inr fs"
    "a_instance_size abi = int s" "a_state_fields abi = fs"
    by (auto simp: function_block_abi_def res_simps Let_def
        split: option.splits llvm_type.splits if_splits)
  have len: "length members = length layout" using *(4) by (metis length_map length_upt minus_nat.diff_0)
  have fslen: "length fs = length layout - 1"
    using mapE_eq_Inr_length [OF *(5)] len by simp
  have "fb_member env by_name layout (Suc i, snd (members ! Suc i)) = Inr (fs ! i)"
    if "i < length fs" for i
  proof -
    from that fslen len have i: "Suc i < length members" by simp
    then have "fst (members ! Suc i) = Suc i"
      using *(4) len by (metis add_0 nth_map nth_upt)
    then have "members ! Suc i = (Suc i, snd (members ! Suc i))" by (metis prod.collapse)
    moreover have "tl members ! i = members ! Suc i" using i by (simp add: nth_tl)
    ultimately show ?thesis using mapE_nth [OF *(5), of i] i by simp
  qed
  with that * fslen show thesis by blast
qed

lemma state_field_offset:
  assumes "function_block_abi name st members env by_name = Inr abi"
    and "i < length (a_state_fields abi)"
    and "p_block_kind (a_state_fields abi ! i) \<noteq> ''VAR_IN_OUT''"
    and "ts_kind (p_spec (a_state_fields abi ! i)) \<noteq> ''pointer''"
  obtains layout where "in_order 0 layout" and "int (layout_end 0 layout) \<le> a_instance_size abi"
    and "length layout = Suc (length (a_state_fields abi))"
    and "\<And>j. j < length (a_state_fields abi) \<Longrightarrow>
           p_offset (a_state_fields abi ! j) = Some (int (fst (layout ! Suc j)))"
    and "byte_size (p_spec (a_state_fields abi ! i)) = Inr (int (fst (snd (layout ! Suc i))))"
proof -
  from function_block_abi_layout [OF assms(1)] obtain fds layout s a c where
    *: "struct_field_layout (definitions env) fds = Inr layout"
    "struct_size_align (length (definitions env)) (definitions env) [] 1 0 fds = Inr ((s, a), c)"
    "a_instance_size abi = int s"
    "length (a_state_fields abi) = length layout - 1"
    "\<And>i. i < length (a_state_fields abi) \<Longrightarrow>
           fb_member env by_name layout (Suc i, snd (members ! Suc i)) = Inr (a_state_fields abi ! i)"
    by metis
  have "cache_pos []" by (simp add: cache_pos_def)
  from field_layout_end [OF *(1) [unfolded struct_field_layout_def] this, of 1] *(2)
  have "layout_end 0 layout \<le> s" by auto
  moreover have "in_order 0 layout"
    using *(1) unfolding struct_field_layout_def by (rule field_layout_in_order)
  moreover have "length layout = Suc (length (a_state_fields abi))" using *(4) assms(2) by simp
  moreover note fb_member_Inr [OF *(5)]
  ultimately show thesis using that *(3) assms(2-4) by auto
qed

section \<open>A concrete function block\<close>

text \<open>
  The block \<open>FB\<close> with an INT input \<open>X\<close> and a DINT array \<open>BUF\<close> of three elements; its IR instance
  is \<open>{ ptr, i16, [3 x i32] }\<close>.
\<close>

definition demo_env :: stg_types where
  "demo_env = mk_stg_types
     [\<lparr>st_name = ''ARR'', st_kind = ''array'', st_element_type = Some ''DINT'', st_bit_width = None,
       st_signed = None, st_string_capacity = None, st_string_encoding = None,
       st_dimensions = Some [(Some 0, Some 2)], st_pointer_target = None\<rparr>]
     [(''%FB'', LStruct [LPtr, LInt 16, LArray 3 (LInt 32)])]"

definition demo_symbol :: "string \<Rightarrow> string \<Rightarrow> string \<Rightarrow> stg_symbol" where
  "demo_symbol name role ty = \<lparr>sy_name = name, sy_role = role, sy_type_name = ty,
     sy_by_reference = False, sy_configuration_source = False, sy_constant = False\<rparr>"

definition demo_symbols :: "(string, stg_symbol) dict" where
  "demo_symbols = [(''X'', demo_symbol ''X'' ''input'' ''INT''),
                   (''BUF'', demo_symbol ''BUF'' ''local'' ''ARR'')]"

definition demo_members :: "(nat \<times> string) list" where
  "demo_members = [(0, ''__vtable''), (1, ''X''), (2, ''BUF'')]"

definition demo_x :: param where
  "demo_x = \<lparr>p_name = ''X'', p_spec = TypeSpec ''scalar'' ''INT'' (Some ''int16_t'') 2 None None None 2,
     p_block_kind = ''VAR_INPUT'', p_constant = False, p_offset = Some 8, p_index = Some 1\<rparr>"

definition demo_buf :: param where
  "demo_buf = \<lparr>p_name = ''BUF'', p_spec = TypeSpec ''array'' ''ARRAY OF DINT'' None 0 None
       (Some (TypeSpec ''scalar'' ''DINT'' (Some ''int32_t'') 4 None None None 4)) (Some 3) 4,
     p_block_kind = ''VAR'', p_constant = False, p_offset = Some 12, p_index = Some 2\<rparr>"

definition demo_abi :: target_abi where
  "demo_abi = \<lparr>a_kind = ''FUNCTION_BLOCK'', a_name = ''FB'', a_params = [demo_x], a_outputs = [],
     a_state_fields = [demo_x, demo_buf], a_snapshot_fields = [demo_buf], a_instance_size = 24,
     a_instance_align = 8, a_ret = None, a_ret_by_value = None, a_call_slots = []\<rparr>"

lemma demo_abi_computed:
  "function_block_abi ''FB'' ''%FB'' demo_members demo_env demo_symbols = Inr demo_abi"
  by code_simp

text \<open>
  Every member of a function block that is stored by value lies inside the instance: its
  offset is known and non-negative and its last byte is within \<open>instance_size\<close>.
\<close>

theorem fb_member_inside_instance:
  assumes "function_block_abi name st members env by_name = Inr abi"
    and "p \<in> set (a_state_fields abi)"
    and "p_block_kind p \<noteq> ''VAR_IN_OUT''" and "ts_kind (p_spec p) \<noteq> ''pointer''"
  shows "\<exists>off b. p_offset p = Some off \<and> byte_size (p_spec p) = Inr b
           \<and> 0 \<le> off \<and> 0 \<le> b \<and> off + b \<le> a_instance_size abi"
proof -
  from assms(2) obtain i where i: "i < length (a_state_fields abi)" "p = a_state_fields abi ! i"
    by (auto simp: in_set_conv_nth)
  from state_field_offset [OF assms(1) i(1)] assms(3,4) i(2) obtain layout where
    *: "in_order 0 layout" "int (layout_end 0 layout) \<le> a_instance_size abi"
    "length layout = Suc (length (a_state_fields abi))"
    "p_offset p = Some (int (fst (layout ! Suc i)))"
    "byte_size (p_spec p) = Inr (int (fst (snd (layout ! Suc i))))"
    using i(1) by metis
  have "(fst (layout ! Suc i), fst (snd (layout ! Suc i)), snd (snd (layout ! Suc i))) \<in> set layout"
    using *(3) i(1) by simp
  from in_order_end [OF *(1) this] *(2) have
    "int (fst (layout ! Suc i)) + int (fst (snd (layout ! Suc i))) \<le> a_instance_size abi" by linarith
  with *(4,5) show ?thesis by simp
qed

theorem fb_member_inside_instance_witness:
  "\<exists>off b. p_offset demo_buf = Some off \<and> byte_size (p_spec demo_buf) = Inr b
     \<and> 0 \<le> off \<and> 0 \<le> b \<and> off + b \<le> a_instance_size demo_abi"
  by (rule fb_member_inside_instance [OF demo_abi_computed])
    (simp_all add: demo_abi_def demo_buf_def)

text \<open>
  (C32) Members stored by value never overlap: an earlier member ends before a later one starts.
\<close>

theorem fb_members_disjoint:
  assumes "function_block_abi name st members env by_name = Inr abi"
    and "i < j" and "j < length (a_state_fields abi)"
    and "p_block_kind (a_state_fields abi ! i) \<noteq> ''VAR_IN_OUT''"
    and "ts_kind (p_spec (a_state_fields abi ! i)) \<noteq> ''pointer''"
  shows "\<exists>o1 b1 o2. p_offset (a_state_fields abi ! i) = Some o1
           \<and> byte_size (p_spec (a_state_fields abi ! i)) = Inr b1
           \<and> p_offset (a_state_fields abi ! j) = Some o2 \<and> o1 + b1 \<le> o2"
proof -
  from assms(2,3) have i: "i < length (a_state_fields abi)" by simp
  from state_field_offset [OF assms(1) i assms(4,5)] obtain layout where
    *: "in_order 0 layout" "length layout = Suc (length (a_state_fields abi))"
    "p_offset (a_state_fields abi ! i) = Some (int (fst (layout ! Suc i)))"
    "p_offset (a_state_fields abi ! j) = Some (int (fst (layout ! Suc j)))"
    "byte_size (p_spec (a_state_fields abi ! i)) = Inr (int (fst (snd (layout ! Suc i))))"
    using i assms(3) by metis
  have "fst (layout ! Suc i) + fst (snd (layout ! Suc i)) \<le> fst (layout ! Suc j)"
    using in_order_nth [OF *(1), of "Suc i" "Suc j"] assms(2,3) *(2) by simp
  then show ?thesis using * by (auto simp flip: of_nat_add)
qed

theorem fb_members_disjoint_witness:
  "\<exists>o1 b1 o2. p_offset (a_state_fields demo_abi ! 0) = Some o1
     \<and> byte_size (p_spec (a_state_fields demo_abi ! 0)) = Inr b1
     \<and> p_offset (a_state_fields demo_abi ! 1) = Some o2 \<and> o1 + b1 \<le> o2"
  by (rule fb_members_disjoint [OF demo_abi_computed])
    (simp_all add: demo_abi_def demo_x_def)

text \<open>
  (C34) A specification resolved from the STG model is well formed, so its size is defined and
  non-negative: \<open>byte_size\<close> never raises on it.
\<close>

theorem stg_spec_has_size:
  assumes "stg_spec env tn depth = Inr s" and "capacities_ok env"
  shows "spec_wf s \<and> (\<exists>n. byte_size s = Inr n \<and> 0 \<le> n)"
  using stg_spec_wf [OF assms] spec_wf_byte_size by blast

lemma demo_spec: "stg_spec demo_env ''arr'' 0 = Inr (p_spec demo_buf)"
  by code_simp

lemma demo_capacities: "capacities_ok demo_env"
  by (simp add: capacities_ok_def demo_env_def mk_stg_types_def)

theorem stg_spec_has_size_witness:
  "spec_wf (p_spec demo_buf) \<and> (\<exists>n. byte_size (p_spec demo_buf) = Inr n \<and> 0 \<le> n)"
  by (rule stg_spec_has_size [OF demo_spec demo_capacities])

end
