(* ===== verification/Frames.thy ===== *)
theory Frames
  imports Harness_Abi "HOL-Library.Word"
begin

text \<open>
  The canonical testcase frames of \<open>fuzzer/corpus/frames.py\<close>: record parsing, the canonical
  printer, value validation, TIME literals, the construction of testcases from field mappings
  and the FNV-1a frame hashes (64-bit words). The central fact is that parsing a canonical text
  gives back the testcase that printed it.
\<close>

unbundle bit_operations_syntax

section \<open>Data\<close>

datatype frame_error =
    InvalidRecord string
  | WrongType string
  | UnsupportedProfile string
  | NeedsPrefix string
  | UnknownShared string
  | NotFrameField string
  | UnknownField string
  | BadIndices
  | DtOutOfRange nat
  | BadTime string
  | BadInt string
  | Overflow
  | StringTooLong string
  | BadPointer string
  | BadArray string
  | ArrayTooLong string
  | BadReal string
  | BadInteger string
  | UnsupportedWidth string
  | OutOfBounds string
  | UnknownSharedFields
  | FieldMismatch nat
  | DtNotUint64 nat
  | FrameAbi abi_error

record frame =
  f_index :: nat
  f_values :: "(string, string) dict"
  f_dt_ns :: "int option"

record testcase =
  tc_init_profile :: string
  tc_shared :: "(string, string) dict"
  tc_frames :: "frame list"
  tc_contract_id :: "string option"
  tc_field_order :: "string list"
  tc_types :: "(string, string) dict"
  tc_shared_order :: "string list"

definition FNV_OFFSET :: "64 word" where
  "FNV_OFFSET = 14695981039346656037"

definition FNV_PRIME :: "64 word" where
  "FNV_PRIME = 1099511628211"

definition FRAME_SEPARATOR :: string where
  "FRAME_SEPARATOR = [CHR 0x1E]"

definition RESERVED_INIT :: string where
  "RESERVED_INIT = ''__INIT''"

definition RESERVED_DT :: string where
  "RESERVED_DT = ''__DT''"

section \<open>Defaults, tokens and records\<close>

definition default_for_spec :: "string \<Rightarrow> string \<Rightarrow> string" where
  "default_for_spec kind name =
     (if kind = ''scalar'' then (if name \<in> {''REAL'', ''LREAL''} then ''0.0'' else ''0'')
      else if kind = ''string'' then ''A''
      else ''0x00'')"

definition default_value :: "param \<Rightarrow> string" where
  "default_value p = default_for_spec (ts_kind (p_spec p)) (ts_name (p_spec p))"

definition type_token :: "param \<Rightarrow> string" where
  "type_token p = (let spec = p_spec p in
     if ts_kind spec = ''scalar'' \<or> ts_kind spec = ''string'' then ts_name spec
     else if ts_kind spec = ''pointer'' then ''POINTER'' else ''ARRAY'')"

definition split_record :: "string \<Rightarrow> frame_error + (string \<times> string \<times> string)" where
  "split_record line =
     (case split_max CHR '','' 2 line of
        [n, t, v] \<Rightarrow> if strip n = [] then Inl (InvalidRecord line)
                     else Inr (strip n, py_upper (strip t), strip v)
      | _ \<Rightarrow> Inl (InvalidRecord line))"

definition check_type_token :: "string \<Rightarrow> string \<Rightarrow> string \<Rightarrow> frame_error + unit" where
  "check_type_token token expected name =
     assertE (token = [] \<or> token = py_upper expected) (WrongType name)"

text \<open>The match of \<open>^(\d+)\.(.+)$\<close>.\<close>

definition split_cycle_name :: "string \<Rightarrow> nat option \<times> string" where
  "split_cycle_name name =
     (let ds = takeWhile is_digit name; r = dropWhile is_digit name in
      if ds \<noteq> [] \<and> r \<noteq> [] \<and> hd r = CHR ''.'' \<and> tl r \<noteq> []
      then (Some (read_nat ds), tl r) else (None, name))"

section \<open>TIME literals\<close>

text \<open>
  The literal's magnitude is read as a double, multiplied by the unit and rounded to an integer.
  A non-negative double is a fraction; \<open>to_double\<close> rounds a fraction to the nearest one (ties to
  even, 53 significant bits, subnormals below \<open>2 ^ (-1022)\<close>).
\<close>

definition round_half_even :: "int \<Rightarrow> int \<Rightarrow> int" where
  "round_half_even p q = (let d = p div q; r = p mod q in
     if 2 * r < q then d else if 2 * r > q then d + 1 else if even d then d else d + 1)"

function bit_length :: "int \<Rightarrow> int" where
  "bit_length n = (if n \<le> 0 then 0 else 1 + bit_length (n div 2))"
  by pat_completeness auto
termination
  by (relation "measure nat") auto

declare bit_length.simps [simp del]

definition scale2 :: "int \<Rightarrow> int \<Rightarrow> int \<Rightarrow> int \<times> int" where
  "scale2 p q e = (if e \<ge> 0 then (p * 2 ^ nat e, q) else (p, q * 2 ^ nat (- e)))"

definition floor_log2 :: "int \<Rightarrow> int \<Rightarrow> int" where
  "floor_log2 p q = (let k = bit_length p - bit_length q; (a, b) = scale2 1 1 k in
     if q * a \<le> p * b then k else k - 1)"

definition to_double :: "int \<times> int \<Rightarrow> int \<times> int" where
  "to_double pq = (case pq of (p, q) \<Rightarrow>
     if p = 0 then (0, 1)
     else let e = max (floor_log2 p q - 52) (- 1074); (a, b) = scale2 p q (- e);
              m = round_half_even a b in scale2 m 1 e)"

definition double_overflow :: "int \<times> int \<Rightarrow> bool" where
  "double_overflow pq = (case pq of (p, q) \<Rightarrow> 2 ^ 1024 * q \<le> p)"

definition time_units :: "(string \<times> int) list" where
  "time_units = [(''d'', 86400000000000), (''h'', 3600000000000), (''m'', 60000000000),
     (''s'', 1000000000), (''ms'', 1000000), (''us'', 1000), (''ns'', 1)]"

text \<open>The match of \<open>t#\s*([0-9]+(?:\.[0-9]+)?)\s*(unit)\<close>, case ignored: digits, fraction, unit.\<close>

definition match_time :: "string \<Rightarrow> (string \<times> string \<times> string) option" where
  "match_time s =
     (if starts_with ''t#'' (py_lower s) then
        (let r = lstrip (drop 2 s); ds = takeWhile is_digit r; r' = dropWhile is_digit r;
             (fs, u) = (case r' of
                 c # cs \<Rightarrow> if c = CHR ''.'' \<and> takeWhile is_digit cs \<noteq> []
                           then (takeWhile is_digit cs, dropWhile is_digit cs) else ([], r')
               | [] \<Rightarrow> ([], r'));
             unit = py_lower (lstrip u) in
         if ds \<noteq> [] \<and> dmem unit time_units then Some (ds, fs, unit) else None)
      else None)"

definition parse_time_literal :: "string \<Rightarrow> frame_error + int" where
  "parse_time_literal text =
     (case match_time (strip text) of
        None \<Rightarrow> Inl (BadTime text)
      | Some (ds, fs, unit) \<Rightarrow>
        (let magnitude = to_double (read_base 10 0 (ds @ fs), 10 ^ length fs);
             factor = (case dget time_units unit of Some f \<Rightarrow> f | None \<Rightarrow> 1);
             product = to_double (fst magnitude * factor, snd magnitude) in
         if double_overflow magnitude \<or> double_overflow product then Inl Overflow
         else Inr (round_half_even (fst product) (snd product))))"

definition parse_dt :: "string \<Rightarrow> frame_error + int" where
  "parse_dt value =
     (let text = strip value in
      if starts_with ''t#'' (py_lower text) then parse_time_literal text
      else case int_base0 text of None \<Rightarrow> Inl (BadInt text) | Some i \<Rightarrow> Inr i)"

section \<open>Value validation\<close>

text \<open>
  \<open>float(text)\<close>: a decimal literal \<open>m * 10 ^ e\<close>, an infinity or NaN. \<open>digits_ok\<close> allows single
  underscores between digits.
\<close>

datatype float_lit = Decimal int int | NonFinite

definition strip_under :: "string \<Rightarrow> string" where
  "strip_under s = filter (\<lambda>c. c \<noteq> CHR ''_'') s"

definition is_float_digit :: "char \<Rightarrow> bool" where
  "is_float_digit c = (is_digit c \<or> c = CHR ''_'')"

definition parse_float :: "string \<Rightarrow> float_lit option" where
  "parse_float text =
     (let (_, s) = split_sign (strip text);
          ip = takeWhile is_float_digit s; r = dropWhile is_float_digit s;
          (dot, fp, r2) = (case r of
              c # cs \<Rightarrow> if c = CHR ''.'' then (True, takeWhile is_float_digit cs, dropWhile is_float_digit cs)
                        else (False, [], r)
            | [] \<Rightarrow> (False, [], r));
          mant_ok = ((ip = [] \<or> digits_ok is_digit False ip) \<and> (fp = [] \<or> digits_ok is_digit False fp)
                     \<and> (ip \<noteq> [] \<or> fp \<noteq> []));
          m = read_base 10 0 (strip_under (ip @ fp)); fl = int (length (strip_under fp)) in
      if py_lower s \<in> {''inf'', ''infinity'', ''nan''} then Some NonFinite
      else if \<not> mant_ok then None
      else case r2 of
        [] \<Rightarrow> Some (Decimal m (- fl))
      | c # cs \<Rightarrow>
        if c \<in> {CHR ''e'', CHR ''E''} then
          (let (sg, ds) = split_sign cs in
           if digits_ok is_digit False ds
           then Some (Decimal m (sg * read_base 10 0 ds - fl)) else None)
        else None)"

text \<open>
  A decimal rounds to a finite double iff it is below \<open>2 ^ 1024 - 2 ^ 970\<close>, and that double packs
  as a 32-bit float iff the decimal is below \<open>2 ^ 128 - 2 ^ 103 - 2 ^ 74\<close>.
\<close>

definition decimal_below :: "int \<Rightarrow> int \<Rightarrow> int \<Rightarrow> bool" where
  "decimal_below m e bound =
     (if e \<ge> 0 then m * 10 ^ nat e < bound else m < bound * 10 ^ nat (- e))"

definition real_ok :: "string \<Rightarrow> string \<Rightarrow> bool" where
  "real_ok name value =
     (case parse_float value of
        Some (Decimal m e) \<Rightarrow> decimal_below m e (2 ^ 1024 - 2 ^ 970)
            \<and> (name = ''REAL'' \<longrightarrow> decimal_below m e (2 ^ 128 - 2 ^ 103 - 2 ^ 74))
      | _ \<Rightarrow> False)"

text \<open>The integer literal of a scalar: hexadecimal with a \<open>0x\<close> prefix, else decimal.\<close>

definition is_hex_literal :: "string \<Rightarrow> bool" where
  "is_hex_literal text = (let (_, s) = split_sign text in
     2 < length s \<and> hd s = CHR ''0'' \<and> s ! 1 \<in> {CHR ''x'', CHR ''X''} \<and> list_all is_hex_digit (drop 2 s))"

definition scalar_int :: "string \<Rightarrow> int option" where
  "scalar_int value = (let text = strip value in
     if is_hex_literal text then int_base16 text else int_base10 text)"

definition UNSIGNED_NAMES :: "string list" where
  "UNSIGNED_NAMES = [''USINT'', ''BYTE'', ''CHAR'', ''UINT'', ''WORD'', ''WCHAR'',
     ''UDINT'', ''DWORD'', ''ULINT'', ''LWORD'']"

definition scalar_bounds :: "type_spec \<Rightarrow> int \<times> int" where
  "scalar_bounds spec =
     (let bits = nat (ts_size spec) * 8;
          unsigned = ((case ts_c_type spec of None \<Rightarrow> False | Some c \<Rightarrow> starts_with ''uint'' c)
                      \<or> ts_name spec \<in> set UNSIGNED_NAMES);
          (lo, hi) = (if unsigned then (0, 2 ^ bits - 1) else (- (2 ^ (bits - 1)), 2 ^ (bits - 1) - 1)) in
      (lo, if ts_name spec = ''BOOL'' then 1 else hi))"

definition validate_value :: "param \<Rightarrow> string \<Rightarrow> frame_error + unit" where
  "validate_value p value =
     (let spec = p_spec p; kind = ts_kind spec in
      if kind = ''string'' then
        assertE (case ts_length spec of None \<Rightarrow> True | Some l \<Rightarrow> int (length value) \<le> l)
          (StringTooLong (p_name p))
      else if kind = ''pointer'' then
        assertE (value = [] \<or> starts_with ''0x'' (py_lower value)) (BadPointer (p_name p))
      else if kind = ''array'' then
        bindE (assertE (starts_with ''0x'' (py_lower value)) (BadArray (p_name p))) (\<lambda>_.
        let digits = drop 2 value in
        bindE (assertE (length digits mod 2 = 0 \<and> list_all is_hex_digit digits) (BadArray (p_name p))) (\<lambda>_.
        bindE (case byte_size spec of Inl e \<Rightarrow> Inl (FrameAbi e) | Inr b \<Rightarrow> Inr b) (\<lambda>expected.
          assertE (expected = 0 \<or> int (length digits div 2) \<le> expected) (ArrayTooLong (p_name p)))))
      else if kind \<noteq> ''scalar'' then Inr ()
      else if ts_name spec \<in> {''REAL'', ''LREAL''} then
        assertE (real_ok (ts_name spec) value) (BadReal (p_name p))
      else case scalar_int value of
        None \<Rightarrow> Inl (BadInteger (p_name p))
      | Some number \<Rightarrow>
        bindE (assertE (1 \<le> ts_size spec * 8 \<and> ts_size spec * 8 \<le> 64) (UnsupportedWidth (p_name p))) (\<lambda>_.
          assertE (fst (scalar_bounds spec) \<le> number \<and> number \<le> snd (scalar_bounds spec))
            (OutOfBounds (p_name p))))"

text \<open>
  \<open>validate\<close>: only known shared fields; every frame carries exactly the frame fields; a time step
  fits 64 bits; every value fits its type.
\<close>

definition validate_frame :: "param list \<Rightarrow> frame \<Rightarrow> frame_error + unit" where
  "validate_frame schema f =
     bindE (assertE (set (dkeys (f_values f)) = p_name ` set schema) (FieldMismatch (f_index f))) (\<lambda>_.
     bindE (assertE (case f_dt_ns f of None \<Rightarrow> True | Some d \<Rightarrow> 0 \<le> d \<and> d \<le> 2 ^ 64 - 1)
              (DtNotUint64 (f_index f))) (\<lambda>_.
     forE (\<lambda>(name, value).
        case dget (dict_of (map (\<lambda>p. (p_name p, p)) schema)) name of
          None \<Rightarrow> Inl (UnknownField name)
        | Some p \<Rightarrow> validate_value p value) (f_values f)))"

definition validate :: "testcase \<Rightarrow> target_abi \<Rightarrow> frame_error + unit" where
  "validate tc abi =
     (let shared = dict_of (map (\<lambda>p. (p_name p, p)) (shared_params abi)) in
      bindE (assertE (set (dkeys (tc_shared tc)) \<subseteq> set (dkeys shared)) UnknownSharedFields) (\<lambda>_.
      bindE (forE (\<lambda>(name, value).
          case dget shared name of
            None \<Rightarrow> Inl (UnknownShared name)
          | Some p \<Rightarrow> validate_value p value) (tc_shared tc)) (\<lambda>_.
      forE (validate_frame (frame_action_params abi)) (tc_frames tc))))"

section \<open>Printing\<close>

definition record_line :: "string \<Rightarrow> string \<Rightarrow> string \<Rightarrow> string" where
  "record_line name ty value = name @ '','' @ ty @ '','' @ value"

definition type_of_name :: "(string, string) dict \<Rightarrow> string \<Rightarrow> string" where
  "type_of_name ts name = (case dget ts name of None \<Rightarrow> ''INT'' | Some t \<Rightarrow> t)"

definition frame_field_name :: "nat \<Rightarrow> string \<Rightarrow> string" where
  "frame_field_name i name = show_nat i @ ''.'' @ name"

definition shared_lines :: "testcase \<Rightarrow> string list" where
  "shared_lines tc =
     concat (map (\<lambda>name. case dget (tc_shared tc) name of
                None \<Rightarrow> [] | Some v \<Rightarrow> [record_line name (type_of_name (tc_types tc) name) v])
       (if tc_shared_order tc \<noteq> [] then tc_shared_order tc else dkeys (tc_shared tc)))"

definition frame_lines :: "testcase \<Rightarrow> bool \<Rightarrow> frame \<Rightarrow> string list" where
  "frame_lines tc include_dt f =
     concat (map (\<lambda>name. case dget (f_values f) name of
                None \<Rightarrow> []
              | Some v \<Rightarrow> [record_line (frame_field_name (f_index f) name)
                                       (type_of_name (tc_types tc) name) v])
       (if tc_field_order tc \<noteq> [] then tc_field_order tc else dkeys (f_values f)))
     @ (case f_dt_ns f of
          None \<Rightarrow> []
        | Some d \<Rightarrow> if include_dt
                    then [record_line (frame_field_name (f_index f) RESERVED_DT) ''TIME'' (show_int d)]
                    else [])"

definition canonical_lines :: "testcase \<Rightarrow> bool \<Rightarrow> string list" where
  "canonical_lines tc include_dt =
     (if tc_init_profile tc \<noteq> ''cold'' then [record_line RESERVED_INIT ''ENUM'' (tc_init_profile tc)] else [])
     @ shared_lines tc @ concat (map (frame_lines tc include_dt) (tc_frames tc))"

definition canonical :: "testcase \<Rightarrow> bool \<Rightarrow> string" where
  "canonical tc include_dt =
     (let lines = canonical_lines tc include_dt in
      join [newline] lines @ (if lines \<noteq> [] then [newline] else []))"

section \<open>Parsing\<close>

record parse_state =
  ps_init_profile :: string
  ps_shared :: "(string, string) dict"
  ps_raw_frames :: "(nat, (string \<times> string) list) dict"
  ps_dt_by_frame :: "(nat, int) dict"

definition parse_start :: parse_state where
  "parse_start = \<lparr>ps_init_profile = ''cold'', ps_shared = [], ps_raw_frames = [], ps_dt_by_frame = []\<rparr>"

definition upper_map :: "param list \<Rightarrow> (string, param) dict" where
  "upper_map ps = dict_of (map (\<lambda>p. (py_upper (p_name p), p)) ps)"

definition parse_shared_record :: "target_abi \<Rightarrow> parse_state \<Rightarrow> string \<Rightarrow> string \<Rightarrow> string \<Rightarrow>
    frame_error + parse_state" where
  "parse_shared_record abi st field_name ty value =
     (if py_upper field_name = RESERVED_INIT then
        bindE (check_type_token ty ''ENUM'' field_name) (\<lambda>_.
          if value \<noteq> ''cold'' then Inl (UnsupportedProfile value)
          else Inr (st\<lparr>ps_init_profile := value\<rparr>))
      else case dget (upper_map (shared_params abi)) (py_upper field_name) of
        None \<Rightarrow> if dmem (py_upper field_name) (upper_map (frame_action_params abi))
                then Inl (NeedsPrefix field_name) else Inl (UnknownShared field_name)
      | Some p \<Rightarrow>
        bindE (check_type_token ty (type_token p) field_name) (\<lambda>_.
          Inr (st\<lparr>ps_shared := dset (p_name p) value (ps_shared st)\<rparr>)))"

definition parse_frame_record :: "target_abi \<Rightarrow> parse_state \<Rightarrow> nat \<Rightarrow> string \<Rightarrow> string \<Rightarrow> string \<Rightarrow>
    frame_error + parse_state" where
  "parse_frame_record abi st cycle field_name ty value =
     (if py_upper field_name = RESERVED_DT then
        bindE (check_type_token ty ''TIME'' field_name) (\<lambda>_.
        bindE (parse_dt value) (\<lambda>d.
          Inr (st\<lparr>ps_dt_by_frame := dset cycle d (ps_dt_by_frame st)\<rparr>)))
      else case dget (upper_map (frame_action_params abi)) (py_upper field_name) of
        None \<Rightarrow> if dmem (py_upper field_name) (upper_map (a_state_fields abi @ a_params abi))
                then Inl (NotFrameField field_name) else Inl (UnknownField field_name)
      | Some p \<Rightarrow>
        bindE (check_type_token ty (type_token p) field_name) (\<lambda>_.
        let old = (case dget (ps_raw_frames st) cycle of None \<Rightarrow> [] | Some l \<Rightarrow> l) in
          Inr (st\<lparr>ps_raw_frames := dset cycle (old @ [(p_name p, value)]) (ps_raw_frames st)\<rparr>)))"

definition parse_line :: "target_abi \<Rightarrow> parse_state \<Rightarrow> string \<Rightarrow> frame_error + parse_state" where
  "parse_line abi st raw_line =
     (let line = strip raw_line in
      if line = [] then Inr st
      else bindE (split_record line) (\<lambda>(name, ty, value).
        case split_cycle_name name of
          (None, field_name) \<Rightarrow> parse_shared_record abi st field_name ty value
        | (Some cycle, field_name) \<Rightarrow> parse_frame_record abi st cycle field_name ty value))"

text \<open>The values every frame inherits before frame 0: type defaults, then shared values.\<close>

definition initial_values :: "param list \<Rightarrow> (string, string) dict \<Rightarrow> (string, string) dict" where
  "initial_values schema shared =
     dupdate (dict_of (map (\<lambda>p. (p_name p, default_value p)) schema))
       (concat (map (\<lambda>p. case dget shared (p_name p) of None \<Rightarrow> [] | Some v \<Rightarrow> [(p_name p, v)]) schema))"

definition frame_dt :: "parse_state \<Rightarrow> int \<Rightarrow> (int \<times> int) option \<Rightarrow> nat \<Rightarrow> frame_error + int option" where
  "frame_dt st scan_period dt_range index =
     (let d = (case dget (ps_dt_by_frame st) index of
                 Some d \<Rightarrow> Some d
               | None \<Rightarrow> if dt_range \<noteq> None then Some scan_period else None) in
      case (d, dt_range) of
        (Some v, Some (lo, hi)) \<Rightarrow> if lo \<le> v \<and> v \<le> hi then Inr d else Inl (DtOutOfRange index)
      | _ \<Rightarrow> Inr d)"

fun build_frames :: "param list \<Rightarrow> parse_state \<Rightarrow> int \<Rightarrow> (int \<times> int) option \<Rightarrow>
    (string, string) dict \<Rightarrow> nat list \<Rightarrow> frame_error + frame list" where
  "build_frames schema st sp dtr previous [] = Inr []"
| "build_frames schema st sp dtr previous (index # rest) =
     (let raw = (case dget (ps_raw_frames st) index of None \<Rightarrow> [] | Some l \<Rightarrow> l);
          values = foldl (\<lambda>d p. dsetdefault (p_name p) (default_value p) d) (dupdate previous raw) schema in
      bindE (frame_dt st sp dtr index) (\<lambda>d.
      bindE (build_frames schema st sp dtr values rest) (\<lambda>fs.
        Inr (\<lparr>f_index = index, f_values = values, f_dt_ns = d\<rparr> # fs))))"

definition all_typed_params :: "target_abi \<Rightarrow> param list" where
  "all_typed_params abi = a_state_fields abi @ a_params abi"

definition abi_types :: "target_abi \<Rightarrow> (string, string) dict" where
  "abi_types abi = dict_of (map (\<lambda>p. (p_name p, type_token p)) (all_typed_params abi))"

definition finish_parse :: "target_abi \<Rightarrow> int \<Rightarrow> (int \<times> int) option \<Rightarrow> parse_state \<Rightarrow>
    frame_error + testcase" where
  "finish_parse abi sp dtr st =
     (let indices = sort (remdups (dkeys (ps_raw_frames st) @ dkeys (ps_dt_by_frame st)));
          schema = frame_action_params abi;
          previous = initial_values schema (ps_shared st) in
      bindE (assertE (indices = [0..<length indices]) BadIndices) (\<lambda>_.
      bindE (build_frames schema st sp dtr previous [0..<length indices]) (\<lambda>frames.
      let tc = \<lparr>tc_init_profile = ps_init_profile st, tc_shared = ps_shared st,
            tc_frames = (if frames = [] then [\<lparr>f_index = 0, f_values = previous, f_dt_ns = None\<rparr>] else frames),
            tc_contract_id = None, tc_field_order = map p_name schema, tc_types = abi_types abi,
            tc_shared_order = map p_name (shared_params abi)\<rparr> in
      bindE (validate tc abi) (\<lambda>_. Inr tc))))"

definition parse_testcase :: "string \<Rightarrow> target_abi \<Rightarrow> int \<Rightarrow> (int \<times> int) option \<Rightarrow>
    frame_error + testcase" where
  "parse_testcase text abi scan_period_ns dt_range_ns =
     bindE (foldE (parse_line abi) parse_start (splitlines text))
       (finish_parse abi scan_period_ns dt_range_ns)"

definition canonicalize :: "string \<Rightarrow> target_abi \<Rightarrow> int \<Rightarrow> (int \<times> int) option \<Rightarrow> bool \<Rightarrow>
    frame_error + string" where
  "canonicalize text abi sp dtr include_dt =
     bindE (parse_testcase text abi sp dtr) (\<lambda>tc. Inr (canonical tc include_dt))"

section \<open>Building a testcase\<close>

text \<open>One frame mapping merged into the previous values; \<open>None\<close> removes the field.\<close>

definition merge_field :: "param list \<Rightarrow> (string, string) dict \<Rightarrow> string \<times> string option \<Rightarrow>
    frame_error + (string, string) dict" where
  "merge_field schema merged kv =
     (case find (\<lambda>p. py_upper (p_name p) = py_upper (fst kv)) schema of
        None \<Rightarrow> Inl (UnknownField (fst kv))
      | Some p \<Rightarrow> (case snd kv of
                     None \<Rightarrow> Inr (dpop (p_name p) merged)
                   | Some v \<Rightarrow> Inr (dset (p_name p) v merged)))"

fun merge_frames :: "param list \<Rightarrow> int option \<Rightarrow> int option list option \<Rightarrow> (string, string) dict \<Rightarrow> nat \<Rightarrow>
    (string \<times> string option) list list \<Rightarrow> frame_error + frame list" where
  "merge_frames schema dt dts previous index [] = Inr []"
| "merge_frames schema dt dts previous index (values # rest) =
     bindE (foldE (merge_field schema) previous values) (\<lambda>merged.
     bindE (merge_frames schema dt dts merged (index + 1) rest) (\<lambda>fs.
     let d = (case dts of
                Some ds \<Rightarrow> if index < length ds then ds ! index else if index = 0 then dt else None
              | None \<Rightarrow> if index = 0 then dt else None) in
       Inr (\<lparr>f_index = index, f_values = merged, f_dt_ns = d\<rparr> # fs)))"

definition build_testcase :: "target_abi \<Rightarrow> (string \<times> string option) list list \<Rightarrow> (string, string) dict \<Rightarrow>
    string \<Rightarrow> int option \<Rightarrow> int option list option \<Rightarrow> bool \<Rightarrow> frame_error + string" where
  "build_testcase abi frames shared init_profile dt dts include_dt =
     (let schema = frame_action_params abi;
          previous = initial_values schema shared in
      bindE (merge_frames schema dt dts previous 0 frames) (\<lambda>frame_objects.
      let tc = \<lparr>tc_init_profile = init_profile, tc_shared = shared, tc_frames = frame_objects,
            tc_contract_id = None, tc_field_order = map p_name schema, tc_types = abi_types abi,
            tc_shared_order = map p_name (shared_params abi)\<rparr> in
      bindE (forE (\<lambda>p. case dget shared (p_name p) of
                None \<Rightarrow> Inr () | Some v \<Rightarrow> validate_value p v) (shared_params abi)) (\<lambda>_.
      bindE (forE (\<lambda>f. forE (\<lambda>p. case dget (f_values f) (p_name p) of
                None \<Rightarrow> Inr () | Some v \<Rightarrow> validate_value p v) schema) frame_objects) (\<lambda>_.
        Inr (canonical tc include_dt)))))"

section \<open>Hashes\<close>

fun fnv1a64 :: "string \<Rightarrow> 64 word \<Rightarrow> 64 word" where
  "fnv1a64 [] value = value"
| "fnv1a64 (b # bs) value = fnv1a64 bs ((value XOR of_char b) * FNV_PRIME)"

text \<open>\<open>int.to_bytes(8, 'little')\<close>\<close>

definition le_bytes :: "64 word \<Rightarrow> string" where
  "le_bytes w = map (\<lambda>i. char_of (unat (drop_bit (8 * i) w AND 255))) [0..<8]"

definition frame_hash :: "frame \<Rightarrow> 64 word" where
  "frame_hash f =
     (let text = concat (map (\<lambda>name. name @ ''='' @ (case dget (f_values f) name of None \<Rightarrow> [] | Some v \<Rightarrow> v) @ '';'')
                    (sort (dkeys (f_values f)))) in
      fnv1a64 (text @ (case f_dt_ns f of None \<Rightarrow> [] | Some d \<Rightarrow> RESERVED_DT @ ''='' @ show_int d @ '';''))
        FNV_OFFSET)"

definition frame_hashes :: "testcase \<Rightarrow> (64 word) list" where
  "frame_hashes tc = map frame_hash (tc_frames tc)"

fun rolling_hashes :: "64 word \<Rightarrow> (64 word) list \<Rightarrow> (64 word) list" where
  "rolling_hashes rolling [] = []"
| "rolling_hashes rolling (h # hs) =
     (let r = fnv1a64 (le_bytes h @ FRAME_SEPARATOR) rolling in r # rolling_hashes r hs)"

definition prefix_hashes :: "testcase \<Rightarrow> (64 word) list" where
  "prefix_hashes tc = rolling_hashes FNV_OFFSET (frame_hashes tc)"

end
