(* ===== verification/Frames_Roundtrip.thy ===== *)
theory Frames_Roundtrip
  imports Frames
begin

text \<open>
  Round trip of the testcase frames: what the parser accepts, printed canonically, parses back to
  the same testcase; hence canonicalization is idempotent wherever a canonical text
  keeps the contract's time-step range. Also the range guarantee of accepted
  values and the prefix property of the rolling hashes.
\<close>

section \<open>Well-formed interfaces\<close>

definition name_char :: "char \<Rightarrow> bool" where
  "name_char c = (is_alnum c \<or> c = CHR ''_'')"

definition plain_name :: "string \<Rightarrow> bool" where
  "plain_name n = (n \<noteq> [] \<and> list_all name_char n \<and> \<not> is_digit (hd n))"

definition text_ok :: "string \<Rightarrow> bool" where
  "text_ok v = (stripped v \<and> list_all (\<lambda>c. \<not> is_break c) v)"

text \<open>
  What the harness generator guarantees of an interface: the fields have identifier names that
  differ without regard to case and are not reserved, their type tokens are plain words, and
  all declarations of a name agree on its type.
\<close>

definition field_ok :: "target_abi \<Rightarrow> param \<Rightarrow> bool" where
  "field_ok abi p = (plain_name (p_name p) \<and> py_upper (p_name p) \<noteq> RESERVED_INIT
     \<and> py_upper (p_name p) \<noteq> RESERVED_DT \<and> list_all name_char (type_token p)
     \<and> dget (abi_types abi) (p_name p) = Some (type_token p))"

definition abi_ok :: "target_abi \<Rightarrow> bool" where
  "abi_ok abi = (list_all (field_ok abi) (frame_action_params abi)
     \<and> list_all (field_ok abi) (shared_params abi)
     \<and> distinct (map (\<lambda>p. py_upper (p_name p)) (frame_action_params abi)))"

lemma name_char_facts:
  assumes "name_char c"
  shows "\<not> is_space c" "\<not> is_break c" "c \<noteq> CHR '',''" "c \<noteq> CHR ''.''"
proof -
  show s: "\<not> is_space c"
  proof (cases "c = CHR ''_''")
    case True
    then show ?thesis by (simp add: is_space_def)
  next
    case False
    with assms show ?thesis by (simp add: name_char_def is_alnum_not_space)
  qed
  then show "\<not> is_break c" using is_break_is_space by blast
  show "c \<noteq> CHR '',''" "c \<noteq> CHR ''.''" using assms
    by (auto simp: name_char_def is_alnum_def is_alpha_def is_upper_def is_lower_def is_digit_def)
qed

lemma plain_name_stripped: "list_all name_char n \<Longrightarrow> stripped n"
  using name_char_facts(1) hd_in_set last_in_set by (metis list_all_iff stripped_def)

lemma abi_ok_names:
  assumes "abi_ok abi"
  shows "p \<in> set (frame_action_params abi) \<Longrightarrow> field_ok abi p"
    and "p \<in> set (shared_params abi) \<Longrightarrow> field_ok abi p"
    and "distinct (map p_name (frame_action_params abi))"
proof -
  show "p \<in> set (frame_action_params abi) \<Longrightarrow> field_ok abi p"
    "p \<in> set (shared_params abi) \<Longrightarrow> field_ok abi p"
    using assms by (auto simp: abi_ok_def list_all_iff)
  have "distinct (map py_upper (map p_name (frame_action_params abi)))"
    using assms by (simp add: abi_ok_def comp_def)
  then show "distinct (map p_name (frame_action_params abi))" by (simp only: distinct_map)
qed

lemma shared_loop_distinct:
  "distinct (map (\<lambda>p. py_upper (p_name p)) (shared_loop seen ps))
   \<and> (\<forall>p \<in> set (shared_loop seen ps). py_upper (p_name p) \<notin> seen)"
proof (induction seen ps rule: shared_loop.induct)
  case (2 seen p ps)
  show ?case
  proof (cases "is_shared p \<and> py_upper (p_name p) \<notin> seen")
    case True
    then show ?thesis using 2(1) [OF True] by (auto simp: image_iff)
  next
    case False
    then have "shared_loop seen (p # ps) = shared_loop seen ps" by auto
    then show ?thesis using 2(2) [OF False] by metis
  qed
qed simp

lemma shared_params_distinct:
  "distinct (map (\<lambda>p. py_upper (p_name p)) (shared_params abi))"
  "distinct (map p_name (shared_params abi))"
proof -
  show a: "distinct (map (\<lambda>p. py_upper (p_name p)) (shared_params abi))"
    using shared_loop_distinct by (simp add: shared_params_def)
  then have "distinct (map py_upper (map p_name (shared_params abi)))" by (simp add: comp_def)
  then show "distinct (map p_name (shared_params abi))" by (simp only: distinct_map)
qed

lemma upper_map_get:
  assumes "distinct (map (\<lambda>p. py_upper (p_name p)) ps)" and "p \<in> set ps"
  shows "dget (upper_map ps) (py_upper (p_name p)) = Some p"
proof -
  have d: "distinct (map fst (map (\<lambda>p. (py_upper (p_name p), p)) ps))"
    using assms(1) by (simp add: comp_def)
  then have "upper_map ps = map (\<lambda>p. (py_upper (p_name p), p)) ps"
    unfolding upper_map_def using dict_of_distinct [of "[]", simplified, OF d] by simp
  then show ?thesis using map_of_is_SomeI [OF d] assms(2) by auto
qed

section \<open>One record\<close>

lemma split_record_line:
  assumes "CHR '','' \<notin> set n" "stripped n" "n \<noteq> []" "list_all name_char t" "text_ok v"
  shows "split_record (record_line n t v) = Inr (n, py_upper t, v)"
proof -
  have t: "CHR '','' \<notin> set t" "stripped t"
    using assms(4) name_char_facts(3) plain_name_stripped by (metis list_all_iff)+
  have "split_max CHR '','' 2 (record_line n t v) = [n, t, v]"
    unfolding record_line_def numeral_2_eq_2
    using split_max_step [OF assms(1), of 1 "t @ CHR '','' # v"] split_max_step [OF t(1), of 0 v]
    by simp
  with assms t show ?thesis
    by (simp add: split_record_def strip_stripped text_ok_def)
qed

lemma strip_record_line:
  assumes "stripped n" "n \<noteq> []" "text_ok v"
  shows "strip (record_line n t v) = record_line n t v" "record_line n t v \<noteq> []"
proof -
  have "\<not> is_space (last (record_line n t v))"
    using assms(3) by (cases "v = []") (auto simp: record_line_def text_ok_def stripped_def is_space_def)
  moreover have "hd (record_line n t v) = hd n" using assms(2) by (simp add: record_line_def)
  ultimately show "strip (record_line n t v) = record_line n t v"
    using assms by (intro strip_stripped) (simp add: stripped_def)
  show "record_line n t v \<noteq> []" by (simp add: record_line_def)
qed

lemma split_cycle_plain: "plain_name n \<Longrightarrow> split_cycle_name n = (None, n)"
  by (cases n) (auto simp: plain_name_def split_cycle_name_def)

lemma split_cycle_frame:
  assumes "n \<noteq> []"
  shows "split_cycle_name (frame_field_name i n) = (Some i, n)"
proof -
  have nd: "\<not> is_digit CHR ''.''" by (simp add: is_digit_def)
  have "takeWhile is_digit (show_nat i @ CHR ''.'' # n) = show_nat i"
    "dropWhile is_digit (show_nat i @ CHR ''.'' # n) = CHR ''.'' # n"
    using show_nat_digits [of _ i] nd by (simp_all add: takeWhile_append dropWhile_append)
  with assms show ?thesis by (simp add: split_cycle_name_def frame_field_name_def)
qed

lemma frame_name_facts:
  assumes "list_all name_char n"
  shows "CHR '','' \<notin> set (frame_field_name i n)" "stripped (frame_field_name i n)"
    "frame_field_name i n \<noteq> []" "\<forall>c \<in> set (frame_field_name i n). \<not> is_break c"
proof -
  have c: "c \<noteq> CHR '',''  \<and> (c = CHR ''.'' \<or> \<not> is_space c)" if "c \<in> set (frame_field_name i n)" for c
  proof -
    from that consider "c \<in> set (show_nat i)" | "c = CHR ''.''" | "c \<in> set n"
      by (auto simp: frame_field_name_def)
    then show ?thesis
    proof cases
      case 1
      then have d: "is_digit c" by (rule show_nat_digits)
      have "\<not> is_digit CHR '',''" by (simp add: is_digit_def)
      with d is_digit_not_space show ?thesis by metis
    next
      case 3
      with assms have "name_char c" by (simp add: list_all_iff)
      then show ?thesis using name_char_facts by blast
    qed simp
  qed
  have dot: "\<not> is_space CHR ''.''" by (simp add: is_space_def)
  from c show "CHR '','' \<notin> set (frame_field_name i n)" by blast
  from c dot show "\<forall>c \<in> set (frame_field_name i n). \<not> is_break c" using is_break_is_space by blast
  show ne: "frame_field_name i n \<noteq> []" by (simp add: frame_field_name_def)
  from c dot show "stripped (frame_field_name i n)"
    using ne hd_in_set [OF ne] last_in_set [OF ne] by (metis stripped_def)
qed

lemma parse_line_shared:
  assumes "abi_ok abi" "p \<in> set (shared_params abi)" "text_ok v"
  shows "parse_line abi st (record_line (p_name p) (type_token p) v)
    = Inr (st\<lparr>ps_shared := dset (p_name p) v (ps_shared st)\<rparr>)"
proof -
  have f: "field_ok abi p" using abi_ok_names(2) assms by blast
  then have n: "plain_name (p_name p)" by (simp add: field_ok_def)
  then have n': "CHR '','' \<notin> set (p_name p)" "stripped (p_name p)" "p_name p \<noteq> []"
    using name_char_facts(3) plain_name_stripped by (metis list_all_iff plain_name_def)+
  show ?thesis
    using f n n' assms(3) strip_record_line [OF n'(2,3) assms(3)]
      split_record_line [OF n'(1,2,3) _ assms(3), of "type_token p"]
      upper_map_get [OF shared_params_distinct(1) assms(2)]
    by (simp add: parse_line_def split_cycle_plain parse_shared_record_def check_type_token_def
        field_ok_def)
qed

lemma parse_line_field:
  assumes "abi_ok abi" "p \<in> set (frame_action_params abi)" "text_ok v"
  shows "parse_line abi st (record_line (frame_field_name i (p_name p)) (type_token p) v)
    = Inr (st\<lparr>ps_raw_frames := dset i
        ((case dget (ps_raw_frames st) i of None \<Rightarrow> [] | Some l \<Rightarrow> l) @ [(p_name p, v)])
        (ps_raw_frames st)\<rparr>)"
proof -
  have f: "field_ok abi p" using abi_ok_names(1) assms by blast
  then have n: "plain_name (p_name p)" by (simp add: field_ok_def)
  then have l: "list_all name_char (p_name p)" "p_name p \<noteq> []" by (auto simp: plain_name_def)
  note fn = frame_name_facts [OF l(1), of i]
  have d: "distinct (map (\<lambda>p. py_upper (p_name p)) (frame_action_params abi))"
    using assms(1) by (simp add: abi_ok_def)
  show ?thesis
    using f strip_record_line [OF fn(2,3) assms(3)] split_cycle_frame [OF l(2)]
      split_record_line [OF fn(1-3) _ assms(3), of "type_token p"] upper_map_get [OF d assms(2)]
    by (simp add: parse_line_def parse_frame_record_def check_type_token_def field_ok_def Let_def)
qed

lemma py_upper_DT: "py_upper RESERVED_DT = RESERVED_DT" "py_upper ''TIME'' = ''TIME''"
  by code_simp+

lemma name_char_DT: "list_all name_char RESERVED_DT" "list_all name_char ''TIME''"
  by code_simp+

lemma parse_dt_show: "0 \<le> d \<Longrightarrow> parse_dt (show_int d) = Inr d"
proof -
  assume d: "0 \<le> d"
  have "\<not> starts_with ''t#'' (py_lower (show_pos d))"
  proof
    assume "starts_with ''t#'' (py_lower (show_pos d))"
    then have "take 2 (py_lower (show_pos d)) = ''t#''" by (simp add: starts_with_def numeral_2_eq_2)
    from take2_show_pos [OF d this] show False by (simp add: is_digit_def)
  qed
  then show ?thesis
    using d by (simp add: parse_dt_def show_int_def strip_stripped stripped_show_pos int_base0_show_pos)
qed

lemma text_ok_show_int: "0 \<le> d \<Longrightarrow> text_ok (show_int d)"
  using show_pos_digits [of d] is_digit_not_break
  by (auto simp: text_ok_def show_int_def stripped_show_pos list_all_iff)

lemma parse_line_dt:
  assumes "0 \<le> d"
  shows "parse_line abi st (record_line (frame_field_name i RESERVED_DT) ''TIME'' (show_int d))
    = Inr (st\<lparr>ps_dt_by_frame := dset i d (ps_dt_by_frame st)\<rparr>)"
proof -
  note fn = frame_name_facts [OF name_char_DT(1), of i]
  have ne: "RESERVED_DT \<noteq> []" by (simp add: RESERVED_DT_def)
  note v = text_ok_show_int [OF assms]
  show ?thesis
    using strip_record_line [OF fn(2,3) v] split_cycle_frame [OF ne]
      split_record_line [OF fn(1-3) name_char_DT(2) v] assms
    by (simp add: parse_line_def parse_frame_record_def py_upper_DT check_type_token_def parse_dt_show)
qed

section \<open>Printing and parsing a well-formed testcase\<close>

text \<open>The part of a dictionary under the given keys, in their order.\<close>

definition pick :: "('k, 'v) dict \<Rightarrow> 'k list \<Rightarrow> ('k, 'v) dict" where
  "pick d ns = concat (map (\<lambda>n. case dget d n of None \<Rightarrow> [] | Some v \<Rightarrow> [(n, v)]) ns)"

lemma pick_Cons: "pick d (n # ns) = (case dget d n of None \<Rightarrow> [] | Some v \<Rightarrow> [(n, v)]) @ pick d ns"
  by (simp add: pick_def)

lemma pick_Nil [simp]: "pick d [] = []" "pick [] ns = []"
  by (simp_all add: pick_def)

lemma set_pick: "kv \<in> set (pick d ns) \<longleftrightarrow> fst kv \<in> set ns \<and> dget d (fst kv) = Some (snd kv)"
  by (induction ns) (auto simp: pick_Cons split: option.splits)

lemma dget_pick: "dget (pick d ns) n = (if n \<in> set ns then dget d n else None)"
  by (induction ns) (auto simp: pick_Cons split: option.splits)

lemma fst_pick: "fst ` set (pick d ns) = {n \<in> set ns. dget d n \<noteq> None}"
  by (induction ns) (auto simp: pick_Cons split: option.splits)

lemma dict_ok_pick: "distinct ns \<Longrightarrow> dict_ok (pick d ns)"
proof (induction ns)
  case (Cons n ns)
  then show ?case by (cases "dget d n") (auto simp: pick_Cons dict_ok_def fst_pick)
qed simp

lemma dkeys_pick: "\<forall>n \<in> set ns. dget d n \<noteq> None \<Longrightarrow> dkeys (pick d ns) = ns"
  by (induction ns) (auto simp: pick_Cons)

lemma pick_self: "dict_ok d \<Longrightarrow> pick d (dkeys d) = d"
proof (rule dict_eqI)
  have "\<forall>n \<in> set (dkeys d). dget d n \<noteq> None" by (simp add: map_of_eq_None_iff)
  then show k: "dkeys (pick d (dkeys d)) = dkeys d" by (rule dkeys_pick)
  assume "dict_ok d"
  then show "dict_ok (pick d (dkeys d))" by (intro dict_ok_pick) (simp add: dict_ok_def)
  show "dget (pick d (dkeys d)) n = dget d n" if "n \<in> set (dkeys (pick d (dkeys d)))" for n
    using that unfolding k by (simp add: dget_pick)
qed

lemma map_pick:
  "map h (pick d ns) = concat (map (\<lambda>n. case dget d n of None \<Rightarrow> [] | Some v \<Rightarrow> [h (n, v)]) ns)"
  by (induction ns) (auto simp: pick_Cons split: option.splits)

text \<open>The invariant of every testcase the parser returns.\<close>

definition values_ok :: "(string, string) dict \<Rightarrow> bool" where
  "values_ok d = list_all (\<lambda>kv. text_ok (snd kv)) d"

definition frame_ok :: "string list \<Rightarrow> frame \<Rightarrow> bool" where
  "frame_ok names f = (dkeys (f_values f) = names \<and> values_ok (f_values f)
     \<and> (case f_dt_ns f of None \<Rightarrow> True | Some d \<Rightarrow> 0 \<le> d))"

definition tc_ok :: "target_abi \<Rightarrow> testcase \<Rightarrow> bool" where
  "tc_ok abi tc = (tc_init_profile tc = ''cold''
     \<and> tc_field_order tc = map p_name (frame_action_params abi)
     \<and> tc_types tc = abi_types abi \<and> tc_shared_order tc = map p_name (shared_params abi)
     \<and> dict_ok (tc_shared tc) \<and> set (dkeys (tc_shared tc)) \<subseteq> set (tc_shared_order tc)
     \<and> values_ok (tc_shared tc) \<and> list_all (frame_ok (tc_field_order tc)) (tc_frames tc)
     \<and> map f_index (tc_frames tc) = [0..<length (tc_frames tc)] \<and> tc_frames tc \<noteq> []
     \<and> (frame_action_params abi = [] \<longrightarrow>
          list_all (\<lambda>f. f_dt_ns f \<noteq> None) (tc_frames tc)
          \<or> tc_frames tc = [\<lparr>f_index = 0, f_values = [], f_dt_ns = None\<rparr>])
     \<and> validate tc abi = Inr ())"

definition keep_dt :: "bool \<Rightarrow> frame \<Rightarrow> frame" where
  "keep_dt inc f = f\<lparr>f_dt_ns := (if inc then f_dt_ns f else None)\<rparr>"

definition normal_form :: "bool \<Rightarrow> testcase \<Rightarrow> testcase" where
  "normal_form inc tc = tc\<lparr>tc_shared := pick (tc_shared tc) (tc_shared_order tc),
     tc_frames := map (keep_dt inc) (tc_frames tc), tc_contract_id := None\<rparr>"

definition shared_text :: "target_abi \<Rightarrow> string \<times> string \<Rightarrow> string" where
  "shared_text abi kv = record_line (fst kv) (type_of_name (abi_types abi) (fst kv)) (snd kv)"

definition field_text :: "target_abi \<Rightarrow> nat \<Rightarrow> string \<times> string \<Rightarrow> string" where
  "field_text abi i kv = record_line (frame_field_name i (fst kv)) (type_of_name (abi_types abi) (fst kv)) (snd kv)"

lemma type_of_field: "field_ok abi p \<Longrightarrow> type_of_name (abi_types abi) (p_name p) = type_token p"
  by (simp add: field_ok_def type_of_name_def)

lemma fold_shared:
  assumes "abi_ok abi" "\<forall>kv \<in> set kvs. fst kv \<in> p_name ` set (shared_params abi) \<and> text_ok (snd kv)"
  shows "foldE (parse_line abi) st (map (shared_text abi) kvs)
    = Inr (st\<lparr>ps_shared := dupdate (ps_shared st) kvs\<rparr>)"
  using assms(2)
proof (induction kvs arbitrary: st)
  case (Cons kv kvs)
  then obtain p where p: "p \<in> set (shared_params abi)" "fst kv = p_name p" by auto
  have "type_of_name (abi_types abi) (p_name p) = type_token p"
    using abi_ok_names(2) [OF assms(1) p(1)] by (rule type_of_field)
  with Cons p parse_line_shared [OF assms(1) p(1), of "snd kv"] show ?case
    by (simp add: shared_text_def)
qed simp

definition add_raw :: "nat \<Rightarrow> (string, string) dict \<Rightarrow> (nat, (string \<times> string) list) dict \<Rightarrow>
    (nat, (string \<times> string) list) dict" where
  "add_raw i kvs raw = (if kvs = [] then raw
     else dset i ((case dget raw i of None \<Rightarrow> [] | Some l \<Rightarrow> l) @ kvs) raw)"

lemma dset_twice: "dset k w (dset k v d) = dset k w d"
  by (induction d) auto

lemma fold_fields:
  assumes "abi_ok abi" "\<forall>kv \<in> set kvs. fst kv \<in> p_name ` set (frame_action_params abi) \<and> text_ok (snd kv)"
  shows "foldE (parse_line abi) st (map (field_text abi i) kvs)
    = Inr (st\<lparr>ps_raw_frames := add_raw i kvs (ps_raw_frames st)\<rparr>)"
  using assms(2)
proof (induction kvs arbitrary: st)
  case (Cons kv kvs)
  then obtain p where p: "p \<in> set (frame_action_params abi)" "fst kv = p_name p" by auto
  have "type_of_name (abi_types abi) (p_name p) = type_token p"
    using abi_ok_names(1) [OF assms(1) p(1)] by (rule type_of_field)
  moreover have "(p_name p, snd kv) = kv" using p(2) by (metis prod.collapse)
  ultimately show ?case
    using Cons p parse_line_field [OF assms(1) p(1), of "snd kv" st i]
    by (simp add: field_text_def add_raw_def dget_dset dset_twice)
qed (simp add: add_raw_def)

text \<open>What the lines of the frames leave in the parser state.\<close>

definition raw_of :: "frame list \<Rightarrow> (nat, (string \<times> string) list) dict" where
  "raw_of fs = concat (map (\<lambda>f. if f_values f = [] then [] else [(f_index f, f_values f)]) fs)"

definition dt_of :: "bool \<Rightarrow> frame list \<Rightarrow> (nat, int) dict" where
  "dt_of inc fs = concat (map (\<lambda>f. case f_dt_ns (keep_dt inc f) of None \<Rightarrow> [] | Some d \<Rightarrow> [(f_index f, d)]) fs)"

lemma raw_dt_of_simps [simp]:
  "raw_of [] = []" "dt_of inc [] = []"
  "raw_of (f # fs) = (if f_values f = [] then [] else [(f_index f, f_values f)]) @ raw_of fs"
  "dt_of inc (f # fs) = (case f_dt_ns (keep_dt inc f) of None \<Rightarrow> [] | Some d \<Rightarrow> [(f_index f, d)]) @ dt_of inc fs"
  by (simp_all add: raw_of_def dt_of_def)

lemma raw_dt_of_keys:
  "fst ` set (raw_of fs) = f_index ` {f \<in> set fs. f_values f \<noteq> []}"
  "fst ` set (dt_of inc fs) = f_index ` {f \<in> set fs. f_dt_ns (keep_dt inc f) \<noteq> None}"
proof (induction fs)
  case (Cons f fs)
  case 1
  have "{g \<in> set (f # fs). f_values g \<noteq> []}
      = (if f_values f = [] then {} else {f}) \<union> {g \<in> set fs. f_values g \<noteq> []}" by auto
  with Cons.IH(1) show ?case by (simp add: image_Un)
  case 2
  have "{g \<in> set (f # fs). f_dt_ns (keep_dt inc g) \<noteq> None}
      = (if f_dt_ns (keep_dt inc f) = None then {} else {f}) \<union> {g \<in> set fs. f_dt_ns (keep_dt inc g) \<noteq> None}"
    by auto
  with Cons.IH(2) show ?case by (cases "f_dt_ns (keep_dt inc f)") (simp_all add: image_Un)
qed simp_all

definition dt_text :: "bool \<Rightarrow> frame \<Rightarrow> string list" where
  "dt_text inc f = (case f_dt_ns (keep_dt inc f) of None \<Rightarrow> []
     | Some d \<Rightarrow> [record_line (frame_field_name (f_index f) RESERVED_DT) ''TIME'' (show_int d)])"

definition frame_text :: "target_abi \<Rightarrow> bool \<Rightarrow> frame \<Rightarrow> string list" where
  "frame_text abi inc f = map (field_text abi (f_index f)) (f_values f) @ dt_text inc f"

lemma frame_ok_values:
  assumes "abi_ok abi" "frame_ok (map p_name (frame_action_params abi)) f"
  shows "dict_ok (f_values f)"
    and "\<forall>kv \<in> set (f_values f). fst kv \<in> p_name ` set (frame_action_params abi) \<and> text_ok (snd kv)"
proof -
  show "dict_ok (f_values f)"
    using assms abi_ok_names(3) by (simp add: frame_ok_def dict_ok_def)
  have "fst ` set (f_values f) = p_name ` set (frame_action_params abi)"
    using assms(2) by (metis frame_ok_def list.set_map)
  then show "\<forall>kv \<in> set (f_values f). fst kv \<in> p_name ` set (frame_action_params abi) \<and> text_ok (snd kv)"
    using assms(2) by (auto simp: frame_ok_def values_ok_def list_all_iff)
qed

lemma frame_lines_ok:
  assumes "abi_ok abi" "tc_ok abi tc" "f \<in> set (tc_frames tc)"
  shows "frame_lines tc inc f = frame_text abi inc f"
proof -
  have f: "frame_ok (map p_name (frame_action_params abi)) f"
    using assms by (auto simp: tc_ok_def list_all_iff)
  then have o: "(if tc_field_order tc \<noteq> [] then tc_field_order tc else dkeys (f_values f)) = dkeys (f_values f)"
    using assms(2) by (simp add: frame_ok_def tc_ok_def)
  have "concat (map (\<lambda>n. case dget (f_values f) n of None \<Rightarrow> []
        | Some v \<Rightarrow> [field_text abi (f_index f) (n, v)]) (dkeys (f_values f)))
      = map (field_text abi (f_index f)) (f_values f)"
    using pick_self [OF frame_ok_values(1) [OF assms(1) f]] by (metis (no_types) map_pick)
  then have "concat (map (\<lambda>n. case dget (f_values f) n of None \<Rightarrow> []
        | Some v \<Rightarrow> [record_line (frame_field_name (f_index f) n) (type_of_name (abi_types abi) n) v])
          (dkeys (f_values f))) = map (field_text abi (f_index f)) (f_values f)"
    unfolding field_text_def fst_conv snd_conv .
  moreover have t: "tc_types tc = abi_types abi" using assms(2) by (simp add: tc_ok_def)
  ultimately show ?thesis unfolding frame_lines_def o t
    by (simp add: frame_text_def dt_text_def keep_dt_def split: option.splits)
qed

lemma shared_lines_ok:
  assumes "abi_ok abi" "tc_ok abi tc"
  shows "shared_lines tc = map (shared_text abi) (pick (tc_shared tc) (tc_shared_order tc))"
proof -
  have e: "pick (tc_shared tc) (if tc_shared_order tc \<noteq> [] then tc_shared_order tc else dkeys (tc_shared tc))
      = pick (tc_shared tc) (tc_shared_order tc)"
    using assms(2) by (auto simp: tc_ok_def)
  have t: "tc_types tc = abi_types abi" using assms(2) by (simp add: tc_ok_def)
  show ?thesis unfolding e [symmetric] map_pick shared_lines_def t shared_text_def fst_conv snd_conv ..
qed

lemma fold_frame:
  assumes "abi_ok abi" "frame_ok (map p_name (frame_action_params abi)) f"
    "f_index f \<notin> fst ` set (ps_raw_frames st)" "f_index f \<notin> fst ` set (ps_dt_by_frame st)"
  shows "foldE (parse_line abi) st (frame_text abi inc f)
    = Inr (st\<lparr>ps_raw_frames := ps_raw_frames st @ raw_of [f],
              ps_dt_by_frame := ps_dt_by_frame st @ dt_of inc [f]\<rparr>)"
proof -
  have r: "add_raw (f_index f) (f_values f) (ps_raw_frames st) = ps_raw_frames st @ raw_of [f]"
    using assms(3) by (auto simp: add_raw_def raw_of_def dset_new map_of_eq_None_iff [THEN iffD2])
  have d: "foldE (parse_line abi) s (dt_text inc f)
      = Inr (s\<lparr>ps_dt_by_frame := ps_dt_by_frame s @ dt_of inc [f]\<rparr>)"
    if "f_index f \<notin> fst ` set (ps_dt_by_frame s)" for s
  proof (cases "f_dt_ns (keep_dt inc f)")
    case None
    then show ?thesis by (simp add: dt_text_def dt_of_def)
  next
    case (Some v)
    then have "0 \<le> v" using assms(2) by (auto simp: keep_dt_def frame_ok_def split: if_splits option.splits)
    with Some that show ?thesis by (simp add: dt_text_def dt_of_def parse_line_dt dset_new)
  qed
  show ?thesis
    using fold_fields [OF assms(1) frame_ok_values(2) [OF assms(1,2)]] d assms(4)
    by (simp add: frame_text_def foldE_append r del: raw_dt_of_simps)
qed

lemma disjoint_grow: "A \<subseteq> {i} \<Longrightarrow> i \<notin> S \<Longrightarrow> S \<inter> B = {} \<Longrightarrow> S \<inter> (B \<union> A) = {}"
  by blast

lemma fold_frames:
  assumes "abi_ok abi" "list_all (frame_ok (map p_name (frame_action_params abi))) fs"
    "distinct (map f_index fs)" "f_index ` set fs \<inter> fst ` set (ps_raw_frames st) = {}"
    "f_index ` set fs \<inter> fst ` set (ps_dt_by_frame st) = {}"
  shows "foldE (parse_line abi) st
      (concat (map (frame_text abi inc) fs))
    = Inr (st\<lparr>ps_raw_frames := ps_raw_frames st @ raw_of fs,
              ps_dt_by_frame := ps_dt_by_frame st @ dt_of inc fs\<rparr>)"
  using assms(2-)
proof (induction fs arbitrary: st)
  case Nil
  then show ?case by (simp add: raw_of_def dt_of_def)
next
  case (Cons f fs)
  let ?st = "st\<lparr>ps_raw_frames := ps_raw_frames st @ raw_of [f],
              ps_dt_by_frame := ps_dt_by_frame st @ dt_of inc [f]\<rparr>"
  have "fst ` set (raw_of [f]) \<subseteq> {f_index f}" "fst ` set (dt_of inc [f]) \<subseteq> {f_index f}"
    by (auto split: option.splits)
  moreover have "f_index f \<notin> f_index ` set fs"
    "f_index ` set fs \<inter> fst ` set (ps_raw_frames st) = {}" "f_index ` set fs \<inter> fst ` set (ps_dt_by_frame st) = {}"
    using Cons.prems(2-4) by auto
  ultimately have "f_index ` set fs \<inter> (fst ` set (ps_raw_frames st) \<union> fst ` set (raw_of [f])) = {}"
    "f_index ` set fs \<inter> (fst ` set (ps_dt_by_frame st) \<union> fst ` set (dt_of inc [f])) = {}"
    using disjoint_grow by metis+
  then have "f_index ` set fs \<inter> fst ` set (ps_raw_frames ?st) = {}"
    "f_index ` set fs \<inter> fst ` set (ps_dt_by_frame ?st) = {}"
    by (simp_all add: image_Un del: raw_dt_of_simps)
  then have "foldE (parse_line abi) ?st
      (concat (map (frame_text abi inc) fs))
    = Inr (?st\<lparr>ps_raw_frames := ps_raw_frames ?st @ raw_of fs,
              ps_dt_by_frame := ps_dt_by_frame ?st @ dt_of inc fs\<rparr>)"
    using Cons.prems by (intro Cons.IH) simp_all
  moreover have "foldE (parse_line abi) st (frame_text abi inc f) = Inr ?st"
    using Cons.prems by (intro fold_frame [OF assms(1)]) simp_all
  ultimately show ?case by (simp add: foldE_append)
qed

lemma pick_shared_ok:
  assumes "tc_ok abi tc"
  shows "\<forall>kv \<in> set (pick (tc_shared tc) (tc_shared_order tc)).
    fst kv \<in> p_name ` set (shared_params abi) \<and> text_ok (snd kv)"
proof
  fix kv assume kv: "kv \<in> set (pick (tc_shared tc) (tc_shared_order tc))"
  have o: "tc_shared_order tc = map p_name (shared_params abi)" using assms by (simp add: tc_ok_def)
  from kv have "kv \<in> set (tc_shared tc)" using map_of_SomeD by (metis prod.collapse set_pick)
  moreover from kv have "fst kv \<in> p_name ` set (shared_params abi)" unfolding set_pick o by simp
  moreover have "\<forall>kv \<in> set (tc_shared tc). text_ok (snd kv)"
    using assms by (simp add: tc_ok_def values_ok_def list_all_iff)
  ultimately show "fst kv \<in> p_name ` set (shared_params abi) \<and> text_ok (snd kv)" by blast
qed

lemma parse_canonical_lines:
  assumes "abi_ok abi" "tc_ok abi tc"
  shows "foldE (parse_line abi) parse_start (canonical_lines tc inc)
    = Inr \<lparr>ps_init_profile = ''cold'', ps_shared = pick (tc_shared tc) (tc_shared_order tc),
        ps_raw_frames = raw_of (tc_frames tc), ps_dt_by_frame = dt_of inc (tc_frames tc)\<rparr>"
proof -
  let ?kvs = "pick (tc_shared tc) (tc_shared_order tc)"
  have o: "tc_shared_order tc = map p_name (shared_params abi)" using assms(2) by (simp add: tc_ok_def)
  note v = pick_shared_ok [OF assms(2)]
  have "dict_ok ?kvs" using shared_params_distinct(2) o by (simp add: dict_ok_pick)
  then have d: "dict_of ?kvs = ?kvs" by (simp add: dict_of_distinct dict_ok_def)
  have l: "canonical_lines tc inc = map (shared_text abi) ?kvs
      @ concat (map (frame_text abi inc) (tc_frames tc))"
    using assms frame_lines_ok [OF assms] shared_lines_ok [OF assms]
    by (simp add: canonical_lines_def tc_ok_def cong: map_cong)
  have "list_all (frame_ok (map p_name (frame_action_params abi))) (tc_frames tc)"
    "distinct (map f_index (tc_frames tc))"
    using assms(2) by (auto simp: tc_ok_def)
  then show ?thesis unfolding l foldE_append fold_shared [OF assms(1) v]
    by (simp add: fold_frames [OF assms(1)] parse_start_def d)
qed

section \<open>Rebuilding the frames\<close>

lemma dupdate_same_keys:
  assumes "dkeys previous = dkeys d" "dict_ok d"
  shows "dupdate previous d = d"
proof (rule dict_eqI)
  show k: "dkeys (dupdate previous d) = dkeys d"
    using assms(1) by (metis dkeys_dupdate_subset list.set_map order_refl)
  then show "dict_ok (dupdate previous d)" using assms(2) by (simp add: dict_ok_def)
  have "distinct (map fst (rev d))" using assms(2) by (simp add: dict_ok_def rev_map [symmetric])
  then have r: "dget (rev d) = dget d"
    using assms(2) by (simp add: dict_ok_def map_of_inject_set)
  show "dget (dupdate previous d) n = dget d n" if "n \<in> set (dkeys (dupdate previous d))" for n
    using that unfolding k by (cases "dget d n") (simp_all add: dget_dupdate r map_of_eq_None_iff)
qed

lemma setdefault_noop:
  "set (map p_name ps) \<subseteq> set (dkeys d)
   \<Longrightarrow> foldl (\<lambda>d p. dsetdefault (p_name p) (default_value p) d) d ps = d"
  by (induction ps) (auto simp: dsetdefault_def dmem_def)

lemma dget_raw_of:
  assumes "distinct (map f_index fs)" "f \<in> set fs"
  shows "(case dget (raw_of fs) (f_index f) of None \<Rightarrow> [] | Some l \<Rightarrow> l) = f_values f"
    and "dget (dt_of inc fs) (f_index f) = f_dt_ns (keep_dt inc f)"
proof -
  have n: "dget (raw_of gs) i = None" "dget (dt_of inc gs) i = None" if "i \<notin> f_index ` set gs" for i gs
    using that raw_dt_of_keys(1) [of gs] raw_dt_of_keys(2) [of inc gs] unfolding map_of_eq_None_iff by auto
  show "(case dget (raw_of fs) (f_index f) of None \<Rightarrow> [] | Some l \<Rightarrow> l) = f_values f"
    "dget (dt_of inc fs) (f_index f) = f_dt_ns (keep_dt inc f)"
    using assms
  proof (induction fs)
    case (Cons g gs)
    {
      case 1
      then have "f \<in> set gs \<Longrightarrow> f_index f \<noteq> f_index g" by (metis distinct.simps(2) image_eqI list.map(2) list.set_map)
      with 1 Cons.IH(1) n(1) [of "f_index g" gs] show ?case
        by (cases "f = g") (auto split: option.splits)
    next
      case 2
      then have "f \<in> set gs \<Longrightarrow> f_index f \<noteq> f_index g" by (metis distinct.simps(2) image_eqI list.map(2) list.set_map)
      with 2 Cons.IH(2) n(2) [of "f_index g" gs] show ?case
        by (cases "f = g") (auto split: option.splits)
    }
  qed simp_all
qed

lemma rebuild_frames:
  assumes "abi_ok abi" "list_all (frame_ok (map p_name (frame_action_params abi))) fs"
    "dkeys previous = map p_name (frame_action_params abi)"
    "\<And>f. f \<in> set fs \<Longrightarrow> (case dget (ps_raw_frames st) (f_index f) of None \<Rightarrow> [] | Some l \<Rightarrow> l) = f_values f"
    "\<And>f. f \<in> set fs \<Longrightarrow> dget (ps_dt_by_frame st) (f_index f) = f_dt_ns (keep_dt inc f)"
  shows "build_frames (frame_action_params abi) st sp None previous (map f_index fs) = Inr (map (keep_dt inc) fs)"
  using assms(2-)
proof (induction fs arbitrary: previous)
  case (Cons f fs)
  have f: "frame_ok (map p_name (frame_action_params abi)) f" using Cons.prems by simp
  then have k: "dkeys (f_values f) = map p_name (frame_action_params abi)" by (simp add: frame_ok_def)
  have "dupdate previous (f_values f) = f_values f"
    using k Cons.prems(2) frame_ok_values(1) [OF assms(1) f] by (simp add: dupdate_same_keys)
  moreover have "foldl (\<lambda>d p. dsetdefault (p_name p) (default_value p) d) (f_values f) (frame_action_params abi)
      = f_values f"
    using k by (intro setdefault_noop) (simp del: list.set_map)
  moreover have "build_frames (frame_action_params abi) st sp None (f_values f) (map f_index fs)
      = Inr (map (keep_dt inc) fs)"
    using Cons.prems k by (intro Cons.IH) simp_all
  moreover have "frame_dt st sp None (f_index f) = Inr (f_dt_ns (keep_dt inc f))"
    using Cons.prems(4) [of f] by (simp add: frame_dt_def split: option.splits)
  ultimately show ?case using Cons.prems(3) [of f]
    by (simp add: keep_dt_def)
qed simp

lemma initial_values_keys:
  assumes "distinct (map p_name ps)"
  shows "dkeys (initial_values ps shared) = map p_name ps"
proof -
  have "dict_of (map (\<lambda>p. (p_name p, default_value p)) ps) = map (\<lambda>p. (p_name p, default_value p)) ps"
    using assms by (subst dict_of_distinct) (simp_all add: comp_def)
  moreover have "dkeys (map (\<lambda>p. (p_name p, default_value p)) ps) = map p_name ps" by simp
  moreover have u: "fst ` set (concat (map (\<lambda>p. case dget shared (p_name p) of None \<Rightarrow> [] | Some v \<Rightarrow> [(p_name p, v)]) ps))
      \<subseteq> fst ` set (map (\<lambda>p. (p_name p, default_value p)) ps)"
    by (auto simp: image_image split: option.splits)
  ultimately show ?thesis unfolding initial_values_def using dkeys_dupdate_subset [OF u] by (simp only:)
qed

lemma sort_indices:
  assumes "set xs = {0..<n}"
  shows "sort (remdups xs) = [0..<n]"
  using assms by (intro sorted_distinct_set_unique) simp_all

lemma frame_indices:
  assumes "tc_ok abi tc" "inc \<or> frame_action_params abi \<noteq> []"
  shows "set (dkeys (raw_of (tc_frames tc)) @ dkeys (dt_of inc (tc_frames tc)))
    = (if frame_action_params abi = [] \<and> \<not> list_all (\<lambda>f. f_dt_ns f \<noteq> None) (tc_frames tc) then {}
       else f_index ` set (tc_frames tc))"
proof -
  have v: "f_values f = [] \<longleftrightarrow> frame_action_params abi = []" if "f \<in> set (tc_frames tc)" for f
  proof -
    have "dkeys (f_values f) = map p_name (frame_action_params abi)"
      using assms(1) that by (auto simp: tc_ok_def list_all_iff frame_ok_def)
    then show ?thesis by (metis map_is_Nil_conv)
  qed
  have e: "frame_action_params abi = [] \<Longrightarrow> \<not> list_all (\<lambda>f. f_dt_ns f \<noteq> None) (tc_frames tc)
      \<Longrightarrow> tc_frames tc = [\<lparr>f_index = 0, f_values = [], f_dt_ns = None\<rparr>]"
    using assms(1) by (simp add: tc_ok_def)
  show ?thesis
  proof (cases "frame_action_params abi = []")
    case True
    then have n: "{f \<in> set (tc_frames tc). f_values f \<noteq> []} = {}" and inc: inc using v assms(2) by auto
    have d: "{f \<in> set (tc_frames tc). f_dt_ns (keep_dt inc f) \<noteq> None}
        = (if list_all (\<lambda>f. f_dt_ns f \<noteq> None) (tc_frames tc) then set (tc_frames tc) else {})"
      using e [OF True] inc by (cases "list_all (\<lambda>f. f_dt_ns f \<noteq> None) (tc_frames tc)")
        (auto simp: list_all_iff keep_dt_def)
    show ?thesis unfolding set_append list.set_map raw_dt_of_keys n d using True by simp
  next
    case False
    then show ?thesis using v by (auto simp: raw_dt_of_keys)
  qed
qed

section \<open>What the parser returns\<close>

definition raw_ok :: "target_abi \<Rightarrow> (nat, (string \<times> string) list) dict \<Rightarrow> bool" where
  "raw_ok abi raw = (\<forall>(i, l) \<in> set raw. l \<noteq> [] \<and> values_ok l
     \<and> fst ` set l \<subseteq> p_name ` set (frame_action_params abi))"

definition state_ok :: "target_abi \<Rightarrow> parse_state \<Rightarrow> bool" where
  "state_ok abi st = (ps_init_profile st = ''cold'' \<and> dict_ok (ps_shared st)
     \<and> fst ` set (ps_shared st) \<subseteq> p_name ` set (shared_params abi) \<and> values_ok (ps_shared st)
     \<and> raw_ok abi (ps_raw_frames st))"

lemma text_ok_strip: "\<forall>c \<in> set s. \<not> is_break c \<Longrightarrow> text_ok (strip s)"
  using set_strip [of s] by (auto simp: text_ok_def stripped_strip list_all_iff)

lemma split_record_value:
  assumes "split_record line = Inr (n, t, v)" "\<forall>c \<in> set line. \<not> is_break c"
  shows "text_ok v"
proof -
  obtain a b c where s: "split_max CHR '','' 2 line = [a, b, c]" "v = strip c"
    using assms(1) by (auto simp: split_record_def split: list.splits if_splits)
  have "set c \<subseteq> set line" using split_max_parts [of c "CHR '',''" 2 line] s(1) by auto
  with assms(2) have "text_ok (strip c)" by (intro text_ok_strip) blast
  with s(2) show ?thesis by simp
qed

lemma upper_map_some: "dget (upper_map ps) k = Some p \<Longrightarrow> p \<in> set ps"
  unfolding upper_map_def by (auto simp: dget_dupdate split: option.splits dest!: map_of_SomeD)

lemma set_dset: "set (dset k v d) \<subseteq> insert (k, v) (set d)"
proof (induction d)
  case (Cons kv d)
  then show ?case by (cases kv; cases "fst kv = k") auto
qed simp

lemma values_ok_dset: "values_ok d \<Longrightarrow> text_ok v \<Longrightarrow> values_ok (dset k v d)"
  using set_dset [of k v d] by (auto simp: values_ok_def list_all_iff)

lemma parse_shared_ok:
  assumes "parse_shared_record abi st n t v = Inr st'" "text_ok v" "state_ok abi st"
  shows "state_ok abi st'"
proof (cases "py_upper n = RESERVED_INIT")
  case True
  with assms(1) have "st' = st\<lparr>ps_init_profile := ''cold''\<rparr>"
    by (auto simp: parse_shared_record_def res_simps split: if_splits)
  with assms(3) show ?thesis by (simp add: state_ok_def)
next
  case False
  with assms(1) obtain p where p: "dget (upper_map (shared_params abi)) (py_upper n) = Some p"
    by (cases "dget (upper_map (shared_params abi)) (py_upper n)")
      (auto simp: parse_shared_record_def split: if_splits)
  have "st' = st\<lparr>ps_shared := dset (p_name p) v (ps_shared st)\<rparr>"
    using assms(1) False p by (simp add: parse_shared_record_def res_simps)
  with assms(2,3) upper_map_some [OF p] show ?thesis
    by (simp add: state_ok_def dict_ok_dset set_dkeys_dset values_ok_dset)
qed

lemma raw_ok_dset:
  assumes "raw_ok abi raw" "p \<in> set (frame_action_params abi)" "text_ok v"
  shows "raw_ok abi (dset i ((case dget raw i of None \<Rightarrow> [] | Some l \<Rightarrow> l) @ [(p_name p, v)]) raw)"
proof -
  let ?l = "case dget raw i of None \<Rightarrow> [] | Some l \<Rightarrow> l"
  have "values_ok ?l \<and> fst ` set ?l \<subseteq> p_name ` set (frame_action_params abi)"
  proof (cases "dget raw i")
    case (Some l)
    then have "(i, l) \<in> set raw" by (rule map_of_SomeD)
    from bspec [OF assms(1) [unfolded raw_ok_def] this] Some show ?thesis by simp
  qed (simp add: values_ok_def)
  with assms(2,3) have "values_ok (?l @ [(p_name p, v)])
      \<and> fst ` set (?l @ [(p_name p, v)]) \<subseteq> p_name ` set (frame_action_params abi)"
    by (simp add: values_ok_def)
  with assms(1) set_dset [of i "?l @ [(p_name p, v)]" raw] show ?thesis
    unfolding raw_ok_def by blast
qed

lemma parse_frame_ok:
  assumes "parse_frame_record abi st i n t v = Inr st'" "text_ok v" "state_ok abi st"
  shows "state_ok abi st'"
proof (cases "py_upper n = RESERVED_DT")
  case True
  with assms(1) obtain d where "st' = st\<lparr>ps_dt_by_frame := dset i d (ps_dt_by_frame st)\<rparr>"
    by (auto simp: parse_frame_record_def res_simps)
  with assms(3) show ?thesis by (simp add: state_ok_def)
next
  case False
  with assms(1) obtain p where p: "dget (upper_map (frame_action_params abi)) (py_upper n) = Some p"
    by (cases "dget (upper_map (frame_action_params abi)) (py_upper n)")
      (auto simp: parse_frame_record_def split: if_splits)
  have "st' = st\<lparr>ps_raw_frames := dset i ((case dget (ps_raw_frames st) i of None \<Rightarrow> [] | Some l \<Rightarrow> l)
      @ [(p_name p, v)]) (ps_raw_frames st)\<rparr>"
    using assms(1) False p by (simp add: parse_frame_record_def res_simps Let_def)
  with raw_ok_dset [OF _ upper_map_some [OF p] assms(2), of "ps_raw_frames st" i] assms(3) show ?thesis
    by (simp add: state_ok_def)
qed

lemma parse_line_ok:
  assumes "parse_line abi st line = Inr st'" "\<forall>c \<in> set line. \<not> is_break c" "state_ok abi st"
  shows "state_ok abi st'"
proof (cases "strip line = []")
  case True
  with assms show ?thesis by (simp add: parse_line_def)
next
  case False
  with assms(1) obtain n t v where r: "split_record (strip line) = Inr (n, t, v)"
    by (cases "split_record (strip line)") (auto simp: parse_line_def)
  have v: "text_ok v" using assms(2) set_strip [of line] by (intro split_record_value [OF r]) blast
  obtain cyc fn where c: "split_cycle_name n = (cyc, fn)" by force
  show ?thesis
  proof (cases cyc)
    case None
    with assms(1) r c False have "parse_shared_record abi st fn t v = Inr st'" by (simp add: parse_line_def)
    then show ?thesis using v assms(3) by (rule parse_shared_ok)
  next
    case (Some i)
    with assms(1) r c False have "parse_frame_record abi st i fn t v = Inr st'" by (simp add: parse_line_def)
    then show ?thesis using v assms(3) by (rule parse_frame_ok)
  qed
qed

lemma parse_lines_ok:
  assumes "foldE (parse_line abi) parse_start (splitlines text) = Inr st"
  shows "state_ok abi st"
proof (rule foldE_invariant [OF assms, where I = "state_ok abi"])
  show "state_ok abi parse_start" by (simp add: state_ok_def parse_start_def values_ok_def raw_ok_def)
qed (use parse_line_ok splitlines_no_break in blast)

lemma values_ok_dupdate: "values_ok d \<Longrightarrow> values_ok kvs \<Longrightarrow> values_ok (dupdate d kvs)"
proof (induction kvs arbitrary: d)
  case (Cons kv kvs)
  then show ?case by (simp add: values_ok_dset values_ok_def [of "kv # kvs"] values_ok_def [of kvs])
qed simp

lemma text_ok_default: "text_ok (default_value p)"
  by (simp add: default_value_def default_for_spec_def text_ok_def stripped_def is_space_def is_break_def)

lemma values_ok_initial:
  assumes "values_ok shared"
  shows "values_ok (initial_values ps shared)"
proof -
  have "values_ok (map (\<lambda>p. (p_name p, default_value p)) ps)"
    by (simp add: values_ok_def list_all_iff text_ok_default)
  moreover have "values_ok (concat (map (\<lambda>p. case dget shared (p_name p) of None \<Rightarrow> []
      | Some v \<Rightarrow> [(p_name p, v)]) ps))"
  proof (induction ps)
    case (Cons p ps)
    have "text_ok v" if "dget shared (p_name p) = Some v" for v
      using assms map_of_SomeD [OF that] by (auto simp: values_ok_def list_all_iff)
    with Cons show ?case by (cases "dget shared (p_name p)") (simp_all add: values_ok_def)
  qed (simp add: values_ok_def)
  moreover have "values_ok ([] :: (string, string) dict)" by (simp add: values_ok_def)
  ultimately show ?thesis unfolding initial_values_def by (intro values_ok_dupdate)
qed

text \<open>Each built frame has the schema's fields in order, well-formed values and the parsed time step.\<close>

definition built_ok :: "target_abi \<Rightarrow> parse_state \<Rightarrow> frame \<Rightarrow> bool" where
  "built_ok abi st f = (dkeys (f_values f) = map p_name (frame_action_params abi) \<and> values_ok (f_values f)
     \<and> (dget (ps_dt_by_frame st) (f_index f) \<noteq> None \<longrightarrow> f_dt_ns f \<noteq> None))"

lemma build_frames_ok:
  assumes "abi_ok abi" "raw_ok abi (ps_raw_frames st)"
    "build_frames (frame_action_params abi) st sp dtr previous is = Inr fs"
    "dkeys previous = map p_name (frame_action_params abi)" "values_ok previous"
  shows "map f_index fs = is \<and> list_all (built_ok abi st) fs"
  using assms(3-)
proof (induction "is" arbitrary: previous fs)
  case (Cons index rest)
  let ?raw = "case dget (ps_raw_frames st) index of None \<Rightarrow> [] | Some l \<Rightarrow> l"
  let ?vals = "dupdate previous ?raw"
  have raw: "values_ok ?raw \<and> fst ` set ?raw \<subseteq> p_name ` set (frame_action_params abi)"
  proof (cases "dget (ps_raw_frames st) index")
    case (Some l)
    then have "(index, l) \<in> set (ps_raw_frames st)" by (rule map_of_SomeD)
    from bspec [OF assms(2) [unfolded raw_ok_def] this] Some show ?thesis by simp
  qed (simp add: values_ok_def)
  have pk: "fst ` set previous = p_name ` set (frame_action_params abi)"
    using Cons.prems(2) by (metis list.set_map)
  have k: "dkeys ?vals = map p_name (frame_action_params abi)"
    using raw pk dkeys_dupdate_subset [of ?raw previous] Cons.prems(2) by simp
  have v: "values_ok ?vals" using raw Cons.prems(3) by (simp add: values_ok_dupdate)
  have "foldl (\<lambda>d p. dsetdefault (p_name p) (default_value p) d) ?vals (frame_action_params abi) = ?vals"
    using k by (intro setdefault_noop) (simp del: list.set_map)
  with Cons.prems(1) obtain d gs where g: "frame_dt st sp dtr index = Inr d"
    "build_frames (frame_action_params abi) st sp dtr ?vals rest = Inr gs"
    "fs = \<lparr>f_index = index, f_values = ?vals, f_dt_ns = d\<rparr> # gs"
    by (auto simp: res_simps Let_def)
  have "dget (ps_dt_by_frame st) index \<noteq> None \<longrightarrow> d \<noteq> None"
  proof
    assume "dget (ps_dt_by_frame st) index \<noteq> None"
    then obtain v where "dget (ps_dt_by_frame st) index = Some v" by blast
    with g(1) have "d = Some v"
      by (simp add: frame_dt_def Let_def split: option.splits prod.splits if_splits)
    then show "d \<noteq> None" by simp
  qed
  with Cons.IH [OF g(2) k v] g(3) k v show ?case by (simp add: built_ok_def)
qed simp

lemma finish_parse_ok:
  assumes "abi_ok abi" "state_ok abi st" "finish_parse abi sp dtr st = Inr tc"
  shows "tc_ok abi tc"
proof -
  let ?prev = "initial_values (frame_action_params abi) (ps_shared st)"
  let ?is = "sort (remdups (dkeys (ps_raw_frames st) @ dkeys (ps_dt_by_frame st)))"
  let ?deflt = "\<lparr>f_index = 0, f_values = ?prev, f_dt_ns = None\<rparr>"
  let ?mk = "\<lambda>fs. \<lparr>tc_init_profile = ps_init_profile st, tc_shared = ps_shared st,
      tc_frames = (if fs = [] then [?deflt] else fs), tc_contract_id = None,
      tc_field_order = map p_name (frame_action_params abi), tc_types = abi_types abi,
      tc_shared_order = map p_name (shared_params abi)\<rparr>"
  have "bindE (assertE (?is = [0..<length ?is]) BadIndices) (\<lambda>_.
      bindE (build_frames (frame_action_params abi) st sp dtr ?prev [0..<length ?is]) (\<lambda>fs.
      bindE (validate (?mk fs) abi) (\<lambda>_. Inr (?mk fs)))) = Inr tc"
    using assms(3) unfolding finish_parse_def Let_def .
  then obtain u fs w where u: "assertE (?is = [0..<length ?is]) BadIndices = Inr u"
    and b: "build_frames (frame_action_params abi) st sp dtr ?prev [0..<length ?is] = Inr fs"
    and w: "validate (?mk fs) abi = Inr w" and t: "Inr (?mk fs) = (Inr tc :: frame_error + testcase)"
    unfolding bindE_eq_Inr by blast
  from u have i: "?is = [0..<length ?is]" unfolding assertE_eq_Inr .
  from t have tc: "tc = ?mk fs" by (rule sum.inject(2) [THEN iffD1, THEN sym])
  have "w = ()" by simp
  with w tc have v: "validate tc abi = Inr ()" by (simp only:)
  have s: "ps_init_profile st = ''cold''" "dict_ok (ps_shared st)" "values_ok (ps_shared st)"
    "fst ` set (ps_shared st) \<subseteq> p_name ` set (shared_params abi)" "raw_ok abi (ps_raw_frames st)"
    using assms(2) by (simp_all add: state_ok_def)
  have pk: "dkeys ?prev = map p_name (frame_action_params abi)"
    using abi_ok_names(3) [OF assms(1)] by (rule initial_values_keys)
  have fs: "map f_index fs = [0..<length ?is]" "list_all (built_ok abi st) fs"
    using build_frames_ok [OF assms(1) s(5) b pk values_ok_initial [OF s(3)]] by simp_all
  have l: "length fs = length ?is" using fs(1) by (metis length_map diff_zero length_upt)
  have dt: "0 \<le> d" if "f \<in> set (tc_frames tc)" "f_dt_ns f = Some d" for f d
    using v that by (auto simp: validate_def validate_frame_def res_simps Let_def split: option.splits)
  have ok: "list_all (frame_ok (map p_name (frame_action_params abi))) (tc_frames tc)"
    using fs(2) pk values_ok_initial [OF s(3)] dt unfolding tc
    by (auto simp: list_all_iff built_ok_def frame_ok_def split: option.splits)
  have e: "list_all (\<lambda>f. f_dt_ns f \<noteq> None) (tc_frames tc)
      \<or> tc_frames tc = [\<lparr>f_index = 0, f_values = [], f_dt_ns = None\<rparr>]" if "frame_action_params abi = []"
  proof (cases "fs = []")
    case True
    then show ?thesis using pk that by (simp add: tc)
  next
    case False
    have "ps_raw_frames st = []" using s(5) that by (cases "ps_raw_frames st") (auto simp: raw_ok_def)
    then have "fst ` set (ps_dt_by_frame st) = set ?is" by simp
    also have "\<dots> = f_index ` set fs" using i fs(1) by (metis list.set_map)
    finally have "\<forall>f \<in> set fs. dget (ps_dt_by_frame st) (f_index f) \<noteq> None" by (simp add: map_of_eq_None_iff)
    with fs(2) False show ?thesis by (simp add: tc list_all_iff built_ok_def)
  qed
  show ?thesis
    unfolding tc_ok_def using s v ok e fs(1) l by (simp add: tc)
qed

theorem parse_testcase_ok:
  assumes "abi_ok abi" "parse_testcase text abi sp dtr = Inr tc"
  shows "tc_ok abi tc"
  using assms by (auto simp: parse_testcase_def res_simps intro: finish_parse_ok parse_lines_ok)

section \<open>The round trip\<close>

lemma validate_normal_form:
  assumes "tc_ok abi tc"
  shows "validate (normal_form inc tc) abi = Inr ()"
proof -
  let ?sh = "dict_of (map (\<lambda>p. (p_name p, p)) (shared_params abi))"
  have sub: "set (pick (tc_shared tc) (tc_shared_order tc)) \<subseteq> set (tc_shared tc)"
    using map_of_SomeD set_pick by (metis prod.collapse subsetI)
  have nf: "tc_shared (normal_form inc tc) = pick (tc_shared tc) (tc_shared_order tc)"
    "tc_frames (normal_form inc tc) = map (keep_dt inc) (tc_frames tc)" by (simp_all add: normal_form_def)
  have v: "validate tc abi = Inr ()" using assms by (simp add: tc_ok_def)
  then have a: "set (dkeys (tc_shared tc)) \<subseteq> set (dkeys ?sh)"
    "\<forall>kv \<in> set (tc_shared tc). (case kv of (name, value) \<Rightarrow> case dget ?sh name of
        None \<Rightarrow> Inl (UnknownShared name) | Some p \<Rightarrow> validate_value p value) = Inr ()"
    "\<forall>f \<in> set (tc_frames tc). validate_frame (frame_action_params abi) f = Inr ()"
    unfolding validate_def Let_def by (simp_all only: res_simps) blast+
  have "validate_frame (frame_action_params abi) (keep_dt inc f) = Inr ()"
    if "validate_frame (frame_action_params abi) f = Inr ()" for f
    using that by (auto simp: validate_frame_def keep_dt_def res_simps)
  with a(3) have f: "\<forall>f \<in> set (map (keep_dt inc) (tc_frames tc)). validate_frame (frame_action_params abi) f = Inr ()"
    by auto
  have "set (dkeys (pick (tc_shared tc) (tc_shared_order tc))) \<subseteq> set (dkeys ?sh)"
    using a(1) sub unfolding list.set_map by blast
  with a(2) sub f show ?thesis
    unfolding validate_def Let_def res_simps nf by blast
qed

lemma finish_parse_canonical:
  assumes "abi_ok abi" "tc_ok abi tc" "inc \<or> frame_action_params abi \<noteq> []"
  defines "st \<equiv> \<lparr>ps_init_profile = ''cold'', ps_shared = pick (tc_shared tc) (tc_shared_order tc),
        ps_raw_frames = raw_of (tc_frames tc), ps_dt_by_frame = dt_of inc (tc_frames tc)\<rparr>"
  shows "finish_parse abi sp None st = Inr (normal_form inc tc)"
proof -
  let ?prev = "initial_values (frame_action_params abi) (ps_shared st)"
  let ?xs = "dkeys (raw_of (tc_frames tc)) @ dkeys (dt_of inc (tc_frames tc))"
  let ?none = "frame_action_params abi = [] \<and> \<not> list_all (\<lambda>f. f_dt_ns f \<noteq> None) (tc_frames tc)"
  have t: "map f_index (tc_frames tc) = [0..<length (tc_frames tc)]" "tc_frames tc \<noteq> []"
    "list_all (frame_ok (map p_name (frame_action_params abi))) (tc_frames tc)"
    using assms(2) by (auto simp: tc_ok_def)
  have pk: "dkeys ?prev = map p_name (frame_action_params abi)"
    using abi_ok_names(3) [OF assms(1)] by (rule initial_values_keys)
  have "set ?xs = {0..<(if ?none then 0 else length (tc_frames tc))}"
  proof -
    have "f_index ` set (tc_frames tc) = {0..<length (tc_frames tc)}" using t(1) by (metis list.set_map set_upt)
    then show ?thesis unfolding frame_indices [OF assms(2,3)] by simp
  qed
  then have i: "sort (remdups ?xs) = [0..<(if ?none then 0 else length (tc_frames tc))]"
    by (rule sort_indices)
  have d: "distinct (map f_index (tc_frames tc))" using t(1) by simp
  have "build_frames (frame_action_params abi) st sp None ?prev (map f_index (tc_frames tc))
      = Inr (map (keep_dt inc) (tc_frames tc))"
    using dget_raw_of [OF d] by (intro rebuild_frames [OF assms(1) t(3) pk]) (simp_all add: st_def)
  then have b: "build_frames (frame_action_params abi) st sp None ?prev [0..<length (tc_frames tc)]
      = Inr (map (keep_dt inc) (tc_frames tc))" using t(1) by simp
  have n: "?none \<Longrightarrow> tc_frames tc = [\<lparr>f_index = 0, f_values = ?prev, f_dt_ns = None\<rparr>]"
    using assms(2) pk by (simp add: tc_ok_def)
  define fs where "fs = (if ?none then [] else map (keep_dt inc) (tc_frames tc))"
  have bf: "build_frames (frame_action_params abi) st sp None ?prev [0..<length (sort (remdups ?xs))] = Inr fs"
    unfolding i using b by (simp add: fs_def)
  have e: "(if fs = [] then [\<lparr>f_index = 0, f_values = ?prev, f_dt_ns = None\<rparr>] else fs)
      = map (keep_dt inc) (tc_frames tc)"
  proof (cases ?none)
    case True
    then have "fs = []" by (simp add: fs_def)
    moreover have "map (keep_dt inc) (tc_frames tc) = tc_frames tc" unfolding n [OF True] by (simp add: keep_dt_def)
    ultimately show ?thesis using n [OF True] by simp
  next
    case False
    then have "fs = map (keep_dt inc) (tc_frames tc)" unfolding fs_def by (rule if_not_P)
    then show ?thesis using t(2) by simp
  qed
  have nf: "\<lparr>tc_init_profile = ''cold'', tc_shared = pick (tc_shared tc) (tc_shared_order tc),
      tc_frames = map (keep_dt inc) (tc_frames tc), tc_contract_id = None,
      tc_field_order = map p_name (frame_action_params abi), tc_types = abi_types abi,
      tc_shared_order = map p_name (shared_params abi)\<rparr> = normal_form inc tc"
    using assms(2) by (simp add: normal_form_def tc_ok_def)
  have si: "ps_raw_frames st = raw_of (tc_frames tc)" "ps_dt_by_frame st = dt_of inc (tc_frames tc)"
    "ps_init_profile st = ''cold''" "ps_shared st = pick (tc_shared tc) (tc_shared_order tc)"
    by (simp_all add: st_def)
  have ii: "(sort (remdups ?xs) = [0..<length (sort (remdups ?xs))]) = True" unfolding i by simp
  show ?thesis
    unfolding finish_parse_def Let_def si ii assertE_simps bindE_Inr bf [unfolded si] e [unfolded si] nf
      validate_normal_form [OF assms(2)] ..
qed

lemma text_ok_no_break: "text_ok v \<Longrightarrow> c \<in> set v \<Longrightarrow> \<not> is_break c"
  by (simp add: text_ok_def list_all_iff)

lemma names_no_break: "list_all name_char n \<Longrightarrow> c \<in> set n \<Longrightarrow> \<not> is_break c"
  using name_char_facts(2) by (simp add: list_all_iff)

lemma record_line_no_break:
  assumes "\<forall>c \<in> set n. \<not> is_break c" "list_all name_char t" "text_ok v" "c \<in> set (record_line n t v)"
  shows "\<not> is_break c"
proof -
  have "\<not> is_break CHR '',''" by (simp add: is_break_def)
  with assms names_no_break [OF assms(2)] text_ok_no_break [OF assms(3)] show ?thesis
    unfolding record_line_def by auto
qed

lemma canonical_lines_no_break:
  assumes "abi_ok abi" "tc_ok abi tc" "l \<in> set (canonical_lines tc inc)" "c \<in> set l"
  shows "\<not> is_break c"
proof -
  let ?kvs = "pick (tc_shared tc) (tc_shared_order tc)"
  have i: "tc_init_profile tc = ''cold''" using assms(2) by (simp add: tc_ok_def)
  have "l \<in> set (shared_lines tc) \<or> (\<exists>f \<in> set (tc_frames tc). l \<in> set (frame_lines tc inc f))"
    using assms(3) i by (simp add: canonical_lines_def)
  then show ?thesis
  proof
    assume "l \<in> set (shared_lines tc)"
    then obtain kv where kv: "kv \<in> set ?kvs" "l = shared_text abi kv"
      unfolding shared_lines_ok [OF assms(1,2)] by auto
    from pick_shared_ok [OF assms(2)] kv(1) obtain p where p: "p \<in> set (shared_params abi)"
      "fst kv = p_name p" "text_ok (snd kv)" by blast
    have f: "field_ok abi p" using abi_ok_names(2) [OF assms(1) p(1)] .
    then have n: "list_all name_char (p_name p)" "list_all name_char (type_token p)"
      by (simp_all add: field_ok_def plain_name_def)
    show ?thesis
      using assms(4) names_no_break [OF n(1)]
      by (intro record_line_no_break [OF _ n(2) p(3), of "p_name p"])
        (simp_all add: kv(2) shared_text_def p(2) type_of_field [OF f])
  next
    assume "\<exists>f \<in> set (tc_frames tc). l \<in> set (frame_lines tc inc f)"
    then obtain f where f: "f \<in> set (tc_frames tc)" "l \<in> set (frame_text abi inc f)"
      using frame_lines_ok [OF assms(1,2)] by metis
    have ok: "frame_ok (map p_name (frame_action_params abi)) f"
      using assms(2) f(1) by (auto simp: tc_ok_def list_all_iff)
    from f(2) consider kv where "kv \<in> set (f_values f)" "l = field_text abi (f_index f) kv" | "l \<in> set (dt_text inc f)"
      by (auto simp: frame_text_def)
    then show ?thesis
    proof cases
      case 1
      with frame_ok_values(2) [OF assms(1) ok] obtain p where p: "p \<in> set (frame_action_params abi)"
        "fst kv = p_name p" "text_ok (snd kv)" by blast
      have f: "field_ok abi p" using abi_ok_names(1) [OF assms(1) p(1)] .
      then have n: "list_all name_char (p_name p)" "list_all name_char (type_token p)"
        by (simp_all add: field_ok_def plain_name_def)
      show ?thesis
        using assms(4) by (intro record_line_no_break [OF frame_name_facts(4) [OF n(1)] n(2) p(3)])
          (simp add: 1(2) field_text_def p(2) type_of_field [OF f])
    next
      case 2
      then obtain d where d: "f_dt_ns (keep_dt inc f) = Some d"
        "l = record_line (frame_field_name (f_index f) RESERVED_DT) ''TIME'' (show_int d)"
        by (cases "f_dt_ns (keep_dt inc f)") (auto simp: dt_text_def)
      have "0 \<le> d" using ok d(1) by (auto simp: frame_ok_def keep_dt_def split: if_splits)
      from record_line_no_break [OF frame_name_facts(4) [OF name_char_DT(1)] name_char_DT(2) text_ok_show_int [OF this]]
      show ?thesis using assms(4) d(2) by blast
    qed
  qed
qed

lemma parse_canonical:
  assumes "abi_ok abi" "tc_ok abi tc" "inc \<or> frame_action_params abi \<noteq> []"
  shows "parse_testcase (canonical tc inc) abi sp None = Inr (normal_form inc tc)"
proof -
  have "splitlines (canonical tc inc) = canonical_lines tc inc"
    using splitlines_join [OF canonical_lines_no_break [OF assms(1,2)]]
    by (cases "canonical_lines tc inc = []") (simp_all add: canonical_def)
  then show ?thesis
    using parse_canonical_lines [OF assms(1,2)] finish_parse_canonical [OF assms(1-3)]
    by (simp add: parse_testcase_def)
qed

lemma canonical_normal_form:
  assumes "abi_ok abi" "tc_ok abi tc"
  shows "canonical (normal_form inc tc) inc = canonical tc inc"
proof -
  let ?n = "normal_form inc tc"
  have o: "tc_shared_order ?n = tc_shared_order tc" "tc_types ?n = tc_types tc"
    "tc_init_profile ?n = tc_init_profile tc" "tc_field_order ?n = tc_field_order tc"
    "tc_shared ?n = pick (tc_shared tc) (tc_shared_order tc)" "tc_frames ?n = map (keep_dt inc) (tc_frames tc)"
    by (simp_all add: normal_form_def)
  have "shared_lines ?n = shared_lines tc"
  proof (cases "tc_shared_order tc = []")
    case True
    then have "tc_shared tc = []" using assms(2) by (simp add: tc_ok_def)
    with True show ?thesis by (simp add: shared_lines_def o)
  next
    case False
    have "map (\<lambda>name. case dget (pick (tc_shared tc) (tc_shared_order tc)) name of None \<Rightarrow> []
        | Some v \<Rightarrow> [record_line name (type_of_name (tc_types tc) name) v]) (tc_shared_order tc)
      = map (\<lambda>name. case dget (tc_shared tc) name of None \<Rightarrow> []
        | Some v \<Rightarrow> [record_line name (type_of_name (tc_types tc) name) v]) (tc_shared_order tc)"
      by (rule map_cong) (simp_all add: dget_pick)
    with False show ?thesis unfolding shared_lines_def o by (simp only: if_True not_False_eq_True)
  qed
  moreover have "frame_lines ?n inc (keep_dt inc f) = frame_lines tc inc f" for f
  proof -
    have "f_index (keep_dt inc f) = f_index f" "f_values (keep_dt inc f) = f_values f"
      by (simp_all add: keep_dt_def)
    then show ?thesis unfolding frame_lines_def o by (cases "f_dt_ns f") (simp_all only:, simp_all add: keep_dt_def)
  qed
  ultimately show ?thesis by (simp add: canonical_def canonical_lines_def o comp_def)
qed

text \<open>
  (C10) Whatever testcase text the parser accepts, its canonical print parses again, to the same
  frames (with their time steps when these are printed) and the same shared values. The interface
  must have identifier names; when the time steps are not printed it must have a frame field.
\<close>

theorem parse_canonical_roundtrip:
  assumes "abi_ok abi" and "parse_testcase text abi sp dtr = Inr tc"
    and "inc \<or> frame_action_params abi \<noteq> []"
  shows "\<exists>tc'. parse_testcase (canonical tc inc) abi sp' None = Inr tc'
    \<and> tc_frames tc' = map (keep_dt inc) (tc_frames tc)
    \<and> (\<forall>name. dget (tc_shared tc') name = dget (tc_shared tc) name)"
proof -
  have ok: "tc_ok abi tc" using assms(1,2) by (rule parse_testcase_ok)
  have "dget (tc_shared (normal_form inc tc)) name = dget (tc_shared tc) name" for name
  proof (cases "name \<in> set (tc_shared_order tc)")
    case True
    then show ?thesis by (simp add: normal_form_def dget_pick)
  next
    case False
    then have "name \<notin> fst ` set (tc_shared tc)" using ok by (auto simp only: tc_ok_def list.set_map)
    with False show ?thesis by (simp add: normal_form_def dget_pick map_of_eq_None_iff [THEN iffD2])
  qed
  moreover have "tc_frames (normal_form inc tc) = map (keep_dt inc) (tc_frames tc)"
    by (simp add: normal_form_def)
  ultimately show ?thesis using parse_canonical [OF assms(1) ok assms(3)] by blast
qed

definition demo_text :: string where
  "demo_text = ''0.x,INT,7'' @ [newline] @ '' 1.X , int, -3'' @ [newline] @ ''1.__dt,,t#1.5us''"

definition demo_case :: testcase where
  "demo_case = \<lparr>tc_init_profile = ''cold'', tc_shared = [],
     tc_frames = [\<lparr>f_index = 0, f_values = [(''X'', ''7'')], f_dt_ns = None\<rparr>,
       \<lparr>f_index = 1, f_values = [(''X'', ''-3'')], f_dt_ns = Some 1500\<rparr>],
     tc_contract_id = None, tc_field_order = [''X''],
     tc_types = [(''X'', ''INT''), (''BUF'', ''ARRAY'')], tc_shared_order = []\<rparr>"

lemma demo_case_parsed: "parse_testcase demo_text demo_abi 10 None = Inr demo_case"
  by code_simp

lemma demo_abi_ok: "abi_ok demo_abi"
  by code_simp

lemma demo_schema: "frame_action_params demo_abi \<noteq> []"
  by code_simp

theorem parse_canonical_roundtrip_witness:
  "\<exists>tc'. parse_testcase (canonical demo_case True) demo_abi 10 None = Inr tc'
    \<and> tc_frames tc' = map (keep_dt True) (tc_frames demo_case)
    \<and> (\<forall>name. dget (tc_shared tc') name = dget (tc_shared demo_case) name)"
  using parse_canonical_roundtrip [OF demo_abi_ok demo_case_parsed] by simp

section \<open>Canonicalizing twice\<close>

text \<open>What a contract range makes of a frame: the scan period where the text gives no time step.\<close>

definition filled :: "int \<Rightarrow> frame \<Rightarrow> frame" where
  "filled sp f = f\<lparr>f_dt_ns := Some (case f_dt_ns f of None \<Rightarrow> sp | Some d \<Rightarrow> d)\<rparr>"

definition step_in :: "int \<Rightarrow> int \<Rightarrow> int \<Rightarrow> frame \<Rightarrow> bool" where
  "step_in sp lo hi f = (case f_dt_ns f of None \<Rightarrow> lo \<le> sp \<and> sp \<le> hi \<and> 0 \<le> sp \<and> sp \<le> 2 ^ 64 - 1 | Some d \<Rightarrow> lo \<le> d \<and> d \<le> hi)"

lemma frame_dt_in_range: "frame_dt st sp (Some (lo, hi)) i = Inr d \<Longrightarrow> \<exists>v. d = Some v \<and> lo \<le> v \<and> v \<le> hi"
  by (cases "dget (ps_dt_by_frame st) i") (auto simp: frame_dt_def Let_def dest: sym split: if_splits)

lemma frame_dt_filled:
  "frame_dt st sp None i = Inr d \<Longrightarrow> step_in sp lo hi \<lparr>f_index = i, f_values = vs, f_dt_ns = d\<rparr> \<Longrightarrow>
    frame_dt st sp (Some (lo, hi)) i = Inr (Some (case d of None \<Rightarrow> sp | Some v \<Rightarrow> v))"
  by (cases "dget (ps_dt_by_frame st) i") (auto simp: frame_dt_def step_in_def Let_def)

lemma build_frames_Cons:
  "\<exists>vs. \<forall>dtr fs. build_frames schema st sp dtr previous (i # rest) = Inr fs \<longleftrightarrow>
    (\<exists>d gs. frame_dt st sp dtr i = Inr d \<and> build_frames schema st sp dtr vs rest = Inr gs \<and>
       fs = \<lparr>f_index = i, f_values = vs, f_dt_ns = d\<rparr> # gs)"
  by (intro exI) (auto simp: bindE_eq_Inr Let_def)

lemma build_frames_filled:
  "build_frames schema st sp None previous is = Inr fs \<Longrightarrow> \<forall>f \<in> set fs. step_in sp lo hi f \<Longrightarrow>
    build_frames schema st sp (Some (lo, hi)) previous is = Inr (map (filled sp) fs)"
proof (induction "is" arbitrary: previous fs)
  case (Cons i rest)
  obtain vs where step: "\<And>dtr fs. build_frames schema st sp dtr previous (i # rest) = Inr fs \<longleftrightarrow>
    (\<exists>d gs. frame_dt st sp dtr i = Inr d \<and> build_frames schema st sp dtr vs rest = Inr gs \<and>
       fs = \<lparr>f_index = i, f_values = vs, f_dt_ns = d\<rparr> # gs)"
    using build_frames_Cons [of schema st sp previous i rest] by blast
  from Cons.prems(1) obtain d gs where d: "frame_dt st sp None i = Inr d"
    and gs: "build_frames schema st sp None vs rest = Inr gs" and fs: "fs = \<lparr>f_index = i, f_values = vs, f_dt_ns = d\<rparr> # gs"
    unfolding step by blast
  have "build_frames schema st sp (Some (lo, hi)) vs rest = Inr (map (filled sp) gs)"
    using Cons.prems(2) by (intro Cons.IH [OF gs]) (simp add: fs)
  moreover have "frame_dt st sp (Some (lo, hi)) i = Inr (Some (case d of None \<Rightarrow> sp | Some v \<Rightarrow> v))"
    using Cons.prems(2) by (intro frame_dt_filled [OF d, where vs = vs]) (simp add: fs)
  ultimately show ?case unfolding step by (simp add: fs filled_def)
qed simp

lemma build_frames_in_range:
  "build_frames schema st sp (Some (lo, hi)) previous is = Inr fs \<Longrightarrow> f \<in> set fs \<Longrightarrow> \<exists>d. f_dt_ns f = Some d \<and> lo \<le> d \<and> d \<le> hi"
proof (induction "is" arbitrary: previous fs)
  case (Cons i rest)
  from Cons.prems(1) obtain vs d gs where d: "frame_dt st sp (Some (lo, hi)) i = Inr d"
    and gs: "build_frames schema st sp (Some (lo, hi)) vs rest = Inr gs"
    and fs: "fs = \<lparr>f_index = i, f_values = vs, f_dt_ns = d\<rparr> # gs"
    using build_frames_Cons [of schema st sp previous i rest] by blast
  show ?case using Cons.prems(2) Cons.IH [OF gs] frame_dt_in_range [OF d] by (auto simp: fs)
qed simp

lemma validate_filled:
  assumes "validate tc abi = Inr ()" "\<forall>f \<in> set (tc_frames tc). step_in sp lo hi f"
  shows "validate (tc\<lparr>tc_frames := map (filled sp) (tc_frames tc)\<rparr>) abi = Inr ()"
proof -
  have "validate_frame schema (filled sp f) = Inr ()" if "validate_frame schema f = Inr ()" "step_in sp lo hi f" for schema f
    using that by (auto simp: validate_frame_def filled_def step_in_def res_simps split: option.splits)
  then show ?thesis using assms unfolding validate_def Let_def by (auto simp: res_simps)
qed

text \<open>Both runs of the parser build the same testcase, up to its frames.\<close>

definition built_case :: "target_abi \<Rightarrow> parse_state \<Rightarrow> frame list \<Rightarrow> testcase" where
  "built_case abi st fs = \<lparr>tc_init_profile = ps_init_profile st, tc_shared = ps_shared st,
     tc_frames = (if fs = [] then [\<lparr>f_index = 0, f_values = initial_values (frame_action_params abi) (ps_shared st), f_dt_ns = None\<rparr>] else fs),
     tc_contract_id = None, tc_field_order = map p_name (frame_action_params abi), tc_types = abi_types abi,
     tc_shared_order = map p_name (shared_params abi)\<rparr>"

definition frame_count :: "parse_state \<Rightarrow> nat" where
  "frame_count st = length (remdups (dkeys (ps_raw_frames st) @ dkeys (ps_dt_by_frame st)))"

lemma finish_parse_Inr:
  "finish_parse abi sp dtr st = Inr tc \<longleftrightarrow>
    sort (remdups (dkeys (ps_raw_frames st) @ dkeys (ps_dt_by_frame st))) = [0..<frame_count st] \<and>
    (\<exists>fs. build_frames (frame_action_params abi) st sp dtr (initial_values (frame_action_params abi) (ps_shared st)) [0..<frame_count st] = Inr fs
       \<and> tc = built_case abi st fs \<and> validate tc abi = Inr ())"
proof -
  let ?ix = "sort (remdups (dkeys (ps_raw_frames st) @ dkeys (ps_dt_by_frame st)))"
  have n: "length ?ix = frame_count st" by (simp only: length_sort frame_count_def)
  have "finish_parse abi sp dtr st = bindE (assertE (?ix = [0..<frame_count st]) BadIndices) (\<lambda>_.
      bindE (build_frames (frame_action_params abi) st sp dtr (initial_values (frame_action_params abi) (ps_shared st)) [0..<frame_count st])
       (\<lambda>fs. bindE (validate (built_case abi st fs) abi) (\<lambda>_. Inr (built_case abi st fs))))"
    unfolding finish_parse_def Let_def n built_case_def ..
  then show ?thesis by (simp only: bindE_eq_Inr assertE_eq_Inr sum.inject) auto
qed

lemma parse_with_range:
  assumes "parse_testcase text abi sp None = Inr tc" "\<forall>f \<in> set (tc_frames tc). step_in sp lo hi f"
  shows "\<exists>tc'. parse_testcase text abi sp (Some (lo, hi)) = Inr tc' \<and>
    (tc' = tc \<or> tc' = tc\<lparr>tc_frames := map (filled sp) (tc_frames tc)\<rparr>)"
proof -
  obtain st where st: "foldE (parse_line abi) parse_start (splitlines text) = Inr st" "finish_parse abi sp None st = Inr tc"
    using assms(1) by (auto simp: parse_testcase_def bindE_eq_Inr)
  let ?prev = "initial_values (frame_action_params abi) (ps_shared st)"
  from st(2) obtain fs where ix: "sort (remdups (dkeys (ps_raw_frames st) @ dkeys (ps_dt_by_frame st))) = [0..<frame_count st]"
    and fs: "build_frames (frame_action_params abi) st sp None ?prev [0..<frame_count st] = Inr fs"
    and tc: "tc = built_case abi st fs" "validate tc abi = Inr ()"
    unfolding finish_parse_Inr by blast
  have "\<exists>tc'. finish_parse abi sp (Some (lo, hi)) st = Inr tc' \<and> (tc' = tc \<or> tc' = tc\<lparr>tc_frames := map (filled sp) (tc_frames tc)\<rparr>)"
  proof (cases "fs = []")
    case True
    then have "build_frames (frame_action_params abi) st sp (Some (lo, hi)) ?prev [0..<frame_count st] = Inr fs"
      using build_frames_filled [OF fs] by simp
    then show ?thesis using tc ix unfolding finish_parse_Inr by blast
  next
    case False
    then have "\<forall>f \<in> set fs. step_in sp lo hi f" using assms(2) by (simp add: tc(1) built_case_def)
    from build_frames_filled [OF fs this]
    have "build_frames (frame_action_params abi) st sp (Some (lo, hi)) ?prev [0..<frame_count st] = Inr (map (filled sp) fs)" .
    moreover have "built_case abi st (map (filled sp) fs) = tc\<lparr>tc_frames := map (filled sp) (tc_frames tc)\<rparr>"
      using False by (simp add: tc(1) built_case_def)
    ultimately show ?thesis using ix validate_filled [OF tc(2) assms(2)] unfolding finish_parse_Inr by metis
  qed
  then show ?thesis using st(1) by (simp add: parse_testcase_def)
qed

lemma parsed_in_range:
  assumes "parse_testcase text abi sp (Some (lo, hi)) = Inr tc" "f \<in> set (tc_frames tc)" "f_dt_ns f = Some d"
  shows "lo \<le> d \<and> d \<le> hi"
proof -
  obtain st where "finish_parse abi sp (Some (lo, hi)) st = Inr tc"
    using assms(1) by (auto simp: parse_testcase_def bindE_eq_Inr)
  then obtain prev is' fs where "build_frames (frame_action_params abi) st sp (Some (lo, hi)) prev is' = Inr fs"
    "tc = built_case abi st fs" unfolding finish_parse_Inr by blast
  moreover from this(2) have "f \<in> set fs \<or> f_dt_ns f = None"
    using assms(2) by (auto simp: built_case_def split: if_splits)
  ultimately have "build_frames (frame_action_params abi) st sp (Some (lo, hi)) prev is' = Inr fs" "f \<in> set fs \<or> f_dt_ns f = None"
    by blast+
  then show ?thesis using build_frames_in_range [of _ _ _ _ _ _ _ fs f] assms(3) by fastforce
qed

lemma canonical_filled: "canonical (tc\<lparr>tc_frames := map (filled sp) (tc_frames tc)\<rparr>) False = canonical tc False"
proof -
  have "frame_lines (tc\<lparr>tc_frames := gs\<rparr>) False (filled sp f) = frame_lines tc False f" for gs f
  proof -
    have same: "f_index (filled sp f) = f_index f" "f_values (filled sp f) = f_values f"
      "tc_types (tc\<lparr>tc_frames := gs\<rparr>) = tc_types tc" "tc_field_order (tc\<lparr>tc_frames := gs\<rparr>) = tc_field_order tc"
      by (simp_all add: filled_def)
    show ?thesis unfolding frame_lines_def same by (simp split: option.split)
  qed
  moreover have "shared_lines (tc\<lparr>tc_frames := gs\<rparr>) = shared_lines tc" for gs
  proof -
    have same: "tc_shared (tc\<lparr>tc_frames := gs\<rparr>) = tc_shared tc" "tc_types (tc\<lparr>tc_frames := gs\<rparr>) = tc_types tc"
      "tc_shared_order (tc\<lparr>tc_frames := gs\<rparr>) = tc_shared_order tc" by simp_all
    show ?thesis unfolding shared_lines_def same ..
  qed
  ultimately show ?thesis by (simp add: canonical_def canonical_lines_def comp_def)
qed

text \<open>
  (C31) Canonicalization is idempotent: canonicalizing a canonical text gives the same text, byte for
  byte, so the identity of a corpus entry does not depend on how often it was normalized. The interface
  must have identifier names, and a frame field when the time steps are not printed. With a contract
  range for the time step one more condition is needed: when the steps are printed, every frame must have
  one after the first parse (only a text without frame records leaves one without); when they are not,
  the scan period that stands for them must itself lie in the range and be a 64-bit unsigned number.
\<close>

theorem canonicalize_idempotent:
  assumes "abi_ok abi" and "canonicalize text abi sp dtr inc = Inr out"
    and "inc \<or> frame_action_params abi \<noteq> []"
    and "\<And>lo hi. dtr = Some (lo, hi) \<Longrightarrow>
      if inc then \<forall>tc. parse_testcase text abi sp dtr = Inr tc \<longrightarrow> (\<forall>f \<in> set (tc_frames tc). f_dt_ns f \<noteq> None)
      else lo \<le> sp' \<and> sp' \<le> hi \<and> 0 \<le> sp' \<and> sp' \<le> 2 ^ 64 - 1"
  shows "canonicalize out abi sp' dtr inc = Inr out"
proof -
  obtain tc where p: "parse_testcase text abi sp dtr = Inr tc" and out: "out = canonical tc inc"
    using assms(2) by (auto simp: canonicalize_def res_simps)
  have ok: "tc_ok abi tc" using assms(1) p by (rule parse_testcase_ok)
  let ?nf = "normal_form inc tc"
  have nf: "parse_testcase out abi sp' None = Inr ?nf" "canonical ?nf inc = out"
    using parse_canonical [OF assms(1) ok assms(3)] canonical_normal_form [OF assms(1) ok] by (simp_all add: out)
  show ?thesis
  proof (cases dtr)
    case None
    then show ?thesis using nf by (simp add: canonicalize_def)
  next
    case (Some r)
    obtain lo hi where r: "dtr = Some (lo, hi)" using Some by (cases r) auto
    have steps: "step_in sp' lo hi g" if g: "g \<in> set (tc_frames ?nf)" for g
    proof -
      obtain f where f: "f \<in> set (tc_frames tc)" "g = keep_dt inc f" using g by (auto simp: normal_form_def)
      show ?thesis
        using assms(4) [OF r] p f parsed_in_range [OF p [unfolded r] f(1)]
        by (cases inc) (auto simp: step_in_def keep_dt_def)
    qed
    have filled: "map (filled sp') (tc_frames ?nf) = tc_frames ?nf" if inc
      using assms(4) [OF r] p that by (auto simp: normal_form_def keep_dt_def filled_def intro!: map_idI)
    obtain tc' where tc': "parse_testcase out abi sp' (Some (lo, hi)) = Inr tc'"
      "tc' = ?nf \<or> tc' = ?nf\<lparr>tc_frames := map (filled sp') (tc_frames ?nf)\<rparr>"
      using parse_with_range [OF nf(1)] steps by blast
    have "canonical tc' inc = out"
      using tc'(2) nf(2) filled canonical_filled [where tc = ?nf and sp = sp'] by (cases inc) auto
    then show ?thesis using tc'(1) by (simp add: canonicalize_def r)
  qed
qed

lemma demo_canonical_range:
  "canonicalize demo_text demo_abi 10 (Some (0, 2000)) True = Inr (canonical (demo_case\<lparr>tc_frames := map (filled 10) (tc_frames demo_case)\<rparr>) True)"
  "parse_testcase demo_text demo_abi 10 (Some (0, 2000)) = Inr (demo_case\<lparr>tc_frames := map (filled 10) (tc_frames demo_case)\<rparr>)"
  "\<forall>f \<in> set (map (filled 10) (tc_frames demo_case)). f_dt_ns f \<noteq> None"
  by code_simp+

theorem canonicalize_idempotent_witness:
  "canonicalize (canonical demo_case True) demo_abi 10 None True = Inr (canonical demo_case True) \<and>
   (\<exists>out. canonicalize demo_text demo_abi 10 (Some (0, 2000)) True = Inr out \<and>
      canonicalize out demo_abi 7 (Some (0, 2000)) True = Inr out)"
proof -
  have "canonicalize demo_text demo_abi 10 None True = Inr (canonical demo_case True)"
    by (simp add: canonicalize_def demo_case_parsed)
  from canonicalize_idempotent [OF demo_abi_ok this]
    canonicalize_idempotent [OF demo_abi_ok demo_canonical_range(1), of 7] demo_canonical_range
  show ?thesis by auto
qed

text \<open>
  Without that condition the law fails: with a contract range the empty testcase gets a
  default frame without a time step, whose print names frame 0, which then gets the scan period.
\<close>

theorem canonicalize_dt_range_not_idempotent:
  "\<exists>out out'. canonicalize [] demo_abi 10 (Some (0, 100)) True = Inr out
    \<and> canonicalize out demo_abi 10 (Some (0, 100)) True = Inr out' \<and> out' \<noteq> out"
proof -
  have "canonicalize [] demo_abi 10 (Some (0, 100)) True = Inr (''0.X,INT,0'' @ [newline])"
    by code_simp
  moreover have "canonicalize (''0.X,INT,0'' @ [newline]) demo_abi 10 (Some (0, 100)) True
      = Inr (''0.X,INT,0'' @ [newline] @ ''0.__DT,TIME,10'' @ [newline])"
    by code_simp
  ultimately show ?thesis by fastforce
qed

section \<open>Ranges and hashes\<close>

lemma scalar_bounds_64:
  assumes "1 \<le> ts_size spec * 8" "ts_size spec * 8 \<le> 64"
  shows "- (2 ^ 63) \<le> fst (scalar_bounds spec)" "snd (scalar_bounds spec) < 2 ^ 64"
proof -
  let ?b = "nat (ts_size spec) * 8"
  have b: "?b \<le> 64" using assms by linarith
  then have p: "(2 :: int) ^ ?b \<le> 2 ^ 64" "(2 :: int) ^ (?b - 1) \<le> 2 ^ 63"
    by (intro power_increasing; simp)+
  show "- (2 ^ 63) \<le> fst (scalar_bounds spec)"
    using p by (simp add: scalar_bounds_def Let_def)
  show "snd (scalar_bounds spec) < 2 ^ 64"
    using p by (simp add: scalar_bounds_def Let_def)
qed

lemma validate_integer:
  assumes "validate_value p v = Inr ()" "ts_kind (p_spec p) = ''scalar''"
    "ts_name (p_spec p) \<notin> {''REAL'', ''LREAL''}"
  shows "\<exists>n. scalar_int v = Some n
    \<and> fst (scalar_bounds (p_spec p)) \<le> n \<and> n \<le> snd (scalar_bounds (p_spec p))
    \<and> - (2 ^ 63) \<le> n \<and> n < 2 ^ 64"
proof -
  from assms obtain n where n: "scalar_int v = Some n" "1 \<le> ts_size (p_spec p) * 8" "ts_size (p_spec p) * 8 \<le> 64"
    "fst (scalar_bounds (p_spec p)) \<le> n" "n \<le> snd (scalar_bounds (p_spec p))"
    by (cases "scalar_int v") (auto simp: validate_value_def res_simps Let_def)
  with scalar_bounds_64 [OF n(2,3)] show ?thesis by (intro exI [of _ n]) simp
qed

text \<open>
  Every integer field of every accepted frame holds a literal whose value fits the field's
  width and signedness (0 or 1 for BOOL), so the harness can store it without wrap-around.
\<close>

theorem parsed_integers_fit:
  assumes "abi_ok abi" and "parse_testcase text abi sp dtr = Inr tc" and "f \<in> set (tc_frames tc)"
    and "p \<in> set (frame_action_params abi)" and "ts_kind (p_spec p) = ''scalar''"
    and "ts_name (p_spec p) \<notin> {''REAL'', ''LREAL''}"
  shows "\<exists>v n. dget (f_values f) (p_name p) = Some v \<and> scalar_int v = Some n
    \<and> fst (scalar_bounds (p_spec p)) \<le> n \<and> n \<le> snd (scalar_bounds (p_spec p))
    \<and> - (2 ^ 63) \<le> n \<and> n < 2 ^ 64"
proof -
  have ok: "tc_ok abi tc" using assms(1,2) by (rule parse_testcase_ok)
  then have "dkeys (f_values f) = map p_name (frame_action_params abi)"
    using assms(3) by (auto simp: tc_ok_def list_all_iff frame_ok_def)
  then have "p_name p \<in> fst ` set (f_values f)" using assms(4) by (metis image_eqI list.set_map)
  then obtain v where v: "dget (f_values f) (p_name p) = Some v" by (metis map_of_eq_None_iff not_None_eq)
  have d: "distinct (map fst (map (\<lambda>p. (p_name p, p)) (frame_action_params abi)))"
    using abi_ok_names(3) [OF assms(1)] by (simp add: comp_def)
  have "dget (dict_of (map (\<lambda>p. (p_name p, p)) (frame_action_params abi))) (p_name p) = Some p"
    using map_of_is_SomeI [OF d] assms(4) dict_of_distinct [of "[]", simplified, OF d] by force
  moreover have "validate_frame (frame_action_params abi) f = Inr ()"
    using ok assms(3) by (auto simp: tc_ok_def validate_def Let_def res_simps)
  then have "\<forall>kv \<in> set (f_values f). (case kv of (name, value) \<Rightarrow>
        case dget (dict_of (map (\<lambda>p. (p_name p, p)) (frame_action_params abi))) name of
          None \<Rightarrow> Inl (UnknownField name) | Some p \<Rightarrow> validate_value p value) = Inr ()"
    unfolding validate_frame_def res_simps by blast
  ultimately have "validate_value p v = Inr ()" using map_of_SomeD [OF v] by fastforce
  from validate_integer [OF this assms(5,6)] v show ?thesis by blast
qed

theorem parsed_integers_fit_witness:
  "\<exists>v n. dget [(''X'', ''-3'')] (p_name demo_x) = Some v \<and> scalar_int v = Some n
    \<and> fst (scalar_bounds (p_spec demo_x)) \<le> n \<and> n \<le> snd (scalar_bounds (p_spec demo_x))
    \<and> - (2 ^ 63) \<le> n \<and> n < 2 ^ 64"
proof -
  have "demo_x \<in> set (frame_action_params demo_abi)" by code_simp
  from parsed_integers_fit [OF demo_abi_ok demo_case_parsed _ this,
      of "\<lparr>f_index = 1, f_values = [(''X'', ''-3'')], f_dt_ns = Some 1500\<rparr>"]
  show ?thesis by (simp add: demo_case_def demo_x_def)
qed

lemma fnv1a64_append: "fnv1a64 (xs @ ys) w = fnv1a64 ys (fnv1a64 xs w)"
  by (induction xs arbitrary: w) auto

lemma length_rolling_hashes [simp]: "length (rolling_hashes w hs) = length hs"
  by (induction hs arbitrary: w) (auto simp: Let_def)

lemma rolling_hashes_nth:
  "i < length hs \<Longrightarrow> rolling_hashes w hs ! i
    = fnv1a64 (concat (map (\<lambda>h. le_bytes h @ FRAME_SEPARATOR) (take (Suc i) hs))) w"
proof (induction hs arbitrary: w i)
  case (Cons h hs)
  then show ?case by (cases i) (simp_all add: Let_def fnv1a64_append)
qed simp

text \<open>
  Element \<open>i\<close> of the rolling hashes covers frames \<open>0..i\<close> and nothing else: it is the hash of
  the separated frame hashes up to \<open>i\<close>, so testcases that agree on those frames agree on it.
\<close>

theorem prefix_hashes_cover:
  assumes "i < length (tc_frames tc)"
  shows "prefix_hashes tc ! i = fnv1a64
      (concat (map (\<lambda>f. le_bytes (frame_hash f) @ FRAME_SEPARATOR) (take (Suc i) (tc_frames tc)))) FNV_OFFSET
    \<and> (\<forall>tc'. take (Suc i) (tc_frames tc') = take (Suc i) (tc_frames tc) \<longrightarrow> prefix_hashes tc' ! i = prefix_hashes tc ! i)"
proof -
  have n: "prefix_hashes t ! i = fnv1a64
      (concat (map (\<lambda>f. le_bytes (frame_hash f) @ FRAME_SEPARATOR) (take (Suc i) (tc_frames t)))) FNV_OFFSET"
    if "i < length (tc_frames t)" for t
    using that rolling_hashes_nth [of i "frame_hashes t" FNV_OFFSET]
    by (simp add: prefix_hashes_def frame_hashes_def take_map comp_def)
  moreover have "i < length (tc_frames t)" if "take (Suc i) (tc_frames t) = take (Suc i) (tc_frames tc)" for t
    using arg_cong [OF that, of length] assms by (simp add: min_def split: if_splits)
  ultimately show ?thesis using assms by metis
qed

theorem prefix_hashes_cover_witness:
  "prefix_hashes demo_case ! 1 = fnv1a64
      (concat (map (\<lambda>f. le_bytes (frame_hash f) @ FRAME_SEPARATOR) (take (Suc 1) (tc_frames demo_case)))) FNV_OFFSET"
  using prefix_hashes_cover [of 1 demo_case] by (simp add: demo_case_def)

end
