(* ===== verification/Sha256.thy ===== *)
theory Sha256
  imports Py_Prelude "HOL-Library.Word"
begin

text \<open>
  SHA-256 as the sources use it, \<open>hashlib.sha256(data).hexdigest()\<close>: the content digests of seeds
  and the identities of findings.
\<close>

unbundle bit_operations_syntax

definition round_constants :: "32 word list" where
  "round_constants = [
     1116352408, 1899447441, 3049323471, 3921009573, 961987163, 1508970993, 2453635748,
     2870763221, 3624381080, 310598401, 607225278, 1426881987, 1925078388, 2162078206,
     2614888103, 3248222580, 3835390401, 4022224774, 264347078, 604807628, 770255983,
     1249150122, 1555081692, 1996064986, 2554220882, 2821834349, 2952996808, 3210313671,
     3336571891, 3584528711, 113926993, 338241895, 666307205, 773529912, 1294757372,
     1396182291, 1695183700, 1986661051, 2177026350, 2456956037, 2730485921, 2820302411,
     3259730800, 3345764771, 3516065817, 3600352804, 4094571909, 275423344, 430227734,
     506948616, 659060556, 883997877, 958139571, 1322822218, 1537002063, 1747873779,
     1955562222, 2024104815, 2227730452, 2361852424, 2428436474, 2756734187, 3204031479,
     3329325298]"

definition initial_digest :: "32 word list" where
  "initial_digest = [
     1779033703, 3144134277, 1013904242, 2773480762, 1359893119, 2600822924, 528734635,
     1541459225]"

definition rotr32 :: "nat \<Rightarrow> 32 word \<Rightarrow> 32 word" where
  "rotr32 n w = (drop_bit n w OR push_bit (32 - n) w)"

definition big_endian :: "nat \<Rightarrow> int \<Rightarrow> int list" where
  "big_endian n i = map (\<lambda>k. (i div 2 ^ (8 * (n - 1 - k))) mod 256) [0..<n]"

text \<open>The padded message, as bytes: a 1 bit, zeros up to 56 modulo 64, the bit length.\<close>

definition pad_message :: "string \<Rightarrow> int list" where
  "pad_message s = map of_char s @ [128] @ replicate ((119 - length s mod 64) mod 64) 0
     @ big_endian 8 (int (length s) * 8)"

fun words_of :: "int list \<Rightarrow> 32 word list" where
  "words_of (a # b # c # d # r) = of_int (((a * 256 + b) * 256 + c) * 256 + d) # words_of r"
| "words_of _ = []"

text \<open>The message schedule, newest word first: the 16 words of the block and 48 derived ones.\<close>

fun schedule :: "nat \<Rightarrow> 32 word list \<Rightarrow> 32 word list" where
  "schedule 0 ws = ws"
| "schedule (Suc n) ws = schedule n
     (let s0 = rotr32 7 (ws ! 14) XOR rotr32 18 (ws ! 14) XOR drop_bit 3 (ws ! 14);
          s1 = rotr32 17 (ws ! 1) XOR rotr32 19 (ws ! 1) XOR drop_bit 10 (ws ! 1) in
      (ws ! 15 + s0 + ws ! 6 + s1) # ws)"

definition round_step :: "32 word list \<Rightarrow> 32 word \<times> 32 word \<Rightarrow> 32 word list" where
  "round_step st kw = (case st of
     [a, b, c, d, e, f, g, h] \<Rightarrow>
       (let s1 = rotr32 6 e XOR rotr32 11 e XOR rotr32 25 e;
            ch = (e AND f) XOR (NOT e AND g);
            t1 = h + s1 + ch + fst kw + snd kw;
            s0 = rotr32 2 a XOR rotr32 13 a XOR rotr32 22 a;
            maj = (a AND b) XOR (a AND c) XOR (b AND c) in
        [t1 + (s0 + maj), a, b, c, d + t1, e, f, g])
   | _ \<Rightarrow> st)"

definition compress :: "32 word list \<Rightarrow> 32 word list \<Rightarrow> 32 word list" where
  "compress digest block =
     map2 (+) digest (foldl round_step digest (zip round_constants (rev (schedule 48 (rev block)))))"

function digest_blocks :: "32 word list \<Rightarrow> 32 word list \<Rightarrow> 32 word list" where
  "digest_blocks digest ws =
     (if length ws < 16 then digest else digest_blocks (compress digest (take 16 ws)) (drop 16 ws))"
  by pat_completeness auto
termination
  by (relation "measure (length \<circ> snd)") auto

declare digest_blocks.simps [simp del]

definition hex_char :: "int \<Rightarrow> char" where
  "hex_char n = (if n < 10 then char_of (48 + n) else char_of (87 + n))"

definition hex_word :: "32 word \<Rightarrow> string" where
  "hex_word w = concat (map (\<lambda>b. [hex_char (b div 16), hex_char (b mod 16)]) (big_endian 4 (uint w)))"

definition sha256_hex :: "string \<Rightarrow> string" where
  "sha256_hex s = concat (map hex_word (digest_blocks initial_digest (words_of (pad_message s))))"

end
