(* ===== verification/Corpus_Store.thy ===== *)
theory Corpus_Store
  imports Frames_Roundtrip Json Sha256
begin

text \<open>
  The corpus of \<open>fuzzer/corpus/store.py\<close>: seed normalization, seed metadata and its compact
  persisted form, the store with its sequential identities, and the validation of a seed against
  a parameter list. The seed directory is a dictionary from file names to contents; a metadata
  object is the dictionary of its fields in declaration order.
\<close>

section \<open>Seed texts\<close>

datatype store_error =
    InvalidSeedLine string
  | NoRecords
  | BadUnpack string
  | MissingArgument string
  | BadSeedId
  | FileNotFound string
  | UnknownSeedField string
  | DuplicateSeedField string
  | WrongSeedType string
  | BadNumber string
  | SeedOutOfRange string
  | SeedStringTooLong string
  | OddHexDigits string
  | InvalidHexBytes string
  | EmptyBytes string
  | TooManyBytes string
  | MissingSeedFields "string list"

definition content_hash :: "string \<Rightarrow> string" where
  "content_hash data = sha256_hex data"

definition normalize_line :: "string \<Rightarrow> store_error + string" where
  "normalize_line raw_line =
     (case split_max CHR '','' 2 raw_line of
        [n, t, v] \<Rightarrow> if strip n = [] \<or> strip t = [] then Inl (InvalidSeedLine raw_line)
                     else Inr (record_line (strip n) (py_upper (strip t)) (strip v))
      | _ \<Rightarrow> Inl (InvalidSeedLine raw_line))"

definition normalize_seed :: "string \<Rightarrow> store_error + string" where
  "normalize_seed data =
     bindE (mapE normalize_line (filter (\<lambda>l. strip l \<noteq> []) (splitlines data))) (\<lambda>records.
       if records = [] then Inl NoRecords else Inr (join [newline] records @ [newline]))"

text \<open>The unpacking of \<open>line.split(",", 2)\<close> into three names; fewer parts raise.\<close>

definition split3 :: "string \<Rightarrow> store_error + (string \<times> string \<times> string)" where
  "split3 line = (case split_max CHR '','' 2 line of [n, t, v] \<Rightarrow> Inr (n, t, v) | _ \<Rightarrow> Inl (BadUnpack line))"

definition parse_record_step :: "(string, string) dict \<Rightarrow> string \<Rightarrow> store_error + (string, string) dict" where
  "parse_record_step vs line =
     (if strip line = [] then Inr vs
      else bindE (split3 line) (\<lambda>(n, t, v). Inr (dset (py_upper (strip n)) (strip v) vs)))"

definition parse_records :: "string \<Rightarrow> store_error + (string, string) dict" where
  "parse_records seed =
     bindE (foldE parse_record_step [] (splitlines seed)) (\<lambda>vs. if vs = [] then Inl NoRecords else Inr vs)"

definition parse_seed_lines :: "string \<Rightarrow> store_error + (string \<times> string \<times> string) list" where
  "parse_seed_lines seed = bindE (normalize_seed seed) (\<lambda>s. mapE split3 (splitlines s))"

definition field_name_without_cycle :: "string \<Rightarrow> string" where
  "field_name_without_cycle name =
     (let (prefix, dot, rest) = partition_at CHR ''.'' name in
      if dot \<and> prefix \<noteq> [] \<and> list_all is_digit prefix \<and> rest \<noteq> [] then rest else name)"

section \<open>Metadata\<close>

text \<open>The dataclass fields, in order, with the default of each; the first two have none.\<close>

definition METADATA_FIELDS :: "(string \<times> json option) list" where
  "METADATA_FIELDS = [(''source'', None), (''content_hash'', None), (''seed_id'', Some (JStr [])),
     (''parent_id'', Some JNull), (''coverage_hash'', Some JNull), (''constraints'', Some (JList [])),
     (''target_id'', Some JNull), (''covered_target'', Some JNull), (''semantic_coverage'', Some (JObj [])),
     (''covered_target_ids'', Some (JList [])), (''covered_targets_by_cycle'', Some (JObj [])),
     (''cycle_ids'', Some (JList [])), (''state_signatures'', Some (JList [])),
     (''target_affinity'', Some (JObj [])), (''solver_status'', Some JNull), (''new_afl_edges'', Some (JInt 0)),
     (''new_st_branch_sides'', Some (JList [])), (''new_state_transitions'', Some (JList [])),
     (''is_finding'', Some (JBool False)), (''finding_source'', Some JNull), (''finding_kind'', Some JNull),
     (''finding_severity'', Some JNull), (''finding_confidence'', Some JNull), (''finding_detail'', Some JNull),
     (''finding_artifact'', Some JNull)]"

type_synonym seed_metadata = "(string, json) dict"

text \<open>The entries the persisted form leaves out.\<close>

definition is_compacted :: "string \<Rightarrow> json \<Rightarrow> bool" where
  "is_compacted key value =
     (value = JNull \<or> value = JList [] \<or> value = JObj [] \<or> value = JBool False
      \<or> (key = ''new_afl_edges'' \<and> eq_int value 0))"

definition compact_metadata_dict :: "(string, json) dict \<Rightarrow> (string, json) dict" where
  "compact_metadata_dict rec = filter (\<lambda>(k, v). \<not> is_compacted k v) rec"

text \<open>\<open>StSeedMetadata(**{known fields of raw})\<close>\<close>

definition field_value :: "(string, json) dict \<Rightarrow> string \<times> json option \<Rightarrow> store_error + (string \<times> json)" where
  "field_value raw fd = (case dget raw (fst fd) of
     Some v \<Rightarrow> Inr (fst fd, v)
   | None \<Rightarrow> (case snd fd of None \<Rightarrow> Inl (MissingArgument (fst fd)) | Some v \<Rightarrow> Inr (fst fd, v)))"

definition make_metadata :: "(string, json) dict \<Rightarrow> store_error + seed_metadata" where
  "make_metadata raw = mapE (field_value raw) METADATA_FIELDS"

section \<open>The store\<close>

record corpus_store =
  cs_constraints :: "string list"
  cs_records :: "(string, seed_metadata) dict"
  cs_next_seed_number :: int
  cs_unified_seeds :: "(string, string) dict"

text \<open>\<open>f"{n:08d}"\<close> of a non-negative number.\<close>

definition pad8 :: "int \<Rightarrow> string" where
  "pad8 n = replicate (8 - length (show_pos n)) CHR ''0'' @ show_pos n"

definition seed_id_of :: "int \<Rightarrow> string" where
  "seed_id_of n = ''seed-'' @ pad8 n"

definition seed_file :: "string \<Rightarrow> string" where
  "seed_file seed_id = seed_id @ ''.seed''"

text \<open>The number of a sequential identity, when it has one, raises the next number above it.\<close>

definition bump_seed_number :: "string \<Rightarrow> int \<Rightarrow> int" where
  "bump_seed_number name n =
     (if starts_with ''seed-'' name
      then (case int_base10 (drop 5 name) of None \<Rightarrow> n | Some i \<Rightarrow> max n (i + 1)) else n)"

definition load_record :: "corpus_store \<Rightarrow> nat \<times> (string, json) dict \<Rightarrow> store_error + corpus_store" where
  "load_record st ir = (case ir of (index, raw) \<Rightarrow>
     bindE (make_metadata raw) (\<lambda>m.
     let sid = (if truthy (jget m ''seed_id'') then jget m ''seed_id'' else JStr (''legacy-'' @ pad8 (int index)));
         m' = dset ''seed_id'' sid m in
     case sid of
       JStr s \<Rightarrow> Inr (st\<lparr>cs_records := dset s m' (cs_records st),
                       cs_next_seed_number := bump_seed_number s (cs_next_seed_number st)\<rparr>)
     | _ \<Rightarrow> Inl BadSeedId))"

text \<open>\<open>glob("seed-*.seed")\<close>: the stem of a matching file name.\<close>

definition file_stem :: "string \<Rightarrow> string option" where
  "file_stem name = (if starts_with ''seed-'' name \<and> ends_with ''.seed'' name \<and> 10 \<le> length name
     then Some (take (length name - 5) name) else None)"

definition scan_file :: "int \<Rightarrow> string \<Rightarrow> int" where
  "scan_file n name = (case file_stem name of None \<Rightarrow> n | Some stem \<Rightarrow> bump_seed_number stem n)"

definition open_store :: "string list \<Rightarrow> (string, json) dict list \<Rightarrow> (string, string) dict \<Rightarrow>
    store_error + corpus_store" where
  "open_store constraints bootstrap seeds =
     bindE (foldE load_record \<lparr>cs_constraints = constraints, cs_records = [], cs_next_seed_number = 1,
                cs_unified_seeds = seeds\<rparr> (zip [1..<Suc (length bootstrap)] bootstrap)) (\<lambda>st.
       Inr (st\<lparr>cs_next_seed_number := foldl scan_file (cs_next_seed_number st) (dkeys seeds)\<rparr>))"

definition persist :: "corpus_store \<Rightarrow> (string, json) dict list" where
  "persist st = map compact_metadata_dict
     (sort_key (\<lambda>m. str_of (jget m ''seed_id'')) (map snd (cs_records st)))"

definition new_metadata :: "string \<Rightarrow> string \<Rightarrow> string \<Rightarrow> string option \<Rightarrow> string list \<Rightarrow> seed_metadata" where
  "new_metadata source digest seed_id parent constraints =
     map (\<lambda>(k, d). (k, if k = ''source'' then JStr source
        else if k = ''content_hash'' then JStr digest
        else if k = ''seed_id'' then JStr seed_id
        else if k = ''parent_id'' then (case parent of None \<Rightarrow> JNull | Some p \<Rightarrow> JStr p)
        else if k = ''constraints'' then JList (map JStr constraints)
        else (case d of None \<Rightarrow> JNull | Some v \<Rightarrow> v))) METADATA_FIELDS"

definition add_seed :: "corpus_store \<Rightarrow> string \<Rightarrow> string \<Rightarrow> string option \<Rightarrow> string list option \<Rightarrow>
    store_error + (seed_metadata \<times> corpus_store)" where
  "add_seed st data source parent_id constraints =
     bindE (normalize_seed data) (\<lambda>norm.
     let seed_id = seed_id_of (cs_next_seed_number st);
         m = new_metadata source (content_hash norm) seed_id parent_id
               (case constraints of Some c \<Rightarrow> c | None \<Rightarrow> cs_constraints st) in
       Inr (m, st\<lparr>cs_next_seed_number := cs_next_seed_number st + 1,
                 cs_records := dset seed_id m (cs_records st),
                 cs_unified_seeds := dset (seed_file seed_id) norm (cs_unified_seeds st)\<rparr>))"

record dir_entry =
  de_name :: string
  de_is_file :: bool
  de_data :: string

definition discover_step :: "nat \<times> corpus_store \<Rightarrow> dir_entry \<Rightarrow> nat \<times> corpus_store" where
  "discover_step as e = (case as of (added, st) \<Rightarrow>
     if \<not> de_is_file e \<or> starts_with ''.'' (de_name e) \<or> de_data e = [] then (added, st)
     else (case add_seed st (de_data e) ''Fuzzing'' None None of
             Inl _ \<Rightarrow> (added, st) | Inr (_, st') \<Rightarrow> (added + 1, st')))"

definition discover_runtime_seeds :: "corpus_store \<Rightarrow> dir_entry list option \<Rightarrow> nat \<times> corpus_store" where
  "discover_runtime_seeds st runtime =
     (case runtime of None \<Rightarrow> (0, st)
      | Some es \<Rightarrow> foldl discover_step (0, st) (sort_key de_name es))"

text \<open>The file of a seed: its own, or the finding artifact kept elsewhere (\<open>other\<close> files).\<close>

definition seed_bytes :: "corpus_store \<Rightarrow> (string, string) dict \<Rightarrow> string \<Rightarrow> store_error + string" where
  "seed_bytes st other seed_id =
     (case dget (cs_unified_seeds st) (seed_file seed_id) of
        Some d \<Rightarrow> Inr d
      | None \<Rightarrow>
        (let artifact = (case dget (cs_records st) seed_id of None \<Rightarrow> JNull | Some m \<Rightarrow> jget m ''finding_artifact'') in
         if truthy artifact then
           (case dget other (str_of artifact) of Some d \<Rightarrow> Inr d | None \<Rightarrow> Inl (FileNotFound (seed_file seed_id)))
         else Inl (FileNotFound (seed_file seed_id))))"

section \<open>Validation against parameters\<close>

definition scalar_integer_bounds :: "type_spec \<Rightarrow> (int \<times> int) option" where
  "scalar_integer_bounds spec =
     (if ts_kind spec \<noteq> ''scalar'' \<or> ts_name spec \<in> {''REAL'', ''LREAL''} then None
      else if ts_name spec = ''BOOL'' then Some (0, 1)
      else let bits = nat (ts_size spec) * 8;
               signed = (\<not> (case ts_c_type spec of None \<Rightarrow> False | Some c \<Rightarrow> starts_with ''u'' c)) in
        Some (if signed then (- (2 ^ (bits - 1)), 2 ^ (bits - 1) - 1) else (0, 2 ^ bits - 1)))"

definition DEFAULT_ST_STRING_LENGTH :: int where
  "DEFAULT_ST_STRING_LENGTH = 250"

definition DEFAULT_BOOTSTRAP_MAX_POINTER_BYTES :: int where
  "DEFAULT_BOOTSTRAP_MAX_POINTER_BYTES = 64"

definition check_scalar :: "type_spec \<Rightarrow> string \<Rightarrow> string \<Rightarrow> store_error + unit" where
  "check_scalar spec name value =
     (if ts_name spec \<in> {''REAL'', ''LREAL''} then assertE (parse_float value \<noteq> None) (BadNumber name)
      else case int_base0 value of
        None \<Rightarrow> Inl (BadNumber name)
      | Some parsed \<Rightarrow> (case scalar_integer_bounds spec of
          None \<Rightarrow> Inr ()
        | Some (lo, hi) \<Rightarrow> assertE (lo \<le> parsed \<and> parsed \<le> hi) (SeedOutOfRange name)))"

definition check_bytes :: "string \<Rightarrow> string \<Rightarrow> store_error + unit" where
  "check_bytes name value =
     bindE (if starts_with ''0x'' value \<or> starts_with ''0X'' value then
              (let raw_hex = drop 2 value in
               bindE (assertE (length raw_hex mod 2 = 0) (OddHexDigits name)) (\<lambda>_.
               bindE (assertE (list_all is_hex_digit raw_hex) (InvalidHexBytes name)) (\<lambda>_.
                 Inr (int (length raw_hex div 2)))))
            else Inr (int (length value))) (\<lambda>byte_len.
     bindE (assertE (0 < byte_len) (EmptyBytes name)) (\<lambda>_.
       assertE (byte_len \<le> DEFAULT_BOOTSTRAP_MAX_POINTER_BYTES) (TooManyBytes name)))"

definition check_seed_value :: "type_spec \<Rightarrow> string \<Rightarrow> string \<Rightarrow> store_error + unit" where
  "check_seed_value spec name value =
     (if ts_kind spec = ''scalar'' then check_scalar spec name value
      else if ts_kind spec = ''string'' then
        assertE (int (length value) \<le> (case ts_length spec of
            Some l \<Rightarrow> if l \<noteq> 0 then l else DEFAULT_ST_STRING_LENGTH | None \<Rightarrow> DEFAULT_ST_STRING_LENGTH))
          (SeedStringTooLong name)
      else if ts_kind spec \<in> {''array'', ''pointer''} then check_bytes name value
      else Inr ())"

definition check_seed_record :: "(string, param) dict \<Rightarrow> string list \<Rightarrow> string \<times> string \<times> string \<Rightarrow>
    store_error + string list" where
  "check_seed_record expected seen r = (case r of (name, ty, value) \<Rightarrow>
     let key = py_upper (field_name_without_cycle name) in
     case dget expected key of
       None \<Rightarrow> Inl (UnknownSeedField name)
     | Some p \<Rightarrow>
       bindE (if CHR ''.'' \<notin> set name
              then (if key \<in> set seen then Inl (DuplicateSeedField name) else Inr (key # seen))
              else Inr seen) (\<lambda>seen'.
       bindE (assertE (ty = type_token p) (WrongSeedType name)) (\<lambda>_.
       bindE (check_seed_value (p_spec p) name value) (\<lambda>_. Inr seen'))))"

definition validate_seed_for_params :: "string \<Rightarrow> param list \<Rightarrow> store_error + string" where
  "validate_seed_for_params seed params =
     bindE (normalize_seed seed) (\<lambda>normalized.
     bindE (parse_seed_lines normalized) (\<lambda>records.
     bindE (foldE (check_seed_record (upper_map params)) [] records) (\<lambda>_.
     let seen_base = map (\<lambda>(n, _, _). py_upper (field_name_without_cycle n)) records;
         missing = map p_name (filter (\<lambda>p. py_upper (p_name p) \<notin> set seen_base) params) in
       if missing \<noteq> [] then Inl (MissingSeedFields missing) else Inr normalized)))"

section \<open>Normalization is idempotent\<close>

lemma of_char_upper: "is_lower c \<Longrightarrow> of_char (upper_char c) = (of_char c :: int) - 32"
  by (auto simp: upper_char_def is_lower_def)

lemma upper_char_facts:
  "\<not> is_space c \<Longrightarrow> \<not> is_space (upper_char c)" "\<not> is_break c \<Longrightarrow> \<not> is_break (upper_char c)"
  "c \<noteq> CHR '','' \<Longrightarrow> upper_char c \<noteq> CHR '',''"
proof -
  have l: "is_upper (upper_char c)" if "is_lower c"
    using that by (auto simp: of_char_upper is_upper_def is_lower_def)
  have "\<not> is_upper CHR '',''" by (simp add: is_upper_def)
  moreover have "\<not> is_space d \<and> \<not> is_break d" if "is_upper d" for d
    using that by (auto simp: is_upper_def is_space_def is_break_def)
  ultimately show "\<not> is_space c \<Longrightarrow> \<not> is_space (upper_char c)"
    "\<not> is_break c \<Longrightarrow> \<not> is_break (upper_char c)" "c \<noteq> CHR '','' \<Longrightarrow> upper_char c \<noteq> CHR '',''"
    using l by (metis upper_char_def)+
qed

lemma stripped_upper: "stripped s \<Longrightarrow> stripped (py_upper s)"
  by (cases "s = []") (auto simp: stripped_def hd_map last_map upper_char_facts)

text \<open>A record in normal form, and that normalization produces and keeps it.\<close>

definition normal_record :: "string \<Rightarrow> bool" where
  "normal_record l = (\<exists>n t v. l = record_line n (py_upper t) v \<and> n \<noteq> [] \<and> t \<noteq> []
     \<and> stripped n \<and> stripped t \<and> stripped v \<and> CHR '','' \<notin> set n \<and> CHR '','' \<notin> set t
     \<and> (\<forall>c \<in> set n \<union> set t \<union> set v. \<not> is_break c))"

lemma split_three:
  assumes "split_max CHR '','' 2 l = [a, b, c]"
  shows "CHR '','' \<notin> set a" "CHR '','' \<notin> set b" "set a \<union> set b \<union> set c \<subseteq> set l"
proof -
  show "CHR '','' \<notin> set a"
    using assms split_max_no_sep [of "CHR '',''" 1 l a b "[c]"] by (simp add: numeral_2_eq_2)
  obtain d r where r: "dropWhile (\<lambda>d. d \<noteq> CHR '','') l = d # r" "split_max CHR '','' 1 r = [b, c]"
    using assms by (auto simp: numeral_2_eq_2 split: list.splits)
  then show "CHR '','' \<notin> set b"
    using split_max_no_sep [of "CHR '',''" 0 r b c "[]"] by simp
  have "p \<in> set [a, b, c] \<Longrightarrow> set p \<subseteq> set l" for p
    using split_max_parts [of p "CHR '',''" 2 l] assms by simp
  then show "set a \<union> set b \<union> set c \<subseteq> set l" by auto
qed

lemma normalize_line_normal:
  assumes "normalize_line l = Inr r" "\<forall>c \<in> set l. \<not> is_break c"
  shows "normal_record r"
proof -
  obtain a b c where s: "split_max CHR '','' 2 l = [a, b, c]"
    and r: "r = record_line (strip a) (py_upper (strip b)) (strip c)" "strip a \<noteq> []" "strip b \<noteq> []"
    using assms(1) by (auto simp: normalize_line_def split: list.splits if_splits)
  have sub: "set (strip a) \<subseteq> set a" "set (strip b) \<subseteq> set b" "set (strip c) \<subseteq> set c" by (rule set_strip)+
  with split_three [OF s] assms(2)
  have "CHR '','' \<notin> set (strip a)" "CHR '','' \<notin> set (strip b)"
    "\<forall>x \<in> set (strip a) \<union> set (strip b) \<union> set (strip c). \<not> is_break x" by blast+
  with r stripped_strip show ?thesis unfolding normal_record_def
    by (intro exI [of _ "strip a"] exI [of _ "strip b"] exI [of _ "strip c"] conjI)
qed

lemma split_max_record:
  assumes "CHR '','' \<notin> set n" "CHR '','' \<notin> set t"
  shows "split_max CHR '','' 2 (record_line n t v) = [n, t, v]"
  unfolding record_line_def numeral_2_eq_2
  using split_max_step [OF assms(1), of 1 "t @ CHR '','' # v"] split_max_step [OF assms(2), of 0 v]
  by simp

lemma no_comma_upper: "CHR '','' \<notin> set t \<Longrightarrow> CHR '','' \<notin> set (py_upper t)"
  using upper_char_facts(3) by (metis (no_types) ex_map_conv image_iff list.set_map)

lemma normal_record_facts:
  assumes "normal_record r"
  shows "normalize_line r = Inr r" "strip r \<noteq> []" "\<forall>c \<in> set r. \<not> is_break c"
    "\<exists>n t v. split3 r = Inr (n, t, v)"
proof -
  from assms obtain n t v where r: "r = record_line n (py_upper t) v" "n \<noteq> []" "t \<noteq> []"
    and p: "stripped n" "stripped t" "stripped v" "CHR '','' \<notin> set n" "CHR '','' \<notin> set t"
    and b: "\<forall>c \<in> set n \<union> set t \<union> set v. \<not> is_break c"
    unfolding normal_record_def by blast
  have s: "split_max CHR '','' 2 r = [n, py_upper t, v]"
    unfolding r(1) using p(4) no_comma_upper [OF p(5)] by (rule split_max_record)
  then show "normalize_line r = Inr r" "\<exists>n t v. split3 r = Inr (n, t, v)"
    using r p stripped_upper [OF p(2)] by (simp_all add: normalize_line_def split3_def strip_stripped comp_def)
  have "text_ok v" using p(3) b by (simp add: text_ok_def list_all_iff)
  from strip_record_line(1) [OF p(1) r(2) this] show "strip r \<noteq> []"
    unfolding r(1) by (simp add: record_line_def)
  have "\<not> is_break CHR '',''" by (simp add: is_break_def)
  moreover have "\<forall>c \<in> set (py_upper t). \<not> is_break c" using b upper_char_facts(2) by auto
  ultimately show "\<forall>c \<in> set r. \<not> is_break c" using b unfolding r(1) record_line_def by auto
qed

lemma normalize_seed_shape:
  assumes "normalize_seed data = Inr out"
  shows "\<exists>rs. out = join [newline] rs @ [newline] \<and> rs \<noteq> [] \<and> (\<forall>r \<in> set rs. normal_record r)
    \<and> splitlines out = rs"
proof -
  from assms obtain rs where rs: "mapE normalize_line (filter (\<lambda>l. strip l \<noteq> []) (splitlines data)) = Inr rs"
    "rs \<noteq> []" "out = join [newline] rs @ [newline]"
    by (auto simp: normalize_seed_def bindE_eq_Inr split: if_splits)
  have n: "normal_record r" if "r \<in> set rs" for r
  proof -
    from mapE_set [OF rs(1) that] obtain l where l: "l \<in> set (splitlines data)" "normalize_line l = Inr r"
      by auto
    show ?thesis by (rule normalize_line_normal [OF l(2)]) (use splitlines_no_break [OF l(1)] in blast)
  qed
  have "splitlines out = rs" unfolding rs(3)
    by (rule splitlines_join) (use n normal_record_facts(3) rs(2) in blast)+
  with n rs show ?thesis by blast
qed

text \<open>
  Normalizing a normalized seed changes nothing, so the content hash of a seed is the hash of
  its one normal form; and every line of a normalized seed has its three parts.
\<close>

theorem normalize_seed_idempotent:
  assumes "normalize_seed data = Inr out"
  shows "normalize_seed out = Inr out \<and> (\<exists>records. parse_seed_lines out = Inr records \<and> records \<noteq> [])"
proof -
  obtain rs where rs: "out = join [newline] rs @ [newline]" "rs \<noteq> []" "\<forall>r \<in> set rs. normal_record r"
    "splitlines out = rs" using normalize_seed_shape [OF assms] by blast
  have "filter (\<lambda>l. strip l \<noteq> []) rs = rs" using rs(3) normal_record_facts(2) by simp
  moreover have "mapE normalize_line rs = Inr (map id rs)"
    by (rule mapE_total) (use rs(3) normal_record_facts(1) in simp)
  ultimately have a: "normalize_seed out = Inr out" using rs by (simp add: normalize_seed_def)
  have "\<forall>r \<in> set rs. \<exists>x. split3 r = Inr x" using rs(3) normal_record_facts(4) by blast
  then obtain g where "\<forall>r \<in> set rs. split3 r = Inr (g r)" by (rule bchoice [THEN exE])
  then have g: "\<And>r. r \<in> set rs \<Longrightarrow> split3 r = Inr (g r)" by blast
  have "mapE split3 rs = Inr (map g rs)" by (rule mapE_total) (rule g)
  then show ?thesis using a rs by (simp add: parse_seed_lines_def)
qed

definition demo_seed :: string where
  "demo_seed = '' 0.x , int, 7'' @ [newline, newline] @ ''B,bool,1''"

theorem normalize_seed_idempotent_witness:
  "\<exists>out. normalize_seed demo_seed = Inr out \<and> normalize_seed out = Inr out
     \<and> (\<exists>records. parse_seed_lines out = Inr records \<and> records \<noteq> [])"
proof -
  have n: "normalize_seed demo_seed = Inr (''0.x,INT,7'' @ [newline] @ ''B,BOOL,1'' @ [newline])"
    by code_simp
  from normalize_seed_idempotent [OF n] n show ?thesis by blast
qed

section \<open>Seed identities\<close>

text \<open>
  The contract between numbered names and the store: the number can be read back from the name.
  Then the name of a number above all numbers in use is new.
\<close>

locale numbered_names =
  fixes name_of :: "int \<Rightarrow> 'k" and number_of :: "'k \<Rightarrow> int option"
  assumes number_name: "0 \<le> n \<Longrightarrow> number_of (name_of n) = Some n"
begin

lemma name_inj: "0 \<le> m \<Longrightarrow> 0 \<le> n \<Longrightarrow> name_of m = name_of n \<Longrightarrow> m = n"
  using number_name by (metis option.inject)

lemma name_fresh: "0 \<le> n \<Longrightarrow> \<forall>k \<in> K. \<forall>i. number_of k = Some i \<longrightarrow> i < n \<Longrightarrow> name_of n \<notin> K"
  using number_name [of n] by blast

end

definition seed_number :: "string \<Rightarrow> int option" where
  "seed_number name = (if starts_with ''seed-'' name then int_base10 (drop 5 name) else None)"

definition file_number :: "string \<Rightarrow> int option" where
  "file_number name = (case file_stem name of None \<Rightarrow> None | Some stem \<Rightarrow> seed_number stem)"

lemma read_base_zeros: "read_base 10 0 (replicate k CHR ''0'' @ s) = read_base 10 0 s"
  by (induction k) (simp_all add: hex_val_def)

lemma pad8_digits: "0 \<le> n \<Longrightarrow> \<forall>c \<in> set (pad8 n). is_digit c"
  using show_pos_digits [of n] by (auto simp: pad8_def is_digit_def)

lemma int_base10_pad8: "0 \<le> n \<Longrightarrow> int_base10 (pad8 n) = Some n"
proof -
  assume n: "0 \<le> n"
  have ne: "pad8 n \<noteq> []" by (simp add: pad8_def)
  note d = pad8_digits [OF n]
  have "split_sign (pad8 n) = (1, pad8 n)" using ne d by (intro split_sign_digits) simp_all
  moreover have "digits_ok is_digit False (pad8 n)" using ne d by (rule digits_ok_digits)
  moreover have "read_base 10 0 (pad8 n) = n" using n by (simp add: pad8_def read_base_zeros)
  ultimately show ?thesis using d by (simp add: int_base10_def strip_stripped stripped_digits)
qed

lemma seed_number_seed_id: "0 \<le> n \<Longrightarrow> seed_number (seed_id_of n) = Some n"
  by (simp add: seed_number_def seed_id_of_def starts_with_def int_base10_pad8)

lemma file_stem_seed_file: "file_stem (seed_file (seed_id_of n)) = Some (seed_id_of n)"
  by (simp add: file_stem_def seed_file_def seed_id_of_def starts_with_def ends_with_def)

interpretation sid: numbered_names seed_id_of seed_number
  by unfold_locales (rule seed_number_seed_id)

interpretation sfile: numbered_names "\<lambda>n. seed_file (seed_id_of n)" file_number
  by unfold_locales (simp add: file_number_def file_stem_seed_file seed_number_seed_id)

definition store_ok :: "corpus_store \<Rightarrow> bool" where
  "store_ok st = (1 \<le> cs_next_seed_number st
     \<and> (\<forall>k \<in> fst ` set (cs_records st). \<forall>i. seed_number k = Some i \<longrightarrow> i < cs_next_seed_number st)
     \<and> (\<forall>k \<in> fst ` set (cs_unified_seeds st). \<forall>i. file_number k = Some i \<longrightarrow> i < cs_next_seed_number st))"

lemma bump_seed_number_bound:
  "n \<le> bump_seed_number k n" "seed_number k = Some i \<Longrightarrow> i < bump_seed_number k n"
  by (auto simp: bump_seed_number_def seed_number_def split: option.splits if_splits)

lemma scan_file_bound: "n \<le> scan_file n k" "file_number k = Some i \<Longrightarrow> i < scan_file n k"
  using bump_seed_number_bound by (auto simp: scan_file_def file_number_def split: option.splits)

lemma scan_files_bound:
  "n \<le> foldl scan_file n ks" "k \<in> set ks \<Longrightarrow> file_number k = Some i \<Longrightarrow> i < foldl scan_file n ks"
proof (induction ks arbitrary: n)
  case (Cons k' ks)
  {
    case 1
    show ?case using Cons.IH(1) [of "scan_file n k'"] scan_file_bound(1) [of n k'] by simp
  next
    case 2
    then show ?case
      using Cons.IH [of "scan_file n k'"] scan_file_bound(2) [of k' i n] by fastforce
  }
qed simp_all

text \<open>Loading keeps the record half of the invariant and the directory.\<close>

definition load_ok :: "(string, string) dict \<Rightarrow> corpus_store \<Rightarrow> bool" where
  "load_ok seeds st = (cs_unified_seeds st = seeds \<and> 1 \<le> cs_next_seed_number st
     \<and> (\<forall>k \<in> fst ` set (cs_records st). \<forall>i. seed_number k = Some i \<longrightarrow> i < cs_next_seed_number st))"

lemma load_record_ok:
  assumes "load_record st ir = Inr st'" "load_ok seeds st"
  shows "load_ok seeds st'"
proof -
  obtain s m where st': "st' = st\<lparr>cs_records := dset s m (cs_records st),
      cs_next_seed_number := bump_seed_number s (cs_next_seed_number st)\<rparr>"
  proof -
    obtain index raw where ir: "ir = (index, raw)" by force
    obtain mm where mm: "make_metadata raw = Inr mm"
      using assms(1) by (cases "make_metadata raw") (auto simp: load_record_def ir)
    show ?thesis
      using assms(1) that
      by (cases "if truthy (jget mm ''seed_id'') then jget mm ''seed_id'' else JStr (''legacy-'' @ pad8 (int index))")
        (force simp add: load_record_def ir mm Let_def)+
  qed
  have "i < bump_seed_number s (cs_next_seed_number st)"
    if "k \<in> insert s (fst ` set (cs_records st))" "seed_number k = Some i" for k i
    using that assms(2) bump_seed_number_bound(1) [of "cs_next_seed_number st" s] bump_seed_number_bound(2) [of s i]
    by (auto simp: load_ok_def intro: less_le_trans)
  with assms(2) bump_seed_number_bound(1) [of "cs_next_seed_number st" s] show ?thesis
    unfolding load_ok_def st' by (simp add: set_dkeys_dset)
qed

lemma open_store_ok:
  assumes "open_store constraints bootstrap seeds = Inr st"
  shows "store_ok st"
proof -
  let ?s0 = "\<lparr>cs_constraints = constraints, cs_records = [], cs_next_seed_number = 1, cs_unified_seeds = seeds\<rparr>"
  from assms obtain s1 where s1: "foldE load_record ?s0 (zip [1..<Suc (length bootstrap)] bootstrap) = Inr s1"
    and st: "st = s1\<lparr>cs_next_seed_number := foldl scan_file (cs_next_seed_number s1) (dkeys seeds)\<rparr>"
    unfolding open_store_def by (auto simp only: bindE_eq_Inr sum.inject)
  have "load_ok seeds s1"
    by (rule foldE_invariant [OF s1, where I = "load_ok seeds"]) (simp add: load_ok_def, blast intro: load_record_ok)
  then have l: "cs_unified_seeds s1 = seeds" "1 \<le> cs_next_seed_number s1"
    "\<forall>k \<in> fst ` set (cs_records s1). \<forall>i. seed_number k = Some i \<longrightarrow> i < cs_next_seed_number s1"
    by (simp_all add: load_ok_def)
  note b = scan_files_bound(1) [of "cs_next_seed_number s1" "dkeys seeds"]
  have "\<forall>k \<in> fst ` set (cs_unified_seeds st). \<forall>i. file_number k = Some i \<longrightarrow> i < cs_next_seed_number st"
    using scan_files_bound(2) [of _ "dkeys seeds" _ "cs_next_seed_number s1"] l(1) by (simp add: st)
  moreover have "\<forall>k \<in> fst ` set (cs_records st). \<forall>i. seed_number k = Some i \<longrightarrow> i < cs_next_seed_number st"
    using l(3) b less_le_trans by (simp add: st) blast
  ultimately show ?thesis using l(2) b by (simp add: store_ok_def st)
qed

lemma add_seed_result:
  assumes "add_seed st data source parent cons = Inr (m, st')"
  obtains norm where "normalize_seed data = Inr norm"
    "m = new_metadata source (content_hash norm) (seed_id_of (cs_next_seed_number st)) parent
       (case cons of Some c \<Rightarrow> c | None \<Rightarrow> cs_constraints st)"
    "st' = st\<lparr>cs_next_seed_number := cs_next_seed_number st + 1,
       cs_records := dset (seed_id_of (cs_next_seed_number st)) m (cs_records st),
       cs_unified_seeds := dset (seed_file (seed_id_of (cs_next_seed_number st))) norm (cs_unified_seeds st)\<rparr>"
  using assms by (auto simp: add_seed_def bindE_eq_Inr Let_def)

lemma add_seed_ok:
  assumes "add_seed st data source parent cons = Inr (m, st')" "store_ok st"
  shows "store_ok st'"
proof -
  let ?n = "cs_next_seed_number st"
  obtain norm where st': "st' = st\<lparr>cs_next_seed_number := ?n + 1,
       cs_records := dset (seed_id_of ?n) m (cs_records st),
       cs_unified_seeds := dset (seed_file (seed_id_of ?n)) norm (cs_unified_seeds st)\<rparr>"
    using assms(1) by (rule add_seed_result)
  have n: "0 \<le> ?n" using assms(2) by (simp add: store_ok_def)
  have "i < ?n + 1" if "k \<in> insert (seed_id_of ?n) (fst ` set (cs_records st))" "seed_number k = Some i" for k i
    using that assms(2) sid.number_name [OF n] by (fastforce simp: store_ok_def)
  moreover have "i < ?n + 1"
    if "k \<in> insert (seed_file (seed_id_of ?n)) (fst ` set (cs_unified_seeds st))" "file_number k = Some i" for k i
    using that assms(2) sfile.number_name [OF n] by (fastforce simp: store_ok_def)
  ultimately show ?thesis using n unfolding store_ok_def st' by (simp add: set_dkeys_dset)
qed

lemma discover_ok:
  assumes "store_ok st"
  shows "store_ok (snd (discover_runtime_seeds st runtime))"
proof -
  have "store_ok (snd (discover_step (a, s) e))" if "store_ok s" for a s e
    using that add_seed_ok [OF _ that]
    by (auto simp: discover_step_def split: sum.splits)
  then have "store_ok (snd (foldl discover_step (a, s) es))" if "store_ok s" for a s es
    using that by (induction es arbitrary: a s) (simp, metis foldl_Cons prod.collapse)
  with assms show ?thesis by (simp add: discover_runtime_seeds_def split: option.splits)
qed

text \<open>The states of a store: opened on any metadata and directory, then used.\<close>

inductive corpus_reachable :: "corpus_store \<Rightarrow> bool" where
  opened: "open_store constraints bootstrap seeds = Inr st \<Longrightarrow> corpus_reachable st"
| added: "corpus_reachable st \<Longrightarrow> add_seed st data source parent cons = Inr (m, st') \<Longrightarrow> corpus_reachable st'"
| discovered: "corpus_reachable st \<Longrightarrow> corpus_reachable (snd (discover_runtime_seeds st runtime))"

lemma corpus_reachable_ok: "corpus_reachable st \<Longrightarrow> store_ok st"
  by (induction rule: corpus_reachable.induct) (auto intro: open_store_ok add_seed_ok discover_ok)

text \<open>
  (C30) In every state a corpus can reach, adding a seed takes an identity no record and no file
  has: nothing is overwritten, every other seed reads back unchanged and the new one reads back
  as its normal form.
\<close>

theorem add_seed_fresh:
  assumes "corpus_reachable st" and "add_seed st data source parent cons = Inr (m, st')"
  shows "\<exists>norm. normalize_seed data = Inr norm
    \<and> dget (cs_records st) (seed_id_of (cs_next_seed_number st)) = None
    \<and> dget (cs_unified_seeds st) (seed_file (seed_id_of (cs_next_seed_number st))) = None
    \<and> seed_bytes st' other (seed_id_of (cs_next_seed_number st)) = Inr norm
    \<and> (\<forall>k. k \<noteq> seed_id_of (cs_next_seed_number st) \<longrightarrow>
          dget (cs_records st') k = dget (cs_records st) k \<and> seed_bytes st' other k = seed_bytes st other k)"
proof -
  let ?n = "cs_next_seed_number st"
  have ok: "store_ok st" using assms(1) by (rule corpus_reachable_ok)
  then have n: "0 \<le> ?n" by (simp add: store_ok_def)
  obtain norm where norm: "normalize_seed data = Inr norm"
    and st': "st' = st\<lparr>cs_next_seed_number := ?n + 1,
       cs_records := dset (seed_id_of ?n) m (cs_records st),
       cs_unified_seeds := dset (seed_file (seed_id_of ?n)) norm (cs_unified_seeds st)\<rparr>"
    using assms(2) by (rule add_seed_result)
  have "seed_id_of ?n \<notin> fst ` set (cs_records st)"
    using ok by (intro sid.name_fresh [OF n]) (simp add: store_ok_def)
  moreover have "seed_file (seed_id_of ?n) \<notin> fst ` set (cs_unified_seeds st)"
    using ok by (intro sfile.name_fresh [OF n]) (simp add: store_ok_def)
  moreover have fi: "seed_file k = seed_file l \<longleftrightarrow> k = l" for k l by (simp add: seed_file_def)
  have "dget (cs_records st') k = dget (cs_records st) k \<and> seed_bytes st' other k = seed_bytes st other k"
    if "k \<noteq> seed_id_of ?n" for k
  proof -
    have d: "dget (cs_records st') k = dget (cs_records st) k"
      "dget (cs_unified_seeds st') (seed_file k) = dget (cs_unified_seeds st) (seed_file k)"
      using that by (simp_all add: st' dget_dset fi)
    then show ?thesis unfolding seed_bytes_def by (simp only: d)
  qed
  moreover have "seed_bytes st' other (seed_id_of ?n) = Inr norm" by (simp add: st' seed_bytes_def dget_dset)
  ultimately show ?thesis
    using norm by (simp add: map_of_eq_None_iff [THEN iffD2])
qed

definition demo_store :: corpus_store where
  "demo_store = \<lparr>cs_constraints = [], cs_records = [], cs_next_seed_number = 8,
     cs_unified_seeds = [(''seed-00000007.seed'', ''a,INT,1'' @ [newline])]\<rparr>"

theorem add_seed_fresh_witness:
  "\<exists>norm. normalize_seed demo_seed = Inr norm
    \<and> dget (cs_records demo_store) (seed_id_of 8) = None
    \<and> dget (cs_unified_seeds demo_store) (seed_file (seed_id_of 8)) = None"
proof -
  have "open_store [] [] [(''seed-00000007.seed'', ''a,INT,1'' @ [newline])] = Inr demo_store" by code_simp
  then have r: "corpus_reachable demo_store" by (rule opened)
  have n: "normalize_seed demo_seed = Inr (''0.x,INT,7'' @ [newline] @ ''B,BOOL,1'' @ [newline])" by code_simp
  obtain m st' where a: "add_seed demo_store demo_seed ''Bootstrap'' None None = Inr (m, st')"
    by (simp add: add_seed_def n Let_def)
  have "cs_next_seed_number demo_store = 8" by (simp add: demo_store_def)
  with add_seed_fresh [OF r a, of "[]"] show ?thesis by auto
qed

section \<open>Persisted metadata\<close>

text \<open>The metadata objects the program makes: all fields, in order, an empty value only where the
  declaration's default is that empty value.\<close>

definition metadata_ok :: "seed_metadata \<Rightarrow> bool" where
  "metadata_ok m = list_all2 (\<lambda>kv fd. fst kv = fst fd \<and> (is_compacted (fst kv) (snd kv) \<longrightarrow> snd fd = Some (snd kv)))
     m METADATA_FIELDS"

lemma metadata_fields_distinct: "distinct (map fst METADATA_FIELDS)"
  by code_simp

lemma dget_filter_dict:
  assumes "dict_ok d" "dget d k = Some v"
  shows "dget (filter (\<lambda>(k, v). \<not> is_compacted k v) d) k = (if is_compacted k v then None else Some v)"
  using assms
proof (induction d)
  case (Cons kv d)
  obtain k' v' where kv: "kv = (k', v')" by force
  show ?case
  proof (cases "k' = k")
    case True
    with Cons.prems kv have "v' = v" "k \<notin> fst ` set d" by (auto simp: dict_ok_def)
    then have "dget (filter (\<lambda>(k, v). \<not> is_compacted k v) d) k = None"
      by (auto simp: map_of_eq_None_iff)
    with True kv \<open>v' = v\<close> show ?thesis by simp
  next
    case False
    with Cons kv show ?thesis by (simp add: dict_ok_def)
  qed
qed simp

lemma mapE_list_all2:
  "list_all2 (\<lambda>y x. f x = Inr y) ys xs \<Longrightarrow> mapE f xs = Inr ys"
  by (induction rule: list_all2_induct) simp_all

text \<open>
  The compact form written to the metadata file loses nothing: reading it back restores the
  metadata object, because exactly the default values are left out.
\<close>

theorem compact_metadata_roundtrip:
  assumes "metadata_ok m"
  shows "make_metadata (compact_metadata_dict m) = Inr m"
  unfolding make_metadata_def
proof (rule mapE_list_all2)
  have "dkeys m = map fst METADATA_FIELDS"
    using assms unfolding metadata_ok_def by (intro nth_equalityI) (auto simp: list_all2_conv_all_nth)
  then have ok: "dict_ok m" using metadata_fields_distinct by (simp add: dict_ok_def)
  show "list_all2 (\<lambda>kv fd. field_value (compact_metadata_dict m) fd = Inr kv) m METADATA_FIELDS"
    unfolding list_all2_conv_all_nth
  proof (intro conjI allI impI)
    show "length m = length METADATA_FIELDS" using assms by (simp add: metadata_ok_def list_all2_lengthD)
    fix i assume i: "i < length m"
    obtain k v where kv: "m ! i = (k, v)" by force
    have a: "k = fst (METADATA_FIELDS ! i)" "is_compacted k v \<longrightarrow> snd (METADATA_FIELDS ! i) = Some v"
      using assms i kv by (auto simp: metadata_ok_def list_all2_conv_all_nth)
    have "dget m k = Some v" using ok i kv by (metis dict_ok_def map_of_is_SomeI nth_mem)
    from dget_filter_dict [OF ok this] a kv
    show "field_value (compact_metadata_dict m) (METADATA_FIELDS ! i) = Inr (m ! i)"
      by (simp add: field_value_def compact_metadata_dict_def)
  qed
qed

definition demo_metadata :: seed_metadata where
  "demo_metadata = new_metadata ''Fuzzing'' ''00'' ''seed-00000008'' (Some ''seed-00000001'') [''IF a'']"

theorem compact_metadata_roundtrip_witness:
  "make_metadata (compact_metadata_dict demo_metadata) = Inr demo_metadata"
  by (rule compact_metadata_roundtrip) code_simp

section \<open>Validated seeds\<close>

lemma upper_map_key: "dget (upper_map ps) k = Some p \<Longrightarrow> py_upper (p_name p) = k"
  unfolding upper_map_def by (auto simp: dget_dupdate split: option.splits dest!: map_of_SomeD)

lemma foldE_all:
  assumes "foldE f s xs = Inr t" "x \<in> set xs"
  shows "\<exists>a b. f a x = Inr b"
  using assms by (induction xs arbitrary: s) (auto simp: bindE_eq_Inr)

text \<open>
  A seed that passes validation is returned in normal form; every parameter has a record and
  every record is a parameter's, with its type token and, for an integer, a value in its range.
\<close>

theorem validated_seed_matches:
  assumes "validate_seed_for_params seed params = Inr out"
  shows "\<exists>records. normalize_seed seed = Inr out \<and> parse_seed_lines out = Inr records
    \<and> (\<forall>p \<in> set params. \<exists>(n, t, v) \<in> set records. py_upper (field_name_without_cycle n) = py_upper (p_name p))
    \<and> (\<forall>(n, t, v) \<in> set records. \<exists>p \<in> set params.
        py_upper (field_name_without_cycle n) = py_upper (p_name p) \<and> t = type_token p
        \<and> (case scalar_integer_bounds (p_spec p) of None \<Rightarrow> True
           | Some (lo, hi) \<Rightarrow> \<exists>i. int_base0 v = Some i \<and> lo \<le> i \<and> i \<le> hi))"
proof -
  from assms obtain records seen where r: "normalize_seed seed = Inr out" "parse_seed_lines out = Inr records"
    "foldE (check_seed_record (upper_map params)) [] records = Inr seen"
    and m: "map p_name (filter (\<lambda>p. py_upper (p_name p) \<notin>
        set (map (\<lambda>(n, _, _). py_upper (field_name_without_cycle n)) records)) params) = []"
    by (auto simp: validate_seed_for_params_def bindE_eq_Inr Let_def split: if_splits)
  have "\<exists>(n, t, v) \<in> set records. py_upper (field_name_without_cycle n) = py_upper (p_name p)"
    if "p \<in> set params" for p
    using m that by (force simp: filter_empty_conv)
  moreover have "\<exists>p \<in> set params. py_upper (field_name_without_cycle n) = py_upper (p_name p) \<and> t = type_token p
        \<and> (case scalar_integer_bounds (p_spec p) of None \<Rightarrow> True
           | Some (lo, hi) \<Rightarrow> \<exists>i. int_base0 v = Some i \<and> lo \<le> i \<and> i \<le> hi)"
    if rec: "(n, t, v) \<in> set records" for n t v
  proof -
    let ?k = "py_upper (field_name_without_cycle n)"
    obtain a b where c: "check_seed_record (upper_map params) a (n, t, v) = Inr b"
      using foldE_all [OF r(3) rec] by blast
    then obtain p where p: "dget (upper_map params) ?k = Some p"
      by (cases "dget (upper_map params) ?k") (simp_all add: check_seed_record_def)
    then have t: "t = type_token p" and v: "check_seed_value (p_spec p) n v = Inr ()"
      using c by (auto simp: check_seed_record_def res_simps Let_def)
    have k: "py_upper (p_name p) = ?k" using p by (rule upper_map_key)
    have "case scalar_integer_bounds (p_spec p) of None \<Rightarrow> True
        | Some (lo, hi) \<Rightarrow> \<exists>i. int_base0 v = Some i \<and> lo \<le> i \<and> i \<le> hi"
    proof (cases "scalar_integer_bounds (p_spec p)")
      case (Some b)
      then have "ts_kind (p_spec p) = ''scalar''" "ts_name (p_spec p) \<notin> {''REAL'', ''LREAL''}"
        by (auto simp: scalar_integer_bounds_def split: if_splits)
      with v Some show ?thesis
        by (cases b; cases "int_base0 v") (simp_all add: check_seed_value_def check_scalar_def res_simps)
    qed simp
    with t k [symmetric] show ?thesis by (intro bexI [OF _ upper_map_some [OF p]] conjI)
  qed
  ultimately show ?thesis using r by (intro exI [of _ records]) blast
qed

theorem validated_seed_matches_witness:
  "\<exists>records. parse_seed_lines (''X,INT,-7'' @ [newline]) = Inr records
    \<and> (\<forall>p \<in> set [demo_x]. \<exists>(n, t, v) \<in> set records. py_upper (field_name_without_cycle n) = py_upper (p_name p))"
proof -
  have "validate_seed_for_params '' X, int,-7'' [demo_x] = Inr (''X,INT,-7'' @ [newline])" by code_simp
  from validated_seed_matches [OF this] show ?thesis by auto
qed

end
