(* ===== verification/Llm_Plan.thy ===== *)
theory Llm_Plan
  imports Corpus_Store
begin

text \<open>
  The planner's language of \<open>fuzzer/llm/plan.py\<close>: normalization of the spellings a model response
  may use, validation against the interface, batch validation, and the expansion of a plan into
  frames. Plans are JSON values; a raised exception is \<open>Inl\<close>, \<open>Rejected\<close> for \<open>PlanRejected\<close>.
\<close>

section \<open>Errors and constants\<close>

datatype reason =
    PlanIdRequired
  | ContractIdRequired
  | ActionsNotList
  | UnknownPlanFields
  | TaskIdMismatch
  | BadPriority
  | EvidenceNotStrings
  | EvidenceNotAllowed
  | SuggestedNotStrings
  | SuggestedNotControllable string
  | NotAnInteger string
  | ActionNotObject
  | UnknownOp
  | UnknownActionFields
  | InputsNotObject
  | UnknownInput string
  | ValueOutsideDomain string
  | SetFramesNotOne
  | UnknownPulseInput
  | PulseInputNotBool
  | RepeatTimesRange
  | RepeatActionsEmpty
  | StartFromNotObject
  | NotAbstracted
  | BadPrefixId
  | PrefixUnreachable

datatype rejection =
    Reasons "reason list"
  | NotAnObject
  | NestingExceeded
  | FrameCountExceeded
  | BatchShape
  | BatchContract
  | BatchSize
  | MissingPlanFields
  | PlanContract
  | UnknownTask
  | DuplicatePlan

datatype plan_error = Rejected rejection | Raised string

definition OPS :: "string list" where
  "OPS = [''set'', ''pulse'', ''hold'', ''wait'', ''repeat'']"

definition MAX_FRAMES :: int where
  "MAX_FRAMES = 512"

definition MAX_REPEAT_DEPTH :: nat where
  "MAX_REPEAT_DEPTH = 8"

definition PLAN_KEYS :: "string list" where
  "PLAN_KEYS = [''plan'', ''steps'', ''sequence'', ''actions'', ''plan_id'', ''task_id'', ''contract_id'',
     ''intent'', ''evidence_refs'', ''start_from'', ''suggested_symbolic_fields'', ''priority'', ''prompt_version'']"

section \<open>Normalization\<close>

fun normalize_value :: "json \<Rightarrow> json" where
  "normalize_value (JBool b) = JInt (if b then 1 else 0)"
| "normalize_value v = v"

text \<open>The items of \<open>for raw in value or []\<close>.\<close>

definition iter_or_empty :: "json \<Rightarrow> plan_error + json list" where
  "iter_or_empty v =
     (if \<not> truthy v then Inr []
      else case v of
        JList xs \<Rightarrow> Inr xs
      | JStr s \<Rightarrow> Inr (map (\<lambda>c. JStr [c]) s)
      | JObj d \<Rightarrow> Inr (map JStr (dkeys d))
      | _ \<Rightarrow> Inl (Raised ''TypeError''))"

definition restrict_keys :: "string list \<Rightarrow> (string, json) dict \<Rightarrow> (string, json) dict" where
  "restrict_keys ks d = pick d ks"

text \<open>The wrapper spellings \<open>plan\<close>, \<open>steps\<close> and \<open>sequence\<close>: the first key that holds a list or an
  object is merged into the plan.\<close>

definition is_wrapper :: "(string, json) dict \<Rightarrow> string \<Rightarrow> bool" where
  "is_wrapper plan key = (is_list (jget plan key) \<or> is_obj (jget plan key))"

definition unwrap_plan :: "(string, json) dict \<Rightarrow> (string, json) dict" where
  "unwrap_plan plan =
     (case find (is_wrapper plan) [''plan'', ''steps'', ''sequence''] of
        None \<Rightarrow> plan
      | Some key \<Rightarrow>
        (case jget plan key of
           JObj nested \<Rightarrow>
             if dmem ''actions'' nested
             then dupdate (dupdate plan nested)
                    (restrict_keys [''plan_id'', ''task_id'', ''contract_id'', ''prompt_version''] plan)
             else plan
         | JList nested \<Rightarrow> dset ''actions'' (JList nested) plan
         | _ \<Rightarrow> plan))"

definition duration_frames :: "(string, json) dict \<Rightarrow> json" where
  "duration_frames action =
     (let frames = (if jget action ''frames'' = JNull then jget action ''duration'' else jget action ''frames'') in
      case frames of JObj d \<Rightarrow> jget_or d ''cycles'' (JInt 1) | _ \<Rightarrow> frames)"

definition or_one :: "json \<Rightarrow> json" where
  "or_one v = (if v = JNull then JInt 1 else v)"

definition normalize_set :: "(string, json) dict \<Rightarrow> (string, json) dict" where
  "normalize_set action =
     (let inputs = obj_of (jget action ''inputs'');
          inputs' = (if dmem ''field'' action \<and> dmem ''value'' action
                     then dset (py_str (jget action ''field'')) (normalize_value (jget action ''value'')) inputs
                     else inputs);
          a1 = dset ''inputs'' (JObj (map (\<lambda>(k, v). (k, normalize_value v)) inputs')) action;
          a2 = dpop ''value'' (dpop ''field'' a1) in
      dpop ''duration'' (dset ''frames'' (or_one (duration_frames a2)) a2))"

definition normalize_pulse :: "(string, json) dict \<Rightarrow> (string, json) dict" where
  "normalize_pulse action =
     (let a1 = (if \<not> dmem ''input'' action \<and> dmem ''field'' action
                then dset ''input'' (jget action ''field'') action else action);
          a2 = (if \<not> dmem ''input'' a1 \<and> obj_of (jget a1 ''inputs'') \<noteq> []
                then dset ''input'' (JStr (fst (hd (obj_of (jget a1 ''inputs''))))) a1 else a1) in
      dpop ''inputs'' (dpop ''value'' (dpop ''field'' a2)))"

definition normalize_wait :: "(string, json) dict \<Rightarrow> (string, json) dict" where
  "normalize_wait action =
     (let frames = duration_frames action;
          frames' = (if frames = JNull \<and> is_obj (jget action ''inputs'')
                     then jget_or (obj_of (jget action ''inputs'')) ''cycles'' (JInt 1) else frames) in
      dpop ''inputs'' (dpop ''duration'' (dset ''frames'' (or_one frames') action)))"

text \<open>One action; \<open>nested\<close> normalizes the actions of a repeat, one level down.\<close>

definition normalize_action :: "((string, json) dict \<Rightarrow> plan_error + (string, json) dict) \<Rightarrow> json \<Rightarrow>
    plan_error + json" where
  "normalize_action nested raw = (case raw of
     JObj a0 \<Rightarrow>
       (let op = jor (jget a0 ''op'') (jget a0 ''action'');
            action = dpop ''action'' (dset ''op'' op a0) in
        if op = JStr ''set'' \<or> op = JStr ''hold'' then Inr (JObj (normalize_set action))
        else if op = JStr ''pulse'' then Inr (JObj (normalize_pulse action))
        else if op = JStr ''wait'' then Inr (JObj (normalize_wait action))
        else if op = JStr ''repeat'' then
          (let a1 = (if \<not> dmem ''times'' action \<and> dmem ''count'' action
                     then dset ''times'' (jget action ''count'') action else action);
               a2 = dpop ''count'' a1 in
           bindE (nested [(''actions'', jor (jget a2 ''actions'') (JList []))]) (\<lambda>p.
             Inr (JObj (dset ''actions'' (jget_or p ''actions'' (JList [])) a2))))
        else Inr (JObj action))
   | _ \<Rightarrow> Inr raw)"

text \<open>\<open>fuel\<close> is the number of levels left, \<open>MAX_REPEAT_DEPTH + 1 - _depth\<close>.\<close>

fun normalize_levels :: "nat \<Rightarrow> (string, json) dict \<Rightarrow> plan_error + (string, json) dict" where
  "normalize_levels 0 plan = Inl (Rejected NestingExceeded)"
| "normalize_levels (Suc n) plan =
     (let plan' = unwrap_plan plan in
      bindE (iter_or_empty (jget plan' ''actions'')) (\<lambda>raws.
      bindE (mapE (normalize_action (normalize_levels n)) raws) (\<lambda>actions.
        Inr (dset ''actions'' (JList actions) plan'))))"

definition normalize_plan :: "json \<Rightarrow> plan_error + json" where
  "normalize_plan plan = (case plan of
     JObj d \<Rightarrow> bindE (normalize_levels (MAX_REPEAT_DEPTH + 1) d) (\<lambda>p. Inr (JObj p))
   | _ \<Rightarrow> Inr plan)"

section \<open>The interface of a plan\<close>

text \<open>The interface comes as exchange JSON (its frame and shared field entries) or as the ABI object.\<close>

datatype plan_abi = AbiDict "json list" "json list" | AbiTarget target_abi

definition opt_str :: "string option \<Rightarrow> json" where
  "opt_str v = (case v of None \<Rightarrow> JNull | Some s \<Rightarrow> JStr s)"

definition opt_int :: "int option \<Rightarrow> json" where
  "opt_int v = (case v of None \<Rightarrow> JNull | Some s \<Rightarrow> JInt s)"

definition target_entry :: "param \<Rightarrow> plan_error + (string \<times> (string, json) dict)" where
  "target_entry p = (let s = p_spec p in
     case byte_size s of
       Inl e \<Rightarrow> Inl (Raised ''AbiError'')
     | Inr b \<Rightarrow> Inr (p_name p, [(''name'', JStr (p_name p)), (''spec'', JObj
         [(''kind'', JStr (ts_kind s)), (''name'', JStr (ts_name s)), (''size'', JInt (ts_size s)),
          (''c_type'', opt_str (ts_c_type s)), (''length'', opt_int (ts_length s)),
          (''count'', opt_int (ts_count s)), (''byte_size'', JInt b)])]))"

text \<open>An exchange entry is an object whose name, when present, is text.\<close>

definition json_entry :: "json \<Rightarrow> plan_error + (string, json) dict" where
  "json_entry e = (case e of
     JObj d \<Rightarrow> if jget d ''name'' = JNull \<or> is_str (jget d ''name'') then Inr d else Inl (Raised ''AbiName'')
   | _ \<Rightarrow> Inl (Raised ''AttributeError''))"

definition field_map :: "plan_abi \<Rightarrow> plan_error + (string, (string, json) dict) dict" where
  "field_map abi = (case abi of
     AbiTarget t \<Rightarrow> bindE (mapE target_entry (frame_action_params t)) (\<lambda>es. Inr (dict_of es))
   | AbiDict frame_fields shared_fields \<Rightarrow>
       bindE (mapE json_entry frame_fields) (\<lambda>fs.
       bindE (mapE json_entry shared_fields) (\<lambda>ss.
       let seen = map (\<lambda>d. jget d ''name'') fs;
           extra = filter (\<lambda>d. jget d ''block_kind'' = JStr ''VAR_IN_OUT'' \<and> jget d ''name'' \<notin> set seen) ss in
       Inr (dict_of (map (\<lambda>d. (str_of (jget d ''name''), d))
              (filter (\<lambda>d. truthy (jget d ''name'')) (fs @ extra)))))))"

definition entry_spec :: "(string, json) dict \<Rightarrow> plan_error + (string, json) dict" where
  "entry_spec entry = (case dget entry ''spec'' of
     Some (JObj s) \<Rightarrow> Inr s | None \<Rightarrow> Inl (Raised ''KeyError'') | _ \<Rightarrow> Inl (Raised ''AttributeError''))"

text \<open>\<open>int(value)\<close>; a float truncates toward zero.\<close>

definition float_trunc :: "string \<Rightarrow> int option" where
  "float_trunc r = (case parse_float r of
     Some (Decimal m e) \<Rightarrow>
       (let (p, q) = to_double (if e \<ge> 0 then (m * 10 ^ nat e, 1) else (m, 10 ^ nat (- e))) in
        Some (fst (split_sign r) * (p div q)))
   | _ \<Rightarrow> None)"

fun py_int :: "json \<Rightarrow> int option" where
  "py_int (JInt i) = Some i"
| "py_int (JBool b) = Some (if b then 1 else 0)"
| "py_int (JStr s) = int_base10 s"
| "py_int (JFloat r) = float_trunc r"
| "py_int _ = None"

definition int_or_raise :: "json \<Rightarrow> plan_error + int" where
  "int_or_raise v = (case py_int v of Some i \<Rightarrow> Inr i | None \<Rightarrow> Inl (Raised ''int''))"

definition UNSIGNED_PLAN_TYPES :: "string list" where
  "UNSIGNED_PLAN_TYPES = [''USINT'', ''BYTE'', ''UINT'', ''WORD'', ''UDINT'', ''DWORD'', ''ULINT'', ''LWORD'']"

fun is_number :: "json \<Rightarrow> bool" where
  "is_number (JInt i) = True"
| "is_number (JFloat r) = True"
| "is_number _ = False"

definition int_value_ok :: "(string, json) dict \<Rightarrow> string \<Rightarrow> json \<Rightarrow> plan_error + bool" where
  "int_value_ok spec name value = (case value of
     JInt i \<Rightarrow>
       bindE (int_or_raise (jor (jget spec ''size'') (JInt 1))) (\<lambda>sz.
       let bits = nat sz * 8;
           c_type = (if truthy (jget spec ''c_type'') then py_str (jget spec ''c_type'') else []);
           unsigned = (starts_with ''u'' c_type \<or> name \<in> set UNSIGNED_PLAN_TYPES) in
       Inr (if unsigned then 0 \<le> i \<and> i \<le> 2 ^ bits - 1
            else - (2 ^ (bits - 1)) \<le> i \<and> i \<le> 2 ^ (bits - 1) - 1))
   | _ \<Rightarrow> Inr False)"

definition value_ok :: "(string, json) dict \<Rightarrow> json \<Rightarrow> plan_error + bool" where
  "value_ok spec value =
     (let kind = jget spec ''kind'' in
      if kind = JStr ''string'' then
        (case value of
           JStr s \<Rightarrow> (let capacity = jor (jget spec ''length'') (jget spec ''capacity'') in
             if capacity = JNull then Inr True
             else bindE (int_or_raise capacity) (\<lambda>c. Inr (int (length s) \<le> c)))
         | _ \<Rightarrow> Inr False)
      else if kind = JStr ''pointer'' then
        (case value of JStr s \<Rightarrow> Inr (s = [] \<or> starts_with ''0x'' s \<or> starts_with ''0X'' s) | _ \<Rightarrow> Inr False)
      else if kind = JStr ''array'' then
        (case value of
           JStr s \<Rightarrow>
             if \<not> starts_with ''0x'' (py_lower s) then Inr False
             else bindE (int_or_raise (jor (jor (jget spec ''byte_size'') (jget spec ''size'')) (JInt 0))) (\<lambda>b.
               let digits = drop 2 s in
               Inr (length digits mod 2 = 0 \<and> list_all is_hex_digit digits
                    \<and> (b = 0 \<or> int (length digits div 2) \<le> b)))
         | _ \<Rightarrow> Inr False)
      else if kind \<noteq> JStr ''scalar'' then Inr (is_str value \<or> is_number value)
      else let name = py_str (jget spec ''name'') in
        if name = ''BOOL'' then Inr (eq_int value 0 \<or> eq_int value 1)
        else if name \<in> {''REAL'', ''LREAL''} then Inr (is_number value)
        else int_value_ok spec name value)"

section \<open>Validation\<close>

text \<open>\<open>integer(value, label)\<close>: the value, or no value and a reason.\<close>

definition integer :: "json \<Rightarrow> string \<Rightarrow> int option \<times> reason list" where
  "integer value label = (case value of
     JInt i \<Rightarrow> if i < 1 then (None, [NotAnInteger label]) else (Some i, [])
   | _ \<Rightarrow> (None, [NotAnInteger label]))"

definition or_zero :: "int option \<Rightarrow> int" where
  "or_zero v = (case v of None \<Rightarrow> 0 | Some i \<Rightarrow> i)"

type_synonym fields = "(string, (string, json) dict) dict"

definition check_input :: "fields \<Rightarrow> string \<times> json \<Rightarrow> plan_error + reason list" where
  "check_input fs nv = (case dget fs (fst nv) of
     None \<Rightarrow> Inr [UnknownInput (fst nv)]
   | Some entry \<Rightarrow>
     bindE (entry_spec entry) (\<lambda>spec.
     bindE (value_ok spec (snd nv)) (\<lambda>ok. Inr (if ok then [] else [ValueOutsideDomain (fst nv)]))))"

definition check_set :: "fields \<Rightarrow> bool \<Rightarrow> (string, json) dict \<Rightarrow> plan_error + (int \<times> reason list)" where
  "check_set fs is_set action = (case jget_or action ''inputs'' (JObj []) of
     JObj inputs \<Rightarrow>
       bindE (mapE (check_input fs) inputs) (\<lambda>rss.
         if is_set then
           Inr (1, concat rss @ (if eq_int (jget_or action ''frames'' (JInt 1)) 1 then [] else [SetFramesNotOne]))
         else let (n, rs) = integer (jget action ''frames'') ''hold frames'' in Inr (or_zero n, concat rss @ rs))
   | _ \<Rightarrow> Inr (0, [InputsNotObject]))"

definition check_pulse :: "fields \<Rightarrow> (string, json) dict \<Rightarrow> plan_error + (int \<times> reason list)" where
  "check_pulse fs action =
     (let name = jget action ''input'' in
      if \<not> hashable name then Inl (Raised ''TypeError'')
      else case (case name of JStr s \<Rightarrow> dget fs s | _ \<Rightarrow> None) of
        None \<Rightarrow> Inr (2, [UnknownPulseInput])
      | Some entry \<Rightarrow>
        bindE (entry_spec entry) (\<lambda>spec.
          Inr (2, if jget spec ''name'' = JStr ''BOOL'' then [] else [PulseInputNotBool])))"

definition ACTION_KEYS :: "string list" where
  "ACTION_KEYS = [''op'', ''inputs'', ''input'', ''frames'', ''times'', ''actions'']"

lemma size_nested: "jget d k = JList xs \<Longrightarrow> size_list size xs < size_list (size_prod (\<lambda>x. 0) size) d"
  using size_jget [of d k "JList xs"] by simp

function check_action :: "fields \<Rightarrow> json \<Rightarrow> plan_error + (int \<times> reason list)"
  and check_actions :: "fields \<Rightarrow> json list \<Rightarrow> plan_error + (int \<times> reason list)" where
  "check_action fs action = (case action of
     JObj a \<Rightarrow>
       (let op = jget a ''op'';
            extra = (if set (dkeys a) \<subseteq> set ACTION_KEYS then [] else [UnknownActionFields]) in
        if \<not> hashable op then Inl (Raised ''TypeError'')
        else if op \<notin> JStr ` set OPS then Inr (0, [UnknownOp])
        else bindE
          (if op = JStr ''set'' \<or> op = JStr ''hold'' then check_set fs (op = JStr ''set'') a
           else if op = JStr ''pulse'' then check_pulse fs a
           else if op = JStr ''wait'' then
             (let (n, rs) = integer (jget a ''frames'') ''wait frames'' in Inr (or_zero n, rs))
           else
             (let (times, rs) = integer (jget a ''times'') ''repeat times'';
                  rs' = (if 64 < or_zero times then [RepeatTimesRange] else []) in
              (case jget a ''actions'' of
                 JList nested \<Rightarrow>
                   bindE (check_actions fs nested) (\<lambda>(c, rn).
                     Inr (or_zero times * c, rs @ rs' @ (if nested = [] then [RepeatActionsEmpty] else []) @ rn))
               | _ \<Rightarrow> Inr (0, rs @ rs' @ [RepeatActionsEmpty]))))
          (\<lambda>(c, rs). Inr (c, extra @ rs)))
   | _ \<Rightarrow> Inr (0, [ActionNotObject]))"
| "check_actions fs [] = Inr (0, [])"
| "check_actions fs (x # xs) =
     bindE (check_action fs x) (\<lambda>(c, rs). bindE (check_actions fs xs) (\<lambda>(c', rs'). Inr (c + c', rs @ rs')))"
  by pat_completeness auto
termination
  by (relation "measure (case_sum (\<lambda>(_, a). size a) (\<lambda>(_, xs). size (JList xs)))")
    (auto dest: size_nested)

declare check_action.simps [simp del]

text \<open>The loop over the plan's actions: the frame count is checked after every action.\<close>

fun check_total :: "fields \<Rightarrow> int \<Rightarrow> int \<Rightarrow> json list \<Rightarrow> plan_error + (int \<times> reason list)" where
  "check_total fs max_frames tot [] = Inr (tot, [])"
| "check_total fs max_frames tot (x # xs) =
     bindE (check_action fs x) (\<lambda>(c, rs).
       if max_frames < tot + c then Inl (Rejected FrameCountExceeded)
       else bindE (check_total fs max_frames (tot + c) xs) (\<lambda>(t, rs'). Inr (t, rs @ rs')))"

definition is_blank :: "json \<Rightarrow> bool" where
  "is_blank v = (case v of JStr s \<Rightarrow> strip s = [] | _ \<Rightarrow> True)"

definition string_list :: "json \<Rightarrow> bool" where
  "string_list v = (case v of JList xs \<Rightarrow> list_all is_str xs | _ \<Rightarrow> False)"

record plan_request =
  rq_contract_id :: "string option"
  rq_task_id :: "string option"
  rq_abstraction_fields :: "string list option"
  rq_allowed_evidence_refs :: "string list option"
  rq_reachable_prefix_ids :: "string list option"
  rq_max_frames :: int

definition check_metadata :: "plan_request \<Rightarrow> (string, json) dict \<Rightarrow> reason list" where
  "check_metadata rq plan =
     (if is_blank (jget plan ''plan_id'') then [PlanIdRequired] else [])
     @ (if rq_contract_id rq \<notin> {None, Some []} \<and> is_blank (jget plan ''contract_id'') then [ContractIdRequired] else [])
     @ (if is_list (jget plan ''actions'') \<and> list_of (jget plan ''actions'') \<noteq> [] then [] else [ActionsNotList])
     @ (if set (dkeys plan) \<subseteq> set PLAN_KEYS then [] else [UnknownPlanFields])
     @ (case rq_task_id rq of None \<Rightarrow> [] | Some t \<Rightarrow> if jget plan ''task_id'' = JStr t then [] else [TaskIdMismatch])
     @ (case jget plan ''priority'' of
          JNull \<Rightarrow> [] | JInt i \<Rightarrow> (if 1 \<le> i \<and> i \<le> 100 then [] else [BadPriority]) | _ \<Rightarrow> [BadPriority])"

definition check_evidence :: "plan_request \<Rightarrow> (string, json) dict \<Rightarrow> plan_error + reason list" where
  "check_evidence rq plan =
     (let refs = jget_or plan ''evidence_refs'' (JList []) in
      if refs \<noteq> JNull \<and> \<not> string_list refs then Inr [EvidenceNotStrings]
      else case rq_allowed_evidence_refs rq of
        None \<Rightarrow> Inr []
      | Some allowed \<Rightarrow>
        if refs = JNull then Inl (Raised ''TypeError'')
        else Inr (if set (map str_of (list_of refs)) \<subseteq> set allowed then [] else [EvidenceNotAllowed]))"

definition check_suggested :: "fields \<Rightarrow> (string, json) dict \<Rightarrow> reason list" where
  "check_suggested fs plan =
     (let sugg = jget_or plan ''suggested_symbolic_fields'' (JList []) in
      if sugg = JNull then []
      else if \<not> string_list sugg then [SuggestedNotStrings]
      else map SuggestedNotControllable (filter (\<lambda>n. \<not> dmem n fs) (map str_of (list_of sugg))))"

definition check_start :: "plan_request \<Rightarrow> (string, json) dict \<Rightarrow> plan_error + reason list" where
  "check_start rq plan = (case jget plan ''start_from'' of
     JNull \<Rightarrow> Inr []
   | JObj start \<Rightarrow>
       bindE (case rq_abstraction_fields rq of
           None \<Rightarrow> Inr []
         | Some abstracted \<Rightarrow>
           if start = [] then Inr []
           else bindE (iter_or_empty (jget start ''prefer_abstraction'')) (\<lambda>names.
             if list_all hashable names
             then Inr (map (\<lambda>_. NotAbstracted) (filter (\<lambda>n. n \<notin> JStr ` set abstracted) names))
             else Inl (Raised ''TypeError''))) (\<lambda>rs.
       Inr (rs @ (if \<not> dmem ''prefix_id'' start then []
                  else if is_blank (jget start ''prefix_id'') then [BadPrefixId]
                  else case rq_reachable_prefix_ids rq of
                    None \<Rightarrow> []
                  | Some ids \<Rightarrow> if str_of (jget start ''prefix_id'') \<in> set ids then [] else [PrefixUnreachable])))
   | _ \<Rightarrow> Inr [StartFromNotObject])"

definition validate_plan :: "plan_request \<Rightarrow> plan_abi \<Rightarrow> json \<Rightarrow> plan_error + (string, json) dict" where
  "validate_plan rq abi raw =
     bindE (normalize_plan raw) (\<lambda>np. case np of
       JObj plan \<Rightarrow>
         bindE (field_map abi) (\<lambda>fs.
         bindE (check_evidence rq plan) (\<lambda>ev.
         bindE (check_total fs (rq_max_frames rq) 0 (list_of (jget plan ''actions''))) (\<lambda>(tot, ar).
         bindE (check_start rq plan) (\<lambda>sr.
         let reasons = check_metadata rq plan @ ev @ check_suggested fs plan @ ar @ sr in
           if reasons \<noteq> [] then Inl (Rejected (Reasons reasons)) else Inr plan))))
     | _ \<Rightarrow> Inl (Rejected NotAnObject))"

section \<open>Batches\<close>

text \<open>A planning task as the batch validator reads it: the names it offers.\<close>

record task_offer =
  to_abstraction_fields :: "string list"
  to_evidence_refs :: "string list"
  to_reachable_prefix_ids :: "string list"

definition REQUIRED_PLAN_FIELDS :: "string list" where
  "REQUIRED_PLAN_FIELDS = [''plan_id'', ''task_id'', ''contract_id'', ''evidence_refs'',
     ''suggested_symbolic_fields'', ''actions'']"

definition plan_key :: "json \<Rightarrow> (string, json) dict \<Rightarrow> string" where
  "plan_key task_id plan = dumps (JObj [(''task_id'', task_id), (''start_from'', jget plan ''start_from''),
     (''actions'', jget plan ''actions'')])"

definition admit_plan :: "plan_abi \<Rightarrow> string option \<Rightarrow> (string, task_offer) dict \<Rightarrow> int \<Rightarrow> string list \<Rightarrow> json \<Rightarrow>
    plan_error + (string \<times> (string, json) dict)" where
  "admit_plan abi contract_id tasks max_frames seen raw = (case raw of
     JObj d \<Rightarrow>
       if \<not> set REQUIRED_PLAN_FIELDS \<subseteq> set (dkeys d) then Inl (Rejected MissingPlanFields)
       else if jget d ''contract_id'' \<noteq> opt_str contract_id then Inl (Rejected PlanContract)
       else (case (case jget d ''task_id'' of JStr t \<Rightarrow> dget tasks t | _ \<Rightarrow> None) of
         None \<Rightarrow> Inl (Rejected UnknownTask)
       | Some task \<Rightarrow>
         bindE (validate_plan \<lparr>rq_contract_id = contract_id, rq_task_id = Some (str_of (jget d ''task_id'')),
                  rq_abstraction_fields = Some (to_abstraction_fields task),
                  rq_allowed_evidence_refs = Some (to_evidence_refs task),
                  rq_reachable_prefix_ids = Some (to_reachable_prefix_ids task),
                  rq_max_frames = max_frames\<rparr> abi raw) (\<lambda>plan.
         let key = plan_key (jget d ''task_id'') plan in
         if key \<in> set seen then Inl (Rejected DuplicatePlan) else Inr (key, plan)))
   | _ \<Rightarrow> Inl (Rejected NotAnObject))"

record batch_state =
  bs_seen :: "string list"
  bs_accepted :: "(string, json) dict list"
  bs_rejected :: "(nat \<times> json \<times> rejection) list"

definition batch_step :: "plan_abi \<Rightarrow> string option \<Rightarrow> (string, task_offer) dict \<Rightarrow> int \<Rightarrow> batch_state \<Rightarrow>
    nat \<times> json \<Rightarrow> plan_error + batch_state" where
  "batch_step abi contract_id tasks max_frames st ir =
     (case admit_plan abi contract_id tasks max_frames (bs_seen st) (snd ir) of
        Inr (key, plan) \<Rightarrow> Inr (st\<lparr>bs_seen := bs_seen st @ [key], bs_accepted := bs_accepted st @ [plan]\<rparr>)
      | Inl (Rejected r) \<Rightarrow> Inr (st\<lparr>bs_rejected := bs_rejected st @ [(fst ir, snd ir, r)]\<rparr>)
      | Inl (Raised e) \<Rightarrow> Inl (Raised e))"

definition validate_plan_batch :: "json \<Rightarrow> plan_abi \<Rightarrow> string option \<Rightarrow> (string, task_offer) dict \<Rightarrow>
    string list \<Rightarrow> int \<Rightarrow> int \<Rightarrow> plan_error + batch_state" where
  "validate_plan_batch batch abi contract_id tasks seen max_plans max_frames = (case batch of
     JObj d \<Rightarrow>
       if set (dkeys d) \<noteq> {''contract_id'', ''plans''} then Inl (Rejected BatchShape)
       else if jget d ''contract_id'' \<noteq> opt_str contract_id then Inl (Rejected BatchContract)
       else (case jget d ''plans'' of
         JList plans \<Rightarrow>
           if 1 \<le> length plans \<and> int (length plans) \<le> max_plans then
             foldE (batch_step abi contract_id tasks max_frames)
               \<lparr>bs_seen = seen, bs_accepted = [], bs_rejected = []\<rparr> (zip [0..<length plans] plans)
           else Inl (Rejected BatchSize)
       | _ \<Rightarrow> Inl (Rejected BatchSize))
   | _ \<Rightarrow> Inl (Rejected BatchShape))"

section \<open>Expansion\<close>

type_synonym frame_values = "(string, string) dict"

text \<open>The expansion state: the frames so far and the current values.\<close>

type_synonym expansion = "frame_values list \<times> frame_values"

definition apply_inputs :: "json \<Rightarrow> frame_values \<Rightarrow> plan_error + frame_values" where
  "apply_inputs inputs current =
     (if \<not> truthy inputs then Inr current
      else case inputs of
        JObj d \<Rightarrow> Inr (dupdate current (map (\<lambda>(k, v). (k, py_str (normalize_value v))) d))
      | _ \<Rightarrow> Inl (Raised ''AttributeError''))"

fun repeatE :: "nat \<Rightarrow> ('s \<Rightarrow> 'e + 's) \<Rightarrow> 's \<Rightarrow> 'e + 's" where
  "repeatE 0 f s = Inr s"
| "repeatE (Suc n) f s = bindE (f s) (repeatE n f)"

lemma repeatE_cong [fundef_cong]:
  "m = n \<Longrightarrow> (\<And>s. f s = g s) \<Longrightarrow> s = t \<Longrightarrow> repeatE m f s = repeatE n g t"
  by (metis ext)

definition hold_frames :: "json \<Rightarrow> expansion \<Rightarrow> plan_error + expansion" where
  "hold_frames count st =
     bindE (int_or_raise (jor count (JInt 1))) (\<lambda>n. Inr (fst st @ replicate (nat n) (snd st), snd st))"

definition run_pulse :: "json \<Rightarrow> expansion \<Rightarrow> plan_error + expansion" where
  "run_pulse name st = (case name of
     JStr n \<Rightarrow> (let low = dset n ''0'' (snd st); high = dset n ''1'' (snd st) in
       Inr (fst st @ [low, high], dupdate (snd st) high))
   | _ \<Rightarrow> Inl (Raised ''KeyError''))"

function run_action :: "json \<Rightarrow> expansion \<Rightarrow> plan_error + expansion"
  and run_actions :: "json list \<Rightarrow> expansion \<Rightarrow> plan_error + expansion" where
  "run_action action st = (case action of
     JObj a \<Rightarrow>
       (case dget a ''op'' of
          None \<Rightarrow> Inl (Raised ''KeyError'')
        | Some op \<Rightarrow>
          if op = JStr ''set'' then
            bindE (apply_inputs (jget a ''inputs'') (snd st)) (\<lambda>cur. Inr (fst st @ [cur], cur))
          else if op = JStr ''pulse'' then run_pulse (jget a ''input'') st
          else if op = JStr ''hold'' then
            bindE (apply_inputs (jget a ''inputs'') (snd st)) (\<lambda>cur. hold_frames (jget a ''frames'') (fst st, cur))
          else if op = JStr ''wait'' then hold_frames (jget a ''frames'') st
          else if op = JStr ''repeat'' then
            bindE (int_or_raise (jor (jget a ''times'') (JInt 1))) (\<lambda>n.
            (case jget a ''actions'' of
               JList nested \<Rightarrow> repeatE (nat n) (run_actions nested) st
             | v \<Rightarrow> if truthy v \<and> 0 < n then Inl (Raised ''TypeError'') else Inr st))
          else Inr st)
   | _ \<Rightarrow> Inl (Raised ''TypeError''))"
| "run_actions [] st = Inr st"
| "run_actions (x # xs) st = bindE (run_action x st) (run_actions xs)"
  by pat_completeness auto
termination
  by (relation "measure (case_sum (\<lambda>(a, _). size a) (\<lambda>(xs, _). size (JList xs)))")
    (auto dest: size_nested)

declare run_action.simps [simp del]

definition spec_default :: "string \<times> (string, json) dict \<Rightarrow> plan_error + (string \<times> string)" where
  "spec_default ne = bindE (entry_spec (snd ne)) (\<lambda>spec.
     Inr (fst ne, default_for_spec (str_of (jget spec ''kind'')) (str_of (jget spec ''name''))))"

definition expand_plan :: "json \<Rightarrow> frame_values \<Rightarrow> plan_abi \<Rightarrow> int \<Rightarrow> plan_error + frame_values list" where
  "expand_plan raw base_frame abi max_frames =
     bindE (normalize_plan raw) (\<lambda>np. case np of
       JObj plan \<Rightarrow>
         bindE (field_map abi) (\<lambda>fs.
         bindE (mapE spec_default fs) (\<lambda>defaults.
         bindE (run_actions (list_of (jget plan ''actions'')) ([], dupdate defaults base_frame)) (\<lambda>(frames, _).
           if max_frames < int (length frames) then Inl (Rejected FrameCountExceeded) else Inr frames)))
     | _ \<Rightarrow> Inl (Raised ''AttributeError''))"

section \<open>Accepted actions\<close>

text \<open>What an action without reasons looks like, operation by operation.\<close>

inductive accepted :: "fields \<Rightarrow> (string, json) dict \<Rightarrow> int \<Rightarrow> bool" for fs where
  acc_set: "jget a ''op'' = JStr (if is_set then ''set'' else ''hold'') \<Longrightarrow> check_set fs is_set a = Inr (c, [])
    \<Longrightarrow> accepted fs a c"
| acc_pulse: "jget a ''op'' = JStr ''pulse'' \<Longrightarrow> check_pulse fs a = Inr (c, []) \<Longrightarrow> accepted fs a c"
| acc_wait: "jget a ''op'' = JStr ''wait'' \<Longrightarrow> jget a ''frames'' = JInt c \<Longrightarrow> 1 \<le> c \<Longrightarrow> accepted fs a c"
| acc_repeat: "jget a ''op'' = JStr ''repeat'' \<Longrightarrow> jget a ''times'' = JInt n \<Longrightarrow> 1 \<le> n \<Longrightarrow> n \<le> 64
    \<Longrightarrow> jget a ''actions'' = JList nested \<Longrightarrow> nested \<noteq> [] \<Longrightarrow> check_actions fs nested = Inr (c, [])
    \<Longrightarrow> accepted fs a (n * c)"

lemma integer_ok: "integer v l = (r, []) \<longleftrightarrow> (\<exists>i. v = JInt i \<and> 1 \<le> i \<and> r = Some i)"
  by (auto simp: integer_def split: json.splits if_splits)

lemma accepted_iff:
  "check_action fs (JObj a) = Inr (c, []) \<longleftrightarrow> set (dkeys a) \<subseteq> set ACTION_KEYS \<and> accepted fs a c"
proof -
  define op where "op = jget a ''op''"
  consider "op = JStr ''set''" | "op = JStr ''hold''" | "op = JStr ''pulse''" | "op = JStr ''wait''"
    | "op = JStr ''repeat''" | "op \<notin> JStr ` set OPS"
    by (auto simp: OPS_def)
  then show ?thesis
  proof cases
    case 1
    then show ?thesis unfolding op_def
      by (auto simp: check_action.simps Let_def OPS_def accepted.simps bindE_eq_Inr)
  next
    case 2
    then show ?thesis unfolding op_def
      by (auto simp: check_action.simps Let_def OPS_def accepted.simps bindE_eq_Inr)
  next
    case 3
    then show ?thesis unfolding op_def
      by (auto simp: check_action.simps Let_def OPS_def accepted.simps bindE_eq_Inr split: if_splits)
  next
    case 4
    obtain n rs where i: "integer (jget a ''frames'') ''wait frames'' = (n, rs)" by force
    show ?thesis using 4 i integer_ok [of "jget a ''frames''" "''wait frames''" n] unfolding op_def
      by (auto simp: check_action.simps Let_def OPS_def accepted.simps or_zero_def integer_def split: if_splits)
  next
    case 5
    show ?thesis
    proof (cases "\<exists>i. jget a ''times'' = JInt i \<and> 1 \<le> i")
      case True
      then obtain i where i: "jget a ''times'' = JInt i" "1 \<le> i" by blast
      with 5 show ?thesis unfolding op_def
        by (cases "jget a ''actions''")
          (auto simp: check_action.simps Let_def OPS_def accepted.simps or_zero_def integer_def bindE_eq_Inr
            split: if_splits)
    next
      case False
      obtain n rs where i: "integer (jget a ''times'') ''repeat times'' = (n, rs)" by force
      with False integer_ok [of "jget a ''times''" "''repeat times''" n] have "rs \<noteq> []" by auto
      with 5 i False show ?thesis unfolding op_def
        by (cases "jget a ''actions''")
          (auto simp: check_action.simps Let_def OPS_def accepted.simps bindE_eq_Inr)
    qed
  next
    case 6
    then show ?thesis unfolding op_def
      by (auto simp: check_action.simps Let_def accepted.simps OPS_def)
  qed
qed

lemma check_action_obj: "check_action fs x = Inr (c, []) \<Longrightarrow> \<exists>a. x = JObj a"
  by (cases x) (simp_all add: check_action.simps)

lemma accepted_op: "accepted fs a c \<Longrightarrow> \<exists>op. jget a ''op'' = JStr op \<and> op \<noteq> [] \<and> dget a ''op'' = Some (JStr op)"
  by (erule accepted.cases) (auto simp: jget_def split: option.splits if_splits)

lemma check_set_cost: "check_set fs b a = Inr (c, []) \<Longrightarrow> 1 \<le> c"
  by (auto simp: check_set_def bindE_eq_Inr integer_def or_zero_def split: json.splits if_splits prod.splits)

lemma check_pulse_cost: "check_pulse fs a = Inr (c, rs) \<Longrightarrow> c = 2"
  by (auto simp: check_pulse_def Let_def bindE_eq_Inr split: if_splits option.splits)

section \<open>Running an accepted action\<close>

text \<open>Every frame assigns names of \<open>D\<close> only.\<close>

definition names_in :: "string set \<Rightarrow> expansion \<Rightarrow> bool" where
  "names_in D st = ((\<forall>f \<in> set (fst st). fst ` set f \<subseteq> D) \<and> fst ` set (snd st) \<subseteq> D)"

definition runs :: "string set \<Rightarrow> (expansion \<Rightarrow> plan_error + expansion) \<Rightarrow> int \<Rightarrow> bool" where
  "runs D f c = (\<forall>st. names_in D st \<longrightarrow> (\<exists>st'. f st = Inr st' \<and> names_in D st'
     \<and> int (length (fst st')) = int (length (fst st)) + c))"

lemma runsE:
  assumes "runs D f c" "names_in D st"
  obtains st' where "f st = Inr st'" "names_in D st'" "int (length (fst st')) = int (length (fst st)) + c"
  using assms unfolding runs_def by blast

lemma runs_repeat: "runs D f c \<Longrightarrow> runs D (repeatE n f) (int n * c)"
proof (induction n)
  case (Suc n)
  show ?case unfolding runs_def
  proof (intro allI impI)
    fix st assume "names_in D st"
    with Suc.prems obtain s1 where s1: "f st = Inr s1" "names_in D s1"
      "int (length (fst s1)) = int (length (fst st)) + c" by (rule runsE)
    from Suc.IH [OF Suc.prems] s1(2) obtain s2 where "repeatE n f s1 = Inr s2" "names_in D s2"
      "int (length (fst s2)) = int (length (fst s1)) + int n * c" by (rule runsE)
    with s1 show "\<exists>st'. repeatE (Suc n) f st = Inr st' \<and> names_in D st'
        \<and> int (length (fst st')) = int (length (fst st)) + int (Suc n) * c"
      by (auto simp: algebra_simps)
  qed
qed (simp add: runs_def)

lemma check_inputs_names:
  assumes "mapE (check_input fs) inputs = Inr rss" "concat rss = []"
  shows "fst ` set inputs \<subseteq> fst ` set fs"
  using assms
proof (induction inputs arbitrary: rss)
  case (Cons nv inputs)
  then obtain rs rss' where r: "check_input fs nv = Inr rs" "mapE (check_input fs) inputs = Inr rss'" "rss = rs # rss'"
    by (auto simp: bindE_eq_Inr)
  with Cons.prems have "check_input fs nv = Inr []" "concat rss' = []" by simp_all
  moreover from this(1) have "dget fs (fst nv) \<noteq> None" by (auto simp: check_input_def split: option.splits)
  ultimately show ?case using Cons.IH [OF r(2)] by (simp add: map_of_eq_None_iff)
qed simp

lemma run_set:
  assumes "check_set fs is_set a = Inr (c, [])" "fst ` set fs \<subseteq> D" "names_in D st"
  obtains cur where "apply_inputs (jget a ''inputs'') (snd st) = Inr cur" "fst ` set cur \<subseteq> D"
proof -
  from assms(1) obtain inputs rss where i: "jget_or a ''inputs'' (JObj []) = JObj inputs"
    "mapE (check_input fs) inputs = Inr rss" "concat rss = []"
    by (auto simp: check_set_def bindE_eq_Inr split: json.splits if_splits prod.splits)
  have n: "fst ` set inputs \<subseteq> D" using check_inputs_names [OF i(2,3)] assms(2) by blast
  have st: "fst ` set (snd st) \<subseteq> D" using assms(3) by (simp add: names_in_def)
  show ?thesis
  proof (cases "dget a ''inputs''")
    case None
    then show ?thesis using that [of "snd st"] st by (simp add: apply_inputs_def jget_def)
  next
    case (Some v)
    with i(1) have v: "jget a ''inputs'' = JObj inputs" by (simp add: jget_or_def jget_def)
    let ?cur = "dupdate (snd st) (map (\<lambda>(k, v). (k, py_str (normalize_value v))) inputs)"
    have "fst ` (\<lambda>(k, v). (k, py_str (normalize_value v))) ` set inputs = fst ` set inputs" by force
    then have "fst ` set ?cur \<subseteq> D" using n st by (simp add: set_dkeys_dupdate)
    with v st show ?thesis using that [of ?cur] that [of "snd st"] by (cases "inputs = []") (simp_all add: apply_inputs_def)
  qed
qed

lemma runs_set:
  assumes "jget a ''op'' = JStr (if is_set then ''set'' else ''hold'')" "check_set fs is_set a = Inr (c, [])"
    "fst ` set fs \<subseteq> D"
  shows "runs D (run_action (JObj a)) c"
  unfolding runs_def
proof (intro allI impI)
  fix st assume st: "names_in D st"
  obtain cur where cur: "apply_inputs (jget a ''inputs'') (snd st) = Inr cur" "fst ` set cur \<subseteq> D"
    using assms(2,3) st by (rule run_set)
  have op: "dget a ''op'' = Some (JStr (if is_set then ''set'' else ''hold''))"
    using assms(1) by (auto simp: jget_def split: option.splits)
  show "\<exists>st'. run_action (JObj a) st = Inr st' \<and> names_in D st' \<and> int (length (fst st')) = int (length (fst st)) + c"
  proof (cases is_set)
    case True
    with assms(2) have "c = 1" by (auto simp: check_set_def bindE_eq_Inr split: json.splits)
    with True op cur st show ?thesis by (simp add: run_action.simps names_in_def)
  next
    case False
    with assms(2) have c: "jget a ''frames'' = JInt c" "1 \<le> c"
      by (auto simp: check_set_def bindE_eq_Inr integer_def or_zero_def split: json.splits prod.splits if_splits)
    with False op cur st show ?thesis
      by (simp add: run_action.simps names_in_def hold_frames_def jor_def int_or_raise_def)
  qed
qed

lemma runs_pulse:
  assumes "jget a ''op'' = JStr ''pulse''" "check_pulse fs a = Inr (c, [])" "fst ` set fs \<subseteq> D"
  shows "runs D (run_action (JObj a)) c"
proof -
  have op: "dget a ''op'' = Some (JStr ''pulse'')"
    using assms(1) by (auto simp: jget_def split: option.splits)
  obtain n where n: "jget a ''input'' = JStr n" "dget fs n \<noteq> None"
    using assms(2) by (auto simp: check_pulse_def Let_def bindE_eq_Inr split: if_splits json.splits option.splits)
  then have "n \<in> D" using assms(3) by (auto simp: map_of_eq_None_iff)
  with op n(1) check_pulse_cost [OF assms(2)] show ?thesis
    by (simp add: runs_def run_action.simps run_pulse_def names_in_def set_dkeys_dset set_dkeys_dupdate Let_def)
qed

lemma runs_accepted:
  assumes "fst ` set fs \<subseteq> D"
  shows "check_action fs x = Inr (c, []) \<Longrightarrow> runs D (run_action x) c"
    and "check_actions fs xs = Inr (c, []) \<Longrightarrow> runs D (run_actions xs) c"
  using assms
proof (induction fs x and fs xs arbitrary: c and c rule: check_action_check_actions.induct)
  case (1 fs x)
  obtain a where a: "x = JObj a" using check_action_obj [OF "1.prems"(1)] by blast
  with "1.prems" have "accepted fs a c" by (simp add: accepted_iff)
  then show ?case
  proof cases
    case (acc_set is_set)
    then show ?thesis unfolding a using "1.prems"(2) by (intro runs_set)
  next
    case acc_pulse
    then show ?thesis unfolding a using "1.prems"(2) by (intro runs_pulse)
  next
    case acc_wait
    then have "dget a ''op'' = Some (JStr ''wait'')" by (auto simp: jget_def split: option.splits)
    with acc_wait show ?thesis unfolding a
      by (auto simp: runs_def run_action.simps names_in_def hold_frames_def jor_def int_or_raise_def)
  next
    case (acc_repeat n nested c')
    obtain t rs where i: "integer (jget a ''times'') ''repeat times'' = (t, rs)" by force
    have "runs D (run_actions nested) c'"
      using acc_repeat by (intro "1.IH" [OF a refl refl _ _ _ _ _ i [symmetric] refl refl]) 
        (simp_all add: "1.prems"(2) OPS_def)
    from runs_repeat [OF this, of "nat n"] acc_repeat have r: "runs D (repeatE (nat n) (run_actions nested)) c" by simp
    have "dget a ''op'' = Some (JStr ''repeat'')" using acc_repeat by (auto simp: jget_def split: option.splits)
    then have "run_action (JObj a) = repeatE (nat n) (run_actions nested)"
      using acc_repeat by (intro ext) (simp add: run_action.simps int_or_raise_def jor_def)
    with r show ?thesis unfolding a by simp
  qed
next
  case (2 fs)
  then show ?case by (simp add: runs_def)
next
  case (3 fs x xs)
  then obtain c1 c2 where c: "check_action fs x = Inr (c1, [])" "check_actions fs xs = Inr (c2, [])" "c = c1 + c2"
    by (auto simp: bindE_eq_Inr)
  have x: "runs D (run_action x) c1" "runs D (run_actions xs) c2"
    using "3.IH"(1) [OF c(1)] "3.IH"(2) [OF c(1) refl c(2)] "3.prems"(2) by simp_all
  show ?case unfolding runs_def
  proof (intro allI impI)
    fix st assume "names_in D st"
    with x(1) obtain s1 where s1: "run_action x st = Inr s1" "names_in D s1"
      "int (length (fst s1)) = int (length (fst st)) + c1" by (rule runsE)
    with x(2) obtain s2 where "run_actions xs s1 = Inr s2" "names_in D s2"
      "int (length (fst s2)) = int (length (fst s1)) + c2" by (metis runsE)
    with s1 c(3) show "\<exists>st'. run_actions (x # xs) st = Inr st' \<and> names_in D st'
        \<and> int (length (fst st')) = int (length (fst st)) + c" by simp
  qed
qed

section \<open>Normalizing an accepted plan again\<close>

lemma dset_same: "dget d k = Some v \<Longrightarrow> dset k v d = d"
  by (induction d) auto

lemma dpop_absent: "k \<notin> fst ` set d \<Longrightarrow> dpop k d = d"
  by (force simp: dpop_def filter_id_conv)

lemma dkeys_dpop: "fst ` set (dpop k d) = fst ` set d - {k}"
  by (auto simp: dpop_def)

lemma jget_or_dset [simp]: "jget_or (dset k v d) k' w = (if k' = k then v else jget_or d k' w)"
  by (simp add: jget_or_def dget_dset)

lemma jget_or_dpop [simp]: "k' \<noteq> k \<Longrightarrow> jget_or (dpop k d) k' w = jget_or d k' w"
  by (induction d) (auto simp: jget_or_def dpop_def)

lemma absent_jget: "k \<notin> fst ` set d \<Longrightarrow> jget d k = JNull"
  by (simp add: jget_def map_of_eq_None_iff [THEN iffD2])

lemma value_ok_normalize: "value_ok spec v = Inr True \<Longrightarrow> value_ok spec (normalize_value v) = Inr True"
  by (cases v) (auto simp: value_ok_def int_value_ok_def Let_def split: if_splits)

lemma check_inputs_normalize:
  assumes "mapE (check_input fs) inputs = Inr rss" "concat rss = []"
  shows "mapE (check_input fs) (map (\<lambda>(k, v). (k, normalize_value v)) inputs) = Inr (map (\<lambda>_. []) inputs)"
  using assms
proof (induction inputs arbitrary: rss)
  case (Cons nv inputs)
  then obtain rs rss' where r: "check_input fs nv = Inr rs" "mapE (check_input fs) inputs = Inr rss'" "rss = rs # rss'"
    by (auto simp: bindE_eq_Inr)
  with Cons.prems have r': "check_input fs nv = Inr []" "concat rss' = []" by simp_all
  obtain k v where nv: "nv = (k, v)" by force
  from r'(1) nv obtain e spec where "dget fs k = Some e" "entry_spec e = Inr spec" "value_ok spec v = Inr True"
    by (auto simp: check_input_def bindE_eq_Inr split: option.splits if_splits)
  then have "check_input fs (k, normalize_value v) = Inr []"
    using value_ok_normalize by (simp add: check_input_def)
  with Cons.IH [OF r(2) r'(2)] nv show ?case by simp
qed simp

lemma concat_empties [simp]: "concat (map (\<lambda>_. []) xs) = []"
  by (induction xs) auto

text \<open>The keys the normalization looks for beside the accepted ones.\<close>

lemma accepted_keys:
  assumes "set (dkeys a) \<subseteq> set ACTION_KEYS"
  shows "''action'' \<notin> fst ` set a" "''field'' \<notin> fst ` set a" "''value'' \<notin> fst ` set a"
    "''duration'' \<notin> fst ` set a" "''count'' \<notin> fst ` set a"
  using assms by (auto simp: ACTION_KEYS_def)

lemma normalize_set_accepted:
  assumes "set (dkeys a) \<subseteq> set ACTION_KEYS" "check_set fs is_set a = Inr (c, [])"
  shows "check_set fs is_set (normalize_set a) = Inr (c, []) \<and> set (dkeys (normalize_set a)) \<subseteq> set ACTION_KEYS
    \<and> jget (normalize_set a) ''op'' = jget a ''op''"
proof -
  note k = accepted_keys [OF assms(1)]
  from assms(2) obtain inputs rss where i: "jget_or a ''inputs'' (JObj []) = JObj inputs"
    "mapE (check_input fs) inputs = Inr rss" "concat rss = []"
    by (auto simp: check_set_def bindE_eq_Inr split: json.splits if_splits prod.splits)
  have o: "obj_of (jget a ''inputs'') = inputs"
    using i(1) by (auto simp: jget_def jget_or_def split: option.splits)
  define b where "b = dset ''inputs'' (JObj (map (\<lambda>(k, v). (k, normalize_value v)) inputs)) a"
  have kb: "fst ` set b = insert ''inputs'' (fst ` set a)" by (simp add: b_def set_dkeys_dset)
  have fr: "(if is_set then eq_int (jget_or a ''frames'' (JInt 1)) 1 \<and> c = 1 else jget a ''frames'' = JInt c \<and> 1 \<le> c)"
    using assms(2) i by (auto simp: check_set_def integer_def or_zero_def split: json.splits if_splits)
  have jd: "jget b ''duration'' = JNull" using k(4) by (simp add: b_def absent_jget)
  have jf: "jget b ''frames'' = jget a ''frames''" by (simp add: b_def)
  have "\<not> is_obj (jget a ''frames'')"
    using fr by (cases "dget a ''frames''"; cases "jget a ''frames''") (auto simp: jget_or_def jget_def split: if_splits)
  then have d: "duration_frames b = jget b ''frames''"
    unfolding duration_frames_def Let_def jd jf by (cases "jget a ''frames''") simp_all
  have ns: "normalize_set a = dset ''frames'' (or_one (jget b ''frames'')) b"
    using k kb by (simp add: normalize_set_def Let_def o dmem_def b_def [symmetric] dpop_absent set_dkeys_dset d)
  have "eq_int (or_one (jget b ''frames'')) 1" if is_set
    using that fr by (auto simp: b_def or_one_def jget_def jget_or_def split: option.splits)
  moreover have "or_one (jget b ''frames'') = JInt c \<and> 1 \<le> c" if "\<not> is_set"
    using that fr by (simp add: b_def or_one_def)
  ultimately have "check_set fs is_set (normalize_set a) = Inr (c, [])"
    unfolding ns check_set_def using check_inputs_normalize [OF i(2,3)] fr
    by (cases is_set) (simp_all add: b_def integer_def or_zero_def)
  moreover have "set (dkeys (normalize_set a)) \<subseteq> set ACTION_KEYS"
    using assms(1) kb unfolding ns by (simp add: set_dkeys_dset ACTION_KEYS_def)
  ultimately show ?thesis unfolding ns by (simp add: b_def)
qed

lemma normalize_pulse_accepted:
  assumes "set (dkeys a) \<subseteq> set ACTION_KEYS" "check_pulse fs a = Inr (c, [])"
  shows "check_pulse fs (normalize_pulse a) = Inr (c, []) \<and> set (dkeys (normalize_pulse a)) \<subseteq> set ACTION_KEYS
    \<and> jget (normalize_pulse a) ''op'' = jget a ''op''"
proof -
  obtain n where "jget a ''input'' = JStr n"
    using assms(2) by (auto simp: check_pulse_def Let_def split: if_splits json.splits option.splits)
  then have "dmem ''input'' a" by (auto simp: dmem_iff jget_def split: option.splits)
  then have n: "normalize_pulse a = dpop ''inputs'' a"
    using accepted_keys [OF assms(1)] by (simp add: normalize_pulse_def dpop_absent)
  then show ?thesis using assms by (auto simp: check_pulse_def dkeys_dpop)
qed

lemma normalize_wait_accepted:
  assumes "set (dkeys a) \<subseteq> set ACTION_KEYS" "jget a ''frames'' = JInt c"
  shows "jget (normalize_wait a) ''frames'' = JInt c \<and> set (dkeys (normalize_wait a)) \<subseteq> set ACTION_KEYS
    \<and> jget (normalize_wait a) ''op'' = jget a ''op''"
  using assms by (auto simp: normalize_wait_def duration_frames_def Let_def or_one_def dkeys_dpop set_dkeys_dset ACTION_KEYS_def)

lemma unwrap_none: "\<forall>k \<in> {''plan'', ''steps'', ''sequence''}. \<not> is_wrapper d k \<Longrightarrow> unwrap_plan d = d"
  by (simp add: unwrap_plan_def)

lemma normalize_levels_actions:
  "normalize_levels (Suc n) [(''actions'', JList xs)]
   = bindE (mapE (normalize_action (normalize_levels n)) xs) (\<lambda>ys. Inr [(''actions'', JList ys)])"
proof -
  have "unwrap_plan [(''actions'', JList xs)] = [(''actions'', JList xs)]"
    by (rule unwrap_none) (simp add: is_wrapper_def jget_def)
  then show ?thesis by (simp add: jget_def iter_or_empty_def)
qed

text \<open>The actions of a repeat come out of one normalization level below.\<close>

lemma normalize_repeat_inv:
  assumes "normalize_action (normalize_levels n) (JObj a0) = Inr (JObj a)" "jget a ''op'' = JStr ''repeat''"
  shows "\<exists>m raws nested. n = Suc m \<and> jget a ''actions'' = JList nested
    \<and> mapE (normalize_action (normalize_levels m)) raws = Inr nested"
proof -
  let ?op = "jor (jget a0 ''op'') (jget a0 ''action'')"
  let ?a = "dpop ''action'' (dset ''op'' (JStr ''repeat'') a0)"
  have op: "?op = JStr ''repeat''"
  proof (rule ccontr)
    assume "?op \<noteq> JStr ''repeat''"
    then have "jget a ''op'' = ?op"
      using assms(1) by (auto simp: normalize_action_def Let_def normalize_set_def normalize_pulse_def
          normalize_wait_def split: if_splits)
    with \<open>?op \<noteq> JStr ''repeat''\<close> assms(2) show False by simp
  qed
  let ?a1 = "if \<not> dmem ''times'' ?a \<and> dmem ''count'' ?a then dset ''times'' (jget ?a ''count'') ?a else ?a"
  obtain p where p: "normalize_levels n [(''actions'', jor (jget (dpop ''count'' ?a1) ''actions'') (JList []))] = Inr p"
    and a: "a = dset ''actions'' (jget_or p ''actions'' (JList [])) (dpop ''count'' ?a1)"
    using assms(1) unfolding normalize_action_def json.case op Let_def
    by (simp only: json.inject list.inject char.inject simp_thms if_False if_True) (auto simp: bindE_eq_Inr)
  from p obtain m where m: "n = Suc m" by (cases n) simp_all
  let ?acts = "[(''actions'', jor (jget (dpop ''count'' ?a1) ''actions'') (JList []))]"
  have "unwrap_plan ?acts = ?acts" by (rule unwrap_none) (simp add: is_wrapper_def jget_def)
  with p m obtain raws nested where "mapE (normalize_action (normalize_levels m)) raws = Inr nested"
    "p = dset ''actions'' (JList nested) ?acts"
    by (auto simp: bindE_eq_Inr Let_def)
  moreover from this(2) a have "jget a ''actions'' = JList nested" by (simp add: jget_or_def)
  ultimately show ?thesis using m by blast
qed

lemma renormalize_action:
  assumes ih: "\<And>m raws as c. n = Suc m \<Longrightarrow> mapE (normalize_action (normalize_levels m)) raws = Inr as
      \<Longrightarrow> check_actions fs as = Inr (c, [])
      \<Longrightarrow> \<exists>bs. mapE (normalize_action (normalize_levels m)) as = Inr bs \<and> check_actions fs bs = Inr (c, [])"
    and "normalize_action (normalize_levels n) raw = Inr x" "check_action fs x = Inr (c, [])"
  shows "\<exists>y. normalize_action (normalize_levels n) x = Inr y \<and> check_action fs y = Inr (c, [])"
proof -
  obtain a where a: "x = JObj a" using check_action_obj [OF assms(3)] by blast
  with assms(3) have acc: "set (dkeys a) \<subseteq> set ACTION_KEYS" "accepted fs a c" by (simp_all add: accepted_iff)
  obtain op where op: "jget a ''op'' = JStr op" "op \<noteq> []" "dget a ''op'' = Some (JStr op)"
    using accepted_op [OF acc(2)] by blast
  have a0: "dpop ''action'' (dset ''op'' (jor (jget a ''op'') (jget a ''action'')) a) = a"
    using op accepted_keys(1) [OF acc(1)] by (simp add: jor_def dset_same dpop_absent)
  have jo: "jor (jget a ''op'') (jget a ''action'') = JStr op" using op by (simp add: jor_def)
  from acc(2) show ?thesis
  proof cases
    case (acc_set is_set)
    with normalize_set_accepted [OF acc(1) acc_set(2)] have "check_action fs (JObj (normalize_set a)) = Inr (c, [])"
      by (simp add: accepted_iff accepted.acc_set [of _ is_set])
    moreover have "normalize_action (normalize_levels n) x = Inr (JObj (normalize_set a))"
      using acc_set(1) op(1) jo unfolding a normalize_action_def json.case Let_def a0 by (auto split: if_splits)
    ultimately show ?thesis by blast
  next
    case acc_pulse
    with normalize_pulse_accepted [OF acc(1) acc_pulse(2)] have "check_action fs (JObj (normalize_pulse a)) = Inr (c, [])"
      by (simp add: accepted_iff accepted.acc_pulse)
    moreover have "normalize_action (normalize_levels n) x = Inr (JObj (normalize_pulse a))"
      using acc_pulse(1) op(1) jo unfolding a normalize_action_def json.case Let_def a0 by simp
    ultimately show ?thesis by blast
  next
    case acc_wait
    with normalize_wait_accepted [OF acc(1) acc_wait(2)] have "check_action fs (JObj (normalize_wait a)) = Inr (c, [])"
      by (simp add: accepted_iff accepted.acc_wait)
    moreover have "normalize_action (normalize_levels n) x = Inr (JObj (normalize_wait a))"
      using acc_wait(1) op(1) jo unfolding a normalize_action_def json.case Let_def a0 by simp
    ultimately show ?thesis by blast
  next
    case (acc_repeat k nested c')
    obtain ra where ra: "raw = JObj ra" using assms(2) a by (cases raw) (simp_all add: normalize_action_def)
    from normalize_repeat_inv [OF assms(2) [unfolded ra a] acc_repeat(2)] acc_repeat(6)
    obtain m raws where m: "n = Suc m" "mapE (normalize_action (normalize_levels m)) raws = Inr nested" by auto
    from ih [OF m acc_repeat(8)] obtain bs where bs: "mapE (normalize_action (normalize_levels m)) nested = Inr bs"
      "check_actions fs bs = Inr (c', [])" by blast
    have t: "dmem ''times'' a" using acc_repeat(3) by (auto simp: dmem_iff jget_def split: option.splits)
    have "normalize_action nst (JObj a) = bindE (nst [(''actions'', JList nested)]) (\<lambda>p.
        Inr (JObj (dset ''actions'' (jget_or p ''actions'' (JList [])) a)))" for nst
      using acc_repeat(2,6,7) op(1) jo t accepted_keys(5) [OF acc(1)]
      unfolding normalize_action_def json.case Let_def a0
      by (simp add: dpop_absent jor_def)
    then have "normalize_action (normalize_levels n) x = Inr (JObj (dset ''actions'' (JList bs) a))"
      unfolding a m(1) by (simp only: normalize_levels_actions bs(1) bindE_Inr) (simp add: jget_or_def)
    moreover have "length bs = length nested" using mapE_eq_Inr_length [OF bs(1)] .
    then have "accepted fs (dset ''actions'' (JList bs) a) (k * c')"
      using acc_repeat bs(2) by (intro accepted.acc_repeat [of _ k bs]) auto
    then have "check_action fs (JObj (dset ''actions'' (JList bs) a)) = Inr (c, [])"
      using acc(1) acc_repeat(1) by (simp add: accepted_iff set_dkeys_dset ACTION_KEYS_def)
    ultimately show ?thesis by blast
  qed
qed

lemma renormalize_actions:
  "mapE (normalize_action (normalize_levels n)) raws = Inr as \<Longrightarrow> check_actions fs as = Inr (c, [])
   \<Longrightarrow> \<exists>bs. mapE (normalize_action (normalize_levels n)) as = Inr bs \<and> check_actions fs bs = Inr (c, [])"
proof (induction n arbitrary: raws as c rule: less_induct)
  case (less n)
  have ih: "\<exists>bs. mapE (normalize_action (normalize_levels m)) as' = Inr bs \<and> check_actions fs bs = Inr (c', [])"
    if "n = Suc m" "mapE (normalize_action (normalize_levels m)) raws' = Inr as'" "check_actions fs as' = Inr (c', [])"
    for m raws' as' c'
    using less.IH [of m raws' as' c'] that by simp
  from less.prems show ?case
  proof (induction raws arbitrary: as c)
    case (Cons raw raws)
    then obtain x xs c1 c2 where x: "normalize_action (normalize_levels n) raw = Inr x"
      "mapE (normalize_action (normalize_levels n)) raws = Inr xs" "as = x # xs"
      "check_action fs x = Inr (c1, [])" "check_actions fs xs = Inr (c2, [])" "c = c1 + c2"
      by (auto simp: bindE_eq_Inr)
    have "\<exists>y. normalize_action (normalize_levels n) x = Inr y \<and> check_action fs y = Inr (c1, [])"
      by (rule renormalize_action [OF _ x(1,4)]) (rule ih)
    with Cons.IH [OF x(2,5)] x(3,6) show ?case
      by (auto simp: bindE_eq_Inr)
  qed simp
qed

section \<open>From validation to frames\<close>

lemma check_total_sum:
  "check_total fs mx t0 xs = Inr (t, rs) \<Longrightarrow> t0 \<le> mx
   \<Longrightarrow> check_actions fs xs = Inr (t - t0, rs) \<and> t \<le> mx"
proof (induction xs arbitrary: t0 rs)
  case (Cons x xs)
  then obtain c r1 r2 where "check_action fs x = Inr (c, r1)" "t0 + c \<le> mx"
    "check_total fs mx (t0 + c) xs = Inr (t, r2)" "rs = r1 @ r2"
    by (auto simp: bindE_eq_Inr split: if_splits)
  with Cons.IH [of "t0 + c" r2] show ?case by (auto simp: bindE_eq_Inr)
qed simp

lemma accepted_plan:
  assumes "validate_plan rq abi (JObj raw) = Inr plan" "0 \<le> rq_max_frames rq"
  obtains fs c where "normalize_levels (MAX_REPEAT_DEPTH + 1) raw = Inr plan" "field_map abi = Inr fs"
    "check_actions fs (list_of (jget plan ''actions'')) = Inr (c, [])" "c \<le> rq_max_frames rq"
    "list_of (jget plan ''actions'') \<noteq> []"
proof -
  from assms(1) obtain fs ev t ar sr where a: "normalize_levels (MAX_REPEAT_DEPTH + 1) raw = Inr plan"
    "field_map abi = Inr fs"
    "check_total fs (rq_max_frames rq) 0 (list_of (jget plan ''actions'')) = Inr (t, ar)"
    and r: "check_metadata rq plan @ ev @ check_suggested fs plan @ ar @ sr = []"
    unfolding validate_plan_def normalize_plan_def
    by (auto simp: bindE_eq_Inr Let_def split: if_splits)
  have "ar = []" using r by simp
  with check_total_sum [OF a(3) assms(2)] have "check_actions fs (list_of (jget plan ''actions'')) = Inr (t, [])"
    "t \<le> rq_max_frames rq" by simp_all
  moreover have "list_of (jget plan ''actions'') \<noteq> []" using r by (auto simp: check_metadata_def split: if_splits)
  ultimately show ?thesis using a that by blast
qed

lemma dict_of_mem: "set (dict_of kvs) \<subseteq> set kvs"
proof -
  have "set (dupdate d kvs) \<subseteq> set d \<union> set kvs" for d :: "('a, 'b) dict"
  proof (induction kvs arbitrary: d)
    case (Cons kv kvs)
    have "set (dupdate d (kv # kvs)) \<subseteq> set (dset (fst kv) (snd kv) d) \<union> set kvs" using Cons by simp
    then show ?case using set_dset [of "fst kv" "snd kv" d] by auto
  qed simp
  from this [of "[]"] show ?thesis by simp
qed

lemma target_entry_spec: "target_entry p = Inr ne \<Longrightarrow> \<exists>d. spec_default ne = Inr (p_name p, d) \<and> fst ne = p_name p"
  by (auto simp: target_entry_def Let_def spec_default_def entry_spec_def split: sum.splits)

lemma target_fields:
  assumes "field_map (AbiTarget t) = Inr fs"
  shows "\<exists>ds. mapE spec_default fs = Inr ds \<and> fst ` set ds = fst ` set fs"
    and "fst ` set fs = p_name ` set (frame_action_params t)"
proof -
  from assms obtain es where es: "mapE target_entry (frame_action_params t) = Inr es" "fs = dict_of es"
    by (auto simp: field_map_def bindE_eq_Inr)
  have "fst ` set es = p_name ` set ps \<and> (\<forall>ne \<in> set es. \<exists>d. spec_default ne = Inr (fst ne, d))"
    if "mapE target_entry ps = Inr es" for ps es
    using that
  proof (induction ps arbitrary: es)
    case (Cons p ps)
    then obtain ne es' where e: "target_entry p = Inr ne" "mapE target_entry ps = Inr es'" "es = ne # es'"
      by (auto simp: bindE_eq_Inr)
    from target_entry_spec [OF e(1)] obtain d where d: "spec_default ne = Inr (fst ne, d)" "fst ne = p_name p" by metis
    from Cons.IH [OF e(2)] d show ?case unfolding e(3) by simp
  qed simp
  from this [OF es(1)] have e: "fst ` set es = p_name ` set (frame_action_params t)"
    "\<forall>ne \<in> set es. \<exists>d. spec_default ne = Inr (fst ne, d)" by blast+
  then show "fst ` set fs = p_name ` set (frame_action_params t)" by (simp add: es(2) set_dkeys_dupdate)
  have "set fs \<subseteq> set es" by (simp add: es(2) dict_of_mem)
  with e(2) have "\<forall>ne \<in> set fs. \<exists>d. spec_default ne = Inr (fst ne, d)" by blast
  then obtain g where "\<forall>ne \<in> set fs. spec_default ne = Inr (fst ne, g ne)" by (rule bchoice [THEN exE])
  then have "mapE spec_default fs = Inr (map (\<lambda>ne. (fst ne, g ne)) fs)" by (intro mapE_total) blast
  then show "\<exists>ds. mapE spec_default fs = Inr ds \<and> fst ` set ds = fst ` set fs" by force
qed

text \<open>The actions of an unwrapped plan are those of its wrapper, whatever the plan's own actions are.\<close>

lemma restricted_no_actions:
  "dget (rev (restrict_keys [''plan_id'', ''task_id'', ''contract_id'', ''prompt_version''] d)) ''actions'' = None"
  by (auto simp: restrict_keys_def pick_def map_of_eq_None_iff split: option.splits)

lemma unwrap_actions:
  "jget (unwrap_plan (dset ''actions'' v d)) ''actions'' \<in> {v, jget (unwrap_plan d) ''actions''}"
proof -
  define ks where "ks = [''plan'', ''steps'', ''sequence'']"
  note unwrap = unwrap_plan_def [folded ks_def]
  have w: "is_wrapper (dset ''actions'' v d) k = is_wrapper d k"
    if "k \<in> set ks" for k
    using that by (auto simp: ks_def is_wrapper_def)
  then have f: "find (is_wrapper (dset ''actions'' v d)) ks = find (is_wrapper d) ks" by (intro find_cong) auto
  show ?thesis
  proof (cases "find (is_wrapper d) ks")
    case None
    then show ?thesis by (simp add: unwrap f)
  next
    case (Some k)
    then have "k \<in> set ks" by (auto simp: find_Some_iff)
    then have k: "k \<noteq> ''actions''" by (auto simp: ks_def)
    show ?thesis
    proof (cases "jget d k")
      case (JObj nested)
      have n: "dget (rev nested) ''actions'' \<noteq> None" if "dmem ''actions'' nested"
        using that by (simp add: dmem_def map_of_eq_None_iff)
      have "jget (dupdate (dupdate d' nested) (restrict_keys [''plan_id'', ''task_id'', ''contract_id'', ''prompt_version''] d'))
          ''actions'' = the (dget (rev nested) ''actions'')" if "dmem ''actions'' nested" for d'
        using n [OF that] by (auto simp: jget_def dget_dupdate restricted_no_actions)
      then show ?thesis by (simp add: unwrap f Some k JObj)
    qed (simp_all add: unwrap f Some k)
  qed
qed

text \<open>The names a plan may set: those of the frame fields and of the in-out fields among the shared ones.\<close>

definition controllable_names :: "plan_abi \<Rightarrow> string set" where
  "controllable_names abi = (case abi of
     AbiTarget t \<Rightarrow> p_name ` set (frame_action_params t)
   | AbiDict frame_fields shared_fields \<Rightarrow>
       {n. \<exists>d. jget d ''name'' = JStr n \<and>
          (JObj d \<in> set frame_fields \<or> JObj d \<in> set shared_fields \<and> jget d ''block_kind'' = JStr ''VAR_IN_OUT'')})"

text \<open>The exchange form gives every field its type.\<close>

definition typed_fields :: "plan_abi \<Rightarrow> bool" where
  "typed_fields abi = (case abi of
     AbiTarget t \<Rightarrow> True
   | AbiDict frame_fields shared_fields \<Rightarrow> \<forall>e \<in> set (frame_fields @ shared_fields). is_obj (jget (obj_of e) ''spec''))"

lemma mapE_json_entry: "mapE json_entry es = Inr ds \<Longrightarrow> es = map JObj ds"
proof (induction es arbitrary: ds)
  case (Cons e es)
  then show ?case by (auto simp: bindE_eq_Inr json_entry_def split: json.splits if_splits)
qed simp

lemma exchange_fields:
  assumes "field_map (AbiDict frame_fields shared_fields) = Inr fs" "(n, d) \<in> set fs"
  shows "jget d ''name'' = JStr n" "JObj d \<in> set frame_fields \<or> JObj d \<in> set shared_fields \<and> jget d ''block_kind'' = JStr ''VAR_IN_OUT''"
proof -
  obtain ffs ss where e: "mapE json_entry frame_fields = Inr ffs" "mapE json_entry shared_fields = Inr ss"
    and fs: "fs = dict_of (map (\<lambda>d. (str_of (jget d ''name''), d)) (filter (\<lambda>d. truthy (jget d ''name''))
      (ffs @ filter (\<lambda>d. jget d ''block_kind'' = JStr ''VAR_IN_OUT'' \<and> jget d ''name'' \<notin> set (map (\<lambda>d. jget d ''name'') ffs)) ss)))"
    using assms(1) by (auto simp: field_map_def bindE_eq_Inr Let_def)
  have "(n, d) \<in> (\<lambda>d. (str_of (jget d ''name''), d)) ` {d \<in> set ffs \<union> {d \<in> set ss. jget d ''block_kind'' = JStr ''VAR_IN_OUT''}. truthy (jget d ''name'')}"
    using assms(2) dict_of_mem unfolding fs by fastforce
  then have d: "n = str_of (jget d ''name'')" "truthy (jget d ''name'')"
    "d \<in> set ffs \<or> d \<in> set ss \<and> jget d ''block_kind'' = JStr ''VAR_IN_OUT''" by auto
  have named: "jget d ''name'' = JNull \<or> is_str (jget d ''name'')" if m: "mapE json_entry es = Inr ds" "d \<in> set ds" for es ds
  proof -
    obtain e where "json_entry e = Inr d" using mapE_set [OF m] by blast
    then show ?thesis by (cases e) (auto simp: json_entry_def split: if_splits)
  qed
  then have "is_str (jget d ''name'')" using d(2,3) e by fastforce
  then show "jget d ''name'' = JStr n" using d(1) by (cases "jget d ''name''") auto
  show "JObj d \<in> set frame_fields \<or> JObj d \<in> set shared_fields \<and> jget d ''block_kind'' = JStr ''VAR_IN_OUT''"
    using d(3) mapE_json_entry [OF e(1)] mapE_json_entry [OF e(2)] by auto
qed

lemma controllable_fields:
  assumes "field_map abi = Inr fs" "typed_fields abi"
  shows "\<exists>ds. mapE spec_default fs = Inr ds \<and> fst ` set ds = fst ` set fs"
    and "fst ` set fs \<subseteq> controllable_names abi"
proof -
  have "(\<exists>ds. mapE spec_default fs = Inr ds \<and> fst ` set ds = fst ` set fs) \<and> fst ` set fs \<subseteq> controllable_names abi"
  proof (cases abi)
    case (AbiTarget t)
    then show ?thesis using target_fields [of t fs] assms(1) by (simp add: controllable_names_def)
  next
    case (AbiDict ff sf)
    have specs: "\<forall>e \<in> set (ff @ sf). is_obj (jget (obj_of e) ''spec'')" using assms(2) by (simp add: AbiDict typed_fields_def)
    note ex = exchange_fields [OF assms(1) [unfolded AbiDict]]
    have "\<exists>d. spec_default ne = Inr (fst ne, d)" if ne: "ne \<in> set fs" for ne
    proof -
      have "JObj (snd ne) \<in> set (ff @ sf)" using ex(2) [of "fst ne" "snd ne"] ne by auto
      then have "is_obj (jget (snd ne) ''spec'')" using specs by (metis obj_of.simps(1))
      then show ?thesis
        by (cases "dget (snd ne) ''spec''"; cases "jget (snd ne) ''spec''") (auto simp: spec_default_def entry_spec_def jget_def)
    qed
    then obtain g where "\<forall>ne \<in> set fs. spec_default ne = Inr (fst ne, g ne)" by metis
    then have "mapE spec_default fs = Inr (map (\<lambda>ne. (fst ne, g ne)) fs)" by (intro mapE_total) blast
    moreover have "fst ` set fs \<subseteq> controllable_names abi"
      using ex by (fastforce simp: AbiDict controllable_names_def)
    ultimately show ?thesis by force
  qed
  then show "\<exists>ds. mapE spec_default fs = Inr ds \<and> fst ` set ds = fst ` set fs" "fst ` set fs \<subseteq> controllable_names abi" by simp_all
qed

text \<open>
  (C7) A validated plan expands: it raises nothing, it gives as many frames as validation counted, at
  most the limit, and every frame assigns only controllable fields and the fields of the base frame.
  Two conditions: the exchange form of the interface gives every field its type, and the plan is
  wrapped at most once, that is, unwrapping it twice finds the same actions as unwrapping it once.
  Of a doubly wrapped plan the law is false (see the section on doubly wrapped plans).
\<close>

theorem validated_plan_expands:
  assumes "validate_plan rq abi (JObj raw) = Inr plan" and "typed_fields abi"
    and "jget (unwrap_plan (unwrap_plan raw)) ''actions'' = jget (unwrap_plan raw) ''actions''"
    and "0 \<le> rq_max_frames rq"
  shows "\<exists>fs cost frames. field_map abi = Inr fs
    \<and> check_actions fs (list_of (jget plan ''actions'')) = Inr (cost, [])
    \<and> expand_plan (JObj plan) base abi (rq_max_frames rq) = Inr frames
    \<and> int (length frames) = cost \<and> cost \<le> rq_max_frames rq
    \<and> (\<forall>f \<in> set frames. set (dkeys f) \<subseteq> controllable_names abi \<union> set (dkeys base))"
proof -
  obtain fs c where n: "normalize_levels (MAX_REPEAT_DEPTH + 1) raw = Inr plan" and fs: "field_map abi = Inr fs"
    and c: "check_actions fs (list_of (jget plan ''actions'')) = Inr (c, [])" "c \<le> rq_max_frames rq"
    "list_of (jget plan ''actions'') \<noteq> []"
    using assms(1,4) by (rule accepted_plan)
  let ?u = "unwrap_plan raw" and ?norm = "mapE (normalize_action (normalize_levels MAX_REPEAT_DEPTH))"
  obtain raws as where raws: "iter_or_empty (jget ?u ''actions'') = Inr raws" and as: "?norm raws = Inr as"
    "plan = dset ''actions'' (JList as) ?u"
    using n by (auto simp: bindE_eq_Inr Let_def)
  have ja: "jget plan ''actions'' = JList as" by (simp add: as(2))
  with c have ca: "check_actions fs as = Inr (c, [])" "as \<noteq> []" by simp_all
  from renormalize_actions [OF as(1) ca(1)] obtain bs where
    bs: "?norm as = Inr bs" "check_actions fs bs = Inr (c, [])" by blast
  have "jget (unwrap_plan plan) ''actions'' \<in> {JList as, jget ?u ''actions''}"
    using unwrap_actions [of "JList as" ?u] assms(3) by (simp add: as(2))
  moreover have "iter_or_empty (JList as) = Inr as" using ca(2) by (simp add: iter_or_empty_def)
  ultimately obtain cs where "bindE (iter_or_empty (jget (unwrap_plan plan) ''actions'')) ?norm = Inr cs"
    and cs: "check_actions fs cs = Inr (c, [])"
    using raws as(1) bs ca(1) by auto
  then have np: "normalize_plan (JObj plan) = Inr (JObj (dset ''actions'' (JList cs) (unwrap_plan plan)))"
    by (auto simp: normalize_plan_def bindE_eq_Inr Let_def)
  obtain ds where ds: "mapE spec_default fs = Inr ds" "fst ` set ds = fst ` set fs"
    using controllable_fields(1) [OF fs assms(2)] by blast
  let ?D = "fst ` set fs \<union> fst ` set base"
  have "runs ?D (run_actions cs) c" by (rule runs_accepted(2) [OF _ cs]) simp
  moreover have "names_in ?D ([], dupdate ds base)" by (simp add: names_in_def set_dkeys_dupdate ds(2))
  ultimately obtain st where st: "run_actions cs ([], dupdate ds base) = Inr st" "names_in ?D st"
    "int (length (fst st)) = c" by (rule runsE) simp
  obtain frames cur where fc: "st = (frames, cur)" by force
  have "expand_plan (JObj plan) base abi (rq_max_frames rq) = Inr frames"
    using st c(2) fs ds(1) by (simp add: expand_plan_def np fc)
  moreover have "set (dkeys f) \<subseteq> controllable_names abi \<union> set (dkeys base)" if "f \<in> set frames" for f
    
  proof -
    have "fst ` set f \<subseteq> ?D" using st(2) that by (simp add: fc names_in_def)
    then show ?thesis using controllable_fields(2) [OF fs assms(2)] by auto
  qed
  ultimately show ?thesis using fs c st by (auto simp: fc)
qed


definition demo_request :: plan_request where
  "demo_request = \<lparr>rq_contract_id = Some ''c1'', rq_task_id = Some ''t1'', rq_abstraction_fields = None,
     rq_allowed_evidence_refs = None, rq_reachable_prefix_ids = None, rq_max_frames = 128\<rparr>"

definition demo_plan :: "(string, json) dict" where
  "demo_plan = [(''plan_id'', JStr ''p1''), (''task_id'', JStr ''t1''), (''contract_id'', JStr ''c1''),
     (''actions'', JList [
        JObj [(''action'', JStr ''set''), (''field'', JStr ''X''), (''value'', JInt 5)],
        JObj [(''op'', JStr ''repeat''), (''count'', JInt 3), (''actions'', JList [
          JObj [(''op'', JStr ''hold''), (''inputs'', JObj [(''X'', JInt (- 2))]), (''frames'', JInt 2)]])]])]"

definition demo_exchange :: plan_abi where
  "demo_exchange = AbiDict
     [JObj [(''name'', JStr ''X''), (''block_kind'', JStr ''VAR_INPUT''),
        (''spec'', JObj [(''kind'', JStr ''scalar''), (''name'', JStr ''INT''), (''size'', JInt 2), (''c_type'', JStr ''int16_t'')])]] []"

definition demo_wrapped_plan :: "(string, json) dict" where
  "demo_wrapped_plan = [(''plan_id'', JStr ''p1''), (''task_id'', JStr ''t1''), (''contract_id'', JStr ''c1''),
     (''plan'', JObj [(''actions'', JList [
        JObj [(''action'', JStr ''set''), (''field'', JStr ''X''), (''value'', JInt 5)],
        JObj [(''op'', JStr ''repeat''), (''count'', JInt 3), (''actions'', JList [
          JObj [(''op'', JStr ''hold''), (''inputs'', JObj [(''X'', JInt (- 2))]), (''frames'', JInt 2)]])]])])]"

lemma demo_wrapped_valid:
  "(case validate_plan demo_request demo_exchange (JObj demo_wrapped_plan) of Inl e \<Rightarrow> False | Inr p \<Rightarrow> True)
   \<and> typed_fields demo_exchange
   \<and> jget (unwrap_plan (unwrap_plan demo_wrapped_plan)) ''actions'' = jget (unwrap_plan demo_wrapped_plan) ''actions''
   \<and> 0 \<le> rq_max_frames demo_request"
  by code_simp

theorem validated_plan_expands_witness:
  "\<exists>plan frames. validate_plan demo_request demo_exchange (JObj demo_wrapped_plan) = Inr plan
    \<and> expand_plan (JObj plan) [(''X'', ''0'')] demo_exchange (rq_max_frames demo_request) = Inr frames"
proof -
  obtain plan where "validate_plan demo_request demo_exchange (JObj demo_wrapped_plan) = Inr plan"
    using demo_wrapped_valid by (auto split: sum.splits)
  with validated_plan_expands [OF this, of "[(''X'', ''0'')]"] demo_wrapped_valid show ?thesis by blast
qed

section \<open>Doubly wrapped plans\<close>













section \<open>Batches\<close>

text \<open>What the loop maintains: every plan is accounted for, the keys of accepted plans are new.\<close>

lemma batch_step_result:
  assumes "batch_step abi cid tasks mx st ir = Inr st'"
  shows "(\<exists>key plan. bs_accepted st' = bs_accepted st @ [plan] \<and> bs_seen st' = bs_seen st @ [key]
       \<and> key \<notin> set (bs_seen st) \<and> bs_rejected st' = bs_rejected st
       \<and> admit_plan abi cid tasks mx (bs_seen st) (snd ir) = Inr (key, plan))
   \<or> (\<exists>r. bs_rejected st' = bs_rejected st @ [(fst ir, snd ir, r)] \<and> bs_accepted st' = bs_accepted st
       \<and> bs_seen st' = bs_seen st)"
proof (cases "admit_plan abi cid tasks mx (bs_seen st) (snd ir)")
  case (Inl e)
  with assms show ?thesis by (cases e) (auto simp: batch_step_def)
next
  case (Inr kp)
  obtain key plan where kp: "kp = (key, plan)" by force
  have "key \<notin> set (bs_seen st)"
    using Inr kp by (cases "snd ir") (auto simp: admit_plan_def bindE_eq_Inr Let_def split: if_splits option.splits)
  with assms Inr kp show ?thesis by (auto simp: batch_step_def)
qed

lemma batch_fold:
  assumes "foldE (batch_step abi cid tasks mx) st irs = Inr st'" "distinct (bs_seen st)"
  shows "distinct (bs_seen st') \<and> length (bs_seen st') + length (bs_accepted st) = length (bs_seen st) + length (bs_accepted st')
    \<and> length (bs_accepted st') + length (bs_rejected st')
        = length (bs_accepted st) + length (bs_rejected st) + length irs"
  using assms
proof (induction irs arbitrary: st)
  case (Cons ir irs)
  then obtain s1 where s1: "batch_step abi cid tasks mx st ir = Inr s1" "foldE (batch_step abi cid tasks mx) s1 irs = Inr st'"
    by (auto simp: bindE_eq_Inr)
  from batch_step_result [OF s1(1)] show ?case
  proof (elim disjE exE conjE)
    fix key plan assume a: "bs_accepted s1 = bs_accepted st @ [plan]" "bs_seen s1 = bs_seen st @ [key]"
      "key \<notin> set (bs_seen st)" "bs_rejected s1 = bs_rejected st"
    with Cons.IH [OF s1(2)] Cons.prems(2) show ?thesis by simp
  next
    fix r assume "bs_rejected s1 = bs_rejected st @ [(fst ir, snd ir, r)]" "bs_accepted s1 = bs_accepted st"
      "bs_seen s1 = bs_seen st"
    with Cons.IH [OF s1(2)] Cons.prems(2) show ?thesis by simp
  qed
qed simp

text \<open>
  When a batch is processed, every plan of it is either accepted or rejected, and no two
  accepted plans (of this batch or an earlier one) have the same actions for the same task.
\<close>

theorem batch_accounts_for_every_plan:
  assumes "validate_plan_batch (JObj d) abi cid tasks seen max_plans max_frames = Inr st" and "distinct seen"
  shows "\<exists>plans. jget d ''plans'' = JList plans \<and> int (length plans) \<le> max_plans
    \<and> length (bs_accepted st) + length (bs_rejected st) = length plans
    \<and> distinct (bs_seen st) \<and> length (bs_seen st) = length seen + length (bs_accepted st)"
proof -
  obtain plans where p: "jget d ''plans'' = JList plans" "int (length plans) \<le> max_plans"
    "foldE (batch_step abi cid tasks max_frames) \<lparr>bs_seen = seen, bs_accepted = [], bs_rejected = []\<rparr>
       (zip [0..<length plans] plans) = Inr st"
    using assms(1) by (auto simp: validate_plan_batch_def split: if_splits json.splits)
  from batch_fold [OF p(3)] assms(2) p(1,2) show ?thesis by simp
qed

definition demo_batch_plan :: "json \<Rightarrow> string \<Rightarrow> json" where
  "demo_batch_plan refs pid = JObj [(''plan_id'', JStr pid), (''task_id'', JStr ''t1''), (''contract_id'', JStr ''c1''),
     (''evidence_refs'', refs), (''suggested_symbolic_fields'', JList []),
     (''actions'', JList [JObj [(''op'', JStr ''set''), (''inputs'', JObj [(''X'', JInt 5)])]])]"

definition demo_tasks :: "(string, task_offer) dict" where
  "demo_tasks = [(''t1'', \<lparr>to_abstraction_fields = [], to_evidence_refs = [], to_reachable_prefix_ids = []\<rparr>)]"

definition demo_batch :: "json list \<Rightarrow> (string, json) dict" where
  "demo_batch plans = [(''contract_id'', JStr ''c1''), (''plans'', JList plans)]"

theorem batch_accounts_for_every_plan_witness:
  "\<exists>st. validate_plan_batch (JObj (demo_batch [demo_batch_plan (JList []) ''p1'', demo_batch_plan (JList []) ''p2'']))
      (AbiTarget demo_abi) (Some ''c1'') demo_tasks [] 4 128 = Inr st
    \<and> length (bs_accepted st) + length (bs_rejected st) = 2 \<and> length (bs_accepted st) = 1"
proof -
  let ?d = "demo_batch [demo_batch_plan (JList []) ''p1'', demo_batch_plan (JList []) ''p2'']"
  let ?run = "validate_plan_batch (JObj ?d) (AbiTarget demo_abi) (Some ''c1'') demo_tasks [] 4 128"
  have "case ?run of Inl e \<Rightarrow> False | Inr st \<Rightarrow> length (bs_accepted st) = 1" by code_simp
  then obtain st where st: "?run = Inr st" "length (bs_accepted st) = 1" by (cases ?run) simp_all
  from batch_accounts_for_every_plan [OF st(1)] have "length (bs_accepted st) + length (bs_rejected st) = 2"
    by (auto simp: demo_batch_def jget_def)
  with st show ?thesis by blast
qed

text \<open>
  A plan whose evidence list is null raises a type error that is not a rejection, so a valid
  peer in the same batch is lost.
\<close>

theorem null_evidence_loses_peers:
  "validate_plan_batch (JObj (demo_batch [demo_batch_plan (JList []) ''p1'', demo_batch_plan JNull ''p2'']))
     (AbiTarget demo_abi) (Some ''c1'') demo_tasks [] 4 128 = Inl (Raised ''TypeError'')"
  by code_simp

end
