(* ===== verification/Py_Regex.thy ===== *)
theory Py_Regex
  imports Py_Prelude
begin

text \<open>
  The part of Python's \<open>re\<close> the sources use: a backtracking matcher that lists the ways an
  expression matches at a position in the order \<open>re\<close> tries them, each with the text left and the
  groups captured. The first entry is the match Python returns.
\<close>

datatype rx =
    RChar "char \<Rightarrow> bool"
  | REps
  | RSeq rx rx
  | RAlt rx rx
  | RStar rx
  | RLazy rx
  | RGroup nat rx
  | REnd

type_synonym rx_state = "string \<times> (nat \<times> string) list"

text \<open>Greedy repetition: as many rounds as possible first, each consuming something.\<close>

fun rx_star :: "nat \<Rightarrow> (rx_state \<Rightarrow> rx_state list) \<Rightarrow> rx_state \<Rightarrow> rx_state list" where
  "rx_star 0 m x = [x]"
| "rx_star (Suc n) m x =
     concat (map (\<lambda>y. if length (fst y) < length (fst x) then rx_star n m y else []) (m x)) @ [x]"

text \<open>Lazy repetition (\<open>*?\<close>): the shortest match first.\<close>

fun rx_lazy :: "nat \<Rightarrow> (rx_state \<Rightarrow> rx_state list) \<Rightarrow> rx_state \<Rightarrow> rx_state list" where
  "rx_lazy 0 m x = [x]"
| "rx_lazy (Suc n) m x =
     x # concat (map (\<lambda>y. if length (fst y) < length (fst x) then rx_lazy n m y else []) (m x))"

primrec rx_match :: "rx \<Rightarrow> rx_state \<Rightarrow> rx_state list" where
  "rx_match (RChar p) x = (case fst x of [] \<Rightarrow> [] | c # cs \<Rightarrow> if p c then [(cs, snd x)] else [])"
| "rx_match REps x = [x]"
| "rx_match (RSeq a b) x = concat (map (rx_match b) (rx_match a x))"
| "rx_match (RAlt a b) x = rx_match a x @ rx_match b x"
| "rx_match (RStar a) x = rx_star (length (fst x)) (rx_match a) x"
| "rx_match (RLazy a) x = rx_lazy (length (fst x)) (rx_match a) x"
| "rx_match (RGroup n a) x = map (\<lambda>y. (fst y,
     (n, take (length (fst x) - length (fst y)) (fst x)) # filter (\<lambda>e. fst e \<noteq> n) (snd y))) (rx_match a x)"
| "rx_match REnd x = (if fst x = [] \<or> fst x = [newline] then [x] else [])"

definition rx_first :: "rx \<Rightarrow> string \<Rightarrow> rx_state option" where
  "rx_first r s = (case rx_match r (s, []) of [] \<Rightarrow> None | y # _ \<Rightarrow> Some y)"

text \<open>\<open>re.match\<close>, \<open>re.fullmatch\<close>, \<open>re.search\<close> and \<open>re.sub\<close> with a constant replacement.\<close>

definition re_match :: "rx \<Rightarrow> string \<Rightarrow> (nat \<times> string) list option" where
  "re_match r s = map_option snd (rx_first r s)"

definition re_fullmatch :: "rx \<Rightarrow> string \<Rightarrow> (nat \<times> string) list option" where
  "re_fullmatch r s = map_option snd (find (\<lambda>y. fst y = []) (rx_match r (s, [])))"

fun re_search :: "rx \<Rightarrow> string \<Rightarrow> (nat \<times> string) list option" where
  "re_search r [] = re_match r []"
| "re_search r (c # cs) = (case re_match r (c # cs) of None \<Rightarrow> re_search r cs | Some g \<Rightarrow> Some g)"

fun re_sub_skip :: "nat \<Rightarrow> rx \<Rightarrow> string \<Rightarrow> string \<Rightarrow> string" where
  "re_sub_skip k r rep [] = []"
| "re_sub_skip (Suc k) r rep (c # cs) = re_sub_skip k r rep cs"
| "re_sub_skip 0 r rep (c # cs) =
     (case rx_first r (c # cs) of
        None \<Rightarrow> c # re_sub_skip 0 r rep cs
      | Some (rest, _) \<Rightarrow> rep @ re_sub_skip (length cs - length rest) r rep cs)"

text \<open>For expressions that match no empty text.\<close>

definition re_sub :: "rx \<Rightarrow> string \<Rightarrow> string \<Rightarrow> string" where
  "re_sub r rep s = re_sub_skip 0 r rep s"

definition group_of :: "nat \<Rightarrow> (nat \<times> string) list \<Rightarrow> string" where
  "group_of n gs = (case map_of gs n of None \<Rightarrow> [] | Some s \<Rightarrow> s)"

section \<open>Shorthands\<close>

fun rx_lit :: "string \<Rightarrow> rx" where
  "rx_lit [] = REps"
| "rx_lit (c # cs) = RSeq (RChar (\<lambda>d. d = c)) (rx_lit cs)"

definition rx_plus :: "rx \<Rightarrow> rx" where
  "rx_plus r = RSeq r (RStar r)"

definition rx_opt :: "rx \<Rightarrow> rx" where
  "rx_opt r = RAlt r REps"

definition rx_any :: rx where
  "rx_any = RChar (\<lambda>c. c \<noteq> newline)"

fun rx_seq :: "rx list \<Rightarrow> rx" where
  "rx_seq [] = REps"
| "rx_seq [r] = r"
| "rx_seq (r # s # rs) = RSeq r (rx_seq (s # rs))"

section \<open>Facts\<close>

text \<open>A match leaves a suffix of the text.\<close>

lemma rx_star_suffix:
  assumes "\<And>x y. y \<in> set (m x) \<Longrightarrow> \<exists>p. fst x = p @ fst y"
  shows "y \<in> set (rx_star n m x) \<Longrightarrow> \<exists>p. fst x = p @ fst y"
proof (induction n arbitrary: x)
  case (Suc n)
  then consider "y = x" | z where "z \<in> set (m x)" "y \<in> set (rx_star n m z)"
    by (auto split: if_splits)
  then show ?case
  proof cases
    case 2
    from assms [OF 2(1)] Suc.IH [OF 2(2)] show ?thesis by (metis append_assoc)
  qed simp
qed simp

lemma rx_lazy_suffix:
  assumes "\<And>x y. y \<in> set (m x) \<Longrightarrow> \<exists>p. fst x = p @ fst y"
  shows "y \<in> set (rx_lazy n m x) \<Longrightarrow> \<exists>p. fst x = p @ fst y"
proof (induction n arbitrary: x)
  case (Suc n)
  then consider "y = x" | z where "z \<in> set (m x)" "y \<in> set (rx_lazy n m z)"
    by (auto split: if_splits)
  then show ?case
  proof cases
    case 2
    from assms [OF 2(1)] Suc.IH [OF 2(2)] show ?thesis by (metis append_assoc)
  qed simp
qed simp

lemma rx_match_suffix: "y \<in> set (rx_match r x) \<Longrightarrow> \<exists>p. fst x = p @ fst y"
proof (induction r arbitrary: x y)
  case (RChar p)
  then show ?case by (cases "fst x") (auto split: if_splits)
next
  case (RSeq a b)
  then obtain z where z: "z \<in> set (rx_match a x)" "y \<in> set (rx_match b z)" by auto
  from RSeq.IH(1) [OF z(1)] RSeq.IH(2) [OF z(2)] show ?case by (metis append_assoc)
next
  case (RStar a)
  then show ?case using rx_star_suffix [of "rx_match a"] by simp
next
  case (RLazy a)
  then show ?case using rx_lazy_suffix [of "rx_match a"] by simp
qed (auto split: if_splits)

lemma rx_first_suffix: "rx_first r s = Some (rest, g) \<Longrightarrow> \<exists>p. s = p @ rest"
  using rx_match_suffix [of "(rest, g)" r "(s, [])"] by (auto simp: rx_first_def split: list.splits)

end
