(* ===== verification/Seed_Reducer.thy ===== *)
theory Seed_Reducer
  imports Corpus_Store Py_Regex "HOL-Library.Product_Lexorder" "HOL-Library.Sublist"
begin

text \<open>
  Structured seed minimization, \<open>fuzzer/reporting/minimize.py\<close>: failure signatures from a replay's
  output, the replay cache, the greedy deletion and value-shrinking loops, field attribution and
  the report. The target program is the parameter \<open>run_target\<close>; a loop that need not end takes
  fuel and returns \<open>None\<close> when the fuel does not suffice.
\<close>

section \<open>Constants\<close>


definition INTEGER_BOUNDS :: "(string, int \<times> int) dict" where
  "INTEGER_BOUNDS = [
     (''SINT'', (- (2 ^ 7), 2 ^ 7 - 1)), (''USINT'', (0, 2 ^ 8 - 1)), (''BYTE'', (0, 2 ^ 8 - 1)),
     (''INT'', (- (2 ^ 15), 2 ^ 15 - 1)), (''UINT'', (0, 2 ^ 16 - 1)), (''WORD'', (0, 2 ^ 16 - 1)),
     (''DINT'', (- (2 ^ 31), 2 ^ 31 - 1)), (''UDINT'', (0, 2 ^ 32 - 1)), (''DWORD'', (0, 2 ^ 32 - 1)),
     (''LINT'', (- (2 ^ 63), 2 ^ 63 - 1)), (''ULINT'', (0, 2 ^ 64 - 1)), (''LWORD'', (0, 2 ^ 64 - 1)),
     (''CHAR'', (0, 255))]"

definition FLOAT_TYPES :: "string list" where
  "FLOAT_TYPES = [''REAL'', ''LREAL'']"

definition STRING_TYPES :: "string list" where
  "STRING_TYPES = [''STRING'', ''WSTRING'']"

definition BYTE_TYPES :: "string list" where
  "BYTE_TYPES = [''POINTER'', ''ARRAY'']"

definition OOM_MARKERS :: "string list" where
  "OOM_MARKERS = [''out of memory'', ''allocation failed'', ''allocator is out of memory'',
     ''cannot allocate memory'', ''memory allocation failure'']"

definition is_kind_char :: "char \<Rightarrow> bool" where
  "is_kind_char c = (is_alnum c \<or> c \<in> {CHR ''_'', CHR ''.'', CHR '':'', CHR ''/'', CHR ''+'', CHR ''-''})"

definition SANITIZER_ERROR_RE :: rx where
  "SANITIZER_ERROR_RE = rx_seq [rx_lit ''ERROR:'', rx_plus (RChar is_space),
     RGroup 1 (RSeq (rx_plus (RChar is_alpha)) (rx_lit ''Sanitizer'')), rx_lit '':'', rx_plus (RChar is_space),
     RGroup 2 (rx_plus (RChar is_kind_char))]"

definition UBSAN_ERROR_RE :: rx where
  "UBSAN_ERROR_RE = rx_seq [rx_lit ''runtime error:'', rx_plus (RChar is_space), RGroup 1 (rx_plus rx_any)]"

definition STACK_FRAME_RE :: rx where
  "STACK_FRAME_RE = rx_seq [RStar (RChar is_space), rx_lit ''#'', rx_plus (RChar is_digit), rx_plus (RChar is_space),
     rx_opt (rx_seq [rx_lit ''0x'', rx_plus (RChar is_hex_digit), rx_plus (RChar is_space)]),
     rx_opt (rx_seq [rx_lit ''in'', rx_plus (RChar is_space)]), RGroup 1 (rx_plus rx_any), REnd]"

section \<open>Failure signatures\<close>

record failure_signature =
  fg_status :: string
  fg_returncode :: "int option"
  fg_signal :: "string option"
  fg_sanitizer :: "string option"
  fg_sanitizer_kind :: "string option"
  fg_stack_hash :: "string option"
  fg_stack_top :: "string list"

record seed_record =
  sr_name :: string
  sr_ty :: string
  sr_value :: string
  sr_original_index :: nat

record replay_outcome =
  ro_status :: string
  ro_returncode :: "int option"
  ro_stderr_preview :: string
  ro_signature :: "failure_signature option"

definition classify_process_result :: "int \<Rightarrow> string \<Rightarrow> string" where
  "classify_process_result returncode stderr =
     (let lowered = py_lower stderr in
      if list_ex (\<lambda>m. contains m lowered) OOM_MARKERS then ''oom''
      else if returncode = 0 then ''ok''
      else if returncode < 0 then ''crash'' else ''nonzero'')"

definition SIGNALS :: "(int \<times> string) list" where
  "SIGNALS = [(1, ''SIGHUP''), (2, ''SIGINT''), (3, ''SIGQUIT''), (4, ''SIGILL''), (5, ''SIGTRAP''),
     (6, ''SIGABRT''), (7, ''SIGBUS''), (8, ''SIGFPE''), (9, ''SIGKILL''), (10, ''SIGUSR1''), (11, ''SIGSEGV''),
     (12, ''SIGUSR2''), (13, ''SIGPIPE''), (14, ''SIGALRM''), (15, ''SIGTERM''), (16, ''SIGSTKFLT''),
     (17, ''SIGCHLD''), (18, ''SIGCONT''), (19, ''SIGSTOP''), (20, ''SIGTSTP''), (21, ''SIGTTIN''),
     (22, ''SIGTTOU''), (23, ''SIGURG''), (24, ''SIGXCPU''), (25, ''SIGXFSZ''), (26, ''SIGVTALRM''),
     (27, ''SIGPROF''), (28, ''SIGWINCH''), (29, ''SIGIO''), (30, ''SIGPWR''), (31, ''SIGSYS''),
     (34, ''SIGRTMIN''), (64, ''SIGRTMAX'')]"

definition signal_name :: "int option \<Rightarrow> string option" where
  "signal_name returncode = (case returncode of
     None \<Rightarrow> None
   | Some rc \<Rightarrow> if rc \<ge> 0 then None
     else Some (case map_of SIGNALS (- rc) of Some n \<Rightarrow> n | None \<Rightarrow> ''signal_'' @ show_int (- rc)))"

definition normalize_stack_frame :: "string \<Rightarrow> string" where
  "normalize_stack_frame frame =
     (let f1 = re_sub (rx_seq [rx_lit ''0x'', rx_plus (RChar is_hex_digit)]) ''0xADDR'' frame;
          f2 = re_sub (rx_seq [rx_lit '':'', rx_plus (RChar is_digit),
                 rx_opt (rx_seq [rx_lit '':'', rx_plus (RChar is_digit)])]) '':LINE'' f1;
          f3 = strip (re_sub (rx_plus (RChar is_space)) '' '' f2) in
      take 240 f3)"

text \<open>The loop over the lines, with the number of frames still wanted.\<close>

fun stack_frames :: "nat \<Rightarrow> string list \<Rightarrow> string list" where
  "stack_frames limit [] = []"
| "stack_frames limit (line # rest) =
     (case re_match STACK_FRAME_RE line of
        None \<Rightarrow> stack_frames limit rest
      | Some g \<Rightarrow>
        (let frame = normalize_stack_frame (group_of 1 g) in
         if frame = [] then (if limit = 0 then [] else stack_frames limit rest)
         else frame # (if limit \<le> 1 then [] else stack_frames (limit - 1) rest)))"

definition extract_stack_frames :: "string \<Rightarrow> string list" where
  "extract_stack_frames stderr = stack_frames 6 (splitlines stderr)"

definition extract_failure_signature :: "string \<Rightarrow> int option \<Rightarrow> string \<Rightarrow> failure_signature" where
  "extract_failure_signature status returncode stderr =
     (let (sanitizer, kind) = (case re_search SANITIZER_ERROR_RE stderr of
            Some g \<Rightarrow> (Some (group_of 1 g), Some (group_of 2 g))
          | None \<Rightarrow> (case re_search UBSAN_ERROR_RE stderr of
              Some g \<Rightarrow> (Some ''UndefinedBehaviorSanitizer'', Some (normalize_stack_frame (group_of 1 g)))
            | None \<Rightarrow> (None, None)));
          top = extract_stack_frames stderr in
      \<lparr>fg_status = status, fg_returncode = returncode, fg_signal = signal_name returncode,
       fg_sanitizer = sanitizer, fg_sanitizer_kind = kind,
       fg_stack_hash = (if top \<noteq> [] then Some (take 16 (sha256_hex (join [newline] top))) else None),
       fg_stack_top = top\<rparr>)"

text \<open>Truth of an optional text.\<close>

definition set_text :: "string option \<Rightarrow> bool" where
  "set_text v = (case v of None \<Rightarrow> False | Some s \<Rightarrow> s \<noteq> [])"

definition signatures_match :: "replay_outcome \<Rightarrow> replay_outcome \<Rightarrow> bool" where
  "signatures_match expected candidate =
     (if ro_status candidate \<noteq> ro_status expected then False
      else case (ro_signature expected, ro_signature candidate) of
        (Some es, Some cs) \<Rightarrow>
          if set_text (fg_sanitizer es) \<or> set_text (fg_sanitizer_kind es) then
            (if \<not> (fg_sanitizer cs = fg_sanitizer es \<and> fg_sanitizer_kind cs = fg_sanitizer_kind es) then False
             else if set_text (fg_stack_hash es) then fg_stack_hash cs = fg_stack_hash es else True)
          else if set_text (fg_stack_hash es) then fg_stack_hash cs = fg_stack_hash es
          else if ro_status expected = ''crash'' \<and> ro_returncode expected \<noteq> None
          then ro_returncode candidate = ro_returncode expected
          else True
      | _ \<Rightarrow> True)"

section \<open>Records\<close>


definition record_text :: "seed_record \<Rightarrow> string" where
  "record_text r = record_line (sr_name r) (sr_ty r) (sr_value r)"

definition serialize_seed :: "seed_record list \<Rightarrow> string" where
  "serialize_seed rs = join [newline] (map record_text rs) @ [newline]"

definition with_value :: "seed_record \<Rightarrow> string \<Rightarrow> seed_record" where
  "with_value r v = r\<lparr>sr_value := v\<rparr>"


section \<open>Replay\<close>

text \<open>What the target does on a seed: it ends, exceeds the time limit, or cannot be started.\<close>

datatype process_result = Completed int string | TimedOut string | OsError string

definition outcome_of :: "process_result \<Rightarrow> replay_outcome" where
  "outcome_of p = (case p of
     Completed rc stderr \<Rightarrow> (let status = classify_process_result rc stderr in
       \<lparr>ro_status = status, ro_returncode = Some rc, ro_stderr_preview = take 1200 stderr,
        ro_signature = Some (extract_failure_signature status (Some rc) stderr)\<rparr>)
   | TimedOut stderr \<Rightarrow>
       \<lparr>ro_status = ''timeout'', ro_returncode = None, ro_stderr_preview = take 1200 stderr,
        ro_signature = Some (extract_failure_signature ''timeout'' None stderr)\<rparr>
   | OsError stderr \<Rightarrow>
       \<lparr>ro_status = ''replay_error'', ro_returncode = None, ro_stderr_preview = take 1200 stderr,
        ro_signature = Some (extract_failure_signature ''replay_error'' None stderr)\<rparr>)"

record reducer =
  rd_cache :: "(string, replay_outcome) dict"
  rd_replay_count :: nat

definition replay_seed :: "(string \<Rightarrow> process_result) \<Rightarrow> reducer \<Rightarrow> string \<Rightarrow>
    store_error + (replay_outcome \<times> reducer)" where
  "replay_seed run_target rd seed =
     bindE (normalize_seed seed) (\<lambda>s.
       case dget (rd_cache rd) s of
         Some oc \<Rightarrow> Inr (oc, rd)
       | None \<Rightarrow> (let oc = outcome_of (run_target s) in
           Inr (oc, rd\<lparr>rd_cache := dset s oc (rd_cache rd), rd_replay_count := rd_replay_count rd + 1\<rparr>)))"

definition reproduces :: "(string \<Rightarrow> process_result) \<Rightarrow> replay_outcome \<Rightarrow> reducer \<Rightarrow> seed_record list \<Rightarrow>
    store_error + (bool \<times> reducer)" where
  "reproduces run_target expected rd records =
     bindE (replay_seed run_target rd (serialize_seed records)) (\<lambda>(oc, rd').
       Inr (signatures_match expected oc, rd'))"

section \<open>Greedy deletion\<close>

text \<open>The first candidate, in order, that is not empty and reproduces; \<open>test\<close> is \<open>reproduces\<close>.\<close>

fun try_candidates :: "('s \<Rightarrow> 'r list \<Rightarrow> 'e + (bool \<times> 's)) \<Rightarrow> 's \<Rightarrow> 'r list list \<Rightarrow> 'e + ('r list option \<times> 's)" where
  "try_candidates test st [] = Inr (None, st)"
| "try_candidates test st (c # cs) =
     (if c = [] then try_candidates test st cs
      else bindE (test st c) (\<lambda>(ok, st'). if ok then Inr (Some c, st') else try_candidates test st' cs))"

text \<open>The \<open>while True\<close> loop: restart from a candidate that reproduces, stop when none does.\<close>

fun greedy_loop :: "('s \<Rightarrow> 'r list \<Rightarrow> 'e + (bool \<times> 's)) \<Rightarrow> ('r list \<Rightarrow> 'r list list) \<Rightarrow> nat \<Rightarrow> 's \<Rightarrow> 'r list \<Rightarrow>
    ('e + ('r list \<times> 's)) option" where
  "greedy_loop test candidates 0 st current = None"
| "greedy_loop test candidates (Suc n) st current =
     (case try_candidates test st (candidates current) of
        Inl e \<Rightarrow> Some (Inl e)
      | Inr (None, st') \<Rightarrow> Some (Inr (current, st'))
      | Inr (Some c, st') \<Rightarrow> greedy_loop test candidates n st' c)"

definition cycle_number :: "seed_record \<Rightarrow> nat list" where
  "cycle_number r = (let (prefix, dot, rest) = partition_at CHR ''.'' (sr_name r) in
     if dot \<and> prefix \<noteq> [] \<and> list_all is_digit prefix \<and> rest \<noteq> [] then [read_nat prefix] else [])"

definition in_cycle :: "nat \<Rightarrow> seed_record \<Rightarrow> bool" where
  "in_cycle cycle r = (starts_with (show_nat cycle @ ''.'') (sr_name r)
     \<and> (let p = fst (partition_at CHR ''.'' (sr_name r)) in p \<noteq> [] \<and> list_all is_digit p))"

definition cycle_candidates :: "seed_record list \<Rightarrow> seed_record list list" where
  "cycle_candidates current =
     map (\<lambda>cycle. filter (\<lambda>r. \<not> in_cycle cycle r) current)
       (rev (sort (remdups (concat (map cycle_number current)))))"

fun duplicate_flags :: "(string \<times> string \<times> string) list \<Rightarrow> seed_record list \<Rightarrow> bool list" where
  "duplicate_flags seen [] = []"
| "duplicate_flags seen (r # rs) =
     (let key = (py_upper (sr_name r), sr_ty r, sr_value r) in
      if key \<in> set seen then True # duplicate_flags seen rs else False # duplicate_flags (key # seen) rs)"

definition drop_nth :: "nat \<Rightarrow> 'a list \<Rightarrow> 'a list" where
  "drop_nth i xs = take i xs @ drop (Suc i) xs"

definition record_candidates :: "bool \<Rightarrow> seed_record list \<Rightarrow> seed_record list list" where
  "record_candidates exact_duplicates_only current =
     map (\<lambda>i. drop_nth i current)
       (filter (\<lambda>i. \<not> exact_duplicates_only \<or> duplicate_flags [] current ! i) (rev [0..<length current]))"

definition delete_cycles :: "(string \<Rightarrow> process_result) \<Rightarrow> replay_outcome \<Rightarrow> nat \<Rightarrow> reducer \<Rightarrow> seed_record list \<Rightarrow>
    (store_error + (seed_record list \<times> reducer)) option" where
  "delete_cycles run_target expected fuel rd records =
     greedy_loop (reproduces run_target expected) cycle_candidates fuel rd records"

definition delete_records :: "(string \<Rightarrow> process_result) \<Rightarrow> replay_outcome \<Rightarrow> bool \<Rightarrow> nat \<Rightarrow> reducer \<Rightarrow>
    seed_record list \<Rightarrow> (store_error + (seed_record list \<times> reducer)) option" where
  "delete_records run_target expected exact_duplicates_only fuel rd records =
     greedy_loop (reproduces run_target expected) (record_candidates exact_duplicates_only) fuel rd records"

section \<open>Smaller values\<close>

text \<open>\<open>ordered_unique\<close> keeps the first of equal texts.\<close>

fun unique_from :: "string list \<Rightarrow> string list \<Rightarrow> string list" where
  "unique_from seen [] = []"
| "unique_from seen (v # vs) = (if v \<in> set seen then unique_from seen vs else v # unique_from (v # seen) vs)"

definition ordered_unique :: "string list \<Rightarrow> string list" where
  "ordered_unique vs = unique_from [] vs"

text \<open>\<open>int(c / 2)\<close>: true division rounds to a double, then truncation.\<close>

definition half_int :: "int \<Rightarrow> int" where
  "half_int c = (let (p, q) = to_double (\<bar>c\<bar>, 2) in sgn c * (p div q))"

lemma bit_length_bounds: "0 < n \<Longrightarrow> 2 ^ nat (bit_length n - 1) \<le> n \<and> n < 2 ^ nat (bit_length n) \<and> 1 \<le> bit_length n"
proof (induction n rule: bit_length.induct)
  case (1 n)
  show ?case
  proof (cases "n = 1")
    case True
    have "bit_length 1 = 1" by (simp add: bit_length.simps)
    with True show ?thesis by simp
  next
    case False
    with 1 have ih: "2 ^ nat (bit_length (n div 2) - 1) \<le> n div 2" "n div 2 < 2 ^ nat (bit_length (n div 2))"
      "1 \<le> bit_length (n div 2)" by simp_all
    have b: "bit_length n = 1 + bit_length (n div 2)" using 1(2) by (simp add: bit_length.simps)
    have e: "nat (bit_length n - 1) = Suc (nat (bit_length (n div 2) - 1))"
      "nat (bit_length n) = Suc (nat (bit_length (n div 2)))" using ih(3) b by linarith+
    show ?thesis using ih b unfolding e power_Suc by linarith
  qed
qed

lemma floor_log2_lower:
  assumes "0 < p" "0 < q" "0 \<le> floor_log2 p q"
  shows "q * 2 ^ nat (floor_log2 p q) \<le> p"
proof -
  define k where "k = bit_length p - bit_length q"
  have bp: "2 ^ nat (bit_length p - 1) \<le> p" "1 \<le> bit_length p" using bit_length_bounds [OF assms(1)] by auto
  have bq: "q < 2 ^ nat (bit_length q)" "1 \<le> bit_length q" using bit_length_bounds [OF assms(2)] by auto
  have f: "floor_log2 p q = (if q * fst (scale2 1 1 k) \<le> p * snd (scale2 1 1 k) then k else k - 1)"
    by (simp add: floor_log2_def k_def Let_def split_beta)
  show ?thesis
  proof (cases "floor_log2 p q = k")
    case True
    with assms(3) have "0 \<le> k" by simp
    with f True show ?thesis by (auto simp: scale2_def split: if_splits)
  next
    case False
    with f have g: "floor_log2 p q = k - 1" by (auto split: if_splits)
    with assms(3) have k: "1 \<le> k" by simp
    have "q * 2 ^ nat (k - 1) \<le> 2 ^ nat (bit_length q) * 2 ^ nat (k - 1)" using bq(1) by simp
    also have "\<dots> = 2 ^ (nat (bit_length q) + nat (k - 1))" by (simp add: power_add)
    also have "nat (bit_length q) + nat (k - 1) = nat (bit_length p - 1)" using k bq(2) by (simp add: k_def)
    finally show ?thesis using bp(1) g by simp
  qed
qed

lemma round_half_even_le: "0 < q \<Longrightarrow> round_half_even p q \<le> p div q + 1"
  by (simp add: round_half_even_def Let_def)

lemma half_pos_less:
  assumes "2 \<le> c"
  shows "0 \<le> half_int c \<and> half_int c < c"
proof -
  define e where "e = max (floor_log2 c 2 - 52) (- 1074)"
  have h: "half_int c = (case to_double (c, 2) of (p, q) \<Rightarrow> p div q)" using assms by (simp add: half_int_def Let_def)
  have t: "to_double (c, 2) = (case scale2 c 2 (- e) of (a, b) \<Rightarrow> scale2 (round_half_even a b) 1 e)"
    using assms by (simp add: to_double_def e_def Let_def)
  show ?thesis
  proof (cases "e < 0")
    case True
    define n where "n = nat (- e)"
    have n: "0 < n" using True by (simp add: n_def)
    have "scale2 c 2 (- e) = (c * 2 ^ n, 2)" using True by (simp add: scale2_def n_def)
    moreover have "c * 2 ^ n = 2 * (c * 2 ^ (n - 1))" using n by (cases n) simp_all
    moreover have "round_half_even (2 * m) 2 = m" for m by (simp add: round_half_even_def)
    ultimately have "round_half_even (c * 2 ^ n) 2 = c * 2 ^ (n - 1)" by metis
    with \<open>scale2 c 2 (- e) = (c * 2 ^ n, 2)\<close> have "to_double (c, 2) = (c * 2 ^ (n - 1), 2 ^ n)"
      using True unfolding t by (simp add: scale2_def n_def)
    then have "half_int c = c * 2 ^ (n - 1) div (2 * 2 ^ (n - 1))" using n unfolding h by (cases n) simp_all
    then have "half_int c = c div 2" by simp
    with assms show ?thesis by simp
  next
    case False
    define n where "n = nat e"
    have f: "floor_log2 c 2 = e + 52" using False by (auto simp: e_def max_def split: if_splits)
    have "2 * 2 ^ nat (e + 52) \<le> c" using floor_log2_lower [of c 2] assms f False by simp
    moreover have "nat (e + 52) = n + 52" using False by (simp add: n_def)
    ultimately have big: "2 * 2 ^ 52 * 2 ^ n \<le> c" by (simp add: power_add)
    have "scale2 c 2 (- e) = (c, 2 * 2 ^ n)" using False by (simp add: scale2_def n_def)
    then have hi: "half_int c = round_half_even c (2 * 2 ^ n) * 2 ^ n"
      unfolding h t using False by (simp add: scale2_def n_def)
    have "round_half_even c (2 * 2 ^ n) * 2 ^ n \<le> (c div (2 * 2 ^ n) + 1) * 2 ^ n"
      by (intro mult_right_mono round_half_even_le) simp_all
    moreover have "c div (2 * 2 ^ n) * (2 * 2 ^ n) \<le> c"
      by (metis add.commute le_add_same_cancel1 mod_div_mult_eq pos_mod_sign zero_less_mult_iff zero_less_numeral zero_less_power)
    moreover have "(0 :: int) < 2 ^ n" by simp
    moreover have "0 \<le> round_half_even c (2 * 2 ^ n)"
      using assms by (simp add: round_half_even_def Let_def pos_imp_zdiv_nonneg_iff)
    ultimately have "0 \<le> round_half_even c (2 * 2 ^ n) * 2 ^ n"
      "round_half_even c (2 * 2 ^ n) * 2 ^ n \<le> c div (2 * 2 ^ n) * 2 ^ n + 2 ^ n"
      "2 * (c div (2 * 2 ^ n) * 2 ^ n) \<le> c" "(0 :: int) < 2 ^ n" by (simp_all add: algebra_simps)
    moreover have "9007199254740992 * 2 ^ n \<le> c" using big by simp
    ultimately show ?thesis unfolding hi by linarith
  qed
qed

lemma half_int_neg: "half_int (- c) = - half_int c"
  by (simp add: half_int_def Let_def split_beta sgn_minus)

lemma half_int_less: "c \<notin> {0, 1, - 1} \<Longrightarrow> \<bar>half_int c\<bar> < \<bar>c\<bar>"
  using half_pos_less [of c] half_pos_less [of "- c"] half_int_neg [of c] by (cases "0 < c") auto

function halvings :: "int \<Rightarrow> int list" where
  "halvings c = (if c \<in> {0, 1, - 1} then [] else half_int c # halvings (half_int c))"
  by pat_completeness auto
termination
  by (relation "measure (\<lambda>c. nat \<bar>c\<bar>)") (use half_int_less in auto)

declare halvings.simps [simp del]

function magnitudes :: "int \<Rightarrow> int \<Rightarrow> int list" where
  "magnitudes m bound = (if 0 < m \<and> m < bound then [m, - m] @ magnitudes (m * 2) bound else [])"
  by pat_completeness auto
termination
  by (relation "measure (\<lambda>(m, b). nat (b - m))") auto

declare magnitudes.simps [simp del]

definition integer_candidates :: "string \<Rightarrow> int \<times> int \<Rightarrow> string list" where
  "integer_candidates value bounds = (case int_base0 value of
     None \<Rightarrow> []
   | Some original \<Rightarrow>
     (let (lo, hi) = bounds;
          raw = [0, 1, - 1] @ halvings original @ magnitudes 1 \<bar>original\<bar>
                @ filter (\<lambda>b. \<bar>b\<bar> \<le> \<bar>original\<bar>) [lo, hi, lo + 1, hi - 1] in
      ordered_unique (map show_int (filter (\<lambda>i. lo \<le> i \<and> i \<le> hi \<and> i \<noteq> original) raw))))"

text \<open>A double: sign, numerator and positive denominator, or a special value.\<close>

datatype pyfloat = Fin bool int int | Inf bool | NaN

definition read_float :: "string \<Rightarrow> pyfloat option" where
  "read_float text =
     (let (sg, body) = split_sign (strip text) in
      case parse_float text of
        None \<Rightarrow> None
      | Some NonFinite \<Rightarrow> Some (if py_lower body = ''nan'' then NaN else Inf (sg < 0))
      | Some (Decimal m e) \<Rightarrow>
        (let d = to_double (if e \<ge> 0 then (m * 10 ^ nat e, 1) else (m, 10 ^ nat (- e))) in
         Some (if double_overflow d then Inf (sg < 0) else Fin (sg < 0) (fst d) (snd d))))"

fun float_eq :: "pyfloat \<Rightarrow> pyfloat \<Rightarrow> bool" where
  "float_eq (Fin n p q) (Fin n' p' q') = (if p = 0 then p' = 0 else n = n' \<and> p * q' = p' * q)"
| "float_eq (Inf n) (Inf n') = (n = n')"
| "float_eq _ _ = False"

fun above_one :: "pyfloat \<Rightarrow> bool" where
  "above_one (Fin n p q) = (q < p)"
| "above_one (Inf n) = True"
| "above_one NaN = False"

text \<open>Halving a double above one is exact.\<close>

fun half_float :: "pyfloat \<Rightarrow> pyfloat" where
  "half_float (Fin n p q) = Fin n p (2 * q)"
| "half_float x = x"

primrec float_halvings :: "nat \<Rightarrow> pyfloat \<Rightarrow> pyfloat list option" where
  "float_halvings 0 x = (if above_one x then None else Some [])"
| "float_halvings (Suc n) x =
     (if above_one x then map_option (\<lambda>xs. half_float x # xs) (float_halvings n (half_float x)) else Some [])"

text \<open>The format \<open>.12g\<close>: twelve significant digits, trailing zeros removed.\<close>

definition floor_log10 :: "int \<Rightarrow> int \<Rightarrow> int" where
  "floor_log10 p q = (let k = int (length (show_pos p)) - int (length (show_pos q)) in
     if k \<ge> 0 then (if q * 10 ^ nat k \<le> p then k else k - 1)
     else (if q \<le> p * 10 ^ nat (- k) then k else k - 1))"

definition strip_zeros :: "string \<Rightarrow> string" where
  "strip_zeros ds = rev (dropWhile (\<lambda>c. c = CHR ''0'') (rev ds))"

definition with_fraction :: "string \<Rightarrow> string \<Rightarrow> string" where
  "with_fraction ip fp = (let f = strip_zeros fp in if f = [] then ip else ip @ ''.'' @ f)"

definition format_g12 :: "int \<Rightarrow> int \<Rightarrow> string" where
  "format_g12 p q =
     (if p = 0 then ''0''
      else let x0 = floor_log10 p q;
               d0 = (if x0 \<le> 11 then round_half_even (p * 10 ^ nat (11 - x0)) q
                     else round_half_even p (q * 10 ^ nat (x0 - 11)));
               (x, d) = (if d0 = 10 ^ 12 then (x0 + 1, 10 ^ 11) else (x0, d0));
               ds = show_pos d in
        if - 4 \<le> x \<and> x < 12 then
          (if x \<ge> 0 then with_fraction (take (nat x + 1) ds) (drop (nat x + 1) ds)
           else with_fraction ''0'' (replicate (nat (- x) - 1) CHR ''0'' @ ds))
        else with_fraction (take 1 ds) (drop 1 ds) @ (if x < 0 then ''e-'' else ''e+'')
             @ (if \<bar>x\<bar> < 10 then ''0'' else []) @ show_pos \<bar>x\<bar>)"

fun float_text :: "pyfloat \<Rightarrow> string" where
  "float_text (Fin n p q) = (if n then ''-'' else []) @ format_g12 p q"
| "float_text (Inf n) = (if n then ''-inf'' else ''inf'')"
| "float_text NaN = ''nan''"

definition format_float :: "pyfloat \<Rightarrow> string" where
  "format_float x = (let text = float_text x in
     if CHR ''e'' \<notin> set (py_lower text) \<and> CHR ''.'' \<notin> set text then text @ ''.0'' else text)"

definition float_candidates :: "nat \<Rightarrow> string \<Rightarrow> string list option" where
  "float_candidates fuel value = (case read_float value of
     None \<Rightarrow> Some []
   | Some original \<Rightarrow>
     map_option (\<lambda>hs. ordered_unique (map format_float (filter (\<lambda>x. \<not> float_eq x original)
         ([Fin False 0 1, Fin False 1 1, Fin True 1 1] @ hs)))) (float_halvings fuel original))"

fun halving_steps :: "nat \<Rightarrow> nat list" where
  "halving_steps n = (if n = 0 then [] else n # halving_steps (n div 2))"

declare halving_steps.simps [simp del]

definition string_candidates :: "string \<Rightarrow> string list" where
  "string_candidates value =
     (let len = length value;
          raw = [[], take 1 value] @ map (\<lambda>s. take s value) (halving_steps (len div 2))
                @ map (\<lambda>l. take l value) (filter (\<lambda>l. l < len) [2, 4, 8, 16, 32, 64, 128]) in
      filter (\<lambda>c. c \<noteq> value) (ordered_unique raw))"

definition ascii_space :: "char \<Rightarrow> bool" where
  "ascii_space c = (of_char c \<in> {9, 10, 11, 12, 13, 32 :: int})"

text \<open>\<open>bytes.fromhex\<close>; \<open>None\<close> is \<open>ValueError\<close>.\<close>

fun from_hex :: "string \<Rightarrow> int list option" where
  "from_hex [] = Some []"
| "from_hex [a] = (if ascii_space a then Some [] else None)"
| "from_hex (a # b # r) =
     (if ascii_space a then from_hex (b # r)
      else if is_hex_digit a \<and> is_hex_digit b then map_option (\<lambda>bs. (hex_val a * 16 + hex_val b) # bs) (from_hex r)
      else None)"

definition to_hex :: "int list \<Rightarrow> string" where
  "to_hex bs = concat (map (\<lambda>b. [hex_digit (b div 16), hex_digit (b mod 16)]) bs)"

definition chunk_candidates :: "int list \<Rightarrow> nat \<Rightarrow> int list list" where
  "chunk_candidates data chunk =
     concat (map (\<lambda>start.
         [take start data @ drop (start + chunk) data,
          take start data @ replicate (min chunk (length data - start)) 0 @ drop (start + chunk) data])
       (map (\<lambda>k. k * chunk) [0..<(length data + chunk - 1) div chunk]))"

definition hex_byte_candidates :: "string \<Rightarrow> string list" where
  "hex_byte_candidates value =
     (let raw_hex = drop 2 value in
      if length raw_hex mod 2 \<noteq> 0 then []
      else case from_hex raw_hex of
        None \<Rightarrow> []
      | Some data \<Rightarrow>
        (let raw = [[], [0], replicate (length data) 0]
               @ map (\<lambda>s. take s data) (halving_steps (length data div 2))
               @ concat (map (chunk_candidates data) (halving_steps (max 1 (length data div 2)))) in
         ordered_unique (map (\<lambda>c. ''0x'' @ to_hex c) (filter (\<lambda>c. c \<noteq> data) raw))))"

definition value_candidates :: "nat \<Rightarrow> seed_record \<Rightarrow> string list option" where
  "value_candidates fuel r =
     (let ty = py_upper (sr_ty r); v = sr_value r in
      if ty = ''BOOL'' then Some (filter (\<lambda>x. x \<noteq> v) [''0'', ''1''])
      else case dget INTEGER_BOUNDS ty of
        Some b \<Rightarrow> Some (integer_candidates v b)
      | None \<Rightarrow>
        if ty \<in> set FLOAT_TYPES then float_candidates fuel v
        else if ty \<in> set STRING_TYPES then Some (string_candidates v)
        else if ty \<in> set BYTE_TYPES then
          Some (if starts_with ''0x'' v \<or> starts_with ''0X'' v then hex_byte_candidates v else string_candidates v)
        else Some [])"

section \<open>Shrinking, attribution and the report\<close>

fun shrink_loop :: "('s \<Rightarrow> seed_record list \<Rightarrow> 'e + (bool \<times> 's)) \<Rightarrow> nat \<Rightarrow> nat \<Rightarrow> 's \<Rightarrow> seed_record list \<Rightarrow> nat \<Rightarrow>
    ('e + (seed_record list \<times> 's)) option" where
  "shrink_loop test ffuel 0 st current index = None"
| "shrink_loop test ffuel (Suc n) st current index =
     (if length current \<le> index then Some (Inr (current, st))
      else case value_candidates ffuel (current ! index) of
        None \<Rightarrow> None
      | Some vs \<Rightarrow>
        (case try_candidates test st (map (\<lambda>v. current[index := with_value (current ! index) v]) vs) of
           Inl e \<Rightarrow> Some (Inl e)
         | Inr (None, st') \<Rightarrow> shrink_loop test ffuel n st' current (index + 1)
         | Inr (Some c, st') \<Rightarrow> shrink_loop test ffuel n st' c index))"














section \<open>The oracle contract of the greedy loops\<close>

text \<open>
  What the loops rely on: whether a candidate reproduces does not depend on the reducer's state,
  which only has to satisfy an invariant. The loops' results follow from this contract alone.
\<close>

locale replay_oracle =
  fixes test :: "'s \<Rightarrow> 'r list \<Rightarrow> 'e + (bool \<times> 's)" and inv :: "'s \<Rightarrow> bool" and holds :: "'r list \<Rightarrow> bool"
  assumes test_sound: "inv st \<Longrightarrow> test st c = Inr (ok, st') \<Longrightarrow> ok = holds c \<and> inv st'"
begin

lemma try_some:
  "inv st \<Longrightarrow> try_candidates test st cs = Inr (Some c, st')
   \<Longrightarrow> c \<in> set cs \<and> c \<noteq> [] \<and> holds c \<and> inv st'"
proof (induction cs arbitrary: st)
  case (Cons d cs)
  show ?case
  proof (cases "d = []")
    case True
    with Cons show ?thesis by auto
  next
    case False
    with Cons.prems(2) obtain ok s1 where t: "test st d = Inr (ok, s1)"
      "(if ok then Inr (Some d, s1) else try_candidates test s1 cs) = Inr (Some c, st')"
      by (auto simp: bindE_eq_Inr)
    from test_sound [OF Cons.prems(1) t(1)] t(2) False Cons.IH [of s1] show ?thesis
      by (cases ok) auto
  qed
qed simp

lemma try_none:
  "inv st \<Longrightarrow> try_candidates test st cs = Inr (None, st')
   \<Longrightarrow> inv st' \<and> (\<forall>c \<in> set cs. c = [] \<or> \<not> holds c)"
proof (induction cs arbitrary: st)
  case (Cons d cs)
  show ?case
  proof (cases "d = []")
    case True
    with Cons show ?thesis by auto
  next
    case False
    with Cons.prems(2) obtain s1 where t: "test st d = Inr (False, s1)" "try_candidates test s1 cs = Inr (None, st')"
      by (auto simp: bindE_eq_Inr split: if_splits)
    from test_sound [OF Cons.prems(1) t(1)] Cons.IH [OF _ t(2)] show ?thesis by auto
  qed
qed simp

lemma greedy_sound:
  assumes "greedy_loop test candidates n st current = Some (Inr (r, st'))" "inv st" "holds current"
    and "\<And>cur c. c \<in> set (candidates cur) \<Longrightarrow> related c cur" "reflp related" "transp related"
  shows "holds r \<and> inv st' \<and> related r current \<and> (\<forall>c \<in> set (candidates r). c = [] \<or> \<not> holds c)"
  using assms(1-3)
proof (induction n arbitrary: st current)
  case (Suc n)
  show ?case
  proof (cases "try_candidates test st (candidates current)")
    case (Inl e)
    with Suc.prems show ?thesis by simp
  next
    case (Inr p)
    obtain o1 s1 where p: "p = (o1, s1)" by force
    show ?thesis
    proof (cases o1)
      case None
      with Suc.prems Inr p have "r = current" "st' = s1" by simp_all
      with try_none [OF Suc.prems(2)] Inr p None Suc.prems(3) assms(5) show ?thesis by (auto dest: reflpD)
    next
      case (Some c)
      with try_some [OF Suc.prems(2)] Inr p have c: "c \<in> set (candidates current)" "holds c" "inv s1" by auto
      with Suc.IH [of s1 c] Suc.prems(1) Inr p Some have "holds r \<and> inv st' \<and> related r c
          \<and> (\<forall>c \<in> set (candidates r). c = [] \<or> \<not> holds c)" by simp
      with assms(4) [OF c(1)] assms(6) show ?thesis by (blast dest: transpD)
    qed
  qed
qed simp

lemma greedy_returns:
  assumes "\<And>cur c. c \<in> set (candidates cur) \<Longrightarrow> length c < length cur"
  shows "inv st \<Longrightarrow> length current < n \<Longrightarrow> greedy_loop test candidates n st current \<noteq> None"
proof (induction n arbitrary: st current)
  case (Suc n)
  show ?case
  proof (cases "try_candidates test st (candidates current)")
    case (Inr p)
    obtain o1 s1 where p: "p = (o1, s1)" by force
    show ?thesis
    proof (cases o1)
      case (Some c)
      with try_some [OF Suc.prems(1)] Inr p have c: "c \<in> set (candidates current)" "inv s1" by auto
      with Suc.IH [of s1 c] assms [OF c(1)] Suc.prems(2) Inr p Some show ?thesis by simp
    qed (simp add: Inr p)
  qed simp
qed simp

end

locale record_oracle = replay_oracle test inv holds
  for test :: "'s \<Rightarrow> seed_record list \<Rightarrow> 'e + (bool \<times> 's)" and inv :: "'s \<Rightarrow> bool" and holds :: "seed_record list \<Rightarrow> bool"
begin

lemma shrink_sound:
  assumes "shrink_loop test ff n st current i = Some (Inr (r, st'))" "inv st" "holds current"
    and "\<And>cur j v. j < length cur \<Longrightarrow> related (cur[j := with_value (cur ! j) v]) cur" "reflp related" "transp related"
  shows "holds r \<and> inv st' \<and> related r current"
  using assms(1-3)
proof (induction n arbitrary: st current i)
  case (Suc n)
  show ?case
  proof (cases "length current \<le> i")
    case True
    with Suc.prems assms(5) show ?thesis by (auto dest: reflpD)
  next
    case False
    with Suc.prems(1) obtain vs where vs: "value_candidates ff (current ! i) = Some vs"
      by (auto split: option.splits)
    let ?cs = "map (\<lambda>v. current[i := with_value (current ! i) v]) vs"
    from False vs Suc.prems(1) obtain o1 s1 where t: "try_candidates test st ?cs = Inr (o1, s1)"
      by (cases "try_candidates test st ?cs") auto
    show ?thesis
    proof (cases o1)
      case None
      with try_none [OF Suc.prems(2)] t have "inv s1" by auto
      with Suc.IH [of s1 current "i + 1"] Suc.prems(1,3) False vs t None show ?thesis by simp
    next
      case (Some c)
      note c = try_some [OF Suc.prems(2) t [unfolded Some]]
      with Suc.IH [of s1 c i] Suc.prems(1) False vs t Some have "holds r \<and> inv st' \<and> related r c" by simp
      moreover have "related c current" using c assms(4) False by auto
      ultimately show ?thesis using assms(6) by (blast dest: transpD)
    qed
  qed
qed simp

end

section \<open>The replay cache meets the contract\<close>

definition cache_ok :: "(string \<Rightarrow> process_result) \<Rightarrow> reducer \<Rightarrow> bool" where
  "cache_ok run_target rd = (\<forall>s oc. dget (rd_cache rd) s = Some oc \<longrightarrow> oc = outcome_of (run_target s))"

definition replays :: "(string \<Rightarrow> process_result) \<Rightarrow> replay_outcome \<Rightarrow> seed_record list \<Rightarrow> bool" where
  "replays run_target expected records = (case normalize_seed (serialize_seed records) of
     Inl _ \<Rightarrow> False | Inr s \<Rightarrow> signatures_match expected (outcome_of (run_target s)))"

lemma replay_seed_result:
  assumes "replay_seed run rd seed = Inr (oc, rd')" "cache_ok run rd"
  shows "\<exists>s. normalize_seed seed = Inr s \<and> oc = outcome_of (run s) \<and> cache_ok run rd'"
proof -
  obtain s where s: "normalize_seed seed = Inr s" using assms(1) by (cases "normalize_seed seed") (simp_all add: replay_seed_def)
  show ?thesis
  proof (cases "dget (rd_cache rd) s")
    case None
    with assms s show ?thesis by (auto simp: replay_seed_def Let_def cache_ok_def dget_dset split: if_splits)
  next
    case (Some o1)
    with assms s show ?thesis by (auto simp: replay_seed_def cache_ok_def)
  qed
qed

lemma replay_seed_total:
  "normalize_seed seed = Inr s \<Longrightarrow> cache_ok run rd
   \<Longrightarrow> \<exists>rd'. replay_seed run rd seed = Inr (outcome_of (run s), rd') \<and> cache_ok run rd'"
  by (cases "dget (rd_cache rd) s") (auto simp: replay_seed_def Let_def cache_ok_def dget_dset split: if_splits)

interpretation reducer: record_oracle "reproduces run_target expected" "cache_ok run_target" "replays run_target expected"
  for run_target expected
proof unfold_locales
  fix st c ok st'
  assume a: "cache_ok run_target st" "reproduces run_target expected st c = Inr (ok, st')"
  then obtain oc where "replay_seed run_target st (serialize_seed c) = Inr (oc, st')" "ok = signatures_match expected oc"
    by (auto simp: reproduces_def bindE_eq_Inr)
  with replay_seed_result [OF this(1) a(1)] show "ok = replays run_target expected c \<and> cache_ok run_target st'"
    by (auto simp: replays_def)
qed

lemma reproduces_total:
  assumes "normalize_seed (serialize_seed c) = Inr s" "cache_ok run rd"
  shows "\<exists>rd'. reproduces run expected rd c = Inr (replays run expected c, rd') \<and> cache_ok run rd'"
  using replay_seed_total [OF assms] assms(1) by (auto simp: reproduces_def replays_def)

text \<open>Records keep their name, type and origin; only values change and records disappear.\<close>

definition identity :: "seed_record \<Rightarrow> string \<times> string \<times> nat" where
  "identity r = (sr_name r, sr_ty r, sr_original_index r)"

definition reduced_from :: "seed_record list \<Rightarrow> seed_record list \<Rightarrow> bool" where
  "reduced_from r orig = subseq (map identity r) (map identity orig)"

lemma reduced_from_order: "reflp reduced_from" "transp reduced_from"
  by (auto simp: reduced_from_def intro!: reflpI transpI elim: subseq_order.order_trans)


lemma subseq_drop_nth: "subseq (drop_nth i xs) xs"
proof -
  have "subseq (take i xs @ drop (Suc i) xs) (take i xs @ drop i xs)"
  proof (rule list_emb_append_mono)
    have "subseq (tl (drop i xs)) (drop i xs)" by (cases "drop i xs") auto
    then show "subseq (drop (Suc i) xs) (drop i xs)" by (simp add: drop_Suc tl_drop)
  qed simp
  then show ?thesis by (simp add: drop_nth_def)
qed

lemma reduced_from_drop_nth: "reduced_from (drop_nth i cur) cur"
  by (simp add: reduced_from_def subseq_map subseq_drop_nth)


section \<open>Properties\<close>

lemma signatures_match_refl: "signatures_match oc oc"
  by (simp add: signatures_match_def split: option.splits)



lemma delete_records_sound:
  assumes "delete_records run expected dup fuel rd rs = Some (Inr (out, rd'))" "cache_ok run rd" "replays run expected rs"
  shows "replays run expected out \<and> cache_ok run rd' \<and> reduced_from out rs
    \<and> (\<forall>c \<in> set (record_candidates dup out). c = [] \<or> \<not> replays run expected c)"
proof (rule reducer.greedy_sound [OF assms(1) [unfolded delete_records_def] assms(2,3)])
  show "reduced_from c cur" if "c \<in> set (record_candidates dup cur)" for cur c
    using that by (auto simp: record_candidates_def reduced_from_drop_nth)
qed (rule reduced_from_order)+



lemma empty_cache_ok: "cache_ok run \<lparr>rd_cache = [], rd_replay_count = 0\<rparr>"
  by (simp add: cache_ok_def)









definition demo_target :: "string \<Rightarrow> process_result" where
  "demo_target s = (if contains ''B,BOOL,1'' s then Completed (- 11) [] else Completed 0 [])"



lemma record_candidates_shorter: "c \<in> set (record_candidates dup cur) \<Longrightarrow> length c < length cur"
  by (auto simp: record_candidates_def drop_nth_def)

text \<open>
  (C33) Record deletion always ends (one more round than records is enough), and when it returns,
  the seed is one-minimal: it still reproduces and no single further record can be dropped, unless
  it is the last one.
\<close>

theorem delete_records_minimal:
  assumes "cache_ok run_target rd" and "replays run_target expected records" and "length records < fuel"
  shows "delete_records run_target expected False fuel rd records \<noteq> None
    \<and> (\<forall>out rd'. delete_records run_target expected False fuel rd records = Some (Inr (out, rd')) \<longrightarrow>
        replays run_target expected out \<and> reduced_from out records
        \<and> (\<forall>i < length out. 1 < length out \<longrightarrow> \<not> replays run_target expected (drop_nth i out)))"
proof -
  have "delete_records run_target expected False fuel rd records \<noteq> None"
    unfolding delete_records_def
    by (rule reducer.greedy_returns [OF record_candidates_shorter assms(1,3)])
  moreover have "\<not> replays run_target expected (drop_nth i out)"
    if d: "delete_records run_target expected False fuel rd records = Some (Inr (out, rd'))" and i: "i < length out" "1 < length out"
    for out rd' i
  proof -
    have "drop_nth i out \<in> set (record_candidates False out)" using i(1) by (auto simp: record_candidates_def)
    moreover have "drop_nth i out \<noteq> []" using i by (auto simp: drop_nth_def)
    ultimately show ?thesis using delete_records_sound [OF d assms(1,2)] by blast
  qed
  ultimately show ?thesis using delete_records_sound [OF _ assms(1,2)] by blast
qed

definition demo_records :: "seed_record list" where
  "demo_records = [\<lparr>sr_name = ''0.A'', sr_ty = ''INT'', sr_value = ''7'', sr_original_index = 0\<rparr>,
     \<lparr>sr_name = ''0.B'', sr_ty = ''BOOL'', sr_value = ''1'', sr_original_index = 1\<rparr>]"

theorem delete_records_minimal_witness:
  "delete_records demo_target (outcome_of (Completed (- 11) [])) False 3 \<lparr>rd_cache = [], rd_replay_count = 0\<rparr> demo_records \<noteq> None"
proof -
  have "replays demo_target (outcome_of (Completed (- 11) [])) demo_records" by code_simp
  from delete_records_minimal [OF empty_cache_ok this, of 3] show ?thesis by (simp add: demo_records_def)
qed

section \<open>Loops that do not end\<close>

definition always_crash :: "string \<Rightarrow> process_result" where
  "always_crash s = Completed (- 6) []"

definition crash_outcome :: replay_outcome where
  "crash_outcome = outcome_of (Completed (- 6) [])"



lemma always_replays: "normalize_seed (serialize_seed c) = Inr s \<Longrightarrow> replays always_crash crash_outcome c"
  by (simp add: replays_def always_crash_def crash_outcome_def signatures_match_refl)



definition padded_record :: seed_record where
  "padded_record = \<lparr>sr_name = ''01.A'', sr_ty = ''INT'', sr_value = ''7'', sr_original_index = 0\<rparr>"

text \<open>
  Cycle deletion need not end: the cycle of a name with a leading zero is read as a number,
  no record starts with that number, so the "deletion" leaves the seed as it is, reproduces, and
  is repeated forever.
\<close>

theorem delete_cycles_can_diverge:
  "cache_ok always_crash rd \<longrightarrow> delete_cycles always_crash crash_outcome fuel rd [padded_record] = None"
proof -
  have n: "normalize_seed (serialize_seed [padded_record]) = Inr (serialize_seed [padded_record])" by code_simp
  have c: "cycle_candidates [padded_record] = [[padded_record]]" by code_simp
  have "greedy_loop (reproduces always_crash crash_outcome) cycle_candidates n rd [padded_record] = None"
    if "cache_ok always_crash rd" for n
    using that
  proof (induction n arbitrary: rd)
    case (Suc m)
    obtain rd' where rd': "reproduces always_crash crash_outcome rd [padded_record] = Inr (True, rd')" "cache_ok always_crash rd'"
      using reproduces_total [OF n Suc.prems] always_replays [OF n] by metis
    with Suc.IH [OF rd'(2)] c show ?case by simp
  qed simp
  then show ?thesis by (simp add: delete_cycles_def)
qed

theorem delete_cycles_can_diverge_witness:
  "delete_cycles always_crash crash_outcome 1000 \<lparr>rd_cache = [], rd_replay_count = 0\<rparr> [padded_record] = None"
  using delete_cycles_can_diverge empty_cache_ok by blast

end
