(* ===== verification/St_Lexer.thy ===== *)
theory St_Lexer
  imports Py_Regex
begin

text \<open>
  The Structured Text lexers of \<open>compiler/parser/st.py\<close>: comment stripping, the declaration lexer
  \<open>StLexer\<close> and the lossless tokenizer that follows the compiler's token boundaries. A position
  \<open>i\<close> of the source is modelled by the text from \<open>i\<close> on, since no scan looks back.
\<close>

section \<open>Comment stripping\<close>

definition newlines_of :: "string \<Rightarrow> string" where
  "newlines_of s = filter (\<lambda>c. c = newline) s"

text \<open>The text up to and including the first \<open>*)\<close>, and the rest; \<open>None\<close> when there is none.\<close>

fun split_close :: "string \<Rightarrow> (string \<times> string) option" where
  "split_close [] = None"
| "split_close [c] = None"
| "split_close (c # d # r) =
     (if c = CHR ''*'' \<and> d = CHR '')'' then Some ([c, d], r)
      else map_option (\<lambda>(p, q). (c # p, q)) (split_close (d # r)))"

lemma split_close_append: "split_close s = Some (p, q) \<Longrightarrow> s = p @ q \<and> 2 \<le> length p"
  by (induction s arbitrary: p q rule: split_close.induct) (auto split: if_splits)

function strip_comments :: "string \<Rightarrow> string" where
  "strip_comments s =
     (if s = [] then []
      else if starts_with ''(*'' s then
        (case split_close (drop 2 s) of
           None \<Rightarrow> newlines_of s
         | Some (p, q) \<Rightarrow> newlines_of p @ strip_comments q)
      else if starts_with ''//'' s then
        (case dropWhile (\<lambda>c. c \<noteq> newline) (drop 2 s) of
           [] \<Rightarrow> []
         | n # r \<Rightarrow> newline # strip_comments r)
      else hd s # strip_comments (tl s))"
  by pat_completeness auto
termination
proof (relation "measure length")
  fix s x p q
  assume "s \<noteq> []" "split_close (drop 2 s) = Some x" "(p, q) = x"
  then have "drop 2 s = p @ q" using split_close_append by metis
  then have "length q \<le> length (drop 2 s)" by simp
  with \<open>s \<noteq> []\<close> show "(q, s) \<in> measure length" by (cases s) auto
next
  fix s n r
  assume "s \<noteq> []" "dropWhile (\<lambda>c. c \<noteq> newline) (drop 2 s) = n # r"
  then have "length (n # r) \<le> length (drop 2 s)" by (metis length_dropWhile_le)
  with \<open>s \<noteq> []\<close> show "(r, s) \<in> measure length" by simp
qed simp_all

declare strip_comments.simps [simp del]

definition is_word_char :: "char \<Rightarrow> bool" where
  "is_word_char c = (is_alnum c \<or> c = CHR ''_'')"

text \<open>A literal, case ignored.\<close>

fun rx_ilit :: "string \<Rightarrow> rx" where
  "rx_ilit [] = REps"
| "rx_ilit (c # cs) = RSeq (RChar (\<lambda>d. lower_char d = lower_char c)) (rx_ilit cs)"

definition VAR_INPUT_CONSTANT_RE :: rx where
  "VAR_INPUT_CONSTANT_RE = rx_seq [rx_ilit ''VAR_INPUT'', RStar (RChar is_space), rx_lit ''(*'', RStar (RChar is_space),
     rx_ilit ''CONSTANT'', RStar (RChar is_space), rx_lit ''*)'']"

text \<open>The substitution; \<open>prev\<close> is whether the character before is a word character (no \<open>\b\<close> there).\<close>

fun normalize_from :: "nat \<Rightarrow> bool \<Rightarrow> string \<Rightarrow> string" where
  "normalize_from k prev [] = []"
| "normalize_from (Suc k) prev (c # cs) = normalize_from k (is_word_char c) cs"
| "normalize_from 0 prev (c # cs) =
     (case (if prev then None else rx_first VAR_INPUT_CONSTANT_RE (c # cs)) of
        None \<Rightarrow> c # normalize_from 0 (is_word_char c) cs
      | Some (rest, _) \<Rightarrow> ''VAR_INPUT CONSTANT'' @ normalize_from (length cs - length rest) (is_word_char c) cs)"

definition normalize_var_input_constant :: "string \<Rightarrow> string" where
  "normalize_var_input_constant s = normalize_from 0 False s"

section \<open>The declaration lexer\<close>

record st_token =
  tk_kind :: string
  tk_text :: string
  tk_line :: nat
  tk_column :: nat
  tk_index :: nat

definition is_ident_start :: "char \<Rightarrow> bool" where
  "is_ident_start c = (is_alpha c \<or> c = CHR ''_'')"

definition is_ident_continue :: "char \<Rightarrow> bool" where
  "is_ident_continue c = (is_alnum c \<or> c = CHR ''_'')"

definition step_pos :: "nat \<times> nat \<Rightarrow> char \<Rightarrow> nat \<times> nat" where
  "step_pos lc c = (if c = newline then (fst lc + 1, 1) else (fst lc, snd lc + 1))"

definition advance_pos :: "nat \<times> nat \<Rightarrow> string \<Rightarrow> nat \<times> nat" where
  "advance_pos lc s = foldl step_pos lc s"

text \<open>The length of a quoted text after its opening quote; a doubled quote continues it.\<close>

fun quoted_length :: "string \<Rightarrow> nat" where
  "quoted_length [] = 0"
| "quoted_length [c] = 1"
| "quoted_length (c # d # r) =
     (if c = CHR 0x27 then (if d = CHR 0x27 then 2 + quoted_length r else 1) else 1 + quoted_length (d # r))"

definition SYMBOL_CHARS :: string where
  "SYMBOL_CHARS = ''[](),;:^#+-*/=<>.''"

definition ADDRESS_STOPS :: string where
  "ADDRESS_STOPS = ''[](),;:''"

definition scan_token :: "string \<Rightarrow> string \<times> nat" where
  "scan_token s =
     (let c = hd s in
      if starts_with '':='' s \<or> starts_with ''..'' s \<or> starts_with ''=>'' s then (''symbol'', 2)
      else if c \<in> set SYMBOL_CHARS then (''symbol'', 1)
      else if c = CHR ''%'' then
        (''address'', length (takeWhile (\<lambda>d. \<not> is_space d \<and> d \<notin> set ADDRESS_STOPS) s))
      else if c = CHR 0x27 then (''string'', 1 + quoted_length (tl s))
      else if is_digit c then (''integer'', 1 + length (takeWhile is_ident_continue (tl s)))
      else if is_ident_start c then (''identifier'', 1 + length (takeWhile is_ident_continue (tl s)))
      else (''symbol'', 1))"

lemma quoted_length_le: "quoted_length s \<le> length s"
  by (induction s rule: quoted_length.induct) auto

lemma scan_token_progress: "s \<noteq> [] \<Longrightarrow> 1 \<le> snd (scan_token s) \<and> snd (scan_token s) \<le> length s"
proof -
  assume ne: "s \<noteq> []"
  then obtain c r where s: "s = c # r" by (cases s) auto
  have "starts_with [a, b] s \<Longrightarrow> 2 \<le> length s" for a b
    unfolding starts_with_def by (metis length_take list.size(3) list.size(4) min_def nat_le_linear numeral_2_eq_2 One_nat_def add.right_neutral add_Suc_right)
  moreover have "length (takeWhile P r) \<le> length r" for P by (rule length_takeWhile_le)
  moreover have "length (takeWhile P s) \<le> length s" for P by (rule length_takeWhile_le)
  moreover have "c = CHR ''%'' \<Longrightarrow> 1 \<le> length (takeWhile (\<lambda>d. \<not> is_space d \<and> d \<notin> set ADDRESS_STOPS) s)"
    by (simp add: s is_space_def ADDRESS_STOPS_def)
  moreover have "quoted_length r \<le> length r" by (rule quoted_length_le)
  ultimately show ?thesis by (simp add: scan_token_def Let_def s)
qed

function lex_from :: "nat \<Rightarrow> nat \<times> nat \<Rightarrow> string \<Rightarrow> st_token list" where
  "lex_from index lc s =
     (if s = [] then
        [\<lparr>tk_kind = ''eof'', tk_text = [], tk_line = fst lc, tk_column = snd lc, tk_index = index\<rparr>]
      else if is_space (hd s) then lex_from index (step_pos lc (hd s)) (tl s)
      else (let (kind, n) = scan_token s in
        \<lparr>tk_kind = kind, tk_text = take n s, tk_line = fst lc, tk_column = snd lc, tk_index = index\<rparr>
        # lex_from (index + 1) (advance_pos lc (take n s)) (drop n s)))"
  by pat_completeness auto
termination
proof (relation "measure (\<lambda>(_, _, s). length s)")
  fix index lc s x kind n
  assume "s \<noteq> []" "x = scan_token s" "(kind, n) = x"
  then have "1 \<le> n" using scan_token_progress [of s] by (metis snd_conv)
  with \<open>s \<noteq> []\<close> show "((index + 1, advance_pos lc (take n s), drop n s), index, lc, s)
      \<in> measure (\<lambda>(_, _, s). length s)" by simp
qed auto

declare lex_from.simps [simp del]

definition tokenize_st :: "string \<Rightarrow> st_token list" where
  "tokenize_st src = lex_from 0 (1, 1) (strip_comments (normalize_var_input_constant src))"

section \<open>The lossless tokenizer\<close>

fun split_words :: "string \<Rightarrow> string \<Rightarrow> string list" where
  "split_words acc [] = (if acc = [] then [] else [rev acc])"
| "split_words acc (c # cs) =
     (if is_space c then (if acc = [] then split_words [] cs else rev acc # split_words [] cs)
      else split_words (c # acc) cs)"

definition RUSTY_KEYWORDS :: "string list" where
  "RUSTY_KEYWORDS = split_words [] (
     ''PROGRAM CLASS END_CLASS ENDCLASS EXTENDS IMPLEMENTS INTERFACE END_INTERFACE ''
     @ ''ENDINTERFACE VAR_INPUT VARINPUT VAR_OUTPUT VAROUTPUT VAR VAR_CONFIG ABSTRACT ''
     @ ''FINAL METHOD END_METHOD ENDMETHOD SUPER THIS PROPERTY_GET PROPERTYGET ''
     @ ''PROPERTY_SET PROPERTYSET END_PROPERTY ENDPROPERTY CONSTANT RETAIN NON_RETAIN ''
     @ ''NONRETAIN VAR_TEMP VARTEMP PUBLIC PRIVATE INTERNAL PROTECTED OVERRIDE ''
     @ ''VAR_GLOBAL VARGLOBAL VAR_IN_OUT VARINOUT VAR_EXTERNAL END_VAR ENDVAR ''
     @ ''END_PROGRAM ENDPROGRAM FUNCTION END_FUNCTION ENDFUNCTION FUNCTION_BLOCK ''
     @ ''FUNCTIONBLOCK END_FUNCTION_BLOCK ENDFUNCTIONBLOCK TYPE STRUCT END_TYPE ENDTYPE ''
     @ ''END_STRUCT ENDSTRUCT ACTIONS ACTION END_ACTION ENDACTION END_ACTIONS ''
     @ ''ENDACTIONS IF THEN ELSIF ELSE END_IF ENDIF FOR TO BY DO END_FOR ENDFOR WHILE ''
     @ ''END_WHILE ENDWHILE REPEAT UNTIL END_REPEAT ENDREPEAT CASE RETURN EXIT ''
     @ ''CONTINUE POINTER __FPOINTER REF_TO REFTO ARRAY STRING WSTRING OF AT END_CASE ''
     @ ''ENDCASE MOD AND_THEN AND OR_ELSE OR XOR NOT NULL TRUE FALSE'')"

definition TRIVIA :: "string list" where
  "TRIVIA = [''whitespace'', ''comment'', ''pragma'']"

definition PROPERTY_TOKENS :: "string list" where
  "PROPERTY_TOKENS = [''{external}'', ''{ref}'', ''{constant}'', ''{sized}'', ''@EXTERNAL'', ''@CONSTANT'']"

definition SYMBOLS :: "string list" where
  "SYMBOLS = [''...'', '':='', ''=>'', ''..'', ''**'', ''<>'', ''<='', ''>='', '':'', '';'', ''('', '')'', ''['', '']'',
     '','', ''.'', ''+'', ''-'', ''*'', ''/'', ''='', ''<'', ''>'', ''&'', ''^'']"

definition rx_digits :: rx where
  "rx_digits = rx_plus (RChar is_digit)"

definition rx_choice :: "rx list \<Rightarrow> rx" where
  "rx_choice rs = foldr RAlt (butlast rs) (last rs)"

definition seconds_part :: rx where
  "seconds_part = rx_opt (rx_seq [rx_lit '':'', rx_digits, rx_opt (rx_seq [rx_lit ''.'', rx_digits])])"

definition TYPED_LITERAL_RES :: "rx list" where
  "TYPED_LITERAL_RES = [
     rx_seq [rx_choice (map rx_ilit [''LDATE'', ''DATE'', ''LD'', ''D'']), rx_lit ''#'', rx_digits, rx_lit ''-'', rx_digits, rx_lit ''-'', rx_digits],
     rx_seq [rx_choice (map rx_ilit [''DATE_AND_TIME'', ''DT'', ''LDATE_AND_TIME'', ''LDT'']), rx_lit ''#'', rx_digits, rx_lit ''-'',
       rx_digits, rx_lit ''-'', rx_digits, rx_lit ''-'', rx_digits, rx_lit '':'', rx_digits, seconds_part],
     rx_seq [rx_choice (map rx_ilit [''TIME_OF_DAY'', ''LTIME_OF_DAY'', ''TOD'', ''LTOD'']), rx_lit ''#'', rx_digits, rx_lit '':'',
       rx_digits, seconds_part],
     rx_seq [rx_choice (map rx_ilit [''LTIME'', ''LT'', ''TIME'', ''T'']), rx_lit ''#'', rx_opt (rx_lit ''-''),
       rx_plus (rx_seq [rx_digits, rx_opt (rx_seq [rx_lit ''.'', rx_digits]),
         rx_choice (map rx_ilit [''d'', ''h'', ''ms'', ''m'', ''s'', ''us'', ''ns''])])]]"

definition rx_grouped :: "(char \<Rightarrow> bool) \<Rightarrow> rx" where
  "rx_grouped p = RSeq (rx_plus (RChar p)) (RStar (rx_seq [rx_lit ''_'', rx_plus (RChar p)]))"

definition NUMBER_RES :: "rx list" where
  "NUMBER_RES = [
     RSeq (rx_lit ''16#'') (rx_grouped is_hex_digit),
     RSeq (rx_lit ''8#'') (rx_grouped (is_base_digit 8)),
     RSeq (rx_lit ''2#'') (rx_grouped (is_base_digit 2)),
     RSeq (rx_grouped is_digit) (rx_opt (rx_seq [RChar (\<lambda>c. c \<in> {CHR ''e'', CHR ''E''}),
       rx_opt (RChar (\<lambda>c. c \<in> {CHR ''+'', CHR ''-''})), rx_digits]))]"

definition string_rx :: "char \<Rightarrow> rx" where
  "string_rx q = rx_seq [RChar (\<lambda>c. c = q),
     RStar (RAlt (RSeq (rx_lit ''$'') rx_any) (RChar (\<lambda>c. c \<noteq> CHR ''$'' \<and> c \<noteq> q))), RChar (\<lambda>c. c = q)]"

definition one_of :: "string \<Rightarrow> rx" where
  "one_of cs = RChar (\<lambda>c. c \<in> set cs)"

definition DIRECT_RE :: rx where
  "DIRECT_RE = RAlt (rx_seq [rx_lit ''%'', one_of ''IiQqMmGg'', one_of ''BbDdWwLlXx*''])
     (rx_seq [rx_lit ''%'', one_of ''BbDdWwLlXx''])"

text \<open>The length of the first match at the start of the text.\<close>

definition match_length :: "rx \<Rightarrow> string \<Rightarrow> nat option" where
  "match_length r s = map_option (\<lambda>y. length s - length (fst y)) (rx_first r s)"

text \<open>The length of a nested block comment after its two opening characters.\<close>

fun comment_length :: "char \<Rightarrow> char \<Rightarrow> nat \<Rightarrow> char \<Rightarrow> string \<Rightarrow> nat option" where
  "comment_length opener close unclosed prev [] = None"
| "comment_length opener close unclosed prev (c # cs) =
     (let (u, p) = (if c = CHR ''*'' \<and> prev = opener then (unclosed + 1, CHR '' '')
                    else if c = close \<and> prev = CHR ''*'' then (unclosed - 1, c) else (unclosed, c)) in
      if u = 0 then Some 1 else map_option Suc (comment_length opener close u p cs))"

definition block_comment_end :: "string \<Rightarrow> nat option" where
  "block_comment_end s =
     (let opener = hd s; close = (if opener = CHR ''('' then CHR '')'' else CHR ''/'') in
      map_option (\<lambda>n. n + 2) (comment_length opener close 1 CHR '' '' (drop 2 s)))"

definition is_blank_char :: "char \<Rightarrow> bool" where
  "is_blank_char c = (of_char c \<in> {9, 10, 12, 13, 32 :: int})"

definition best_literal :: "string \<Rightarrow> string \<times> nat \<Rightarrow> rx \<Rightarrow> string \<times> nat" where
  "best_literal s best r = (case match_length r s of
     None \<Rightarrow> best | Some n \<Rightarrow> if snd best < n then (''typed_literal'', n) else best)"

definition scan_word :: "string \<Rightarrow> string \<times> nat" where
  "scan_word s =
     (let word = takeWhile is_word_char s;
          b0 = (if py_upper word \<in> set RUSTY_KEYWORDS then ''keyword'' else ''identifier'', length word);
          b1 = (if py_upper (take 4 s) = ''REF='' \<and> snd b0 \<le> 4 then (''symbol'', 4) else b0);
          b2 = (if py_upper (take 12 s) = ''REFERENCE TO'' \<and> snd b1 \<le> 12 then (''keyword'', 12) else b1) in
      if snd b2 < length s \<and> s ! snd b2 = CHR ''#''
      then foldl (best_literal s) (''cast_prefix'', snd b2 + 1) TYPED_LITERAL_RES else b2)"

definition scan_comment :: "string \<Rightarrow> string \<times> nat" where
  "scan_comment s = (case block_comment_end s of Some n \<Rightarrow> (''comment'', n) | None \<Rightarrow> (''error'', 2))"

definition scan_brace :: "string \<Rightarrow> string \<times> nat" where
  "scan_brace s = (case find (\<lambda>t. starts_with t s) PROPERTY_TOKENS of
     Some t \<Rightarrow> (''property'', length t)
   | None \<Rightarrow>
     if hd s = CHR ''{'' \<and> CHR ''}'' \<in> set (tl s)
     then (''pragma'', length (takeWhile (\<lambda>d. d \<noteq> CHR ''}'') s) + 1) else (''error'', 1))"

definition scan_string :: "string \<Rightarrow> string \<times> nat" where
  "scan_string s = (case match_length (string_rx (hd s)) s of
     Some n \<Rightarrow> (if hd s = CHR 0x27 then ''string'' else ''wstring'', n) | None \<Rightarrow> (''error'', 1))"

definition scan_direct :: "string \<Rightarrow> string \<times> nat" where
  "scan_direct s = (case match_length DIRECT_RE s of Some n \<Rightarrow> (''direct_access'', n) | None \<Rightarrow> (''error'', 1))"

definition scan_number :: "string \<Rightarrow> string \<times> nat" where
  "scan_number s =
     (''number'', foldl max 0 (map (\<lambda>r. case match_length r s of None \<Rightarrow> 0 | Some n \<Rightarrow> n) NUMBER_RES))"

definition scan_symbol :: "string \<Rightarrow> string \<times> nat" where
  "scan_symbol s = (case find (\<lambda>t. starts_with t s) SYMBOLS of
     Some t \<Rightarrow> (''symbol'', length t) | None \<Rightarrow> (''error'', 1))"

definition scan :: "string \<Rightarrow> string \<times> nat" where
  "scan s =
     (let c = hd s in
      if is_blank_char c then (''whitespace'', length (takeWhile is_blank_char s))
      else if starts_with ''(*'' s \<or> starts_with ''/*'' s then scan_comment s
      else if starts_with ''//'' s then (''comment'', length (takeWhile (\<lambda>d. d \<noteq> newline) s))
      else if c = CHR ''{'' \<or> c = CHR ''@'' then scan_brace s
      else if c = CHR 0x27 \<or> c = CHR 0x22 then scan_string s
      else if c = CHR ''%'' then scan_direct s
      else if is_ident_start c then scan_word s
      else if is_digit c then scan_number s
      else scan_symbol s)"

subsection \<open>Every scan makes progress\<close>

primrec consuming :: "rx \<Rightarrow> bool" where
  "consuming (RChar p) = True"
| "consuming REps = False"
| "consuming (RSeq a b) = (consuming a \<or> consuming b)"
| "consuming (RAlt a b) = (consuming a \<and> consuming b)"
| "consuming (RStar a) = False"
| "consuming (RLazy a) = False"
| "consuming (RGroup n a) = consuming a"
| "consuming REnd = False"

lemma rx_match_shorter: "y \<in> set (rx_match r x) \<Longrightarrow> length (fst y) \<le> length (fst x)"
  using rx_match_suffix [of y r x] by auto

lemma consuming_shorter: "consuming r \<Longrightarrow> y \<in> set (rx_match r x) \<Longrightarrow> length (fst y) < length (fst x)"
proof (induction r arbitrary: x y)
  case (RChar p)
  then show ?case by (cases "fst x") (auto split: if_splits)
next
  case (RSeq a b)
  then obtain z where z: "z \<in> set (rx_match a x)" "y \<in> set (rx_match b z)" by auto
  from RSeq.prems(1) show ?case
  proof (simp, elim disjE)
    assume "consuming a"
    from RSeq.IH(1) [OF this z(1)] rx_match_shorter [OF z(2)] show ?thesis by simp
  next
    assume "consuming b"
    from RSeq.IH(2) [OF this z(2)] rx_match_shorter [OF z(1)] show ?thesis by simp
  qed
qed auto

lemma match_length_bounds:
  assumes "match_length r s = Some n"
  shows "n \<le> length s" "consuming r \<Longrightarrow> 1 \<le> n"
proof -
  obtain rest g where y: "rx_first r s = Some (rest, g)" "n = length s - length rest"
    using assms by (auto simp: match_length_def)
  then have m: "(rest, g) \<in> set (rx_match r (s, []))" by (auto simp: rx_first_def split: list.splits)
  show "n \<le> length s" by (simp add: y(2))
  show "consuming r \<Longrightarrow> 1 \<le> n" using consuming_shorter [OF _ m] by (simp add: y(2))
qed

lemma rx_star_not_Nil [simp]: "rx_star n m x \<noteq> []"
  by (cases n) simp_all

lemma rx_opt_not_Nil [simp]: "rx_match (rx_opt r) x \<noteq> []"
  by (simp add: rx_opt_def)

lemma rx_plus_digit: "s \<noteq> [] \<Longrightarrow> p (hd s) \<Longrightarrow> rx_match (rx_plus (RChar p)) (s, g) \<noteq> []"
  by (cases s) (simp_all add: rx_plus_def)

lemma rx_seq_not_Nil: "rx_match a x \<noteq> [] \<Longrightarrow> (\<And>y. rx_match b y \<noteq> []) \<Longrightarrow> rx_match (RSeq a b) x \<noteq> []"
  by (cases "rx_match a x") simp_all

lemma number_matches:
  assumes "s \<noteq> []" "is_digit (hd s)"
  shows "\<exists>n. match_length (NUMBER_RES ! 3) s = Some n \<and> 1 \<le> n"
proof -
  have "rx_match (NUMBER_RES ! 3) (s, []) \<noteq> []"
    using rx_plus_digit [of s is_digit "[]"] assms
    by (simp add: NUMBER_RES_def rx_grouped_def del: rx_match.simps(3)) (intro rx_seq_not_Nil; simp del: rx_match.simps(3))
  then obtain n where n: "match_length (NUMBER_RES ! 3) s = Some n"
    by (cases "rx_match (NUMBER_RES ! 3) (s, [])") (auto simp: match_length_def rx_first_def)
  have "consuming (NUMBER_RES ! 3)" by (simp add: NUMBER_RES_def rx_grouped_def rx_plus_def)
  with n match_length_bounds(2) show ?thesis by blast
qed

lemma foldl_max_bounds:
  "(\<forall>x \<in> set xs. x \<le> b) \<Longrightarrow> a \<le> b \<Longrightarrow> foldl max a xs \<le> (b :: nat)"
  "x = a \<or> x \<in> set xs \<Longrightarrow> x \<le> foldl max a xs"
proof (induction xs arbitrary: a x)
  case (Cons y ys)
  {
    case 1
    then show ?case using Cons.IH(1) [of "max a y"] by simp
  next
    case 2
    then consider "x \<le> max a y" | "x \<in> set ys" by auto
    then show ?case
    proof cases
      case 1
      have "max a y \<le> foldl max (max a y) ys" using Cons.IH(2) by blast
      with 1 have "x \<le> foldl max (max a y) ys" by (rule order_trans)
      then show ?thesis by simp
    next
      case 2
      then show ?thesis using Cons.IH(2) by simp
    qed
  }
qed simp_all

lemma scan_number_bounds:
  assumes "s \<noteq> []" "is_digit (hd s)"
  shows "1 \<le> foldl max 0 (map (\<lambda>r. case match_length r s of None \<Rightarrow> 0 | Some n \<Rightarrow> n) NUMBER_RES)
    \<and> foldl max 0 (map (\<lambda>r. case match_length r s of None \<Rightarrow> 0 | Some n \<Rightarrow> n) NUMBER_RES) \<le> length s"
proof -
  let ?xs = "map (\<lambda>r. case match_length r s of None \<Rightarrow> 0 | Some n \<Rightarrow> n) NUMBER_RES"
  have "\<forall>x \<in> set ?xs. x \<le> length s" using match_length_bounds(1) by (auto split: option.splits)
  then have "foldl max 0 ?xs \<le> length s" by (intro foldl_max_bounds(1)) simp_all
  moreover obtain n where n: "match_length (NUMBER_RES ! 3) s = Some n" "1 \<le> n"
    using number_matches [OF assms] by blast
  have "length NUMBER_RES = 4" by (simp add: NUMBER_RES_def)
  then have "NUMBER_RES ! 3 \<in> set NUMBER_RES" by (intro nth_mem) simp
  with n(1) have "n \<in> set ?xs" by force
  then have "n \<le> foldl max 0 ?xs" by (intro foldl_max_bounds(2)) simp
  ultimately show ?thesis using n(2) by linarith
qed

lemma starts_with_length: "starts_with p s \<Longrightarrow> length p \<le> length s"
  unfolding starts_with_def by (metis length_take min.cobounded1)

lemma comment_length_bounds: "comment_length a b u p s = Some n \<Longrightarrow> n \<le> length s"
  by (induction a b u p s arbitrary: n rule: comment_length.induct) (auto simp: Let_def split: if_splits)

lemma best_literals_bounds:
  "1 \<le> snd b \<Longrightarrow> snd b \<le> length s \<Longrightarrow> 1 \<le> snd (foldl (best_literal s) b rs) \<and> snd (foldl (best_literal s) b rs) \<le> length s"
proof (induction rs arbitrary: b)
  case (Cons r rs)
  have "1 \<le> snd (best_literal s b r) \<and> snd (best_literal s b r) \<le> length s"
    using Cons.prems match_length_bounds(1) by (auto simp: best_literal_def split: option.splits)
  with Cons.IH show ?case by simp
qed simp

lemma upper_take_length: "py_upper (take n s) = t \<Longrightarrow> length t = n \<Longrightarrow> n \<le> length s"
  by (metis length_map length_take min.cobounded1)

lemma scan_word_bounds:
  assumes "s \<noteq> []" "is_ident_start (hd s)"
  shows "1 \<le> snd (scan_word s) \<and> snd (scan_word s) \<le> length s"
proof -
  have w: "1 \<le> length (takeWhile is_word_char s)" "length (takeWhile is_word_char s) \<le> length s"
    using assms by (cases s; auto simp: is_ident_start_def is_word_char_def is_alnum_def length_takeWhile_le)+
  have r: "py_upper (take 4 s) = ''REF='' \<Longrightarrow> 4 \<le> length s" "py_upper (take 12 s) = ''REFERENCE TO'' \<Longrightarrow> 12 \<le> length s"
    by (erule upper_take_length; simp)+
  define b0 where "b0 = (if py_upper (takeWhile is_word_char s) \<in> set RUSTY_KEYWORDS then ''keyword'' else ''identifier'',
    length (takeWhile is_word_char s))"
  define b1 where "b1 = (if py_upper (take 4 s) = ''REF='' \<and> snd b0 \<le> 4 then (''symbol'', 4) else b0)"
  define b2 where "b2 = (if py_upper (take 12 s) = ''REFERENCE TO'' \<and> snd b1 \<le> 12 then (''keyword'', 12) else b1)"
  have "1 \<le> snd b0 \<and> snd b0 \<le> length s" using w by (simp add: b0_def)
  then have "1 \<le> snd b1 \<and> snd b1 \<le> length s" using r(1) by (auto simp: b1_def)
  then have b2: "1 \<le> snd b2 \<and> snd b2 \<le> length s" using r(2) by (auto simp: b2_def)
  have e: "scan_word s = (if snd b2 < length s \<and> s ! snd b2 = CHR ''#''
      then foldl (best_literal s) (''cast_prefix'', snd b2 + 1) TYPED_LITERAL_RES else b2)"
    by (simp only: scan_word_def Let_def b0_def b1_def b2_def)
  show ?thesis
  proof (cases "snd b2 < length s \<and> s ! snd b2 = CHR ''#''")
    case True
    then show ?thesis using best_literals_bounds [of "(''cast_prefix'', snd b2 + 1)" s TYPED_LITERAL_RES] by (simp add: e)
  next
    case False
    then show ?thesis using b2 by (simp only: e if_False)
  qed
qed

lemma find_starts_with:
  assumes "find (\<lambda>t. starts_with t s) ts = Some t" "\<forall>t \<in> set ts. t \<noteq> []"
  shows "1 \<le> length t \<and> length t \<le> length s"
proof -
  have "t \<in> set ts" "starts_with t s" using assms(1) by (auto simp: find_Some_iff)
  with assms(2) starts_with_length show ?thesis by (metis One_nat_def Suc_leI length_greater_0_conv)
qed

definition in_bounds :: "string \<Rightarrow> string \<times> nat \<Rightarrow> bool" where
  "in_bounds s r = (1 \<le> snd r \<and> snd r \<le> length s)"

lemma scan_comment_bounds: "2 \<le> length s \<Longrightarrow> in_bounds s (scan_comment s)"
  using comment_length_bounds [of _ _ _ _ "drop 2 s"]
  by (force simp: in_bounds_def scan_comment_def block_comment_end_def Let_def split: option.splits)

lemma scan_brace_bounds:
  assumes "s \<noteq> []"
  shows "in_bounds s (scan_brace s)"
proof (cases "find (\<lambda>t. starts_with t s) PROPERTY_TOKENS")
  case None
  have "length (takeWhile (\<lambda>d. d \<noteq> CHR ''}'') s) < length s" if "CHR ''}'' \<in> set (tl s)"
  proof -
    have "takeWhile (\<lambda>d. d \<noteq> CHR ''}'') s \<noteq> s"
      using that list.set_sel(2) [OF assms] by (auto simp: takeWhile_eq_all_conv)
    then show ?thesis using length_takeWhile_le [of "\<lambda>d. d \<noteq> CHR ''}''" s]
      by (metis (no_types, lifting) append_Nil2 append_eq_append_conv nat_less_le takeWhile_dropWhile_id)
  qed
  moreover have "1 \<le> length s" using assms by (cases s) simp_all
  ultimately show ?thesis using None by (auto simp: in_bounds_def scan_brace_def)
next
  case (Some t)
  have "\<forall>t \<in> set PROPERTY_TOKENS. t \<noteq> []" by (simp add: PROPERTY_TOKENS_def)
  from find_starts_with [OF Some this] Some show ?thesis by (simp add: in_bounds_def scan_brace_def)
qed

lemma scan_regex_bounds:
  assumes "s \<noteq> []"
  shows "in_bounds s (scan_string s)" "in_bounds s (scan_direct s)"
proof -
  have l: "1 \<le> length s" using assms by (cases s) simp_all
  have "consuming (string_rx q)" for q by (simp add: string_rx_def)
  then show "in_bounds s (scan_string s)"
    using match_length_bounds [of "string_rx (hd s)" s] l by (auto simp: in_bounds_def scan_string_def split: option.splits)
  have "consuming DIRECT_RE" by (simp add: DIRECT_RE_def one_of_def)
  then show "in_bounds s (scan_direct s)"
    using match_length_bounds [of DIRECT_RE s] l by (auto simp: in_bounds_def scan_direct_def split: option.splits)
qed

lemma scan_symbol_bounds:
  assumes "s \<noteq> []"
  shows "in_bounds s (scan_symbol s)"
proof (cases "find (\<lambda>t. starts_with t s) SYMBOLS")
  case None
  then show ?thesis using assms by (cases s) (simp_all add: in_bounds_def scan_symbol_def)
next
  case (Some t)
  have "\<forall>t \<in> set SYMBOLS. t \<noteq> []" by (simp add: SYMBOLS_def)
  from find_starts_with [OF Some this] Some show ?thesis by (simp add: in_bounds_def scan_symbol_def)
qed

lemma take_while_bounds: "s \<noteq> [] \<Longrightarrow> p (hd s) \<Longrightarrow> in_bounds s (k, length (takeWhile p s))"
  using length_takeWhile_le by (cases s) (simp_all add: in_bounds_def length_takeWhile_le)

lemma scan_progress:
  assumes "s \<noteq> []"
  shows "1 \<le> snd (scan s) \<and> snd (scan s) \<le> length s"
proof -
  have c: "starts_with ''(*'' s \<or> starts_with ''/*'' s \<Longrightarrow> 2 \<le> length s" using starts_with_length by fastforce
  have l: "starts_with ''//'' s \<Longrightarrow> hd s \<noteq> newline" by (cases s) (auto simp: starts_with_def newline_def)
  have w: "is_ident_start (hd s) \<Longrightarrow> in_bounds s (scan_word s)" using scan_word_bounds [OF assms] by (simp add: in_bounds_def)
  have n: "is_digit (hd s) \<Longrightarrow> in_bounds s (scan_number s)"
    using scan_number_bounds [OF assms] by (simp add: in_bounds_def scan_number_def)
  have "in_bounds s (scan s)"
    unfolding scan_def Let_def
    using scan_comment_bounds [OF c] scan_brace_bounds [OF assms] scan_regex_bounds [OF assms] w n
      scan_symbol_bounds [OF assms] take_while_bounds [OF assms, of is_blank_char]
      take_while_bounds [OF assms, of "\<lambda>d. d \<noteq> newline"] l by simp
  then show ?thesis by (simp add: in_bounds_def)
qed

subsection \<open>Tokens\<close>

record lossless_token =
  lt_kind :: string
  lt_text :: string
  lt_start :: nat
  lt_end :: nat
  lt_line :: nat
  lt_column :: nat

text \<open>The offset just after the last newline of a text, counted from its start.\<close>

definition after_last_newline :: "string \<Rightarrow> nat" where
  "after_last_newline s = length s - length (takeWhile (\<lambda>c. c \<noteq> newline) (rev s))"

lemma scan_pos: "s \<noteq> [] \<Longrightarrow> (kind, n) = scan s \<Longrightarrow> 0 < n"
  using scan_progress [of s] by (metis One_nat_def Suc_le_lessD snd_conv)

function tokens_from :: "nat \<Rightarrow> nat \<Rightarrow> nat \<Rightarrow> string \<Rightarrow> lossless_token list" where
  "tokens_from i line line_start s =
     (if s = [] then []
      else let (kind, n) = scan s; text = take n s; nls = length (newlines_of text) in
        \<lparr>lt_kind = kind, lt_text = text, lt_start = i, lt_end = i + n, lt_line = line,
         lt_column = i - line_start + 1\<rparr>
        # tokens_from (i + n) (line + nls)
            (if nls > 0 then i + after_last_newline text else line_start) (drop n s))"
  by pat_completeness auto
termination
  by (relation "measure (\<lambda>(_, _, _, s). length s)") (use scan_pos in fastforce)+

declare tokens_from.simps [simp del]

definition tokenize_lossless :: "string \<Rightarrow> lossless_token list" where
  "tokenize_lossless src = tokens_from 0 1 0 src"

definition is_trivia :: "lossless_token \<Rightarrow> bool" where
  "is_trivia t = (lt_kind t \<in> set TRIVIA)"

definition significant :: "lossless_token list \<Rightarrow> lossless_token list" where
  "significant ts = filter (\<lambda>t. \<not> is_trivia t) ts"

lemma tokens_from_step:
  assumes "s \<noteq> []"
  obtains kind n where "scan s = (kind, n)" "1 \<le> n" "n \<le> length s"
    "tokens_from i line ls s = \<lparr>lt_kind = kind, lt_text = take n s, lt_start = i, lt_end = i + n, lt_line = line,
        lt_column = i - ls + 1\<rparr> # tokens_from (i + n) (line + length (newlines_of (take n s)))
        (if length (newlines_of (take n s)) > 0 then i + after_last_newline (take n s) else ls) (drop n s)"
proof -
  obtain kind n where k: "scan s = (kind, n)" by force
  with scan_progress [OF assms] that assms show ?thesis by (simp add: tokens_from.simps [of i line ls s] Let_def)
qed

text \<open>The position of an offset: its line, and the start of that line.\<close>

definition line_at :: "string \<Rightarrow> nat \<Rightarrow> nat" where
  "line_at src k = 1 + length (newlines_of (take k src))"

definition line_start_at :: "string \<Rightarrow> nat \<Rightarrow> nat" where
  "line_start_at src k = after_last_newline (take k src)"

lemma after_last_newline_append:
  "after_last_newline (p @ t) = (if newline \<in> set t then length p + after_last_newline t else after_last_newline p)"
proof (cases "newline \<in> set t")
  case True
  then have "takeWhile (\<lambda>c. c \<noteq> newline) (rev t @ rev p) = takeWhile (\<lambda>c. c \<noteq> newline) (rev t)"
    by (intro takeWhile_append1 [of newline]) simp_all
  moreover have "length (takeWhile (\<lambda>c. c \<noteq> newline) (rev t)) \<le> length t"
    by (metis length_rev length_takeWhile_le)
  ultimately show ?thesis using True by (simp add: after_last_newline_def)
next
  case False
  then have "takeWhile (\<lambda>c. c \<noteq> newline) (rev t @ rev p) = rev t @ takeWhile (\<lambda>c. c \<noteq> newline) (rev p)"
    by (intro takeWhile_append2) auto
  with False show ?thesis by (simp add: after_last_newline_def)
qed

lemma newlines_of_pos: "(length (newlines_of t) > 0) = (newline \<in> set t)"
  by (auto simp: newlines_of_def filter_empty_conv)

lemma tokens_from_spec:
  "length (concat (map lt_text (tokens_from i line ls s))) = length s
   \<and> concat (map lt_text (tokens_from i line ls s)) = s
   \<and> (\<forall>t \<in> set (tokens_from i line ls s). lt_text t \<noteq> [])"
proof (induction "length s" arbitrary: i line ls s rule: less_induct)
  case less
  show ?case
  proof (cases "s = []")
    case True
    then show ?thesis by (simp add: tokens_from.simps)
  next
    case False
    then obtain kind n where k: "1 \<le> n" "n \<le> length s"
      "tokens_from i line ls s = \<lparr>lt_kind = kind, lt_text = take n s, lt_start = i, lt_end = i + n, lt_line = line,
        lt_column = i - ls + 1\<rparr> # tokens_from (i + n) (line + length (newlines_of (take n s)))
        (if length (newlines_of (take n s)) > 0 then i + after_last_newline (take n s) else ls) (drop n s)"
      by (rule tokens_from_step)
    have "length (drop n s) < length s" using k(1) False by simp
    from less [OF this] k False show ?thesis by auto
  qed
qed

lemma tokens_from_positions:
  assumes "src = p @ s" "i = length p" "line = line_at src i" "ls = line_start_at src i"
  shows "\<forall>t \<in> set (tokens_from i line ls s). lt_text t = take (lt_end t - lt_start t) (drop (lt_start t) src)
    \<and> lt_start t < lt_end t \<and> lt_end t \<le> length src \<and> lt_line t = line_at src (lt_start t)
    \<and> lt_column t = lt_start t - line_start_at src (lt_start t) + 1"
  using assms
proof (induction "length s" arbitrary: p i line ls s rule: less_induct)
  case less
  show ?case
  proof (cases "s = []")
    case True
    then show ?thesis by (simp add: tokens_from.simps)
  next
    case False
    then obtain kind n where k: "1 \<le> n" "n \<le> length s"
      "tokens_from i line ls s = \<lparr>lt_kind = kind, lt_text = take n s, lt_start = i, lt_end = i + n, lt_line = line,
        lt_column = i - ls + 1\<rparr> # tokens_from (i + n) (line + length (newlines_of (take n s)))
        (if length (newlines_of (take n s)) > 0 then i + after_last_newline (take n s) else ls) (drop n s)"
      by (rule tokens_from_step)
    let ?p = "p @ take n s"
    have "line + length (newlines_of (take n s)) = line_at src (i + n)"
      using less.prems k(2) by (simp add: line_at_def newlines_of_def)
    moreover have "(if length (newlines_of (take n s)) > 0 then i + after_last_newline (take n s) else ls)
        = line_start_at src (i + n)"
      using less.prems k(2) by (simp only: newlines_of_pos) (simp add: line_start_at_def after_last_newline_append)
    ultimately have "\<forall>t \<in> set (tokens_from (i + n) (line + length (newlines_of (take n s)))
        (if length (newlines_of (take n s)) > 0 then i + after_last_newline (take n s) else ls) (drop n s)).
      lt_text t = take (lt_end t - lt_start t) (drop (lt_start t) src)
    \<and> lt_start t < lt_end t \<and> lt_end t \<le> length src \<and> lt_line t = line_at src (lt_start t)
    \<and> lt_column t = lt_start t - line_start_at src (lt_start t) + 1"
      using less.prems k(1,2) False by (intro less.hyps [of "drop n s" ?p]) simp_all
    then show ?thesis using less.prems k by simp
  qed
qed

lemma tokens_from_adjacent:
  "k < length (tokens_from i line ls s) \<Longrightarrow>
    lt_start (tokens_from i line ls s ! k) = i + length (concat (map lt_text (take k (tokens_from i line ls s))))
    \<and> lt_end (tokens_from i line ls s ! k) = lt_start (tokens_from i line ls s ! k) + length (lt_text (tokens_from i line ls s ! k))"
proof (induction "length s" arbitrary: i line ls s k rule: less_induct)
  case less
  show ?case
  proof (cases "s = []")
    case True
    then show ?thesis using less.prems by (simp add: tokens_from.simps)
  next
    case False
    then obtain kind n where n: "1 \<le> n" "n \<le> length s"
      and ts: "tokens_from i line ls s = \<lparr>lt_kind = kind, lt_text = take n s, lt_start = i, lt_end = i + n, lt_line = line,
        lt_column = i - ls + 1\<rparr> # tokens_from (i + n) (line + length (newlines_of (take n s)))
        (if length (newlines_of (take n s)) > 0 then i + after_last_newline (take n s) else ls) (drop n s)"
      by (rule tokens_from_step)
    have shorter: "length (drop n s) < length s" using n(1) False by simp
    show ?thesis
    proof (cases k)
      case 0
      then show ?thesis using n by (simp add: ts)
    next
      case (Suc k')
      with less.prems have "k' < length (tokens_from (i + n) (line + length (newlines_of (take n s)))
        (if length (newlines_of (take n s)) > 0 then i + after_last_newline (take n s) else ls) (drop n s))"
        by (simp add: ts)
      from less.hyps [OF shorter this] show ?thesis using n(2) by (simp add: ts Suc)
    qed
  qed
qed

text \<open>
  (C23) The lossless tokenizer loses nothing and always ends: the token texts, joined, are the source;
  the tokens lie side by side, each starting where the texts before it end and ending where its own text
  ends, so no token is empty and none overlaps or skips a character; and every token's text is the
  source between its offsets, on the line and column its start has there.
\<close>

theorem tokenize_lossless_exact:
  "concat (map lt_text (tokenize_lossless src)) = src
   \<and> (\<forall>k < length (tokenize_lossless src).
        lt_start (tokenize_lossless src ! k) = length (concat (map lt_text (take k (tokenize_lossless src))))
        \<and> lt_end (tokenize_lossless src ! k) = lt_start (tokenize_lossless src ! k) + length (lt_text (tokenize_lossless src ! k)))
   \<and> (\<forall>t \<in> set (tokenize_lossless src).
        lt_text t = take (lt_end t - lt_start t) (drop (lt_start t) src)
        \<and> lt_start t < lt_end t \<and> lt_end t \<le> length src \<and> lt_line t = line_at src (lt_start t)
        \<and> lt_column t = lt_start t - line_start_at src (lt_start t) + 1)"
proof -
  have "line_at src 0 = 1" "line_start_at src 0 = 0"
    by (simp_all add: line_at_def newlines_of_def line_start_at_def after_last_newline_def)
  then have "\<forall>t \<in> set (tokenize_lossless src). lt_text t = take (lt_end t - lt_start t) (drop (lt_start t) src)
        \<and> lt_start t < lt_end t \<and> lt_end t \<le> length src \<and> lt_line t = line_at src (lt_start t)
        \<and> lt_column t = lt_start t - line_start_at src (lt_start t) + 1"
    using tokens_from_positions [of src "[]" src 0 1 0] by (simp add: tokenize_lossless_def)
  moreover have "\<forall>k < length (tokenize_lossless src).
      lt_start (tokenize_lossless src ! k) = length (concat (map lt_text (take k (tokenize_lossless src))))
      \<and> lt_end (tokenize_lossless src ! k) = lt_start (tokenize_lossless src ! k) + length (lt_text (tokenize_lossless src ! k))"
    using tokens_from_adjacent [where i = 0 and line = 1 and ls = 0 and s = src] unfolding tokenize_lossless_def add_0 by blast
  moreover have "concat (map lt_text (tokenize_lossless src)) = src"
    using tokens_from_spec [of 0 1 0 src] by (simp add: tokenize_lossless_def)
  ultimately show ?thesis by blast
qed

theorem tokenize_lossless_exact_witness:
  "lt_text (tokenize_lossless ''a a'' ! 2) = ''a'' \<and> lt_start (tokenize_lossless ''a a'' ! 2) = 2"
proof -
  have texts: "map lt_text (tokenize_lossless ''a a'') = [''a'', '' '', ''a'']" by code_simp
  then have n: "2 < length (tokenize_lossless ''a a'')" using arg_cong [OF texts, of length] unfolding length_map by simp
  have "map lt_text (take 2 (tokenize_lossless ''a a'')) = [''a'', '' '']" by (simp add: texts flip: take_map)
  moreover have "lt_text (tokenize_lossless ''a a'' ! 2) = ''a''" using nth_map [OF n, of lt_text] by (simp add: texts)
  ultimately show ?thesis using conjunct1 [OF conjunct2 [OF tokenize_lossless_exact [of "''a a''"]], THEN spec, of 2] n by simp
qed

section \<open>What the declaration lexer keeps\<close>

lemma newlines_of_append [simp]: "newlines_of (a @ b) = newlines_of a @ newlines_of b"
  by (simp add: newlines_of_def)

lemma newlines_of_idem [simp]: "newlines_of (newlines_of s) = newlines_of s"
  by (simp add: newlines_of_def)

lemma starts_with_split: "starts_with p s \<Longrightarrow> s = p @ drop (length p) s"
  unfolding starts_with_def by (metis append_take_drop_id)

lemma newlines_opener:
  assumes "starts_with p s" and "p = ''(*'' \<or> p = ''//''"
  shows "newlines_of s = newlines_of (drop 2 s)"
  using assms(2) arg_cong [OF starts_with_split [OF assms(1)], of newlines_of]
  by (auto simp: newlines_of_def newline_def numeral_2_eq_2)

lemma newlines_line_comment: "newlines_of s = newlines_of (dropWhile (\<lambda>c. c \<noteq> newline) s)"
proof -
  have "newlines_of (takeWhile (\<lambda>c. c \<noteq> newline) s) = []"
    by (auto simp: newlines_of_def filter_empty_conv dest: set_takeWhileD)
  then have "newlines_of (takeWhile (\<lambda>c. c \<noteq> newline) s @ dropWhile (\<lambda>c. c \<noteq> newline) s)
      = newlines_of (dropWhile (\<lambda>c. c \<noteq> newline) s)"
    unfolding newlines_of_append by simp
  then show ?thesis unfolding takeWhile_dropWhile_id .
qed

text \<open>
  Stripping comments keeps every line break, so positions reported on the stripped text are
  on the lines of the original.
\<close>

theorem strip_comments_keeps_lines:
  "newlines_of (strip_comments src) = newlines_of src"
proof (induction src rule: strip_comments.induct)
  case (1 s)
  note IH = 1
  consider "s = []" | "s \<noteq> []" "starts_with ''(*'' s" | "s \<noteq> []" "\<not> starts_with ''(*'' s" "starts_with ''//'' s"
    | "s \<noteq> []" "\<not> starts_with ''(*'' s" "\<not> starts_with ''//'' s" by blast
  then show ?case
  proof cases
    case 1
    then show ?thesis by (simp add: strip_comments.simps)
  next
    case 2
    note s = newlines_opener [OF 2(2)]
    show ?thesis
    proof (cases "split_close (drop 2 s)")
      case None
      with 2 show ?thesis by (subst strip_comments.simps) simp
    next
      case (Some pq)
      obtain p q where pq: "pq = (p, q)" by force
      have "drop 2 s = p @ q" using split_close_append Some pq by blast
      moreover have "newlines_of (strip_comments q) = newlines_of q" using IH(1) [OF 2 Some] pq by simp
      ultimately show ?thesis using 2 Some pq s by (subst strip_comments.simps) simp
    qed
  next
    case 3
    have sd: "newlines_of s = newlines_of (dropWhile (\<lambda>c. c \<noteq> newline) (drop 2 s))"
      using newlines_opener [OF 3(3)] newlines_line_comment [of "drop 2 s"] by simp
    show ?thesis
    proof (cases "dropWhile (\<lambda>c. c \<noteq> newline) (drop 2 s)")
      case Nil
      then show ?thesis using 3 sd [unfolded Nil] unfolding strip_comments.simps [of s] Nil by (simp add: newlines_of_def)
    next
      case (Cons n r)
      then have "n = newline" by (metis (mono_tags) dropWhile_eq_Cons_conv)
      moreover have "newlines_of (strip_comments r) = newlines_of r" using IH(2) [OF 3 Cons] .
      ultimately show ?thesis using 3 sd Cons by (subst strip_comments.simps) (simp add: newlines_of_def)
    qed
  next
    case 4
    then obtain c r where s: "s = c # r" by (cases s) auto
    have "newlines_of (strip_comments r) = newlines_of r" using IH(3) [OF 4] by (simp add: s)
    then show ?thesis using 4 by (subst strip_comments.simps) (simp add: s newlines_of_def)
  qed
qed

lemma lex_from_texts:
  "filter (\<lambda>c. \<not> is_space c) (concat (map tk_text (lex_from index lc s))) = filter (\<lambda>c. \<not> is_space c) s
   \<and> map tk_index (lex_from index lc s) = [index..<index + length (lex_from index lc s)]"
proof (induction index lc s rule: lex_from.induct)
  case (1 index lc s)
  consider "s = []" | "s \<noteq> []" "is_space (hd s)" | "s \<noteq> []" "\<not> is_space (hd s)" by blast
  then show ?case
  proof cases
    case 1
    then show ?thesis by (subst (1 2 3) lex_from.simps) simp
  next
    case 2
    then obtain c r where "s = c # r" "is_space c" by (cases s) auto
    with "1.IH"(1) [OF 2] 2 show ?thesis by (subst (1 2 3) lex_from.simps) simp
  next
    case 3
    obtain kind n where k: "scan_token s = (kind, n)" by force
    have l: "lex_from index lc s = \<lparr>tk_kind = kind, tk_text = take n s, tk_line = fst lc, tk_column = snd lc, tk_index = index\<rparr>
        # lex_from (index + 1) (advance_pos lc (take n s)) (drop n s)"
      using 3 k by (subst lex_from.simps) simp
    have "filter (\<lambda>c. \<not> is_space c) (take n s) @ filter (\<lambda>c. \<not> is_space c) (drop n s) = filter (\<lambda>c. \<not> is_space c) s"
      by (metis append_take_drop_id filter_append)
    moreover have "[index..<index + Suc m] = index # [Suc index..<Suc index + m]" for m
      by (simp add: upt_conv_Cons del: upt_Suc)
    ultimately show ?thesis using "1.IH"(2) [OF 3 refl, of kind n] k unfolding l by (simp del: upt_Suc)
  qed
qed

text \<open>
  The declaration lexer drops white space only: the texts of its tokens, white space aside,
  are the comment-free source, and the tokens are numbered consecutively.
\<close>

theorem tokenize_st_keeps_text:
  "filter (\<lambda>c. \<not> is_space c) (concat (map tk_text (tokenize_st src)))
     = filter (\<lambda>c. \<not> is_space c) (strip_comments (normalize_var_input_constant src))
   \<and> map tk_index (tokenize_st src) = [0..<length (tokenize_st src)]"
  using lex_from_texts [of 0 "(1, 1)"] by (simp add: tokenize_st_def)

end
