(* ===== verification/Source_Map.thy ===== *)
theory Source_Map
  imports St_Lexer
begin

text \<open>
  The span edits of the vendor-intake normalizer and their mapping back to the original text
  (\<^verbatim>\<open>src/compiler/intake/normalize/sourcemap.py\<close>). The current text is a list of pieces; a
  piece is a copied slice of the original, a moved slice, or a replacement that carries the rule
  that produced it and the original span it stands for. Offsets are natural numbers: the rules take
  them from the token stream of the current text. The theorems show what \<^verbatim>\<open>replace\<close> and
  \<^verbatim>\<open>move\<close> do to the text, and that after any sequence of edits the map back to the original is in
  range and exact on every copied or moved character.
\<close>

section \<open>Pieces\<close>

record piece =
  pc_text :: string
  original_start :: nat
  original_end :: nat
  rule :: "string option"
  exact :: bool

definition copied :: "piece \<Rightarrow> bool" where
  "copied p = (rule p = None)"

definition precise :: "piece \<Rightarrow> bool" where
  "precise p = (copied p \<or> exact p)"

definition mk_piece :: "string \<Rightarrow> nat \<Rightarrow> nat \<Rightarrow> string option \<Rightarrow> bool \<Rightarrow> piece" where
  "mk_piece t a b r e = \<lparr>pc_text = t, original_start = a, original_end = b, rule = r, exact = e\<rparr>"

record editable_source =
  original :: string
  pieces :: "piece list"

definition new_source :: "string \<Rightarrow> editable_source" where
  "new_source s = \<lparr>original = s, pieces = (if s \<noteq> [] then [mk_piece s 0 (length s) None False] else [])\<rparr>"

definition src_text :: "editable_source \<Rightarrow> string" where
  "src_text es = concat (map pc_text (pieces es))"

section \<open>Operations\<close>

text \<open>\<^verbatim>\<open>text[begin:finish]\<close> for non-negative bounds.\<close>

definition span :: "nat \<Rightarrow> nat \<Rightarrow> 'a list \<Rightarrow> 'a list" where
  "span b f xs = take (f - b) (drop b xs)"

definition slice_piece :: "piece \<Rightarrow> nat \<Rightarrow> nat \<Rightarrow> piece" where
  "slice_piece p b f =
     (if precise p
      then mk_piece (span b f (pc_text p)) (original_start p + b) (original_start p + f) (rule p) (exact p)
      else mk_piece (span b f (pc_text p)) (original_start p) (original_end p) (rule p) False)"

text \<open>The loop of \<^verbatim>\<open>to_original\<close> from a position; the last piece also takes the offsets past the end.\<close>

fun original_from :: "nat \<Rightarrow> nat \<Rightarrow> nat \<Rightarrow> piece list \<Rightarrow> nat" where
  "original_from len position offset [] = len"
| "original_from len position offset (p # ps) =
     (if offset < position + length (pc_text p) \<or> ps = []
      then (if precise p then original_start p + min (offset - position) (length (pc_text p))
            else original_start p)
      else original_from len (position + length (pc_text p)) offset ps)"

definition to_original :: "editable_source \<Rightarrow> nat \<Rightarrow> nat" where
  "to_original es offset = original_from (length (original es)) 0 offset (pieces es)"

text \<open>The loop of \<^verbatim>\<open>replace\<close>: the pieces before, under and after the edited span.\<close>

fun split_pieces :: "nat \<Rightarrow> nat \<Rightarrow> nat \<Rightarrow> piece list \<Rightarrow> piece list \<times> piece list \<times> piece list" where
  "split_pieces position start finish [] = ([], [], [])"
| "split_pieces position start finish (p # ps) =
     (let piece_start = position; piece_end = position + length (pc_text p);
          (before, covered, after) = split_pieces piece_end start finish ps
      in if piece_end \<le> start \<and> \<not> (piece_start < start \<and> start < piece_end)
         then (p # before, covered, after)
         else if finish \<le> piece_start \<and> \<not> (piece_start < start \<and> start < piece_end)
         then (before, covered, p # after)
         else let inner = slice_piece p (max start piece_start - piece_start) (min finish piece_end - piece_start)
              in ((if piece_start < start then [slice_piece p 0 (start - piece_start)] else []) @ before,
                  (if pc_text inner \<noteq> [] then [inner] else []) @ covered,
                  (if finish < piece_end then [slice_piece p (finish - piece_start) (piece_end - piece_start)] else [])
                    @ after))"

datatype edit_error = ReversedSpan | MoveIntoItself

definition replace :: "editable_source \<Rightarrow> nat \<Rightarrow> nat \<Rightarrow> string \<Rightarrow> string \<Rightarrow> edit_error + editable_source" where
  "replace es start finish replacement r =
     (if finish < start then Inl ReversedSpan
      else let insertion_origin = to_original es start;
               (before, covered, after) = split_pieces 0 start finish (pieces es);
               (a, b) = (if covered \<noteq> []
                         then (Min (set (map original_start covered)), Max (set (map original_end covered)))
                         else (insertion_origin, insertion_origin));
               new = mk_piece replacement a b (Some r) False
           in Inr (es\<lparr>pieces := filter (\<lambda>p. pc_text p \<noteq> [] \<or> \<not> copied p) (before @ [new] @ after)\<rparr>))"

text \<open>The cut points of \<^verbatim>\<open>move\<close> that fall inside a piece, and the parts between them.\<close>

definition cut_bounds :: "nat \<Rightarrow> nat \<Rightarrow> nat list \<Rightarrow> nat list" where
  "cut_bounds piece_start piece_end points =
     piece_start # filter (\<lambda>c. piece_start < c \<and> c < piece_end)
                     (sort (filter (\<lambda>c. c \<noteq> piece_start \<and> c \<noteq> piece_end) (remdups points))) @ [piece_end]"

definition piece_parts :: "nat list \<Rightarrow> nat \<Rightarrow> piece \<Rightarrow> (nat \<times> nat \<times> piece) list" where
  "piece_parts points position p =
     (let bounds = cut_bounds position (position + length (pc_text p)) points
      in map (\<lambda>(low, high). (low, high, slice_piece p (low - position) (high - position))) (zip bounds (tl bounds)))"

fun all_parts :: "nat list \<Rightarrow> nat \<Rightarrow> piece list \<Rightarrow> (nat \<times> nat \<times> piece) list" where
  "all_parts points position [] = []"
| "all_parts points position (p # ps) =
     piece_parts points position p @ all_parts points (position + length (pc_text p)) ps"

definition is_moved :: "nat \<Rightarrow> nat \<Rightarrow> nat \<times> nat \<times> piece \<Rightarrow> bool" where
  "is_moved start finish = (\<lambda>(low, high, p). start \<le> low \<and> high \<le> finish \<and> start < finish)"

fun insert_moved :: "nat \<Rightarrow> piece list \<Rightarrow> (nat \<times> nat \<times> piece) list \<Rightarrow> piece list" where
  "insert_moved destination moved [] = moved"
| "insert_moved destination moved ((low, high, p) # kept) =
     (if destination \<le> low then moved @ p # map (\<lambda>q. snd (snd q)) kept
      else p # insert_moved destination moved kept)"

definition move :: "editable_source \<Rightarrow> nat \<Rightarrow> nat \<Rightarrow> nat \<Rightarrow> string \<Rightarrow> edit_error + editable_source" where
  "move es start finish destination r =
     (if start < destination \<and> destination < finish then Inl MoveIntoItself
      else let parts = all_parts [start, finish, destination] 0 (pieces es);
               moved_pieces = map (\<lambda>(_, _, p). mk_piece (pc_text p) (original_start p) (original_end p) (Some r) (precise p))
                                (filter (is_moved start finish) parts);
               kept = filter (\<lambda>q. \<not> is_moved start finish q) parts
           in Inr (es\<lparr>pieces := filter (\<lambda>p. pc_text p \<noteq> []) (insert_moved destination moved_pieces kept)\<rparr>))"

section \<open>The exported map\<close>

text \<open>\<^verbatim>\<open>_LineIndex\<close>: the offsets at which lines start; \<^verbatim>\<open>bisect_right\<close> on a sorted list counts the
  elements up to the key.\<close>

definition line_starts :: "string \<Rightarrow> nat list" where
  "line_starts t = 0 # map (\<lambda>i. i + 1) (filter (\<lambda>i. t ! i = newline) [0..<length t])"

definition bisect_right :: "nat list \<Rightarrow> nat \<Rightarrow> nat" where
  "bisect_right xs x = length (takeWhile (\<lambda>y. y \<le> x) xs)"

definition line_of :: "string \<Rightarrow> nat \<Rightarrow> nat" where
  "line_of t offset = bisect_right (line_starts t) offset"

record segment =
  sg_normalized :: "nat \<times> nat"
  sg_original :: "nat \<times> nat"
  sg_normalized_line :: nat
  sg_original_line :: nat
  sg_rule :: "string option"
  sg_moved :: bool

fun segments_from :: "string \<Rightarrow> string \<Rightarrow> nat \<Rightarrow> piece list \<Rightarrow> segment list" where
  "segments_from text orig position [] = []"
| "segments_from text orig position (p # ps) =
     \<lparr>sg_normalized = (position, position + length (pc_text p)), sg_original = (original_start p, original_end p),
       sg_normalized_line = line_of text position, sg_original_line = line_of orig (original_start p),
       sg_rule = rule p, sg_moved = exact p\<rparr>
     # segments_from text orig (position + length (pc_text p)) ps"

definition segments :: "editable_source \<Rightarrow> segment list" where
  "segments es = segments_from (src_text es) (original es) 0 (pieces es)"

definition line_map :: "editable_source \<Rightarrow> nat list" where
  "line_map es = map (\<lambda>start. line_of (original es) (to_original es start)) (line_starts (src_text es))"

section \<open>What an edit does to the text\<close>

lemma mk_piece_simps [simp]:
  "pc_text (mk_piece t a b r e) = t" "original_start (mk_piece t a b r e) = a"
  "original_end (mk_piece t a b r e) = b" "rule (mk_piece t a b r e) = r" "exact (mk_piece t a b r e) = e"
  by (simp_all add: mk_piece_def)

lemma slice_text [simp]: "pc_text (slice_piece p b f) = span b f (pc_text p)"
  by (simp add: slice_piece_def)

lemma kept_texts [simp]:
  "concat (map pc_text (filter (\<lambda>p. pc_text p \<noteq> [] \<or> \<not> copied p) ps)) = concat (map pc_text ps)"
  "concat (map pc_text (filter (\<lambda>p. pc_text p \<noteq> []) ps)) = concat (map pc_text ps)"
  by (induction ps) auto

lemma split_pieces_texts:
  assumes "split_pieces position start finish ps = (before, covered, after)" "start \<le> finish"
  shows "concat (map pc_text before) = take (start - position) (concat (map pc_text ps))
       \<and> concat (map pc_text after) = drop (finish - position) (concat (map pc_text ps))"
  using assms
proof (induction ps arbitrary: position before covered after)
  case (Cons p ps)
  obtain b c a where r: "split_pieces (position + length (pc_text p)) start finish ps = (b, c, a)"
    by (metis prod_cases3)
  show ?case
    using Cons.IH [OF r] Cons.prems r
    by (auto simp: Let_def span_def take_append drop_append split: if_splits)
qed simp

lemma replace_pieces:
  assumes "replace es start finish replacement r = Inr es'"
  obtains before covered after a b where
    "start \<le> finish" "split_pieces 0 start finish (pieces es) = (before, covered, after)"
    "original es' = original es"
    "pieces es' = filter (\<lambda>p. pc_text p \<noteq> [] \<or> \<not> copied p) (before @ [mk_piece replacement a b (Some r) False] @ after)"
    "covered \<noteq> [] \<longrightarrow> a = Min (set (map original_start covered)) \<and> b = Max (set (map original_end covered))"
    "covered = [] \<longrightarrow> a = to_original es start \<and> b = to_original es start"
proof -
  obtain b c a where s: "split_pieces 0 start finish (pieces es) = (b, c, a)"
    by (metis prod_cases3)
  show ?thesis
    using assms that [OF _ s] by (cases "c = []") (auto simp: replace_def Let_def s split: if_splits)
qed

lemma replace_text:
  assumes "replace es start finish replacement r = Inr es'"
  shows "src_text es' = take start (src_text es) @ replacement @ drop finish (src_text es)
       \<and> original es' = original es"
proof -
  obtain before covered after a b where r:
    "start \<le> finish" "split_pieces 0 start finish (pieces es) = (before, covered, after)"
    "original es' = original es"
    "pieces es' = filter (\<lambda>p. pc_text p \<noteq> [] \<or> \<not> copied p) (before @ [mk_piece replacement a b (Some r) False] @ after)"
    using assms by (rule replace_pieces)
  show ?thesis
    using split_pieces_texts [OF r(2,1)] r(3) unfolding src_text_def r(4) kept_texts by simp
qed

section \<open>Moving a span\<close>

text \<open>A located part holds the characters of the text between its two offsets.\<close>

fun tiles :: "nat \<Rightarrow> string \<Rightarrow> (nat \<times> nat \<times> piece) list \<Rightarrow> bool" where
  "tiles position t [] = (t = [])"
| "tiles position t ((low, high, p) # qs) =
     (low = position \<and> low \<le> high \<and> high - low \<le> length t \<and> pc_text p = take (high - low) t
      \<and> tiles high (drop (high - low) t) qs)"

definition uncut :: "nat list \<Rightarrow> (nat \<times> nat \<times> piece) list \<Rightarrow> bool" where
  "uncut points qs = (\<forall>(low, high, p) \<in> set qs. \<forall>c \<in> set points. \<not> (low < c \<and> c < high))"

lemma tiles_append:
  "tiles position t qs \<Longrightarrow> tiles (position + length t) u qs' \<Longrightarrow> tiles position (t @ u) (qs @ qs')"
proof (induction qs arbitrary: position t)
  case (Cons q qs)
  obtain low high p where q: "q = (low, high, p)" by (cases q)
  have "high + length (drop (high - low) t) = position + length t"
    using Cons.prems(1) by (auto simp: q)
  then have "tiles (high + length (drop (high - low) t)) u qs'"
    using Cons.prems(2) by simp
  then have "tiles high (drop (high - low) t @ u) (qs @ qs')"
    using Cons.prems(1) by (intro Cons.IH) (auto simp: q)
  then show ?case using Cons.prems(1) by (auto simp: q)
qed simp

lemma span_first:
  "a \<le> b \<Longrightarrow> b \<le> l \<Longrightarrow> l \<le> length t \<Longrightarrow>
   span a b t = take (b - a) (span a l t) \<and> drop (b - a) (span a l t) = span b l t \<and> b - a \<le> length (span a l t)"
  by (auto simp: span_def drop_take min_def)

lemma tiles_bounds:
  assumes "sorted (a # xs)" "last (a # xs) \<le> position + length (pc_text p)" "position \<le> a"
  shows "tiles a (span (a - position) (last (a # xs) - position) (pc_text p))
     (map (\<lambda>(low, high). (low, high, slice_piece p (low - position) (high - position))) (zip (a # xs) xs))"
  using assms
proof (induction xs arbitrary: a)
  case (Cons b xs)
  define l where "l = last (b # xs)"
  have "b \<le> l" "l \<le> position + length (pc_text p)" "a \<le> b"
    using Cons.prems by (cases xs; auto simp: l_def)+
  then have s: "span (a - position) (b - position) (pc_text p)
        = take (b - a) (span (a - position) (l - position) (pc_text p))"
      "drop (b - a) (span (a - position) (l - position) (pc_text p))
        = span (b - position) (l - position) (pc_text p)"
      "b - a \<le> length (span (a - position) (l - position) (pc_text p))"
    using span_first [of "a - position" "b - position" "l - position" "pc_text p"] Cons.prems(3)
    by auto
  have "tiles b (span (b - position) (l - position) (pc_text p))
     (map (\<lambda>(low, high). (low, high, slice_piece p (low - position) (high - position))) (zip (b # xs) xs))"
    using Cons.prems unfolding l_def by (intro Cons.IH) auto
  then show ?case
    using Cons.prems s by (simp add: l_def last_ConsR del: last.simps)
qed (simp add: span_def)

lemma cut_bounds_sorted: "sorted (cut_bounds a b points)" if "a \<le> b" for a b
  using that by (auto simp: cut_bounds_def sorted_append sorted_wrt_filter)

lemma piece_parts_tiles: "tiles position (pc_text p) (piece_parts points position p)"
proof -
  obtain xs where c: "cut_bounds position (position + length (pc_text p)) points = position # xs"
      "last (position # xs) = position + length (pc_text p)"
    by (simp add: cut_bounds_def)
  have "sorted (position # xs)"
    using cut_bounds_sorted [of position "position + length (pc_text p)" points] unfolding c by simp
  from tiles_bounds [OF this, of position p] show ?thesis
    using c by (simp add: piece_parts_def span_def)
qed

lemma all_parts_tiles: "tiles position (concat (map pc_text ps)) (all_parts points position ps)"
  by (induction ps arbitrary: position) (auto intro: tiles_append piece_parts_tiles)

lemma zip_tl_sorted:
  assumes "sorted xs" "(low, high) \<in> set (zip xs (tl xs))" "c \<in> set xs"
  shows "c \<le> low \<or> high \<le> c"
proof -
  obtain i where i: "i < length xs - 1" "low = xs ! i" "high = xs ! Suc i"
    using assms(2) by (auto simp: set_zip nth_tl)
  obtain k where k: "k < length xs" "c = xs ! k"
    using assms(3) by (metis in_set_conv_nth)
  show ?thesis
  proof (cases "k \<le> i")
    case True
    then show ?thesis using sorted_nth_mono [OF assms(1) True] i k by simp
  next
    case False
    then show ?thesis using sorted_nth_mono [OF assms(1), of "Suc i" k] i k by simp
  qed
qed

lemma all_parts_uncut: "uncut points (all_parts points position ps)"
proof (induction ps arbitrary: position)
  case (Cons p ps)
  let ?e = "position + length (pc_text p)" and ?b = "cut_bounds position (position + length (pc_text p)) points"
  have "\<not> (low < c \<and> c < high)" if z: "(low, high) \<in> set (zip ?b (tl ?b))" and c: "c \<in> set points" for low high c
  proof
    assume lc: "low < c \<and> c < high"
    have "position \<le> low" "high \<le> ?e"
      using set_zip_leftD [OF z] set_zip_rightD [OF z] by (auto simp: cut_bounds_def)
    then have "c \<in> set ?b" using c lc by (auto simp: cut_bounds_def)
    then show False using zip_tl_sorted [OF cut_bounds_sorted z, of c] lc by simp
  qed
  then show ?case
    using Cons.IH [of ?e] by (auto simp: uncut_def piece_parts_def Let_def)
qed (simp add: uncut_def)

lemma nths_none: "(\<And>i. i < length xs \<Longrightarrow> i \<notin> A) \<Longrightarrow> nths xs A = []"
  by (auto simp: nths_def filter_empty_conv set_zip)

text \<open>The parts selected by a property of their offsets hold the selected characters.\<close>

lemma tiles_select:
  assumes "tiles position t qs"
    "\<And>low high p. (low, high, p) \<in> set qs \<Longrightarrow> low < high \<Longrightarrow> Q (low, high, p) \<Longrightarrow> {low..<high} \<subseteq> A"
    "\<And>low high p. (low, high, p) \<in> set qs \<Longrightarrow> low < high \<Longrightarrow> \<not> Q (low, high, p) \<Longrightarrow> {low..<high} \<inter> A = {}"
  shows "concat (map (\<lambda>q. pc_text (snd (snd q))) (filter Q qs)) = nths t {i. i + position \<in> A}"
  using assms
proof (induction qs arbitrary: position t)
  case (Cons q qs)
  obtain low high p where q: "q = (low, high, p)" by (cases q)
  let ?n = "high - low"
  have l: "low = position" "low \<le> high" "?n \<le> length t" "pc_text p = take ?n t" "tiles high (drop ?n t) qs"
    using Cons.prems(1) by (auto simp: q)
  have IH: "concat (map (\<lambda>q. pc_text (snd (snd q))) (filter Q qs)) = nths (drop ?n t) {i. i + high \<in> A}"
    by (rule Cons.IH [OF l(5)]; rule Cons.prems(2) Cons.prems(3); simp)
  have "nths t {i. i + position \<in> A} = nths (take ?n t) {i. i + position \<in> A} @ nths (drop ?n t) {i. i + ?n + position \<in> A}"
    using l by (subst (1) append_take_drop_id [of ?n t, symmetric], subst nths_append) (simp add: min_def)
  moreover have "{i. i + ?n + position \<in> A} = {i. i + high \<in> A}"
    using l by (auto simp: algebra_simps)
  moreover have "nths (take ?n t) {i. i + position \<in> A} = (if Q q then take ?n t else [])"
  proof (cases "low < high")
    case True
    then show ?thesis
      using Cons.prems(2,3) [of low high p] l
      by (fastforce simp: q disjoint_iff subset_iff intro!: nths_all nths_none)
  qed (use l in simp)
  ultimately show ?case using l IH by (simp add: q)
qed simp

lemma tiles_sorted: "tiles position t qs \<Longrightarrow> sorted (map fst qs) \<and> (\<forall>q \<in> set qs. position \<le> fst q)"
proof (induction qs arbitrary: position t)
  case (Cons q qs)
  obtain low high p where q: "q = (low, high, p)" by (cases q)
  show ?case using Cons by (fastforce simp: q)
qed simp

lemma insert_moved_sorted:
  "sorted (map fst qs) \<Longrightarrow>
   insert_moved d moved qs = map (\<lambda>q. snd (snd q)) (filter (\<lambda>q. fst q < d) qs) @ moved
                               @ map (\<lambda>q. snd (snd q)) (filter (\<lambda>q. d \<le> fst q) qs)"
proof (induction d moved qs rule: insert_moved.induct)
  case (2 d moved low high p qs)
  show ?case
  proof (cases "d \<le> low")
    case True
    then have "\<forall>q \<in> set qs. d \<le> fst q" using "2.prems" by auto
    then have "filter (\<lambda>q. fst q < d) qs = []" "filter (\<lambda>q. d \<le> fst q) qs = qs"
      by (auto simp: filter_empty_conv filter_id_conv)
    then show ?thesis using True by simp
  qed (use 2 in simp)
qed simp

lemma move_pieces:
  assumes "move es start finish d r = Inr es'"
  shows "\<not> (start < d \<and> d < finish)" "original es' = original es"
    "pieces es' = filter (\<lambda>p. pc_text p \<noteq> [])
       (insert_moved d (map (\<lambda>(_, _, p). mk_piece (pc_text p) (original_start p) (original_end p) (Some r) (precise p))
            (filter (is_moved start finish) (all_parts [start, finish, d] 0 (pieces es))))
          (filter (\<lambda>q. \<not> is_moved start finish q) (all_parts [start, finish, d] 0 (pieces es))))"
  using assms by (auto simp: move_def Let_def split: if_splits)

lemma move_text_nths:
  assumes "move es start finish d r = Inr es'"
  shows "src_text es' = nths (src_text es) {i. i < d \<and> \<not> (start \<le> i \<and> i < finish)}
           @ nths (src_text es) {i. start \<le> i \<and> i < finish}
           @ nths (src_text es) {i. d \<le> i \<and> \<not> (start \<le> i \<and> i < finish)}"
proof -
  define qs where "qs = all_parts [start, finish, d] 0 (pieces es)"
  have tiles: "tiles 0 (src_text es) qs"
    unfolding qs_def src_text_def by (rule all_parts_tiles)
  have cut: "\<not> (low < c \<and> c < high)" if "(low, high, p) \<in> set qs" "c \<in> {start, finish, d}" for low high p c
    using all_parts_uncut [of "[start, finish, d]" 0 "pieces es"] that unfolding qs_def uncut_def by fastforce
  have sel: "concat (map (\<lambda>q. pc_text (snd (snd q))) (filter Q qs)) = nths (src_text es) A"
    if "\<And>low high p. (low, high, p) \<in> set qs \<Longrightarrow> low < high \<Longrightarrow> Q (low, high, p) \<Longrightarrow> {low..<high} \<subseteq> A"
      "\<And>low high p. (low, high, p) \<in> set qs \<Longrightarrow> low < high \<Longrightarrow> \<not> Q (low, high, p) \<Longrightarrow> {low..<high} \<inter> A = {}" for Q A
    using tiles_select [OF tiles, of Q A] that by simp
  have m: "concat (map (\<lambda>q. pc_text (snd (snd q))) (filter (is_moved start finish) qs)) = nths (src_text es) {i. start \<le> i \<and> i < finish}"
    by (rule sel) (use cut in \<open>fastforce simp: is_moved_def\<close>)+
  have b: "concat (map (\<lambda>q. pc_text (snd (snd q))) (filter (\<lambda>q. \<not> is_moved start finish q \<and> fst q < d) qs))
      = nths (src_text es) {i. i < d \<and> \<not> (start \<le> i \<and> i < finish)}"
    by (rule sel) (use cut in \<open>fastforce simp: is_moved_def\<close>)+
  have a: "concat (map (\<lambda>q. pc_text (snd (snd q))) (filter (\<lambda>q. \<not> is_moved start finish q \<and> d \<le> fst q) qs))
      = nths (src_text es) {i. d \<le> i \<and> \<not> (start \<le> i \<and> i < finish)}"
    by (rule sel) (use cut in \<open>fastforce simp: is_moved_def\<close>)+
  have s: "sorted (map fst (filter (\<lambda>q. \<not> is_moved start finish q) qs))"
    using tiles_sorted [OF tiles] by (simp add: sorted_filter)
  have t: "src_text es' = concat (map (\<lambda>q. pc_text (snd (snd q))) (filter (\<lambda>q. \<not> is_moved start finish q \<and> fst q < d) qs))
      @ concat (map (\<lambda>q. pc_text (snd (snd q))) (filter (is_moved start finish) qs))
      @ concat (map (\<lambda>q. pc_text (snd (snd q))) (filter (\<lambda>q. \<not> is_moved start finish q \<and> d \<le> fst q) qs))"
    unfolding src_text_def move_pieces(3) [OF assms] kept_texts qs_def [symmetric] insert_moved_sorted [OF s]
    by (simp add: comp_def case_prod_beta conj_commute)
  show ?thesis unfolding t m b a ..
qed

section \<open>The map back to the original\<close>

text \<open>What a piece promises: its original span lies in the original, and a copied or moved piece is
  that span character for character.\<close>

definition piece_ok :: "string \<Rightarrow> piece \<Rightarrow> bool" where
  "piece_ok orig p = (original_start p \<le> original_end p \<and> original_end p \<le> length orig
     \<and> (precise p \<longrightarrow> pc_text p = span (original_start p) (original_end p) orig))"

definition source_ok :: "editable_source \<Rightarrow> bool" where
  "source_ok es = (\<forall>p \<in> set (pieces es). piece_ok (original es) p)"

lemma precise_slice [simp]: "precise p \<Longrightarrow> precise (slice_piece p b f)"
  by (simp add: slice_piece_def precise_def copied_def)

lemma piece_ok_length: "piece_ok orig p \<Longrightarrow> precise p \<Longrightarrow> length (pc_text p) = original_end p - original_start p"
  by (auto simp: piece_ok_def span_def)

lemma span_span: "b \<le> f \<Longrightarrow> a + f \<le> c \<Longrightarrow> span b f (span a c xs) = span (a + b) (a + f) xs"
  by (simp add: span_def drop_take min_def add.commute)

lemma piece_ok_slice:
  assumes "piece_ok orig p" "b \<le> f" "f \<le> length (pc_text p)"
  shows "piece_ok orig (slice_piece p b f)"
proof (cases "precise p")
  case True
  have f: "original_start p + f \<le> original_end p" using piece_ok_length [OF assms(1) True] assms by (auto simp: piece_ok_def)
  have "span b f (pc_text p) = span (original_start p + b) (original_start p + f) orig"
    using assms True span_span [OF assms(2) f] by (simp add: piece_ok_def)
  then show ?thesis using assms f True by (auto simp: piece_ok_def slice_piece_def)
next
  case False
  then show ?thesis using assms by (auto simp: piece_ok_def slice_piece_def precise_def copied_def)
qed

lemma split_pieces_ok:
  assumes "split_pieces position start finish ps = (before, covered, after)" "start \<le> finish"
    "\<forall>p \<in> set ps. piece_ok orig p"
  shows "\<forall>p \<in> set before \<union> set covered \<union> set after. piece_ok orig p"
  using assms
proof (induction ps arbitrary: position before covered after)
  case (Cons p ps)
  obtain b c a where r: "split_pieces (position + length (pc_text p)) start finish ps = (b, c, a)"
    by (metis prod_cases3)
  have ok: "\<forall>p \<in> set b \<union> set c \<union> set a. piece_ok orig p"
    using Cons.IH [OF r] Cons.prems by simp
  have sl: "piece_ok orig (slice_piece p x y)" if "x \<le> y" "y \<le> length (pc_text p)" for x y
    using Cons.prems(3) that by (auto intro: piece_ok_slice)
  show ?case
    using Cons.prems(1,2,3) ok by (auto simp: r Let_def intro!: sl split: if_splits)
qed simp

lemma original_from_le:
  "\<forall>p \<in> set ps. piece_ok orig p \<Longrightarrow> original_from (length orig) position offset ps \<le> length orig"
proof (induction ps arbitrary: position)
  case (Cons p ps)
  then show ?case
    using piece_ok_length [of orig p] by (auto simp: piece_ok_def min_def)
qed simp

lemma to_original_le: "source_ok es \<Longrightarrow> to_original es offset \<le> length (original es)"
  unfolding to_original_def source_ok_def by (rule original_from_le)

lemma replace_ok:
  assumes "source_ok es" "replace es start finish replacement r = Inr es'"
  shows "source_ok es'"
proof -
  obtain before covered after a b where r:
    "start \<le> finish" "split_pieces 0 start finish (pieces es) = (before, covered, after)"
    "original es' = original es"
    "pieces es' = filter (\<lambda>p. pc_text p \<noteq> [] \<or> \<not> copied p) (before @ [mk_piece replacement a b (Some r) False] @ after)"
    "covered \<noteq> [] \<longrightarrow> a = Min (set (map original_start covered)) \<and> b = Max (set (map original_end covered))"
    "covered = [] \<longrightarrow> a = to_original es start \<and> b = to_original es start"
    using assms(2) by (rule replace_pieces)
  have ok: "\<forall>p \<in> set before \<union> set covered \<union> set after. piece_ok (original es) p"
    using split_pieces_ok [OF r(2,1)] assms(1) unfolding source_ok_def by blast
  have ab: "a \<le> b \<and> b \<le> length (original es)"
  proof (cases "covered = []")
    case True
    then show ?thesis using r(6) to_original_le [OF assms(1)] by simp
  next
    case False
    then obtain p where p: "p \<in> set covered" by (cases covered) auto
    have "a \<le> original_start p" "original_end p \<le> b" using r(5) False p by auto
    moreover have "original_start p \<le> original_end p" using ok p by (auto simp: piece_ok_def)
    moreover have "b \<le> length (original es)" using r(5) ok False by (auto simp: piece_ok_def)
    ultimately show ?thesis by simp
  qed
  then have "piece_ok (original es) (mk_piece replacement a b (Some r) False)"
    by (simp add: piece_ok_def precise_def copied_def)
  then show ?thesis using ok unfolding source_ok_def r(3,4) by auto
qed

lemma all_parts_ok:
  "\<forall>p \<in> set ps. piece_ok orig p \<Longrightarrow> (low, high, q) \<in> set (all_parts points position ps) \<Longrightarrow> piece_ok orig q"
proof (induction ps arbitrary: position)
  case (Cons p ps)
  let ?b = "cut_bounds position (position + length (pc_text p)) points"
  have "piece_ok orig (slice_piece p (l - position) (h - position))" if z: "(l, h) \<in> set (zip ?b (tl ?b))" for l h
  proof -
    have "l \<in> set ?b" "h \<in> set ?b" using set_zip_leftD [OF z] set_zip_rightD [OF z] by (auto simp: cut_bounds_def)
    moreover have "l \<le> h"
    proof -
      obtain i where "i < length ?b - 1" "l = ?b ! i" "h = ?b ! Suc i"
        using z by (auto simp: set_zip nth_tl)
      then show ?thesis using sorted_nth_mono [OF cut_bounds_sorted, of position "position + length (pc_text p)" i "Suc i" points] by simp
    qed
    ultimately show ?thesis
      using Cons.prems(1) by (intro piece_ok_slice) (auto simp: cut_bounds_def)
  qed
  then show ?case using Cons by (auto simp: piece_parts_def Let_def)
qed simp

lemma set_insert_moved: "set (insert_moved d moved qs) \<subseteq> set moved \<union> (\<lambda>q. snd (snd q)) ` set qs"
  by (induction d moved qs rule: insert_moved.induct) auto

lemma move_ok:
  assumes "source_ok es" "move es start finish d r = Inr es'"
  shows "source_ok es'"
proof -
  let ?q = "all_parts [start, finish, d] 0 (pieces es)"
  have ok: "piece_ok (original es) (snd (snd q))" if "q \<in> set ?q" for q
    using all_parts_ok [of "pieces es" "original es" "fst q" "fst (snd q)" "snd (snd q)"] assms(1) that
    by (simp add: source_ok_def)
  define m where "m = (\<lambda>(l :: nat, h :: nat, p). mk_piece (pc_text p) (original_start p) (original_end p) (Some r) (precise p))"
  have moved: "piece_ok (original es) (m q)" if "q \<in> set ?q" for q
    using ok [OF that] by (cases q) (simp add: m_def piece_ok_def precise_def copied_def)
  show ?thesis
    unfolding source_ok_def move_pieces(2,3) [OF assms(2)] m_def [symmetric]
  proof
    fix p assume "p \<in> set (filter (\<lambda>p. pc_text p \<noteq> []) (insert_moved d (map m (filter (is_moved start finish) ?q))
      (filter (\<lambda>q. \<not> is_moved start finish q) ?q)))"
    then have "p \<in> m ` set ?q \<or> p \<in> (\<lambda>q. snd (snd q)) ` set ?q"
      using set_insert_moved [of d "map m (filter (is_moved start finish) ?q)" "filter (\<lambda>q. \<not> is_moved start finish q) ?q"]
      by auto
    then show "piece_ok (original es) p" using ok moved by blast
  qed
qed

text \<open>The states a normalizer run goes through: edits by any rules in any order.\<close>

inductive edited :: "string \<Rightarrow> editable_source \<Rightarrow> bool" where
  fresh: "edited s (new_source s)"
| replaced: "edited s es \<Longrightarrow> replace es start finish replacement r = Inr es' \<Longrightarrow> edited s es'"
| moved: "edited s es \<Longrightarrow> move es start finish destination r = Inr es' \<Longrightarrow> edited s es'"

lemma edited_ok: "edited s es \<Longrightarrow> source_ok es \<and> original es = s"
proof (induction rule: edited.induct)
  case (fresh s)
  show ?case by (auto simp: source_ok_def new_source_def piece_ok_def span_def)
next
  case (replaced s es start finish replacement r es')
  then show ?case using replace_ok replace_text by metis
next
  case (moved s es start finish destination r es')
  then show ?case using move_ok move_pieces(2) by metis
qed

lemma original_from_skip:
  assumes "ps = before @ p # after" "position + length (concat (map pc_text before)) = k"
    "k \<le> offset" "offset < k + length (pc_text p)" "precise p"
  shows "original_from len position offset ps = original_start p + (offset - k)"
  using assms
proof (induction before arbitrary: position ps)
  case (Cons q before)
  then show ?case using Cons.IH [of "before @ p # after" "position + length (pc_text q)"] by auto
qed auto

lemma segments_from_mem:
  "sg \<in> set (segments_from text orig position ps) \<Longrightarrow> \<exists>before p after. ps = before @ p # after
     \<and> sg_normalized sg = (position + length (concat (map pc_text before)), position + length (concat (map pc_text before)) + length (pc_text p))
     \<and> sg_original sg = (original_start p, original_end p) \<and> (sg_rule sg = rule p \<and> sg_moved sg = exact p)"
proof (induction ps arbitrary: position)
  case (Cons q ps)
  show ?case
  proof (cases "sg \<in> set (segments_from text orig (position + length (pc_text q)) ps)")
    case True
    then obtain before p after where b: "ps = before @ p # after"
      "sg_normalized sg = (position + length (pc_text q) + length (concat (map pc_text before)),
         position + length (pc_text q) + length (concat (map pc_text before)) + length (pc_text p))"
      "sg_original sg = (original_start p, original_end p)" "sg_rule sg = rule p \<and> sg_moved sg = exact p"
      using Cons.IH by blast
    show ?thesis
      by (rule exI [of _ "q # before"], rule exI [of _ p], rule exI [of _ after]) (use b in simp)
  next
    case False
    then show ?thesis using Cons.prems by (intro exI [of _ "[]"]) auto
  qed
qed simp

lemma line_of_bounds: "1 \<le> line_of t k \<and> line_of t k \<le> length (newlines_of t) + 1"
proof -
  have "length (filter (\<lambda>i. t ! i = newline) [0..<length t]) = length (newlines_of t)"
    unfolding newlines_of_def
    by (subst (3) map_nth [symmetric]) (simp add: filter_map comp_def del: map_nth)
  then show ?thesis
    using length_takeWhile_le [of "\<lambda>y. y \<le> k" "line_starts t"]
    by (simp add: line_of_def bisect_right_def line_starts_def)
qed

lemma length_line_starts [simp]: "length (line_starts t) = length (newlines_of t) + 1"
  unfolding newlines_of_def line_starts_def
  by (subst (3) map_nth [symmetric]) (simp add: filter_map comp_def del: map_nth)

lemma nths_interval: "nths t {i. a \<le> i \<and> i < b} = span a b t"
proof (induction t arbitrary: a b)
  case (Cons x t)
  have "nths (x # t) {i. a \<le> i \<and> i < b} = (if a = 0 \<and> 0 < b then [x] else []) @ nths t {i. a \<le> Suc i \<and> Suc i < b}"
    by (simp add: nths_Cons)
  moreover have "{i. a \<le> Suc i \<and> Suc i < b} = {i. a - 1 \<le> i \<and> i < b - 1}" by auto
  ultimately show ?case
    using Cons.IH [of "a - 1" "b - 1"] by (cases a; cases b) (auto simp: span_def)
qed (simp add: span_def)

lemma nths_Un_below:
  "(\<And>i j. i \<in> A \<Longrightarrow> j \<in> B \<Longrightarrow> i < j) \<Longrightarrow> nths t (A \<union> B) = nths t A @ nths t B"
proof (induction t arbitrary: A B)
  case (Cons x t)
  have "nths t ({j. Suc j \<in> A} \<union> {j. Suc j \<in> B}) = nths t {j. Suc j \<in> A} @ nths t {j. Suc j \<in> B}"
    by (rule Cons.IH) (use Cons.prems in force)
  moreover have "{j. Suc j \<in> A} = {}" "0 \<notin> A" if "0 \<in> B" using Cons.prems [OF _ that] by auto
  ultimately show ?case by (auto simp: nths_Cons Un_def)
qed simp

lemma span_all: "length t \<le> b \<Longrightarrow> span a b t = drop a t"
  by (simp add: span_def)

lemma nths_from: "nths t {i. a \<le> i} = drop a t"
proof -
  have "nths t {i. a \<le> i} = nths t {i. a \<le> i \<and> i < length t}"
    by (simp add: nths_def) (metis (no_types, lifting) case_prod_beta filter_cong in_set_zip nth_upt plus_nat.add_0 set_zip_rightD atLeastLessThan_iff set_upt)
  then show ?thesis by (simp add: nths_interval span_all)
qed

lemma move_text:
  assumes "move es start finish d r = Inr es'"
  shows "src_text es' =
     (if finish \<le> start then src_text es
      else if d \<le> start
      then take d (src_text es) @ span start finish (src_text es) @ span d start (src_text es) @ drop finish (src_text es)
      else take start (src_text es) @ span finish d (src_text es) @ span start finish (src_text es) @ drop d (src_text es))"
proof -
  let ?t = "src_text es"
  have sp0: "nths ?t {i. i < k} = take k ?t" for k
    using nths_interval [of ?t 0 k] by (simp add: span_def)
  consider "finish \<le> start" | "start < finish" "d \<le> start" | "start < finish" "finish \<le> d"
    using move_pieces(1) [OF assms] by linarith
  then show ?thesis
  proof cases
    case 1
    then have e: "{i. i < d \<and> \<not> (start \<le> i \<and> i < finish)} = {i. i < d}" "{i. start \<le> i \<and> i < finish} = {}"
      "{i. d \<le> i \<and> \<not> (start \<le> i \<and> i < finish)} = {i. d \<le> i}" by auto
    show ?thesis using 1 unfolding move_text_nths [OF assms] e sp0 nths_from by simp
  next
    case 2
    then have e: "{i. i < d \<and> \<not> (start \<le> i \<and> i < finish)} = {i. i < d}"
      "{i. d \<le> i \<and> \<not> (start \<le> i \<and> i < finish)} = {i. d \<le> i \<and> i < start} \<union> {i. finish \<le> i}" by auto
    have "nths ?t ({i. d \<le> i \<and> i < start} \<union> {i. finish \<le> i}) = span d start ?t @ drop finish ?t"
      by (subst nths_Un_below) (use 2 in \<open>auto simp: nths_interval nths_from\<close>)
    then show ?thesis using 2 unfolding move_text_nths [OF assms] e sp0 nths_interval by simp
  next
    case 3
    then have e: "{i. i < d \<and> \<not> (start \<le> i \<and> i < finish)} = {i. i < start} \<union> {i. finish \<le> i \<and> i < d}"
      "{i. d \<le> i \<and> \<not> (start \<le> i \<and> i < finish)} = {i. d \<le> i}" by auto
    have "nths ?t ({i. i < start} \<union> {i. finish \<le> i \<and> i < d}) = take start ?t @ span finish d ?t"
      by (subst nths_Un_below) (use 3 in \<open>auto simp: nths_interval sp0\<close>)
    then show ?thesis using 3 unfolding move_text_nths [OF assms] e nths_interval nths_from by simp
  qed
qed

text \<open>
  An edit changes exactly what it is asked to change: \<^verbatim>\<open>replace\<close> is rejected for a reversed
  span only and otherwise substitutes the replacement for the span in the current text; \<^verbatim>\<open>move\<close> is
  rejected for a destination inside the span only and otherwise exchanges the span with the text
  between it and the destination. Neither touches the original.
\<close>

theorem edits_change_text:
  "(case replace es start finish replacement r of
      Inl e \<Rightarrow> finish < start
    | Inr es' \<Rightarrow> start \<le> finish \<and> original es' = original es
        \<and> src_text es' = take start (src_text es) @ replacement @ drop finish (src_text es))
   \<and> (case move es start finish d r of
      Inl e \<Rightarrow> start < d \<and> d < finish
    | Inr es' \<Rightarrow> \<not> (start < d \<and> d < finish) \<and> original es' = original es
        \<and> src_text es' =
           (if finish \<le> start then src_text es
            else if d \<le> start
            then take d (src_text es) @ span start finish (src_text es) @ span d start (src_text es) @ drop finish (src_text es)
            else take start (src_text es) @ span finish d (src_text es) @ span start finish (src_text es) @ drop d (src_text es)))"
proof (rule conjI)
  show "case replace es start finish replacement r of
      Inl e \<Rightarrow> finish < start
    | Inr es' \<Rightarrow> start \<le> finish \<and> original es' = original es
        \<and> src_text es' = take start (src_text es) @ replacement @ drop finish (src_text es)"
  proof (cases "replace es start finish replacement r")
    case (Inl e)
    then show ?thesis by (auto simp: replace_def Let_def split: if_splits prod.splits)
  next
    case (Inr es')
    then have "start \<le> finish" by (elim replace_pieces)
    then show ?thesis using replace_text [OF Inr] Inr by simp
  qed
  show "case move es start finish d r of
      Inl e \<Rightarrow> start < d \<and> d < finish
    | Inr es' \<Rightarrow> \<not> (start < d \<and> d < finish) \<and> original es' = original es
        \<and> src_text es' =
           (if finish \<le> start then src_text es
            else if d \<le> start
            then take d (src_text es) @ span start finish (src_text es) @ span d start (src_text es) @ drop finish (src_text es)
            else take start (src_text es) @ span finish d (src_text es) @ span start finish (src_text es) @ drop d (src_text es))"
  proof (cases "move es start finish d r")
    case (Inl e)
    then show ?thesis by (auto simp: move_def Let_def split: if_splits)
  next
    case (Inr es')
    then show ?thesis using move_pieces(1,2) [OF Inr] move_text [OF Inr] by (simp only: sum.case simp_thms)
  qed
qed

text \<open>
  (C12) After any sequence of edits the exported map is sound: every segment names a span inside the
  original; on a copied or moved segment the normalized text is the original span character for
  character and every offset maps to its own character; every offset maps into the original; and
  the line map has one entry per normalized line, each a line of the original.
\<close>

theorem source_map_sound:
  assumes "edited s es"
  shows "(\<forall>sg \<in> set (segments es). fst (sg_original sg) \<le> snd (sg_original sg) \<and> snd (sg_original sg) \<le> length s
            \<and> (sg_rule sg = None \<or> sg_moved sg \<longrightarrow>
                 span (fst (sg_normalized sg)) (snd (sg_normalized sg)) (src_text es)
                   = span (fst (sg_original sg)) (snd (sg_original sg)) s
                 \<and> (\<forall>i. fst (sg_normalized sg) \<le> i \<and> i < snd (sg_normalized sg) \<longrightarrow>
                      to_original es i = fst (sg_original sg) + (i - fst (sg_normalized sg)))))
      \<and> (\<forall>i. to_original es i \<le> length s)
      \<and> length (line_map es) = length (newlines_of (src_text es)) + 1
      \<and> (\<forall>l \<in> set (line_map es). 1 \<le> l \<and> l \<le> length (newlines_of s) + 1)"
proof -
  have ok: "source_ok es" "original es = s" using edited_ok [OF assms] by auto
  have seg: "fst (sg_original sg) \<le> snd (sg_original sg) \<and> snd (sg_original sg) \<le> length s
            \<and> (sg_rule sg = None \<or> sg_moved sg \<longrightarrow>
                 span (fst (sg_normalized sg)) (snd (sg_normalized sg)) (src_text es)
                   = span (fst (sg_original sg)) (snd (sg_original sg)) s
                 \<and> (\<forall>i. fst (sg_normalized sg) \<le> i \<and> i < snd (sg_normalized sg) \<longrightarrow>
                      to_original es i = fst (sg_original sg) + (i - fst (sg_normalized sg))))"
    if that_sg: "sg \<in> set (segments es)" for sg
  proof -
    obtain before p after where b: "pieces es = before @ p # after"
      "sg_normalized sg = (0 + length (concat (map pc_text before)), 0 + length (concat (map pc_text before)) + length (pc_text p))"
      "sg_original sg = (original_start p, original_end p)" "sg_rule sg = rule p" "sg_moved sg = exact p"
      using segments_from_mem [of sg "src_text es" "original es" 0 "pieces es"] that_sg unfolding segments_def by blast
    have pok: "piece_ok s p" using ok b(1) by (auto simp: source_ok_def)
    have "to_original es i = original_start p + (i - length (concat (map pc_text before)))"
      if "precise p" "length (concat (map pc_text before)) \<le> i"
        "i < length (concat (map pc_text before)) + length (pc_text p)" for i
      unfolding to_original_def using original_from_skip [OF b(1), of 0] that by simp
    moreover have "span (length (concat (map pc_text before))) (length (concat (map pc_text before)) + length (pc_text p)) (src_text es) = pc_text p"
      by (simp add: src_text_def b(1) span_def)
    ultimately show ?thesis
      using pok by (auto simp: b(2-5) piece_ok_def precise_def copied_def)
  qed
  show ?thesis
    using seg to_original_le [OF ok(1)] line_of_bounds [of s] by (auto simp: ok(2) line_map_def)
qed

text \<open>The edits of the repository's own unit test: a body moved behind two methods (by moving the methods before it).\<close>

definition demo_source :: string where
  "demo_source = ''A'' @ [newline] @ ''body'' @ [newline] @ ''M1'' @ [newline] @ ''M2'' @ [newline] @ ''END'' @ [newline]"

definition demo_moved :: editable_source where
  "demo_moved = (case move (new_source demo_source) 7 13 2 ''member-reorder'' of Inr es \<Rightarrow> es | Inl _ \<Rightarrow> new_source [])"

theorem source_map_sound_witness:
  "line_map demo_moved = [1, 3, 4, 2, 5, 6]
   \<and> length (line_map demo_moved) = length (newlines_of (src_text demo_moved)) + 1"
proof -
  have "move (new_source demo_source) 7 13 2 ''member-reorder'' = Inr demo_moved"
    by code_simp
  then have "edited demo_source demo_moved"
    by (intro edited.moved [OF edited.fresh])
  then have "length (line_map demo_moved) = length (newlines_of (src_text demo_moved)) + 1"
    using source_map_sound by blast
  moreover have "line_map demo_moved = [1, 3, 4, 2, 5, 6]" by code_simp
  ultimately show ?thesis by simp
qed

end
