(* ===== verification/Loop_Budget.thy ===== *)
theory Loop_Budget
  imports St_Lexer
begin

text \<open>
  The loop-budget pass over prepared LLVM IR (\<^verbatim>\<open>src/compiler/instrumentation/loop_budget.py\<close>): it
  cuts a function body into labelled blocks, finds loop headers as the targets of back edges of a
  depth-first search, and inserts a call of the harness tick at the start of every header block. The
  theorems show that every cycle of the block graph passes through a header and that every header
  lies on a cycle, so that a scan that never leaves a function ticks for ever, and that the pass
  only adds lines. They speak of the successors the pass reads; a jump through the cases of a
  \<^verbatim>\<open>switch\<close> is shown not to be among them. The recursion of \<^verbatim>\<open>visit\<close> is bounded by the number of labels, which is
  proved to be enough.
\<close>

section \<open>Patterns\<close>

definition TICK :: string where
  "TICK = ''__semantist_loop_tick''"

definition is_label_char :: "char \<Rightarrow> bool" where
  "is_label_char c = (is_alnum c \<or> c \<in> set ''-$._'')"

definition quoted_name_rx :: rx where
  "quoted_name_rx = rx_seq [rx_lit [CHR 0x22],
     RStar (RAlt (RChar (\<lambda>c. c \<noteq> CHR 0x22 \<and> c \<noteq> CHR 0x5C)) (RSeq (RChar (\<lambda>c. c = CHR 0x5C)) rx_any)),
     rx_lit [CHR 0x22]]"

definition LABEL_RE :: rx where
  "LABEL_RE = RSeq (RGroup 1 (RAlt (rx_plus (RChar is_label_char)) quoted_name_rx)) (rx_lit '':'')"

text \<open>The word boundary after \<^verbatim>\<open>define\<close>: the next character is the name's \<^verbatim>\<open>@\<close> or a non-word
  character of the filler.\<close>

definition DEFINE_RE :: rx where
  "DEFINE_RE = rx_seq [RStar (RChar is_space), rx_lit ''define'',
     RAlt (RSeq (RChar (\<lambda>c. \<not> is_word_char c \<and> c \<noteq> newline)) (RStar rx_any)) REps,
     rx_lit ''@'', RGroup 1 (RAlt quoted_name_rx (rx_plus (RChar is_label_char))), RStar (RChar is_space), rx_lit ''('']"

definition SUCC_RE :: rx where
  "SUCC_RE = rx_seq [rx_lit ''label'', rx_plus (RChar is_space), rx_lit ''%'',
     RGroup 1 (RAlt (rx_plus (RChar is_label_char)) quoted_name_rx)]"

definition TERMINATOR_PREFIXES :: "string list" where
  "TERMINATOR_PREFIXES = [''br '', ''switch '', ''indirectbr '', ''invoke '', ''callbr '', ''ret '', ''unreachable'',
     ''resume '', ''cleanupret '', ''catchswitch '', ''catchret '', ''catchpad '', ''cleanuppad '']"

text \<open>\<^verbatim>\<open>finditer\<close> for an expression that matches no empty text: the groups of the matches in order.\<close>

fun finditer_skip :: "nat \<Rightarrow> rx \<Rightarrow> string \<Rightarrow> (nat \<times> string) list list" where
  "finditer_skip k r [] = []"
| "finditer_skip (Suc k) r (c # cs) = finditer_skip k r cs"
| "finditer_skip 0 r (c # cs) =
     (case rx_first r (c # cs) of
        None \<Rightarrow> finditer_skip 0 r cs
      | Some (rest, g) \<Rightarrow> g # finditer_skip (length cs - length rest) r cs)"

definition re_finditer :: "rx \<Rightarrow> string \<Rightarrow> (nat \<times> string) list list" where
  "re_finditer r s = finditer_skip 0 r s"

section \<open>Blocks\<close>

record block =
  bk_label :: string
  bk_lines :: "string list"
  bk_successors :: "string list"
  bk_phis :: nat

definition bare_label :: "string \<Rightarrow> string" where
  "bare_label s = strip_quotes (strip s)"

text \<open>One line inside the current block.\<close>

definition block_line :: "block \<Rightarrow> string \<Rightarrow> block" where
  "block_line b line =
     (let stripped_line = strip line;
          b1 = b\<lparr>bk_lines := bk_lines b @ [line]\<rparr>;
          b2 = (if starts_with ''phi '' stripped_line then b1\<lparr>bk_phis := bk_phis b1 + 1\<rparr> else b1)
      in if \<exists>term \<in> set TERMINATOR_PREFIXES. starts_with term stripped_line
         then b2\<lparr>bk_successors := map (\<lambda>g. bare_label (group_of 1 g)) (re_finditer SUCC_RE stripped_line)\<rparr>
         else b2)"

text \<open>The loop body of \<^verbatim>\<open>_parse_function\<close>; the current block is the last one, and there is none
  before the first label.\<close>

definition parse_body_line :: "string list \<times> block list \<Rightarrow> string \<Rightarrow> string list \<times> block list" where
  "parse_body_line st line =
     (case re_match LABEL_RE line of
        Some g \<Rightarrow> (fst st, snd st @ [\<lparr>bk_label = bare_label (group_of 1 g), bk_lines = [line], bk_successors = [], bk_phis = 0\<rparr>])
      | None \<Rightarrow> if snd st = [] then (fst st @ [line], [])
                else (fst st, butlast (snd st) @ [block_line (last (snd st)) line]))"

definition parse_function :: "string list \<Rightarrow> string list \<times> block list" where
  "parse_function body = foldl parse_body_line ([], []) body"

section \<open>Loop headers\<close>

text \<open>The variables of \<^verbatim>\<open>loop_headers\<close>: the label states (1 on the stack, 2 finished) and the stack.\<close>

record dfs =
  headers :: "string set"
  marks :: "(string, nat) dict"
  dfs_stack :: "string list"

definition mark_of :: "dfs \<Rightarrow> string \<Rightarrow> nat" where
  "mark_of st l = (case dget (marks st) l of None \<Rightarrow> 0 | Some m \<Rightarrow> m)"

definition blocks_by_label :: "block list \<Rightarrow> (string, block) dict" where
  "blocks_by_label blocks = dict_of (map (\<lambda>b. (bk_label b, b)) blocks)"

fun foldO :: "('s \<Rightarrow> 'a \<Rightarrow> 's option) \<Rightarrow> 's \<Rightarrow> 'a list \<Rightarrow> 's option" where
  "foldO f s [] = Some s"
| "foldO f s (x # xs) = (case f s x of None \<Rightarrow> None | Some s' \<Rightarrow> foldO f s' xs)"

definition enter_label :: "string \<Rightarrow> dfs \<Rightarrow> dfs" where
  "enter_label l st = st\<lparr>marks := dset l 1 (marks st), dfs_stack := dfs_stack st @ [l]\<rparr>"

definition leave_label :: "string \<Rightarrow> dfs \<Rightarrow> dfs" where
  "leave_label l st = st\<lparr>dfs_stack := butlast (dfs_stack st), marks := dset l 2 (marks st)\<rparr>"

text \<open>The successor loop of \<^verbatim>\<open>visit\<close>, given the recursive call.\<close>

definition visit_successor ::
  "(string, block) dict \<Rightarrow> (string \<Rightarrow> dfs \<Rightarrow> dfs option) \<Rightarrow> dfs \<Rightarrow> string \<Rightarrow> dfs option" where
  "visit_successor by_label rec st successor =
     (if \<not> dmem successor by_label then Some st
      else if mark_of st successor = 1 then Some (st\<lparr>headers := insert successor (headers st)\<rparr>)
      else if mark_of st successor = 0 then rec successor st
      else Some st)"

primrec visit :: "nat \<Rightarrow> (string, block) dict \<Rightarrow> string \<Rightarrow> dfs \<Rightarrow> dfs option" where
  "visit 0 by_label l st = None"
| "visit (Suc n) by_label l st =
     map_option (leave_label l)
       (case dget by_label l of
          None \<Rightarrow> Some (enter_label l st)
        | Some b \<Rightarrow> foldO (visit_successor by_label (visit n by_label)) (enter_label l st) (bk_successors b))"

definition visit_block :: "nat \<Rightarrow> (string, block) dict \<Rightarrow> dfs \<Rightarrow> block \<Rightarrow> dfs option" where
  "visit_block n by_label st b = (if mark_of st (bk_label b) = 0 then visit n by_label (bk_label b) st else Some st)"

definition loop_headers :: "block list \<Rightarrow> string set option" where
  "loop_headers blocks =
     map_option headers (foldO (visit_block (Suc (length blocks)) (blocks_by_label blocks))
       \<lparr>headers = {}, marks = [], dfs_stack = []\<rparr> blocks)"

section \<open>The pass\<close>

definition tick_line :: string where
  "tick_line = ''  call void @'' @ TICK @ ''()''"

definition declare_line :: string where
  "declare_line = ''declare void @'' @ TICK @ ''()''"

text \<open>The lines of a block after its label, with a tick before the first line that is no phi.\<close>

fun tick_lines :: "string list \<Rightarrow> string list" where
  "tick_lines [] = [tick_line]"
| "tick_lines (l # ls) = (if \<not> starts_with ''phi '' (strip l) then tick_line # l # ls else l # tick_lines ls)"

definition emit_block :: "string set \<Rightarrow> block \<Rightarrow> string list" where
  "emit_block hs b = (if bk_label b \<in> hs then hd (bk_lines b) # tick_lines (tl (bk_lines b)) else bk_lines b)"

definition count_ticks :: "string set \<Rightarrow> block list \<Rightarrow> nat" where
  "count_ticks hs blocks = length (filter (\<lambda>b. bk_label b \<in> hs) blocks)"

definition count_char :: "char \<Rightarrow> string \<Rightarrow> int" where
  "count_char c s = int (length (filter (\<lambda>d. d = c) s))"

text \<open>The lines of one function, up to the line that closes its braces.\<close>

fun collect_body :: "int \<Rightarrow> string list \<Rightarrow> string list \<times> string list" where
  "collect_body depth [] = ([], [])"
| "collect_body depth (l # ls) =
     (let depth' = depth + count_char (CHR ''{'') l - count_char (CHR ''}'') l
      in if depth' = 0 \<and> CHR ''}'' \<in> set l then ([l], ls)
         else let (body, rest) = collect_body depth' ls in (l # body, rest))"

lemma collect_body_split: "collect_body d ls = (body, rest) \<Longrightarrow> ls = body @ rest"
  by (induction d ls arbitrary: body rest rule: collect_body.induct) (auto simp: Let_def split: if_splits prod.splits)

lemma collect_body_shorter: "collect_body d (l # ls) = (body, rest) \<Longrightarrow> length rest < Suc (length ls)"
  using collect_body_split [of d "l # ls" body rest] by (cases body) (auto simp: Let_def split: if_splits prod.splits)

text \<open>What the pass emits for a function body and how many ticks it counts; the empty header set
  copies every block.\<close>

definition emit_function :: "string list \<Rightarrow> (string list \<times> nat) option" where
  "emit_function body =
     (let (prefix_lines, blocks) = parse_function body in
      map_option (\<lambda>hs. (prefix_lines @ concat (map (if hs = {} then bk_lines else emit_block hs) blocks),
                        if hs = {} then 0 else count_ticks hs blocks))
        (loop_headers blocks))"

function instrument_lines :: "bool \<Rightarrow> string list \<Rightarrow> (string list \<times> nat) option" where
  "instrument_lines declared [] = Some ([], 0)"
| "instrument_lines declared (l # ls) =
     (if re_match DEFINE_RE l = None
      then map_option (\<lambda>(out, n). (l # out, n)) (instrument_lines declared ls)
      else let (body, rest) = collect_body 0 (l # ls) in
        case emit_function body of None \<Rightarrow> None
        | Some (out, n) \<Rightarrow>
            map_option (\<lambda>(out', n'). ((if declared then [] else [declare_line]) @ out @ out', n + n'))
              (instrument_lines True rest))"
  by pat_completeness auto

termination
  by (relation "measure (\<lambda>(_, ls). length ls)") (auto simp del: collect_body.simps dest!: sym [of _ "collect_body 0 _"] dest: collect_body_shorter)

definition instrument :: "string \<Rightarrow> (string \<times> nat) option" where
  "instrument source =
     (if contains (CHR ''@'' # TICK) source then Some (source, 0)
      else map_option (\<lambda>(out, n). (join [newline] out @ (if ends_with [newline] source then [newline] else []), n))
             (instrument_lines False (splitlines source)))"

section \<open>The search visits everything\<close>

type_synonym cfg = "(string, block) dict"

text \<open>The edges of the block graph between known labels.\<close>

definition edge :: "cfg \<Rightarrow> string \<Rightarrow> string \<Rightarrow> bool" where
  "edge g u v = (\<exists>b. dget g u = Some b \<and> v \<in> set (bk_successors b) \<and> dmem v g)"

definition grey :: "dfs \<Rightarrow> string set" where
  "grey st = {l. mark_of st l = 1}"

definition black :: "dfs \<Rightarrow> string set" where
  "black st = {l. mark_of st l = 2}"

lemma mark_of_dset [simp]: "mark_of (st\<lparr>marks := dset l m (marks st')\<rparr>) k = (if k = l then m else mark_of st' k)"
  by (simp add: mark_of_def dict_simps)

lemma mark_of_upd [simp]:
  "mark_of (st\<lparr>headers := h\<rparr>) l = mark_of st l" "mark_of (st\<lparr>dfs_stack := s\<rparr>) l = mark_of st l"
  by (simp_all add: mark_of_def)

text \<open>
  A finishing order: the finished labels, each after all its successors that are no headers. The
  stack is a path of grey labels, and every header lies on a cycle.
\<close>

definition finished_order :: "cfg \<Rightarrow> dfs \<Rightarrow> string list \<Rightarrow> bool" where
  "finished_order g st fin = (distinct fin \<and> set fin = black st \<and> set fin \<subseteq> fst ` set g
     \<and> (\<forall>i < length fin. \<forall>w. edge g (fin ! i) w \<longrightarrow> w \<in> headers st \<or> w \<in> set (take i fin)))"

fun chain :: "('a \<Rightarrow> 'a \<Rightarrow> bool) \<Rightarrow> 'a list \<Rightarrow> bool" where
  "chain r [] = True"
| "chain r [x] = True"
| "chain r (x # y # xs) = (r x y \<and> chain r (y # xs))"

definition dfs_ok :: "cfg \<Rightarrow> dfs \<Rightarrow> bool" where
  "dfs_ok g st = ((\<exists>fin. finished_order g st fin) \<and> (\<forall>l. mark_of st l \<le> 2)
     \<and> distinct (dfs_stack st) \<and> set (dfs_stack st) = grey st \<and> grey st \<subseteq> fst ` set g
     \<and> chain (edge g) (dfs_stack st) \<and> (\<forall>h \<in> headers st. (edge g)\<^sup>+\<^sup>+ h h))"

text \<open>What a step of the search keeps: the stack, and everything that is finished.\<close>

definition dfs_grows :: "dfs \<Rightarrow> dfs \<Rightarrow> bool" where
  "dfs_grows st st' = (dfs_stack st' = dfs_stack st \<and> black st \<subseteq> black st' \<and> grey st' = grey st \<and> headers st \<subseteq> headers st')"

lemma dfs_grows_refl [simp]: "dfs_grows st st"
  by (simp add: dfs_grows_def)

lemma dfs_grows_trans: "dfs_grows a b \<Longrightarrow> dfs_grows b c \<Longrightarrow> dfs_grows a c"
  by (auto simp: dfs_grows_def)

text \<open>A fold in which every step succeeds, keeps the invariant and extends the state.\<close>

lemma foldO_ext:
  assumes "\<And>s x. x \<in> set xs \<Longrightarrow> dfs_ok g s \<Longrightarrow> dfs_grows s0 s \<Longrightarrow> \<exists>s'. f s x = Some s' \<and> dfs_ok g s' \<and> dfs_grows s s' \<and> Q s' x"
    and "\<And>s s' x. Q s x \<Longrightarrow> dfs_grows s s' \<Longrightarrow> Q s' x"
    and "dfs_ok g s" "dfs_grows s0 s"
  shows "\<exists>s'. foldO f s xs = Some s' \<and> dfs_ok g s' \<and> dfs_grows s s' \<and> (\<forall>x \<in> set xs. Q s' x)"
  using assms(1,3,4)
proof (induction xs arbitrary: s)
  case (Cons x xs)
  obtain s1 where s1: "f s x = Some s1" "dfs_ok g s1" "dfs_grows s s1" "Q s1 x"
    using Cons.prems(1) [of x s] Cons.prems(2,3) by auto
  obtain s2 where "foldO f s1 xs = Some s2" "dfs_ok g s2" "dfs_grows s1 s2" "\<forall>x \<in> set xs. Q s2 x"
    using Cons.IH [OF _ s1(2) dfs_grows_trans [OF Cons.prems(3) s1(3)]] Cons.prems(1) by auto
  then show ?case using s1 assms(2) by (auto intro: dfs_grows_trans)
qed auto

lemma chain_snoc: "chain r xs \<Longrightarrow> (xs \<noteq> [] \<Longrightarrow> r (last xs) x) \<Longrightarrow> chain r (xs @ [x])"
  by (induction r xs rule: chain.induct) auto

lemma chain_reach: "chain r xs \<Longrightarrow> x \<in> set xs \<Longrightarrow> r\<^sup>*\<^sup>* x (last xs)"
proof (induction r xs arbitrary: x rule: chain.induct)
  case (3 r x' y xs)
  have y: "r\<^sup>*\<^sup>* z (last (y # xs))" if "z \<in> set (y # xs)" for z using 3 that by simp
  have "r\<^sup>*\<^sup>* x' (last (y # xs))" using 3(2) y [of y] by (auto simp del: last.simps intro: converse_rtranclp_into_rtranclp)
  then show ?case using 3(3) y by auto
qed auto

definition white :: "cfg \<Rightarrow> dfs \<Rightarrow> string set" where
  "white g st = {l \<in> fst ` set g. mark_of st l = 0}"

lemma finite_white [simp]: "finite (white g st)"
  by (simp add: white_def)

lemma white_grows: "dfs_grows st st' \<Longrightarrow> dfs_ok g st \<Longrightarrow> white g st' \<subseteq> white g st"
proof
  fix l assume g: "dfs_grows st st'" "dfs_ok g st" and l: "l \<in> white g st'"
  then have "l \<notin> grey st'" "l \<notin> black st'" by (auto simp: grey_def black_def white_def)
  then have "l \<notin> grey st" "l \<notin> black st" using g(1) by (auto simp: dfs_grows_def)
  moreover have "mark_of st l \<le> 2" using g by (simp add: dfs_ok_def)
  ultimately show "l \<in> white g st" using l by (auto simp: white_def grey_def black_def)
qed

lemma enter_simps [simp]:
  "black (enter_label l st) = black st - {l}" "grey (enter_label l st) = insert l (grey st)"
  "headers (enter_label l st) = headers st" "dfs_stack (enter_label l st) = dfs_stack st @ [l]"
  "white g (enter_label l st) = white g st - {l}"
  by (auto simp: black_def grey_def enter_label_def white_def mark_of_def dict_simps)

lemma leave_simps [simp]:
  "black (leave_label l st) = insert l (black st)" "grey (leave_label l st) = grey st - {l}"
  "headers (leave_label l st) = headers st" "dfs_stack (leave_label l st) = butlast (dfs_stack st)"
  by (auto simp: black_def grey_def leave_label_def mark_of_def dict_simps)

lemma mark_enter_leave:
  "mark_of (enter_label l st) k = (if k = l then 1 else mark_of st k)"
  "mark_of (leave_label l st) k = (if k = l then 2 else mark_of st k)"
  by (simp_all add: enter_label_def leave_label_def mark_of_def dict_simps)

lemma dfs_ok_enter:
  assumes "dfs_ok g st" "mark_of st l = 0" "l \<in> fst ` set g" "dfs_stack st \<noteq> [] \<Longrightarrow> edge g (last (dfs_stack st)) l"
  shows "dfs_ok g (enter_label l st)"
proof -
  have l: "l \<notin> grey st" "l \<notin> black st" using assms(2) by (auto simp: grey_def black_def)
  have "finished_order g (enter_label l st) fin" if "finished_order g st fin" for fin
    using that l unfolding finished_order_def enter_simps by (metis Diff_empty Diff_insert0)
  then show ?thesis
    using assms l unfolding dfs_ok_def by (auto simp: mark_enter_leave intro: chain_snoc)
qed

lemma dfs_ok_leave:
  assumes "dfs_ok g st" "dfs_stack st = stack @ [l]" "\<And>w. edge g l w \<Longrightarrow> w \<in> black st \<or> w \<in> headers st"
    "dfs_ok g st0" "dfs_stack st0 = stack"
  shows "dfs_ok g (leave_label l st)"
proof -
  obtain fin where fin: "finished_order g st fin" using assms(1) by (auto simp: dfs_ok_def)
  have l: "l \<in> grey st" "l \<notin> set stack" "set stack = grey st - {l}"
    using assms(1,2) by (auto simp: dfs_ok_def)
  have "l \<notin> black st" "l \<in> fst ` set g" using l assms(1) by (auto simp: grey_def black_def dfs_ok_def)
  then have "finished_order g (leave_label l st) (fin @ [l])"
    using fin assms(3) unfolding finished_order_def
    by (auto simp: nth_append less_Suc_eq)
  then show ?thesis
    using assms l unfolding dfs_ok_def by (auto simp: mark_enter_leave)
qed

lemma dfs_ok_header:
  assumes "dfs_ok g s" "dfs_stack s \<noteq> []" "edge g (last (dfs_stack s)) x" "mark_of s x = 1"
  shows "dfs_ok g (s\<lparr>headers := insert x (headers s)\<rparr>)"
proof -
  have "x \<in> set (dfs_stack s)" using assms(1,4) by (simp add: dfs_ok_def grey_def)
  then have "(edge g)\<^sup>*\<^sup>* x (last (dfs_stack s))" using assms(1) chain_reach [of "edge g" "dfs_stack s" x] by (simp add: dfs_ok_def)
  then have "(edge g)\<^sup>+\<^sup>+ x x" using assms(3) by (rule rtranclp_into_tranclp1)
  moreover have "finished_order g (s\<lparr>headers := insert x (headers s)\<rparr>) fin" if "finished_order g s fin" for fin
    using that by (auto simp: finished_order_def black_def)
  ultimately show ?thesis
    using assms(1) unfolding dfs_ok_def by (auto simp: grey_def)
qed

lemma visit_ok:
  assumes "dfs_ok g st" "mark_of st l = 0" "l \<in> fst ` set g" "dfs_stack st \<noteq> [] \<Longrightarrow> edge g (last (dfs_stack st)) l"
    "card (white g st) \<le> n"
  shows "\<exists>st'. visit n g l st = Some st' \<and> dfs_ok g st' \<and> dfs_grows st st' \<and> l \<in> black st'"
  using assms
proof (induction n arbitrary: l st)
  case 0
  then have "l \<in> white g st" by (simp add: white_def)
  then show ?case using "0.prems"(5) by auto
next
  case (Suc n)
  let ?s0 = "enter_label l st"
  have l: "l \<notin> grey st" "l \<notin> black st" "l \<in> white g st"
    using Suc.prems(2,3) by (auto simp: grey_def black_def white_def)
  obtain b where b: "dget g l = Some b" using Suc.prems(3) by (cases "dget g l") (auto simp: map_of_eq_None_iff)
  have ok0: "dfs_ok g ?s0" using Suc.prems by (intro dfs_ok_enter)
  have "card (white g ?s0) < card (white g st)" using l(3) by (simp add: card_Diff1_less del: card_Diff_insert)
  then have card0: "card (white g ?s0) \<le> n" using Suc.prems(5) by linarith
  define Q where "Q = (\<lambda>s x. dmem x g \<longrightarrow> x \<in> black s \<or> x \<in> headers s)"
  have Qmono: "Q s' x" if "Q s x" "dfs_grows s s'" for s s' x
    using that by (auto simp: Q_def dfs_grows_def)
  have step: "\<exists>s'. visit_successor g (visit n g) s x = Some s' \<and> dfs_ok g s' \<and> dfs_grows s s' \<and> Q s' x"
    if x: "x \<in> set (bk_successors b)" and s: "dfs_ok g s" "dfs_grows ?s0 s" for s x
  proof (cases "dmem x g")
    case True
    have e: "dfs_stack s \<noteq> []" "edge g (last (dfs_stack s)) x"
      using s(2) x b True by (auto simp: dfs_grows_def edge_def)
    consider "mark_of s x = 1" | "mark_of s x = 0" | "mark_of s x = 2"
      using s(1) by (metis dfs_ok_def One_nat_def le_0_eq le_Suc_eq numeral_2_eq_2)
    then show ?thesis
    proof cases
      case 1
      then show ?thesis
        using dfs_ok_header [OF s(1) e 1] True
        by (auto simp: visit_successor_def Q_def dfs_grows_def black_def grey_def)
    next
      case 2
      have "card (white g s) \<le> card (white g ?s0)"
        using white_grows [OF s(2) ok0] by (intro card_mono) auto
      moreover have "x \<in> fst ` set g" using True by (auto simp: dmem_iff map_of_eq_None_iff)
      ultimately show ?thesis
        using Suc.IH [OF s(1) 2 _ e(2)] card0 2 True by (auto simp: visit_successor_def Q_def)
    next
      case 3
      then show ?thesis using s(1) by (auto simp: visit_successor_def Q_def black_def)
    qed
  qed (use s in \<open>auto simp: visit_successor_def Q_def\<close>)
  obtain s1 where s1: "foldO (visit_successor g (visit n g)) ?s0 (bk_successors b) = Some s1"
      "dfs_ok g s1" "dfs_grows ?s0 s1" "\<forall>x \<in> set (bk_successors b). Q s1 x"
  proof -
    have "\<exists>s'. foldO (visit_successor g (visit n g)) ?s0 (bk_successors b) = Some s' \<and> dfs_ok g s' \<and> dfs_grows ?s0 s'
        \<and> (\<forall>x \<in> set (bk_successors b). Q s' x)"
      by (rule foldO_ext [where s0 = ?s0]; (rule step Qmono ok0 dfs_grows_refl; assumption)?)
    then show ?thesis using that by blast
  qed
  have "dfs_ok g (leave_label l s1)"
    by (rule dfs_ok_leave [OF s1(2) _ _ Suc.prems(1) refl])
      (use s1 b in \<open>auto simp: dfs_grows_def edge_def Q_def\<close>)
  moreover have "dfs_grows st (leave_label l s1)" "l \<in> black (leave_label l s1)"
    using s1(3) l by (auto simp: dfs_grows_def)
  ultimately show ?case using s1(1) b by simp
qed

lemma foldl_dset_keys: "fst ` set (dupdate d kvs) = fst ` set d \<union> fst ` set kvs"
  by (simp add: dict_simps)

lemma blocks_by_label_keys: "fst ` set (blocks_by_label blocks) = set (map bk_label blocks)"
  by (simp add: blocks_by_label_def foldl_dset_keys image_image)

lemma loop_headers_search:
  "\<exists>st. loop_headers blocks = Some (headers st) \<and> dfs_ok (blocks_by_label blocks) st
      \<and> (\<forall>b \<in> set blocks. bk_label b \<in> black st)"
proof -
  let ?g = "blocks_by_label blocks" and ?n = "Suc (length blocks)"
  let ?s = "\<lparr>headers = {}, marks = [], dfs_stack = []\<rparr>"
  have ok: "dfs_ok ?g ?s"
    by (auto simp: dfs_ok_def finished_order_def black_def grey_def mark_of_def)
  have n: "card (white ?g s) \<le> ?n" for s
  proof -
    have "card (white ?g s) \<le> card (set (map bk_label blocks))"
      by (intro card_mono) (auto simp: white_def blocks_by_label_keys)
    also have "\<dots> \<le> length blocks" using card_length [of "map bk_label blocks"] by simp
    finally show ?thesis by simp
  qed
  have step: "\<exists>s'. visit_block ?n ?g s b = Some s' \<and> dfs_ok ?g s' \<and> dfs_grows s s' \<and> bk_label b \<in> black s'"
    if b: "b \<in> set blocks" and s: "dfs_ok ?g s" "dfs_grows ?s s" for s b
  proof (cases "mark_of s (bk_label b) = 0")
    case True
    have "bk_label b \<in> fst ` set ?g" using b by (simp add: blocks_by_label_keys)
    moreover have "dfs_stack s = []" using s(2) by (simp add: dfs_grows_def)
    ultimately show ?thesis
      using visit_ok [OF s(1) True _ _ n] True unfolding visit_block_def by (simp del: visit.simps)
  next
    case False
    have "grey s = {}" using s(2) by (simp add: dfs_grows_def grey_def mark_of_def)
    then have "mark_of s (bk_label b) \<noteq> 1" by (auto simp: grey_def)
    moreover have "mark_of s (bk_label b) \<le> 2" using s(1) by (simp add: dfs_ok_def)
    ultimately have "bk_label b \<in> black s" using False by (simp add: black_def)
    then show ?thesis using s(1) False by (simp add: visit_block_def)
  qed
  have "\<exists>s'. foldO (visit_block ?n ?g) ?s blocks = Some s' \<and> dfs_ok ?g s' \<and> dfs_grows ?s s'
      \<and> (\<forall>b \<in> set blocks. bk_label b \<in> black s')"
    by (rule foldO_ext [of blocks ?g ?s "visit_block ?n ?g" "\<lambda>s b. bk_label b \<in> black s", OF step _ ok])
      (auto simp: dfs_grows_def)
  then show ?thesis by (auto simp: loop_headers_def simp del: visit.simps)
qed

section \<open>Headers and cycles\<close>

text \<open>In a finishing order no edge between labels that are no headers goes forward.\<close>

lemma edge_from_key: "edge g u v \<Longrightarrow> u \<in> fst ` set g \<and> v \<in> fst ` set g"
  by (auto simp: edge_def dmem_iff dest: map_of_SomeD intro: rev_image_eqI)

lemma run_meets_headers:
  assumes "finished_order g st fin" "black st = fst ` set g" "\<And>i. edge g (run i) (run (Suc i))"
  shows "\<exists>m \<ge> n. run m \<in> headers st"
proof (rule ccontr)
  assume no: "\<not> ?thesis"
  define pos where "pos = (\<lambda>i. LEAST k. k < length fin \<and> fin ! k = run i)"
  have pos: "pos i < length fin \<and> fin ! (pos i) = run i" for i
  proof -
    have "run i \<in> set fin" using edge_from_key [OF assms(3)] assms(1,2) by (auto simp: finished_order_def)
    then obtain k where "k < length fin \<and> fin ! k = run i" by (metis in_set_conv_nth)
    then show ?thesis unfolding pos_def by (rule LeastI)
  qed
  have dec: "pos (Suc i) < pos i" if "n \<le> i" for i
  proof -
    have "run (Suc i) \<notin> headers st" using no that by auto
    moreover have "edge g (fin ! pos i) (run (Suc i))" using assms(3) pos by simp
    ultimately have "run (Suc i) \<in> set (take (pos i) fin)"
      using assms(1) pos [of i] unfolding finished_order_def by blast
    then obtain k where k: "k < pos i" "k < length fin" "fin ! k = run (Suc i)"
      by (auto simp: in_set_conv_nth)
    then have "pos (Suc i) \<le> k" unfolding pos_def by (intro Least_le) simp
    then show ?thesis using k(1) by simp
  qed
  have "pos (n + i) + i \<le> pos n" for i
  proof (induction i)
    case (Suc i)
    then show ?case using dec [of "n + i"] by simp
  qed simp
  from this [of "Suc (pos n)"] show False by simp
qed

text \<open>
  (C11) The search for loop headers always ends, every header lies on a cycle of the block graph, and
  every infinite run through the blocks enters headers again and again: a scan that never leaves a
  function executes ticks without end, so the budget catches it.
\<close>

theorem loop_headers_cut_runs:
  "\<exists>hs. loop_headers blocks = Some hs
     \<and> (\<forall>h \<in> hs. (edge (blocks_by_label blocks))\<^sup>+\<^sup>+ h h)
     \<and> (\<forall>run. (\<forall>i. edge (blocks_by_label blocks) (run i) (run (Suc i))) \<longrightarrow> (\<forall>n. \<exists>m \<ge> n. run m \<in> hs))"
proof -
  let ?g = "blocks_by_label blocks"
  obtain st where st: "loop_headers blocks = Some (headers st)" "dfs_ok ?g st" "\<forall>b \<in> set blocks. bk_label b \<in> black st"
    using loop_headers_search by blast
  obtain fin where fin: "finished_order ?g st fin" using st(2) by (auto simp: dfs_ok_def)
  have "black st = fst ` set ?g"
    using fin st(3) by (auto simp: finished_order_def blocks_by_label_keys)
  then have "\<exists>m \<ge> n. run m \<in> headers st" if "\<forall>i. edge ?g (run i) (run (Suc i))" for run n
    using run_meets_headers [OF fin] that by blast
  then show ?thesis using st(1,2) by (auto simp: dfs_ok_def)
qed

text \<open>A two-block loop: an entry, a loop block that branches back to itself, an exit.\<close>

definition demo_loop :: "block list" where
  "demo_loop = [\<lparr>bk_label = ''entry'', bk_lines = [''entry:''], bk_successors = [''loop''], bk_phis = 0\<rparr>,
     \<lparr>bk_label = ''loop'', bk_lines = [''loop:''], bk_successors = [''loop'', ''exit''], bk_phis = 0\<rparr>,
     \<lparr>bk_label = ''exit'', bk_lines = [''exit:''], bk_successors = [], bk_phis = 0\<rparr>]"

theorem loop_headers_cut_runs_witness:
  "loop_headers demo_loop = Some {''loop''}
   \<and> (edge (blocks_by_label demo_loop))\<^sup>+\<^sup>+ ''loop'' ''loop''
   \<and> (\<exists>m \<ge> 7. (\<lambda>i. ''loop'') (m :: nat) \<in> {''loop''})"
proof -
  have h: "loop_headers demo_loop = Some {''loop''}" by code_simp
  have e: "edge (blocks_by_label demo_loop) ''loop'' ''loop''"
    by (simp add: edge_def blocks_by_label_def demo_loop_def dmem_iff)
  obtain hs where hs: "loop_headers demo_loop = Some hs"
      "\<forall>x \<in> hs. (edge (blocks_by_label demo_loop))\<^sup>+\<^sup>+ x x"
      "\<forall>run. (\<forall>i. edge (blocks_by_label demo_loop) (run i) (run (Suc i))) \<longrightarrow> (\<forall>n. \<exists>m \<ge> n. run m \<in> hs)"
    using loop_headers_cut_runs [of demo_loop] by blast
  have "hs = {''loop''}" using h hs(1) by simp
  then show ?thesis using h hs(2) hs(3) [rule_format, of "\<lambda>i. ''loop''" 7] e by blast
qed

section \<open>The pass only adds lines\<close>

lemma parse_function_keeps:
  assumes "foldl parse_body_line (p, bs) body = (prefix_lines, blocks)" "\<forall>b \<in> set bs. bk_lines b \<noteq> []"
  shows "prefix_lines @ concat (map bk_lines blocks) = p @ concat (map bk_lines bs) @ body \<and> (\<forall>b \<in> set blocks. bk_lines b \<noteq> [])"
  using assms
proof (induction body arbitrary: p bs)
  case (Cons l ls)
  obtain p' bs' where n: "parse_body_line (p, bs) l = (p', bs')" by (cases "parse_body_line (p, bs) l")
  have "p' @ concat (map bk_lines bs') = p @ concat (map bk_lines bs) @ [l] \<and> (\<forall>b \<in> set bs'. bk_lines b \<noteq> [])"
  proof (cases "re_match LABEL_RE l")
    case None
    show ?thesis
    proof (cases bs rule: rev_cases)
      case (snoc ys b)
      have "bk_lines (block_line b l) = bk_lines b @ [l]" by (simp add: block_line_def Let_def)
      then show ?thesis using n None snoc Cons.prems(2) by (auto simp: parse_body_line_def)
    qed (use n None in \<open>auto simp: parse_body_line_def\<close>)
  qed (use n Cons.prems(2) in \<open>auto simp: parse_body_line_def\<close>)
  then show ?case using Cons.IH [of p' bs'] Cons.prems n by simp
qed simp

definition has_tick :: "string \<Rightarrow> bool" where
  "has_tick l = contains (CHR ''@'' # TICK) l"

lemma contains_iff: "contains p s \<longleftrightarrow> (\<exists>a b. s = a @ p @ b)"
proof (induction s)
  case (Cons c s)
  have "starts_with p (c # s) \<longleftrightarrow> (\<exists>b. c # s = p @ b)"
    unfolding starts_with_def by (metis append_eq_conv_conj append_take_drop_id)
  moreover have "(\<exists>a b. c # s = a @ p @ b) \<longleftrightarrow> (\<exists>b. c # s = p @ b) \<or> (\<exists>a b. s = a @ p @ b)"
    by (metis append_Cons append_Nil list.inject neq_Nil_conv)
  ultimately show ?case using Cons by simp
qed simp

lemma splitlines_part: "l \<in> set (splitlines s) \<Longrightarrow> \<exists>a b. s = a @ l @ b"
proof (induction s rule: splitlines.induct)
  case (1 s)
  let ?t = "takeWhile (\<lambda>c. \<not> is_break c) s" and ?d = "dropWhile (\<lambda>c. \<not> is_break c) s"
  have s: "s = ?t @ ?d" by simp
  have "s \<noteq> []" "l = ?t \<or> l \<in> set (splitlines (drop_break ?d))"
    using 1(2) by (subst (asm) splitlines.simps; auto split: if_splits)+
  moreover have "\<exists>c. ?d = c @ drop_break ?d"
  proof (cases ?d)
    case (Cons c cs)
    then show ?thesis by (cases cs) (auto intro: exI [of _ "[c]"])
  next
    case Nil
    show ?thesis unfolding Nil by simp
  qed
  ultimately show ?case using 1(1) s by (metis append_Nil append.assoc)
qed

lemma splitlines_has_tick: "\<not> contains (CHR ''@'' # TICK) s \<Longrightarrow> l \<in> set (splitlines s) \<Longrightarrow> \<not> has_tick l"
  unfolding has_tick_def contains_iff by (metis append.assoc splitlines_part)

lemma has_tick_lines [simp]: "has_tick tick_line" "has_tick declare_line"
  by code_simp+

lemma tick_lines_filter:
  "\<forall>l \<in> set ls. \<not> has_tick l \<Longrightarrow> filter (\<lambda>l. \<not> has_tick l) (tick_lines ls) = ls"
  by (induction ls) (auto simp: filter_id_conv)

lemma count_tick_lines:
  "\<forall>l \<in> set ls. \<not> has_tick l \<Longrightarrow> count_list (tick_lines ls) tick_line = 1 \<and> count_list ls tick_line = 0"
  using has_tick_lines(1) by (induction ls) (auto simp: count_list_0_iff)

lemma emit_block_keeps:
  assumes "bk_lines b \<noteq> []" "\<forall>l \<in> set (bk_lines b). \<not> has_tick l"
  shows "filter (\<lambda>l. \<not> has_tick l) (emit_block hs b) = bk_lines b
     \<and> count_list (emit_block hs b) tick_line = (if bk_label b \<in> hs then 1 else 0)"
proof (cases "bk_lines b")
  case (Cons l ls)
  then show ?thesis
    using assms tick_lines_filter [of ls] count_tick_lines [of ls] has_tick_lines(1)
    by (auto simp: emit_block_def filter_id_conv)
qed (use assms in simp)

lemma emit_blocks_keep:
  assumes "\<forall>b \<in> set blocks. bk_lines b \<noteq> [] \<and> (\<forall>l \<in> set (bk_lines b). \<not> has_tick l)"
  shows "filter (\<lambda>l. \<not> has_tick l) (concat (map (emit_block hs) blocks)) = concat (map bk_lines blocks)
     \<and> count_list (concat (map (emit_block hs) blocks)) tick_line = count_ticks hs blocks"
  using assms
proof (induction blocks)
  case (Cons b blocks)
  then show ?case using emit_block_keeps [of b hs] by (auto simp: count_ticks_def)
qed (simp add: count_ticks_def)

lemma emit_block_no_headers: "emit_block {} = bk_lines"
  by (rule ext) (simp add: emit_block_def)

lemma emit_function_keeps:
  assumes "\<forall>l \<in> set body. \<not> has_tick l"
  shows "\<exists>out n. emit_function body = Some (out, n) \<and> filter (\<lambda>l. \<not> has_tick l) out = body \<and> count_list out tick_line = n"
proof -
  obtain prefix_lines blocks where p: "parse_function body = (prefix_lines, blocks)" by (cases "parse_function body")
  have k: "prefix_lines @ concat (map bk_lines blocks) = body" "\<forall>b \<in> set blocks. bk_lines b \<noteq> []"
    using parse_function_keeps [of "[]" "[]" body] p by (auto simp: parse_function_def)
  have clean: "\<forall>l \<in> set prefix_lines. \<not> has_tick l" "\<forall>b \<in> set blocks. bk_lines b \<noteq> [] \<and> (\<forall>l \<in> set (bk_lines b). \<not> has_tick l)"
    using assms k unfolding k(1) [symmetric] by auto
  obtain hs where hs: "loop_headers blocks = Some hs" using loop_headers_search by blast
  have "emit_function body = Some (prefix_lines @ concat (map (emit_block hs) blocks), count_ticks hs blocks)"
    by (simp add: emit_function_def p hs emit_block_no_headers count_ticks_def)
  moreover have "count_list prefix_lines tick_line = 0"
    using clean(1) has_tick_lines(1) by (auto simp: count_list_0_iff)
  moreover have "filter (\<lambda>l. \<not> has_tick l) prefix_lines = prefix_lines"
    using clean(1) by (simp add: filter_id_conv)
  ultimately show ?thesis
    using emit_blocks_keep [OF clean(2), of hs] by (simp add: k(1) [symmetric])
qed

lemma instrument_lines_keep:
  "\<forall>l \<in> set ls. \<not> has_tick l \<Longrightarrow>
   \<exists>out n. instrument_lines d ls = Some (out, n) \<and> filter (\<lambda>l. \<not> has_tick l) out = ls \<and> count_list out tick_line = n"
proof (induction d ls rule: instrument_lines.induct)
  case (2 d l ls)
  show ?case
  proof (cases "re_match DEFINE_RE l = None")
    case True
    obtain out n where o: "instrument_lines d ls = Some (out, n)" "filter (\<lambda>l. \<not> has_tick l) out = ls" "count_list out tick_line = n"
      using "2.IH"(1) [OF True] "2.prems" by auto
    have "instrument_lines d (l # ls) = Some (l # out, n)"
      by (simp only: instrument_lines.simps True if_True o option.map prod.case simp_thms)
    moreover have "\<not> has_tick l" "l \<noteq> tick_line" using "2.prems" has_tick_lines(1) by auto
    ultimately show ?thesis using o by simp
  next
    case False
    obtain body rest where c: "collect_body 0 (l # ls) = (body, rest)" by (cases "collect_body 0 (l # ls)")
    have split: "l # ls = body @ rest" using collect_body_split [OF c] .
    then have clean: "\<forall>x \<in> set body. \<not> has_tick x" "\<forall>x \<in> set rest. \<not> has_tick x"
      using "2.prems" by (metis Un_iff set_append)+
    obtain out n where e: "emit_function body = Some (out, n)" "filter (\<lambda>l. \<not> has_tick l) out = body" "count_list out tick_line = n"
      using emit_function_keeps [OF clean(1)] by blast
    obtain out' n' where r: "instrument_lines True rest = Some (out', n')" "filter (\<lambda>l. \<not> has_tick l) out' = rest" "count_list out' tick_line = n'"
      using "2.IH"(2) [OF False c [symmetric] refl e(1) refl clean(2)] by blast
    have "declare_line \<noteq> tick_line" by code_simp
    moreover have "instrument_lines d (l # ls) = Some ((if d then [] else [declare_line]) @ out @ out', n + n')"
      by (simp only: instrument_lines.simps False c e(1) r(1) if_False Let_def prod.case option.case option.map)
    ultimately show ?thesis using e r split by simp
  qed
qed simp

text \<open>
  The pass ends on every module and only adds lines: dropping the lines that name the tick
  function from the output gives the input lines in their order, and the count it reports is the
  number of tick calls added. A module that already names the tick is returned as it is.
\<close>

theorem instrument_only_adds_ticks:
  "if contains (CHR ''@'' # TICK) source then instrument source = Some (source, 0)
   else \<exists>out n. instrument source = Some (join [newline] out @ (if ends_with [newline] source then [newline] else []), n)
          \<and> filter (\<lambda>l. \<not> has_tick l) out = splitlines source \<and> count_list out tick_line = n"
proof (cases "contains (CHR ''@'' # TICK) source")
  case False
  then have "\<forall>l \<in> set (splitlines source). \<not> has_tick l" using splitlines_has_tick by blast
  then obtain out n where "instrument_lines False (splitlines source) = Some (out, n)"
      "filter (\<lambda>l. \<not> has_tick l) out = splitlines source" "count_list out tick_line = n"
    using instrument_lines_keep by blast
  then show ?thesis using False by (auto simp: instrument_def)
qed (simp add: instrument_def)

section \<open>What the text walk does not see\<close>

text \<open>
  LLVM prints the cases of a switch on lines of their own, \<^verbatim>\<open>i32 0, label %body\<close>: an indented line that
  starts with the letter i and a digit.
\<close>

definition case_arm :: "string \<Rightarrow> bool" where
  "case_arm l = (l \<noteq> [] \<and> hd l = CHR '' '' \<and> (case strip l of c # d # r \<Rightarrow> c = CHR ''i'' \<and> is_digit d | _ \<Rightarrow> False))"

lemma case_arm_no_label: "case_arm l \<Longrightarrow> re_match LABEL_RE l = None"
proof -
  assume "case_arm l"
  then obtain r where l: "l = CHR '' '' # r" by (cases l) (auto simp: case_arm_def)
  have "\<not> is_label_char (CHR '' '')" by code_simp
  then show "re_match LABEL_RE l = None"
    by (simp add: l re_match_def rx_first_def LABEL_RE_def quoted_name_rx_def rx_plus_def)
qed

lemma case_arm_no_terminator: "case_arm l \<Longrightarrow> \<not> (\<exists>p \<in> set TERMINATOR_PREFIXES. starts_with p (strip l))"
  by (auto simp: case_arm_def TERMINATOR_PREFIXES_def starts_with_def is_digit_def split: list.splits)

text \<open>The labels and successors of a function, all that the search for headers reads.\<close>

definition shape :: "block list \<Rightarrow> (string \<times> string list) list" where
  "shape bs = map (\<lambda>b. (bk_label b, bk_successors b)) bs"

lemma shape_simps [simp]:
  "shape [] = []" "shape (b # bs) = (bk_label b, bk_successors b) # shape bs" "shape (bs @ cs) = shape bs @ shape cs"
  "shape bs = [] \<longleftrightarrow> bs = []" "length (shape bs) = length bs" "shape (butlast bs) = butlast (shape bs)"
  by (simp_all add: shape_def map_butlast)

lemma shape_last: "bs \<noteq> [] \<Longrightarrow> (bk_label (last bs), bk_successors (last bs)) = last (shape bs)"
  by (simp add: shape_def last_map)

lemma block_line_shape:
  "bk_label (block_line b l) = bk_label b"
  "bk_successors (block_line b l) =
    (if \<exists>p \<in> set TERMINATOR_PREFIXES. starts_with p (strip l) then map (\<lambda>g. bare_label (group_of 1 g)) (re_finditer SUCC_RE (strip l))
     else bk_successors b)"
  by (simp_all add: block_line_def Let_def)

lemma parse_step_same:
  assumes "shape (snd st) = shape (snd st')"
  shows "shape (snd (parse_body_line st l)) = shape (snd (parse_body_line st' l))"
proof (cases "re_match LABEL_RE l")
  case None
  have e: "snd st = [] \<longleftrightarrow> snd st' = []" using assms by (metis shape_simps(4))
  show ?thesis
  proof (cases "snd st = []")
    case False
    then have ne: "snd st \<noteq> []" "snd st' \<noteq> []" using e by simp_all
    then have "(bk_label (last (snd st)), bk_successors (last (snd st))) = (bk_label (last (snd st')), bk_successors (last (snd st')))"
      using shape_last [OF ne(1)] shape_last [OF ne(2)] assms by simp
    then show ?thesis using None ne assms by (simp add: parse_body_line_def block_line_shape)
  qed (use None e in \<open>simp add: parse_body_line_def\<close>)
qed (use assms in \<open>simp add: parse_body_line_def\<close>)

lemma parse_step_arm:
  assumes "case_arm l"
  shows "shape (snd (parse_body_line st l)) = shape (snd st)"
proof (cases "snd st = []")
  case False
  then have "shape (snd st) = butlast (shape (snd st)) @ [(bk_label (last (snd st)), bk_successors (last (snd st)))]"
    using shape_last [OF False] by simp
  then show ?thesis
    using case_arm_no_label [OF assms] case_arm_no_terminator [OF assms] False
    by (simp add: parse_body_line_def block_line_shape)
qed (use case_arm_no_label [OF assms] in \<open>simp add: parse_body_line_def\<close>)

lemma parse_function_shape:
  "shape (snd (parse_function body)) = shape (snd (parse_function (filter (\<lambda>l. \<not> case_arm l) body)))"
proof -
  have "shape (snd (foldl parse_body_line st body)) = shape (snd (foldl parse_body_line st' (filter (\<lambda>l. \<not> case_arm l) body)))"
    if "shape (snd st) = shape (snd st')" for st st'
    using that
  proof (induction body arbitrary: st st')
    case (Cons l ls)
    have "shape (snd (parse_body_line st l)) = shape (snd (if case_arm l then st' else parse_body_line st' l))"
      using Cons.prems parse_step_arm [of l st] parse_step_same [of st st' l] by simp
    from Cons.IH [OF this] show ?case by (cases "case_arm l") simp_all
  qed simp
  then show ?thesis by (simp add: parse_function_def)
qed

subsection \<open>The headers depend on labels and successors only\<close>

lemma dict_of_map: "dget (dict_of (map (\<lambda>(k, v). (k, f v)) kvs)) k = map_option f (dget (dict_of kvs) k)"
proof -
  have "dget (rev (map (\<lambda>(k, v). (k, f v)) kvs)) k = map_option f (dget (rev kvs) k)"
    by (simp add: rev_map map_of_map)
  then show ?thesis unfolding dget_dupdate by (cases "dget (rev kvs) k") simp_all
qed

lemma blocks_by_label_shape: "map_option bk_successors (dget (blocks_by_label bs) l) = dget (dict_of (shape bs)) l"
proof -
  have "map (\<lambda>(k, v). (k, bk_successors v)) (map (\<lambda>b. (bk_label b, b)) bs) = shape bs" by (simp add: shape_def)
  then show ?thesis unfolding blocks_by_label_def by (simp only: dict_of_map [symmetric])
qed

lemma visit_shape:
  assumes "\<And>l. map_option bk_successors (dget g l) = map_option bk_successors (dget g' l)"
  shows "visit n g l st = visit n g' l st"
proof (induction n arbitrary: l st)
  case (Suc n)
  have m: "dmem s g = dmem s g'" for s unfolding dmem_iff using assms [of s] by (metis map_option_is_None)
  have "visit_successor g (visit n g) = visit_successor g' (visit n g')"
    by (intro ext) (simp add: visit_successor_def m Suc)
  then show ?case using assms [of l] by (auto split: option.splits)
qed simp

lemma foldO_map: "foldO f s (map h xs) = foldO (\<lambda>s x. f s (h x)) s xs"
  by (induction xs arbitrary: s) (auto split: option.splits)

lemma loop_headers_shape:
  assumes "shape bs = shape cs"
  shows "loop_headers bs = loop_headers cs"
proof -
  define vb where "vb n g st l = (if mark_of st l = 0 then visit n g l st else Some st)" for n g st l
  have headers: "loop_headers bs = map_option headers (foldO (vb (Suc (length (shape bs))) (blocks_by_label bs))
      \<lparr>headers = {}, marks = [], dfs_stack = []\<rparr> (map fst (shape bs)))" for bs
  proof -
    have "visit_block n g = (\<lambda>st b. vb n g st (bk_label b))" for n g by (intro ext) (simp add: vb_def visit_block_def)
    moreover have "map fst (shape bs) = map bk_label bs" by (simp add: shape_def)
    ultimately show ?thesis by (simp only: loop_headers_def foldO_map shape_simps)
  qed
  have "map_option bk_successors (dget (blocks_by_label bs) l) = map_option bk_successors (dget (blocks_by_label cs) l)" for l
    by (simp only: blocks_by_label_shape assms)
  then have "vb n (blocks_by_label bs) = vb n (blocks_by_label cs)" for n
    by (intro ext) (simp only: vb_def visit_shape [of "blocks_by_label bs" "blocks_by_label cs"])
  then show ?thesis unfolding headers assms by simp
qed

subsection \<open>Phi lines\<close>

lemma rstrip_Cons: "\<not> is_space c \<Longrightarrow> rstrip (c # s) = c # rstrip s"
  by (cases "\<forall>x \<in> set s. is_space x") (auto simp: rstrip_def dropWhile_append1 dropWhile_append3)

lemma strip_assignment: "strip (''  %'' @ r) = CHR ''%'' # rstrip r"
proof -
  have "is_space (CHR '' '')" "\<not> is_space (CHR ''%'')" by code_simp+
  then show ?thesis by (simp add: strip_def lstrip_def rstrip_Cons)
qed

lemma tick_before_phi: "tick_lines ((''  %'' @ r) # ls) = tick_line # (''  %'' @ r) # ls"
proof -
  have "\<not> starts_with ''phi '' (strip (''  %'' @ r))" unfolding strip_assignment by (simp add: starts_with_def)
  then show ?thesis by (simp only: tick_lines.simps if_True not_False_eq_True)
qed

text \<open>
  (C37) Two things the pass does not see in any function, though its description says it treats them.
  The case labels of a switch stand on lines that start with no terminator: with those lines removed
  from the text the blocks have the same successors and the search finds the same headers, so a loop
  that closes through a case arm alone gets no tick. And a phi instruction is recognised only when the
  line starts with \<^verbatim>\<open>phi\<close>, which no LLVM line with a result does: before such a line the tick is put
  at once, ahead of the phi nodes of the header.
\<close>

theorem switch_loop_untracked:
  "shape (snd (parse_function body)) = shape (snd (parse_function (filter (\<lambda>l. \<not> case_arm l) body))) \<and>
   loop_headers (snd (parse_function body)) = loop_headers (snd (parse_function (filter (\<lambda>l. \<not> case_arm l) body))) \<and>
   tick_lines ((''  %'' @ r) # ls) = tick_line # (''  %'' @ r) # ls"
  using parse_function_shape loop_headers_shape [OF parse_function_shape] tick_before_phi by blast

theorem switch_loop_untracked_witness:
  "case_arm ''    i32 0, label %body'' \<and>
   loop_headers (snd (parse_function [''loop:'', ''  switch i32 %x, label %exit ['', ''    i32 0, label %body'', ''  ]'', ''body:'', ''  br label %loop'']))
     = loop_headers (snd (parse_function [''loop:'', ''  switch i32 %x, label %exit ['', ''  ]'', ''body:'', ''  br label %loop'']))"
proof -
  have arms: "case_arm ''    i32 0, label %body''" "\<not> case_arm ''loop:''" "\<not> case_arm ''  switch i32 %x, label %exit [''"
    "\<not> case_arm ''  ]''" "\<not> case_arm ''body:''" "\<not> case_arm ''  br label %loop''" by code_simp+
  show ?thesis
    using switch_loop_untracked [of "[''loop:'', ''  switch i32 %x, label %exit ['', ''    i32 0, label %body'', ''  ]'', ''body:'', ''  br label %loop'']" "[]" "[]"]
    by (simp only: filter.simps arms if_True if_False not_True_eq_False not_False_eq_True simp_thms)
qed

definition switch_loop :: "string list" where
  "switch_loop = [''define void @f(i32 %x) {'', ''entry:'', ''  br label %loop'', ''loop:'',
     ''  switch i32 %x, label %exit ['', ''    i32 0, label %body'', ''  ]'', ''body:'', ''  br label %loop'',
     ''exit:'', ''  ret void'', ''}'']"

definition phi_loop :: "string list" where
  "phi_loop = [''define void @g() {'', ''entry:'', ''  br label %loop'', ''loop:'',
     ''  %i = phi i32 [ 0, %entry ], [ %j, %loop ]'', ''  br label %loop'', ''}'']"

text \<open>Two whole functions: the loop of the first gets no tick, the second's comes before the phi.\<close>

lemma switch_and_phi_examples:
  "instrument_lines False switch_loop = Some (declare_line # switch_loop, 0)
   \<and> instrument_lines False phi_loop =
       Some (declare_line # take 4 phi_loop @ [tick_line] @ drop 4 phi_loop, 1)"
  by (rule conjI; code_simp)

end
