(* ===== verification/Semantic_Graph.thy ===== *)
theory Semantic_Graph
  imports Py_Prelude "HOL-Library.Product_Lexorder"
begin

text \<open>
  The graph algorithms of the semantic planner (\<^verbatim>\<open>src/fuzzer/semantic/planning.py\<close>): Tarjan's strongly
  connected components over the STG graph, and the bounded enumeration of paths that never leave a
  component and enter it again. A graph is the list of its node ids and of its edges; the fields of
  an edge that the code reads with \<^verbatim>\<open>isinstance(_, str)\<close> are options, \<^verbatim>\<open>None\<close> for anything that is
  no string. A Python \<^verbatim>\<open>KeyError\<close> is an error value of the model. The recursion of \<^verbatim>\<open>visit\<close> carries
  a bound; \<^verbatim>\<open>Tarjan_Scc\<close> proves that the bound is never met and that no key is missing.
\<close>

record stg_edge =
  e_id :: string
  e_from :: "string option"
  e_to :: "string option"

record stg_graph =
  g_nodes :: "string list"
  g_edges :: "stg_edge list"

section \<open>Strongly connected components\<close>

text \<open>\<^verbatim>\<open>adjacency.get(node, [])\<close> after the destinations were sorted.\<close>

definition adjacency :: "stg_edge list \<Rightarrow> string \<Rightarrow> string list" where
  "adjacency edges v = sort (map (\<lambda>e. the (e_to e)) (filter (\<lambda>e. e_from e = Some v \<and> e_to e \<noteq> None) edges))"

record tarjan =
  tj_index :: nat
  indices :: "(string, nat) dict"
  lowlinks :: "(string, nat) dict"
  tj_stack :: "string list" \<comment> \<open>top first\<close>
  on_stack :: "string set"
  components :: "string list list"

definition tarjan_enter :: "string \<Rightarrow> tarjan \<Rightarrow> tarjan" where
  "tarjan_enter v st = st\<lparr>indices := dset v (tj_index st) (indices st), lowlinks := dset v (tj_index st) (lowlinks st),
     tj_index := tj_index st + 1, tj_stack := v # tj_stack st, on_stack := insert v (on_stack st)\<rparr>"

definition lower_link :: "string \<Rightarrow> nat option \<Rightarrow> tarjan \<Rightarrow> tarjan option" where
  "lower_link v n st =
     (case (dget (lowlinks st) v, n) of
        (Some low, Some m) \<Rightarrow> Some (st\<lparr>lowlinks := dset v (min low m) (lowlinks st)\<rparr>)
      | _ \<Rightarrow> None)"

text \<open>The successor loop of \<^verbatim>\<open>visit\<close>, given the recursive call.\<close>

fun scan_successors :: "(string \<Rightarrow> tarjan \<Rightarrow> tarjan option) \<Rightarrow> string \<Rightarrow> string list \<Rightarrow> tarjan \<Rightarrow> tarjan option" where
  "scan_successors rec v [] st = Some st"
| "scan_successors rec v (w # ws) st =
     (case (if \<not> dmem w (indices st)
            then (case rec w st of None \<Rightarrow> None | Some st1 \<Rightarrow> lower_link v (dget (lowlinks st1) w) st1)
            else if w \<in> on_stack st then lower_link v (dget (indices st) w) st
            else Some st) of
        None \<Rightarrow> None
      | Some st2 \<Rightarrow> scan_successors rec v ws st2)"

text \<open>The loop that pops a component: the members, the stack left, and \<^verbatim>\<open>on_stack\<close>.\<close>

fun pop_component :: "string \<Rightarrow> string list \<Rightarrow> string set \<Rightarrow> (string list \<times> string list \<times> string set) option" where
  "pop_component v [] on = Some ([], [], on)"
| "pop_component v (m # st) on =
     (if m \<notin> on then None
      else if m = v then Some ([m], st, on - {m})
      else map_option (\<lambda>(c, st', on'). (m # c, st', on')) (pop_component v st (on - {m})))"

definition close_component :: "string \<Rightarrow> tarjan \<Rightarrow> tarjan option" where
  "close_component v st =
     (if dget (lowlinks st) v \<noteq> dget (indices st) v then Some st
      else map_option (\<lambda>(c, stack', on'). st\<lparr>tj_stack := stack', on_stack := on', components := components st @ [sort c]\<rparr>)
             (pop_component v (tj_stack st) (on_stack st)))"

primrec tarjan_visit :: "nat \<Rightarrow> (string \<Rightarrow> string list) \<Rightarrow> string \<Rightarrow> tarjan \<Rightarrow> tarjan option" where
  "tarjan_visit 0 succs v st = None"
| "tarjan_visit (Suc n) succs v st =
     (case scan_successors (tarjan_visit n succs) v (succs v) (tarjan_enter v st) of
        None \<Rightarrow> None
      | Some st1 \<Rightarrow> close_component v st1)"

fun visit_nodes :: "nat \<Rightarrow> (string \<Rightarrow> string list) \<Rightarrow> string list \<Rightarrow> tarjan \<Rightarrow> tarjan option" where
  "visit_nodes n succs [] st = Some st"
| "visit_nodes n succs (v # vs) st =
     (if dmem v (indices st) then visit_nodes n succs vs st
      else case tarjan_visit n succs v st of None \<Rightarrow> None | Some st' \<Rightarrow> visit_nodes n succs vs st')"

definition tarjan_start :: tarjan where
  "tarjan_start = \<lparr>tj_index = 0, indices = [], lowlinks = [], tj_stack = [], on_stack = {}, components = []\<rparr>"

definition strongly_connected_components :: "string list \<Rightarrow> stg_edge list \<Rightarrow> string list list option" where
  "strongly_connected_components node_ids edges =
     map_option (\<lambda>st. sort_key (\<lambda>c. case c of [] \<Rightarrow> [] | m # _ \<Rightarrow> m) (components st))
       (visit_nodes (length node_ids + length edges + 1) (adjacency edges) (sort (remdups node_ids)) tarjan_start)"

section \<open>Bounded path enumeration\<close>

datatype path_error = LimitsNotPositive | MissingKey

text \<open>\<^verbatim>\<open>component_of\<close>: later entries win, and the components are disjoint.\<close>

definition component_of :: "string list list \<Rightarrow> (string, nat) dict" where
  "component_of comps = dict_of (concat (map (\<lambda>(i, c). map (\<lambda>v. (v, i)) c) (List.enumerate 0 comps)))"

definition outgoing :: "stg_edge list \<Rightarrow> string \<Rightarrow> stg_edge list" where
  "outgoing edges v = sort_key (\<lambda>e. (the (e_to e), e_id e)) (filter (\<lambda>e. e_from e = Some v) edges)"

record path_entry =
  pe_node :: string
  pe_nodes :: "string list"
  pe_edges :: "string list"
  pe_components :: "nat set"
  pe_visited :: "string set"

record path_result =
  pr_node_ids :: "string list"
  pr_edge_ids :: "string list"

record path_search =
  ps_queue :: "path_entry list"
  ps_results :: "path_result list"
  expansion_count :: nat
  queue_peak :: nat
  ps_reasons :: "string set"

definition extend_entry :: "path_entry \<Rightarrow> stg_edge \<Rightarrow> string \<Rightarrow> nat \<Rightarrow> path_entry" where
  "extend_entry en e w k = \<lparr>pe_node = w, pe_nodes = pe_nodes en @ [w], pe_edges = pe_edges en @ [e_id e],
     pe_components = insert k (pe_components en), pe_visited = insert w (pe_visited en)\<rparr>"

text \<open>The edge loop for one entry; it stops at the expansion budget.\<close>

fun expand_edges :: "(string, nat) dict \<Rightarrow> nat \<Rightarrow> path_entry \<Rightarrow> nat \<Rightarrow> stg_edge list \<Rightarrow> path_search \<Rightarrow> path_error + path_search" where
  "expand_edges cof max_expansions en current [] s = Inr s"
| "expand_edges cof max_expansions en current (e # es) s =
     (if max_expansions \<le> expansion_count s then Inr (s\<lparr>ps_reasons := insert ''expansion_budget'' (ps_reasons s)\<rparr>)
      else let s1 = s\<lparr>expansion_count := expansion_count s + 1\<rparr>; w = the (e_to e) in
        case dget cof w of
          None \<Rightarrow> Inl MissingKey
        | Some k \<Rightarrow>
            if w \<in> pe_visited en \<or> k \<noteq> current \<and> k \<in> pe_components en
            then expand_edges cof max_expansions en current es s1
            else expand_edges cof max_expansions en current es
              (s1\<lparr>ps_queue := ps_queue s1 @ [extend_entry en e w k],
                  queue_peak := max (queue_peak s1) (length (ps_queue s1) + 1)\<rparr>))"

text \<open>One round of the outer loop on the entry taken from the queue.\<close>

definition search_step ::
  "(string, nat) dict \<Rightarrow> (string \<Rightarrow> stg_edge list) \<Rightarrow> string \<Rightarrow> nat \<Rightarrow> nat \<Rightarrow> path_entry \<Rightarrow> path_search \<Rightarrow> path_error + path_search" where
  "search_step cof adj destination limit max_expansions en s =
     (if pe_node en = destination
      then Inr (s\<lparr>ps_results := ps_results s @ [\<lparr>pr_node_ids = pe_nodes en, pr_edge_ids = pe_edges en\<rparr>]\<rparr>)
      else if limit \<le> length (pe_nodes en)
      then Inr (if \<exists>e \<in> set (adj (pe_node en)). the (e_to e) \<notin> pe_visited en
                then s\<lparr>ps_reasons := insert ''node_limit'' (ps_reasons s)\<rparr> else s)
      else case dget cof (pe_node en) of
             None \<Rightarrow> Inl MissingKey
           | Some current \<Rightarrow> expand_edges cof max_expansions en current (adj (pe_node en)) s)"

lemma expand_edges_measure:
  "expand_edges cof m en c es s = Inr s' \<Longrightarrow>
     2 * (m - expansion_count s') + length (ps_queue s') \<le> 2 * (m - expansion_count s) + length (ps_queue s)"
proof (induction cof m en c es s rule: expand_edges.induct)
  case (2 cof m en c e es s)
  then show ?case by (fastforce simp: Let_def split: if_splits option.splits)
qed simp

lemma search_step_measure:
  "search_step cof adj d l m en s = Inr s' \<Longrightarrow>
     2 * (m - expansion_count s') + length (ps_queue s') \<le> 2 * (m - expansion_count s) + length (ps_queue s)"
  by (auto simp: search_step_def expand_edges_measure split: if_splits option.splits)

function search_loop ::
  "(string, nat) dict \<Rightarrow> (string \<Rightarrow> stg_edge list) \<Rightarrow> string \<Rightarrow> nat \<Rightarrow> nat \<Rightarrow> nat \<Rightarrow> path_search \<Rightarrow> path_error + path_search" where
  "search_loop cof adj destination limit max_paths max_expansions s =
     (if ps_queue s = [] \<or> max_paths \<le> length (ps_results s) then Inr s
      else case search_step cof adj destination limit max_expansions (hd (ps_queue s)) (s\<lparr>ps_queue := tl (ps_queue s)\<rparr>) of
             Inl e \<Rightarrow> Inl e
           | Inr s1 \<Rightarrow> if ''expansion_budget'' \<in> ps_reasons s1 then Inr s1
                       else search_loop cof adj destination limit max_paths max_expansions s1)"
  by pat_completeness auto

termination
proof (relation "measure (\<lambda>(_, _, _, _, _, m, s). 2 * (m - expansion_count s) + length (ps_queue s))", goal_cases)
  case (2 cof adj d l mp me s s1)
  then have "length (tl (ps_queue s)) < length (ps_queue s)" by (cases "ps_queue s") auto
  then show ?case using search_step_measure [OF 2(2)] by simp
qed simp

declare search_loop.simps [simp del]

record path_diagnostics =
  pd_max_expansions :: nat
  pd_max_paths :: nat
  pd_max_nodes :: "nat option"
  pd_expansion_count :: nat
  pd_queue_peak :: nat
  pd_truncated :: bool
  pd_truncation_reasons :: "string list"

definition string_edges :: "stg_edge list \<Rightarrow> stg_edge list" where
  "string_edges edges = filter (\<lambda>e. e_from e \<noteq> None \<and> e_to e \<noteq> None) edges"

definition initial_search :: "(string, nat) dict \<Rightarrow> string \<Rightarrow> nat \<Rightarrow> path_search" where
  "initial_search cof start k = \<lparr>ps_queue = [\<lparr>pe_node = start, pe_nodes = [start], pe_edges = [],
       pe_components = {k}, pe_visited = {start}\<rparr>],
     ps_results = [], expansion_count = 0, queue_peak = 1, ps_reasons = {}\<rparr>"

definition report_search :: "nat \<Rightarrow> nat \<Rightarrow> nat \<Rightarrow> path_search \<Rightarrow> path_diagnostics" where
  "report_search max_paths limit max_expansions s =
     (let reasons = (if ps_queue s \<noteq> [] \<and> max_paths \<le> length (ps_results s)
                     then insert ''path_limit'' (ps_reasons s) else ps_reasons s)
      in \<lparr>pd_max_expansions = max_expansions, pd_max_paths = max_paths, pd_max_nodes = Some limit,
          pd_expansion_count = expansion_count s, pd_queue_peak = queue_peak s,
          pd_truncated = (reasons \<noteq> {}), pd_truncation_reasons = sorted_list_of_set reasons\<rparr>)"

definition idle_search :: "nat \<Rightarrow> nat \<Rightarrow> path_diagnostics" where
  "idle_search max_paths max_expansions =
     \<lparr>pd_max_expansions = max_expansions, pd_max_paths = max_paths, pd_max_nodes = None, pd_expansion_count = 0,
      pd_queue_peak = 0, pd_truncated = False, pd_truncation_reasons = []\<rparr>"

definition bounded_paths ::
  "stg_graph \<Rightarrow> string \<Rightarrow> string \<Rightarrow> nat \<Rightarrow> nat option \<Rightarrow> nat \<Rightarrow> path_error + path_result list \<times> path_diagnostics" where
  "bounded_paths graph start destination max_paths max_nodes max_expansions =
     (if max_paths < 1 \<or> max_expansions < 1 \<or> max_nodes = Some 0 then Inl LimitsNotPositive
      else let nodes = g_nodes graph; edges = string_edges (g_edges graph) in
        if start \<notin> set nodes \<or> destination \<notin> set nodes then Inr ([], idle_search max_paths max_expansions)
        else case strongly_connected_components nodes edges of
               None \<Rightarrow> Inl MissingKey
             | Some comps \<Rightarrow>
                 let cof = component_of comps;
                     limit = (case max_nodes of Some n \<Rightarrow> n | None \<Rightarrow> max 2 (length nodes + length comps))
                 in case dget cof start of
                      None \<Rightarrow> Inl MissingKey
                    | Some k \<Rightarrow>
                        map_sum id (\<lambda>s. (ps_results s, report_search max_paths limit max_expansions s))
                          (search_loop cof (outgoing edges) destination limit max_paths max_expansions
                             (initial_search cof start k)))"

end
