(* ===== verification/Tarjan_Scc.thy ===== *)
theory Tarjan_Scc
  imports Semantic_Graph
begin

text \<open>
  Correctness of the planner's strongly connected components: the search of
  \<^verbatim>\<open>strongly_connected_components\<close> ends within its bound, meets no missing key, and returns the
  strongly connected components of everything reachable from the given nodes. The invariant is stated
  with the set of grey nodes (those whose visit has not returned) as an extra parameter; the contract
  of a graph with finitely many successors is the locale \<^verbatim>\<open>succ_graph\<close>.
\<close>

section \<open>Reachability and the invariant\<close>

definition reaches :: "(string \<Rightarrow> string list) \<Rightarrow> string \<Rightarrow> string \<Rightarrow> bool" where
  "reaches succs = (\<lambda>u w. w \<in> set (succs u))\<^sup>*\<^sup>*"

definition is_scc :: "(string \<Rightarrow> string list) \<Rightarrow> string set \<Rightarrow> bool" where
  "is_scc succs C = (C \<noteq> {} \<and> (\<forall>x \<in> C. C = {y. reaches succs x y \<and> reaches succs y x}))"

definition num :: "tarjan \<Rightarrow> string \<Rightarrow> nat" where
  "num st v = the (dget (indices st) v)"

definition low :: "tarjan \<Rightarrow> string \<Rightarrow> nat" where
  "low st v = the (dget (lowlinks st) v)"

definition visited :: "tarjan \<Rightarrow> string set" where
  "visited st = {v. dget (indices st) v \<noteq> None}"

definition closed_nodes :: "tarjan \<Rightarrow> string set" where
  "closed_nodes st = set (concat (components st))"

definition tarjan_ok :: "(string \<Rightarrow> string list) \<Rightarrow> string set \<Rightarrow> tarjan \<Rightarrow> bool" where
  "tarjan_ok succs grey st = (
     grey \<subseteq> set (tj_stack st) \<and> on_stack st = set (tj_stack st)
   \<and> visited st = set (tj_stack st) \<union> closed_nodes st \<and> set (tj_stack st) \<inter> closed_nodes st = {}
   \<and> sorted_wrt (\<lambda>x y. num st y < num st x) (tj_stack st)
   \<and> (\<forall>v \<in> visited st. num st v < tj_index st \<and> dget (lowlinks st) v \<noteq> None)
   \<and> (\<forall>x \<in> visited st - grey. set (succs x) \<subseteq> visited st)
   \<and> (\<forall>x \<in> closed_nodes st. set (succs x) \<subseteq> closed_nodes st)
   \<and> (\<forall>x \<in> set (tj_stack st). \<forall>y \<in> set (tj_stack st). num st x \<le> num st y \<longrightarrow> reaches succs x y)
   \<and> (\<forall>y \<in> set (tj_stack st). \<exists>g \<in> grey. num st g \<le> num st y \<and> reaches succs y g)
   \<and> (\<forall>c \<in> set (components st). is_scc succs (set c) \<and> sorted c) \<and> distinct (concat (components st)))"

lemma tarjan_okD:
  assumes "tarjan_ok succs grey st"
  shows "grey \<subseteq> set (tj_stack st)" "on_stack st = set (tj_stack st)"
    "visited st = set (tj_stack st) \<union> closed_nodes st" "set (tj_stack st) \<inter> closed_nodes st = {}"
    "sorted_wrt (\<lambda>x y. num st y < num st x) (tj_stack st)"
    "\<And>v. v \<in> visited st \<Longrightarrow> num st v < tj_index st" "\<And>v. v \<in> visited st \<Longrightarrow> dget (lowlinks st) v \<noteq> None"
    "\<And>x w. x \<in> visited st \<Longrightarrow> x \<notin> grey \<Longrightarrow> w \<in> set (succs x) \<Longrightarrow> w \<in> visited st"
    "\<And>x w. x \<in> closed_nodes st \<Longrightarrow> w \<in> set (succs x) \<Longrightarrow> w \<in> closed_nodes st"
    "\<And>x y. x \<in> set (tj_stack st) \<Longrightarrow> y \<in> set (tj_stack st) \<Longrightarrow> num st x \<le> num st y \<Longrightarrow> reaches succs x y"
    "\<And>y. y \<in> set (tj_stack st) \<Longrightarrow> \<exists>g \<in> grey. num st g \<le> num st y \<and> reaches succs y g"
    "\<And>c. c \<in> set (components st) \<Longrightarrow> is_scc succs (set c) \<and> sorted c" "distinct (concat (components st))"
  using assms unfolding tarjan_ok_def by blast+

lemma tarjan_okI:
  assumes "grey \<subseteq> set (tj_stack st)" "on_stack st = set (tj_stack st)"
    "visited st = set (tj_stack st) \<union> closed_nodes st" "set (tj_stack st) \<inter> closed_nodes st = {}"
    "sorted_wrt (\<lambda>x y. num st y < num st x) (tj_stack st)"
    "\<And>v. v \<in> visited st \<Longrightarrow> num st v < tj_index st" "\<And>v. v \<in> visited st \<Longrightarrow> dget (lowlinks st) v \<noteq> None"
    "\<And>x w. x \<in> visited st \<Longrightarrow> x \<notin> grey \<Longrightarrow> w \<in> set (succs x) \<Longrightarrow> w \<in> visited st"
    "\<And>x w. x \<in> closed_nodes st \<Longrightarrow> w \<in> set (succs x) \<Longrightarrow> w \<in> closed_nodes st"
    "\<And>x y. x \<in> set (tj_stack st) \<Longrightarrow> y \<in> set (tj_stack st) \<Longrightarrow> num st x \<le> num st y \<Longrightarrow> reaches succs x y"
    "\<And>y. y \<in> set (tj_stack st) \<Longrightarrow> \<exists>g \<in> grey. num st g \<le> num st y \<and> reaches succs y g"
    "\<And>c. c \<in> set (components st) \<Longrightarrow> is_scc succs (set c) \<and> sorted c" "distinct (concat (components st))"
  shows "tarjan_ok succs grey st"
  unfolding tarjan_ok_def using assms by blast

lemma reaches_refl [simp]: "reaches succs x x"
  by (simp add: reaches_def)

lemma reaches_trans: "reaches succs x y \<Longrightarrow> reaches succs y z \<Longrightarrow> reaches succs x z"
  unfolding reaches_def by (rule rtranclp_trans)

lemma reaches_edge: "w \<in> set (succs u) \<Longrightarrow> reaches succs u w"
  unfolding reaches_def by (rule r_into_rtranclp)

text \<open>A set that no edge leaves is not left by a path.\<close>

lemma reaches_stays:
  assumes "reaches succs x y" "x \<in> S" "\<And>u w. u \<in> S \<Longrightarrow> w \<in> set (succs u) \<Longrightarrow> w \<in> S"
  shows "y \<in> S"
  using assms(1) unfolding reaches_def by (induction rule: rtranclp_induct) (use assms(2,3) in auto)

text \<open>What a visit keeps of the state it started from; \<open>s\<close> is what it left on the stack.\<close>

definition tarjan_ext :: "tarjan \<Rightarrow> tarjan \<Rightarrow> string list \<Rightarrow> bool" where
  "tarjan_ext st st' s = (tj_stack st' = s @ tj_stack st \<and> visited st \<subseteq> visited st'
     \<and> (\<forall>v \<in> visited st. num st' v = num st v \<and> low st' v = low st v))"

lemma sorted_stack_distinct: "sorted_wrt (\<lambda>x y. num st y < num st x) xs \<Longrightarrow> distinct xs"
  by (induction xs) auto

section \<open>One state step at a time\<close>

lemma enter_fields [simp]:
  "tj_stack (tarjan_enter v st) = v # tj_stack st" "on_stack (tarjan_enter v st) = insert v (on_stack st)"
  "components (tarjan_enter v st) = components st" "closed_nodes (tarjan_enter v st) = closed_nodes st"
  "tj_index (tarjan_enter v st) = Suc (tj_index st)" "visited (tarjan_enter v st) = insert v (visited st)"
  "num (tarjan_enter v st) u = (if u = v then tj_index st else num st u)"
  "low (tarjan_enter v st) u = (if u = v then tj_index st else low st u)"
  "dget (lowlinks (tarjan_enter v st)) u = (if u = v then Some (tj_index st) else dget (lowlinks st) u)"
  by (auto simp: tarjan_enter_def closed_nodes_def visited_def num_def low_def dict_simps)

lemma tarjan_ok_enter:
  assumes "tarjan_ok succs grey st" "v \<notin> visited st" "\<And>g. g \<in> grey \<Longrightarrow> reaches succs g v"
  shows "tarjan_ok succs (insert v grey) (tarjan_enter v st)"
proof -
  note D = tarjan_okD [OF assms(1)]
  have on: "u \<in> visited st \<and> u \<noteq> v" if "u \<in> set (tj_stack st)" for u using that D(3) assms(2) by auto
  have to_v: "reaches succs u v" if u: "u \<in> set (tj_stack st)" for u
    using D(11) [OF u] assms(3) reaches_trans by blast
  show ?thesis
  proof (rule tarjan_okI)
    fix x y assume "x \<in> set (tj_stack (tarjan_enter v st))" "y \<in> set (tj_stack (tarjan_enter v st))"
      "num (tarjan_enter v st) x \<le> num (tarjan_enter v st) y"
    then show "reaches succs x y"
      using to_v D(10) [of x y] D(6) on by (fastforce split: if_splits)
  next
    fix y assume "y \<in> set (tj_stack (tarjan_enter v st))"
    then show "\<exists>g \<in> insert v grey. num (tarjan_enter v st) g \<le> num (tarjan_enter v st) y \<and> reaches succs y g"
      using D(11) [of y] D(1) on by fastforce
  next
    show "sorted_wrt (\<lambda>x y. num (tarjan_enter v st) y < num (tarjan_enter v st) x) (tj_stack (tarjan_enter v st))"
      using sorted_wrt_mono_rel [OF _ D(5), of "\<lambda>x y. num (tarjan_enter v st) y < num (tarjan_enter v st) x"] D(6) on
      by (auto simp del: enter_fields(7)) (auto simp: on)
  next
    fix x w assume "x \<in> visited (tarjan_enter v st)" "x \<notin> insert v grey" "w \<in> set (succs x)"
    then show "w \<in> visited (tarjan_enter v st)" using D(8) by auto
  next
    fix x assume "x \<in> visited (tarjan_enter v st)"
    then show "num (tarjan_enter v st) x < tj_index (tarjan_enter v st)" using D(6) [of x] by (auto simp: less_SucI)
    show "dget (lowlinks (tarjan_enter v st)) x \<noteq> None" if "x \<in> visited (tarjan_enter v st)" for x
      using that D(7) [of x] by auto
  qed (use D assms(2) in auto)
qed

text \<open>Lowering a link changes nothing else.\<close>

lemma lower_link_fields:
  assumes "lower_link v n st = Some st'"
  shows "tj_stack st' = tj_stack st" "visited st' = visited st" "num st' = num st" "closed_nodes st' = closed_nodes st"
    "\<And>u. low st' u = (if u = v then min (low st v) (the n) else low st u)" "on_stack st' = on_stack st"
    "tarjan_ok succs grey st \<Longrightarrow> tarjan_ok succs grey st'" "indices st' = indices st"
proof -
  obtain l m where l: "dget (lowlinks st) v = Some l" "n = Some m" "st' = st\<lparr>lowlinks := dset v (min l m) (lowlinks st)\<rparr>"
    using assms by (auto simp: lower_link_def split: option.splits)
  show f: "tj_stack st' = tj_stack st" "visited st' = visited st" "num st' = num st" "closed_nodes st' = closed_nodes st"
    "\<And>u. low st' u = (if u = v then min (low st v) (the n) else low st u)" "on_stack st' = on_stack st" "indices st' = indices st"
    using l by (auto simp: visited_def num_def closed_nodes_def low_def dict_simps fun_eq_iff)
  have g: "components st' = components st" "tj_index st' = tj_index st" using l by simp_all
  have d: "dget (lowlinks st') u \<noteq> None" if "dget (lowlinks st) u \<noteq> None" for u
    using l that by (auto simp: dict_simps)
  show "tarjan_ok succs grey st'" if ok: "tarjan_ok succs grey st"
    by (rule tarjan_okI; unfold f(1-4,6) g) (use tarjan_okD [OF ok] d in \<open>blast+\<close>)
qed

lemma lower_link_some: "dget (lowlinks st) v \<noteq> None \<Longrightarrow> n \<noteq> None \<Longrightarrow> \<exists>st'. lower_link v n st = Some st'"
  by (auto simp: lower_link_def)

section \<open>Closing a component\<close>

text \<open>The state of a node's visit after the loop over its successors.\<close>

definition scanned :: "(string \<Rightarrow> string list) \<Rightarrow> string set \<Rightarrow> string list \<Rightarrow> string \<Rightarrow> string list \<Rightarrow> string set \<Rightarrow> tarjan \<Rightarrow> bool" where
  "scanned succs grey stack0 v s P st = (
     tarjan_ok succs (insert v grey) st \<and> tj_stack st = s @ v # stack0 \<and> grey \<subseteq> set stack0
   \<and> low st v \<le> num st v
   \<and> (\<exists>y \<in> set (tj_stack st). num st y = low st v \<and> reaches succs v y)
   \<and> (\<forall>u \<in> set s. \<forall>w \<in> set (succs u). w \<in> set stack0 \<longrightarrow> low st v \<le> num st w)
   \<and> (\<forall>w \<in> P. w \<in> visited st \<and> (w \<in> set stack0 \<longrightarrow> low st v \<le> num st w)))"

lemma scannedD:
  assumes "scanned succs grey stack0 v s P st"
  shows "tarjan_ok succs (insert v grey) st" "tj_stack st = s @ v # stack0" "grey \<subseteq> set stack0"
    "low st v \<le> num st v" "\<exists>y \<in> set (tj_stack st). num st y = low st v \<and> reaches succs v y"
    "\<And>u w. u \<in> set s \<Longrightarrow> w \<in> set (succs u) \<Longrightarrow> w \<in> set stack0 \<Longrightarrow> low st v \<le> num st w"
    "\<And>w. w \<in> P \<Longrightarrow> w \<in> visited st" "\<And>w. w \<in> P \<Longrightarrow> w \<in> set stack0 \<Longrightarrow> low st v \<le> num st w"
  using assms unfolding scanned_def by blast+

lemma scanned_order:
  assumes "scanned succs grey stack0 v s P st"
  shows "\<And>u. u \<in> set s \<Longrightarrow> num st v < num st u" "\<And>w. w \<in> set stack0 \<Longrightarrow> num st w < num st v"
    "distinct (s @ v # stack0)" "v \<notin> grey" "\<And>u. u \<in> set s \<Longrightarrow> u \<notin> insert v grey"
proof -
  note S = scannedD [OF assms]
  have sw: "sorted_wrt (\<lambda>x y. num st y < num st x) (s @ v # stack0)" using tarjan_okD(5) [OF S(1)] S(2) by simp
  then show "\<And>u. u \<in> set s \<Longrightarrow> num st v < num st u" "\<And>w. w \<in> set stack0 \<Longrightarrow> num st w < num st v"
    by (auto simp: sorted_wrt_append)
  show d: "distinct (s @ v # stack0)" using sorted_stack_distinct [OF sw] .
  then show "v \<notin> grey" "\<And>u. u \<in> set s \<Longrightarrow> u \<notin> insert v grey" using S(3) by auto
qed

text \<open>When the link of the node is its own number, nothing leaves what lies above it on the stack
  except into closed components.\<close>

lemma component_exits:
  assumes "scanned succs grey stack0 v s (set (succs v)) st" "low st v = num st v"
    and "x \<in> insert v (set s)" "w \<in> set (succs x)"
  shows "w \<in> insert v (set s) \<or> w \<in> closed_nodes st"
proof -
  note S = scannedD [OF assms(1)] and O = scanned_order [OF assms(1)] and D = tarjan_okD [OF scannedD(1) [OF assms(1)]]
  have "w \<in> visited st"
    using assms(3,4) S(2) S(7) D(3) D(8) [of x w] O(5) by auto
  then have "w \<in> set (s @ v # stack0) \<or> w \<in> closed_nodes st" using D(3) S(2) by auto
  moreover have "w \<notin> set stack0"
  proof
    assume w: "w \<in> set stack0"
    then have "low st v \<le> num st w" using assms(3,4) S(6,8) by auto
    then show False using O(2) [OF w] assms(2) by simp
  qed
  ultimately show ?thesis by auto
qed

lemma component_is_scc:
  assumes "scanned succs grey stack0 v s (set (succs v)) st" "low st v = num st v"
  shows "is_scc succs (insert v (set s))"
proof -
  note S = scannedD [OF assms(1)] and O = scanned_order [OF assms(1)] and D = tarjan_okD [OF scannedD(1) [OF assms(1)]]
  let ?C = "insert v (set s)"
  have disj: "u \<notin> closed_nodes st" if "u \<in> ?C" for u using that D(4) S(2) by auto
  have stay: "y \<in> ?C \<union> closed_nodes st" if "reaches succs x y" "x \<in> ?C \<union> closed_nodes st" for x y
    using that by (rule reaches_stays) (use component_exits [OF assms] D(9) in blast)
  have from_v: "reaches succs v u" if "u \<in> ?C" for u
    using that D(10) [of v u] O(1) [of u] S(2) by (auto simp: less_imp_le)
  have to_v: "reaches succs u v" if u: "u \<in> ?C" for u
  proof -
    obtain g where g: "g \<in> insert v grey" "reaches succs u g" using D(11) [of u] u S(2) by auto
    have "g \<in> ?C \<union> closed_nodes st" using stay [OF g(2)] u by blast
    moreover have "g \<notin> closed_nodes st" using g(1) D(1,4) by blast
    ultimately have "g = v" using g(1) O(5) by auto
    then show ?thesis using g(2) by simp
  qed
  have "?C = {y. reaches succs x y \<and> reaches succs y x}" if x: "x \<in> ?C" for x
  proof (intro set_eqI iffI)
    fix y assume "y \<in> ?C"
    then show "y \<in> {y. reaches succs x y \<and> reaches succs y x}"
      using from_v to_v x reaches_trans by blast
  next
    fix y assume y: "y \<in> {y. reaches succs x y \<and> reaches succs y x}"
    then have "y \<in> ?C \<union> closed_nodes st" using stay x by blast
    moreover have "y \<notin> closed_nodes st"
    proof
      assume c: "y \<in> closed_nodes st"
      have "reaches succs y x" using y by simp
      from reaches_stays [OF this c] D(9) have "x \<in> closed_nodes st" by blast
      then show False using disj x by blast
    qed
    ultimately show "y \<in> ?C" by blast
  qed
  then show ?thesis unfolding is_scc_def by blast
qed

lemma pop_component_stack:
  "v \<notin> set s \<Longrightarrow> distinct s \<Longrightarrow> insert v (set s) \<subseteq> on \<Longrightarrow>
   pop_component v (s @ v # stack0) on = Some (s @ [v], stack0, on - insert v (set s))"
proof (induction s arbitrary: on)
  case (Cons m s)
  have "pop_component v (s @ v # stack0) (on - {m}) = Some (s @ [v], stack0, on - {m} - insert v (set s))"
    using Cons.prems by (intro Cons.IH) auto
  moreover have "on - {m} - insert v (set s) = on - insert v (set (m # s))" by auto
  moreover have "m \<in> on" "m \<noteq> v" using Cons.prems by auto
  ultimately show ?case by simp
qed auto

text \<open>The visit's last step: the component is popped, or the node stays on the stack because it
  reaches an older one.\<close>

lemma close_pops:
  assumes "scanned succs grey stack0 v s (set (succs v)) st" "low st v = num st v"
  shows "\<exists>st'. close_component v st = Some st' \<and> tarjan_ok succs grey st' \<and> tj_stack st' = stack0
     \<and> visited st' = visited st \<and> num st' = num st \<and> low st' = low st"
proof -
  note S = scannedD [OF assms(1)] and O = scanned_order [OF assms(1)] and D = tarjan_okD [OF scannedD(1) [OF assms(1)]]
  have vis: "v \<in> visited st" using D(3) S(2) by simp
  then have eq: "dget (lowlinks st) v = dget (indices st) v"
    using assms(2) D(7) [OF vis] by (auto simp: low_def num_def visited_def)
  have pop: "pop_component v (tj_stack st) (on_stack st) = Some (s @ [v], stack0, set stack0)"
  proof -
    have "on_stack st - insert v (set s) = set stack0" "insert v (set s) \<subseteq> on_stack st"
      using O(3) unfolding D(2) S(2) by auto
    then show ?thesis using pop_component_stack [of v s "on_stack st" stack0] O(3) unfolding S(2) by simp
  qed
  define st' where "st' = st\<lparr>tj_stack := stack0, on_stack := set stack0, components := components st @ [sort (s @ [v])]\<rparr>"
  have close: "close_component v st = Some st'" by (simp add: close_component_def eq pop st'_def)
  have f: "visited st' = visited st" "num st' = num st" "low st' = low st" "tj_stack st' = stack0" "on_stack st' = set stack0"
    "closed_nodes st' = closed_nodes st \<union> insert v (set s)" "tj_index st' = tj_index st" "lowlinks st' = lowlinks st"
    "components st' = components st @ [sort (s @ [v])]"
    by (auto simp: st'_def visited_def num_def low_def closed_nodes_def)
  have "tarjan_ok succs grey st'"
  proof (rule tarjan_okI, unfold f(1,2,4-8))
    show "visited st = set stack0 \<union> (closed_nodes st \<union> insert v (set s))" using D(3) S(2) by auto
    show "set stack0 \<inter> (closed_nodes st \<union> insert v (set s)) = {}" using D(4) S(2) O(3) by auto
    show "sorted_wrt (\<lambda>x y. num st y < num st x) stack0" using D(5) S(2) by (simp add: sorted_wrt_append)
    fix x w assume "x \<in> visited st" "x \<notin> grey" "w \<in> set (succs x)"
    then show "w \<in> visited st" using D(8) [of x w] S(7) by (cases "x = v") auto
  next
    fix x w assume "x \<in> closed_nodes st \<union> insert v (set s)" "w \<in> set (succs x)"
    then show "w \<in> closed_nodes st \<union> insert v (set s)" using D(9) [of x w] component_exits [OF assms, of x w] by blast
  next
    fix x y assume "x \<in> set stack0" "y \<in> set stack0" "num st x \<le> num st y"
    then show "reaches succs x y" using D(10) [of x y] S(2) by simp
  next
    fix y assume y: "y \<in> set stack0"
    then obtain g where "g \<in> insert v grey" "num st g \<le> num st y" "reaches succs y g" using D(11) [of y] S(2) by auto
    then show "\<exists>g \<in> grey. num st g \<le> num st y \<and> reaches succs y g" using O(2) [OF y] by auto
  next
    fix c assume "c \<in> set (components st')"
    then show "is_scc succs (set c) \<and> sorted c"
      using D(12) component_is_scc [OF assms] unfolding f(9) by auto
  next
    show "distinct (concat (components st'))"
      using D(13) O(3) D(4) S(2) unfolding f(9) closed_nodes_def by auto
  qed (use D(6,7) S(3) in auto)
  then show ?thesis using close f by blast
qed

lemma close_keeps:
  assumes "scanned succs grey stack0 v s (set (succs v)) st" "low st v \<noteq> num st v"
  shows "close_component v st = Some st \<and> tarjan_ok succs grey st"
proof -
  note S = scannedD [OF assms(1)] and O = scanned_order [OF assms(1)] and D = tarjan_okD [OF scannedD(1) [OF assms(1)]]
  have vis: "v \<in> visited st" using D(3) S(2) by simp
  have lt: "low st v < num st v" using assms(2) S(4) by simp
  have "dget (lowlinks st) v \<noteq> dget (indices st) v" using assms(2) by (auto simp: low_def num_def)
  then have close: "close_component v st = Some st" by (simp add: close_component_def)
  obtain y where y: "y \<in> set (tj_stack st)" "num st y = low st v" "reaches succs v y" using S(5) by blast
  obtain g where g: "g \<in> insert v grey" "num st g \<le> num st y" "reaches succs y g" using D(11) [OF y(1)] by blast
  have gv: "g \<in> grey" "num st g < num st v" "reaches succs v g"
    using g y lt reaches_trans by auto
  have F11: "\<forall>u \<in> set (tj_stack st). \<exists>g \<in> grey. num st g \<le> num st u \<and> reaches succs u g"
  proof
    fix u assume u: "u \<in> set (tj_stack st)"
    obtain h where h: "h \<in> insert v grey" "num st h \<le> num st u" "reaches succs u h" using D(11) [OF u] by blast
    show "\<exists>g \<in> grey. num st g \<le> num st u \<and> reaches succs u g"
    proof (cases "h = v")
      case True
      then have "num st g \<le> num st u" "reaches succs u g" using gv h reaches_trans by auto
      then show ?thesis using gv(1) by blast
    qed (use h in blast)
  qed
  have F8: "\<forall>x \<in> visited st - grey. set (succs x) \<subseteq> visited st"
  proof (intro ballI subsetI)
    fix x w assume "x \<in> visited st - grey" "w \<in> set (succs x)"
    then show "w \<in> visited st" using D(8) [of x w] S(7) by (cases "x = v") auto
  qed
  have F1: "grey \<subseteq> set (tj_stack st)" using S(3) unfolding S(2) by auto
  have "tarjan_ok succs grey st"
    using S(1) F1 F8 F11 unfolding tarjan_ok_def by (elim conjE, intro conjI) assumption+
  then show ?thesis using close by simp
qed

section \<open>The visit\<close>

definition visit_post :: "(string \<Rightarrow> string list) \<Rightarrow> string set \<Rightarrow> string \<Rightarrow> tarjan \<Rightarrow> tarjan \<Rightarrow> string list \<Rightarrow> bool" where
  "visit_post succs grey v st st' s = (
     tarjan_ok succs grey st' \<and> tarjan_ext st st' s \<and> v \<in> visited st' \<and> visited st' \<subseteq> visited st \<union> {w. reaches succs v w}
   \<and> num st' v = tj_index st \<and> low st' v \<le> num st' v
   \<and> (if v \<in> set s then \<exists>y \<in> set (tj_stack st'). num st' y = low st' v \<and> reaches succs v y else low st' v = num st' v)
   \<and> (\<forall>u \<in> set s. \<forall>w \<in> set (succs u). w \<in> set (tj_stack st) \<longrightarrow> low st' v \<le> num st w))"

text \<open>What the successor loop keeps of the state before the node was entered.\<close>

definition scan_keeps :: "(string \<Rightarrow> string list) \<Rightarrow> tarjan \<Rightarrow> string \<Rightarrow> tarjan \<Rightarrow> bool" where
  "scan_keeps succs st0 v st = (visited st0 \<subseteq> visited st \<and> visited st \<subseteq> visited st0 \<union> {w. reaches succs v w} \<and> num st v = tj_index st0
     \<and> (\<forall>u \<in> visited st0. num st u = num st0 u \<and> low st u = low st0 u))"

lemma scanned_lower:
  assumes "scanned succs grey stack0 v s P st" "lower_link v (Some m) st = Some st'"
    and "m < low st v \<Longrightarrow> \<exists>y \<in> set (tj_stack st). num st y = m \<and> reaches succs v y"
    and "w \<in> visited st" "w \<in> set stack0 \<Longrightarrow> m \<le> num st w"
  shows "scanned succs grey stack0 v s (insert w P) st'"
proof -
  note L = lower_link_fields [OF assms(2)] and S = scannedD [OF assms(1)]
  have low: "low st' v = min (low st v) m" by (simp add: L(5))
  have "\<exists>y \<in> set (tj_stack st). num st y = min (low st v) m \<and> reaches succs v y"
    using S(5) assms(3) by (cases "m < low st v") (auto simp: min_def)
  moreover have "tarjan_ok succs (insert v grey) st'" using L(7) S(1) .
  ultimately show ?thesis
    unfolding scanned_def low L(1-3) using S(2-4,6-8) assms(4,5) by (auto simp: min_le_iff_disj)
qed

lemma scan_keeps_lower:
  assumes "scan_keeps succs st0 v st" "v \<notin> visited st0" "lower_link v n st = Some st'"
  shows "scan_keeps succs st0 v st'"
  using assms(1,2) lower_link_fields [OF assms(3)] unfolding scan_keeps_def by auto

text \<open>A successor that was not visited before: the recursive visit, seen from the node's scan.\<close>

lemma scan_new:
  assumes sc: "scanned succs grey stack0 v s P st" and w: "w \<in> set (succs v)" "w \<notin> visited st"
    and post: "visit_post succs (insert v grey) w st st1 s1"
    and lower: "lower_link v (dget (lowlinks st1) w) st1 = Some st2"
  shows "scanned succs grey stack0 v (s1 @ s) (insert w P) st2"
proof -
  note S = scannedD [OF sc] and O = scanned_order [OF sc] and D = tarjan_okD [OF scannedD(1) [OF sc]]
  have p: "tarjan_ok succs (insert v grey) st1" "tj_stack st1 = s1 @ tj_stack st" "visited st \<subseteq> visited st1"
    "\<And>u. u \<in> visited st \<Longrightarrow> num st1 u = num st u \<and> low st1 u = low st u" "w \<in> visited st1" "num st1 w = tj_index st"
    "low st1 w \<le> num st1 w"
    "w \<in> set s1 \<Longrightarrow> \<exists>y \<in> set (tj_stack st1). num st1 y = low st1 w \<and> reaches succs w y"
    "w \<notin> set s1 \<Longrightarrow> low st1 w = num st1 w"
    "\<And>u x. u \<in> set s1 \<Longrightarrow> x \<in> set (succs u) \<Longrightarrow> x \<in> set (tj_stack st) \<Longrightarrow> low st1 w \<le> num st x"
    using post unfolding visit_post_def tarjan_ext_def by (auto split: if_splits)
  have stv: "u \<in> visited st" if "u \<in> set (tj_stack st)" for u using that D(3) by blast
  have vv: "v \<in> visited st" using stv S(2) by simp
  have nv: "num st1 v = num st v" "low st1 v = low st v" using p(4) [OF vv] by auto
  obtain m where m: "dget (lowlinks st1) w = Some m" "low st1 w = m"
    using tarjan_okD(7) [OF p(1,5)] by (auto simp: low_def)
  note L = lower_link_fields [OF lower]
  have low2: "low st2 v = min (low st v) m" by (simp add: L(5) m nv)
  have ex: "\<exists>y \<in> set (tj_stack st1). num st1 y = low st2 v \<and> reaches succs v y"
  proof (cases "m < low st v")
    case True
    then have "m < num st1 w" using S(4) D(6) [OF vv] p(6) by simp
    then have "w \<in> set s1" using p(9) m by auto
    then obtain y where "y \<in> set (tj_stack st1)" "num st1 y = m" "reaches succs w y" using p(8) m by auto
    then show ?thesis using True reaches_trans [OF reaches_edge [of w succs v, OF w(1)]] by (auto simp: low2 min_def)
  next
    case False
    then obtain y where "y \<in> set (tj_stack st)" "num st y = low st2 v" "reaches succs v y"
      using S(5) by (auto simp: low2 min_def)
    then show ?thesis using p(2) p(4) [OF stv, of y] by (intro bexI [of _ y]) simp_all
  qed
  have s0: "num st1 x = num st x" "x \<in> set (tj_stack st)" if "x \<in> set stack0" for x
    using that p(4) [OF stv] S(2) by auto
  have c1: "low st2 v \<le> num st1 x" if "u \<in> set (s1 @ s)" "x \<in> set (succs u)" "x \<in> set stack0" for u x
    using that p(10) [of u x] S(6) [of u x] s0 [of x] m by (auto simp: low2 min_le_iff_disj)
  have c2: "x \<in> visited st1 \<and> (x \<in> set stack0 \<longrightarrow> low st2 v \<le> num st1 x)" if "x \<in> insert w P" for x
  proof (cases "x = w")
    case True
    then show ?thesis using p(5) w(2) s0(2) [of w] stv [of w] by blast
  next
    case False
    then show ?thesis using that S(7,8) [of x] p(3) s0 [of x] by (auto simp: low2 min_le_iff_disj)
  qed
  have "low st2 v \<le> num st1 v" using S(4) nv low2 by simp
  then show ?thesis
    unfolding scanned_def L(1-3) using L(7) [OF p(1)] p(2) S(2,3) ex c1 c2 by auto
qed

text \<open>The contract of the graph: finitely many nodes, and no successor outside them.\<close>

locale succ_graph =
  fixes succs :: "string \<Rightarrow> string list" and V :: "string set"
  assumes finite_V: "finite V" and succs_V: "set (succs v) \<subseteq> V"
begin

lemma scan_step:
  assumes rec: "\<And>w st. tarjan_ok succs (insert v grey) st \<Longrightarrow> w \<notin> visited st \<Longrightarrow> \<forall>g \<in> insert v grey. reaches succs g w \<Longrightarrow>
      w \<in> V \<Longrightarrow> card (V - visited st) \<le> n \<Longrightarrow> \<exists>st' s. rec w st = Some st' \<and> visit_post succs (insert v grey) w st st' s"
    and sc: "scanned succs grey stack0 v s P st" and g: "\<forall>g \<in> grey. reaches succs g v" and w: "w \<in> set (succs v)"
    and n: "card (V - visited st) \<le> n" and k: "scan_keeps succs st0 v st" "v \<notin> visited st0"
  shows "\<exists>st' s'. scan_successors rec v (w # ws) st = scan_successors rec v ws st'
     \<and> scanned succs grey stack0 v s' (insert w P) st' \<and> scan_keeps succs st0 v st' \<and> visited st \<subseteq> visited st'"
proof -
  note S = scannedD [OF sc] and D = tarjan_okD [OF scannedD(1) [OF sc]]
  have vv: "v \<in> visited st" using D(3) S(2) by simp
  have mem: "dmem w (indices st) \<longleftrightarrow> w \<in> visited st" by (simp add: dmem_iff visited_def)
  consider "w \<notin> visited st" | "w \<in> visited st" "w \<in> on_stack st" | "w \<in> visited st" "w \<notin> on_stack st" by blast
  then show ?thesis
  proof cases
    case 1
    have "\<forall>h \<in> insert v grey. reaches succs h w"
      using g reaches_edge [of w succs v, OF w] reaches_trans by blast
    then obtain st1 s1 where r: "rec w st = Some st1" and post: "visit_post succs (insert v grey) w st st1 s1"
      using rec [OF S(1) 1 _ subsetD [OF succs_V w] n] by blast
    have p: "tarjan_ok succs (insert v grey) st1" "visited st \<subseteq> visited st1" "w \<in> visited st1"
        "visited st1 \<subseteq> visited st \<union> {x. reaches succs w x}"
        "\<And>u. u \<in> visited st \<Longrightarrow> num st1 u = num st u \<and> low st1 u = low st u"
      using post unfolding visit_post_def tarjan_ext_def by auto
    obtain st2 where l: "lower_link v (dget (lowlinks st1) w) st1 = Some st2"
      using lower_link_some [OF tarjan_okD(7) [OF p(1) subsetD [OF p(2) vv]] tarjan_okD(7) [OF p(1,3)]] by blast
    have new: "visited st1 \<subseteq> visited st0 \<union> {x. reaches succs v x}"
      using p(4) k(1) reaches_trans [OF reaches_edge [of w succs v, OF w]] unfolding scan_keeps_def by blast
    have k1: "scan_keeps succs st0 v st1"
      using k p(2,5) vv new unfolding scan_keeps_def by (simp add: subset_iff)
    have "scan_successors rec v (w # ws) st = scan_successors rec v ws st2"
      using 1 mem r l by simp
    moreover have "visited st \<subseteq> visited st2" using p(2) lower_link_fields(2) [OF l] by simp
    ultimately show ?thesis using scan_new [OF sc w 1 post l] scan_keeps_lower [OF k1 k(2) l] by blast
  next
    case 2
    obtain m where m: "dget (indices st) w = Some m" "num st w = m" using 2(1) by (auto simp: visited_def num_def)
    obtain st2 where l: "lower_link v (Some m) st = Some st2" using lower_link_some [of st v "Some m"] D(7) [OF vv] by blast
    have "scanned succs grey stack0 v s (insert w P) st2"
      by (rule scanned_lower [OF sc l]) (use 2 D(2) m reaches_edge [of w succs v, OF w] in auto)
    moreover have "scan_successors rec v (w # ws) st = scan_successors rec v ws st2" using 2 mem m l by simp
    ultimately show ?thesis using scan_keeps_lower [OF k l] lower_link_fields(2) [OF l] by blast
  next
    case 3
    have "w \<notin> set stack0" using 3(2) D(2) S(2) by auto
    then have "scanned succs grey stack0 v s (insert w P) st"
      using sc 3(1) unfolding scanned_def by blast
    moreover have "scan_successors rec v (w # ws) st = scan_successors rec v ws st" using 3 mem by simp
    ultimately show ?thesis using k(1) by blast
  qed
qed

lemma scan_all:
  assumes rec: "\<And>w st. tarjan_ok succs (insert v grey) st \<Longrightarrow> w \<notin> visited st \<Longrightarrow> \<forall>g \<in> insert v grey. reaches succs g w \<Longrightarrow>
      w \<in> V \<Longrightarrow> card (V - visited st) \<le> n \<Longrightarrow> \<exists>st' s. rec w st = Some st' \<and> visit_post succs (insert v grey) w st st' s"
    and "scanned succs grey stack0 v s P st" "\<forall>g \<in> grey. reaches succs g v" "set ws \<subseteq> set (succs v)"
    "card (V - visited st) \<le> n" "scan_keeps succs st0 v st" "v \<notin> visited st0"
  shows "\<exists>st' s'. scan_successors rec v ws st = Some st' \<and> scanned succs grey stack0 v s' (P \<union> set ws) st' \<and> scan_keeps succs st0 v st'"
  using assms(2-)
proof (induction ws arbitrary: st s P)
  case Nil
  then show ?case by auto
next
  case (Cons w ws)
  obtain st1 s1 where s1: "scan_successors rec v (w # ws) st = scan_successors rec v ws st1"
      "scanned succs grey stack0 v s1 (insert w P) st1" "scan_keeps succs st0 v st1" "visited st \<subseteq> visited st1"
  proof -
    have w: "w \<in> set (succs v)" using Cons.prems(3) by simp
    show ?thesis
      using scan_step [of v grey n rec stack0 s P st w st0 ws] rec Cons.prems(1,2) w Cons.prems(4,5,6) that by metis
  qed
  have "card (V - visited st1) \<le> card (V - visited st)" using s1(4) finite_V by (intro card_mono) auto
  then have "card (V - visited st1) \<le> n" using Cons.prems(4) by simp
  from Cons.IH [OF s1(2) Cons.prems(2) _ this s1(3) Cons.prems(6)] Cons.prems(3) s1(1)
  show ?case by auto
qed

lemma visit_correct:
  assumes "tarjan_ok succs grey st" "v \<notin> visited st" "\<forall>g \<in> grey. reaches succs g v" "v \<in> V" "card (V - visited st) \<le> n"
  shows "\<exists>st' s. tarjan_visit n succs v st = Some st' \<and> visit_post succs grey v st st' s"
  using assms
proof (induction n arbitrary: grey v st)
  case 0
  then have "V - visited st = {}" using finite_V by (simp add: card_eq_0_iff)
  then show ?case using "0.prems" by blast
next
  case (Suc n)
  let ?st0 = "tarjan_enter v st" and ?stack0 = "tj_stack st"
  note D = tarjan_okD [OF Suc.prems(1)]
  have ok: "tarjan_ok succs (insert v grey) ?st0"
    using Suc.prems by (intro tarjan_ok_enter) auto
  have fresh: "u \<noteq> v" if "u \<in> visited st" for u using that Suc.prems(2) by auto
  have sc: "scanned succs grey ?stack0 v [] {} ?st0"
    using ok D(1) by (auto simp: scanned_def intro!: bexI [of _ v])
  have keeps: "scan_keeps succs st v ?st0" using fresh by (auto simp: scan_keeps_def)
  have "V - visited ?st0 \<subset> V - visited st" using Suc.prems(2,4) by auto
  then have "card (V - visited ?st0) < card (V - visited st)" using finite_V by (intro psubset_card_mono) auto
  then have card: "card (V - visited ?st0) \<le> n" using Suc.prems(5) by simp
  obtain st1 s where s: "scan_successors (tarjan_visit n succs) v (succs v) ?st0 = Some st1"
      "scanned succs grey ?stack0 v s (set (succs v)) st1" "scan_keeps succs st v st1"
  proof -
    have "\<exists>st' s'. scan_successors (tarjan_visit n succs) v (succs v) ?st0 = Some st'
        \<and> scanned succs grey ?stack0 v s' ({} \<union> set (succs v)) st' \<and> scan_keeps succs st v st'"
      by (rule scan_all [OF _ sc Suc.prems(3) subset_refl card keeps Suc.prems(2)]) (rule Suc.IH; assumption)
    then show ?thesis using that by (auto simp del: tarjan_visit.simps)
  qed
  note S = scannedD [OF s(2)] and D1 = tarjan_okD [OF scannedD(1) [OF s(2)]]
  have vv: "v \<in> visited st1" using D1(3) S(2) by simp
  have K: "visited st \<subseteq> visited st1" "visited st1 \<subseteq> visited st \<union> {w. reaches succs v w}" "num st1 v = tj_index st" "\<And>u. u \<in> visited st \<Longrightarrow> num st1 u = num st u \<and> low st1 u = low st u"
    using s(3) by (auto simp: scan_keeps_def)
  have n0: "num st1 w = num st w" if "w \<in> set ?stack0" for w using K(4) that D(3) by blast
  show ?case
  proof (cases "low st1 v = num st1 v")
    case True
    obtain st2 where st2: "close_component v st1 = Some st2" "tarjan_ok succs grey st2" "tj_stack st2 = ?stack0"
        "visited st2 = visited st1" "num st2 = num st1" "low st2 = low st1"
      using close_pops [OF s(2) True] by blast
    have "visit_post succs grey v st st2 []"
      using st2 K vv True by (auto simp: visit_post_def tarjan_ext_def)
    then show ?thesis using s(1) st2(1) by auto
  next
    case False
    have c: "close_component v st1 = Some st1" "tarjan_ok succs grey st1" using close_keeps [OF s(2) False] by auto
    have "\<forall>u \<in> set (s @ [v]). \<forall>w \<in> set (succs u). w \<in> set ?stack0 \<longrightarrow> low st1 v \<le> num st w"
      using S(6,8) n0 by auto
    then have "visit_post succs grey v st st1 (s @ [v])"
      using c(2) K vv S(2,4,5) by (auto simp: visit_post_def tarjan_ext_def)
    then show ?thesis using s(1) c(1) by auto
  qed
qed

text \<open>Between two calls from the outer loop nothing is grey, so the stack is empty.\<close>

lemma visit_nodes_correct:
  assumes "tarjan_ok succs {} st" "set vs \<subseteq> V" "card V \<le> n"
  shows "\<exists>st'. visit_nodes n succs vs st = Some st' \<and> tarjan_ok succs {} st' \<and> visited st \<union> set vs \<subseteq> visited st'
     \<and> visited st' \<subseteq> visited st \<union> {w. \<exists>v \<in> set vs. reaches succs v w}"
  using assms(1,2)
proof (induction vs arbitrary: st)
  case Nil
  then show ?case by auto
next
  case (Cons v vs)
  show ?case
  proof (cases "v \<in> visited st")
    case True
    then have "dmem v (indices st)" by (simp add: dmem_iff visited_def)
    then show ?thesis using Cons.IH [OF Cons.prems(1)] Cons.prems(2) True by auto
  next
    case False
    have cv: "card (V - visited st) \<le> n"
      using card_mono [OF finite_V, of "V - visited st"] assms(3) by auto
    obtain st1 s where v: "tarjan_visit n succs v st = Some st1" "visit_post succs {} v st st1 s"
    proof -
      have "v \<in> V" using Cons.prems(2) by simp
      then show ?thesis using visit_correct [OF Cons.prems(1) False] that cv by blast
    qed
    have p: "tarjan_ok succs {} st1" "visited st \<subseteq> visited st1" "v \<in> visited st1"
        "visited st1 \<subseteq> visited st \<union> {w. reaches succs v w}"
      using v(2) by (auto simp: visit_post_def tarjan_ext_def)
    have "\<not> dmem v (indices st)" using False by (simp add: dmem_iff visited_def)
    moreover obtain st' where "visit_nodes n succs vs st1 = Some st'" "tarjan_ok succs {} st'"
        "visited st1 \<union> set vs \<subseteq> visited st'" "visited st' \<subseteq> visited st1 \<union> {w. \<exists>v \<in> set vs. reaches succs v w}"
      using Cons.IH [OF p(1)] Cons.prems(2) by auto
    ultimately show ?thesis using v(1) p by (intro exI [of _ st']) auto
  qed
qed

end

section \<open>The planner's components\<close>

definition graph_nodes :: "string list \<Rightarrow> stg_edge list \<Rightarrow> string set" where
  "graph_nodes node_ids edges = set node_ids \<union> (\<lambda>e. the (e_to e)) ` set edges"

interpretation sg: succ_graph "adjacency edges" "graph_nodes node_ids edges" for node_ids edges
  by unfold_locales (auto simp: graph_nodes_def adjacency_def)

lemma card_graph_nodes: "card (graph_nodes node_ids edges) \<le> length node_ids + length edges + 1"
proof -
  have "card (graph_nodes node_ids edges) \<le> card (set node_ids) + card ((\<lambda>e. the (e_to e)) ` set edges)"
    unfolding graph_nodes_def by (rule card_Un_le)
  also have "\<dots> \<le> length node_ids + length edges"
    by (intro add_mono card_length order_trans [OF card_image_le card_length]) auto
  finally show ?thesis by simp
qed

lemma tarjan_start_ok: "tarjan_ok succs {} tarjan_start"
  by (rule tarjan_okI) (auto simp: tarjan_start_def visited_def closed_nodes_def)

lemma components_search:
  "\<exists>st. visit_nodes (length node_ids + length edges + 1) (adjacency edges) (sort (remdups node_ids)) tarjan_start = Some st
     \<and> tarjan_ok (adjacency edges) {} st \<and> closed_nodes st = {w. \<exists>v \<in> set node_ids. reaches (adjacency edges) v w}"
proof -
  let ?R = "reaches (adjacency edges)"
  obtain st where st: "visit_nodes (length node_ids + length edges + 1) (adjacency edges) (sort (remdups node_ids)) tarjan_start = Some st"
      "tarjan_ok (adjacency edges) {} st" "set node_ids \<subseteq> visited st" "visited st \<subseteq> {w. \<exists>v \<in> set node_ids. ?R v w}"
  proof -
    have sub: "set (sort (remdups node_ids)) \<subseteq> graph_nodes node_ids edges" by (auto simp: graph_nodes_def)
    have e: "visited tarjan_start = {}" by (simp add: tarjan_start_def visited_def)
    from sg.visit_nodes_correct [OF tarjan_start_ok sub card_graph_nodes] obtain st' where
      "visit_nodes (length node_ids + length edges + 1) (adjacency edges) (sort (remdups node_ids)) tarjan_start = Some st'"
      "tarjan_ok (adjacency edges) {} st'" "set node_ids \<subseteq> visited st'" "visited st' \<subseteq> {w. \<exists>v \<in> set node_ids. ?R v w}"
      unfolding e set_sort set_remdups Un_empty_left by blast
    then show ?thesis using that by blast
  qed
  note D = tarjan_okD [OF st(2)]
  have "tj_stack st = []" using D(11) by (cases "tj_stack st") auto
  then have v: "visited st = closed_nodes st" using D(3) by simp
  have "w \<in> closed_nodes st" if "v \<in> set node_ids" "?R v w" for v w
    using reaches_stays [OF that(2)] st(3) v that(1) D(9) by blast
  then show ?thesis using st v by (intro exI [of _ st]) auto
qed

lemma components_are_classes:
  "\<exists>comps. strongly_connected_components node_ids edges = Some comps
     \<and> set ` set comps = (\<lambda>v. {w. reaches (adjacency edges) v w \<and> reaches (adjacency edges) w v})
                          ` {w. \<exists>v \<in> set node_ids. reaches (adjacency edges) v w}
     \<and> distinct (concat comps) \<and> list_all (\<lambda>c. c \<noteq> [] \<and> sorted c) comps \<and> sorted (map hd comps)"
proof -
  let ?R = "reaches (adjacency edges)" and ?first = "\<lambda>c :: string list. case c of [] \<Rightarrow> [] | m # _ \<Rightarrow> m"
  obtain st where st: "visit_nodes (length node_ids + length edges + 1) (adjacency edges) (sort (remdups node_ids)) tarjan_start = Some st"
      "tarjan_ok (adjacency edges) {} st" "closed_nodes st = {w. \<exists>v \<in> set node_ids. ?R v w}"
    using components_search by blast
  note D = tarjan_okD [OF st(2)]
  define comps where "comps = sort_key ?first (components st)"
  have c: "set comps = set (components st)" by (simp add: comps_def)
  have ne: "c \<noteq> [] \<and> sorted c" if "c \<in> set comps" for c using D(12) [of c] that c by (auto simp: is_scc_def)
  have cls: "set c = {w. ?R v w \<and> ?R w v}" if "c \<in> set comps" "v \<in> set c" for c v
    using D(12) [of c] that c by (auto simp: is_scc_def)
  have cl: "closed_nodes st = (\<Union>c \<in> set comps. set c)" by (simp add: closed_nodes_def c)
  have "set ` set comps = (\<lambda>v. {w. ?R v w \<and> ?R w v}) ` closed_nodes st"
  proof (intro set_eqI iffI)
    fix C assume "C \<in> set ` set comps"
    then obtain k where k: "k \<in> set comps" "C = set k" by blast
    then have h: "hd k \<in> set k" using ne by simp
    then show "C \<in> (\<lambda>v. {w. ?R v w \<and> ?R w v}) ` closed_nodes st" using cls [OF k(1) h] k cl by blast
  next
    fix C assume "C \<in> (\<lambda>v. {w. ?R v w \<and> ?R w v}) ` closed_nodes st"
    then obtain v k where v: "C = {w. ?R v w \<and> ?R w v}" "k \<in> set comps" "v \<in> set k" using cl by blast
    then show "C \<in> set ` set comps" using cls [OF v(2,3)] by blast
  qed
  moreover have "distinct (concat comps)"
  proof -
    have "[] \<notin> set comps" "[] \<notin> set (components st)" using ne c by auto
    then have "removeAll [] comps = comps" "removeAll [] (components st) = components st" by simp_all
    then show ?thesis using D(13) by (simp add: distinct_concat_iff c) (simp add: comps_def)
  qed
  moreover have "map hd comps = map ?first comps" using ne by (auto split: list.splits)
  then have "sorted (map hd comps)" by (simp add: comps_def del: map_eq_conv)
  moreover have "strongly_connected_components node_ids edges = Some comps"
    using st(1) by (simp add: strongly_connected_components_def comps_def)
  ultimately show ?thesis using ne unfolding st(3) by (auto simp: list_all_iff)
qed

text \<open>
  (C2) The planner's components are the strongly connected components: the search ends without a
  missing key, and the sets it returns are exactly the classes of mutual reachability of the nodes
  reachable from the given ones, each listed once, sorted, and in the order of their first members.
\<close>

theorem strongly_connected_components_correct:
  "\<exists>comps. strongly_connected_components node_ids edges = Some comps
     \<and> set ` set comps = (\<lambda>v. {w. reaches (adjacency edges) v w \<and> reaches (adjacency edges) w v})
                          ` {w. \<exists>v \<in> set node_ids. reaches (adjacency edges) v w}
     \<and> distinct (concat comps) \<and> list_all (\<lambda>c. c \<noteq> [] \<and> sorted c) comps \<and> sorted (map hd comps)"
  by (rule components_are_classes)

end
