(* ===== verification/Path_Search.thy ===== *)
theory Path_Search
  imports Tarjan_Scc
begin

text \<open>
  Correctness of the bounded path enumeration of the semantic planner: every result is a simple path
  from the start to the destination, the limits hold, no key is ever missing, and a search that does
  not report truncation found every simple path, so that an empty untruncated result proves that the
  destination is unreachable.
\<close>

section \<open>Paths by edges\<close>

fun edge_path :: "stg_edge list \<Rightarrow> string list \<Rightarrow> string list \<Rightarrow> bool" where
  "edge_path edges [n] [] = True"
| "edge_path edges (n # m # ns) (i # es) =
     ((\<exists>e \<in> set edges. e_id e = i \<and> e_from e = Some n \<and> e_to e = Some m) \<and> edge_path edges (m # ns) es)"
| "edge_path edges ns es = False"

definition simple_path :: "stg_edge list \<Rightarrow> string \<Rightarrow> string \<Rightarrow> string list \<Rightarrow> string list \<Rightarrow> bool" where
  "simple_path edges start destination ns es =
     (edge_path edges ns es \<and> distinct ns \<and> hd ns = start \<and> last ns = destination)"

lemma edge_path_length: "edge_path edges ns es \<Longrightarrow> length ns = Suc (length es)"
  by (induction edges ns es rule: edge_path.induct) auto

lemma edge_path_snoc:
  "edge_path edges ns es \<Longrightarrow> e \<in> set edges \<Longrightarrow> e_from e = Some (last ns) \<Longrightarrow> e_to e = Some w \<Longrightarrow>
   edge_path edges (ns @ [w]) (es @ [e_id e])"
proof (induction edges ns es rule: edge_path.induct)
  case (1 edges n)
  then show ?case by (auto intro!: bexI [of _ e])
next
  case (2 edges n m ns i es)
  then show ?case by (cases ns) auto
qed auto

lemma edge_path_split:
  assumes "edge_path edges (ns @ w # ns') es" "ns \<noteq> []"
  shows "\<exists>e es1 es2. es = es1 @ e_id e # es2 \<and> edge_path edges ns es1 \<and> e \<in> set edges \<and> e_from e = Some (last ns)
     \<and> e_to e = Some w \<and> edge_path edges (w # ns') es2"
  using assms
proof (induction ns arbitrary: es)
  case (Cons n ns)
  show ?case
  proof (cases ns)
    case Nil
    then obtain i es2 where "es = i # es2" using Cons.prems by (cases es) auto
    then obtain e where "e \<in> set edges" "e_id e = i" "e_from e = Some n" "e_to e = Some w" "edge_path edges (w # ns') es2"
      using Cons.prems Nil by auto
    then show ?thesis using \<open>es = i # es2\<close> Nil by (intro exI [of _ e] exI [of _ "[]"] exI [of _ es2]) simp
  next
    case (Cons m ms)
    then obtain i es2 where i: "es = i # es2" using Cons.prems by (cases es) auto
    then have "edge_path edges (ns @ w # ns') es2" using Cons.prems Cons by simp
    from Cons.IH [OF this] Cons obtain e es1 es3 where
      "es2 = es1 @ e_id e # es3" "edge_path edges ns es1" "e \<in> set edges" "e_from e = Some (last ns)"
      "e_to e = Some w" "edge_path edges (w # ns') es3" by auto
    then show ?thesis using i Cons Cons.prems by (intro exI [of _ e] exI [of _ "i # es1"] exI [of _ es3]) auto
  qed
qed simp

lemma adjacency_string_edges: "adjacency (string_edges edges) v = adjacency edges v"
  unfolding adjacency_def string_edges_def by (simp add: filter_filter conj_commute) (metis (no_types, opaque_lifting) option.distinct(1))

lemma edge_reaches:
  "e \<in> set edges \<Longrightarrow> e_from e = Some u \<Longrightarrow> e_to e = Some w \<Longrightarrow> reaches (adjacency edges) u w"
  by (rule reaches_edge) (force simp: adjacency_def)

lemma edge_path_reaches:
  "edge_path edges ns es \<Longrightarrow> u \<in> set ns \<Longrightarrow> reaches (adjacency edges) (hd ns) u \<and> reaches (adjacency edges) u (last ns)"
proof (induction edges ns es arbitrary: u rule: edge_path.induct)
  case (2 edges n m ns i es)
  obtain e where e: "e \<in> set edges" "e_from e = Some n" "e_to e = Some m" using "2.prems" by auto
  have nm: "reaches (adjacency edges) n m" using edge_reaches [OF e] .
  have p: "edge_path edges (m # ns) es" using "2.prems" by simp
  have m: "reaches (adjacency edges) m (last (m # ns))" using "2.IH" [OF p, of m] by simp
  show ?case
  proof (cases "u \<in> set (m # ns)")
    case True
    then show ?thesis using "2.IH" [OF p True] nm reaches_trans by auto
  next
    case False
    then have "u = n" using "2.prems"(2) by auto
    then show ?thesis using reaches_trans [OF nm m] by simp
  qed
qed auto

text \<open>A path between different nodes can be made simple.\<close>

lemma reaches_simple_path:
  assumes "reaches (adjacency edges) u w"
  shows "\<exists>ns es. simple_path edges u w ns es"
  using assms unfolding reaches_def
proof (induction rule: rtranclp_induct)
  case base
  then show ?case by (intro exI [of _ "[u]"] exI [of _ "[]"]) (simp add: simple_path_def)
next
  case (step y z)
  obtain ns es where p: "edge_path edges ns es" "distinct ns" "hd ns = u" "last ns = y"
    using step.IH by (auto simp: simple_path_def)
  have ne: "ns \<noteq> []" using edge_path_length [OF p(1)] by auto
  obtain e where e: "e \<in> set edges" "e_from e = Some y" "e_to e = Some z"
    using step.hyps(2) by (force simp: adjacency_def)
  show ?case
  proof (cases "z \<in> set ns")
    case False
    then have "simple_path edges u z (ns @ [z]) (es @ [e_id e])"
      using edge_path_snoc [OF p(1) e(1)] e p ne by (simp add: simple_path_def)
    then show ?thesis by blast
  next
    case True
    then obtain a b where ab: "ns = a @ z # b" by (auto simp: in_set_conv_decomp)
    show ?thesis
    proof (cases b rule: rev_cases)
      case Nil
      then show ?thesis using p ab unfolding simple_path_def by (intro exI [of _ ns] exI [of _ es]) auto
    next
      case (snoc b' c)
      obtain x b2 where b: "b = x # b2" using snoc by (metis neq_Nil_conv snoc_eq_iff_butlast)
      obtain es1 where "edge_path edges (a @ [z]) es1"
        using edge_path_split [of edges "a @ [z]" x b2 es] p(1) ab b by auto
      moreover have "hd (a @ [z]) = u" using p(3) ab by (cases a) auto
      ultimately show ?thesis using p(2) ab unfolding simple_path_def by (intro exI [of _ "a @ [z]"] exI [of _ es1]) auto
    qed
  qed
qed

section \<open>The component index\<close>

lemma component_of_iff:
  assumes "distinct (concat comps)"
  shows "dget (component_of comps) w = Some k \<longleftrightarrow> k < length comps \<and> w \<in> set (comps ! k)"
proof -
  let ?l = "concat (map (\<lambda>(i, c). map (\<lambda>v. (v, i)) c) (List.enumerate 0 comps))"
  have "map fst (concat (map (\<lambda>(i, c). map (\<lambda>v. (v, i)) c) (List.enumerate n comps))) = concat comps" for n
    by (induction comps arbitrary: n) (auto simp: comp_def)
  then have keys: "map fst ?l = concat comps" .
  have "component_of comps = ?l" unfolding component_of_def
    using dict_of_distinct [of "[]" ?l] assms keys by simp
  then have "dget (component_of comps) w = Some k \<longleftrightarrow> (w, k) \<in> set ?l"
    using assms keys by (simp add: map_of_eq_Some_iff)
  then show ?thesis by (auto simp: in_set_enumerate_eq image_iff)
qed

text \<open>What the search relies on: every node reachable from the start has a component index, and two of
  them share it exactly when they reach each other.\<close>

definition index_ok :: "stg_edge list \<Rightarrow> string \<Rightarrow> (string, nat) dict \<Rightarrow> bool" where
  "index_ok edges start cof = (
     (\<forall>w. reaches (adjacency edges) start w \<longrightarrow> dget cof w \<noteq> None)
   \<and> (\<forall>u w. reaches (adjacency edges) start u \<longrightarrow> reaches (adjacency edges) start w \<longrightarrow>
        (dget cof u = dget cof w \<longleftrightarrow> reaches (adjacency edges) u w \<and> reaches (adjacency edges) w u)))"

lemma components_index_ok:
  assumes "strongly_connected_components nodes edges = Some comps" "start \<in> set nodes"
  shows "index_ok edges start (component_of comps)"
proof -
  let ?R = "reaches (adjacency edges)"
  have comps: "set ` set comps = (\<lambda>v. {w. ?R v w \<and> ?R w v}) ` {w. \<exists>v \<in> set nodes. ?R v w}" "distinct (concat comps)"
    using components_are_classes [of nodes edges] assms(1) by auto
  note cof = component_of_iff [OF comps(2)]
  have cls: "set c = {x. ?R w x \<and> ?R x w}" if "c \<in> set comps" "w \<in> set c" for c w
  proof -
    have "set c \<in> set ` set comps" using that(1) by simp
    then obtain v where v: "set c = {x. ?R v x \<and> ?R x v}" unfolding comps(1) by blast
    then have vw: "?R v w" "?R w v" using that(2) by auto
    show ?thesis unfolding v using vw reaches_trans [of "adjacency edges"] by blast
  qed
  have total: "\<exists>k < length comps. w \<in> set (comps ! k)" if "?R start w" for w
  proof -
    have "{x. ?R w x \<and> ?R x w} \<in> set ` set comps" unfolding comps(1) using that assms(2) by blast
    then obtain c where "c \<in> set comps" "set c = {x. ?R w x \<and> ?R x w}" by blast
    then show ?thesis by (metis (mono_tags, lifting) in_set_conv_nth mem_Collect_eq reaches_refl)
  qed
  show ?thesis
    unfolding index_ok_def
  proof (intro conjI allI impI)
    fix w assume "?R start w"
    then show "dget (component_of comps) w \<noteq> None" using total cof by blast
  next
    fix u w assume u: "?R start u" and "?R start w"
    obtain k where k: "k < length comps" "u \<in> set (comps ! k)" using total [OF u] by blast
    have "dget (component_of comps) u = Some k" using cof k by blast
    moreover have "dget (component_of comps) w = Some k \<longleftrightarrow> ?R u w \<and> ?R w u"
      using cof k cls [of "comps ! k" u] by auto
    ultimately show "dget (component_of comps) u = dget (component_of comps) w \<longleftrightarrow> ?R u w \<and> ?R w u" by auto
  qed
qed

section \<open>The search invariant\<close>

definition entry_ok :: "stg_edge list \<Rightarrow> string \<Rightarrow> (string, nat) dict \<Rightarrow> path_entry \<Rightarrow> bool" where
  "entry_ok edges start cof en = (simple_path edges start (pe_node en) (pe_nodes en) (pe_edges en)
     \<and> pe_visited en = set (pe_nodes en) \<and> pe_components en = (\<lambda>v. the (dget cof v)) ` set (pe_nodes en))"

definition entry_covers :: "path_entry \<Rightarrow> string list \<Rightarrow> string list \<Rightarrow> bool" where
  "entry_covers en ns es = (\<exists>ns' es'. ns = pe_nodes en @ ns' \<and> es = pe_edges en @ es')"

lemma entry_reaches:
  assumes "entry_ok edges start cof en" "u \<in> set (pe_nodes en)"
  shows "reaches (adjacency edges) start u" "reaches (adjacency edges) u (pe_node en)"
  using edge_path_reaches [OF _ assms(2), of edges "pe_edges en"] assms(1)
  by (auto simp: entry_ok_def simple_path_def)

lemma entry_nodes: "entry_ok edges start cof en \<Longrightarrow> pe_nodes en \<noteq> [] \<and> pe_node en \<in> set (pe_nodes en)"
  using edge_path_length [of edges "pe_nodes en" "pe_edges en"] last_in_set [of "pe_nodes en"]
  by (fastforce simp: entry_ok_def simple_path_def)

text \<open>A successor that is not on the path is never rejected: a component that was entered before and
  is reached again is the current one.\<close>

lemma never_reentered:
  assumes "index_ok edges start cof" "entry_ok edges start cof en" "reaches (adjacency edges) (pe_node en) w"
    "dget cof (pe_node en) = Some current" "dget cof w = Some k"
  shows "\<not> (k \<noteq> current \<and> k \<in> pe_components en)"
proof
  let ?R = "reaches (adjacency edges)"
  assume k: "k \<noteq> current \<and> k \<in> pe_components en"
  then obtain u where u: "u \<in> set (pe_nodes en)" "the (dget cof u) = k" using assms(2) by (auto simp: entry_ok_def)
  note r = entry_reaches [OF assms(2) u(1)]
  have start_n: "?R start (pe_node en)" using reaches_trans [OF r] .
  have start_w: "?R start w" using reaches_trans [OF start_n assms(3)] .
  have "dget cof u = dget cof w" using assms(1,5) r(1) u(2) by (auto simp: index_ok_def)
  then have "?R w u" using assms(1) r(1) start_w by (simp add: index_ok_def)
  then have "?R w (pe_node en)" using r(2) reaches_trans by blast
  then have "dget cof (pe_node en) = dget cof w" using assms(1,3) start_n start_w by (simp add: index_ok_def)
  then show False using k assms(4,5) by simp
qed

lemma entry_ok_extend:
  assumes "entry_ok edges start cof en" "e \<in> set edges" "e_from e = Some (pe_node en)" "e_to e = Some w"
    "dget cof w = Some k" "w \<notin> pe_visited en"
  shows "entry_ok edges start cof (extend_entry en e w k)"
proof -
  have "edge_path edges (pe_nodes en @ [w]) (pe_edges en @ [e_id e])"
    using edge_path_snoc [of edges "pe_nodes en" "pe_edges en" e w] assms by (simp add: entry_ok_def simple_path_def)
  then show ?thesis
    using assms entry_nodes [OF assms(1)] by (simp add: entry_ok_def simple_path_def extend_entry_def)
qed

lemma expand_edges_ok:
  assumes idx: "index_ok edges start cof" and en: "entry_ok edges start cof en" "dget cof (pe_node en) = Some current"
    and es: "\<forall>e \<in> set es. e \<in> set edges \<and> e_from e = Some (pe_node en) \<and> e_to e \<noteq> None"
    and m: "expansion_count s \<le> m"
  shows "\<exists>s' new. expand_edges cof m en current es s = Inr s' \<and> ps_queue s' = ps_queue s @ new
     \<and> (\<forall>x \<in> set new. entry_ok edges start cof x) \<and> ps_results s' = ps_results s \<and> ps_reasons s \<subseteq> ps_reasons s'
     \<and> expansion_count s' \<le> m
     \<and> (ps_reasons s' = {} \<longrightarrow> (\<forall>e \<in> set es. the (e_to e) \<notin> pe_visited en \<longrightarrow>
          (\<exists>k. extend_entry en e (the (e_to e)) k \<in> set new)))"
  using es m
proof (induction es arbitrary: s)
  case Nil
  then show ?case by auto
next
  case (Cons e es)
  obtain w where w: "e_to e = Some w" using Cons.prems(1) by auto
  have e: "e \<in> set edges" "e_from e = Some (pe_node en)" using Cons.prems(1) by auto
  have nw: "reaches (adjacency edges) (pe_node en) w" using edge_reaches [OF e w] .
  have "reaches (adjacency edges) start w"
    using reaches_trans [OF entry_reaches(1) [OF en(1)] nw] entry_nodes [OF en(1)] by blast
  then obtain k where k: "dget cof w = Some k" using idx by (auto simp: index_ok_def)
  show ?case
  proof (cases "m \<le> expansion_count s")
    case True
    then show ?thesis using Cons.prems(2) by (intro exI [of _ "s\<lparr>ps_reasons := insert ''expansion_budget'' (ps_reasons s)\<rparr>"] exI [of _ "[]"]) auto
  next
    case False
    define s1 where "s1 = (if w \<in> pe_visited en then s\<lparr>expansion_count := expansion_count s + 1\<rparr>
      else s\<lparr>expansion_count := expansion_count s + 1, ps_queue := ps_queue s @ [extend_entry en e w k],
             queue_peak := max (queue_peak s) (length (ps_queue s) + 1)\<rparr>)"
    have run: "expand_edges cof m en current (e # es) s = expand_edges cof m en current es s1"
      using False w k never_reentered [OF idx en(1) nw en(2) k] by (auto simp: Let_def s1_def)
    obtain s' new where ih: "expand_edges cof m en current es s1 = Inr s'" "ps_queue s' = ps_queue s1 @ new"
        "\<forall>x \<in> set new. entry_ok edges start cof x" "ps_results s' = ps_results s1" "ps_reasons s1 \<subseteq> ps_reasons s'"
        "expansion_count s' \<le> m"
        "ps_reasons s' = {} \<longrightarrow> (\<forall>e \<in> set es. the (e_to e) \<notin> pe_visited en \<longrightarrow> (\<exists>k. extend_entry en e (the (e_to e)) k \<in> set new))"
    proof -
      have "expansion_count s1 \<le> m" "\<forall>e \<in> set es. e \<in> set edges \<and> e_from e = Some (pe_node en) \<and> e_to e \<noteq> None"
        using Cons.prems(1) False by (auto simp: s1_def)
      then show ?thesis using Cons.IH [of s1] that by blast
    qed
    show ?thesis
    proof (cases "w \<in> pe_visited en")
      case True
      then show ?thesis using run ih w by (intro exI [of _ s'] exI [of _ new]) (auto simp: s1_def)
    next
      case False
      then have "entry_ok edges start cof (extend_entry en e w k)" using entry_ok_extend [OF en(1) e w k] by simp
      then show ?thesis using run ih w False
        by (intro exI [of _ s'] exI [of _ "extend_entry en e w k # new"]) (auto simp: s1_def)
    qed
  qed
qed

definition search_found :: "stg_edge list \<Rightarrow> string \<Rightarrow> string \<Rightarrow> path_search \<Rightarrow> bool" where
  "search_found edges start destination s = (\<forall>ns es. simple_path edges start destination ns es \<longrightarrow>
     (\<exists>en \<in> set (ps_queue s). entry_covers en ns es) \<or> \<lparr>pr_node_ids = ns, pr_edge_ids = es\<rparr> \<in> set (ps_results s)
     \<or> ps_reasons s \<noteq> {})"

definition search_ok :: "stg_edge list \<Rightarrow> string \<Rightarrow> string \<Rightarrow> (string, nat) dict \<Rightarrow> nat \<Rightarrow> nat \<Rightarrow> path_search \<Rightarrow> bool" where
  "search_ok edges start destination cof max_paths max_expansions s = (
     (\<forall>en \<in> set (ps_queue s). entry_ok edges start cof en)
   \<and> (\<forall>r \<in> set (ps_results s). simple_path edges start destination (pr_node_ids r) (pr_edge_ids r))
   \<and> length (ps_results s) \<le> max_paths \<and> expansion_count s \<le> max_expansions
   \<and> search_found edges start destination s)"

lemma edge_path_same_nodes:
  "edge_path edges ns es \<Longrightarrow> edge_path edges ns (es @ es') \<Longrightarrow> es' = []"
  using edge_path_length [of edges ns es] edge_path_length [of edges ns "es @ es'"] by simp

text \<open>A simple path to the destination that goes through an entry either ends there or takes one of
  the edges that leave the entry's node, to a node the entry has not visited.\<close>

lemma covered_path:
  assumes "entry_ok edges start cof en" "simple_path edges start destination ns es" "entry_covers en ns es"
  obtains "pe_node en = destination" "ns = pe_nodes en" "es = pe_edges en"
  | e w where "pe_node en \<noteq> destination" "e \<in> set edges" "e_from e = Some (pe_node en)" "e_to e = Some w" "w \<notin> pe_visited en"
      "\<And>k. entry_covers (extend_entry en e w k) ns es"
proof -
  obtain ns' es' where c: "ns = pe_nodes en @ ns'" "es = pe_edges en @ es'" using assms(3) by (auto simp: entry_covers_def)
  note E = assms(1) [unfolded entry_ok_def simple_path_def] and P = assms(2) [unfolded simple_path_def]
  have ne: "pe_nodes en \<noteq> []" "pe_node en \<in> set (pe_nodes en)" using entry_nodes [OF assms(1)] by auto
  show ?thesis
  proof (cases ns')
    case Nil
    then have "es' = []" using edge_path_same_nodes [of edges "pe_nodes en" "pe_edges en" es'] E P c by simp
    then show ?thesis using that(1) Nil c E P by simp
  next
    case (Cons w ms)
    obtain e es1 es2 where e: "es = es1 @ e_id e # es2" "edge_path edges (pe_nodes en) es1" "e \<in> set edges"
        "e_from e = Some (last (pe_nodes en))" "e_to e = Some w"
      using edge_path_split [of edges "pe_nodes en" w ms es] P c Cons ne(1) by auto
    have "length es1 = length (pe_edges en)"
      using edge_path_length [OF e(2)] edge_path_length [of edges "pe_nodes en" "pe_edges en"] E by simp
    then have es1: "es1 = pe_edges en" "es' = e_id e # es2" using e(1) c(2) by auto
    have "pe_node en \<noteq> destination" using P c Cons ne(2) by (auto split: if_splits dest: last_in_set)
    moreover have "w \<notin> pe_visited en" using P c Cons E by auto
    moreover have "entry_covers (extend_entry en e w k) ns es" for k
      using c Cons es1 by (simp add: entry_covers_def extend_entry_def)
    ultimately show ?thesis using that(2) [of e w] e(3-5) E by metis
  qed
qed

lemma outgoing_iff: "e \<in> set (outgoing edges v) \<longleftrightarrow> e \<in> set edges \<and> e_from e = Some v"
  by (simp add: outgoing_def)

lemma search_step_ok:
  assumes idx: "index_ok edges start cof" and str: "\<forall>e \<in> set edges. e_to e \<noteq> None"
    and ok: "search_ok edges start destination cof mp me s" and q: "ps_queue s = en # q" and less: "length (ps_results s) < mp"
  shows "\<exists>s'. search_step cof (outgoing edges) destination limit me en (s\<lparr>ps_queue := q\<rparr>) = Inr s'
     \<and> search_ok edges start destination cof mp me s'"
proof -
  let ?s = "s\<lparr>ps_queue := q\<rparr>"
  note K = ok [unfolded search_ok_def]
  have en: "entry_ok edges start cof en" using K q by simp
  have found: "(\<exists>x \<in> set q. entry_covers x ns es) \<or> entry_covers en ns es \<or> \<lparr>pr_node_ids = ns, pr_edge_ids = es\<rparr> \<in> set (ps_results s)
      \<or> ps_reasons s \<noteq> {}" if "simple_path edges start destination ns es" for ns es
    using K that q by (auto simp: search_found_def)
  consider "pe_node en = destination" | "pe_node en \<noteq> destination" "limit \<le> length (pe_nodes en)"
    | "pe_node en \<noteq> destination" "\<not> limit \<le> length (pe_nodes en)" by blast
  then show ?thesis
  proof cases
    case 1
    let ?s' = "?s\<lparr>ps_results := ps_results ?s @ [\<lparr>pr_node_ids = pe_nodes en, pr_edge_ids = pe_edges en\<rparr>]\<rparr>"
    have "search_found edges start destination ?s'"
      unfolding search_found_def
    proof (intro allI impI)
      fix ns es assume p: "simple_path edges start destination ns es"
      show "(\<exists>en \<in> set (ps_queue ?s'). entry_covers en ns es) \<or> \<lparr>pr_node_ids = ns, pr_edge_ids = es\<rparr> \<in> set (ps_results ?s') \<or> ps_reasons ?s' \<noteq> {}"
        using found [OF p] covered_path [OF en p] 1 by fastforce
    qed
    then show ?thesis
      using 1 K en q less by (intro exI [of _ ?s']) (auto simp: search_step_def search_ok_def entry_ok_def)
  next
    case 2
    define s' where "s' = (if \<exists>e \<in> set (outgoing edges (pe_node en)). the (e_to e) \<notin> pe_visited en
      then ?s\<lparr>ps_reasons := insert ''node_limit'' (ps_reasons ?s)\<rparr> else ?s)"
    have "search_found edges start destination s'"
      unfolding search_found_def
    proof (intro allI impI)
      fix ns es assume p: "simple_path edges start destination ns es"
      have "ps_reasons s' \<noteq> {}" if "entry_covers en ns es"
        using covered_path [OF en p that]
      proof cases
        case 1
        then show ?thesis using 2 by simp
      next
        case (2 e w)
        then have "e \<in> set (outgoing edges (pe_node en))" "the (e_to e) \<notin> pe_visited en" by (auto simp: outgoing_iff)
        then show ?thesis unfolding s'_def by auto
      qed
      then show "(\<exists>en \<in> set (ps_queue s'). entry_covers en ns es) \<or> \<lparr>pr_node_ids = ns, pr_edge_ids = es\<rparr> \<in> set (ps_results s') \<or> ps_reasons s' \<noteq> {}"
        using found [OF p] by (auto simp: s'_def)
    qed
    moreover have "search_step cof (outgoing edges) destination limit me en ?s = Inr s'"
      using 2 by (simp add: search_step_def s'_def)
    ultimately show ?thesis
      using K q by (intro exI [of _ s']) (auto simp: search_ok_def s'_def)
  next
    case 3
    have start_n: "reaches (adjacency edges) start (pe_node en)"
      using entry_reaches(1) [OF en] entry_nodes [OF en] by blast
    then obtain current where cur: "dget cof (pe_node en) = Some current" using idx by (auto simp: index_ok_def)
    obtain s' new where x: "expand_edges cof me en current (outgoing edges (pe_node en)) ?s = Inr s'"
        "ps_queue s' = q @ new" "\<forall>x \<in> set new. entry_ok edges start cof x" "ps_results s' = ps_results s"
        "ps_reasons s \<subseteq> ps_reasons s'" "expansion_count s' \<le> me"
        "ps_reasons s' = {} \<longrightarrow> (\<forall>e \<in> set (outgoing edges (pe_node en)). the (e_to e) \<notin> pe_visited en \<longrightarrow>
           (\<exists>k. extend_entry en e (the (e_to e)) k \<in> set new))"
      using expand_edges_ok [OF idx en cur, of "outgoing edges (pe_node en)" ?s me] K str by (auto simp: outgoing_iff)
    have "search_found edges start destination s'"
      unfolding search_found_def
    proof (intro allI impI)
      fix ns es assume p: "simple_path edges start destination ns es"
      have "(\<exists>x \<in> set new. entry_covers x ns es) \<or> ps_reasons s' \<noteq> {}" if "entry_covers en ns es"
        using covered_path [OF en p that]
      proof cases
        case 1
        then show ?thesis using 3 by simp
      next
        case (2 e w)
        then show ?thesis using x(7) by (metis outgoing_iff option.sel)
      qed
      then show "(\<exists>en \<in> set (ps_queue s'). entry_covers en ns es) \<or> \<lparr>pr_node_ids = ns, pr_edge_ids = es\<rparr> \<in> set (ps_results s') \<or> ps_reasons s' \<noteq> {}"
        using found [OF p] x(2,4,5) by auto
    qed
    then show ?thesis
      using x K q 3 cur by (intro exI [of _ s']) (auto simp: search_step_def search_ok_def)
  qed
qed

lemma search_loop_ok:
  assumes "index_ok edges start cof" "\<forall>e \<in> set edges. e_to e \<noteq> None" "search_ok edges start destination cof mp me s"
  shows "\<exists>s'. search_loop cof (outgoing edges) destination limit mp me s = Inr s' \<and> search_ok edges start destination cof mp me s'
     \<and> (ps_queue s' = [] \<or> mp \<le> length (ps_results s') \<or> ps_reasons s' \<noteq> {})"
  using assms
proof (induction cof "outgoing edges" destination limit mp me s rule: search_loop.induct)
  case (1 cof destination limit mp me s)
  show ?case
  proof (cases "ps_queue s = [] \<or> mp \<le> length (ps_results s)")
    case True
    then show ?thesis using "1.prems"(3) by (subst search_loop.simps) auto
  next
    case False
    then obtain en q where q: "ps_queue s = en # q" by (cases "ps_queue s") auto
    obtain s1 where s1: "search_step cof (outgoing edges) destination limit me en (s\<lparr>ps_queue := q\<rparr>) = Inr s1"
        "search_ok edges start destination cof mp me s1"
      using search_step_ok [OF "1.prems" q] False by auto
    have step: "search_step cof (outgoing edges) destination limit me (hd (ps_queue s)) (s\<lparr>ps_queue := tl (ps_queue s)\<rparr>) = Inr s1"
      using s1(1) q by simp
    have run: "search_loop cof (outgoing edges) destination limit mp me s =
        (if ''expansion_budget'' \<in> ps_reasons s1 then Inr s1 else search_loop cof (outgoing edges) destination limit mp me s1)"
      by (subst search_loop.simps) (simp only: False step if_False sum.case)
    show ?thesis
    proof (cases "''expansion_budget'' \<in> ps_reasons s1")
      case True
      then show ?thesis using run s1(2) by auto
    next
      case no: False
      show ?thesis using "1.hyps" [OF False step no "1.prems"(1,2) s1(2)] run no by simp
    qed
  qed
qed

section \<open>What the enumeration promises\<close>

lemma bounded_paths_run:
  assumes "start \<in> set (g_nodes graph)" "destination \<in> set (g_nodes graph)" "0 < mp" "0 < me" "mn \<noteq> Some 0"
  obtains s limit cof where
    "bounded_paths graph start destination mp mn me = Inr (ps_results s, report_search mp limit me s)"
    "search_ok (string_edges (g_edges graph)) start destination cof mp me s"
    "ps_queue s = [] \<or> mp \<le> length (ps_results s) \<or> ps_reasons s \<noteq> {}"
proof -
  let ?edges = "string_edges (g_edges graph)"
  obtain comps where comps: "strongly_connected_components (g_nodes graph) ?edges = Some comps"
    using components_are_classes by blast
  let ?cof = "component_of comps"
  define limit where "limit = (case mn of Some n \<Rightarrow> n | None \<Rightarrow> max 2 (length (g_nodes graph) + length comps))"
  have idx: "index_ok ?edges start ?cof" using components_index_ok [OF comps assms(1)] .
  then obtain k where k: "dget ?cof start = Some k" unfolding index_ok_def using reaches_refl by blast
  have str: "\<forall>e \<in> set ?edges. e_to e \<noteq> None" by (simp add: string_edges_def)
  have "entry_covers \<lparr>pe_node = start, pe_nodes = [start], pe_edges = [], pe_components = {k}, pe_visited = {start}\<rparr> ns es"
    if "simple_path ?edges start destination ns es" for ns es
    using that edge_path_length [of ?edges ns es] by (cases ns) (auto simp: simple_path_def entry_covers_def)
  then have "search_ok ?edges start destination ?cof mp me (initial_search ?cof start k)"
    using k by (auto simp: search_ok_def initial_search_def entry_ok_def simple_path_def search_found_def)
  then obtain s where s: "search_loop ?cof (outgoing ?edges) destination limit mp me (initial_search ?cof start k) = Inr s"
      "search_ok ?edges start destination ?cof mp me s" "ps_queue s = [] \<or> mp \<le> length (ps_results s) \<or> ps_reasons s \<noteq> {}"
    using search_loop_ok [OF idx str] by blast
  have "bounded_paths graph start destination mp mn me = Inr (ps_results s, report_search mp limit me s)"
    using assms comps k s(1) by (simp add: bounded_paths_def Let_def limit_def [symmetric])
  then show ?thesis using that s(2,3) by blast
qed

text \<open>
  (C1) For nodes of the graph and positive limits the enumeration always returns: no key is missing,
  no more paths and no more expansions are used than allowed, and every result is a simple path from
  the start to the destination along edges of the graph. When it does not report truncation, it has
  found every simple path; in particular an empty untruncated result proves that the destination
  cannot be reached.
\<close>

theorem bounded_paths_exact:
  assumes "start \<in> set (g_nodes graph)" "destination \<in> set (g_nodes graph)" "0 < max_paths" "0 < max_expansions"
    "max_nodes \<noteq> Some 0"
  shows "\<exists>rs d. bounded_paths graph start destination max_paths max_nodes max_expansions = Inr (rs, d)
     \<and> length rs \<le> max_paths \<and> pd_expansion_count d \<le> max_expansions
     \<and> (\<forall>r \<in> set rs. simple_path (string_edges (g_edges graph)) start destination (pr_node_ids r) (pr_edge_ids r))
     \<and> (\<not> pd_truncated d \<longrightarrow>
          (\<forall>ns es. simple_path (string_edges (g_edges graph)) start destination ns es \<longrightarrow>
             \<lparr>pr_node_ids = ns, pr_edge_ids = es\<rparr> \<in> set rs)
          \<and> (rs = [] \<longrightarrow> \<not> reaches (adjacency (string_edges (g_edges graph))) start destination))"
proof -
  let ?edges = "string_edges (g_edges graph)"
  obtain s limit cof where s: "bounded_paths graph start destination max_paths max_nodes max_expansions
        = Inr (ps_results s, report_search max_paths limit max_expansions s)"
      "search_ok ?edges start destination cof max_paths max_expansions s"
      "ps_queue s = [] \<or> max_paths \<le> length (ps_results s) \<or> ps_reasons s \<noteq> {}"
    using bounded_paths_run [OF assms] by blast
  let ?d = "report_search max_paths limit max_expansions s"
  note K = s(2) [unfolded search_ok_def]
  have all: "\<lparr>pr_node_ids = ns, pr_edge_ids = es\<rparr> \<in> set (ps_results s)"
    if t: "\<not> pd_truncated ?d" and p: "simple_path ?edges start destination ns es" for ns es
  proof -
    have "ps_reasons s = {}" "ps_queue s = []"
      using t s(3) by (auto simp: report_search_def Let_def split: if_splits)
    then show ?thesis using K p by (auto simp: search_found_def)
  qed
  have "\<not> reaches (adjacency ?edges) start destination" if "\<not> pd_truncated ?d" "ps_results s = []"
    using reaches_simple_path [of ?edges start destination] all [OF that(1)] that(2) by auto
  then show ?thesis using s(1) K all by (auto simp: report_search_def Let_def)
qed

text \<open>A loop with an exit: one simple path, one expansion for every edge.\<close>

definition demo_graph :: stg_graph where
  "demo_graph = \<lparr>g_nodes = [''a'', ''b'', ''c'', ''d''], g_edges =
     [\<lparr>e_id = ''e1'', e_from = Some ''a'', e_to = Some ''b''\<rparr>, \<lparr>e_id = ''e2'', e_from = Some ''b'', e_to = Some ''a''\<rparr>,
      \<lparr>e_id = ''e3'', e_from = Some ''b'', e_to = Some ''c''\<rparr>, \<lparr>e_id = ''e4'', e_from = None, e_to = Some ''d''\<rparr>]\<rparr>"

theorem bounded_paths_exact_witness:
  "map_sum id (\<lambda>(rs, d). (map pr_node_ids rs, pd_truncated d, pd_expansion_count d)) (bounded_paths demo_graph ''a'' ''c'' 8 None 4096)
     = Inr ([[''a'', ''b'', ''c'']], False, 3)
   \<and> \<not> reaches (adjacency (string_edges (g_edges demo_graph))) ''a'' ''d''"
proof
  show "map_sum id (\<lambda>(rs, d). (map pr_node_ids rs, pd_truncated d, pd_expansion_count d)) (bounded_paths demo_graph ''a'' ''c'' 8 None 4096)
     = Inr ([[''a'', ''b'', ''c'']], False, 3)" by code_simp
  have d: "map_sum id (\<lambda>(rs, d). (map pr_node_ids rs, pd_truncated d)) (bounded_paths demo_graph ''a'' ''d'' 8 None 4096) = Inr ([], False)"
    by code_simp
  show "\<not> reaches (adjacency (string_edges (g_edges demo_graph))) ''a'' ''d''"
    using bounded_paths_exact [of "''a''" demo_graph "''d''" 8 4096 None] d by (auto simp: demo_graph_def)
qed

end
