(* ===== verification/Task_Planning.thy ===== *)
theory Task_Planning
  imports Path_Search Json Sha256 Complex_Main
begin

text \<open>
  The planner's tasks and their runtime (\<^verbatim>\<open>src/fuzzer/semantic/planning.py\<close>): targets and paths of a POU,
  seed profiles, the remaining work of a task, its effort and gain, and the states a task goes
  through while the campaign covers targets. The STG dictionaries are records of the fields the code
  reads, an option where the code reads the field with a default. Python floats are real numbers.
\<close>

section \<open>Constants and small helpers\<close>

definition TERMINAL_KINDS :: "string list" where
  "TERMINAL_KINDS = [''hazard_violation'', ''property_violation'']"

definition GUIDE_KINDS :: "string list" where
  "GUIDE_KINDS = [''branch_outcome'', ''case_outcome'', ''loop_outcome'', ''control_transfer'', ''cycle'', ''hazard_reach'']"

definition MODELING_ORDER :: "string \<Rightarrow> nat" where
  "MODELING_ORDER m = (if m = ''exact'' then 0 else if m = ''conservative'' then 1 else 2)"

text \<open>\<^verbatim>\<open>max(values, key=..., default=...)\<close> returns the first maximal element.\<close>

fun first_max :: "('a \<Rightarrow> 'b :: linorder) \<Rightarrow> 'a \<Rightarrow> 'a list \<Rightarrow> 'a" where
  "first_max key best [] = best"
| "first_max key best (x # xs) = first_max key (if key best < key x then x else best) xs"

fun first_min :: "('a \<Rightarrow> 'b :: linorder) \<Rightarrow> 'a \<Rightarrow> 'a list \<Rightarrow> 'a" where
  "first_min key best [] = best"
| "first_min key best (x # xs) = first_min key (if key x < key best then x else best) xs"

definition modeling_max :: "string list \<Rightarrow> string" where
  "modeling_max values = (case values of [] \<Rightarrow> ''exact'' | v # vs \<Rightarrow> first_max MODELING_ORDER v vs)"

fun dedupe_from :: "string list \<Rightarrow> string list \<Rightarrow> string list" where
  "dedupe_from seen [] = []"
| "dedupe_from seen (v # vs) = (if v \<in> set seen then dedupe_from seen vs else v # dedupe_from (v # seen) vs)"

definition dedupe :: "string list \<Rightarrow> string list" where
  "dedupe values = dedupe_from [] (filter (\<lambda>v. v \<noteq> []) values)"

section \<open>Expression trees\<close>

record stg_expression =
  xp_id :: string
  xp_kind :: "string option"
  xp_type_name :: "string option"
  xp_reads :: "string list"
  xp_operands :: "string list"
  xp_modeling :: "string option"

datatype expr_tree =
    RecursiveTree
  | ExprTree "string option" "string option" "string list" "expr_tree list"

text \<open>A chain of operands never meets an expression twice, so the expansion ends.\<close>

function expression_tree :: "(string, stg_expression) dict \<Rightarrow> string list \<Rightarrow> string option \<Rightarrow> expr_tree option" where
  "expression_tree expressions seen expression_id =
     (case expression_id of
        None \<Rightarrow> None
      | Some i \<Rightarrow>
          (case dget expressions i of
             None \<Rightarrow> None
           | Some x \<Rightarrow>
               if i = [] then None
               else if i \<in> set seen then Some RecursiveTree
               else Some (ExprTree (xp_kind x) (xp_type_name x) (xp_reads x)
                      (List.map_filter (\<lambda>operand. expression_tree expressions (i # seen) (Some operand)) (xp_operands x)))))"
  by pat_completeness auto

termination
proof (relation "measure (\<lambda>(expressions, seen, _). card (fst ` set expressions - set seen))", goal_cases)
  case (2 expressions seen expression_id i x operand)
  then have "i \<in> fst ` set expressions" by (force dest: map_of_SomeD)
  then have "fst ` set expressions - set (i # seen) \<subset> fst ` set expressions - set seen" using 2 by auto
  then show ?case by (auto intro!: psubset_card_mono)
qed simp

declare expression_tree.simps [simp del]

record stg_operation =
  op_kind :: "json option"
  op_target_symbol :: "json option"
  op_reads :: "json option"
  op_target :: "string option"
  op_value :: "string option"
  op_arguments :: "string list option"

record operation_tree =
  ot_kind :: "json option"
  ot_target_symbol :: "json option"
  ot_reads :: "json option"
  ot_target_expression :: "expr_tree option option"
  ot_value_expression :: "expr_tree option option"
  ot_argument_expressions :: "expr_tree list option"

definition transfer_operation_tree :: "(string, stg_expression) dict \<Rightarrow> stg_operation \<Rightarrow> operation_tree" where
  "transfer_operation_tree expressions oper =
     \<lparr>ot_kind = op_kind oper, ot_target_symbol = op_target_symbol oper, ot_reads = op_reads oper,
      ot_target_expression = map_option (\<lambda>i. expression_tree expressions [] (Some i)) (op_target oper),
      ot_value_expression = map_option (\<lambda>i. expression_tree expressions [] (Some i)) (op_value oper),
      ot_argument_expressions =
        map_option (List.map_filter (\<lambda>i. expression_tree expressions [] (Some i))) (op_arguments oper)\<rparr>"

section \<open>Targets of a path\<close>

record stg_target =
  tg_id :: string
  tg_kind :: "string option"
  tg_node_id :: string
  tg_edge_ids :: "string list"
  tg_role :: "string option"
  tg_modeling :: "string option"
  tg_backward_dependencies :: "string list"

definition kind_in :: "string list \<Rightarrow> stg_target \<Rightarrow> bool" where
  "kind_in kinds t = (case tg_kind t of None \<Rightarrow> False | Some k \<Rightarrow> k \<in> set kinds)"

definition target_order :: "string option \<Rightarrow> nat" where
  "target_order kind = (case kind of None \<Rightarrow> 9 | Some k \<Rightarrow>
     if k = ''cycle'' then 0
     else if k \<in> set [''branch_outcome'', ''case_outcome'', ''loop_outcome''] then 1
     else if k = ''control_transfer'' then 2
     else if k = ''hazard_reach'' then 3
     else if k \<in> set TERMINAL_KINDS then 4 else 9)"

definition target_sort_key :: "stg_target \<Rightarrow> nat \<times> string" where
  "target_sort_key t = (target_order (tg_kind t), tg_id t)"

text \<open>\<^verbatim>\<open>targets_by_node.get(node, [])\<close>, sorted.\<close>

definition targets_by_node :: "stg_target list \<Rightarrow> string \<Rightarrow> stg_target list" where
  "targets_by_node targets node = sort_key target_sort_key (filter (\<lambda>t. tg_node_id t = node) targets)"

definition on_path :: "string list \<Rightarrow> string \<Rightarrow> stg_target \<Rightarrow> bool" where
  "on_path path_edges terminal_id t =
     ((kind_in GUIDE_KINDS t \<or> tg_id t = terminal_id)
      \<and> (tg_id t = terminal_id \<or> tg_edge_ids t = [] \<or> set path_edges \<inter> set (tg_edge_ids t) \<noteq> {}))"

definition path_targets :: "string list \<Rightarrow> string list \<Rightarrow> (string \<Rightarrow> stg_target list) \<Rightarrow> string \<Rightarrow> string list" where
  "path_targets nodes path_edges by_node terminal_id =
     (let target_ids = concat (map (\<lambda>n. map tg_id (filter (on_path path_edges terminal_id) (by_node n))) nodes) in
      dedupe
        (if terminal_id \<notin> set target_ids then target_ids @ [terminal_id]
         else if last target_ids \<noteq> terminal_id then filter (\<lambda>t. t \<noteq> terminal_id) target_ids @ [terminal_id]
         else target_ids))"

definition hazard_reach :: "stg_target \<Rightarrow> (string \<Rightarrow> stg_target list) \<Rightarrow> string option" where
  "hazard_reach terminal by_node =
     map_option tg_id (find (\<lambda>t. tg_kind t = Some ''hazard_reach'') (by_node (tg_node_id terminal)))"

text \<open>The insertion of the reach target before the violation it guards.\<close>

definition insert_reach :: "stg_target \<Rightarrow> (string \<Rightarrow> stg_target list) \<Rightarrow> string list \<Rightarrow> string list" where
  "insert_reach terminal by_node ids =
     (if tg_kind terminal = Some ''hazard_violation''
      then case hazard_reach terminal by_node of
             None \<Rightarrow> ids
           | Some reach \<Rightarrow> if reach \<noteq> [] \<and> reach \<notin> set ids
                then take (length ids - 1) ids @ [reach] @ drop (length ids - 1) ids else ids
      else ids)"

section \<open>Remaining work\<close>

definition guide_target :: "string list \<Rightarrow> string set \<Rightarrow> string option" where
  "guide_target path covered = find (\<lambda>t. t \<notin> covered) path"

text \<open>\<^verbatim>\<open>path[path.index(first):]\<close>.\<close>

definition remaining_path :: "string list \<Rightarrow> string set \<Rightarrow> string list" where
  "remaining_path path covered =
     (case guide_target path covered of None \<Rightarrow> [] | Some first \<Rightarrow> dropWhile (\<lambda>t. t \<noteq> first) path)"

record candidate_path =
  cp_path_id :: string
  cp_target_ids :: "string list"
  cp_edge_ids :: "string list"

record control_obligation =
  ob_target_id :: string
  ob_kind :: "string option"
  ob_role :: "string option"
  ob_edge_id :: string
  ob_goal_expression_id :: "string option"
  ob_goal_expression :: "expr_tree option"
  ob_modeling :: string

record data_dependency =
  dd_symbol :: string
  dd_role :: "string option"
  dd_type_name :: "string option"
  dd_configuration_source :: json

record transfer_chain =
  tc_edge_id :: string
  tc_reads :: "string list"
  tc_writes :: "string list"
  tc_operations :: "operation_tree list"
  tc_modeling :: string

record temporal_requirement =
  tr_edge_id :: string
  tr_from :: "string option"
  tr_to :: "string option"
  tr_persistent_symbols :: "string list"
  tr_rule :: json
  tr_minimum_cycles :: nat
  tr_modeling :: string

record seed_field =
  sf_symbol :: string
  sf_seed_field :: "string option"
  sf_role :: "string option"
  sf_type_name :: "string option"
  sf_configuration_source :: json
  sf_type :: "json option"

record sem_task =
  task_id :: string
  task_kind :: string
  tk_pou :: string
  terminal_target_id :: string
  candidate_paths :: "candidate_path list"
  tk_path_search :: "path_diagnostics option"
  ordered_waypoints :: "string list"
  control_obligations :: "control_obligation list"
  data_dependencies :: "data_dependency list"
  state_transfer_chains :: "transfer_chain list"
  temporal_requirements :: "temporal_requirement list"
  hazard_prerequisites :: "string list"
  controllable_seed_fields :: "seed_field list"
  modeling_status :: string
  initial_state :: string
  unlocked_targets :: "string list"
  terminal_runtime_id :: json
  terminal_kind :: "string option"
  terminal_hazard :: "string option"
  terminal_goal_expression_id :: "string option"
  terminal_goal_expression :: "expr_tree option"

definition path_key :: "string set \<Rightarrow> string list \<Rightarrow> nat \<times> nat \<times> string list" where
  "path_key covered path = (length (remaining_path path covered), length path, path)"

definition choose_active_path :: "sem_task \<Rightarrow> string set \<Rightarrow> string list" where
  "choose_active_path task covered =
     (let listed = filter (\<lambda>p. p \<noteq> []) (map cp_target_ids (candidate_paths task));
          paths = (if listed = [] then [ordered_waypoints task] else listed)
      in first_min (path_key covered) (hd paths) (tl paths))"

section \<open>Seed profiles\<close>

record semantic_event =
  ev_target_id :: "string option"
  ev_cycle :: "int option"
  ev_state_signature :: "string option"
  ev_state_hash_after :: "string option"

record seed_profile =
  sp_content_hash :: string
  covered_target_ids :: "string list"
  covered_targets_by_cycle :: "(string \<times> string list) list"
  cycle_ids :: "int list"
  state_signatures :: "string list"
  target_affinity :: "(string, real) dict"
  sp_parent_id :: "string option"
  satisfied_dependencies :: "string list option"
  satisfied_transfers :: "string list option"
  completed_temporal_steps :: int
  sp_seed_id :: string

definition sorted_set :: "'a :: linorder list \<Rightarrow> 'a list" where
  "sorted_set xs = sort (remdups xs)"

text \<open>Events without a target are skipped.\<close>

definition target_events :: "semantic_event list \<Rightarrow> semantic_event list" where
  "target_events events = filter (\<lambda>e. case ev_target_id e of None \<Rightarrow> False | Some t \<Rightarrow> t \<noteq> []) events"

definition event_signature :: "semantic_event \<Rightarrow> string option" where
  "event_signature e =
     (case ev_state_signature e of
        Some s \<Rightarrow> if s \<noteq> [] then Some s else (case ev_state_hash_after e of Some h \<Rightarrow> if h \<noteq> [] then Some h else None | None \<Rightarrow> None)
      | None \<Rightarrow> (case ev_state_hash_after e of Some h \<Rightarrow> if h \<noteq> [] then Some h else None | None \<Rightarrow> None))"

definition targets_of_cycle :: "semantic_event list \<Rightarrow> int \<Rightarrow> string list" where
  "targets_of_cycle events c = sorted_set (map (\<lambda>e. the (ev_target_id e)) (filter (\<lambda>e. ev_cycle e = Some c) events))"

definition affinity_of :: "string set \<Rightarrow> sem_task \<Rightarrow> real" where
  "affinity_of covered task =
     real (card (covered \<inter> set (ordered_waypoints task))) / real (card (set (ordered_waypoints task)))"

definition build_seed_profile :: "string \<Rightarrow> semantic_event list \<Rightarrow> string option \<Rightarrow> sem_task list \<Rightarrow> seed_profile" where
  "build_seed_profile seed events parent tasks =
     (let used = target_events events;
          covered = sorted_set (map (\<lambda>e. the (ev_target_id e)) used);
          cycles = sorted_set (List.map_filter ev_cycle used)
      in \<lparr>sp_content_hash = sha256_hex seed, covered_target_ids = covered,
          covered_targets_by_cycle = map (\<lambda>c. (show_int c, targets_of_cycle used c)) cycles,
          cycle_ids = cycles, state_signatures = sorted_set (List.map_filter event_signature used),
          target_affinity = dict_of (map (\<lambda>t. (task_id t, affinity_of (set covered) t))
                              (filter (\<lambda>t. ordered_waypoints t \<noteq> []) tasks)),
          sp_parent_id = parent, satisfied_dependencies = None, satisfied_transfers = None,
          completed_temporal_steps = 0, sp_seed_id = []\<rparr>)"

section \<open>Effort and gain\<close>

record effort =
  ec :: real
  ed :: real
  es :: real
  et :: real
  eh :: real

definition required_temporal :: "sem_task \<Rightarrow> int" where
  "required_temporal task =
     foldr max (map (\<lambda>r. max 0 (int (tr_minimum_cycles r) - 1)) (temporal_requirements task)) 0"

definition clamped_affinity :: "seed_profile \<Rightarrow> sem_task \<Rightarrow> real" where
  "clamped_affinity profile task =
     max 0 (min 1 (case dget (target_affinity profile) (task_id task) of None \<Rightarrow> 0 | Some a \<Rightarrow> a))"

definition optional_set :: "string list option \<Rightarrow> string set" where
  "optional_set xs = (case xs of None \<Rightarrow> {} | Some ys \<Rightarrow> set ys)"

definition non_empty_set :: "string list \<Rightarrow> string set" where
  "non_empty_set xs = set (filter (\<lambda>x. x \<noteq> []) xs)"

definition raw_effort :: "seed_profile \<Rightarrow> sem_task \<Rightarrow> effort" where
  "raw_effort profile task =
     (let covered = set (covered_target_ids profile);
          remaining = set (remaining_path (choose_active_path task covered) covered);
          control = non_empty_set (map ob_target_id (control_obligations task));
          data = non_empty_set (map dd_symbol (data_dependencies task));
          transfers = non_empty_set (map tc_edge_id (state_transfer_chains task));
          affinity = clamped_affinity profile task;
          dependency_work = real (card (data - optional_set (satisfied_dependencies profile)));
          transfer_work = real (card (transfers - optional_set (satisfied_transfers profile)))
      in \<lparr>ec = real (card (control \<inter> remaining)),
          ed = (if satisfied_dependencies profile = None then dependency_work * (1 - affinity) else dependency_work),
          es = (if satisfied_transfers profile = None \<and> state_signatures profile \<noteq> []
                then transfer_work * (1 - affinity) else transfer_work),
          et = real_of_int (max 0 (required_temporal task - completed_temporal_steps profile)),
          eh = real (card {p \<in> set (hazard_prerequisites task). p \<notin> covered})
               + (if terminal_target_id task \<notin> covered then 1 else 0)\<rparr>)"

definition effort_components :: "seed_profile \<Rightarrow> sem_task \<Rightarrow> effort option \<Rightarrow> effort" where
  "effort_components profile task normalization =
     (let raw = raw_effort profile task in
      case normalization of
        None \<Rightarrow> raw
      | Some n \<Rightarrow> \<lparr>ec = ec raw / max 1 (ec n), ed = ed raw / max 1 (ed n), es = es raw / max 1 (es n),
                   et = et raw / max 1 (et n), eh = eh raw / max 1 (eh n)\<rparr>)"

definition effort_sum :: "effort \<Rightarrow> real" where
  "effort_sum e = ec e + ed e + es e + et e + eh e"

definition semantic_effort :: "seed_profile \<Rightarrow> sem_task \<Rightarrow> effort option \<Rightarrow> real" where
  "semantic_effort profile task normalization = effort_sum (effort_components profile task normalization)"

definition kind_names :: "sem_task \<Rightarrow> string set" where
  "kind_names task = non_empty_set (List.map_filter ob_kind (control_obligations task))"

definition task_gain :: "sem_task \<Rightarrow> string set \<Rightarrow> real" where
  "task_gain task covered =
     (let exact_violations = (if task_kind task = ''violation'' \<and> modeling_status task = ''exact''
                                \<and> terminal_target_id task \<notin> covered then 1 else 0);
          unlocked_hazards = length (filter (\<lambda>t. t \<notin> covered) (unlocked_targets task));
          novelty = min 1 (real (card (kind_names task)) / real (max 1 (length GUIDE_KINDS)))
      in real (exact_violations + unlocked_hazards) + novelty)"

record ranked_task =
  rk_task :: sem_task
  rk_priority :: real
  rk_base_priority :: real
  rk_gain :: real
  rk_best_seed_id :: "string option"
  rk_active_path :: "string list"
  rk_guide_target_id :: "string option"
  rk_remaining_obligations :: "string list"
  rk_failed_attempts :: nat

definition seed_candidates :: "seed_profile list \<Rightarrow> sem_task \<Rightarrow> effort option \<Rightarrow> ((real \<times> string \<times> nat) \<times> seed_profile) list" where
  "seed_candidates profiles task normalization =
     sort_key fst (map (\<lambda>(i, p). ((semantic_effort p task normalization, sp_seed_id p, i), p)) (List.enumerate 0 profiles))"

definition rank_task ::
  "seed_profile list \<Rightarrow> (string, nat) dict \<Rightarrow> real \<Rightarrow> (string, effort) dict \<Rightarrow> string set \<Rightarrow> sem_task \<Rightarrow> ranked_task" where
  "rank_task profiles failed_attempts rho normalization_by_pou globally_covered task =
     (let normalization = dget normalization_by_pou (tk_pou task);
          candidates = seed_candidates profiles task normalization;
          (minimum_effort, best_seed_id, best_covered) =
            (case candidates of
               [] \<Rightarrow> (case normalization of None \<Rightarrow> 0 | Some n \<Rightarrow> effort_sum n, None, {})
             | c # _ \<Rightarrow> (fst (fst c), Some (fst (snd (fst c))), set (covered_target_ids (snd c))));
          gain = task_gain task globally_covered;
          base_priority = gain / (1 + minimum_effort);
          failures = (case dget failed_attempts (task_id task) of None \<Rightarrow> 0 | Some n \<Rightarrow> n);
          active_path = choose_active_path task best_covered
      in \<lparr>rk_task = task, rk_priority = base_priority * exp (- rho * real failures), rk_base_priority = base_priority,
          rk_gain = gain, rk_best_seed_id = best_seed_id, rk_active_path = active_path,
          rk_guide_target_id = guide_target active_path best_covered,
          rk_remaining_obligations = remaining_path active_path best_covered, rk_failed_attempts = failures\<rparr>)"

definition rank_tasks ::
  "sem_task list \<Rightarrow> seed_profile list \<Rightarrow> (string, nat) dict \<Rightarrow> real \<Rightarrow> (string, effort) dict \<Rightarrow> ranked_task list" where
  "rank_tasks tasks profiles failed_attempts rho normalization_by_pou =
     (let globally_covered = set (concat (map covered_target_ids profiles))
      in sort_key (\<lambda>r. (- rk_priority r, task_id (rk_task r)))
           (map (rank_task profiles failed_attempts rho normalization_by_pou globally_covered) tasks))"

section \<open>Task states\<close>

datatype task_status = Blocked | Ready | Active | Covered | Deferred | Unmapped

record task_runtime =
  tr_task_id :: string
  tr_status :: task_status
  tr_failed_attempts :: nat
  last_coverage_epoch :: nat
  deferred_at_epoch :: "nat option"

definition has_path :: "sem_task \<Rightarrow> bool" where
  "has_path task = (ordered_waypoints task \<noteq> [] \<or> (\<exists>c \<in> set (candidate_paths task). cp_target_ids c \<noteq> []))"

definition refresh_status :: "task_runtime \<Rightarrow> sem_task \<Rightarrow> string set \<Rightarrow> nat \<Rightarrow> string set \<Rightarrow> task_runtime" where
  "refresh_status rt task covered coverage_epoch mapped =
     (let terminal = terminal_target_id task in
      if terminal \<noteq> [] \<and> terminal \<notin> mapped then rt\<lparr>tr_status := Unmapped\<rparr>
      else if terminal \<in> covered then rt\<lparr>tr_status := Covered\<rparr>
      else if \<not> has_path task then rt\<lparr>tr_status := Blocked\<rparr>
      else if tr_status rt = Deferred
      then (if (case deferred_at_epoch rt of None \<Rightarrow> 0 | Some e \<Rightarrow> e) < coverage_epoch
            then rt\<lparr>tr_status := Ready, deferred_at_epoch := None\<rparr> else rt)
      else if tr_status rt = Blocked \<or> tr_status rt = Active then rt\<lparr>tr_status := Ready\<rparr>
      else rt)"

definition refresh_task_runtime :: "task_runtime \<Rightarrow> sem_task \<Rightarrow> string set \<Rightarrow> nat \<Rightarrow> string set \<Rightarrow> task_runtime" where
  "refresh_task_runtime rt task covered coverage_epoch mapped =
     (let rt' = refresh_status rt task covered coverage_epoch mapped
      in rt'\<lparr>last_coverage_epoch := max (last_coverage_epoch rt') coverage_epoch\<rparr>)"

definition defer_task :: "task_runtime \<Rightarrow> nat \<Rightarrow> task_runtime" where
  "defer_task rt coverage_epoch =
     rt\<lparr>tr_failed_attempts := tr_failed_attempts rt + 1, tr_status := Deferred, deferred_at_epoch := Some coverage_epoch\<rparr>"

section \<open>Building the tasks of a POU\<close>

record stg_transfer =
  tf_reads :: "string list"
  tf_writes :: "string list"
  tf_operations :: "stg_operation list"
  tf_modeling :: "string option"

record stg_temporal =
  tm_persistent_symbols :: "string list"
  tm_rule :: json
  tm_modeling :: "string option"

record model_edge = stg_edge +
  me_kind :: "string option"
  me_guard :: "string option"
  me_transfer :: "stg_transfer option"
  me_temporal :: "stg_temporal option"

record stg_hazard =
  hz_kind :: "string option"
  hz_expression_id :: "string option"

record model_node =
  mn_id :: string
  mn_hazard :: "stg_hazard option"

record stg_symbol =
  sy_qualified_name :: string
  sy_name :: "string option"
  sy_role :: "string option"
  sy_type_name :: "string option"
  sy_configuration_source :: json

record stg_pou =
  pu_model_id :: string
  pu_qualified_name :: string
  pu_nodes :: "model_node list"
  pu_edges :: "model_edge list"
  pu_entry_id :: string
  pu_targets :: "stg_target list"
  pu_expressions :: "stg_expression list"
  pu_symbols :: "stg_symbol list"
  pu_target_dependencies :: "(string, string list) dict"
  pu_persistent_symbols :: "string list"
  pu_types :: "(string \<times> json) list"

record planner =
  mapped_target_ids :: "string set"
  runtime_by_stable :: "(string, json) dict"
  path_expansion_budget :: nat

datatype planner_error = BudgetNotPositive | UnsupportedStgSchema | UnsupportedRuntimeSchema

definition new_planner ::
  "string \<Rightarrow> string \<Rightarrow> (string \<times> json) list \<Rightarrow> string list option \<Rightarrow> nat \<Rightarrow> planner_error + planner" where
  "new_planner stg_schema runtime_schema entries mapped budget =
     (if budget < 1 then Inl BudgetNotPositive
      else if \<not> starts_with ''semantist.stg/'' stg_schema then Inl UnsupportedStgSchema
      else if runtime_schema \<noteq> ''semantist.runtime-ids/1.0.0'' then Inl UnsupportedRuntimeSchema
      else let by_stable = dict_of entries in
        Inr \<lparr>mapped_target_ids = (case mapped of Some ids \<Rightarrow> set ids | None \<Rightarrow> fst ` set by_stable),
             runtime_by_stable = by_stable, path_expansion_budget = budget\<rparr>)"

text \<open>\<^verbatim>\<open>_stable_digest\<close>: the first 32 hexadecimal digits of the SHA-256 of the joined parts.\<close>

definition stable_digest :: "string \<Rightarrow> string list \<Rightarrow> string" where
  "stable_digest name parts = name @ '':'' @ take 32 (sha256_hex (join [CHR 0x1F] parts))"

definition pou_graph :: "stg_pou \<Rightarrow> stg_graph" where
  "pou_graph pou = \<lparr>g_nodes = map mn_id (pu_nodes pou), g_edges = map stg_edge.truncate (pu_edges pou)\<rparr>"

definition or_opaque :: "string option \<Rightarrow> string" where
  "or_opaque m = (case m of None \<Rightarrow> ''opaque'' | Some s \<Rightarrow> s)"

definition obligation_target :: "stg_pou \<Rightarrow> model_edge \<Rightarrow> string \<Rightarrow> stg_target option" where
  "obligation_target pou e i =
     (case find (\<lambda>t. i \<in> set (tg_edge_ids t)) (pu_targets pou) of
        Some t \<Rightarrow> Some t
      | None \<Rightarrow> find (\<lambda>t. Some (tg_node_id t) = e_to e) (pu_targets pou))"

definition control_obligation_of ::
  "stg_pou \<Rightarrow> (string, stg_expression) dict \<Rightarrow> (string, model_edge) dict \<Rightarrow> string \<Rightarrow> control_obligation option" where
  "control_obligation_of pou expressions edges i =
     (case dget edges i of
        None \<Rightarrow> None
      | Some e \<Rightarrow>
          if me_kind e \<noteq> Some ''evaluation'' then None
          else map_option (\<lambda>t. \<lparr>ob_target_id = tg_id t, ob_kind = tg_kind t, ob_role = tg_role t, ob_edge_id = i,
                 ob_goal_expression_id = me_guard e, ob_goal_expression = expression_tree expressions [] (me_guard e),
                 ob_modeling = (case Option.bind (me_guard e) (dget expressions) of
                                  None \<Rightarrow> ''opaque'' | Some x \<Rightarrow> or_opaque (xp_modeling x))\<rparr>)
               (obligation_target pou e i))"

definition data_dependency_of :: "(string, stg_symbol) dict \<Rightarrow> string \<Rightarrow> data_dependency" where
  "data_dependency_of symbols s =
     (case dget symbols s of
        None \<Rightarrow> \<lparr>dd_symbol = s, dd_role = None, dd_type_name = None, dd_configuration_source = JNull\<rparr>
      | Some y \<Rightarrow> \<lparr>dd_symbol = s, dd_role = sy_role y, dd_type_name = sy_type_name y,
                   dd_configuration_source = sy_configuration_source y\<rparr>)"

definition transfer_chain_of ::
  "(string, stg_expression) dict \<Rightarrow> (string, model_edge) dict \<Rightarrow> string set \<Rightarrow> string \<Rightarrow> transfer_chain option" where
  "transfer_chain_of expressions edges relevant i =
     (case Option.bind (dget edges i) me_transfer of
        None \<Rightarrow> None
      | Some tf \<Rightarrow>
          if set (tf_writes tf) \<inter> relevant = {} then None
          else Some \<lparr>tc_edge_id = i, tc_reads = sort (tf_reads tf), tc_writes = sort (tf_writes tf),
                 tc_operations = map (transfer_operation_tree expressions) (tf_operations tf),
                 tc_modeling = or_opaque (tf_modeling tf)\<rparr>)"

definition temporal_requirement_of :: "model_edge \<Rightarrow> temporal_requirement" where
  "temporal_requirement_of e =
     (let t = (case me_temporal e of None \<Rightarrow> \<lparr>tm_persistent_symbols = [], tm_rule = JNull, tm_modeling = None\<rparr> | Some t \<Rightarrow> t)
      in \<lparr>tr_edge_id = e_id e, tr_from = e_from e, tr_to = e_to e, tr_persistent_symbols = tm_persistent_symbols t,
          tr_rule = tm_rule t, tr_minimum_cycles = 2, tr_modeling = or_opaque (tm_modeling t)\<rparr>)"

definition prerequisites_of :: "stg_pou \<Rightarrow> stg_target \<Rightarrow> string list" where
  "prerequisites_of pou terminal =
     (if tg_kind terminal = Some ''hazard_violation''
      then case find (\<lambda>t. tg_node_id t = tg_node_id terminal \<and> tg_kind t = Some ''hazard_reach'') (pu_targets pou) of
             None \<Rightarrow> []
           | Some t \<Rightarrow> if tg_id t \<noteq> [] then [tg_id t] else []
      else [])"

definition seed_field_of :: "stg_pou \<Rightarrow> (string, stg_symbol) dict \<Rightarrow> string \<Rightarrow> seed_field option" where
  "seed_field_of pou symbols n =
     (case dget symbols n of
        None \<Rightarrow> None
      | Some y \<Rightarrow>
          if sy_role y \<noteq> Some ''input'' \<and> sy_role y \<noteq> Some ''in_out'' then None
          else Some \<lparr>sf_symbol = n, sf_seed_field = sy_name y, sf_role = sy_role y, sf_type_name = sy_type_name y,
                 sf_configuration_source = sy_configuration_source y,
                 sf_type = map_option snd (find (\<lambda>t. py_lower (fst t) =
                    py_lower (case sy_type_name y of None \<Rightarrow> [] | Some s \<Rightarrow> s)) (pu_types pou))\<rparr>)"

definition active_candidate :: "candidate_path list \<Rightarrow> candidate_path" where
  "active_candidate cands =
     (case cands of
        [] \<Rightarrow> \<lparr>cp_path_id = [], cp_target_ids = [], cp_edge_ids = []\<rparr>
      | c # cs \<Rightarrow> first_min (\<lambda>c. (length (cp_target_ids c), cp_path_id c)) c cs)"

definition build_task ::
  "planner \<Rightarrow> stg_pou \<Rightarrow> stg_target \<Rightarrow> candidate_path list \<Rightarrow> string \<Rightarrow> path_diagnostics option \<Rightarrow> sem_task" where
  "build_task pl pou terminal cands kind search =
     (let nodes = dict_of (map (\<lambda>n. (mn_id n, n)) (pu_nodes pou));
          expressions = dict_of (map (\<lambda>x. (xp_id x, x)) (pu_expressions pou));
          edges = dict_of (map (\<lambda>e. (e_id e, e)) (pu_edges pou));
          symbols = dict_of (map (\<lambda>y. (sy_qualified_name y, y)) (pu_symbols pou));
          path_edge_ids = sorted_set (concat (map cp_edge_ids cands));
          obligations = List.map_filter (control_obligation_of pou expressions edges) path_edge_ids;
          dependencies = (case dget (pu_target_dependencies pou) (tg_id terminal) of
                            None \<Rightarrow> tg_backward_dependencies terminal | Some ds \<Rightarrow> ds);
          persistent = set (pu_persistent_symbols pou);
          chains = List.map_filter (transfer_chain_of expressions edges (set dependencies \<union> persistent)) path_edge_ids;
          temporal = (if persistent \<inter> set dependencies = {} then []
                      else map temporal_requirement_of (filter (\<lambda>e. me_kind e = Some ''temporal'') (pu_edges pou)));
          hazard = Option.bind (dget nodes (tg_node_id terminal)) mn_hazard;
          goal = Option.bind hazard hz_expression_id
      in \<lparr>task_id = stable_digest ''semantic-task'' [pu_model_id pou, kind, tg_id terminal],
          task_kind = kind, tk_pou = pu_qualified_name pou, terminal_target_id = tg_id terminal,
          candidate_paths = cands, tk_path_search = search,
          ordered_waypoints = cp_target_ids (active_candidate cands),
          control_obligations = obligations,
          data_dependencies = map (data_dependency_of symbols) dependencies,
          state_transfer_chains = chains, temporal_requirements = temporal,
          hazard_prerequisites = prerequisites_of pou terminal,
          controllable_seed_fields = List.map_filter (seed_field_of pou symbols) dependencies,
          modeling_status = modeling_max ([or_opaque (tg_modeling terminal)] @ map ob_modeling obligations
             @ map tc_modeling chains @ map tr_modeling temporal),
          initial_state = (if tg_id terminal \<notin> mapped_target_ids pl then ''unmapped''
                           else if cands = [] then ''blocked'' else ''ready''),
          unlocked_targets = sorted_set (filter (\<lambda>t. t \<noteq> tg_id terminal) (concat (map cp_target_ids cands))),
          terminal_runtime_id = (case dget (runtime_by_stable pl) (tg_id terminal) of None \<Rightarrow> JNull | Some r \<Rightarrow> r),
          terminal_kind = tg_kind terminal, terminal_hazard = Option.bind hazard hz_kind,
          terminal_goal_expression_id = goal, terminal_goal_expression = expression_tree expressions [] goal\<rparr>)"

text \<open>The candidate paths of a target: one per enumerated path, numbered in their order.\<close>

definition candidates_of ::
  "stg_pou \<Rightarrow> stg_target \<Rightarrow> (string list \<Rightarrow> string list) \<Rightarrow> path_result list \<Rightarrow> candidate_path list" where
  "candidates_of pou terminal finish paths =
     map (\<lambda>(i, p). \<lparr>cp_path_id = stable_digest ''semantic-path'' ([pu_model_id pou, tg_id terminal, show_nat i] @ pr_edge_ids p),
            cp_target_ids = finish (path_targets (pr_node_ids p) (pr_edge_ids p) (targets_by_node (pu_targets pou)) (tg_id terminal)),
            cp_edge_ids = pr_edge_ids p\<rparr>) (List.enumerate 0 paths)"

definition violation_task :: "planner \<Rightarrow> stg_pou \<Rightarrow> stg_target \<Rightarrow> path_error + sem_task" where
  "violation_task pl pou terminal =
     map_sum id (\<lambda>(paths, d). build_task pl pou terminal
         (candidates_of pou terminal (insert_reach terminal (targets_by_node (pu_targets pou))) paths) ''violation'' (Some d))
       (bounded_paths (pou_graph pou) (pu_entry_id pou) (tg_node_id terminal) 8 None (path_expansion_budget pl))"

definition exploration_task :: "planner \<Rightarrow> stg_pou \<Rightarrow> stg_target \<Rightarrow> path_error + sem_task" where
  "exploration_task pl pou terminal =
     map_sum id (\<lambda>(paths, d). build_task pl pou terminal (candidates_of pou terminal id paths) ''exploration'' (Some d))
       (bounded_paths (pou_graph pou) (pu_entry_id pou) (tg_node_id terminal) 4 None (path_expansion_budget pl))"

definition paired_unmapped_violation :: "planner \<Rightarrow> stg_pou \<Rightarrow> stg_target \<Rightarrow> bool" where
  "paired_unmapped_violation pl pou t =
     (tg_kind t = Some ''hazard_reach'' \<and> (\<exists>c \<in> set (pu_targets pou).
        tg_node_id c = tg_node_id t \<and> tg_kind c = Some ''hazard_violation'' \<and> tg_id c \<notin> mapped_target_ids pl))"

definition needs_exploration :: "planner \<Rightarrow> stg_pou \<Rightarrow> string set \<Rightarrow> stg_target \<Rightarrow> bool" where
  "needs_exploration pl pou claimed t =
     (kind_in GUIDE_KINDS t \<and> \<not> (tg_id t \<in> claimed \<and> \<not> paired_unmapped_violation pl pou t))"

definition claimed_waypoints :: "sem_task list \<Rightarrow> string set" where
  "claimed_waypoints tasks = set (concat (map (\<lambda>t. concat (map cp_target_ids (candidate_paths t))) tasks))"

definition build_pou :: "planner \<Rightarrow> stg_pou \<Rightarrow> path_error + sem_task list \<times> string list list" where
  "build_pou pl pou =
     (case strongly_connected_components (map mn_id (pu_nodes pou)) (map stg_edge.truncate (pu_edges pou)) of
        None \<Rightarrow> Inl MissingKey
      | Some comps \<Rightarrow>
          bindE (mapE (violation_task pl pou) (filter (kind_in TERMINAL_KINDS) (pu_targets pou))) (\<lambda>violations.
          bindE (mapE (exploration_task pl pou)
                   (filter (needs_exploration pl pou (claimed_waypoints violations)) (pu_targets pou))) (\<lambda>explorations.
          Inr (violations @ explorations, comps))))"

section \<open>Normalization and the plan\<close>

definition task_dimensions :: "sem_task \<Rightarrow> effort" where
  "task_dimensions task =
     \<lparr>ec = real (length (control_obligations task)), ed = real (length (data_dependencies task)),
      es = real (length (state_transfer_chains task)), et = real_of_int (required_temporal task),
      eh = real (length (hazard_prerequisites task) + (if task_kind task = ''violation'' then 1 else 0))\<rparr>"

definition effort_max :: "effort \<Rightarrow> effort \<Rightarrow> effort" where
  "effort_max a b = \<lparr>ec = max (max (ec a) (ec b)) 1, ed = max (max (ed a) (ed b)) 1, es = max (max (es a) (es b)) 1,
     et = max (max (et a) (et b)) 1, eh = max (max (eh a) (eh b)) 1\<rparr>"

definition unit_effort :: effort where
  "unit_effort = \<lparr>ec = 1, ed = 1, es = 1, et = 1, eh = 1\<rparr>"

definition normalize_step :: "(string, effort) dict \<Rightarrow> sem_task \<Rightarrow> (string, effort) dict" where
  "normalize_step norms task =
     dset (tk_pou task) (effort_max (case dget norms (tk_pou task) of None \<Rightarrow> unit_effort | Some e \<Rightarrow> e)
       (task_dimensions task)) norms"

definition normalization :: "sem_task list \<Rightarrow> (string, effort) dict" where
  "normalization tasks = foldl normalize_step [] tasks"

record semantic_plan =
  plan_tasks :: "sem_task list"
  plan_normalization :: "(string, effort) dict"
  plan_sccs :: "(string, string list list) dict"

definition build_plan :: "planner \<Rightarrow> stg_pou list \<Rightarrow> path_error + semantic_plan" where
  "build_plan pl pous =
     bindE (mapE (\<lambda>p. map_sum id (\<lambda>r. (pu_qualified_name p, r)) (build_pou pl p)) pous) (\<lambda>built.
     let tasks = sort_key task_id (concat (map (\<lambda>b. fst (snd b)) built)) in
     Inr \<lparr>plan_tasks = tasks, plan_normalization = normalization tasks,
          plan_sccs = dict_of (map (\<lambda>b. (fst b, snd (snd b))) built)\<rparr>)"

end
