(* ===== verification/Task_Plans.thy ===== *)
theory Task_Plans
  imports Task_Planning "HOL-Library.Multiset"
begin

text \<open>
  What the planner's tasks promise: every path of a task ends in its terminal target and is made of
  guide targets, every terminal and every guide target of a POU is planned for, the effort of a
  planned task is normalized into the unit interval, a task whose terminal is uncovered always has a
  next guide target, and the states of a task follow coverage.
\<close>

section \<open>Paths end in their terminal\<close>

lemma dedupe_from_props:
  "set (dedupe_from seen xs) = set xs - set seen \<and> distinct (dedupe_from seen xs)"
  by (induction seen xs rule: dedupe_from.induct) auto

lemma dedupe_from_snoc:
  "x \<notin> set xs \<Longrightarrow> x \<notin> set seen \<Longrightarrow> dedupe_from seen (xs @ [x]) = dedupe_from seen xs @ [x]"
  by (induction seen xs rule: dedupe_from.induct) auto

lemma set_dedupe: "set (dedupe xs) = set xs - {[]}"
  by (auto simp: dedupe_def dedupe_from_props)

lemma distinct_dedupe: "distinct (dedupe xs)"
  by (simp add: dedupe_def dedupe_from_props)

text \<open>A terminal that ends the list and occurs before as well is kept at its first place only; the
  targets of different nodes have different ids, so this does not happen on a path.\<close>

definition path_target_ids :: "string list \<Rightarrow> string list \<Rightarrow> (string \<Rightarrow> stg_target list) \<Rightarrow> string \<Rightarrow> string list" where
  "path_target_ids nodes path_edges by_node terminal_id =
     concat (map (\<lambda>n. map tg_id (filter (on_path path_edges terminal_id) (by_node n))) nodes)"

lemma set_path_targets:
  "set (path_targets nodes path_edges by_node terminal_id)
     = (set (path_target_ids nodes path_edges by_node terminal_id) \<union> {terminal_id}) - {[]}"
proof -
  define ids where "ids = path_target_ids nodes path_edges by_node terminal_id"
  have "path_targets nodes path_edges by_node terminal_id = dedupe
        (if terminal_id \<notin> set ids then ids @ [terminal_id]
         else if last ids \<noteq> terminal_id then filter (\<lambda>t. t \<noteq> terminal_id) ids @ [terminal_id] else ids)"
    by (simp add: path_targets_def path_target_ids_def ids_def Let_def)
  then show ?thesis by (auto simp: set_dedupe ids_def)
qed

lemma last_path_targets:
  assumes "terminal_id \<noteq> []" "distinct (path_target_ids nodes path_edges by_node terminal_id)"
  shows "last (path_targets nodes path_edges by_node terminal_id) = terminal_id
     \<and> path_targets nodes path_edges by_node terminal_id \<noteq> []"
proof -
  define ids where "ids = path_target_ids nodes path_edges by_node terminal_id"
  define l where "l = (if terminal_id \<notin> set ids then ids @ [terminal_id]
         else if last ids \<noteq> terminal_id then filter (\<lambda>t. t \<noteq> terminal_id) ids @ [terminal_id] else ids)"
  have p: "path_targets nodes path_edges by_node terminal_id = dedupe l"
    by (simp add: path_targets_def path_target_ids_def ids_def l_def Let_def)
  have "\<exists>xs. l = xs @ [terminal_id] \<and> terminal_id \<notin> set xs"
  proof (cases "terminal_id \<in> set ids \<and> last ids = terminal_id")
    case True
    then have "ids = butlast ids @ [terminal_id]" by (metis append_butlast_last_id list.distinct(1) list.set_cases)
    moreover from this have "terminal_id \<notin> set (butlast ids)"
      using assms(2) unfolding ids_def by (metis distinct_append not_distinct_conv_prefix)
    ultimately show ?thesis using True by (auto simp: l_def)
  qed (auto simp: l_def)
  then obtain xs where "l = xs @ [terminal_id]" "terminal_id \<notin> set xs" by blast
  then have "dedupe l = dedupe xs @ [terminal_id]"
    using assms(1) by (simp add: dedupe_def dedupe_from_snoc)
  then show ?thesis using p by simp
qed

lemma distinct_path_target_ids:
  assumes "distinct nodes" "distinct (map tg_id targets)"
  shows "distinct (path_target_ids nodes path_edges (targets_by_node targets) terminal_id)"
proof -
  have inj: "inj_on tg_id (set targets)" "distinct targets" using assms(2) by (auto simp: distinct_map)
  have one: "distinct (map tg_id (filter (on_path path_edges terminal_id) (targets_by_node targets n)))" for n
    using inj by (auto simp: distinct_map targets_by_node_def intro: inj_on_subset)
  have disj: "set (map tg_id (filter P (targets_by_node targets n))) \<inter> set (map tg_id (filter P (targets_by_node targets m))) = {}"
    if "n \<noteq> m" for n m P
    using that inj(1) by (auto simp: targets_by_node_def dest: inj_onD)
  show ?thesis
    using assms(1)
  proof (induction nodes)
    case (Cons n nodes)
    then show ?case using one [of n] disj [of n] unfolding path_target_ids_def by fastforce
  qed (simp add: path_target_ids_def)
qed

lemma insert_reach_props:
  assumes "ids \<noteq> []" "distinct ids"
  shows "insert_reach terminal by_node ids \<noteq> []" "last (insert_reach terminal by_node ids) = last ids"
    "distinct (insert_reach terminal by_node ids)" "set ids \<subseteq> set (insert_reach terminal by_node ids)"
proof -
  obtain xs x where ids: "ids = xs @ [x]" using assms(1) by (metis append_butlast_last_id)
  show "insert_reach terminal by_node ids \<noteq> []" "last (insert_reach terminal by_node ids) = last ids"
    "distinct (insert_reach terminal by_node ids)" "set ids \<subseteq> set (insert_reach terminal by_node ids)"
    using assms(2) by (auto simp: insert_reach_def ids split: option.splits)
qed

section \<open>Every target is planned for\<close>

definition pou_ok :: "stg_pou \<Rightarrow> bool" where
  "pou_ok pou = (distinct (map tg_id (pu_targets pou)) \<and> (\<forall>t \<in> set (pu_targets pou). tg_id t \<noteq> []))"

lemma bounded_paths_total:
  assumes "0 < mp" "0 < me"
  shows "\<exists>rs d. bounded_paths graph start destination mp None me = Inr (rs, d)
     \<and> (\<forall>r \<in> set rs. simple_path (string_edges (g_edges graph)) start destination (pr_node_ids r) (pr_edge_ids r))"
proof (cases "start \<in> set (g_nodes graph) \<and> destination \<in> set (g_nodes graph)")
  case True
  then obtain s limit cof where
    "bounded_paths graph start destination mp None me = Inr (ps_results s, report_search mp limit me s)"
    "search_ok (string_edges (g_edges graph)) start destination cof mp me s"
    using bounded_paths_run [of start graph destination mp me None] assms by blast
  then show ?thesis by (auto simp: search_ok_def)
next
  case False
  then show ?thesis using assms by (auto simp: bounded_paths_def Let_def)
qed

text \<open>The shape of a task's paths.\<close>

definition paths_end_in_terminal :: "sem_task \<Rightarrow> bool" where
  "paths_end_in_terminal task = (\<forall>c \<in> set (candidate_paths task).
     cp_target_ids c \<noteq> [] \<and> distinct (cp_target_ids c) \<and> last (cp_target_ids c) = terminal_target_id task)"

lemma build_task_fields [simp]:
  "candidate_paths (build_task pl pou t cands kind d) = cands" "terminal_target_id (build_task pl pou t cands kind d) = tg_id t"
  "task_kind (build_task pl pou t cands kind d) = kind" "tk_pou (build_task pl pou t cands kind d) = pu_qualified_name pou"
  "hazard_prerequisites (build_task pl pou t cands kind d) = prerequisites_of pou t"
  "ordered_waypoints (build_task pl pou t cands kind d) = cp_target_ids (active_candidate cands)"
  by (simp_all add: build_task_def Let_def)

lemma candidates_shape:
  assumes "pou_ok pou" "t \<in> set (pu_targets pou)"
    "\<forall>r \<in> set rs. simple_path edges start (tg_node_id t) (pr_node_ids r) (pr_edge_ids r)"
    "\<And>ids. ids \<noteq> [] \<Longrightarrow> distinct ids \<Longrightarrow> finish ids \<noteq> [] \<and> distinct (finish ids) \<and> last (finish ids) = last ids"
  shows "paths_end_in_terminal (build_task pl pou t (candidates_of pou t finish rs) kind d)"
  unfolding paths_end_in_terminal_def
proof
  fix c assume c: "c \<in> set (candidate_paths (build_task pl pou t (candidates_of pou t finish rs) kind d))"
  obtain r where r: "r \<in> set rs" "cp_target_ids c =
      finish (path_targets (pr_node_ids r) (pr_edge_ids r) (targets_by_node (pu_targets pou)) (tg_id t))"
  proof -
    from c obtain i where "i < length rs" "cp_target_ids c =
        finish (path_targets (pr_node_ids (rs ! i)) (pr_edge_ids (rs ! i)) (targets_by_node (pu_targets pou)) (tg_id t))"
      by (auto simp: candidates_of_def in_set_enumerate_eq)
    then show ?thesis using that [of "rs ! i"] by simp
  qed
  have "distinct (pr_node_ids r)" using assms(3) r(1) by (auto simp: simple_path_def)
  then have "distinct (path_target_ids (pr_node_ids r) (pr_edge_ids r) (targets_by_node (pu_targets pou)) (tg_id t))"
    using assms(1) by (intro distinct_path_target_ids) (auto simp: pou_ok_def)
  moreover have "tg_id t \<noteq> []" using assms(1,2) by (simp add: pou_ok_def)
  moreover have "distinct (path_targets (pr_node_ids r) (pr_edge_ids r) (targets_by_node (pu_targets pou)) (tg_id t))"
    by (simp add: path_targets_def Let_def distinct_dedupe)
  ultimately show "cp_target_ids c \<noteq> [] \<and> distinct (cp_target_ids c)
      \<and> last (cp_target_ids c) = terminal_target_id (build_task pl pou t (candidates_of pou t finish rs) kind d)"
    using last_path_targets assms(4) unfolding r(2) build_task_fields by metis
qed

definition planned_task :: "stg_pou \<Rightarrow> string \<Rightarrow> stg_target \<Rightarrow> sem_task \<Rightarrow> bool" where
  "planned_task pou kind t task = (terminal_target_id task = tg_id t \<and> task_kind task = kind \<and> tk_pou task = pu_qualified_name pou
     \<and> hazard_prerequisites task = prerequisites_of pou t \<and> (pou_ok pou \<and> t \<in> set (pu_targets pou) \<longrightarrow> paths_end_in_terminal task))"

lemma violation_task_ok:
  assumes "0 < path_expansion_budget pl"
  shows "\<exists>task. violation_task pl pou t = Inr task \<and> planned_task pou ''violation'' t task"
proof -
  obtain rs d where b: "bounded_paths (pou_graph pou) (pu_entry_id pou) (tg_node_id t) 8 None (path_expansion_budget pl) = Inr (rs, d)"
    "\<forall>r \<in> set rs. simple_path (string_edges (g_edges (pou_graph pou))) (pu_entry_id pou) (tg_node_id t) (pr_node_ids r) (pr_edge_ids r)"
    using bounded_paths_total [of 8 "path_expansion_budget pl"] assms by fastforce
  show ?thesis
    using candidates_shape [OF _ _ b(2), where finish = "insert_reach t (targets_by_node (pu_targets pou))"] insert_reach_props
    by (auto simp: violation_task_def b(1) planned_task_def)
qed

lemma exploration_task_ok:
  assumes "0 < path_expansion_budget pl"
  shows "\<exists>task. exploration_task pl pou t = Inr task \<and> planned_task pou ''exploration'' t task"
proof -
  obtain rs d where b: "bounded_paths (pou_graph pou) (pu_entry_id pou) (tg_node_id t) 4 None (path_expansion_budget pl) = Inr (rs, d)"
    "\<forall>r \<in> set rs. simple_path (string_edges (g_edges (pou_graph pou))) (pu_entry_id pou) (tg_node_id t) (pr_node_ids r) (pr_edge_ids r)"
    using bounded_paths_total [of 4 "path_expansion_budget pl"] assms by fastforce
  show ?thesis
    using candidates_shape [OF _ _ b(2), where finish = id]
    by (auto simp: exploration_task_def b(1) planned_task_def)
qed

lemma build_pou_tasks:
  assumes "0 < path_expansion_budget pl"
  obtains vs xs comps where "build_pou pl pou = Inr (vs @ xs, comps)"
    "list_all2 (planned_task pou ''violation'') (filter (kind_in TERMINAL_KINDS) (pu_targets pou)) vs"
    "list_all2 (planned_task pou ''exploration'') (filter (needs_exploration pl pou (claimed_waypoints vs)) (pu_targets pou)) xs"
proof -
  obtain comps where c: "strongly_connected_components (map mn_id (pu_nodes pou)) (map stg_edge.truncate (pu_edges pou)) = Some comps"
    using components_are_classes by blast
  obtain vs where v: "mapE (violation_task pl pou) (filter (kind_in TERMINAL_KINDS) (pu_targets pou)) = Inr vs"
      "list_all2 (planned_task pou ''violation'') (filter (kind_in TERMINAL_KINDS) (pu_targets pou)) vs"
    using mapE_all2 [of _ "violation_task pl pou"] violation_task_ok [OF assms] by metis
  obtain xs where x: "mapE (exploration_task pl pou) (filter (needs_exploration pl pou (claimed_waypoints vs)) (pu_targets pou)) = Inr xs"
      "list_all2 (planned_task pou ''exploration'') (filter (needs_exploration pl pou (claimed_waypoints vs)) (pu_targets pou)) xs"
    using mapE_all2 [of _ "exploration_task pl pou"] exploration_task_ok [OF assms] by metis
  have "build_pou pl pou = Inr (vs @ xs, comps)" by (simp add: build_pou_def c v(1) x(1))
  then show ?thesis using that v(2) x(2) by blast
qed

lemma list_all2_left: "list_all2 P xs ys \<Longrightarrow> x \<in> set xs \<Longrightarrow> \<exists>y \<in> set ys. P x y"
  by (metis in_set_conv_nth list_all2_conv_all_nth)

lemma list_all2_right: "list_all2 P xs ys \<Longrightarrow> y \<in> set ys \<Longrightarrow> \<exists>x \<in> set xs. P x y"
  by (metis in_set_conv_nth list_all2_conv_all_nth)

text \<open>
  (C21) The tasks of a POU are complete and well formed. With a positive budget and target ids that
  are non-empty and distinct, building always succeeds; every violation target has a violation task;
  every guide target is a waypoint of some violation task or the terminal of an exploration task; and
  every candidate path of every task is a list of distinct targets that ends in the task's terminal.
\<close>

theorem pou_tasks_complete:
  assumes "0 < path_expansion_budget pl" "pou_ok pou"
  shows "\<exists>tasks comps. build_pou pl pou = Inr (tasks, comps)
     \<and> (\<forall>t \<in> set (pu_targets pou). kind_in TERMINAL_KINDS t \<longrightarrow>
          (\<exists>k \<in> set tasks. task_kind k = ''violation'' \<and> terminal_target_id k = tg_id t))
     \<and> (\<forall>t \<in> set (pu_targets pou). kind_in GUIDE_KINDS t \<longrightarrow>
          (\<exists>k \<in> set tasks. task_kind k = ''exploration'' \<and> terminal_target_id k = tg_id t)
          \<or> (\<exists>k \<in> set tasks. \<exists>c \<in> set (candidate_paths k). tg_id t \<in> set (cp_target_ids c)))
     \<and> (\<forall>k \<in> set tasks. paths_end_in_terminal k)"
proof -
  obtain vs xs comps where b: "build_pou pl pou = Inr (vs @ xs, comps)"
    "list_all2 (planned_task pou ''violation'') (filter (kind_in TERMINAL_KINDS) (pu_targets pou)) vs"
    "list_all2 (planned_task pou ''exploration'') (filter (needs_exploration pl pou (claimed_waypoints vs)) (pu_targets pou)) xs"
    using build_pou_tasks [OF assms(1)] by blast
  have viol: "\<exists>k \<in> set (vs @ xs). task_kind k = ''violation'' \<and> terminal_target_id k = tg_id t"
    if "t \<in> set (pu_targets pou)" "kind_in TERMINAL_KINDS t" for t
    using list_all2_left [OF b(2), of t] that by (auto simp: planned_task_def)
  have guide: "(\<exists>k \<in> set (vs @ xs). task_kind k = ''exploration'' \<and> terminal_target_id k = tg_id t)
      \<or> (\<exists>k \<in> set (vs @ xs). \<exists>c \<in> set (candidate_paths k). tg_id t \<in> set (cp_target_ids c))"
    if "t \<in> set (pu_targets pou)" "kind_in GUIDE_KINDS t" for t
  proof (cases "tg_id t \<in> claimed_waypoints vs")
    case True
    then show ?thesis by (auto simp: claimed_waypoints_def)
  next
    case False
    then show ?thesis using list_all2_left [OF b(3), of t] that by (auto simp: needs_exploration_def planned_task_def)
  qed
  have "paths_end_in_terminal k" if "k \<in> set (vs @ xs)" for k
    using that list_all2_right [OF b(2), of k] list_all2_right [OF b(3), of k] assms(2)
    by (auto simp: planned_task_def)
  then show ?thesis using b(1) viol guide by blast
qed

text \<open>A division guarded by one branch: the reach and violation targets of its node and the branch
  outcomes.\<close>

definition demo_target :: "string \<Rightarrow> string \<Rightarrow> string \<Rightarrow> string list \<Rightarrow> stg_target" where
  "demo_target i kind node links = \<lparr>tg_id = i, tg_kind = Some kind, tg_node_id = node, tg_edge_ids = links, tg_role = None,
     tg_modeling = Some ''exact'', tg_backward_dependencies = []\<rparr>"

definition demo_edge :: "string \<Rightarrow> string \<Rightarrow> string \<Rightarrow> model_edge" where
  "demo_edge i u v = \<lparr>e_id = i, e_from = Some u, e_to = Some v, me_kind = Some ''evaluation'', me_guard = None,
     me_transfer = None, me_temporal = None\<rparr>"

definition demo_pou :: stg_pou where
  "demo_pou = \<lparr>pu_model_id = ''m'', pu_qualified_name = ''P'',
     pu_nodes = [\<lparr>mn_id = ''n0'', mn_hazard = None\<rparr>, \<lparr>mn_id = ''n1'', mn_hazard = None\<rparr>, \<lparr>mn_id = ''n2'', mn_hazard = None\<rparr>],
     pu_edges = [demo_edge ''e1'' ''n0'' ''n1'', demo_edge ''e2'' ''n0'' ''n2''], pu_entry_id = ''n0'',
     pu_targets = [demo_target ''T1'' ''branch_outcome'' ''n0'' [''e1''], demo_target ''T2'' ''branch_outcome'' ''n0'' [''e2''],
       demo_target ''R'' ''hazard_reach'' ''n1'' [], demo_target ''V'' ''hazard_violation'' ''n1'' []],
     pu_expressions = [], pu_symbols = [], pu_target_dependencies = [], pu_persistent_symbols = [], pu_types = []\<rparr>"

definition demo_planner :: planner where
  "demo_planner = \<lparr>mapped_target_ids = {''T1'', ''T2'', ''R'', ''V''}, runtime_by_stable = [], path_expansion_budget = 4096\<rparr>"

theorem pou_tasks_complete_witness:
  "\<exists>tasks comps. build_pou demo_planner demo_pou = Inr (tasks, comps) \<and> (\<forall>k \<in> set tasks. paths_end_in_terminal k)
     \<and> (\<exists>k \<in> set tasks. task_kind k = ''violation'' \<and> terminal_target_id k = ''V'')"
proof -
  have ok: "0 < path_expansion_budget demo_planner" "pou_ok demo_pou"
    by (simp_all add: demo_planner_def pou_ok_def demo_pou_def demo_target_def)
  have v: "demo_target ''V'' ''hazard_violation'' ''n1'' [] \<in> set (pu_targets demo_pou)"
      "kind_in TERMINAL_KINDS (demo_target ''V'' ''hazard_violation'' ''n1'' [])"
      "tg_id (demo_target ''V'' ''hazard_violation'' ''n1'' []) = ''V''"
    by (simp_all add: demo_pou_def kind_in_def demo_target_def TERMINAL_KINDS_def)
  from pou_tasks_complete [OF ok] v show ?thesis by metis
qed

section \<open>A task always has a next guide target\<close>

lemma first_min_props:
  "first_min key x xs \<in> set (x # xs) \<and> (\<forall>y \<in> set (x # xs). key (first_min key x xs) \<le> key y)"
proof (induction xs arbitrary: x)
  case (Cons y ys)
  show ?case using Cons.IH [of "if key y < key x then y else x"] by (auto split: if_splits intro: order_trans)
qed simp

lemma find_takeWhile:
  "find P xs = (case dropWhile (\<lambda>x. \<not> P x) xs of [] \<Rightarrow> None | x # _ \<Rightarrow> Some x)"
  by (induction xs) auto

text \<open>The remaining path is the suffix from the first uncovered target on.\<close>

lemma remaining_path_dropWhile:
  "remaining_path path covered = dropWhile (\<lambda>t. t \<in> covered) path"
proof -
  have "dropWhile (\<lambda>t. t \<noteq> x) path = dropWhile (\<lambda>t. t \<in> covered) path"
    if "dropWhile (\<lambda>t. t \<in> covered) path = x # xs" for x xs
  proof -
    have "x \<notin> covered" using hd_dropWhile [of "\<lambda>t. t \<in> covered" path] that by auto
    then show ?thesis using that by (induction path) (auto split: if_splits)
  qed
  then show ?thesis
    unfolding remaining_path_def guide_target_def find_takeWhile not_not
    by (cases "dropWhile (\<lambda>t. t \<in> covered) path") (simp_all del: dropWhile_eq_Nil_conv)
qed

definition task_paths :: "sem_task \<Rightarrow> string list list" where
  "task_paths task = (let listed = filter (\<lambda>p. p \<noteq> []) (map cp_target_ids (candidate_paths task))
     in if listed = [] then [ordered_waypoints task] else listed)"

lemma choose_active_path_props:
  "choose_active_path task covered \<in> set (task_paths task)
   \<and> (\<forall>p \<in> set (task_paths task). length (remaining_path (choose_active_path task covered) covered) \<le> length (remaining_path p covered))"
proof -
  obtain p ps where ps: "task_paths task = p # ps" by (cases "task_paths task") (auto simp: task_paths_def Let_def split: if_splits)
  have "choose_active_path task covered = first_min (path_key covered) p ps"
    using ps by (simp add: choose_active_path_def task_paths_def Let_def split: if_splits)
  then have "choose_active_path task covered \<in> set (p # ps)"
      "\<forall>y \<in> set (p # ps). path_key covered (choose_active_path task covered) \<le> path_key covered y"
    using first_min_props [of "path_key covered" p ps] by auto
  then show ?thesis unfolding ps by (auto simp: path_key_def less_eq_prod_def)
qed

text \<open>
  Guidance never dries up. For a task whose paths end in its terminal (as every built task's do)
  and which has a path, the active path is one of its paths with the least remaining work; while the
  terminal is uncovered there is a guide target, it is the first uncovered target of that path, and
  what remains ends in the terminal.
\<close>

theorem active_path_guides:
  assumes "paths_end_in_terminal task" "candidate_paths task \<noteq> []" "terminal_target_id task \<notin> covered"
  shows "\<exists>g rest. guide_target (choose_active_path task covered) covered = Some g \<and> g \<notin> covered
     \<and> remaining_path (choose_active_path task covered) covered = g # rest
     \<and> last (g # rest) = terminal_target_id task
     \<and> (\<exists>done. choose_active_path task covered = done @ g # rest \<and> set done \<subseteq> covered)
     \<and> (\<forall>c \<in> set (candidate_paths task).
          length (remaining_path (choose_active_path task covered) covered) \<le> length (remaining_path (cp_target_ids c) covered))"
proof -
  let ?p = "choose_active_path task covered"
  have all: "cp_target_ids c \<noteq> [] \<and> last (cp_target_ids c) = terminal_target_id task" if "c \<in> set (candidate_paths task)" for c
    using that assms(1) by (simp add: paths_end_in_terminal_def)
  have paths: "task_paths task = map cp_target_ids (candidate_paths task)"
    using all assms(2) by (auto simp: task_paths_def Let_def filter_id_conv filter_empty_conv)
  have p: "?p \<noteq> []" "last ?p = terminal_target_id task"
  proof -
    obtain c where "c \<in> set (candidate_paths task)" "?p = cp_target_ids c"
      using choose_active_path_props [of task covered] unfolding paths by auto
    then show "?p \<noteq> []" "last ?p = terminal_target_id task" using all by auto
  qed
  have ex: "\<exists>x \<in> set ?p. x \<notin> covered" using p assms(3) by (metis last_in_set)
  then obtain g rest where d: "dropWhile (\<lambda>t. t \<in> covered) ?p = g # rest"
    by (cases "dropWhile (\<lambda>t. t \<in> covered) ?p") (auto simp: dropWhile_eq_Nil_conv)
  have split: "?p = takeWhile (\<lambda>t. t \<in> covered) ?p @ g # rest" using takeWhile_dropWhile_id [of "\<lambda>t. t \<in> covered" ?p] d by simp
  have "g \<notin> covered" using hd_dropWhile [of "\<lambda>t. t \<in> covered" ?p] d by auto
  moreover have "guide_target ?p covered = Some g" by (simp add: guide_target_def find_takeWhile d)
  moreover have "last (g # rest) = terminal_target_id task" using p(2) split by (metis last_appendR list.distinct(1))
  moreover have "set (takeWhile (\<lambda>t. t \<in> covered) ?p) \<subseteq> covered" by (auto dest: set_takeWhileD)
  ultimately show ?thesis
    using d split choose_active_path_props [of task covered] unfolding remaining_path_dropWhile paths by auto
qed

definition demo_paths :: "candidate_path list" where
  "demo_paths = [\<lparr>cp_path_id = ''p'', cp_target_ids = [''T1'', ''R'', ''V''], cp_edge_ids = [''e1'']\<rparr>,
     \<lparr>cp_path_id = ''q'', cp_target_ids = [''T2'', ''V''], cp_edge_ids = [''e2'']\<rparr>]"

theorem active_path_guides_witness:
  "\<exists>g rest. guide_target (choose_active_path (build_task demo_planner demo_pou (demo_target ''V'' ''hazard_violation'' ''n1'' []) demo_paths ''violation'' None) {''T1'', ''R''}) {''T1'', ''R''} = Some g
     \<and> g \<notin> {''T1'', ''R''} \<and> last (g # rest) = ''V''"
proof -
  let ?t = "build_task demo_planner demo_pou (demo_target ''V'' ''hazard_violation'' ''n1'' []) demo_paths ''violation'' None"
  have "paths_end_in_terminal ?t" "candidate_paths ?t \<noteq> []" "terminal_target_id ?t \<notin> {''T1'', ''R''}" "terminal_target_id ?t = ''V''"
    by (simp_all add: paths_end_in_terminal_def demo_paths_def demo_target_def)
  from active_path_guides [OF this(1-3)] this(4) show ?thesis by metis
qed

section \<open>Normalized effort\<close>

lemma guide_not_terminal: "kind_in GUIDE_KINDS t \<Longrightarrow> prerequisites_of pou t = []"
  by (auto simp: kind_in_def GUIDE_KINDS_def prerequisites_of_def split: option.splits)

text \<open>Only violation tasks have prerequisites.\<close>

definition task_wf :: "sem_task \<Rightarrow> bool" where
  "task_wf task = (task_kind task = ''violation'' \<or> hazard_prerequisites task = [])"

lemma build_pou_wf:
  assumes "build_pou pl pou = Inr (tasks, comps)" "0 < path_expansion_budget pl" "task \<in> set tasks"
  shows "task_wf task"
proof -
  obtain vs xs comps' where b: "build_pou pl pou = Inr (vs @ xs, comps')"
    "list_all2 (planned_task pou ''violation'') (filter (kind_in TERMINAL_KINDS) (pu_targets pou)) vs"
    "list_all2 (planned_task pou ''exploration'') (filter (needs_exploration pl pou (claimed_waypoints vs)) (pu_targets pou)) xs"
    using build_pou_tasks [OF assms(2)] by blast
  then have "task \<in> set vs \<or> task \<in> set xs" using assms(1,3) by auto
  then show ?thesis
    using list_all2_right [OF b(2), of task] list_all2_right [OF b(3), of task]
    by (auto simp: task_wf_def planned_task_def needs_exploration_def guide_not_terminal)
qed

definition effort_le :: "effort \<Rightarrow> effort \<Rightarrow> bool" where
  "effort_le a b = (ec a \<le> ec b \<and> ed a \<le> ed b \<and> es a \<le> es b \<and> et a \<le> et b \<and> eh a \<le> eh b)"

definition effort_nonneg :: "effort \<Rightarrow> bool" where
  "effort_nonneg a = (0 \<le> ec a \<and> 0 \<le> ed a \<and> 0 \<le> es a \<and> 0 \<le> et a \<and> 0 \<le> eh a)"

lemma effort_le_trans: "effort_le a b \<Longrightarrow> effort_le b c \<Longrightarrow> effort_le a c"
  by (auto simp: effort_le_def)

lemma effort_max_le: "effort_le a (effort_max a b)" "effort_le b (effort_max a b)" "effort_le unit_effort (effort_max a b)"
  by (auto simp: effort_le_def effort_max_def unit_effort_def)

lemma normalize_fold:
  "\<exists>e. dget (foldl normalize_step norms (tasks @ [t])) (tk_pou t) = Some e \<and> effort_le (task_dimensions t) e \<and> effort_le unit_effort e"
  by (auto simp: normalize_step_def dict_simps effort_max_le)

lemma normalize_grows:
  assumes "dget norms p = Some e"
  shows "\<exists>e'. dget (foldl normalize_step norms tasks) p = Some e' \<and> effort_le e e'"
  using assms
proof (induction tasks arbitrary: norms e)
  case Nil
  then show ?case by (auto simp: effort_le_def)
next
  case (Cons t tasks)
  obtain e1 where e1: "dget (normalize_step norms t) p = Some e1" "effort_le e e1"
    using Cons.prems effort_max_le(1) by (cases "p = tk_pou t") (auto simp: normalize_step_def dict_simps effort_le_def)
  then show ?case using Cons.IH [OF e1(1)] effort_le_trans by auto
qed

lemma normalization_bounds:
  assumes "t \<in> set tasks"
  shows "\<exists>e. dget (normalization tasks) (tk_pou t) = Some e \<and> effort_le (task_dimensions t) e \<and> effort_le unit_effort e"
proof -
  obtain as bs where "tasks = (as @ [t]) @ bs" using assms by (auto simp: in_set_conv_decomp)
  moreover obtain e where e: "dget (foldl normalize_step [] (as @ [t])) (tk_pou t) = Some e"
      "effort_le (task_dimensions t) e" "effort_le unit_effort e"
    using normalize_fold by blast
  moreover obtain e' where "dget (foldl normalize_step (foldl normalize_step [] (as @ [t])) bs) (tk_pou t) = Some e'" "effort_le e e'"
    using normalize_grows [OF e(1)] by blast
  ultimately show ?thesis
    using effort_le_trans [OF e(2)] effort_le_trans [OF e(3)] by (auto simp: normalization_def)
qed

lemma required_temporal_nonneg: "0 \<le> required_temporal task"
proof -
  have "0 \<le> foldr max xs (0 :: int)" for xs by (induction xs) auto
  then show ?thesis by (simp add: required_temporal_def)
qed

lemma card_non_empty_set: "card (non_empty_set xs) \<le> length xs"
  unfolding non_empty_set_def by (rule order_trans [OF card_length length_filter_le])

lemma card_diff_le:
  "real (card (non_empty_set (map f xs) - A)) \<le> real (length xs)" "real (card (non_empty_set (map f xs) \<inter> A)) \<le> real (length xs)"
proof -
  have f: "finite (non_empty_set (map f xs))" by (simp add: non_empty_set_def)
  show "real (card (non_empty_set (map f xs) - A)) \<le> real (length xs)" "real (card (non_empty_set (map f xs) \<inter> A)) \<le> real (length xs)"
    using card_mono [OF f, of "non_empty_set (map f xs) - A"] card_mono [OF f, of "non_empty_set (map f xs) \<inter> A"]
      card_non_empty_set [of "map f xs"] by auto
qed

lemma scaled_le: "0 \<le> a \<Longrightarrow> a \<le> 1 \<Longrightarrow> 0 \<le> x \<Longrightarrow> x \<le> b \<Longrightarrow> x * (1 - a) \<le> (b :: real) \<and> 0 \<le> x * (1 - a)"
  by (auto intro: order_trans [OF mult_left_le])

lemma raw_effort_bounds:
  assumes "task_wf task" "0 \<le> completed_temporal_steps profile"
  shows "effort_nonneg (raw_effort profile task) \<and> effort_le (raw_effort profile task) (effort_max (task_dimensions task) unit_effort)"
proof -
  have a: "0 \<le> clamped_affinity profile task" "clamped_affinity profile task \<le> 1" by (auto simp: clamped_affinity_def)
  have pre: "card {p \<in> set (hazard_prerequisites task). p \<notin> A} \<le> length (hazard_prerequisites task)" for A
    using card_mono [of "set (hazard_prerequisites task)" "{p \<in> set (hazard_prerequisites task). p \<notin> A}"]
      card_length [of "hazard_prerequisites task"] by auto
  have "ed (raw_effort profile task) \<le> real (length (data_dependencies task)) \<and> 0 \<le> ed (raw_effort profile task)"
    by (simp add: raw_effort_def Let_def scaled_le [OF a _ card_diff_le(1)] card_diff_le(1) [unfolded of_nat_le_iff])
  moreover have "es (raw_effort profile task) \<le> real (length (state_transfer_chains task)) \<and> 0 \<le> es (raw_effort profile task)"
    by (simp add: raw_effort_def Let_def scaled_le [OF a _ card_diff_le(1)] card_diff_le(1) [unfolded of_nat_le_iff])
  moreover have "ec (raw_effort profile task) \<le> real (length (control_obligations task)) \<and> 0 \<le> ec (raw_effort profile task)"
    by (simp add: raw_effort_def Let_def card_diff_le(2) [unfolded of_nat_le_iff])
  moreover have "et (raw_effort profile task) \<le> real_of_int (required_temporal task) \<and> 0 \<le> et (raw_effort profile task)"
    using required_temporal_nonneg [of task] assms(2) by (simp add: raw_effort_def Let_def)
  moreover have "eh (raw_effort profile task) \<le> max (eh (task_dimensions task)) 1 \<and> 0 \<le> eh (raw_effort profile task)"
    using pre [of "set (covered_target_ids profile)"] assms(1)
    by (auto simp: raw_effort_def Let_def task_dimensions_def task_wf_def)
  ultimately show ?thesis
    by (auto simp: effort_nonneg_def effort_le_def effort_max_def task_dimensions_def unit_effort_def)
qed

lemma divided_by_bound: "0 \<le> x \<Longrightarrow> x \<le> n \<Longrightarrow> 1 \<le> n \<Longrightarrow> 0 \<le> x / max 1 n \<and> x / max 1 n \<le> (1 :: real)"
  by (simp add: max_def)

lemma build_plan_tasks:
  assumes "build_plan pl pous = Inr plan" "task \<in> set (plan_tasks plan)" "0 < path_expansion_budget pl"
  shows "task_wf task" "plan_normalization plan = normalization (plan_tasks plan)"
proof -
  obtain built where b: "mapE (\<lambda>p. map_sum id (\<lambda>r. (pu_qualified_name p, r)) (build_pou pl p)) pous = Inr built"
      "plan_tasks plan = sort_key task_id (concat (map (\<lambda>b. fst (snd b)) built))"
      "plan_normalization plan = normalization (plan_tasks plan)"
    using assms(1) by (auto simp: build_plan_def res_simps Let_def)
  show "plan_normalization plan = normalization (plan_tasks plan)" by (rule b(3))
  obtain x where x: "x \<in> set built" "task \<in> set (fst (snd x))" using assms(2) b(2) by auto
  obtain p where p: "map_sum id (\<lambda>r. (pu_qualified_name p, r)) (build_pou pl p) = Inr x" using mapE_set [OF b(1) x(1)] by blast
  then obtain r where "build_pou pl p = Inr r" "x = (pu_qualified_name p, r)" by (cases "build_pou pl p") auto
  then show "task_wf task" using build_pou_wf [of pl p "fst r" "snd r" task] x(2) assms(3) by simp
qed

text \<open>
  The effort of every task of a plan, normalized with the plan's own per-POU maxima, has all
  five components between 0 and 1, for every seed profile; the total effort is between 0 and 5, so
  that a task's priority is never divided by less than one.
\<close>

theorem normalized_effort_bounds:
  assumes "build_plan pl pous = Inr plan" "0 < path_expansion_budget pl" "task \<in> set (plan_tasks plan)"
    "0 \<le> completed_temporal_steps profile"
  shows "\<exists>n. dget (plan_normalization plan) (tk_pou task) = Some n
     \<and> effort_nonneg (effort_components profile task (Some n)) \<and> effort_le (effort_components profile task (Some n)) unit_effort
     \<and> 0 \<le> semantic_effort profile task (Some n) \<and> semantic_effort profile task (Some n) \<le> 5"
proof -
  obtain n where n: "dget (plan_normalization plan) (tk_pou task) = Some n" "effort_le (task_dimensions task) n" "effort_le unit_effort n"
    using normalization_bounds [OF assms(3)] build_plan_tasks(2) [OF assms(1,3,2)] by auto
  have wf: "task_wf task" using build_plan_tasks(1) [OF assms(1,3,2)] .
  have "effort_le (effort_max (task_dimensions task) unit_effort) n"
    using n(2,3) by (auto simp: effort_le_def effort_max_def unit_effort_def)
  then have r: "effort_nonneg (raw_effort profile task)" "effort_le (raw_effort profile task) n"
    using raw_effort_bounds [OF wf assms(4)] effort_le_trans by blast+
  have c: "effort_nonneg (effort_components profile task (Some n)) \<and> effort_le (effort_components profile task (Some n)) unit_effort"
    using r n(3) divided_by_bound
    unfolding effort_nonneg_def effort_le_def unit_effort_def effort_components_def Let_def by simp
  then have "0 \<le> semantic_effort profile task (Some n) \<and> semantic_effort profile task (Some n) \<le> 5"
    by (auto simp: semantic_effort_def effort_sum_def effort_nonneg_def effort_le_def unit_effort_def)
  then show ?thesis using n(1) c by blast
qed

definition demo_profile :: seed_profile where
  "demo_profile = build_seed_profile ''x'' [\<lparr>ev_target_id = Some ''T1'', ev_cycle = Some 0, ev_state_signature = None, ev_state_hash_after = None\<rparr>] None []"

theorem normalized_effort_bounds_witness:
  "\<exists>plan task n. build_plan demo_planner [demo_pou] = Inr plan \<and> task \<in> set (plan_tasks plan)
     \<and> dget (plan_normalization plan) (tk_pou task) = Some n \<and> semantic_effort demo_profile task (Some n) \<le> 5"
proof -
  have pl: "0 < path_expansion_budget demo_planner" by (simp add: demo_planner_def)
  obtain vs xs comps where b: "build_pou demo_planner demo_pou = Inr (vs @ xs, comps)"
    "list_all2 (planned_task demo_pou ''violation'') (filter (kind_in TERMINAL_KINDS) (pu_targets demo_pou)) vs"
    using build_pou_tasks [OF pl] by blast
  have "filter (kind_in TERMINAL_KINDS) (pu_targets demo_pou) \<noteq> []"
    by (simp add: demo_pou_def kind_in_def demo_target_def TERMINAL_KINDS_def)
  then obtain task where t: "task \<in> set vs" using b(2) by (cases vs) auto
  define plan where "plan = \<lparr>plan_tasks = sort_key task_id (vs @ xs), plan_normalization = normalization (sort_key task_id (vs @ xs)),
     plan_sccs = dict_of [(pu_qualified_name demo_pou, comps)]\<rparr>"
  have plan: "build_plan demo_planner [demo_pou] = Inr plan" by (simp add: build_plan_def b(1) plan_def Let_def)
  have mem: "task \<in> set (plan_tasks plan)" using t by (simp add: plan_def)
  have steps: "0 \<le> completed_temporal_steps demo_profile" by (simp add: demo_profile_def build_seed_profile_def Let_def)
  from normalized_effort_bounds [OF plan pl mem steps] show ?thesis using plan mem by blast
qed

section \<open>The ranking\<close>

lemma task_gain_bounds: "0 \<le> task_gain task covered"
  by (auto simp: task_gain_def Let_def)

lemma seed_candidates_least:
  assumes "seed_candidates profiles task n = c # cs" "p \<in> set profiles"
  shows "fst (fst c) \<le> semantic_effort p task n \<and> fst (fst c) = semantic_effort (snd c) task n \<and> snd c \<in> set profiles"
proof -
  let ?l = "map (\<lambda>(i, p). ((semantic_effort p task n, sp_seed_id p, i), p)) (List.enumerate 0 profiles)"
  have s: "sorted (map fst (c # cs))" unfolding assms(1) [symmetric] seed_candidates_def by simp
  have set: "set (c # cs) = set ?l" unfolding assms(1) [symmetric] seed_candidates_def by simp
  have c: "c \<in> set ?l" using set by auto
  obtain i where "i < length profiles" "p = profiles ! i" using assms(2) by (metis in_set_conv_nth)
  then have "((semantic_effort p task n, sp_seed_id p, i), p) \<in> set (c # cs)"
    unfolding set by (force simp: in_set_enumerate_eq)
  then have "fst c \<le> (semantic_effort p task n, sp_seed_id p, i)" using s by auto
  then show ?thesis using c by (auto simp: less_eq_prod_def in_set_enumerate_eq)
qed

text \<open>
  The ranking loses no task, orders by falling priority, and names for each task a seed of least
  effort: there is none only without seeds, and otherwise no profile reaches the task with less effort
  than the one named, whose coverage also gives the active path.
\<close>

theorem rank_tasks_orders:
  "mset (map rk_task (rank_tasks tasks profiles failed rho norms)) = mset tasks
   \<and> sorted_wrt (\<lambda>a b. rk_priority b \<le> rk_priority a) (rank_tasks tasks profiles failed rho norms)
   \<and> list_all (\<lambda>r. if profiles = [] then rk_best_seed_id r = None
        else \<exists>p \<in> set profiles. rk_best_seed_id r = Some (sp_seed_id p)
          \<and> list_all (\<lambda>q. semantic_effort p (rk_task r) (dget norms (tk_pou (rk_task r)))
                         \<le> semantic_effort q (rk_task r) (dget norms (tk_pou (rk_task r)))) profiles
          \<and> rk_active_path r = choose_active_path (rk_task r) (set (covered_target_ids p)))
       (rank_tasks tasks profiles failed rho norms)"
proof -
  let ?cov = "set (concat (map covered_target_ids profiles))"
  let ?f = "rank_task profiles failed rho norms ?cov" and ?key = "\<lambda>r. (- rk_priority r, task_id (rk_task r))"
  have ranked: "rank_tasks tasks profiles failed rho norms = sort_key ?key (map ?f tasks)" by (simp add: rank_tasks_def)
  have task: "rk_task (rank_task profiles failed rho norms cov t) = t" for t cov by (simp add: rank_task_def Let_def case_prod_beta)
  have m: "mset (map rk_task (sort_key ?key (map ?f tasks))) = mset tasks"
    by (simp add: comp_def task image_mset.compositionality)
  have "sorted (map ?key (sort_key ?key (map ?f tasks)))" by simp
  then have s: "sorted_wrt (\<lambda>a b. rk_priority b \<le> rk_priority a) (sort_key ?key (map ?f tasks))"
    unfolding sorted_map by (rule sorted_wrt_mono_rel [rotated]) (auto simp: less_eq_prod_def)
  have b: "if profiles = [] then rk_best_seed_id (?f t) = None
        else \<exists>p \<in> set profiles. rk_best_seed_id (?f t) = Some (sp_seed_id p)
          \<and> list_all (\<lambda>q. semantic_effort p t (dget norms (tk_pou t)) \<le> semantic_effort q t (dget norms (tk_pou t))) profiles
          \<and> rk_active_path (?f t) = choose_active_path t (set (covered_target_ids p))" for t
  proof (cases "seed_candidates profiles t (dget norms (tk_pou t))")
    case Nil
    have "length (seed_candidates profiles t (dget norms (tk_pou t))) = length profiles" by (simp add: seed_candidates_def)
    then have "profiles = []" using Nil by simp
    then show ?thesis using Nil by (simp add: rank_task_def Let_def)
  next
    case (Cons c cs)
    have ne: "profiles \<noteq> []" using Cons by (auto simp: seed_candidates_def)
    then obtain q where q: "q \<in> set profiles" by (cases profiles) auto
    have c: "c \<in> set (map (\<lambda>(i, p). ((semantic_effort p t (dget norms (tk_pou t)), sp_seed_id p, i), p)) (List.enumerate 0 profiles))"
    proof -
      have "c \<in> set (seed_candidates profiles t (dget norms (tk_pou t)))" using Cons by simp
      then show ?thesis unfolding seed_candidates_def by simp
    qed
    have "fst (snd (fst c)) = sp_seed_id (snd c)" using c by auto
    moreover have "\<forall>x \<in> set profiles. semantic_effort (snd c) t (dget norms (tk_pou t)) \<le> semantic_effort x t (dget norms (tk_pou t))"
        "snd c \<in> set profiles"
      using seed_candidates_least [OF Cons] q by metis+
    ultimately show ?thesis using ne
      by (auto simp: rank_task_def Let_def Cons list_all_iff intro!: bexI [of _ "snd c"])
  qed
  show ?thesis unfolding ranked using m s b by (auto simp: list_all_iff task)
qed

section \<open>Task states\<close>

text \<open>The life of a task's runtime record: it starts in a state without a deferral, coverage is
  refreshed, an attempt is started, and a failed attempt defers the task.\<close>

inductive task_reachable :: "sem_task \<Rightarrow> task_runtime \<Rightarrow> bool" where
  started: "s \<noteq> Deferred \<Longrightarrow> task_reachable task
     \<lparr>tr_task_id = task_id task, tr_status = s, tr_failed_attempts = 0, last_coverage_epoch = 0, deferred_at_epoch = None\<rparr>"
| refreshed: "task_reachable task rt \<Longrightarrow> task_reachable task (refresh_task_runtime rt task covered epoch mapped)"
| attempted: "task_reachable task rt \<Longrightarrow> tr_status rt = Ready \<Longrightarrow> task_reachable task (rt\<lparr>tr_status := Active\<rparr>)"
| deferred: "task_reachable task rt \<Longrightarrow> task_reachable task (defer_task rt epoch)"

lemma refresh_fields [simp]:
  "tr_status (refresh_task_runtime rt task covered epoch mapped) = tr_status (refresh_status rt task covered epoch mapped)"
  "deferred_at_epoch (refresh_task_runtime rt task covered epoch mapped) = deferred_at_epoch (refresh_status rt task covered epoch mapped)"
  "tr_failed_attempts (refresh_task_runtime rt task covered epoch mapped) = tr_failed_attempts rt"
  "tr_task_id (refresh_task_runtime rt task covered epoch mapped) = tr_task_id rt"
  "last_coverage_epoch (refresh_task_runtime rt task covered epoch mapped) = max (last_coverage_epoch rt) epoch"
  by (auto simp: refresh_task_runtime_def refresh_status_def Let_def)

lemma reachable_deferral: "task_reachable task rt \<Longrightarrow> tr_status rt = Deferred \<Longrightarrow> deferred_at_epoch rt \<noteq> None \<and> 0 < tr_failed_attempts rt"
proof (induction rule: task_reachable.induct)
  case (refreshed task rt covered epoch mapped)
  then show ?case by (auto simp: refresh_status_def Let_def split: if_splits)
next
  case (deferred task rt epoch)
  show ?case by (simp add: defer_task_def)
qed auto

text \<open>
  In every reachable state a deferred task records when it was deferred and has a failed
  attempt. While its terminal is mapped and uncovered and it has a path, a refresh leaves it deferred
  until the coverage epoch passes the recorded one, and then makes it ready and drops the record; and
  refreshing again with the same coverage changes nothing.
\<close>

theorem deferral_waits_for_coverage:
  assumes "task_reachable task rt" "tr_status rt = Deferred" "terminal_target_id task \<in> mapped" "terminal_target_id task \<notin> covered"
    "has_path task"
  shows "\<exists>e. deferred_at_epoch rt = Some e \<and> 0 < tr_failed_attempts rt
     \<and> tr_status (refresh_task_runtime rt task covered epoch mapped) = (if e < epoch then Ready else Deferred)
     \<and> deferred_at_epoch (refresh_task_runtime rt task covered epoch mapped) = (if e < epoch then None else Some e)
     \<and> refresh_task_runtime (refresh_task_runtime rt task covered epoch mapped) task covered epoch mapped
         = refresh_task_runtime rt task covered epoch mapped"
proof -
  obtain e where e: "deferred_at_epoch rt = Some e" "0 < tr_failed_attempts rt"
    using reachable_deferral [OF assms(1,2)] by auto
  have s: "refresh_status rt task covered epoch mapped = (if e < epoch then rt\<lparr>tr_status := Ready, deferred_at_epoch := None\<rparr> else rt)"
    using assms(2-5) e by (simp add: refresh_status_def Let_def)
  have "refresh_task_runtime (refresh_task_runtime rt task covered epoch mapped) task covered epoch mapped
         = refresh_task_runtime rt task covered epoch mapped"
    using assms(2-5) e by (auto simp: refresh_task_runtime_def refresh_status_def Let_def)
  then show ?thesis using e s assms(2) by auto
qed

definition demo_task :: sem_task where
  "demo_task = build_task demo_planner demo_pou (demo_target ''V'' ''hazard_violation'' ''n1'' []) demo_paths ''violation'' None"

definition demo_deferred :: task_runtime where
  "demo_deferred = defer_task \<lparr>tr_task_id = task_id demo_task, tr_status = Active, tr_failed_attempts = 0,
     last_coverage_epoch = 0, deferred_at_epoch = None\<rparr> 7"

theorem deferral_waits_for_coverage_witness:
  "tr_status (refresh_task_runtime demo_deferred demo_task {''T1''} 7 {''V''}) = Deferred
   \<and> tr_status (refresh_task_runtime demo_deferred demo_task {''T1''} 8 {''V''}) = Ready"
proof -
  have r: "task_reachable demo_task demo_deferred" unfolding demo_deferred_def
    by (intro task_reachable.deferred task_reachable.started) simp
  have s: "tr_status demo_deferred = Deferred" "deferred_at_epoch demo_deferred = Some 7"
    by (simp_all add: demo_deferred_def defer_task_def)
  have t: "terminal_target_id demo_task = ''V''" by (simp add: demo_task_def demo_target_def)
  have "\<exists>c \<in> set (candidate_paths demo_task). cp_target_ids c \<noteq> []" by (simp add: demo_task_def demo_paths_def)
  then have p: "has_path demo_task" by (simp add: has_path_def)
  have "tr_status (refresh_task_runtime demo_deferred demo_task {''T1''} e {''V''}) = (if 7 < e then Ready else Deferred)" for e
    using deferral_waits_for_coverage [OF r s(1) _ _ p, of "{''V''}" "{''T1''}" e] s(2) by (auto simp: t)
  from this [of 7] this [of 8] show ?thesis by simp
qed

end
