(* ===== verification/Layout_Relation.thy ===== *)
theory Layout_Relation
  imports Llvm_Layout
begin

text \<open>
  What \<open>size_align\<close> and \<open>_offsets_of\<close> compute, stated without the cache and without fuel: an
  inductive layout relation and the set of pointer slots of a type. The pointer scan of
  \<open>compiler/harness/contract.py\<close> is modelled here, next to the layout it walks. For definitions
  that mention only types of smaller rank, as LLVM demands of types that nest by value, the cached
  computation agrees with the relation and the scan lists exactly the pointer slots.
\<close>

section \<open>The layout relation\<close>

inductive lay :: "llvm_defs \<Rightarrow> llvm_type \<Rightarrow> nat \<Rightarrow> nat \<Rightarrow> bool"
  and lay_fields :: "llvm_defs \<Rightarrow> llvm_type list \<Rightarrow> nat \<Rightarrow> nat \<Rightarrow> nat \<Rightarrow> nat \<Rightarrow> bool"
  for D :: llvm_defs where
  lay_ptr: "lay D LPtr 8 8"
| lay_void: "lay D LVoid 0 1"
| lay_int: "int_size_align bits = (s, a) \<Longrightarrow> lay D (LInt bits) s a"
| lay_float: "s = max 1 ((bits + 7) div 8) \<Longrightarrow> lay D (LFloat bits) s s"
| lay_array: "lay D t s a \<Longrightarrow> lay D (LArray k t) (k * s) a"
| lay_vector: "lay D t s a \<Longrightarrow> lay D (LVector k t) (k * s) a"
| lay_struct: "lay_fields D fs 1 0 m e \<Longrightarrow> s = align_up e m \<Longrightarrow> lay D (LStruct fs) s m"
| lay_named: "dget D name = Some t \<Longrightarrow> lay D t s a \<Longrightarrow> lay D (LNamed name) s a"
| lay_nil: "lay_fields D [] m off m off"
| lay_cons: "lay D f s a \<Longrightarrow> lay_fields D fs (max m a) (align_up off a + s) m' e \<Longrightarrow>
    lay_fields D (f # fs) m off m' e"

inductive_cases lay_ptrE [elim!]: "lay D LPtr s a"
inductive_cases lay_voidE [elim!]: "lay D LVoid s a"
inductive_cases lay_intE [elim!]: "lay D (LInt b) s a"
inductive_cases lay_floatE [elim!]: "lay D (LFloat b) s a"
inductive_cases lay_arrayE [elim!]: "lay D (LArray k t) s a"
inductive_cases lay_vectorE [elim!]: "lay D (LVector k t) s a"
inductive_cases lay_structE [elim!]: "lay D (LStruct fs) s a"
inductive_cases lay_namedE [elim!]: "lay D (LNamed name) s a"
inductive_cases lay_nilE [elim!]: "lay_fields D [] m off m' e"
inductive_cases lay_consE [elim!]: "lay_fields D (f # fs) m off m' e"

text \<open>A type has at most one layout.\<close>

lemma lay_unique:
  "lay D t s a \<Longrightarrow> lay D t s' a' \<Longrightarrow> s' = s \<and> a' = a"
  "lay_fields D fs m off m1 e1 \<Longrightarrow> lay_fields D fs m off m2 e2 \<Longrightarrow> m2 = m1 \<and> e2 = e1"
proof (induction arbitrary: s' a' and m2 e2 rule: lay_lay_fields.inducts)
  case (lay_cons f s a fs m off m' e)
  from lay_cons.prems obtain s1 a1 where "lay D f s1 a1"
    "lay_fields D fs (max m a1) (align_up off a1 + s1) m2 e2" by (rule lay_consE)
  with lay_cons.IH show ?case by blast
qed (fastforce+)

section \<open>Ranked definitions\<close>

fun type_names :: "llvm_type \<Rightarrow> string set" where
  "type_names (LArray k t) = type_names t"
| "type_names (LVector k t) = type_names t"
| "type_names (LStruct fs) = (\<Union>f \<in> set fs. type_names f)"
| "type_names (LNamed name) = {name}"
| "type_names _ = {}"

definition ranked :: "(string \<Rightarrow> nat) \<Rightarrow> llvm_defs \<Rightarrow> bool" where
  "ranked rk D = list_all (\<lambda>(name, t). rk name < length D \<and>
      (\<forall>m \<in> type_names t. dmem m D \<and> rk m < rk name)) D"

lemma ranked_def_names:
  assumes "ranked rk D" and "dget D name = Some t"
  shows "rk name < length D" and "m \<in> type_names t \<Longrightarrow> dmem m D \<and> rk m < rk name"
  using assms(1) map_of_SomeD [OF assms(2)] unfolding ranked_def list_all_iff by auto

lemma dmem_dget: "dmem k d \<longleftrightarrow> (\<exists>v. dget d k = Some v)"
  unfolding dmem_def by (metis map_of_eq_None_iff not_Some_eq list.set_map)

text \<open>The cache holds the layout of every type of rank below \<open>k\<close> that it names.\<close>

definition agrees :: "(string \<Rightarrow> nat) \<Rightarrow> llvm_defs \<Rightarrow> nat \<Rightarrow> layout_cache \<Rightarrow> bool" where
  "agrees rk D k c = (\<forall>name s a. rk name < k \<longrightarrow> dget c name = Some (s, a) \<longrightarrow> lay D (LNamed name) s a)"

definition keeps :: "(string \<Rightarrow> nat) \<Rightarrow> nat \<Rightarrow> layout_cache \<Rightarrow> layout_cache \<Rightarrow> bool" where
  "keeps rk k c c' = (\<forall>name. k \<le> rk name \<longrightarrow> dget c' name = dget c name)"

lemma agrees_dset:
  assumes "agrees rk D k c" and "keeps rk (rk name) (dset name x c) c'"
    and "agrees rk D (rk name) c'" and "lay D (LNamed name) s a"
  shows "agrees rk D k (dset name (s, a) c')"
  unfolding agrees_def
proof (intro allI impI)
  fix nm s' a' assume nm: "rk nm < k" "dget (dset name (s, a) c') nm = Some (s', a')"
  consider "nm = name" | "nm \<noteq> name" "rk nm < rk name" | "nm \<noteq> name" "rk name \<le> rk nm" by linarith
  then show "lay D (LNamed nm) s' a'"
    using nm assms unfolding agrees_def keeps_def by cases auto
qed

lemma size_align_lay:
  "size_align n D c t = Inr ((s, a), c') \<Longrightarrow> ranked rk D \<Longrightarrow>
     (\<And>m. m \<in> type_names t \<Longrightarrow> rk m < k) \<Longrightarrow> agrees rk D k c \<Longrightarrow>
     lay D t s a \<and> agrees rk D k c' \<and> keeps rk k c c'"
  "struct_size_align n D c ma off fs = Inr ((s, a), c') \<Longrightarrow> ranked rk D \<Longrightarrow>
     (\<And>m f. f \<in> set fs \<Longrightarrow> m \<in> type_names f \<Longrightarrow> rk m < k) \<Longrightarrow> agrees rk D k c \<Longrightarrow>
     (\<exists>e. lay_fields D fs ma off a e \<and> s = align_up e a) \<and> agrees rk D k c' \<and> keeps rk k c c'"
proof (induction n D c t and n D c ma off fs arbitrary: s a c' k and s a c' k
    rule: size_align_struct_size_align.induct)
  case (5 n D c x t)
  from 5(2) obtain s0 where st: "size_align n D c t = Inr ((s0, a), c')" "s = x * s0"
    by (auto simp: bindE_eq_Inr)
  from 5(1) [OF st(1) 5(3) _ 5(5)] 5(4) st(2) show ?case by (auto intro: lay_array)
next
  case (6 n D c x t)
  from 6(2) obtain s0 where st: "size_align n D c t = Inr ((s0, a), c')" "s = x * s0"
    by (auto simp: bindE_eq_Inr)
  from 6(1) [OF st(1) 6(3) _ 6(5)] 6(4) st(2) show ?case by (auto intro: lay_vector)
next
  case (7 n D c fs)
  from 7(2) have "struct_size_align n D c 1 0 fs = Inr ((s, a), c')" by simp
  with 7(1) [OF this 7(3) _ 7(5)] 7(4)
  have "(\<exists>e. lay_fields D fs 1 0 a e \<and> s = align_up e a) \<and> agrees rk D k c' \<and> keeps rk k c c'"
    by auto
  then show ?case using lay_struct by blast
next
  case (8 n D c name)
  have rk: "rk name < k" using 8(4) by simp
  show ?case
  proof (cases "dget c name")
    case (Some r)
    with 8(2,5) rk show ?thesis by (auto simp: agrees_def keeps_def)
  next
    case None
    with 8(2) obtain t where t: "dget D name = Some t" by (cases "dget D name") auto
    with None 8(2) obtain m where m: "n = Suc m" by (cases n) auto
    with None t 8(2) obtain c1 where s: "size_align m D (dset name (0, 1) c) t = Inr ((s, a), c1)"
      "c' = dset name (s, a) c1" by (auto simp: bindE_eq_Inr)
    have start: "agrees rk D (rk name) (dset name (0, 1) c)"
      using 8(5) rk unfolding agrees_def by (auto simp: dget_dset)
    have l: "lay D t s a" "agrees rk D (rk name) c1" "keeps rk (rk name) (dset name (0, 1) c) c1"
      using 8(1) [OF None t m s(1) 8(3) _ start] ranked_def_names(2) [OF 8(3) t] by auto
    from lay_named [OF t l(1)] have ln: "lay D (LNamed name) s a" .
    have "keeps rk k c c'" using l(3) s(2) rk unfolding keeps_def by (auto simp: dget_dset)
    with agrees_dset [OF 8(5) l(3,2) ln] s(2) ln show ?thesis by blast
  qed
next
  case (9 n D c m off)
  then show ?case by (cases "1 < m") (auto simp: keeps_def align_up_def intro!: lay_nil exI)
next
  case (10 n D c m off f fs)
  from struct_size_align_ConsE [OF 10(3)] obtain s1 a1 c1 where
    st: "size_align n D c f = Inr ((s1, a1), c1)"
    "struct_size_align n D c1 (max m a1) (align_up off a1 + s1) fs = Inr ((s, a), c')"
    by metis
  from 10(1) [OF st(1) 10(4) _ 10(6)] 10(5)
  have h: "lay D f s1 a1" "agrees rk D k c1" "keeps rk k c c1" by auto
  from 10(2) [OF st(1) refl refl st(2) 10(4) _ h(2)] 10(5) h(1,3)
  show ?case unfolding keeps_def by (auto intro: lay_cons)
qed (use lay_ptr lay_void in \<open>auto simp: keeps_def Let_def intro: lay_int lay_float\<close>)

text \<open>With every name defined, running out of fuel is the only error.\<close>

lemma size_align_total:
  "size_align n D c t = Inl e \<Longrightarrow> ranked rk D \<Longrightarrow> (\<And>m. m \<in> type_names t \<Longrightarrow> dmem m D) \<Longrightarrow> e = OutOfFuel"
  "struct_size_align n D c ma off fs = Inl e \<Longrightarrow> ranked rk D \<Longrightarrow>
     (\<And>m f. f \<in> set fs \<Longrightarrow> m \<in> type_names f \<Longrightarrow> dmem m D) \<Longrightarrow> e = OutOfFuel"
proof (induction n D c t and n D c ma off fs rule: size_align_struct_size_align.induct)
  case (8 n D c name)
  from 8(4) obtain t where t: "dget D name = Some t" by (auto simp: dmem_dget)
  with 8(2) have None: "dget c name = None" by (cases "dget c name") auto
  show ?case
  proof (cases n)
    case (Suc m)
    with 8(2) t None have "size_align m D (dset name (0, 1) c) t = Inl e" by (auto simp: bindE_eq_Inl)
    from 8(1) [OF None t Suc this 8(3)] ranked_def_names(2) [OF 8(3) t] show ?thesis by blast
  qed (use 8(2) t None in simp)
next
  case (10 n D c m off f fs)
  show ?case
  proof (cases "size_align n D c f")
    case (Inl e')
    with 10(3) have "size_align n D c f = Inl e" by simp
    from 10(1) [OF this 10(4)] 10(5) show ?thesis by auto
  next
    case (Inr r)
    obtain s1 a1 c1 where r: "r = ((s1, a1), c1)" by (cases r) auto
    with Inr 10(3) have "struct_size_align n D c1 (max m a1) (align_up off a1 + s1) fs = Inl e" by simp
    from 10(2) [OF Inr [unfolded r] refl refl this 10(4)] 10(5) show ?thesis by auto
  qed
qed (auto simp: bindE_eq_Inl Let_def)

text \<open>A type all of whose names are defined.\<close>

definition closed_type :: "llvm_defs \<Rightarrow> llvm_type \<Rightarrow> bool" where
  "closed_type D t = (\<forall>m \<in> type_names t. dmem m D)"

lemma closed_rank: "ranked rk D \<Longrightarrow> closed_type D t \<Longrightarrow> m \<in> type_names t \<Longrightarrow> rk m < length D"
  using ranked_def_names(1) by (fastforce simp: closed_type_def dmem_dget)

lemma agrees_Nil: "agrees rk D k []"
  by (simp add: agrees_def)

lemma type_size_align_total:
  assumes "ranked rk D" and "closed_type D t"
  shows "\<exists>s a. type_size_align D t = Inr (s, a) \<and> lay D t s a"
proof (cases "size_align (length D) D [] t")
  case (Inl e)
  with size_align_total(1) [OF Inl assms(1)] assms(2) size_align_fuel(1) [OF pending_start, of D t]
  show ?thesis by (simp add: closed_type_def)
next
  case (Inr r)
  obtain s a c where r: "r = ((s, a), c)" by (cases r) auto
  from size_align_lay(1) [OF Inr [unfolded r] assms(1) closed_rank [OF assms] agrees_Nil]
  have "lay D t s a" by blast
  with Inr r show ?thesis by (simp add: type_size_align_def)
qed

lemma type_size_align_iff_lay:
  assumes "ranked rk D" and "closed_type D t"
  shows "type_size_align D t = Inr (s, a) \<longleftrightarrow> lay D t s a"
proof -
  obtain s0 a0 where h: "type_size_align D t = Inr (s0, a0)" "lay D t s0 a0"
    using type_size_align_total [OF assms] by blast
  show ?thesis
  proof
    assume "type_size_align D t = Inr (s, a)"
    with h show "lay D t s a" by simp
  next
    assume "lay D t s a"
    from lay_unique(1) [OF h(2) this] h(1) show "type_size_align D t = Inr (s, a)" by simp
  qed
qed

section \<open>The pointer scan\<close>

text \<open>
  \<open>_offsets_of\<close>: the offsets of the pointers of a type placed at \<open>base\<close>. The fields of a struct
  are walked with the offsets of \<open>struct_field_layout\<close>; the fuel counts nested named types.
\<close>

fun offsets_of :: "nat \<Rightarrow> llvm_defs \<Rightarrow> nat \<Rightarrow> llvm_type \<Rightarrow> llvm_error + nat list"
  and offsets_fields :: "nat \<Rightarrow> llvm_defs \<Rightarrow> nat \<Rightarrow> nat list \<Rightarrow> llvm_type list \<Rightarrow> llvm_error + nat list" where
  "offsets_of n D base LPtr = Inr [base]"
| "offsets_of n D base (LArray k e) =
     (if e = LPtr then Inr (map (\<lambda>i. base + i * 8) [0..<k])
      else bindE (type_size_align D e) (\<lambda>(sz, _).
           bindE (mapE (\<lambda>i. offsets_of n D (base + i * sz) e) [0..<k]) (\<lambda>xss. Inr (concat xss))))"
| "offsets_of n D base (LVector k e) =
     (if e = LPtr then Inr (map (\<lambda>i. base + i * 8) [0..<k])
      else bindE (type_size_align D e) (\<lambda>(sz, _).
           bindE (mapE (\<lambda>i. offsets_of n D (base + i * sz) e) [0..<k]) (\<lambda>xss. Inr (concat xss))))"
| "offsets_of n D base (LStruct fs) =
     bindE (struct_field_layout D fs) (\<lambda>l. offsets_fields n D base (map fst l) fs)"
| "offsets_of n D base (LNamed name) =
     (case dget D name of
        None \<Rightarrow> Inr []
      | Some t \<Rightarrow> (case n of 0 \<Rightarrow> Inl OutOfFuel | Suc m \<Rightarrow> offsets_of m D base t))"
| "offsets_of n D base (LInt b) = Inr []"
| "offsets_of n D base (LFloat b) = Inr []"
| "offsets_of n D base LVoid = Inr []"
| "offsets_fields n D base (off # offs) (f # fs) =
     bindE (offsets_of n D (base + off) f) (\<lambda>xs.
     bindE (offsets_fields n D base offs fs) (\<lambda>ys. Inr (xs @ ys)))"
| "offsets_fields n D base _ _ = Inr []"

text \<open>Where the fields of a struct lie, by the layout relation.\<close>

fun placed :: "llvm_defs \<Rightarrow> nat \<Rightarrow> llvm_type list \<Rightarrow> nat list \<Rightarrow> nat \<Rightarrow> bool" where
  "placed D off [] [] e = (e = off)"
| "placed D off (f # fs) (x # xs) e =
     (\<exists>s a. lay D f s a \<and> x = align_up off a \<and> placed D (x + s) fs xs e)"
| "placed D off _ _ e = False"

text \<open>The pointer slots of a type, as offsets from its start.\<close>

inductive ptr_at :: "llvm_defs \<Rightarrow> llvm_type \<Rightarrow> nat \<Rightarrow> bool" for D :: llvm_defs where
  pa_ptr: "ptr_at D LPtr 0"
| pa_array: "i < k \<Longrightarrow> lay D e s a \<Longrightarrow> ptr_at D e p \<Longrightarrow> ptr_at D (LArray k e) (i * s + p)"
| pa_vector: "i < k \<Longrightarrow> lay D e s a \<Longrightarrow> ptr_at D e p \<Longrightarrow> ptr_at D (LVector k e) (i * s + p)"
| pa_struct: "placed D 0 fs xs e \<Longrightarrow> i < length fs \<Longrightarrow> ptr_at D (fs ! i) p \<Longrightarrow>
    ptr_at D (LStruct fs) (xs ! i + p)"
| pa_named: "dget D name = Some t \<Longrightarrow> ptr_at D t p \<Longrightarrow> ptr_at D (LNamed name) p"

inductive_simps ptr_at_simps:
  "ptr_at D LPtr p" "ptr_at D LVoid p" "ptr_at D (LInt b) p" "ptr_at D (LFloat b) p"
  "ptr_at D (LArray k e) p" "ptr_at D (LVector k e) p" "ptr_at D (LStruct fs) p" "ptr_at D (LNamed name) p"

lemma placed_unique: "placed D off fs xs e \<Longrightarrow> placed D off fs ys e' \<Longrightarrow> ys = xs \<and> e' = e"
proof (induction D off fs xs e arbitrary: ys e' rule: placed.induct)
  case (2 D off f fs x xs e)
  from 2(3) obtain y ys' where ys: "ys = y # ys'" by (cases ys) auto
  from 2(2) obtain s a where l: "lay D f s a" "x = align_up off a" "placed D (x + s) fs xs e" by auto
  from 2(3) ys obtain s' a' where l': "lay D f s' a'" "y = align_up off a'" "placed D (y + s') fs ys' e'"
    by auto
  from lay_unique(1) [OF l(1) l'(1)] l l' ys 2(1) [OF l(3)] show ?case by auto
next
  case (1 D off e)
  then show ?case by (cases ys) auto
qed auto

lemma placed_length: "placed D off fs xs e \<Longrightarrow> length xs = length fs"
  by (induction D off fs xs e rule: placed.induct) auto

lemma field_layout_placed:
  assumes "field_layout n D c off fs = Inr l" and "ranked rk D"
    and "\<And>m f. f \<in> set fs \<Longrightarrow> m \<in> type_names f \<Longrightarrow> rk m < k" and "agrees rk D k c"
  shows "\<exists>e. placed D off fs (map fst l) e"
  using assms
proof (induction fs arbitrary: c off l)
  case (Cons f fs)
  from field_layout_ConsE [OF Cons.prems(1)] obtain s a c' l' where
    h: "size_align n D c f = Inr ((s, a), c')" "l = (align_up off a, s, f) # l'"
       "field_layout n D c' (align_up off a + s) fs = Inr l'"
    by metis
  have "lay D f s a \<and> agrees rk D k c' \<and> keeps rk k c c'"
    by (rule size_align_lay(1) [OF h(1) Cons.prems(2) _ Cons.prems(4)]) (use Cons.prems(3) in auto)
  moreover from this have "\<exists>e. placed D (align_up off a + s) fs (map fst l') e"
    by (intro Cons.IH [OF h(3) Cons.prems(2)]) (use Cons.prems(3) in auto)
  ultimately show ?case using h(2) by auto
qed auto

lemma field_layout_total:
  "field_layout n D c off fs = Inl e \<Longrightarrow> ranked rk D \<Longrightarrow>
     (\<And>m f. f \<in> set fs \<Longrightarrow> m \<in> type_names f \<Longrightarrow> dmem m D) \<Longrightarrow> e = OutOfFuel"
proof (induction fs arbitrary: c off)
  case (Cons f fs)
  show ?case
  proof (cases "size_align n D c f")
    case (Inl e')
    with Cons.prems(1) have "size_align n D c f = Inl e" by simp
    from size_align_total(1) [OF this Cons.prems(2)] Cons.prems(3) show ?thesis by auto
  next
    case (Inr r)
    obtain s a c' where r: "r = ((s, a), c')" by (cases r) auto
    with Inr Cons.prems(1) have "field_layout n D c' (align_up off a + s) fs = Inl e"
      by (simp add: bindE_eq_Inl)
    from Cons.IH [OF this Cons.prems(2)] Cons.prems(3) show ?thesis by auto
  qed
qed simp

lemma struct_field_layout_placed:
  assumes "ranked rk D" and "closed_type D (LStruct fs)"
  shows "\<exists>l e. struct_field_layout D fs = Inr l \<and> placed D 0 fs (map fst l) e"
proof (cases "struct_field_layout D fs")
  case (Inl e)
  from field_layout_total [OF Inl [unfolded struct_field_layout_def] assms(1)] assms(2)
  have "e = OutOfFuel" by (auto simp: closed_type_def)
  with Inl field_layout_fuel [OF pending_start, of D 0 fs] show ?thesis
    by (simp add: struct_field_layout_def)
next
  case (Inr l)
  have "\<exists>e. placed D 0 fs (map fst l) e"
    by (rule field_layout_placed [OF Inr [unfolded struct_field_layout_def] assms(1) _ agrees_Nil [of _ _ "length D"]])
      (use closed_rank [OF assms] in auto)
  with Inr show ?thesis by blast
qed

text \<open>A pointer slot lies inside its type.\<close>

lemma placed_end:
  "placed D off fs xs e \<Longrightarrow> i < length fs \<Longrightarrow> lay D (fs ! i) s a \<Longrightarrow> off \<le> xs ! i \<and> xs ! i + s \<le> e"
proof (induction D off fs xs e arbitrary: i rule: placed.induct)
  case (2 D off f fs x xs e)
  from 2(2) obtain s1 a1 where l: "lay D f s1 a1" "x = align_up off a1" "placed D (x + s1) fs xs e" by auto
  have off: "off \<le> x" using l(2) align_up_ge by simp
  have end_ge: "placed D o1 fs1 xs1 e \<Longrightarrow> o1 \<le> e" for o1 fs1 xs1
    by (induction D o1 fs1 xs1 e rule: placed.induct) (auto intro: order_trans [OF align_up_ge] dest!: add_leD1)
  show ?case
  proof (cases i)
    case 0
    with 2(4) lay_unique(1) [OF l(1)] have "s = s1" by auto
    with 0 off end_ge [OF l(3)] show ?thesis by simp
  next
    case (Suc j)
    with 2(1) [OF l(3), of j] 2(3,4) off show ?thesis by auto
  qed
qed auto

lemma lay_fields_placed:
  "lay_fields D fs m off m' e \<Longrightarrow> \<exists>xs. placed D off fs xs e"
proof (induction fs arbitrary: m off)
  case (Cons f fs)
  then obtain s a where l: "lay D f s a" "lay_fields D fs (max m a) (align_up off a + s) m' e" by auto
  from Cons.IH [OF l(2)] obtain xs where "placed D (align_up off a + s) fs xs e" by blast
  with l(1) have "placed D off (f # fs) (align_up off a # xs) e" by auto
  then show ?case by blast
qed (auto intro: exI [of _ "[]"])

lemma placed_lay: "placed D off fs xs e \<Longrightarrow> i < length fs \<Longrightarrow> \<exists>s a. lay D (fs ! i) s a"
proof (induction D off fs xs e arbitrary: i rule: placed.induct)
  case (2 D off f fs x xs e)
  then show ?case by (cases i) auto
qed auto

lemma ptr_at_inside: "ptr_at D t p \<Longrightarrow> lay D t s a \<Longrightarrow> p + 8 \<le> s"
proof (induction arbitrary: s a rule: ptr_at.induct)
  case (pa_array i k e s0 a0 p)
  then obtain s1 where s: "s = k * s1" "lay D e s1 a" by auto
  with lay_unique(1) [OF pa_array(2)] have "s1 = s0" by blast
  with pa_array.IH [OF pa_array(2)] have "i * s0 + p + 8 \<le> Suc i * s1" by simp
  also have "\<dots> \<le> k * s1" using pa_array(1) by (intro mult_right_mono) auto
  finally show ?case using s by simp
next
  case (pa_vector i k e s0 a0 p)
  then obtain s1 where s: "s = k * s1" "lay D e s1 a" by auto
  with lay_unique(1) [OF pa_vector(2)] have "s1 = s0" by blast
  with pa_vector.IH [OF pa_vector(2)] have "i * s0 + p + 8 \<le> Suc i * s1" by simp
  also have "\<dots> \<le> k * s1" using pa_vector(1) by (intro mult_right_mono) auto
  finally show ?case using s by simp
next
  case (pa_struct fs xs e i p)
  then obtain e1 where e1: "lay_fields D fs 1 0 a e1" "s = align_up e1 a" by auto
  from lay_fields_placed [OF e1(1)] placed_unique [OF pa_struct(1)] have "e1 = e" by blast
  obtain s1 a1 where l: "lay D (fs ! i) s1 a1"
    using pa_struct(1,2) placed_lay by blast
  from pa_struct.IH [OF l] placed_end [OF pa_struct(1,2) l] \<open>e1 = e\<close> e1(2) align_up_ge [of e a]
  show ?case by simp
qed auto

section \<open>The scan is exact\<close>

text \<open>The pointers of a list do not overlap and lie in the order of the list.\<close>

abbreviation apart :: "nat list \<Rightarrow> bool" where
  "apart \<equiv> sorted_wrt (\<lambda>x y. x + 8 \<le> y)"

definition scans :: "llvm_defs \<Rightarrow> nat \<Rightarrow> llvm_type \<Rightarrow> nat list \<Rightarrow> bool" where
  "scans D base t xs = (apart xs \<and> set xs = (\<lambda>p. base + p) ` {p. ptr_at D t p})"

lemma scansD: "scans D base t xs \<Longrightarrow> lay D t s a \<Longrightarrow> x \<in> set xs \<Longrightarrow> base \<le> x \<and> x + 8 \<le> base + s"
  unfolding scans_def using ptr_at_inside [of D t _ s a] by fastforce

text \<open>Consecutive blocks of an array.\<close>

lemma in_concat_nth: "x \<in> set (concat xss) \<longleftrightarrow> (\<exists>i < length xss. x \<in> set (xss ! i))"
  unfolding set_concat UN_iff by (metis in_set_conv_nth)

lemma apart_blocks:
  assumes "length xss = k" and "\<And>i. i < k \<Longrightarrow> apart (xss ! i)"
    and "\<And>i x. i < k \<Longrightarrow> x \<in> set (xss ! i) \<Longrightarrow> base + i * s \<le> x \<and> x + 8 \<le> base + i * s + s"
  shows "apart (concat xss)"
  using assms
proof (induction xss arbitrary: k rule: rev_induct)
  case (snoc ys xss)
  from snoc.prems(1) have k: "k = Suc (length xss)" by simp
  have "apart (concat xss)"
  proof (rule snoc.IH [OF refl])
    fix i assume i: "i < length xss"
    then show "apart (xss ! i)" using snoc.prems(2) [of i] k by (simp add: nth_append)
    fix x assume "x \<in> set (xss ! i)"
    then show "base + i * s \<le> x \<and> x + 8 \<le> base + i * s + s"
      using snoc.prems(3) [of i x] i k by (simp add: nth_append)
  qed
  moreover have "apart ys" using snoc.prems(2) [of "length xss"] k by simp
  moreover have "x + 8 \<le> y" if "x \<in> set (concat xss)" "y \<in> set ys" for x y
  proof -
    from that(1) obtain i where i: "i < length xss" "x \<in> set (xss ! i)" by (auto simp: in_concat_nth simp del: set_concat)
    have "x + 8 \<le> base + Suc i * s" using snoc.prems(3) [of i x] i k by (simp add: nth_append add_ac)
    also have "\<dots> \<le> base + length xss * s" using i(1) by (intro add_left_mono mult_right_mono) auto
    also have "\<dots> \<le> y" using snoc.prems(3) [of "length xss" y] that(2) k by simp
    finally show ?thesis .
  qed
  ultimately show ?case by (simp add: sorted_wrt_append)
qed simp

lemma scans_array:
  assumes "lay D e s a" and "length xss = k" and "\<And>i. i < k \<Longrightarrow> scans D (base + i * s) e (xss ! i)"
  shows "scans D base (LArray k e) (concat xss)" and "scans D base (LVector k e) (concat xss)"
proof -
  have ap: "apart (concat xss)"
    by (rule apart_blocks [OF assms(2), of base s])
      (use assms(3) scansD [OF assms(3) assms(1)] in \<open>auto simp: scans_def\<close>)
  have in_blocks: "x \<in> set (concat xss) \<longleftrightarrow> (\<exists>i < k. \<exists>p. ptr_at D e p \<and> x = base + i * s + p)" for x
  proof -
    have "x \<in> set (concat xss) \<longleftrightarrow> (\<exists>i < k. x \<in> set (xss ! i))"
      using assms(2) by (simp add: in_concat_nth del: set_concat)
    also have "\<dots> \<longleftrightarrow> (\<exists>i < k. x \<in> (\<lambda>p. base + i * s + p) ` {p. ptr_at D e p})"
      using assms(3) unfolding scans_def by (metis (no_types, lifting))
    finally show ?thesis by blast
  qed
  have slots: "ptr_at D (LArray k e) p \<longleftrightarrow> (\<exists>i < k. \<exists>q. ptr_at D e q \<and> p = i * s + q)"
    "ptr_at D (LVector k e) p \<longleftrightarrow> (\<exists>i < k. \<exists>q. ptr_at D e q \<and> p = i * s + q)" for p
    unfolding ptr_at_simps using assms(1) lay_unique(1) [OF assms(1)] by metis+
  have "(\<lambda>p. base + p) ` {p. \<exists>i < k. \<exists>q. ptr_at D e q \<and> p = i * s + q} = set (concat xss)"
    unfolding set_eq_iff in_blocks image_iff by (simp add: add.assoc) blast
  with ap show "scans D base (LArray k e) (concat xss)" "scans D base (LVector k e) (concat xss)"
    unfolding scans_def slots by simp_all
qed

lemma scans_Nil: "(\<And>p. \<not> ptr_at D t p) \<Longrightarrow> scans D base t []"
  by (simp add: scans_def)

text \<open>The fields of a struct: what the scan of the remaining fields lists.\<close>

definition scans_fields :: "llvm_defs \<Rightarrow> nat \<Rightarrow> llvm_type list \<Rightarrow> nat list \<Rightarrow> nat list \<Rightarrow> bool" where
  "scans_fields D base fs offs xs = (apart xs \<and>
     (\<forall>x. x \<in> set xs \<longleftrightarrow> (\<exists>i < length fs. \<exists>p. ptr_at D (fs ! i) p \<and> x = base + offs ! i + p)))"

lemma scans_fields_Cons:
  assumes "placed D off (f # fs) (x # offs) e" and "scans D (base + x) f xs"
    and "scans_fields D base fs offs ys"
  shows "scans_fields D base (f # fs) (x # offs) (xs @ ys)"
proof -
  from assms(1) obtain s a where l: "lay D f s a" "placed D (x + s) fs offs e" by auto
  have "u + 8 \<le> v" if uv: "u \<in> set xs" "v \<in> set ys" for u v
  proof -
    from assms(3) uv(2) obtain i p where i: "i < length fs" "v = base + offs ! i + p"
      unfolding scans_fields_def by blast
    from placed_lay [OF l(2) i(1)] obtain s' a' where "lay D (fs ! i) s' a'" by blast
    from placed_end [OF l(2) i(1) this] scansD [OF assms(2) l(1) uv(1)] i(2) show ?thesis by simp
  qed
  moreover have "z \<in> set (xs @ ys) \<longleftrightarrow>
      (\<exists>i < length (f # fs). \<exists>p. ptr_at D ((f # fs) ! i) p \<and> z = base + (x # offs) ! i + p)" for z
  proof -
    have "z \<in> set xs \<longleftrightarrow> (\<exists>p. ptr_at D f p \<and> z = base + x + p)"
      using assms(2) unfolding scans_def by auto
    moreover have "z \<in> set ys \<longleftrightarrow> (\<exists>i < length fs. \<exists>p. ptr_at D (fs ! i) p \<and> z = base + offs ! i + p)"
      using assms(3) unfolding scans_fields_def by blast
    ultimately show ?thesis by (auto simp: less_Suc_eq_0_disj)
  qed
  ultimately show ?thesis
    using assms(2,3) unfolding scans_fields_def scans_def by (simp add: sorted_wrt_append)
qed

lemma scans_struct:
  assumes "placed D 0 fs offs e" and "scans_fields D base fs offs xs"
  shows "scans D base (LStruct fs) xs"
proof -
  have "ptr_at D (LStruct fs) p \<longleftrightarrow> (\<exists>i < length fs. \<exists>q. ptr_at D (fs ! i) q \<and> p = offs ! i + q)" for p
    unfolding ptr_at_simps using assms(1) placed_unique [OF assms(1)] by blast
  then have "(\<lambda>p. base + p) ` {p. ptr_at D (LStruct fs) p} =
      {x. \<exists>i < length fs. \<exists>q. ptr_at D (fs ! i) q \<and> x = base + offs ! i + q}"
    by (auto simp: image_iff add.assoc)
  with assms(2) show ?thesis unfolding scans_def scans_fields_def by blast
qed

lemma closed_named:
  assumes "ranked rk D" and "dget D name = Some t"
  shows "closed_type D t"
  using ranked_def_names(2) [OF assms] by (simp add: closed_type_def)

lemma ptr_array_scan: "scans D base (LArray k LPtr) (map (\<lambda>i. base + i * 8) [0..<k])"
  "scans D base (LVector k LPtr) (map (\<lambda>i. base + i * 8) [0..<k])"
proof -
  have "scans D (base + i * 8) LPtr [base + i * 8]" for i
    by (auto simp: scans_def ptr_at_simps)
  then have "\<And>i. i < k \<Longrightarrow> scans D (base + i * 8) LPtr (map (\<lambda>i. [base + i * 8]) [0..<k] ! i)"
    by simp
  from scans_array [OF lay_ptr _ this, of k]
  show "scans D base (LArray k LPtr) (map (\<lambda>i. base + i * 8) [0..<k])"
    "scans D base (LVector k LPtr) (map (\<lambda>i. base + i * 8) [0..<k])"
    by (simp_all add: map_eq_conv concat_map_singleton)
qed

lemma offsets_of_scans:
  "ranked rk D \<Longrightarrow> closed_type D t \<Longrightarrow> (\<And>m. m \<in> type_names t \<Longrightarrow> rk m < n) \<Longrightarrow>
     \<exists>xs. offsets_of n D base t = Inr xs \<and> scans D base t xs"
  "ranked rk D \<Longrightarrow> (\<And>f. f \<in> set fs \<Longrightarrow> closed_type D f) \<Longrightarrow>
     (\<And>m f. f \<in> set fs \<Longrightarrow> m \<in> type_names f \<Longrightarrow> rk m < n) \<Longrightarrow> placed D off fs offs e \<Longrightarrow>
     \<exists>xs. offsets_fields n D base offs fs = Inr xs \<and> scans_fields D base fs offs xs"
proof (induction n D base t and n D base offs fs arbitrary: and off e rule: offsets_of_offsets_fields.induct)
  case (2 n D base k el)
  show ?case
  proof (cases "el = LPtr")
    case False
    have cl: "closed_type D el" "\<And>m. m \<in> type_names el \<Longrightarrow> rk m < n"
      using 2(3,4) by (simp_all add: closed_type_def)
    from type_size_align_total [OF 2(2) cl(1)] obtain s a where
      l: "type_size_align D el = Inr (s, a)" "lay D el s a" by blast
    have "\<exists>xs. offsets_of n D (base + i * s) el = Inr xs \<and> scans D (base + i * s) el xs" if "i < k" for i
      by (rule 2(1) [OF False l(1) refl _ 2(2) cl]) (use that in auto)
    then obtain g where g: "\<And>i. i < k \<Longrightarrow> offsets_of n D (base + i * s) el = Inr (g i)"
      "\<And>i. i < k \<Longrightarrow> scans D (base + i * s) el (g i)" by metis
    have "mapE (\<lambda>i. offsets_of n D (base + i * s) el) [0..<k] = Inr (map g [0..<k])"
      by (rule mapE_total) (simp add: g(1))
    moreover have "scans D base (LArray k el) (concat (map g [0..<k]))"
      by (rule scans_array(1) [OF l(2)]) (simp_all add: g(2))
    ultimately show ?thesis using False l(1) by simp
  qed (simp add: ptr_array_scan)
next
  case (3 n D base k el)
  show ?case
  proof (cases "el = LPtr")
    case False
    have cl: "closed_type D el" "\<And>m. m \<in> type_names el \<Longrightarrow> rk m < n"
      using 3(3,4) by (simp_all add: closed_type_def)
    from type_size_align_total [OF 3(2) cl(1)] obtain s a where
      l: "type_size_align D el = Inr (s, a)" "lay D el s a" by blast
    have "\<exists>xs. offsets_of n D (base + i * s) el = Inr xs \<and> scans D (base + i * s) el xs" if "i < k" for i
      by (rule 3(1) [OF False l(1) refl _ 3(2) cl]) (use that in auto)
    then obtain g where g: "\<And>i. i < k \<Longrightarrow> offsets_of n D (base + i * s) el = Inr (g i)"
      "\<And>i. i < k \<Longrightarrow> scans D (base + i * s) el (g i)" by metis
    have "mapE (\<lambda>i. offsets_of n D (base + i * s) el) [0..<k] = Inr (map g [0..<k])"
      by (rule mapE_total) (simp add: g(1))
    moreover have "scans D base (LVector k el) (concat (map g [0..<k]))"
      by (rule scans_array(2) [OF l(2)]) (simp_all add: g(2))
    ultimately show ?thesis using False l(1) by simp
  qed (simp add: ptr_array_scan)
next
  case (4 n D base fs)
  from struct_field_layout_placed [OF 4(2,3)] obtain l e where
    l: "struct_field_layout D fs = Inr l" "placed D 0 fs (map fst l) e" by blast
  have "\<exists>xs. offsets_fields n D base (map fst l) fs = Inr xs \<and> scans_fields D base fs (map fst l) xs"
    by (rule 4(1) [OF l(1) 4(2) _ _ l(2)]) (use 4(3,4) in \<open>auto simp: closed_type_def\<close>)
  with scans_struct [OF l(2)] l(1) show ?case by auto
next
  case (5 n D base name)
  from 5(3) obtain t where t: "dget D name = Some t" by (auto simp: closed_type_def dmem_dget)
  from 5(4) [of name] obtain m where m: "n = Suc m" by (cases n) auto
  have "\<exists>xs. offsets_of m D base t = Inr xs \<and> scans D base t xs"
    by (rule 5(1) [OF t m 5(2) closed_named [OF 5(2) t]])
      (use ranked_def_names(2) [OF 5(2) t] 5(4) [of name] m in fastforce)
  with t m show ?case by (auto simp: scans_def ptr_at_simps)
next
  case (9 n D base x offs f fs)
  from 9(6) obtain s a where pl: "placed D (x + s) fs offs e" by auto
  obtain xs where xs: "offsets_of n D (base + x) f = Inr xs" "scans D (base + x) f xs"
    using 9(1) [OF 9(3)] 9(4,5) by auto
  have "\<exists>ys. offsets_fields n D base offs fs = Inr ys \<and> scans_fields D base fs offs ys"
    by (rule 9(2) [OF xs(1) 9(3) _ _ pl]) (use 9(4,5) in auto)
  with xs scans_fields_Cons [OF 9(6) xs(2)] show ?case by auto
qed (auto simp: scans_def scans_fields_def ptr_at_simps dest: placed_length)

text \<open>
  For ranked definitions the cached size computation is the layout relation: it returns a
  size and an alignment for every type whose names are defined, and these are the ones the cache-free
  relation gives.
\<close>

theorem cached_layout_is_relation:
  assumes "ranked rk D" and "closed_type D t"
  shows "\<exists>s a. type_size_align D t = Inr (s, a) \<and> (\<forall>s' a'. lay D t s' a' \<longleftrightarrow> s' = s \<and> a' = a)"
proof -
  obtain s a where h: "type_size_align D t = Inr (s, a)" "lay D t s a"
    using type_size_align_total [OF assms] by blast
  have "\<forall>s' a'. lay D t s' a' \<longleftrightarrow> s' = s \<and> a' = a"
    using h(2) lay_unique(1) [OF h(2)] by blast
  with h(1) show ?thesis by blast
qed

text \<open>
  (C24) The pointer scan of the state layout terminates, lists every pointer slot of the type and
  nothing else, in increasing order without overlap, and every slot lies inside the type's size.
\<close>

theorem pointer_scan_exact:
  assumes "ranked rk D" and "closed_type D t"
  shows "\<exists>xs s a. offsets_of (length D) D base t = Inr xs \<and> type_size_align D t = Inr (s, a) \<and>
    set xs = (\<lambda>p. base + p) ` {p. ptr_at D t p} \<and> sorted_wrt (\<lambda>x y. x + 8 \<le> y) xs \<and>
    (\<forall>x \<in> set xs. base \<le> x \<and> x + 8 \<le> base + s)"
proof -
  obtain s a where l: "type_size_align D t = Inr (s, a)" "lay D t s a"
    using type_size_align_total [OF assms] by blast
  obtain xs where xs: "offsets_of (length D) D base t = Inr xs" "scans D base t xs"
    using offsets_of_scans(1) [OF assms closed_rank [OF assms]] by blast
  from scansD [OF xs(2) l(2)] xs l(1) show ?thesis unfolding scans_def by blast
qed

definition demo_state_defs :: llvm_defs where
  "demo_state_defs = [(''%LINK'', LStruct [LPtr, LInt 16]),
     (''%STATE'', LStruct [LPtr, LInt 16, LArray 2 (LNamed ''%LINK''), LArray 2 LPtr])]"

definition demo_rank :: "string \<Rightarrow> nat" where
  "demo_rank name = (if name = ''%STATE'' then 1 else 0)"

lemma demo_ranked: "ranked demo_rank demo_state_defs"
  by code_simp

lemma demo_closed: "closed_type demo_state_defs (LNamed ''%STATE'')"
  by code_simp

theorem cached_layout_is_relation_witness:
  "lay demo_state_defs (LNamed ''%STATE'') 64 8"
proof -
  have "type_size_align demo_state_defs (LNamed ''%STATE'') = Inr (64, 8)" by code_simp
  with cached_layout_is_relation [OF demo_ranked demo_closed] show ?thesis by simp
qed

theorem pointer_scan_exact_witness:
  "{p. ptr_at demo_state_defs (LNamed ''%STATE'') p} = {0, 16, 32, 48, 56}"
proof -
  let ?t = "LNamed ''%STATE''"
  have c: "offsets_of (length demo_state_defs) demo_state_defs 0 ?t = Inr [0, 16, 32, 48, 56]"
    by code_simp
  obtain xs where xs: "offsets_of (length demo_state_defs) demo_state_defs 0 ?t = Inr xs"
    "set xs = (\<lambda>p. 0 + p) ` {p. ptr_at demo_state_defs ?t p}"
    using pointer_scan_exact [OF demo_ranked demo_closed, of 0] by blast
  from xs(1) have "xs = [0, 16, 32, 48, 56]" unfolding c by simp
  with xs(2) show ?thesis by simp
qed

end
