(* ===== verification/Execution_Bundle.thy ===== *)
theory Execution_Bundle
  imports Harness_Abi Json Layout_Relation
begin

text \<open>
  The documents of an execution bundle (\<open>compiler/harness/contract.py\<close>): \<open>abi.json\<close> and
  \<open>state-layout.json\<close>. The C layout of the frame and of the harness state is computed from the
  target ABI by \<open>region_layout\<close>; the regions of the target's writable globals come from their IR
  types. Reading the state table and the named types out of the IR text is not modelled:
  \<open>target_regions\<close> takes the globals (name and type text) and the definitions. A parameter is
  compared by identity in the code and by value here, which makes no difference to
  \<open>harness_fields\<close>: an equal parameter has the same index and is skipped as already seen.
\<close>

section \<open>The ABI document\<close>

definition POINTER_STORAGE_CAPACITY :: int where
  "POINTER_STORAGE_CAPACITY = 4096"

definition json_opt_int :: "int option \<Rightarrow> json" where
  "json_opt_int v = (case v of None \<Rightarrow> JNull | Some i \<Rightarrow> JInt i)"

fun spec_json :: "type_spec \<Rightarrow> abi_error + json" where
  "spec_json (TypeSpec kind name ct sz len el cnt al) =
     bindE (byte_size (TypeSpec kind name ct sz len el cnt al)) (\<lambda>b.
     let base = [(''kind'', JStr kind), (''name'', JStr name),
                 (''c_type'', (case ct of None \<Rightarrow> JNull | Some c \<Rightarrow> JStr c)), (''size'', JInt sz),
                 (''byte_size'', JInt b), (''align'', JInt al), (''length'', json_opt_int len),
                 (''count'', json_opt_int cnt)] in
     case el of
       None \<Rightarrow> Inr (JObj base)
     | Some e \<Rightarrow> bindE (spec_json e) (\<lambda>j. Inr (JObj (base @ [(''element'', j)]))))"

definition param_json :: "param \<Rightarrow> abi_error + json" where
  "param_json p = bindE (spec_json (p_spec p)) (\<lambda>s. Inr (JObj
     [(''name'', JStr (p_name p)), (''block_kind'', JStr (p_block_kind p)),
      (''constant'', JBool (p_constant p)), (''offset'', json_opt_int (p_offset p)),
      (''index'', json_opt_int (p_index p)), (''spec'', s)]))"

section \<open>C layout\<close>

record region_field =
  fl_name :: string
  fl_size :: int
  fl_align :: int
  fl_kind :: string
  fl_pointee :: int

record region =
  rg_name :: string
  rg_offset :: int
  rg_size :: int
  rg_align :: int
  rg_kind :: string
  rg_pointee :: int

text \<open>A field with the defaults of the dataclass.\<close>

definition value_field :: "string \<Rightarrow> int \<Rightarrow> int \<Rightarrow> region_field" where
  "value_field name sz al = \<lparr>fl_name = name, fl_size = sz, fl_align = al, fl_kind = ''value'', fl_pointee = 0\<rparr>"

definition c_align_up :: "int \<Rightarrow> int \<Rightarrow> int" where
  "c_align_up v al = (if al \<le> 1 then v else (v + al - 1) div al * al)"

fun region_loop :: "int \<Rightarrow> int \<Rightarrow> region_field list \<Rightarrow> int \<times> int \<times> region list" where
  "region_loop offset max_align [] = (offset, max_align, [])"
| "region_loop offset max_align (f # fs) =
     (let off = c_align_up offset (fl_align f);
          (e, ma, rs) = region_loop (off + fl_size f) (max max_align (fl_align f)) fs in
      (e, ma, \<lparr>rg_name = fl_name f, rg_offset = off, rg_size = fl_size f, rg_align = fl_align f,
               rg_kind = fl_kind f, rg_pointee = fl_pointee f\<rparr> # rs))"

definition region_layout :: "region_field list \<Rightarrow> int \<Rightarrow> int \<times> int \<times> region list" where
  "region_layout flds base =
     (let (offset, max_align, regions) = region_loop base 1 flds in
      (c_align_up offset max_align - base, max_align, regions))"

definition spec_size_align :: "type_spec \<Rightarrow> abi_error + int \<times> int" where
  "spec_size_align spec = bindE (byte_size spec) (\<lambda>b. Inr (b, max 1 (ts_align spec)))"

text \<open>\<open>frame_layout\<close>: a pointer input is stored as its bounded backing object.\<close>

definition frame_field :: "param \<Rightarrow> abi_error + region_field" where
  "frame_field p =
     bindE (if ts_kind (p_spec p) = ''pointer'' then Inr (POINTER_STORAGE_CAPACITY, 1)
            else spec_size_align (p_spec p))
       (\<lambda>(sz, al). Inr (value_field (p_name p) sz (max 1 al)))"

definition frame_c_name :: "target_abi \<Rightarrow> param \<Rightarrow> abi_error + string" where
  "frame_c_name abi p =
     (if a_kind abi = ''FUNCTION_BLOCK'' then
        (case p_index p of None \<Rightarrow> Inl AbiTypeError | Some i \<Rightarrow> Inr (CHR ''f'' # show_int (i - 1)))
      else Inr (CHR ''f'' # (case p_index p of None \<Rightarrow> ''None'' | Some i \<Rightarrow> show_int i)))"

definition frame_entry :: "target_abi \<Rightarrow> param \<times> region \<Rightarrow> abi_error + json" where
  "frame_entry abi pr = (case pr of (p, r) \<Rightarrow>
     bindE (frame_c_name abi p) (\<lambda>c. bindE (spec_json (p_spec p)) (\<lambda>s. Inr (JObj
       [(''name'', JStr (p_name p)), (''c_name'', JStr c), (''offset'', JInt (rg_offset r)),
        (''size'', JInt (rg_size r)), (''align'', JInt (rg_align r)),
        (''block_kind'', JStr (p_block_kind p)), (''spec'', s)]))))"

definition frame_layout :: "target_abi \<Rightarrow> abi_error + json" where
  "frame_layout abi =
     bindE (mapE frame_field (frame_params abi)) (\<lambda>flds.
     case region_layout flds 0 of (sz, al, layout) \<Rightarrow>
     bindE (mapE (frame_entry abi) (zip (frame_params abi) layout)) (\<lambda>es. Inr (JObj
       [(''size'', JInt sz), (''align'', JInt al), (''fields'', JList es)])))"

definition params_json :: "param list \<Rightarrow> abi_error + json" where
  "params_json ps = bindE (mapE param_json ps) (\<lambda>js. Inr (JList js))"

definition abi_json :: "target_abi \<Rightarrow> abi_error + json" where
  "abi_json abi =
     bindE (frame_layout abi) (\<lambda>frame.
     bindE (params_json (frame_params abi)) (\<lambda>frame_fields.
     bindE (params_json (shared_params abi)) (\<lambda>shared_fields.
     bindE (params_json (a_state_fields abi)) (\<lambda>state_fields.
     bindE (params_json (a_outputs abi)) (\<lambda>outputs.
     bindE (params_json (a_snapshot_fields abi)) (\<lambda>snapshot_fields.
     bindE (case a_ret abi of None \<Rightarrow> Inr JNull | Some r \<Rightarrow> param_json r) (\<lambda>ret.
     Inr (JObj
       [(''schema_version'', JStr ''semantist.abi/1.0.0''),
        (''target'', JObj [(''name'', JStr (a_name abi)), (''kind'', JStr (a_kind abi)),
                           (''instance_size'', JInt (a_instance_size abi)),
                           (''instance_align'', JInt (a_instance_align abi))]),
        (''frame'', frame), (''frame_fields'', frame_fields), (''shared_fields'', shared_fields),
        (''state_fields'', state_fields), (''outputs'', outputs),
        (''snapshot_fields'', snapshot_fields), (''return'', ret)]))))))))"

section \<open>The harness state\<close>

definition harness_candidates :: "target_abi \<Rightarrow> param list" where
  "harness_candidates abi =
     a_params abi @
     (if a_kind abi = ''FUNCTION'' then
        filter (\<lambda>p. p_block_kind p \<in> {''VAR_IN_OUT'', ''VAR_OUTPUT''}) (map cs_param (a_call_slots abi))
        @ filter (\<lambda>p. p_block_kind p = ''VAR_INPUT'' \<and> p_constant p) (a_params abi)
      else filter (\<lambda>p. p \<notin> set (a_params abi)) (a_state_fields abi))"

definition needs_backing :: "target_abi \<Rightarrow> param \<Rightarrow> bool" where
  "needs_backing abi p =
     (if a_kind abi = ''FUNCTION'' then
        p_block_kind p \<in> {''VAR_IN_OUT'', ''VAR_OUTPUT''} \<or> ts_kind (p_spec p) = ''pointer''
        \<or> (p_block_kind p = ''VAR_INPUT'' \<and> p_constant p)
      else p_block_kind p = ''VAR_IN_OUT'' \<or> ts_kind (p_spec p) = ''pointer'')"

definition backing_field :: "param \<Rightarrow> int \<Rightarrow> abi_error + region_field" where
  "backing_field p i =
     (if ts_kind (p_spec p) = ''pointer'' then
        bindE (pointee_bytes (p_spec p)) (\<lambda>n. Inr
          \<lparr>fl_name = ''backing_'' @ show_int i, fl_size = POINTER_STORAGE_CAPACITY, fl_align = 8,
           fl_kind = ''backing'', fl_pointee = n\<rparr>)
      else bindE (spec_size_align (p_spec p)) (\<lambda>(sz, al). Inr
          \<lparr>fl_name = ''backing_'' @ show_int i, fl_size = sz, fl_align = al,
           fl_kind = ''backing'', fl_pointee = 0\<rparr>))"

fun backing_fields :: "target_abi \<Rightarrow> int set \<Rightarrow> param list \<Rightarrow> abi_error + region_field list" where
  "backing_fields abi seen [] = Inr []"
| "backing_fields abi seen (p # ps) =
     (case p_index p of
        None \<Rightarrow> backing_fields abi seen ps
      | Some i \<Rightarrow>
        if i \<in> seen \<or> \<not> needs_backing abi p then backing_fields abi seen ps
        else bindE (backing_field p i) (\<lambda>f.
             bindE (backing_fields abi (insert i seen) ps) (\<lambda>fs. Inr (f # fs))))"

definition harness_fields :: "target_abi \<Rightarrow> abi_error + region_field list" where
  "harness_fields abi =
     bindE (backing_fields abi {} (harness_candidates abi)) (\<lambda>backing.
     bindE (case a_ret abi of
              None \<Rightarrow> Inr []
            | Some r \<Rightarrow>
              if a_kind abi = ''FUNCTION'' then
                bindE (spec_size_align (p_spec r)) (\<lambda>(sz, al). Inr
                  [\<lparr>fl_name = ''result'', fl_size = sz, fl_align = al, fl_kind = ''result'', fl_pointee = 0\<rparr>])
              else Inr []) (\<lambda>result.
     Inr ((if a_kind abi = ''FUNCTION_BLOCK'' then
             [\<lparr>fl_name = ''inst'', fl_size = a_instance_size abi, fl_align = max 1 (a_instance_align abi),
               fl_kind = ''fb_instance'', fl_pointee = 0\<rparr>] else [])
          @ backing @ result @
          [value_field ''vclock_ns'' 8 8, value_field ''frame_index'' 8 8, value_field ''loop_ticks'' 8 8,
           value_field ''initialized'' 1 1, value_field ''budget_exceeded'' 1 1])))"

definition param_pointer_offsets :: "target_abi \<Rightarrow> int \<Rightarrow> int list" where
  "param_pointer_offsets abi base =
     (if a_kind abi \<noteq> ''FUNCTION_BLOCK'' then []
      else sorted_list_of_set (set (base # List.map_filter (\<lambda>p.
        case p_offset p of
          None \<Rightarrow> None
        | Some off \<Rightarrow> if ts_kind (p_spec p) = ''pointer'' \<or> p_block_kind p = ''VAR_IN_OUT''
                       then Some (base + off) else None) (a_state_fields abi))))"

record harness_layout =
  hl_name :: string
  hl_size :: int
  hl_align :: int
  hl_fields :: "region list"
  hl_pointer_offsets :: "int list"

definition harness_state_layout :: "target_abi \<Rightarrow> abi_error + harness_layout" where
  "harness_state_layout abi =
     bindE (harness_fields abi) (\<lambda>flds.
     case region_layout flds 0 of (sz, al, field_layouts) \<Rightarrow>
     Inr \<lparr>hl_name = ''semantist_harness_state'', hl_size = sz, hl_align = al,
          hl_fields = field_layouts, hl_pointer_offsets = param_pointer_offsets abi 0\<rparr>)"

section \<open>The state layout document\<close>

text \<open>A global of the state table: its name (with the leading \<open>@\<close>) and the text of its type.\<close>

type_synonym table_global = "string \<times> string"

record state_region =
  sr_index :: nat
  sr_name :: string
  sr_source :: string
  sr_size :: int
  sr_llvm_type :: "string option"
  sr_pointer_offsets :: "int list"
  sr_fields :: "region list"

record state_layout =
  sl_total_size :: int
  sl_harness_region_index :: nat
  sl_regions :: "state_region list"

text \<open>\<open>_pointer_offsets\<close>: a type text that does not parse has no pointers.\<close>

definition pointer_offsets :: "llvm_defs \<Rightarrow> string \<Rightarrow> abi_error + int list" where
  "pointer_offsets D type_text =
     (case parse_type type_text of
        Inl _ \<Rightarrow> Inr []
      | Inr t \<Rightarrow> bindE (lift_layout (offsets_of (length D) D 0 t)) (\<lambda>xs. Inr (map int xs)))"

definition target_region :: "llvm_defs \<Rightarrow> nat \<times> table_global \<Rightarrow> abi_error + state_region" where
  "target_region D ig = (case ig of (index, name, llvm_type) \<Rightarrow>
     bindE (pointer_offsets D llvm_type) (\<lambda>offs. Inr
       \<lparr>sr_index = index, sr_name = strip_quotes (tl name), sr_source = ''target'',
        sr_size = (case bindE (parse_type llvm_type) (type_size_align D) of
                     Inl _ \<Rightarrow> 0 | Inr (s, _) \<Rightarrow> int s),
        sr_llvm_type = Some llvm_type, sr_pointer_offsets = offs, sr_fields = []\<rparr>))"

definition target_regions :: "llvm_defs \<Rightarrow> table_global list \<Rightarrow> abi_error + state_region list" where
  "target_regions D globals = mapE (target_region D) (enumerate 0 globals)"

definition state_layout_json :: "target_abi \<Rightarrow> llvm_defs \<Rightarrow> table_global list \<Rightarrow> abi_error + state_layout" where
  "state_layout_json abi D globals =
     bindE (target_regions D globals) (\<lambda>regions.
     bindE (harness_state_layout abi) (\<lambda>harness.
     let entry = \<lparr>sr_index = length regions, sr_name = hl_name harness, sr_source = ''harness'',
           sr_size = hl_size harness, sr_llvm_type = None,
           sr_pointer_offsets = hl_pointer_offsets harness, sr_fields = hl_fields harness\<rparr>;
         all_regions = regions @ [entry] in
     Inr \<lparr>sl_total_size = sum_list (map sr_size all_regions), sl_harness_region_index = sr_index entry,
          sl_regions = all_regions\<rparr>))"

section \<open>Fields have sizes\<close>

definition abi_sized :: "target_abi \<Rightarrow> bool" where
  "abi_sized abi = (0 \<le> a_instance_size abi \<and>
     (\<forall>p \<in> set (a_params abi) \<union> set (a_state_fields abi) \<union> cs_param ` set (a_call_slots abi)
        \<union> set_option (a_ret abi). spec_wf (p_spec p)))"

lemma symbol_param_wf:
  assumes "symbol_param sy env im = Inr p" and "capacities_ok env"
  shows "spec_wf (p_spec p)"
proof -
  from assms(1) obtain tn spec ok where s: "stg_spec env tn 0 = Inr spec"
    "p_spec p = spec \<or> p_spec p = TypeSpec ''opaque'' (ts_name spec) None 0 None None None 1"
    by (auto simp: symbol_param_def res_simps Let_def split: option.splits if_splits)
  with stg_spec_wf [OF s(1) assms(2)] show ?thesis by auto
qed

lemma check_field_wf:
  assumes "check_field p t (int sz) al = Inr p'" and "spec_wf (p_spec p)"
  shows "spec_wf (p_spec p')"
proof -
  let ?s = "p_spec p"
  from assms(1) have "p_spec p' = ?s \<or> (ts_kind ?s = ''opaque'' \<and> p_spec p' = TypeSpec (ts_kind ?s)
      (ts_name ?s) (ts_c_type ?s) (int sz) (ts_length ?s) (ts_element ?s) (ts_count ?s) al)"
    unfolding check_field_def Let_def by (auto simp: res_simps split: if_splits)
  with assms(2) show ?thesis by (elim disjE) auto
qed

lemma fb_member_wf:
  assumes "fb_member env by_name layout im = Inr p" and "capacities_ok env"
  shows "spec_wf (p_spec p)"
proof -
  obtain index member where im: "im = (index, member)" by (cases im)
  from assms(1) im obtain sy q t sz al p' where
    h: "symbol_param sy env True = Inr q" "check_field q t (int sz) al = Inr p'" "p_spec p = p_spec p'"
    by (auto simp: fb_member_def res_simps split: option.splits if_splits prod.splits)
  from check_field_wf [OF h(2) symbol_param_wf [OF h(1) assms(2)]] h(3) show ?thesis by simp
qed

lemma function_slot_wf:
  assumes "function_slot alloca irs env by_name b = Inr sl" and "capacities_ok env"
  shows "spec_wf (p_spec (cs_param sl))"
proof -
  from assms(1) obtain sy p0 where sy: "symbol_param sy env False = Inr p0"
    and h: "p_spec (cs_param sl) = p_spec p0 \<or>
      (\<exists>t sz al. check_field (p0\<lparr>p_index := Some (int (pb_position b))\<rparr>) t (int sz) al = Inr (cs_param sl))"
    by (auto simp: function_slot_def res_simps Let_def split: option.splits if_splits prod.splits sum.splits) blast+
  have "spec_wf (p_spec p0)" by (rule symbol_param_wf [OF sy assms(2)])
  with h check_field_wf show ?thesis by fastforce
qed

lemma function_block_abi_sized:
  assumes "function_block_abi name st members env by_name = Inr abi" and "capacities_ok env"
  shows "abi_sized abi"
proof -
  from function_block_abi_layout [OF assms(1)] obtain layout s where
    h: "a_instance_size abi = int s" "\<And>i. i < length (a_state_fields abi) \<Longrightarrow>
      fb_member env by_name layout (Suc i, snd (members ! Suc i)) = Inr (a_state_fields abi ! i)"
    by metis
  have "spec_wf (p_spec p)" if "p \<in> set (a_state_fields abi)" for p
    using that h(2) fb_member_wf [OF _ assms(2)] by (fastforce simp: in_set_conv_nth)
  moreover have "set (a_params abi) \<subseteq> set (a_state_fields abi)" "a_call_slots abi = []" "a_ret abi = None"
    using assms(1) by (auto simp: function_block_abi_def res_simps Let_def
        split: option.splits llvm_type.splits if_splits)
  ultimately show ?thesis using h(1) unfolding abi_sized_def by auto
qed

lemma last_filter_in: "filter P xs \<noteq> [] \<Longrightarrow> last (filter P xs) \<in> set xs"
  using last_in_set [of "filter P xs"] by auto

lemma function_abi_sized:
  assumes "function_abi name bs alloca irs rt env by_name = Inr abi" and "capacities_ok env"
  shows "abi_sized abi"
proof -
  obtain slots where sl: "mapE (function_slot alloca irs env by_name) bs = Inr slots"
    using assms(1) by (auto simp: function_abi_def res_simps)
  have f: "a_instance_size abi = 0" "a_state_fields abi = []" "a_call_slots abi = slots"
      "set (a_params abi) \<subseteq> cs_param ` set slots"
    using assms(1) sl by (auto simp: function_abi_def res_simps Let_def split: prod.splits)
  have r: "set_option (a_ret abi) \<subseteq> cs_param ` set slots \<or> (\<exists>sy p t sz p'.
      symbol_param sy env False = Inr p \<and> check_field p t (int sz) 1 = Inr p' \<and> a_ret abi = Some p')"
    using assms(1) sl last_filter_in [of _ slots]
    by (auto simp: function_abi_def res_simps Let_def split: option.splits if_splits prod.splits)
  have "spec_wf (p_spec p)" if "p \<in> cs_param ` set slots" for p
    using that mapE_set [OF sl] function_slot_wf [OF _ assms(2)] by blast
  moreover from this r have "spec_wf (p_spec p)" if "a_ret abi = Some p" for p
    using that symbol_param_wf [OF _ assms(2)] check_field_wf by fastforce
  ultimately show ?thesis using f unfolding abi_sized_def by auto
qed

section \<open>Regions\<close>

lemma c_align_up_props:
  assumes "1 \<le> al"
  shows "v \<le> c_align_up v al" and "c_align_up v al mod al = 0"
proof -
  have "v \<le> c_align_up v al \<and> c_align_up v al mod al = 0"
  proof (cases "al = 1")
    case False
    have "(v + al - 1) div al * al = (v + al - 1) - (v + al - 1) mod al"
      by (simp add: minus_mod_eq_div_mult)
    moreover have "(v + al - 1) mod al < al" using assms by simp
    ultimately have "v \<le> (v + al - 1) div al * al" by linarith
    with False assms show ?thesis by (simp add: c_align_up_def)
  qed (simp add: c_align_up_def)
  then show "v \<le> c_align_up v al" "c_align_up v al mod al = 0" by simp_all
qed

definition layout_field_ok :: "region_field \<Rightarrow> bool" where
  "layout_field_ok f = (0 \<le> fl_size f \<and> 1 \<le> fl_align f)"

definition region_in :: "int \<Rightarrow> int \<Rightarrow> int \<Rightarrow> region \<Rightarrow> bool" where
  "region_in lo hi ma r = (lo \<le> rg_offset r \<and> 0 \<le> rg_size r \<and> rg_offset r + rg_size r \<le> hi \<and>
     1 \<le> rg_align r \<and> rg_align r \<le> ma \<and> rg_offset r mod rg_align r = 0)"

abbreviation in_sequence :: "region list \<Rightarrow> bool" where
  "in_sequence \<equiv> sorted_wrt (\<lambda>r r'. rg_offset r + rg_size r \<le> rg_offset r')"

lemma region_loop_sound:
  "list_all layout_field_ok fs \<Longrightarrow> region_loop off ma fs = (e, ma', rs) \<Longrightarrow>
     off \<le> e \<and> ma \<le> ma' \<and> list_all (region_in off e ma') rs \<and> in_sequence rs \<and>
     map rg_name rs = map fl_name fs"
proof (induction fs arbitrary: off ma e ma' rs)
  case (Cons f fs)
  let ?o = "c_align_up off (fl_align f)"
  from Cons.prems(2) obtain rs' where
    r: "region_loop (?o + fl_size f) (max ma (fl_align f)) fs = (e, ma', rs')"
    and rs: "rs = \<lparr>rg_name = fl_name f, rg_offset = ?o, rg_size = fl_size f, rg_align = fl_align f,
               rg_kind = fl_kind f, rg_pointee = fl_pointee f\<rparr> # rs'"
    by (auto simp: Let_def split: prod.splits)
  have f: "0 \<le> fl_size f" "1 \<le> fl_align f" using Cons.prems(1) by (simp_all add: layout_field_ok_def)
  have IH: "?o + fl_size f \<le> e" "max ma (fl_align f) \<le> ma'"
    "list_all (region_in (?o + fl_size f) e ma') rs'" "in_sequence rs'" "map rg_name rs' = map fl_name fs"
    using Cons.IH [OF _ r] Cons.prems(1) by simp_all
  have later: "list_all (region_in off e ma') rs'"
    using IH(3) c_align_up_props(1) [OF f(2), of off] f(1)
    unfolding list_all_iff region_in_def by fastforce
  have "\<forall>r \<in> set rs'. ?o + fl_size f \<le> rg_offset r"
    using IH(3) by (auto simp: list_all_iff region_in_def)
  moreover have "region_in off e ma' \<lparr>rg_name = fl_name f, rg_offset = ?o, rg_size = fl_size f,
      rg_align = fl_align f, rg_kind = fl_kind f, rg_pointee = fl_pointee f\<rparr>"
    using IH(1,2) f c_align_up_props [OF f(2), of off] unfolding region_in_def by simp
  moreover have "off \<le> e" using IH(1) f c_align_up_props(1) [OF f(2), of off] by linarith
  ultimately show ?case using IH later unfolding rs by simp
qed simp

lemma region_layout_sound:
  assumes "list_all layout_field_ok fs" and "region_layout fs 0 = (sz, al, rs)"
  shows "list_all (region_in 0 sz al) rs \<and> in_sequence rs \<and> map rg_name rs = map fl_name fs \<and>
    1 \<le> al \<and> sz mod al = 0 \<and> 0 \<le> sz"
proof -
  obtain e ma rs' where r: "region_loop 0 1 fs = (e, ma, rs')" by (cases "region_loop 0 1 fs")
  with assms(2) have eq: "sz = c_align_up e ma" "al = ma" "rs = rs'" by (auto simp: region_layout_def)
  from region_loop_sound [OF assms(1) r]
  have h: "0 \<le> e" "1 \<le> ma" "list_all (region_in 0 e ma) rs'" "in_sequence rs'"
    "map rg_name rs' = map fl_name fs" by simp_all
  have "list_all (region_in 0 sz al) rs'"
    using h(3) c_align_up_props(1) [OF h(2), of e] eq unfolding list_all_iff region_in_def by fastforce
  with h eq c_align_up_props [OF h(2), of e] show ?thesis by simp
qed

section \<open>The fields of the harness state\<close>

lemma spec_size_align_ok:
  assumes "spec_wf s"
  shows "\<exists>n. spec_size_align s = Inr (n, max 1 (ts_align s)) \<and> 0 \<le> n"
  using spec_wf_byte_size [OF assms] by (auto simp: spec_size_align_def)

lemma pointee_bytes_ok:
  assumes "spec_wf s"
  shows "\<exists>n. pointee_bytes s = Inr n"
proof (cases "ts_kind s = ''pointer''")
  case True
  with assms obtain e where "ts_element s = Some e" "spec_wf e" by (cases s) (auto split: option.splits)
  with spec_wf_byte_size [OF this(2)] True show ?thesis by (auto simp: pointee_bytes_def)
qed (auto simp: pointee_bytes_def split: option.splits)

lemma backing_field_ok:
  assumes "spec_wf (p_spec p)"
  shows "\<exists>f. backing_field p i = Inr f \<and> layout_field_ok f \<and> fl_name f = ''backing_'' @ show_int i"
proof (cases "ts_kind (p_spec p) = ''pointer''")
  case True
  with pointee_bytes_ok [OF assms] show ?thesis
    by (auto simp: backing_field_def layout_field_ok_def POINTER_STORAGE_CAPACITY_def)
next
  case False
  with spec_size_align_ok [OF assms] show ?thesis by (auto simp: backing_field_def layout_field_ok_def)
qed

lemma backing_fields_ok:
  "(\<And>p. p \<in> set ps \<Longrightarrow> spec_wf (p_spec p)) \<Longrightarrow>
     \<exists>fs is. backing_fields abi seen ps = Inr fs \<and> list_all layout_field_ok fs \<and>
       map fl_name fs = map (\<lambda>i. ''backing_'' @ show_int i) is \<and> distinct is \<and> set is \<inter> seen = {}"
proof (induction ps arbitrary: seen)
  case (Cons p ps)
  show ?case
  proof (cases "\<exists>i. p_index p = Some i \<and> i \<notin> seen \<and> needs_backing abi p")
    case True
    then obtain i where i: "p_index p = Some i" "i \<notin> seen" "needs_backing abi p" by blast
    obtain f where f: "backing_field p i = Inr f" "layout_field_ok f" "fl_name f = ''backing_'' @ show_int i"
      using backing_field_ok [of p i] Cons.prems by auto
    obtain fs js where "backing_fields abi (insert i seen) ps = Inr fs" "list_all layout_field_ok fs"
      "map fl_name fs = map (\<lambda>i. ''backing_'' @ show_int i) js" "distinct js" "set js \<inter> insert i seen = {}"
      using Cons.IH [of "insert i seen"] Cons.prems by auto
    with f i show ?thesis by (intro exI [of _ "f # fs"] exI [of _ "i # js"]) auto
  next
    case False
    then have "backing_fields abi seen (p # ps) = backing_fields abi seen ps"
      by (auto split: option.splits)
    with Cons show ?thesis by auto
  qed
qed auto

lemma show_pos_inj: "0 \<le> i \<Longrightarrow> 0 \<le> j \<Longrightarrow> show_pos i = show_pos j \<Longrightarrow> i = j"
  using read_base_show_pos by metis

lemma show_int_inj: "show_int i = show_int j \<Longrightarrow> i = j"
proof -
  assume eq: "show_int i = show_int j"
  have sg: "hd (show_pos k) \<noteq> CHR ''-''" if "0 \<le> k" for k
    using hd_show_pos [OF that] by (auto simp: is_digit_def)
  have h: "hd (show_int k) = CHR ''-'' \<longleftrightarrow> k < 0" for k
    using sg [of k] by (auto simp: show_int_def)
  from h [of i] h [of j] eq have "i < 0 \<longleftrightarrow> j < 0" by simp
  with eq show_pos_inj [of i j] show_pos_inj [of "- i" "- j"] show "i = j"
    by (auto simp: show_int_def split: if_splits)
qed

lemma harness_fields_ok:
  assumes "abi_sized abi"
  shows "\<exists>fs. harness_fields abi = Inr fs \<and> list_all layout_field_ok fs \<and> distinct (map fl_name fs)"
proof -
  have wf: "spec_wf (p_spec p)" if "p \<in> set (harness_candidates abi)" for p
    using that assms by (auto simp: harness_candidates_def abi_sized_def split: if_splits)
  obtain fs js where b: "backing_fields abi {} (harness_candidates abi) = Inr fs" "list_all layout_field_ok fs"
    "map fl_name fs = map (\<lambda>i. ''backing_'' @ show_int i) js" "distinct js"
    using backing_fields_ok [of "harness_candidates abi" abi "{}"] wf by auto
  have names: "distinct (map fl_name fs)" "\<forall>n \<in> fl_name ` set fs. take 2 n = ''ba''"
  proof -
    show "distinct (map fl_name fs)" unfolding b(3) using b(4)
      by (simp add: distinct_map inj_on_def show_int_inj)
    have "\<forall>n \<in> set (map fl_name fs). take 2 n = ''ba''" unfolding b(3) by auto
    then show "\<forall>n \<in> fl_name ` set fs. take 2 n = ''ba''" by simp
  qed
  obtain rs where r: "(case a_ret abi of
              None \<Rightarrow> Inr []
            | Some r \<Rightarrow>
              if a_kind abi = ''FUNCTION'' then
                bindE (spec_size_align (p_spec r)) (\<lambda>(sz, al). Inr
                  [\<lparr>fl_name = ''result'', fl_size = sz, fl_align = al, fl_kind = ''result'', fl_pointee = 0\<rparr>])
              else Inr []) = Inr rs" "list_all layout_field_ok rs" "map fl_name rs \<in> {[], [''result'']}"
  proof (cases "a_ret abi")
    case (Some r)
    with assms have "spec_wf (p_spec r)" by (simp add: abi_sized_def)
    from spec_size_align_ok [OF this] obtain n where
      "spec_size_align (p_spec r) = Inr (n, max 1 (ts_align (p_spec r)))" "0 \<le> n" by blast
    with Some that show thesis by (cases "a_kind abi = ''FUNCTION''") (simp_all add: layout_field_ok_def)
  qed (use that in simp)
  have "0 \<le> a_instance_size abi" using assms by (simp add: abi_sized_def)
  moreover have "n \<notin> fl_name ` set fs" if "take 2 n \<noteq> ''ba''" for n using names(2) that by blast
  moreover have "f \<in> set fs \<Longrightarrow> fl_name f \<noteq> ''result''" for f using names(2) by fastforce
  ultimately show ?thesis using b(1,2) names(1) r
    by (auto simp: harness_fields_def value_field_def layout_field_ok_def)
qed

text \<open>
  (C29) The C layout of the harness state of every ABI the compiler computes: \<open>harness_state_layout\<close>
  returns, its regions have distinct names, follow one another without overlap, each is aligned and
  lies inside the state, and the size of the state is a multiple of its alignment.
\<close>

theorem harness_layout_sound:
  assumes "function_block_abi name st members env by_name = Inr abi
      \<or> function_abi name bindings alloca ir_params return_type env by_name = Inr abi"
    and "capacities_ok env"
  shows "\<exists>L. harness_state_layout abi = Inr L \<and> distinct (map rg_name (hl_fields L)) \<and>
    sorted_wrt (\<lambda>r r'. rg_offset r + rg_size r \<le> rg_offset r') (hl_fields L) \<and>
    hl_size L mod hl_align L = 0 \<and>
    (\<forall>r \<in> set (hl_fields L). 0 \<le> rg_offset r \<and> 0 \<le> rg_size r \<and> rg_offset r + rg_size r \<le> hl_size L \<and>
       1 \<le> rg_align r \<and> rg_align r \<le> hl_align L \<and> rg_offset r mod rg_align r = 0)"
proof -
  from assms have "abi_sized abi" using function_block_abi_sized function_abi_sized by blast
  from harness_fields_ok [OF this] obtain fs where
    fs: "harness_fields abi = Inr fs" "list_all layout_field_ok fs" "distinct (map fl_name fs)" by blast
  obtain sz al rs where l: "region_layout fs 0 = (sz, al, rs)" by (cases "region_layout fs 0")
  from region_layout_sound [OF fs(2) l] fs(3) show ?thesis
    by (simp add: harness_state_layout_def fs(1) l list_all_iff region_in_def)
qed

theorem harness_layout_sound_witness:
  "\<exists>L. harness_state_layout demo_abi = Inr L \<and> distinct (map rg_name (hl_fields L)) \<and>
    (\<forall>r \<in> set (hl_fields L). rg_offset r + rg_size r \<le> hl_size L)"
  using harness_layout_sound [OF disjI1 [OF demo_abi_computed] demo_capacities] by blast

lemma demo_state_layout:
  "state_layout_json demo_abi demo_state_defs [(''@X'', ''%STATE''), (''@N'', ''[2 x ptr]'')] = Inr
     \<lparr>sl_total_size = 136, sl_harness_region_index = 2, sl_regions =
       [\<lparr>sr_index = 0, sr_name = ''X'', sr_source = ''target'', sr_size = 64,
         sr_llvm_type = Some ''%STATE'', sr_pointer_offsets = [0, 16, 32, 48, 56], sr_fields = []\<rparr>,
        \<lparr>sr_index = 1, sr_name = ''N'', sr_source = ''target'', sr_size = 16,
         sr_llvm_type = Some ''[2 x ptr]'', sr_pointer_offsets = [0, 8], sr_fields = []\<rparr>,
        \<lparr>sr_index = 2, sr_name = ''semantist_harness_state'', sr_source = ''harness'', sr_size = 56,
         sr_llvm_type = None, sr_pointer_offsets = [0], sr_fields =
           hl_fields (projr (harness_state_layout demo_abi))\<rparr>]\<rparr>"
  by code_simp

end
