(* ===== verification/Unit_Structure.thy ===== *)
theory Unit_Structure
  imports St_Lexer
begin

text \<open>
  The structural scan of \<open>compiler/intake/structure.py\<close>: the top-level declarations of an ST file,
  found in the significant tokens of the lossless tokenizer, each with its character span, its
  members and the namespace and origin comment it stands under. The index loops of
  \<open>split_units\<close> are recursions over the token index; the comments ahead are a list that is
  consumed. The theorems say that spans are ordered, disjoint and nested, and that a declaration
  keyword outside every unit is the name of a namespace, which happens.
\<close>

section \<open>Keywords\<close>

definition UNIT_END :: "(string \<times> string) list" where
  "UNIT_END =
    [(''FUNCTION'', ''END_FUNCTION''), (''FUNCTION_BLOCK'', ''END_FUNCTION_BLOCK''),
     (''PROGRAM'', ''END_PROGRAM''), (''CLASS'', ''END_CLASS''), (''INTERFACE'', ''END_INTERFACE''),
     (''TYPE'', ''END_TYPE''), (''CONFIGURATION'', ''END_CONFIGURATION''),
     (''DATA_BLOCK'', ''END_DATA_BLOCK''), (''ORGANIZATION_BLOCK'', ''END_ORGANIZATION_BLOCK''),
     (''VAR_GLOBAL'', ''END_VAR''), (''ACTIONS'', ''END_ACTIONS''), (''METHOD'', ''END_METHOD''),
     (''PROPERTY'', ''END_PROPERTY''), (''ACTION'', ''END_ACTION''),
     (''PROPERTY_GET'', ''END_PROPERTY''), (''PROPERTY_SET'', ''END_PROPERTY'')]"

definition CONTAINER_KINDS :: "string list" where
  "CONTAINER_KINDS = [''FUNCTION_BLOCK'', ''CLASS'', ''INTERFACE'', ''PROGRAM'']"

definition MEMBER_KINDS :: "string list" where
  "MEMBER_KINDS = [''METHOD'', ''PROPERTY'', ''ACTION'', ''PROPERTY_GET'', ''PROPERTY_SET'']"

definition MODIFIERS :: "string list" where
  "MODIFIERS = [''PUBLIC'', ''PRIVATE'', ''PROTECTED'', ''INTERNAL'', ''ABSTRACT'', ''FINAL'', ''OVERRIDE'']"

definition MARKER_RE :: rx where
  "MARKER_RE = rx_seq
     [rx_lit ''(* '',
      RAlt (rx_lit ''Source member: '') (RAlt (rx_lit ''Source: '') (RAlt (rx_lit ''Object: '')
        (RAlt (rx_lit ''Global variable list: '') (RAlt (rx_lit ''Original worksheet '') (rx_lit ''Source ''))))),
      RGroup 1 (RStar (RChar (\<lambda>_. True))), rx_lit '' *)'', REnd]"

definition KEYWORD_ALIASES :: "(string \<times> string) list" where
  "KEYWORD_ALIASES = [(''FUNCTIONBLOCK'', ''FUNCTION_BLOCK''), (''END_FUNCTIONBLOCK'', ''END_FUNCTION_BLOCK''),
     (''ENDFUNCTIONBLOCK'', ''END_FUNCTION_BLOCK''), (''PROPERTYGET'', ''PROPERTY_GET''),
     (''PROPERTYSET'', ''PROPERTY_SET'')]"

definition canonical_keyword :: "string \<Rightarrow> string" where
  "canonical_keyword w =
     (let word = py_upper w in
      case dget KEYWORD_ALIASES word of
        Some a \<Rightarrow> a
      | None \<Rightarrow> if starts_with ''END'' word \<and> \<not> starts_with ''END_'' word \<and> length word > 3
                then ''END_'' @ drop 3 word else word)"

definition is_word :: "lossless_token \<Rightarrow> bool" where
  "is_word t = (lt_kind t \<in> {''keyword'', ''identifier''})"

text \<open>\<open>canonical_keyword(token.text) if token.is_word else ""\<close>\<close>

definition kw :: "lossless_token \<Rightarrow> string" where
  "kw t = (if is_word t then canonical_keyword (lt_text t) else [])"

section \<open>Units\<close>

record st_member =
  me_kind :: string
  me_name :: string
  me_start :: nat
  me_end :: nat
  me_line :: nat

record st_unit =
  un_kind :: string
  un_name :: string
  un_start :: nat
  un_end :: nat
  un_line :: nat
  un_end_line :: nat
  un_namespace :: string
  un_marker :: "string option"
  un_closed :: bool
  un_members :: "st_member list"

definition qualified_name :: "st_unit \<Rightarrow> string" where
  "qualified_name u = (if un_namespace u \<noteq> [] \<and> un_name u \<noteq> []
                       then un_namespace u @ ''.'' @ un_name u else un_name u)"

definition is_name_kind :: "string \<Rightarrow> bool" where
  "is_name_kind k = (k \<in> {''identifier'', ''keyword'', ''wstring''})"

function skip_modifiers :: "lossless_token list \<Rightarrow> nat \<Rightarrow> nat" where
  "skip_modifiers ts i =
     (if i + 1 < length ts \<and> py_upper (lt_text (ts ! i)) \<in> set MODIFIERS \<and> is_name_kind (lt_kind (ts ! (i + 1)))
      then skip_modifiers ts (i + 1) else i)"
  by pat_completeness auto
termination by (relation "measure (\<lambda>(ts, i). length ts - i)") auto

declare skip_modifiers.simps [simp del]

definition declared_name :: "lossless_token list \<Rightarrow> nat \<Rightarrow> string" where
  "declared_name ts index =
     (let i = skip_modifiers ts (index + 1) in
      if i < length ts \<and> is_name_kind (lt_kind (ts ! i)) then
        (let name = strip_quotes (lt_text (ts ! i)) in
         if py_upper (lt_text (ts ! index)) = ''ACTION'' \<and> i + 2 < length ts
            \<and> lt_text (ts ! (i + 1)) = ''.'' \<and> lt_kind (ts ! (i + 2)) \<in> {''identifier'', ''keyword''}
         then name @ ''.'' @ lt_text (ts ! (i + 2)) else name)
      else [])"

text \<open>The end of the END keyword at \<open>j\<close>, with a directly following semicolon.\<close>

definition span_end :: "lossless_token list \<Rightarrow> nat \<Rightarrow> nat" where
  "span_end ts j = (if j + 1 < length ts \<and> lt_text (ts ! (j + 1)) = '';''
                    then lt_end (ts ! (j + 1)) else lt_end (ts ! j))"

text \<open>The first index from \<open>k\<close> whose keyword is in \<open>stop\<close>; the number of tokens if there is none.\<close>

definition scan_to :: "string list \<Rightarrow> lossless_token list \<Rightarrow> nat \<Rightarrow> nat" where
  "scan_to stop ts k = k + length (takeWhile (\<lambda>t. kw t \<notin> set stop) (drop k ts))"

definition unit_end_word :: "string \<Rightarrow> string" where
  "unit_end_word word = (case dget UNIT_END word of None \<Rightarrow> [] | Some w \<Rightarrow> w)"

text \<open>A member that starts at \<open>j\<close>: its entry, and where the scan of its owner goes on.\<close>

definition member_at :: "string \<Rightarrow> lossless_token list \<Rightarrow> nat \<Rightarrow> st_member \<times> nat" where
  "member_at end_word ts j =
     (let other = kw (ts ! j); member_end_word = unit_end_word other;
          k = scan_to [member_end_word, end_word] ts (j + 1);
          closed = (k < length ts \<and> canonical_keyword (lt_text (ts ! k)) = member_end_word);
          member_end = (if closed then span_end ts k else lt_end (ts ! (k - 1))) in
      (\<lparr>me_kind = other, me_name = declared_name ts j, me_start = lt_start (ts ! j),
        me_end = member_end, me_line = lt_line (ts ! j)\<rparr>,
       if closed then k + 1 else k))"

lemma member_at_progress: "j < snd (member_at w ts j)"
  by (simp add: member_at_def scan_to_def Let_def)

text \<open>The scan of a unit's body: the index of its END keyword (or the number of tokens).\<close>

function unit_body :: "string \<Rightarrow> string \<Rightarrow> lossless_token list \<Rightarrow> nat \<Rightarrow> nat \<Rightarrow> nat \<times> st_member list" where
  "unit_body word end_word ts depth j =
     (if \<not> j < length ts then (j, [])
      else let other = kw (ts ! j) in
        if other = end_word then
          (if depth = 0 then (j, []) else unit_body word end_word ts (depth - 1) (j + 1))
        else if other = word \<and> word \<notin> {''VAR_GLOBAL'', ''TYPE''}
          then unit_body word end_word ts (depth + 1) (j + 1)
        else if word \<in> set CONTAINER_KINDS \<and> other \<in> set MEMBER_KINDS then
          (let m = member_at end_word ts j; r = unit_body word end_word ts depth (snd m) in
           (fst r, fst m # snd r))
        else unit_body word end_word ts depth (j + 1))"
  by pat_completeness auto
termination
  by (relation "measure (\<lambda>(_, _, ts, _, j). length ts - j)")
    (use member_at_progress in \<open>auto intro!: diff_less_mono2\<close>)

declare unit_body.simps [simp del]

fun advance_markers :: "nat \<Rightarrow> (nat \<times> string) list \<Rightarrow> string option \<Rightarrow> (nat \<times> string) list \<times> string option" where
  "advance_markers start [] cur = ([], cur)"
| "advance_markers start ((p, v) # ms) cur =
     (if p < start then advance_markers start ms (Some v) else ((p, v) # ms, cur))"

text \<open>The dotted name after NAMESPACE and the index after it.\<close>

function namespace_parts :: "lossless_token list \<Rightarrow> nat \<Rightarrow> nat \<times> string list" where
  "namespace_parts ts j =
     (if j < length ts \<and> is_word (ts ! j) then
        (if j + 1 < length ts \<and> lt_text (ts ! (j + 1)) = ''.'' then
           (let r = namespace_parts ts (j + 2) in (fst r, lt_text (ts ! j) # snd r))
         else (j + 1, [lt_text (ts ! j)]))
      else (j, []))"
  by pat_completeness auto
termination by (relation "measure (\<lambda>(ts, j). length ts - j)") auto

declare namespace_parts.simps [simp del]

lemma namespace_parts_progress: "j \<le> fst (namespace_parts ts j)"
  by (induction ts j rule: namespace_parts.induct) (subst namespace_parts.simps, auto simp: Let_def)

text \<open>The unit that starts at \<open>i\<close>, and the index of its END keyword.\<close>

definition unit_at :: "lossless_token list \<Rightarrow> nat \<Rightarrow> string list \<Rightarrow> string option \<Rightarrow> st_unit \<times> nat" where
  "unit_at ts i namespaces marker =
     (let word = kw (ts ! i); end_word = unit_end_word word;
          r = unit_body word end_word ts 0 (i + 1); j = fst r; closed = (j < length ts) in
      (\<lparr>un_kind = word, un_name = (if word = ''VAR_GLOBAL'' then [] else declared_name ts i),
        un_start = lt_start (ts ! i), un_end = (if closed then span_end ts j else lt_end (last ts)),
        un_line = lt_line (ts ! i), un_end_line = (if closed then lt_line (ts ! j) else lt_line (last ts)),
        un_namespace = join ''.'' namespaces, un_marker = marker, un_closed = closed,
        un_members = snd r\<rparr>, j))"

text \<open>One step of the scan: it stops, skips a token or takes a member.\<close>

lemma unit_body_step:
  obtains (stop) "unit_body word end_word ts depth j = (j, [])" "j < length ts \<Longrightarrow> kw (ts ! j) = end_word"
  | (skip) d where "j < length ts" "unit_body word end_word ts depth j = unit_body word end_word ts d (j + 1)"
  | (member) m n where "j < length ts" "kw (ts ! j) \<in> set MEMBER_KINDS" "kw (ts ! j) \<noteq> end_word"
      "member_at end_word ts j = (m, n)"
      "unit_body word end_word ts depth j =
         (fst (unit_body word end_word ts depth n), m # snd (unit_body word end_word ts depth n))"
proof -
  note u = unit_body.simps [of word end_word ts depth j]
  consider "\<not> j < length ts" | "j < length ts" "kw (ts ! j) = end_word" "depth = 0"
    | "j < length ts" "kw (ts ! j) = end_word" "depth \<noteq> 0"
    | "j < length ts" "kw (ts ! j) \<noteq> end_word" "kw (ts ! j) = word" "word \<notin> {''VAR_GLOBAL'', ''TYPE''}"
    | "j < length ts" "kw (ts ! j) \<noteq> end_word" "\<not> (kw (ts ! j) = word \<and> word \<notin> {''VAR_GLOBAL'', ''TYPE''})"
      "word \<in> set CONTAINER_KINDS" "kw (ts ! j) \<in> set MEMBER_KINDS"
    | "j < length ts" "kw (ts ! j) \<noteq> end_word" "\<not> (kw (ts ! j) = word \<and> word \<notin> {''VAR_GLOBAL'', ''TYPE''})"
      "\<not> (word \<in> set CONTAINER_KINDS \<and> kw (ts ! j) \<in> set MEMBER_KINDS)"
    by argo
  then show thesis
  proof cases
    case 1 then show ?thesis using u by (intro stop) simp_all
  next
    case 2 then show ?thesis using u by (intro stop) simp_all
  next
    case 3 then show ?thesis using u by (intro skip [of "depth - 1"]) simp_all
  next
    case 4 then show ?thesis using u by (intro skip [of "depth + 1"]) simp_all
  next
    case 5
    obtain m n where mn: "member_at end_word ts j = (m, n)" by fastforce
    have "unit_body word end_word ts depth j =
        (let m = member_at end_word ts j; r = unit_body word end_word ts depth (snd m) in
         (fst r, fst m # snd r))"
      using 5 u unfolding Let_def by presburger
    with mn show ?thesis by (intro member [OF 5(1,5,2) mn]) (simp add: Let_def)
  next
    case 6
    then have "unit_body word end_word ts depth j = unit_body word end_word ts depth (j + 1)"
      using u unfolding Let_def by presburger
    with 6(1) show ?thesis by (rule skip)
  qed
qed

lemma unit_body_progress: "j \<le> fst (unit_body word end_word ts depth j)"
proof (induction "length ts - j" arbitrary: depth j rule: less_induct)
  case less
  show ?case
  proof (cases rule: unit_body_step [of word end_word ts depth j])
    case (skip d)
    have "length ts - (j + 1) < length ts - j" using skip(1) by (intro diff_less_mono2) simp_all
    from less [OF this, of d] skip(2) show ?thesis by simp
  next
    case (member m n)
    from member_at_progress [of j end_word ts] member(4) have "j < n" by simp
    then have "length ts - n < length ts - j" using member(1) by (intro diff_less_mono2)
    from less [OF this, of depth] member(5) \<open>j < n\<close> show ?thesis by simp
  qed simp
qed

lemma unit_at_progress: "i < snd (unit_at ts i nss mk)"
  using unit_body_progress [of "Suc i"] by (simp add: unit_at_def Let_def Suc_le_eq)

function units_from :: "lossless_token list \<Rightarrow> (nat \<times> string) list \<Rightarrow> string list \<Rightarrow> string option \<Rightarrow> nat \<Rightarrow>
    st_unit list" where
  "units_from ts markers namespaces current i =
     (if \<not> i < length ts then []
      else let mc = advance_markers (lt_start (ts ! i)) markers current; word = kw (ts ! i) in
        if word = ''NAMESPACE'' then
          (let r = namespace_parts ts (i + 1) in
           units_from ts (fst mc) (namespaces @ [join ''.'' (snd r)]) (snd mc) (fst r))
        else if word = ''END_NAMESPACE'' \<and> namespaces \<noteq> [] then
          units_from ts (fst mc) (butlast namespaces) (snd mc) (i + 1)
        else if \<not> dmem word UNIT_END then units_from ts (fst mc) namespaces (snd mc) (i + 1)
        else (let u = unit_at ts i namespaces (snd mc) in
              fst u # units_from ts (fst mc) namespaces (snd mc) (snd u + 1)))"
  by pat_completeness auto
termination
proof (relation "measure (\<lambda>(ts, _, _, _, i). length ts - i)", goal_cases)
  case (2 ts markers nss cur i mc word r)
  then show ?case using namespace_parts_progress [of "i + 1" ts] by simp
next
  case (5 ts markers nss cur i mc word u)
  then show ?case using unit_at_progress [of i ts nss "snd mc"] by simp
qed simp_all

declare units_from.simps [simp del]

definition source_markers :: "lossless_token list \<Rightarrow> (nat \<times> string) list" where
  "source_markers ts = List.map_filter (\<lambda>t.
     if lt_kind t = ''comment'' then map_option (\<lambda>g. (lt_start t, group_of 1 g)) (re_match MARKER_RE (lt_text t))
     else None) ts"

definition split_units :: "lossless_token list \<Rightarrow> st_unit list" where
  "split_units ts = units_from (significant ts) (source_markers ts) [] None 0"

section \<open>Tokens in order\<close>

definition tokens_ordered :: "lossless_token list \<Rightarrow> bool" where
  "tokens_ordered ts = (sorted_wrt (\<lambda>a b. lt_end a \<le> lt_start b) ts \<and> (\<forall>t \<in> set ts. lt_start t < lt_end t))"

lemma tokens_from_ordered:
  "sorted_wrt (\<lambda>a b. lt_end a \<le> lt_start b) (tokens_from i line ls s) \<and>
     (\<forall>t \<in> set (tokens_from i line ls s). i \<le> lt_start t \<and> lt_start t < lt_end t)"
proof (induction "length s" arbitrary: i line ls s rule: less_induct)
  case less
  show ?case
  proof (cases "s = []")
    case True
    then show ?thesis by (simp add: tokens_from.simps)
  next
    case False
    then obtain kind n where k: "1 \<le> n" "n \<le> length s"
      "tokens_from i line ls s = \<lparr>lt_kind = kind, lt_text = take n s, lt_start = i, lt_end = i + n, lt_line = line,
        lt_column = i - ls + 1\<rparr> # tokens_from (i + n) (line + length (newlines_of (take n s)))
        (if length (newlines_of (take n s)) > 0 then i + after_last_newline (take n s) else ls) (drop n s)"
      by (rule tokens_from_step)
    let ?r = "tokens_from (i + n) (line + length (newlines_of (take n s)))
        (if length (newlines_of (take n s)) > 0 then i + after_last_newline (take n s) else ls) (drop n s)"
    have "length (drop n s) < length s" using k(1) False by simp
    from less [OF this] have "sorted_wrt (\<lambda>a b. lt_end a \<le> lt_start b) ?r \<and>
      (\<forall>t \<in> set ?r. i + n \<le> lt_start t \<and> lt_start t < lt_end t)" .
    then show ?thesis using k(1) unfolding k(3) by fastforce
  qed
qed

lemma significant_ordered: "tokens_ordered (significant (tokenize_lossless src))"
  unfolding tokens_ordered_def significant_def tokenize_lossless_def
  using tokens_from_ordered [of 0 1 0 src] by (auto intro: sorted_wrt_filter)

lemma token_end_bound: "t \<in> set (tokenize_lossless src) \<Longrightarrow> lt_end t \<le> length src"
proof -
  have "line_at src 0 = 1" "line_start_at src 0 = 0"
    by (simp_all add: line_at_def newlines_of_def line_start_at_def after_last_newline_def)
  then show "t \<in> set (tokenize_lossless src) \<Longrightarrow> lt_end t \<le> length src"
    using tokens_from_positions [of src "[]" src 0 1 0] by (simp add: tokenize_lossless_def)
qed

lemma ordered_nth: "tokens_ordered ts \<Longrightarrow> i < j \<Longrightarrow> j < length ts \<Longrightarrow> lt_end (ts ! i) \<le> lt_start (ts ! j)"
  by (simp add: tokens_ordered_def sorted_wrt_iff_nth_less)

lemma ordered_span: "tokens_ordered ts \<Longrightarrow> i < length ts \<Longrightarrow> lt_start (ts ! i) < lt_end (ts ! i)"
  by (simp add: tokens_ordered_def)

lemma ordered_end_mono:
  assumes "tokens_ordered ts" and "i \<le> j" and "j < length ts"
  shows "lt_end (ts ! i) \<le> lt_end (ts ! j)" and "lt_start (ts ! i) \<le> lt_start (ts ! j)"
proof -
  have "lt_end (ts ! i) \<le> lt_end (ts ! j) \<and> lt_start (ts ! i) \<le> lt_start (ts ! j)"
  proof (cases "i = j")
    case False
    with assms(2) have "i < j" by simp
    from ordered_nth [OF assms(1) this assms(3)] ordered_span [OF assms(1,3)]
      ordered_span [OF assms(1), of i] assms(3) \<open>i < j\<close> show ?thesis by simp
  qed simp
  then show "lt_end (ts ! i) \<le> lt_end (ts ! j)" "lt_start (ts ! i) \<le> lt_start (ts ! j)" by simp_all
qed

lemma ordered_last: "tokens_ordered ts \<Longrightarrow> i < length ts \<Longrightarrow> lt_end (ts ! i) \<le> lt_end (last ts)"
  using ordered_end_mono(1) [of ts i "length ts - 1"] last_conv_nth [of ts] by fastforce

text \<open>
  Offset \<open>e\<close> is behind the scan at index \<open>j\<close>: every keyword from \<open>j\<close> on starts at or after it. A
  semicolon taken into a span is no keyword.
\<close>

definition behind :: "lossless_token list \<Rightarrow> nat \<Rightarrow> nat \<Rightarrow> bool" where
  "behind ts j e = ((\<forall>k. j \<le> k \<longrightarrow> k < length ts \<longrightarrow> kw (ts ! k) \<notin> {[], '';''} \<longrightarrow> e \<le> lt_start (ts ! k))
     \<and> e \<le> lt_end (last ts))"

lemma behindD: "behind ts j e \<Longrightarrow> j \<le> k \<Longrightarrow> k < length ts \<Longrightarrow> kw (ts ! k) \<notin> {[], '';''} \<Longrightarrow> e \<le> lt_start (ts ! k)"
  by (simp add: behind_def)

lemma behind_mono: "behind ts j e \<Longrightarrow> j \<le> j' \<Longrightarrow> e' \<le> e \<Longrightarrow> behind ts j' e'"
  unfolding behind_def by (meson le_trans)

lemma kw_semicolon: "lt_text t = '';'' \<Longrightarrow> kw t \<in> {[], '';''}"
proof -
  have "canonical_keyword '';'' = '';''" by code_simp
  then show "lt_text t = '';'' \<Longrightarrow> kw t \<in> {[], '';''}" by (simp add: kw_def)
qed

lemma behind_end:
  assumes "tokens_ordered ts" and "j < length ts"
  shows "behind ts (j + 1) (lt_end (ts ! j))"
  unfolding behind_def using ordered_nth [OF assms(1)] ordered_last [OF assms] by auto

lemma span_end_ge: "tokens_ordered ts \<Longrightarrow> j < length ts \<Longrightarrow> lt_end (ts ! j) \<le> span_end ts j"
  using ordered_end_mono(1) [of ts j "j + 1"] by (simp add: span_end_def)

lemma behind_span_end:
  assumes "tokens_ordered ts" and "j < length ts"
  shows "behind ts (j + 1) (span_end ts j)"
proof (cases "j + 1 < length ts \<and> lt_text (ts ! (j + 1)) = '';''")
  case True
  have b: "behind ts (j + 2) (lt_end (ts ! (j + 1)))"
    using behind_end [OF assms(1), of "j + 1"] True by simp
  have "behind ts (j + 1) (lt_end (ts ! (j + 1)))"
    unfolding behind_def
  proof (intro conjI allI impI)
    fix k assume k: "j + 1 \<le> k" "k < length ts" "kw (ts ! k) \<notin> {[], '';''}"
    with kw_semicolon [of "ts ! (j + 1)"] True have "k \<noteq> j + 1" by blast
    with k behindD [OF b, of k] show "lt_end (ts ! (j + 1)) \<le> lt_start (ts ! k)" by simp
  next
    show "lt_end (ts ! (j + 1)) \<le> lt_end (last ts)" using b by (simp add: behind_def)
  qed
  with True show ?thesis by (simp add: span_end_def)
next
  case False
  with behind_end [OF assms] show ?thesis by (auto simp: span_end_def)
qed

section \<open>Members and units\<close>

definition members_in :: "nat \<Rightarrow> nat \<Rightarrow> st_member list \<Rightarrow> bool" where
  "members_in lo hi ms = (sorted_wrt (\<lambda>m n. me_end m \<le> me_start n) ms
     \<and> (\<forall>m \<in> set ms. lo \<le> me_start m \<and> me_start m < me_end m \<and> me_end m \<le> hi))"

lemma scan_to_bounds: "k \<le> length ts \<Longrightarrow> k \<le> scan_to stop ts k \<and> scan_to stop ts k \<le> length ts"
  using length_takeWhile_le [of "\<lambda>t. kw t \<notin> set stop" "drop k ts"] by (simp add: scan_to_def)

lemma member_at_sound:
  assumes "tokens_ordered ts" and "j < length ts" and "member_at w ts j = (m, n)"
  shows "me_start m = lt_start (ts ! j) \<and> me_start m < me_end m \<and> behind ts n (me_end m) \<and> n \<le> length ts"
proof -
  let ?e = "unit_end_word (kw (ts ! j))"
  let ?k = "scan_to [?e, w] ts (j + 1)"
  have k: "j + 1 \<le> ?k" "?k \<le> length ts" using scan_to_bounds [of "j + 1" ts] assms(2) by simp_all
  have m: "me_start m = lt_start (ts ! j)" using assms(3) by (auto simp: member_at_def Let_def)
  have sp: "lt_start (ts ! j) < lt_end (ts ! j)" by (rule ordered_span [OF assms(1,2)])
  show ?thesis
  proof (cases "?k < length ts \<and> canonical_keyword (lt_text (ts ! ?k)) = ?e")
    case True
    with assms(3) have e: "me_end m = span_end ts ?k" "n = ?k + 1" by (auto simp: member_at_def Let_def)
    have "lt_end (ts ! j) \<le> lt_end (ts ! ?k)" using ordered_end_mono(1) [OF assms(1)] k True by simp
    also have "\<dots> \<le> span_end ts ?k" using span_end_ge [OF assms(1)] True by simp
    finally show ?thesis using m sp e behind_span_end [OF assms(1), of ?k] True by simp
  next
    case False
    with assms(3) have e: "me_end m = lt_end (ts ! (?k - 1))" "n = ?k"
      unfolding member_at_def Let_def by auto
    have "lt_end (ts ! j) \<le> lt_end (ts ! (?k - 1))" by (rule ordered_end_mono(1) [OF assms(1)]) (use k in simp_all)
    moreover have "behind ts ?k (lt_end (ts ! (?k - 1)))"
      using behind_end [OF assms(1), of "?k - 1"] k by simp
    ultimately show ?thesis using m sp e k(2) by simp
  qed
qed

lemma MEMBER_KINDS_word: "w \<in> set MEMBER_KINDS \<Longrightarrow> w \<notin> {[], '';''}"
  by (auto simp: MEMBER_KINDS_def)

lemma unit_body_sound:
  assumes "tokens_ordered ts" and "w \<notin> {[], '';''}" and "behind ts j e"
    and "unit_body word w ts depth j = (j', ms)"
  shows "(j' < length ts \<longrightarrow> kw (ts ! j') = w) \<and>
    members_in e (if j' < length ts then lt_start (ts ! j') else lt_end (last ts)) ms"
  using assms(3,4)
proof (induction "length ts - j" arbitrary: depth j e ms rule: less_induct)
  case less
  show ?case
  proof (cases rule: unit_body_step [of word w ts depth j])
    case stop
    with less.prems(2) show ?thesis by (auto simp: members_in_def)
  next
    case (skip d)
    have "length ts - (j + 1) < length ts - j" using skip(1) by (intro diff_less_mono2) simp_all
    moreover have "behind ts (j + 1) e" by (rule behind_mono [OF less.prems(1)]) simp_all
    moreover have "unit_body word w ts d (j + 1) = (j', ms)" using skip(2) less.prems(2) by simp
    ultimately show ?thesis by (rule less.hyps)
  next
    case (member m n)
    from member_at_progress [of j w ts] member(4) have jn: "j < n" by simp
    from member_at_sound [OF assms(1) member(1,4)]
    have m: "me_start m = lt_start (ts ! j)" "me_start m < me_end m" "behind ts n (me_end m)" by simp_all
    obtain ms' where r: "unit_body word w ts depth n = (j', ms')" "ms = m # ms'"
      using member(5) less.prems(2) by (cases "unit_body word w ts depth n") auto
    have "length ts - n < length ts - j" using member(1) jn by (intro diff_less_mono2)
    from less.hyps [OF this m(3) r(1)]
    have IH: "j' < length ts \<longrightarrow> kw (ts ! j') = w"
      "members_in (me_end m) (if j' < length ts then lt_start (ts ! j') else lt_end (last ts)) ms'" by blast+
    have "e \<le> me_start m"
      using behindD [OF less.prems(1) order_refl member(1)] MEMBER_KINDS_word [OF member(2)] m(1) by simp
    moreover have "n \<le> j'" using unit_body_progress [of n word w ts depth] r(1) by simp
    moreover have "me_end m \<le> (if j' < length ts then lt_start (ts ! j') else lt_end (last ts))"
      using behindD [OF m(3) \<open>n \<le> j'\<close>] IH(1) assms(2) m(3) by (simp add: behind_def)
    ultimately show ?thesis using IH m(2) r(2) unfolding members_in_def by fastforce
  qed
qed

text \<open>What a unit record promises about the tokens.\<close>

definition unit_ok :: "nat \<Rightarrow> st_unit \<Rightarrow> bool" where
  "unit_ok hi u = (un_start u < un_end u \<and> un_end u \<le> hi \<and> dmem (un_kind u) UNIT_END \<and>
     members_in (un_start u) (un_end u) (un_members u))"

lemma UNIT_END_words:
  "dmem w UNIT_END \<Longrightarrow> w \<notin> {[], '';''} \<and> unit_end_word w \<notin> {[], '';''}"
  by (auto simp: dmem_def UNIT_END_def unit_end_word_def)

lemma unit_at_sound:
  assumes "tokens_ordered ts" and "i < length ts" and "dmem (kw (ts ! i)) UNIT_END"
    and "unit_at ts i nss mk = (u, j)"
  shows "unit_ok (lt_end (last ts)) u \<and> un_start u = lt_start (ts ! i) \<and> behind ts (j + 1) (un_end u) \<and> i < j \<and>
    (\<forall>k. i \<le> k \<longrightarrow> k \<le> j \<longrightarrow> k < length ts \<longrightarrow> lt_end (ts ! k) \<le> un_end u)"
proof -
  let ?w = "kw (ts ! i)"
  obtain ms where b: "unit_body ?w (unit_end_word ?w) ts 0 (i + 1) = (j, ms)"
    using assms(4) by (cases "unit_body ?w (unit_end_word ?w) ts 0 (i + 1)") (simp add: unit_at_def Let_def)
  have u: "un_start u = lt_start (ts ! i)" "un_kind u = ?w" "un_members u = ms"
    "un_end u = (if j < length ts then span_end ts j else lt_end (last ts))"
    using assms(4) b by (auto simp: unit_at_def Let_def)
  have ij: "i < j" using unit_at_progress [of i ts nss mk] assms(4) by simp
  have w: "unit_end_word ?w \<notin> {[], '';''}" using UNIT_END_words [OF assms(3)] by blast
  have sp: "lt_start (ts ! i) < lt_end (ts ! i)" by (rule ordered_span [OF assms(1,2)])
  have body: "members_in (lt_end (ts ! i)) (if j < length ts then lt_start (ts ! j) else lt_end (last ts)) ms"
    using unit_body_sound [OF assms(1) w behind_end [OF assms(1,2)] b] by blast
  have ends: "lt_end (ts ! k) \<le> un_end u" if k: "i \<le> k" "k \<le> j" "k < length ts" for k
  proof (cases "j < length ts")
    case True
    with u(4) span_end_ge [OF assms(1) True] ordered_end_mono(1) [OF assms(1) k(2) True] show ?thesis by simp
  next
    case False
    with u(4) ordered_last [OF assms(1) k(3)] show ?thesis by simp
  qed
  have hi: "(if j < length ts then lt_start (ts ! j) else lt_end (last ts)) \<le> un_end u"
    using u(4) span_end_ge [OF assms(1), of j] ordered_span [OF assms(1), of j] by auto
  have beh: "behind ts (j + 1) (un_end u)"
    using u(4) behind_span_end [OF assms(1), of j] by (auto simp: behind_def)
  have "members_in (un_start u) (un_end u) ms"
    using body hi sp u(1) unfolding members_in_def by fastforce
  moreover have "un_end u \<le> lt_end (last ts)" using beh by (simp add: behind_def)
  moreover have "un_start u < un_end u" using sp ends [of i] ij assms(2) u(1) by simp
  ultimately show ?thesis using u ij ends beh assms(3) by (simp add: unit_ok_def)
qed

text \<open>One step of the outer loop: it ends, moves on without a unit, or emits one.\<close>

lemma units_from_step:
  obtains (stop) "\<not> i < length ts" "units_from ts mks nss cur i = []"
  | (skip) mks' nss' cur' i' where "i < length ts" "i < i'"
      "kw (ts ! i) = ''NAMESPACE'' \<and> i' = fst (namespace_parts ts (i + 1)) \<or> (\<not> dmem (kw (ts ! i)) UNIT_END \<and> i' = i + 1)"
      "units_from ts mks nss cur i = units_from ts mks' nss' cur' i'"
  | (unit) mks' cur' u j where "i < length ts" "dmem (kw (ts ! i)) UNIT_END"
      "unit_at ts i nss cur' = (u, j)"
      "units_from ts mks nss cur i = u # units_from ts mks' nss cur' (j + 1)"
proof -
  obtain mks' cur' where mc: "advance_markers (lt_start (ts ! i)) mks cur = (mks', cur')" by fastforce
  have endns: "\<not> dmem ''END_NAMESPACE'' UNIT_END" by code_simp
  note u = units_from.simps [of ts mks nss cur i]
  consider "\<not> i < length ts" | "i < length ts" "kw (ts ! i) = ''NAMESPACE''"
    | "i < length ts" "kw (ts ! i) \<noteq> ''NAMESPACE''" "kw (ts ! i) = ''END_NAMESPACE''" "nss \<noteq> []"
    | "i < length ts" "kw (ts ! i) \<noteq> ''NAMESPACE''" "\<not> (kw (ts ! i) = ''END_NAMESPACE'' \<and> nss \<noteq> [])"
      "\<not> dmem (kw (ts ! i)) UNIT_END"
    | "i < length ts" "kw (ts ! i) \<noteq> ''NAMESPACE''" "\<not> (kw (ts ! i) = ''END_NAMESPACE'' \<and> nss \<noteq> [])"
      "dmem (kw (ts ! i)) UNIT_END"
    by argo
  then show thesis
  proof cases
    case 1 then show ?thesis using u by (intro stop) simp_all
  next
    case 2
    let ?r = "namespace_parts ts (i + 1)"
    have "units_from ts mks nss cur i = units_from ts mks' (nss @ [join ''.'' (snd ?r)]) cur' (fst ?r)"
      using u 2 mc by (simp add: Let_def)
    moreover have "i < fst ?r" using namespace_parts_progress [of "i + 1" ts] by simp
    ultimately show ?thesis using 2 by (intro skip) simp_all
  next
    case 3
    have "units_from ts mks nss cur i = units_from ts mks' (butlast nss) cur' (i + 1)"
      using u 3 mc by (simp add: Let_def)
    with 3 endns show ?thesis by (intro skip [of "i + 1"]) simp_all
  next
    case 4
    have "units_from ts mks nss cur i = units_from ts mks' nss cur' (i + 1)"
      using u 4 mc unfolding Let_def by (simp del: not_None_eq) 
    with 4 show ?thesis by (intro skip [of "i + 1"]) simp_all
  next
    case 5
    obtain v j where uj: "unit_at ts i nss cur' = (v, j)" by fastforce
    have "units_from ts mks nss cur i = v # units_from ts mks' nss cur' (j + 1)"
      using u 5 mc uj unfolding Let_def by simp
    with 5 uj show ?thesis by (intro unit) simp_all
  qed
qed

definition units_ok :: "nat \<Rightarrow> nat \<Rightarrow> st_unit list \<Rightarrow> bool" where
  "units_ok lo hi us = (sorted_wrt (\<lambda>u v. un_end u \<le> un_start v) us
     \<and> (\<forall>u \<in> set us. lo \<le> un_start u \<and> unit_ok hi u))"

lemma units_from_ok:
  assumes "tokens_ordered ts" and "behind ts i e"
  shows "units_ok e (lt_end (last ts)) (units_from ts mks nss cur i)"
  using assms(2)
proof (induction "length ts - i" arbitrary: mks nss cur i e rule: less_induct)
  case less
  show ?case
  proof (cases rule: units_from_step [of i ts mks nss cur])
    case stop
    then show ?thesis by (simp add: units_ok_def)
  next
    case (skip mks' nss' cur' i')
    have "length ts - i' < length ts - i" using skip(1,2) by (intro diff_less_mono2)
    moreover have "behind ts i' e" by (rule behind_mono [OF less.prems]) (use skip(2) in simp_all)
    ultimately show ?thesis unfolding skip(4) by (rule less.hyps)
  next
    case (unit mks' cur' u j)
    from unit_at_sound [OF assms(1) unit(1,2,3)]
    have u: "unit_ok (lt_end (last ts)) u" "un_start u = lt_start (ts ! i)" "behind ts (j + 1) (un_end u)" "i < j"
      by blast+
    have "length ts - (j + 1) < length ts - i" using unit(1) u(4) by (intro diff_less_mono2) simp_all
    from less.hyps [OF this u(3)]
    have "units_ok (un_end u) (lt_end (last ts)) (units_from ts mks' nss cur' (j + 1))" .
    moreover have "e \<le> un_start u"
      using behindD [OF less.prems order_refl unit(1)] UNIT_END_words [OF unit(2)] u(2) by simp
    ultimately show ?thesis using u(1) unfolding unit(4) units_ok_def unit_ok_def by fastforce
  qed
qed

text \<open>The words after a NAMESPACE keyword are its name and start nothing.\<close>

definition in_namespace_name :: "lossless_token list \<Rightarrow> nat \<Rightarrow> bool" where
  "in_namespace_name ts k \<longleftrightarrow> (\<exists>n < k. kw (ts ! n) = ''NAMESPACE'' \<and> k < fst (namespace_parts ts (n + 1)))"

lemma units_from_cover:
  assumes "tokens_ordered ts" and "\<not> in_namespace_name ts k"
    and "i \<le> k" and "k < length ts" and "dmem (kw (ts ! k)) UNIT_END"
  shows "\<exists>u \<in> set (units_from ts mks nss cur i). un_start u \<le> lt_start (ts ! k) \<and> lt_end (ts ! k) \<le> un_end u"
  using assms(3)
proof (induction "length ts - i" arbitrary: mks nss cur i rule: less_induct)
  case less
  show ?case
  proof (cases rule: units_from_step [of i ts mks nss cur])
    case stop
    with less.prems assms(4) show ?thesis by simp
  next
    case (skip mks' nss' cur' i')
    have "\<not> dmem ''NAMESPACE'' UNIT_END" by code_simp
    with skip(3) assms(5) have "i \<noteq> k" by auto
    then have "i < k" using less.prems by simp
    then have "i' \<le> k" using skip(3) assms(2) by (auto simp: in_namespace_name_def not_less)
    moreover have "length ts - i' < length ts - i" using skip(1,2) by (intro diff_less_mono2)
    ultimately show ?thesis unfolding skip(4) by (intro less.hyps)
  next
    case (unit mks' cur' u j)
    from unit_at_sound [OF assms(1) unit(1,2,3)] have u: "un_start u = lt_start (ts ! i)" "i < j"
      "\<And>k. i \<le> k \<Longrightarrow> k \<le> j \<Longrightarrow> k < length ts \<Longrightarrow> lt_end (ts ! k) \<le> un_end u" by blast+
    show ?thesis
    proof (cases "k \<le> j")
      case True
      have "un_start u \<le> lt_start (ts ! k)"
        using ordered_end_mono(2) [OF assms(1) less.prems assms(4)] u(1) by simp
      with u(3) [OF less.prems True assms(4)] show ?thesis unfolding unit(4) by auto
    next
      case False
      have "length ts - (j + 1) < length ts - i" using unit(1) u(2) by (intro diff_less_mono2) simp_all
      from less.hyps [OF this, of mks' nss cur'] False show ?thesis unfolding unit(4) by auto
    qed
  qed
qed

text \<open>
  (C28) The structural scan of a source: units follow one another without overlap inside the text,
  the members of a unit follow one another inside it, and every declaration keyword lies in some unit,
  so no declaration is missed, except a keyword that stands in the name after a NAMESPACE keyword: the
  scan reads the words there as the name (\<^verbatim>\<open>NAMESPACE TYPE END_TYPE\<close> has no unit).
\<close>

theorem split_units_sound:
  "sorted_wrt (\<lambda>u v. un_end u \<le> un_start v) (split_units (tokenize_lossless src)) \<and>
    (\<forall>u \<in> set (split_units (tokenize_lossless src)). un_start u < un_end u \<and> un_end u \<le> length src \<and>
       sorted_wrt (\<lambda>m n. me_end m \<le> me_start n) (un_members u) \<and>
       (\<forall>m \<in> set (un_members u). un_start u \<le> me_start m \<and> me_start m < me_end m \<and> me_end m \<le> un_end u)) \<and>
    (\<forall>k < length (significant (tokenize_lossless src)).
       dmem (kw (significant (tokenize_lossless src) ! k)) UNIT_END \<longrightarrow>
       in_namespace_name (significant (tokenize_lossless src)) k \<or>
       (\<exists>u \<in> set (split_units (tokenize_lossless src)). un_start u \<le> lt_start (significant (tokenize_lossless src) ! k) \<and>
          lt_end (significant (tokenize_lossless src) ! k) \<le> un_end u))"
proof -
  let ?sig = "significant (tokenize_lossless src)"
  let ?us = "split_units (tokenize_lossless src)"
  note ord = significant_ordered [of src]
  have "units_ok 0 (lt_end (last ?sig)) ?us"
    unfolding split_units_def by (rule units_from_ok [OF ord]) (simp add: behind_def)
  moreover have "lt_end (last ?sig) \<le> length src" if "u \<in> set ?us" for u
  proof -
    have "?sig \<noteq> []" using that by (auto simp: split_units_def units_from.simps)
    from last_in_set [OF this] show ?thesis by (simp add: significant_def token_end_bound)
  qed
  ultimately have spans: "units_ok 0 (length src) ?us"
    unfolding units_ok_def unit_ok_def by (meson le_trans)
  have "\<exists>u \<in> set ?us. un_start u \<le> lt_start (?sig ! k) \<and> lt_end (?sig ! k) \<le> un_end u"
    if "\<not> in_namespace_name ?sig k" "k < length ?sig" "dmem (kw (?sig ! k)) UNIT_END" for k
    using units_from_cover [OF ord that(1) le0 that(2,3)] by (simp add: split_units_def)
  with spans show ?thesis unfolding units_ok_def unit_ok_def members_in_def by blast
qed

lemma demo_tokens:
  "significant (tokenize_lossless ''TYPE;'') =
     [\<lparr>lt_kind = ''keyword'', lt_text = ''TYPE'', lt_start = 0, lt_end = 4, lt_line = 1, lt_column = 1\<rparr>,
      \<lparr>lt_kind = ''symbol'', lt_text = '';'', lt_start = 4, lt_end = 5, lt_line = 1, lt_column = 5\<rparr>]"
  by code_simp

theorem split_units_sound_witness:
  "\<exists>u \<in> set (split_units (tokenize_lossless ''TYPE;'')). un_start u = 0 \<and> 4 \<le> un_end u"
proof -
  have "kw \<lparr>lt_kind = ''keyword'', lt_text = ''TYPE'', lt_start = 0, lt_end = 4, lt_line = 1, lt_column = 1\<rparr> = ''TYPE''"
    "dmem ''TYPE'' UNIT_END" by code_simp+
  moreover have "\<not> in_namespace_name ts 0" for ts by (simp add: in_namespace_name_def)
  moreover have "0 < length (significant (tokenize_lossless ''TYPE;''))" by (simp add: demo_tokens)
  ultimately have "\<exists>u \<in> set (split_units (tokenize_lossless ''TYPE;'')).
      un_start u \<le> lt_start (significant (tokenize_lossless ''TYPE;'') ! 0) \<and>
      lt_end (significant (tokenize_lossless ''TYPE;'') ! 0) \<le> un_end u"
    using split_units_sound [of "''TYPE;''"] unfolding demo_tokens by fastforce
  then show ?thesis by (simp add: demo_tokens)
qed

text \<open>The exception is real.\<close>

lemma namespace_name_hides_unit: "split_units (tokenize_lossless ''NAMESPACE TYPE END_TYPE'') = []"
  by code_simp

end
