(* ===== verification/Library_Closure.thy ===== *)
theory Library_Closure
  imports St_Lexer
begin

text \<open>
  The dependency closure of \<open>compiler/intake/closure.py\<close>: the direct dependencies of a library file
  from the library configurations, from the qualifiers it uses and from its apax header, and the
  depth-first walk that lists the transitive dependencies. The file system is a parameter: the
  corpus lists the files under a path with their texts, in the order a directory listing gives
  them, and the configurations are given as read. Of \<open>fnmatch\<close> and \<open>glob\<close> the wildcards the
  sources use are modelled, which are stars. The walk's fuel counts the files on the stack and is
  shown to be enough.
\<close>

section \<open>Files\<close>

text \<open>A path is the list of its components.\<close>

type_synonym path = "string list"
type_synonym corpus = "(path, string) dict"

record library_config =
  lc_match :: "string list"
  lc_dependencies :: "(string \<times> string \<times> string) list" \<comment> \<open>vendor, library, reason\<close>

fun fnmatchcase :: "string \<Rightarrow> string \<Rightarrow> bool" where
  "fnmatchcase [] s = (s = [])"
| "fnmatchcase (c # p) [] = (c = CHR ''*'' \<and> fnmatchcase p [])"
| "fnmatchcase (c # p) (d # s) =
     (if c = CHR ''*'' then fnmatchcase p (d # s) \<or> fnmatchcase (c # p) s
      else c = d \<and> fnmatchcase p s)"

definition config_for :: "library_config list \<Rightarrow> string \<Rightarrow> library_config" where
  "config_for configs name =
     (case find (\<lambda>c. list_ex (\<lambda>p. fnmatchcase p name) (lc_match c)) configs of
        Some c \<Rightarrow> c | None \<Rightarrow> \<lparr>lc_match = [], lc_dependencies = []\<rparr>)"

text \<open>The text up to and with its first newline.\<close>

definition first_line :: "string \<Rightarrow> string" where
  "first_line text = (let l = takeWhile (\<lambda>c. c \<noteq> newline) text in
                      if length l < length text then l @ [newline] else l)"

text \<open>The words before a dot and not behind one.\<close>

fun qualifier_words :: "lossless_token option \<Rightarrow> lossless_token list \<Rightarrow> string list" where
  "qualifier_words prev (t # u # ts) =
     (if lt_kind t \<in> {''keyword'', ''identifier''} \<and> lt_text u = ''.''
         \<and> (case prev of None \<Rightarrow> True | Some p \<Rightarrow> lt_text p \<noteq> ''.'')
      then [py_upper (lt_text t)] else []) @ qualifier_words (Some t) (u # ts)"
| "qualifier_words prev ts = []"

definition qualifiers :: "string \<Rightarrow> string set" where
  "qualifiers text = set (qualifier_words None (significant (tokenize_lossless text)))"

section \<open>Names and headers\<close>

text \<open>The group of \<open>SIMATIC AX whole apax package (\S+);\<close>.\<close>

definition AX_PACKAGE_RE :: rx where
  "AX_PACKAGE_RE = rx_seq [rx_lit ''SIMATIC AX whole apax package '',
     RGroup 1 (rx_plus (RChar (\<lambda>c. \<not> is_space c))), rx_lit '';'']"

definition ax_package :: "string \<Rightarrow> string option" where
  "ax_package s = map_option (group_of 1) (re_search AX_PACKAGE_RE s)"

text \<open>The group of \<open>; dependencies: ([^*]*?)(?:;| \*\))\<close>: the shortest text before a stop.\<close>

fun before_stop :: "string \<Rightarrow> string option" where
  "before_stop [] = None"
| "before_stop (c # s) =
     (if c = CHR '';'' \<or> starts_with '' *)'' (c # s) then Some []
      else if c = CHR ''*'' then None else map_option (\<lambda>r. c # r) (before_stop s))"

fun ax_dependencies :: "string \<Rightarrow> string option" where
  "ax_dependencies [] = None"
| "ax_dependencies (c # s) =
     (case (if starts_with ''; dependencies: '' (c # s) then before_stop (drop 16 (c # s)) else None) of
        Some r \<Rightarrow> Some r
      | None \<Rightarrow> ax_dependencies s)"

text \<open>The groups of \<open>^xml_(.+?)__([^_].* )\.st$\<close>, the repository as short as possible.\<close>

definition PROJECT_RE :: rx where
  "PROJECT_RE = rx_seq [RGroup 1 (RSeq (RChar (\<lambda>c. c \<noteq> CHR ''_'')) (RStar rx_any)), rx_lit ''.st'', REnd]"

fun xml_split :: "nat \<Rightarrow> string \<Rightarrow> string \<Rightarrow> (string \<times> string) option" where
  "xml_split 0 repo s = None"
| "xml_split (Suc n) repo s =
     (case (if repo \<noteq> [] \<and> starts_with ''__'' s then re_match PROJECT_RE (drop 2 s) else None) of
        Some g \<Rightarrow> Some (repo, group_of 1 g)
      | None \<Rightarrow> (case s of [] \<Rightarrow> None
                 | c # s' \<Rightarrow> if c = newline then None else xml_split n (repo @ [c]) s'))"

definition xml_name :: "string \<Rightarrow> (string \<times> string) option" where
  "xml_name name = (if starts_with ''xml_'' name then xml_split (length name) [] (drop 4 name) else None)"

section \<open>Direct dependencies\<close>

definition in_folder :: "path \<Rightarrow> corpus \<Rightarrow> (path \<times> string) list" where
  "in_folder folder files = filter (\<lambda>(p, _). p \<noteq> [] \<and> butlast p = folder) files"

text \<open>The UTF-8 bytes of the folder \<open>.st\<close> followed by the two characters of "files".\<close>

definition ST_FOLDER :: string where
  "ST_FOLDER = ''.st'' @ [CHR 0xE6, CHR 0x96, CHR 0x87, CHR 0xE4, CHR 0xBB, CHR 0xB6]"

definition config_targets :: "library_config list \<Rightarrow> path \<Rightarrow> (path \<times> string) list" where
  "config_targets configs p =
     map (\<lambda>(vendor, library, reason).
            (butlast (butlast (butlast p)) @ [vendor, ST_FOLDER, library], ''library config: '' @ reason))
       (lc_dependencies (config_for configs (last p)))"

definition qualifier_targets :: "corpus \<Rightarrow> path \<Rightarrow> string \<Rightarrow> (path \<times> string) list" where
  "qualifier_targets files p text =
     (case xml_name (last p) of
        None \<Rightarrow> []
      | Some (repo, _) \<Rightarrow>
        (let siblings = dict_of (List.map_filter (\<lambda>(other, _).
               if fnmatchcase (''xml_'' @ repo @ ''__*.st'') (last other) \<and> other \<noteq> p
               then map_option (\<lambda>(_, project). (py_upper project, other)) (xml_name (last other)) else None)
               (in_folder (butlast p) files));
             used = sort (remdups (filter (\<lambda>q. q \<in> qualifiers text) (dkeys siblings))) in
         List.map_filter (\<lambda>q. map_option (\<lambda>t. (t, ''library qualifier '' @ q @ ''.'')) (dget siblings q)) used))"

definition apax_targets :: "corpus \<Rightarrow> path \<Rightarrow> string \<Rightarrow> (path \<times> string) list" where
  "apax_targets files p text =
     (case (ax_dependencies (first_line text), ax_package (first_line text)) of
        (Some entries, Some _) \<Rightarrow>
          (let packages = dict_of (List.map_filter (\<lambda>(other, t).
                 if fnmatchcase ''*.st'' (last other) \<and> \<not> ends_with ''__test_project.st'' (last other)
                 then map_option (\<lambda>n. (n, other)) (ax_package (first_line t)) else None)
                 (in_folder (butlast p) files)) in
           List.map_filter (\<lambda>entry.
             let name = takeWhile (\<lambda>c. c \<noteq> CHR '' '') (strip entry) in
             case dget packages name of
               None \<Rightarrow> None
             | Some t \<Rightarrow> if t \<noteq> p then Some (t, ''apax dependency '' @ name) else None)
             (split_max (CHR '','') (length entries) entries))
      | _ \<Rightarrow> [])"

text \<open>The first entry of each target, without the file itself.\<close>

fun unique_targets :: "path \<Rightarrow> path set \<Rightarrow> (path \<times> string) list \<Rightarrow> (path \<times> string) list" where
  "unique_targets p seen [] = []"
| "unique_targets p seen ((t, why) # r) =
     (if t \<notin> seen \<and> t \<noteq> p then (t, why) # unique_targets p (insert t seen) r
      else unique_targets p seen r)"

text \<open>\<open>direct_dependencies\<close> of a file of the corpus with the given text.\<close>

definition direct_dependencies :: "library_config list \<Rightarrow> corpus \<Rightarrow> path \<Rightarrow> string \<Rightarrow> (path \<times> string) list" where
  "direct_dependencies configs files p text =
     unique_targets p {} (config_targets configs p @ qualifier_targets files p text @ apax_targets files p text)"

section \<open>The closure\<close>

record closure_state =
  cl_order :: "(path \<times> string) list"
  cl_visiting :: "path set"
  cl_done :: "path set"

text \<open>
  \<open>visit\<close>, for a function \<open>deps\<close> that gives the dependencies of a file that are files; None is a
  walk that ran out of fuel.
\<close>

fun visit_file :: "(path \<Rightarrow> (path \<times> string) list) \<Rightarrow> path \<Rightarrow> nat \<Rightarrow> path \<Rightarrow> string \<Rightarrow> closure_state \<Rightarrow> closure_state option"
  and visit_files :: "(path \<Rightarrow> (path \<times> string) list) \<Rightarrow> path \<Rightarrow> nat \<Rightarrow> (path \<times> string) list \<Rightarrow> closure_state \<Rightarrow>
      closure_state option" where
  "visit_file deps root n current reason st =
     (if current \<in> cl_done st \<or> current \<in> cl_visiting st then Some st
      else case n of
        0 \<Rightarrow> None
      | Suc m \<Rightarrow>
        (case visit_files deps root m (deps current) (st\<lparr>cl_visiting := insert current (cl_visiting st)\<rparr>) of
           None \<Rightarrow> None
         | Some st' \<Rightarrow> Some \<lparr>cl_order = (if current \<noteq> root then cl_order st' @ [(current, reason)] else cl_order st'),
             cl_visiting = cl_visiting st' - {current}, cl_done = insert current (cl_done st')\<rparr>))"
| "visit_files deps root n [] st = Some st"
| "visit_files deps root n ((t, why) # ds) st =
     (case visit_file deps root n t why st of None \<Rightarrow> None | Some st' \<Rightarrow> visit_files deps root n ds st')"

definition file_dependencies :: "library_config list \<Rightarrow> corpus \<Rightarrow> path \<Rightarrow> (path \<times> string) list" where
  "file_dependencies configs files p =
     filter (\<lambda>(t, _). dmem t files)
       (direct_dependencies configs files p (case dget files p of None \<Rightarrow> [] | Some text \<Rightarrow> text))"

datatype closure_error = FileMissing | ClosureFuel

definition closure :: "library_config list \<Rightarrow> corpus \<Rightarrow> path \<Rightarrow> closure_error + (path \<times> string) list" where
  "closure configs files p =
     (if \<not> dmem p files then Inl FileMissing
      else case visit_file (file_dependencies configs files) p (length files) p []
                  \<lparr>cl_order = [], cl_visiting = {}, cl_done = {}\<rparr> of
        None \<Rightarrow> Inl ClosureFuel
      | Some st \<Rightarrow> Inr (cl_order st))"

section \<open>What the walk keeps\<close>

definition dep_rel :: "(path \<Rightarrow> (path \<times> string) list) \<Rightarrow> (path \<times> path) set" where
  "dep_rel deps = {(a, b). b \<in> fst ` set (deps a)}"

text \<open>
  The files listed are those done, the root apart; a listed file's dependencies are listed before
  it, or are the root, or depend on it; the dependencies of a file that is done are done or on the
  stack; all is reachable from the root and listed with a reason.
\<close>

definition listed_ok :: "(path \<Rightarrow> (path \<times> string) list) \<Rightarrow> path \<Rightarrow> (path \<times> string) list \<Rightarrow> bool" where
  "listed_ok deps root l = (distinct (map fst l)
     \<and> (\<forall>i < length l. \<forall>g \<in> fst ` set (deps (fst (l ! i))).
          g = root \<or> g \<in> fst ` set (take i l) \<or> (g, fst (l ! i)) \<in> (dep_rel deps)\<^sup>*)
     \<and> (\<forall>(p, why) \<in> set l. \<exists>q. (root, q) \<in> (dep_rel deps)\<^sup>* \<and> (p, why) \<in> set (deps q)))"

definition walk_ok :: "(path \<Rightarrow> (path \<times> string) list) \<Rightarrow> path \<Rightarrow> closure_state \<Rightarrow> bool" where
  "walk_ok deps root st = (listed_ok deps root (cl_order st)
     \<and> fst ` set (cl_order st) = cl_done st - {root} \<and> cl_done st \<inter> cl_visiting st = {}
     \<and> (\<forall>d \<in> cl_done st. fst ` set (deps d) \<subseteq> cl_done st \<union> cl_visiting st)
     \<and> (\<forall>d \<in> cl_done st \<union> cl_visiting st. (root, d) \<in> (dep_rel deps)\<^sup>*))"

lemma listed_ok_append:
  assumes "listed_ok deps root l" and "c \<notin> fst ` set l"
    and "\<forall>g \<in> fst ` set (deps c). g = root \<or> g \<in> fst ` set l \<or> (g, c) \<in> (dep_rel deps)\<^sup>*"
    and "(root, q) \<in> (dep_rel deps)\<^sup>*" and "(c, why) \<in> set (deps q)"
  shows "listed_ok deps root (l @ [(c, why)])"
proof -
  have "g = root \<or> g \<in> fst ` set (take i (l @ [(c, why)])) \<or> (g, fst ((l @ [(c, why)]) ! i)) \<in> (dep_rel deps)\<^sup>*"
    if "i < Suc (length l)" "g \<in> fst ` set (deps (fst ((l @ [(c, why)]) ! i)))" for i g
  proof (cases "i < length l")
    case True
    with that(2) assms(1) show ?thesis unfolding listed_ok_def by (auto simp: nth_append)
  next
    case False
    with that(1) have "i = length l" by simp
    with that(2) assms(3) show ?thesis by auto
  qed
  with assms(1,2,4,5) show ?thesis unfolding listed_ok_def by auto
qed

text \<open>What a call of the walk does to its state.\<close>

definition walk_step :: "(path \<Rightarrow> (path \<times> string) list) \<Rightarrow> path \<Rightarrow> closure_state \<Rightarrow> closure_state \<Rightarrow> bool" where
  "walk_step deps root st st' = (walk_ok deps root st' \<and> cl_visiting st' = cl_visiting st \<and> cl_done st \<subseteq> cl_done st')"

text \<open>Leaving a file whose dependencies have been walked.\<close>

lemma walk_leave:
  assumes "walk_ok deps root st" and "c \<notin> cl_visiting st" and "c \<notin> cl_done st"
    and "walk_step deps root (st\<lparr>cl_visiting := insert c (cl_visiting st)\<rparr>) st'"
    and "fst ` set (deps c) \<subseteq> cl_done st' \<union> cl_visiting st'"
    and "\<forall>v \<in> cl_visiting st. (v, c) \<in> (dep_rel deps)\<^sup>*"
    and "c = root \<or> (\<exists>q. (root, q) \<in> (dep_rel deps)\<^sup>* \<and> (c, why) \<in> set (deps q))"
  shows "walk_step deps root st \<lparr>cl_order = (if c \<noteq> root then cl_order st' @ [(c, why)] else cl_order st'),
     cl_visiting = cl_visiting st' - {c}, cl_done = insert c (cl_done st')\<rparr>"
proof -
  let ?E = "(dep_rel deps)\<^sup>*"
  from assms(4) have st': "walk_ok deps root st'" "cl_visiting st' = insert c (cl_visiting st)"
    "cl_done st \<subseteq> cl_done st'" by (simp_all add: walk_step_def)
  have c: "c \<notin> cl_done st'" using st'(1,2) by (auto simp: walk_ok_def)
  have l: "listed_ok deps root (cl_order st')" "fst ` set (cl_order st') = cl_done st' - {root}"
    using st'(1) by (simp_all add: walk_ok_def)
  have "listed_ok deps root (cl_order st' @ [(c, why)])" if "c \<noteq> root"
  proof -
    from assms(7) that obtain q where q: "(root, q) \<in> ?E" "(c, why) \<in> set (deps q)" by blast
    have "\<forall>g \<in> fst ` set (deps c). g = root \<or> g \<in> fst ` set (cl_order st') \<or> (g, c) \<in> ?E"
    proof
      fix g assume "g \<in> fst ` set (deps c)"
      with assms(5) st'(2) have "g \<in> cl_done st' \<or> g = c \<or> g \<in> cl_visiting st" by blast
      with l(2) assms(6) show "g = root \<or> g \<in> fst ` set (cl_order st') \<or> (g, c) \<in> ?E" by blast
    qed
    from listed_ok_append [OF l(1) _ this q] c l(2) show ?thesis by blast
  qed
  moreover have "fst ` set (if c \<noteq> root then cl_order st' @ [(c, why)] else cl_order st') =
      insert c (cl_done st') - {root}" using l(2) by auto
  moreover have "\<forall>d \<in> insert c (cl_done st'). fst ` set (deps d) \<subseteq> insert c (cl_done st') \<union> (cl_visiting st' - {c})"
    using assms(5) st'(1) unfolding walk_ok_def by blast
  moreover have "\<forall>d \<in> insert c (cl_done st') \<union> (cl_visiting st' - {c}). (root, d) \<in> ?E"
    using st'(1,2) unfolding walk_ok_def by blast
  moreover have "insert c (cl_done st') \<inter> (cl_visiting st' - {c}) = {}"
    using st'(1) unfolding walk_ok_def by blast
  moreover have "cl_visiting st' - {c} = cl_visiting st" using st'(2) assms(2) by blast
  ultimately show ?thesis using l(1) st'(3) unfolding walk_step_def walk_ok_def by auto
qed

lemma walk_step_trans: "walk_step deps root a b \<Longrightarrow> walk_step deps root b c \<Longrightarrow> walk_step deps root a c"
  unfolding walk_step_def by auto

text \<open>With fuel for the files that are not on the stack, the walk returns.\<close>

lemma visit_sound:
  "walk_ok deps root st \<Longrightarrow> \<forall>v \<in> cl_visiting st. (v, c) \<in> (dep_rel deps)\<^sup>* \<Longrightarrow> (root, c) \<in> (dep_rel deps)\<^sup>* \<Longrightarrow>
     c = root \<or> (\<exists>q. (root, q) \<in> (dep_rel deps)\<^sup>* \<and> (c, why) \<in> set (deps q)) \<Longrightarrow>
     finite U \<Longrightarrow> {p. (root, p) \<in> (dep_rel deps)\<^sup>*} \<subseteq> U \<Longrightarrow> card (U - cl_visiting st) \<le> n \<Longrightarrow>
     \<exists>st'. visit_file deps root n c why st = Some st' \<and> walk_step deps root st st' \<and> c \<in> cl_done st' \<union> cl_visiting st'"
  "walk_ok deps root st \<Longrightarrow> c \<in> cl_visiting st \<Longrightarrow> \<forall>v \<in> cl_visiting st. (v, c) \<in> (dep_rel deps)\<^sup>* \<Longrightarrow>
     set ds \<subseteq> set (deps c) \<Longrightarrow>
     finite U \<Longrightarrow> {p. (root, p) \<in> (dep_rel deps)\<^sup>*} \<subseteq> U \<Longrightarrow> card (U - cl_visiting st) \<le> n \<Longrightarrow>
     \<exists>st'. visit_files deps root n ds st = Some st' \<and> walk_step deps root st st' \<and>
       fst ` set ds \<subseteq> cl_done st' \<union> cl_visiting st'"
proof (induction deps root n c why st and deps root n ds st arbitrary: and c rule: visit_file_visit_files.induct)
  case (1 deps root n current reason st)
  show ?case
  proof (cases "current \<in> cl_done st \<or> current \<in> cl_visiting st")
    case True
    with 1(2) show ?thesis by (auto simp: walk_step_def)
  next
    case False
    let ?st = "st\<lparr>cl_visiting := insert current (cl_visiting st)\<rparr>"
    have U: "current \<in> U - cl_visiting st" using False 1(4,7) by blast
    then have "0 < card (U - cl_visiting st)" using 1(6) by (simp add: card_gt_0_iff) blast
    with 1(8) obtain m where m: "n = Suc m" by (cases n) auto
    have "\<forall>d \<in> cl_done st. fst ` set (deps d) \<subseteq> cl_done st \<union> insert current (cl_visiting st)"
      using 1(2) unfolding walk_ok_def by blast
    then have ok: "walk_ok deps root ?st" using 1(2,4) False unfolding walk_ok_def by simp
    have stack: "\<forall>v \<in> cl_visiting ?st. (v, current) \<in> (dep_rel deps)\<^sup>*" using 1(3) by simp
    have "U - cl_visiting ?st = (U - cl_visiting st) - {current}" by auto
    then have "card (U - cl_visiting ?st) < card (U - cl_visiting st)"
      using U 1(6) by (metis card_Diff1_less finite_Diff)
    then have fuel: "card (U - cl_visiting ?st) \<le> m" using 1(8) m by simp
    from 1(1) [OF False m ok _ stack order_refl 1(6,7) fuel] obtain st' where
      st': "visit_files deps root m (deps current) ?st = Some st'" "walk_step deps root ?st st'"
      "fst ` set (deps current) \<subseteq> cl_done st' \<union> cl_visiting st'" by auto
    from walk_leave [OF 1(2) _ _ st'(2,3) 1(3,5)] False st'(1) m show ?thesis by simp
  qed
next
  case (2 deps root n st)
  then show ?case by (auto simp: walk_step_def)
next
  case (3 deps root n t why ds st)
  have tc: "(t, why) \<in> set (deps c)" using 3(6) by simp
  have rc: "(root, c) \<in> (dep_rel deps)\<^sup>*" using 3(3,4) unfolding walk_ok_def by blast
  have ct: "(c, t) \<in> dep_rel deps" using tc by (force simp: dep_rel_def)
  have "\<forall>v \<in> cl_visiting st. (v, t) \<in> (dep_rel deps)\<^sup>*" using 3(5) ct by (meson rtrancl.rtrancl_into_rtrancl)
  moreover have "(root, t) \<in> (dep_rel deps)\<^sup>*" using rc ct by (rule rtrancl.rtrancl_into_rtrancl)
  moreover have "t = root \<or> (\<exists>q. (root, q) \<in> (dep_rel deps)\<^sup>* \<and> (t, why) \<in> set (deps q))" using rc tc by blast
  ultimately obtain st1 where
    st1: "visit_file deps root n t why st = Some st1" "walk_step deps root st st1" "t \<in> cl_done st1 \<union> cl_visiting st1"
    using 3(1) [OF 3(3) _ _ _ 3(7,8,9)] by blast
  have v: "walk_ok deps root st1" "cl_visiting st1 = cl_visiting st" using st1(2) by (simp_all add: walk_step_def)
  have "\<exists>st'. visit_files deps root n ds st1 = Some st' \<and> walk_step deps root st1 st' \<and>
       fst ` set ds \<subseteq> cl_done st' \<union> cl_visiting st'"
    by (rule 3(2) [OF st1(1) v(1) _ _ _ 3(7,8), of c]) (use 3(4-6,9) v(2) in auto)
  then obtain st' where st': "visit_files deps root n ds st1 = Some st'" "walk_step deps root st1 st'"
    "fst ` set ds \<subseteq> cl_done st' \<union> cl_visiting st'" by blast
  have "t \<in> cl_done st' \<union> cl_visiting st'" using st1(3) st'(2) unfolding walk_step_def by auto
  with st' st1(1) walk_step_trans [OF st1(2) st'(2)] show ?case by auto
qed

lemma walk_reaches:
  assumes "(root, p) \<in> (dep_rel deps)\<^sup>*" and "root \<in> cl_done st" and "walk_ok deps root st"
    and "cl_visiting st = {}"
  shows "p \<in> cl_done st"
  using assms(1)
proof (induction rule: rtrancl_induct)
  case (step p q)
  with assms(3,4) show ?case unfolding walk_ok_def dep_rel_def by blast
qed (rule assms(2))

lemma file_dependencies_dmem: "(t, why) \<in> set (file_dependencies configs files p) \<Longrightarrow> dmem t files"
  by (simp add: file_dependencies_def)

lemma reach_in_corpus:
  "(p, q) \<in> (dep_rel (file_dependencies configs files))\<^sup>* \<Longrightarrow> dmem p files \<Longrightarrow> dmem q files"
  by (induction rule: rtrancl_induct) (auto simp: dep_rel_def dest: file_dependencies_dmem)

lemma closure_walk:
  assumes "dmem p files"
  shows "\<exists>l. closure configs files p = Inr l \<and> listed_ok (file_dependencies configs files) p l \<and>
    fst ` set l = {q. (p, q) \<in> (dep_rel (file_dependencies configs files))\<^sup>*} - {p}"
proof -
  let ?deps = "file_dependencies configs files"
  let ?st0 = "\<lparr>cl_order = [], cl_visiting = {}, cl_done = {}\<rparr>"
  have ok: "walk_ok ?deps p ?st0" by (simp add: walk_ok_def listed_ok_def)
  have U: "{q. (p, q) \<in> (dep_rel ?deps)\<^sup>*} \<subseteq> set (dkeys files)"
    using reach_in_corpus [OF _ assms(1)] unfolding dmem_def by blast
  have "card (set (dkeys files) - cl_visiting ?st0) \<le> length files"
    using card_length [of "dkeys files"] by simp
  from visit_sound(1) [OF ok _ _ _ _ U this, of p "[]"] obtain st where
    st: "visit_file ?deps p (length files) p [] ?st0 = Some st" "walk_step ?deps p ?st0 st" "p \<in> cl_done st \<union> cl_visiting st"
    by auto
  have w: "walk_ok ?deps p st" "cl_visiting st = {}" "p \<in> cl_done st"
    using st(2,3) by (simp_all add: walk_step_def)
  have "cl_done st = {q. (p, q) \<in> (dep_rel (file_dependencies configs files))\<^sup>*}"
  proof
    show "cl_done st \<subseteq> {q. (p, q) \<in> (dep_rel (file_dependencies configs files))\<^sup>*}" using w(1) unfolding walk_ok_def by blast
    show "{q. (p, q) \<in> (dep_rel (file_dependencies configs files))\<^sup>*} \<subseteq> cl_done st" using walk_reaches [OF _ w(3,1,2)] by blast
  qed
  moreover have "closure configs files p = Inr (cl_order st)"
    unfolding closure_def st(1) using assms(1) by simp
  moreover have "listed_ok ?deps p (cl_order st)" "fst ` set (cl_order st) = cl_done st - {p}"
    using w(1) by (simp_all add: walk_ok_def)
  ultimately show ?thesis by (intro exI [of _ "cl_order st"] conjI) simp_all
qed

text \<open>
  (C25) The dependency closure of a library file: the walk returns, lists every file reachable over
  dependencies once and nothing else but the file itself, each with the reason some reachable file
  gives, and dependencies first: a dependency of a listed file is listed before it unless the two
  depend on each other or it is the file the closure is for.
\<close>

theorem closure_dependency_first:
  assumes "dmem p files"
  shows "\<exists>l. closure configs files p = Inr l \<and> distinct (map fst l) \<and>
    set (map fst l) = {q. (p, q) \<in> (dep_rel (file_dependencies configs files))\<^sup>*} - {p} \<and>
    (\<forall>(q, why) \<in> set l. \<exists>r. (p, r) \<in> (dep_rel (file_dependencies configs files))\<^sup>*
       \<and> (q, why) \<in> set (file_dependencies configs files r)) \<and>
    (\<forall>i < length l. \<forall>g \<in> fst ` set (file_dependencies configs files (fst (l ! i))).
       g = p \<or> g \<in> fst ` set (take i l) \<or> (g, fst (l ! i)) \<in> (dep_rel (file_dependencies configs files))\<^sup>*)"
  using closure_walk [OF assms, of configs] unfolding listed_ok_def set_map by blast

definition demo_folder :: path where
  "demo_folder = [''r'', ''V'', ST_FOLDER]"

definition demo_files :: corpus where
  "demo_files = [(demo_folder @ [''a.st''], ''x''), (demo_folder @ [''b.st''], ''y''), (demo_folder @ [''c.st''], ''z'')]"

definition demo_configs :: "library_config list" where
  "demo_configs = [\<lparr>lc_match = [''a*''], lc_dependencies = [(''V'', ''b.st'', ''A''), (''V'', ''c.st'', ''B'')]\<rparr>,
     \<lparr>lc_match = [''b.st''], lc_dependencies = [(''V'', ''c.st'', ''C'')]\<rparr>]"

lemma demo_closure:
  "closure demo_configs demo_files (demo_folder @ [''a.st'']) =
     Inr [(demo_folder @ [''c.st''], ''library config: C''), (demo_folder @ [''b.st''], ''library config: A'')]"
  by code_simp

theorem closure_dependency_first_witness:
  "{q. (demo_folder @ [''a.st''], q) \<in> (dep_rel (file_dependencies demo_configs demo_files))\<^sup>*} - {demo_folder @ [''a.st'']}
     = {demo_folder @ [''b.st''], demo_folder @ [''c.st'']}"
proof -
  have "dmem (demo_folder @ [''a.st'']) demo_files" by code_simp
  from closure_dependency_first [OF this, of demo_configs] show ?thesis by (auto simp: demo_closure)
qed

end
