(* ===== verification/Finding_Dedup.thy ===== *)
theory Finding_Dedup
  imports Json Py_Regex "HOL-Library.Multiset"
begin

text \<open>
  Deduplication of findings (\<^verbatim>\<open>fuzzer/reporting/findings.py\<close>): the signature of a raw
  finding, the store of deduplicated records and its operations, the records' files, and the replay
  pass of \<^verbatim>\<open>fuzzer/reporting/report.py\<close>. The specification is a log of raw findings: a
  record summarises the findings of the log that share its key. The clock and the replay of a seed
  are arguments; the files of the output directory are a dictionary from names to documents.
\<close>

section \<open>Signatures\<close>

text \<open>An optional text that \<open>if text\<close> accepts; \<open>a or b\<close> on optional texts.\<close>

fun given :: "string option \<Rightarrow> bool" where
  "given None = False"
| "given (Some s) = (s \<noteq> [])"

definition or_opt :: "string option \<Rightarrow> string option \<Rightarrow> string option" where
  "or_opt a b = (if given a then a else b)"

definition or_text :: "string option \<Rightarrow> string \<Rightarrow> string" where
  "or_text a b = (if given a then the a else b)"

record finding_signature =
  sg_function :: string
  sg_kind :: string
  sg_tier :: string
  sg_target_id :: "string option"
  sg_hazard :: "string option"
  sg_location :: "string option"
  sg_exit :: "string option"
  sg_stack :: "string option"
  sg_target_kind :: "string option"
  sg_cycles :: "int option"
  sg_content :: "string option"

definition cycles_text :: "int option \<Rightarrow> string" where
  "cycles_text c = (case c of None \<Rightarrow> ''?'' | Some n \<Rightarrow> show_int n)"

definition signature_key :: "finding_signature \<Rightarrow> string" where
  "signature_key g =
     (if sg_tier g = ''semantic'' then
        ''semantic::'' @ sg_function g @ ''::'' @ or_text (sg_target_id g) ''?'' @ ''::'' @
        or_text (sg_hazard g) ''?''
      else if sg_tier g = ''runtime'' then
        ''runtime::'' @ sg_function g @ ''::'' @ or_text (sg_exit g) (sg_kind g) @ ''::'' @
        or_text (or_opt (sg_stack g) (sg_location g)) ''?''
      else
        ''fallback::'' @ sg_function g @ ''::'' @ or_text (sg_exit g) (sg_kind g) @ ''::'' @
        or_text (sg_target_kind g) ''?'' @ ''::'' @ cycles_text (sg_cycles g))"

definition display :: "finding_signature \<Rightarrow> string" where
  "display g =
     (if sg_tier g = ''semantic'' then
        ''[semantic] '' @ sg_function g @ '' target='' @ or_text (sg_target_id g) ''?'' @
        '' hazard='' @ or_text (sg_hazard g) ''?'' @ '' loc='' @ or_text (sg_location g) ''?''
      else if sg_tier g = ''runtime'' then
        ''[runtime] '' @ sg_function g @ '' exit='' @ or_text (sg_exit g) (sg_kind g) @
        '' stack='' @ or_text (sg_stack g) ''?''
      else
        ''[fallback] '' @ sg_function g @ '' exit='' @ or_text (sg_exit g) (sg_kind g) @
        '' target_kind='' @ or_text (sg_target_kind g) ''?'' @
        '' cycles='' @ cycles_text (sg_cycles g))"

text \<open>The keyword arguments of \<open>add\<close>.\<close>

record raw_finding =
  rf_function :: string
  rf_kind :: string
  rf_path :: "string option"
  rf_target_id :: "string option"
  rf_hazard :: "string option"
  rf_location :: "string option"
  rf_exit :: "string option"
  rf_stack :: "string option"
  rf_target_kind :: "string option"
  rf_cycles :: "int option"
  rf_evidence :: "(string, json) dict option"
  rf_status :: string
  rf_returncode :: "int option"
  rf_preview :: string

definition build_signature :: "raw_finding \<Rightarrow> string option \<Rightarrow> finding_signature" where
  "build_signature f content =
     (if given (rf_target_id f) \<or> given (rf_hazard f) then
        \<lparr>sg_function = rf_function f, sg_kind = rf_kind f, sg_tier = ''semantic'',
         sg_target_id = rf_target_id f, sg_hazard = rf_hazard f, sg_location = rf_location f,
         sg_exit = None, sg_stack = None, sg_target_kind = None, sg_cycles = None,
         sg_content = None\<rparr>
      else if given (rf_stack f) \<or> given (rf_location f) then
        \<lparr>sg_function = rf_function f, sg_kind = rf_kind f, sg_tier = ''runtime'',
         sg_target_id = None, sg_hazard = None, sg_location = rf_location f,
         sg_exit = Some (or_text (rf_exit f) (rf_kind f)), sg_stack = rf_stack f,
         sg_target_kind = rf_target_kind f, sg_cycles = rf_cycles f, sg_content = None\<rparr>
      else
        \<lparr>sg_function = rf_function f, sg_kind = rf_kind f, sg_tier = ''fallback'',
         sg_target_id = None, sg_hazard = None, sg_location = None,
         sg_exit = Some (or_text (rf_exit f) (rf_kind f)), sg_stack = None,
         sg_target_kind = rf_target_kind f, sg_cycles = rf_cycles f, sg_content = content\<rparr>)"

section \<open>Records and the store\<close>

record finding_record =
  fr_signature :: finding_signature
  fr_kind :: string
  fr_function :: string
  fr_seeds :: "string list"
  fr_duplicates :: int
  fr_first :: string
  fr_last :: string
  fr_status :: string
  fr_returncode :: "int option"
  fr_preview :: string
  fr_evidence :: "(string, json) dict"
  fr_location :: "string option"
  fr_origin :: "(string, json) dict"

definition MAX_REPRESENTATIVE_SEEDS :: nat where
  "MAX_REPRESENTATIVE_SEEDS = 3"

definition REPLAY_RANK :: "(string \<times> nat) list" where
  "REPLAY_RANK = [(''confirmed'', 3), (''unstable'', 2), (''candidate'', 1), (''unchecked'', 0)]"

definition replay_rank :: "string \<Rightarrow> nat" where
  "replay_rank s = (case map_of REPLAY_RANK s of None \<Rightarrow> 0 | Some n \<Rightarrow> n)"

definition replay_status_of :: "string \<Rightarrow> string" where
  "replay_status_of status =
     (if status = ''ok'' then ''unstable''
      else if status \<in> {''crash'', ''timeout'', ''nonzero'', ''oom''} then ''confirmed''
      else if status = ''replay_error'' then ''unstable''
      else ''unchecked'')"

record deduplicator =
  dd_records :: "(string, finding_record) dict"
  dd_raw :: int

definition new_deduplicator :: deduplicator where
  "new_deduplicator = \<lparr>dd_records = [], dd_raw = 0\<rparr>"

definition dedup_count :: "deduplicator \<Rightarrow> nat" where
  "dedup_count d = length (dd_records d)"

definition duplicate_total :: "deduplicator \<Rightarrow> int" where
  "duplicate_total d = sum_list (map (\<lambda>(k, r). fr_duplicates r) (dd_records d))"

definition sorted_records :: "deduplicator \<Rightarrow> finding_record list" where
  "sorted_records d = sort_key (\<lambda>r. signature_key (fr_signature r)) (map snd (dd_records d))"

definition seed_display :: "raw_finding \<Rightarrow> string" where
  "seed_display f = (case rf_path f of None \<Rightarrow> [] | Some p \<Rightarrow> p)"

definition finding_key :: "raw_finding \<Rightarrow> string" where
  "finding_key f = signature_key (build_signature f None)"

text \<open>The record of a new group.\<close>

definition new_record :: "string \<Rightarrow> raw_finding \<Rightarrow> finding_record" where
  "new_record now f =
     \<lparr>fr_signature = build_signature f None, fr_kind = rf_kind f, fr_function = rf_function f,
      fr_seeds = (if seed_display f \<noteq> [] then [seed_display f] else []), fr_duplicates = 0,
      fr_first = now, fr_last = now, fr_status = rf_status f, fr_returncode = rf_returncode f,
      fr_preview = rf_preview f,
      fr_evidence = (case rf_evidence f of None \<Rightarrow> [] | Some e \<Rightarrow> e),
      fr_location = rf_location f, fr_origin = []\<rparr>"

text \<open>A further finding of a group, in the order of the three updates.\<close>

definition add_seed_path :: "string \<Rightarrow> string list \<Rightarrow> string list" where
  "add_seed_path p seeds =
     (if p \<noteq> [] \<and> length seeds < MAX_REPRESENTATIVE_SEEDS \<and> p \<notin> set seeds
      then seeds @ [p] else seeds)"

definition merge_finding :: "string \<Rightarrow> raw_finding \<Rightarrow> finding_record \<Rightarrow> finding_record" where
  "merge_finding now f r =
     (let r = r\<lparr>fr_duplicates := fr_duplicates r + 1, fr_last := now,
                fr_seeds := add_seed_path (seed_display f) (fr_seeds r)\<rparr>
      in if replay_rank (fr_status r) < replay_rank (rf_status f)
         then r\<lparr>fr_status := rf_status f, fr_returncode := rf_returncode f,
                fr_preview := rf_preview f\<rparr>
         else r)"

definition add :: "string \<Rightarrow> raw_finding \<Rightarrow> deduplicator \<Rightarrow> finding_record \<times> deduplicator" where
  "add now f d =
     (let key = finding_key f;
          r = (case dget (dd_records d) key of
                 Some r \<Rightarrow> merge_finding now f r
               | None \<Rightarrow> new_record now f)
      in (r, d\<lparr>dd_raw := dd_raw d + 1, dd_records := dset key r (dd_records d)\<rparr>))"

record dedup_summary =
  ds_raw :: int
  ds_deduplicated :: nat
  ds_confirmed :: nat
  ds_unstable :: nat
  ds_candidate :: nat
  ds_unchecked :: nat
  ds_duplicates :: int
  ds_runtime :: nat
  ds_semantic :: nat

definition count_status :: "string \<Rightarrow> deduplicator \<Rightarrow> nat" where
  "count_status s d = length (filter (\<lambda>(k, r). fr_status r = s) (dd_records d))"

definition summary :: "deduplicator \<Rightarrow> dedup_summary" where
  "summary d =
     \<lparr>ds_raw = dd_raw d, ds_deduplicated = dedup_count d,
      ds_confirmed = count_status ''confirmed'' d, ds_unstable = count_status ''unstable'' d,
      ds_candidate = count_status ''candidate'' d, ds_unchecked = count_status ''unchecked'' d,
      ds_duplicates = duplicate_total d,
      ds_runtime = length (filter (\<lambda>(k, r). sg_tier (fr_signature r) \<noteq> ''semantic'') (dd_records d)),
      ds_semantic = length (filter (\<lambda>(k, r). sg_tier (fr_signature r) = ''semantic'') (dd_records d))\<rparr>"

section \<open>Records as documents\<close>

text \<open>
  \<open>AttributeErr\<close> is the exception of reading a field of a value that is no dictionary, which the
  loader does not catch. \<open>IllTyped\<close> marks a document whose fields do not have the declared types:
  the code would keep the values as they are, which the records of the model cannot hold.
\<close>

datatype load_error = AttributeErr | TypeErr | IllTyped

definition text_json :: "string option \<Rightarrow> json" where
  "text_json s = (case s of None \<Rightarrow> JNull | Some t \<Rightarrow> JStr t)"

definition int_json :: "int option \<Rightarrow> json" where
  "int_json n = (case n of None \<Rightarrow> JNull | Some i \<Rightarrow> JInt i)"

definition to_json :: "finding_record \<Rightarrow> json" where
  "to_json r = (let g = fr_signature r in JObj
     [(''schema_version'', JStr ''finding-record-1.0''),
      (''error_kind'', JStr (fr_kind r)),
      (''function'', JStr (fr_function r)),
      (''signature'', JStr (signature_key g)),
      (''signature_detail'', JObj
         [(''tier'', JStr (sg_tier g)),
          (''kind'', JStr (sg_kind g)),
          (''semantic_target_id'', text_json (sg_target_id g)),
          (''hazard_kind'', text_json (sg_hazard g)),
          (''source_location'', text_json (sg_location g)),
          (''exit_kind'', text_json (sg_exit g)),
          (''stack_hash'', text_json (sg_stack g)),
          (''target_kind'', text_json (sg_target_kind g)),
          (''cycle_count'', int_json (sg_cycles g)),
          (''seed_content_hash'', text_json (sg_content g))]),
      (''representative_seeds'', JList (map JStr (fr_seeds r))),
      (''duplicate_count'', JInt (fr_duplicates r)),
      (''first_seen'', JStr (fr_first r)),
      (''last_seen'', JStr (fr_last r)),
      (''replay_status'', JStr (fr_status r)),
      (''replay_returncode'', int_json (fr_returncode r)),
      (''replay_stderr_preview'', JStr (take 2000 (fr_preview r))),
      (''semantic_evidence'', JObj (fr_evidence r)),
      (''source_location'', text_json (fr_location r)),
      (''crash_origin'', JObj (fr_origin r))])"

fun as_text :: "json \<Rightarrow> load_error + string" where
  "as_text (JStr s) = Inr s"
| "as_text _ = Inl IllTyped"

fun as_opt_text :: "json \<Rightarrow> load_error + string option" where
  "as_opt_text JNull = Inr None"
| "as_opt_text (JStr s) = Inr (Some s)"
| "as_opt_text _ = Inl IllTyped"

fun as_int :: "json \<Rightarrow> load_error + int" where
  "as_int (JInt i) = Inr i"
| "as_int _ = Inl IllTyped"

fun as_opt_int :: "json \<Rightarrow> load_error + int option" where
  "as_opt_int JNull = Inr None"
| "as_opt_int (JInt i) = Inr (Some i)"
| "as_opt_int _ = Inl IllTyped"

fun as_texts :: "json \<Rightarrow> load_error + string list" where
  "as_texts (JList xs) = mapE as_text xs"
| "as_texts _ = Inl IllTyped"

fun as_dict :: "json \<Rightarrow> load_error + (string, json) dict" where
  "as_dict (JObj d) = Inr d"
| "as_dict _ = Inl IllTyped"

definition signature_of_json ::
    "(string, json) dict \<Rightarrow> (string, json) dict \<Rightarrow> load_error + finding_signature" where
  "signature_of_json data detail =
     bindE (as_text (jget_or data ''function'' (JStr ''unknown''))) (\<lambda>function.
     bindE (as_text (jget_or data ''error_kind'' (jget_or detail ''kind'' (JStr ''unknown''))))
       (\<lambda>kind.
     bindE (as_text (jget_or detail ''tier'' (JStr ''fallback''))) (\<lambda>tier.
     bindE (as_opt_text (jget detail ''semantic_target_id'')) (\<lambda>target.
     bindE (as_opt_text (jget detail ''hazard_kind'')) (\<lambda>hazard.
     bindE (as_opt_text (jor (jget detail ''source_location'') (jget data ''source_location'')))
       (\<lambda>location.
     bindE (as_opt_text (jget detail ''exit_kind'')) (\<lambda>exit.
     bindE (as_opt_text (jget detail ''stack_hash'')) (\<lambda>stack.
     bindE (as_opt_text (jget detail ''target_kind'')) (\<lambda>target_kind.
     bindE (as_opt_int (jget detail ''cycle_count'')) (\<lambda>cycles.
     bindE (as_opt_text (jget detail ''seed_content_hash'')) (\<lambda>content.
     Inr \<lparr>sg_function = function, sg_kind = kind, sg_tier = tier, sg_target_id = target,
          sg_hazard = hazard, sg_location = location, sg_exit = exit, sg_stack = stack,
          sg_target_kind = target_kind, sg_cycles = cycles, sg_content = content\<rparr>)))))))))))"

definition from_json :: "(string, json) dict \<Rightarrow> load_error + finding_record" where
  "from_json data =
     (case jget_or data ''signature_detail'' (JObj []) of
        JObj detail \<Rightarrow>
          bindE (signature_of_json data detail) (\<lambda>g.
          bindE (as_text (jget_or data ''error_kind'' (JStr ''unknown''))) (\<lambda>kind.
          bindE (as_text (jget_or data ''function'' (JStr ''unknown''))) (\<lambda>function.
          bindE (as_texts (jget_or data ''representative_seeds'' (JList []))) (\<lambda>seeds.
          bindE (as_int (jget_or data ''duplicate_count'' (JInt 0))) (\<lambda>duplicates.
          bindE (as_text (jget_or data ''first_seen'' (JStr []))) (\<lambda>first.
          bindE (as_text (jget_or data ''last_seen'' (JStr []))) (\<lambda>last.
          bindE (as_text (jget_or data ''replay_status'' (JStr ''unchecked''))) (\<lambda>status.
          bindE (as_opt_int (jget data ''replay_returncode'')) (\<lambda>returncode.
          bindE (as_text (jget_or data ''replay_stderr_preview'' (JStr []))) (\<lambda>preview.
          bindE (as_dict (jget_or data ''crash_origin'' (JObj []))) (\<lambda>origin.
          bindE (as_dict (jget_or data ''semantic_evidence'' (JObj []))) (\<lambda>evidence.
          bindE (as_opt_text (jget data ''source_location'')) (\<lambda>location.
          Inr \<lparr>fr_signature = g, fr_kind = kind, fr_function = function, fr_seeds = seeds,
               fr_duplicates = duplicates, fr_first = first, fr_last = last, fr_status = status,
               fr_returncode = returncode, fr_preview = preview, fr_evidence = evidence,
               fr_location = location, fr_origin = origin\<rparr>)))))))))))))
      | _ \<Rightarrow> Inl AttributeErr)"

section \<open>Files of records\<close>

definition safe_key :: "string \<Rightarrow> string" where
  "safe_key key = take 160 (replace_all ''/'' ''_'' (replace_all ''::'' ''__'' key))"

definition record_file :: "finding_record \<Rightarrow> string" where
  "record_file r = safe_key (signature_key (fr_signature r)) @ ''.json''"

text \<open>The documents of a directory; \<open>None\<close> is a file that cannot be read as JSON.\<close>

type_synonym directory = "(string, json option) dict"

definition persist_record :: "directory \<Rightarrow> finding_record \<Rightarrow> directory" where
  "persist_record files r = dset (record_file r) (Some (to_json r)) files"

definition persist_records :: "deduplicator \<Rightarrow> directory \<Rightarrow> string list \<times> directory" where
  "persist_records d files =
     (map record_file (map snd (dd_records d)),
      foldl persist_record files (map snd (dd_records d)))"

text \<open>One file of the loader: the number of records loaded and the store.\<close>

definition load_document ::
    "deduplicator \<times> nat \<Rightarrow> (string, json) dict \<Rightarrow> load_error + deduplicator \<times> nat" where
  "load_document s data =
     (if jget data ''schema_version'' \<noteq> JStr ''finding-record-1.0'' then Inr s
      else case from_json data of
        Inl AttributeErr \<Rightarrow> Inl AttributeErr
      | Inl TypeErr \<Rightarrow> Inr s
      | Inl IllTyped \<Rightarrow> Inl IllTyped
      | Inr r \<Rightarrow>
          (let key = signature_key (fr_signature r); (d, loaded) = s in
             if dmem key (dd_records d) then Inr s
             else Inr (d\<lparr>dd_records := dset key r (dd_records d),
                         dd_raw := dd_raw d + (fr_duplicates r + 1)\<rparr>, loaded + 1)))"

definition load_file ::
    "deduplicator \<times> nat \<Rightarrow> string \<times> json option \<Rightarrow> load_error + deduplicator \<times> nat" where
  "load_file s file =
     (case snd file of
        Some (JObj data) \<Rightarrow> load_document s data
      | _ \<Rightarrow> Inr s)"

definition record_files :: "directory \<Rightarrow> (string \<times> json option) list" where
  "record_files files = sort_key fst (filter (\<lambda>(name, _). ends_with ''.json'' name) files)"

text \<open>\<open>None\<close> stands for a missing directory.\<close>

definition load_legacy_records ::
    "directory option \<Rightarrow> deduplicator \<Rightarrow> load_error + deduplicator \<times> nat" where
  "load_legacy_records dir d =
     (case dir of
        None \<Rightarrow> Inr (d, 0)
      | Some files \<Rightarrow> foldE load_file (d, 0) (record_files files))"

section \<open>Raw findings as documents\<close>

definition finding_of_json ::
    "(string, json) dict \<Rightarrow> string option \<Rightarrow> load_error + raw_finding" where
  "finding_of_json raw reproducer =
     (let kind = py_str (jor (jget raw ''kind'') (jor (jget raw ''finding_kind'') (JStr ''unknown'')));
          replay = jget_or raw ''replay'' (JObj []) in
     bindE (as_text (jget_or raw ''function'' (JStr ''unknown''))) (\<lambda>function.
     bindE (as_opt_text (jor (jget raw ''semantic_target_id'') (jget raw ''guide_target_id'')))
       (\<lambda>target.
     bindE (as_opt_text (jget raw ''hazard_kind'')) (\<lambda>hazard.
     bindE (as_opt_text (jor (jget raw ''source_location'') (jget raw ''location''))) (\<lambda>location.
     bindE (as_text (jor (jget raw ''exit_kind'') (JStr kind))) (\<lambda>exit.
     bindE (as_opt_text (jget raw ''stack_hash'')) (\<lambda>stack.
     bindE (as_opt_text (jget raw ''target_kind'')) (\<lambda>target_kind.
     bindE (as_opt_int (jget raw ''cycle_count'')) (\<lambda>cycles.
     bindE (as_dict (jget_or raw ''semantic_evidence'' (JObj []))) (\<lambda>evidence.
     bindE (if is_obj replay then as_opt_int (jget (obj_of replay) ''returncode'') else Inr None)
       (\<lambda>returncode.
     bindE (if is_obj replay then as_text (jget_or (obj_of replay) ''stderr_preview'' (JStr []))
            else Inr []) (\<lambda>preview.
     Inr \<lparr>rf_function = function, rf_kind = kind, rf_path = reproducer, rf_target_id = target,
          rf_hazard = hazard, rf_location = location, rf_exit = Some exit, rf_stack = stack,
          rf_target_kind = target_kind, rf_cycles = cycles, rf_evidence = Some evidence,
          rf_status = (if is_obj replay
             then replay_status_of (str_of (jget_or (obj_of replay) ''status'' (JStr [])))
             else ''unchecked''),
          rf_returncode = returncode, rf_preview = preview\<rparr>))))))))))))"

definition add_from_finding_json ::
    "string \<Rightarrow> (string, json) dict \<Rightarrow> string option \<Rightarrow> deduplicator \<Rightarrow>
     load_error + finding_record \<times> deduplicator" where
  "add_from_finding_json now raw reproducer d =
     bindE (finding_of_json raw reproducer) (\<lambda>f. Inr (add now f d))"

section \<open>Cause location of a crash\<close>

text \<open>\<^verbatim>\<open>fuzzer/reporting/origin.py\<close>\<close>

definition not_space :: rx where
  "not_space = RChar (\<lambda>c. \<not> is_space c)"

definition FRAME_RE :: rx where
  "FRAME_RE = rx_seq
     [RStar (RChar is_space), RChar (\<lambda>c. c = CHR ''#''), rx_plus (RChar is_digit),
      rx_plus (RChar is_space),
      rx_opt (rx_seq [rx_lit ''0x'', rx_plus (RChar is_hex_digit), rx_plus (RChar is_space)]),
      rx_opt (RSeq (rx_lit ''in'') (rx_plus (RChar is_space))),
      RGroup 1 (rx_plus not_space),
      rx_opt (RSeq (rx_plus (RChar is_space)) (RGroup 2 (rx_plus not_space)))]"

definition PANIC_RE :: rx where
  "PANIC_RE = RSeq (rx_lit ''panicked at '')
     (RGroup 1 (rx_plus (RChar (\<lambda>c. \<not> is_space c \<and> c \<noteq> CHR '':''))))"

definition IGNORED :: "string list" where
  "IGNORED = [''__asan'', ''__ubsan'', ''__sanitizer'', ''__interceptor'', ''abort'', ''raise'',
     ''__libc'', ''__GI_'', ''_start'', ''__pthread'', ''gsignal'', ''std::panicking'',
     ''core::panicking'', ''rust_begin_unwind'', ''__rust_start_panic'', ''__rustc'']"

definition ADAPTER_PREFIXES :: "string list" where
  "ADAPTER_PREFIXES = [''__CDS_'', ''__S7_'', ''__SEMANTIST_MEM'', ''SysMem'']"

definition origin_dict :: "string \<Rightarrow> string \<Rightarrow> (string, json) dict" where
  "origin_dict origin evidence = [(''origin'', JStr origin), (''evidence'', JStr evidence)]"

text \<open>The verdict on one frame; \<open>None\<close> goes on with the next line.\<close>

definition frame_origin :: "string \<Rightarrow> string \<Rightarrow> (string, json) dict option" where
  "frame_origin symbol location =
     (let evidence = strip (symbol @ '' '' @ location) in
      if (\<exists>p \<in> set IGNORED. starts_with p symbol) \<or> contains ''libc.so'' location \<or>
         contains ''libclang_rt'' location then None
      else if (\<exists>p \<in> set ADAPTER_PREFIXES. starts_with p symbol) \<or>
              contains ''compiler/toolchain/compatibility'' location
      then Some (origin_dict ''compatibility_layer'' evidence)
      else if contains ''iec61131std'' symbol \<or> contains ''iec61131std'' location \<or>
              contains ''libs/stdlib'' location \<or> starts_with ''_ZN'' symbol \<or>
              contains ''::'' symbol
      then Some (origin_dict ''runtime_library'' evidence)
      else Some (origin_dict ''source_program'' evidence))"

definition line_origin :: "string \<Rightarrow> (string, json) dict option" where
  "line_origin line =
     (case re_match FRAME_RE line of
        None \<Rightarrow> None
      | Some gs \<Rightarrow> frame_origin (group_of 1 gs) (group_of 2 gs))"

fun first_origin :: "string list \<Rightarrow> (string, json) dict option" where
  "first_origin [] = None"
| "first_origin (line # rest) =
     (case line_origin line of None \<Rightarrow> first_origin rest | Some v \<Rightarrow> Some v)"

definition classify_origin :: "string \<Rightarrow> (string, json) dict" where
  "classify_origin output =
     (let panic = map_option (group_of 1) (re_search PANIC_RE output) in
      case panic of
        Some p \<Rightarrow>
          if contains ''stdlib'' p \<or> contains ''iec61131std'' p
          then origin_dict ''runtime_library'' (''Rust panic at '' @ p)
          else (case first_origin (splitlines output) of
                  Some v \<Rightarrow> v
                | None \<Rightarrow> origin_dict ''runtime_library'' (''Rust panic at '' @ p))
      | None \<Rightarrow>
          (case first_origin (splitlines output) of
             Some v \<Rightarrow> v
           | None \<Rightarrow> origin_dict ''undetermined'' []))"

section \<open>The replay pass of the report\<close>

record replay_result =
  rr_status :: string
  rr_returncode :: "int option"
  rr_preview :: string

text \<open>
  The surroundings: whether the target exists, and the replay of a seed path, \<open>None\<close> when it
  resolves to no existing file.
\<close>

record replay_env =
  re_target :: bool
  re_replay :: "string \<Rightarrow> replay_result option"

definition campaign_confirmed :: "finding_record \<Rightarrow> load_error + bool" where
  "campaign_confirmed r = (let v = jget (fr_evidence r) ''v3_confirmation'' in
     if \<not> hashable v then Inl TypeErr
     else Inr (v \<in> {JStr ''repeatable'', JStr ''attributed''}))"

definition apply_replay :: "bool \<Rightarrow> replay_result \<Rightarrow> finding_record \<Rightarrow> finding_record" where
  "apply_replay confirmed result r =
     (let status = replay_status_of (rr_status result);
          status = (if confirmed \<and> status \<in> {''unstable'', ''unchecked''} then ''confirmed''
                    else status)
      in r\<lparr>fr_status := status, fr_returncode := rr_returncode result,
           fr_preview := rr_preview result,
           fr_origin := (if rr_status result \<in> {''crash'', ''nonzero'', ''timeout''}
                         then classify_origin (rr_preview result) else fr_origin r)\<rparr>)"

definition replay_record :: "replay_env \<Rightarrow> finding_record \<Rightarrow> load_error + finding_record" where
  "replay_record env r =
     (if fr_status r \<noteq> ''unchecked'' then Inr r
      else bindE (campaign_confirmed r) (\<lambda>confirmed.
        if fr_seeds r = [] \<or> \<not> re_target env
        then Inr (if confirmed then r\<lparr>fr_status := ''confirmed''\<rparr> else r)
        else case re_replay env (hd (fr_seeds r)) of
               None \<Rightarrow> Inr r
             | Some result \<Rightarrow> Inr (apply_replay confirmed result r)))"

definition replay_step ::
    "replay_env \<Rightarrow> deduplicator \<Rightarrow> finding_record \<Rightarrow> load_error + deduplicator" where
  "replay_step env d r =
     bindE (replay_record env r) (\<lambda>r'.
       Inr (d\<lparr>dd_records := dset (signature_key (fr_signature r)) r' (dd_records d)\<rparr>))"

definition replay_pass :: "replay_env \<Rightarrow> deduplicator \<Rightarrow> load_error + deduplicator" where
  "replay_pass env d = foldE (replay_step env) d (sorted_records d)"

definition evidence_severity :: "finding_record \<Rightarrow> string" where
  "evidence_severity r =
     (if fr_kind r \<in> {''crash'', ''semantic_violation''} then ''High'' else ''Medium'')"

definition evidence_confidence :: "finding_record \<Rightarrow> string" where
  "evidence_confidence r = (if fr_status r \<noteq> ''unchecked'' then fr_status r else ''candidate'')"

definition evidence_title :: "finding_record \<Rightarrow> string" where
  "evidence_title r =
     fr_kind r @ '' in '' @ fr_function r @ '': '' @ display (fr_signature r)"

section \<open>The specification: a log of findings\<close>

text \<open>
  The log holds each raw finding with the time it was reported. The group of a key is the part of
  the log with that key; its record counts it, keeps its first and last time, its first three
  different seeds and the replay of the first finding with the best status.
\<close>

type_synonym finding_log = "(string \<times> raw_finding) list"

abbreviation entry_key :: "string \<times> raw_finding \<Rightarrow> string" where
  "entry_key e \<equiv> finding_key (snd e)"

definition group_in :: "finding_log \<Rightarrow> string \<Rightarrow> finding_log" where
  "group_in log k = filter (\<lambda>e. entry_key e = k) log"

definition first_occurrences :: "'a list \<Rightarrow> 'a list" where
  "first_occurrences xs = rev (remdups (rev xs))"

definition best_finding :: "raw_finding list \<Rightarrow> raw_finding" where
  "best_finding fs =
     hd (filter (\<lambda>f. \<forall>g \<in> set fs. replay_rank (rf_status g) \<le> replay_rank (rf_status f)) fs)"

definition group_seeds :: "finding_log \<Rightarrow> string list" where
  "group_seeds g = first_occurrences (filter (\<lambda>p. p \<noteq> []) (map (\<lambda>e. seed_display (snd e)) g))"

definition group_record :: "finding_log \<Rightarrow> finding_record" where
  "group_record g =
     (let f = snd (hd g); b = best_finding (map snd g) in
      \<lparr>fr_signature = build_signature f None, fr_kind = rf_kind f, fr_function = rf_function f,
       fr_seeds = take MAX_REPRESENTATIVE_SEEDS (group_seeds g),
       fr_duplicates = int (length g) - 1, fr_first = fst (hd g), fr_last = fst (last g),
       fr_status = rf_status b, fr_returncode = rf_returncode b, fr_preview = rf_preview b,
       fr_evidence = (case rf_evidence f of None \<Rightarrow> [] | Some e \<Rightarrow> e),
       fr_location = rf_location f, fr_origin = []\<rparr>)"

definition abstract_store :: "finding_log \<Rightarrow> deduplicator" where
  "abstract_store log =
     \<lparr>dd_records = map (\<lambda>k. (k, group_record (group_in log k)))
                      (first_occurrences (map entry_key log)),
      dd_raw = int (length log)\<rparr>"

definition run_log :: "finding_log \<Rightarrow> deduplicator \<Rightarrow> deduplicator" where
  "run_log log d = foldl (\<lambda>d (now, f). snd (add now f d)) d log"

lemma first_occurrences_snoc:
  "first_occurrences (xs @ [x]) =
     (if x \<in> set xs then first_occurrences xs else first_occurrences xs @ [x])"
  by (simp add: first_occurrences_def)

lemma first_occurrences_set [simp]: "set (first_occurrences xs) = set xs"
  by (simp add: first_occurrences_def)

lemma first_occurrences_distinct [simp]: "distinct (first_occurrences xs)"
  by (simp add: first_occurrences_def)

lemma first_occurrences_Nil [simp]: "first_occurrences [] = []"
  by (simp add: first_occurrences_def)

lemma add_seed_path_take:
  "p \<noteq> [] \<Longrightarrow> add_seed_path p (take MAX_REPRESENTATIVE_SEEDS (first_occurrences xs)) =
     take MAX_REPRESENTATIVE_SEEDS (first_occurrences (xs @ [p]))"
  by (cases "length (first_occurrences xs) < MAX_REPRESENTATIVE_SEEDS")
     (simp_all add: add_seed_path_def first_occurrences_snoc)

lemma group_seeds_snoc:
  "take MAX_REPRESENTATIVE_SEEDS (group_seeds (g @ [(now, f)])) =
     add_seed_path (seed_display f) (take MAX_REPRESENTATIVE_SEEDS (group_seeds g))"
  by (cases "seed_display f = []")
     (simp_all add: group_seeds_def add_seed_path_take, simp add: add_seed_path_def)

lemma best_rank:
  assumes "fs \<noteq> []"
  shows "best_finding fs \<in> set fs"
    and "g \<in> set fs \<Longrightarrow> replay_rank (rf_status g) \<le> replay_rank (rf_status (best_finding fs))"
proof -
  let ?r = "\<lambda>f. replay_rank (rf_status f)"
  let ?best = "filter (\<lambda>f. \<forall>g \<in> set fs. ?r g \<le> ?r f) fs"
  have "Max (?r ` set fs) \<in> ?r ` set fs" using assms by (intro Max_in) simp_all
  then obtain m where m: "m \<in> set fs" "?r m = Max (?r ` set fs)" by auto
  have "?r g \<le> ?r m" if "g \<in> set fs" for g using that m(2) by simp
  then have "m \<in> set ?best" using m(1) by simp
  then have "?best \<noteq> []" by (metis empty_iff list.set(1))
  then have "hd ?best \<in> set ?best" by (rule hd_in_set)
  then show "best_finding fs \<in> set fs"
    and "g \<in> set fs \<Longrightarrow> ?r g \<le> ?r (best_finding fs)"
    unfolding best_finding_def by simp_all
qed

lemma best_finding_snoc:
  assumes "fs \<noteq> []"
  shows "best_finding (fs @ [f]) =
    (if replay_rank (rf_status (best_finding fs)) < replay_rank (rf_status f) then f
     else best_finding fs)"
proof -
  let ?r = "\<lambda>f. replay_rank (rf_status f)"
  let ?top = "\<lambda>gs f. \<forall>g \<in> set gs. ?r g \<le> ?r f"
  have all: "\<forall>g \<in> set fs. ?r g \<le> ?r (best_finding fs)" using best_rank (2) [OF assms] by blast
  show ?thesis
  proof (cases "?r (best_finding fs) < ?r f")
    case True
    then have "filter (?top (fs @ [f])) fs = []"
      using all by (fastforce simp: filter_empty_conv)
    moreover have "?top (fs @ [f]) f" using True all by (auto intro: order_trans less_imp_le)
    ultimately show ?thesis using True by (simp add: best_finding_def)
  next
    case False
    have "filter (?top (fs @ [f])) fs = filter (?top fs) fs"
    proof (rule filter_cong [OF refl])
      fix x assume "x \<in> set fs"
      show "?top (fs @ [f]) x \<longleftrightarrow> ?top fs x"
        using False best_rank (1) [OF assms] by (auto intro: order_trans)
    qed
    moreover have "filter (?top fs) fs \<noteq> []"
      using best_rank (1) [OF assms] all by (auto simp: filter_empty_conv)
    ultimately show ?thesis using False by (simp add: best_finding_def)
  qed
qed

lemma group_record_single: "group_record [(now, f)] = new_record now f"
  by (simp add: group_record_def new_record_def group_seeds_def first_occurrences_def
      best_finding_def MAX_REPRESENTATIVE_SEEDS_def)

lemma group_record_snoc:
  assumes "g \<noteq> []"
  shows "group_record (g @ [(now, f)]) = merge_finding now f (group_record g)"
  using assms
  by (simp add: group_record_def merge_finding_def Let_def group_seeds_snoc best_finding_snoc)

text \<open>
  The interface of a store of groups: one value per key, made from the first element of the group
  and extended by each further one. What it holds under a key is the fold of that key's elements,
  whatever elements of other keys come between.
\<close>

locale grouped_store = keyed_store get put
  for get :: "'s \<Rightarrow> 'k \<Rightarrow> 'v option" and put :: "'k \<Rightarrow> 'v \<Rightarrow> 's \<Rightarrow> 's" +
  fixes key :: "'e \<Rightarrow> 'k" and extend :: "'e \<Rightarrow> 'v option \<Rightarrow> 'v"
    and spec :: "'e list \<Rightarrow> 'v"
  assumes spec_single: "extend e None = spec [e]"
    and spec_snoc: "es \<noteq> [] \<Longrightarrow> extend e (Some (spec es)) = spec (es @ [e])"
begin

definition view :: "'e list \<Rightarrow> 'k \<Rightarrow> 'v option" where
  "view es k = (let g = filter (\<lambda>e. key e = k) es in if g = [] then None else Some (spec g))"

lemma extend_view: "extend e (view es (key e)) = spec (filter (\<lambda>d. key d = key e) (es @ [e]))"
  by (simp add: view_def Let_def spec_single spec_snoc)

lemma put_view:
  assumes "\<And>k. get s k = view es k"
  shows "get (put (key e) (extend e (get s (key e))) s) k = view (es @ [e]) k"
  using assms extend_view [of e es] by (simp add: get_put view_def Let_def)

lemma get_run:
  assumes "\<And>k. get s k = None"
  shows "get (foldl (\<lambda>s e. put (key e) (extend e (get s (key e))) s) s es) k = view es k"
proof (induction es arbitrary: k rule: rev_induct)
  case Nil
  then show ?case using assms by (simp add: view_def)
next
  case (snoc e es)
  let ?s = "foldl (\<lambda>s e. put (key e) (extend e (get s (key e))) s) s es"
  have "get (put (key e) (extend e (get ?s (key e))) ?s) k = view (es @ [e]) k"
    by (rule put_view) (rule snoc.IH)
  then show ?case by (simp only: foldl_append foldl.simps)
qed

end

definition extend_finding :: "string \<times> raw_finding \<Rightarrow> finding_record option \<Rightarrow> finding_record" where
  "extend_finding e r =
     (case r of None \<Rightarrow> new_record (fst e) (snd e) | Some r \<Rightarrow> merge_finding (fst e) (snd e) r)"

interpretation fd: grouped_store dget dset entry_key extend_finding group_record
proof unfold_locales
  fix e :: "string \<times> raw_finding" and es
  show "extend_finding e None = group_record [e]"
    by (cases e) (simp add: extend_finding_def group_record_single)
  show "extend_finding e (Some (group_record es)) = group_record (es @ [e])" if "es \<noteq> []"
    using that by (cases e) (simp add: extend_finding_def group_record_snoc)
qed

lemma add_extend:
  "add now f d =
     (let r = extend_finding (now, f) (dget (dd_records d) (finding_key f))
      in (r, d\<lparr>dd_raw := dd_raw d + 1, dd_records := dset (finding_key f) r (dd_records d)\<rparr>))"
  by (cases "dget (dd_records d) (finding_key f)") (simp_all add: add_def extend_finding_def Let_def)

lemma abstract_records_get:
  "dget (dd_records (abstract_store log)) k = fd.view log k"
proof -
  have "dget (map (\<lambda>k. (k, h k)) ks) k = (if k \<in> set ks then Some (h k) else None)" for ks and h :: "string \<Rightarrow> finding_record"
    by (induction ks) auto
  then show ?thesis
    by (auto simp: abstract_store_def fd.view_def group_in_def Let_def filter_empty_conv)
qed

lemma abstract_records_keys: "dkeys (dd_records (abstract_store log)) = first_occurrences (map entry_key log)"
  by (simp add: abstract_store_def comp_def)

lemma abstract_records_ok: "dict_ok (dd_records (abstract_store log))"
  by (simp only: dict_ok_def abstract_records_keys first_occurrences_distinct)

lemma dkeys_dset: "dkeys (dset k v d) = (if k \<in> set (dkeys d) then dkeys d else dkeys d @ [k])"
  by (cases "k \<in> fst ` set d") (simp_all add: dkeys_dset_mem dset_new)

lemma abstract_add:
  "add now f (abstract_store log) =
     (group_record (group_in (log @ [(now, f)]) (finding_key f)), abstract_store (log @ [(now, f)]))"
proof -
  let ?e = "(now, f)" and ?d = "abstract_store log"
  define r where "r = extend_finding ?e (dget (dd_records ?d) (entry_key ?e))"
  have r: "r = group_record (group_in (log @ [?e]) (finding_key f))"
    using fd.extend_view [of ?e log] by (simp add: r_def abstract_records_get group_in_def)
  have "dset (finding_key f) r (dd_records ?d) = dd_records (abstract_store (log @ [?e]))"
  proof (rule dict_eqI)
    show "dkeys (dset (finding_key f) r (dd_records ?d)) = dkeys (dd_records (abstract_store (log @ [?e])))"
      by (simp only: dkeys_dset abstract_records_keys map_append list.map first_occurrences_snoc
          first_occurrences_set snd_conv)
    show "dict_ok (dset (finding_key f) r (dd_records ?d))"
      by (rule dict_ok_dset [OF abstract_records_ok])
    show "dget (dset (finding_key f) r (dd_records ?d)) k = dget (dd_records (abstract_store (log @ [?e]))) k" for k
      using fd.put_view [of "dd_records ?d" log ?e k] by (simp add: abstract_records_get r_def)
  qed
  then show ?thesis
    using r by (simp add: add_extend Let_def r_def [simplified, symmetric])
      (simp add: abstract_store_def)
qed

section \<open>Refinement of the log\<close>

lemma run_log_Nil [simp]: "run_log [] d = d"
  by (simp add: run_log_def)

lemma run_log_Cons [simp]: "run_log ((now, f) # log) d = run_log log (snd (add now f d))"
  by (simp add: run_log_def)

lemma run_log_snoc [simp]: "run_log (log @ [(now, f)]) d = snd (add now f (run_log log d))"
  by (simp add: run_log_def)

lemma abstract_Nil: "abstract_store [] = new_deduplicator"
  by (simp add: abstract_store_def new_deduplicator_def)

lemma run_log_abstract: "run_log log new_deduplicator = abstract_store log"
proof (induction log rule: rev_induct)
  case Nil
  show ?case by (simp add: abstract_Nil)
next
  case (snoc e log)
  then show ?case by (cases e) (simp add: abstract_add)
qed

text \<open>
  (C8) The deduplicator implements the log of findings: the empty store stands for the empty log,
  and \<^verbatim>\<open>add\<close> on the store of a log gives the store of the log with the finding appended,
  and returns the record of the finding's group. The store of a log has one record per key, in the
  order the keys first came up; the record has the identity, evidence and location of the group's
  first finding, the times of its first and last one, one duplicate less than the group has
  findings, its first three different seed paths, and the status, return code and output of the
  first of its findings whose status ranks highest.
\<close>

theorem deduplicator_refines_log:
  "new_deduplicator = abstract_store [] \<and>
   add now f (abstract_store log) =
     (group_record (group_in (log @ [(now, f)]) (finding_key f)), abstract_store (log @ [(now, f)])) \<and>
   run_log log new_deduplicator = abstract_store log"
  by (simp add: abstract_Nil abstract_add run_log_abstract)

section \<open>Invariant of the store\<close>

definition raw_of :: "(string, finding_record) dict \<Rightarrow> int" where
  "raw_of rs = sum_list (map (\<lambda>(k, r). fr_duplicates r + 1) rs)"

definition keyed :: "string \<times> finding_record \<Rightarrow> bool" where
  "keyed e = (signature_key (fr_signature (snd e)) = fst e)"

definition store_ok :: "deduplicator \<Rightarrow> bool" where
  "store_ok d = (dict_ok (dd_records d) \<and> (\<forall>e \<in> set (dd_records d). keyed e) \<and>
     dd_raw d = raw_of (dd_records d))"

text \<open>The stores the report can see: new ones, after findings, loads and replay passes.\<close>

inductive store_reach :: "deduplicator \<Rightarrow> bool" where
  start: "store_reach new_deduplicator"
| added: "store_reach d \<Longrightarrow> store_reach (snd (add now f d))"
| loaded: "store_reach d \<Longrightarrow> load_legacy_records dir d = Inr (d', n) \<Longrightarrow> store_reach d'"
| replayed: "store_reach d \<Longrightarrow> replay_pass env d = Inr d' \<Longrightarrow> store_reach d'"

text \<open>What an update of a record may not change.\<close>

definition same_group :: "finding_record \<Rightarrow> finding_record \<Rightarrow> bool" where
  "same_group r r' = (fr_signature r' = fr_signature r \<and> fr_duplicates r' = fr_duplicates r)"

lemma raw_of_Nil [simp]: "raw_of [] = 0"
  by (simp add: raw_of_def)

lemma raw_of_append [simp]: "raw_of (xs @ ys) = raw_of xs + raw_of ys"
  by (simp add: raw_of_def)

lemma raw_of_Cons [simp]: "raw_of ((k, r) # rs) = fr_duplicates r + 1 + raw_of rs"
  by (simp add: raw_of_def)

lemma raw_of_dset:
  "raw_of (dset k r rs) = raw_of rs + fr_duplicates r +
     (case dget rs k of None \<Rightarrow> 1 | Some s \<Rightarrow> - fr_duplicates s)"
  by (induction rs) (auto split: option.splits)

lemma store_ok_new: "store_ok new_deduplicator"
  by (simp add: store_ok_def new_deduplicator_def)

lemma store_ok_put:
  assumes "store_ok d" "signature_key (fr_signature r) = k"
    "n = fr_duplicates r + (case dget (dd_records d) k of None \<Rightarrow> 1 | Some s \<Rightarrow> - fr_duplicates s)"
  shows "store_ok (d\<lparr>dd_raw := dd_raw d + n, dd_records := dset k r (dd_records d)\<rparr>)"
  using assms by (auto simp: store_ok_def keyed_def dict_ok_dset raw_of_dset dest: dset_mem split: option.splits)

lemma store_ok_get: "store_ok d \<Longrightarrow> dget (dd_records d) k = Some r \<Longrightarrow> signature_key (fr_signature r) = k"
  by (auto simp: store_ok_def keyed_def dest!: map_of_SomeD)

lemma merge_signature [simp]: "fr_signature (merge_finding now f r) = fr_signature r"
  by (simp add: merge_finding_def Let_def)

lemma merge_duplicates [simp]: "fr_duplicates (merge_finding now f r) = fr_duplicates r + 1"
  by (simp add: merge_finding_def Let_def)

lemma store_ok_add:
  assumes "store_ok d"
  shows "store_ok (snd (add now f d))"
proof (cases "dget (dd_records d) (finding_key f)")
  case None
  then show ?thesis
    using store_ok_put [OF assms, of "new_record now f" "finding_key f" 1]
    by (simp add: add_def Let_def new_record_def finding_key_def)
next
  case (Some r)
  then show ?thesis
    using store_ok_put [OF assms, of "merge_finding now f r" "finding_key f" 1] store_ok_get [OF assms Some]
    by (simp add: add_def Let_def)
qed

definition insert_loaded :: "finding_record \<Rightarrow> deduplicator \<Rightarrow> deduplicator" where
  "insert_loaded r d = d\<lparr>dd_records := dset (signature_key (fr_signature r)) r (dd_records d),
     dd_raw := dd_raw d + (fr_duplicates r + 1)\<rparr>"

lemma load_document_cases:
  assumes "load_document (d, n) data = Inr s'"
  obtains "s' = (d, n)"
  | r where "\<not> dmem (signature_key (fr_signature r)) (dd_records d)" "s' = (insert_loaded r d, n + 1)"
proof (cases "jget data ''schema_version'' = JStr ''finding-record-1.0''")
  case True
  show ?thesis
  proof (cases "from_json data")
    case (Inl e)
    then show ?thesis using assms that(1) True by (cases e) (simp_all add: load_document_def)
  next
    case (Inr r)
    then show ?thesis using assms that True
      by (cases "dmem (signature_key (fr_signature r)) (dd_records d)")
         (simp_all add: load_document_def Let_def insert_loaded_def)
  qed
qed (use assms that(1) in \<open>simp add: load_document_def\<close>)

lemma load_file_cases:
  assumes "load_file (d, n) file = Inr s'"
  obtains "s' = (d, n)"
  | r where "\<not> dmem (signature_key (fr_signature r)) (dd_records d)" "s' = (insert_loaded r d, n + 1)"
proof (cases "\<exists>data. snd file = Some (JObj data)")
  case True
  then obtain data where "snd file = Some (JObj data)" by blast
  with assms have "load_document (d, n) data = Inr s'" by (simp add: load_file_def)
  then show ?thesis by (rule load_document_cases) (use that in blast)+
next
  case False
  then have "s' = (d, n)" using assms by (auto simp: load_file_def split: option.splits json.splits)
  then show ?thesis by (rule that(1))
qed

lemma store_ok_insert_loaded:
  assumes "store_ok d" "\<not> dmem (signature_key (fr_signature r)) (dd_records d)"
  shows "store_ok (insert_loaded r d)"
  using store_ok_put [OF assms(1) refl refl, of r] assms(2)
  by (cases d) (simp add: insert_loaded_def dmem_iff add.commute)

lemma store_ok_load_file:
  assumes "store_ok (fst s)" "load_file s file = Inr s'"
  shows "store_ok (fst s')"
  using assms by (cases s) (auto elim!: load_file_cases intro: store_ok_insert_loaded)

lemma store_ok_load:
  assumes "load_legacy_records dir d = Inr (d', n)" "store_ok d"
  shows "store_ok d'"
proof (cases dir)
  case (Some files)
  with assms(1) have "foldE load_file (d, 0) (record_files files) = Inr (d', n)"
    by (simp add: load_legacy_records_def)
  then have "store_ok (fst (d', n))"
    by (rule foldE_invariant [where I = "\<lambda>s. store_ok (fst s)"])
       (use assms(2) in \<open>simp_all add: store_ok_load_file\<close>)
  then show ?thesis by simp
qed (use assms in \<open>simp add: load_legacy_records_def\<close>)

lemma apply_replay_same: "same_group r (apply_replay confirmed result r)"
  by (simp add: same_group_def apply_replay_def Let_def)

lemma replay_record_same: "replay_record env r = Inr r' \<Longrightarrow> same_group r r'"
  by (auto simp: replay_record_def res_simps apply_replay_same same_group_def
      split: if_splits option.splits)
     (use apply_replay_same in \<open>auto simp: same_group_def\<close>)

lemma replay_step_eq:
  assumes "replay_step env d r = Inr d'"
  obtains r' where "replay_record env r = Inr r'"
    "d' = d\<lparr>dd_records := dset (signature_key (fr_signature r)) r' (dd_records d)\<rparr>"
  using assms by (auto simp: replay_step_def bindE_eq_Inr)

lemma store_ok_replay_step:
  assumes "store_ok d" "dget (dd_records d) (signature_key (fr_signature r)) = Some s" "same_group s r"
    "replay_step env d r = Inr d'"
  shows "store_ok d'"
proof -
  obtain r' where r': "replay_record env r = Inr r'"
    "d' = d\<lparr>dd_records := dset (signature_key (fr_signature r)) r' (dd_records d)\<rparr>"
    using assms(4) by (rule replay_step_eq)
  have "same_group r r'" using r'(1) by (rule replay_record_same)
  then show ?thesis
    using store_ok_put [OF assms(1), of r' _ 0] assms(2,3) r'(2) by (simp add: same_group_def)
qed

text \<open>The replays of records with different keys do not see each other.\<close>

lemma replay_steps:
  assumes "foldE (replay_step env) d rs = Inr d'"
    and "distinct (map (\<lambda>r. signature_key (fr_signature r)) rs)" and "store_ok d"
    and "\<And>r. r \<in> set rs \<Longrightarrow> dget (dd_records d) (signature_key (fr_signature r)) = Some r"
  shows "store_ok d' \<and> dkeys (dd_records d') = dkeys (dd_records d) \<and> dd_raw d' = dd_raw d \<and>
    (\<forall>r \<in> set rs. \<exists>r'. replay_record env r = Inr r' \<and>
       dget (dd_records d') (signature_key (fr_signature r)) = Some r') \<and>
    (\<forall>k. k \<notin> (\<lambda>r. signature_key (fr_signature r)) ` set rs \<longrightarrow>
       dget (dd_records d') k = dget (dd_records d) k)"
  using assms
proof (induction rs arbitrary: d)
  case Nil
  then show ?case by simp
next
  case (Cons r rs)
  let ?k = "signature_key (fr_signature r)"
  obtain d1 where d1: "replay_step env d r = Inr d1" "foldE (replay_step env) d1 rs = Inr d'"
    using Cons.prems(1) by (auto simp: bindE_eq_Inr)
  obtain r' where r': "replay_record env r = Inr r'"
    "d1 = d\<lparr>dd_records := dset ?k r' (dd_records d)\<rparr>"
    using d1(1) by (rule replay_step_eq)
  have mine: "dget (dd_records d) ?k = Some r" by (rule Cons.prems(4)) simp
  have ok: "store_ok d1"
    by (rule store_ok_replay_step [OF Cons.prems(3) mine _ d1(1)]) (simp add: same_group_def)
  have rest: "dget (dd_records d1) (signature_key (fr_signature s)) = Some s" if "s \<in> set rs" for s
    using that Cons.prems(2) Cons.prems(4) [of s] r'(2) by (auto simp: dget_dset) (metis image_eqI)
  have other: "?k \<notin> (\<lambda>r. signature_key (fr_signature r)) ` set rs" using Cons.prems(2) by simp
  note ih = Cons.IH [OF d1(2) _ ok rest]
  have ?case if ih: "store_ok d' \<and> dkeys (dd_records d') = dkeys (dd_records d1) \<and> dd_raw d' = dd_raw d1 \<and>
    (\<forall>r \<in> set rs. \<exists>r'. replay_record env r = Inr r' \<and>
       dget (dd_records d') (signature_key (fr_signature r)) = Some r') \<and>
    (\<forall>k. k \<notin> (\<lambda>r. signature_key (fr_signature r)) ` set rs \<longrightarrow>
       dget (dd_records d') k = dget (dd_records d1) k)"
  proof (intro conjI)
    have "?k \<in> set (dkeys (dd_records d))" using map_of_SomeD [OF mine] by force
    then have "dkeys (dd_records d1) = dkeys (dd_records d)" 
      using r'(2) by (simp add: dkeys_dset_mem)
    then show "dkeys (dd_records d') = dkeys (dd_records d)" using ih by simp
    have "dget (dd_records d') ?k = Some r'" using ih other r'(2) by (simp add: dget_dset)
    then show "\<forall>r \<in> set (r # rs). \<exists>r'. replay_record env r = Inr r' \<and>
       dget (dd_records d') (signature_key (fr_signature r)) = Some r'"
      using ih r'(1) by simp
    show "\<forall>k. k \<notin> (\<lambda>r. signature_key (fr_signature r)) ` set (r # rs) \<longrightarrow>
       dget (dd_records d') k = dget (dd_records d) k"
      using ih r'(2) by (auto simp: dget_dset)
  qed (use ih r'(2) in simp_all)
  then show ?case using ih Cons.prems(2) by simp
qed

lemma store_ok_mem:
  assumes "store_ok d"
  shows "r \<in> snd ` set (dd_records d) \<longleftrightarrow> dget (dd_records d) (signature_key (fr_signature r)) = Some r"
proof
  assume "r \<in> snd ` set (dd_records d)"
  then obtain k where k: "(k, r) \<in> set (dd_records d)" by force
  then have "signature_key (fr_signature r) = k" using assms by (auto simp: store_ok_def keyed_def)
  then show "dget (dd_records d) (signature_key (fr_signature r)) = Some r"
    using k assms by (simp add: store_ok_def dict_ok_def)
qed (force dest: map_of_SomeD)

lemma store_keys:
  assumes "store_ok d"
  shows "map (\<lambda>r. signature_key (fr_signature r)) (map snd (dd_records d)) = dkeys (dd_records d)"
  using assms by (auto simp: store_ok_def keyed_def)

lemma sorted_records_distinct:
  assumes "store_ok d"
  shows "distinct (map (\<lambda>r. signature_key (fr_signature r)) (sorted_records d))"
proof -
  let ?f = "\<lambda>r. signature_key (fr_signature r)"
  have "distinct (map ?f (map snd (dd_records d)))"
    using assms unfolding store_keys [OF assms] by (simp add: store_ok_def dict_ok_def)
  moreover have "mset (map ?f (sorted_records d)) = mset (map ?f (map snd (dd_records d)))"
    by (simp add: sorted_records_def del: map_map)
  ultimately show ?thesis by (metis mset_eq_imp_distinct_iff)
qed

lemma replay_pass_steps:
  assumes "replay_pass env d = Inr d'" "store_ok d"
  shows "store_ok d' \<and> dkeys (dd_records d') = dkeys (dd_records d) \<and> dd_raw d' = dd_raw d \<and>
    (\<forall>r \<in> set (sorted_records d). \<exists>r'. replay_record env r = Inr r' \<and>
       dget (dd_records d') (signature_key (fr_signature r)) = Some r')"
proof -
  have "dget (dd_records d) (signature_key (fr_signature r)) = Some r" if "r \<in> set (sorted_records d)" for r
    using that store_ok_mem [OF assms(2), of r] by (simp add: sorted_records_def)
  from replay_steps [OF assms(1) [unfolded replay_pass_def] sorted_records_distinct [OF assms(2)] assms(2) this]
  show ?thesis by blast
qed

lemma store_reach_ok: "store_reach d \<Longrightarrow> store_ok d"
proof (induction rule: store_reach.induct)
  case start
  show ?case by (rule store_ok_new)
next
  case (added d now f)
  then show ?case by (simp add: store_ok_add)
next
  case (loaded d dir d' n)
  from loaded.hyps(2) loaded.IH show ?case by (rule store_ok_load)
next
  case (replayed d env d')
  from replay_pass_steps [OF replayed.hyps(2) replayed.IH] show ?case by simp
qed

lemma duplicate_total_raw: "store_ok d \<Longrightarrow> dd_raw d = int (dedup_count d) + duplicate_total d"
proof -
  have "raw_of rs = int (length rs) + sum_list (map (\<lambda>(k, r). fr_duplicates r) rs)" for rs
    by (induction rs) auto
  then show "store_ok d \<Longrightarrow> ?thesis"
    by (simp add: store_ok_def dedup_count_def duplicate_total_def)
qed

lemma count_split:
  "length (filter (\<lambda>(k, r). P r) rs) + length (filter (\<lambda>(k, r). \<not> P r) rs) = length rs"
  by (induction rs) auto

text \<open>
  (C26) Whatever sequence of findings, loads of earlier records and replay passes a store has gone
  through, its summary adds up: the raw count is the number of records plus the number of
  duplicates, runtime and semantic records are all the records, every record stands under the key
  of its own signature and no key occurs twice.
\<close>

theorem summary_consistent:
  assumes "store_reach d"
  shows "ds_raw (summary d) = int (ds_deduplicated (summary d)) + ds_duplicates (summary d) \<and>
    ds_runtime (summary d) + ds_semantic (summary d) = ds_deduplicated (summary d) \<and>
    distinct (dkeys (dd_records d)) \<and>
    (\<forall>(k, r) \<in> set (dd_records d). signature_key (fr_signature r) = k)"
proof -
  have ok: "store_ok d" using assms by (rule store_reach_ok)
  have "ds_runtime (summary d) + ds_semantic (summary d) = ds_deduplicated (summary d)"
    using count_split [of "\<lambda>r. sg_tier (fr_signature r) \<noteq> ''semantic''" "dd_records d"]
    by (simp add: summary_def dedup_count_def)
  with ok duplicate_total_raw [OF ok] show ?thesis
    by (auto simp: summary_def store_ok_def dict_ok_def keyed_def)
qed

definition demo_finding :: "string \<Rightarrow> string \<Rightarrow> raw_finding" where
  "demo_finding function path =
     \<lparr>rf_function = function, rf_kind = ''crash'', rf_path = Some path, rf_target_id = None,
      rf_hazard = None, rf_location = None, rf_exit = Some ''crash'', rf_stack = None,
      rf_target_kind = None, rf_cycles = Some 2, rf_evidence = None, rf_status = ''unchecked'',
      rf_returncode = None, rf_preview = []\<rparr>"

lemma summary_consistent_witness:
  "ds_raw (summary (snd (add ''t'' (demo_finding ''F'' ''a.seed'') new_deduplicator))) = 1"
proof -
  let ?d = "snd (add ''t'' (demo_finding ''F'' ''a.seed'') new_deduplicator)"
  have "store_reach ?d" by (rule store_reach.added [OF store_reach.start])
  from summary_consistent [OF this]
  have "ds_raw (summary ?d) = int (ds_deduplicated (summary ?d)) + ds_duplicates (summary ?d)"
    by simp
  moreover have "ds_deduplicated (summary ?d) = 1 \<and> ds_duplicates (summary ?d) = 0"
    by (simp add: summary_def dedup_count_def duplicate_total_def add_def new_deduplicator_def
        new_record_def Let_def)
  ultimately show ?thesis by simp
qed

text \<open>
  The replay pass settles each record by its own first seed: it keeps the keys and all counts,
  leaves a record that has a status as it is, and gives every unchecked one what
  \<^verbatim>\<open>replay_record\<close> makes of it. A record the campaign has confirmed ends as confirmed
  unless its first seed path resolves to no file while the target exists; then it stays unchecked.
\<close>

theorem replay_pass_settles:
  assumes "store_reach d" "replay_pass env d = Inr d'"
    and "dget (dd_records d) k = Some r"
  shows "dkeys (dd_records d') = dkeys (dd_records d) \<and> dd_raw d' = dd_raw d \<and>
    duplicate_total d' = duplicate_total d \<and>
    (\<exists>r'. replay_record env r = Inr r' \<and> dget (dd_records d') k = Some r' \<and>
      (fr_status r \<noteq> ''unchecked'' \<longrightarrow> r' = r) \<and>
      (fr_status r = ''unchecked'' \<and> campaign_confirmed r = Inr True \<longrightarrow>
        fr_status r' = (if fr_seeds r \<noteq> [] \<and> re_target env \<and> re_replay env (hd (fr_seeds r)) = None
                        then ''unchecked'' else ''confirmed'')))"
proof -
  have ok: "store_ok d" using assms(1) by (rule store_reach_ok)
  note steps = replay_pass_steps [OF assms(2) ok]
  have key: "signature_key (fr_signature r) = k" using ok assms(3) by (rule store_ok_get)
  have "r \<in> set (sorted_records d)"
    using store_ok_mem [OF ok, of r] assms(3) key by (simp add: sorted_records_def)
  with steps key obtain r' where r': "replay_record env r = Inr r'" "dget (dd_records d') k = Some r'"
    by blast
  have "length (dd_records d') = length (dd_records d)" using steps by (metis length_map)
  then have "duplicate_total d' = duplicate_total d"
    using duplicate_total_raw [OF ok] duplicate_total_raw [of d'] steps
    by (simp add: dedup_count_def)
  moreover have "fr_status r' = (if fr_seeds r \<noteq> [] \<and> re_target env \<and> re_replay env (hd (fr_seeds r)) = None
       then ''unchecked'' else ''confirmed'')"
    if "fr_status r = ''unchecked''" "campaign_confirmed r = Inr True"
    using r'(1) that by (auto simp: replay_record_def apply_replay_def replay_status_of_def Let_def
        split: option.splits if_splits)
  moreover have "r' = r" if "fr_status r \<noteq> ''unchecked''" using r'(1) that by (simp add: replay_record_def)
  ultimately show ?thesis using steps r' by blast
qed

definition demo_env :: replay_env where
  "demo_env = \<lparr>re_target = True,
     re_replay = (\<lambda>p. Some \<lparr>rr_status = ''crash'', rr_returncode = Some (- 6), rr_preview = []\<rparr>)\<rparr>"

lemma replay_pass_settles_witness:
  "\<exists>d'. replay_pass demo_env (snd (add ''t'' (demo_finding ''F'' ''a.seed'') new_deduplicator)) = Inr d' \<and>
     dd_raw d' = 1"
proof -
  let ?r = "new_record ''t'' (demo_finding ''F'' ''a.seed'')"
  let ?d = "snd (add ''t'' (demo_finding ''F'' ''a.seed'') new_deduplicator)"
  let ?k = "finding_key (demo_finding ''F'' ''a.seed'')"
  have reach: "store_reach ?d" by (rule store_reach.added [OF store_reach.start])
  have get: "dget (dd_records ?d) ?k = Some ?r" and raw: "dd_raw ?d = 1"
    and rs: "sorted_records ?d = [?r]"
    by (simp_all add: add_def new_deduplicator_def Let_def sorted_records_def)
  have "\<exists>d'. replay_pass demo_env ?d = Inr d'"
    unfolding replay_pass_def rs
    by (simp add: replay_step_def replay_record_def new_record_def demo_finding_def
        campaign_confirmed_def jget_def demo_env_def seed_display_def)
  then obtain d' where d': "replay_pass demo_env ?d = Inr d'" by blast
  from replay_pass_settles [OF reach d' get] raw have "dd_raw d' = 1" by simp
  with d' show ?thesis by blast
qed

section \<open>Round trip of the records' files\<close>

text \<open>
  What a record is after writing and reading it: the output is cut at 2000 characters, and a
  signature without a location takes the record's.
\<close>

definition reload_record :: "finding_record \<Rightarrow> finding_record" where
  "reload_record r = r\<lparr>fr_preview := take 2000 (fr_preview r),
     fr_signature := (fr_signature r)\<lparr>sg_location :=
       or_opt (sg_location (fr_signature r)) (fr_location r)\<rparr>\<rparr>"

definition record_ok :: "finding_record \<Rightarrow> bool" where
  "record_ok r = (let g = fr_signature r in
     sg_function g = fr_function r \<and> sg_kind g = fr_kind r \<and>
     (sg_tier g = ''runtime'' \<longrightarrow> sg_location g = fr_location r))"

lemma given_text_json [simp]: "truthy (text_json s) = given s"
  by (cases s) (simp_all add: text_json_def)

lemma jor_text_json [simp]: "jor (text_json a) (text_json b) = text_json (or_opt a b)"
  by (simp add: jor_def or_opt_def)

lemma as_opt_text_json [simp]: "as_opt_text (text_json s) = Inr s"
  by (cases s) (simp_all add: text_json_def)

lemma as_opt_int_json [simp]: "as_opt_int (int_json n) = Inr n"
  by (cases n) (simp_all add: int_json_def)

lemma as_texts_json [simp]: "mapE as_text (map JStr xs) = Inr xs"
  by (induction xs) simp_all

lemma reload_record_eq:
  "reload_record r = \<lparr>fr_signature =
       \<lparr>sg_function = sg_function (fr_signature r), sg_kind = sg_kind (fr_signature r),
        sg_tier = sg_tier (fr_signature r), sg_target_id = sg_target_id (fr_signature r),
        sg_hazard = sg_hazard (fr_signature r),
        sg_location = or_opt (sg_location (fr_signature r)) (fr_location r),
        sg_exit = sg_exit (fr_signature r), sg_stack = sg_stack (fr_signature r),
        sg_target_kind = sg_target_kind (fr_signature r), sg_cycles = sg_cycles (fr_signature r),
        sg_content = sg_content (fr_signature r)\<rparr>,
     fr_kind = fr_kind r, fr_function = fr_function r, fr_seeds = fr_seeds r,
     fr_duplicates = fr_duplicates r, fr_first = fr_first r, fr_last = fr_last r,
     fr_status = fr_status r, fr_returncode = fr_returncode r,
     fr_preview = take 2000 (fr_preview r), fr_evidence = fr_evidence r,
     fr_location = fr_location r, fr_origin = fr_origin r\<rparr>"
  by (rule finding_record.equality) (simp_all add: reload_record_def finding_signature.equality)

lemma from_to_json:
  assumes "record_ok r"
  obtains data where "to_json r = JObj data" "jget data ''schema_version'' = JStr ''finding-record-1.0''"
    "from_json data = Inr (reload_record r)"
proof -
  obtain data where data: "to_json r = JObj data" by (simp add: to_json_def Let_def)
  have "jget data ''schema_version'' = JStr ''finding-record-1.0''"
    using data by (auto simp: to_json_def Let_def jget_def)
  moreover have "from_json data = Inr (reload_record r)"
    using data assms
    by (auto simp: to_json_def Let_def jget_def jget_or_def from_json_def signature_of_json_def
        record_ok_def reload_record_eq)
  ultimately show ?thesis using data that by blast
qed

lemma given_or_opt: "given (or_opt a b) = (given a \<or> given b)"
  by (simp add: or_opt_def)

lemma or_opt_same [simp]: "or_opt a a = a"
  by (simp add: or_opt_def)

lemma reload_key:
  assumes "record_ok r"
  shows "signature_key (fr_signature (reload_record r)) = signature_key (fr_signature r)"
  using assms by (simp add: record_ok_def reload_record_def Let_def signature_key_def)

lemma reload_counts [simp]:
  "fr_duplicates (reload_record r) = fr_duplicates r"
  "fr_status (reload_record r) = fr_status r"
  "sg_tier (fr_signature (reload_record r)) = sg_tier (fr_signature r)"
  by (simp_all add: reload_record_def)

lemma record_ok_new: "record_ok (new_record now f)"
  by (simp add: record_ok_def new_record_def build_signature_def)

lemma record_ok_merge: "record_ok r \<Longrightarrow> record_ok (merge_finding now f r)"
  by (simp add: record_ok_def merge_finding_def Let_def)

lemma record_ok_add:
  assumes "\<forall>e \<in> set (dd_records d). record_ok (snd e)"
  shows "\<forall>e \<in> set (dd_records (snd (add now f d))). record_ok (snd e)"
  using assms
  by (auto simp: add_def Let_def record_ok_new record_ok_merge split: option.splits
      dest!: dset_mem map_of_SomeD)

lemma record_ok_run_log: "\<forall>e \<in> set (dd_records (run_log log new_deduplicator)). record_ok (snd e)"
proof (induction log rule: rev_induct)
  case Nil
  show ?case by (simp add: new_deduplicator_def)
next
  case (snoc e log)
  obtain now f where e: "e = (now, f)" by force
  show ?case unfolding e run_log_snoc by (rule record_ok_add [OF snoc])
qed

lemma store_ok_run_log: "store_ok (run_log log new_deduplicator)"
proof (induction log rule: rev_induct)
  case Nil
  show ?case by (simp add: store_ok_new)
next
  case (snoc e log)
  obtain now f where e: "e = (now, f)" by force
  show ?case unfolding e run_log_snoc by (rule store_ok_add [OF snoc])
qed

lemma starts_with_append [simp]: "starts_with p (p @ s)"
  by (simp add: starts_with_def)

lemma record_file_json [simp]: "ends_with ''.json'' (record_file r)"
  using starts_with_append [of "rev ''.json''" "rev (safe_key (signature_key (fr_signature r)))"]
  by (simp add: record_file_def ends_with_def)

lemma persist_fresh:
  assumes "distinct (map fst files @ map record_file rs)"
  shows "foldl persist_record files rs = files @ map (\<lambda>r. (record_file r, Some (to_json r))) rs"
  using assms
proof (induction rs arbitrary: files)
  case (Cons r rs)
  then have "persist_record files r = files @ [(record_file r, Some (to_json r))]"
    by (simp add: persist_record_def dset_new)
  with Cons show ?case by simp
qed simp

lemma load_file_record:
  assumes "record_ok r" "signature_key (fr_signature r) \<notin> set (dkeys (dd_records d))"
  shows "load_file (d, n) (name, Some (to_json r)) = Inr (insert_loaded (reload_record r) d, n + 1)"
proof -
  obtain data where "to_json r = JObj data" "jget data ''schema_version'' = JStr ''finding-record-1.0''"
    "from_json data = Inr (reload_record r)"
    using assms(1) by (rule from_to_json)
  then show ?thesis using assms
    by (simp add: load_file_def load_document_def reload_key dmem_def insert_loaded_def)
qed

definition reload_entry :: "finding_record \<Rightarrow> string \<times> finding_record" where
  "reload_entry r = (signature_key (fr_signature r), reload_record r)"

lemma raw_of_reload [simp]: "raw_of (reload_entry r # es) = fr_duplicates r + 1 + raw_of es"
  by (simp add: reload_entry_def)

lemma insert_loaded_new:
  assumes "record_ok r" "signature_key (fr_signature r) \<notin> set (dkeys (dd_records d))"
  shows "insert_loaded (reload_record r) d =
    d\<lparr>dd_records := dd_records d @ [reload_entry r], dd_raw := dd_raw d + (fr_duplicates r + 1)\<rparr>"
  using assms by (simp add: insert_loaded_def reload_key dset_new reload_entry_def)

lemma load_files_records:
  assumes "\<forall>r \<in> set rs. record_ok r"
    and "distinct (dkeys (dd_records d) @ map (\<lambda>r. signature_key (fr_signature r)) rs)"
  shows "foldE load_file (d, n) (map (\<lambda>r. (record_file r, Some (to_json r))) rs) =
    Inr (d\<lparr>dd_records := dd_records d @ map reload_entry rs,
           dd_raw := dd_raw d + raw_of (map reload_entry rs)\<rparr>, n + length rs)"
  using assms
proof (induction rs arbitrary: d n)
  case Nil
  then show ?case by simp
next
  case (Cons r rs)
  let ?d = "insert_loaded (reload_record r) d"
  have new: "record_ok r" "signature_key (fr_signature r) \<notin> set (dkeys (dd_records d))"
    using Cons.prems by auto
  have "distinct (dkeys (dd_records ?d) @ map (\<lambda>r. signature_key (fr_signature r)) rs)"
    using Cons.prems(2) by (simp add: insert_loaded_new [OF new] reload_entry_def)
  then have "foldE load_file (?d, n + 1) (map (\<lambda>r. (record_file r, Some (to_json r))) rs) =
    Inr (?d\<lparr>dd_records := dd_records ?d @ map reload_entry rs,
            dd_raw := dd_raw ?d + raw_of (map reload_entry rs)\<rparr>, n + 1 + length rs)"
    using Cons.prems(1) by (intro Cons.IH) simp_all
  then show ?case
    by (simp add: load_file_record [OF new] insert_loaded_new [OF new] add.assoc)
qed

lemma sort_key_map_inj:
  "sort_key fst (map (\<lambda>r. (f r, g r)) rs) = map (\<lambda>r. (f r, g r)) (sort_key f rs)"
proof -
  have "insort_key fst (f r, g r) (map (\<lambda>r. (f r, g r)) rs) = map (\<lambda>r. (f r, g r)) (insort_key f r rs)"
    for r and rs by (induction rs) simp_all
  then show ?thesis by (induction rs) simp_all
qed

definition file_of :: "finding_record \<Rightarrow> string \<times> json option" where
  "file_of r = (record_file r, Some (to_json r))"

lemma load_record_files:
  assumes "\<forall>r \<in> set rs. record_ok r" "distinct (map (\<lambda>r. signature_key (fr_signature r)) rs)"
  shows "load_legacy_records (Some (map file_of rs)) new_deduplicator =
    Inr (\<lparr>dd_records = map reload_entry (sort_key record_file rs), dd_raw = raw_of (map reload_entry (sort_key record_file rs))\<rparr>, length rs)"
proof -
  have f: "file_of = (\<lambda>r. (record_file r, Some (to_json r)))" by (simp add: fun_eq_iff file_of_def)
  have "filter (\<lambda>(name, _). ends_with ''.json'' name) (map file_of rs) = map file_of rs" by (induction rs) (simp_all add: file_of_def)
  then have files: "record_files (map file_of rs) = map file_of (sort_key record_file rs)"
    unfolding f by (simp only: record_files_def sort_key_map_inj)
  have "distinct (map (\<lambda>r. signature_key (fr_signature r)) (sort_key record_file rs))"
    using assms(2) by (metis mset_eq_imp_distinct_iff mset_map mset_sort)
  then have "foldE load_file (new_deduplicator, 0) (map file_of (sort_key record_file rs)) =
    Inr (new_deduplicator\<lparr>dd_records := dd_records new_deduplicator @ map reload_entry (sort_key record_file rs),
         dd_raw := dd_raw new_deduplicator + raw_of (map reload_entry (sort_key record_file rs))\<rparr>, 0 + length (sort_key record_file rs))"
    unfolding f using assms(1) by (intro load_files_records) (simp_all add: new_deduplicator_def)
  then show ?thesis by (simp add: load_legacy_records_def files new_deduplicator_def)
qed

lemma reload_run:
  assumes "store_ok d" "\<forall>e \<in> set (dd_records d). record_ok (snd e)"
    and "distinct (map record_file (map snd (dd_records d)))"
  shows "load_legacy_records (Some (snd (persist_records d []))) new_deduplicator =
    Inr (\<lparr>dd_records = map reload_entry (sort_key record_file (map snd (dd_records d))),
          dd_raw = dd_raw d\<rparr>, dedup_count d)"
proof -
  let ?rs = "map snd (dd_records d)"
  have "snd (persist_records d []) = map file_of ?rs"
    using assms(3) persist_fresh [of "[]" ?rs] by (simp add: persist_records_def file_of_def del: map_map)
  moreover have "distinct (map (\<lambda>r. signature_key (fr_signature r)) ?rs)"
    unfolding store_keys [OF assms(1)] using assms(1) by (simp add: store_ok_def dict_ok_def)
  moreover have "raw_of (map reload_entry (sort_key record_file ?rs)) = raw_of (dd_records d)"
  proof -
    have "raw_of (map reload_entry rs) = sum_mset (image_mset (\<lambda>r. fr_duplicates r + 1) (mset rs))" for rs
      by (induction rs) (simp_all add: reload_entry_def)
    moreover have "raw_of es = sum_mset (image_mset (\<lambda>r. fr_duplicates r + 1) (mset (map snd es)))" for es
      by (induction es) auto
    ultimately show ?thesis by (simp only: mset_sort)
  qed
  ultimately show ?thesis
    using load_record_files [of ?rs] assms(1,2) by (simp add: dedup_count_def store_ok_def)
qed

lemma count_mset: "length (filter (\<lambda>(k, r). P r) es) = size (filter_mset P (mset (map snd es)))"
  by (induction es) auto

lemma count_reload:
  assumes "\<And>r. P (reload_record r) = P r"
  shows "length (filter (\<lambda>(k, r). P r) (map reload_entry (sort_key g (map snd es)))) =
    length (filter (\<lambda>(k, r). P r) es)"
proof -
  have "length (filter (\<lambda>(k, r). P r) (map reload_entry rs)) = size (filter_mset P (mset rs))" for rs
    by (induction rs) (simp_all add: reload_entry_def assms)
  then show ?thesis by (simp only: count_mset mset_sort)
qed

lemma total_reload:
  "sum_list (map (\<lambda>(k, r). fr_duplicates r) (map reload_entry (sort_key g (map snd es)))) =
    sum_list (map (\<lambda>(k, r). fr_duplicates r) es)"
proof -
  have "sum_list (map (\<lambda>(k, r). fr_duplicates r) (map reload_entry rs)) =
      sum_mset (image_mset fr_duplicates (mset rs))" for rs
    by (induction rs) (simp_all add: reload_entry_def)
  moreover have "sum_list (map (\<lambda>(k, r). fr_duplicates r) es) =
      sum_mset (image_mset fr_duplicates (mset (map snd es)))"
    by (induction es) auto
  ultimately show ?thesis by (simp only: mset_sort)
qed

lemma reload_entry_get:
  assumes "distinct (map (\<lambda>r. signature_key (fr_signature r)) rs)" "r \<in> set rs"
  shows "dget (map reload_entry rs) (signature_key (fr_signature r)) = Some (reload_record r)"
proof (rule map_of_is_SomeI)
  show "distinct (map fst (map reload_entry rs))"
    using assms(1) by (simp add: reload_entry_def o_def)
  show "(signature_key (fr_signature r), reload_record r) \<in> set (map reload_entry rs)"
    using assms(2) by (auto simp: reload_entry_def)
qed

text \<open>
  (C27) Records survive their files: when the file names of the records of a log are different,
  loading the files they were written to into a new store loads every record, gives each key its
  record with the output cut at 2000 characters (and the location of the record in its signature),
  and the reloaded store reports the same summary, raw count included.
\<close>

theorem persisted_records_reload:
  assumes "distinct (map record_file (map snd (dd_records (run_log log new_deduplicator))))"
    and "dget (dd_records (run_log log new_deduplicator)) k = Some r"
  shows "\<exists>d'. load_legacy_records (Some (snd (persist_records (run_log log new_deduplicator) [])))
        new_deduplicator = Inr (d', dedup_count (run_log log new_deduplicator)) \<and>
      dget (dd_records d') k = Some (reload_record r) \<and>
      summary d' = summary (run_log log new_deduplicator)"
proof -
  let ?d = "run_log log new_deduplicator"
  let ?rs = "sort_key record_file (map snd (dd_records ?d))"
  let ?d' = "\<lparr>dd_records = map reload_entry ?rs, dd_raw = dd_raw ?d\<rparr>"
  have load: "load_legacy_records (Some (snd (persist_records ?d []))) new_deduplicator = Inr (?d', dedup_count ?d)"
    by (rule reload_run [OF store_ok_run_log record_ok_run_log assms(1)])
  have "mset (map (\<lambda>r. signature_key (fr_signature r)) ?rs) = mset (dkeys (dd_records ?d))"
    using store_keys [OF store_ok_run_log] by (metis mset_map mset_sort)
  then have "distinct (map (\<lambda>r. signature_key (fr_signature r)) ?rs)"
    using store_ok_run_log [of log] mset_eq_imp_distinct_iff unfolding store_ok_def dict_ok_def by blast
  moreover have "r \<in> set ?rs" using assms(2) by (force dest: map_of_SomeD)
  ultimately have "dget (dd_records ?d') k = Some (reload_record r)"
    using reload_entry_get store_ok_get [OF store_ok_run_log assms(2)] by fastforce
  moreover have "summary ?d' = summary ?d"
  proof -
    have "count_status s ?d' = count_status s ?d" for s
      unfolding count_status_def deduplicator.simps by (rule count_reload) simp
    moreover have "length (filter (\<lambda>(k, r). sg_tier (fr_signature r) = t) (dd_records ?d')) =
        length (filter (\<lambda>(k, r). sg_tier (fr_signature r) = t) (dd_records ?d))"
      "length (filter (\<lambda>(k, r). sg_tier (fr_signature r) \<noteq> t) (dd_records ?d')) =
        length (filter (\<lambda>(k, r). sg_tier (fr_signature r) \<noteq> t) (dd_records ?d))" for t
      unfolding deduplicator.simps by (rule count_reload; simp)+
    moreover have "duplicate_total ?d' = duplicate_total ?d"
      unfolding duplicate_total_def deduplicator.simps by (rule total_reload)
    moreover have "dedup_count ?d' = dedup_count ?d" "dd_raw ?d' = dd_raw ?d"
      by (simp_all add: dedup_count_def)
    ultimately show ?thesis unfolding summary_def by presburger
  qed
  ultimately show ?thesis using load by blast
qed

lemma persisted_records_reload_witness:
  "\<exists>d'. load_legacy_records (Some (snd (persist_records
      (run_log [(''t'', demo_finding ''F'' ''a.seed'')] new_deduplicator) []))) new_deduplicator = Inr (d', 1) \<and>
    ds_raw (summary d') = 1"
proof -
  let ?log = "[(''t'', demo_finding ''F'' ''a.seed'')]"
  let ?d = "run_log ?log new_deduplicator"
  have rs: "dd_records ?d = [(finding_key (demo_finding ''F'' ''a.seed''), new_record ''t'' (demo_finding ''F'' ''a.seed''))]"
    and raw: "dd_raw ?d = 1"
    by (simp_all add: add_def new_deduplicator_def Let_def)
  then have "distinct (map record_file (map snd (dd_records ?d)))" by simp
  from persisted_records_reload [OF this, of "finding_key (demo_finding ''F'' ''a.seed'')"] rs
  obtain d' where "load_legacy_records (Some (snd (persist_records ?d []))) new_deduplicator =
      Inr (d', dedup_count ?d)" "summary d' = summary ?d" by auto
  moreover have "dedup_count ?d = 1" using rs by (simp add: dedup_count_def)
  moreover have "ds_raw (summary ?d) = 1" using raw by (simp add: summary_def)
  ultimately show ?thesis by metis
qed

section \<open>Records that share a file\<close>

lemma replace_pair_split:
  assumes "c \<noteq> p"
  shows "replace_all [p, p] new (x @ c # y) = replace_all [p, p] new x @ c # replace_all [p, p] new y"
proof -
  have c: "replace_all [p, p] new (c # y) = c # replace_all [p, p] new y" using assms by (cases y) (simp_all add: replace_pair)
  show ?thesis
    using assms by (induction x rule: induct_list012) (simp_all add: c replace_pair)
qed

lemma replace_char: "replace_all [a] [b] s = map (\<lambda>c. if c = a then b else c) s"
proof (induction s)
  case (Cons x s)
  then show ?case by (simp add: replace_all_def starts_with_def)
qed (simp add: replace_all_def)

lemma safe_key_slash: "safe_key (a @ ''/'' @ b) = safe_key (a @ ''_'' @ b)"
  by (simp add: safe_key_def replace_char replace_pair_split)

lemma dset_file:
  "dset (record_file r) (Some (to_json r)) (file_of s # fs) =
    (if record_file s = record_file r then file_of r # fs else file_of s # dset (record_file r) (Some (to_json r)) fs)"
  by (simp add: file_of_def)

lemma dset_map_file:
  assumes "distinct (map record_file rs)"
  shows "\<exists>rs'. dset (record_file r) (Some (to_json r)) (map file_of rs) = map file_of rs' \<and> set rs' \<subseteq> insert r (set rs)
    \<and> distinct (map record_file rs') \<and> record_file ` set rs' = insert (record_file r) (record_file ` set rs)"
  using assms
proof (induction rs)
  case Nil
  show ?case by (intro exI [of _ "[r]"]) (simp add: file_of_def)
next
  case (Cons s rs)
  show ?case
  proof (cases "record_file s = record_file r")
    case True
    then show ?thesis using Cons.prems by (intro exI [of _ "r # rs"]) (auto simp: dset_file)
  next
    case False
    from Cons obtain rs' where rs': "dset (record_file r) (Some (to_json r)) (map file_of rs) = map file_of rs'"
      "set rs' \<subseteq> insert r (set rs)" "distinct (map record_file rs')"
      "record_file ` set rs' = insert (record_file r) (record_file ` set rs)" by auto
    have "record_file s \<notin> record_file ` set rs'" using rs'(4) False Cons.prems by simp
    then show ?thesis using False rs' by (intro exI [of _ "s # rs'"]) (auto simp: dset_file)
  qed
qed

lemma image_without:
  assumes "x \<in> A" "y \<in> A" "x \<noteq> y" "f x = f y"
  shows "f ` A = f ` (A - {x})"
proof -
  have "f z \<in> f ` (A - {x})" if "z \<in> A" for z using assms that by (cases "z = x") auto
  then show ?thesis by blast
qed

lemma persisted_files:
  "\<exists>rs'. snd (persist_records d []) = map file_of rs' \<and> set rs' \<subseteq> set (map snd (dd_records d))
    \<and> distinct (map record_file rs')"
proof -
  have "\<exists>rs'. foldl persist_record (map file_of ss) rs = map file_of rs' \<and> set rs' \<subseteq> set ss \<union> set rs \<and> distinct (map record_file rs')"
    if "distinct (map record_file ss)" for ss rs
    using that
  proof (induction rs arbitrary: ss)
    case (Cons r rs)
    obtain ss' where ss': "persist_record (map file_of ss) r = map file_of ss'" "set ss' \<subseteq> insert r (set ss)" "distinct (map record_file ss')"
      using dset_map_file [OF Cons.prems, of r] by (auto simp: persist_record_def)
    from Cons.IH [OF ss'(3)] ss'(1,2) show ?case by fastforce
  qed auto
  from this [of "[]" "map snd (dd_records d)"] show ?thesis by (simp add: persist_records_def)
qed

text \<open>
  (C38) The file name of a record is not one-to-one in its key. When a store built from a log holds
  records under two keys that differ in one character, \<^verbatim>\<open>/\<close> in one and \<^verbatim>\<open>_\<close> in the other, both records have
  the same file: every record is reported as written, but there are fewer files than records, and
  loading the files succeeds with fewer records than the store had, one of the two keys among the lost.
\<close>

theorem persist_collision_loses_finding:
  assumes "dget (dd_records (run_log log new_deduplicator)) (a @ ''/'' @ b) = Some r1"
    and "dget (dd_records (run_log log new_deduplicator)) (a @ ''_'' @ b) = Some r2"
  shows "record_file r1 = record_file r2 \<and>
    length (fst (persist_records (run_log log new_deduplicator) [])) = dedup_count (run_log log new_deduplicator) \<and>
    length (snd (persist_records (run_log log new_deduplicator) [])) < dedup_count (run_log log new_deduplicator) \<and>
    (\<exists>d' n. load_legacy_records (Some (snd (persist_records (run_log log new_deduplicator) []))) new_deduplicator = Inr (d', n) \<and>
       dedup_count d' = n \<and> n < dedup_count (run_log log new_deduplicator) \<and>
       (dget (dd_records d') (a @ ''/'' @ b) = None \<or> dget (dd_records d') (a @ ''_'' @ b) = None))"
proof -
  let ?d = "run_log log new_deduplicator" and ?key = "\<lambda>r. signature_key (fr_signature r)"
  let ?rs = "map snd (dd_records ?d)"
  have keys: "?key r1 = a @ ''/'' @ b" "?key r2 = a @ ''_'' @ b"
    using store_ok_get [OF store_ok_run_log assms(1)] store_ok_get [OF store_ok_run_log assms(2)] by simp_all
  have same: "record_file r1 = record_file r2" by (simp only: record_file_def keys safe_key_slash)
  have by_key: "record_file r = safe_key (?key r) @ ''.json''" for r by (simp add: record_file_def)
  have r12: "r1 \<in> set ?rs" "r2 \<in> set ?rs" "r1 \<noteq> r2"
    using assms keys by (force dest: map_of_SomeD)+
  have n: "length ?rs = dedup_count ?d" by (simp add: dedup_count_def)
  obtain rs' where rs': "snd (persist_records ?d []) = map file_of rs'" "set rs' \<subseteq> set ?rs" "distinct (map record_file rs')"
    using persisted_files by blast
  have "length rs' = card (record_file ` set rs')" using distinct_card [OF rs'(3)] by simp
  also have "\<dots> \<le> card (record_file ` set ?rs)" using rs'(2) by (intro card_mono) auto
  also have "\<dots> = card (record_file ` (set ?rs - {r1}))"
    by (rule arg_cong [OF image_without [OF r12 same]])
  also have "\<dots> \<le> card (set ?rs - {r1})" by (rule card_image_le) simp
  also have "\<dots> < card (set ?rs)" using r12(1) by (intro psubset_card_mono) auto
  also have "\<dots> \<le> dedup_count ?d" unfolding n [symmetric] by (rule card_length)
  finally have less: "length rs' < dedup_count ?d" .
  have "inj_on record_file (set rs')" using rs'(3) by (simp add: distinct_map)
  then have inj: "inj_on ?key (set rs')" by (auto simp: inj_on_def by_key)
  moreover have "distinct rs'" using rs'(3) by (simp add: distinct_map)
  ultimately have "distinct (map ?key rs')" by (simp add: distinct_map)
  moreover have "\<forall>r \<in> set rs'. record_ok r" using record_ok_run_log [of log] rs'(2) by auto
  ultimately have load: "load_legacy_records (Some (map file_of rs')) new_deduplicator =
    Inr (\<lparr>dd_records = map reload_entry (sort_key record_file rs'), dd_raw = raw_of (map reload_entry (sort_key record_file rs'))\<rparr>, length rs')"
    by (intro load_record_files)
  have "\<exists>r \<in> set rs'. ?key r = k" if "dget (map reload_entry (sort_key record_file rs')) k \<noteq> None" for k
    using that by (auto simp: reload_entry_def dest!: map_of_SomeD)
  moreover have "\<not> (\<exists>r \<in> set rs'. \<exists>s \<in> set rs'. ?key r = a @ ''/'' @ b \<and> ?key s = a @ ''_'' @ b)"
    using \<open>inj_on record_file (set rs')\<close> safe_key_slash [of a b] by (auto simp: inj_on_def by_key)
  ultimately have "dget (map reload_entry (sort_key record_file rs')) (a @ ''/'' @ b) = None \<or>
      dget (map reload_entry (sort_key record_file rs')) (a @ ''_'' @ b) = None" by blast
  moreover have "length (fst (persist_records ?d [])) = dedup_count ?d" by (simp add: persist_records_def dedup_count_def)
  ultimately show ?thesis using same less load rs'(1) by (simp add: dedup_count_def)
qed

definition collision_log :: finding_log where
  "collision_log = [(''t'', demo_finding ''A/B'' ''a.seed''), (''t'', demo_finding ''A_B'' ''b.seed'')]"

definition collision_tail :: string where
  "collision_tail = drop 12 (finding_key (demo_finding ''A/B'' ''a.seed''))"

lemma collision_records:
  "dget (dd_records (run_log collision_log new_deduplicator)) (''fallback::A'' @ ''/'' @ collision_tail) \<noteq> None"
  "dget (dd_records (run_log collision_log new_deduplicator)) (''fallback::A'' @ ''_'' @ collision_tail) \<noteq> None"
  "dedup_count (run_log collision_log new_deduplicator) = 2"
  by code_simp+

theorem persist_collision_loses_finding_witness:
  "dedup_count (run_log collision_log new_deduplicator) = 2 \<and>
   length (snd (persist_records (run_log collision_log new_deduplicator) [])) < 2"
proof -
  obtain r1 r2 where "dget (dd_records (run_log collision_log new_deduplicator)) (''fallback::A'' @ ''/'' @ collision_tail) = Some r1"
    "dget (dd_records (run_log collision_log new_deduplicator)) (''fallback::A'' @ ''_'' @ collision_tail) = Some r2"
    using collision_records(1,2) by blast
  from persist_collision_loses_finding [OF this] collision_records(3) show ?thesis by simp
qed

end
