(* ===== verification/Diagnostics.thy ===== *)
theory Diagnostics
  imports Unit_Structure Source_Map
begin

text \<open>
  Compiler diagnostics and where they point (\<^verbatim>\<open>compiler/intake/rusty.py\<close>,
  \<^verbatim>\<open>compiler/intake/diagnostics.py\<close>, \<^verbatim>\<open>compiler/intake/symbols.py\<close>): the reader of the
  compiler's output, the index of a source text that turns a line and byte column into an offset, a
  token and a unit, and the construct a diagnostic is counted under. The compiler process is an
  argument; paths are its texts.
\<close>

section \<open>The compiler's output\<close>

record diagnostic =
  dg_severity :: string
  dg_code :: string
  dg_message :: string
  dg_path :: string
  dg_line :: nat
  dg_column :: nat
  dg_end_line :: nat
  dg_end_column :: nat

record compile_result =
  cr_returncode :: int
  cr_diagnostics :: "diagnostic list"
  cr_output :: string
  cr_panic :: "string option"

definition errors_of :: "compile_result \<Rightarrow> diagnostic list" where
  "errors_of r = filter (\<lambda>d. dg_severity d = ''error'') (cr_diagnostics r)"

definition compile_ok :: "compile_result \<Rightarrow> bool" where
  "compile_ok r = (cr_returncode r = 0 \<and> cr_panic r = None \<and> errors_of r = [])"

definition rx_number :: "nat \<Rightarrow> rx" where
  "rx_number n = RGroup n (rx_plus (RChar is_digit))"

definition severity_rx :: "nat \<Rightarrow> rx" where
  "severity_rx n = RGroup n (RAlt (rx_lit ''error'') (RAlt (rx_lit ''warning'') (RAlt (rx_lit ''info'') (rx_lit ''hint''))))"

definition code_rx :: "nat \<Rightarrow> rx" where
  "code_rx n = RSeq (rx_lit ''['') (RSeq (RGroup n (RSeq (rx_lit ''E'') (rx_plus (RChar is_digit)))) (rx_lit '']: ''))"

text \<open>\<open>:line:column:{l1:c1-l2:c2}\<close>, groups 2 to 7.\<close>

definition location_rx :: rx where
  "location_rx = rx_seq
     [rx_lit '':'', rx_number 2, rx_lit '':'', rx_number 3, rx_lit '':{'', rx_number 4, rx_lit '':'', rx_number 5,
      rx_lit ''-'', rx_number 6, rx_lit '':'', rx_number 7, rx_lit ''}'']"

definition LOCATED_RE :: rx where
  "LOCATED_RE = rx_seq
     [RGroup 1 (RSeq rx_any (RLazy rx_any)), location_rx, rx_lit '': '', severity_rx 8, code_rx 9,
      RGroup 10 (RStar rx_any), REnd]"

definition UNLOCATED_RE :: rx where
  "UNLOCATED_RE = rx_seq
     [RGroup 1 (RLazy rx_any), rx_opt (rx_lit '':''), RStar (RChar is_space), severity_rx 8, code_rx 9,
      RGroup 10 (RStar rx_any), REnd]"

definition PANIC_LINE_RE :: rx where
  "PANIC_LINE_RE = rx_seq
     [rx_lit ''thread '', rx_lit [CHR 0x27], RStar rx_any, rx_lit [CHR 0x27], rx_lit '' panicked at '',
      RGroup 1 (rx_plus rx_any), REnd]"

definition CODEGEN_RE :: rx where
  "CODEGEN_RE = rx_seq
     [RGroup 10 (RSeq rx_any (RLazy rx_any)), rx_lit '' at: '',
      RGroup 1 (RSeq (rx_lit ''/'') (RSeq rx_any (RLazy rx_any))), location_rx, rx_lit '':'',
      rx_opt (rx_lit '' ''), rx_opt (rx_lit ''.''), REnd]"

definition number_of :: "nat \<Rightarrow> (nat \<times> string) list \<Rightarrow> nat" where
  "number_of n gs = read_nat (group_of n gs)"

definition located_diagnostic :: "(nat \<times> string) list \<Rightarrow> diagnostic" where
  "located_diagnostic g =
     \<lparr>dg_severity = group_of 8 g, dg_code = group_of 9 g, dg_message = group_of 10 g, dg_path = group_of 1 g,
      dg_line = number_of 4 g, dg_column = number_of 5 g, dg_end_line = number_of 6 g,
      dg_end_column = number_of 7 g\<rparr>"

definition codegen_diagnostic :: "string \<Rightarrow> (nat \<times> string) list \<Rightarrow> diagnostic" where
  "codegen_diagnostic message g =
     \<lparr>dg_severity = ''error'', dg_code = ''CODEGEN'', dg_message = message, dg_path = group_of 1 g,
      dg_line = number_of 4 g + 1, dg_column = number_of 5 g + 1, dg_end_line = number_of 6 g + 1,
      dg_end_column = number_of 7 g + 1\<rparr>"

definition unlocated_diagnostic :: "(nat \<times> string) list \<Rightarrow> diagnostic" where
  "unlocated_diagnostic g =
     \<lparr>dg_severity = group_of 8 g, dg_code = group_of 9 g, dg_message = group_of 10 g, dg_path = group_of 1 g,
      dg_line = 0, dg_column = 0, dg_end_line = 0, dg_end_column = 0\<rparr>"

text \<open>The reader's state: the diagnostics so far and the lines after the last header.\<close>

type_synonym reader = "diagnostic list \<times> string list"

definition flush_lines :: "reader \<Rightarrow> reader" where
  "flush_lines s = (case s of (ds, pending) \<Rightarrow>
     (if ds \<noteq> [] \<and> pending \<noteq> []
      then butlast ds @ [(last ds)\<lparr>dg_message := dg_message (last ds) @ [newline] @ join [newline] pending\<rparr>]
      else ds, []))"

definition push_diagnostic :: "diagnostic \<Rightarrow> reader \<Rightarrow> reader" where
  "push_diagnostic d s = (case flush_lines s of (ds, pending) \<Rightarrow> (ds @ [d], pending))"

definition is_closing :: "string \<Rightarrow> bool" where
  "is_closing s = (s \<noteq> [] \<and> hd s \<in> {CHR ''}'', CHR '')'', CHR '']''})"

definition read_codegen :: "(nat \<times> string) list \<Rightarrow> reader \<Rightarrow> reader" where
  "read_codegen g s =
     (let message = group_of 10 g in
      if is_closing message \<and> snd s \<noteq> []
      then push_diagnostic (codegen_diagnostic (join [newline] (snd s @ [message])) g) (fst s, [])
      else push_diagnostic (codegen_diagnostic message g) s)"

definition indented :: "string \<Rightarrow> bool" where
  "indented line = (line \<noteq> [] \<and> hd line \<in> {CHR '' '', CHR 0x09})"

definition read_line :: "string \<Rightarrow> reader \<Rightarrow> reader" where
  "read_line line s =
     (case re_match LOCATED_RE line of
        Some g \<Rightarrow> push_diagnostic (located_diagnostic g) s
      | None \<Rightarrow>
     (case re_match CODEGEN_RE line of
        Some g \<Rightarrow> read_codegen g s
      | None \<Rightarrow>
     (case (if indented line then None else re_match UNLOCATED_RE line) of
        Some g \<Rightarrow> push_diagnostic (unlocated_diagnostic g) s
      | None \<Rightarrow> if re_match PANIC_LINE_RE line = None then (fst s, snd s @ [line]) else s)))"

fun read_lines :: "string list \<Rightarrow> reader \<Rightarrow> reader" where
  "read_lines [] s = s"
| "read_lines (line # rest) s =
     (if starts_with ''Compilation aborted'' line then s else read_lines rest (read_line line s))"

definition parse_diagnostics :: "string \<Rightarrow> diagnostic list" where
  "parse_diagnostics output = fst (flush_lines (read_lines (splitlines output) ([], [])))"

fun split_newlines :: "string \<Rightarrow> string list" where
  "split_newlines [] = [[]]"
| "split_newlines (c # cs) =
     (if c = newline then [] # split_newlines cs
      else (case split_newlines cs of [] \<Rightarrow> [[c]] | l # ls \<Rightarrow> (c # l) # ls))"

definition panic_where :: "string \<Rightarrow> string option" where
  "panic_where output =
     (case List.map_filter (re_match PANIC_LINE_RE) (split_newlines output) of
        [] \<Rightarrow> None | g # _ \<Rightarrow> Some (group_of 1 g))"

text \<open>
  The outcome of the compiler process: it could not start, it was stopped after a number of seconds
  with the output so far, or it exited.
\<close>

datatype process = NoStart string | TimedOut nat string | Exited int string string

definition run_plc :: "process \<Rightarrow> compile_result" where
  "run_plc p = (case p of
     NoStart err \<Rightarrow> \<lparr>cr_returncode = 127, cr_diagnostics = [],
                    cr_output = ''compiler could not start: '' @ err, cr_panic = None\<rparr>
   | TimedOut t out \<Rightarrow> \<lparr>cr_returncode = - 1, cr_diagnostics = [], cr_output = out,
                       cr_panic = Some (''timeout after '' @ show_nat t @ ''s'')\<rparr>
   | Exited code out err \<Rightarrow> \<lparr>cr_returncode = code, cr_diagnostics = parse_diagnostics (out @ err),
                            cr_output = out @ err, cr_panic = panic_where (out @ err)\<rparr>)"

text \<open>\<open>check\<close> drops the diagnostics of the standard library.\<close>

definition check_result :: "string \<Rightarrow> process \<Rightarrow> compile_result" where
  "check_result stdlib p =
     (let r = run_plc p in
      r\<lparr>cr_diagnostics := filter (\<lambda>d. \<not> starts_with stdlib (dg_path d)) (cr_diagnostics r)\<rparr>)"

section \<open>The index of a source text\<close>

record source_index =
  si_text :: string
  si_tokens :: "lossless_token list"
  si_significant :: "lossless_token list"
  si_units :: "st_unit list"

definition new_index :: "string \<Rightarrow> source_index" where
  "new_index text =
     (let tokens = tokenize_lossless text
      in \<lparr>si_text = text, si_tokens = tokens, si_significant = significant tokens, si_units = split_units tokens\<rparr>)"

text \<open>The first significant token that contains an offset or starts at or after it.\<close>

definition significant_index :: "source_index \<Rightarrow> nat \<Rightarrow> nat" where
  "significant_index si offset =
     (let tokens = si_significant si; n = bisect_right (map lt_start tokens) offset in
      if 0 < n \<and> offset < lt_end (tokens ! (n - 1)) then n - 1 else n)"

text \<open>The number of characters whose UTF-8 bytes fit into \<open>n\<close> bytes.\<close>

fun chars_in_bytes :: "nat \<Rightarrow> string \<Rightarrow> nat" where
  "chars_in_bytes n [] = 0"
| "chars_in_bytes n (c # cs) =
     (let w = (if of_char c < (128 :: nat) then 1 else 2)
      in if w \<le> n then Suc (chars_in_bytes (n - w) cs) else 0)"

definition offset_at :: "source_index \<Rightarrow> nat \<Rightarrow> nat \<Rightarrow> nat" where
  "offset_at si line byte_column =
     (let text = si_text si; starts = line_starts text in
      if line < 1 \<or> length starts < line then length text
      else let start = starts ! (line - 1);
               finish = (if line < length starts then starts ! line else length text)
           in start + chars_in_bytes (byte_column - 1) (span start finish text))"

fun skip_trivia :: "lossless_token list \<Rightarrow> lossless_token option" where
  "skip_trivia [] = None"
| "skip_trivia [t] = Some t"
| "skip_trivia (t # u # ts) = (if is_trivia t then skip_trivia (u # ts) else Some t)"

definition token_at :: "source_index \<Rightarrow> nat \<Rightarrow> lossless_token option" where
  "token_at si offset =
     (let n = bisect_right (map lt_start (si_tokens si)) offset
      in if n = 0 then None else skip_trivia (drop (n - 1) (si_tokens si)))"

definition significant_before :: "source_index \<Rightarrow> lossless_token \<Rightarrow> nat \<Rightarrow> lossless_token list" where
  "significant_before si token count =
     take count (filter (\<lambda>t. \<not> is_trivia t)
       (rev (takeWhile (\<lambda>t. lt_start t < lt_start token) (si_tokens si))))"

definition unit_containing :: "source_index \<Rightarrow> nat \<Rightarrow> st_unit option" where
  "unit_containing si offset = find (\<lambda>u. un_start u \<le> offset \<and> offset < un_end u) (si_units si)"

section \<open>Constructs\<close>

definition EXPECTED_RE :: rx where
  "EXPECTED_RE = rx_seq
     [rx_lit ''Unexpected token: expected '', RGroup 1 (rx_plus (RChar is_word_char)), rx_lit '' but found '']"

definition name_rx :: rx where
  "name_rx = RGroup 1 (rx_plus (RChar (\<lambda>c. is_word_char c \<or> c = CHR ''.'')))"

definition UNRESOLVED_RE :: rx where
  "UNRESOLVED_RE = RSeq (rx_lit ''Could not resolve reference to '') name_rx"

definition UNKNOWN_TYPE_RE :: rx where
  "UNKNOWN_TYPE_RE = rx_seq [rx_lit ''Unknown type'', rx_opt (rx_lit '':''), RStar (RChar is_space), name_rx]"

definition MISSING_BASE_RE :: rx where
  "MISSING_BASE_RE = rx_seq [rx_lit ''Base `'', name_rx, rx_lit ''` does not exist'']"

text \<open>A quoted text without the quote inside.\<close>

definition quoted_rx :: "char \<Rightarrow> rx" where
  "quoted_rx q = RSeq (RChar (\<lambda>c. c = q)) (RSeq (RStar (RChar (\<lambda>c. c \<noteq> q))) (RChar (\<lambda>c. c = q)))"

text \<open>\<open>\b\d+\b\<close> replaced by \<open>N\<close>; the flag says whether the character before is a word character.\<close>

fun mask_numbers :: "nat \<Rightarrow> bool \<Rightarrow> string \<Rightarrow> string" where
  "mask_numbers k prev [] = []"
| "mask_numbers (Suc k) prev (c # cs) = mask_numbers k True cs"
| "mask_numbers 0 prev (c # cs) =
     (let digits = takeWhile is_digit (c # cs); rest = drop (length digits) (c # cs) in
      if \<not> prev \<and> digits \<noteq> [] \<and> (rest = [] \<or> \<not> is_word_char (hd rest))
      then CHR ''N'' # mask_numbers (length digits - 1) True cs
      else c # mask_numbers 0 (is_word_char c) cs)"

definition line_one :: "string \<Rightarrow> string" where
  "line_one message = takeWhile (\<lambda>c. c \<noteq> newline) message"

definition message_shape :: "string \<Rightarrow> string" where
  "message_shape message =
     (let shape = re_sub (quoted_rx (CHR 0x27)) [CHR 0x27, CHR ''_'', CHR 0x27] (line_one message);
          shape = re_sub (quoted_rx (CHR ''`'')) ''`_`'' shape
      in take 120 (mask_numbers 0 False shape))"

definition is_ascii :: "string \<Rightarrow> bool" where
  "is_ascii s = (\<forall>c \<in> set s. of_char c < (128 :: nat))"

definition upper_of :: "lossless_token \<Rightarrow> string" where
  "upper_of t = py_upper (lt_text t)"

definition VAR_SECTIONS :: "string list" where
  "VAR_SECTIONS = [''VAR'', ''VAR_INPUT'', ''VAR_OUTPUT'', ''VAR_IN_OUT'', ''VAR_GLOBAL'', ''VAR_TEMP'', ''VAR_EXTERNAL'']"

definition unexpected_token :: "source_index \<Rightarrow> string \<Rightarrow> lossless_token \<Rightarrow> string" where
  "unexpected_token si expected t =
     (if lt_kind t = ''error'' then ''lexical:'' @ (if is_ascii (lt_text t) then lt_text t else ''non_ascii'')
      else if lt_kind t = ''keyword'' \<and> expected \<in> {''Identifier'', ''Literal'', ''DataTypeDefinition''}
      then ''keyword_as_identifier:'' @ upper_of t
      else if lt_kind t = ''identifier'' then
        (case significant_before si t 1 of
           p # _ \<Rightarrow> if upper_of p \<in> set VAR_SECTIONS \<and> upper_of t = ''CONSTANT''
                   then ''var_section_qualifier:'' @ upper_of p @ ''_'' @ upper_of t
                   else ''unexpected_word:'' @ upper_of t
         | [] \<Rightarrow> ''unexpected_word:'' @ upper_of t)
      else if lt_kind t \<in> {''keyword'', ''symbol''} then ''unexpected_'' @ lt_kind t @ '':'' @ upper_of t
      else ''unexpected_'' @ lt_kind t)"

definition classify :: "diagnostic \<Rightarrow> lossless_token option \<Rightarrow> source_index \<Rightarrow> string" where
  "classify d token si =
     (let message = dg_message d; code = dg_code d in
      if code = ''E007'' then
        (let expected = (case re_match EXPECTED_RE message of Some g \<Rightarrow> group_of 1 g | None \<Rightarrow> []) in
         case token of
           Some t \<Rightarrow> unexpected_token si expected t
         | None \<Rightarrow> ''parse:'' @ message_shape message)
      else if code = ''E006'' then
        ''missing_token:'' @ (case token of Some t \<Rightarrow> if is_trivia t then ''?'' else upper_of t | None \<Rightarrow> ''?'')
      else if code = ''E048'' then ''unresolved_reference''
      else if code = ''E052'' then ''unknown_type''
      else code @ '':'' @ message_shape message)"

definition referenced_name :: "diagnostic \<Rightarrow> string option" where
  "referenced_name d =
     (case List.map_filter (\<lambda>r. re_search r (dg_message d)) [UNRESOLVED_RE, UNKNOWN_TYPE_RE, MISSING_BASE_RE] of
        [] \<Rightarrow> None | g # _ \<Rightarrow> Some (group_of 1 g))"

record located =
  lo_diagnostic :: diagnostic
  lo_offset :: nat
  lo_token :: "lossless_token option"
  lo_construct :: string
  lo_unit :: "st_unit option"

definition locate :: "diagnostic \<Rightarrow> source_index \<Rightarrow> located" where
  "locate d si =
     (let offset = (if dg_line d \<noteq> 0 then offset_at si (dg_line d) (dg_column d) else 0);
          token = (if dg_line d \<noteq> 0 then token_at si offset else None)
      in \<lparr>lo_diagnostic = d, lo_offset = offset, lo_token = token, lo_construct = classify d token si,
          lo_unit = (if dg_line d \<noteq> 0 then unit_containing si offset else None)\<rparr>)"

section \<open>Names a text defines\<close>

definition DEFINING_KINDS :: "string list" where
  "DEFINING_KINDS = [''FUNCTION'', ''FUNCTION_BLOCK'', ''PROGRAM'', ''CLASS'', ''INTERFACE'', ''TYPE'', ''DATA_BLOCK'',
     ''ORGANIZATION_BLOCK'']"

definition unit_names :: "st_unit \<Rightarrow> string list" where
  "unit_names u =
     (if un_kind u \<in> set DEFINING_KINDS \<and> un_name u \<noteq> []
      then [py_upper (un_name u), py_upper (qualified_name u)] else [])"

definition defined_in_text :: "string \<Rightarrow> string set" where
  "defined_in_text text = set (concat (map unit_names (split_units (tokenize_lossless text))))"

definition defined_names :: "string list \<Rightarrow> string set" where
  "defined_names texts = \<Union> (set (map defined_in_text texts))"

section \<open>Facts\<close>

lemma index_text [simp]: "si_text (new_index t) = t"
  by (simp add: new_index_def Let_def)

lemma index_tokens [simp]: "si_tokens (new_index t) = tokenize_lossless t"
  by (simp add: new_index_def Let_def)

lemma index_significant [simp]: "si_significant (new_index t) = significant (tokenize_lossless t)"
  by (simp add: new_index_def Let_def)

lemma index_units [simp]: "si_units (new_index t) = split_units (tokenize_lossless t)"
  by (simp add: new_index_def Let_def)

lemma significant_span:
  assumes "t \<in> set (si_significant (new_index src))"
  shows "lt_start t < lt_end t" "lt_end t \<le> length src"
proof -
  have t: "t \<in> set (tokenize_lossless src)" using assms by (simp add: significant_def)
  then show "lt_end t \<le> length src" by (rule token_end_bound)
  show "lt_start t < lt_end t"
    using assms significant_ordered [of src] by (simp add: tokens_ordered_def)
qed

lemma bisect_right_le: "bisect_right xs x \<le> length xs"
  by (simp add: bisect_right_def length_takeWhile_le)

lemma significant_index_le: "significant_index si offset \<le> length (si_significant si)"
  using bisect_right_le [of "map lt_start (si_significant si)" offset]
  by (auto simp: significant_index_def Let_def)

lemma bisect_right_upto: "i < bisect_right xs x \<Longrightarrow> xs ! i \<le> x"
  unfolding bisect_right_def by (metis nth_mem set_takeWhileD takeWhile_nth)

lemma bisect_right_from:
  assumes "sorted xs" "bisect_right xs x \<le> i" "i < length xs"
  shows "x < xs ! i"
proof -
  let ?n = "bisect_right xs x"
  have "?n < length xs" using assms(2,3) by simp
  then have "\<not> xs ! ?n \<le> x" unfolding bisect_right_def by (rule nth_length_takeWhile)
  moreover have "xs ! ?n \<le> xs ! i" using assms by (simp add: sorted_nth_mono)
  ultimately show ?thesis by simp
qed

lemma significant_sorted: "sorted (map lt_start (si_significant (new_index src)))"
proof -
  have "sorted_wrt (\<lambda>a b. lt_start a \<le> lt_start b) (si_significant (new_index src))"
    using significant_ordered [of src]
    by (auto simp: tokens_ordered_def elim!: sorted_wrt_mono_rel [rotated])
  then show ?thesis by (simp add: sorted_map)
qed

lemma significant_index_spec:
  assumes "si = new_index src" "k = significant_index si offset"
  shows "i < k \<Longrightarrow> lt_end (si_significant si ! i) \<le> offset"
    and "k < length (si_significant si) \<Longrightarrow> offset < lt_end (si_significant si ! k)"
proof -
  let ?ts = "si_significant si" and ?n = "bisect_right (map lt_start (si_significant si)) offset"
  have ord: "tokens_ordered ?ts" using significant_ordered assms(1) by simp
  have n: "?n \<le> length ?ts" using bisect_right_le [of "map lt_start ?ts"] by simp
  have up: "lt_start (?ts ! j) \<le> offset" if "j < ?n" for j
    using bisect_right_upto [OF that] that n by simp
  have from_n: "offset < lt_start (?ts ! j)" if "?n \<le> j" "j < length ?ts" for j
    using bisect_right_from [of "map lt_start ?ts" offset j] that significant_sorted [of src] assms(1) by simp
  show "lt_end (?ts ! i) \<le> offset" if "i < k"
  proof (cases "0 < ?n \<and> offset < lt_end (?ts ! (?n - 1))")
    case True
    then have "i < ?n - 1" using that assms(2) by (simp add: significant_index_def Let_def)
    then have "lt_end (?ts ! i) \<le> lt_start (?ts ! (?n - 1))" using ordered_nth [OF ord] n True by simp
    also have "\<dots> \<le> offset" using up True by simp
    finally show ?thesis .
  next
    case False
    then have k: "k = ?n" using assms(2) by (auto simp: significant_index_def Let_def)
    with that False have "lt_end (?ts ! (?n - 1)) \<le> offset" by simp
    moreover have "lt_end (?ts ! i) \<le> lt_end (?ts ! (?n - 1))"
      using ordered_end_mono(1) [OF ord, of i "?n - 1"] that k n by simp
    ultimately show ?thesis by simp
  qed
  show "offset < lt_end (?ts ! k)" if "k < length ?ts"
  proof (cases "0 < ?n \<and> offset < lt_end (?ts ! (?n - 1))")
    case True
    then show ?thesis using assms(2) by (simp add: significant_index_def Let_def)
  next
    case False
    then have "k = ?n" using assms(2) by (auto simp: significant_index_def Let_def)
    then have "offset < lt_start (?ts ! k)" using from_n that by simp
    then show ?thesis using ordered_span [OF ord that] by simp
  qed
qed

text \<open>A token's own offset leads back to the token.\<close>

lemma significant_index_start:
  assumes "si = new_index src" "i < length (si_significant si)"
  shows "significant_index si (lt_start (si_significant si ! i)) = i"
proof -
  let ?k = "significant_index si (lt_start (si_significant si ! i))"
  have ord: "tokens_ordered (si_significant si)" using significant_ordered assms(1) by simp
  have "\<not> i < ?k"
    using significant_index_spec(1) [OF assms(1) refl, of i "lt_start (si_significant si ! i)"]
      ordered_span [OF ord assms(2)] by fastforce
  moreover have "\<not> ?k < i"
    using significant_index_spec(2) [OF assms(1) refl, of "lt_start (si_significant si ! i)"]
      ordered_nth [OF ord, of ?k i] assms(2) by fastforce
  ultimately show ?thesis by simp
qed

lemma chars_in_bytes_le: "chars_in_bytes n s \<le> length s"
  by (induction n s rule: chars_in_bytes.induct) (auto simp: Let_def)

lemma line_starts_le: "i < length (line_starts t) \<Longrightarrow> line_starts t ! i \<le> length t"
proof -
  have "\<forall>x \<in> set (line_starts t). x \<le> length t" by (auto simp: line_starts_def)
  then show "i < length (line_starts t) \<Longrightarrow> ?thesis" by simp
qed

lemma offset_at_le: "offset_at (new_index t) line column \<le> length t"
proof (cases "line < 1 \<or> length (line_starts t) < line")
  case False
  let ?a = "line_starts t ! (line - 1)"
  let ?b = "if line < length (line_starts t) then line_starts t ! line else length t"
  have "chars_in_bytes (column - 1) (span ?a ?b t) \<le> length t - ?a"
    using chars_in_bytes_le [of "column - 1" "span ?a ?b t"] by (simp add: span_def)
  moreover have "?a \<le> length t" using False by (intro line_starts_le) auto
  ultimately have "?a + chars_in_bytes (column - 1) (span ?a ?b t) \<le> length t" by linarith
  moreover have "offset_at (new_index t) line column = ?a + chars_in_bytes (column - 1) (span ?a ?b t)"
    using False by (simp add: offset_at_def Let_def)
  ultimately show ?thesis by simp
qed (simp add: offset_at_def Let_def)

lemma unit_containing_mem: "unit_containing si offset = Some u \<Longrightarrow> u \<in> set (si_units si) \<and> un_start u \<le> offset \<and> offset < un_end u"
  by (auto simp: unit_containing_def find_Some_iff)

end
