(* ===== verification/Normalize_Engine.thy ===== *)
theory Normalize_Engine
  imports Diagnostics "HOL-Library.Product_Lexorder" "HOL-Library.Sublist"
begin

text \<open>
  The diagnostic-driven normalization loop (\<^verbatim>\<open>compiler/intake/normalize/engine.py\<close>,
  \<^verbatim>\<open>base.py\<close>, \<^verbatim>\<open>representation.py\<close> and \<^verbatim>\<open>blank\<close> of \<^verbatim>\<open>compiler/intake/build.py\<close>). The rules and
  the compiler are arguments, as they are of \<^verbatim>\<open>normalize\<close>: a rule is a function from the context,
  the file and the located diagnostic to a proposal, which may raise and may take fresh names; the
  compiler is a function from the files' texts. Files written to and removed from the work
  directory are not modelled.
\<close>

section \<open>Rules and proposals\<close>

datatype norm_error = EditErr edit_error | MoveNotAlone string | MissingFile string | IndexErr

record rule_spec =
  rs_id :: string
  rs_version :: nat
  rs_level :: string
  rs_codes :: "string list"

record edit =
  ed_file :: string
  ed_start :: nat
  ed_end :: nat
  ed_replacement :: string
  ed_move :: "nat option"

text \<open>The parts of a key tuple.\<close>

datatype key_part = KText string | KNum nat

type_synonym rewrite_key = "key_part list"

record proposal =
  pr_rule :: rule_spec
  pr_key :: rewrite_key
  pr_edits :: "edit list"
  pr_note :: string
  pr_renames :: "(string \<times> string) list"

record rule_context =
  cx_indices :: "(string, source_index) dict"
  cx_identifier_words :: "string list"
  cx_standard_namespaces :: "string list"
  cx_namespaces :: "(string, string list) dict"
  cx_known :: "string list"
  cx_standard :: "string set"

record rewrite_rule =
  rl_spec :: rule_spec
  rl_propose :: "rule_context \<Rightarrow> string \<Rightarrow> located \<Rightarrow> norm_error + proposal option \<times> string list"

subsection \<open>Fresh names\<close>

lemma show_nat_inj: "show_nat m = show_nat n \<Longrightarrow> m = n"
  by (metis read_show_nat)

lemma py_upper_digits: "py_upper (show_nat n) = show_nat n"
proof -
  have "upper_char c = c" if "is_digit c" for c
    using that by (simp add: upper_char_def is_lower_def is_digit_def)
  then show ?thesis by (simp add: map_idI show_nat_digits)
qed

lemma numbered_names_finite: "finite {m. py_upper (stem @ show_nat m) \<in> set known}"
proof -
  have "inj (\<lambda>m. py_upper (stem @ show_nat m))"
    by (rule injI) (simp add: py_upper_digits show_nat_inj)
  then show ?thesis using finite_vimageI [of "set known"] by (simp add: vimage_def)
qed

function fresh_from :: "string list \<Rightarrow> string \<Rightarrow> nat \<Rightarrow> string" where
  "fresh_from known stem n =
     (if py_upper (stem @ show_nat n) \<in> set known then fresh_from known stem (n + 1) else stem @ show_nat n)"
  by pat_completeness auto
termination
proof (relation "measure (\<lambda>(known, stem, n). card {m. n \<le> m \<and> py_upper (stem @ show_nat m) \<in> set known})")
  fix known :: "string list" and stem and n
  assume "py_upper (stem @ show_nat n) \<in> set known"
  then have "n \<in> {m. n \<le> m \<and> py_upper (stem @ show_nat m) \<in> set known}" by blast
  moreover have "n \<notin> {m. n + 1 \<le> m \<and> py_upper (stem @ show_nat m) \<in> set known}" by simp
  ultimately have "{m. n + 1 \<le> m \<and> py_upper (stem @ show_nat m) \<in> set known} \<subset>
      {m. n \<le> m \<and> py_upper (stem @ show_nat m) \<in> set known}"
    by (metis (no_types, lifting) Collect_mono add_leD1 psubsetI)
  then show "((known, stem, n + 1), (known, stem, n))
      \<in> measure (\<lambda>(known, stem, n). card {m. n \<le> m \<and> py_upper (stem @ show_nat m) \<in> set known})"
    by (auto intro!: psubset_card_mono finite_subset [OF _ numbered_names_finite])
qed simp

declare fresh_from.simps [simp del]

definition fresh_name :: "string list \<Rightarrow> string \<Rightarrow> string \<Rightarrow> string \<times> string list" where
  "fresh_name known base ending =
     (let candidate = (if py_upper (base @ ending) \<in> set known then fresh_from known (base @ ending) 2
                       else base @ ending)
      in (candidate, py_upper candidate # known))"

section \<open>Blanking and rebinding\<close>

definition blank_span :: "string \<Rightarrow> nat \<times> nat \<Rightarrow> string" where
  "blank_span cs se = map (\<lambda>(i, c). if fst se \<le> i \<and> i < snd se \<and> c \<noteq> newline \<and> c \<noteq> CHR 0x0D then CHR '' '' else c)
     (enumerate 0 cs)"

definition blank :: "string \<Rightarrow> (nat \<times> nat) list \<Rightarrow> string" where
  "blank text spans = foldl blank_span text spans"

definition CONVERSION_REBIND :: rule_spec where
  "CONVERSION_REBIND = \<lparr>rs_id = ''representation-conversion-rebind'', rs_version = 1, rs_level = ''representation'',
     rs_codes = []\<rparr>"

fun rebind_from :: "(string, string) dict \<Rightarrow> lossless_token list \<Rightarrow> (nat \<times> nat \<times> string) list" where
  "rebind_from rebind (t # u # ts) =
     (case (if is_word t \<and> lt_text u = ''('' then dget rebind (upper_of t) else None) of
        Some r \<Rightarrow> (lt_start t, lt_end t, r) # rebind_from rebind (u # ts)
      | None \<Rightarrow> rebind_from rebind (u # ts))"
| "rebind_from rebind _ = []"

definition rebind_edits :: "string \<Rightarrow> (string, string) dict \<Rightarrow> (nat \<times> nat \<times> string) list" where
  "rebind_edits text rebind = rebind_from rebind (significant (tokenize_lossless text))"

section \<open>State\<close>

record failure =
  fa_file :: "string option"
  fa_line :: nat
  fa_column :: nat
  fa_code :: string
  fa_construct :: string
  fa_message :: string
  fa_unit :: "string option"
  fa_unit_kind :: "string option"
  fa_stage :: "string option"
  fa_reason :: string

record transformation =
  tr_rule :: rule_spec
  tr_round :: "nat option"
  tr_file :: string
  tr_trigger :: "(string \<times> diagnostic) option"
  tr_original :: "nat \<times> nat"
  tr_replacement :: "string option"
  tr_moved_to :: "nat option"
  tr_note :: string

record round_entry =
  ro_round :: nat
  ro_errors :: nat
  ro_panic :: "string option"
  ro_check :: int
  ro_codegen :: "int option"
  ro_masked :: nat

record norm_state =
  ns_sources :: "(string, editable_source) dict"
  ns_transformations :: "transformation list"
  ns_known :: "string list"
  ns_rounds :: "round_entry list"
  ns_renames :: "(string, string) dict"
  ns_applied :: "rewrite_key list"
  ns_masked :: "(string \<times> nat, failure list) dict"
  ns_remaining :: "failure list"
  ns_panic :: "string option"
  ns_start :: nat

text \<open>
  The arguments of \<^verbatim>\<open>normalize\<close>: the rules, the compiler's check and code generation (with whether
  the IR file exists afterwards) of the written files, the file of a diagnostic's path, and the
  dialect, library and standard names for the rules' context.
\<close>

record norm_env =
  ev_rules :: "rewrite_rule list"
  ev_check :: "(string \<times> string) list \<Rightarrow> compile_result"
  ev_codegen :: "(string \<times> string) list \<Rightarrow> compile_result \<times> bool"
  ev_name :: "string \<Rightarrow> string option"
  ev_identifier_words :: "string list"
  ev_builtin_names :: "string list"
  ev_standard_namespaces :: "string list"
  ev_namespaces :: "(string, string list) dict"
  ev_rebind :: "(string, string) dict"
  ev_compatibility :: "string list"
  ev_stdlib :: "string list"

definition texts_of :: "norm_state \<Rightarrow> (string \<times> string) list" where
  "texts_of st = map (\<lambda>(name, es). (name, src_text es)) (ns_sources st)"

definition indices_of :: "norm_state \<Rightarrow> (string, source_index) dict" where
  "indices_of st = map (\<lambda>(name, text). (name, new_index text)) (texts_of st)"

text \<open>The spans of a file's masked units in the current text.\<close>

definition masked_unit :: "norm_state \<Rightarrow> string \<Rightarrow> st_unit \<Rightarrow> bool" where
  "masked_unit st name u =
     (case dget (ns_sources st) name of
        None \<Rightarrow> False
      | Some es \<Rightarrow> dmem (name, to_original es (un_start u)) (ns_masked st))"

definition mask_spans :: "norm_state \<Rightarrow> string \<Rightarrow> source_index \<Rightarrow> (nat \<times> nat) list" where
  "mask_spans st name si = map (\<lambda>u. (un_start u, un_end u)) (filter (masked_unit st name) (si_units si))"

definition written_files :: "norm_state \<Rightarrow> (string \<times> string) list" where
  "written_files st =
     map (\<lambda>(name, si). (name, blank (si_text si) (mask_spans st name si))) (indices_of st)"

section \<open>Failures\<close>

definition last_chars :: "nat \<Rightarrow> string \<Rightarrow> string" where
  "last_chars n s = drop (length s - n) s"

definition unparsed_failure :: "compile_result \<Rightarrow> string \<Rightarrow> failure option" where
  "unparsed_failure r stage =
     (if cr_returncode r = 0 \<or> errors_of r \<noteq> [] \<or> cr_panic r \<noteq> None then None
      else Some \<lparr>fa_file = None, fa_line = 0, fa_column = 0, fa_code = ''COMPILER_EXIT'',
        fa_construct = ''compiler_failure'',
        fa_message = (let m = last_chars 1000 (strip (cr_output r))
                      in if m \<noteq> [] then m else ''compiler exited with status '' @ show_int (cr_returncode r)),
        fa_unit = None, fa_unit_kind = None, fa_stage = Some stage,
        fa_reason = stage @ '' exited nonzero without a parsed error diagnostic''\<rparr>)"

definition missing_ir :: failure where
  "missing_ir = \<lparr>fa_file = None, fa_line = 0, fa_column = 0, fa_code = ''CODEGEN_MISSING_IR'',
     fa_construct = ''compiler_failure'', fa_message = ''compiler exited successfully without producing LLVM IR'',
     fa_unit = None, fa_unit_kind = None, fa_stage = Some ''codegen'', fa_reason = ''codegen output is missing''\<rparr>"

definition unsupported :: "string \<Rightarrow> located \<Rightarrow> failure" where
  "unsupported name item = (let d = lo_diagnostic item in
     \<lparr>fa_file = Some name, fa_line = dg_line d, fa_column = dg_column d, fa_code = dg_code d,
      fa_construct = lo_construct item, fa_message = take 300 (line_one (dg_message d)),
      fa_unit = map_option qualified_name (lo_unit item), fa_unit_kind = map_option un_kind (lo_unit item),
      fa_stage = None, fa_reason = ''no rule of the dialect profile handles this diagnostic''\<rparr>)"

datatype config_error = ConfigDiagnostic diagnostic | ConfigFailure failure

definition config_failure :: "bool \<Rightarrow> config_error \<Rightarrow> failure" where
  "config_failure codegen c = (case c of
     ConfigFailure f \<Rightarrow> f
   | ConfigDiagnostic d \<Rightarrow>
       \<lparr>fa_file = None, fa_line = dg_line d, fa_column = dg_column d, fa_code = dg_code d,
        fa_construct = ''configuration'', fa_message = line_one (dg_message d), fa_unit = None, fa_unit_kind = None,
        fa_stage = Some (if codegen then ''codegen'' else ''check''),
        fa_reason = ''diagnostic outside the normalized files (compatibility sources)''\<rparr>)"

definition panic_failure :: "string \<Rightarrow> failure" where
  "panic_failure panic =
     \<lparr>fa_file = None, fa_line = 0, fa_column = 0, fa_code = ''PANIC'', fa_construct = ''compiler_panic:'' @ panic,
      fa_message = panic, fa_unit = None, fa_unit_kind = None, fa_stage = None, fa_reason = ''pinned RuSTy panics''\<rparr>"

definition unit_panic_failure :: "string \<Rightarrow> string \<Rightarrow> st_unit \<Rightarrow> failure" where
  "unit_panic_failure panic name u =
     \<lparr>fa_file = Some name, fa_line = un_line u, fa_column = 0, fa_code = ''PANIC'',
      fa_construct = ''compiler_panic:'' @ panic, fa_message = panic, fa_unit = Some (qualified_name u),
      fa_unit_kind = Some (un_kind u), fa_stage = None, fa_reason = ''the pinned RuSTy panics on this unit''\<rparr>"

definition MAX_ROUNDS :: nat where
  "MAX_ROUNDS = 400"

definition round_limit :: failure where
  "round_limit = \<lparr>fa_file = None, fa_line = 0, fa_column = 0, fa_code = ''ROUNDS'', fa_construct = ''round_limit'',
     fa_message = ''no fixpoint after '' @ show_nat MAX_ROUNDS @ '' rounds'', fa_unit = None, fa_unit_kind = None,
     fa_stage = None, fa_reason = ''normalization did not converge''\<rparr>"

section \<open>One round\<close>

subsection \<open>Diagnostics\<close>

definition file_of :: "norm_env \<Rightarrow> diagnostic \<Rightarrow> string option" where
  "file_of env d = (if dg_path d = [] then None else ev_name env (dg_path d))"

definition find_index :: "(string, source_index) dict \<Rightarrow> string \<Rightarrow> source_index" where
  "find_index indices name = (case dget indices name of None \<Rightarrow> new_index [] | Some si \<Rightarrow> si)"

type_synonym placed = "string \<times> located"

text \<open>The errors of the check: those in a normalized file, and the others.\<close>

definition placed_errors :: "norm_env \<Rightarrow> (string, source_index) dict \<Rightarrow> diagnostic list \<Rightarrow> placed list" where
  "placed_errors env indices ds = List.map_filter (\<lambda>d.
     map_option (\<lambda>name. (name, locate d (find_index indices name))) (file_of env d)) ds"

definition check_errors :: "norm_env \<Rightarrow> (string, source_index) dict \<Rightarrow> compile_result \<Rightarrow> placed list \<times> config_error list" where
  "check_errors env indices r =
     (placed_errors env indices (errors_of r),
      map ConfigDiagnostic (filter (\<lambda>d. file_of env d = None) (errors_of r)) @
      (case unparsed_failure r ''check'' of None \<Rightarrow> [] | Some f \<Rightarrow> [ConfigFailure f]))"

definition codegen_errors ::
    "norm_env \<Rightarrow> (string, source_index) dict \<Rightarrow> compile_result \<times> bool \<Rightarrow> placed list \<times> config_error list" where
  "codegen_errors env indices g = (case g of (r, has_ir) \<Rightarrow>
     (placed_errors env indices (filter (\<lambda>d. dg_line d \<noteq> 0) (errors_of r)),
      map ConfigDiagnostic (filter (\<lambda>d. \<not> (file_of env d \<noteq> None \<and> dg_line d \<noteq> 0)) (errors_of r)) @
      (case unparsed_failure r ''codegen'' of None \<Rightarrow> [] | Some f \<Rightarrow> [ConfigFailure f]) @
      (if compile_ok r \<and> \<not> has_ir then [ConfigFailure missing_ir] else [])))"

text \<open>
  What the compiler says of the written files: the check, and the code generation when the check
  reports nothing at all.
\<close>

record round_report =
  rp_check :: compile_result
  rp_codegen :: "(compile_result \<times> bool) option"
  rp_placed :: "placed list"
  rp_config :: "config_error list"
  rp_panic :: "string option"

definition placed_key :: "placed \<Rightarrow> string \<times> nat \<times> string" where
  "placed_key p = (fst p, lo_offset (snd p), dg_code (lo_diagnostic (snd p)))"

definition round_report :: "norm_env \<Rightarrow> norm_state \<Rightarrow> round_report" where
  "round_report env st =
     (let indices = indices_of st; files = written_files st; r = ev_check env files;
          (placed, config) = check_errors env indices r in
      if placed = [] \<and> config = [] \<and> cr_panic r = None then
        (let g = ev_codegen env files; (placed, config) = codegen_errors env indices g
         in \<lparr>rp_check = r, rp_codegen = Some g, rp_placed = sort_key placed_key placed, rp_config = config,
             rp_panic = cr_panic (fst g)\<rparr>)
      else \<lparr>rp_check = r, rp_codegen = None, rp_placed = sort_key placed_key placed, rp_config = config,
            rp_panic = cr_panic r\<rparr>)"

definition round_entry :: "nat \<Rightarrow> norm_state \<Rightarrow> round_report \<Rightarrow> round_entry" where
  "round_entry k st rp =
     \<lparr>ro_round = k, ro_errors = length (rp_placed rp) + length (rp_config rp), ro_panic = rp_panic rp,
      ro_check = cr_returncode (rp_check rp), ro_codegen = map_option (\<lambda>g. cr_returncode (fst g)) (rp_codegen rp),
      ro_masked = length (ns_masked st)\<rparr>"

subsection \<open>Proposals\<close>

definition standard_names :: "norm_env \<Rightarrow> string set" where
  "standard_names env = defined_names (ev_stdlib env) \<union> set (map py_upper (ev_builtin_names env))"

definition context_of :: "norm_env \<Rightarrow> norm_state \<Rightarrow> rule_context" where
  "context_of env st =
     \<lparr>cx_indices = indices_of st, cx_identifier_words = ev_identifier_words env,
      cx_standard_namespaces = ev_standard_namespaces env, cx_namespaces = ev_namespaces env,
      cx_known = ns_known st, cx_standard = standard_names env\<rparr>"

text \<open>The rules in their order, up to the first that proposes something for the diagnostic.\<close>

fun offer :: "rewrite_rule list \<Rightarrow> rule_context \<Rightarrow> placed \<Rightarrow> norm_error + proposal option \<times> string list" where
  "offer [] cx p = Inr (None, cx_known cx)"
| "offer (rw # rules) cx p =
     (if dg_code (lo_diagnostic (snd p)) \<notin> set (rs_codes (rl_spec rw)) then offer rules cx p
      else bindE (rl_propose rw cx (fst p) (snd p)) (\<lambda>(proposed, known).
        case proposed of
          None \<Rightarrow> offer rules (cx\<lparr>cx_known := known\<rparr>) p
        | Some q \<Rightarrow> Inr (Some q, known)))"

type_synonym offered = "proposal \<times> placed"

definition collect_step ::
    "rewrite_rule list \<Rightarrow> rewrite_key list \<Rightarrow> rule_context \<times> offered list \<Rightarrow> placed \<Rightarrow>
     norm_error + rule_context \<times> offered list" where
  "collect_step rules applied s p = (case s of (cx, offered) \<Rightarrow>
     bindE (offer rules cx p) (\<lambda>(proposed, known).
       let cx = cx\<lparr>cx_known := known\<rparr> in
       case proposed of
         None \<Rightarrow> Inr (cx, offered)
       | Some q \<Rightarrow> if pr_key q \<notin> set (map (\<lambda>o'. pr_key (fst o')) offered) \<and> pr_key q \<notin> set applied
                  then Inr (cx, offered @ [(q, p)]) else Inr (cx, offered)))"

definition collect_proposals ::
    "norm_env \<Rightarrow> norm_state \<Rightarrow> placed list \<Rightarrow> norm_error + rule_context \<times> offered list" where
  "collect_proposals env st placed =
     foldE (collect_step (ev_rules env) (ns_applied st)) (context_of env st, []) placed"

subsection \<open>Compatible edits\<close>

text \<open>The text whose coordinates a move changes.\<close>

definition move_range :: "edit \<Rightarrow> nat \<times> nat" where
  "move_range e = (case ed_move e of
     None \<Rightarrow> (ed_start e, ed_end e)
   | Some d \<Rightarrow> (min (ed_start e) d, max (ed_end e) d))"

type_synonym ranges = "(string, (nat \<times> nat) list) dict"

definition ranges_of :: "ranges \<Rightarrow> string \<Rightarrow> (nat \<times> nat) list" where
  "ranges_of rs file = (case dget rs file of None \<Rightarrow> [] | Some l \<Rightarrow> l)"

definition add_range :: "ranges \<Rightarrow> string \<Rightarrow> nat \<times> nat \<Rightarrow> ranges" where
  "add_range rs file r = dset file (ranges_of rs file @ [r]) rs"

definition touches :: "nat \<times> nat \<Rightarrow> nat \<times> nat \<Rightarrow> bool" where
  "touches a b = (\<not> (snd a < fst b \<or> snd b < fst a))"

definition clashes :: "nat \<times> nat \<Rightarrow> nat \<times> nat \<Rightarrow> bool" where
  "clashes a b = (\<not> (snd a \<le> fst b \<or> snd b \<le> fst a) \<or> (fst a = snd a \<and> snd a = fst b))"

definition edit_span :: "edit \<Rightarrow> nat \<times> nat" where
  "edit_span e = (ed_start e, ed_end e)"

definition accept_step ::
    "ranges \<times> ranges \<times> offered list \<Rightarrow> offered \<Rightarrow> norm_error + ranges \<times> ranges \<times> offered list" where
  "accept_step s p = (case s of (taken, moving, accepted) \<Rightarrow>
     let edits = pr_edits (fst p) in
     if \<exists>e \<in> set edits. ed_move e \<noteq> None then
       (case edits of
          [e] \<Rightarrow>
            if ranges_of taken (ed_file e) \<noteq> [] \<or> (\<exists>r \<in> set (ranges_of moving (ed_file e)). touches (move_range e) r)
            then Inr s
            else Inr (taken, add_range moving (ed_file e) (move_range e), accepted @ [p])
        | _ \<Rightarrow> Inl (MoveNotAlone (rs_id (pr_rule (fst p)))))
     else if \<exists>e \<in> set edits. dmem (ed_file e) moving then Inr s
     else if \<exists>e \<in> set edits. \<exists>r \<in> set (ranges_of taken (ed_file e)). clashes (edit_span e) r then Inr s
     else Inr (foldl (\<lambda>t e. add_range t (ed_file e) (edit_span e)) taken edits, moving, accepted @ [p]))"

definition non_overlapping :: "offered list \<Rightarrow> norm_error + offered list" where
  "non_overlapping offered = bindE (foldE accept_step ([], [], []) offered) (\<lambda>(_, _, accepted). Inr accepted)"

subsection \<open>Applying edits\<close>

definition transformation_of ::
    "nat \<Rightarrow> offered \<Rightarrow> (string, editable_source) dict \<Rightarrow> edit \<Rightarrow> norm_error + transformation" where
  "transformation_of k p sources e =
     (case dget sources (ed_file e) of
        None \<Rightarrow> Inl (MissingFile (ed_file e))
      | Some es \<Rightarrow>
          (let s = to_original es (ed_start e);
               f = (if ed_start e < ed_end e then to_original es (ed_end e) else s) in
           Inr \<lparr>tr_rule = pr_rule (fst p), tr_round = Some k, tr_file = ed_file e,
                tr_trigger = Some (fst (snd p), lo_diagnostic (snd (snd p))), tr_original = (s, f),
                tr_replacement = (if ed_move e = None then Some (ed_replacement e) else None),
                tr_moved_to = map_option (to_original es) (ed_move e), tr_note = pr_note (fst p)\<rparr>))"

definition transformations_of ::
    "nat \<Rightarrow> (string, editable_source) dict \<Rightarrow> offered list \<Rightarrow> norm_error + transformation list" where
  "transformations_of k sources accepted =
     bindE (mapE (\<lambda>p. mapE (transformation_of k p sources) (pr_edits (fst p))) accepted) (\<lambda>ts. Inr (concat ts))"

text \<open>\<open>sorted(xs, key=f, reverse=True)\<close>: descending, equal elements in their order.\<close>

definition sort_descending :: "('a \<Rightarrow> 'k :: linorder) \<Rightarrow> 'a list \<Rightarrow> 'a list" where
  "sort_descending f xs = rev (sort_key f (rev xs))"

definition owned_edits :: "string \<Rightarrow> offered list \<Rightarrow> (edit \<times> string) list" where
  "owned_edits name accepted =
     filter (\<lambda>e. ed_file (fst e) = name)
       (concat (map (\<lambda>p. map (\<lambda>e. (e, rs_id (pr_rule (fst p)))) (pr_edits (fst p))) accepted))"

definition replace_step :: "editable_source \<Rightarrow> edit \<times> string \<Rightarrow> edit_error + editable_source" where
  "replace_step es e = replace es (ed_start (fst e)) (ed_end (fst e)) (ed_replacement (fst e)) (snd e)"

definition move_step :: "editable_source \<Rightarrow> edit \<times> string \<Rightarrow> edit_error + editable_source" where
  "move_step es e = (case ed_move (fst e) of
     None \<Rightarrow> Inr es | Some d \<Rightarrow> move es (ed_start (fst e)) (ed_end (fst e)) d (snd e))"

definition apply_edits :: "editable_source \<Rightarrow> (edit \<times> string) list \<Rightarrow> edit_error + editable_source" where
  "apply_edits es owned =
     (let moves = filter (\<lambda>e. ed_move (fst e) \<noteq> None) owned in
      if moves \<noteq> [] then foldE move_step es (sort_descending (\<lambda>e. move_range (fst e)) moves)
      else foldE replace_step es (sort_descending (\<lambda>e. edit_span (fst e)) owned))"

definition apply_file ::
    "offered list \<Rightarrow> string \<times> editable_source \<Rightarrow> norm_error + string \<times> editable_source" where
  "apply_file accepted src =
     (case apply_edits (snd src) (owned_edits (fst src) accepted) of
        Inl err \<Rightarrow> Inl (EditErr err)
      | Inr es \<Rightarrow> Inr (fst src, es))"

subsection \<open>Panics of the compiler\<close>

text \<open>The units that are not masked, in the order of the search.\<close>

definition active_units :: "norm_state \<Rightarrow> (string \<times> st_unit) list" where
  "active_units st =
     concat (map (\<lambda>(name, si). map (Pair name)
         (filter (\<lambda>u. (un_start u, un_end u) \<notin> set (mask_spans st name si)) (si_units si)))
       (sort_key fst (indices_of st)))"

text \<open>The files with the units from index \<open>k\<close> on blanked as well.\<close>

definition blanked_from :: "norm_state \<Rightarrow> nat \<Rightarrow> (string \<times> string) list" where
  "blanked_from st k =
     (let gone = drop k (active_units st) in
      map (\<lambda>(name, si). (name, blank (si_text si)
        (mask_spans st name si @ map (\<lambda>(n, u). (un_start u, un_end u)) (filter (\<lambda>(n, u). n = name) gone))))
       (indices_of st))"

definition panics_at :: "norm_env \<Rightarrow> norm_state \<Rightarrow> nat \<Rightarrow> bool" where
  "panics_at env st k = (cr_panic (ev_check env (blanked_from st k)) \<noteq> None)"

function bisect :: "(nat \<Rightarrow> bool) \<Rightarrow> nat \<Rightarrow> nat \<Rightarrow> nat" where
  "bisect panics low high =
     (if low + 1 < high then
        (let middle = (low + high) div 2
         in if panics middle then bisect panics low middle else bisect panics middle high)
      else high - 1)"
  by pat_completeness auto
termination by (relation "measure (\<lambda>(p, low, high). high - low)") auto

declare bisect.simps [simp del]

definition panic_culprit :: "norm_env \<Rightarrow> norm_state \<Rightarrow> nat option" where
  "panic_culprit env st =
     (let n = length (active_units st) in
      if n = 0 \<or> \<not> panics_at env st n then None else Some (bisect (panics_at env st) (ns_start st) n))"

subsection \<open>Masks\<close>

definition unit_mask_key :: "norm_state \<Rightarrow> string \<Rightarrow> st_unit \<Rightarrow> string \<times> nat" where
  "unit_mask_key st name u =
     (case dget (ns_sources st) name of
        None \<Rightarrow> (name, un_start u)
      | Some es \<Rightarrow> (name, to_original es (un_start u)))"

definition add_mask ::
    "norm_state \<Rightarrow> (string \<times> nat, failure list) dict \<Rightarrow> placed \<times> failure \<Rightarrow> (string \<times> nat, failure list) dict" where
  "add_mask st masks pf =
     (case lo_unit (snd (fst pf)) of
        None \<Rightarrow> masks
      | Some u \<Rightarrow>
          (let key = unit_mask_key st (fst (fst pf)) u
           in dset key ((case dget masks key of None \<Rightarrow> [] | Some l \<Rightarrow> l) @ [snd pf]) masks))"

definition unit_masks :: "norm_state \<Rightarrow> placed list \<Rightarrow> failure list \<Rightarrow> (string \<times> nat, failure list) dict" where
  "unit_masks st placed records = foldl (add_mask st) [] (zip placed records)"

definition new_masks ::
    "norm_state \<Rightarrow> (string \<times> nat, failure list) dict \<Rightarrow> (string \<times> nat, failure list) dict" where
  "new_masks st masks = filter (\<lambda>(k, _). \<not> dmem k (ns_masked st)) masks"

subsection \<open>The round\<close>

datatype outcome = Stop norm_state | Go norm_state

definition mask_or_stop :: "norm_state \<Rightarrow> (string \<times> nat, failure list) dict \<Rightarrow> outcome" where
  "mask_or_stop st masks =
     (let fresh = new_masks st masks in
      if fresh = [] then Stop st else Go (st\<lparr>ns_masked := dupdate (ns_masked st) fresh\<rparr>))"

definition no_proposals :: "norm_env \<Rightarrow> round_report \<Rightarrow> norm_state \<Rightarrow> outcome" where
  "no_proposals env rp st =
     (if rp_codegen rp \<noteq> None \<or> rp_config rp \<noteq> [] then Stop st
      else case cr_panic (rp_check rp) of
        Some panic \<Rightarrow>
          (case panic_culprit env st of
             None \<Rightarrow> Stop (st\<lparr>ns_remaining := ns_remaining st @ [panic_failure panic]\<rparr>)
           | Some culprit \<Rightarrow>
               (let (name, u) = active_units st ! culprit
                in mask_or_stop (st\<lparr>ns_start := culprit\<rparr>)
                     [(unit_mask_key st name u, [unit_panic_failure panic name u])]))
      | None \<Rightarrow>
          mask_or_stop (st\<lparr>ns_start := 0\<rparr>) (unit_masks st (rp_placed rp) (ns_remaining st)))"

definition apply_proposals :: "nat \<Rightarrow> offered list \<Rightarrow> norm_state \<Rightarrow> norm_error + norm_state" where
  "apply_proposals k offered st =
     bindE (non_overlapping offered) (\<lambda>accepted.
     bindE (transformations_of k (ns_sources st) accepted) (\<lambda>ts.
     bindE (mapE (apply_file accepted) (ns_sources st)) (\<lambda>sources.
     Inr (st\<lparr>ns_start := 0, ns_applied := ns_applied st @ map (\<lambda>p. pr_key (fst p)) accepted,
            ns_renames := dupdate (ns_renames st) (concat (map (\<lambda>p. pr_renames (fst p)) accepted)),
            ns_transformations := ns_transformations st @ ts, ns_sources := sources\<rparr>))))"

definition norm_round :: "norm_env \<Rightarrow> nat \<Rightarrow> norm_state \<Rightarrow> norm_error + outcome" where
  "norm_round env k st =
     (let rp = round_report env st;
          st1 = st\<lparr>ns_rounds := ns_rounds st @ [round_entry k st rp], ns_panic := rp_panic rp\<rparr> in
      if rp_placed rp = [] \<and> rp_config rp = [] \<and> rp_panic rp = None
      then Inr (Stop (st1\<lparr>ns_remaining := []\<rparr>))
      else bindE (collect_proposals env st (rp_placed rp)) (\<lambda>(cx, offered).
        let st2 = st1\<lparr>ns_known := cx_known cx,
              ns_remaining := map (\<lambda>(name, item). unsupported name item) (rp_placed rp) @
                map (config_failure (rp_codegen rp \<noteq> None)) (rp_config rp)\<rparr> in
        if offered = [] then Inr (no_proposals env rp st2)
        else bindE (apply_proposals k offered st2) (\<lambda>st3. Inr (Go st3))))"

fun norm_rounds :: "norm_env \<Rightarrow> nat \<Rightarrow> nat \<Rightarrow> norm_state \<Rightarrow> norm_error + norm_state" where
  "norm_rounds env 0 k st = Inr (st\<lparr>ns_remaining := ns_remaining st @ [round_limit]\<rparr>)"
| "norm_rounds env (Suc n) k st =
     bindE (norm_round env k st) (\<lambda>out. case out of Stop st' \<Rightarrow> Inr st' | Go st' \<Rightarrow> norm_rounds env n (k + 1) st')"

section \<open>Start and result\<close>

definition rebind_transformation :: "string \<Rightarrow> nat \<times> nat \<times> string \<Rightarrow> transformation" where
  "rebind_transformation name e =
     \<lparr>tr_rule = CONVERSION_REBIND, tr_round = None, tr_file = name, tr_trigger = None,
      tr_original = (fst e, fst (snd e)), tr_replacement = Some (snd (snd e)), tr_moved_to = None, tr_note = []\<rparr>"

definition rebind_file ::
    "(string, string) dict \<Rightarrow> string \<times> string \<Rightarrow> norm_error + (string \<times> editable_source) \<times> transformation list" where
  "rebind_file rebind file =
     (let edits = rev (rebind_edits (snd file) rebind) in
      case foldE (\<lambda>es e. replace es (fst e) (fst (snd e)) (snd (snd e)) (rs_id CONVERSION_REBIND))
             (new_source (snd file)) edits of
        Inl err \<Rightarrow> Inl (EditErr err)
      | Inr es \<Rightarrow> Inr ((fst file, es), map (rebind_transformation (fst file)) edits))"

definition known_names :: "string list \<Rightarrow> string list" where
  "known_names texts = remdups (concat (map (\<lambda>text. map upper_of (filter is_word (tokenize_lossless text))) texts))"

definition initial_state :: "norm_env \<Rightarrow> (string \<times> string) list \<Rightarrow> norm_error + norm_state" where
  "initial_state env files =
     bindE (mapE (rebind_file (ev_rebind env)) files) (\<lambda>rebound.
     Inr \<lparr>ns_sources = map fst rebound,
          ns_transformations = sort_key (\<lambda>t. (tr_file t, fst (tr_original t))) (concat (map snd rebound)),
          ns_known = known_names (map snd files @ ev_compatibility env @ ev_stdlib env) @
                     map (\<lambda>(_, name). py_upper name) (ev_rebind env),
          ns_rounds = [], ns_renames = [], ns_applied = [], ns_masked = [], ns_remaining = [], ns_panic = None,
          ns_start = 0\<rparr>)"

record norm_result =
  nr_sources :: "(string, editable_source) dict"
  nr_transformations :: "transformation list"
  nr_remaining :: "failure list"
  nr_rounds :: "round_entry list"
  nr_panic :: "string option"
  nr_renames :: "(string, string) dict"

definition type_checks :: "norm_result \<Rightarrow> bool" where
  "type_checks r = (nr_remaining r = [] \<and> nr_panic r = None)"

definition texts :: "norm_result \<Rightarrow> (string \<times> string) list" where
  "texts r = map (\<lambda>(name, es). (name, src_text es)) (nr_sources r)"

definition result_of :: "norm_state \<Rightarrow> norm_result" where
  "result_of st =
     \<lparr>nr_sources = ns_sources st, nr_transformations = ns_transformations st,
      nr_remaining = concat (map snd (sort_key fst (ns_masked st))) @ ns_remaining st,
      nr_rounds = ns_rounds st, nr_panic = ns_panic st, nr_renames = ns_renames st\<rparr>"

definition normalize :: "norm_env \<Rightarrow> (string \<times> string) list \<Rightarrow> norm_error + norm_result" where
  "normalize env files =
     bindE (initial_state env files) (\<lambda>st.
     bindE (norm_rounds env MAX_ROUNDS 0 st) (\<lambda>st. Inr (result_of st)))"

section \<open>What the edits of a round do\<close>

text \<open>
  The specification of a round's edits on a text: every edit rewrites the text of its own range, all
  ranges are taken in the original coordinates, and everything between them is kept.
\<close>

fun splice :: "('e \<Rightarrow> nat \<times> nat) \<Rightarrow> ('e \<Rightarrow> string) \<Rightarrow> nat \<Rightarrow> string \<Rightarrow> 'e list \<Rightarrow> string" where
  "splice rng new pos t [] = drop pos t"
| "splice rng new pos t (e # es) = span pos (fst (rng e)) t @ new e @ splice rng new (snd (rng e)) t es"

fun chained :: "('e \<Rightarrow> nat \<times> nat) \<Rightarrow> nat \<Rightarrow> nat \<Rightarrow> 'e list \<Rightarrow> bool" where
  "chained rng pos n [] = (pos \<le> n)"
| "chained rng pos n (e # es) =
     (pos \<le> fst (rng e) \<and> fst (rng e) \<le> snd (rng e) \<and> chained rng (snd (rng e)) n es)"

lemma chained_bound: "chained rng pos n es \<Longrightarrow> pos \<le> n"
  by (induction es arbitrary: pos) fastforce+

lemma take_span: "a \<le> b \<Longrightarrow> take a t @ span a b t = take b t"
  by (simp add: span_def) (metis le_add_diff_inverse take_add)

text \<open>
  The interface of an edit step: it rewrites the text of a range and needs to see nothing behind
  that range. Applied from the last range to the first, such steps do together what each asked for
  in the original coordinates.
\<close>

locale local_editor =
  fixes step :: "editable_source \<Rightarrow> 'e \<Rightarrow> edit_error + editable_source"
    and rng :: "'e \<Rightarrow> nat \<times> nat" and new :: "string \<Rightarrow> 'e \<Rightarrow> string" and valid :: "'e \<Rightarrow> bool"
  assumes step_ok: "\<And>e es. valid e \<Longrightarrow> fst (rng e) \<le> snd (rng e) \<Longrightarrow> snd (rng e) \<le> length (src_text es) \<Longrightarrow>
      \<exists>es'. step es e = Inr es' \<and> original es' = original es \<and>
        src_text es' = take (fst (rng e)) (src_text es) @ new (src_text es) e @ drop (snd (rng e)) (src_text es)"
    and new_local: "\<And>e t u. valid e \<Longrightarrow> fst (rng e) \<le> snd (rng e) \<Longrightarrow> take (snd (rng e)) t = take (snd (rng e)) u \<Longrightarrow> new t e = new u e"
begin

lemma edits_splice:
  assumes "chained rng pos (length (src_text es)) edits" "\<forall>e \<in> set edits. valid e"
  shows "\<exists>es'. foldE step es (rev edits) = Inr es' \<and> original es' = original es \<and>
    src_text es' = take pos (src_text es) @ splice rng (new (src_text es)) pos (src_text es) edits"
  using assms
proof (induction edits arbitrary: pos)
  case Nil
  then show ?case by simp
next
  case (Cons e edits)
  let ?t = "src_text es" and ?a = "fst (rng e)" and ?b = "snd (rng e)"
  have e: "pos \<le> ?a" "?a \<le> ?b" "chained rng ?b (length ?t) edits" "valid e" using Cons.prems by auto
  then have b: "?b \<le> length ?t" using chained_bound by blast
  obtain es1 where es1: "foldE step es (rev edits) = Inr es1" "original es1 = original es"
    "src_text es1 = take ?b ?t @ splice rng (new ?t) ?b ?t edits"
    using Cons.IH [OF e(3)] Cons.prems(2) by auto
  have "take ?b (src_text es1) = take ?b ?t" using b by (simp add: es1(3))
  with e(4,2) have new: "new (src_text es1) e = new ?t e" by (rule new_local)
  have "?b \<le> length (src_text es1)" using b by (simp add: es1(3))
  from step_ok [OF e(4,2) this] obtain es' where es': "step es1 e = Inr es'" "original es' = original es1"
    "src_text es' = take ?a (src_text es1) @ new (src_text es1) e @ drop ?b (src_text es1)" by blast
  have "take ?a (src_text es1) = take pos ?t @ span pos ?a ?t"
    using b e(1,2) by (simp add: es1(3) take_span)
  moreover have "drop ?b (src_text es1) = splice rng (new ?t) ?b ?t edits" using b by (simp add: es1(3))
  ultimately have "src_text es' = take pos ?t @ splice rng (new ?t) pos ?t (e # edits)"
    by (simp add: es'(3) new)
  then show ?case using es1(1,2) es'(1,2) by (simp add: foldE_append)
qed

end

definition replaced_text :: "string \<Rightarrow> edit \<times> string \<Rightarrow> string" where
  "replaced_text t e = ed_replacement (fst e)"

definition moved_text :: "string \<Rightarrow> edit \<times> string \<Rightarrow> string" where
  "moved_text t e = (case ed_move (fst e) of
     None \<Rightarrow> span (ed_start (fst e)) (ed_end (fst e)) t
   | Some d \<Rightarrow> (let s = ed_start (fst e); f = ed_end (fst e) in
       if d \<le> s then span s f t @ span d s t else span f d t @ span s f t))"

definition valid_move :: "edit \<Rightarrow> bool" where
  "valid_move e = (case ed_move e of
     None \<Rightarrow> False
   | Some d \<Rightarrow> ed_start e < ed_end e \<and> \<not> (ed_start e < d \<and> d < ed_end e))"

interpretation replacing: local_editor replace_step "\<lambda>e. edit_span (fst e)" replaced_text "\<lambda>_. True"
proof unfold_locales
  fix e :: "edit \<times> string" and es :: editable_source
  assume "fst (edit_span (fst e)) \<le> snd (edit_span (fst e))"
  then have "replace_step es e \<noteq> Inl err" for err
    by (auto simp: replace_step_def replace_def edit_span_def Let_def split: prod.splits)
  then obtain es' where "replace_step es e = Inr es'" by (cases "replace_step es e") auto
  with replace_text [OF this [unfolded replace_step_def]]
  show "\<exists>es'. replace_step es e = Inr es' \<and> original es' = original es \<and> src_text es' =
      take (fst (edit_span (fst e))) (src_text es) @ replaced_text (src_text es) e @ drop (snd (edit_span (fst e))) (src_text es)"
    by (auto simp: edit_span_def replaced_text_def)
qed (simp add: replaced_text_def)

lemma span_take: "f \<le> n \<Longrightarrow> span s f (take n t) = span s f t"
  by (simp add: span_def drop_take min_def)

lemma moved_text_take:
  assumes "valid_move (fst e)" "snd (move_range (fst e)) \<le> n"
  shows "moved_text (take n t) e = moved_text t e"
  using assms by (auto simp: moved_text_def valid_move_def move_range_def Let_def span_take split: option.splits)

interpretation moving: local_editor move_step "\<lambda>e. move_range (fst e)" moved_text "\<lambda>e. valid_move (fst e)"
proof unfold_locales
  fix e :: "edit \<times> string" and es :: editable_source
  assume v: "valid_move (fst e)" and len: "snd (move_range (fst e)) \<le> length (src_text es)"
  then obtain d where d: "ed_move (fst e) = Some d" "ed_start (fst e) < ed_end (fst e)"
    "\<not> (ed_start (fst e) < d \<and> d < ed_end (fst e))" by (auto simp: valid_move_def split: option.splits)
  let ?s = "ed_start (fst e)" and ?f = "ed_end (fst e)"
  obtain es' where m: "move es ?s ?f d (snd e) = Inr es'"
    using d(3) by (simp add: move_def Let_def)
  have "src_text es' = take (fst (move_range (fst e))) (src_text es) @ moved_text (src_text es) e @
      drop (snd (move_range (fst e))) (src_text es)"
    using move_text [OF m] d by (auto simp: move_range_def moved_text_def Let_def min_def max_def)
  with m d(1) move_pieces(2) [OF m]
  show "\<exists>es'. move_step es e = Inr es' \<and> original es' = original es \<and> src_text es' =
      take (fst (move_range (fst e))) (src_text es) @ moved_text (src_text es) e @
      drop (snd (move_range (fst e))) (src_text es)"
    by (simp add: move_step_def)
next
  fix e :: "edit \<times> string" and t u :: string
  let ?n = "snd (move_range (fst e))"
  assume "valid_move (fst e)"
  then have "moved_text (take ?n v) e = moved_text v e" for v by (rule moved_text_take) simp
  then show "take ?n t = take ?n u \<Longrightarrow> moved_text t e = moved_text u e" by metis
qed

subsection \<open>Accepted edits\<close>

definition separate :: "nat \<times> nat \<Rightarrow> nat \<times> nat \<Rightarrow> bool" where
  "separate a b = ((snd a \<le> fst b \<or> snd b \<le> fst a) \<and> \<not> (a = b \<and> fst a = snd a))"

definition apart :: "nat \<times> nat \<Rightarrow> nat \<times> nat \<Rightarrow> bool" where
  "apart a b = (\<not> touches a b)"

text \<open>What a rule has to respect: edits inside the file's text, a move on its own and not into itself,
  replacements of one proposal on separate spans.\<close>

definition edit_fits :: "nat \<Rightarrow> edit \<Rightarrow> bool" where
  "edit_fits n e = (case ed_move e of
     None \<Rightarrow> ed_start e \<le> ed_end e \<and> ed_end e \<le> n
   | Some d \<Rightarrow> valid_move e \<and> ed_end e \<le> n \<and> d \<le> n)"

definition edits_separate :: "edit list \<Rightarrow> bool" where
  "edits_separate es = sorted_wrt (\<lambda>a b. ed_file a = ed_file b \<longrightarrow> separate (edit_span a) (edit_span b)) es"

definition proposal_ok :: "(string \<times> string) list \<Rightarrow> proposal \<Rightarrow> bool" where
  "proposal_ok files p =
     ((\<forall>e \<in> set (pr_edits p). case dget files (ed_file e) of None \<Rightarrow> False | Some t \<Rightarrow> edit_fits (length t) e) \<and>
      (if \<exists>e \<in> set (pr_edits p). ed_move e \<noteq> None then length (pr_edits p) = 1 else edits_separate (pr_edits p)))"

definition edits_in :: "string \<Rightarrow> offered list \<Rightarrow> edit list" where
  "edits_in f accepted = filter (\<lambda>e. ed_file e = f) (concat (map (\<lambda>p. pr_edits (fst p)) accepted))"

definition file_ok :: "ranges \<Rightarrow> ranges \<Rightarrow> offered list \<Rightarrow> string \<Rightarrow> bool" where
  "file_ok taken moving accepted f =
     ((dmem f moving \<longleftrightarrow> ranges_of moving f \<noteq> []) \<and>
      (if ranges_of moving f = []
       then ranges_of taken f = map edit_span (edits_in f accepted) \<and> (\<forall>e \<in> set (edits_in f accepted). ed_move e = None)
         \<and> sorted_wrt separate (ranges_of taken f)
       else ranges_of taken f = [] \<and> ranges_of moving f = map move_range (edits_in f accepted)
         \<and> (\<forall>e \<in> set (edits_in f accepted). ed_move e \<noteq> None) \<and> sorted_wrt apart (ranges_of moving f)))"

definition accept_ok :: "ranges \<times> ranges \<times> offered list \<Rightarrow> bool" where
  "accept_ok s = (case s of (taken, moving, accepted) \<Rightarrow> \<forall>f. file_ok taken moving accepted f)"

lemma edits_in_Nil [simp]: "edits_in f [] = []"
  by (simp add: edits_in_def)

lemma edits_in_snoc [simp]: "edits_in f (ps @ [p]) = edits_in f ps @ filter (\<lambda>e. ed_file e = f) (pr_edits (fst p))"
  by (simp add: edits_in_def)

lemma ranges_of_add: "ranges_of (add_range rs f r) g = (if g = f then ranges_of rs f @ [r] else ranges_of rs g)"
  by (simp add: ranges_of_def add_range_def dget_dset)

lemma dmem_add_range: "dmem g (add_range rs f r) = (g = f \<or> dmem g rs)"
  by (simp add: add_range_def dmem_iff dget_dset)

lemma ranges_of_add_all:
  "ranges_of (foldl (\<lambda>t e. add_range t (ed_file e) (edit_span e)) rs es) f =
     ranges_of rs f @ map edit_span (filter (\<lambda>e. ed_file e = f) es)"
  by (induction es arbitrary: rs) (auto simp: ranges_of_add)

lemma not_clash_separate: "\<not> clashes a b \<Longrightarrow> separate b a"
  by (auto simp: clashes_def separate_def)

lemma sorted_wrt_append_all:
  "sorted_wrt P xs \<Longrightarrow> sorted_wrt P ys \<Longrightarrow> (\<And>x y. x \<in> set xs \<Longrightarrow> y \<in> set ys \<Longrightarrow> P x y) \<Longrightarrow> sorted_wrt P (xs @ ys)"
  by (simp add: sorted_wrt_append)

lemma edits_separate_file:
  "edits_separate es \<Longrightarrow> sorted_wrt separate (map edit_span (filter (\<lambda>e. ed_file e = f) es))"
  unfolding edits_separate_def sorted_wrt_map
  by (induction es) auto

lemma accept_move_ok:
  assumes ok: "file_ok taken moving accepted f" and mv: "ed_move e \<noteq> None" and p: "pr_edits (fst p) = [e]"
    and free: "ranges_of taken (ed_file e) = []" "\<forall>r \<in> set (ranges_of moving (ed_file e)). \<not> touches (move_range e) r"
  shows "file_ok taken (add_range moving (ed_file e) (move_range e)) (accepted @ [p]) f"
proof (cases "f = ed_file e")
  case True
  have "apart r (move_range e)" if "r \<in> set (ranges_of moving (ed_file e))" for r
    using free(2) that by (auto simp: apart_def touches_def)
  then show ?thesis using ok free True mv unfolding file_ok_def
    by (cases "ranges_of moving f = []") (auto simp: ranges_of_add dmem_add_range p sorted_wrt_append)
next
  case False
  with ok show ?thesis by (auto simp: file_ok_def ranges_of_add dmem_add_range p)
qed

lemma accept_replace_ok:
  assumes ok: "file_ok taken moving accepted f" and nomove: "\<forall>e \<in> set (pr_edits (fst p)). ed_move e = None"
    and own: "edits_separate (pr_edits (fst p))"
    and free: "\<forall>e \<in> set (pr_edits (fst p)). \<not> dmem (ed_file e) moving"
      "\<forall>e \<in> set (pr_edits (fst p)). \<forall>r \<in> set (ranges_of taken (ed_file e)). \<not> clashes (edit_span e) r"
  shows "file_ok (foldl (\<lambda>t e. add_range t (ed_file e) (edit_span e)) taken (pr_edits (fst p))) moving (accepted @ [p]) f"
proof (cases "ranges_of moving f = []")
  case True
  have "sorted_wrt separate (ranges_of taken f @ map edit_span (filter (\<lambda>e. ed_file e = f) (pr_edits (fst p))))"
  proof (rule sorted_wrt_append_all)
    show "sorted_wrt separate (ranges_of taken f)" using ok True by (auto simp: file_ok_def)
    show "sorted_wrt separate (map edit_span (filter (\<lambda>e. ed_file e = f) (pr_edits (fst p))))"
      using own by (rule edits_separate_file)
    show "separate x y" if "x \<in> set (ranges_of taken f)"
        "y \<in> set (map edit_span (filter (\<lambda>e. ed_file e = f) (pr_edits (fst p))))" for x y
      using that free(2) by (auto intro: not_clash_separate)
  qed
  with ok True nomove show ?thesis by (auto simp: file_ok_def ranges_of_add_all)
next
  case False
  then have "filter (\<lambda>e. ed_file e = f) (pr_edits (fst p)) = []"
    using free(1) ok by (auto simp: filter_empty_conv file_ok_def)
  with ok False show ?thesis by (auto simp: file_ok_def ranges_of_add_all)
qed

lemma accept_step_cases:
  assumes "accept_step (taken, moving, accepted) p = Inr s'" and "proposal_ok files (fst p)"
  obtains "s' = (taken, moving, accepted)"
  | e where "pr_edits (fst p) = [e]" "ed_move e \<noteq> None" "ranges_of taken (ed_file e) = []"
      "\<forall>r \<in> set (ranges_of moving (ed_file e)). \<not> touches (move_range e) r"
      "s' = (taken, add_range moving (ed_file e) (move_range e), accepted @ [p])"
  | "\<forall>e \<in> set (pr_edits (fst p)). ed_move e = None" "edits_separate (pr_edits (fst p))"
      "\<forall>e \<in> set (pr_edits (fst p)). \<not> dmem (ed_file e) moving"
      "\<forall>e \<in> set (pr_edits (fst p)). \<forall>r \<in> set (ranges_of taken (ed_file e)). \<not> clashes (edit_span e) r"
      "s' = (foldl (\<lambda>t e. add_range t (ed_file e) (edit_span e)) taken (pr_edits (fst p)), moving, accepted @ [p])"
proof (cases "\<exists>e \<in> set (pr_edits (fst p)). ed_move e \<noteq> None")
  case True
  with assms(2) have "length (pr_edits (fst p)) = 1" by (simp add: proposal_ok_def)
  then obtain e where e: "pr_edits (fst p) = [e]" by (auto simp: length_Suc_conv)
  with True that(1) that(2) [OF e] assms(1) show ?thesis
    by (auto simp: accept_step_def e split: if_splits)
next
  case False
  then have "edits_separate (pr_edits (fst p))" using assms(2) by (simp add: proposal_ok_def)
  with False that(1,3) assms(1) show ?thesis by (auto simp: accept_step_def Let_def split: if_splits)
qed

lemma accept_step_ok:
  assumes "accept_ok s" "proposal_ok files (fst p)" "accept_step s p = Inr s'"
  shows "accept_ok s'"
proof -
  obtain taken moving accepted where s: "s = (taken, moving, accepted)" using prod_cases3 by blast
  have ok: "file_ok taken moving accepted f" for f using assms(1) by (simp add: accept_ok_def s)
  show ?thesis
    using assms(3) [unfolded s] assms(2)
  proof (cases rule: accept_step_cases)
    case 1
    then show ?thesis using assms(1) s by simp
  next
    case (2 e)
    from accept_move_ok [OF ok 2(2,1,3,4)] show ?thesis unfolding accept_ok_def 2(5) split_conv by blast
  next
    case 3
    from accept_replace_ok [OF ok 3(1-4)] show ?thesis unfolding accept_ok_def 3(5) split_conv by blast
  qed
qed

lemma accept_step_subset:
  "accept_step s p = Inr s' \<Longrightarrow> set (snd (snd s')) \<subseteq> insert p (set (snd (snd s)))"
  by (cases s) (auto simp: accept_step_def Let_def split: if_splits list.splits)

lemma accept_step_total:
  assumes "proposal_ok files (fst p)"
  shows "\<exists>s'. accept_step s p = Inr s'"
proof (cases "\<exists>e \<in> set (pr_edits (fst p)). ed_move e \<noteq> None")
  case True
  with assms have "length (pr_edits (fst p)) = 1" by (simp add: proposal_ok_def)
  then obtain e where "pr_edits (fst p) = [e]" by (auto simp: length_Suc_conv)
  with True show ?thesis by (cases s) (auto simp: accept_step_def)
next
  case False
  then show ?thesis by (cases s) (auto simp: accept_step_def Let_def)
qed

lemma accept_steps_total:
  assumes "\<forall>p \<in> set offered. proposal_ok files (fst p)" "accept_ok s"
  shows "\<exists>s'. foldE accept_step s offered = Inr s' \<and> accept_ok s' \<and>
    set (snd (snd s')) \<subseteq> set (snd (snd s)) \<union> set offered"
  using assms
proof (induction offered arbitrary: s)
  case Nil
  then show ?case by simp
next
  case (Cons p offered)
  have p: "proposal_ok files (fst p)" using Cons.prems(1) by simp
  obtain s1 where s1: "accept_step s p = Inr s1" using accept_step_total [OF p] by blast
  have ok: "accept_ok s1" using accept_step_ok [OF Cons.prems(2) p s1] .
  obtain s' where s': "foldE accept_step s1 offered = Inr s'" "accept_ok s'"
    "set (snd (snd s')) \<subseteq> set (snd (snd s1)) \<union> set offered"
    using Cons.IH [OF _ ok] Cons.prems(1) by auto
  show ?case using s1 s' accept_step_subset [OF s1] by auto
qed

lemma accept_ok_Nil: "accept_ok ([], [], [])"
  by (simp add: accept_ok_def file_ok_def ranges_of_def dmem_def)

subsection \<open>The text after a round\<close>

lemma sorted_wrt_insort:
  assumes "sorted_wrt P (x # xs)" "\<And>a b. P a b \<Longrightarrow> P b a"
  shows "sorted_wrt P (insort_key f x xs)"
  using assms(1)
proof (induction xs)
  case (Cons y ys)
  then have "sorted_wrt P (insort_key f x ys)" "P y x" using assms(2) by simp_all
  with Cons.prems show ?case by (auto simp: set_insort_key)
qed simp

lemma sorted_wrt_sort_key:
  assumes "sorted_wrt P xs" "\<And>a b. P a b \<Longrightarrow> P b a"
  shows "sorted_wrt P (sort_key f xs)"
  using assms(1)
proof (induction xs)
  case (Cons x xs)
  then have "sorted_wrt P (x # sort_key f xs)" by simp
  then show ?case using assms(2) by (simp add: sorted_wrt_insort)
qed simp

lemma sorted_wrt_reverse:
  "sorted_wrt P xs \<Longrightarrow> (\<And>a b. P a b \<Longrightarrow> P b a) \<Longrightarrow> sorted_wrt P (rev xs)"
  unfolding sorted_wrt_rev by (erule sorted_wrt_mono_rel [rotated]) blast

lemma separate_sym: "separate a b \<Longrightarrow> separate b a"
  by (auto simp: separate_def)

lemma apart_separate: "fst a \<le> snd a \<Longrightarrow> fst b \<le> snd b \<Longrightarrow> apart a b \<Longrightarrow> separate a b"
  by (cases a; cases b) (auto simp: apart_def touches_def separate_def)

text \<open>Sorted by their ranges, separate ranges follow one another.\<close>

lemma sorted_separate_chained:
  assumes "sorted (map rng es)" "sorted_wrt (\<lambda>a b. separate (rng a) (rng b)) es"
    and "\<forall>e \<in> set es. fst (rng e) \<le> snd (rng e) \<and> snd (rng e) \<le> n" "\<forall>e \<in> set es. pos \<le> fst (rng e)" "pos \<le> n"
  shows "chained rng pos n es"
  using assms
proof (induction es arbitrary: pos)
  case (Cons e es)
  have "snd (rng e) \<le> fst (rng d)" if "d \<in> set es" for d
  proof -
    have "separate (rng e) (rng d)" "rng e \<le> rng d" "fst (rng d) \<le> snd (rng d)" "fst (rng e) \<le> snd (rng e)"
      using Cons.prems(1-3) that by auto
    then show ?thesis by (cases "rng e"; cases "rng d") (auto simp: separate_def)
  qed
  moreover have "snd (rng e) \<le> n" using Cons.prems(3) by simp
  ultimately have "chained rng (snd (rng e)) n es"
    using Cons.prems(1-3) by (intro Cons.IH) simp_all
  then show ?case using Cons.prems(3,4) by simp
qed simp

definition ascending :: "('a \<Rightarrow> 'k :: linorder) \<Rightarrow> 'a list \<Rightarrow> 'a list" where
  "ascending f xs = sort_key f (rev xs)"

lemma sort_descending_ascending: "sort_descending f xs = rev (ascending f xs)"
  by (simp add: sort_descending_def ascending_def)

lemma ascending_chained:
  assumes "sorted_wrt (\<lambda>a b. separate (rng a) (rng b)) es"
    and "\<forall>e \<in> set es. fst (rng e) \<le> snd (rng e) \<and> snd (rng e) \<le> n"
  shows "chained rng 0 n (ascending rng es)"
proof (rule sorted_separate_chained)
  show "sorted (map rng (ascending rng es))" by (simp add: ascending_def)
  have "sorted_wrt (\<lambda>a b. separate (rng a) (rng b)) (rev es)"
    using assms(1) by (rule sorted_wrt_reverse) (rule separate_sym)
  then show "sorted_wrt (\<lambda>a b. separate (rng a) (rng b)) (ascending rng es)"
    unfolding ascending_def by (rule sorted_wrt_sort_key) (rule separate_sym)
qed (use assms(2) in \<open>auto simp: ascending_def\<close>)

text \<open>The text a file's edits of one round ask for.\<close>

definition rewritten :: "string \<Rightarrow> (edit \<times> string) list \<Rightarrow> string" where
  "rewritten t owned =
     (if \<exists>e \<in> set owned. ed_move (fst e) \<noteq> None
      then splice (\<lambda>e. move_range (fst e)) (moved_text t) 0 t (ascending (\<lambda>e. move_range (fst e)) owned)
      else splice (\<lambda>e. edit_span (fst e)) (replaced_text t) 0 t (ascending (\<lambda>e. edit_span (fst e)) owned))"

lemma tagged_fst:
  "map fst (filter (\<lambda>e. ed_file (fst e) = f) (map (\<lambda>e. (e, g)) es)) = filter (\<lambda>e. ed_file e = f) es"
  by (induction es) auto

lemma owned_edits_fst: "map fst (owned_edits f accepted) = edits_in f accepted"
  by (induction accepted) (simp_all add: owned_edits_def edits_in_def tagged_fst)

lemma apply_edits_rewritten:
  assumes ok: "file_ok taken moving accepted f"
    and fits: "\<forall>e \<in> set (edits_in f accepted). edit_fits (length (src_text es)) e"
  shows "\<exists>es'. apply_edits es (owned_edits f accepted) = Inr es' \<and> original es' = original es \<and>
    src_text es' = rewritten (src_text es) (owned_edits f accepted)"
proof -
  let ?o = "owned_edits f accepted"
  have mem: "fst e \<in> set (edits_in f accepted)" if "e \<in> set ?o" for e
    using that unfolding owned_edits_fst [symmetric] by simp
  show ?thesis
  proof (cases "ranges_of moving f = []")
    case True
    then have none: "\<forall>e \<in> set (edits_in f accepted). ed_move e = None"
      and sep: "sorted_wrt separate (map edit_span (map fst ?o))"
      using ok unfolding file_ok_def owned_edits_fst by auto
    have fit: "\<forall>e \<in> set ?o. fst (edit_span (fst e)) \<le> snd (edit_span (fst e)) \<and>
        snd (edit_span (fst e)) \<le> length (src_text es)"
      using fits none mem by (fastforce simp: edit_fits_def edit_span_def)
    have "chained (\<lambda>e. edit_span (fst e)) 0 (length (src_text es)) (ascending (\<lambda>e. edit_span (fst e)) ?o)"
      using sep fit by (intro ascending_chained) (simp_all add: sorted_wrt_map comp_def)
    from replacing.edits_splice [OF this] none mem show ?thesis
      by (fastforce simp: apply_edits_def rewritten_def sort_descending_ascending filter_empty_conv)
  next
    case False
    then have some: "\<forall>e \<in> set (edits_in f accepted). ed_move e \<noteq> None"
      and sep: "sorted_wrt apart (map move_range (map fst ?o))" and ne: "?o \<noteq> []"
      using ok unfolding file_ok_def owned_edits_fst by (auto simp flip: owned_edits_fst)
    have valid: "\<forall>e \<in> set ?o. valid_move (fst e)" and
      fit: "\<forall>e \<in> set ?o. fst (move_range (fst e)) \<le> snd (move_range (fst e)) \<and>
        snd (move_range (fst e)) \<le> length (src_text es)"
      using fits some mem by (fastforce simp: edit_fits_def move_range_def valid_move_def split: option.splits)+
    have "sorted_wrt (\<lambda>a b. separate (move_range (fst a)) (move_range (fst b))) ?o"
      using sep fit unfolding sorted_wrt_map map_map
      by (elim sorted_wrt_mono_rel [rotated]) (simp add: apart_separate)
    then have "chained (\<lambda>e. move_range (fst e)) 0 (length (src_text es)) (ascending (\<lambda>e. move_range (fst e)) ?o)"
      using fit by (rule ascending_chained)
    then obtain es' where es': "foldE move_step es (rev (ascending (\<lambda>e. move_range (fst e)) ?o)) = Inr es'"
      "original es' = original es"
      "src_text es' = splice (\<lambda>e. move_range (fst e)) (moved_text (src_text es)) 0 (src_text es) (ascending (\<lambda>e. move_range (fst e)) ?o)"
      using moving.edits_splice valid by (fastforce simp: ascending_def)
    have all: "filter (\<lambda>e. ed_move (fst e) \<noteq> None) ?o = ?o" using some mem by (auto intro: filter_True)
    have "\<exists>e \<in> set ?o. ed_move (fst e) \<noteq> None" using ne some mem by (cases ?o) auto
    with all es' ne show ?thesis
      by (simp add: apply_edits_def rewritten_def sort_descending_ascending Let_def)
  qed
qed

lemma transformations_total:
  assumes "\<forall>p \<in> set accepted. \<forall>e \<in> set (pr_edits (fst p)). dget sources (ed_file e) \<noteq> None"
  shows "\<exists>ts. transformations_of k sources accepted = Inr ts"
proof -
  have one: "\<exists>ts. mapE (transformation_of k p sources) (pr_edits (fst p)) = Inr ts" if "p \<in> set accepted" for p
  proof -
    have "\<exists>t. transformation_of k p sources e = Inr t" if "e \<in> set (pr_edits (fst p))" for e
    proof -
      have "dget sources (ed_file e) \<noteq> None" using assms \<open>p \<in> set accepted\<close> that by simp
      then obtain es where "dget sources (ed_file e) = Some es" by auto
      then show ?thesis by (simp add: transformation_of_def Let_def)
    qed
    then have "\<exists>ts. mapE (transformation_of k p sources) (pr_edits (fst p)) = Inr ts \<and>
        list_all2 (\<lambda>_ _. True) (pr_edits (fst p)) ts"
      by (intro mapE_all2) simp
    then show ?thesis by blast
  qed
  then have "\<exists>tss. mapE (\<lambda>p. mapE (transformation_of k p sources) (pr_edits (fst p))) accepted = Inr tss \<and>
      list_all2 (\<lambda>_ _. True) accepted tss"
    by (intro mapE_all2) simp
  then show ?thesis by (auto simp: transformations_of_def)
qed

lemma proposal_ok_file:
  assumes "proposal_ok files p" "e \<in> set (pr_edits p)"
  obtains t where "dget files (ed_file e) = Some t" "edit_fits (length t) e"
  using assms that by (cases "dget files (ed_file e)") (auto simp: proposal_ok_def)

lemma dget_texts: "dget (texts_of st) f = map_option src_text (dget (ns_sources st) f)"
proof -
  have "dget (map (\<lambda>(name, es). (name, src_text es)) d) f = map_option src_text (dget d f)" for d
    by (induction d) auto
  then show ?thesis by (simp add: texts_of_def)
qed

definition file_rewritten :: "offered list \<Rightarrow> string \<times> editable_source \<Rightarrow> string \<times> editable_source \<Rightarrow> bool" where
  "file_rewritten accepted src src' =
     (fst src' = fst src \<and> original (snd src') = original (snd src) \<and>
      src_text (snd src') = rewritten (src_text (snd src)) (owned_edits (fst src) accepted))"

lemma apply_files_rewritten:
  assumes "dict_ok sources" and "\<forall>f. \<exists>taken moving. file_ok taken moving accepted f"
    and "\<forall>p \<in> set accepted. proposal_ok (map (\<lambda>(name, es). (name, src_text es)) sources) (fst p)"
  shows "\<exists>sources'. mapE (apply_file accepted) sources = Inr sources' \<and> list_all2 (file_rewritten accepted) sources sources'"
proof (rule mapE_all2)
  fix src assume src: "src \<in> set sources"
  obtain f es where fe: "src = (f, es)" by force
  let ?ts = "map (\<lambda>(name, es). (name, src_text es)) sources"
  have "(f, src_text es) \<in> set ?ts" using src fe by force
  moreover have "distinct (map fst ?ts)" using assms(1) by (simp add: dict_ok_def split_def comp_def)
  ultimately have get: "dget ?ts f = Some (src_text es)" by simp
  have "edit_fits (length (src_text es)) e" if "e \<in> set (edits_in f accepted)" for e
  proof -
    from that obtain p where "p \<in> set accepted" "e \<in> set (pr_edits (fst p))" "ed_file e = f"
      by (auto simp: edits_in_def)
    moreover obtain t where "dget ?ts (ed_file e) = Some t" "edit_fits (length t) e"
      using assms(3) calculation by (blast elim: proposal_ok_file)
    ultimately show ?thesis using get by simp
  qed
  moreover obtain taken moving where "file_ok taken moving accepted f" using assms(2) by blast
  ultimately obtain es' where "apply_edits es (owned_edits f accepted) = Inr es'" "original es' = original es"
    "src_text es' = rewritten (src_text es) (owned_edits f accepted)"
    using apply_edits_rewritten by blast
  then show "\<exists>src'. apply_file accepted src = Inr src' \<and> file_rewritten accepted src src'"
    by (simp add: apply_file_def fe file_rewritten_def)
qed

lemma round_applies:
  assumes "dict_ok (ns_sources st)" "\<forall>p \<in> set offered. proposal_ok (texts_of st) (fst p)"
  shows "\<exists>accepted st'. non_overlapping offered = Inr accepted \<and> set accepted \<subseteq> set offered \<and>
    apply_proposals k offered st = Inr st' \<and>
    list_all2 (file_rewritten accepted) (ns_sources st) (ns_sources st')"
proof -
  obtain taken moving accepted where acc: "foldE accept_step ([], [], []) offered = Inr (taken, moving, accepted)"
    "accept_ok (taken, moving, accepted)" "set accepted \<subseteq> set offered"
    using accept_steps_total [OF assms(2) accept_ok_Nil] by auto
  then have n: "non_overlapping offered = Inr accepted" by (simp add: non_overlapping_def)
  have ok: "\<forall>p \<in> set accepted. proposal_ok (texts_of st) (fst p)" using acc(3) assms(2) by blast
  have "\<forall>p \<in> set accepted. \<forall>e \<in> set (pr_edits (fst p)). dget (ns_sources st) (ed_file e) \<noteq> None"
    using ok by (fastforce simp: dget_texts elim: proposal_ok_file)
  from transformations_total [OF this] obtain ts where ts: "transformations_of k (ns_sources st) accepted = Inr ts" by blast
  have "\<forall>f. \<exists>taken moving. file_ok taken moving accepted f" using acc(2) by (auto simp: accept_ok_def)
  from apply_files_rewritten [OF assms(1) this ok [unfolded texts_of_def]]
  obtain sources' where "mapE (apply_file accepted) (ns_sources st) = Inr sources'"
    "list_all2 (file_rewritten accepted) (ns_sources st) sources'" by blast
  with n ts acc(3) show ?thesis by (simp add: apply_proposals_def)
qed

text \<open>
  (C4) A round of accepted proposals does to every file what its edits say in the coordinates the
  rules saw: when each proposal respects the rule contract (edits inside the current texts, a move on
  its own, replacements on separate spans), choosing the non-overlapping proposals and applying them
  from the end of each file never raises, and the new text of every file is the old one with each
  accepted edit's range rewritten and everything between the ranges kept; the original is untouched.
\<close>

theorem round_edits_rewrite:
  assumes "dict_ok (ns_sources st)" "\<forall>p \<in> set offered. proposal_ok (texts_of st) (fst p)"
  shows "\<exists>accepted st'. non_overlapping offered = Inr accepted \<and> set accepted \<subseteq> set offered \<and>
    apply_proposals k offered st = Inr st' \<and>
    list_all2 (file_rewritten accepted) (ns_sources st) (ns_sources st')"
  using assms by (rule round_applies)

definition demo_rule_spec :: rule_spec where
  "demo_rule_spec = \<lparr>rs_id = ''r'', rs_version = 1, rs_level = ''L1'', rs_codes = [''E007'']\<rparr>"

definition demo_offered :: "nat \<Rightarrow> nat \<Rightarrow> string \<Rightarrow> offered" where
  "demo_offered s e r =
     (\<lparr>pr_rule = demo_rule_spec, pr_key = [KNum s],
       pr_edits = [\<lparr>ed_file = ''f'', ed_start = s, ed_end = e, ed_replacement = r, ed_move = None\<rparr>],
       pr_note = [], pr_renames = []\<rparr>,
      ''f'', \<lparr>lo_diagnostic = \<lparr>dg_severity = ''error'', dg_code = ''E007'', dg_message = [], dg_path = [], dg_line = 0,
          dg_column = 0, dg_end_line = 0, dg_end_column = 0\<rparr>,
        lo_offset = 0, lo_token = None, lo_construct = [], lo_unit = None\<rparr>)"

definition demo_norm_state :: norm_state where
  "demo_norm_state = \<lparr>ns_sources = [(''f'', new_source ''abcdef'')], ns_transformations = [], ns_known = [],
     ns_rounds = [], ns_renames = [], ns_applied = [], ns_masked = [], ns_remaining = [], ns_panic = None, ns_start = 0\<rparr>"

lemma round_edits_rewrite_witness:
  "\<exists>st'. apply_proposals 0 [demo_offered 4 5 ''Y'', demo_offered 1 2 ''XX''] demo_norm_state = Inr st' \<and>
     map (src_text \<circ> snd) (ns_sources st') = [''aXXcdYf'']"
proof -
  let ?offered = "[demo_offered 4 5 ''Y'', demo_offered 1 2 ''XX'']"
  have "dict_ok (ns_sources demo_norm_state)" by (simp add: demo_norm_state_def dict_ok_def)
  moreover have "\<forall>p \<in> set ?offered. proposal_ok (texts_of demo_norm_state) (fst p)"
    by (simp add: demo_norm_state_def texts_of_def demo_offered_def proposal_ok_def edits_separate_def
        edit_fits_def new_source_def src_text_def mk_piece_def)
  ultimately obtain accepted st' where a: "non_overlapping ?offered = Inr accepted"
      "apply_proposals 0 ?offered demo_norm_state = Inr st'"
      "list_all2 (file_rewritten accepted) (ns_sources demo_norm_state) (ns_sources st')"
    using round_edits_rewrite by blast
  have "accepted = ?offered"
    using a(1) by (simp add: non_overlapping_def accept_step_def demo_offered_def ranges_of_def dmem_def
        add_range_def edit_span_def clashes_def)
  moreover have "rewritten ''abcdef'' (owned_edits ''f'' ?offered) = ''aXXcdYf''"
    by code_simp
  moreover obtain src' where "ns_sources st' = [src']" "file_rewritten accepted (''f'', new_source ''abcdef'') src'"
    using a(3) by (auto simp: demo_norm_state_def list_all2_Cons1)
  moreover have "src_text (new_source ''abcdef'') = ''abcdef''" by (simp add: new_source_def src_text_def mk_piece_def)
  ultimately have "map (src_text \<circ> snd) (ns_sources st') = [''aXXcdYf'']"
    unfolding file_rewritten_def by simp
  with a(2) show ?thesis by (intro exI conjI)
qed

section \<open>The search for a panicking unit\<close>

lemma bisect_boundary:
  assumes "panics high" "low < high" "low = start \<or> \<not> panics low" "start \<le> low"
  shows "start \<le> bisect panics low high \<and> bisect panics low high < high \<and> panics (bisect panics low high + 1) \<and>
    (bisect panics low high = start \<or> \<not> panics (bisect panics low high))"
  using assms
proof (induction panics low high rule: bisect.induct)
  case (1 panics low high)
  let ?m = "(low + high) div 2"
  show ?case
  proof (cases "low + 1 < high")
    case True
    then have m: "low < ?m" "?m < high" by linarith+
    show ?thesis
    proof (cases "panics ?m")
      case p: True
      from "1.IH"(1) [OF True refl p p m(1) "1.prems"(3,4)] m(2) True p
      show ?thesis by (simp add: bisect.simps [of panics low high] Let_def)
    next
      case p: False
      from "1.IH"(2) [OF True refl p "1.prems"(1) m(2)] p m(1) "1.prems"(4) True
      show ?thesis by (simp add: bisect.simps [of panics low high] Let_def)
    qed
  next
    case False
    then have "high = low + 1" using "1.prems"(2) by simp
    then show ?thesis using "1.prems" by (simp add: bisect.simps)
  qed
qed

lemma panics_at_beyond: "length (active_units st) \<le> k \<Longrightarrow> panics_at env st k = panics_at env st (length (active_units st))"
  by (simp add: panics_at_def blanked_from_def)

text \<open>
  The search for the unit the compiler panics on is a correct bisection: it reports nothing
  exactly when there is no unit left or the compiler does not panic on all of them; and when it
  names the unit at index \<open>k\<close>, the compiler panics with the units up to and including \<open>k\<close> and, unless
  \<open>k\<close> is 0, does not with the ones before it.
\<close>

theorem panic_culprit_boundary:
  assumes "ns_start st = 0 \<or> \<not> panics_at env st (ns_start st)"
  shows "case panic_culprit env st of
      None \<Rightarrow> active_units st = [] \<or> \<not> panics_at env st (length (active_units st))
    | Some k \<Rightarrow> k < length (active_units st) \<and> panics_at env st (k + 1) \<and> (k = 0 \<or> \<not> panics_at env st k)"
proof (cases "active_units st = [] \<or> \<not> panics_at env st (length (active_units st))")
  case True
  then show ?thesis by (auto simp: panic_culprit_def Let_def)
next
  case False
  let ?n = "length (active_units st)"
  have n: "panics_at env st ?n" "0 < ?n" using False by auto
  have "ns_start st < ?n"
  proof (cases "ns_start st = 0")
    case False
    then have "\<not> panics_at env st (ns_start st)" using assms by simp
    then show ?thesis using n(1) panics_at_beyond by (metis not_le)
  qed (use n(2) in simp)
  from bisect_boundary [of "panics_at env st", OF n(1) this, of "ns_start st"]
  have "bisect (panics_at env st) (ns_start st) ?n < ?n \<and>
      panics_at env st (bisect (panics_at env st) (ns_start st) ?n + 1) \<and>
      (bisect (panics_at env st) (ns_start st) ?n = ns_start st \<or> \<not> panics_at env st (bisect (panics_at env st) (ns_start st) ?n))"
    by blast
  then show ?thesis using assms False by (auto simp: panic_culprit_def Let_def)
qed

definition demo_result :: "string option \<Rightarrow> compile_result" where
  "demo_result panic = \<lparr>cr_returncode = (if panic = None then 0 else 101), cr_diagnostics = [], cr_output = [],
     cr_panic = panic\<rparr>"

text \<open>A compiler that panics on a file that starts with \<open>T\<close>.\<close>

definition demo_norm_env :: norm_env where
  "demo_norm_env =
     \<lparr>ev_rules = [],
      ev_check = (\<lambda>files. demo_result (if \<exists>f \<in> set files. starts_with ''T'' (snd f) then Some ''where'' else None)),
      ev_codegen = (\<lambda>files. (demo_result None, True)), ev_name = (\<lambda>p. None), ev_identifier_words = [],
      ev_builtin_names = [], ev_standard_namespaces = [], ev_namespaces = [], ev_rebind = [], ev_compatibility = [],
      ev_stdlib = []\<rparr>"

lemma panic_culprit_boundary_witness:
  "panic_culprit demo_norm_env (demo_norm_state\<lparr>ns_sources := [(''f'', new_source ''TYPE;'')]\<rparr>) \<noteq> None"
proof -
  let ?st = "demo_norm_state\<lparr>ns_sources := [(''f'', new_source ''TYPE;'')]\<rparr>"
  have units: "length (split_units (tokenize_lossless ''TYPE;'')) = 1" by code_simp
  have indices: "indices_of ?st = [(''f'', new_index ''TYPE;'')]"
    by (simp add: indices_of_def texts_of_def new_source_def src_text_def mk_piece_def)
  have masks: "mask_spans ?st ''f'' (new_index ''TYPE;'') = []"
    by (simp add: mask_spans_def masked_unit_def dmem_def demo_norm_state_def)
  have active: "length (active_units ?st) = 1"
    using units by (simp add: active_units_def indices masks)
  have "blanked_from ?st 1 = [(''f'', ''TYPE;'')]"
    using active by (simp add: blanked_from_def indices masks blank_def)
  then have "panics_at demo_norm_env ?st 1"
    by (simp add: panics_at_def demo_norm_env_def demo_result_def starts_with_def)
  moreover have "ns_start ?st = 0" by (simp add: demo_norm_state_def)
  ultimately show ?thesis
    using panic_culprit_boundary [of ?st demo_norm_env] active by (auto split: option.splits)
qed

section \<open>What a result promises\<close>

lemma blank_none [simp]: "blank t [] = t"
  by (simp add: blank_def)

lemma written_unmasked: "ns_masked st = [] \<Longrightarrow> written_files st = texts_of st"
proof -
  assume "ns_masked st = []"
  then have "mask_spans st name si = []" for name si
    by (simp add: mask_spans_def masked_unit_def dmem_def split: option.splits)
  then show ?thesis by (simp add: written_files_def indices_of_def case_prod_beta comp_def)
qed

lemma placed_errors_Nil: "placed_errors env indices ds = [] \<longleftrightarrow> (\<forall>d \<in> set ds. file_of env d = None)"
  by (induction ds) (auto simp: placed_errors_def List.map_filter_def)

lemma errors_split:
  "placed_errors env indices (filter P ds) = [] \<and> filter (\<lambda>d. \<not> (file_of env d \<noteq> None \<and> P d)) ds = [] \<longleftrightarrow> ds = []"
proof (cases ds)
  case (Cons d ds')
  then have "d \<in> set ds" by simp
  then show ?thesis using Cons by (cases "file_of env d \<noteq> None \<and> P d") (auto simp: placed_errors_Nil filter_empty_conv)
qed (simp add: placed_errors_def)

lemma check_errors_Nil:
  "check_errors env indices r = ([], []) \<longleftrightarrow> errors_of r = [] \<and> unparsed_failure r ''check'' = None"
  using errors_split [of env indices "\<lambda>_. True" "errors_of r"]
  by (cases "unparsed_failure r ''check''") (auto simp: check_errors_def)

lemma codegen_errors_Nil:
  "codegen_errors env indices (r, ir) = ([], []) \<longleftrightarrow>
     errors_of r = [] \<and> unparsed_failure r ''codegen'' = None \<and> (compile_ok r \<longrightarrow> ir)"
proof -
  have "codegen_errors env indices (r, ir) = ([], []) \<longleftrightarrow>
      (placed_errors env indices (filter (\<lambda>d. dg_line d \<noteq> 0) (errors_of r)) = [] \<and>
       filter (\<lambda>d. \<not> (file_of env d \<noteq> None \<and> dg_line d \<noteq> 0)) (errors_of r) = []) \<and>
      unparsed_failure r ''codegen'' = None \<and> (compile_ok r \<longrightarrow> ir)"
    by (cases "unparsed_failure r ''codegen''"; cases ir) (simp_all add: codegen_errors_def conj_ac)
  then show ?thesis by (simp only: errors_split)
qed

lemma unparsed_ok:
  "errors_of r = [] \<Longrightarrow> cr_panic r = None \<Longrightarrow> unparsed_failure r stage = None \<Longrightarrow> compile_ok r"
  by (auto simp: unparsed_failure_def compile_ok_def split: if_splits)

definition clean :: "norm_env \<Rightarrow> (string \<times> string) list \<Rightarrow> bool" where
  "clean env files = (compile_ok (ev_check env files) \<and> compile_ok (fst (ev_codegen env files)) \<and> snd (ev_codegen env files))"

lemma clean_report:
  assumes "rp_placed (round_report env st) = []" "rp_config (round_report env st) = []"
    "rp_panic (round_report env st) = None"
  shows "clean env (written_files st)"
proof -
  let ?r = "ev_check env (written_files st)"
  obtain placed config where c: "check_errors env (indices_of st) ?r = (placed, config)" by force
  obtain g ir where g: "ev_codegen env (written_files st) = (g, ir)" by force
  obtain placed' config' where c': "codegen_errors env (indices_of st) (g, ir) = (placed', config')" by force
  have nil: "sort_key placed_key ps = [] \<longleftrightarrow> ps = []" for ps by (metis length_0_conv length_sort)
  show ?thesis
  proof (cases "placed = [] \<and> config = [] \<and> cr_panic ?r = None")
    case True
    then have r: "compile_ok ?r" using c check_errors_Nil unparsed_ok by metis
    have "placed' = [] \<and> config' = [] \<and> cr_panic g = None"
      using assms True c g c' by (simp add: round_report_def Let_def nil)
    then have "compile_ok g \<and> ir" using c' codegen_errors_Nil unparsed_ok by metis
    with r g show ?thesis by (simp add: clean_def)
  next
    case False
    then show ?thesis using assms c by (auto simp: round_report_def Let_def nil split: if_splits)
  qed
qed

text \<open>What every state of a run keeps: the sources are edits of the original files, under their names
  and in their order; a masked unit has a failure record; no key was applied twice.\<close>

definition run_ok :: "(string \<times> string) list \<Rightarrow> norm_state \<Rightarrow> bool" where
  "run_ok files st =
     (list_all2 (\<lambda>(name, text) (name', es). name' = name \<and> edited text es) files (ns_sources st) \<and>
      (\<forall>(k, l) \<in> set (ns_masked st). l \<noteq> []) \<and> distinct (ns_applied st))"

lemma edited_steps:
  assumes "foldE step es xs = Inr es'" "edited s es"
    and "\<And>es x es'. edited s es \<Longrightarrow> step es x = Inr es' \<Longrightarrow> edited s es'"
  shows "edited s es'"
  using assms(1) by (rule foldE_invariant [where I = "edited s"]) (use assms(2,3) in auto)

lemma edited_replace_step: "edited s es \<Longrightarrow> replace_step es e = Inr es' \<Longrightarrow> edited s es'"
  by (auto simp: replace_step_def intro: edited.replaced)

lemma edited_move_step: "edited s es \<Longrightarrow> move_step es e = Inr es' \<Longrightarrow> edited s es'"
  by (auto simp: move_step_def intro: edited.moved split: option.splits)

lemma edited_apply:
  assumes "apply_edits es owned = Inr es'" "edited s es"
  shows "edited s es'"
proof (cases "filter (\<lambda>e. ed_move (fst e) \<noteq> None) owned = []")
  case True
  with assms(1) have "foldE replace_step es (sort_descending (\<lambda>e. edit_span (fst e)) owned) = Inr es'"
    by (simp add: apply_edits_def)
  then show ?thesis using assms(2) edited_replace_step by (rule edited_steps)
next
  case False
  with assms(1) have "foldE move_step es (sort_descending (\<lambda>e. move_range (fst e))
      (filter (\<lambda>e. ed_move (fst e) \<noteq> None) owned)) = Inr es'"
    by (simp add: apply_edits_def)
  then show ?thesis using assms(2) edited_move_step by (rule edited_steps)
qed

lemma apply_files_edited:
  assumes "mapE (apply_file accepted) sources = Inr sources'"
    and "list_all2 (\<lambda>(name, text) (name', es). name' = name \<and> edited text es) files sources"
  shows "list_all2 (\<lambda>(name, text) (name', es). name' = name \<and> edited text es) files sources'"
  using mapE_Inr_all2 [OF assms(1)] assms(2)
proof (induction sources sources' arbitrary: files rule: list_all2_induct)
  case Nil
  then show ?case by simp
next
  case (Cons src sources src' sources')
  obtain name t rest where f: "files = (name, t) # rest"
    using Cons.prems by (cases files) auto
  have "fst src' = name \<and> edited t (snd src')"
    using Cons.hyps(1) Cons.prems f edited_apply by (fastforce simp: apply_file_def split: sum.splits)
  with Cons.IH [of rest] Cons.prems f show ?case by (auto simp: case_prod_beta)
qed

lemma accepted_subseq:
  assumes "foldE accept_step (t, m, acc) offered = Inr (t', m', acc')"
  shows "\<exists>chosen. acc' = acc @ chosen \<and> subseq chosen offered"
  using assms
proof (induction offered arbitrary: t m acc)
  case Nil
  then show ?case by simp
next
  case (Cons p offered)
  obtain t1 m1 acc1 where s: "accept_step (t, m, acc) p = Inr (t1, m1, acc1)"
    "foldE accept_step (t1, m1, acc1) offered = Inr (t', m', acc')"
    using Cons.prems by (auto simp: bindE_eq_Inr)
  have "acc1 = acc \<or> acc1 = acc @ [p]"
    using s(1) by (auto simp: accept_step_def Let_def split: if_splits list.splits)
  moreover obtain chosen where "acc' = acc1 @ chosen" "subseq chosen offered" using Cons.IH [OF s(2)] by blast
  ultimately show ?case by (metis append.assoc append_Cons append_Nil subseq_Cons2 list_emb_Cons)
qed

lemma collect_step_keys:
  assumes "collect_step rules applied (cx, offered) p = Inr (cx', offered')"
    and "distinct (map (\<lambda>o'. pr_key (fst o')) offered @ applied)"
  shows "distinct (map (\<lambda>o'. pr_key (fst o')) offered' @ applied)"
proof -
  obtain proposed known where "offer rules cx p = Inr (proposed, known)"
    using assms(1) by (auto simp: collect_step_def bindE_eq_Inr)
  with assms show ?thesis
    by (cases proposed) (force simp: collect_step_def Let_def split: if_splits)+
qed

lemma distinct_subseq: "subseq xs ys \<Longrightarrow> distinct ys \<Longrightarrow> distinct xs \<and> set xs \<subseteq> set ys"
  by (induction rule: list_emb.induct) auto

lemma collected_keys:
  assumes "collect_proposals env st placed = Inr (cx, offered)" "distinct (ns_applied st)"
  shows "distinct (map (\<lambda>o'. pr_key (fst o')) offered @ ns_applied st)"
proof -
  have "distinct (map (\<lambda>o'. pr_key (fst o')) (snd (cx, offered)) @ ns_applied st)"
    using assms(1) unfolding collect_proposals_def
    by (rule foldE_invariant [where I = "\<lambda>s. distinct (map (\<lambda>o'. pr_key (fst o')) (snd s) @ ns_applied st)"])
       (use assms(2) collect_step_keys in \<open>fastforce+\<close>)
  then show ?thesis by simp
qed

lemma apply_proposals_run_ok:
  assumes "apply_proposals k offered st = Inr st'" "run_ok files st"
    and "distinct (map (\<lambda>o'. pr_key (fst o')) offered @ ns_applied st)"
  shows "run_ok files st'"
proof -
  obtain accepted ts sources where a: "non_overlapping offered = Inr accepted"
    "mapE (apply_file accepted) (ns_sources st) = Inr sources"
    "st' = st\<lparr>ns_start := 0, ns_applied := ns_applied st @ map (\<lambda>p. pr_key (fst p)) accepted,
            ns_renames := dupdate (ns_renames st) (concat (map (\<lambda>p. pr_renames (fst p)) accepted)),
            ns_transformations := ns_transformations st @ ts, ns_sources := sources\<rparr>"
    using assms(1) by (auto simp: apply_proposals_def bindE_eq_Inr)
  obtain t m where "foldE accept_step ([], [], []) offered = Inr (t, m, accepted)"
    using a(1) by (auto simp: non_overlapping_def bindE_eq_Inr)
  then have sub: "subseq accepted offered" using accepted_subseq by fastforce
  then have "subseq (map (\<lambda>p. pr_key (fst p)) accepted) (map (\<lambda>p. pr_key (fst p)) offered)" by (rule subseq_map)
  then have "distinct (map (\<lambda>p. pr_key (fst p)) accepted) \<and>
      set (map (\<lambda>p. pr_key (fst p)) accepted) \<subseteq> set (map (\<lambda>p. pr_key (fst p)) offered)"
    using assms(3) distinct_subseq by (meson distinct_append)
  then have "distinct (ns_applied st @ map (\<lambda>p. pr_key (fst p)) accepted)"
    using assms(3) by auto
  moreover have "list_all2 (\<lambda>(name, text) (name', es). name' = name \<and> edited text es) files sources"
    using a(2) assms(2) by (auto simp: run_ok_def intro: apply_files_edited)
  ultimately show ?thesis using assms(2) by (simp add: run_ok_def a(3))
qed

definition outcome_state :: "outcome \<Rightarrow> norm_state" where
  "outcome_state out = (case out of Stop st \<Rightarrow> st | Go st \<Rightarrow> st)"

lemma dupdate_mem: "e \<in> set (dupdate d kvs) \<Longrightarrow> e \<in> set d \<or> e \<in> set kvs"
proof (induction kvs arbitrary: d)
  case (Cons kv kvs)
  then show ?case using dset_mem [of e "fst kv" "snd kv" d] by (cases kv) auto
qed simp

lemma mask_or_stop_run_ok:
  assumes "run_ok files st" "\<forall>(k, l) \<in> set masks. l \<noteq> []"
  shows "run_ok files (outcome_state (mask_or_stop st masks))"
proof -
  have "\<forall>(k, l) \<in> set (dupdate (ns_masked st) (new_masks st masks)). l \<noteq> []"
    using assms dupdate_mem [of _ "ns_masked st" "new_masks st masks"]
    by (fastforce simp: run_ok_def new_masks_def)
  then show ?thesis using assms(1) by (simp add: mask_or_stop_def Let_def outcome_state_def run_ok_def)
qed

lemma add_masks_nonempty:
  "\<forall>(k, l) \<in> set masks. l \<noteq> [] \<Longrightarrow> \<forall>(k, l) \<in> set (foldl (add_mask st) masks pfs). l \<noteq> []"
proof (induction pfs arbitrary: masks)
  case (Cons pf pfs)
  have "\<forall>(k, l) \<in> set (add_mask st masks pf). l \<noteq> []"
  proof (cases "lo_unit (snd (fst pf))")
    case (Some u)
    then show ?thesis using Cons.prems by (auto simp: add_mask_def Let_def dest!: dset_mem)
  qed (use Cons.prems in \<open>simp add: add_mask_def\<close>)
  then show ?case using Cons.IH by simp
qed simp

lemma unit_masks_nonempty: "\<forall>(k, l) \<in> set (unit_masks st placed records). l \<noteq> []"
  unfolding unit_masks_def by (rule add_masks_nonempty) simp

lemma no_proposals_run_ok:
  assumes "run_ok files st"
  shows "run_ok files (outcome_state (no_proposals env rp st))"
proof -
  have same: "run_ok files (st\<lparr>ns_start := n\<rparr>)" "run_ok files (st\<lparr>ns_remaining := l\<rparr>)" for n l
    using assms by (simp_all add: run_ok_def)
  show ?thesis
    using mask_or_stop_run_ok [OF same(1)] unit_masks_nonempty assms same(2)
    by (auto simp: no_proposals_def Let_def outcome_state_def split: option.splits prod.splits)
qed

lemma norm_round_run_ok:
  assumes "norm_round env k st = Inr out" "run_ok files st"
  shows "run_ok files (outcome_state out)"
proof -
  let ?rp = "round_report env st"
  define st1 where "st1 = st\<lparr>ns_rounds := ns_rounds st @ [round_entry k st ?rp], ns_panic := rp_panic ?rp\<rparr>"
  have ok1: "run_ok files st1" using assms(2) by (simp add: run_ok_def st1_def)
  show ?thesis
  proof (cases "rp_placed ?rp = [] \<and> rp_config ?rp = [] \<and> rp_panic ?rp = None")
    case True
    then have "out = Stop (st1\<lparr>ns_remaining := []\<rparr>)" using assms(1) by (simp add: norm_round_def Let_def st1_def)
    then show ?thesis using ok1 by (simp add: outcome_state_def run_ok_def)
  next
    case False
    then obtain cx offered where c: "collect_proposals env st (rp_placed ?rp) = Inr (cx, offered)"
      using assms(1) by (auto simp: norm_round_def Let_def bindE_eq_Inr simp del: not_None_eq)
    define st2 where "st2 = st1\<lparr>ns_known := cx_known cx,
        ns_remaining := map (\<lambda>(name, item). unsupported name item) (rp_placed ?rp) @
          map (config_failure (rp_codegen ?rp \<noteq> None)) (rp_config ?rp)\<rparr>"
    have ok2: "run_ok files st2" using ok1 by (simp add: run_ok_def st2_def)
    have step: "(if offered = [] then Inr (no_proposals env ?rp st2)
        else bindE (apply_proposals k offered st2) (\<lambda>st3. Inr (Go st3))) = Inr out"
      using assms(1) False by (auto simp: norm_round_def Let_def c st2_def st1_def simp del: not_None_eq)
    show ?thesis
    proof (cases "offered = []")
      case True
      then show ?thesis using step no_proposals_run_ok [OF ok2] by auto
    next
      case False
      then obtain st3 where st3: "apply_proposals k offered st2 = Inr st3" "out = Go st3"
        using step by (auto simp: bindE_eq_Inr)
      have "distinct (map (\<lambda>o'. pr_key (fst o')) offered @ ns_applied st2)"
        using collected_keys [OF c] assms(2) by (simp add: st2_def st1_def run_ok_def)
      from apply_proposals_run_ok [OF st3(1) ok2 this] st3(2) show ?thesis by (simp add: outcome_state_def)
    qed
  qed
qed

lemma norm_rounds_run_ok:
  "norm_rounds env n k st = Inr st' \<Longrightarrow> run_ok files st \<Longrightarrow> run_ok files st'"
proof (induction n arbitrary: k st)
  case 0
  then show ?case by (auto simp: run_ok_def)
next
  case (Suc n)
  then obtain out where out: "norm_round env k st = Inr out" by (auto simp: bindE_eq_Inr)
  have "run_ok files (outcome_state out)" using norm_round_run_ok [OF out Suc.prems(2)] .
  then show ?case using Suc out by (cases out) (auto simp: outcome_state_def)
qed

lemma rebind_file_edited:
  assumes "rebind_file rebind (name, t) = Inr (src, ts)"
  shows "fst src = name \<and> edited t (snd src)"
proof -
  obtain es where es: "foldE (\<lambda>es e. replace es (fst e) (fst (snd e)) (snd (snd e)) (rs_id CONVERSION_REBIND))
      (new_source t) (rev (rebind_edits t rebind)) = Inr es" "src = (name, es)"
    using assms by (auto simp: rebind_file_def Let_def split: sum.splits)
  have "edited t es"
    by (rule edited_steps [OF es(1) edited.fresh]) (auto intro: edited.replaced)
  then show ?thesis by (simp add: es(2))
qed

lemma initial_run_ok:
  assumes "initial_state env files = Inr st"
  shows "run_ok files st"
proof -
  obtain rebound where r: "mapE (rebind_file (ev_rebind env)) files = Inr rebound" "ns_sources st = map fst rebound"
    "ns_masked st = []" "ns_applied st = []"
    using assms by (auto simp: initial_state_def bindE_eq_Inr)
  from mapE_Inr_all2 [OF r(1)]
  have "list_all2 (\<lambda>(name, t) src. fst src = name \<and> edited t (snd src)) files (map fst rebound)"
    by (simp add: list_all2_conv_all_nth case_prod_beta) (metis prod.collapse rebind_file_edited)
  then have "list_all2 (\<lambda>(name, t) (name', es). name' = name \<and> edited t es) files (map fst rebound)"
    by (rule list_all2_mono) auto
  then show ?thesis by (simp add: run_ok_def r)
qed

text \<open>
  Normalization is a sequence of recorded edits: when it returns, the result has the given files
  in their order, each an edit of its own original text and of nothing else, so that every offset of
  a normalized text maps to an offset of that original.
\<close>

theorem normalize_keeps_originals:
  assumes "normalize env files = Inr r"
  shows "list_all2 (\<lambda>(name, original_text) (name', es). name' = name \<and> edited original_text es \<and>
      original es = original_text \<and> (\<forall>offset. to_original es offset \<le> length original_text))
    files (nr_sources r)"
proof -
  obtain st0 st where st: "initial_state env files = Inr st0" "norm_rounds env MAX_ROUNDS 0 st0 = Inr st" "r = result_of st"
    using assms by (auto simp: normalize_def bindE_eq_Inr)
  have "run_ok files st" using norm_rounds_run_ok [OF st(2) initial_run_ok [OF st(1)]] .
  then have "list_all2 (\<lambda>(name, t) (name', es). name' = name \<and> edited t es) files (nr_sources r)"
    by (simp add: run_ok_def st(3) result_of_def)
  then show ?thesis
    by (rule list_all2_mono) (auto dest: edited_ok to_original_le)
qed

lemma stop_clean:
  assumes "norm_round env k st = Inr (Stop st')" "ns_remaining st' = []" "ns_panic st' = None"
  shows "clean env (written_files st) \<and> ns_sources st' = ns_sources st \<and> ns_masked st' = ns_masked st"
proof (cases "rp_placed (round_report env st) = [] \<and> rp_config (round_report env st) = [] \<and> rp_panic (round_report env st) = None")
  case True
  then show ?thesis using assms(1) clean_report [of env st] by (auto simp: norm_round_def Let_def)
next
  case False
  let ?rp = "round_report env st"
  obtain cx offered where c: "collect_proposals env st (rp_placed ?rp) = Inr (cx, offered)"
    using assms(1) False by (auto simp: norm_round_def Let_def bindE_eq_Inr simp del: not_None_eq)
  define st2 where "st2 = st\<lparr>ns_rounds := ns_rounds st @ [round_entry k st ?rp], ns_panic := rp_panic ?rp,
      ns_known := cx_known cx,
      ns_remaining := map (\<lambda>(name, item). unsupported name item) (rp_placed ?rp) @
        map (config_failure (rp_codegen ?rp \<noteq> None)) (rp_config ?rp)\<rparr>"
  have "(if offered = [] then Inr (no_proposals env ?rp st2)
      else bindE (apply_proposals k offered st2) (\<lambda>st3. Inr (Go st3))) = Inr (Stop st')"
    using assms(1) False by (auto simp: norm_round_def Let_def c st2_def simp del: not_None_eq)
  then have "no_proposals env ?rp st2 = Stop st'" by (auto split: if_splits simp: bindE_eq_Inr)
  then have keep: "(\<exists>l. ns_remaining st' = ns_remaining st2 @ l) \<and> ns_panic st' = ns_panic st2"
    by (auto simp: no_proposals_def mask_or_stop_def Let_def split: if_splits option.splits prod.splits)
  then have "rp_placed ?rp = []" "rp_config ?rp = []" "rp_panic ?rp = None"
    using assms(2,3) by (auto simp: st2_def)
  with False show ?thesis by simp
qed

text \<open>
  (C9) A result that type checks is one the compiler accepts as it is returned: no unit is masked
  any more, the check of exactly the returned texts exits with 0, without error and without panic,
  and so does code generation for them, which leaves its output file.
\<close>

theorem normalize_type_checks_sound:
  assumes "normalize env files = Inr r" "type_checks r"
  shows "compile_ok (ev_check env (texts r)) \<and> compile_ok (fst (ev_codegen env (texts r))) \<and>
    snd (ev_codegen env (texts r))"
proof -
  have rounds: "clean env (texts_of st')"
    if "norm_rounds env n k st = Inr st'" "run_ok files st" "ns_remaining st' = []" "ns_panic st' = None"
      "concat (map snd (sort_key fst (ns_masked st'))) = []" for n k st st'
    using that
  proof (induction n arbitrary: k st)
    case 0
    then show ?case by auto
  next
    case (Suc n)
    then obtain out where out: "norm_round env k st = Inr out" by (auto simp: bindE_eq_Inr)
    have ok: "run_ok files (outcome_state out)" using norm_round_run_ok [OF out Suc.prems(2)] .
    show ?case
    proof (cases out)
      case (Go st1)
      with Suc.prems(1) out have "norm_rounds env n (k + 1) st1 = Inr st'" by simp
      then show ?thesis using Suc.IH ok Suc.prems(3-5) Go by (simp add: outcome_state_def)
    next
      case (Stop st1)
      with Suc.prems(1) out have st1: "st1 = st'" by simp
      have c: "clean env (written_files st)" "ns_sources st' = ns_sources st" "ns_masked st' = ns_masked st"
        using stop_clean out Stop st1 Suc.prems(3,4) by blast+
      have "\<forall>(key, l) \<in> set (ns_masked st). l \<noteq> []" using Suc.prems(2) by (simp add: run_ok_def)
      moreover have "\<forall>e \<in> set (ns_masked st). snd e = []" using Suc.prems(5) c(3) by auto
      ultimately have "ns_masked st = []" by (cases "ns_masked st") auto
      with c show ?thesis by (simp add: written_unmasked texts_of_def)
    qed
  qed
  obtain st0 st where st: "initial_state env files = Inr st0" "norm_rounds env MAX_ROUNDS 0 st0 = Inr st" "r = result_of st"
    using assms(1) by (auto simp: normalize_def bindE_eq_Inr)
  have "ns_remaining st = []" "ns_panic st = None" "concat (map snd (sort_key fst (ns_masked st))) = []"
    using assms(2) by (auto simp: st(3) type_checks_def result_of_def)
  from rounds [OF st(2) initial_run_ok [OF st(1)] this]
  have "clean env (texts r)" by (simp add: texts_of_def texts_def st(3) result_of_def)
  then show ?thesis by (simp add: clean_def)
qed

lemma demo_normalize: "\<exists>r. normalize demo_norm_env [(''f'', [])] = Inr r \<and> type_checks r \<and> texts r = [(''f'', [])]"
proof -
  have rb: "rebind_edits [] [] = []"
    by (simp add: rebind_edits_def significant_def tokenize_lossless_def tokens_from.simps)
  have env: "ev_check demo_norm_env fs = demo_result None" if "\<forall>f \<in> set fs. snd f = []" for fs
    using that by (auto simp: demo_norm_env_def starts_with_def)
  obtain st where st: "initial_state demo_norm_env [(''f'', [])] = Inr st" "ns_sources st = [(''f'', new_source [])]"
      "ns_masked st = []"
    by (simp add: initial_state_def rebind_file_def Let_def rb demo_norm_env_def)
  have w: "written_files st = [(''f'', [])]"
    using st(2,3) by (simp add: written_unmasked texts_of_def new_source_def src_text_def)
  have none: "errors_of (demo_result None) = []" "cr_panic (demo_result None) = None"
    "unparsed_failure (demo_result None) stage = None" "compile_ok (demo_result None)" for stage
    by (simp_all add: errors_of_def demo_result_def unparsed_failure_def compile_ok_def)
  have cg: "ev_codegen demo_norm_env fs = (demo_result None, True)" for fs by (simp add: demo_norm_env_def)
  have rp: "rp_placed (round_report demo_norm_env st) = [] \<and> rp_config (round_report demo_norm_env st) = [] \<and>
      rp_panic (round_report demo_norm_env st) = None"
    using check_errors_Nil [of demo_norm_env "indices_of st" "demo_result None"]
      codegen_errors_Nil [of demo_norm_env "indices_of st" "demo_result None" True] none
    by (simp add: round_report_def Let_def w env cg)
  then obtain st' where s: "norm_rounds demo_norm_env MAX_ROUNDS 0 st = Inr st'" "ns_remaining st' = []"
    "ns_panic st' = None" "ns_sources st' = ns_sources st" "ns_masked st' = []"
    using st(3) by (simp add: MAX_ROUNDS_def numeral_eq_Suc norm_round_def Let_def)
  have "type_checks (result_of st')" using s by (simp add: type_checks_def result_of_def)
  moreover have "texts (result_of st') = [(''f'', [])]"
    using s(4) st(2) by (simp add: texts_def result_of_def new_source_def src_text_def)
  ultimately show ?thesis using st(1) s(1) by (simp add: normalize_def)
qed

lemma normalize_type_checks_sound_witness:
  "compile_ok (ev_check demo_norm_env [(''f'', [])])"
  using demo_normalize normalize_type_checks_sound by metis

lemma normalize_keeps_originals_witness:
  "\<exists>r. normalize demo_norm_env [(''f'', [])] = Inr r \<and> original (snd (hd (nr_sources r))) = []"
proof -
  obtain r where r: "normalize demo_norm_env [(''f'', [])] = Inr r" using demo_normalize by blast
  with normalize_keeps_originals [OF this] show ?thesis by (cases "nr_sources r") auto
qed

text \<open>
  Taking a fresh name always ends: the name starts with the base and the suffix, no known name
  equals it when case is ignored, and it is known afterwards.
\<close>

theorem fresh_name_unused:
  "case fresh_name known base ending of (name, known') \<Rightarrow>
     py_upper name \<notin> set known \<and> known' = py_upper name # known \<and> (\<exists>number. name = base @ ending @ number)"
proof -
  have "py_upper (fresh_from known stem n) \<notin> set known \<and> (\<exists>number. fresh_from known stem n = stem @ number)" for stem n
  proof (induction known stem n rule: fresh_from.induct)
    case (1 known stem n)
    then show ?case by (subst (1 2) fresh_from.simps) auto
  qed
  then show ?thesis by (auto simp: fresh_name_def Let_def simp del: map_append) (metis append.assoc)
qed

end
