(* ===== verification/Rewrite_Rules.thy ===== *)
theory Rewrite_Rules
  imports Normalize_Engine "HOL-Library.Multiset"
begin

text \<open>
  The rules shared by the dialect families (\<^verbatim>\<open>compiler/intake/normalize/rules/common.py\<close>), and the
  contract every rule keeps: its edits lie inside the current texts and do not overlap. Under that
  contract the engine never rejects an edit; each rule is shown to keep it. Reading a token past the
  end of the list is the error value \<open>IndexErr\<close>.
\<close>

section \<open>The rule contract\<close>

text \<open>The context the engine builds: one index per file of the current texts.\<close>

definition context_for :: "(string \<times> string) list \<Rightarrow> rule_context \<Rightarrow> bool" where
  "context_for files cx = (cx_indices cx = map (\<lambda>(name, t). (name, new_index t)) files \<and> dict_ok files)"

definition keeps_contract :: "rewrite_rule \<Rightarrow> bool" where
  "keeps_contract rw = (\<forall>files cx f d p known.
     context_for files cx \<longrightarrow> dmem f files \<longrightarrow>
     rl_propose rw cx f (locate d (find_index (cx_indices cx) f)) = Inr (Some p, known) \<longrightarrow> proposal_ok files p)"

lemma dget_indices: "dget (map (\<lambda>(name, t). (name, new_index t)) files) f = map_option new_index (dget files f)"
  by (induction files) auto

lemma context_index:
  assumes "context_for files cx" "dmem f files"
  obtains t where "dget files f = Some t" "find_index (cx_indices cx) f = new_index t"
  using assms by (cases "dget files f") (auto simp: context_for_def find_index_def dget_indices dmem_iff)

subsection \<open>Edits on tokens\<close>

definition mk_edit :: "string \<Rightarrow> nat \<Rightarrow> nat \<Rightarrow> string \<Rightarrow> edit" where
  "mk_edit f s e r = \<lparr>ed_file = f, ed_start = s, ed_end = e, ed_replacement = r, ed_move = None\<rparr>"

lemma mk_edit_sel [simp]:
  "ed_file (mk_edit f s e r) = f" "ed_start (mk_edit f s e r) = s" "ed_end (mk_edit f s e r) = e"
  "ed_replacement (mk_edit f s e r) = r" "ed_move (mk_edit f s e r) = None"
  by (simp_all add: mk_edit_def)

text \<open>Replace the text from one token to another.\<close>

definition token_edit :: "string \<Rightarrow> lossless_token \<Rightarrow> string \<Rightarrow> edit" where
  "token_edit f t r = mk_edit f (lt_start t) (lt_end t) r"

lemma token_edit_sel [simp]:
  "ed_file (token_edit f t r) = f" "ed_start (token_edit f t r) = lt_start t" "ed_end (token_edit f t r) = lt_end t"
  "ed_move (token_edit f t r) = None"
  by (simp_all add: token_edit_def)

text \<open>Edits inside their files, in the order of their spans within a file.\<close>

definition placed_edit :: "(string \<times> string) list \<Rightarrow> edit \<Rightarrow> bool" where
  "placed_edit files e = (ed_move e = None \<and> ed_start e \<le> ed_end e \<and>
     (\<exists>t. dget files (ed_file e) = Some t \<and> ed_end e \<le> length t))"

definition before_edit :: "edit \<Rightarrow> edit \<Rightarrow> bool" where
  "before_edit a b = (ed_file a = ed_file b \<longrightarrow>
     ed_end a \<le> ed_start b \<and> (ed_start a < ed_end a \<or> ed_start b < ed_end b \<or> ed_end a < ed_start b))"

lemma ordered_edits_ok:
  assumes "\<forall>e \<in> set (pr_edits p). placed_edit files e" "sorted_wrt before_edit (pr_edits p)"
  shows "proposal_ok files p"
proof -
  have "edits_separate (pr_edits p)"
    unfolding edits_separate_def using assms(2)
    by (rule sorted_wrt_mono_rel [rotated]) (auto simp: before_edit_def separate_def edit_span_def)
  moreover have "\<forall>e \<in> set (pr_edits p). ed_move e = None" using assms(1) by (simp add: placed_edit_def)
  ultimately show ?thesis
    using assms(1) by (auto simp: proposal_ok_def placed_edit_def edit_fits_def split: option.splits)
qed

lemma token_span:
  assumes "tok \<in> set (si_tokens (new_index src))"
  shows "lt_start tok < lt_end tok" "lt_end tok \<le> length src"
  using assms tokens_from_ordered [of 0 1 0 src] token_end_bound by (auto simp: tokenize_lossless_def)

lemma significant_mem: "tok \<in> set (si_significant si) \<Longrightarrow> si = new_index src \<Longrightarrow> tok \<in> set (si_tokens si)"
  by (simp add: significant_def)

lemma token_edit_placed:
  assumes "dget files f = Some t" "tok \<in> set (si_tokens (new_index t))"
  shows "placed_edit files (token_edit f tok r)"
  using assms token_span [OF assms(2)] by (simp add: placed_edit_def)

definition make_proposal ::
    "rule_spec \<Rightarrow> rewrite_key \<Rightarrow> edit list \<Rightarrow> string \<Rightarrow> (string \<times> string) list \<Rightarrow> proposal" where
  "make_proposal spec key edits note renames =
     \<lparr>pr_rule = spec, pr_key = key, pr_edits = edits, pr_note = note, pr_renames = renames\<rparr>"

lemma make_proposal_edits [simp]: "pr_edits (make_proposal spec key edits note renames) = edits"
  by (simp add: make_proposal_def)

type_synonym proposing = "norm_error + proposal option \<times> string list"

definition decline :: "rule_context \<Rightarrow> proposing" where
  "decline cx = Inr (None, cx_known cx)"

definition offers :: "rule_context \<Rightarrow> proposal \<Rightarrow> proposing" where
  "offers cx p = Inr (Some p, cx_known cx)"

lemma decline_not_some [simp]: "decline cx \<noteq> Inr (Some p, known)"
  by (simp add: decline_def)

lemma offers_some [simp]: "offers cx q = Inr (Some p, known) \<longleftrightarrow> p = q \<and> known = cx_known cx"
  by (auto simp: offers_def)

lemma single_token_ok:
  assumes "dget files f = Some t" "tok \<in> set (si_tokens (new_index t))" "pr_edits p = [token_edit f tok r]"
  shows "proposal_ok files p"
  using token_edit_placed [OF assms(1,2)] by (intro ordered_edits_ok) (simp_all add: assms(3))

section \<open>Renaming a word everywhere\<close>

definition rename_everywhere :: "rule_context \<Rightarrow> string \<Rightarrow> string \<Rightarrow> edit list" where
  "rename_everywhere cx word new_name =
     concat (map (\<lambda>(name, si).
       map (\<lambda>t. token_edit name t (lt_text t @ drop (length word) new_name))
         (filter (\<lambda>t. is_word t \<and> upper_of t = word) (si_significant si)))
       (sort_key fst (cx_indices cx)))"

lemma sorted_wrt_concat:
  assumes "\<And>x. x \<in> set xs \<Longrightarrow> sorted_wrt P (h x)"
    and "sorted_wrt (\<lambda>x y. \<forall>a \<in> set (h x). \<forall>b \<in> set (h y). P a b) xs"
  shows "sorted_wrt P (concat (map h xs))"
  using assms by (induction xs) (auto simp: sorted_wrt_append)

lemma distinct_sorted_keys: "dict_ok d \<Longrightarrow> distinct (map fst (sort_key fst d))"
proof -
  assume "dict_ok d"
  then have "distinct (map fst d)" by (simp add: dict_ok_def)
  moreover have "mset (map fst (sort_key fst d)) = mset (map fst d)" by simp
  ultimately show ?thesis by (metis mset_eq_imp_distinct_iff)
qed

lemma distinct_keys_wrt: "distinct (map fst xs) \<Longrightarrow> sorted_wrt (\<lambda>x y. fst x \<noteq> fst y) xs"
  by (induction xs) force+

text \<open>Edits collected file by file, in the order of the file names.\<close>

lemma file_edits_ok:
  assumes cx: "context_for files cx" and p: "pr_edits p = concat (map h (sort_key fst (cx_indices cx)))"
    and each: "\<And>f t. dget files f = Some t \<Longrightarrow>
      (\<forall>e \<in> set (h (f, new_index t)). ed_file e = f \<and> placed_edit files e) \<and> sorted_wrt before_edit (h (f, new_index t))"
  shows "proposal_ok files p"
proof (rule ordered_edits_ok)
  have entry: "\<exists>t. x = (fst x, new_index t) \<and> dget files (fst x) = Some t" if "x \<in> set (sort_key fst (cx_indices cx))" for x
    using that cx by (auto simp: context_for_def dict_ok_def)
  have ok: "(\<forall>e \<in> set (h x). ed_file e = fst x \<and> placed_edit files e) \<and> sorted_wrt before_edit (h x)"
    if "x \<in> set (sort_key fst (cx_indices cx))" for x
    using entry [OF that] each by (metis prod.collapse)
  then show "\<forall>e \<in> set (pr_edits p). placed_edit files e" unfolding p by auto
  show "sorted_wrt before_edit (pr_edits p)"
    unfolding p
  proof (rule sorted_wrt_concat)
    show "sorted_wrt before_edit (h x)" if "x \<in> set (sort_key fst (cx_indices cx))" for x using ok that by blast
    have "dict_ok (cx_indices cx)"
      using cx by (auto simp: context_for_def dict_ok_def split_def comp_def)
    then have "sorted_wrt (\<lambda>x y. fst x \<noteq> fst y) (sort_key fst (cx_indices cx))"
      using distinct_sorted_keys distinct_keys_wrt by blast
    then show "sorted_wrt (\<lambda>x y. \<forall>a \<in> set (h x). \<forall>b \<in> set (h y). before_edit a b) (sort_key fst (cx_indices cx))"
      by (rule sorted_wrt_mono_rel [rotated]) (use ok in \<open>fastforce simp: before_edit_def\<close>)
  qed
qed

text \<open>
  Edits collected file by file in token order: each file contributes token edits of a selection of
  its significant tokens.
\<close>

definition token_edits ::
    "rule_context \<Rightarrow> (lossless_token \<Rightarrow> bool) \<Rightarrow> (lossless_token \<Rightarrow> string) \<Rightarrow> edit list" where
  "token_edits cx sel new =
     concat (map (\<lambda>(name, si). map (\<lambda>t. token_edit name t (new t)) (filter sel (si_significant si)))
       (sort_key fst (cx_indices cx)))"

lemma rename_everywhere_tokens:
  "rename_everywhere cx word new_name =
     token_edits cx (\<lambda>t. is_word t \<and> upper_of t = word) (\<lambda>t. lt_text t @ drop (length word) new_name)"
  by (simp add: rename_everywhere_def token_edits_def)

lemma token_edits_of_file:
  "sorted_wrt before_edit (map (\<lambda>t. token_edit f t (new t)) (filter sel (si_significant (new_index src))))"
proof -
  have "sorted_wrt (\<lambda>a b. lt_end a \<le> lt_start b \<and> lt_start a < lt_end a) (si_significant (new_index src))"
    using significant_ordered [of src] significant_span(1) [of _ src]
    by (auto simp: tokens_ordered_def sorted_wrt_iff_nth_less)
  then show ?thesis
    by (auto simp: sorted_wrt_map before_edit_def intro: sorted_wrt_filter elim!: sorted_wrt_mono_rel [rotated])
qed

lemma token_edits_ok:
  assumes "context_for files cx" "pr_edits p = token_edits cx sel new"
  shows "proposal_ok files p"
  using assms(1) assms(2) [unfolded token_edits_def]
proof (rule file_edits_ok)
  fix f t assume t: "dget files f = Some t"
  show "(\<forall>e \<in> set (case (f, new_index t) of (name, si) \<Rightarrow> map (\<lambda>u. token_edit name u (new u)) (filter sel (si_significant si))).
      ed_file e = f \<and> placed_edit files e) \<and>
    sorted_wrt before_edit (case (f, new_index t) of (name, si) \<Rightarrow> map (\<lambda>u. token_edit name u (new u)) (filter sel (si_significant si)))"
    unfolding split_conv
    using token_edit_placed [OF t significant_mem [OF _ refl]] token_edits_of_file by auto
qed

section \<open>The rules\<close>

definition rule_index :: "rule_context \<Rightarrow> string \<Rightarrow> source_index" where
  "rule_index cx f = find_index (cx_indices cx) f"

subsection \<open>var-block-constant\<close>

definition VAR_BLOCK_CONSTANT :: rule_spec where
  "VAR_BLOCK_CONSTANT = \<lparr>rs_id = ''var-block-constant'', rs_version = 1, rs_level = ''L1'', rs_codes = [''E034'']\<rparr>"

definition propose_var_block_constant :: "rule_context \<Rightarrow> string \<Rightarrow> located \<Rightarrow> proposing" where
  "propose_var_block_constant cx f item =
     (let si = rule_index cx f; tokens = si_significant si; i = significant_index si (lo_offset item) in
      if length tokens \<le> i + 1 then decline cx
      else let block = tokens ! i; qualifier = tokens ! (i + 1) in
        if upper_of block \<notin> {''VAR_INPUT'', ''VAR_IN_OUT'', ''VARINPUT'', ''VARINOUT''} \<or> upper_of qualifier \<noteq> ''CONSTANT''
        then decline cx
        else offers cx (make_proposal VAR_BLOCK_CONSTANT
          [KText (rs_id VAR_BLOCK_CONSTANT), KText f, KNum (lt_start qualifier)]
          [token_edit f qualifier (''(* '' @ lt_text qualifier @ '' *)'')] [] []))"

definition var_block_constant :: rewrite_rule where
  "var_block_constant = \<lparr>rl_spec = VAR_BLOCK_CONSTANT, rl_propose = propose_var_block_constant\<rparr>"

subsection \<open>array-initializer-brackets\<close>

definition ARRAY_INITIALIZER_BRACKETS :: rule_spec where
  "ARRAY_INITIALIZER_BRACKETS = \<lparr>rs_id = ''array-initializer-brackets'', rs_version = 1, rs_level = ''L1'',
     rs_codes = [''E043'']\<rparr>"

text \<open>The depth and the commas at depth 0 over the tokens of the initializer.\<close>

definition bracket_step :: "int \<times> nat \<Rightarrow> lossless_token \<Rightarrow> int \<times> nat" where
  "bracket_step s t = (case s of (depth, commas) \<Rightarrow>
     if contains (lt_text t) ''(['' then (depth + 1, commas)
     else if contains (lt_text t) '')]'' then (depth - 1, commas)
     else if lt_text t = '','' \<and> depth = 0 then (depth, commas + 1) else s)"

text \<open>The brackets around the tokens from \<open>i\<close> that start before \<open>finish\<close>, a list at depth 0.\<close>

definition bracket_edits :: "string \<Rightarrow> lossless_token list \<Rightarrow> nat \<Rightarrow> nat \<Rightarrow> edit list option" where
  "bracket_edits f tokens i finish =
     (let items = takeWhile (\<lambda>t. lt_start t < finish) (drop i tokens);
          (depth, commas) = foldl bracket_step (0, 0) items in
      if commas = 0 \<or> depth \<noteq> 0 then None
      else let last_item = tokens ! (i + length items - 1) in
        Some [mk_edit f (lt_start (tokens ! i)) (lt_start (tokens ! i)) ''['',
              mk_edit f (lt_end last_item) (lt_end last_item) '']''])"

definition propose_array_brackets :: "rule_context \<Rightarrow> string \<Rightarrow> located \<Rightarrow> proposing" where
  "propose_array_brackets cx f item =
     (let si = rule_index cx f; d = lo_diagnostic item;
          start = offset_at si (dg_line d) (dg_column d); finish = offset_at si (dg_end_line d) (dg_end_column d);
          tokens = si_significant si; i = significant_index si start in
      if i = 0 \<or> lt_text (tokens ! (i - 1)) \<noteq> '':='' then decline cx
      else if length tokens \<le> i then Inl IndexErr
      else if lt_text (tokens ! i) = ''['' then decline cx
      else case bracket_edits f tokens i finish of
        None \<Rightarrow> decline cx
      | Some edits \<Rightarrow> offers cx (make_proposal ARRAY_INITIALIZER_BRACKETS
            [KText (rs_id ARRAY_INITIALIZER_BRACKETS), KText f, KNum start] edits [] []))"

definition array_brackets :: rewrite_rule where
  "array_brackets = \<lparr>rl_spec = ARRAY_INITIALIZER_BRACKETS, rl_propose = propose_array_brackets\<rparr>"

subsection \<open>Renames\<close>

text \<open>The proposal of both rename rules: a fresh name, and every occurrence renamed to it.\<close>

definition rename_proposal :: "rule_context \<Rightarrow> rule_spec \<Rightarrow> string \<Rightarrow> proposing" where
  "rename_proposal cx spec word =
     (case fresh_name (cx_known cx) word ''__'' of (new_name, known) \<Rightarrow>
        Inr (Some (make_proposal spec [KText (rs_id spec), KText word] (rename_everywhere cx word new_name)
               (word @ '' -> '' @ new_name) [(word, new_name)]), known))"

definition KEYWORD_IDENTIFIER_RENAME :: rule_spec where
  "KEYWORD_IDENTIFIER_RENAME = \<lparr>rs_id = ''keyword-identifier-rename'', rs_version = 2, rs_level = ''L1'',
     rs_codes = [''E007'']\<rparr>"

definition propose_keyword_rename :: "rule_context \<Rightarrow> string \<Rightarrow> located \<Rightarrow> proposing" where
  "propose_keyword_rename cx f item =
     (case lo_token item of
        None \<Rightarrow> decline cx
      | Some t \<Rightarrow>
          if lt_kind t \<noteq> ''keyword'' \<or> upper_of t \<notin> set (cx_identifier_words cx) then decline cx
          else rename_proposal cx KEYWORD_IDENTIFIER_RENAME (upper_of t))"

definition keyword_rename :: rewrite_rule where
  "keyword_rename = \<lparr>rl_spec = KEYWORD_IDENTIFIER_RENAME, rl_propose = propose_keyword_rename\<rparr>"

definition word_rx :: rx where
  "word_rx = RGroup 1 (rx_plus (RChar is_word_char))"

definition DUPLICATE_RE :: rx where
  "DUPLICATE_RE = rx_seq [word_rx, rx_lit '': '',
     RAlt (rx_ilit ''Duplicate symbol'') (RAlt (rx_ilit ''Ambiguous callable symbol'')
       (RAlt (rx_ilit ''Ambiguous datatype'') (rx_ilit ''Ambiguous global variable''))), rx_lit ''.'']"

definition BUILTIN_RE :: rx where
  "BUILTIN_RE = RSeq word_rx (rx_lit '' can not be used as a name because it is a built-in datatype'')"

definition STANDARD_NAME_COLLISION_RENAME :: rule_spec where
  "STANDARD_NAME_COLLISION_RENAME = \<lparr>rs_id = ''standard-name-collision-rename'', rs_version = 1, rs_level = ''L1'',
     rs_codes = [''E004'']\<rparr>"

definition propose_collision_rename :: "rule_context \<Rightarrow> string \<Rightarrow> located \<Rightarrow> proposing" where
  "propose_collision_rename cx f item =
     (let message = dg_message (lo_diagnostic item); builtin = re_match BUILTIN_RE message in
      case (case re_match DUPLICATE_RE message of Some g \<Rightarrow> Some g | None \<Rightarrow> builtin) of
        None \<Rightarrow> decline cx
      | Some g \<Rightarrow>
          (let word = py_upper (group_of 1 g) in
           if word \<notin> cx_standard cx \<and> builtin = None then decline cx
           else case lo_token item of
             None \<Rightarrow> decline cx
           | Some t \<Rightarrow> if upper_of t \<noteq> word then decline cx
                       else rename_proposal cx STANDARD_NAME_COLLISION_RENAME word))"

definition collision_rename :: rewrite_rule where
  "collision_rename = \<lparr>rl_spec = STANDARD_NAME_COLLISION_RENAME, rl_propose = propose_collision_rename\<rparr>"

subsection \<open>pou-access-modifier\<close>

definition ACCESS_MODIFIERS :: "string list" where
  "ACCESS_MODIFIERS = [''PUBLIC'', ''PRIVATE'', ''PROTECTED'', ''INTERNAL'']"

definition POU_ACCESS_MODIFIER :: rule_spec where
  "POU_ACCESS_MODIFIER = \<lparr>rs_id = ''pou-access-modifier'', rs_version = 2, rs_level = ''L1'',
     rs_codes = [''E006'', ''E007'']\<rparr>"

text \<open>The modifier \<open>token\<close> at index \<open>i\<close>, directly after a POU keyword.\<close>

definition modifier_at ::
    "rule_context \<Rightarrow> string \<Rightarrow> lossless_token list \<Rightarrow> nat \<Rightarrow> lossless_token \<Rightarrow> proposing" where
  "modifier_at cx f tokens i token =
     (if i = 0 \<or> upper_of (tokens ! (i - 1)) \<notin> {''FUNCTION_BLOCK'', ''FUNCTIONBLOCK'', ''FUNCTION'', ''CLASS'',
          ''INTERFACE'', ''PROGRAM'', ''TYPE''} then decline cx
      else offers cx (make_proposal POU_ACCESS_MODIFIER
          [KText (rs_id POU_ACCESS_MODIFIER), KText f, KNum (lt_start token)]
          [token_edit f token (''(* '' @ lt_text token @ '' *)'')] [] []))"

definition propose_access_modifier :: "rule_context \<Rightarrow> string \<Rightarrow> located \<Rightarrow> proposing" where
  "propose_access_modifier cx f item =
     (case lo_token item of
        None \<Rightarrow> decline cx
      | Some token \<Rightarrow>
          (let si = rule_index cx f; tokens = si_significant si; i = significant_index si (lt_start token) in
           if upper_of token \<notin> set ACCESS_MODIFIERS then
             (if i < 2 \<or> upper_of (tokens ! (i - 1)) \<notin> set ACCESS_MODIFIERS \<or> upper_of (tokens ! (i - 2)) \<noteq> ''TYPE''
              then decline cx else modifier_at cx f tokens (i - 1) (tokens ! (i - 1)))
           else modifier_at cx f tokens i token))"

definition access_modifier :: rewrite_rule where
  "access_modifier = \<lparr>rl_spec = POU_ACCESS_MODIFIER, rl_propose = propose_access_modifier\<rparr>"

subsection \<open>elseif-keyword\<close>

definition ELSEIF_KEYWORD :: rule_spec where
  "ELSEIF_KEYWORD = \<lparr>rs_id = ''elseif-keyword'', rs_version = 1, rs_level = ''L1'', rs_codes = [''E007'']\<rparr>"

text \<open>The index of the first token from \<open>i\<close> below \<open>stop\<close> that satisfies \<open>P\<close>; \<open>stop\<close> if there is none.\<close>

definition next_index :: "(lossless_token \<Rightarrow> bool) \<Rightarrow> lossless_token list \<Rightarrow> nat \<Rightarrow> nat \<Rightarrow> nat" where
  "next_index P tokens i stop = i + length (takeWhile (\<lambda>t. \<not> P t) (drop i (take stop tokens)))"

text \<open>The loop over the unit's tokens; \<open>None\<close> is its early return.\<close>

fun elseif_edits :: "string \<Rightarrow> lossless_token list \<Rightarrow> nat \<Rightarrow> nat list \<Rightarrow> edit list option" where
  "elseif_edits f tokens stop [] = Some []"
| "elseif_edits f tokens stop (i # is) =
     (let token = tokens ! i in
      if upper_of token \<noteq> ''ELSEIF'' \<or> \<not> is_word token then elseif_edits f tokens stop is
      else if lt_text (tokens ! (i + 1)) \<in> {'':'', '':='', ''.'', '',''} then None
      else if lt_text (tokens ! (i - 1)) \<noteq> '';'' \<and> upper_of (tokens ! (i - 1)) \<notin> {''THEN'', ''ELSE''} then None
      else let j = next_index (\<lambda>t. lt_text t = '';'' \<or> upper_of t = ''THEN'') tokens (i + 1) stop in
        if stop \<le> j \<or> upper_of (tokens ! j) \<noteq> ''THEN'' then None
        else map_option (Cons (token_edit f token ''ELSIF'')) (elseif_edits f tokens stop is))"

definition propose_elseif :: "rule_context \<Rightarrow> string \<Rightarrow> located \<Rightarrow> proposing" where
  "propose_elseif cx f item =
     (case lo_unit item of
        None \<Rightarrow> decline cx
      | Some u \<Rightarrow>
          (let si = rule_index cx f; tokens = si_significant si;
               first = significant_index si (un_start u); stop = significant_index si (un_end u);
               k = significant_index si (lo_offset item) in
           if \<not> (first < k \<and> k < stop \<and> upper_of (tokens ! (k - 1)) = ''ELSEIF'') then decline cx
           else case elseif_edits f tokens stop [first + 1..<stop - 1] of
             None \<Rightarrow> decline cx
           | Some [] \<Rightarrow> decline cx
           | Some es \<Rightarrow> offers cx (make_proposal ELSEIF_KEYWORD
               [KText (rs_id ELSEIF_KEYWORD), KText f, KNum (un_start u)] es [] [])))"

definition elseif_keyword :: rewrite_rule where
  "elseif_keyword = \<lparr>rl_spec = ELSEIF_KEYWORD, rl_propose = propose_elseif\<rparr>"

section \<open>The rules keep the contract\<close>

lemma keeps_contractI:
  assumes "\<And>files cx f t d p known. context_for files cx \<Longrightarrow> dget files f = Some t \<Longrightarrow> rule_index cx f = new_index t \<Longrightarrow>
      rl_propose rw cx f (locate d (new_index t)) = Inr (Some p, known) \<Longrightarrow> proposal_ok files p"
  shows "keeps_contract rw"
  unfolding keeps_contract_def
proof (intro allI impI)
  fix files cx f d p known
  assume cx: "context_for files cx" "dmem f files"
    and p: "rl_propose rw cx f (locate d (find_index (cx_indices cx) f)) = Inr (Some p, known)"
  obtain t where t: "dget files f = Some t" "find_index (cx_indices cx) f = new_index t"
    using cx by (rule context_index)
  show "proposal_ok files p"
    by (rule assms [OF cx(1) t(1)]) (use t(2) p in \<open>simp_all add: rule_index_def\<close>)
qed

lemma skip_trivia_mem: "skip_trivia ts = Some t \<Longrightarrow> t \<in> set ts"
  by (induction ts rule: skip_trivia.induct) (auto split: if_splits)

lemma located_token_mem: "lo_token (locate d si) = Some t \<Longrightarrow> t \<in> set (si_tokens si)"
  by (auto simp: locate_def Let_def token_at_def split: if_splits dest!: skip_trivia_mem in_set_dropD)

lemma located_unit_mem: "lo_unit (locate d si) = Some u \<Longrightarrow> u \<in> set (si_units si)"
  by (auto simp: locate_def Let_def split: if_splits dest: unit_containing_mem)

lemma nth_token: "i < length (si_significant (new_index t)) \<Longrightarrow> si_significant (new_index t) ! i \<in> set (si_tokens (new_index t))"
  by (rule significant_mem [OF nth_mem refl])

text \<open>Edits from one token of a file to another, in order.\<close>

lemma index_spans_ok:
  assumes t: "dget files f = Some t"
    and p: "pr_edits p = map (\<lambda>(i, j, r). mk_edit f (lt_start (si_significant (new_index t) ! i))
      (lt_end (si_significant (new_index t) ! j)) r) l"
    and l: "\<forall>(i, j, r) \<in> set l. i \<le> j \<and> j < length (si_significant (new_index t))"
      "sorted_wrt (\<lambda>a b. fst (snd a) < fst b) l"
  shows "proposal_ok files p"
proof (rule ordered_edits_ok)
  let ?ts = "si_significant (new_index t)"
  have ord: "tokens_ordered ?ts" using significant_ordered by simp
  have fit: "lt_start (?ts ! i) < lt_end (?ts ! j) \<and> lt_end (?ts ! j) \<le> length t" if "i \<le> j" "j < length ?ts" for i j
  proof -
    have "i < length ?ts" using that by linarith
    from ordered_span [OF ord this] ordered_end_mono(1) [OF ord that]
    have "lt_start (?ts ! i) < lt_end (?ts ! j)" by (rule less_le_trans)
    then show ?thesis using token_span(2) [OF nth_token [OF that(2)]] by blast
  qed
  show "\<forall>e \<in> set (pr_edits p). placed_edit files e"
    unfolding p placed_edit_def using t l(1) fit by (fastforce simp del: index_significant)
  show "sorted_wrt before_edit (pr_edits p)"
    unfolding p sorted_wrt_map
  proof (rule sorted_wrt_mono_rel [OF _ l(2)])
    fix x y assume xy: "x \<in> set l" "y \<in> set l" "fst (snd x) < fst y"
    obtain i j r i' j' r' where e: "x = (i, j, r)" "y = (i', j', r')" by (metis prod_cases3)
    have b: "j < i'" "i' < length ?ts" "i \<le> j" "i' \<le> j'" "j' < length ?ts" using xy e l(1) by fastforce+
    show "before_edit (case x of (i, j, r) \<Rightarrow> mk_edit f (lt_start (?ts ! i)) (lt_end (?ts ! j)) r)
        (case y of (i, j, r) \<Rightarrow> mk_edit f (lt_start (?ts ! i)) (lt_end (?ts ! j)) r)"
      using ordered_nth [OF ord b(1,2)] fit [OF b(4,5)] by (simp add: e before_edit_def)
  qed
qed

lemma index_span_ok:
  assumes "dget files f = Some t" "i \<le> j" "j < length (si_significant (new_index t))"
    and "pr_edits p = [mk_edit f (lt_start (si_significant (new_index t) ! i)) (lt_end (si_significant (new_index t) ! j)) r]"
  shows "proposal_ok files p"
  by (rule index_spans_ok [OF assms(1), of _ "[(i, j, r)]"]) (use assms(2-4) in simp_all)

lemma single_edit_ok:
  assumes "dget files f = Some t" "s \<le> e" "e \<le> length t" "pr_edits p = [mk_edit f s e r]"
  shows "proposal_ok files p"
  by (rule ordered_edits_ok) (use assms in \<open>simp_all add: placed_edit_def\<close>)

lemma var_block_constant_keeps: "keeps_contract var_block_constant"
proof (rule keeps_contractI)
  fix files cx f t d p known
  assume t: "dget files f = Some t" "rule_index cx f = new_index t"
    and p: "rl_propose var_block_constant cx f (locate d (new_index t)) = Inr (Some p, known)"
  let ?ts = "si_significant (new_index t)"
  let ?i = "significant_index (new_index t) (lo_offset (locate d (new_index t)))"
  have "?i + 1 < length ?ts"
    "pr_edits p = [token_edit f (?ts ! (?i + 1)) (''(* '' @ lt_text (?ts ! (?i + 1)) @ '' *)'')]"
    using p by (auto simp: var_block_constant_def propose_var_block_constant_def t(2) Let_def split: if_splits)
  then show "proposal_ok files p" using single_token_ok [OF t(1) nth_token] by blast
qed

lemma find_mem: "find P xs = Some x \<Longrightarrow> x \<in> set xs"
  by (auto simp: find_Some_iff)

lemma rename_proposal_keeps:
  assumes "context_for files cx" "rename_proposal cx spec word = Inr (Some p, known)"
  shows "proposal_ok files p"
proof -
  obtain new_name where "pr_edits p = rename_everywhere cx word new_name"
    using assms(2) by (auto simp: rename_proposal_def split: prod.splits)
  then show ?thesis using token_edits_ok [OF assms(1)] by (simp add: rename_everywhere_tokens)
qed

lemma keyword_rename_keeps: "keeps_contract keyword_rename"
  by (rule keeps_contractI)
     (auto simp: keyword_rename_def propose_keyword_rename_def split: option.splits if_splits
       intro: rename_proposal_keeps)

lemma collision_rename_keeps: "keeps_contract collision_rename"
  by (rule keeps_contractI)
     (auto simp: collision_rename_def propose_collision_rename_def Let_def split: option.splits if_splits
       intro: rename_proposal_keeps)

lemma modifier_at_keeps:
  assumes "dget files f = Some t" "tok \<in> set (si_tokens (new_index t))"
    and "modifier_at cx f ts i tok = Inr (Some p, known)"
  shows "proposal_ok files p"
proof -
  have "pr_edits p = [token_edit f tok (''(* '' @ lt_text tok @ '' *)'')]"
    using assms(3) by (auto simp: modifier_at_def split: if_splits)
  then show ?thesis using single_token_ok [OF assms(1,2)] by blast
qed

lemma access_modifier_keeps: "keeps_contract access_modifier"
proof (rule keeps_contractI)
  fix files cx f t d p known
  assume t: "dget files f = Some t" "rule_index cx f = new_index t"
    and p: "rl_propose access_modifier cx f (locate d (new_index t)) = Inr (Some p, known)"
  let ?si = "new_index t"
  obtain token where tok: "lo_token (locate d ?si) = Some token"
    using p by (auto simp: access_modifier_def propose_access_modifier_def split: option.splits)
  let ?i = "significant_index ?si (lt_start token)"
  show "proposal_ok files p"
  proof (cases "upper_of token \<in> set ACCESS_MODIFIERS")
    case True
    then have "modifier_at cx f (si_significant ?si) ?i token = Inr (Some p, known)"
      using p tok by (simp add: access_modifier_def propose_access_modifier_def t(2) Let_def)
    then show ?thesis using modifier_at_keeps [OF t(1) located_token_mem [OF tok]] by blast
  next
    case False
    then have m: "modifier_at cx f (si_significant ?si) (?i - 1) (si_significant ?si ! (?i - 1)) = Inr (Some p, known)"
      and i: "2 \<le> ?i"
      using p tok by (auto simp: access_modifier_def propose_access_modifier_def t(2) Let_def split: if_splits)
    have "?i - 1 < length (si_significant ?si)" using significant_index_le [of ?si "lt_start token"] i by linarith
    then show ?thesis using modifier_at_keeps [OF t(1) nth_token m] by blast
  qed
qed

text \<open>Token edits at increasing indices of one file.\<close>

lemma indexed_edits_ok:
  assumes t: "dget files f = Some t" and p: "pr_edits p = map (\<lambda>(i, r). token_edit f (si_significant (new_index t) ! i) r) irs"
    and i: "\<forall>(i, r) \<in> set irs. i < length (si_significant (new_index t))" "sorted_wrt (<) (map fst irs)"
  shows "proposal_ok files p"
proof (rule index_spans_ok [OF t, of _ "map (\<lambda>(i, r). (i, i, r)) irs"])
  show "pr_edits p = map (\<lambda>(i, j, r). mk_edit f (lt_start (si_significant (new_index t) ! i))
      (lt_end (si_significant (new_index t) ! j)) r) (map (\<lambda>(i, r). (i, i, r)) irs)"
    by (simp add: p token_edit_def case_prod_beta)
  show "sorted_wrt (\<lambda>a b. fst (snd a) < fst b) (map (\<lambda>(i, r). (i, i, r)) irs)"
    using i(2) by (simp add: sorted_wrt_map case_prod_beta)
qed (use i(1) in auto)

lemma elseif_edits_indices:
  assumes "elseif_edits f tokens stop is = Some es" "sorted_wrt (<) is"
  shows "\<exists>irs. es = map (\<lambda>(i, r). token_edit f (tokens ! i) r) irs \<and> set (map fst irs) \<subseteq> set is \<and> sorted_wrt (<) (map fst irs)"
  using assms
proof (induction f tokens stop "is" arbitrary: es rule: elseif_edits.induct)
  case (2 f tokens stop i "is")
  show ?case
  proof (cases "upper_of (tokens ! i) \<noteq> ''ELSEIF'' \<or> \<not> is_word (tokens ! i)")
    case True
    then have "elseif_edits f tokens stop is = Some es" using "2.prems"(1) by simp
    with "2.IH"(1) [OF refl True this] "2.prems"(2) show ?thesis by auto
  next
    case False
    then obtain rest where rest: "elseif_edits f tokens stop is = Some rest" "es = token_edit f (tokens ! i) ''ELSIF'' # rest"
      using "2.prems"(1) by (auto simp: Let_def split: if_splits)
    have "\<exists>irs. rest = map (\<lambda>(i, r). token_edit f (tokens ! i) r) irs \<and> set (map fst irs) \<subseteq> set is \<and> sorted_wrt (<) (map fst irs)"
      using "2.IH"(2) False "2.prems" rest(1) by (auto simp: Let_def split: if_splits)
    then obtain irs where irs: "rest = map (\<lambda>(i, r). token_edit f (tokens ! i) r) irs"
      "set (map fst irs) \<subseteq> set is" "sorted_wrt (<) (map fst irs)" by blast
    have "es = map (\<lambda>(i, r). token_edit f (tokens ! i) r) ((i, ''ELSIF'') # irs)" using rest(2) irs(1) by simp
    moreover have "sorted_wrt (<) (map fst ((i, ''ELSIF'') # irs))" using irs(2,3) "2.prems"(2) by auto
    moreover have "set (map fst ((i, ''ELSIF'') # irs)) \<subseteq> set (i # is)" using irs(2) by auto
    ultimately show ?thesis by blast
  qed
qed simp

lemma elseif_keyword_keeps: "keeps_contract elseif_keyword"
proof (rule keeps_contractI)
  fix files cx f t d p known
  assume t: "dget files f = Some t" "rule_index cx f = new_index t"
    and p: "rl_propose elseif_keyword cx f (locate d (new_index t)) = Inr (Some p, known)"
  let ?si = "new_index t"
  obtain u where u: "lo_unit (locate d ?si) = Some u"
    using p by (auto simp: elseif_keyword_def propose_elseif_def split: option.splits)
  let ?first = "significant_index ?si (un_start u)" and ?stop = "significant_index ?si (un_end u)"
  obtain es where es: "elseif_edits f (si_significant ?si) ?stop [?first + 1..<?stop - 1] = Some es" "pr_edits p = es"
    using p u by (auto simp: elseif_keyword_def propose_elseif_def t(2) Let_def split: option.splits if_splits list.splits)
  obtain irs where irs: "es = map (\<lambda>(i, r). token_edit f (si_significant ?si ! i) r) irs"
    "set (map fst irs) \<subseteq> set [?first + 1..<?stop - 1]" "sorted_wrt (<) (map fst irs)"
    using elseif_edits_indices [OF es(1)] by (auto simp: strict_sorted_iff)
  show "proposal_ok files p"
    by (rule indexed_edits_ok [OF t(1)]) (use es irs significant_index_le [of ?si "un_end u"] in fastforce)+
qed

lemma bracket_edits_some:
  assumes "bracket_edits f ts i finish = Some es" "i < length ts"
  obtains n where "0 < n" "i + n \<le> length ts"
    "es = [mk_edit f (lt_start (ts ! i)) (lt_start (ts ! i)) ''['',
           mk_edit f (lt_end (ts ! (i + n - 1))) (lt_end (ts ! (i + n - 1))) '']'']"
proof -
  define items where "items = takeWhile (\<lambda>t. lt_start t < finish) (drop i ts)"
  have items: "items \<noteq> []"
    using assms(1) unfolding bracket_edits_def items_def [symmetric] by (auto split: if_splits)
  have "length items \<le> length ts - i" unfolding items_def by (metis length_drop length_takeWhile_le)
  moreover have "es = [mk_edit f (lt_start (ts ! i)) (lt_start (ts ! i)) ''['',
      mk_edit f (lt_end (ts ! (i + length items - 1))) (lt_end (ts ! (i + length items - 1))) '']'']"
    using assms(1) unfolding bracket_edits_def items_def [symmetric] Let_def by (auto split: if_splits prod.splits)
  ultimately show ?thesis using items assms(2) that [of "length items"] by simp
qed

lemma array_brackets_keeps: "keeps_contract array_brackets"
proof (rule keeps_contractI)
  fix files cx f t d p known
  assume t: "dget files f = Some t" "rule_index cx f = new_index t"
    and p: "rl_propose array_brackets cx f (locate d (new_index t)) = Inr (Some p, known)"
  let ?si = "new_index t"
  let ?ts = "si_significant ?si"
  obtain i finish es where es: "i < length ?ts" "bracket_edits f ?ts i finish = Some es" "pr_edits p = es"
    using p by (auto simp: array_brackets_def propose_array_brackets_def t(2) Let_def not_le
        simp del: index_significant split: if_splits option.splits)
  obtain n where i: "0 < n" "i + n \<le> length ?ts"
    "es = [mk_edit f (lt_start (?ts ! i)) (lt_start (?ts ! i)) ''['',
           mk_edit f (lt_end (?ts ! (i + n - 1))) (lt_end (?ts ! (i + n - 1))) '']'']"
    using es(2,1) by (rule bracket_edits_some)
  have ord: "tokens_ordered ?ts" using significant_ordered by simp
  have l: "?ts ! (i + n - 1) \<in> set (si_tokens ?si)" "?ts ! i \<in> set (si_tokens ?si)"
    using nth_token i(1,2) es(1) by (simp_all del: index_significant)
  have le: "i \<le> i + n - 1" and lt: "i + n - 1 < length ?ts"
    using i(1,2) by arith+
  have "lt_start (?ts ! i) < lt_end (?ts ! (i + n - 1))"
    using ordered_span [OF ord es(1)] ordered_end_mono(1) [OF ord le lt] by (rule less_le_trans)
  then show "proposal_ok files p"
    using token_span [OF l(1)] token_span [OF l(2)] t(1)
    by (intro ordered_edits_ok) (simp_all add: es(3) i(3) placed_edit_def before_edit_def)
qed

section \<open>The engine under the contract\<close>

text \<open>Reading a token past the end is the only error a rule raises.\<close>

definition index_only :: "norm_error + 'a \<Rightarrow> bool" where
  "index_only r = (\<forall>e. r = Inl e \<longrightarrow> e = IndexErr)"

definition raises_index_only :: "rewrite_rule \<Rightarrow> bool" where
  "raises_index_only rw = (\<forall>cx f item. index_only (rl_propose rw cx f item))"

named_theorems index_only_intros

lemma index_only_result [index_only_intros]: "index_only (Inr x)" "index_only (Inl IndexErr)"
  by (simp_all add: index_only_def)

lemma index_only_proposal [index_only_intros]: "index_only (decline cx)" "index_only (offers cx p)"
  by (simp_all add: index_only_def decline_def offers_def)

lemma index_only_bind [index_only_intros]: "index_only r \<Longrightarrow> (\<And>x. index_only (f x)) \<Longrightarrow> index_only (bindE r f)"
  by (cases r) (simp_all add: index_only_def)

lemma index_only_if [index_only_intros]: "index_only a \<Longrightarrow> index_only b \<Longrightarrow> index_only (if P then a else b)"
  by simp

lemma index_only_option [index_only_intros]:
  "index_only n \<Longrightarrow> (\<And>x. index_only (f x)) \<Longrightarrow> index_only (case y of None \<Rightarrow> n | Some x \<Rightarrow> f x)"
  by (cases y) simp_all

lemma index_only_list [index_only_intros]:
  "index_only n \<Longrightarrow> (\<And>x xs. index_only (f x xs)) \<Longrightarrow> index_only (case y of [] \<Rightarrow> n | x # xs \<Rightarrow> f x xs)"
  by (cases y) simp_all

lemma index_only_pair [index_only_intros]: "(\<And>x y. index_only (f x y)) \<Longrightarrow> index_only (case z of (x, y) \<Rightarrow> f x y)"
  by (cases z) simp

text \<open>The files are a dict, and the engine looks diagnostics up among their paths.\<close>

definition paths_ok :: "norm_env \<Rightarrow> (string \<times> string) list \<Rightarrow> bool" where
  "paths_ok env files = (dict_ok files \<and> (\<forall>path name. ev_name env path = Some name \<longrightarrow> dmem name files))"

definition placed_ok :: "norm_state \<Rightarrow> placed \<Rightarrow> bool" where
  "placed_ok st p = (dmem (fst p) (texts_of st) \<and> (\<exists>d. snd p = locate d (find_index (indices_of st) (fst p))))"

lemma placed_errors_ok:
  assumes "paths_ok env (texts_of st)" "p \<in> set (placed_errors env (indices_of st) ds)"
  shows "placed_ok st p"
proof -
  obtain d name where "file_of env d = Some name" "p = (name, locate d (find_index (indices_of st) name))"
    using assms(2) by (auto simp: placed_errors_def List.map_filter_def)
  then show ?thesis using assms(1) by (auto simp: placed_ok_def paths_ok_def file_of_def split: if_splits)
qed

lemma report_placed_ok:
  assumes "paths_ok env (texts_of st)" "p \<in> set (rp_placed (round_report env st))"
  shows "placed_ok st p"
proof -
  have "\<exists>ds. p \<in> set (placed_errors env (indices_of st) ds)"
    using assms(2) by (auto simp: round_report_def Let_def check_errors_def codegen_errors_def split: if_splits prod.splits)
  then show ?thesis using placed_errors_ok [OF assms(1)] by blast
qed

lemma run_ok_paths:
  assumes "run_ok files st" "paths_ok env files"
  shows "paths_ok env (texts_of st)"
proof -
  have "map fst (texts_of st) = map fst files"
    using assms(1) by (auto simp: run_ok_def texts_of_def case_prod_beta comp_def list_all2_conv_all_nth intro!: nth_equalityI)
  then show ?thesis using assms(2) by (simp add: paths_ok_def dict_ok_def dmem_def)
qed

lemma if_not_eqI: "a \<noteq> c \<Longrightarrow> b \<noteq> c \<Longrightarrow> (if P then a else b) \<noteq> c"
  by simp

text \<open>
  The interface between the engine and a dialect's rules: every rule keeps the contract and raises
  nothing but a failed index.
\<close>

locale rule_set =
  fixes rules :: "rewrite_rule list"
  assumes keeps: "\<And>rw. rw \<in> set rules \<Longrightarrow> keeps_contract rw"
    and raises: "\<And>rw. rw \<in> set rules \<Longrightarrow> raises_index_only rw"
begin

lemma offer_sound:
  assumes "set rs \<subseteq> set rules" "context_for files cx" "dmem f files"
  shows "case offer rs cx (f, locate d (find_index (cx_indices cx) f)) of
      Inl e \<Rightarrow> e = IndexErr | Inr (proposed, _) \<Rightarrow> \<forall>p. proposed = Some p \<longrightarrow> proposal_ok files p"
  using assms(1,2)
proof (induction rs arbitrary: cx)
  case Nil
  then show ?case by simp
next
  case (Cons rw rs)
  let ?item = "locate d (find_index (cx_indices cx) f)"
  have rest: "context_for files (cx\<lparr>cx_known := known\<rparr>)" for known
    using Cons.prems(2) by (simp add: context_for_def)
  have rw: "keeps_contract rw" "raises_index_only rw" using keeps raises Cons.prems(1) by auto
  show ?case
  proof (cases "rl_propose rw cx f ?item")
    case (Inl e)
    then show ?thesis using rw(2) Cons by (auto simp: raises_index_only_def index_only_def)
  next
    case (Inr pk)
    obtain proposed known where pk: "pk = (proposed, known)" by force
    have "\<forall>p. proposed = Some p \<longrightarrow> proposal_ok files p"
      using rw(1) Cons.prems(2) assms(3) Inr pk unfolding keeps_contract_def by blast
    then show ?thesis
      using Inr pk Cons.IH [OF _ rest, of known] Cons.IH [OF _ Cons.prems(2)] Cons.prems(1)
      by (auto split: option.splits)
  qed
qed

lemma collect_step_sound:
  assumes "set rs \<subseteq> set rules" "context_for (texts_of st) cx" "cx_indices cx = indices_of st" "placed_ok st p"
    and "\<forall>o' \<in> set offered. proposal_ok (texts_of st) (fst o')"
  shows "case collect_step rs applied (cx, offered) p of
      Inl e \<Rightarrow> e = IndexErr
    | Inr (cx', offered') \<Rightarrow> context_for (texts_of st) cx' \<and> cx_indices cx' = indices_of st \<and>
        (\<forall>o' \<in> set offered'. proposal_ok (texts_of st) (fst o'))"
proof -
  obtain f d where p: "p = (f, locate d (find_index (cx_indices cx) f))" "dmem f (texts_of st)"
    using assms(3,4) by (cases p) (auto simp: placed_ok_def)
  have cx: "context_for (texts_of st) (cx\<lparr>cx_known := known\<rparr>)" for known
    using assms(2) by (simp add: context_for_def)
  show ?thesis
  proof (cases "offer rs cx p")
    case (Inl e)
    then show ?thesis using offer_sound [OF assms(1,2) p(2), of d] p(1) by (simp add: collect_step_def)
  next
    case (Inr pk)
    obtain proposed known where pk: "pk = (proposed, known)" by force
    have "\<forall>q. proposed = Some q \<longrightarrow> proposal_ok (texts_of st) q"
      using offer_sound [OF assms(1,2) p(2), of d] p(1) Inr pk by simp
    then show ?thesis using Inr pk cx [of known] assms(3,5) by (cases proposed) (simp_all add: collect_step_def Let_def)
  qed
qed

lemma collect_sound:
  assumes "set (ev_rules env) \<subseteq> set rules" "dict_ok (texts_of st)" "\<forall>p \<in> set placed. placed_ok st p"
  shows "case collect_proposals env st placed of
      Inl e \<Rightarrow> e = IndexErr | Inr (_, offered) \<Rightarrow> \<forall>o' \<in> set offered. proposal_ok (texts_of st) (fst o')"
proof -
  have go: "case foldE (collect_step (ev_rules env) (ns_applied st)) (cx, offered) placed of
      Inl e \<Rightarrow> e = IndexErr | Inr (_, offered) \<Rightarrow> \<forall>o' \<in> set offered. proposal_ok (texts_of st) (fst o')"
    if "context_for (texts_of st) cx" "cx_indices cx = indices_of st" "\<forall>o' \<in> set offered. proposal_ok (texts_of st) (fst o')"
    for cx offered
    using assms(3) that
  proof (induction placed arbitrary: cx offered)
    case Nil
    then show ?case by simp
  next
    case (Cons p placed)
    have p: "placed_ok st p" using Cons.prems(1) by simp
    note step = collect_step_sound [OF assms(1) Cons.prems(2,3) p Cons.prems(4), of "ns_applied st"]
    show ?case
    proof (cases "collect_step (ev_rules env) (ns_applied st) (cx, offered) p")
      case (Inl e)
      then show ?thesis using step by simp
    next
      case (Inr s)
      obtain cx' offered' where s: "s = (cx', offered')" by force
      then show ?thesis using Cons.IH [of cx' offered'] step Inr Cons.prems(1) by simp
    qed
  qed
  show ?thesis
    unfolding collect_proposals_def
    by (rule go) (use assms(2) in \<open>simp_all add: context_for_def context_of_def indices_of_def\<close>)
qed

lemma round_sound:
  assumes "set (ev_rules env) \<subseteq> set rules" "paths_ok env (texts_of st)" "norm_round env k st = Inl e"
  shows "e = IndexErr"
proof -
  have d: "dict_ok (texts_of st)" using assms(2) by (simp add: paths_ok_def)
  have "\<forall>p \<in> set (rp_placed (round_report env st)). placed_ok st p"
    using report_placed_ok [OF assms(2)] by blast
  note collected = collect_sound [OF assms(1) d this]
  show ?thesis
  proof (cases "collect_proposals env st (rp_placed (round_report env st))")
    case (Inl e')
    then have "e = e'" using assms(3) by (auto simp: norm_round_def Let_def split: if_splits)
    moreover have "e' = IndexErr" using collected Inl by simp
    ultimately show ?thesis by simp
  next
    case (Inr c)
    obtain cx offered where c: "c = (cx, offered)" by force
    have ok: "\<forall>o' \<in> set offered. proposal_ok (texts_of st) (fst o')"
      using collected Inr c by simp
    have d: "dict_ok (ns_sources st)"
      using assms(2) by (simp add: paths_ok_def dict_ok_def texts_of_def case_prod_beta comp_def)
    have "\<exists>st3. apply_proposals k offered st2 = Inr st3" if "ns_sources st2 = ns_sources st" for st2
      using round_applies [of st2 offered k] that ok d by (auto simp: texts_of_def)
    then have go: "bindE (apply_proposals k offered st2) (\<lambda>st3. Inr (Go st3)) \<noteq> Inl e" if "ns_sources st2 = ns_sources st" for st2
      using that by fastforce
    have "norm_round env k st \<noteq> Inl e"
      unfolding norm_round_def Let_def Inr c bindE_Inr split_conv
      by (intro if_not_eqI go) simp_all
    then show ?thesis using assms(3) by simp
  qed
qed

lemma rounds_sound:
  assumes "set (ev_rules env) \<subseteq> set rules" "paths_ok env files" "run_ok files st" "norm_rounds env n k st = Inl e"
  shows "e = IndexErr"
  using assms(3,4)
proof (induction n arbitrary: k st)
  case 0
  then show ?case by simp
next
  case (Suc n)
  show ?case
  proof (cases "norm_round env k st")
    case (Inl e')
    then show ?thesis using round_sound [OF assms(1) run_ok_paths [OF Suc.prems(1) assms(2)] Inl] Suc.prems(2) by simp
  next
    case (Inr out)
    have "run_ok files (outcome_state out)" using norm_round_run_ok [OF Inr Suc.prems(1)] .
    then show ?thesis using Inr Suc by (cases out) (auto simp: outcome_state_def)
  qed
qed

end

text \<open>Rebinding never fails: its spans are tokens of the text.\<close>

lemma rebind_from_spans:
  assumes "e \<in> set (rebind_from rebind ts)"
  shows "\<exists>t \<in> set ts. fst e = lt_start t \<and> fst (snd e) = lt_end t"
  using assms by (induction rebind ts rule: rebind_from.induct) (auto split: option.splits)

lemma replace_total: "start \<le> finish \<Longrightarrow> \<exists>es'. replace es start finish replacement r = Inr es'"
  by (auto simp: replace_def Let_def split: prod.splits)

lemma foldE_total: "(\<And>s x. x \<in> set xs \<Longrightarrow> \<exists>s'. f s x = Inr s') \<Longrightarrow> \<exists>s'. foldE f s xs = Inr s'"
proof (induction xs arbitrary: s)
  case (Cons x xs)
  obtain s1 where "f s x = Inr s1" using Cons.prems by auto
  moreover obtain s' where "foldE f s1 xs = Inr s'" using Cons.IH [of s1] Cons.prems by (meson list.set_intros(2))
  ultimately show ?case by simp
qed simp

lemma rebind_file_total: "\<exists>src. rebind_file rebind file = Inr src"
proof -
  have "lt_start t \<le> lt_end t" if "t \<in> set (significant (tokenize_lossless (snd file)))" for t
    using token_span(1) [of t "snd file"] that by (simp add: significant_def)
  then have "fst e \<le> fst (snd e)" if "e \<in> set (rebind_edits (snd file) rebind)" for e
    using rebind_from_spans that by (fastforce simp: rebind_edits_def)
  then have "\<exists>es. foldE (\<lambda>es e. replace es (fst e) (fst (snd e)) (snd (snd e)) (rs_id CONVERSION_REBIND))
      (new_source (snd file)) (rev (rebind_edits (snd file) rebind)) = Inr es"
    by (intro foldE_total replace_total) simp
  then show ?thesis by (auto simp: rebind_file_def Let_def)
qed

lemma initial_state_total: "\<exists>st. initial_state env files = Inr st"
proof -
  have "\<exists>rebound. mapE (rebind_file (ev_rebind env)) files = Inr rebound \<and> list_all2 (\<lambda>_ _. True) files rebound"
    using rebind_file_total by (intro mapE_all2) auto
  then show ?thesis by (auto simp: initial_state_def)
qed


section \<open>The common rules as a rule set\<close>

definition COMMON_RULES :: "rewrite_rule list" where
  "COMMON_RULES = [var_block_constant, array_brackets, keyword_rename, collision_rename, access_modifier, elseif_keyword]"

lemmas common_rules_keep =
  var_block_constant_keeps array_brackets_keeps keyword_rename_keeps collision_rename_keeps access_modifier_keeps
  elseif_keyword_keeps

lemma common_rules_raise:
  "raises_index_only var_block_constant" "raises_index_only array_brackets" "raises_index_only keyword_rename"
  "raises_index_only collision_rename" "raises_index_only access_modifier" "raises_index_only elseif_keyword"
  by (simp_all add: raises_index_only_def Let_def var_block_constant_def propose_var_block_constant_def
      array_brackets_def propose_array_brackets_def keyword_rename_def propose_keyword_rename_def
      collision_rename_def propose_collision_rename_def rename_proposal_def access_modifier_def
      propose_access_modifier_def modifier_at_def elseif_keyword_def propose_elseif_def index_only_intros)

interpretation common: rule_set COMMON_RULES
  by unfold_locales (auto simp: COMMON_RULES_def intro: common_rules_keep common_rules_raise)

end
