(* ===== verification/Codesys_Rules.thy ===== *)
theory Codesys_Rules
  imports Rewrite_Rules
begin

text \<open>
  The rules for CODESYS exports (\<^verbatim>\<open>compiler/intake/normalize/rules/codesys.py\<close>) and for library namespace
  qualifiers (\<^verbatim>\<open>rules/namespaces.py\<close>). Text taken out of the program is kept in a comment, which is shown to
  be one comment for the lexer; every rule is shown to keep the contract of \<open>Rewrite_Rules\<close>. Loops over
  tokens are recursions on the distance to the end of the unit or the file.
\<close>

section \<open>Comments\<close>

definition as_comment :: "string \<Rightarrow> string" where
  "as_comment t = ''(* '' @ replace_all ''*)'' ''* )'' (replace_all ''(*'' ''( *'' t) @ '' *)''"

lemma comment_length_plain:
  assumes "\<not> has_pair CHR ''('' CHR ''*'' (prev # s)" "\<not> has_pair CHR ''*'' CHR '')'' (prev # s)"
  shows "comment_length CHR ''('' CHR '')'' 1 prev (s @ '' *)'' @ rest) = Some (length s + 3)"
  using assms by (induction s arbitrary: prev) auto

lemma as_comment_body:
  obtains b where "as_comment t = ''(* '' @ b @ '' *)''"
    "\<not> has_pair CHR ''('' CHR ''*'' b" "\<not> has_pair CHR ''*'' CHR '')'' b"
proof -
  define a where "a = replace_all ''(*'' ''( *'' t"
  define b where "b = replace_all ''*)'' ''* )'' a"
  have a: "\<not> has_pair CHR ''('' CHR ''*'' a"
    unfolding a_def using spaced_no_pair [of "CHR ''(''" "CHR ''*''" "CHR ''(''" "CHR ''*''" t] by simp
  then have "\<not> has_pair CHR ''('' CHR ''*'' b" "\<not> has_pair CHR ''*'' CHR '')'' b"
    unfolding b_def using spaced_no_pair [of "CHR ''*''" "CHR '')''" "CHR ''(''" "CHR ''*''" a] by simp_all
  then show ?thesis using that by (simp add: as_comment_def a_def b_def)
qed

lemma scan_plain_comment:
  assumes "\<not> has_pair CHR ''('' CHR ''*'' b" "\<not> has_pair CHR ''*'' CHR '')'' b"
  shows "scan ((''(* '' @ b @ '' *)'') @ rest) = (''comment'', length b + 6)"
proof -
  have "comment_length CHR ''('' CHR '')'' 1 CHR '' '' ((CHR '' '' # b) @ '' *)'' @ rest) = Some (length (CHR '' '' # b) + 3)"
    using assms by (intro comment_length_plain) (simp_all add: has_pair_Cons)
  then have "block_comment_end ((''(* '' @ b @ '' *)'') @ rest) = Some (length b + 6)"
    by (simp add: block_comment_end_def Let_def)
  moreover have "\<not> is_blank_char CHR ''(''" "starts_with ''(*'' ((''(* '' @ b @ '' *)'') @ rest)"
    by (simp_all add: is_blank_char_def starts_with_def)
  ultimately show ?thesis by (simp add: scan_def scan_comment_def)
qed

lemma as_comment_scan: "scan (as_comment t @ rest) = (''comment'', length (as_comment t))"
proof -
  obtain b where b: "as_comment t = ''(* '' @ b @ '' *)''"
    "\<not> has_pair CHR ''('' CHR ''*'' b" "\<not> has_pair CHR ''*'' CHR '')'' b"
    by (rule as_comment_body)
  show ?thesis using scan_plain_comment [OF b(2,3)] by (simp add: b(1))
qed

section \<open>export-library-block\<close>

definition EXPORT_LIBRARY_BLOCK :: rule_spec where
  "EXPORT_LIBRARY_BLOCK = \<lparr>rs_id = ''export-library-block'', rs_version = 1, rs_level = ''L1'', rs_codes = [''E007'']\<rparr>"

definition export_closing :: "lossless_token \<Rightarrow> string option" where
  "export_closing token =
     (if upper_of token = ''LIBRARY'' then Some ''END_LIBRARY''
      else if lt_kind token = ''identifier'' \<and> starts_with ''_'' (upper_of token) \<and> \<not> starts_with ''_END_'' (upper_of token)
      then Some (''_END'' @ upper_of token) else None)"

text \<open>The distance to the closing word; \<open>None\<close> when a declaration or the end of the file comes first.\<close>

fun closing_distance :: "string \<Rightarrow> lossless_token list \<Rightarrow> nat option" where
  "closing_distance closing [] = None"
| "closing_distance closing (t # ts) =
     (if upper_of t = closing then Some 0
      else if upper_of t \<in> {''FUNCTION'', ''FUNCTION_BLOCK'', ''PROGRAM'', ''TYPE'', ''VAR_GLOBAL''} then None
      else map_option Suc (closing_distance closing ts))"

definition starts_top_level :: "lossless_token list \<Rightarrow> nat \<Rightarrow> bool" where
  "starts_top_level tokens i =
     (i = 0 \<or> lt_text (tokens ! (i - 1)) = '';'' \<or>
      upper_of (tokens ! (i - 1)) \<in> {''END_VAR'', ''END_TYPE'', ''END_FUNCTION'', ''END_FUNCTION_BLOCK'',
        ''END_PROGRAM'', ''END_LIBRARY''} \<or> starts_with ''_END_'' (upper_of (tokens ! (i - 1))))"

definition propose_export_library :: "rule_context \<Rightarrow> string \<Rightarrow> located \<Rightarrow> proposing" where
  "propose_export_library cx f item =
     (case lo_token item of
        None \<Rightarrow> decline cx
      | Some token \<Rightarrow>
          (case (if lo_unit item = None then export_closing token else None) of
             None \<Rightarrow> decline cx
           | Some closing \<Rightarrow>
               (let si = rule_index cx f; tokens = si_significant si; i = significant_index si (lt_start token) in
                if \<not> starts_top_level tokens i then decline cx
                else case closing_distance closing (drop (i + 1) tokens) of
                  None \<Rightarrow> decline cx
                | Some k \<Rightarrow>
                    (let finish = lt_end (tokens ! (i + 1 + k)); block = span (lt_start token) finish (si_text si) in
                     offers cx (make_proposal EXPORT_LIBRARY_BLOCK
                       [KText (rs_id EXPORT_LIBRARY_BLOCK), KText f, KNum (lt_start token)]
                       [mk_edit f (lt_start token) finish (as_comment block)]
                       (join '' '' (take 2 (drop 1 (split_blanks block)))) [])))))"

definition export_library :: rewrite_rule where
  "export_library = \<lparr>rl_spec = EXPORT_LIBRARY_BLOCK, rl_propose = propose_export_library\<rparr>"

section \<open>end-functionblock-keyword\<close>

definition END_FUNCTIONBLOCK_KEYWORD :: rule_spec where
  "END_FUNCTIONBLOCK_KEYWORD =
     \<lparr>rs_id = ''end-functionblock-keyword'', rs_version = 1, rs_level = ''L1'', rs_codes = [''E007'']\<rparr>"

text \<open>The unit's last significant token, or the one before a final semicolon.\<close>

definition end_word_index :: "source_index \<Rightarrow> st_unit \<Rightarrow> nat" where
  "end_word_index si u =
     (let n = significant_index si (un_end u) - 1 in if lt_text (si_significant si ! n) = '';'' then n - 1 else n)"

definition end_block_edit :: "string \<Rightarrow> source_index \<Rightarrow> located \<Rightarrow> st_unit \<Rightarrow> edit option" where
  "end_block_edit f si item u =
     (let token = si_significant si ! end_word_index si u in
      if un_kind u \<noteq> ''FUNCTION_BLOCK'' \<or> \<not> un_closed u \<or> upper_of token \<noteq> ''END_FUNCTIONBLOCK''
        \<or> (lo_offset item < un_start u \<and> dg_line (lo_diagnostic item) \<noteq> 0) then None
      else Some (token_edit f token ''END_FUNCTION_BLOCK''))"

definition propose_end_block :: "rule_context \<Rightarrow> string \<Rightarrow> located \<Rightarrow> proposing" where
  "propose_end_block cx f item =
     (let si = rule_index cx f; edits = List.map_filter (end_block_edit f si item) (si_units si) in
      if edits = [] then decline cx
      else offers cx (make_proposal END_FUNCTIONBLOCK_KEYWORD [KText (rs_id END_FUNCTIONBLOCK_KEYWORD), KText f]
        edits [] []))"

definition end_block_keyword :: rewrite_rule where
  "end_block_keyword = \<lparr>rl_spec = END_FUNCTIONBLOCK_KEYWORD, rl_propose = propose_end_block\<rparr>"

section \<open>header-semicolon\<close>

definition HEADER_SEMICOLON :: rule_spec where
  "HEADER_SEMICOLON = \<lparr>rs_id = ''header-semicolon'', rs_version = 1, rs_level = ''L1'', rs_codes = [''E007'']\<rparr>"

definition HEADER_KEYWORDS :: "string set" where
  "HEADER_KEYWORDS = {''METHOD'', ''FUNCTION'', ''FUNCTION_BLOCK'', ''PROGRAM''}"

definition VAR_BLOCKS :: "string set" where
  "VAR_BLOCKS = {''VAR'', ''VAR_INPUT'', ''VAR_OUTPUT'', ''VAR_IN_OUT'', ''VAR_TEMP'', ''VAR_INST'', ''VAR_STAT''}"

text \<open>The header keyword among the given indices, unless a statement or block ends before it.\<close>

fun header_index :: "lossless_token list \<Rightarrow> nat list \<Rightarrow> nat option" where
  "header_index tokens [] = None"
| "header_index tokens (h # hs) =
     (if upper_of (tokens ! h) \<in> HEADER_KEYWORDS then Some h
      else if lt_text (tokens ! h) = '';'' \<or> starts_with ''END_'' (upper_of (tokens ! h)) \<or> upper_of (tokens ! h) \<in> VAR_BLOCKS
      then None else header_index tokens hs)"

text \<open>The variable block after a semicolon, at token \<open>k\<close> or one of the two before it.\<close>

definition block_index :: "lossless_token list \<Rightarrow> nat \<Rightarrow> nat option" where
  "block_index tokens k =
     find (\<lambda>b. upper_of (tokens ! b) \<in> VAR_BLOCKS \<and> lt_text (tokens ! (b - 1)) = '';'') (rev [Suc (k - 3)..<Suc k])"

definition propose_header_semicolon :: "rule_context \<Rightarrow> string \<Rightarrow> located \<Rightarrow> proposing" where
  "propose_header_semicolon cx f item =
     (let si = rule_index cx f; tokens = si_significant si;
          k = min (significant_index si (lo_offset item)) (length tokens - 1) in
      case (if tokens = [] then None else block_index tokens k) of
        None \<Rightarrow> decline cx
      | Some b \<Rightarrow>
          (let semicolon = b - 1 in
           case header_index tokens (rev [semicolon - 39..<semicolon]) of
             None \<Rightarrow> decline cx
           | Some header \<Rightarrow>
               if semicolon - header < 2 then decline cx
               else offers cx (make_proposal HEADER_SEMICOLON
                 [KText (rs_id HEADER_SEMICOLON), KText f, KNum (lt_start (tokens ! semicolon))]
                 [token_edit f (tokens ! semicolon) (as_comment '';'')] [] [])))"

definition header_semicolon :: rewrite_rule where
  "header_semicolon = \<lparr>rl_spec = HEADER_SEMICOLON, rl_propose = propose_header_semicolon\<rparr>"

section \<open>chained-assignment\<close>

definition CHAINED_ASSIGNMENT :: rule_spec where
  "CHAINED_ASSIGNMENT = \<lparr>rs_id = ''chained-assignment'', rs_version = 1, rs_level = ''L2'', rs_codes = [''CODEGEN'']\<rparr>"

definition STATEMENT_START :: "string set" where
  "STATEMENT_START = {'';'', ''THEN'', ''ELSE'', ''DO'', ''REPEAT'', ''END_VAR'', '':''}"

definition bracket_delta :: "string \<Rightarrow> int" where
  "bracket_delta s = (if s = ''['' then 1 else if s = '']'' then -1 else 0)"

definition nesting_delta :: "string \<Rightarrow> int" where
  "nesting_delta s = (if s = ''('' \<or> s = ''['' then 1 else if s = '')'' \<or> s = '']'' then -1 else 0)"

text \<open>The index after the bracket that closes the one at \<open>j\<close>.\<close>

function after_bracket :: "lossless_token list \<Rightarrow> nat \<Rightarrow> nat \<Rightarrow> int \<Rightarrow> nat option" where
  "after_bracket tokens stop j depth =
     (if j < stop then
        (let d = depth + bracket_delta (lt_text (tokens ! j))
         in if d = 0 then Some (j + 1) else after_bracket tokens stop (j + 1) d)
      else None)"
  by pat_completeness auto
termination by (relation "measure (\<lambda>(tokens, stop, j, depth). stop - j)") auto

declare after_bracket.simps [simp del]

lemma after_bracket_bounds: "after_bracket tokens stop j depth = Some e \<Longrightarrow> j < e \<and> e \<le> stop"
proof (induction tokens stop j depth rule: after_bracket.induct)
  case (1 tokens stop j depth)
  let ?d = "depth + bracket_delta (lt_text (tokens ! j))"
  have j: "j < stop" using "1.prems" by (subst (asm) after_bracket.simps) (simp split: if_splits)
  show ?case
  proof (cases "?d = 0")
    case True
    then show ?thesis using "1.prems" j by (subst (asm) after_bracket.simps) simp
  next
    case False
    then have "after_bracket tokens stop (j + 1) ?d = Some e"
      using "1.prems" j by (subst (asm) after_bracket.simps) simp
    then show ?thesis using "1.IH" [OF j refl False] by simp
  qed
qed

text \<open>The members, indices and dereferences after a name.\<close>

function reference_tail :: "lossless_token list \<Rightarrow> nat \<Rightarrow> nat \<Rightarrow> nat option" where
  "reference_tail tokens stop j =
     (if \<not> j < stop then Some j
      else if lt_text (tokens ! j) = ''.'' \<and> j + 1 < stop \<and> lt_kind (tokens ! (j + 1)) \<in> {''identifier'', ''keyword''}
      then reference_tail tokens stop (j + 2)
      else if lt_text (tokens ! j) = ''^'' then reference_tail tokens stop (j + 1)
      else if lt_text (tokens ! j) = ''['' then
        (case after_bracket tokens stop j 0 of None \<Rightarrow> None | Some e \<Rightarrow> reference_tail tokens stop e)
      else Some j)"
  by pat_completeness auto
termination
  by (relation "measure (\<lambda>(tokens, stop, j). stop - j)") (auto dest: after_bracket_bounds)

declare reference_tail.simps [simp del]

lemma reference_tail_bounds: "reference_tail tokens stop j = Some e \<Longrightarrow> j \<le> stop \<Longrightarrow> j \<le> e \<and> e \<le> stop"
proof (induction tokens stop j rule: reference_tail.induct)
  case (1 tokens stop j)
  note s = "1.prems"(1) [unfolded reference_tail.simps [of tokens stop j]]
  show ?case
    using s "1.IH" "1.prems"(2) by (auto split: if_splits option.splits dest: after_bracket_bounds)
qed

definition reference_end :: "lossless_token list \<Rightarrow> nat \<Rightarrow> nat \<Rightarrow> nat option" where
  "reference_end tokens i stop =
     (if stop \<le> i \<or> lt_kind (tokens ! i) \<noteq> ''identifier'' then None else reference_tail tokens stop (i + 1))"

lemma reference_end_bounds: "reference_end tokens i stop = Some e \<Longrightarrow> i < e \<and> e \<le> stop"
  using reference_tail_bounds [of tokens stop "i + 1" e] by (auto simp: reference_end_def split: if_splits)

text \<open>The targets \<open>t1 := t2 := ...\<close> from \<open>i\<close> and the index after the last \<open>:=\<close>.\<close>

function chain_targets :: "lossless_token list \<Rightarrow> nat \<Rightarrow> nat \<Rightarrow> (nat \<times> nat) list \<times> nat" where
  "chain_targets tokens stop i =
     (case reference_end tokens i stop of
        None \<Rightarrow> ([], i)
      | Some e \<Rightarrow>
          if stop \<le> e \<or> lt_text (tokens ! e) \<noteq> '':='' then ([], i)
          else (case chain_targets tokens stop (e + 1) of (ts, j) \<Rightarrow> ((i, e) # ts, j)))"
  by pat_completeness auto
termination
  by (relation "measure (\<lambda>(tokens, stop, i). stop - i)") (auto dest!: reference_end_bounds)

declare chain_targets.simps [simp del]

text \<open>The index of the semicolon that ends an expression; \<open>stop\<close> if there is none.\<close>

function expression_end :: "lossless_token list \<Rightarrow> nat \<Rightarrow> nat \<Rightarrow> int \<Rightarrow> nat" where
  "expression_end tokens stop j depth =
     (if j < stop \<and> \<not> (depth = 0 \<and> lt_text (tokens ! j) = '';'')
      then expression_end tokens stop (j + 1) (depth + nesting_delta (lt_text (tokens ! j))) else j)"
  by pat_completeness auto
termination by (relation "measure (\<lambda>(tokens, stop, j, depth). stop - j)") auto

declare expression_end.simps [simp del]

record chain =
  ch_targets :: "(nat \<times> nat) list"
  ch_start :: nat
  ch_semicolon :: nat

definition chained_assignment :: "lossless_token list \<Rightarrow> nat \<Rightarrow> nat \<Rightarrow> chain option" where
  "chained_assignment tokens start stop =
     (case chain_targets tokens stop start of (targets, i) \<Rightarrow>
        if length targets < 2 then None
        else let j = expression_end tokens stop i 0 in
          if stop \<le> j \<or> j = i then None else Some \<lparr>ch_targets = targets, ch_start = i, ch_semicolon = j\<rparr>)"

text \<open>The chain of the statement a diagnostic lies in.\<close>

definition chain_at :: "lossless_token list \<Rightarrow> nat \<Rightarrow> nat \<Rightarrow> nat \<Rightarrow> chain option" where
  "chain_at tokens stop offset k =
     (if lt_text (tokens ! (k - 1)) \<notin> STATEMENT_START \<and> upper_of (tokens ! (k - 1)) \<notin> STATEMENT_START then None
      else case chained_assignment tokens k stop of
        None \<Rightarrow> None
      | Some c \<Rightarrow>
          if lt_start (tokens ! k) \<le> offset \<and> offset \<le> lt_end (tokens ! ch_semicolon c) then Some c else None)"

fun first_chain :: "lossless_token list \<Rightarrow> nat \<Rightarrow> nat \<Rightarrow> nat list \<Rightarrow> (nat \<times> chain) option" where
  "first_chain tokens stop offset [] = None"
| "first_chain tokens stop offset (k # ks) =
     (case chain_at tokens stop offset k of
        None \<Rightarrow> first_chain tokens stop offset ks | Some c \<Rightarrow> Some (k, c))"

text \<open>The expression or an index calls a function, or mentions a target.\<close>

definition calls_in :: "lossless_token list \<Rightarrow> nat \<times> nat \<Rightarrow> bool" where
  "calls_in tokens r = (\<exists>m \<in> set [fst r..<snd r]. lt_text (tokens ! m) = ''('' \<and> fst r < m \<and>
     lt_kind (tokens ! (m - 1)) = ''identifier'')"

definition mentions :: "lossless_token list \<Rightarrow> string list \<Rightarrow> nat \<times> nat \<Rightarrow> bool" where
  "mentions tokens names r = (\<exists>m \<in> set [fst r..<snd r]. is_word (tokens ! m) \<and> upper_of (tokens ! m) \<in> set names)"

definition repeatable :: "lossless_token list \<Rightarrow> chain \<Rightarrow> bool" where
  "repeatable tokens c =
     (let names = map (\<lambda>(s, e). upper_of (tokens ! s)) (ch_targets c); expression = (ch_start c, ch_semicolon c) in
      \<not> list_ex (calls_in tokens) (ch_targets c @ [expression]) \<and> \<not> mentions tokens names expression \<and>
      \<not> list_ex (\<lambda>(s, e). mentions tokens names (s + 1, e)) (ch_targets c))"

definition token_text :: "source_index \<Rightarrow> nat \<times> nat \<Rightarrow> string" where
  "token_text si r = span (lt_start (si_significant si ! fst r)) (lt_end (si_significant si ! (snd r - 1))) (si_text si)"

definition unchained :: "source_index \<Rightarrow> chain \<Rightarrow> string" where
  "unchained si c =
     join '' '' (map (\<lambda>r. token_text si r @ '' := '' @ token_text si (ch_start c, ch_semicolon c) @ '';'') (ch_targets c))"

definition propose_chained :: "rule_context \<Rightarrow> string \<Rightarrow> located \<Rightarrow> proposing" where
  "propose_chained cx f item =
     (case (if starts_with ''Expected Struct-literal, got Assignment'' (dg_message (lo_diagnostic item)) then lo_unit item
            else None) of
        None \<Rightarrow> decline cx
      | Some u \<Rightarrow>
          (let si = rule_index cx f; tokens = si_significant si;
               first = significant_index si (un_start u); stop = significant_index si (un_end u) in
           case first_chain tokens stop (lo_offset item) [first + 1..<stop] of
             None \<Rightarrow> decline cx
           | Some (k, c) \<Rightarrow>
               if \<not> repeatable tokens c then decline cx
               else offers cx (make_proposal CHAINED_ASSIGNMENT
                 [KText (rs_id CHAINED_ASSIGNMENT), KText f, KNum (lt_start (tokens ! k))]
                 [mk_edit f (lt_start (tokens ! k)) (lt_end (tokens ! ch_semicolon c)) (unchained si c)]
                 (show_nat (length (ch_targets c)) @ '' targets'') [])))"

definition chained_rule :: rewrite_rule where
  "chained_rule = \<lparr>rl_spec = CHAINED_ASSIGNMENT, rl_propose = propose_chained\<rparr>"

section \<open>empty-struct-initializer\<close>

definition EMPTY_STRUCT_INITIALIZER :: rule_spec where
  "EMPTY_STRUCT_INITIALIZER =
     \<lparr>rs_id = ''empty-struct-initializer'', rs_version = 1, rs_level = ''L2'', rs_codes = [''E007'']\<rparr>"

definition ZERO_LITERALS :: "(string, string) dict" where
  "ZERO_LITERALS = [(''BOOL'', ''FALSE''), (''SINT'', ''0''), (''INT'', ''0''), (''DINT'', ''0''), (''LINT'', ''0''),
     (''USINT'', ''0''), (''UINT'', ''0''), (''UDINT'', ''0''), (''ULINT'', ''0''), (''BYTE'', ''0''), (''WORD'', ''0''),
     (''DWORD'', ''0''), (''LWORD'', ''0''), (''REAL'', ''0.0''), (''LREAL'', ''0.0''),
     (''STRING'', [CHR 0x27, CHR 0x27]), (''WSTRING'', [CHR 0x22, CHR 0x22]), (''TIME'', ''T#0s''), (''LTIME'', ''LTIME#0s'')]"

record struct_member =
  sm_name :: string
  sm_value :: string
  sm_zero :: bool
  sm_string :: bool

definition is_string_type :: "string \<Rightarrow> bool" where
  "is_string_type base = (base \<in> {''STRING'', ''WSTRING''})"

text \<open>The members from token \<open>k\<close> up to \<open>END_STRUCT\<close>.\<close>

function struct_members :: "string \<Rightarrow> lossless_token list \<Rightarrow> nat \<Rightarrow> norm_error + struct_member list option" where
  "struct_members t ts k =
     (if \<not> (k < length ts \<and> upper_of (ts ! k) \<noteq> ''END_STRUCT'') then Inr (Some [])
      else if lt_kind (ts ! k) \<notin> {''identifier'', ''keyword''} then Inr None
      else if length ts \<le> k + 1 then Inl IndexErr
      else if lt_text (ts ! (k + 1)) \<noteq> '':'' then Inr None
      else if length ts \<le> k + 2 then Inl IndexErr
      else
        (let j = k + 2; base = upper_of (ts ! j);
             type_end = next_index (\<lambda>u. lt_text u = '';'' \<or> lt_text u = '':='') ts j (length ts);
             sized = (is_string_type base \<and> j + 1 < type_end \<and> lt_text (ts ! (j + 1)) \<in> {''('', ''[''}) in
         case dget ZERO_LITERALS base of
           None \<Rightarrow> Inr None
         | Some zero \<Rightarrow>
             if type_end \<noteq> j + 1 \<and> \<not> sized then Inr None
             else if length ts \<le> type_end then Inl IndexErr
             else if lt_text (ts ! type_end) = '':='' \<and> length ts \<le> type_end + 1 then Inl IndexErr
             else
               (let given = (lt_text (ts ! type_end) = '':='');
                    finish = (if given then next_index (\<lambda>u. lt_text u = '';'') ts type_end (length ts) else type_end);
                    value = (if given then span (lt_start (ts ! (type_end + 1))) (lt_end (ts ! (finish - 1))) t else zero) in
                bindE (struct_members t ts (finish + 1)) (\<lambda>rest. Inr (map_option
                  (Cons \<lparr>sm_name = lt_text (ts ! k), sm_value = value, sm_zero = (value = zero),
                         sm_string = is_string_type base\<rparr>) rest)))))"
  by pat_completeness auto
termination
  by (relation "measure (\<lambda>(t, ts, k). length ts - k)") (auto simp: next_index_def)

declare struct_members.simps [simp del]

text \<open>The first \<open>TYPE name\<close> of the project, in the order of the file names.\<close>

definition type_position :: "rule_context \<Rightarrow> string \<Rightarrow> (source_index \<times> nat) option" where
  "type_position cx type_name =
     find (\<lambda>(si, i). upper_of (si_significant si ! i) = ''TYPE'' \<and> upper_of (si_significant si ! (i + 1)) = type_name)
       (concat (map (\<lambda>(_, si). map (Pair si) [0..<length (si_significant si) - 3]) (sort_key fst (cx_indices cx))))"

definition struct_defaults :: "rule_context \<Rightarrow> string \<Rightarrow> norm_error + struct_member list option" where
  "struct_defaults cx type_name =
     (case type_position cx type_name of
        None \<Rightarrow> Inr None
      | Some (si, i) \<Rightarrow>
          (let ts = si_significant si; k = i + 2 + (if lt_text (ts ! (i + 2)) = '':'' then 1 else 0) in
           if upper_of (ts ! k) \<noteq> ''STRUCT'' then Inr None
           else bindE (struct_members (si_text si) ts (k + 1)) (\<lambda>ms. Inr (if ms = Some [] then None else ms))))"

text \<open>Back to the \<open>:=\<close> after the element type, or to a semicolon or the second token.\<close>

function initializer_start :: "lossless_token list \<Rightarrow> nat \<Rightarrow> nat" where
  "initializer_start ts s =
     (if 1 < s \<and> lt_text (ts ! s) \<noteq> '';'' \<and> \<not> (lt_text (ts ! s) = '':='' \<and> upper_of (ts ! (s - 2)) = ''OF'')
      then initializer_start ts (s - 1) else s)"
  by pat_completeness auto
termination by (relation "measure snd") auto

declare initializer_start.simps [simp del]

definition element_literal :: "struct_member list \<Rightarrow> string" where
  "element_literal ms =
     (let nonzero = filter (\<lambda>m. \<not> sm_zero m) ms;
          written = (if nonzero \<noteq> [] then nonzero
                     else [case find (\<lambda>m. \<not> sm_string m) ms of Some m \<Rightarrow> m | None \<Rightarrow> hd ms]) in
      ''('' @ join '', '' (map (\<lambda>m. sm_name m @ '' := '' @ sm_value m) written) @ '')'')"

text \<open>The empty elements \<open>()\<close> up to the semicolon of the declaration.\<close>

function element_edits :: "string \<Rightarrow> string \<Rightarrow> lossless_token list \<Rightarrow> nat \<Rightarrow> int \<Rightarrow> norm_error + edit list" where
  "element_edits f literal ts j depth =
     (if \<not> (j < length ts \<and> \<not> (depth = 0 \<and> lt_text (ts ! j) = '';'')) then Inr []
      else if lt_text (ts ! j) = ''('' \<and> length ts \<le> j + 1 then Inl IndexErr
      else if lt_text (ts ! j) = ''('' \<and> lt_text (ts ! (j + 1)) = '')'' then
        bindE (element_edits f literal ts (j + 2) depth) (\<lambda>es.
          Inr (mk_edit f (lt_start (ts ! j)) (lt_end (ts ! (j + 1))) literal # es))
      else element_edits f literal ts (j + 1) (depth + nesting_delta (lt_text (ts ! j))))"
  by pat_completeness auto
termination by (relation "measure (\<lambda>(f, literal, ts, j, depth). length ts - j)") auto

declare element_edits.simps [simp del]

definition propose_empty_struct :: "rule_context \<Rightarrow> string \<Rightarrow> located \<Rightarrow> proposing" where
  "propose_empty_struct cx f item =
     (let si = rule_index cx f; ts = si_significant si; k = significant_index si (lo_offset item) in
      if \<not> (0 < k \<and> k < length ts \<and> lt_text (ts ! k) = '')'' \<and> lt_text (ts ! (k - 1)) = ''('') then decline cx
      else let start = initializer_start ts (k - 1) in
        if lt_text (ts ! start) \<noteq> '':='' then decline cx
        else bindE (struct_defaults cx (upper_of (ts ! (start - 1)))) (\<lambda>ms. case ms of
            None \<Rightarrow> decline cx
          | Some ms \<Rightarrow> bindE (element_edits f (element_literal ms) ts (start + 1) 0) (\<lambda>es.
              offers cx (make_proposal EMPTY_STRUCT_INITIALIZER
                [KText (rs_id EMPTY_STRUCT_INITIALIZER), KText f, KNum (lt_start (ts ! start))] es
                (show_nat (length es) @ '' elements of '' @ lt_text (ts ! (start - 1))) []))))"

definition empty_struct :: rewrite_rule where
  "empty_struct = \<lparr>rl_spec = EMPTY_STRUCT_INITIALIZER, rl_propose = propose_empty_struct\<rparr>"

section \<open>library-qualifier\<close>

definition LIBRARY_QUALIFIER :: rule_spec where
  "LIBRARY_QUALIFIER = \<lparr>rs_id = ''library-qualifier'', rs_version = 1, rs_level = ''L2'',
     rs_codes = [''E007'', ''E006'', ''E048'', ''E052'']\<rparr>"

text \<open>How often the project defines a name; the members of the namespaces count as once.\<close>

definition defined_count :: "rule_context \<Rightarrow> string \<Rightarrow> nat" where
  "defined_count cx name =
     (let n = length (filter (\<lambda>u. un_name u \<noteq> [] \<and> py_upper (un_name u) = name)
                (concat (map (\<lambda>(_, si). si_units si) (cx_indices cx))))
      in if n = 0 \<and> (\<exists>(_, members) \<in> set (cx_namespaces cx). name \<in> set members) then 1 else n)"

definition qualified_at :: "lossless_token list \<Rightarrow> nat \<Rightarrow> bool" where
  "qualified_at ts k = (is_word (ts ! k) \<and> lt_text (ts ! (k + 1)) = ''.'' \<and> is_word (ts ! (k + 2)) \<and>
     (k = 0 \<or> lt_text (ts ! (k - 1)) \<noteq> ''.''))"

definition resolves :: "rule_context \<Rightarrow> string \<Rightarrow> string \<Rightarrow> bool" where
  "resolves cx qualifier name =
     (defined_count cx qualifier = 0 \<and>
      ((case dget (cx_namespaces cx) qualifier of None \<Rightarrow> False | Some members \<Rightarrow> name \<in> set members \<and> defined_count cx name = 1) \<or>
       (qualifier \<in> set (map py_upper (cx_standard_namespaces cx)) \<and> name \<in> cx_standard cx \<and> defined_count cx name = 0)))"

definition qualifier_edits :: "string \<Rightarrow> string \<Rightarrow> string \<times> source_index \<Rightarrow> edit list" where
  "qualifier_edits qualifier name file = (case file of (f, si) \<Rightarrow>
     let ts = si_significant si in
     map (\<lambda>m. mk_edit f (lt_start (ts ! m)) (lt_start (ts ! (m + 2))) [])
       (filter (\<lambda>m. upper_of (ts ! m) = qualifier \<and> lt_text (ts ! (m + 1)) = ''.'' \<and> upper_of (ts ! (m + 2)) = name \<and>
                    (m = 0 \<or> lt_text (ts ! (m - 1)) \<noteq> ''.''))
         [0..<length ts - 2]))"

definition propose_qualifier :: "rule_context \<Rightarrow> string \<Rightarrow> located \<Rightarrow> proposing" where
  "propose_qualifier cx f item =
     (let si = rule_index cx f; ts = si_significant si; i = significant_index si (lo_offset item) in
      case find (\<lambda>k. qualified_at ts k \<and> resolves cx (upper_of (ts ! k)) (upper_of (ts ! (k + 2))))
             [i - 6..<min (length ts - 2) (i + 6)] of
        None \<Rightarrow> decline cx
      | Some k \<Rightarrow>
          (let qualifier = upper_of (ts ! k); name = upper_of (ts ! (k + 2)) in
           offers cx (make_proposal LIBRARY_QUALIFIER [KText (rs_id LIBRARY_QUALIFIER), KText qualifier, KText name]
             (concat (map (qualifier_edits qualifier name) (sort_key fst (cx_indices cx))))
             (qualifier @ ''.'' @ name) [])))"

definition library_qualifier :: rewrite_rule where
  "library_qualifier = \<lparr>rl_spec = LIBRARY_QUALIFIER, rl_propose = propose_qualifier\<rparr>"

section \<open>The rules keep the contract\<close>

lemma closing_distance_less: "closing_distance closing ts = Some k \<Longrightarrow> k < length ts"
  by (induction ts arbitrary: k) (auto split: if_splits)

lemma export_library_keeps: "keeps_contract export_library"
proof (rule keeps_contractI)
  fix files cx f t d p known
  assume t: "dget files f = Some t" "rule_index cx f = new_index t"
    and p: "rl_propose export_library cx f (locate d (new_index t)) = Inr (Some p, known)"
  let ?si = "new_index t"
  let ?ts = "si_significant ?si"
  obtain token where tok: "lo_token (locate d ?si) = Some token"
    using p by (auto simp: export_library_def propose_export_library_def split: option.splits)
  let ?i = "significant_index ?si (lt_start token)"
  obtain closing k where k: "closing_distance closing (drop (?i + 1) ?ts) = Some k"
    "pr_edits p = [mk_edit f (lt_start token) (lt_end (?ts ! (?i + 1 + k)))
       (as_comment (span (lt_start token) (lt_end (?ts ! (?i + 1 + k))) (si_text ?si)))]"
    using p tok by (auto simp: export_library_def propose_export_library_def t(2) Let_def
        simp del: index_significant split: if_splits option.splits)
  have l: "?i + 1 + k < length ?ts" using closing_distance_less [OF k(1)] by simp
  have "lt_start token < lt_end (?ts ! ?i)" using significant_index_spec(2) [OF refl refl] l by simp
  also have "lt_end (?ts ! ?i) \<le> lt_end (?ts ! (?i + 1 + k))"
    using ordered_end_mono(1) [of ?ts ?i "?i + 1 + k"] significant_ordered [of t] l by simp
  finally show "proposal_ok files p"
    using single_edit_ok [OF t(1) _ _ k(2)] token_span(2) [OF nth_token [OF l]] by simp
qed

lemma header_index_mem: "header_index tokens hs = Some h \<Longrightarrow> h \<in> set hs"
  by (induction hs) (auto split: if_splits)

lemma header_semicolon_keeps: "keeps_contract header_semicolon"
proof (rule keeps_contractI)
  fix files cx f t d p known
  assume t: "dget files f = Some t" "rule_index cx f = new_index t"
    and p: "rl_propose header_semicolon cx f (locate d (new_index t)) = Inr (Some p, known)"
  let ?si = "new_index t"
  let ?ts = "si_significant ?si"
  let ?k = "min (significant_index ?si (lo_offset (locate d ?si))) (length ?ts - 1)"
  obtain b where b: "?ts \<noteq> []" "block_index ?ts ?k = Some b" "pr_edits p = [token_edit f (?ts ! (b - 1)) (as_comment '';'')]"
    using p by (auto simp: header_semicolon_def propose_header_semicolon_def t(2) Let_def
        simp del: index_significant split: if_splits option.splits)
  have "b \<le> ?k" using find_mem [OF b(2) [unfolded block_index_def]] by auto
  moreover have "0 < length ?ts" using b(1) by blast
  ultimately have "b - 1 < length ?ts" by linarith
  from single_token_ok [OF t(1) nth_token [OF this] b(3)] show "proposal_ok files p" .
qed

lemma units_from_start:
  assumes "u \<in> set (units_from ts mks nss cur i)" "tokens_ordered ts"
  shows "\<exists>j < length ts. un_start u = lt_start (ts ! j) \<and> lt_end (ts ! j) \<le> un_end u \<and> dmem (kw (ts ! j)) UNIT_END"
  using assms(1)
proof (induction "length ts - i" arbitrary: mks nss cur i rule: less_induct)
  case less
  show ?case
  proof (cases rule: units_from_step [of i ts mks nss cur])
    case stop
    with less.prems show ?thesis by simp
  next
    case (skip mks' nss' cur' i')
    have "length ts - i' < length ts - i" using skip(1,2) by (intro diff_less_mono2)
    with less.hyps less.prems show ?thesis unfolding skip(4) by blast
  next
    case (unit mks' cur' v j)
    have v: "un_start v = lt_start (ts ! i)" "i < j"
      and all: "\<forall>k. i \<le> k \<longrightarrow> k \<le> j \<longrightarrow> k < length ts \<longrightarrow> lt_end (ts ! k) \<le> un_end v"
      using unit_at_sound [OF assms(2) unit(1,2,3)] by blast+
    have "lt_end (ts ! i) \<le> un_end v" using all v(2) unit(1) by simp
    note v = v this
    have "length ts - (j + 1) < length ts - i" using unit(1) v(2) by (intro diff_less_mono2) simp_all
    with less.hyps less.prems v(1,3) unit(1,2) show ?thesis unfolding unit(4) by auto
  qed
qed

lemma index_units_ok: "units_ok 0 (lt_end (last (si_significant (new_index t)))) (si_units (new_index t))"
proof -
  have ord: "tokens_ordered (significant (tokenize_lossless t))" by (rule significant_ordered)
  have "behind (significant (tokenize_lossless t)) 0 0"
    by (simp add: behind_def)
  from units_from_ok [OF ord this] show ?thesis by (simp add: split_units_def)
qed

lemma end_word_bounds:
  assumes "u \<in> set (si_units (new_index t))"
  obtains b where "b \<le> end_word_index (new_index t) u" "lt_start (si_significant (new_index t) ! b) = un_start u"
    "end_word_index (new_index t) u < length (si_significant (new_index t))"
    "lt_end (si_significant (new_index t) ! end_word_index (new_index t) u) \<le> un_end u"
proof -
  let ?si = "new_index t"
  let ?ts = "si_significant ?si"
  let ?n = "significant_index ?si (un_end u)"
  have ord: "tokens_ordered ?ts" using significant_ordered by simp
  have "u \<in> set (units_from ?ts (source_markers (tokenize_lossless t)) [] None 0)"
    using assms by (simp add: split_units_def)
  from units_from_start [OF this ord]
  obtain b where b: "b < length ?ts" "un_start u = lt_start (?ts ! b)" "lt_end (?ts ! b) \<le> un_end u"
    "dmem (kw (?ts ! b)) UNIT_END" by blast
  have n: "b < ?n"
  proof (rule ccontr)
    assume "\<not> b < ?n"
    then have "?n \<le> b" "?n < length ?ts" using b(1) by simp_all
    then show False
      using significant_index_spec(2) [OF refl refl, of t "un_end u"] ordered_end_mono(1) [OF ord, of ?n b] b(1,3) by simp
  qed
  have m: "b \<le> ?n - 1 \<and> (lt_text (?ts ! (?n - 1)) = '';'' \<longrightarrow> b \<noteq> ?n - 1)"
    using n kw_semicolon [of "?ts ! (?n - 1)"] UNIT_END_words [OF b(4)] by auto
  then have e: "b \<le> end_word_index ?si u" "end_word_index ?si u < ?n"
    using n by (auto simp: end_word_index_def Let_def simp del: index_significant)
  then have "end_word_index ?si u < length ?ts" using significant_index_le [of ?si "un_end u"] by simp
  moreover have "lt_end (?ts ! end_word_index ?si u) \<le> un_end u"
    using significant_index_spec(1) [OF refl refl e(2)] .
  ultimately show ?thesis using that e(1) b(2) by simp
qed

lemma sorted_wrt_map_filter:
  assumes "sorted_wrt P xs" "\<And>x y a b. P x y \<Longrightarrow> x \<in> set xs \<Longrightarrow> y \<in> set xs \<Longrightarrow> f x = Some a \<Longrightarrow> f y = Some b \<Longrightarrow> Q a b"
  shows "sorted_wrt Q (List.map_filter f xs)"
  using assms
proof (induction xs)
  case (Cons x xs)
  have rest: "sorted_wrt Q (List.map_filter f xs)"
  proof (rule Cons.IH)
    show "sorted_wrt P xs" using Cons.prems(1) by simp
    show "Q a b" if "P y z" "y \<in> set xs" "z \<in> set xs" "f y = Some a" "f z = Some b" for y z a b
      using Cons.prems(2) [OF that(1) _ _ that(4,5)] that(2,3) by simp
  qed
  show ?case
  proof (cases "f x")
    case (Some a)
    have "Q a b" if "y \<in> set xs" "f y = Some b" for y b
      using Cons.prems(2) [of x y a b] Cons.prems(1) Some that by simp
    then have "\<forall>b \<in> set (List.map_filter f xs). Q a b" by (auto simp: List.map_filter_def)
    then show ?thesis using rest Some by (simp add: List.map_filter_def)
  qed (use rest in \<open>simp add: List.map_filter_def\<close>)
qed (simp add: List.map_filter_def)

lemma proposed_end_blocks:
  assumes "propose_end_block cx f item = Inr (Some p, known)"
  shows "pr_edits p = List.map_filter (end_block_edit f (rule_index cx f) item) (si_units (rule_index cx f))"
proof -
  define es where "es = List.map_filter (end_block_edit f (rule_index cx f) item) (si_units (rule_index cx f))"
  show ?thesis
    using assms unfolding propose_end_block_def Let_def es_def [symmetric] by (auto split: if_splits)
qed

lemma end_block_keyword_keeps: "keeps_contract end_block_keyword"
proof (rule keeps_contractI)
  fix files cx f t d p known
  assume t: "dget files f = Some t" "rule_index cx f = new_index t"
    and p: "rl_propose end_block_keyword cx f (locate d (new_index t)) = Inr (Some p, known)"
  let ?si = "new_index t"
  let ?ts = "si_significant ?si"
  let ?h = "end_block_edit f ?si (locate d ?si)"
  have ord: "tokens_ordered ?ts" using significant_ordered by simp
  have es: "pr_edits p = List.map_filter ?h (si_units ?si)"
    using proposed_end_blocks p unfolding end_block_keyword_def t(2) [symmetric] by simp
  have edit: "e = token_edit f (?ts ! end_word_index ?si u) ''END_FUNCTION_BLOCK''" if "?h u = Some e" for u e
    using that by (auto simp: end_block_edit_def Let_def split: if_splits)
  show "proposal_ok files p"
  proof (rule ordered_edits_ok)
    show "\<forall>e \<in> set (pr_edits p). placed_edit files e"
    proof
      fix e assume "e \<in> set (pr_edits p)"
      then obtain u where u: "u \<in> set (si_units ?si)" "?h u = Some e" unfolding es by (auto simp: List.map_filter_def)
      obtain b where "end_word_index ?si u < length ?ts" using u(1) by (rule end_word_bounds)
      then show "placed_edit files e" using edit [OF u(2)] token_edit_placed [OF t(1) nth_token] by blast
    qed
    have units: "sorted_wrt (\<lambda>u v. un_end u \<le> un_start v) (si_units ?si)" using index_units_ok by (simp add: units_ok_def)
    show "sorted_wrt before_edit (pr_edits p)"
      unfolding es
    proof (rule sorted_wrt_map_filter [OF units])
      fix u v a b
      assume uv: "un_end u \<le> un_start v" "u \<in> set (si_units ?si)" "v \<in> set (si_units ?si)" "?h u = Some a" "?h v = Some b"
      obtain i where i: "end_word_index ?si u < length ?ts" "lt_end (?ts ! end_word_index ?si u) \<le> un_end u"
        using uv(2) by (rule end_word_bounds)
      obtain j where j: "j \<le> end_word_index ?si v" "lt_start (?ts ! j) = un_start v" "end_word_index ?si v < length ?ts"
        using uv(3) by (rule end_word_bounds)
      have "lt_start (?ts ! j) \<le> lt_start (?ts ! end_word_index ?si v)" by (rule ordered_end_mono(2) [OF ord j(1,3)])
      then have "lt_end (?ts ! end_word_index ?si u) \<le> lt_start (?ts ! end_word_index ?si v)"
        using i(2) uv(1) j(2) by linarith
      then show "before_edit a b"
        using edit [OF uv(4)] edit [OF uv(5)] ordered_span [OF ord i(1)] by (simp add: before_edit_def)
    qed
  qed
qed

lemma chain_targets_bounds: "chain_targets tokens stop i = (ts, j) \<Longrightarrow> i \<le> j"
proof (induction tokens stop i arbitrary: ts j rule: chain_targets.induct)
  case (1 tokens stop i)
  show ?case
  proof (cases "reference_end tokens i stop")
    case None
    then show ?thesis using "1.prems" by (subst (asm) chain_targets.simps) simp
  next
    case (Some e)
    show ?thesis
    proof (cases "stop \<le> e \<or> lt_text (tokens ! e) \<noteq> '':=''")
      case True
      then show ?thesis using "1.prems" Some by (subst (asm) chain_targets.simps) auto
    next
      case False
      obtain us where us: "chain_targets tokens stop (e + 1) = (us, j)"
        using "1.prems" Some False by (subst (asm) chain_targets.simps) (auto split: prod.splits)
      from "1.IH" [OF Some False us] reference_end_bounds [OF Some] show ?thesis by simp
    qed
  qed
qed

lemma expression_end_ge: "j \<le> expression_end tokens stop j depth"
proof (induction tokens stop j depth rule: expression_end.induct)
  case (1 tokens stop j depth)
  then show ?case by (subst expression_end.simps) (auto dest: Suc_leD)
qed

lemma chained_assignment_bounds:
  "chained_assignment tokens k stop = Some c \<Longrightarrow> k \<le> ch_semicolon c \<and> ch_semicolon c < stop"
  using chain_targets_bounds [of tokens stop k] expression_end_ge [of _ tokens stop 0]
  by (auto simp: chained_assignment_def Let_def not_le split: if_splits prod.splits) (meson le_trans)

lemma first_chain_bounds: "first_chain tokens stop offset ks = Some (k, c) \<Longrightarrow> k \<le> ch_semicolon c \<and> ch_semicolon c < stop"
  by (induction ks) (auto simp: chain_at_def split: option.splits if_splits dest: chained_assignment_bounds)

lemma chained_rule_keeps: "keeps_contract chained_rule"
proof (rule keeps_contractI)
  fix files cx f t d p known
  assume t: "dget files f = Some t" "rule_index cx f = new_index t"
    and p: "rl_propose chained_rule cx f (locate d (new_index t)) = Inr (Some p, known)"
  let ?si = "new_index t"
  obtain u where u: "lo_unit (locate d ?si) = Some u"
    using p by (auto simp: chained_rule_def propose_chained_def split: if_splits option.splits)
  let ?stop = "significant_index ?si (un_end u)"
  obtain ks k c where c: "first_chain (si_significant ?si) ?stop (lo_offset (locate d ?si)) ks = Some (k, c)"
    "pr_edits p = [mk_edit f (lt_start (si_significant ?si ! k)) (lt_end (si_significant ?si ! ch_semicolon c)) (unchained ?si c)]"
    using p u by (auto simp: chained_rule_def propose_chained_def t(2) Let_def
        simp del: index_significant split: if_splits option.splits)
  have "ch_semicolon c < length (si_significant ?si)"
    using first_chain_bounds [OF c(1)] significant_index_le [of ?si "un_end u"] by linarith
  then show "proposal_ok files p" using index_span_ok [OF t(1) _ _ c(2)] first_chain_bounds [OF c(1)] by simp
qed

lemma element_edits_spans:
  assumes "element_edits f literal ts j depth = Inr es"
  shows "\<exists>js. es = map (\<lambda>i. mk_edit f (lt_start (ts ! i)) (lt_end (ts ! (i + 1))) literal) js \<and>
    (\<forall>i \<in> set js. j \<le> i \<and> i + 1 < length ts) \<and> sorted_wrt (\<lambda>a b. a + 1 < b) js"
  using assms
proof (induction f literal ts j depth arbitrary: es rule: element_edits.induct)
  case (1 f literal ts j depth)
  let ?stop = "\<not> (j < length ts \<and> \<not> (depth = 0 \<and> lt_text (ts ! j) = '';''))"
  let ?pair = "lt_text (ts ! j) = ''('' \<and> lt_text (ts ! (j + 1)) = '')''"
  note unfolded = "1.prems" [unfolded element_edits.simps [of f literal ts j depth]]
  consider "?stop" | "\<not> ?stop" "?pair" | "\<not> ?stop" "\<not> ?pair" by blast
  then show ?case
  proof cases
    case 1
    then show ?thesis using unfolded by (auto intro: exI [of _ "[]"])
  next
    case 2
    then have l: "\<not> (lt_text (ts ! j) = ''('' \<and> length ts \<le> j + 1)" using unfolded by auto
    then obtain rest where rest: "element_edits f literal ts (j + 2) depth = Inr rest"
      "es = mk_edit f (lt_start (ts ! j)) (lt_end (ts ! (j + 1))) literal # rest"
      using unfolded 2 by (auto simp: bindE_eq_Inr split: if_splits)
    obtain js where js: "rest = map (\<lambda>i. mk_edit f (lt_start (ts ! i)) (lt_end (ts ! (i + 1))) literal) js"
      "\<forall>i \<in> set js. j + 2 \<le> i \<and> i + 1 < length ts" "sorted_wrt (\<lambda>a b. a + 1 < b) js"
      using "1.IH"(1) [OF _ l 2(2) rest(1)] 2(1) by blast
    show ?thesis
      by (rule exI [of _ "j # js"]) (use rest(2) js 2 l in auto)
  next
    case 3
    then have "\<not> (lt_text (ts ! j) = ''('' \<and> length ts \<le> j + 1)" using unfolded by auto
    with 3 unfolded have "element_edits f literal ts (j + 1) (depth + nesting_delta (lt_text (ts ! j))) = Inr es"
      by (auto split: if_splits)
    from "1.IH"(2) [OF _ _ _ this] 3 \<open>\<not> (lt_text (ts ! j) = ''('' \<and> length ts \<le> j + 1)\<close>
    obtain js where "es = map (\<lambda>i. mk_edit f (lt_start (ts ! i)) (lt_end (ts ! (i + 1))) literal) js"
      "\<forall>i \<in> set js. j + 1 \<le> i \<and> i + 1 < length ts" "sorted_wrt (\<lambda>a b. a + 1 < b) js" by blast
    then show ?thesis by (intro exI [of _ js]) auto
  qed
qed

lemma empty_struct_keeps: "keeps_contract empty_struct"
proof (rule keeps_contractI)
  fix files cx f t d p known
  assume t: "dget files f = Some t" "rule_index cx f = new_index t"
    and p: "rl_propose empty_struct cx f (locate d (new_index t)) = Inr (Some p, known)"
  let ?ts = "si_significant (new_index t)"
  obtain literal j es where es: "element_edits f literal ?ts j 0 = Inr es" "pr_edits p = es"
    using p by (auto simp: empty_struct_def propose_empty_struct_def t(2) Let_def bindE_eq_Inr
        simp del: index_significant split: if_splits option.splits)
  obtain js where js: "es = map (\<lambda>i. mk_edit f (lt_start (?ts ! i)) (lt_end (?ts ! (i + 1))) literal) js"
    "\<forall>i \<in> set js. j \<le> i \<and> i + 1 < length ?ts" "sorted_wrt (\<lambda>a b. a + 1 < b) js"
    using element_edits_spans [OF es(1)] by blast
  show "proposal_ok files p"
  proof (rule index_spans_ok [OF t(1), of _ "map (\<lambda>i. (i, i + 1, literal)) js"])
    show "pr_edits p = map (\<lambda>(i, j, r). mk_edit f (lt_start (?ts ! i)) (lt_end (?ts ! j)) r) (map (\<lambda>i. (i, i + 1, literal)) js)"
      by (simp add: es(2) js(1))
    show "\<forall>(i, j, r) \<in> set (map (\<lambda>i. (i, i + 1, literal)) js). i \<le> j \<and> j < length ?ts" using js(2) by auto
    show "sorted_wrt (\<lambda>a b. fst (snd a) < fst b) (map (\<lambda>i. (i, i + 1, literal)) js)"
      using js(3) by (simp add: sorted_wrt_map)
  qed
qed

lemma upper_dot: "upper_of u = ''.'' \<longleftrightarrow> lt_text u = ''.''"
proof -
  have "upper_char c = CHR ''.'' \<longleftrightarrow> c = CHR ''.''" for c
  proof (cases "is_lower c")
    case True
    then have "65 \<le> (of_char (upper_char c) :: int)" "97 \<le> (of_char c :: int)"
      by (auto simp: upper_char_def is_lower_def)
    then show ?thesis by auto
  qed (simp add: upper_char_def)
  then show ?thesis by (simp add: upper_of_def map_eq_Cons_conv)
qed

lemma library_qualifier_keeps: "keeps_contract library_qualifier"
proof (rule keeps_contractI)
  fix files cx f t d p known
  assume cx: "context_for files cx"
    and p: "rl_propose library_qualifier cx f (locate d (new_index t)) = Inr (Some p, known)"
  obtain qualifier name where q: "pr_edits p = concat (map (qualifier_edits qualifier name) (sort_key fst (cx_indices cx)))"
    using p by (auto simp: library_qualifier_def propose_qualifier_def Let_def split: option.splits)
  show "proposal_ok files p"
    using cx q
  proof (rule file_edits_ok)
    fix f t assume t: "dget files f = Some t"
    let ?ts = "si_significant (new_index t)"
    have ord: "tokens_ordered ?ts" using significant_ordered by simp
    define at where "at = (\<lambda>m. upper_of (?ts ! m) = qualifier \<and> lt_text (?ts ! (m + 1)) = ''.'' \<and> upper_of (?ts ! (m + 2)) = name \<and>
                    (m = 0 \<or> lt_text (?ts ! (m - 1)) \<noteq> ''.''))"
    have es: "qualifier_edits qualifier name (f, new_index t) =
        map (\<lambda>m. mk_edit f (lt_start (?ts ! m)) (lt_start (?ts ! (m + 2))) []) (filter at [0..<length ?ts - 2])"
      by (simp add: qualifier_edits_def at_def Let_def)
    have "placed_edit files (mk_edit f (lt_start (?ts ! m)) (lt_start (?ts ! (m + 2))) [])" if "m + 2 < length ?ts" for m
      using ordered_end_mono(2) [OF ord _ that, of m] token_span [OF nth_token [OF that]] t by (simp add: placed_edit_def)
    then have "\<forall>e \<in> set (qualifier_edits qualifier name (f, new_index t)). ed_file e = f \<and> placed_edit files e"
      unfolding es by auto
    moreover have "sorted_wrt before_edit (qualifier_edits qualifier name (f, new_index t))"
      unfolding es sorted_wrt_map
    proof (rule sorted_wrt_mono_rel)
      show "sorted_wrt (<) (filter at [0..<length ?ts - 2])" by (simp add: sorted_wrt_filter)
      fix m n assume mn: "m \<in> set (filter at [0..<length ?ts - 2])" "n \<in> set (filter at [0..<length ?ts - 2])" "m < n"
      have "n \<noteq> m + 1"
        using mn(1,2) upper_dot [of "?ts ! m"] upper_dot [of "?ts ! (m + 1)"] by (auto simp: at_def simp del: index_significant)
      moreover have "n \<noteq> m + 2" using mn(1,2) by (auto simp: at_def)
      ultimately have le: "m + 2 < n" using mn(3) by linarith
      have n: "n + 2 < length ?ts" using mn(2) by auto
      have "lt_end (?ts ! (m + 2)) \<le> lt_start (?ts ! n)" using ordered_nth [OF ord le] n by simp
      then show "before_edit (mk_edit f (lt_start (?ts ! m)) (lt_start (?ts ! (m + 2))) [])
          (mk_edit f (lt_start (?ts ! n)) (lt_start (?ts ! (n + 2))) [])"
        using ordered_span [OF ord, of "m + 2"] ordered_nth [OF ord, of n "n + 2"] ordered_span [OF ord, of n] n le
        by (simp add: before_edit_def)
    qed
    ultimately show "(\<forall>e \<in> set (qualifier_edits qualifier name (f, new_index t)). ed_file e = f \<and> placed_edit files e) \<and>
        sorted_wrt before_edit (qualifier_edits qualifier name (f, new_index t))" by blast
  qed
qed

section \<open>The rules as a rule set\<close>

definition CODESYS_RULES :: "rewrite_rule list" where
  "CODESYS_RULES = [export_library, library_qualifier, end_block_keyword, chained_rule, header_semicolon, empty_struct]"

lemma struct_members_error [index_only_intros]: "index_only (struct_members t ts k)"
proof (induction "length ts - k" arbitrary: k rule: less_induct)
  case less
  show ?case
  proof (cases "k < length ts")
    case True
    have later: "index_only (struct_members t ts j)" if "k < j" for j
      using less [of j] diff_less_mono2 [OF that True] by blast
    show ?thesis
      unfolding struct_members.simps [of t ts k] Let_def
      by (intro index_only_intros later) (simp_all add: next_index_def)
  next
    case False
    then show ?thesis by (simp add: struct_members.simps [of t ts k] index_only_intros)
  qed
qed

lemma element_edits_error [index_only_intros]: "index_only (element_edits f literal ts j depth)"
proof (induction f literal ts j depth rule: element_edits.induct)
  case (1 f literal ts j depth)
  then show ?case by (subst element_edits.simps) (auto intro!: index_only_intros)
qed

lemma codesys_rules_raise:
  "raises_index_only export_library" "raises_index_only library_qualifier" "raises_index_only end_block_keyword"
  "raises_index_only chained_rule" "raises_index_only header_semicolon" "raises_index_only empty_struct"
  by (simp_all add: raises_index_only_def Let_def export_library_def propose_export_library_def
      library_qualifier_def propose_qualifier_def end_block_keyword_def propose_end_block_def chained_rule_def
      propose_chained_def header_semicolon_def propose_header_semicolon_def empty_struct_def propose_empty_struct_def
      struct_defaults_def index_only_intros)

lemmas codesys_rules_keep =
  export_library_keeps library_qualifier_keeps end_block_keyword_keeps chained_rule_keeps header_semicolon_keeps empty_struct_keeps

interpretation codesys: rule_set CODESYS_RULES
  by unfold_locales (auto simp: CODESYS_RULES_def intro: codesys_rules_keep codesys_rules_raise)

end
