(* ===== verification/Structure_Rules.thy ===== *)
theory Structure_Rules
  imports Codesys_Rules
begin

text \<open>
  The rules for object-oriented POUs (\<^verbatim>\<open>compiler/intake/normalize/rules/structure.py\<close>): moving members
  and variable sections, and splitting properties into accessors. Moves are shown to be well formed
  for every source; the header comment of a property is shown to break on a comment inside it.
\<close>

section \<open>Layout of an owner\<close>

definition SECTION_WORDS :: "string set" where
  "SECTION_WORDS = {''VAR'', ''VAR_INPUT'', ''VAR_OUTPUT'', ''VAR_IN_OUT'', ''VAR_TEMP'', ''VAR_EXTERNAL'', ''VAR_STAT'',
     ''VAR_INST'', ''VARINPUT'', ''VAROUTPUT'', ''VARINOUT'', ''VARTEMP''}"

definition MEMBER_KEYWORDS :: "string set" where
  "MEMBER_KEYWORDS = {''METHOD'', ''PROPERTY'', ''ACTION'', ''PROPERTY_GET'', ''PROPERTY_SET'', ''PROPERTYGET'',
     ''PROPERTYSET''}"

definition OWNER_KINDS :: "string set" where
  "OWNER_KINDS = {''FUNCTION_BLOCK'', ''PROGRAM'', ''CLASS''}"

definition word_of :: "lossless_token \<Rightarrow> string" where
  "word_of t = (if is_word t then canonical_keyword (lt_text t) else lt_text t)"

definition HEADER_MODIFIERS :: "string set" where
  "HEADER_MODIFIERS = {''PUBLIC'', ''PRIVATE'', ''PROTECTED'', ''INTERNAL'', ''ABSTRACT'', ''FINAL''}"

function skip_words :: "string set \<Rightarrow> lossless_token list \<Rightarrow> nat \<Rightarrow> nat \<Rightarrow> nat" where
  "skip_words ws ts i stop =
     (if i < stop \<and> upper_of (ts ! i) \<in> ws \<and> i + 1 < stop \<and> is_word (ts ! (i + 1))
      then skip_words ws ts (i + 1) stop else i)"
  by pat_completeness auto
termination by (relation "measure (\<lambda>(ws, ts, i, stop). stop - i)") auto

declare skip_words.simps [simp del]

text \<open>After a dotted name whose first word is at \<open>i - 1\<close>.\<close>

function after_dots :: "lossless_token list \<Rightarrow> nat \<Rightarrow> nat \<Rightarrow> nat" where
  "after_dots ts i stop =
     (if i + 1 < stop \<and> lt_text (ts ! i) = ''.'' \<and> is_word (ts ! (i + 1)) then after_dots ts (i + 2) stop else i)"
  by pat_completeness auto
termination by (relation "measure (\<lambda>(ts, i, stop). stop - i)") auto

declare after_dots.simps [simp del]

definition after_qualified :: "lossless_token list \<Rightarrow> nat \<Rightarrow> nat \<Rightarrow> nat" where
  "after_qualified ts i stop = after_dots ts (i + 1) stop"

lemma after_dots_ge: "i \<le> after_dots ts i stop"
proof (induction ts i stop rule: after_dots.induct)
  case (1 ts i stop)
  then show ?case by (subst after_dots.simps) auto
qed

function after_names :: "lossless_token list \<Rightarrow> nat \<Rightarrow> nat \<Rightarrow> nat" where
  "after_names ts i stop =
     (if i < stop \<and> lt_text (ts ! i) = '','' then after_names ts (after_qualified ts (i + 1) stop) stop else i)"
  by pat_completeness auto
termination
proof (relation "measure (\<lambda>(ts, i, stop). stop - i)", goal_cases)
  case (2 ts i stop)
  then have "i < stop" by simp
  moreover have "i < after_qualified ts (i + 1) stop"
    using after_dots_ge [of "i + 2" ts stop] by (simp add: after_qualified_def)
  ultimately show ?case by simp
qed simp

declare after_names.simps [simp del]

text \<open>The index after \<open>KIND [modifiers] name [EXTENDS q] [IMPLEMENTS q, ...] [: type]\<close>.\<close>

definition header_end :: "lossless_token list \<Rightarrow> nat \<Rightarrow> nat \<Rightarrow> nat" where
  "header_end ts i stop =
     (let i1 = skip_words HEADER_MODIFIERS ts (i + 1) stop + 1;
          i2 = (if i1 < stop \<and> upper_of (ts ! i1) = ''EXTENDS''
                then (if i1 + 1 < stop then after_qualified ts (i1 + 1) stop else i1 + 1) else i1);
          i3 = (if i2 < stop \<and> upper_of (ts ! i2) = ''IMPLEMENTS''
                then after_names ts (after_qualified ts (i2 + 1) stop) stop else i2)
      in if i3 < stop \<and> lt_text (ts ! i3) = '':''
         then next_index (\<lambda>t. lt_line t \<noteq> lt_line (ts ! i3)) ts (i3 + 1) stop else i3)"

record shape =
  sh_body :: "nat option"
  sh_before :: "st_member list"
  sh_after :: "st_member list"

definition add_member :: "st_member \<Rightarrow> shape \<Rightarrow> shape" where
  "add_member m sh = (if sh_body sh \<noteq> None then sh\<lparr>sh_after := sh_after sh @ [m]\<rparr>
                      else sh\<lparr>sh_before := sh_before sh @ [m]\<rparr>)"

definition note_body :: "nat \<Rightarrow> shape \<Rightarrow> shape" where
  "note_body start sh = (if sh_body sh = None then sh\<lparr>sh_body := Some start\<rparr> else sh)"

text \<open>The member that starts at an offset.\<close>

definition member_from :: "st_member list \<Rightarrow> nat \<Rightarrow> st_member option" where
  "member_from members start = find (\<lambda>m. me_start m = start) (rev members)"

text \<open>
  The scan over an owner's variable blocks, members and body. A member ends behind the token it
  starts at, so the index always advances; \<open>owner_advances\<close> shows that the first test never holds.
\<close>

function layout_from :: "source_index \<Rightarrow> st_member list \<Rightarrow> nat \<Rightarrow> nat \<Rightarrow> shape \<Rightarrow> shape" where
  "layout_from si members stop i sh =
     (let ts = si_significant si in
      if \<not> i < stop then sh
      else if word_of (ts ! i) \<in> SECTION_WORDS \<and> sh_body sh = None
      then layout_from si members stop (next_index (\<lambda>t. word_of t = ''END_VAR'') ts i stop + 1) sh
      else case member_from members (lt_start (ts ! i)) of
        Some m \<Rightarrow>
          (if significant_index si (me_end m) \<le> i then add_member m sh
           else layout_from si members stop (significant_index si (me_end m)) (add_member m sh))
      | None \<Rightarrow> layout_from si members stop (i + 1) (note_body (lt_start (ts ! i)) sh))"
  by pat_completeness auto
termination
  by (relation "measure (\<lambda>(si, members, stop, i, sh). stop - i)") (auto simp: next_index_def)

declare layout_from.simps [simp del]

text \<open>The END keyword at or before the unit's last token.\<close>

function end_keyword_index :: "lossless_token list \<Rightarrow> nat \<Rightarrow> nat \<Rightarrow> nat" where
  "end_keyword_index ts lo i =
     (if lo < i \<and> word_of (ts ! i) \<notin> {''END_FUNCTION_BLOCK'', ''END_PROGRAM'', ''END_CLASS''}
      then end_keyword_index ts lo (i - 1) else i)"
  by pat_completeness auto
termination by (relation "measure (\<lambda>(ts, lo, i). i)") auto

declare end_keyword_index.simps [simp del]

definition layout :: "source_index \<Rightarrow> st_unit \<Rightarrow> shape" where
  "layout si u =
     (let ts = si_significant si; first = significant_index si (un_start u);
          stop = end_keyword_index ts first (significant_index si (un_end u - 1)) in
      layout_from si (un_members u) stop (header_end ts first stop) \<lparr>sh_body = None, sh_before = [], sh_after = []\<rparr>)"

definition owner_of :: "source_index \<Rightarrow> nat \<Rightarrow> st_unit option" where
  "owner_of si offset =
     (case unit_containing si offset of
        None \<Rightarrow> None | Some u \<Rightarrow> if un_kind u \<in> OWNER_KINDS then Some u else None)"

section \<open>Spans of whole lines\<close>

text \<open>The start of the pragmas directly in front of the token that starts at \<open>start\<close>.\<close>

fun pragma_start :: "lossless_token list \<Rightarrow> nat \<Rightarrow> nat" where
  "pragma_start [] b = b"
| "pragma_start (t # ts) b =
     (if lt_kind t = ''pragma'' then pragma_start ts (lt_start t)
      else if lt_kind t = ''whitespace'' then pragma_start ts b else b)"

definition leading_pragmas :: "source_index \<Rightarrow> nat \<Rightarrow> nat" where
  "leading_pragmas si start = pragma_start (rev (takeWhile (\<lambda>t. lt_start t \<noteq> start) (si_tokens si))) start"

definition all_blank :: "string \<Rightarrow> bool" where
  "all_blank s = (\<forall>c \<in> set s. is_space c)"

definition line_begin :: "string \<Rightarrow> nat \<Rightarrow> nat" where
  "line_begin t offset = offset - length (takeWhile (\<lambda>c. c \<noteq> newline) (rev (take offset t)))"

definition line_start :: "string \<Rightarrow> nat \<Rightarrow> nat" where
  "line_start t offset =
     (let start = line_begin t offset in if all_blank (span start offset t) then start else offset)"

definition line_end :: "string \<Rightarrow> nat \<Rightarrow> nat" where
  "line_end t offset =
     (let rest = takeWhile (\<lambda>c. c \<noteq> newline) (drop offset t) in
      if offset + length rest = length t then (if all_blank rest then length t else offset)
      else if all_blank rest then offset + length rest + 1 else offset)"

definition moved_span :: "source_index \<Rightarrow> nat \<Rightarrow> nat \<Rightarrow> nat \<times> nat" where
  "moved_span si start finish =
     (line_start (si_text si) (leading_pragmas si start), line_end (si_text si) finish)"

definition move_edit :: "string \<Rightarrow> nat \<times> nat \<Rightarrow> nat \<Rightarrow> edit" where
  "move_edit f r d = \<lparr>ed_file = f, ed_start = fst r, ed_end = snd r, ed_replacement = [], ed_move = Some d\<rparr>"

section \<open>member-reorder\<close>

definition MEMBER_REORDER :: rule_spec where
  "MEMBER_REORDER = \<lparr>rs_id = ''member-reorder'', rs_version = 2, rs_level = ''L2'', rs_codes = [''E007'', ''E006'']\<rparr>"

definition is_action :: "st_member \<Rightarrow> bool" where
  "is_action m = (me_kind m = ''ACTION'')"

text \<open>The name tokens of the trailing actions without an owner's name.\<close>

fun unqualified_names :: "source_index \<Rightarrow> st_member list \<Rightarrow> norm_error + lossless_token list" where
  "unqualified_names si [] = Inr []"
| "unqualified_names si (m # ms) =
     (let ts = si_significant si; n = significant_index si (me_start m) + 1 in
      if \<not> is_action m \<or> (n + 1 < length ts \<and> lt_text (ts ! (n + 1)) = ''.'') then unqualified_names si ms
      else if length ts \<le> n then Inl IndexErr
      else bindE (unqualified_names si ms) (\<lambda>names. Inr (ts ! n # names)))"

definition leading_group :: "st_member list \<Rightarrow> st_member list" where
  "leading_group ms = takeWhile (\<lambda>m. is_action m = is_action (hd ms)) ms"

text \<open>Move the first run of trailing members: actions behind the unit, the others before its body.\<close>

definition group_move :: "string \<Rightarrow> source_index \<Rightarrow> st_unit \<Rightarrow> shape \<Rightarrow> edit" where
  "group_move f si u sh =
     (let trailing = sh_after sh; group = leading_group trailing;
          r = moved_span si (me_start (hd group)) (me_end (last group)) in
      move_edit f r (if is_action (hd trailing) then line_end (si_text si) (un_end u)
                     else line_start (si_text si) (leading_pragmas si (case sh_body sh of None \<Rightarrow> 0 | Some b \<Rightarrow> b))))"

definition propose_member_reorder :: "rule_context \<Rightarrow> string \<Rightarrow> located \<Rightarrow> proposing" where
  "propose_member_reorder cx f item =
     (case lo_token item of
        None \<Rightarrow> decline cx
      | Some token \<Rightarrow>
          if \<not> is_word token \<or> upper_of token \<notin> MEMBER_KEYWORDS then decline cx
          else (let si = rule_index cx f in
            case owner_of si (lt_start token) of
              None \<Rightarrow> decline cx
            | Some u \<Rightarrow>
                (let sh = layout si u; trailing = sh_after sh in
                 if \<not> list_ex (\<lambda>m. me_start m = lt_start token) trailing then decline cx
                 else bindE (unqualified_names si trailing) (\<lambda>names.
                   if names \<noteq> []
                   then offers cx (make_proposal MEMBER_REORDER
                     [KText (rs_id MEMBER_REORDER), KText f, KNum (un_start u), KText ''qualify'']
                     (map (\<lambda>n. token_edit f n (un_name u @ ''.'' @ lt_text n)) names) [] [])
                   else offers cx (make_proposal MEMBER_REORDER
                     [KText (rs_id MEMBER_REORDER), KText f, KNum (me_start (hd trailing)), KText ''move'']
                     [group_move f si u sh] [] [])))))"

definition member_reorder :: rewrite_rule where
  "member_reorder = \<lparr>rl_spec = MEMBER_REORDER, rl_propose = propose_member_reorder\<rparr>"

section \<open>ax-var-section-reorder\<close>

definition VAR_SECTION_REORDER :: rule_spec where
  "VAR_SECTION_REORDER =
     \<lparr>rs_id = ''ax-var-section-reorder'', rs_version = 1, rs_level = ''L2'', rs_codes = [''E007'']\<rparr>"

definition propose_section_reorder :: "rule_context \<Rightarrow> string \<Rightarrow> located \<Rightarrow> proposing" where
  "propose_section_reorder cx f item =
     (case lo_token item of
        None \<Rightarrow> decline cx
      | Some token \<Rightarrow>
          if \<not> is_word token \<or> word_of token \<notin> SECTION_WORDS then decline cx
          else (let si = rule_index cx f; ts = si_significant si in
            case owner_of si (lt_start token) of
              None \<Rightarrow> decline cx
            | Some u \<Rightarrow>
                if un_members u = [] then decline cx
                else (let first = hd (sort_key me_start (un_members u)) in
                  if lt_start token < me_start first \<or>
                     list_ex (\<lambda>m. me_start m \<le> lt_start token \<and> lt_start token < me_end m) (un_members u) then decline cx
                  else (let i = next_index (\<lambda>t. un_end u \<le> lt_start t \<or> word_of t = ''END_VAR'') ts
                                  (significant_index si (lt_start token)) (length ts) in
                    if length ts \<le> i \<or> word_of (ts ! i) \<noteq> ''END_VAR'' then decline cx
                    else offers cx (make_proposal VAR_SECTION_REORDER
                      [KText (rs_id VAR_SECTION_REORDER), KText f, KNum (lt_start token)]
                      [move_edit f (moved_span si (lt_start token) (lt_end (ts ! i)))
                         (line_start (si_text si) (leading_pragmas si (me_start first)))] [] [])))))"

definition section_reorder :: rewrite_rule where
  "section_reorder = \<lparr>rl_spec = VAR_SECTION_REORDER, rl_propose = propose_section_reorder\<rparr>"

section \<open>property-accessors\<close>

definition PROPERTY_ACCESSORS :: rule_spec where
  "PROPERTY_ACCESSORS =
     \<lparr>rs_id = ''property-accessors'', rs_version = 1, rs_level = ''L1'', rs_codes = [''E007'', ''E006'']\<rparr>"

definition PROPERTY_MODIFIERS :: "string set" where
  "PROPERTY_MODIFIERS = HEADER_MODIFIERS \<union> {''OVERRIDE''}"

text \<open>Back from the reported token to the word PROPERTY, at most eight tokens and one line up.\<close>

function property_index :: "lossless_token list \<Rightarrow> nat \<Rightarrow> nat \<Rightarrow> nat \<Rightarrow> nat" where
  "property_index ts line k i =
     (if 0 < i \<and> upper_of (ts ! i) \<noteq> ''PROPERTY'' \<and> line - 1 \<le> lt_line (ts ! i) \<and> k < i + 8
      then property_index ts line k (i - 1) else i)"
  by pat_completeness auto
termination by (relation "measure (\<lambda>(ts, line, k, i). i)") auto

declare property_index.simps [simp del]

text \<open>The modifiers from \<open>j\<close>: the index of the name; looking past the last token is an error.\<close>

function property_name :: "lossless_token list \<Rightarrow> nat \<Rightarrow> norm_error + nat" where
  "property_name ts j =
     (if j < length ts \<and> upper_of (ts ! j) \<in> PROPERTY_MODIFIERS then
        (if length ts \<le> j + 1 then Inl IndexErr
         else if is_word (ts ! (j + 1)) then property_name ts (j + 1) else Inr j)
      else if length ts \<le> j then Inl IndexErr else Inr j)"
  by pat_completeness auto
termination by (relation "measure (\<lambda>(ts, j). length ts - j)") auto

declare property_name.simps [simp del]

text \<open>
  The accessors from token \<open>k\<close>: the edits up to END_PROPERTY with the number of accessors; \<open>None\<close> when
  something else follows the header or the end of the file comes first.
\<close>

function accessor_edits ::
    "string \<Rightarrow> lossless_token list \<Rightarrow> string \<Rightarrow> nat \<Rightarrow> string option \<Rightarrow> ((nat \<times> string) list \<times> nat) option" where
  "accessor_edits decl ts name k inside =
     (if length ts \<le> k then None
      else let word = upper_of (ts ! k) in
        case inside of
          None \<Rightarrow>
            if word = ''GET'' \<or> word = ''SET'' then
              map_option (\<lambda>(es, n). ((k, (if word = ''GET'' then ''PROPERTY_GET'' else ''PROPERTY_SET'') @ '' '' @ name @
                  '' : '' @ decl) # es, n + 1))
                (accessor_edits decl ts name (k + 1) (Some (''END_'' @ word)))
            else if word = ''END_PROPERTY'' \<or> word = ''ENDPROPERTY''
            then Some ([(k, ''(* '' @ lt_text (ts ! k) @ '' *)'')], 0)
            else None
        | Some closing \<Rightarrow>
            if word = closing
            then map_option (\<lambda>(es, n). ((k, ''END_PROPERTY'') # es, n)) (accessor_edits decl ts name (k + 1) None)
            else accessor_edits decl ts name (k + 1) inside)"
  by pat_completeness auto
termination by (relation "measure (\<lambda>(decl, ts, name, k, inside). length ts - k)") auto

declare accessor_edits.simps [simp del]

definition property_comment :: "string \<Rightarrow> string" where
  "property_comment header = ''(* '' @ replace_all ''*)'' ''* )'' header @ '' *)''"

text \<open>The first accessor from \<open>k\<close>; \<open>None\<close> when declarations or the end of the file come first.\<close>

definition first_accessor :: "lossless_token list \<Rightarrow> nat \<Rightarrow> nat option" where
  "first_accessor ts k =
     (let j = next_index (\<lambda>t. upper_of t \<in> {''GET'', ''SET'', ''END_PROPERTY'', ''ENDPROPERTY''} \<or> word_of t \<in> SECTION_WORDS)
        ts k (length ts) in
      if length ts \<le> j \<or> upper_of (ts ! j) \<notin> {''GET'', ''SET''} then None else Some j)"

definition propose_accessors :: "rule_context \<Rightarrow> string \<Rightarrow> located \<Rightarrow> proposing" where
  "propose_accessors cx f item =
     (case lo_token item of
        None \<Rightarrow> decline cx
      | Some token \<Rightarrow>
          (let si = rule_index cx f; ts = si_significant si; k = significant_index si (lt_start token);
               start = property_index ts (lt_line token) k k in
           if length ts \<le> k then Inl IndexErr
           else if upper_of (ts ! start) \<noteq> ''PROPERTY'' then decline cx
           else bindE (property_name ts (start + 1)) (\<lambda>j.
             if \<not> is_word (ts ! j) \<or> length ts \<le> j + 1 \<or> lt_text (ts ! (j + 1)) \<noteq> '':'' then decline cx
             else case first_accessor ts (j + 2) of
               None \<Rightarrow> decline cx
             | Some a \<Rightarrow>
                 (let header = span (lt_start (ts ! start)) (lt_end (ts ! (a - 1))) (si_text si);
                      decl = span (lt_start (ts ! (j + 2))) (lt_end (ts ! (a - 1))) (si_text si);
                      modifiers = map (\<lambda>m. lt_text (ts ! m)) [start + 1..<j] in
                  case accessor_edits decl ts (lt_text (ts ! j)) a None of
                    None \<Rightarrow> decline cx
                  | Some (es, accessors) \<Rightarrow>
                      if accessors = 0 then decline cx
                      else offers cx (make_proposal PROPERTY_ACCESSORS
                        [KText (rs_id PROPERTY_ACCESSORS), KText f, KNum (lt_start (ts ! start))]
                        (mk_edit f (lt_start (ts ! start)) (lt_end (ts ! (a - 1))) (property_comment header) #
                         map (\<lambda>(i, r). token_edit f (ts ! i) r) es)
                        (''property '' @ lt_text (ts ! j) @
                         (if modifiers = [] then [] else '' (modifiers '' @ join '' '' modifiers @ '')''))
                        [])))))"

definition property_accessors :: rewrite_rule where
  "property_accessors = \<lparr>rl_spec = PROPERTY_ACCESSORS, rl_propose = propose_accessors\<rparr>"

section \<open>Whole lines\<close>

lemma line_begin_le: "line_begin t offset \<le> offset"
  by (simp add: line_begin_def)

lemma drop_prefix: "xs = ys @ zs \<Longrightarrow> drop (length ys) xs = zs"
  by simp

lemma line_begin_split:
  assumes "offset \<le> length t"
  shows "newline \<notin> set (span (line_begin t offset) offset t)"
    and "line_begin t offset = 0 \<or> t ! (line_begin t offset - 1) = newline"
proof -
  let ?w = "takeWhile (\<lambda>c. c \<noteq> newline) (rev (take offset t))"
  let ?d = "dropWhile (\<lambda>c. c \<noteq> newline) (rev (take offset t))"
  have "length (?w @ ?d) = length (rev (take offset t))" by (simp only: takeWhile_dropWhile_id)
  then have l: "length ?w + length ?d = offset" using assms by (simp only: length_append length_rev length_take min.absorb2)
  have split: "take offset t = rev ?d @ rev ?w"
    by (metis rev_append rev_rev_ident takeWhile_dropWhile_id)
  have "line_begin t offset = length (rev ?d)" using l by (simp add: line_begin_def)
  then have "span (line_begin t offset) offset t = drop (length (rev ?d)) (take offset t)"
    by (simp add: span_def drop_take)
  also have "drop (length (rev ?d)) (take offset t) = rev ?w" using split by (rule drop_prefix)
  finally show "newline \<notin> set (span (line_begin t offset) offset t)" by (auto dest: set_takeWhileD)
  show "line_begin t offset = 0 \<or> t ! (line_begin t offset - 1) = newline"
  proof (cases ?d)
    case Nil
    then have "length ?d = 0" by (simp only: list.size)
    then show ?thesis using l unfolding line_begin_def by linarith
  next
    case (Cons c cs)
    then have c: "c = newline" 
      using hd_dropWhile [of "\<lambda>c. c \<noteq> newline" "rev (take offset t)"] by (metis list.distinct(1) list.sel(1))
    have n: "line_begin t offset = Suc (length cs)" using l Cons by (simp add: line_begin_def)
    have "t ! length cs = take offset t ! length cs" using l Cons by simp
    also have "\<dots> = (rev ?d @ rev ?w) ! length cs" using split by (rule arg_cong)
    also have "\<dots> = c" unfolding Cons by (simp add: nth_append)
    finally show ?thesis using n c by simp
  qed
qed

lemma line_begin_unique:
  assumes "x \<le> a" "a \<le> length t" "newline \<notin> set (span x a t)" "x = 0 \<or> t ! (x - 1) = newline"
  shows "line_begin t a = x"
proof -
  have "take a t = take x t @ span x a t" by (rule take_span [OF assms(1), symmetric])
  then have r: "rev (take a t) = rev (span x a t) @ rev (take x t)" by simp
  have "takeWhile (\<lambda>c. c \<noteq> newline) (rev (take x t)) = []"
  proof (cases "x = 0")
    case False
    then have "take x t = take (x - 1) t @ [t ! (x - 1)]" using assms(1,2) take_Suc_conv_app_nth [of "x - 1" t] by simp
    then show ?thesis using assms(4) False by simp
  qed simp
  then have "takeWhile (\<lambda>c. c \<noteq> newline) (rev (take a t)) = rev (span x a t)"
    unfolding r using assms(3) by (subst takeWhile_append2) auto
  moreover have "length (span x a t) = a - x" using assms(1,2) by (simp add: span_def)
  ultimately show ?thesis using assms(1) by (simp add: line_begin_def)
qed

lemma line_start_bounds: "line_begin t offset \<le> line_start t offset" "line_start t offset \<le> offset"
  using line_begin_le [of t offset] by (simp_all add: line_start_def Let_def)

lemma set_span_mono: "a \<le> b \<Longrightarrow> set (span x a t) \<subseteq> set (span x b t)"
  unfolding span_def by (intro set_take_subset_set_take diff_le_mono)

lemma line_start_mono:
  assumes "a \<le> b" "b \<le> length t"
  shows "line_start t a \<le> line_start t b"
proof (cases "line_begin t b \<le> a \<and> line_start t b = line_begin t b")
  case True
  let ?x = "line_begin t b"
  have sub: "set (span ?x a t) \<subseteq> set (span ?x b t)" using assms(1) by (rule set_span_mono)
  have x: "line_begin t a = ?x"
    using line_begin_split [OF assms(2)] True sub assms by (intro line_begin_unique) auto
  show ?thesis
  proof (cases "all_blank (span ?x b t)")
    case True
    then have "all_blank (span ?x a t)" using sub by (auto simp: all_blank_def)
    then show ?thesis using x True by (simp add: line_start_def)
  next
    case False
    then have "line_start t b = b" by (simp add: line_start_def Let_def)
    then show ?thesis using line_start_bounds(2) [of t a] assms(1) by simp
  qed
next
  case False
  then have "line_begin t b > a \<or> line_start t b = b" by (auto simp: line_start_def Let_def)
  then show ?thesis using line_start_bounds [of t a] line_start_bounds(1) [of t b] assms(1) by linarith
qed

lemma line_end_bounds:
  assumes "a \<le> length t"
  shows "a \<le> line_end t a" "line_end t a \<le> length t"
proof -
  let ?r = "takeWhile (\<lambda>c. c \<noteq> newline) (drop a t)"
  have "length ?r \<le> length t - a" by (metis length_drop length_takeWhile_le)
  then have "a + length ?r \<le> length t" using assms by linarith
  then show "a \<le> line_end t a" "line_end t a \<le> length t" by (auto simp: line_end_def Let_def)
qed

lemma takeWhile_drop: "n \<le> length (takeWhile P xs) \<Longrightarrow> takeWhile P (drop n xs) = drop n (takeWhile P xs)"
proof (induction n arbitrary: xs)
  case (Suc n)
  then show ?case by (cases xs) (auto split: if_splits)
qed simp

lemma line_end_mono:
  assumes "a \<le> b" "b \<le> length t"
  shows "line_end t a \<le> line_end t b"
proof -
  let ?r = "takeWhile (\<lambda>c. c \<noteq> newline) (drop a t)"
  show ?thesis
  proof (cases "b \<le> a + length ?r \<and> all_blank ?r")
    case True
    have "drop b t = drop (b - a) (drop a t)" using assms(1) by simp
    moreover have "b - a \<le> length ?r" using True by linarith
    ultimately have rb: "takeWhile (\<lambda>c. c \<noteq> newline) (drop b t) = drop (b - a) ?r"
      using takeWhile_drop by metis
    have "all_blank (drop (b - a) ?r)" using True by (auto simp: all_blank_def dest: in_set_dropD)
    moreover have "b + length (drop (b - a) ?r) = a + length ?r" using True assms(1) by simp
    ultimately show ?thesis using True by (simp add: line_end_def Let_def rb)
  next
    case False
    then have "line_end t a \<le> b"
      using assms by (auto simp: line_end_def Let_def not_le)
    then show ?thesis using line_end_bounds(1) [OF assms(2)] by linarith
  qed
qed

section \<open>Tokens of units and members\<close>

lemma pragma_start_mem: "pragma_start ts b \<in> insert b (lt_start ` set ts)"
proof (induction ts arbitrary: b)
  case (Cons t ts)
  then show ?case using Cons [of "lt_start t"] Cons [of b] by auto
qed simp

lemma pragma_start_stop:
  assumes "\<not> is_trivia p"
  shows "pragma_start (ts @ p # r) b = pragma_start ts b"
  using assms by (induction ts arbitrary: b) (auto simp: is_trivia_def TRIVIA_def)

lemma tokens_strict: "sorted_wrt (\<lambda>a b. lt_start a < lt_start b) (tokenize_lossless src)"
proof -
  have "sorted_wrt (\<lambda>a b. lt_end a \<le> lt_start b) (tokenize_lossless src)"
    "\<forall>t \<in> set (tokenize_lossless src). lt_start t < lt_end t"
    using tokens_from_ordered [of 0 1 0 src] by (simp_all add: tokenize_lossless_def)
  then show ?thesis by (auto elim!: sorted_wrt_mono_rel [rotated] intro: less_le_trans)
qed

lemma leading_pragmas_at:
  assumes "tokenize_lossless src = xs @ q # ys"
  shows "leading_pragmas (new_index src) (lt_start q) = pragma_start (rev xs) (lt_start q)"
proof -
  have "\<forall>t \<in> set xs. lt_start t \<noteq> lt_start q"
    using tokens_strict [of src] by (auto simp: assms sorted_wrt_append)
  then have "takeWhile (\<lambda>t. lt_start t \<noteq> lt_start q) (xs @ q # ys) = xs"
    by (subst takeWhile_append2) auto
  then show ?thesis by (simp add: leading_pragmas_def assms)
qed

lemma leading_pragmas_le:
  assumes "q \<in> set (tokenize_lossless src)"
  shows "leading_pragmas (new_index src) (lt_start q) \<le> lt_start q"
proof -
  obtain xs ys where s: "tokenize_lossless src = xs @ q # ys" using assms by (auto dest: split_list)
  have "\<forall>t \<in> set xs. lt_start t \<le> lt_start q"
    using tokens_strict [of src] by (auto simp: s sorted_wrt_append)
  then show ?thesis using pragma_start_mem [of "rev xs" "lt_start q"] by (auto simp: leading_pragmas_at [OF s])
qed

lemma leading_pragmas_mono:
  assumes "p \<in> set (significant (tokenize_lossless src))" "q \<in> set (tokenize_lossless src)" "lt_start p < lt_start q"
  shows "leading_pragmas (new_index src) (lt_start p) \<le> leading_pragmas (new_index src) (lt_start q)"
proof -
  have p: "p \<in> set (tokenize_lossless src)" "\<not> is_trivia p" using assms(1) by (auto simp: significant_def)
  obtain xs ys where s: "tokenize_lossless src = xs @ q # ys" using assms(2) by (auto dest: split_list)
  have st: "sorted_wrt (\<lambda>a b. lt_start a < lt_start b) (xs @ q # ys)" using tokens_strict [of src] s by simp
  have "p \<in> set xs" using p(1) assms(3) st by (auto simp: s sorted_wrt_append)
  then obtain us vs where xs: "xs = us @ p # vs" by (auto dest: split_list)
  have "leading_pragmas (new_index src) (lt_start q) = pragma_start (rev vs) (lt_start q)"
    using pragma_start_stop [OF p(2)] by (simp add: leading_pragmas_at [OF s] xs)
  moreover have "\<forall>v \<in> set vs. lt_start p \<le> lt_start v"
    using st unfolding xs sorted_wrt_append by (simp add: less_imp_le)
  ultimately have "lt_start p \<le> leading_pragmas (new_index src) (lt_start q)"
    using pragma_start_mem [of "rev vs" "lt_start q"] assms(3) by auto
  then show ?thesis using leading_pragmas_le [OF p(1)] by linarith
qed

text \<open>A member starts at a token and ends behind it.\<close>

definition at_token :: "lossless_token list \<Rightarrow> st_member \<Rightarrow> nat \<Rightarrow> bool" where
  "at_token ts m j = (j < length ts \<and> me_start m = lt_start (ts ! j) \<and> lt_end (ts ! j) \<le> me_end m)"

lemma member_at_token:
  assumes "tokens_ordered ts" "j < length ts" "member_at w ts j = (m, n)"
  shows "at_token ts m j"
proof -
  let ?e = "unit_end_word (kw (ts ! j))"
  let ?k = "scan_to [?e, w] ts (j + 1)"
  have k: "j + 1 \<le> ?k" "?k \<le> length ts" using scan_to_bounds [of "j + 1" ts] assms(2) by simp_all
  have "lt_end (ts ! j) \<le> me_end m"
  proof (cases "?k < length ts \<and> canonical_keyword (lt_text (ts ! ?k)) = ?e")
    case True
    with assms(3) have e: "me_end m = span_end ts ?k" by (auto simp: member_at_def Let_def)
    have "lt_end (ts ! j) \<le> lt_end (ts ! ?k)" using ordered_end_mono(1) [OF assms(1)] k True by simp
    also have "\<dots> \<le> span_end ts ?k" using span_end_ge [OF assms(1)] True by simp
    finally show ?thesis by (simp add: e)
  next
    case False
    with assms(3) have "me_end m = lt_end (ts ! (?k - 1))" unfolding member_at_def Let_def by auto
    then show ?thesis using ordered_end_mono(1) [OF assms(1), of j "?k - 1"] k by simp
  qed
  then show ?thesis using member_at_sound [OF assms] assms(2) by (simp add: at_token_def)
qed

lemma unit_body_tokens:
  assumes "m \<in> set (snd (unit_body word w ts depth j))" "tokens_ordered ts"
  shows "\<exists>i. at_token ts m i"
  using assms(1)
proof (induction "length ts - j" arbitrary: depth j rule: less_induct)
  case less
  show ?case
  proof (cases rule: unit_body_step [of word w ts depth j])
    case stop
    then show ?thesis using less.prems by simp
  next
    case (skip d)
    have "length ts - (j + 1) < length ts - j" using skip(1) by (intro diff_less_mono2) simp_all
    from less.hyps [OF this] less.prems skip(2) show ?thesis by metis
  next
    case (member m' n)
    have "j < n" using member_at_progress [of j w ts] member(4) by simp
    then have "length ts - n < length ts - j" using member(1) by (intro diff_less_mono2)
    then have "m \<in> set (snd (unit_body word w ts depth n)) \<Longrightarrow> ?thesis" using less.hyps by blast
    then show ?thesis using less.prems member(5) member_at_token [OF assms(2) member(1,4)] by auto
  qed
qed

lemma units_from_members:
  assumes "u \<in> set (units_from ts mks nss cur i)" "m \<in> set (un_members u)" "tokens_ordered ts"
  shows "\<exists>j. at_token ts m j"
  using assms(1)
proof (induction "length ts - i" arbitrary: mks nss cur i rule: less_induct)
  case less
  show ?case
  proof (cases rule: units_from_step [of i ts mks nss cur])
    case stop
    with less.prems show ?thesis by simp
  next
    case (skip mks' nss' cur' i')
    have "length ts - i' < length ts - i" using skip(1,2) by (intro diff_less_mono2)
    with less.hyps less.prems show ?thesis unfolding skip(4) by blast
  next
    case (unit mks' cur' v j)
    have "i < j" using unit_at_sound [OF assms(3) unit(1,2,3)] by blast
    then have "length ts - (j + 1) < length ts - i" using unit(1) by (intro diff_less_mono2) simp_all
    then have "u \<in> set (units_from ts mks' nss cur' (j + 1)) \<Longrightarrow> ?thesis" using less.hyps by blast
    moreover have "u = v \<Longrightarrow> ?thesis"
      using unit(3) assms(2) unit_body_tokens [OF _ assms(3)] by (auto simp: unit_at_def Let_def)
    ultimately show ?thesis using less.prems unfolding unit(4) by auto
  qed
qed

lemma member_tokens:
  assumes "u \<in> set (si_units (new_index t))" "m \<in> set (un_members u)"
  shows "\<exists>j. at_token (si_significant (new_index t)) m j"
  using units_from_members [OF _ assms(2) significant_ordered] assms(1) by (simp add: split_units_def)

lemma owner_advances:
  assumes "at_token (si_significant (new_index t)) m i"
  shows "i < significant_index (new_index t) (me_end m)"
proof (rule ccontr)
  let ?ts = "si_significant (new_index t)" and ?k = "significant_index (new_index t) (me_end m)"
  assume "\<not> i < ?k"
  then have k: "?k \<le> i" "i < length ?ts" using assms by (simp_all add: at_token_def)
  have "lt_end (?ts ! ?k) \<le> lt_end (?ts ! i)" using ordered_end_mono(1) [of ?ts ?k i] significant_ordered k by simp
  moreover have "me_end m < lt_end (?ts ! ?k)" using significant_index_spec(2) [OF refl refl] k by simp
  ultimately show False using assms by (simp add: at_token_def)
qed

section \<open>What the layout finds\<close>

text \<open>
  Up to token \<open>i\<close>: the body starts at an earlier token; the members after it are the unit's, start at
  earlier tokens behind the body's start, in order.
\<close>

definition shape_ok :: "lossless_token list \<Rightarrow> st_member list \<Rightarrow> nat \<Rightarrow> shape \<Rightarrow> bool" where
  "shape_ok ts members i sh =
     ((\<forall>b. sh_body sh = Some b \<longrightarrow> (\<exists>j. j < i \<and> j < length ts \<and> b = lt_start (ts ! j))) \<and>
      (\<forall>m \<in> set (sh_after sh). m \<in> set members \<and> (\<exists>b. sh_body sh = Some b \<and> b < me_start m) \<and>
         (\<exists>j. j < i \<and> at_token ts m j)) \<and>
      sorted_wrt (\<lambda>m n. me_start m < me_start n) (sh_after sh))"

lemma shape_ok_later: "shape_ok ts members i sh \<Longrightarrow> i \<le> i' \<Longrightarrow> shape_ok ts members i' sh"
  unfolding shape_ok_def by (meson order_less_le_trans)

lemma ordered_starts: "tokens_ordered ts \<Longrightarrow> i < j \<Longrightarrow> j < length ts \<Longrightarrow> lt_start (ts ! i) < lt_start (ts ! j)"
  using ordered_nth [of ts i j] ordered_span [of ts i] by simp

lemma add_member_ok:
  assumes "tokens_ordered ts" "shape_ok ts members i sh" "m \<in> set members" "at_token ts m i"
  shows "shape_ok ts members (i + 1) (add_member m sh)"
proof (cases "sh_body sh")
  case None
  have "shape_ok ts members i (add_member m sh)"
    using assms(2) None by (auto simp: shape_ok_def add_member_def)
  then show ?thesis by (rule shape_ok_later) simp
next
  case (Some b)
  have i: "i < length ts" "me_start m = lt_start (ts ! i)" using assms(4) by (simp_all add: at_token_def)
  have before: "lt_start (ts ! j) < me_start m" if "j < i" for j using ordered_starts [OF assms(1) that i(1)] i(2) by simp
  have "b < me_start m" using assms(2) Some before by (auto simp: shape_ok_def)
  moreover have "\<forall>n \<in> set (sh_after sh). me_start n < me_start m"
    using assms(2) before by (fastforce simp: shape_ok_def at_token_def)
  moreover have "add_member m sh = sh\<lparr>sh_after := sh_after sh @ [m]\<rparr>" using Some by (simp add: add_member_def)
  ultimately have "shape_ok ts members (i + 1) (add_member m sh) \<longleftrightarrow>
      (\<exists>j. j < i + 1 \<and> j < length ts \<and> b = lt_start (ts ! j)) \<and> (\<exists>j. j < i + 1 \<and> at_token ts m j)"
    using shape_ok_later [OF assms(2), of "i + 1"] assms(3) Some by (auto simp: shape_ok_def sorted_wrt_append)
  moreover have "\<exists>j. j < i + 1 \<and> j < length ts \<and> b = lt_start (ts ! j)"
    using shape_ok_later [OF assms(2), of "i + 1"] Some by (simp add: shape_ok_def)
  ultimately show ?thesis using assms(4) by (metis less_add_one)
qed

lemma note_body_ok:
  assumes "shape_ok ts members i sh" "i < length ts"
  shows "shape_ok ts members (i + 1) (note_body (lt_start (ts ! i)) sh)"
proof (cases "sh_body sh")
  case None
  then show ?thesis using assms by (fastforce simp: shape_ok_def note_body_def)
next
  case (Some b)
  then have "note_body (lt_start (ts ! i)) sh = sh" by (simp add: note_body_def)
  then show ?thesis using shape_ok_later [OF assms(1)] by simp
qed

lemma find_SomeD: "find P xs = Some x \<Longrightarrow> x \<in> set xs \<and> P x"
  by (auto simp: find_Some_iff)

lemma member_from_mem: "member_from members start = Some m \<Longrightarrow> m \<in> set members \<and> me_start m = start"
  using find_SomeD [of "\<lambda>m. me_start m = start" "rev members" m] by (simp add: member_from_def)

lemma layout_from_ok:
  assumes "\<forall>m \<in> set members. \<exists>j. at_token (si_significant (new_index t)) m j"
    and "stop \<le> length (si_significant (new_index t))" "shape_ok (si_significant (new_index t)) members i sh"
  shows "\<exists>i'. shape_ok (si_significant (new_index t)) members i' (layout_from (new_index t) members stop i sh)"
  using assms(3)
proof (induction "stop - i" arbitrary: i sh rule: less_induct)
  case less
  let ?si = "new_index t"
  let ?ts = "si_significant ?si"
  have ord: "tokens_ordered ?ts" using significant_ordered by simp
  note step = layout_from.simps [of ?si members stop i sh]
  consider "\<not> i < stop" | "i < stop" "word_of (?ts ! i) \<in> SECTION_WORDS \<and> sh_body sh = None"
    | m where "i < stop" "\<not> (word_of (?ts ! i) \<in> SECTION_WORDS \<and> sh_body sh = None)"
      "member_from members (lt_start (?ts ! i)) = Some m"
    | "i < stop" "\<not> (word_of (?ts ! i) \<in> SECTION_WORDS \<and> sh_body sh = None)"
      "member_from members (lt_start (?ts ! i)) = None"
    by (metis option.exhaust)
  then show ?case
  proof cases
    case 1
    then show ?thesis using step less.prems by (auto simp: Let_def)
  next
    case 2
    let ?j = "next_index (\<lambda>u. word_of u = ''END_VAR'') ?ts i stop + 1"
    have j: "i < ?j" by (simp add: next_index_def)
    have "layout_from ?si members stop i sh = layout_from ?si members stop ?j sh"
      using step 2 by (simp add: Let_def del: index_significant)
    moreover have "stop - ?j < stop - i" using 2(1) j by (intro diff_less_mono2)
    ultimately show ?thesis
      using less.hyps [of ?j sh] shape_ok_later [OF less.prems, of ?j] j by simp
  next
    case (3 m)
    have m: "m \<in> set members" "me_start m = lt_start (?ts ! i)" using member_from_mem [OF 3(3)] by simp_all
    have i: "i < length ?ts" using 3(1) assms(2) by simp
    obtain j where j: "at_token ?ts m j" using assms(1) m(1) by blast
    then have "j = i"
      using significant_index_start [OF refl i] significant_index_start [OF refl, of j t] m(2) by (simp add: at_token_def)
    then have at: "at_token ?ts m i" using j by simp
    let ?k = "significant_index ?si (me_end m)"
    have k: "i < ?k" using owner_advances [OF at] .
    then have "layout_from ?si members stop i sh = layout_from ?si members stop ?k (add_member m sh)"
      using step 3 by (simp add: Let_def del: index_significant)
    moreover have "stop - ?k < stop - i" using 3(1) k by (intro diff_less_mono2)
    moreover have "shape_ok ?ts members ?k (add_member m sh)"
      using shape_ok_later [OF add_member_ok [OF ord less.prems m(1) at], of ?k] k by simp
    ultimately show ?thesis using less.hyps [of ?k "add_member m sh"] by simp
  next
    case 4
    have "layout_from ?si members stop i sh = layout_from ?si members stop (i + 1) (note_body (lt_start (?ts ! i)) sh)"
      using step 4 by (simp add: Let_def del: index_significant)
    moreover have "stop - (i + 1) < stop - i" using 4(1) by simp
    moreover have "shape_ok ?ts members (i + 1) (note_body (lt_start (?ts ! i)) sh)"
      using note_body_ok [OF less.prems] 4(1) assms(2) by simp
    ultimately show ?thesis using less.hyps by metis
  qed
qed

lemma end_keyword_index_le: "end_keyword_index ts lo i \<le> i"
proof (induction ts lo i rule: end_keyword_index.induct)
  case (1 ts lo i)
  then show ?case by (subst end_keyword_index.simps) auto
qed

lemma layout_ok:
  assumes "u \<in> set (si_units (new_index t))"
  shows "\<exists>i. shape_ok (si_significant (new_index t)) (un_members u) i (layout (new_index t) u)"
proof -
  let ?si = "new_index t"
  let ?first = "significant_index ?si (un_start u)"
  let ?stop = "end_keyword_index (si_significant ?si) ?first (significant_index ?si (un_end u - 1))"
  have "?stop \<le> length (si_significant ?si)"
    using end_keyword_index_le significant_index_le le_trans by blast
  moreover have "\<forall>m \<in> set (un_members u). \<exists>j. at_token (si_significant ?si) m j" using member_tokens [OF assms] by blast
  moreover have "shape_ok (si_significant ?si) (un_members u) i \<lparr>sh_body = None, sh_before = [], sh_after = []\<rparr>" for i
    by (simp add: shape_ok_def)
  ultimately show ?thesis unfolding layout_def Let_def by (intro layout_from_ok)
qed

section \<open>The rules keep the contract\<close>

lemma move_edit_ok:
  assumes "dget files f = Some t" "pr_edits p = [move_edit f r d]" "fst r < snd r" "snd r \<le> length t" "d \<le> length t"
    and "d \<le> fst r \<or> snd r \<le> d"
  shows "proposal_ok files p"
  using assms by (auto simp: proposal_ok_def edit_fits_def valid_move_def move_edit_def)

lemma token_text_end: "j < length (si_significant (new_index t)) \<Longrightarrow> lt_end (si_significant (new_index t) ! j) \<le> length t"
  using token_span(2) [OF nth_token] by blast

lemma moved_span_bounds:
  assumes "q \<in> set (tokenize_lossless t)" "lt_start q < finish" "finish \<le> length t"
  shows "fst (moved_span (new_index t) (lt_start q) finish) < snd (moved_span (new_index t) (lt_start q) finish)"
    and "snd (moved_span (new_index t) (lt_start q) finish) \<le> length t"
proof -
  let ?a = "leading_pragmas (new_index t) (lt_start q)"
  have "line_start t ?a \<le> ?a" by (rule line_start_bounds)
  also have "?a \<le> lt_start q" using assms(1) by (rule leading_pragmas_le)
  also note assms(2)
  also have "finish \<le> line_end t finish" by (rule line_end_bounds [OF assms(3)])
  finally show "fst (moved_span (new_index t) (lt_start q) finish) < snd (moved_span (new_index t) (lt_start q) finish)"
    by (simp add: moved_span_def)
  show "snd (moved_span (new_index t) (lt_start q) finish) \<le> length t"
    using line_end_bounds [OF assms(3)] by (simp add: moved_span_def)
qed

text \<open>Moving a span in front of an earlier token keeps the destination in front of it.\<close>

lemma earlier_line:
  assumes "p \<in> set (significant (tokenize_lossless t))" "q \<in> set (tokenize_lossless t)" "lt_start p \<le> lt_start q"
  shows "line_start t (leading_pragmas (new_index t) (lt_start p)) \<le>
      fst (moved_span (new_index t) (lt_start q) finish)"
    and "line_start t (leading_pragmas (new_index t) (lt_start p)) \<le> length t"
proof -
  let ?a = "leading_pragmas (new_index t) (lt_start p)" and ?b = "leading_pragmas (new_index t) (lt_start q)"
  have "?a \<le> ?b" using leading_pragmas_mono [OF assms(1,2)] assms(3) by (cases "lt_start p = lt_start q") simp_all
  moreover have b: "?b \<le> length t"
    using leading_pragmas_le [OF assms(2)] token_span [of q t] assms(2) by simp
  ultimately show "line_start t ?a \<le> fst (moved_span (new_index t) (lt_start q) finish)"
    using line_start_mono by (simp add: moved_span_def)
  show "line_start t ?a \<le> length t" using line_start_bounds(2) [of t ?a] \<open>?a \<le> ?b\<close> b by linarith
qed

lemma unqualified_names_indices:
  assumes "unqualified_names (new_index t) ms = Inr names" "\<forall>m \<in> set ms. \<exists>j. at_token (si_significant (new_index t)) m j"
    and "sorted_wrt (\<lambda>m n. me_start m < me_start n) ms"
  shows "\<exists>js. names = map (\<lambda>j. si_significant (new_index t) ! (j + 1)) js \<and> sorted_wrt (<) js \<and>
    (\<forall>j \<in> set js. j + 1 < length (si_significant (new_index t)) \<and> (\<exists>m \<in> set ms. at_token (si_significant (new_index t)) m j))"
  using assms
proof (induction ms arbitrary: names)
  case Nil
  then show ?case by (simp add: exI [of _ "[]"])
next
  case (Cons m ms)
  let ?ts = "si_significant (new_index t)"
  obtain j where j: "at_token ?ts m j" using Cons.prems(2) by auto
  have n: "significant_index (new_index t) (me_start m) = j"
    using significant_index_start [OF refl, of j t] j by (simp add: at_token_def)
  have rest: "\<forall>m \<in> set ms. \<exists>j. at_token ?ts m j" "sorted_wrt (\<lambda>m n. me_start m < me_start n) ms"
    using Cons.prems(2,3) by auto
  show ?case
  proof (cases "\<not> is_action m \<or> (j + 2 < length ?ts \<and> lt_text (?ts ! (j + 2)) = ''.'')")
    case True
    then have "unqualified_names (new_index t) ms = Inr names" using Cons.prems(1) by (simp add: n Let_def)
    from Cons.IH [OF this rest] show ?thesis by auto
  next
    case False
    then obtain names' where l: "j + 1 < length ?ts" "unqualified_names (new_index t) ms = Inr names'"
      "names = ?ts ! (j + 1) # names'"
      using Cons.prems(1) by (auto simp: n Let_def bindE_eq_Inr not_le simp del: index_significant split: if_splits)
    from Cons.IH [OF l(2) rest] obtain js where js: "names' = map (\<lambda>j. ?ts ! (j + 1)) js" "sorted_wrt (<) js"
      "\<forall>i \<in> set js. i + 1 < length ?ts \<and> (\<exists>n \<in> set ms. at_token ?ts n i)" by blast
    have "j < i" if i: "i \<in> set js" for i
    proof (rule ccontr)
      obtain n where n: "n \<in> set ms" "at_token ?ts n i" using js(3) i by blast
      assume "\<not> j < i"
      then have "lt_start (?ts ! i) \<le> lt_start (?ts ! j)"
        using ordered_end_mono(2) [of ?ts i j] significant_ordered l(1) by simp
      moreover have "me_start m < me_start n" using Cons.prems(3) n(1) by simp
      ultimately show False using n(2) j by (simp add: at_token_def)
    qed
    then have "sorted_wrt (<) (j # js)" using js(2) by simp
    then show ?thesis using l js(1,3) j by (intro exI [of _ "j # js"]) auto
  qed
qed

lemma hd_last_ordered:
  assumes "sorted_wrt (\<lambda>m n. me_start m < me_start n) ms" "ms \<noteq> []"
  shows "me_start (hd ms) \<le> me_start (last ms)"
proof -
  obtain m rest where m: "ms = m # rest" using assms(2) by (cases ms) auto
  show ?thesis
  proof (cases "rest = []")
    case False
    then have "last rest \<in> set rest" by simp
    then have "me_start m < me_start (last rest)" using assms(1) m by simp
    then show ?thesis using False m by simp
  qed (simp add: m)
qed

lemma group_move_ok:
  assumes u: "u \<in> set (si_units (new_index t))" and tr: "sh_after (layout (new_index t) u) \<noteq> []"
    and f: "dget files f = Some t" and p: "pr_edits p = [group_move f (new_index t) u (layout (new_index t) u)]"
  shows "proposal_ok files p"
proof -
  let ?si = "new_index t"
  let ?ts = "si_significant ?si" and ?sh = "layout ?si u" and ?trailing = "sh_after (layout ?si u)"
  let ?g = "leading_group ?trailing"
  obtain i where sh: "shape_ok ?ts (un_members u) i ?sh" using layout_ok [OF u] by blast
  obtain m rest where m: "?trailing = m # rest" using tr by (cases ?trailing) auto
  have g: "hd ?g = m" "?g \<noteq> []" "set ?g \<subseteq> set ?trailing"
    using m by (auto simp: leading_group_def dest: set_takeWhileD)
  have "sorted_wrt (\<lambda>m n. me_start m < me_start n) ?g"
    using sh m unfolding leading_group_def shape_ok_def by (metis sorted_wrt_append takeWhile_dropWhile_id)
  then have le: "me_start m \<le> me_start (last ?g)" using hd_last_ordered g(1,2) by metis
  have lastg: "last ?g \<in> set ?trailing" using g(2,3) by (meson last_in_set subsetD)
  obtain j where j: "at_token ?ts m j" using sh m by (auto simp: shape_ok_def)
  obtain k where k: "at_token ?ts (last ?g) k" using sh lastg by (auto simp: shape_ok_def)
  have mem: "last ?g \<in> set (un_members u)" using sh lastg by (auto simp: shape_ok_def)
  have q: "?ts ! j \<in> set (tokenize_lossless t)" "me_start m = lt_start (?ts ! j)"
    using nth_token [of j t] j by (simp_all add: at_token_def)
  have "me_start (last ?g) < me_end (last ?g)"
    using k ordered_span [of ?ts k] significant_ordered by (auto simp: at_token_def)
  with le have lt: "lt_start (?ts ! j) < me_end (last ?g)" using q(2) by simp
  have ue: "me_end (last ?g) \<le> un_end u" "un_end u \<le> lt_end (last ?ts)"
    using index_units_ok [of t] u mem by (auto simp: units_ok_def unit_ok_def members_in_def)
  have "lt_end (last ?ts) \<le> length t"
    using token_text_end [of "length ?ts - 1" t] j by (cases "?ts = []") (auto simp: at_token_def last_conv_nth)
  with ue have len: "me_end (last ?g) \<le> length t" "un_end u \<le> length t" by linarith+
  let ?r = "moved_span ?si (me_start m) (me_end (last ?g))"
  have r: "fst ?r < snd ?r" "snd ?r \<le> length t"
    using moved_span_bounds [OF q(1) lt len(1)] q(2) by simp_all
  show ?thesis
  proof (cases "is_action m")
    case True
    have "pr_edits p = [move_edit f ?r (line_end t (un_end u))]"
      using p m g(1) True by (simp add: group_move_def Let_def)
    moreover have "snd ?r \<le> line_end t (un_end u)" using line_end_mono [OF ue(1) len(2)] by (simp add: moved_span_def)
    ultimately show ?thesis using move_edit_ok [OF f _ r] line_end_bounds(2) [OF len(2)] by blast
  next
    case False
    obtain b where b: "sh_body ?sh = Some b" "b < me_start m" using sh m by (auto simp: shape_ok_def)
    obtain n where n: "n < length ?ts" "b = lt_start (?ts ! n)" using sh b(1) by (auto simp: shape_ok_def)
    have e: "pr_edits p = [move_edit f ?r (line_start t (leading_pragmas ?si (lt_start (?ts ! n))))]"
      using p m g(1) False b(1) n(2) by (simp add: group_move_def Let_def)
    have "?ts ! n \<in> set (significant (tokenize_lossless t))" using n(1) by simp
    note line = earlier_line(1) [OF this q(1), of "me_end (last ?g)"] earlier_line(2) [OF this q(1)]
    show ?thesis using move_edit_ok [OF f e r] line b(2) n(2) q(2) by simp
  qed
qed

lemma owner_of_mem: "owner_of si offset = Some u \<Longrightarrow> u \<in> set (si_units si)"
  by (auto simp: owner_of_def split: option.splits if_splits dest: unit_containing_mem)

lemma member_reorder_keeps: "keeps_contract member_reorder"
proof (rule keeps_contractI)
  fix files cx f t d p known
  assume t: "dget files f = Some t" "rule_index cx f = new_index t"
    and p: "rl_propose member_reorder cx f (locate d (new_index t)) = Inr (Some p, known)"
  let ?si = "new_index t"
  let ?ts = "si_significant ?si"
  obtain token where token: "lo_token (locate d ?si) = Some token" "is_word token" "upper_of token \<in> MEMBER_KEYWORDS"
    using p by (auto simp: member_reorder_def propose_member_reorder_def split: if_splits option.splits)
  then obtain u where u: "owner_of ?si (lt_start token) = Some u"
    using p by (auto simp: member_reorder_def propose_member_reorder_def t(2) Let_def
        simp del: index_significant index_units split: if_splits option.splits)
  have ex: "list_ex (\<lambda>m. me_start m = lt_start token) (sh_after (layout ?si u))"
    using p token u by (auto simp: member_reorder_def propose_member_reorder_def t(2) Let_def
        simp del: index_significant index_units split: if_splits)
  obtain names where names: "unqualified_names ?si (sh_after (layout ?si u)) = Inr names"
    using p token u ex by (auto simp: member_reorder_def propose_member_reorder_def t(2) Let_def bindE_eq_Inr
        simp del: index_significant index_units)
  have tr: "sh_after (layout ?si u) \<noteq> []" using ex by auto
  have e: "pr_edits p = (if names \<noteq> [] then map (\<lambda>n. token_edit f n (un_name u @ ''.'' @ lt_text n)) names
      else [group_move f ?si u (layout ?si u)])"
    using p token u ex names by (simp add: member_reorder_def propose_member_reorder_def t(2) Let_def
        del: index_significant index_units split: if_splits)
  have mem: "u \<in> set (si_units ?si)" using owner_of_mem [OF u] .
  show "proposal_ok files p"
  proof (cases "names = []")
    case True
    then show ?thesis using group_move_ok [OF mem tr t(1)] e by simp
  next
    case False
    obtain i where "shape_ok ?ts (un_members u) i (layout ?si u)" using layout_ok [OF mem] by blast
    then have "\<forall>m \<in> set (sh_after (layout ?si u)). \<exists>j. at_token ?ts m j"
      "sorted_wrt (\<lambda>m n. me_start m < me_start n) (sh_after (layout ?si u))"
      by (auto simp: shape_ok_def)
    from unqualified_names_indices [OF names this] obtain js where js: "names = map (\<lambda>j. ?ts ! (j + 1)) js"
      "sorted_wrt (<) js" "\<forall>j \<in> set js. j + 1 < length ?ts" by blast
    show ?thesis
      by (rule indexed_edits_ok [OF t(1), of _ "map (\<lambda>j. (j + 1, un_name u @ ''.'' @ lt_text (?ts ! (j + 1)))) js"])
        (use e False js in \<open>simp_all add: sorted_wrt_map comp_def\<close>)
  qed
qed

lemma first_member:
  assumes "ms \<noteq> []"
  shows "hd (sort_key me_start ms) \<in> set ms"
  using assms by (metis hd_in_set length_0_conv length_sort set_sort)

lemma next_index_ge: "i \<le> next_index P ts i stop"
  by (simp add: next_index_def)

lemma located_offset_token:
  assumes "lo_token (locate d (new_index t)) = Some token" "\<not> is_trivia token"
  obtains j where "j < length (si_significant (new_index t))" "token = si_significant (new_index t) ! j"
    "significant_index (new_index t) (lt_start token) = j"
proof -
  have "token \<in> set (si_significant (new_index t))"
    using located_token_mem [OF assms(1)] assms(2) by (simp add: significant_def)
  then obtain j where j: "j < length (si_significant (new_index t))" "token = si_significant (new_index t) ! j"
    by (metis in_set_conv_nth)
  then show ?thesis using that significant_index_start [OF refl j(1)] by simp
qed

lemma word_not_trivia: "is_word t \<Longrightarrow> \<not> is_trivia t"
  by (auto simp: is_word_def is_trivia_def TRIVIA_def)

lemma section_reorder_keeps: "keeps_contract section_reorder"
proof (rule keeps_contractI)
  fix files cx f t d p known
  assume t: "dget files f = Some t" "rule_index cx f = new_index t"
    and p: "rl_propose section_reorder cx f (locate d (new_index t)) = Inr (Some p, known)"
  let ?si = "new_index t"
  let ?ts = "si_significant ?si"
  obtain token where token: "lo_token (locate d ?si) = Some token" "is_word token" "word_of token \<in> SECTION_WORDS"
    using p by (auto simp: section_reorder_def propose_section_reorder_def split: if_splits option.splits)
  then obtain u where u: "owner_of ?si (lt_start token) = Some u" "un_members u \<noteq> []"
    using p by (auto simp: section_reorder_def propose_section_reorder_def t(2) Let_def
        simp del: index_significant index_units split: if_splits option.splits)
  let ?m = "hd (sort_key me_start (un_members u))"
  let ?i = "next_index (\<lambda>v. un_end u \<le> lt_start v \<or> word_of v = ''END_VAR'') ?ts (significant_index ?si (lt_start token)) (length ?ts)"
  have e: "me_start ?m \<le> lt_start token" "?i < length ?ts"
    "pr_edits p = [move_edit f (moved_span ?si (lt_start token) (lt_end (?ts ! ?i))) (line_start t (leading_pragmas ?si (me_start ?m)))]"
    using p token u by (auto simp: section_reorder_def propose_section_reorder_def t(2) Let_def not_less not_le
        simp del: index_significant index_units split: if_splits)
  obtain j where j: "j < length ?ts" "token = ?ts ! j" "significant_index ?si (lt_start token) = j"
    using located_offset_token [OF token(1) word_not_trivia [OF token(2)]] by blast
  obtain k where k: "at_token ?ts ?m k"
    using member_tokens [OF owner_of_mem [OF u(1)] first_member [OF u(2)]] by blast
  have q: "token \<in> set (tokenize_lossless t)" using nth_token [OF j(1)] j(2) by simp
  have "j \<le> ?i" using next_index_ge j(3) by simp
  then have "lt_end (?ts ! j) \<le> lt_end (?ts ! ?i)"
    using ordered_end_mono(1) [of ?ts j ?i] significant_ordered e(2) by simp
  then have lt: "lt_start token < lt_end (?ts ! ?i)"
    using ordered_span [of ?ts j] significant_ordered j(1,2) by fastforce
  have n: "?ts ! k \<in> set (significant (tokenize_lossless t))" "me_start ?m = lt_start (?ts ! k)"
    using k by (simp_all add: at_token_def)
  note line = earlier_line(1) [OF n(1) q, of "lt_end (?ts ! ?i)"] earlier_line(2) [OF n(1) q]
  show "proposal_ok files p"
    using move_edit_ok [OF t(1) e(3) moved_span_bounds [OF q lt token_text_end [OF e(2)]]] line e(1) n(2) by simp
qed

lemma accessor_edits_indices:
  assumes "accessor_edits decl ts name k inside = Some (es, n)"
  shows "(\<forall>(i, r) \<in> set es. k \<le> i \<and> i < length ts) \<and> sorted_wrt (<) (map fst es)"
  using assms
proof (induction decl ts name k inside arbitrary: es n rule: accessor_edits.induct)
  case (1 decl ts name k inside)
  let ?w = "upper_of (ts ! k)"
  note unfolded = "1.prems" [unfolded accessor_edits.simps [of decl ts name k inside]]
  have k: "\<not> length ts \<le> k" using unfolded by auto
  have cons: ?case if "es = (k, r) # es'" "\<forall>(i, r) \<in> set es'. k + 1 \<le> i \<and> i < length ts" "sorted_wrt (<) (map fst es')" for r es'
    using that k by fastforce
  show ?case
  proof (cases inside)
    case None
    consider "?w = ''GET'' \<or> ?w = ''SET''" | "\<not> (?w = ''GET'' \<or> ?w = ''SET'')" by blast
    then show ?thesis
    proof cases
      case 1
      then obtain es' n' where es': "accessor_edits decl ts name (k + 1) (Some (''END_'' @ ?w)) = Some (es', n')"
        "\<exists>r. es = (k, r) # es'"
        using unfolded k None by (auto simp: Let_def)
      from "1.IH"(1) [OF k refl None 1 es'(1)] es'(2) cons show ?thesis by blast
    next
      case 2
      then show ?thesis using unfolded k None by (auto simp: Let_def split: if_splits)
    qed
  next
    case (Some closing)
    show ?thesis
    proof (cases "?w = closing")
      case True
      then obtain es' n' where es': "accessor_edits decl ts name (k + 1) None = Some (es', n')" "\<exists>r. es = (k, r) # es'"
        using unfolded k Some by (auto simp: Let_def)
      from "1.IH"(2) [OF k refl Some True es'(1)] es'(2) cons show ?thesis by blast
    next
      case False
      then have "accessor_edits decl ts name (k + 1) inside = Some (es, n)"
        using unfolded k Some by (simp add: Let_def)
      from "1.IH"(3) [OF k refl Some False this] show ?thesis by fastforce
    qed
  qed
qed

lemma property_name_ge: "property_name ts j = Inr n \<Longrightarrow> j \<le> n"
proof (induction ts j rule: property_name.induct)
  case (1 ts j)
  then show ?case by (subst (asm) (2) property_name.simps) (auto split: if_splits)
qed

lemma property_accessors_keeps: "keeps_contract property_accessors"
proof (rule keeps_contractI)
  fix files cx f t d p known
  assume t: "dget files f = Some t" "rule_index cx f = new_index t"
    and p: "rl_propose property_accessors cx f (locate d (new_index t)) = Inr (Some p, known)"
  let ?si = "new_index t"
  let ?ts = "si_significant ?si"
  obtain start j a decl r es n where s: "property_name ?ts (start + 1) = Inr j" "first_accessor ?ts (j + 2) = Some a"
    "accessor_edits decl ?ts (lt_text (?ts ! j)) a None = Some (es, n)"
    "pr_edits p = mk_edit f (lt_start (?ts ! start)) (lt_end (?ts ! (a - 1))) r # map (\<lambda>(i, r). token_edit f (?ts ! i) r) es"
    using p by (auto simp: property_accessors_def propose_accessors_def t(2) Let_def bindE_eq_Inr
        simp del: index_significant split: if_splits option.splits)
  have a: "a < length ?ts" "j + 2 \<le> a" using s(2) next_index_ge by (auto simp: first_accessor_def Let_def split: if_splits)
  have "start + 1 \<le> j" using property_name_ge [OF s(1)] .
  then have st: "start \<le> a - 1" using a(2) by linarith
  note es = accessor_edits_indices [OF s(3)]
  show "proposal_ok files p"
  proof (rule index_spans_ok [OF t(1), of _ "(start, a - 1, r) # map (\<lambda>(i, r). (i, i, r)) es"])
    show "pr_edits p = map (\<lambda>(i, j, r). mk_edit f (lt_start (?ts ! i)) (lt_end (?ts ! j)) r)
        ((start, a - 1, r) # map (\<lambda>(i, r). (i, i, r)) es)"
      by (simp add: s(4) token_edit_def case_prod_beta)
    show "\<forall>(i, j, r) \<in> set ((start, a - 1, r) # map (\<lambda>(i, r). (i, i, r)) es). i \<le> j \<and> j < length ?ts"
      using es a st by (auto simp del: index_significant)
    have "a - 1 < i" if "(i, r) \<in> set es" for i r using es that a(2) by fastforce
    then show "sorted_wrt (\<lambda>x y. fst (snd x) < fst y) ((start, a - 1, r) # map (\<lambda>(i, r). (i, i, r)) es)"
      using es by (auto simp: sorted_wrt_map case_prod_beta)
  qed
qed

section \<open>The rules as a rule set\<close>

definition STRUCTURE_RULES :: "rewrite_rule list" where
  "STRUCTURE_RULES = [member_reorder, property_accessors, section_reorder]"

lemma unqualified_names_error [index_only_intros]: "index_only (unqualified_names si ms)"
  by (induction ms) (simp_all add: Let_def index_only_intros)

lemma property_name_error [index_only_intros]: "index_only (property_name ts j)"
proof (induction ts j rule: property_name.induct)
  case (1 ts j)
  then show ?case by (subst property_name.simps) (auto intro!: index_only_intros)
qed

lemma structure_rules_raise:
  "raises_index_only member_reorder" "raises_index_only property_accessors" "raises_index_only section_reorder"
  by (simp_all add: raises_index_only_def Let_def member_reorder_def propose_member_reorder_def property_accessors_def
      propose_accessors_def section_reorder_def propose_section_reorder_def index_only_intros)

interpretation structural: rule_set STRUCTURE_RULES
  by unfold_locales (auto simp: STRUCTURE_RULES_def
      intro: member_reorder_keeps property_accessors_keeps section_reorder_keeps structure_rules_raise)

section \<open>Comments inside a property header\<close>

lemma replace_pair_hd: "x \<noteq> a \<Longrightarrow> replace_all [a, b] new (x # s) = x # replace_all [a, b] new s"
  by (cases s) (simp_all add: replace_pair)

lemma property_comment_scan:
  assumes "\<not> has_pair CHR ''('' CHR ''*'' header"
  shows "scan (property_comment header @ rest) = (''comment'', length (property_comment header))"
proof -
  define b where "b = replace_all ''*)'' ''* )'' header"
  have b: "\<not> has_pair CHR ''('' CHR ''*'' b" "\<not> has_pair CHR ''*'' CHR '')'' b"
    unfolding b_def using spaced_no_pair [of "CHR ''*''" "CHR '')''" "CHR ''(''" "CHR ''*''" header] assms by simp_all
  show ?thesis using scan_plain_comment [OF b] by (simp add: property_comment_def b_def)
qed

text \<open>Through a text without a closing pair the nesting only grows, by at least one for an opening pair.\<close>

lemma comment_length_open:
  assumes "\<not> has_pair CHR ''*'' CHR '')'' (prev # b)" "1 \<le> u"
  shows "\<exists>v p. u \<le> v \<and> (has_pair CHR ''('' CHR ''*'' (prev # b) \<longrightarrow> u < v) \<and>
    (\<forall>t. comment_length CHR ''('' CHR '')'' u prev (b @ t) =
       map_option (\<lambda>n. n + length b) (comment_length CHR ''('' CHR '')'' v p t))"
  using assms
proof (induction b arbitrary: prev u)
  case Nil
  show ?case by (intro exI [of _ u] exI [of _ prev]) (simp add: option.map_ident)
next
  case (Cons c b)
  define u' where "u' = (if c = CHR ''*'' \<and> prev = CHR ''('' then u + 1 else u)"
  define p' where "p' = (if c = CHR ''*'' \<and> prev = CHR ''('' then CHR '' '' else c)"
  have no: "\<not> (c = CHR '')'' \<and> prev = CHR ''*'')" "\<not> has_pair CHR ''*'' CHR '')'' (c # b)"
    using Cons.prems(1) by auto
  have step: "comment_length CHR ''('' CHR '')'' u prev (c # s) = map_option Suc (comment_length CHR ''('' CHR '')'' u' p' s)" for s
    using no(1) Cons.prems(2) by (auto simp: u'_def p'_def Let_def)
  have "\<not> has_pair CHR ''*'' CHR '')'' (p' # b)"
    using no(2) by (auto simp: p'_def has_pair_Cons)
  moreover have "1 \<le> u'" using Cons.prems(2) by (simp add: u'_def)
  ultimately obtain v p where v: "u' \<le> v" "has_pair CHR ''('' CHR ''*'' (p' # b) \<longrightarrow> u' < v"
    and cl: "\<And>t. comment_length CHR ''('' CHR '')'' u' p' (b @ t) = map_option (\<lambda>n. n + length b) (comment_length CHR ''('' CHR '')'' v p t)"
    using Cons.IH by blast
  have "u \<le> v \<and> (has_pair CHR ''('' CHR ''*'' (prev # c # b) \<longrightarrow> u < v)"
    using v by (auto simp: u'_def p'_def split: if_splits)
  moreover have "comment_length CHR ''('' CHR '')'' u prev ((c # b) @ t) =
      map_option (\<lambda>n. n + length (c # b)) (comment_length CHR ''('' CHR '')'' v p t)" for t
    unfolding append_Cons step cl by (simp add: option.map_comp comp_def)
  ultimately show ?case by blast
qed

lemma comment_length_never:
  assumes "\<not> has_pair CHR ''*'' CHR '')'' (prev # s)" "1 \<le> u"
  shows "comment_length CHR ''('' CHR '')'' u prev s = None"
proof -
  obtain v p where "comment_length CHR ''('' CHR '')'' u prev (s @ []) =
      map_option (\<lambda>n. n + length s) (comment_length CHR ''('' CHR '')'' v p [])"
    using comment_length_open [OF assms] by blast
  then show ?thesis by simp
qed

lemma broken_closer_keeps_opener:
  "has_pair CHR ''('' CHR ''*'' s \<Longrightarrow> has_pair CHR ''('' CHR ''*'' (replace_all ''*)'' ''* )'' s)"
proof (induction s rule: pairs_of.induct)
  case (1 x y s)
  have hd: "\<exists>r. replace_all ''*)'' ''* )'' (y # s) = y # r"
    using spaced_no_pair [of "CHR ''*''" "CHR '')''" "CHR ''(''" "CHR ''*''" "y # s"] by simp
  show ?case
  proof (cases "x = CHR ''*'' \<and> y = CHR '')''")
    case True
    then have "has_pair CHR ''('' CHR ''*'' s" using "1.prems" by (cases s) auto
    then show ?thesis using "1.IH"(2) True by (simp add: replace_pair has_pair_Cons)
  next
    case False
    then show ?thesis using "1.IH"(1) "1.prems" hd by (auto simp: replace_pair has_pair_Cons)
  qed
qed simp_all

lemma nested_header_scan:
  assumes "has_pair CHR ''('' CHR ''*'' header"
  shows "scan (property_comment header @ rest) \<noteq> (''comment'', length (property_comment header))"
    and "\<not> has_pair CHR ''*'' CHR '')'' rest \<Longrightarrow> scan (property_comment header @ rest) = (''error'', 2)"
proof -
  define b where "b = CHR '' '' # replace_all ''*)'' ''* )'' header"
  have "\<not> has_pair CHR ''*'' CHR '')'' (replace_all ''*)'' ''* )'' header)"
    using spaced_no_pair [of "CHR ''*''" "CHR '')''" "CHR ''(''" "CHR ''*''" header] by simp
  then have nb: "\<not> has_pair CHR ''*'' CHR '')'' (CHR '' '' # b)" by (simp add: b_def has_pair_Cons)
  have ob: "has_pair CHR ''('' CHR ''*'' (CHR '' '' # b)"
    using broken_closer_keeps_opener [OF assms] by (simp add: b_def has_pair_Cons)
  have pc: "property_comment header @ rest = ''(*'' @ b @ '' *)'' @ rest" "length (property_comment header) = length b + 5"
    by (simp_all add: property_comment_def b_def)
  obtain v p where v: "1 < v" and cl: "\<And>t. comment_length CHR ''('' CHR '')'' 1 CHR '' '' (b @ t) =
      map_option (\<lambda>n. n + length b) (comment_length CHR ''('' CHR '')'' v p t)"
    using comment_length_open [OF nb, of 1] ob by auto
  have tail: "comment_length CHR ''('' CHR '')'' v p ('' *)'' @ rest) =
      map_option (\<lambda>n. n + 3) (comment_length CHR ''('' CHR '')'' (v - 1) CHR '')'' rest)"
    using v by (simp add: option.map_comp comp_def numeral_3_eq_3)
  have be: "block_comment_end (property_comment header @ rest) =
      map_option (\<lambda>n. n + length (property_comment header)) (comment_length CHR ''('' CHR '')'' (v - 1) CHR '')'' rest)"
  proof -
    have "block_comment_end (property_comment header @ rest) =
        map_option (\<lambda>n. n + 2) (comment_length CHR ''('' CHR '')'' 1 CHR '' '' (b @ '' *)'' @ rest))"
      by (simp add: pc block_comment_end_def)
    then show ?thesis unfolding cl tail pc(2) by (simp add: option.map_comp comp_def ac_simps)
  qed
  have "\<not> is_blank_char CHR ''(''" "starts_with ''(*'' (''(*'' @ b @ '' *)'' @ rest)"
    by (simp_all add: is_blank_char_def starts_with_def)
  then have sc: "scan (property_comment header @ rest) = scan_comment (property_comment header @ rest)"
    unfolding pc(1) by (simp add: scan_def)
  have "n \<noteq> 0" if "comment_length CHR ''('' CHR '')'' (v - 1) CHR '')'' rest = Some n" for n
    using that by (cases rest) (auto simp: Let_def split: if_splits)
  then show "scan (property_comment header @ rest) \<noteq> (''comment'', length (property_comment header))"
    unfolding sc scan_comment_def be by (auto split: option.splits)
  assume "\<not> has_pair CHR ''*'' CHR '')'' rest"
  then have "comment_length CHR ''('' CHR '')'' (v - 1) CHR '')'' rest = None"
    using v by (intro comment_length_never) (simp_all add: has_pair_Cons)
  then show "scan (property_comment header @ rest) = (''error'', 2)"
    unfolding sc scan_comment_def be by simp
qed

text \<open>
  (C39) The rule for properties comments the header out by breaking every \<open>*)\<close> in it. When the header has
  no comment of its own, that gives one comment, exactly as long as intended. A comment inside the header
  keeps its opening \<open>(*\<close>, and comments nest for the pinned compiler: then the new text is never the
  comment it is meant to be, and when no \<open>*)\<close> follows in the file it is no comment at all, but an error
  token. The comments other rules write, which break both brackets, always end.
\<close>

theorem property_header_comment_unclosed:
  "(\<not> has_pair CHR ''('' CHR ''*'' header \<longrightarrow>
      scan (property_comment header @ rest) = (''comment'', length (property_comment header))) \<and>
   (has_pair CHR ''('' CHR ''*'' header \<longrightarrow>
      scan (property_comment header @ rest) \<noteq> (''comment'', length (property_comment header)) \<and>
      (\<not> has_pair CHR ''*'' CHR '')'' rest \<longrightarrow> scan (property_comment header @ rest) = (''error'', 2))) \<and>
   scan (as_comment header @ rest) = (''comment'', length (as_comment header))"
  using property_comment_scan nested_header_scan as_comment_scan by blast

theorem property_header_comment_unclosed_witness:
  "scan (property_comment ''P'' @ []) = (''comment'', 7) \<and>
   scan (property_comment ''PROPERTY P (* c *) : INT'' @ '' PROPERTY_GET P : INT END_PROPERTY'') = (''error'', 2)"
proof -
  have "has_pair CHR ''('' CHR ''*'' ''PROPERTY P (* c *) : INT''" by simp
  moreover have "\<not> has_pair CHR ''*'' CHR '')'' '' PROPERTY_GET P : INT END_PROPERTY''" by simp
  ultimately have "scan (property_comment ''PROPERTY P (* c *) : INT'' @ '' PROPERTY_GET P : INT END_PROPERTY'') = (''error'', 2)"
    using property_header_comment_unclosed by blast
  then show ?thesis using property_header_comment_unclosed [of "''P''" "[]"] by (simp add: property_comment_def)
qed

end
