(* ===== verification/Scl_Rules.thy ===== *)
theory Scl_Rules
  imports Structure_Rules
begin

text \<open>
  The rules for Siemens SCL that rewrite words, literals and lines
  (\<^verbatim>\<open>compiler/intake/normalize/rules/scl.py\<close>): block attributes, quoted and prefixed names, regions, time
  and typed literals, separators. \<open>Scl_Blocks\<close> holds those for sections and calls; data blocks and views of
  arrays are not modelled.
  Each rule is shown to keep the contract of \<open>Rewrite_Rules\<close>.
\<close>

section \<open>Lines\<close>

definition line_stop :: "string \<Rightarrow> nat \<Rightarrow> nat" where
  "line_stop t offset = offset + length (takeWhile (\<lambda>c. c \<noteq> newline) (drop offset t))"

definition line_bounds :: "string \<Rightarrow> nat \<Rightarrow> nat \<times> nat" where
  "line_bounds t offset = (line_begin t offset, line_stop t offset)"

text \<open>Nothing but blanks stands before the offset on its line.\<close>

definition first_on_line :: "string \<Rightarrow> nat \<Rightarrow> bool" where
  "first_on_line t offset = all_blank (span (line_begin t offset) offset t)"

text \<open>\<open>tokens[k - 1].text\<close>, which for \<open>k = 0\<close> is that of the last token.\<close>

definition text_before :: "lossless_token list \<Rightarrow> nat \<Rightarrow> string" where
  "text_before ts k = lt_text (if k = 0 then last ts else ts ! (k - 1))"

text \<open>\<open>tokens[k + 1].text if k + 1 < len(tokens) else ""\<close>\<close>

definition text_after :: "lossless_token list \<Rightarrow> nat \<Rightarrow> string" where
  "text_after ts k = (if k + 1 < length ts then lt_text (ts ! (k + 1)) else [])"

section \<open>scl-block-attributes\<close>

definition BLOCK_ATTRIBUTES :: "string set" where
  "BLOCK_ATTRIBUTES = {''TITLE'', ''VERSION'', ''AUTHOR'', ''NAME'', ''FAMILY'', ''KNOW_HOW_PROTECT'', ''CODE_VERSION1'',
     ''UNLINKED'', ''READ_ONLY'', ''NON_RETAIN'', ''S7_OPTIMIZED_ACCESS''}"

definition HEADER_KINDS :: "string set" where
  "HEADER_KINDS = {''FUNCTION'', ''FUNCTION_BLOCK'', ''ORGANIZATION_BLOCK'', ''DATA_BLOCK'', ''TYPE''}"

definition HEADER_STOPS :: "string set" where
  "HEADER_STOPS = {''END_FUNCTION'', ''END_FUNCTION_BLOCK'', ''END_TYPE'', ''END_DATA_BLOCK'', ''END_ORGANIZATION_BLOCK'',
     ''VAR'', ''VAR_INPUT'', ''VAR_OUTPUT'', ''VAR_IN_OUT'', ''VAR_TEMP'', ''STRUCT'', ''BEGIN''}"

text \<open>The attribute lines from token \<open>i\<close>. A token ends its line's part behind its own start.\<close>

function attribute_spans :: "string \<Rightarrow> lossless_token list \<Rightarrow> nat \<Rightarrow> (nat \<times> nat) list" where
  "attribute_spans t ts i =
     (if i < length ts \<and> upper_of (ts ! i) \<in> BLOCK_ATTRIBUTES \<and> first_on_line t (lt_start (ts ! i))
      then let e = line_stop t (lt_start (ts ! i)) in
        (lt_start (ts ! i), e) # attribute_spans t ts (next_index (\<lambda>u. e \<le> lt_start u) ts (i + 1) (length ts))
      else [])"
  by pat_completeness auto
termination by (relation "measure (\<lambda>(t, ts, i). length ts - i)") (auto simp: next_index_def)

declare attribute_spans.simps [simp del]

definition attribute_lines :: "source_index \<Rightarrow> nat \<Rightarrow> (nat \<times> nat) list" where
  "attribute_lines si header =
     (let ts = si_significant si; line = lt_line (ts ! header) in
      attribute_spans (si_text si) ts (next_index (\<lambda>u. lt_line u \<noteq> line) ts (header + 1) (length ts)))"

text \<open>The block header before a token, unless a declaration or a block ends before it.\<close>

fun header_among :: "lossless_token list \<Rightarrow> nat list \<Rightarrow> nat option" where
  "header_among ts [] = None"
| "header_among ts (i # is) =
     (if upper_of (ts ! i) \<in> HEADER_KINDS \<and> is_word (ts ! i) then Some i
      else if upper_of (ts ! i) \<in> HEADER_STOPS then None else header_among ts is)"

definition enclosing_header :: "source_index \<Rightarrow> nat \<Rightarrow> nat option" where
  "enclosing_header si offset =
     (let ts = si_significant si in
      header_among ts (rev [0..<min (significant_index si offset + 1) (length ts)]))"

definition SCL_BLOCK_ATTRIBUTES :: rule_spec where
  "SCL_BLOCK_ATTRIBUTES = \<lparr>rs_id = ''scl-block-attributes'', rs_version = 2, rs_level = ''L1'', rs_codes = [''E007'', ''E006'']\<rparr>"

definition on_attribute :: "located \<Rightarrow> bool" where
  "on_attribute item = (case lo_token item of None \<Rightarrow> False | Some t \<Rightarrow> upper_of t \<in> BLOCK_ATTRIBUTES)"

definition propose_block_attributes :: "rule_context \<Rightarrow> string \<Rightarrow> located \<Rightarrow> proposing" where
  "propose_block_attributes cx f item =
     (let si = rule_index cx f; ts = si_significant si; position = significant_index si (lo_offset item);
          own = enclosing_header si (lo_offset item);
          header = (if own = None \<and> 0 < position \<and> position < length ts
                    then enclosing_header si (lt_start (ts ! (position - 1))) else own) in
      case header of
        None \<Rightarrow> decline cx
      | Some h \<Rightarrow>
          (let spans = attribute_lines si h in
           if spans = [] \<or> \<not> (on_attribute item \<or> significant_index si (snd (last spans)) = position \<or>
                (\<exists>(s, e) \<in> set spans. s \<le> lo_offset item \<and> lo_offset item \<le> e + 1)) then decline cx
           else offers cx (make_proposal SCL_BLOCK_ATTRIBUTES
             [KText (rs_id SCL_BLOCK_ATTRIBUTES), KText f, KNum (fst (hd spans))]
             (map (\<lambda>(s, e). mk_edit f s e (as_comment (span s e (si_text si)))) spans) [] [])))"

definition block_attributes :: rewrite_rule where
  "block_attributes = \<lparr>rl_spec = SCL_BLOCK_ATTRIBUTES, rl_propose = propose_block_attributes\<rparr>"

section \<open>scl-quoted-identifier\<close>

definition SCL_QUOTED_IDENTIFIER :: rule_spec where
  "SCL_QUOTED_IDENTIFIER = \<lparr>rs_id = ''scl-quoted-identifier'', rs_version = 1, rs_level = ''L1'',
     rs_codes = [''E007'', ''E006'', ''E048'', ''E052'']\<rparr>"

definition name_start_rx :: rx where
  "name_start_rx = RChar (\<lambda>c. is_alpha c \<or> c = CHR ''_'')"

definition IDENTIFIER_RE :: rx where
  "IDENTIFIER_RE = rx_seq [name_start_rx, RStar (RChar is_word_char), REnd]"

text \<open>The text between the quotes.\<close>

definition inner_text :: "lossless_token \<Rightarrow> string" where
  "inner_text t = butlast (drop 1 (lt_text t))"

definition mangled :: "string \<Rightarrow> string" where
  "mangled s = map (\<lambda>c. if is_word_char c then c else CHR ''_'') s"

definition identifier_base :: "string \<Rightarrow> string" where
  "identifier_base symbol =
     (let base = (if symbol = [] then ''S'' else mangled symbol) in
      if re_match name_start_rx base = None then ''S_'' @ base else base)"

definition quoted_target :: "rule_context \<Rightarrow> string \<Rightarrow> string \<times> string list" where
  "quoted_target cx symbol =
     (if re_match IDENTIFIER_RE symbol = None \<or> py_upper symbol \<in> set RUSTY_KEYWORDS
      then fresh_name (cx_known cx) (identifier_base symbol) ''__Q'' else (symbol, cx_known cx))"

definition quoted_edits :: "rule_context \<Rightarrow> string \<Rightarrow> string \<Rightarrow> edit list" where
  "quoted_edits cx symbol target =
     concat (map (\<lambda>(name, si). map (\<lambda>t. token_edit name t target)
         (filter (\<lambda>t. lt_kind t = ''wstring'' \<and> py_upper (inner_text t) = py_upper symbol) (si_significant si)))
       (sort_key fst (cx_indices cx)))"

definition propose_quoted :: "rule_context \<Rightarrow> string \<Rightarrow> located \<Rightarrow> proposing" where
  "propose_quoted cx f item =
     (case lo_token item of
        None \<Rightarrow> decline cx
      | Some token \<Rightarrow>
          if lt_kind token \<noteq> ''wstring'' then decline cx
          else (let symbol = inner_text token; quoted = CHR 0x22 # symbol @ [CHR 0x22];
                    (target, known) = quoted_target cx symbol in
            Inr (Some (make_proposal SCL_QUOTED_IDENTIFIER [KText (rs_id SCL_QUOTED_IDENTIFIER), KText (py_upper symbol)]
              (quoted_edits cx symbol target) (quoted @ '' -> '' @ target) [(quoted, target)]), known)))"

definition quoted_identifier :: rewrite_rule where
  "quoted_identifier = \<lparr>rl_spec = SCL_QUOTED_IDENTIFIER, rl_propose = propose_quoted\<rparr>"

section \<open>scl-local-prefix\<close>

definition SCL_LOCAL_PREFIX :: rule_spec where
  "SCL_LOCAL_PREFIX = \<lparr>rs_id = ''scl-local-prefix'', rs_version = 1, rs_level = ''L1'', rs_codes = [''E007'']\<rparr>"

definition is_hash :: "lossless_token \<Rightarrow> bool" where
  "is_hash t = (lt_kind t = ''error'' \<and> lt_text t = ''#'')"

definition unit_range :: "source_index \<Rightarrow> located \<Rightarrow> nat \<times> nat" where
  "unit_range si item = (case lo_unit item of None \<Rightarrow> (0, length (si_text si)) | Some u \<Rightarrow> (un_start u, un_end u))"

text \<open>The marks in \<open>[low, high)\<close> that a name follows at once.\<close>

definition prefix_marks :: "lossless_token list \<Rightarrow> nat \<times> nat \<Rightarrow> lossless_token list" where
  "prefix_marks ts limits = map fst (filter (\<lambda>(t, u). fst limits \<le> lt_start t \<and> lt_start t < snd limits \<and> is_hash t \<and>
     lt_kind u \<in> {''identifier'', ''keyword'', ''wstring''}) (zip ts (tl ts)))"

definition propose_local_prefix :: "rule_context \<Rightarrow> string \<Rightarrow> located \<Rightarrow> proposing" where
  "propose_local_prefix cx f item =
     (case lo_token item of
        None \<Rightarrow> decline cx
      | Some token \<Rightarrow>
          (let si = rule_index cx f; limits = unit_range si item; marks = prefix_marks (si_tokens si) limits in
           if \<not> is_hash token \<or> marks = [] then decline cx
           else offers cx (make_proposal SCL_LOCAL_PREFIX [KText (rs_id SCL_LOCAL_PREFIX), KText f, KNum (fst limits)]
             (map (\<lambda>t. token_edit f t []) marks) [] [])))"

definition local_prefix :: rewrite_rule where
  "local_prefix = \<lparr>rl_spec = SCL_LOCAL_PREFIX, rl_propose = propose_local_prefix\<rparr>"

section \<open>scl-type-colon\<close>

definition SCL_TYPE_COLON :: rule_spec where
  "SCL_TYPE_COLON = \<lparr>rs_id = ''scl-type-colon'', rs_version = 1, rs_level = ''L1'', rs_codes = [''E006'', ''E007'']\<rparr>"

definition propose_type_colon :: "rule_context \<Rightarrow> string \<Rightarrow> located \<Rightarrow> proposing" where
  "propose_type_colon cx f item =
     (let si = rule_index cx f; ts = si_significant si; i = significant_index si (lo_offset item) in
      if length ts \<le> i then Inl IndexErr
      else case find (\<lambda>j. upper_of (ts ! j) = ''TYPE'') (rev [i - 4..<i + 1]) of
        None \<Rightarrow> decline cx
      | Some j \<Rightarrow>
          (let k = next_index (\<lambda>t. upper_of t \<in> {''STRUCT'', '':''}) ts (j + 2) (j + 40); name = ts ! (j + 1) in
           if length ts \<le> j + 2 \<or> length ts \<le> k \<or> upper_of (ts ! k) \<noteq> ''STRUCT'' then decline cx
           else offers cx (make_proposal SCL_TYPE_COLON [KText (rs_id SCL_TYPE_COLON), KText f, KNum (lt_start name)]
             [mk_edit f (lt_end name) (lt_end name) '' :''] [] [])))"

definition type_colon :: rewrite_rule where
  "type_colon = \<lparr>rl_spec = SCL_TYPE_COLON, rl_propose = propose_type_colon\<rparr>"

section \<open>scl-begin\<close>

definition SCL_BEGIN :: rule_spec where
  "SCL_BEGIN = \<lparr>rs_id = ''scl-begin'', rs_version = 1, rs_level = ''L1'', rs_codes = [''E007'']\<rparr>"

definition propose_begin :: "rule_context \<Rightarrow> string \<Rightarrow> located \<Rightarrow> proposing" where
  "propose_begin cx f item =
     (case lo_unit item of
        None \<Rightarrow> decline cx
      | Some u \<Rightarrow>
          (let si = rule_index cx f;
               body = drop (significant_index si (un_start u)) (take (significant_index si (un_end u)) (si_significant si)) in
           if un_kind u \<notin> {''FUNCTION'', ''FUNCTION_BLOCK'', ''ORGANIZATION_BLOCK''} then decline cx
           else case find (\<lambda>t. upper_of t = ''BEGIN'' \<and> lt_kind t = ''identifier'') body of
             None \<Rightarrow> decline cx
           | Some token \<Rightarrow> offers cx (make_proposal SCL_BEGIN [KText (rs_id SCL_BEGIN), KText f, KNum (lt_start token)]
               [token_edit f token ''(* BEGIN *)''] [] [])))"

definition begin_separator :: rewrite_rule where
  "begin_separator = \<lparr>rl_spec = SCL_BEGIN, rl_propose = propose_begin\<rparr>"

section \<open>scl-region\<close>

definition SCL_REGION :: rule_spec where
  "SCL_REGION = \<lparr>rs_id = ''scl-region'', rs_version = 1, rs_level = ''L1'', rs_codes = [''E006'', ''E007'']\<rparr>"

text \<open>The end of the text that token \<open>k\<close> opens or closes a region with; \<open>None\<close> when it does neither.\<close>

definition region_end :: "string \<Rightarrow> lossless_token list \<Rightarrow> nat \<Rightarrow> nat option" where
  "region_end t ts k =
     (let token = ts ! k; following = text_after ts k in
      if upper_of token \<notin> {''REGION'', ''END_REGION''} \<or> \<not> is_word token then None
      else if \<not> first_on_line t (lt_start token) \<or> following \<in> {'':'', '':='', ''.''} then None
      else if upper_of token = ''REGION'' then Some (line_stop t (lt_start token))
      else if following = '';'' \<and> lt_line (ts ! (k + 1)) = lt_line token then Some (lt_end (ts ! (k + 1)))
      else Some (lt_end token))"

definition region_edit :: "string \<Rightarrow> source_index \<Rightarrow> nat \<Rightarrow> edit option" where
  "region_edit f si k =
     (let s = lt_start (si_significant si ! k) in
      map_option (\<lambda>e. mk_edit f s e (as_comment (rstrip (span s e (si_text si)))))
        (region_end (si_text si) (si_significant si) k))"

definition propose_region :: "rule_context \<Rightarrow> string \<Rightarrow> located \<Rightarrow> proposing" where
  "propose_region cx f item =
     (case lo_unit item of
        None \<Rightarrow> decline cx
      | Some u \<Rightarrow>
          (let si = rule_index cx f;
               edits = List.map_filter (region_edit f si)
                 [significant_index si (un_start u)..<significant_index si (un_end u)] in
           if un_kind u \<notin> {''FUNCTION'', ''FUNCTION_BLOCK'', ''ORGANIZATION_BLOCK'', ''PROGRAM''} \<or> edits = [] then decline cx
           else offers cx (make_proposal SCL_REGION [KText (rs_id SCL_REGION), KText f, KNum (ed_start (hd edits))]
             edits [] [])))"

definition region :: rewrite_rule where
  "region = \<lparr>rl_spec = SCL_REGION, rl_propose = propose_region\<rparr>"

section \<open>time-literal-underscore\<close>

definition TIME_LITERAL_UNDERSCORE :: rule_spec where
  "TIME_LITERAL_UNDERSCORE = \<lparr>rs_id = ''time-literal-underscore'', rs_version = 1, rs_level = ''L1'', rs_codes = [''E007'']\<rparr>"

definition duration_unit_rx :: rx where
  "duration_unit_rx = rx_choice (map rx_ilit [''D'', ''H'', ''M'', ''S'', ''MS'', ''US'', ''NS''])"

definition TIME_LITERAL_RE :: rx where
  "TIME_LITERAL_RE = rx_seq [RAlt (RSeq (rx_opt (rx_ilit ''L'')) (rx_ilit ''T'')) (RSeq (rx_opt (rx_ilit ''L'')) (rx_ilit ''TIME'')),
     rx_lit ''#'', RStar rx_any, RChar is_digit, duration_unit_rx, REnd]"

definition UNIT_TAIL_RE :: rx where
  "UNIT_TAIL_RE = RSeq (rx_plus (rx_seq [rx_lit ''_'', rx_digits, rx_opt (RSeq (rx_lit ''.'') rx_digits), duration_unit_rx])) REnd"

definition propose_time_literal :: "rule_context \<Rightarrow> string \<Rightarrow> located \<Rightarrow> proposing" where
  "propose_time_literal cx f item =
     (case lo_token item of
        None \<Rightarrow> decline cx
      | Some token \<Rightarrow>
          (let si = rule_index cx f; position = significant_index si (lt_start token);
               literal = si_significant si ! (position - 1) in
           if \<not> is_word token \<or> re_match UNIT_TAIL_RE (lt_text token) = None then decline cx
           else if position = 0 \<or> lt_end literal \<noteq> lt_start token \<or> re_match TIME_LITERAL_RE (lt_text literal) = None
             then decline cx
           else offers cx (make_proposal TIME_LITERAL_UNDERSCORE
             [KText (rs_id TIME_LITERAL_UNDERSCORE), KText f, KNum (lt_start token)]
             [token_edit f token (filter (\<lambda>c. c \<noteq> CHR ''_'') (lt_text token))] [] [])))"

definition time_literal :: rewrite_rule where
  "time_literal = \<lparr>rl_spec = TIME_LITERAL_UNDERSCORE, rl_propose = propose_time_literal\<rparr>"

section \<open>scl-organization-block\<close>

definition SCL_ORGANIZATION_BLOCK :: rule_spec where
  "SCL_ORGANIZATION_BLOCK = \<lparr>rs_id = ''scl-organization-block'', rs_version = 1, rs_level = ''L2'', rs_codes = [''E007'']\<rparr>"

definition propose_organization_block :: "rule_context \<Rightarrow> string \<Rightarrow> located \<Rightarrow> proposing" where
  "propose_organization_block cx f item =
     (case lo_token item of
        None \<Rightarrow> decline cx
      | Some token \<Rightarrow>
          if upper_of token \<noteq> ''ORGANIZATION_BLOCK'' then decline cx
          else (let si = rule_index cx f; ts = si_significant si; i = significant_index si (lt_start token) in
            case find (\<lambda>k. upper_of (ts ! k) = ''END_ORGANIZATION_BLOCK'') [i + 1..<length ts] of
              None \<Rightarrow> decline cx
            | Some k \<Rightarrow> offers cx (make_proposal SCL_ORGANIZATION_BLOCK
                [KText (rs_id SCL_ORGANIZATION_BLOCK), KText f, KNum (lt_start token)]
                [token_edit f token ''PROGRAM'', token_edit f (ts ! k) ''END_PROGRAM''] [] [])))"

definition organization_block :: rewrite_rule where
  "organization_block = \<lparr>rl_spec = SCL_ORGANIZATION_BLOCK, rl_propose = propose_organization_block\<rparr>"

section \<open>scl-typed-literal-prefix\<close>

definition SCL_TYPED_LITERAL_PREFIX :: rule_spec where
  "SCL_TYPED_LITERAL_PREFIX = \<lparr>rs_id = ''scl-typed-literal-prefix'', rs_version = 1, rs_level = ''L1'',
     rs_codes = [''E048'', ''E052'']\<rparr>"

definition LITERAL_PREFIXES :: "(string, string) dict" where
  "LITERAL_PREFIXES = [(''W#'', ''WORD#''), (''DW#'', ''DWORD#''), (''B#'', ''BYTE#''), (''L#'', ''DINT#'')]"

definition prefix_edits :: "rule_context \<Rightarrow> string \<Rightarrow> string \<Rightarrow> edit list" where
  "prefix_edits cx word new =
     concat (map (\<lambda>(name, si). map (\<lambda>t. token_edit name t new)
         (filter (\<lambda>t. lt_kind t = ''cast_prefix'' \<and> upper_of t = word) (si_significant si)))
       (sort_key fst (cx_indices cx)))"

definition propose_typed_literal :: "rule_context \<Rightarrow> string \<Rightarrow> located \<Rightarrow> proposing" where
  "propose_typed_literal cx f item =
     (case lo_token item of
        None \<Rightarrow> decline cx
      | Some token \<Rightarrow>
          (case (if lt_kind token = ''cast_prefix'' then dget LITERAL_PREFIXES (upper_of token) else None) of
             None \<Rightarrow> decline cx
           | Some new \<Rightarrow> offers cx (make_proposal SCL_TYPED_LITERAL_PREFIX
               [KText (rs_id SCL_TYPED_LITERAL_PREFIX), KText (upper_of token)] (prefix_edits cx (upper_of token) new) [] [])))"

definition typed_literal_prefix :: rewrite_rule where
  "typed_literal_prefix = \<lparr>rl_spec = SCL_TYPED_LITERAL_PREFIX, rl_propose = propose_typed_literal\<rparr>"

section \<open>scl-case-else-colon\<close>

definition SCL_CASE_ELSE_COLON :: rule_spec where
  "SCL_CASE_ELSE_COLON = \<lparr>rs_id = ''scl-case-else-colon'', rs_version = 1, rs_level = ''L1'', rs_codes = [''E007'']\<rparr>"

definition OPENERS :: "(string, string) dict" where
  "OPENERS = [(''CASE'', ''END_CASE''), (''IF'', ''END_IF''), (''FOR'', ''END_FOR''), (''WHILE'', ''END_WHILE''),
     (''REPEAT'', ''END_REPEAT'')]"

text \<open>The open statements, the innermost first; a closing word that does not fit is ignored.\<close>

definition statement_step :: "string list \<Rightarrow> lossless_token \<Rightarrow> string list" where
  "statement_step open_words t =
     (let word = (if is_word t then upper_of t else []) in
      if dmem word OPENERS then word # open_words
      else case open_words of [] \<Rightarrow> [] | w # ws \<Rightarrow> if dget OPENERS w = Some word then ws else open_words)"

definition innermost_block :: "lossless_token list \<Rightarrow> nat \<Rightarrow> nat \<Rightarrow> string option" where
  "innermost_block ts first position =
     (case foldl statement_step [] (drop first (take position ts)) of [] \<Rightarrow> None | w # ws \<Rightarrow> Some w)"

definition propose_case_else :: "rule_context \<Rightarrow> string \<Rightarrow> located \<Rightarrow> proposing" where
  "propose_case_else cx f item =
     (case lo_unit item of
        None \<Rightarrow> decline cx
      | Some u \<Rightarrow>
          (let si = rule_index cx f; ts = si_significant si; k = significant_index si (lo_offset item) in
           if \<not> (0 < k \<and> k < length ts) \<or> lt_text (ts ! k) \<noteq> '':'' \<or> upper_of (ts ! (k - 1)) \<noteq> ''ELSE'' then decline cx
           else if innermost_block ts (significant_index si (un_start u)) (k - 1) \<noteq> Some ''CASE'' then decline cx
           else offers cx (make_proposal SCL_CASE_ELSE_COLON
             [KText (rs_id SCL_CASE_ELSE_COLON), KText f, KNum (lt_start (ts ! k))]
             [token_edit f (ts ! k) (as_comment '':'')] [] [])))"

definition case_else_colon :: rewrite_rule where
  "case_else_colon = \<lparr>rl_spec = SCL_CASE_ELSE_COLON, rl_propose = propose_case_else\<rparr>"


section \<open>The rules keep the contract\<close>

lemma line_stop_ge: "offset \<le> line_stop t offset"
  by (simp add: line_stop_def)

lemma line_stop_le: "offset \<le> length t \<Longrightarrow> line_stop t offset \<le> length t"
  using length_takeWhile_le [of "\<lambda>c. c \<noteq> newline" "drop offset t"] by (simp add: line_stop_def)

lemma next_index_holds:
  assumes "next_index P ts i stop < stop" "next_index P ts i stop < length ts"
  shows "P (ts ! next_index P ts i stop)"
proof -
  let ?ys = "drop i (take stop ts)" and ?n = "length (takeWhile (\<lambda>t. \<not> P t) (drop i (take stop ts)))"
  have "i + ?n < length (take stop ts)" using assms by (simp add: next_index_def)
  then have "?n < length ?ys" unfolding length_drop by (simp only: less_diff_conv add.commute)
  then have "P (?ys ! ?n)" using nth_length_takeWhile [of "\<lambda>t. \<not> P t" ?ys] by simp
  then show ?thesis using \<open>i + ?n < length (take stop ts)\<close> by (simp add: next_index_def)
qed

lemma token_bounds:
  assumes "i < length (si_significant (new_index t))"
  shows "lt_start (si_significant (new_index t) ! i) < lt_end (si_significant (new_index t) ! i)"
    "lt_end (si_significant (new_index t) ! i) \<le> length t"
  using token_span [OF nth_token [OF assms]] by simp_all

text \<open>Spans of a file, each replaced, in order.\<close>

lemma placed_spans_ok:
  assumes t: "dget files f = Some t" and p: "pr_edits p = map (\<lambda>(s, e). mk_edit f s e (g (s, e))) spans"
    and spans: "\<forall>(s, e) \<in> set spans. s \<le> e \<and> e \<le> length t" "sorted_wrt (\<lambda>a b. snd a \<le> fst b \<and> fst a < fst b) spans"
  shows "proposal_ok files p"
proof (rule ordered_edits_ok)
  show "\<forall>e \<in> set (pr_edits p). placed_edit files e" using t spans(1) by (auto simp: p placed_edit_def)
  have "sorted_wrt (\<lambda>a b. before_edit (case a of (s, e) \<Rightarrow> mk_edit f s e (g (s, e))) (case b of (s, e) \<Rightarrow> mk_edit f s e (g (s, e)))) spans"
    by (rule sorted_wrt_mono_rel [OF _ spans(2)]) (use spans(1) in \<open>auto simp: before_edit_def\<close>)
  then show "sorted_wrt before_edit (pr_edits p)" by (simp add: p sorted_wrt_map)
qed

lemma attribute_spans_ok:
  assumes "tokens_ordered ts" "\<forall>u \<in> set ts. lt_end u \<le> length t"
  shows "(\<forall>(s, e) \<in> set (attribute_spans t ts i). i < length ts \<and> lt_start (ts ! i) \<le> s \<and> s \<le> e \<and> e \<le> length t) \<and>
    sorted_wrt (\<lambda>a b. snd a \<le> fst b \<and> fst a < fst b) (attribute_spans t ts i)"
  using assms
proof (induction t ts i rule: attribute_spans.induct)
  case (1 t ts i)
  let ?run = "i < length ts \<and> upper_of (ts ! i) \<in> BLOCK_ATTRIBUTES \<and> first_on_line t (lt_start (ts ! i))"
  show ?case
  proof (cases ?run)
    case True
    define e where "e = line_stop t (lt_start (ts ! i))"
    define j where "j = next_index (\<lambda>u. e \<le> lt_start u) ts (i + 1) (length ts)"
    have spans: "attribute_spans t ts i = (lt_start (ts ! i), e) # attribute_spans t ts j"
      using True by (subst attribute_spans.simps) (simp add: e_def j_def Let_def)
    have IH: "(\<forall>(s, e) \<in> set (attribute_spans t ts j). j < length ts \<and> lt_start (ts ! j) \<le> s \<and> s \<le> e \<and> e \<le> length t) \<and>
        sorted_wrt (\<lambda>a b. snd a \<le> fst b \<and> fst a < fst b) (attribute_spans t ts j)"
      using "1.IH" [OF True e_def "1.prems"] unfolding j_def .
    have i: "i < length ts" using True by simp
    have "lt_start (ts ! i) \<le> length t" using "1.prems"(2) ordered_span [OF "1.prems"(1) i] i by (meson less_imp_le less_le_trans nth_mem)
    then have e: "lt_start (ts ! i) \<le> e" "e \<le> length t" using line_stop_ge line_stop_le unfolding e_def by blast+
    have next_j: "e \<le> lt_start (ts ! j) \<and> lt_start (ts ! i) < lt_start (ts ! j)" if j: "j < length ts"
    proof -
      have "i < j" using next_index_ge [of "i + 1"] by (simp add: j_def Suc_le_eq)
      then have "lt_start (ts ! i) < lt_start (ts ! j)"
        using ordered_nth [OF "1.prems"(1) _ j] ordered_span [OF "1.prems"(1) i] by (meson less_le_trans)
      moreover have "e \<le> lt_start (ts ! j)"
        using next_index_holds [of "\<lambda>u. e \<le> lt_start u" ts "i + 1" "length ts"] j unfolding j_def by simp
      ultimately show ?thesis by simp
    qed
    have "e \<le> s \<and> lt_start (ts ! i) < s" if "(s, e') \<in> set (attribute_spans t ts j)" for s e'
      using conjunct1 [OF IH] that next_j by fastforce
    moreover have "lt_start (ts ! i) \<le> s \<and> s \<le> e' \<and> e' \<le> length t" if "(s, e') \<in> set (attribute_spans t ts j)" for s e'
      using conjunct1 [OF IH] that next_j by fastforce
    ultimately show ?thesis using conjunct2 [OF IH] e i unfolding spans by auto
  next
    case False
    then have "attribute_spans t ts i = []" by (subst attribute_spans.simps) (simp only: if_False)
    then show ?thesis by simp
  qed
qed

lemma block_attributes_keeps: "keeps_contract block_attributes"
proof (rule keeps_contractI)
  fix files cx f t d p known
  assume t: "dget files f = Some t" "rule_index cx f = new_index t"
    and p: "rl_propose block_attributes cx f (locate d (new_index t)) = Inr (Some p, known)"
  let ?si = "new_index t"
  obtain h where "pr_edits p = map (\<lambda>(s, e). mk_edit f s e (as_comment (span s e (si_text ?si)))) (attribute_lines ?si h)"
    using p by (auto simp: block_attributes_def propose_block_attributes_def t(2) Let_def
        simp del: index_significant split: if_splits option.splits)
  moreover have "\<forall>u \<in> set (si_significant ?si). lt_end u \<le> length t" using token_span(2) [OF significant_mem] by blast
  moreover obtain i where "attribute_lines ?si h = attribute_spans t (si_significant ?si) i"
    by (simp add: attribute_lines_def Let_def)
  moreover have "tokens_ordered (si_significant ?si)" using significant_ordered by simp
  ultimately show "proposal_ok files p"
    using attribute_spans_ok [of "si_significant ?si" t i]
    by (intro placed_spans_ok [OF t(1), of _ "\<lambda>(s, e). as_comment (span s e (si_text ?si))" "attribute_lines ?si h"]) auto
qed

lemma quoted_identifier_keeps: "keeps_contract quoted_identifier"
proof (rule keeps_contractI)
  fix files cx f t d p known
  assume cx: "context_for files cx"
    and p: "rl_propose quoted_identifier cx f (locate d (new_index t)) = Inr (Some p, known)"
  obtain symbol target where "pr_edits p = quoted_edits cx symbol target"
    using p by (auto simp: quoted_identifier_def propose_quoted_def Let_def split: option.splits if_splits prod.splits)
  then show "proposal_ok files p" using token_edits_ok [OF cx] by (simp add: quoted_edits_def token_edits_def)
qed

lemma typed_literal_prefix_keeps: "keeps_contract typed_literal_prefix"
proof (rule keeps_contractI)
  fix files cx f t d p known
  assume cx: "context_for files cx"
    and p: "rl_propose typed_literal_prefix cx f (locate d (new_index t)) = Inr (Some p, known)"
  obtain word new where "pr_edits p = prefix_edits cx word new"
    using p by (auto simp: typed_literal_prefix_def propose_typed_literal_def split: option.splits)
  then show "proposal_ok files p" using token_edits_ok [OF cx] by (simp add: prefix_edits_def token_edits_def)
qed

lemma prefix_marks_ordered:
  assumes "sorted_wrt R ts"
  shows "sorted_wrt R (prefix_marks ts limits) \<and> set (prefix_marks ts limits) \<subseteq> set ts"
proof -
  have "sorted_wrt (\<lambda>a b. R (fst a) (fst b)) (zip ts (tl ts))"
    using assms by (auto simp: sorted_wrt_iff_nth_less)
  then have "sorted_wrt (\<lambda>a b. R (fst a) (fst b)) (filter Q (zip ts (tl ts)))" for Q by (rule sorted_wrt_filter)
  moreover have "set (prefix_marks ts limits) \<subseteq> set ts" by (auto simp: prefix_marks_def dest: set_zip_leftD)
  ultimately show ?thesis by (simp add: prefix_marks_def sorted_wrt_map)
qed

lemma local_prefix_keeps: "keeps_contract local_prefix"
proof (rule keeps_contractI)
  fix files cx f t d p known
  assume t: "dget files f = Some t" "rule_index cx f = new_index t"
    and p: "rl_propose local_prefix cx f (locate d (new_index t)) = Inr (Some p, known)"
  let ?ts = "si_tokens (new_index t)"
  obtain limits where p: "pr_edits p = map (\<lambda>t. token_edit f t []) (prefix_marks ?ts limits)"
    using p by (auto simp: local_prefix_def propose_local_prefix_def t(2) Let_def split: option.splits if_splits)
  have "sorted_wrt (\<lambda>a b. lt_end a \<le> lt_start b) ?ts"
    using tokens_from_ordered [of 0 1 0 t] by (simp add: tokenize_lossless_def)
  from prefix_marks_ordered [OF this, of limits]
  have marks: "sorted_wrt (\<lambda>a b. lt_end a \<le> lt_start b) (prefix_marks ?ts limits)" "set (prefix_marks ?ts limits) \<subseteq> set ?ts" by blast+
  show "proposal_ok files p"
  proof (rule ordered_edits_ok)
    show "\<forall>e \<in> set (pr_edits p). placed_edit files e" using token_edit_placed [OF t(1)] marks(2) by (auto simp: p)
    have "sorted_wrt (\<lambda>a b. before_edit (token_edit f a []) (token_edit f b [])) (prefix_marks ?ts limits)"
      by (rule sorted_wrt_mono_rel [OF _ marks(1)]) (use marks(2) token_span(1) in \<open>auto simp: before_edit_def\<close>)
    then show "sorted_wrt before_edit (pr_edits p)" by (simp add: p sorted_wrt_map)
  qed
qed

lemma type_colon_keeps: "keeps_contract type_colon"
proof (rule keeps_contractI)
  fix files cx f t d p known
  assume t: "dget files f = Some t" "rule_index cx f = new_index t"
    and p: "rl_propose type_colon cx f (locate d (new_index t)) = Inr (Some p, known)"
  let ?ts = "si_significant (new_index t)"
  obtain j where j: "\<not> length ?ts \<le> j + 2" and p: "pr_edits p = [mk_edit f (lt_end (?ts ! (j + 1))) (lt_end (?ts ! (j + 1))) '' :'']"
    using p by (auto simp: type_colon_def propose_type_colon_def t(2) Let_def simp del: index_significant split: if_splits option.splits)
  have "j + 1 < length ?ts" using j by simp
  then show "proposal_ok files p" using single_edit_ok [OF t(1) _ _ p] token_bounds(2) by simp
qed

lemma begin_separator_keeps: "keeps_contract begin_separator"
proof (rule keeps_contractI)
  fix files cx f t d p known
  assume t: "dget files f = Some t" "rule_index cx f = new_index t"
    and p: "rl_propose begin_separator cx f (locate d (new_index t)) = Inr (Some p, known)"
  obtain a b tok where "find (\<lambda>t. upper_of t = ''BEGIN'' \<and> lt_kind t = ''identifier'') (drop a (take b (si_significant (new_index t)))) = Some tok"
    "pr_edits p = [token_edit f tok ''(* BEGIN *)'']"
    using p by (auto simp: begin_separator_def propose_begin_def t(2) Let_def simp del: index_significant split: if_splits option.splits)
  moreover have "tok \<in> set (si_tokens (new_index t))"
    using find_mem [OF calculation(1)] significant_mem [OF _ refl] by (meson in_set_dropD in_set_takeD)
  ultimately show "proposal_ok files p" using single_token_ok [OF t(1)] by blast
qed

lemma time_literal_keeps: "keeps_contract time_literal"
proof (rule keeps_contractI)
  fix files cx f t d p known
  assume t: "dget files f = Some t" "rule_index cx f = new_index t"
    and p: "rl_propose time_literal cx f (locate d (new_index t)) = Inr (Some p, known)"
  obtain token r where "lo_token (locate d (new_index t)) = Some token" "pr_edits p = [token_edit f token r]"
    using p by (auto simp: time_literal_def propose_time_literal_def t(2) Let_def simp del: index_significant split: if_splits option.splits)
  then show "proposal_ok files p" using single_token_ok [OF t(1) located_token_mem] by blast
qed

lemma case_else_colon_keeps: "keeps_contract case_else_colon"
proof (rule keeps_contractI)
  fix files cx f t d p known
  assume t: "dget files f = Some t" "rule_index cx f = new_index t"
    and p: "rl_propose case_else_colon cx f (locate d (new_index t)) = Inr (Some p, known)"
  obtain k where "k < length (si_significant (new_index t))" "pr_edits p = [token_edit f (si_significant (new_index t) ! k) (as_comment '':'')]"
    using p by (auto simp: case_else_colon_def propose_case_else_def t(2) Let_def simp del: index_significant split: if_splits option.splits)
  then show "proposal_ok files p" using single_token_ok [OF t(1) nth_token] by blast
qed


text \<open>A word at which the blanks of a line end stands before any later one on that line.\<close>

lemma first_on_line_later:
  assumes "s < s'" "s' \<le> length t" "s' \<le> line_stop t s" "\<not> is_space (t ! s)"
  shows "\<not> first_on_line t s'"
proof -
  let ?x = "line_begin t s"
  have s: "s \<le> length t" "?x \<le> s" using assms(1,2) line_begin_le by auto
  have "c \<noteq> newline" if c: "c \<in> set (span s s' t)" for c
  proof -
    define n where "n = length (takeWhile (\<lambda>c. c \<noteq> newline) (drop s t))"
    have "takeWhile (\<lambda>c. c \<noteq> newline) (drop s t) = take n (drop s t)" unfolding n_def by (rule takeWhile_eq_take)
    moreover have "s' - s \<le> n" using assms(3) by (simp add: line_stop_def n_def)
    ultimately have "span s s' t = take (s' - s) (takeWhile (\<lambda>c. c \<noteq> newline) (drop s t))"
      by (simp add: span_def min_absorb1)
    then show ?thesis using c by (metis in_set_takeD set_takeWhileD)
  qed
  moreover have "span ?x s' t = span ?x s t @ span s s' t"
  proof -
    have "take s' t = take s t @ span s s' t" using assms(1) by (simp add: take_span)
    then have "drop ?x (take s' t) = drop ?x (take s t) @ span s s' t" using s by simp
    then show ?thesis by (simp add: span_def drop_take)
  qed
  ultimately have "newline \<notin> set (span ?x s' t)" using line_begin_split(1) [OF s(1)] by auto
  then have begin_s': "line_begin t s' = ?x" using line_begin_unique [of ?x s' t] s(2) assms(1,2) line_begin_split(2) [OF s(1)] by simp
  have "t ! s \<in> set (span ?x s' t)"
    using s(2) assms(1,2) by (auto simp: span_def in_set_conv_nth intro!: exI [of _ "s - ?x"])
  then show ?thesis using assms(4) by (auto simp: first_on_line_def all_blank_def begin_s')
qed


lemma token_text: "i < length (si_significant (new_index t)) \<Longrightarrow>
    lt_text (si_significant (new_index t) ! i) =
      take (lt_end (si_significant (new_index t) ! i) - lt_start (si_significant (new_index t) ! i))
        (drop (lt_start (si_significant (new_index t) ! i)) t)"
proof -
  assume i: "i < length (si_significant (new_index t))"
  have "line_at t 0 = 1" "line_start_at t 0 = 0"
    by (simp_all add: line_at_def newlines_of_def line_start_at_def after_last_newline_def)
  then show ?thesis
    using nth_token [OF i] tokens_from_positions [of t "[]" t 0 1 0] by (simp add: tokenize_lossless_def)
qed

lemma region_first:
  assumes i: "i < length (si_significant (new_index t))" and r: "upper_of (si_significant (new_index t) ! i) = ''REGION''"
  shows "\<not> is_space (t ! lt_start (si_significant (new_index t) ! i))"
proof -
  let ?tok = "si_significant (new_index t) ! i"
  obtain c cs where c: "lt_text ?tok = c # cs" "upper_char c = CHR ''R''" using r by (auto simp: upper_of_def)
  have "lt_start ?tok < length t" using token_bounds [OF i] by simp
  then have "hd (lt_text ?tok) = t ! lt_start ?tok"
    using token_text [OF i] token_bounds(1) [OF i] by (simp add: hd_drop_conv_nth)
  then have "t ! lt_start ?tok = c" using c(1) by simp
  moreover have "\<not> is_space c" using c(2) by (auto simp: is_space_def upper_char_def is_lower_def split: if_splits)
  ultimately show ?thesis by simp
qed

lemma region_end_bounds:
  assumes i: "i < length (si_significant (new_index t))" and e: "region_end t (si_significant (new_index t)) i = Some e"
  shows "lt_start (si_significant (new_index t) ! i) \<le> e \<and> e \<le> length t"
proof -
  let ?ts = "si_significant (new_index t)"
  have s: "lt_start (?ts ! i) \<le> length t" using token_bounds [OF i] by simp
  have "e = line_stop t (lt_start (?ts ! i)) \<or> (i + 1 < length ?ts \<and> e = lt_end (?ts ! (i + 1))) \<or> e = lt_end (?ts ! i)"
    using e by (auto simp: region_end_def text_after_def Let_def split: if_splits)
  moreover have "lt_start (?ts ! i) \<le> lt_start (?ts ! (i + 1))" if "i + 1 < length ?ts"
    using ordered_end_mono(2) [of ?ts i "i + 1"] significant_ordered that by simp
  ultimately show ?thesis
    using line_stop_ge [of "lt_start (?ts ! i)" t] line_stop_le [OF s] token_bounds [OF i] token_bounds [of "i + 1" t] by fastforce
qed


lemma region_end_before:
  assumes k: "k < k'" "k' < length (si_significant (new_index t))"
    and e: "region_end t (si_significant (new_index t)) k = Some e" and e': "region_end t (si_significant (new_index t)) k' = Some e'"
  shows "e \<le> lt_start (si_significant (new_index t) ! k')"
proof (rule ccontr)
  let ?ts = "si_significant (new_index t)"
  assume late: "\<not> e \<le> lt_start (?ts ! k')"
  have ord: "tokens_ordered ?ts" using significant_ordered by simp
  have word': "upper_of (?ts ! k') \<in> {''REGION'', ''END_REGION''}" "first_on_line t (lt_start (?ts ! k'))"
    using e' by (auto simp: region_end_def Let_def split: if_splits)
  have after_k: "lt_end (?ts ! k) \<le> lt_start (?ts ! k')" by (rule ordered_nth [OF ord k])
  have k_len: "k < length ?ts" using k by simp
  show False
  proof (cases "upper_of (?ts ! k) = ''REGION''")
    case True
    then have "e = line_stop t (lt_start (?ts ! k))" using e by (auto simp: region_end_def Let_def split: if_splits)
    then have "\<not> first_on_line t (lt_start (?ts ! k'))"
      using first_on_line_later [of "lt_start (?ts ! k)" "lt_start (?ts ! k')" t] region_first [OF k_len True]
        after_k token_bounds [OF k_len] token_bounds [OF k(2)] late by simp
    then show False using word'(2) by simp
  next
    case False
    then have "lt_text (?ts ! (k + 1)) = '';'' \<and> e = lt_end (?ts ! (k + 1))"
      using e late after_k by (auto simp: region_end_def text_after_def Let_def split: if_splits)
    moreover have "k' \<noteq> k + 1" using calculation word'(1) by (auto simp: upper_of_def upper_char_def is_lower_def)
    ultimately show False using late ordered_nth [OF ord _ k(2), of "k + 1"] k(1) by simp
  qed
qed

lemma region_keeps: "keeps_contract region"
proof (rule keeps_contractI)
  fix files cx f t d p known
  assume t: "dget files f = Some t" "rule_index cx f = new_index t"
    and p: "rl_propose region cx f (locate d (new_index t)) = Inr (Some p, known)"
  let ?ts = "si_significant (new_index t)" and ?si = "new_index t"
  obtain a b where p: "pr_edits p = List.map_filter (region_edit f ?si) [significant_index ?si a..<significant_index ?si b]"
    using p by (auto simp: region_def propose_region_def t(2) Let_def simp del: index_significant split: option.splits if_splits)
  let ?ks = "[significant_index ?si a..<significant_index ?si b]"
  have k: "k < length ?ts" if "k \<in> set ?ks" for k using that significant_index_le [of ?si b] by simp
  show "proposal_ok files p"
  proof (rule ordered_edits_ok)
    show "\<forall>e \<in> set (pr_edits p). placed_edit files e"
      using t(1) region_end_bounds [OF k] by (auto simp: p map_filter_def region_edit_def placed_edit_def Let_def simp del: index_significant set_upt)
    show "sorted_wrt before_edit (pr_edits p)"
      unfolding p
    proof (rule sorted_wrt_map_filter [of "(<)"])
      show "sorted_wrt (<) ?ks" by (rule sorted_wrt_upt)
      fix k k' a b
      assume kk: "k < k'" "k \<in> set ?ks" "k' \<in> set ?ks" and ab: "region_edit f ?si k = Some a" "region_edit f ?si k' = Some b"
      obtain e e' where e: "region_end t ?ts k = Some e" "region_end t ?ts k' = Some e'"
        and ab: "ed_start a = lt_start (?ts ! k)" "ed_end a = e" "ed_start b = lt_start (?ts ! k')" "ed_end b = e'"
        using ab by (auto simp: region_edit_def Let_def simp del: index_significant)
      have "lt_start (?ts ! k) < lt_start (?ts ! k')"
        using ordered_starts [of ?ts k k'] significant_ordered kk(1) k [OF kk(3)] by simp
      then show "before_edit a b"
        using region_end_before [OF kk(1) k [OF kk(3)] e] region_end_bounds [OF k [OF kk(3)] e(2)]
        unfolding before_edit_def ab by linarith
    qed
  qed
qed

lemma tokens_apart:
  assumes "a \<in> set (si_tokens (new_index t))" "b \<in> set (si_tokens (new_index t))"
  shows "a = b \<or> lt_end a \<le> lt_start b \<or> lt_end b \<le> lt_start a"
proof -
  let ?ts = "si_tokens (new_index t)"
  have ord: "sorted_wrt (\<lambda>a b. lt_end a \<le> lt_start b) ?ts"
    using tokens_from_ordered [of 0 1 0 t] by (simp add: tokenize_lossless_def)
  obtain i j where "i < length ?ts" "j < length ?ts" "a = ?ts ! i" "b = ?ts ! j" using assms by (metis in_set_conv_nth)
  then show ?thesis using sorted_wrt_nth_less [OF ord, of i j] sorted_wrt_nth_less [OF ord, of j i] by (metis linorder_neqE_nat)
qed

lemma organization_block_keeps: "keeps_contract organization_block"
proof (rule keeps_contractI)
  fix files cx f t d p known
  assume t: "dget files f = Some t" "rule_index cx f = new_index t"
    and p: "rl_propose organization_block cx f (locate d (new_index t)) = Inr (Some p, known)"
  let ?ts = "si_significant (new_index t)" and ?si = "new_index t"
  obtain token k where tok: "lo_token (locate d ?si) = Some token"
    and k: "Suc (significant_index ?si (lt_start token)) \<le> k" "k < length ?ts"
    and edits: "pr_edits p = [token_edit f token ''PROGRAM'', token_edit f (?ts ! k) ''END_PROGRAM'']"
    using p by (auto simp: organization_block_def propose_organization_block_def t(2) Let_def
        simp del: index_significant split: option.splits if_splits dest!: find_SomeD)
  let ?i = "significant_index ?si (lt_start token)"
  have mem: "token \<in> set (si_tokens ?si)" by (rule located_token_mem [OF tok])
  have i: "?i < length ?ts" using k by simp
  have "lt_end (?ts ! ?i) \<le> lt_start (?ts ! k)" using ordered_nth [of ?ts ?i k] significant_ordered k by simp
  moreover have "lt_start token < lt_end (?ts ! ?i)" by (rule significant_index_spec(2) [OF refl refl i])
  ultimately have "lt_end token \<le> lt_start (?ts ! k)"
    using tokens_apart [OF mem nth_token [OF i]] token_bounds(1) [OF i] by (auto simp del: index_significant)
  then have "sorted_wrt before_edit (pr_edits p)"
    using token_span(1) [OF mem] unfolding edits by (simp add: before_edit_def del: index_significant)
  moreover have "\<forall>e \<in> set (pr_edits p). placed_edit files e"
    using token_edit_placed [OF t(1) mem] token_edit_placed [OF t(1) nth_token [OF k(2)]] unfolding edits by simp
  ultimately show "proposal_ok files p" by (intro ordered_edits_ok)
qed

section \<open>What the rules raise\<close>

lemma scl_rules_raise:
  "raises_index_only block_attributes" "raises_index_only quoted_identifier" "raises_index_only local_prefix"
  "raises_index_only type_colon" "raises_index_only begin_separator" "raises_index_only region"
  "raises_index_only time_literal" "raises_index_only organization_block" "raises_index_only typed_literal_prefix"
  "raises_index_only case_else_colon"
  by (simp_all add: raises_index_only_def Let_def block_attributes_def propose_block_attributes_def
      quoted_identifier_def propose_quoted_def local_prefix_def propose_local_prefix_def type_colon_def propose_type_colon_def
      begin_separator_def propose_begin_def region_def propose_region_def time_literal_def propose_time_literal_def
      organization_block_def propose_organization_block_def typed_literal_prefix_def propose_typed_literal_def
      case_else_colon_def propose_case_else_def index_only_intros)

text \<open>The rules of this theory, in the order of the registry.\<close>

definition SCL_RULES :: "rewrite_rule list" where
  "SCL_RULES = [block_attributes, quoted_identifier, local_prefix, type_colon, begin_separator, organization_block, typed_literal_prefix,
     region, time_literal, case_else_colon]"

lemmas scl_rules_keep =
  block_attributes_keeps quoted_identifier_keeps local_prefix_keeps type_colon_keeps begin_separator_keeps region_keeps
  time_literal_keeps organization_block_keeps typed_literal_prefix_keeps case_else_colon_keeps

interpretation scl: rule_set SCL_RULES
  by unfold_locales (auto simp: SCL_RULES_def intro: scl_rules_keep scl_rules_raise)

end
