(* ===== verification/Scl_Blocks.thy ===== *)
theory Scl_Blocks
  imports Scl_Rules
begin

text \<open>
  The rules of \<^verbatim>\<open>compiler/intake/normalize/rules/scl.py\<close> that rewrite sections and calls: inlined constants,
  formal arguments of standard functions and typed shift literals.
\<close>

section \<open>scl-const-inline\<close>

definition SCL_CONST_INLINE :: rule_spec where
  "SCL_CONST_INLINE = \<lparr>rs_id = ''scl-const-inline'', rs_version = 2, rs_level = ''L2'', rs_codes = [''E007'', ''E006'']\<rparr>"

definition DECLARATION_ENDS :: "string set" where
  "DECLARATION_ENDS = {''END_VAR'', ''END_CONST'', ''END_LABEL'', ''BEGIN''}"

text \<open>The text from \<open>cursor\<close> up to token \<open>j\<close> with the constants among tokens \<open>ks\<close> replaced.\<close>

fun substituted :: "string \<Rightarrow> lossless_token list \<Rightarrow> (string, string) dict \<Rightarrow> nat list \<Rightarrow> nat \<Rightarrow> nat \<Rightarrow> string" where
  "substituted t ts constants [] cursor stop = span cursor stop t"
| "substituted t ts constants (k # ks) cursor stop =
     (if is_word (ts ! k) \<and> dmem (upper_of (ts ! k)) constants
      then span cursor (lt_start (ts ! k)) t @ the (dget constants (upper_of (ts ! k))) @
        substituted t ts constants ks (lt_end (ts ! k)) stop
      else substituted t ts constants ks cursor stop)"

text \<open>The constants of a section that ends at token \<open>stop\<close>; \<open>None\<close> when a declaration has another form.\<close>

function constants_from ::
    "string \<Rightarrow> lossless_token list \<Rightarrow> nat \<Rightarrow> (string, string) dict \<Rightarrow> nat \<Rightarrow> norm_error + (string, string) dict option" where
  "constants_from t ts stop constants i =
     (if stop \<le> i then Inr (Some constants)
      else if lt_kind (ts ! i) \<noteq> ''identifier'' then Inr None
      else if length ts \<le> i + 1 then Inl IndexErr
      else if lt_text (ts ! (i + 1)) \<noteq> '':='' then Inr None
      else if length ts \<le> i + 2 then Inl IndexErr
      else let j = next_index (\<lambda>t. lt_text t = '';'') ts (i + 2) stop;
               value = ''('' @ substituted t ts constants [i + 2..<j] (lt_start (ts ! (i + 2))) (lt_end (ts ! (j - 1))) @ '')''
           in constants_from t ts stop (dset (upper_of (ts ! i)) value constants) (j + 1))"
  by pat_completeness auto
termination by (relation "measure (\<lambda>(t, ts, stop, constants, i). stop - i)") (auto simp: next_index_def)

declare constants_from.simps [simp del]

text \<open>A word with an entry outside a section, one that is declared again, and one that names something else.\<close>

definition named_outside :: "lossless_token list \<Rightarrow> (string, string) dict \<Rightarrow> nat \<times> nat \<Rightarrow> nat \<Rightarrow> bool" where
  "named_outside ts names section k =
     (\<not> (fst section \<le> k \<and> k \<le> snd section) \<and> is_word (ts ! k) \<and> dmem (upper_of (ts ! k)) names)"

definition declared_again :: "lossless_token list \<Rightarrow> nat \<Rightarrow> bool \<Rightarrow> nat \<Rightarrow> bool" where
  "declared_again ts body has_labels k = (text_after ts k = '':'' \<and> (k < body \<or> has_labels))"

definition other_name :: "lossless_token list \<Rightarrow> nat \<Rightarrow> bool" where
  "other_name ts k = (text_before ts k = ''.'' \<or>
     (text_after ts k \<in> {'':='', ''=>''} \<and> text_before ts k \<in> {''('', '',''}))"

definition constant_uses ::
    "lossless_token list \<Rightarrow> (string, string) dict \<Rightarrow> nat \<times> nat \<Rightarrow> nat \<Rightarrow> nat \<Rightarrow> nat list option" where
  "constant_uses ts constants section first stop =
     (let body = (case find (\<lambda>i. upper_of (ts ! i) \<in> DECLARATION_ENDS) (rev [first..<stop]) of None \<Rightarrow> stop | Some i \<Rightarrow> i);
          has_labels = (\<exists>i \<in> set [first..<stop]. upper_of (ts ! i) = ''LABEL'');
          named = filter (named_outside ts constants section) [first..<stop] in
      if \<exists>k \<in> set named. declared_again ts body has_labels k then None
      else Some (filter (\<lambda>k. \<not> other_name ts k) named))"

definition const_section :: "lossless_token list \<Rightarrow> nat \<Rightarrow> nat \<Rightarrow> nat \<Rightarrow> (nat \<times> nat) option" where
  "const_section ts first stop offset =
     (case find (\<lambda>i. upper_of (ts ! i) = ''CONST'') [first..<stop] of None \<Rightarrow> None
      | Some s \<Rightarrow> (case find (\<lambda>i. upper_of (ts ! i) = ''END_CONST'') [s..<stop] of None \<Rightarrow> None
        | Some e \<Rightarrow> if lt_start (ts ! s) \<le> offset \<and> offset \<le> lt_end (ts ! e) then Some (s, e) else None))"

definition const_edits :: "string \<Rightarrow> source_index \<Rightarrow> (string, string) dict \<Rightarrow> nat \<times> nat \<Rightarrow> nat list \<Rightarrow> edit list" where
  "const_edits f si constants section ks =
     (let ts = si_significant si; s = lt_start (ts ! fst section); e = lt_end (ts ! snd section) in
      mk_edit f s e (as_comment (span s e (si_text si))) #
      map (\<lambda>k. token_edit f (ts ! k) (the (dget constants (upper_of (ts ! k))))) ks)"

definition propose_const_inline :: "rule_context \<Rightarrow> string \<Rightarrow> located \<Rightarrow> proposing" where
  "propose_const_inline cx f item =
     (case lo_unit item of
        None \<Rightarrow> decline cx
      | Some u \<Rightarrow>
          (let si = rule_index cx f; ts = si_significant si; first = significant_index si (un_start u);
               stop = significant_index si (un_end u) in
           case const_section ts first stop (lo_offset item) of
             None \<Rightarrow> decline cx
           | Some section \<Rightarrow>
               bindE (constants_from (si_text si) ts (snd section) [] (fst section + 1)) (\<lambda>constants. case constants of
                 None \<Rightarrow> decline cx
               | Some constants \<Rightarrow>
                   (case constant_uses ts constants section first stop of
                      None \<Rightarrow> decline cx
                    | Some ks \<Rightarrow> offers cx (make_proposal SCL_CONST_INLINE
                        [KText (rs_id SCL_CONST_INLINE), KText f, KNum (lt_start (ts ! fst section))]
                        (const_edits f si constants section ks) (join '', '' (sort (dkeys constants))) [])))))"

definition const_inline :: rewrite_rule where
  "const_inline = \<lparr>rl_spec = SCL_CONST_INLINE, rl_propose = propose_const_inline\<rparr>"

section \<open>standard-formal-arguments\<close>

definition STANDARD_FORMAL_ARGUMENTS :: rule_spec where
  "STANDARD_FORMAL_ARGUMENTS = \<lparr>rs_id = ''standard-formal-arguments'', rs_version = 1, rs_level = ''L1'',
     rs_codes = [''E089'', ''E032'']\<rparr>"

definition STANDARD_FORMALS :: "(string, string list) dict" where
  "STANDARD_FORMALS = [(''LIMIT'', [''MN'', ''IN'', ''MX'']), (''SEL'', [''G'', ''IN0'', ''IN1''])]"

definition formals :: "string \<Rightarrow> nat \<Rightarrow> string list option" where
  "formals name n =
     (case dget STANDARD_FORMALS name of
        Some names \<Rightarrow> Some names
      | None \<Rightarrow>
          if name \<in> {''MIN'', ''MAX'', ''CONCAT''} then Some (map (\<lambda>i. ''IN'' @ show_nat i) [1..<n + 1])
          else if name = ''MUX'' then Some (''K'' # map (\<lambda>i. ''IN'' @ show_nat i) [0..<n - 1])
          else None)"

definition standard_call :: "lossless_token list \<Rightarrow> nat \<Rightarrow> bool" where
  "standard_call ts i = (is_word (ts ! i) \<and> text_after ts i = ''('' \<and> formals (upper_of (ts ! i)) 2 \<noteq> None)"

text \<open>The tokens of each argument from token \<open>j\<close> on; the last one is dropped when the call is not closed.\<close>

function arguments_from :: "lossless_token list \<Rightarrow> nat \<Rightarrow> int \<Rightarrow> nat list \<Rightarrow> nat list list" where
  "arguments_from ts j depth current =
     (if length ts \<le> j then []
      else let word = lt_text (ts ! j) in
        if word = ''('' \<and> depth = 0 then arguments_from ts (j + 1) 1 current
        else if word = ''('' then arguments_from ts (j + 1) (depth + 1) (current @ [j])
        else if word = '')'' \<and> depth = 1 then [current]
        else if word = '')'' then arguments_from ts (j + 1) (depth - 1) (current @ [j])
        else if word = '','' \<and> depth = 1 then current # arguments_from ts (j + 1) depth []
        else arguments_from ts (j + 1) depth (current @ [j]))"
  by pat_completeness auto
termination by (relation "measure (\<lambda>(ts, j, depth, current). length ts - j)") auto

declare arguments_from.simps [simp del]

definition binds_formal :: "lossless_token list \<Rightarrow> string \<Rightarrow> nat list \<Rightarrow> bool" where
  "binds_formal ts formal arg =
     (3 \<le> length arg \<and> upper_of (ts ! (arg ! 0)) = formal \<and> lt_text (ts ! (arg ! 1)) = '':='')"

definition propose_formals :: "rule_context \<Rightarrow> string \<Rightarrow> located \<Rightarrow> proposing" where
  "propose_formals cx f item =
     (let si = rule_index cx f; ts = si_significant si; position = significant_index si (lo_offset item) in
      if length ts \<le> position then Inl IndexErr
      else case find (standard_call ts) (rev [position - 3..<position + 1]) of
        None \<Rightarrow> decline cx
      | Some i \<Rightarrow>
          (let args = arguments_from ts (i + 1) 0 [] in
           case formals (upper_of (ts ! i)) (length args) of
             None \<Rightarrow> decline cx
           | Some names \<Rightarrow>
               if length names \<noteq> length args \<or> \<not> list_all2 (binds_formal ts) names args then decline cx
               else offers cx (make_proposal STANDARD_FORMAL_ARGUMENTS
                 [KText (rs_id STANDARD_FORMAL_ARGUMENTS), KText f, KNum (lt_start (ts ! i))]
                 (map (\<lambda>arg. mk_edit f (lt_start (ts ! (arg ! 0))) (lt_start (ts ! (arg ! 2))) []) args) [] [])))"

definition standard_formal_arguments :: rewrite_rule where
  "standard_formal_arguments = \<lparr>rl_spec = STANDARD_FORMAL_ARGUMENTS, rl_propose = propose_formals\<rparr>"

section \<open>scl-shift-literal-dword\<close>

definition SCL_SHIFT_LITERAL_DWORD :: rule_spec where
  "SCL_SHIFT_LITERAL_DWORD = \<lparr>rs_id = ''scl-shift-literal-dword'', rs_version = 1, rs_level = ''L1'', rs_codes = [''E064'']\<rparr>"

definition SHIFT_FUNCTIONS :: "string set" where
  "SHIFT_FUNCTIONS = {''SHL'', ''SHR'', ''ROL'', ''ROR''}"

definition digit_of :: "char \<Rightarrow> int" where
  "digit_of c = (if is_digit c then of_char c - 48 else of_char (upper_char c) - 55)"

definition in_base :: "int \<Rightarrow> string \<Rightarrow> int" where
  "in_base b s = foldl (\<lambda>v c. v * b + digit_of c) 0 s"

text \<open>The value of a number token: the tokenizer reads the bases 16, 8 and 2 with their digits, and decimals,
  of which those with an exponent are no integers.\<close>

definition integer_value :: "string \<Rightarrow> int option" where
  "integer_value s =
     (let digits = filter (\<lambda>c. c \<noteq> CHR ''_'') s in
      if starts_with ''16#'' digits then Some (in_base 16 (drop 3 digits))
      else if starts_with ''8#'' digits then Some (in_base 8 (drop 2 digits))
      else if starts_with ''2#'' digits then Some (in_base 2 (drop 2 digits))
      else if list_all is_digit digits then Some (in_base 10 digits) else None)"

definition shift_call :: "source_index \<Rightarrow> nat \<times> nat \<Rightarrow> nat \<Rightarrow> bool" where
  "shift_call si line k =
     (let ts = si_significant si in
      fst line \<le> lt_start (ts ! k) \<and> lt_start (ts ! k) < snd line \<and> upper_of (ts ! k) \<in> SHIFT_FUNCTIONS \<and>
      lt_text (ts ! (k + 1)) = ''('' \<and> upper_of (ts ! (k + 2)) = ''IN'' \<and> lt_text (ts ! (k + 3)) = '':='')"

definition is_wrapped :: "lossless_token list \<Rightarrow> nat \<Rightarrow> bool" where
  "is_wrapped ts m = (lt_text (ts ! m) = ''('' \<and> m + 2 < length ts \<and> lt_text (ts ! (m + 2)) = '')'')"

text \<open>The token of an untyped literal that fits a \<open>DWORD\<close> only.\<close>

definition dword_literal :: "lossless_token list \<Rightarrow> nat \<Rightarrow> nat option" where
  "dword_literal ts m =
     (let literal = (if is_wrapped ts m then m + 1 else m); following = (if is_wrapped ts m then m + 3 else m + 1) in
      if lt_kind (ts ! literal) \<noteq> ''number'' \<or> lt_text (ts ! following) \<notin> {'','', '')''} then None
      else case integer_value (lt_text (ts ! literal)) of
        None \<Rightarrow> None
      | Some v \<Rightarrow> if 0xFFFF < v \<and> v \<le> 0xFFFFFFFF then Some literal else None)"

definition shift_literal :: "source_index \<Rightarrow> nat \<times> nat \<Rightarrow> nat \<Rightarrow> nat option" where
  "shift_literal si line k = (if shift_call si line k then dword_literal (si_significant si) (k + 4) else None)"

definition shift_raises :: "source_index \<Rightarrow> nat \<times> nat \<Rightarrow> nat \<Rightarrow> bool" where
  "shift_raises si line k =
     (shift_call si line k \<and> is_wrapped (si_significant si) (k + 4) \<and> length (si_significant si) \<le> k + 7)"

definition propose_shift_literal :: "rule_context \<Rightarrow> string \<Rightarrow> located \<Rightarrow> proposing" where
  "propose_shift_literal cx f item =
     (let si = rule_index cx f; ts = si_significant si; line = line_bounds (si_text si) (lo_offset item);
          calls = [0..<length ts - 6]; literals = List.map_filter (shift_literal si line) calls in
      if \<exists>k \<in> set calls. shift_raises si line k then Inl IndexErr
      else if literals = [] then decline cx
      else offers cx (make_proposal SCL_SHIFT_LITERAL_DWORD
        [KText (rs_id SCL_SHIFT_LITERAL_DWORD), KText f, KNum (lt_start (ts ! hd literals))]
        (map (\<lambda>k. mk_edit f (lt_start (ts ! k)) (lt_start (ts ! k)) ''DWORD#'') literals) [] []))"

definition shift_literal_dword :: rewrite_rule where
  "shift_literal_dword = \<lparr>rl_spec = SCL_SHIFT_LITERAL_DWORD, rl_propose = propose_shift_literal\<rparr>"

section \<open>The rules keep the contract\<close>

text \<open>Edits that lie beside each other in pairs.\<close>

lemma apart_edits_ok:
  assumes "\<forall>a \<in> set (pr_edits p). placed_edit files a"
    and "sorted_wrt (\<lambda>a b. before_edit a b \<or> before_edit b a) (pr_edits p)"
  shows "proposal_ok files p"
proof -
  have "edits_separate (pr_edits p)"
    unfolding edits_separate_def
    by (rule sorted_wrt_mono_rel [OF _ assms(2)]) (auto simp: before_edit_def separate_def edit_span_def)
  moreover have "\<forall>a \<in> set (pr_edits p). ed_move a = None" using assms(1) by (simp add: placed_edit_def)
  ultimately show ?thesis using assms(1) by (auto simp: proposal_ok_def placed_edit_def edit_fits_def split: option.splits)
qed

lemma beside_edits_ok:
  assumes p: "pr_edits p = e # es" and placed: "placed_edit files e" "\<forall>a \<in> set es. placed_edit files a"
    and ordered: "sorted_wrt before_edit es" and beside: "\<forall>a \<in> set es. before_edit e a \<or> before_edit a e"
  shows "proposal_ok files p"
proof (rule apart_edits_ok)
  show "\<forall>a \<in> set (pr_edits p). placed_edit files a" using placed by (simp add: p)
  have "sorted_wrt (\<lambda>a b. before_edit a b \<or> before_edit b a) es" by (rule sorted_wrt_mono_rel [OF _ ordered]) simp
  then show "sorted_wrt (\<lambda>a b. before_edit a b \<or> before_edit b a) (pr_edits p)" using beside by (simp add: p)
qed

lemma const_inline_keeps: "keeps_contract const_inline"
proof (rule keeps_contractI)
  fix files cx f t d p known
  assume t: "dget files f = Some t" "rule_index cx f = new_index t"
    and p: "rl_propose const_inline cx f (locate d (new_index t)) = Inr (Some p, known)"
  let ?ts = "si_significant (new_index t)" and ?si = "new_index t"
  obtain a b sc offset constants ks
    where sec: "const_section ?ts (significant_index ?si a) (significant_index ?si b) offset = Some sc"
    and ks: "constant_uses ?ts constants sc (significant_index ?si a) (significant_index ?si b) = Some ks"
    and p: "pr_edits p = const_edits f ?si constants sc ks"
    using p by (auto simp: const_inline_def propose_const_inline_def t(2) Let_def bindE_def
        simp del: index_significant split: option.splits sum.splits)
  have "fst sc \<le> snd sc \<and> snd sc < significant_index ?si b"
    using sec by (auto simp: const_section_def simp del: index_significant split: option.splits if_splits dest!: find_mem)
  then have sec: "fst sc \<le> snd sc" "snd sc < length ?ts"
    using significant_index_le [of ?si b] by simp_all
  have ks: "sorted_wrt (<) ks" "\<forall>k \<in> set ks. k < length ?ts \<and> (k < fst sc \<or> snd sc < k)"
    using ks significant_index_le [of ?si b]
    by (auto simp: constant_uses_def named_outside_def Let_def simp del: index_significant intro!: sorted_wrt_filter split: if_splits)
  have ord: "tokens_ordered ?ts" using significant_ordered by simp
  have span: "lt_start (?ts ! fst sc) < lt_end (?ts ! snd sc)"
    using ordered_end_mono(2) [OF ord sec] token_bounds(1) [OF sec(2)] by simp
  let ?es = "map (\<lambda>k. token_edit f (?ts ! k) (the (dget constants (upper_of (?ts ! k))))) ks"
  show "proposal_ok files p"
  proof (rule beside_edits_ok [OF p [unfolded const_edits_def Let_def]])
    show "placed_edit files (mk_edit f (lt_start (?ts ! fst sc)) (lt_end (?ts ! snd sc))
        (as_comment (span (lt_start (?ts ! fst sc)) (lt_end (?ts ! snd sc)) (si_text ?si))))"
      using t(1) span token_bounds(2) [OF sec(2)] by (simp add: placed_edit_def)
    show "\<forall>a \<in> set ?es. placed_edit files a" using ks(2) token_edit_placed [OF t(1) nth_token] by auto
    have "sorted_wrt (\<lambda>i j. before_edit (token_edit f (?ts ! i) (the (dget constants (upper_of (?ts ! i)))))
        (token_edit f (?ts ! j) (the (dget constants (upper_of (?ts ! j)))))) ks"
      by (rule sorted_wrt_mono_rel [OF _ ks(1)])
        (use ks(2) ordered_nth [OF ord] token_bounds(1) in \<open>simp add: before_edit_def del: index_significant\<close>)
    then show "sorted_wrt before_edit ?es" by (simp add: sorted_wrt_map)
    show "\<forall>a \<in> set ?es. before_edit (mk_edit f (lt_start (?ts ! fst sc)) (lt_end (?ts ! snd sc))
        (as_comment (span (lt_start (?ts ! fst sc)) (lt_end (?ts ! snd sc)) (si_text ?si)))) a \<or>
      before_edit a (mk_edit f (lt_start (?ts ! fst sc)) (lt_end (?ts ! snd sc))
        (as_comment (span (lt_start (?ts ! fst sc)) (lt_end (?ts ! snd sc)) (si_text ?si))))"
      using ks(2) span ordered_nth [OF ord, of _ "fst sc"] ordered_nth [OF ord, of "snd sc"] sec
      by (auto simp: before_edit_def simp del: index_significant)
  qed
qed

lemma arguments_from_ordered:
  assumes "sorted_wrt (<) current" "\<forall>k \<in> set current. k < j"
  shows "sorted_wrt (<) (concat (arguments_from ts j depth current)) \<and>
    set (concat (arguments_from ts j depth current)) \<subseteq> set current \<union> {j..<length ts}"
  using assms
proof (induction ts j depth current rule: arguments_from.induct)
  case (1 ts j depth current)
  have step: "sorted_wrt (<) (current @ [j])" "\<forall>k \<in> set (current @ [j]). k < j + 1" "\<forall>k \<in> set current. k < j + 1"
    using "1.prems" by (auto simp: sorted_wrt_append less_Suc_eq)
  consider "length ts \<le> j" | "j < length ts" "lt_text (ts ! j) = ''(''" "depth = 0"
    | "j < length ts" "lt_text (ts ! j) = ''(''" "depth \<noteq> 0" | "j < length ts" "lt_text (ts ! j) = '')''" "depth = 1"
    | "j < length ts" "lt_text (ts ! j) = '')''" "depth \<noteq> 1" | "j < length ts" "lt_text (ts ! j) = '',''" "depth = 1"
    | "j < length ts" "lt_text (ts ! j) \<notin> {''('', '')''}" "\<not> (lt_text (ts ! j) = '','' \<and> depth = 1)"
    using not_le by blast
  then show ?case
  proof cases
    case 1
    then show ?thesis by (simp add: arguments_from.simps)
  next
    case 2
    then show ?thesis using "1.IH"(1) [OF _ refl] step "1.prems" by (subst (1 2) arguments_from.simps) (fastforce simp: Let_def)
  next
    case 3
    then show ?thesis using "1.IH"(2) [OF _ refl] step by (subst (1 2) arguments_from.simps) (fastforce simp: Let_def)
  next
    case 4
    then show ?thesis using "1.prems" by (subst (1 2) arguments_from.simps) (simp add: Let_def)
  next
    case 5
    then show ?thesis using "1.IH"(3) [OF _ refl] step by (subst (1 2) arguments_from.simps) (fastforce simp: Let_def)
  next
    case 6
    have "sorted_wrt (<) (concat (arguments_from ts (j + 1) depth [])) \<and>
        set (concat (arguments_from ts (j + 1) depth [])) \<subseteq> {j + 1..<length ts}"
      using "1.IH"(4) [OF _ refl] 6 by simp
    then show ?thesis using 6 "1.prems" by (subst (1 2) arguments_from.simps) (fastforce simp: Let_def sorted_wrt_append)
  next
    case 7
    then show ?thesis using "1.IH"(5) [OF _ refl] step by (subst (1 2) arguments_from.simps) (fastforce simp: Let_def)
  qed
qed

lemma sorted_concat:
  assumes "sorted_wrt R (concat xss)"
  shows "sorted_wrt (\<lambda>xs ys. \<forall>x \<in> set xs. \<forall>y \<in> set ys. R x y) xss \<and> (\<forall>xs \<in> set xss. sorted_wrt R xs)"
  using assms by (induction xss) (auto simp: sorted_wrt_append)

lemma standard_formal_arguments_keeps: "keeps_contract standard_formal_arguments"
proof (rule keeps_contractI)
  fix files cx f t d p known
  assume t: "dget files f = Some t" "rule_index cx f = new_index t"
    and p: "rl_propose standard_formal_arguments cx f (locate d (new_index t)) = Inr (Some p, known)"
  let ?ts = "si_significant (new_index t)"
  obtain i names where names: "list_all2 (binds_formal ?ts) names (arguments_from ?ts (i + 1) 0 [])"
    and p: "pr_edits p = map (\<lambda>arg. mk_edit f (lt_start (?ts ! (arg ! 0))) (lt_start (?ts ! (arg ! 2))) []) (arguments_from ?ts (i + 1) 0 [])"
    using p by (auto simp: standard_formal_arguments_def propose_formals_def t(2) Let_def
        simp del: index_significant split: option.splits if_splits)
  define args where "args = arguments_from ?ts (i + 1) 0 []"
  have ord: "tokens_ordered ?ts" using significant_ordered by simp
  have len: "3 \<le> length arg" if "arg \<in> set args" for arg
    using names that by (auto simp: args_def list_all2_conv_all_nth in_set_conv_nth binds_formal_def)
  have args: "sorted_wrt (\<lambda>xs ys. \<forall>x \<in> set xs. \<forall>y \<in> set ys. x < y) args" "\<forall>arg \<in> set args. sorted_wrt (<) arg"
    "\<forall>arg \<in> set args. \<forall>k \<in> set arg. k < length ?ts"
    using arguments_from_ordered [of "[]" "i + 1" ?ts 0] sorted_concat [of "(<)" args] by (auto simp: args_def)
  have arg: "lt_start (?ts ! (arg ! 0)) < lt_start (?ts ! (arg ! 2)) \<and> lt_start (?ts ! (arg ! 2)) \<le> length t"
    if "arg \<in> set args" for arg
  proof -
    have "arg ! 0 < arg ! 2" "arg ! 2 < length ?ts"
      using sorted_wrt_nth_less [of "(<)" arg 0 2] args(2,3) len [OF that] that by auto
    then show ?thesis using ordered_starts [OF ord, of "arg ! 0" "arg ! 2"] token_bounds [of "arg ! 2" t] by simp
  qed
  show "proposal_ok files p"
  proof (rule ordered_edits_ok)
    show "\<forall>e \<in> set (pr_edits p). placed_edit files e"
    proof
      fix e assume "e \<in> set (pr_edits p)"
      then obtain arg where "arg \<in> set args" "e = mk_edit f (lt_start (?ts ! (arg ! 0))) (lt_start (?ts ! (arg ! 2))) []"
        by (auto simp: p args_def)
      then show "placed_edit files e" using arg t(1) by (auto simp: placed_edit_def less_imp_le)
    qed
    have "sorted_wrt (\<lambda>a b. before_edit (mk_edit f (lt_start (?ts ! (a ! 0))) (lt_start (?ts ! (a ! 2))) [])
        (mk_edit f (lt_start (?ts ! (b ! 0))) (lt_start (?ts ! (b ! 2))) [])) args"
    proof (rule sorted_wrt_mono_rel [OF _ args(1)])
      fix a b assume ab: "a \<in> set args" "b \<in> set args" "\<forall>x \<in> set a. \<forall>y \<in> set b. x < y"
      have "a ! 2 \<in> set a" "b ! 0 \<in> set b" using len [OF ab(1)] len [OF ab(2)] by (force intro: nth_mem)+
      then have "a ! 2 < b ! 0" "b ! 0 < length ?ts" using ab args(3) by blast+
      then show "before_edit (mk_edit f (lt_start (?ts ! (a ! 0))) (lt_start (?ts ! (a ! 2))) [])
          (mk_edit f (lt_start (?ts ! (b ! 0))) (lt_start (?ts ! (b ! 2))) [])"
        using ordered_starts [OF ord, of "a ! 2" "b ! 0"] arg [OF ab(1)] by (simp add: before_edit_def)
    qed
    then show "sorted_wrt before_edit (pr_edits p)" unfolding p args_def [symmetric] sorted_wrt_map .
  qed
qed


lemma shift_literal_at:
  assumes "shift_literal si line k = Some l"
  shows "shift_call si line k \<and> (l = k + 4 \<or> l = k + 5)"
  using assms by (auto simp: shift_literal_def dword_literal_def Let_def split: if_splits option.splits)

lemma shift_literals_ordered:
  assumes "k < k'" "shift_literal si line k = Some l" "shift_literal si line k' = Some l'"
  shows "l < l'"
proof -
  have "k' \<noteq> k + 1"
  proof
    assume "k' = k + 1"
    then have "lt_text (si_significant si ! k') = ''(''" "upper_of (si_significant si ! k') \<in> SHIFT_FUNCTIONS"
      using shift_literal_at [OF assms(2)] shift_literal_at [OF assms(3)] by (auto simp: shift_call_def Let_def)
    then show False by (auto simp: upper_of_def SHIFT_FUNCTIONS_def)
  qed
  then show ?thesis using shift_literal_at [OF assms(2)] shift_literal_at [OF assms(3)] assms(1) by auto
qed

lemma shift_literal_dword_keeps: "keeps_contract shift_literal_dword"
proof (rule keeps_contractI)
  fix files cx f t d p known
  assume t: "dget files f = Some t" "rule_index cx f = new_index t"
    and p: "rl_propose shift_literal_dword cx f (locate d (new_index t)) = Inr (Some p, known)"
  let ?ts = "si_significant (new_index t)"
  obtain line where p: "pr_edits p = map (\<lambda>k. mk_edit f (lt_start (?ts ! k)) (lt_start (?ts ! k)) ''DWORD#'')
      (List.map_filter (shift_literal (new_index t) line) [0..<length ?ts - 6])"
    using p by (auto simp: shift_literal_dword_def propose_shift_literal_def t(2) Let_def
        simp del: index_significant set_upt split: if_splits)
  define ls where "ls = List.map_filter (shift_literal (new_index t) line) [0..<length ?ts - 6]"
  have ord: "tokens_ordered ?ts" using significant_ordered by simp
  have ls: "\<forall>l \<in> set ls. l < length ?ts"
    using shift_literal_at [of "new_index t" line] by (fastforce simp: ls_def map_filter_def simp del: index_significant)
  have "sorted_wrt (<) ls"
    unfolding ls_def by (rule sorted_wrt_map_filter [OF sorted_wrt_upt]) (rule shift_literals_ordered)
  then have sorted_ls: "sorted_wrt (\<lambda>a b. before_edit (mk_edit f (lt_start (?ts ! a)) (lt_start (?ts ! a)) ''DWORD#'')
      (mk_edit f (lt_start (?ts ! b)) (lt_start (?ts ! b)) ''DWORD#'')) ls"
  proof (rule sorted_wrt_mono_rel [rotated])
    fix a b assume "a \<in> set ls" "b \<in> set ls" "a < b"
    then have "lt_start (?ts ! a) < lt_start (?ts ! b)" using ordered_starts [OF ord] ls by blast
    then show "before_edit (mk_edit f (lt_start (?ts ! a)) (lt_start (?ts ! a)) ''DWORD#'')
        (mk_edit f (lt_start (?ts ! b)) (lt_start (?ts ! b)) ''DWORD#'')" by (simp add: before_edit_def)
  qed
  show "proposal_ok files p"
  proof (rule ordered_edits_ok)
    show "\<forall>e \<in> set (pr_edits p). placed_edit files e"
    proof
      fix e assume "e \<in> set (pr_edits p)"
      then obtain l where l: "l \<in> set ls" "e = mk_edit f (lt_start (?ts ! l)) (lt_start (?ts ! l)) ''DWORD#''"
        by (auto simp: p ls_def simp del: index_significant)
      have "l < length ?ts" using ls l(1) by blast
      from token_bounds [OF this] show "placed_edit files e" using t(1) l(2) by (simp add: placed_edit_def)
    qed
    show "sorted_wrt before_edit (pr_edits p)" using sorted_ls unfolding p ls_def [symmetric] sorted_wrt_map .
  qed
qed

section \<open>What the rules raise\<close>

lemma constants_from_error [index_only_intros]: "index_only (constants_from t ts stop constants i)"
proof (induction t ts stop constants i rule: constants_from.induct)
  case (1 t ts stop constants i)
  then show ?case by (subst constants_from.simps) (auto simp: Let_def intro!: index_only_intros)
qed

lemma scl_blocks_raise:
  "raises_index_only const_inline" "raises_index_only standard_formal_arguments" "raises_index_only shift_literal_dword"
  by (simp_all add: raises_index_only_def Let_def const_inline_def propose_const_inline_def standard_formal_arguments_def
      propose_formals_def shift_literal_dword_def propose_shift_literal_def index_only_intros)

definition SCL_BLOCK_RULES :: "rewrite_rule list" where
  "SCL_BLOCK_RULES = [const_inline, standard_formal_arguments, shift_literal_dword]"

lemmas scl_blocks_keep = const_inline_keeps standard_formal_arguments_keeps shift_literal_dword_keeps

interpretation scl_blocks: rule_set SCL_BLOCK_RULES
  by unfold_locales (auto simp: SCL_BLOCK_RULES_def intro: scl_blocks_keep scl_blocks_raise)

end
