(* ===== verification/Project_Rules.thy ===== *)
theory Project_Rules
  imports Scl_Blocks
begin

text \<open>
  The rules that move declarations to other scopes: the storage classes of CODESYS
  (\<^verbatim>\<open>compiler/intake/normalize/rules/storage.py\<close>) and the namespaces of SIMATIC AX
  (\<^verbatim>\<open>compiler/intake/normalize/rules/ax.py\<close>).
\<close>

section \<open>Blocks of a storage class\<close>

definition UNSUPPORTED_MODIFIERS :: "string set" where
  "UNSUPPORTED_MODIFIERS = {''RETAIN'', ''PERSISTENT'', ''NON_RETAIN''}"

definition STORAGE_BLOCKS :: "string set" where
  "STORAGE_BLOCKS = {''VAR'', ''VAR_INPUT'', ''VAR_OUTPUT'', ''VAR_IN_OUT'', ''VAR_TEMP'', ''VAR_STAT'', ''VAR_INST'', ''VAR_EXTERNAL''}"

record storage_block =
  sb_header :: nat
  sb_end :: nat
  sb_constant :: bool
  sb_names :: "string list"

definition sb_start :: "lossless_token list \<Rightarrow> storage_block \<Rightarrow> nat" where
  "sb_start ts b = lt_start (ts ! sb_header b)"

definition sb_stop :: "lossless_token list \<Rightarrow> storage_block \<Rightarrow> nat" where
  "sb_stop ts b = span_end ts (sb_end b)"

definition body_start :: "lossless_token list \<Rightarrow> storage_block \<Rightarrow> nat" where
  "body_start ts b = lt_start (ts ! (if sb_constant b then sb_header b + 2 else sb_header b + 1))"

text \<open>The names declared from token \<open>k\<close> up to \<open>stop\<close>; \<open>None\<close> outside of what the rules support.\<close>

function block_names :: "lossless_token list \<Rightarrow> nat \<Rightarrow> nat \<Rightarrow> bool \<Rightarrow> int \<Rightarrow> string list option" where
  "block_names ts stop k expect_name depth =
     (if stop \<le> k then (if depth = 0 then Some [] else None)
      else let word = lt_text (ts ! k) in
        if word \<in> {''('', ''[''} then block_names ts stop (k + 1) expect_name (depth + 1)
        else if word \<in> {'')'', '']''} then block_names ts stop (k + 1) expect_name (depth - 1)
        else if depth = 0 \<and> word = '';'' then block_names ts stop (k + 1) True depth
        else if \<not> expect_name then block_names ts stop (k + 1) expect_name depth
        else if lt_kind (ts ! k) \<noteq> ''identifier'' \<or> upper_of (ts ! (k + 1)) = ''AT'' then None
        else if lt_text (ts ! (k + 1)) = '','' then map_option (Cons word) (block_names ts stop (k + 2) expect_name depth)
        else if lt_text (ts ! (k + 1)) \<noteq> '':'' then None
        else map_option (Cons word) (block_names ts stop (k + 1) False depth))"
  by pat_completeness auto
termination by (relation "measure (\<lambda>(ts, stop, k, expect_name, depth). stop - k)") auto

declare block_names.simps [simp del]

definition block_from :: "lossless_token list \<Rightarrow> nat \<Rightarrow> nat \<Rightarrow> storage_block option" where
  "block_from ts i stop =
     (let constant = (upper_of (ts ! (i + 1)) = ''CONSTANT''); k = (if constant then i + 2 else i + 1) in
      if upper_of (ts ! k) \<in> UNSUPPORTED_MODIFIERS then None
      else case block_names ts stop k True 0 of
        None \<Rightarrow> None
      | Some names \<Rightarrow> if names = [] then None
          else Some \<lparr>sb_header = i, sb_end = stop, sb_constant = constant, sb_names = names\<rparr>)"

text \<open>The block among tokens \<open>is\<close> around an offset; \<open>None\<close> also when it is outside what the rules support.\<close>

fun block_at :: "lossless_token list \<Rightarrow> string \<Rightarrow> nat \<Rightarrow> nat \<Rightarrow> nat list \<Rightarrow> storage_block option" where
  "block_at ts word offset high [] = None"
| "block_at ts word offset high (i # is) =
     (if upper_of (ts ! i) \<noteq> word \<or> \<not> is_word (ts ! i) then block_at ts word offset high is
      else case find (\<lambda>j. upper_of (ts ! j) = ''END_VAR'') [i + 1..<high] of
        None \<Rightarrow> None
      | Some j \<Rightarrow>
          if \<not> (lt_start (ts ! i) \<le> offset \<and> offset \<le> span_end ts j) then block_at ts word offset high is
          else block_from ts i j)"

section \<open>Fresh names and their uses\<close>

text \<open>A word that the rules do not rename: declared again, or a member of \<open>THIS^\<close>.\<close>

definition not_plain :: "lossless_token list \<Rightarrow> nat \<Rightarrow> bool" where
  "not_plain ts k = (text_after ts k = '':'' \<or> (text_before ts k = ''.'' \<and> 2 \<le> k \<and> lt_text (ts ! (k - 2)) = ''^''))"

definition renamed_uses :: "lossless_token list \<Rightarrow> nat \<Rightarrow> nat \<Rightarrow> storage_block \<Rightarrow> (string, string) dict \<Rightarrow> nat list option" where
  "renamed_uses ts low high b fresh =
     (let named = filter (named_outside ts fresh (sb_header b, sb_end b)) [low..<high] in
      if \<exists>k \<in> set named. not_plain ts k then None else Some (filter (\<lambda>k. \<not> other_name ts k) named))"

definition block_declarations :: "source_index \<Rightarrow> storage_block \<Rightarrow> (string, string) dict \<Rightarrow> string" where
  "block_declarations si b fresh =
     (let ts = si_significant si; first = body_start ts b in
      rstrip (substituted (si_text si) ts fresh (filter (\<lambda>k. first \<le> lt_start (ts ! k)) [sb_header b + 1..<sb_end b])
        first (lt_start (ts ! sb_end b))))"

definition base_of :: "string list \<Rightarrow> string" where
  "base_of parts = mangled (join ''_'' (filter (\<lambda>p. p \<noteq> []) parts))"

definition member_scope :: "st_unit \<Rightarrow> nat \<Rightarrow> st_member option" where
  "member_scope u offset = find (\<lambda>m. me_start m \<le> offset \<and> offset < me_end m) (un_members u)"

text \<open>A fresh name for every declared one, in their order.\<close>

fun fresh_names :: "string list \<Rightarrow> (string \<Rightarrow> string) \<Rightarrow> string \<Rightarrow> string list \<Rightarrow> (string, string) dict \<Rightarrow> (string, string) dict \<times> string list" where
  "fresh_names known base ending [] fresh = (fresh, known)"
| "fresh_names known base ending (name # names) fresh =
     (case fresh_name known (base name) ending of
        (new, known') \<Rightarrow> fresh_names known' base ending names (dset (py_upper name) new fresh))"

text \<open>The new declaration, the comment in place of the block, and the renamed references.\<close>

definition storage_edits :: "string \<Rightarrow> source_index \<Rightarrow> nat \<Rightarrow> string \<Rightarrow> storage_block \<Rightarrow> (string, string) dict \<Rightarrow> nat list \<Rightarrow> edit list" where
  "storage_edits f si insert_at words b fresh ks =
     (let ts = si_significant si; keyword = (if sb_constant b then words @ '' CONSTANT'' else words) in
      mk_edit f insert_at insert_at (keyword @ [newline] @ block_declarations si b fresh @ [newline] @ ''END_VAR'' @ [newline]) #
      mk_edit f (sb_start ts b) (sb_stop ts b) (as_comment (span (sb_start ts b) (sb_stop ts b) (si_text si))) #
      map (\<lambda>k. token_edit f (ts ! k) (the (dget fresh (upper_of (ts ! k))))) ks)"

definition storage_proposal ::
    "rule_context \<Rightarrow> rule_spec \<Rightarrow> string \<Rightarrow> string \<Rightarrow> string \<Rightarrow> (string \<Rightarrow> string) \<Rightarrow> nat \<Rightarrow> nat \<Rightarrow> nat \<Rightarrow> storage_block \<Rightarrow> proposing" where
  "storage_proposal cx spec ending words f base insert_at low high b =
     (let si = rule_index cx f; ts = si_significant si in
      case fresh_names (cx_known cx) base ending (sb_names b) [] of (fresh, known) \<Rightarrow>
        Inr (map_option (\<lambda>ks. make_proposal spec [KText (rs_id spec), KText f, KNum (sb_start ts b)]
            (storage_edits f si insert_at words b fresh ks)
            (join '', '' (map (\<lambda>(name, new). name @ '' -> '' @ new) fresh)) [])
          (renamed_uses ts low high b fresh), known))"

section \<open>var-stat-global\<close>

definition VAR_STAT_GLOBAL :: rule_spec where
  "VAR_STAT_GLOBAL = \<lparr>rs_id = ''var-stat-global'', rs_version = 1, rs_level = ''L2'', rs_codes = [''E007'']\<rparr>"

definition propose_var_stat :: "rule_context \<Rightarrow> string \<Rightarrow> located \<Rightarrow> proposing" where
  "propose_var_stat cx f item =
     (case lo_unit item of
        None \<Rightarrow> decline cx
      | Some u \<Rightarrow>
          (let si = rule_index cx f; ts = si_significant si; member = member_scope u (lo_offset item);
               low = significant_index si (case member of None \<Rightarrow> un_start u | Some m \<Rightarrow> me_start m);
               high = significant_index si (case member of None \<Rightarrow> un_end u | Some m \<Rightarrow> me_end m);
               owner = (case member of None \<Rightarrow> [] | Some m \<Rightarrow> me_name m) in
           if un_kind u \<notin> {''FUNCTION'', ''FUNCTION_BLOCK'', ''PROGRAM''} then decline cx
           else case block_at ts ''VAR_STAT'' (lo_offset item) high [low..<high] of
             None \<Rightarrow> decline cx
           | Some b \<Rightarrow> storage_proposal cx VAR_STAT_GLOBAL ''__STAT'' ''VAR_GLOBAL'' f
               (\<lambda>name. base_of [un_name u, owner, name]) (un_start u) low high b))"

definition var_stat_global :: rewrite_rule where
  "var_stat_global = \<lparr>rl_spec = VAR_STAT_GLOBAL, rl_propose = propose_var_stat\<rparr>"

section \<open>var-inst-member\<close>

definition VAR_INST_MEMBER :: rule_spec where
  "VAR_INST_MEMBER = \<lparr>rs_id = ''var-inst-member'', rs_version = 1, rs_level = ''L2'', rs_codes = [''E007'']\<rparr>"

definition member_insert :: "source_index \<Rightarrow> st_unit \<Rightarrow> nat" where
  "member_insert si u =
     (let ts = si_significant si; first = Min (me_start ` set (un_members u)) in
      case find (\<lambda>k. is_word (ts ! k) \<and> upper_of (ts ! k) \<in> STORAGE_BLOCKS)
          [significant_index si (un_start u) + 1..<significant_index si first] of
        None \<Rightarrow> first
      | Some k \<Rightarrow> lt_start (ts ! k))"

definition propose_var_inst :: "rule_context \<Rightarrow> string \<Rightarrow> located \<Rightarrow> proposing" where
  "propose_var_inst cx f item =
     (case lo_unit item of
        None \<Rightarrow> decline cx
      | Some u \<Rightarrow>
          if un_kind u \<notin> {''FUNCTION_BLOCK'', ''PROGRAM''} then decline cx
          else case member_scope u (lo_offset item) of
            None \<Rightarrow> decline cx
          | Some m \<Rightarrow>
              if me_kind m \<noteq> ''METHOD'' then decline cx
              else (let si = rule_index cx f; ts = si_significant si; low = significant_index si (me_start m);
                        high = significant_index si (me_end m) in
                case block_at ts ''VAR_INST'' (lo_offset item) high [low..<high] of
                  None \<Rightarrow> decline cx
                | Some b \<Rightarrow> storage_proposal cx VAR_INST_MEMBER ''__INST'' ''VAR'' f
                    (\<lambda>name. base_of [me_name m, name]) (member_insert si u) low high b))"

definition var_inst_member :: rewrite_rule where
  "var_inst_member = \<lparr>rl_spec = VAR_INST_MEMBER, rl_propose = propose_var_inst\<rparr>"

section \<open>ax-namespace-flatten\<close>

definition AX_NAMESPACE_FLATTEN :: rule_spec where
  "AX_NAMESPACE_FLATTEN = \<lparr>rs_id = ''ax-namespace-flatten'', rs_version = 2, rs_level = ''L2'', rs_codes = [''E007'']\<rparr>"

definition AX_SECTIONS :: "string set" where
  "AX_SECTIONS = {''VAR'', ''VAR_INPUT'', ''VAR_OUTPUT'', ''VAR_IN_OUT'', ''VAR_TEMP'', ''VAR_EXTERNAL'', ''VAR_GLOBAL''}"

definition DECLARING :: "string set" where
  "DECLARING = {''CLASS'', ''INTERFACE'', ''FUNCTION'', ''FUNCTION_BLOCK'', ''PROGRAM'', ''TYPE'', ''CONFIGURATION''}"

text \<open>The parts of \<open>rpartition(''.'')\<close>.\<close>

definition before_dot :: "string \<Rightarrow> string" where
  "before_dot s = rev (drop 1 (dropWhile (\<lambda>c. c \<noteq> CHR ''.'') (rev s)))"

definition after_dot :: "string \<Rightarrow> string" where
  "after_dot s = rev (takeWhile (\<lambda>c. c \<noteq> CHR ''.'') (rev s))"

definition mangle :: "string \<Rightarrow> string" where
  "mangle qualified =
     (if before_dot qualified \<noteq> [] then replace_all ''.'' ''_'' (before_dot qualified) @ ''__'' @ after_dot qualified
      else after_dot qualified)"

lemma before_dot_shorter: "s \<noteq> [] \<Longrightarrow> length (before_dot s) < length s"
proof -
  assume "s \<noteq> []"
  then have "0 < length s" by simp
  moreover have "length (dropWhile (\<lambda>c. c \<noteq> CHR ''.'') (rev s)) \<le> length s"
    using length_dropWhile_le [of "\<lambda>c. c \<noteq> CHR ''.''" "rev s"] by simp
  ultimately show "length (before_dot s) < length s" unfolding before_dot_def length_rev length_drop by linarith
qed

function enclosing_spaces :: "string \<Rightarrow> string list" where
  "enclosing_spaces s = (if s = [] then [] else s # enclosing_spaces (before_dot s))"
  by pat_completeness auto
termination by (relation "measure length") (auto simp: before_dot_shorter)

declare enclosing_spaces.simps [simp del]

definition ax_definitions :: "rule_context \<Rightarrow> (string, string) dict" where
  "ax_definitions cx =
     foldl (\<lambda>d u. if un_namespace u \<noteq> [] \<and> un_name u \<noteq> [] \<and> un_kind u \<in> insert ''VAR_GLOBAL'' DECLARING
                then dset (py_upper (qualified_name u)) (mangle (qualified_name u)) d else d)
       [] (concat (map (\<lambda>(_, si). si_units si) (cx_indices cx)))"

text \<open>The names declared in the sections of a file.\<close>

fun declared_variables :: "lossless_token list \<Rightarrow> bool \<Rightarrow> nat list \<Rightarrow> string list" where
  "declared_variables ts in_section [] = []"
| "declared_variables ts in_section (k # ks) =
     (let word = upper_of (ts ! k) in
      if word \<in> AX_SECTIONS \<or> word = ''STRUCT'' then declared_variables ts True ks
      else if word \<in> {''END_VAR'', ''END_STRUCT''} then declared_variables ts False ks
      else if in_section \<and> is_word (ts ! k) \<and> text_after ts k \<in> {'':'', '',''} then word # declared_variables ts in_section ks
      else declared_variables ts in_section ks)"

definition ax_variables :: "rule_context \<Rightarrow> string set" where
  "ax_variables cx =
     (\<Union>(_, si) \<in> set (cx_indices cx). set (declared_variables (si_significant si) False [0..<length (si_significant si)]))"

text \<open>A dotted name from token \<open>i\<close> and the token behind it; the prefix of a typed literal ends it.\<close>

function dotted :: "lossless_token list \<Rightarrow> nat \<Rightarrow> string list \<times> nat" where
  "dotted ts i =
     (if length ts \<le> i then ([], i)
      else if lt_kind (ts ! i) = ''cast_prefix'' then ([butlast (lt_text (ts ! i))], i + 1)
      else if \<not> is_word (ts ! i) then ([], i)
      else if i + 1 < length ts \<and> lt_text (ts ! (i + 1)) = ''.''
        then (case dotted ts (i + 2) of (parts, j) \<Rightarrow> (lt_text (ts ! i) # parts, j))
      else ([lt_text (ts ! i)], i + 1))"
  by pat_completeness auto
termination by (relation "measure (\<lambda>(ts, i). length ts - i)") auto

declare dotted.simps [simp del]

lemma dotted_ge: "i \<le> snd (dotted ts i)"
proof (induction ts i rule: dotted.induct)
  case (1 ts i)
  then show ?case by (subst dotted.simps) (cases "dotted ts (i + 2)"; auto)
qed

definition first_defined :: "(string, string) dict \<Rightarrow> string list \<Rightarrow> string option" where
  "first_defined definitions candidates =
     (case filter (\<lambda>c. dmem (py_upper c) definitions) candidates of
        [] \<Rightarrow> None | c # cs \<Rightarrow> (case dget definitions (py_upper c) of Some t \<Rightarrow> if t = [] then None else Some t | None \<Rightarrow> None))"

lemma dotted_bound: "(parts, j) = dotted ts i \<Longrightarrow> i \<le> j"
  using dotted_ge [of i ts] by (metis snd_conv)

text \<open>The longest prefix of a dotted name that is a declaration, as its number of parts and the new name.\<close>

definition qualified_target :: "(string, string) dict \<Rightarrow> string \<Rightarrow> string list \<Rightarrow> (nat \<times> string) option" where
  "qualified_target definitions current parts =
     (let target = (\<lambda>k. first_defined definitions (join ''.'' (take k parts) #
            (if current \<noteq> [] then [current @ ''.'' @ join ''.'' (take k parts)] else []))) in
      case find (\<lambda>k. target k \<noteq> None) (rev [2..<length parts + 1]) of
        None \<Rightarrow> None | Some k \<Rightarrow> Some (k, the (target k)))"

definition short_target ::
    "lossless_token list \<Rightarrow> (string, string) dict \<Rightarrow> string set \<Rightarrow> string \<Rightarrow> string list \<Rightarrow> nat \<Rightarrow> string option" where
  "short_target ts definitions variables current usings i =
     (let literal = (lt_kind (ts ! i) = ''cast_prefix'');
          short = (if literal then butlast (lt_text (ts ! i)) else lt_text (ts ! i));
          names_formal = (text_after ts i = '':='' \<and> 0 < i \<and> lt_text (ts ! (i - 1)) \<in> {''('', '',''}) in
      if literal \<or> (upper_of (ts ! i) \<notin> variables \<and> \<not> names_formal)
      then (case first_defined definitions (map (\<lambda>s. s @ ''.'' @ short) (enclosing_spaces current @ usings)) of
              None \<Rightarrow> None
            | Some t \<Rightarrow> if t \<noteq> short then Some (if literal then t @ ''#'' else t) else None)
      else None)"


text \<open>
  What the rewriting of a file replaces, as the first and the last token with the new text: comments for
  \<open>NAMESPACE\<close>, \<open>END_NAMESPACE\<close> and \<open>USING\<close>, the new names for references. \<open>marks\<close> are the starts of the source
  files merged into this one that are still ahead.
\<close>

definition comment_of :: "string \<Rightarrow> lossless_token list \<Rightarrow> nat \<Rightarrow> nat \<Rightarrow> nat \<times> nat \<times> string" where
  "comment_of t ts i j = (i, j, as_comment (span (lt_start (ts ! i)) (lt_end (ts ! j)) t))"

definition is_name :: "lossless_token list \<Rightarrow> nat \<Rightarrow> bool" where
  "is_name ts i = ((is_word (ts ! i) \<or> lt_kind (ts ! i) = ''cast_prefix'') \<and> (i = 0 \<or> lt_text (ts ! (i - 1)) \<noteq> ''.''))"

function flatten_from ::
    "string \<Rightarrow> lossless_token list \<Rightarrow> (string, string) dict \<Rightarrow> string set \<Rightarrow> nat list \<Rightarrow> string list \<Rightarrow> string list \<Rightarrow> nat \<Rightarrow>
      (nat \<times> nat \<times> string) list" where
  "flatten_from t ts definitions variables marks stack usings i =
     (if length ts \<le> i then []
      else let token = ts ! i; word = upper_of token;
               later = dropWhile (\<lambda>m. m < lt_start token) marks;
               imported = (if length later < length marks then [] else usings) in
        if word = ''NAMESPACE'' \<and> is_word token then
          (case dotted ts (i + 1) of (parts, j) \<Rightarrow>
             comment_of t ts i (j - 1) #
             flatten_from t ts definitions variables later (stack @ [join ''.'' parts]) imported j)
        else if word = ''END_NAMESPACE'' then
          comment_of t ts i (if text_after ts i = '';'' then i + 1 else i) #
          flatten_from t ts definitions variables later (butlast stack) imported (i + 1)
        else if word = ''USING'' \<and> is_word token then
          (case dotted ts (i + 1) of (parts, j) \<Rightarrow>
             comment_of t ts i (if j < length ts \<and> lt_text (ts ! j) = '';'' then j else j - 1) #
             flatten_from t ts definitions variables later stack (imported @ [join ''.'' parts]) (j + 1))
        else if is_name ts i then
          (case qualified_target definitions (join ''.'' stack) (fst (dotted ts i)) of
             Some (k, target) \<Rightarrow>
               (i, i + 2 * (k - 1), if lt_kind (ts ! (i + 2 * (k - 1))) = ''cast_prefix'' then target @ ''#'' else target) #
               flatten_from t ts definitions variables later stack imported (i + 2 * (k - 1) + 1)
           | None \<Rightarrow>
               (case short_target ts definitions variables (join ''.'' stack) imported i of
                  Some target \<Rightarrow> (i, i, target) # flatten_from t ts definitions variables later stack imported (i + 1)
                | None \<Rightarrow> flatten_from t ts definitions variables later stack imported (i + 1)))
        else flatten_from t ts definitions variables later stack imported (i + 1))"
  by pat_completeness auto
termination by (relation "measure (\<lambda>(t, ts, definitions, variables, marks, stack, usings, i). length ts - i)")
    (auto dest!: dotted_bound)

declare flatten_from.simps [simp del]

definition flatten_edits :: "(string, string) dict \<Rightarrow> string set \<Rightarrow> string \<times> source_index \<Rightarrow> edit list" where
  "flatten_edits definitions variables entry =
     (case entry of (f, si) \<Rightarrow> let ts = si_significant si in
      map (\<lambda>(i, j, r). mk_edit f (lt_start (ts ! i)) (lt_end (ts ! j)) r)
        (flatten_from (si_text si) ts definitions variables (map fst (source_markers (si_tokens si))) [] [] 0))"

definition propose_flatten :: "rule_context \<Rightarrow> string \<Rightarrow> located \<Rightarrow> proposing" where
  "propose_flatten cx f item =
     (case lo_token item of
        None \<Rightarrow> decline cx
      | Some token \<Rightarrow>
          if upper_of token \<notin> {''NAMESPACE'', ''USING'', ''END_NAMESPACE''} then decline cx
          else (let definitions = ax_definitions cx;
                    edits = concat (map (flatten_edits definitions (ax_variables cx)) (sort_key fst (cx_indices cx))) in
            if edits = [] then decline cx
            else offers cx (make_proposal AX_NAMESPACE_FLATTEN [KText (rs_id AX_NAMESPACE_FLATTEN)] edits
              (show_nat (length definitions) @ '' namespaced declarations'') definitions)))"

definition namespace_flatten :: rewrite_rule where
  "namespace_flatten = \<lparr>rl_spec = AX_NAMESPACE_FLATTEN, rl_propose = propose_flatten\<rparr>"


section \<open>A word starts with a letter\<close>

lemma scan_word_start:
  assumes "fst (scan s) \<in> {''keyword'', ''identifier'', ''cast_prefix''}"
  shows "is_ident_start (hd s)"
proof (rule ccontr)
  assume "\<not> is_ident_start (hd s)"
  then have "fst (scan s) \<in> fst ` {scan_comment s, scan_brace s, scan_string s, scan_direct s, scan_number s, scan_symbol s,
      (''whitespace'', 0), (''comment'', 0)}"
    by (simp add: scan_def Let_def)
  moreover have "fst (scan_comment s) \<notin> {''keyword'', ''identifier'', ''cast_prefix''}"
    by (simp add: scan_comment_def Let_def split: option.splits)
  moreover have "fst (scan_brace s) \<notin> {''keyword'', ''identifier'', ''cast_prefix''}"
    by (simp add: scan_brace_def Let_def split: option.splits)
  moreover have "fst (scan_string s) \<notin> {''keyword'', ''identifier'', ''cast_prefix''}"
    by (simp add: scan_string_def split: option.splits)
  moreover have "fst (scan_direct s) \<notin> {''keyword'', ''identifier'', ''cast_prefix''}"
    by (simp add: scan_direct_def split: option.splits)
  moreover have "fst (scan_number s) \<notin> {''keyword'', ''identifier'', ''cast_prefix''}" by (simp add: scan_number_def)
  moreover have "fst (scan_symbol s) \<notin> {''keyword'', ''identifier'', ''cast_prefix''}"
    by (simp add: scan_symbol_def split: option.splits)
  ultimately show False using assms by auto
qed

lemma token_word_start:
  assumes "tok \<in> set (tokens_from i line ls s)" "lt_kind tok \<in> {''keyword'', ''identifier'', ''cast_prefix''}"
  shows "is_ident_start (hd (lt_text tok))"
  using assms(1)
proof (induction i line ls s rule: tokens_from.induct)
  case (1 i line ls s)
  show ?case
  proof (cases "s = []")
    case False
    obtain kind n where kn: "scan s = (kind, n)" by fastforce
    have n: "1 \<le> n" using scan_pos [OF False] kn by simp
    then have "hd (take n s) = hd s" using False by simp
    then have "is_ident_start (hd (take n s))" if "kind \<in> {''keyword'', ''identifier'', ''cast_prefix''}"
      using scan_word_start [of s] that kn by simp
    moreover note "1.prems" [unfolded tokens_from.simps [of i line ls s]]
    ultimately show ?thesis using "1.IH" [OF False kn [symmetric] refl refl] False kn assms(2) by (auto simp: Let_def)
  qed (use "1.prems" in \<open>simp add: tokens_from.simps\<close>)
qed

lemma name_not_semicolon:
  assumes "tok \<in> set (si_tokens (new_index t))" "is_word tok \<or> lt_kind tok = ''cast_prefix''"
  shows "lt_text tok \<noteq> '';''"
proof
  assume "lt_text tok = '';''"
  moreover have "is_ident_start (hd (lt_text tok))"
    using token_word_start [of tok 0 1 0 t] assms by (auto simp: tokenize_lossless_def is_word_def)
  ultimately show False by (simp add: is_ident_start_def is_alpha_def is_upper_def is_lower_def)
qed

section \<open>The storage rules keep the contract\<close>

lemma block_at_bounds:
  assumes "block_at ts word offset high is = Some b"
  shows "sb_header b \<in> set is \<and> sb_header b < sb_end b \<and> sb_end b < high"
  using assms
proof (induction "is")
  case (Cons i "is")
  then show ?case
    by (auto simp: block_from_def Let_def split: if_splits option.splits dest!: find_mem)
qed simp

lemma unit_token:
  assumes "u \<in> set (si_units (new_index t))"
  obtains b where "b < length (si_significant (new_index t))" "un_start u = lt_start (si_significant (new_index t) ! b)"
proof -
  have "u \<in> set (units_from (si_significant (new_index t)) (source_markers (tokenize_lossless t)) [] None 0)"
    using assms by (simp add: split_units_def)
  from units_from_start [OF this] show ?thesis using significant_ordered that by force
qed

lemma member_after_unit:
  assumes "u \<in> set (si_units (new_index t))" "m \<in> set (un_members u)"
  shows "un_start u \<le> me_start m"
  using index_units_ok [of t] assms by (simp add: units_ok_def unit_ok_def members_in_def)

text \<open>The edits of a block whose tokens lie from \<open>low\<close> on, inserted before that token.\<close>

lemma storage_edits_ok:
  fixes t
  defines "ts \<equiv> si_significant (new_index t)"
  assumes t: "dget files f = Some t" and p: "pr_edits p = storage_edits f (new_index t) ins words b fresh ks"
    and b: "low \<le> sb_header b" "sb_header b < sb_end b" "sb_end b < length ts"
    and ks: "sorted_wrt (<) ks" "\<forall>k \<in> set ks. low \<le> k \<and> k < length ts \<and> (k < sb_header b \<or> sb_end b < k) \<and> is_word (ts ! k)"
    and ins: "ins \<le> lt_start (ts ! low)"
  shows "proposal_ok files p"
proof -
  have ord: "tokens_ordered ts" using significant_ordered by (simp add: ts_def)
  have bounds: "lt_start (ts ! k) < lt_end (ts ! k) \<and> lt_end (ts ! k) \<le> length t \<and> (low \<le> k \<longrightarrow> ins \<le> lt_start (ts ! k))"
    if "k < length ts" for k
    using token_bounds [of k t] that ordered_end_mono(2) [OF ord, of low k] ins by (auto simp: ts_def simp del: index_significant)
  have stop: "lt_end (ts ! sb_end b) \<le> sb_stop ts b" "sb_stop ts b \<le> length t"
    using bounds [of "sb_end b"] bounds [of "sb_end b + 1"] b(3) ordered_nth [OF ord, of "sb_end b" "sb_end b + 1"]
    by (auto simp: sb_stop_def span_end_def)
  have start: "ins \<le> sb_start ts b" "sb_start ts b < lt_end (ts ! sb_end b)"
    using bounds [of "sb_header b"] bounds [of "sb_end b"] b ordered_end_mono(2) [OF ord, of "sb_header b" "sb_end b"]
    by (auto simp: sb_start_def)
  have behind_block: "sb_stop ts b \<le> lt_start (ts ! k)" if k: "sb_end b < k" "k < length ts" "is_word (ts ! k)" for k
  proof (cases "k = sb_end b + 1")
    case True
    then have "lt_text (ts ! (sb_end b + 1)) \<noteq> '';''"
      using name_not_semicolon [of "ts ! k" t] nth_token [of k t] k by (simp add: ts_def del: index_significant)
    then show ?thesis using ordered_nth [OF ord k(1,2)] by (simp add: sb_stop_def span_end_def)
  next
    case False
    then have "sb_end b + 1 < k" using k(1) by simp
    then show ?thesis
      using ordered_nth [OF ord k(1,2)] ordered_nth [OF ord, of "sb_end b + 1" k] k(2) by (simp add: sb_stop_def span_end_def)
  qed
  define insert_edit where "insert_edit = hd (pr_edits p)"
  define comment_edit where "comment_edit = hd (tl (pr_edits p))"
  define use_edit where "use_edit = (\<lambda>k. token_edit f (ts ! k) (the (dget fresh (upper_of (ts ! k)))))"
  have p: "pr_edits p = insert_edit # comment_edit # map use_edit ks"
    and sel: "ed_start insert_edit = ins" "ed_end insert_edit = ins" "ed_move insert_edit = None" "ed_file insert_edit = f"
      "ed_start comment_edit = sb_start ts b" "ed_end comment_edit = sb_stop ts b" "ed_move comment_edit = None" "ed_file comment_edit = f"
    by (simp_all add: insert_edit_def comment_edit_def use_edit_def p storage_edits_def Let_def ts_def del: index_significant)
  show ?thesis
  proof (rule apart_edits_ok)
    have "placed_edit files insert_edit" "placed_edit files comment_edit"
      using t start stop by (auto simp: placed_edit_def sel)
    moreover have "\<forall>k \<in> set ks. placed_edit files (use_edit k)"
      using ks(2) bounds t by (auto simp: use_edit_def placed_edit_def less_imp_le)
    ultimately show "\<forall>a \<in> set (pr_edits p). placed_edit files a" by (simp add: p)
    have "before_edit insert_edit comment_edit" using start stop(1) by (simp add: before_edit_def sel)
    moreover have "\<forall>k \<in> set ks. before_edit insert_edit (use_edit k)"
      using ks(2) bounds by (auto simp: before_edit_def sel use_edit_def)
    moreover have "before_edit comment_edit (use_edit k) \<or> before_edit (use_edit k) comment_edit" if "k \<in> set ks" for k
    proof (cases "k < sb_header b")
      case True
      then have "lt_end (ts ! k) \<le> sb_start ts b" using ordered_nth [OF ord True] b by (simp add: sb_start_def)
      then show ?thesis using bounds ks(2) that by (simp add: before_edit_def sel use_edit_def)
    next
      case False
      then show ?thesis using behind_block [of k] bounds [of k] ks(2) that by (auto simp: before_edit_def sel use_edit_def)
    qed
    moreover have "sorted_wrt (\<lambda>i j. before_edit (use_edit i) (use_edit j) \<or> before_edit (use_edit j) (use_edit i)) ks"
      by (rule sorted_wrt_mono_rel [OF _ ks(1)]) (use ks(2) bounds ordered_nth [OF ord] in \<open>simp add: before_edit_def use_edit_def\<close>)
    ultimately show "sorted_wrt (\<lambda>a b. before_edit a b \<or> before_edit b a) (pr_edits p)" by (simp add: p sorted_wrt_map)
  qed
qed


lemma renamed_uses_spec:
  assumes "renamed_uses ts low high b fresh = Some ks" "high \<le> length ts"
  shows "sorted_wrt (<) ks \<and>
    (\<forall>k \<in> set ks. low \<le> k \<and> k < length ts \<and> (k < sb_header b \<or> sb_end b < k) \<and> is_word (ts ! k))"
  using assms by (auto simp: renamed_uses_def named_outside_def Let_def intro!: sorted_wrt_filter split: if_splits)

lemma storage_proposal_ok:
  fixes t
  defines "ts \<equiv> si_significant (new_index t)"
  assumes t: "dget files f = Some t" "rule_index cx f = new_index t"
    and p: "storage_proposal cx spec ending words f base ins low (significant_index (new_index t) stop) b = Inr (Some p, known)"
    and b: "block_at ts word offset (significant_index (new_index t) stop) [low..<significant_index (new_index t) stop] = Some b"
    and ins: "low < length ts \<Longrightarrow> ins \<le> lt_start (ts ! low)"
  shows "proposal_ok files p"
proof -
  let ?high = "significant_index (new_index t) stop"
  have high: "?high \<le> length ts" unfolding ts_def by (rule significant_index_le)
  obtain fresh ks where ks: "renamed_uses ts low ?high b fresh = Some ks"
    and p: "pr_edits p = storage_edits f (new_index t) ins words b fresh ks"
    using p by (auto simp: storage_proposal_def t(2) Let_def ts_def simp del: index_significant split: prod.splits)
  have bounds: "low \<le> sb_header b" "sb_header b < sb_end b" "sb_end b < length ts"
    using block_at_bounds [OF b] high by auto
  have ks: "sorted_wrt (<) ks"
    "\<forall>k \<in> set ks. low \<le> k \<and> k < length ts \<and> (k < sb_header b \<or> sb_end b < k) \<and> is_word (ts ! k)"
    using renamed_uses_spec [OF ks high] by blast+
  have "low < length ts" using bounds by simp
  then show ?thesis
    using storage_edits_ok [OF t(1) p bounds(1,2) bounds(3) [unfolded ts_def] ks(1) ks(2) [unfolded ts_def]] ins
    by (simp add: ts_def del: index_significant)
qed

lemma member_scope_mem: "member_scope u offset = Some m \<Longrightarrow> m \<in> set (un_members u)"
  by (auto simp: member_scope_def dest: find_mem)

text \<open>The tokens from where a unit or a member starts.\<close>

lemma unit_low:
  assumes "u \<in> set (si_units (new_index t))" "low = significant_index (new_index t) (un_start u)"
  shows "low < length (si_significant (new_index t))" "lt_start (si_significant (new_index t) ! low) = un_start u"
proof -
  obtain b where b: "b < length (si_significant (new_index t))" "un_start u = lt_start (si_significant (new_index t) ! b)"
    using unit_token [OF assms(1)] .
  then have "low = b" using assms(2) significant_index_start [OF refl b(1)] by (simp only:)
  then show "low < length (si_significant (new_index t))" "lt_start (si_significant (new_index t) ! low) = un_start u"
    using b by simp_all
qed

lemma member_low:
  assumes "u \<in> set (si_units (new_index t))" "m \<in> set (un_members u)" "low = significant_index (new_index t) (me_start m)"
  shows "low < length (si_significant (new_index t))" "lt_start (si_significant (new_index t) ! low) = me_start m"
proof -
  obtain b where "at_token (si_significant (new_index t)) m b" using member_tokens [OF assms(1,2)] by blast
  then have b: "b < length (si_significant (new_index t))" "me_start m = lt_start (si_significant (new_index t) ! b)"
    by (simp_all only: at_token_def)
  then have "low = b" using assms(3) significant_index_start [OF refl b(1)] by (simp only:)
  then show "low < length (si_significant (new_index t))" "lt_start (si_significant (new_index t) ! low) = me_start m"
    using b by simp_all
qed

lemma var_stat_global_keeps: "keeps_contract var_stat_global"
proof (rule keeps_contractI)
  fix files cx f t d p known
  assume t: "dget files f = Some t" "rule_index cx f = new_index t"
    and p: "rl_propose var_stat_global cx f (locate d (new_index t)) = Inr (Some p, known)"
  let ?si = "new_index t" and ?item = "locate d (new_index t)"
  obtain u where u: "lo_unit ?item = Some u"
    using p by (auto simp: var_stat_global_def propose_var_stat_def split: option.splits)
  have mem: "u \<in> set (si_units ?si)" by (rule located_unit_mem [OF u])
  let ?m = "member_scope u (lo_offset ?item)"
  define from_offset where "from_offset = (case ?m of None \<Rightarrow> un_start u | Some m \<Rightarrow> me_start m)"
  define to_offset where "to_offset = (case ?m of None \<Rightarrow> un_end u | Some m \<Rightarrow> me_end m)"
  define low where "low = significant_index ?si from_offset"
  define owner where "owner = (case ?m of None \<Rightarrow> [] | Some m \<Rightarrow> me_name m)"
  obtain b where b: "block_at (si_significant ?si) ''VAR_STAT'' (lo_offset ?item) (significant_index ?si to_offset)
      [low..<significant_index ?si to_offset] = Some b"
    and p: "storage_proposal cx VAR_STAT_GLOBAL ''__STAT'' ''VAR_GLOBAL'' f (\<lambda>name. base_of [un_name u, owner, name])
      (un_start u) low (significant_index ?si to_offset) b = Inr (Some p, known)"
    using p u unfolding var_stat_global_def propose_var_stat_def rewrite_rule.simps t(2) Let_def low_def from_offset_def to_offset_def owner_def
    by (simp del: index_significant set_upt split: if_splits) (simp del: index_significant set_upt split: option.splits)
  have "un_start u \<le> lt_start (si_significant ?si ! low)"
  proof (cases ?m)
    case None
    then show ?thesis using unit_low(2) [OF mem refl] by (simp add: low_def from_offset_def)
  next
    case (Some m)
    then show ?thesis using member_low(2) [OF mem member_scope_mem [OF Some] refl] member_after_unit [OF mem member_scope_mem [OF Some]]
      by (simp add: low_def from_offset_def)
  qed
  then show "proposal_ok files p" using storage_proposal_ok [OF t p b] by blast
qed

lemma member_insert_le:
  assumes "u \<in> set (si_units (new_index t))" "m \<in> set (un_members u)"
  shows "member_insert (new_index t) u \<le> me_start m"
proof -
  let ?ts = "si_significant (new_index t)" and ?first = "Min (me_start ` set (un_members u))"
  have ord: "tokens_ordered ?ts" using significant_ordered by simp
  have first: "?first \<le> me_start m" using assms(2) by simp
  have "?first \<in> me_start ` set (un_members u)" using assms(2) by (intro Min_in) auto
  then obtain m0 where m0: "m0 \<in> set (un_members u)" "me_start m0 = ?first" by auto
  show ?thesis
  proof (cases "find (\<lambda>k. is_word (?ts ! k) \<and> upper_of (?ts ! k) \<in> STORAGE_BLOCKS)
      [significant_index (new_index t) (un_start u) + 1..<significant_index (new_index t) ?first]")
    case None
    then show ?thesis using first by (simp add: member_insert_def Let_def del: index_significant set_upt)
  next
    case (Some k)
    have k: "k < significant_index (new_index t) ?first" using find_mem [OF Some] by simp
    have "lt_start (?ts ! k) < ?first"
      using ordered_starts [OF ord k [folded m0(2)]] member_low [OF assms(1) m0(1) refl] m0(2) by (simp del: index_significant)
    then show ?thesis using first Some by (simp add: member_insert_def Let_def del: index_significant set_upt)
  qed
qed

lemma var_inst_member_keeps: "keeps_contract var_inst_member"
proof (rule keeps_contractI)
  fix files cx f t d p known
  assume t: "dget files f = Some t" "rule_index cx f = new_index t"
    and p: "rl_propose var_inst_member cx f (locate d (new_index t)) = Inr (Some p, known)"
  let ?si = "new_index t" and ?item = "locate d (new_index t)"
  obtain u m b where u: "lo_unit ?item = Some u" and m: "member_scope u (lo_offset ?item) = Some m"
    and b: "block_at (si_significant ?si) ''VAR_INST'' (lo_offset ?item) (significant_index ?si (me_end m))
      [significant_index ?si (me_start m)..<significant_index ?si (me_end m)] = Some b"
    and p: "storage_proposal cx VAR_INST_MEMBER ''__INST'' ''VAR'' f (\<lambda>name. base_of [me_name m, name])
      (member_insert ?si u) (significant_index ?si (me_start m)) (significant_index ?si (me_end m)) b = Inr (Some p, known)"
    using p unfolding var_inst_member_def propose_var_inst_def rewrite_rule.simps t(2) Let_def
    by (simp del: index_significant set_upt split: option.splits if_splits) 
  have mem: "u \<in> set (si_units ?si)" by (rule located_unit_mem [OF u])
  have mm: "m \<in> set (un_members u)" by (rule member_scope_mem [OF m])
  have "member_insert ?si u \<le> lt_start (si_significant ?si ! significant_index ?si (me_start m))"
    using member_insert_le [OF mem mm] member_low(2) [OF mem mm refl] by (simp only:)
  then show "proposal_ok files p" using storage_proposal_ok [OF t p b] by blast
qed


section \<open>The namespaces keep the contract\<close>

lemma dotted_le: "i \<le> length ts \<Longrightarrow> snd (dotted ts i) \<le> length ts"
proof (induction ts i rule: dotted.induct)
  case (1 ts i)
  then show ?case by (subst dotted.simps) (cases "dotted ts (i + 2)"; auto)
qed

lemma dotted_parts: "k < length (fst (dotted ts i)) \<Longrightarrow> i + 2 * k < length ts"
proof (induction ts i arbitrary: k rule: dotted.induct)
  case (1 ts i)
  consider (a) "length ts \<le> i \<or> (lt_kind (ts ! i) \<noteq> ''cast_prefix'' \<and> \<not> is_word (ts ! i))"
    | (b) "i < length ts" "lt_kind (ts ! i) = ''cast_prefix'' \<or> \<not> (i + 1 < length ts \<and> lt_text (ts ! (i + 1)) = ''.'')"
    | (c) "i < length ts" "lt_kind (ts ! i) \<noteq> ''cast_prefix''" "is_word (ts ! i)" "i + 1 < length ts \<and> lt_text (ts ! (i + 1)) = ''.''"
    using not_le by blast
  then show ?case
  proof cases
    case a
    then show ?thesis using "1.prems" by (subst (asm) dotted.simps) (auto split: if_splits)
  next
    case b
    then show ?thesis using "1.prems" by (subst (asm) dotted.simps) (auto split: if_splits)
  next
    case c
    then have "fst (dotted ts i) = lt_text (ts ! i) # fst (dotted ts (i + 2))"
      by (subst dotted.simps) (simp split: prod.splits)
    then show ?thesis using "1.prems" "1.IH" [of "k - 1"] c by (cases k) auto
  qed
qed

lemma qualified_target_span:
  assumes "qualified_target definitions current (fst (dotted ts i)) = Some (k, target)"
  shows "i + 2 * (k - 1) < length ts"
proof -
  have "k \<in> set (rev [2..<length (fst (dotted ts i)) + 1])"
    using assms by (auto simp: qualified_target_def Let_def split: option.splits dest!: find_mem)
  then show ?thesis using dotted_parts [of "k - 1" ts i] by auto
qed

definition spans_from :: "nat \<Rightarrow> nat \<Rightarrow> (nat \<times> nat \<times> string) list \<Rightarrow> bool" where
  "spans_from i n l = ((\<forall>(a, b, r) \<in> set l. i \<le> a \<and> a \<le> b \<and> b < n) \<and> sorted_wrt (\<lambda>x y. fst (snd x) < fst y) l)"

lemma spans_from_Nil [simp]: "spans_from i n []"
  by (simp add: spans_from_def)

lemma spans_from_Cons: "i \<le> a \<Longrightarrow> a \<le> b \<Longrightarrow> b < n \<Longrightarrow> b < j \<Longrightarrow> spans_from j n l \<Longrightarrow> spans_from i n ((a, b, r) # l)"
  by (fastforce simp: spans_from_def)

lemma spans_from_later: "spans_from j n l \<Longrightarrow> i \<le> j \<Longrightarrow> spans_from i n l"
  by (fastforce simp: spans_from_def)

lemma flatten_semicolon:
  assumes "i < length ts" "lt_text (ts ! i) = '';''" "\<not> is_word (ts ! i)" "lt_kind (ts ! i) \<noteq> ''cast_prefix''"
  shows "\<exists>marks' usings'. flatten_from t ts definitions variables marks stack usings i =
    flatten_from t ts definitions variables marks' stack usings' (i + 1)"
  using assms by (subst flatten_from.simps) (auto simp: Let_def upper_of_def is_name_def)

lemma flatten_spans:
  assumes "\<forall>k < length ts. is_word (ts ! k) \<or> lt_kind (ts ! k) = ''cast_prefix'' \<longrightarrow> lt_text (ts ! k) \<noteq> '';''"
  shows "spans_from i (length ts) (flatten_from t ts definitions variables marks stack usings i)"
proof (induction "length ts - i" arbitrary: marks stack usings i rule: less_induct)
  case less
  have IH: "spans_from j (length ts) (flatten_from t ts definitions variables m s u j)" if "i < j" "i < length ts" for j m s u
    using less [of j] that by (simp add: diff_less_mono2)
  show ?case
  proof (cases "i < length ts")
    case True
    define later where "later = dropWhile (\<lambda>m. m < lt_start (ts ! i)) marks"
    define imported where "imported = (if length later < length marks then [] else usings)"
    obtain parts j where d: "dotted ts (i + 1) = (parts, j)" by fastforce
    have j: "i + 1 \<le> j" "j \<le> length ts" using dotted_ge [of "i + 1" ts] dotted_le [of "i + 1" ts] d True by auto
    note unfolded = flatten_from.simps [of t ts definitions variables marks stack usings i, unfolded Let_def, folded later_def, folded imported_def]
    consider (namespace) "upper_of (ts ! i) = ''NAMESPACE'' \<and> is_word (ts ! i)"
      | (closing) "upper_of (ts ! i) = ''END_NAMESPACE''" | (importing) "upper_of (ts ! i) = ''USING'' \<and> is_word (ts ! i)"
      | (name) "\<not> (upper_of (ts ! i) = ''NAMESPACE'' \<and> is_word (ts ! i))" "upper_of (ts ! i) \<noteq> ''END_NAMESPACE''"
          "\<not> (upper_of (ts ! i) = ''USING'' \<and> is_word (ts ! i))"
      by blast
    then show ?thesis
    proof cases
      case namespace
      have "flatten_from t ts definitions variables marks stack usings i = comment_of t ts i (j - 1) #
          flatten_from t ts definitions variables later (stack @ [join ''.'' parts]) imported j"
        using True namespace d by (simp only: unfolded) simp
      moreover have "spans_from j (length ts) (flatten_from t ts definitions variables later (stack @ [join ''.'' parts]) imported j)"
        using IH [of j] j True by simp
      ultimately show ?thesis using j by (simp add: comment_of_def) (rule spans_from_Cons; simp; linarith)
    next
      case closing
      let ?rest = "flatten_from t ts definitions variables later (butlast stack) imported (i + 1)"
      let ?stop = "if text_after ts i = '';'' then i + 1 else i"
      have e: "flatten_from t ts definitions variables marks stack usings i = comment_of t ts i ?stop # ?rest"
        using True closing by (simp only: unfolded) simp
      have "spans_from (?stop + 1) (length ts) ?rest \<and> ?stop < length ts"
      proof (cases "text_after ts i = '';''")
        case semi: True
        then have s: "i + 1 < length ts" "lt_text (ts ! (i + 1)) = '';''" by (auto simp: text_after_def split: if_splits)
        obtain m' u' where "?rest = flatten_from t ts definitions variables m' (butlast stack) u' (i + 1 + 1)"
          using flatten_semicolon [OF s] assms s by blast
        then show ?thesis using IH [of "i + 1 + 1"] True semi s(1) by simp
      next
        case False
        then show ?thesis using IH [of "i + 1"] True by simp
      qed
      then have rest: "spans_from (?stop + 1) (length ts) ?rest" "?stop < length ts" by blast+
      show ?thesis unfolding e comment_of_def by (rule spans_from_Cons [OF _ _ rest(2) _ rest(1)]) simp_all
    next
      case importing
      let ?stop = "if j < length ts \<and> lt_text (ts ! j) = '';'' then j else j - 1"
      have e: "flatten_from t ts definitions variables marks stack usings i = comment_of t ts i ?stop #
          flatten_from t ts definitions variables later stack (imported @ [join ''.'' parts]) (j + 1)"
        using True importing d by (simp only: unfolded) simp
      have "i \<le> ?stop" "?stop < length ts" "?stop < j + 1" using j by auto
      moreover have "i < j + 1" using j(1) by simp
      ultimately show ?thesis unfolding e comment_of_def using spans_from_Cons [OF order_refl _ _ _ IH] True by blast
    next
      case name
      show ?thesis
      proof (cases "is_name ts i")
        case False
        then have "flatten_from t ts definitions variables marks stack usings i =
            flatten_from t ts definitions variables later stack imported (i + 1)"
          using True name by (simp only: unfolded) auto
        then show ?thesis using spans_from_later [OF IH [of "i + 1"]] True by simp
      next
        case named: True
        show ?thesis
        proof (cases "qualified_target definitions (join ''.'' stack) (fst (dotted ts i))")
          case None
          then have e: "flatten_from t ts definitions variables marks stack usings i =
              (case short_target ts definitions variables (join ''.'' stack) imported i of
                 Some target \<Rightarrow> (i, i, target) # flatten_from t ts definitions variables later stack imported (i + 1)
               | None \<Rightarrow> flatten_from t ts definitions variables later stack imported (i + 1))"
            using True name named by (simp only: unfolded) auto
          have rest: "spans_from (i + 1) (length ts) (flatten_from t ts definitions variables later stack imported (i + 1))"
            using IH [of "i + 1"] True by simp
          show ?thesis
            unfolding e using spans_from_later [OF rest, of i] spans_from_Cons [OF _ _ True _ rest, of i] by (simp split: option.split)
        next
          case (Some kt)
          obtain k target where kt: "kt = (k, target)" by fastforce
          let ?last = "i + 2 * (k - 1)"
          obtain new where e: "flatten_from t ts definitions variables marks stack usings i =
              (i, ?last, new) # flatten_from t ts definitions variables later stack imported (?last + 1)"
            using True name named Some kt that by (simp only: unfolded) auto
          have "?last < length ts" using qualified_target_span Some kt by blast
          then show ?thesis unfolding e by (intro spans_from_Cons [OF order_refl _ _ _ IH] True) simp_all
        qed
      qed
    qed
  qed (simp add: flatten_from.simps)
qed


lemma namespace_flatten_keeps: "keeps_contract namespace_flatten"
proof (rule keeps_contractI)
  fix files cx f t d p known
  assume cx: "context_for files cx"
    and p: "rl_propose namespace_flatten cx f (locate d (new_index t)) = Inr (Some p, known)"
  have q: "pr_edits p = concat (map (flatten_edits (ax_definitions cx) (ax_variables cx)) (sort_key fst (cx_indices cx)))"
    using p by (auto simp: namespace_flatten_def propose_flatten_def Let_def split: option.splits if_splits)
  show "proposal_ok files p"
    using cx q
  proof (rule file_edits_ok)
    fix f t assume t: "dget files f = Some t"
    let ?ts = "si_significant (new_index t)"
    define l where "l = flatten_from t ?ts (ax_definitions cx) (ax_variables cx) (map fst (source_markers (si_tokens (new_index t)))) [] [] 0"
    define e where "e = (\<lambda>(i, j, r). mk_edit f (lt_start (?ts ! i)) (lt_end (?ts ! j)) r)"
    have es: "flatten_edits (ax_definitions cx) (ax_variables cx) (f, new_index t) = map e l"
      by (simp add: flatten_edits_def l_def e_def Let_def)
    have ord: "tokens_ordered ?ts" using significant_ordered by simp
    have "spans_from 0 (length ?ts) l"
      unfolding l_def by (rule flatten_spans) (use name_not_semicolon nth_token in blast)
    then have l: "\<And>i j r. (i, j, r) \<in> set l \<Longrightarrow> i \<le> j \<and> j < length ?ts" "sorted_wrt (\<lambda>x y. fst (snd x) < fst y) l"
      by (auto simp: spans_from_def)
    have span: "lt_start (?ts ! i) < lt_end (?ts ! j) \<and> lt_end (?ts ! j) \<le> length t" if "i \<le> j" "j < length ?ts" for i j
      using ordered_end_mono(2) [OF ord that] token_bounds [OF that(2)] by simp
    have "ed_file a = f \<and> placed_edit files a" if a: "a \<in> set (map e l)" for a
    proof -
      obtain i j r where r: "(i, j, r) \<in> set l" "a = e (i, j, r)" using a by (auto simp del: split_paired_All)
      then show ?thesis using span [of i j] l(1) [OF r(1)] t by (simp add: e_def placed_edit_def)
    qed
    moreover have "sorted_wrt before_edit (map e l)"
      unfolding sorted_wrt_map
    proof (rule sorted_wrt_mono_rel [OF _ l(2)])
      fix x y assume xy: "x \<in> set l" "y \<in> set l" "fst (snd x) < fst y"
      obtain i j r i' j' r' where s: "x = (i, j, r)" "y = (i', j', r')" by (metis prod_cases3)
      have b: "j < i'" "i' \<le> j'" "j' < length ?ts" using xy l(1) by (auto simp: s)
      have "lt_end (?ts ! j) \<le> lt_start (?ts ! i')" using ordered_nth [OF ord b(1)] b by simp
      then show "before_edit (e x) (e y)" using span [OF b(2,3)] by (simp add: before_edit_def e_def s)
    qed
    ultimately show "(\<forall>a \<in> set (flatten_edits (ax_definitions cx) (ax_variables cx) (f, new_index t)). ed_file a = f \<and> placed_edit files a) \<and>
        sorted_wrt before_edit (flatten_edits (ax_definitions cx) (ax_variables cx) (f, new_index t))"
      unfolding es by blast
  qed
qed

section \<open>What the rules raise\<close>

lemma storage_proposal_error [index_only_intros]:
  "index_only (storage_proposal cx spec ending words f base ins low high b)"
  by (simp add: storage_proposal_def Let_def index_only_intros)

lemma project_rules_raise:
  "raises_index_only var_stat_global" "raises_index_only var_inst_member" "raises_index_only namespace_flatten"
  by (simp_all add: raises_index_only_def Let_def var_stat_global_def propose_var_stat_def var_inst_member_def
      propose_var_inst_def namespace_flatten_def propose_flatten_def index_only_intros)

definition PROJECT_RULES :: "rewrite_rule list" where
  "PROJECT_RULES = [namespace_flatten, var_stat_global, var_inst_member]"

lemmas project_rules_keep = namespace_flatten_keeps var_stat_global_keeps var_inst_member_keeps

interpretation project: rule_set PROJECT_RULES
  by unfold_locales (auto simp: PROJECT_RULES_def intro: project_rules_keep project_rules_raise)

end
