(* ===== verification/Rule_Registry.thy ===== *)
theory Rule_Registry
  imports Structure_Rules Project_Rules
begin

text \<open>
  The rules modelled here in the order of the registry (\<^verbatim>\<open>compiler/intake/normalize/rules/__init__.py\<close>),
  and what the normalization engine promises with them.
\<close>

definition MODELLED_RULES :: "rewrite_rule list" where
  "MODELLED_RULES =
     [var_block_constant, array_brackets, keyword_rename, collision_rename, access_modifier, member_reorder,
      property_accessors, export_library, block_attributes, quoted_identifier, local_prefix, type_colon, begin_separator,
      organization_block, const_inline, standard_formal_arguments, typed_literal_prefix, region, time_literal,
      library_qualifier, namespace_flatten, section_reorder, var_stat_global, var_inst_member, elseif_keyword,
      end_block_keyword, chained_rule, header_semicolon, empty_struct, shift_literal_dword, case_else_colon]"

lemma modelled_rules_set: "set MODELLED_RULES = set COMMON_RULES \<union> set CODESYS_RULES \<union> set STRUCTURE_RULES
    \<union> set SCL_RULES \<union> set SCL_BLOCK_RULES \<union> set PROJECT_RULES"
  by (auto simp: MODELLED_RULES_def COMMON_RULES_def CODESYS_RULES_def STRUCTURE_RULES_def SCL_RULES_def
      SCL_BLOCK_RULES_def PROJECT_RULES_def)

interpretation modelled: rule_set MODELLED_RULES
  by unfold_locales
    (auto simp: modelled_rules_set intro: common.keeps common.raises codesys.keeps codesys.raises
      structural.keeps structural.raises scl.keeps scl.raises scl_blocks.keeps scl_blocks.raises project.keeps project.raises)

lemma normalize_index_only:
  assumes "set (ev_rules env) \<subseteq> set MODELLED_RULES" "paths_ok env files"
  shows "index_only (normalize env files)"
proof -
  obtain st where st: "initial_state env files = Inr st" using initial_state_total by blast
  have "index_only (norm_rounds env MAX_ROUNDS 0 st)"
    unfolding index_only_def using modelled.rounds_sound [OF assms initial_run_ok [OF st]] by blast
  then show ?thesis by (simp add: normalize_def st index_only_intros)
qed

text \<open>
  (C3) With any selection of the modelled rules, the engine never rejects one of their edits: a run
  either returns a result or stops on a rule that reads a token past the end of a file. No edit lies
  outside its file, no two accepted edits overlap, no move is combined with another edit and no edit
  names an unknown file, so none of the errors of the edit operations is ever raised.
\<close>

theorem normalize_rejects_no_edit:
  assumes "set (ev_rules env) \<subseteq> set MODELLED_RULES" "paths_ok env files"
  shows "(\<exists>r. normalize env files = Inr r) \<or> normalize env files = Inl IndexErr"
  using normalize_index_only [OF assms] by (cases "normalize env files") (auto simp: index_only_def)

lemma normalize_rejects_no_edit_witness:
  "\<exists>out. normalize (demo_norm_env\<lparr>ev_rules := MODELLED_RULES\<rparr>) [(''f'', ''PROGRAM P'')] = out \<and>
    (\<forall>err. out \<noteq> Inl (EditErr err))"
  using normalize_rejects_no_edit [of "demo_norm_env\<lparr>ev_rules := MODELLED_RULES\<rparr>" "[(''f'', ''PROGRAM P'')]"]
  by (auto simp: paths_ok_def dict_ok_def demo_norm_env_def)

end
