(* ===== verification/Stg_Expr.thy ===== *)
theory Stg_Expr
  imports Llm_Plan Complex_Main
begin

text \<open>
  Expressions of the semantic transition graph as exchange JSON (\<open>fuzzer/pipeline/analysis.py\<close>),
  the integer range of an ABI type (\<open>fuzzer/pipeline/model.py\<close>) and the conditions read off a
  guard (\<open>fuzzer/pipeline/goal_tasks.py\<close>). The exchange documents are taken to have the shapes the
  exporter writes: a value of another shape reads like an absent one. A float is the decimal text
  it was read from; arithmetic on it is that of the rational it denotes.
\<close>

section \<open>Access to documents\<close>

text \<open>\<open>d.get(key) or {}\<close>, \<open>d.get(key) or []\<close>, \<open>str(d.get(key) or "")\<close>.\<close>

definition obj_at :: "(string, json) dict \<Rightarrow> string \<Rightarrow> (string, json) dict" where
  "obj_at d k = obj_of (jget d k)"

definition list_at :: "(string, json) dict \<Rightarrow> string \<Rightarrow> json list" where
  "list_at d k = list_of (jget d k)"

definition shown_at :: "(string, json) dict \<Rightarrow> string \<Rightarrow> string" where
  "shown_at d k = (if truthy (jget d k) then py_str (jget d k) else [])"

fun is_numeric :: "json \<Rightarrow> bool" where
  "is_numeric (JBool b) = True"
| "is_numeric (JInt i) = True"
| "is_numeric (JFloat r) = True"
| "is_numeric _ = False"

text \<open>The rational a number denotes: a float is the double nearest to its text.\<close>

definition decimal_value :: "string \<Rightarrow> rat option" where
  "decimal_value r = (case parse_float r of
     Some (Decimal m e) \<Rightarrow>
       (let pq = to_double (if e \<ge> 0 then (m * 10 ^ nat e, 1) else (m, 10 ^ nat (- e)))
        in if double_overflow pq then None
           else Some (of_int (fst (split_sign (strip r))) * of_int (fst pq) / of_int (snd pq)))
   | _ \<Rightarrow> None)"

fun number_of :: "json \<Rightarrow> rat option" where
  "number_of (JInt i) = Some (of_int i)"
| "number_of (JBool b) = Some (if b then 1 else 0)"
| "number_of (JFloat r) = decimal_value r"
| "number_of _ = None"

text \<open>\<open>int(x)\<close> int_parts toward zero.\<close>

definition int_part :: "rat \<Rightarrow> int" where
  "int_part x = (if 0 \<le> x then \<lfloor>x\<rfloor> else \<lceil>x\<rceil>)"

section \<open>Expressions\<close>

definition expr_kind :: "(string, json) dict \<Rightarrow> (string, json) dict" where
  "expr_kind e = obj_at e ''kind''"

definition after_last_dot :: "string \<Rightarrow> string" where
  "after_last_dot s = rev (takeWhile (\<lambda>c. c \<noteq> CHR ''.'') (rev s))"

definition member_name :: "(string, json) dict \<Rightarrow> string option" where
  "member_name e =
     (if jget (expr_kind e) ''kind'' = JStr ''member_access'' then Some (py_str (jget (expr_kind e) ''member''))
      else if jget (expr_kind e) ''kind'' = JStr ''variable'' then
        (case jget (expr_kind e) ''qualified_name'' of JStr s \<Rightarrow> Some (after_last_dot s) | _ \<Rightarrow> None)
      else None)"

definition literal :: "(string, json) dict \<Rightarrow> json" where
  "literal e =
     (if jget (expr_kind e) ''kind'' \<noteq> JStr ''literal'' then JNull
      else case jget (expr_kind e) ''value'' of
        JObj v \<Rightarrow>
          (case jget v ''value'' of
             JStr s \<Rightarrow>
               (case int_base0 s of
                  Some i \<Rightarrow> JInt i
                | None \<Rightarrow> if parse_float s \<noteq> None then JFloat s else JStr s)
           | raw \<Rightarrow> raw)
      | _ \<Rightarrow> JNull)"

text \<open>Equality of numbers across their types, as the members of a Python set are compared.\<close>

definition same_number :: "json \<Rightarrow> json \<Rightarrow> bool" where
  "same_number a b = (a = b \<or> (number_of a \<noteq> None \<and> number_of a = number_of b))"

definition add_number :: "json \<Rightarrow> json list \<Rightarrow> json list" where
  "add_number v found =
     (if is_numeric v \<and> (\<forall>w \<in> set found. \<not> same_number v w) then found @ [v] else found)"

fun literals_in :: "json \<Rightarrow> json list \<Rightarrow> json list" where
  "literals_in (JObj d) found = foldl (\<lambda>acc kv. literals_in (snd kv) acc) (add_number (literal d) found) d"
| "literals_in (JList xs) found = foldl (\<lambda>acc x. literals_in x acc) found xs"
| "literals_in _ found = found"

definition collect_literals :: "json \<Rightarrow> json list" where
  "collect_literals model = literals_in model []"

definition load_stg_types :: "(string, json) dict \<Rightarrow> (string, (string, json) dict) dict" where
  "load_stg_types data =
     dict_of (concat (map (\<lambda>pou.
       concat (map (\<lambda>ty. (let name = py_upper (py_str (jget_or (obj_of ty) ''name'' (JStr []))) in
                          if name = [] then [] else [(name, obj_of ty)]))
         (list_at (obj_at (obj_of pou) ''environment'') ''types'')))
       (list_at data ''pous'')))"

section \<open>Integer ranges\<close>

definition UNSIGNED_TYPES :: "string list" where
  "UNSIGNED_TYPES = [''USINT'', ''BYTE'', ''CHAR'', ''UINT'', ''WORD'', ''WCHAR'', ''UDINT'', ''DWORD'',
     ''ULINT'', ''LWORD'']"

definition int_at :: "(string, json) dict \<Rightarrow> string \<Rightarrow> int" where
  "int_at d k = (case py_int (jget d k) of Some i \<Rightarrow> i | None \<Rightarrow> 0)"

definition type_bounds :: "(string, json) dict \<Rightarrow> (int \<times> int) option" where
  "type_bounds spec =
     (if jget spec ''kind'' \<noteq> JStr ''scalar'' then None
      else let name = py_str (jget_or spec ''name'' (JStr [])) in
        if name = ''BOOL'' then Some (0, 1)
        else if name \<in> {''REAL'', ''LREAL''} then None
        else let bits = int_at spec ''size'' * 8 in
          if bits \<le> 0 then None
          else if starts_with ''u'' (shown_at spec ''c_type'') \<or> name \<in> set UNSIGNED_TYPES
          then Some (0, 2 ^ nat bits - 1)
          else Some (- (2 ^ nat (bits - 1)), 2 ^ nat (bits - 1) - 1))"

definition bounded_integer :: "(string, json) dict \<Rightarrow> int \<Rightarrow> int" where
  "bounded_integer spec v =
     (case type_bounds spec of None \<Rightarrow> v | Some (lo, hi) \<Rightarrow> max lo (min hi v))"

text \<open>The initial value of an action field (\<open>default_for_spec\<close> of a spec dictionary).\<close>

definition spec_start :: "(string, json) dict \<Rightarrow> string" where
  "spec_start spec = default_for_spec (str_of (jget spec ''kind'')) (str_of (jget spec ''name''))"

section \<open>Conditions of a guard\<close>

record condition =
  cn_field :: string
  cn_op :: string
  cn_const :: json

definition COMPARISONS :: "string list" where
  "COMPARISONS = [''='', ''=='', ''<>'', ''!='', ''>'', ''>='', ''<'', ''<='']"

definition mirror :: "string \<Rightarrow> string" where
  "mirror op = (if op = ''>'' then ''<'' else if op = ''>='' then ''<='' else if op = ''<'' then ''>''
     else if op = ''<='' then ''>='' else op)"

definition comparison_of :: "string \<Rightarrow> (string, json) dict \<Rightarrow> (string, json) dict \<Rightarrow> condition list" where
  "comparison_of op left right =
     (let (field, constant, op) =
        (if member_name left = None \<and> literal left \<noteq> JNull
         then (member_name right, literal left, mirror op)
         else (member_name left, literal right, op))
      in case field of
           Some f \<Rightarrow> if f \<noteq> [] \<and> is_numeric constant
             then [\<lparr>cn_field = f, cn_op = op, cn_const = constant\<rparr>] else []
         | None \<Rightarrow> [])"

function conditions :: "json \<Rightarrow> condition list" where
  "conditions (JObj e) =
     (let kind = expr_kind e; operands = list_of (jget e ''operands'') in
      (if jget kind ''kind'' = JStr ''binary'' \<and> jget kind ''operator'' \<in> set (map JStr COMPARISONS)
          \<and> 2 \<le> length operands
       then comparison_of (str_of (jget kind ''operator'')) (obj_of (operands ! 0)) (obj_of (operands ! 1))
       else []) @
      (case jget e ''operands'' of JList xs \<Rightarrow> concat (map conditions xs) | _ \<Rightarrow> []))"
| "conditions JNull = []"
| "conditions (JBool b) = []"
| "conditions (JInt i) = []"
| "conditions (JFloat r) = []"
| "conditions (JStr t) = []"
| "conditions (JList xs) = []"
  by pat_completeness auto
termination
proof (relation "measure size")
  fix e xs x
  assume "jget e ''operands'' = JList xs" "x \<in> set xs"
  then have "size (JList xs) < size (JObj e)" using size_jget by blast
  then show "(x, JObj e) \<in> measure size"
    using size_list_estimation' [OF \<open>x \<in> set xs\<close> order_refl, of size] by simp
qed simp

text \<open>
  The value that is to meet a condition. A real is printed by \<open>float_text\<close>, the shortest decimal of
  a double; an infinite or undefined constant raises.
\<close>

definition condition_value ::
    "(rat \<Rightarrow> string) \<Rightarrow> (string, json) dict \<Rightarrow> string \<Rightarrow> json \<Rightarrow> string option" where
  "condition_value float_text spec op constant =
     map_option (\<lambda>c. let v = c + (if op = ''>'' then 1 else 0) in
         if jget spec ''name'' \<in> {JStr ''REAL'', JStr ''LREAL''} then float_text v
         else show_int (bounded_integer spec (int_part v)))
       (number_of constant)"

section \<open>Facts\<close>

lemma type_bounds_ordered: "type_bounds spec = Some (lo, hi) \<Longrightarrow> lo \<le> hi"
proof -
  have "- (2 ^ n) \<le> (2 ^ n :: int) - 1" for n using one_le_power [of "2 :: int" n] by simp
  then show "type_bounds spec = Some (lo, hi) \<Longrightarrow> lo \<le> hi"
    by (auto simp: type_bounds_def Let_def split: if_splits)
qed

lemma bounded_integer_in:
  "type_bounds spec = Some (lo, hi) \<Longrightarrow> lo \<le> bounded_integer spec v \<and> bounded_integer spec v \<le> hi"
  using type_bounds_ordered [of spec lo hi] by (auto simp: bounded_integer_def)

lemma bounded_integer_id:
  "(\<And>lo hi. type_bounds spec = Some (lo, hi) \<Longrightarrow> lo \<le> v \<and> v \<le> hi) \<Longrightarrow> bounded_integer spec v = v"
  by (auto simp: bounded_integer_def split: option.splits)

text \<open>What a condition says of the value of its field.\<close>

definition compares :: "string \<Rightarrow> rat \<Rightarrow> rat \<Rightarrow> bool" where
  "compares op x c =
     (if op \<in> {''='', ''==''} then x = c else if op \<in> {''<>'', ''!=''} then x \<noteq> c
      else if op = ''<'' then x < c else if op = ''<='' then x \<le> c
      else if op = ''>'' then x > c else if op = ''>='' then x \<ge> c else False)"

lemma mirror_compares: "op \<in> set COMPARISONS \<Longrightarrow> compares (mirror op) x c \<longleftrightarrow> compares op c x"
  by (auto simp: COMPARISONS_def compares_def mirror_def)

end
