(* ===== verification/Goal_Tasks.thy ===== *)
theory Goal_Tasks
  imports Stg_Expr "HOL-Library.Sublist"
begin

text \<open>
  The goal tasks of a campaign (\<open>fuzzer/pipeline/goal_tasks.py\<close>): whether one scan cycle is enough
  to test the target, the choice of planned prefixes, and the state and timers of a task. The main
  result is that a target is treated as single-cycle only when nothing it can call keeps state.
\<close>

section \<open>Effects of a cycle\<close>

record effects =
  ef_reasons :: "string set"
  ef_unknown :: "string set"

definition add_reason :: "string \<Rightarrow> effects \<Rightarrow> effects" where
  "add_reason r e = e\<lparr>ef_reasons := insert r (ef_reasons e)\<rparr>"

definition add_unknown :: "string \<Rightarrow> effects \<Rightarrow> effects" where
  "add_unknown r e = e\<lparr>ef_unknown := insert r (ef_unknown e)\<rparr>"

definition add_if :: "bool \<Rightarrow> (effects \<Rightarrow> effects) \<Rightarrow> effects \<Rightarrow> effects" where
  "add_if b f e = (if b then f e else e)"

text \<open>
  An assignment through a pointer: the statement is read from its source file, at most 4096 bytes.
  The file system is the parameter \<open>files\<close>; a missing file is \<open>OSError\<close>.
\<close>

fun is_plain_int :: "json \<Rightarrow> bool" where
  "is_plain_int (JInt i) = True"
| "is_plain_int _ = False"

fun int_of :: "json \<Rightarrow> int" where
  "int_of (JInt i) = i"
| "int_of _ = 0"

definition pointer_store :: "(string \<Rightarrow> string option) \<Rightarrow> (string, json) dict \<Rightarrow> bool" where
  "pointer_store files operation =
     (let source = obj_at operation ''source''; path = jget source ''file'';
          first = jget source ''start_offset''; limit = jget source ''end_offset'' in
      if jget operation ''kind'' \<noteq> JStr ''assign'' then False
      else if \<not> is_str path \<or> \<not> ends_with ''.st'' (py_lower (str_of path)) \<or> \<not> is_plain_int first \<or>
        \<not> is_plain_int limit \<or> int_of first < 0 \<or>
        \<not> (int_of first < int_of limit \<and> int_of limit \<le> int_of first + 4096) then False
      else case files (str_of path) of
        None \<Rightarrow> False
      | Some content \<Rightarrow>
          (let statement = take (nat (int_of limit - int_of first)) (drop (nat (int_of first)) content);
               assigns = (\<lambda>i. take 2 (drop i statement) = '':='');
               splits = filter assigns [0..<length statement] in
           splits \<noteq> [] \<and> CHR ''^'' \<in> set (take (hd splits) statement)))"

definition entry_effects :: "(string, json) dict \<Rightarrow> effects \<Rightarrow> effects" where
  "entry_effects entry e =
     (let block = jget entry ''block_kind'' in
      add_if (block \<in> {JStr ''VAR'', JStr ''VAR_GLOBAL'', JStr ''VAR_EXTERNAL''})
          (add_reason ''persistent_or_shared_state'')
        (add_if (jget (obj_at entry ''spec'') ''kind'' = JStr ''pointer'') (add_unknown ''pointer_effect_unresolved'')
          (add_if (block = JStr ''VAR_IN_OUT'') (add_reason ''var_in_out'') e)))"

type_synonym pous = "(string, (string, json) dict) dict"

definition pous_by_name :: "json list \<Rightarrow> pous" where
  "pous_by_name items =
     dict_of (concat (map (\<lambda>item. let pou = obj_at (obj_of item) ''pou'' in
       concat (map (\<lambda>v. if truthy v then [(py_upper (py_str v), obj_of item)] else [])
         [jget pou ''name'', jget pou ''qualified_name''])) items))"

definition pou_operations :: "(string, json) dict \<Rightarrow> (string, json) dict list" where
  "pou_operations pou =
     concat (map (\<lambda>edge. map obj_of (list_at (obj_at (obj_of edge) ''transfer'') ''operations''))
       (list_at (obj_at pou ''graph'') ''edges''))"

definition symbol_effects :: "bool \<Rightarrow> effects \<Rightarrow> json \<Rightarrow> effects" where
  "symbol_effects is_root e symbol =
     (let role = py_lower (shown_at (obj_of symbol) ''role'') in
      if role = ''in_out'' \<and> \<not> is_root then add_unknown ''callee_inout_alias_unresolved'' e
      else if role \<in> {''persistent_state'', ''in_out''} \<or>
          (role \<in> {''global'', ''external''} \<and> \<not> truthy (jget (obj_of symbol) ''constant''))
        then add_reason role e
      else e)"

definition STATEFUL_DOMAINS :: "string list" where
  "STATEFUL_DOMAINS = [''clock'', ''io'', ''persistent_state'', ''shared_state'']"

definition call_is_stateful :: "(string, json) dict \<Rightarrow> bool" where
  "call_is_stateful call =
     (\<exists>v \<in> set (list_at call ''effect_domains''). py_lower (py_str v) \<in> set STATEFUL_DOMAINS)"

definition callee_name :: "(string, json) dict \<Rightarrow> string" where
  "callee_name call = py_upper (shown_at call ''callee'')"

definition pou_calls :: "(string, json) dict \<Rightarrow> (string, json) dict list" where
  "pou_calls pou = map obj_of (list_at (obj_at pou ''environment'') ''calls'')"

definition pou_symbols :: "(string, json) dict \<Rightarrow> json list" where
  "pou_symbols pou = list_at (obj_at pou ''environment'') ''symbols''"

text \<open>What \<open>inspect\<close> notes of a unit before and after its calls.\<close>

definition before_calls :: "(string \<Rightarrow> string option) \<Rightarrow> bool \<Rightarrow> (string, json) dict \<Rightarrow> effects \<Rightarrow> effects" where
  "before_calls files is_root pou e =
     foldl (symbol_effects is_root)
       (add_if (\<exists>op \<in> set (pou_operations pou). pointer_store files op) (add_reason ''pointer_write'')
         (add_if (jget (obj_at pou ''pou'') ''kind'' \<noteq> JStr ''function'')
            (add_unknown ''callee_instance_effects_unresolved'') e))
       (pou_symbols pou)"

definition after_calls :: "(string, json) dict \<Rightarrow> effects \<Rightarrow> effects" where
  "after_calls pou e = add_if (truthy (jget (obj_at pou ''pou'') ''stateful'')) (add_reason ''stg_stateful'') e"

text \<open>
  \<open>inspect\<close> follows the calls that are not external. The names being visited are keys of \<open>by_name\<close>
  and none is visited twice on a way, which ends the recursion.
\<close>

function inspect :: "(string \<Rightarrow> string option) \<Rightarrow> pous \<Rightarrow> string \<Rightarrow> string list \<Rightarrow> string \<Rightarrow> effects \<Rightarrow> effects" where
  "inspect files by_name target visiting name e =
     (case dget by_name name of
        None \<Rightarrow> add_unknown ''callee_effects_unavailable'' e
      | Some pou \<Rightarrow>
          if name \<in> set visiting then add_unknown ''recursive_call_effects_unresolved'' e
          else
            after_calls pou
              (foldl (\<lambda>e call.
                 let e = add_if (call_is_stateful call) (add_reason ''stateful_or_io_call'') e in
                 if truthy (jget call ''external'') then add_unknown ''callee_effects_unavailable'' e
                 else inspect files by_name target (name # visiting) (callee_name call)
                   (add_if (truthy (jget call ''writes'') \<and> \<not> dmem (callee_name call) by_name)
                      (add_unknown ''callee_write_targets_unresolved'') e))
               (before_calls files (name = target) pou e) (pou_calls pou)))"
  by pat_completeness auto
termination
proof (relation "measure (\<lambda>(files, by_name, target, visiting, name, e). card (set (dkeys by_name) - set visiting))")
  fix files :: "string \<Rightarrow> string option" and by_name :: pous and target name :: string and visiting :: "string list"
    and e e' :: effects and c pou :: "(string, json) dict" and n :: string
  assume "dget by_name name = Some pou" "name \<notin> set visiting"
  then have "name \<in> set (dkeys by_name) - set visiting" by (auto dest!: map_of_SomeD intro: rev_image_eqI)
  then have "card (set (dkeys by_name) - set (name # visiting)) < card (set (dkeys by_name) - set visiting)"
    by (intro psubset_card_mono) auto
  then show "((files, by_name, target, name # visiting, n, e'), (files, by_name, target, visiting, name, e)) \<in>
      measure (\<lambda>(files, by_name, target, visiting, name, e). card (set (dkeys by_name) - set visiting))"
    by simp
qed simp

declare inspect.simps [simp del]

record abi_document =
  ad_target :: "(string, json) dict"
  ad_frame_fields :: "(string, json) dict list"
  ad_shared_fields :: "(string, json) dict list"
  ad_state_fields :: "(string, json) dict list"

definition abi_effects :: "abi_document \<Rightarrow> effects" where
  "abi_effects abi =
     add_if (\<exists>entry \<in> set (ad_shared_fields abi). jget entry ''block_kind'' = JStr ''VAR_OUTPUT'')
       (add_reason ''by_reference_output'')
       (foldl (\<lambda>e entry. entry_effects entry e)
         (add_if (jget (ad_target abi) ''kind'' \<noteq> JStr ''FUNCTION'') (add_unknown ''instance_effects_unresolved'')
           \<lparr>ef_reasons = {}, ef_unknown = {}\<rparr>)
         (ad_frame_fields abi @ ad_shared_fields abi @ ad_state_fields abi))"

definition target_name :: "abi_document \<Rightarrow> string" where
  "target_name abi = py_upper (shown_at (ad_target abi) ''name'')"

definition collected_effects :: "(string \<Rightarrow> string option) \<Rightarrow> abi_document \<Rightarrow> (string, json) dict option \<Rightarrow> effects" where
  "collected_effects files abi stg_model =
     (case stg_model of
        None \<Rightarrow> add_unknown ''stg_effects_unavailable'' (abi_effects abi)
      | Some model \<Rightarrow>
          (let by_name = pous_by_name (list_at model ''pous'') in
           if \<not> dmem (target_name abi) by_name then add_unknown ''target_effects_unavailable'' (abi_effects abi)
           else inspect files by_name (target_name abi) [] (target_name abi) (abi_effects abi)))"

record cycle_effects =
  ce_mode :: string
  ce_reasons :: "string list"
  ce_unknown :: "string list"
  ce_resolution :: json

definition cycle_mode :: "effects \<Rightarrow> string" where
  "cycle_mode e = (if ef_reasons e \<noteq> {} then ''multi_cycle'' else if ef_unknown e \<noteq> {} then ''unknown''
     else ''single_cycle'')"

definition cycle_effects :: "(string \<Rightarrow> string option) \<Rightarrow> abi_document \<Rightarrow> (string, json) dict option \<Rightarrow> cycle_effects" where
  "cycle_effects files abi stg_model =
     (let e = collected_effects files abi stg_model in
      \<lparr>ce_mode = cycle_mode e, ce_reasons = sorted_list_of_set (ef_reasons e),
       ce_unknown = sorted_list_of_set (ef_unknown e),
       ce_resolution = (case stg_model of None \<Rightarrow> JNull | Some m \<Rightarrow>
         if truthy (jget m ''effect_resolution'') then jget m ''effect_resolution'' else JNull)\<rparr>)"

subsection \<open>Single-cycle targets keep no state\<close>

definition clean :: "effects \<Rightarrow> bool" where
  "clean e = (ef_reasons e = {} \<and> ef_unknown e = {})"

lemma clean_add [simp]: "\<not> clean (add_reason r e)" "\<not> clean (add_unknown r e)"
  by (auto simp: clean_def add_reason_def add_unknown_def)

lemma clean_add_if [simp]:
  "clean (add_if b (add_reason r) e) \<longleftrightarrow> \<not> b \<and> clean e" "clean (add_if b (add_unknown r) e) \<longleftrightarrow> \<not> b \<and> clean e"
  by (auto simp: add_if_def)

lemma clean_foldl:
  assumes "clean (foldl g e cs)" "\<And>e c. c \<in> set cs \<Longrightarrow> clean (g e c) \<Longrightarrow> clean e \<and> P c"
  shows "clean e \<and> (\<forall>c \<in> set cs. P c)"
  using assms
proof (induction cs arbitrary: e)
  case (Cons c cs)
  have "clean (g e c) \<and> (\<forall>c \<in> set cs. P c)"
    by (rule Cons.IH) (use Cons.prems in auto)
  then show ?case using Cons.prems(2) [of c e] by simp
qed simp

definition symbol_quiet :: "bool \<Rightarrow> json \<Rightarrow> bool" where
  "symbol_quiet is_target symbol =
     (let role = py_lower (shown_at (obj_of symbol) ''role'') in
      role \<noteq> ''in_out'' \<and> role \<noteq> ''persistent_state'' \<and>
      (role \<in> {''global'', ''external''} \<longrightarrow> truthy (jget (obj_of symbol) ''constant'')))"

text \<open>
  A quiet unit is a function that writes through no pointer, has no persistent, shared or in-out
  symbol and whose calls are neither stateful nor external.
\<close>

definition quiet :: "(string \<Rightarrow> string option) \<Rightarrow> bool \<Rightarrow> (string, json) dict \<Rightarrow> bool" where
  "quiet files is_target pou =
     (jget (obj_at pou ''pou'') ''kind'' = JStr ''function'' \<and> \<not> truthy (jget (obj_at pou ''pou'') ''stateful'') \<and>
      (\<forall>op \<in> set (pou_operations pou). \<not> pointer_store files op) \<and>
      (\<forall>symbol \<in> set (pou_symbols pou). symbol_quiet is_target symbol) \<and>
      (\<forall>call \<in> set (pou_calls pou). \<not> call_is_stateful call \<and> \<not> truthy (jget call ''external'')))"

definition callees :: "pous \<Rightarrow> string \<Rightarrow> string set" where
  "callees by_name n = (case dget by_name n of
     None \<Rightarrow> {}
   | Some pou \<Rightarrow> callee_name ` {call \<in> set (pou_calls pou). \<not> truthy (jget call ''external'')})"

fun call_chain :: "pous \<Rightarrow> string list \<Rightarrow> bool" where
  "call_chain by_name (a # b # ns) = (b \<in> callees by_name a \<and> call_chain by_name (b # ns))"
| "call_chain by_name ns = True"

lemma symbol_effects_clean: "clean (symbol_effects b e s) \<Longrightarrow> clean e \<and> symbol_quiet b s"
  by (cases b) (auto simp: symbol_effects_def symbol_quiet_def Let_def split: if_splits)

lemma before_calls_clean:
  assumes "clean (before_calls files b pou e)"
  shows "clean e \<and> jget (obj_at pou ''pou'') ''kind'' = JStr ''function'' \<and>
    (\<forall>op \<in> set (pou_operations pou). \<not> pointer_store files op) \<and> (\<forall>s \<in> set (pou_symbols pou). symbol_quiet b s)"
  using clean_foldl [OF assms [unfolded before_calls_def], where P = "symbol_quiet b"] symbol_effects_clean by auto

definition sound_from :: "(string \<Rightarrow> string option) \<Rightarrow> pous \<Rightarrow> string \<Rightarrow> string list \<Rightarrow> string \<Rightarrow> bool" where
  "sound_from files by_name target visiting name =
     (\<forall>ns. call_chain by_name (name # ns) \<longrightarrow> distinct (name # ns) \<and> set (name # ns) \<inter> set visiting = {} \<and>
        (\<forall>n \<in> set (name # ns). \<exists>pou. dget by_name n = Some pou \<and> quiet files (n = target) pou))"

lemma sound_from_step:
  assumes "dget by_name name = Some pou" "name \<notin> set visiting" "quiet files (name = target) pou"
    and "\<And>call. call \<in> set (pou_calls pou) \<Longrightarrow> sound_from files by_name target (name # visiting) (callee_name call)"
  shows "sound_from files by_name target visiting name"
  unfolding sound_from_def
proof (intro allI impI)
  fix ns assume chain: "call_chain by_name (name # ns)"
  show "distinct (name # ns) \<and> set (name # ns) \<inter> set visiting = {} \<and>
    (\<forall>n \<in> set (name # ns). \<exists>pou. dget by_name n = Some pou \<and> quiet files (n = target) pou)"
  proof (cases ns)
    case Nil
    then show ?thesis using assms(1-3) by auto
  next
    case (Cons b rest)
    with chain assms(1) obtain call where call: "call \<in> set (pou_calls pou)" "b = callee_name call"
      "call_chain by_name (b # rest)" by (auto simp: callees_def)
    from assms(4) [OF call(1)] call(2,3) have "distinct (b # rest)" "set (b # rest) \<inter> set (name # visiting) = {}"
      "\<forall>n \<in> set (b # rest). \<exists>pou. dget by_name n = Some pou \<and> quiet files (n = target) pou"
      unfolding sound_from_def by blast+
    then show ?thesis using Cons assms(1-3) by auto
  qed
qed

lemma inspect_clean:
  "clean (inspect files by_name target visiting name e) \<Longrightarrow>
   clean e \<and> sound_from files by_name target visiting name"
proof (induction files by_name target visiting name e rule: inspect.induct)
  case (1 files by_name target visiting name e)
  note unfolded = 1(2) [unfolded inspect.simps [of files by_name target visiting name e]]
  from unfolded obtain pou where pou: "dget by_name name = Some pou" "name \<notin> set visiting"
    by (auto split: option.splits if_splits)
  define g where "g = (\<lambda>e call. let e = add_if (call_is_stateful call) (add_reason ''stateful_or_io_call'') e in
     if truthy (jget call ''external'') then add_unknown ''callee_effects_unavailable'' e
     else inspect files by_name target (name # visiting) (callee_name call)
       (add_if (truthy (jget call ''writes'') \<and> \<not> dmem (callee_name call) by_name)
          (add_unknown ''callee_write_targets_unresolved'') e))"
  from unfolded pou have whole: "clean (foldl g (before_calls files (name = target) pou e) (pou_calls pou))"
    "\<not> truthy (jget (obj_at pou ''pou'') ''stateful'')"
    by (simp_all add: g_def after_calls_def)
  have step: "clean e' \<and> \<not> call_is_stateful call \<and> \<not> truthy (jget call ''external'') \<and>
      sound_from files by_name target (name # visiting) (callee_name call)"
    if "call \<in> set (pou_calls pou)" "clean (g e' call)" for e' call
  proof -
    from that(2) have ext: "\<not> truthy (jget call ''external'')" by (auto simp: g_def Let_def)
    with that(2) have c: "clean (inspect files by_name target (name # visiting) (callee_name call)
       (add_if (truthy (jget call ''writes'') \<and> \<not> dmem (callee_name call) by_name)
          (add_unknown ''callee_write_targets_unresolved'')
          (add_if (call_is_stateful call) (add_reason ''stateful_or_io_call'') e')))"
      by (simp add: g_def Let_def)
    from 1(1) [OF pou that(1) refl ext c] ext show ?thesis by simp
  qed
  from clean_foldl [OF whole(1), where P = "\<lambda>call. \<not> call_is_stateful call \<and> \<not> truthy (jget call ''external'') \<and>
      sound_from files by_name target (name # visiting) (callee_name call)"] step
  have calls: "clean (before_calls files (name = target) pou e)"
    "\<forall>call \<in> set (pou_calls pou). \<not> call_is_stateful call \<and> \<not> truthy (jget call ''external'') \<and>
      sound_from files by_name target (name # visiting) (callee_name call)" by blast+
  from before_calls_clean [OF calls(1)] whole(2) calls(2)
  have "quiet files (name = target) pou" by (auto simp: quiet_def)
  with sound_from_step [OF pou] calls(2) before_calls_clean [OF calls(1)] show ?case by blast
qed

text \<open>The effects are those the documents show; \<open>single_cycle\<close> needs both sets to be empty.\<close>

lemma abi_effects_clean:
  assumes "clean (abi_effects abi)"
  shows "jget (ad_target abi) ''kind'' = JStr ''FUNCTION'' \<and>
    (\<forall>entry \<in> set (ad_frame_fields abi @ ad_shared_fields abi @ ad_state_fields abi).
       jget entry ''block_kind'' \<notin> {JStr ''VAR'', JStr ''VAR_GLOBAL'', JStr ''VAR_EXTERNAL'', JStr ''VAR_IN_OUT''} \<and>
       jget (obj_at entry ''spec'') ''kind'' \<noteq> JStr ''pointer'') \<and>
    (\<forall>entry \<in> set (ad_shared_fields abi). jget entry ''block_kind'' \<noteq> JStr ''VAR_OUTPUT'')"
proof -
  define P where "P entry \<longleftrightarrow> jget entry ''block_kind'' \<notin> {JStr ''VAR'', JStr ''VAR_GLOBAL'', JStr ''VAR_EXTERNAL'', JStr ''VAR_IN_OUT''} \<and>
       jget (obj_at entry ''spec'') ''kind'' \<noteq> JStr ''pointer''" for entry
  have step: "clean (entry_effects entry e) \<Longrightarrow> clean e \<and> P entry" for entry e
    by (auto simp: entry_effects_def Let_def P_def)
  let ?all = "ad_frame_fields abi @ ad_shared_fields abi @ ad_state_fields abi"
  from assms have whole: "\<not> (\<exists>entry \<in> set (ad_shared_fields abi). jget entry ''block_kind'' = JStr ''VAR_OUTPUT'')"
    "clean (foldl (\<lambda>e entry. entry_effects entry e)
      (add_if (jget (ad_target abi) ''kind'' \<noteq> JStr ''FUNCTION'') (add_unknown ''instance_effects_unresolved'')
        \<lparr>ef_reasons = {}, ef_unknown = {}\<rparr>) ?all)"
    unfolding abi_effects_def by simp_all
  have "\<forall>entry \<in> set ?all. P entry" "jget (ad_target abi) ''kind'' = JStr ''FUNCTION''"
    using clean_foldl [OF whole(2), where P = P] step by auto
  with whole(1) show ?thesis by (simp add: P_def)
qed

lemma cycle_mode_single [simp]: "cycle_mode e = ''single_cycle'' \<longleftrightarrow> clean e"
  by (auto simp: cycle_mode_def clean_def)

text \<open>
  (C14) A target is called single-cycle only when it is: then it is a function none of whose fields
  is state, shared, an in-out or a pointer and none of whose shared fields is an output (an output by
  reference, which outlives the scan), and on every chain of calls from it each unit is known, is a
  function without state, writes through no pointer, has no persistent, shared or in-out symbol and
  makes no stateful or external call; and no chain returns to a unit it has passed, so there is no
  recursion.
\<close>

theorem single_cycle_sound:
  assumes "ce_mode (cycle_effects files abi (Some model)) = ''single_cycle''"
    and "call_chain (pous_by_name (list_at model ''pous'')) (target_name abi # ns)"
  shows "jget (ad_target abi) ''kind'' = JStr ''FUNCTION'' \<and>
    (\<forall>entry \<in> set (ad_frame_fields abi @ ad_shared_fields abi @ ad_state_fields abi).
       jget entry ''block_kind'' \<notin> {JStr ''VAR'', JStr ''VAR_GLOBAL'', JStr ''VAR_EXTERNAL'', JStr ''VAR_IN_OUT''} \<and>
       jget (obj_at entry ''spec'') ''kind'' \<noteq> JStr ''pointer'') \<and>
    (\<forall>entry \<in> set (ad_shared_fields abi). jget entry ''block_kind'' \<noteq> JStr ''VAR_OUTPUT'') \<and>
    distinct (target_name abi # ns) \<and>
    (\<forall>n \<in> set (target_name abi # ns). \<exists>pou.
       dget (pous_by_name (list_at model ''pous'')) n = Some pou \<and> quiet files (n = target_name abi) pou)"
proof -
  let ?by_name = "pous_by_name (list_at model ''pous'')"
  from assms(1) have "clean (collected_effects files abi (Some model))"
    by (simp add: cycle_effects_def Let_def)
  then have "clean (inspect files ?by_name (target_name abi) [] (target_name abi) (abi_effects abi))"
    by (auto simp: collected_effects_def Let_def split: if_splits)
  from inspect_clean [OF this] abi_effects_clean [of abi] assms(2) show ?thesis
    unfolding sound_from_def by blast
qed

definition demo_pou :: "string \<Rightarrow> string list \<Rightarrow> json" where
  "demo_pou name calls = JObj
     [(''pou'', JObj [(''name'', JStr name), (''kind'', JStr ''function'')]),
      (''environment'', JObj [(''symbols'', JList [JObj [(''role'', JStr ''input'')]]),
        (''calls'', JList (map (\<lambda>c. JObj [(''callee'', JStr c)]) calls))])]"

definition demo_model :: "(string, json) dict" where
  "demo_model = [(''pous'', JList [demo_pou ''Clamp'' [''Limit''], demo_pou ''Limit'' []])]"

definition demo_abi_document :: abi_document where
  "demo_abi_document = \<lparr>ad_target = [(''name'', JStr ''Clamp''), (''kind'', JStr ''FUNCTION'')],
     ad_frame_fields = [[(''name'', JStr ''X''), (''block_kind'', JStr ''VAR_INPUT''),
       (''spec'', JObj [(''kind'', JStr ''scalar''), (''name'', JStr ''INT''), (''size'', JInt 2), (''c_type'', JStr ''int16_t'')])]],
     ad_shared_fields = [], ad_state_fields = []\<rparr>"

lemma demo_single_cycle:
  "ce_mode (cycle_effects (\<lambda>_. None) demo_abi_document (Some demo_model)) = ''single_cycle'' \<and>
   call_chain (pous_by_name (list_at demo_model ''pous'')) (target_name demo_abi_document # [''LIMIT''])"
  by code_simp

lemma single_cycle_sound_witness:
  "ce_mode (cycle_effects (\<lambda>_. None) demo_abi_document (Some demo_model)) = ''single_cycle'' \<and>
   distinct [target_name demo_abi_document, ''LIMIT'']"
  using single_cycle_sound [of "\<lambda>_. None" demo_abi_document demo_model "[''LIMIT'']"] demo_single_cycle by simp

section \<open>The choice of prefixes\<close>

definition MAX_PLANNED_PREFIXES_PER_TASK :: nat where
  "MAX_PLANNED_PREFIXES_PER_TASK = 96"

definition bounded_prefixes :: "'a list \<Rightarrow> nat \<Rightarrow> nat \<Rightarrow> 'a list" where
  "bounded_prefixes ps task_index task_count =
     (if length ps \<le> MAX_PLANNED_PREFIXES_PER_TASK then ps
      else let focused = 8; remaining = drop focused ps; slots = MAX_PLANNED_PREFIXES_PER_TASK - focused in
        take focused ps @
        map (\<lambda>slot. remaining ! (((slot * task_count + task_index) * length remaining) div (slots * task_count)))
          [0..<slots])"

lemma picks_increase:
  fixes n L i :: nat
  assumes "88 < L" "i < n"
  shows "((slot * n + i) * L) div (88 * n) < ((Suc slot * n + i) * L) div (88 * n)"
proof -
  have "(slot * n + i) * L + 88 * n \<le> (Suc slot * n + i) * L"
    using assms by (simp add: algebra_simps)
  then have "((slot * n + i) * L + 88 * n) div (88 * n) \<le> ((Suc slot * n + i) * L) div (88 * n)"
    by (rule div_le_mono)
  then show ?thesis using assms by simp
qed

lemma picks_in_range:
  fixes n L i :: nat
  assumes "slot < 88" "0 < L" "i < n"
  shows "((slot * n + i) * L) div (88 * n) < L"
proof -
  have "slot * n + i < Suc slot * n" using assms by simp
  also have "\<dots> \<le> 88 * n" using assms by (intro mult_right_mono) auto
  finally show ?thesis using assms
    by (intro div_less_iff_less_mult [THEN iffD2]) (auto simp: mult.commute)
qed

lemma subseq_picks:
  assumes "sorted_wrt (<) is" "\<forall>i \<in> set is. i < length xs"
  shows "subseq (map ((!) xs) is) xs"
proof -
  have "is = filter (\<lambda>i. i \<in> set is) [0..<length xs]"
    using assms by (intro strict_sorted_equal) (auto intro: sorted_wrt_filter)
  then have "subseq is [0..<length xs]" using subseq_filter_left by metis
  then have "subseq (map ((!) xs) is) (map ((!) xs) [0..<length xs])" by (rule subseq_map)
  then show ?thesis by (simp add: map_nth)
qed

text \<open>
  At most 96 prefixes of a task are kept: all of them when there are no more, else the first 8
  and 88 of the others; the kept ones are different entries in their order.
\<close>

lemma bounded_prefixes_kept:
  assumes "i < n"
  shows "length (bounded_prefixes ps i n) = min (length ps) MAX_PLANNED_PREFIXES_PER_TASK \<and>
    subseq (bounded_prefixes ps i n) ps \<and> take 8 (bounded_prefixes ps i n) = take 8 ps"
proof (cases "length ps \<le> 96")
  case False
  define L where "L = length (drop 8 ps)"
  define pick where "pick = (\<lambda>slot. ((slot * n + i) * L) div (88 * n))"
  have L: "88 < L" using False by (simp add: L_def)
  have "sorted_wrt (<) (map pick [0..<88])"
  proof -
    have "strict_mono pick" unfolding pick_def using picks_increase [OF L assms] by (simp add: strict_mono_Suc_iff)
    then show ?thesis by (auto simp: sorted_wrt_iff_nth_less strict_mono_def)
  qed
  moreover have "\<forall>j \<in> set (map pick [0..<88]). j < length (drop 8 ps)"
    using picks_in_range [of _ L i n] L assms by (auto simp: pick_def L_def)
  ultimately have "subseq (map ((!) (drop 8 ps)) (map pick [0..<88])) (drop 8 ps)" by (rule subseq_picks)
  then have "subseq (take 8 ps @ map ((!) (drop 8 ps)) (map pick [0..<88])) (take 8 ps @ drop 8 ps)"
    by (intro list_emb_append_mono) auto
  moreover have "bounded_prefixes ps i n = take 8 ps @ map ((!) (drop 8 ps)) (map pick [0..<88])"
    using False by (simp add: bounded_prefixes_def MAX_PLANNED_PREFIXES_PER_TASK_def pick_def L_def Let_def comp_def)
  ultimately show ?thesis using False by (simp add: MAX_PLANNED_PREFIXES_PER_TASK_def)
qed (simp add: bounded_prefixes_def MAX_PLANNED_PREFIXES_PER_TASK_def)

end
