(* ===== verification/Planned_Prefixes.thy ===== *)
theory Planned_Prefixes
  imports Goal_Tasks
begin

text \<open>
  The seed prefixes planned for a task (\<open>fuzzer/pipeline/goal_tasks.py\<close>): frame sequences built from
  the guards, literals and types of the interface. The main result is that they stay inside the
  interface: every frame gives exactly the action fields a value, and every integer lies in the range
  of its type.
\<close>

section \<open>Packing array elements\<close>

datatype goal_error =
    FloatOverflow
  | BadConstant
  | MissingModeling int
  | BadRuntimeId

text \<open>
  \<open>struct.pack\<close> of a finite value: \<open>mb\<close> mantissa and \<open>eb\<close> exponent bits, rounded to nearest even.
  A value that rounds to infinity raises. Zero has no sign.
\<close>

definition float_bits :: "nat \<Rightarrow> nat \<Rightarrow> rat \<Rightarrow> goal_error + int" where
  "float_bits mb eb x =
     (if x = 0 then Inr 0
      else let (p, q) = quotient_of \<bar>x\<bar>; bias = 2 ^ (eb - 1) - 1;
               e = max (floor_log2 p q) (1 - bias); (a, b) = scale2 p q (int mb - e);
               bits = (e + bias - 1) * 2 ^ mb + round_half_even a b in
        if (2 ^ eb - 1) * 2 ^ mb \<le> bits then Inl FloatOverflow
        else Inr (bits + (if x < 0 then 2 ^ (mb + eb) else 0)))"

definition le_hex :: "nat \<Rightarrow> int \<Rightarrow> string list" where
  "le_hex width bits =
     map (\<lambda>k. let byte = (bits div 256 ^ k) mod 256 in [hex_digit (byte div 16), hex_digit (byte mod 16)]) [0..<width]"

definition pack_float :: "nat \<Rightarrow> rat \<Rightarrow> goal_error + string list" where
  "pack_float width x =
     bindE (if width = 4 then float_bits 23 8 x else float_bits 52 11 x) (\<lambda>bits. Inr (le_hex width bits))"

text \<open>Python's floating-point result of an exact one.\<close>

definition as_double :: "rat \<Rightarrow> rat" where
  "as_double x = (let (p, q) = quotient_of \<bar>x\<bar>; (a, b) = to_double (p, q) in
     (if x < 0 then -1 else 1) * (of_int a / of_int b))"

section \<open>Array bounds of a guard\<close>

type_synonym specs = "(string, (string, json) dict) dict"
type_synonym interval = "rat option \<times> rat option"
type_synonym guard_map = "(string \<times> int, interval) dict"

definition spec_named :: "specs \<Rightarrow> string \<Rightarrow> (string, json) dict" where
  "spec_named specs f = (case dget specs f of None \<Rightarrow> [] | Some s \<Rightarrow> s)"

definition tighten :: "string \<Rightarrow> rat \<Rightarrow> interval \<Rightarrow> interval" where
  "tighten op v i =
     (if starts_with ''>'' op
      then (Some (case fst i of None \<Rightarrow> v | Some l \<Rightarrow> max l v), snd i)
      else (fst i, Some (case snd i of None \<Rightarrow> v | Some u \<Rightarrow> min u v)))"

fun index_of :: "json \<Rightarrow> int option" where
  "index_of (JInt i) = Some i"
| "index_of (JBool b) = Some (if b then 1 else 0)"
| "index_of _ = None"

definition note_bound :: "specs \<Rightarrow> (string, json) dict \<Rightarrow> guard_map \<Rightarrow> guard_map" where
  "note_bound specs node found =
     (let kind = expr_kind node; operands = list_at node ''operands'' in
      if jget kind ''kind'' = JStr ''binary'' \<and>
         jget kind ''operator'' \<in> {JStr ''<'', JStr ''<='', JStr ''>'', JStr ''>=''} \<and> 2 \<le> length operands then
        (let op0 = str_of (jget kind ''operator'');
             right = literal (obj_of (operands ! 1));
             (constant, left, op) =
               (if right = JNull then (literal (obj_of (operands ! 0)), operands ! 1, mirror op0)
                else (right, operands ! 0, op0));
             indexes = list_at (obj_of left) ''operands'' in
         if is_obj left \<and> jget (expr_kind (obj_of left)) ''kind'' = JStr ''array_index'' \<and> 2 \<le> length indexes
         then (case (number_of constant, member_name (obj_of (indexes ! 0)), index_of (literal (obj_of (indexes ! 1)))) of
             (Some c, field, Some i) \<Rightarrow>
               (let f = (case field of None \<Rightarrow> [] | Some f \<Rightarrow> f); spec = spec_named specs f in
                if jget spec ''kind'' = JStr ''array'' \<and>
                   jget (obj_at spec ''element'') ''name'' \<in> {JStr ''REAL'', JStr ''LREAL''} \<and>
                   0 \<le> i \<and> i < int_at spec ''count''
                then dset (f, i) (tighten op (as_double c)
                  (case dget found (f, i) of None \<Rightarrow> (None, None) | Some b \<Rightarrow> b)) found
                else found)
           | _ \<Rightarrow> found)
         else found)
      else found)"

function guard_bounds :: "specs \<Rightarrow> json \<Rightarrow> guard_map \<Rightarrow> guard_map" where
  "guard_bounds specs (JObj node) found =
     (case jget node ''operands'' of
        JList xs \<Rightarrow> foldl (\<lambda>acc x. guard_bounds specs x acc) (note_bound specs node found) xs
      | _ \<Rightarrow> note_bound specs node found)"
| "guard_bounds specs JNull found = found"
| "guard_bounds specs (JBool b) found = found"
| "guard_bounds specs (JInt i) found = found"
| "guard_bounds specs (JFloat r) found = found"
| "guard_bounds specs (JStr t) found = found"
| "guard_bounds specs (JList xs) found = found"
  by pat_completeness auto
termination
proof (relation "measure (\<lambda>(specs, x, found). size x)")
  fix specs :: specs and node xs x and acc found :: guard_map
  assume "jget node ''operands'' = JList xs" "x \<in> set xs"
  then have "size (JList xs) < size (JObj node)" using size_jget by blast
  then show "((specs, x, acc), specs, JObj node, found) \<in> measure (\<lambda>(specs, x, found). size x)"
    using size_list_estimation' [OF \<open>x \<in> set xs\<close> order_refl, of size] by simp
qed simp

definition inside_value :: "interval \<Rightarrow> rat option" where
  "inside_value i = (case i of
     (Some l, Some u) \<Rightarrow> if u \<le> l then None else Some (as_double (as_double (l + u) / 2))
   | (Some l, None) \<Rightarrow> Some (as_double (l + 1))
   | (None, Some u) \<Rightarrow> Some (as_double (u - 1))
   | (None, None) \<Rightarrow> None)"

definition put_bytes :: "nat \<Rightarrow> string list \<Rightarrow> string list \<Rightarrow> string list" where
  "put_bytes at_byte bytes payload = take at_byte payload @ bytes @ drop (at_byte + length bytes) payload"

definition pack_element ::
    "string \<Rightarrow> nat \<Rightarrow> string list \<Rightarrow> (string \<times> int) \<times> interval \<Rightarrow> goal_error + string list" where
  "pack_element field width payload entry =
     (case entry of ((name, i), interval) \<Rightarrow>
        if name \<noteq> field then Inr payload
        else case inside_value interval of
          None \<Rightarrow> Inr payload
        | Some v \<Rightarrow> bindE (pack_float width v) (\<lambda>bytes. Inr (put_bytes (nat i * width) bytes payload)))"

definition array_payload :: "specs \<Rightarrow> guard_map \<Rightarrow> string \<Rightarrow> goal_error + (string \<times> string) list" where
  "array_payload specs found field =
     (let spec = spec_named specs field; element = obj_at spec ''element'';
          width = jor (jget element ''byte_size'') (jget element ''size'');
          total_size = jor (jget spec ''byte_size'') (jget spec ''size'') in
      if \<not> (width = JInt 4 \<or> width = JInt 8) \<or> \<not> is_plain_int total_size \<or>
         int_of total_size < int_at spec ''count'' * int_of width then Inr []
      else bindE (foldE (pack_element field (nat (int_of width))) (replicate (nat (int_of total_size)) ''00'') found)
        (\<lambda>payload. Inr [(field, ''0x'' @ concat payload)]))"

definition array_guard_values :: "json \<Rightarrow> specs \<Rightarrow> goal_error + (string, string) dict" where
  "array_guard_values expression specs =
     (let found = guard_bounds specs expression [] in
      bindE (mapE (array_payload specs found) (sort (remdups (map (\<lambda>((f, i), b). f) found)))) (\<lambda>rs.
        Inr (dict_of (concat rs))))"

section \<open>Action fields\<close>

definition entry_name :: "(string, json) dict \<Rightarrow> string" where
  "entry_name e = str_of (jget e ''name'')"

definition action_entries :: "abi_document \<Rightarrow> (string, json) dict list" where
  "action_entries abi =
     ad_frame_fields abi @
     filter (\<lambda>e. jget e ''block_kind'' = JStr ''VAR_IN_OUT'' \<and> entry_name e \<notin> entry_name ` set (ad_frame_fields abi))
       (ad_shared_fields abi)"

definition action_specs :: "abi_document \<Rightarrow> specs" where
  "action_specs abi = dict_of (map (\<lambda>e. (entry_name e, obj_at e ''spec'')) (action_entries abi))"

definition default_frame :: "abi_document \<Rightarrow> frame_values" where
  "default_frame abi = dict_of (map (\<lambda>e. (entry_name e, spec_start (obj_at e ''spec''))) (action_entries abi))"

definition is_real :: "(string, json) dict \<Rightarrow> bool" where
  "is_real spec = (jget spec ''name'' \<in> {JStr ''REAL'', JStr ''LREAL''})"

definition is_bool :: "(string, json) dict \<Rightarrow> bool" where
  "is_bool spec = (jget spec ''name'' = JStr ''BOOL'')"

definition is_scalar :: "(string, json) dict \<Rightarrow> bool" where
  "is_scalar spec = (jget spec ''kind'' = JStr ''scalar'')"

definition boolean_fields :: "abi_document \<Rightarrow> string list" where
  "boolean_fields abi = take 6 (map entry_name (filter (\<lambda>e. is_bool (obj_at e ''spec'')) (action_entries abi)))"

definition integer_fields :: "abi_document \<Rightarrow> string list" where
  "integer_fields abi = map entry_name (filter (\<lambda>e. is_scalar (obj_at e ''spec'') \<and> \<not> is_bool (obj_at e ''spec'') \<and>
     \<not> is_real (obj_at e ''spec'')) (action_entries abi))"

text \<open>The values of \<open>sorted({...})\<close> of integers, and \<open>str(n)\<close> stored for a field within its range.\<close>

definition int_set :: "int list \<Rightarrow> int list" where
  "int_set xs = sort (remdups xs)"

definition clamped :: "specs \<Rightarrow> string \<Rightarrow> int \<Rightarrow> string" where
  "clamped specs f v = show_int (bounded_integer (spec_named specs f) v)"

definition in_domain :: "(string, json) dict \<Rightarrow> int \<Rightarrow> bool" where
  "in_domain spec v = (case type_bounds spec of None \<Rightarrow> True | Some (lo, hi) \<Rightarrow> lo \<le> v \<and> v \<le> hi)"

section \<open>The prefixes of a task\<close>

text \<open>What a plan gives the prefix builder: the task document and the parameters of the run.\<close>

record prefix_request =
  pq_abi :: abi_document
  pq_task :: "(string, json) dict"
  pq_literals :: "int list"
  pq_update_reads :: "(string, string list) dict option"
  pq_float_text :: "rat \<Rightarrow> string"

definition pq_specs :: "prefix_request \<Rightarrow> specs" where
  "pq_specs q = action_specs (pq_abi q)"

definition pq_defaults :: "prefix_request \<Rightarrow> frame_values" where
  "pq_defaults q = default_frame (pq_abi q)"

definition usable_conditions :: "prefix_request \<Rightarrow> condition list \<Rightarrow> condition list" where
  "usable_conditions q cs =
     filter (\<lambda>c. dmem (cn_field c) (pq_specs q) \<and> is_scalar (spec_named (pq_specs q) (cn_field c)) \<and>
       is_numeric (cn_const c)) cs"

definition apply_condition :: "prefix_request \<Rightarrow> frame_values \<Rightarrow> condition \<Rightarrow> goal_error + frame_values" where
  "apply_condition q frame c =
     (case condition_value (pq_float_text q) (spec_named (pq_specs q) (cn_field c)) (cn_op c) (cn_const c) of
        None \<Rightarrow> Inl BadConstant
      | Some v \<Rightarrow> Inr (dset (cn_field c) v frame))"

definition guard_frame :: "prefix_request \<Rightarrow> condition list \<Rightarrow> goal_error + frame_values" where
  "guard_frame q cs = foldE (apply_condition q) (pq_defaults q) (usable_conditions q cs)"

subsection \<open>Arrays indexed by persistent state\<close>

fun bit_rows :: "nat \<Rightarrow> string list list" where
  "bit_rows 0 = [[]]"
| "bit_rows (Suc n) = concat (map (\<lambda>v. map ((#) v) (bit_rows n)) [''0'', ''1''])"

definition texts_at :: "(string, json) dict \<Rightarrow> string \<Rightarrow> string list" where
  "texts_at d k = map str_of (list_at d k)"

definition index_updates :: "prefix_request \<Rightarrow> string list \<Rightarrow> string list option" where
  "index_updates q reads =
     map_option (\<lambda>m. concat (map (\<lambda>s. case dget m s of None \<Rightarrow> [] | Some l \<Rightarrow> l) reads)) (pq_update_reads q)"

definition goal_operands :: "prefix_request \<Rightarrow> json list" where
  "goal_operands q = list_at (obj_at (pq_task q) ''terminal_goal_expression'') ''operands''"

definition index_is_persistent :: "prefix_request \<Rightarrow> bool" where
  "index_is_persistent q =
     (let task = pq_task q; goal = obj_at task ''terminal_goal_expression'' in
      jget task ''terminal_hazard'' = JStr ''array_access'' \<and>
      jget (expr_kind goal) ''kind'' = JStr ''array_index'' \<and> 2 \<le> length (goal_operands q) \<and>
      set (texts_at (obj_of (goal_operands q ! 1)) ''reads'') \<inter>
        set (concat (map (\<lambda>r. texts_at (obj_of r) ''persistent_symbols'') (list_at task ''temporal_requirements''))) \<noteq> {})"

definition seed_fields :: "prefix_request \<Rightarrow> (string, json) dict list" where
  "seed_fields q = map obj_of (list_at (pq_task q) ''controllable_seed_fields'')"

definition data_symbols :: "prefix_request \<Rightarrow> json list" where
  "data_symbols q = map (\<lambda>d. jget (obj_of d) ''symbol'') (list_at (pq_task q) ''data_dependencies'')"

definition persistent_controls :: "prefix_request \<Rightarrow> string option \<Rightarrow> int \<Rightarrow> string list" where
  "persistent_controls q array_field upper =
     (let index = obj_of (goal_operands q ! 1); updates = index_updates q (texts_at index ''reads'') in
      map (\<lambda>e. str_of (jget e ''seed_field''))
        (filter (\<lambda>e. jget e ''role'' = JStr ''input'' \<and> jget e ''symbol'' \<in> set (data_symbols q) \<and>
            (case updates of None \<Rightarrow> True | Some us \<Rightarrow> jget e ''symbol'' \<in> set (map JStr us)) \<and>
            jget e ''type_name'' = jget index ''type_name'' \<and>
            dmem (str_of (jget e ''seed_field'')) (pq_specs q) \<and>
            is_scalar (spec_named (pq_specs q) (str_of (jget e ''seed_field''))) \<and>
            bounded_integer (spec_named (pq_specs q) (str_of (jget e ''seed_field''))) (upper + 1) = upper + 1)
          (seed_fields q)))"

definition persistent_switches :: "prefix_request \<Rightarrow> string list" where
  "persistent_switches q =
     take 3 (map (\<lambda>e. str_of (jget e ''seed_field''))
       (filter (\<lambda>e. jget e ''role'' = JStr ''input'' \<and> jget e ''symbol'' \<in> set (data_symbols q) \<and>
           jget e ''type_name'' = JStr ''BOOL'' \<and> dmem (str_of (jget e ''seed_field'')) (pq_specs q))
         (seed_fields q)))"

definition held_over ::
    "prefix_request \<Rightarrow> frame_values \<Rightarrow> int \<Rightarrow> int \<Rightarrow> string \<Rightarrow> string list \<Rightarrow> frame_values list" where
  "held_over q guard count upper control row =
     pq_defaults q # replicate (nat (min 299 (count + 3)))
       (dupdate (dset control (show_int (upper + 1)) guard) (zip (persistent_switches q) row))"

definition persistent_array_prefixes :: "prefix_request \<Rightarrow> frame_values \<Rightarrow> frame_values list list" where
  "persistent_array_prefixes q guard =
     (if \<not> index_is_persistent q then []
      else let array_field = member_name (obj_of (goal_operands q ! 0)) in
        case find (\<lambda>e. jget e ''seed_field'' = opt_str array_field \<and> jget (obj_at e ''type'') ''kind'' = JStr ''array'')
               (seed_fields q) of
          None \<Rightarrow> []
        | Some entry \<Rightarrow>
            (let dims = list_at (obj_at entry ''type'') ''dimensions'';
                 upper = (if length dims = 1 then jget (obj_of (hd dims)) ''upper'' else JNull);
                 count = (case array_field of None \<Rightarrow> JNull | Some f \<Rightarrow> jget (spec_named (pq_specs q) f) ''count'') in
             if \<not> is_plain_int upper \<or> \<not> is_plain_int count \<or> int_of count \<le> 0 then []
             else concat (map (\<lambda>control. map (held_over q guard (int_of count) (int_of upper) control)
                 (bit_rows (length (persistent_switches q))))
               (take 2 (persistent_controls q array_field (int_of upper))))))"

subsection \<open>Guards over array elements\<close>

definition guard_scalar_fields :: "prefix_request \<Rightarrow> string list" where
  "guard_scalar_fields q = map fst (filter (\<lambda>(f, spec). is_scalar spec \<and> \<not> is_real spec) (pq_specs q))"

definition task_literals :: "prefix_request \<Rightarrow> json list" where
  "task_literals q = collect_literals (JObj (pq_task q))"

definition guard_literals :: "prefix_request \<Rightarrow> int list" where
  "guard_literals q = sort (map int_of (filter is_plain_int (task_literals q)))"

definition literal_values :: "prefix_request \<Rightarrow> int list" where
  "literal_values q = int_set (List.map_filter index_of (task_literals q))"

definition held_value :: "prefix_request \<Rightarrow> nat \<Rightarrow> frame_values \<Rightarrow> string \<Rightarrow> int \<Rightarrow> frame_values list" where
  "held_value q hold active f v = pq_defaults q # replicate hold (dset f (show_int v) active)"

definition guard_variants :: "prefix_request \<Rightarrow> nat \<Rightarrow> frame_values \<Rightarrow> frame_values list list" where
  "guard_variants q hold active =
     concat (map (\<lambda>f. map (held_value q hold active f)
         (take 4 (filter (\<lambda>v. in_domain (spec_named (pq_specs q) f) v \<and> dget active f \<noteq> Some (show_int v))
           (guard_literals q))))
       (take 4 (guard_scalar_fields q)))"

definition guard_hold :: "prefix_request \<Rightarrow> (string, string) dict \<Rightarrow> nat" where
  "guard_hold q vs =
     (let lengths = map (\<lambda>(f, v). int_at (spec_named (pq_specs q) f) ''count'')
          (filter (\<lambda>(f, v). jget (spec_named (pq_specs q) f) ''kind'' = JStr ''array'') vs)
      in nat (min 299 (max 4 ((if lengths = [] then 0 else Max (set lengths)) + 2))))"

definition obligation_prefixes ::
    "prefix_request \<Rightarrow> frame_values \<Rightarrow> json \<Rightarrow> goal_error + frame_values list list" where
  "obligation_prefixes q guard obligation =
     bindE (array_guard_values (jget (obj_of obligation) ''goal_expression'') (pq_specs q)) (\<lambda>values.
       if values = [] then Inr []
       else Inr ((pq_defaults q # replicate (guard_hold q values) (dupdate guard values)) #
         guard_variants q (guard_hold q values) (dupdate guard values)))"

subsection \<open>Values of one field, pulses and protocols\<close>

definition field_values :: "prefix_request \<Rightarrow> string \<Rightarrow> int list" where
  "field_values q f =
     (let values = concat (map (\<lambda>e. map int_of (list_at (obj_of e) ''thresholds''))
            (filter (\<lambda>e. jget (obj_of e) ''field'' = JStr f) (list_at (pq_task q) ''abstraction''))) @ literal_values q;
          bounded = int_set values in
      if 2 \<le> length bounded \<and> last bounded - hd bounded \<le> 128
      then int_set (values @ [hd bounded..last bounded]) else bounded)"

definition sweeps :: "prefix_request \<Rightarrow> frame_values list list" where
  "sweeps q =
     concat (map (\<lambda>f. map (\<lambda>v. let frame = dset f (show_int v) (pq_defaults q) in [frame, frame])
         (take 128 (filter (in_domain (spec_named (pq_specs q) f)) (field_values q f))))
       (integer_fields (pq_abi q)))"

definition payloads :: "prefix_request \<Rightarrow> int list" where
  "payloads q = int_set (literal_values q @ concat (map (\<lambda>v. [v, v - 1, v + 1]) (pq_literals q)))"

fun pairs_in_order :: "'a list \<Rightarrow> ('a \<times> 'a) list" where
  "pairs_in_order [] = []"
| "pairs_in_order (x # xs) = map (Pair x) xs @ pairs_in_order xs"

definition write_take :: "prefix_request \<Rightarrow> string \<Rightarrow> string \<Rightarrow> int \<Rightarrow> frame_values list" where
  "write_take q first second payload =
     (let low = pq_defaults q; high = dset first ''1'' low;
          write = (case integer_fields (pq_abi q) of [] \<Rightarrow> high
            | f # fs \<Rightarrow> dset f (clamped (pq_specs q) f payload) high);
          taken = dset second ''1'' low; round = [low, write, low, taken] in
      round @ round @ round @ [low, write, taken])"

definition write_take_prefixes :: "prefix_request \<Rightarrow> frame_values list list" where
  "write_take_prefixes q =
     concat (map (\<lambda>(first, second). map (write_take q first second) (take 4 (payloads q)))
       (pairs_in_order (boolean_fields (pq_abi q))))"

text \<open>\<open>itertools.permutations(xs, k)\<close>, in its order.\<close>

fun permutations_of :: "nat \<Rightarrow> 'a list \<Rightarrow> 'a list list" where
  "permutations_of 0 xs = [[]]"
| "permutations_of (Suc k) xs =
     concat (map (\<lambda>i. map ((#) (xs ! i)) (permutations_of k (take i xs @ drop (Suc i) xs))) [0..<length xs])"

definition protocol :: "prefix_request \<Rightarrow> string \<Rightarrow> string list \<Rightarrow> int \<Rightarrow> frame_values list" where
  "protocol q gate roles payload =
     (let low = foldl (\<lambda>d f. dset f (clamped (pq_specs q) f payload) d) (dset gate ''1'' (pq_defaults q))
            (integer_fields (pq_abi q));
          high = (\<lambda>k. dset (roles ! k) ''1'' low) in
      [low] @ concat (replicate 4 [low, high 0]) @ concat (replicate 3 [low, high 1]) @
      [low, high 0] @ [low, high 2] @ [low, high 3] @ [low, high 3])"

definition last_two :: "'a list \<Rightarrow> 'a list" where
  "last_two xs = drop (length xs - 2) xs"

definition protocol_prefixes :: "prefix_request \<Rightarrow> frame_values list list" where
  "protocol_prefixes q =
     concat (map (\<lambda>gate. concat (map (\<lambda>roles. map (protocol q gate roles) (last_two (payloads q)))
         (permutations_of 4 (filter (\<lambda>f. f \<noteq> gate) (boolean_fields (pq_abi q))))))
       (boolean_fields (pq_abi q)))"

definition hold_last :: "frame_values list list \<Rightarrow> frame_values list list" where
  "hold_last ps = (if ps = [] then [] else butlast ps @ [last ps @ replicate 210 (last (last ps))])"

definition planned_prefixes ::
    "prefix_request \<Rightarrow> condition list \<Rightarrow> goal_error + frame_values list list" where
  "planned_prefixes q conditions_in =
     bindE (guard_frame q conditions_in) (\<lambda>guard.
     bindE (mapE (obligation_prefixes q guard) (list_at (pq_task q) ''control_obligations'')) (\<lambda>obligations.
       let held = (if usable_conditions q conditions_in = [] then []
                   else [[pq_defaults q, guard, guard, guard, guard]]);
           ps = held @ persistent_array_prefixes q guard @ concat obligations @ sweeps q @
                write_take_prefixes q @ protocol_prefixes q in
       Inr (if truthy (jget (pq_task q) ''timers'') then hold_last ps else ps)))"

section \<open>Planned frames fit the interface\<close>

text \<open>
  A frame fits when it gives exactly the action fields a value, and the value of every scalar that is
  no real prints an integer in the range of its type.
\<close>

definition value_fits :: "(string, json) dict \<Rightarrow> string \<Rightarrow> bool" where
  "value_fits spec v = (is_scalar spec \<and> \<not> is_real spec \<longrightarrow> (\<exists>i. v = show_int i \<and> in_domain spec i))"

definition frame_fits :: "specs \<Rightarrow> frame_values \<Rightarrow> bool" where
  "frame_fits specs frame =
     (dkeys frame = dkeys specs \<and> (\<forall>(f, v) \<in> set frame. value_fits (spec_named specs f) v))"

definition prefix_fits :: "specs \<Rightarrow> frame_values list \<Rightarrow> bool" where
  "prefix_fits specs p = (\<forall>frame \<in> set p. frame_fits specs frame)"

named_theorems fits_intros \<open>ways to build fitting frames and prefixes\<close>

lemma frame_fits_dset [fits_intros]:
  "frame_fits specs frame \<Longrightarrow> dmem f specs \<Longrightarrow> value_fits (spec_named specs f) v \<Longrightarrow> frame_fits specs (dset f v frame)"
proof -
  assume fits: "frame_fits specs frame" "dmem f specs" "value_fits (spec_named specs f) v"
  then have keys: "dkeys (dset f v frame) = dkeys specs"
    using dkeys_dset_mem [of f frame v] by (simp add: frame_fits_def dmem_def) (metis image_set)
  have "value_fits (spec_named specs g) w" if "(g, w) \<in> set (dset f v frame)" for g w
    using dset_mem [OF that] fits(1,3) unfolding frame_fits_def by blast
  with keys show ?thesis unfolding frame_fits_def by blast
qed

lemma in_domain_small: "i \<in> {0, 1} \<Longrightarrow> in_domain spec i"
proof -
  have "1 \<le> (2 :: int) ^ n" "- (2 ^ n) \<le> (i :: int)" if "0 \<le> i" for n i
    using that one_le_power [of "2 :: int" n] by linarith+
  moreover have "(1 :: int) \<le> 2 ^ n - 1" if "0 < n" for n using that self_le_power [of "2 :: int" n] by simp
  moreover have "(- 1 :: int) \<le> 2 ^ n" for n using zero_le_power [of "2 :: int" n] by linarith
  ultimately show "i \<in> {0, 1} \<Longrightarrow> in_domain spec i"
    by (auto simp: in_domain_def type_bounds_def Let_def split: if_splits)
qed

lemma show_small: "''0'' = show_int 0" "''1'' = show_int 1"
  by (code_simp)+

lemma value_fits_bit [fits_intros]: "value_fits spec ''0''" "value_fits spec ''1''"
  unfolding value_fits_def show_small using in_domain_small by blast+

lemma value_fits_show [fits_intros]: "in_domain spec i \<Longrightarrow> value_fits spec (show_int i)"
  by (auto simp: value_fits_def)

lemma in_domain_bounded: "in_domain spec (bounded_integer spec v)"
  using bounded_integer_in [of spec _ _ v] by (auto simp: in_domain_def split: option.splits)

lemma value_fits_clamped [fits_intros]: "value_fits (spec_named specs f) (clamped specs f v)"
  by (simp add: clamped_def value_fits_show in_domain_bounded)

lemma frame_fits_dupdate [fits_intros]:
  "frame_fits specs frame \<Longrightarrow> (\<And>f v. (f, v) \<in> set kvs \<Longrightarrow> dmem f specs \<and> value_fits (spec_named specs f) v) \<Longrightarrow>
   frame_fits specs (dupdate frame kvs)"
proof (induction kvs arbitrary: frame)
  case (Cons kv kvs)
  then have "frame_fits specs (dset (fst kv) (snd kv) frame)" by (cases kv) (auto intro!: frame_fits_dset)
  then show ?case using Cons by (cases kv) auto
qed simp

lemma frame_fits_foldl [fits_intros]:
  assumes "frame_fits specs frame" "\<And>f. f \<in> set fs \<Longrightarrow> dmem f specs \<and> value_fits (spec_named specs f) (g f)"
  shows "frame_fits specs (foldl (\<lambda>d f. dset f (g f) d) frame fs)"
  using assms by (induction fs arbitrary: frame) (auto intro!: frame_fits_dset)

lemma prefix_fits_simps [simp]:
  "prefix_fits specs []" "prefix_fits specs (x # p) \<longleftrightarrow> frame_fits specs x \<and> prefix_fits specs p"
  "prefix_fits specs (p @ p') \<longleftrightarrow> prefix_fits specs p \<and> prefix_fits specs p'"
  by (auto simp: prefix_fits_def)

lemma prefix_fits_replicate [simp]: "prefix_fits specs (replicate n x) \<longleftrightarrow> n = 0 \<or> frame_fits specs x"
  by (auto simp: prefix_fits_def)

text \<open>The names of the action fields are different and start with a fitting value.\<close>

definition entries_ok :: "abi_document \<Rightarrow> bool" where
  "entries_ok abi = distinct (map entry_name (action_entries abi))"

lemma str_of_text: "str_of j = s \<Longrightarrow> s \<noteq> [] \<Longrightarrow> j = JStr s"
  by (cases j) auto

lemma default_frame_fits:
  assumes "entries_ok abi"
  shows "frame_fits (action_specs abi) (default_frame abi)"
proof -
  let ?es = "action_entries abi"
  have d: "distinct (map fst (map (\<lambda>e. (entry_name e, obj_at e ''spec'')) ?es))"
    "distinct (map fst (map (\<lambda>e. (entry_name e, spec_start (obj_at e ''spec''))) ?es))"
    using assms by (simp_all add: entries_ok_def comp_def)
  note eqs = dict_of_distinct [of "[]", simplified, OF d(1)] dict_of_distinct [of "[]", simplified, OF d(2)]
  have "value_fits (spec_named (action_specs abi) f) v" if fv: "(f, v) \<in> set (default_frame abi)" for f v
  proof -
    from fv obtain e where e: "e \<in> set ?es" "f = entry_name e" "v = spec_start (obj_at e ''spec'')"
      using eqs(2) by (auto simp: default_frame_def)
    then have "spec_named (action_specs abi) f = obj_at e ''spec''"
      using eqs(1) map_of_is_SomeI [OF d(1), of f "obj_at e ''spec''"] by (auto simp: spec_named_def action_specs_def)
    moreover have "value_fits (obj_at e ''spec'') (spec_start (obj_at e ''spec''))"
      using value_fits_bit(1) [of "obj_at e ''spec''"] str_of_text [of "jget (obj_at e ''spec'') ''name''"]
      by (auto simp: value_fits_def spec_start_def default_for_spec_def is_scalar_def is_real_def)
    ultimately show ?thesis using e(3) by simp
  qed
  then show ?thesis using eqs by (auto simp: frame_fits_def default_frame_def action_specs_def comp_def)
qed

lemma dmem_action_specs: "dmem f (action_specs abi) \<longleftrightarrow> f \<in> entry_name ` set (action_entries abi)"
  by (simp add: action_specs_def dmem_def set_dkeys_dupdate image_image)

lemma action_field_dmem:
  "f \<in> set (boolean_fields abi) \<Longrightarrow> dmem f (action_specs abi)"
  "f \<in> set (integer_fields abi) \<Longrightarrow> dmem f (action_specs abi)"
  unfolding dmem_action_specs boolean_fields_def integer_fields_def by (auto dest!: in_set_takeD)

lemma condition_value_fits:
  "condition_value ft spec op c = Some v \<Longrightarrow> value_fits spec v"
  using in_domain_bounded by (auto simp: condition_value_def value_fits_def is_real_def Let_def)

lemma guard_frame_fits:
  assumes "entries_ok (pq_abi q)" "guard_frame q cs = Inr guard"
  shows "frame_fits (pq_specs q) guard"
proof (rule foldE_invariant [OF assms(2) [unfolded guard_frame_def]])
  show "frame_fits (pq_specs q) (pq_defaults q)"
    using default_frame_fits [OF assms(1)] by (simp add: pq_specs_def pq_defaults_def)
next
  fix s c s' assume "frame_fits (pq_specs q) s" "c \<in> set (usable_conditions q cs)" "apply_condition q s c = Inr s'"
  then show "frame_fits (pq_specs q) s'"
    by (auto simp: apply_condition_def usable_conditions_def intro!: frame_fits_dset dest!: condition_value_fits
        split: option.splits)
qed

lemma array_payload_fits:
  assumes "array_payload specs found f = Inr rs" "(g, v) \<in> set rs" "f \<in> (\<lambda>((f, i), b). f) ` set found"
    "\<And>f i b. ((f, i), b) \<in> set found \<Longrightarrow> jget (spec_named specs f) ''kind'' = JStr ''array'' "
  shows "dmem g specs \<and> value_fits (spec_named specs g) v"
proof -
  have "g = f" using assms(1,2) by (auto simp: array_payload_def Let_def bindE_eq_Inr split: if_splits)
  moreover have kind: "jget (spec_named specs f) ''kind'' = JStr ''array''" using assms(3,4) by auto
  then have "spec_named specs f \<noteq> []" by (auto simp: jget_def)
  then have "dmem f specs" by (auto simp: spec_named_def dmem_iff split: option.splits)
  ultimately show ?thesis using kind by (simp add: value_fits_def is_scalar_def)
qed

lemma note_bound_arrays:
  assumes "((f, i), b) \<in> set (note_bound specs node found)" "((f, i), b) \<notin> set found"
  shows "jget (spec_named specs f) ''kind'' = JStr ''array''"
  using assms by (auto simp: note_bound_def Let_def split: if_splits option.splits prod.splits dest!: dset_mem)

lemma guard_bounds_arrays:
  "((f, i), b) \<in> set (guard_bounds specs x found) \<Longrightarrow>
   ((f, i), b) \<in> set found \<or> jget (spec_named specs f) ''kind'' = JStr ''array''"
proof (induction specs x found arbitrary: b rule: guard_bounds.induct)
  case (1 specs node found)
  have fold: "((f, i), b) \<in> set acc \<or> jget (spec_named specs f) ''kind'' = JStr ''array''"
    if "((f, i), b) \<in> set (foldl (\<lambda>acc x. guard_bounds specs x acc) acc ys)" "jget node ''operands'' = JList xs"
      "set ys \<subseteq> set xs" for acc ys xs b
    using that
  proof (induction ys arbitrary: acc b)
    case (Cons y ys)
    from Cons.IH [of b "guard_bounds specs y acc"] Cons.prems
    have "((f, i), b) \<in> set (guard_bounds specs y acc) \<or> jget (spec_named specs f) ''kind'' = JStr ''array''" by simp
    then show ?case using "1.IH" [OF Cons.prems(2), of y b acc] Cons.prems(3) by auto
  qed simp
  show ?case
  proof (cases "\<exists>xs. jget node ''operands'' = JList xs")
    case True
    then obtain xs where xs: "jget node ''operands'' = JList xs" by blast
    then have "((f, i), b) \<in> set (foldl (\<lambda>acc x. guard_bounds specs x acc) (note_bound specs node found) xs)"
      using "1.prems" by simp
    from fold [OF this xs] note_bound_arrays [of f i b specs node found] show ?thesis by blast
  next
    case False
    then have "((f, i), b) \<in> set (note_bound specs node found)"
      using "1.prems" by (cases "jget node ''operands''") auto
    with note_bound_arrays [of f i b specs node found] show ?thesis by blast
  qed
qed auto

lemma dupdate_value: "kv \<in> set (dupdate d kvs) \<Longrightarrow> kv \<in> set d \<or> kv \<in> set kvs"
proof (induction kvs arbitrary: d)
  case (Cons x kvs)
  from Cons.IH [of "dset (fst x) (snd x) d"] Cons.prems
  have "kv \<in> set (dset (fst x) (snd x) d) \<or> kv \<in> set kvs" by simp
  then show ?case using dset_mem [of kv "fst x" "snd x" d] by auto
qed simp

lemma array_guard_fits:
  assumes "array_guard_values x specs = Inr vs" "(g, v) \<in> set vs"
  shows "dmem g specs \<and> value_fits (spec_named specs g) v"
proof -
  let ?found = "guard_bounds specs x []"
  obtain rs where rs: "mapE (array_payload specs ?found) (sort (remdups (map (\<lambda>((f, i), b). f) ?found))) = Inr rs"
    "vs = dict_of (concat rs)" using assms(1) by (auto simp: array_guard_values_def Let_def bindE_eq_Inr)
  have "kv \<in> set (concat rs)" if "kv \<in> set (dupdate [] (concat rs))" for kv
  proof -
    show ?thesis using that dupdate_value [of kv "[]" "concat rs"] by simp
  qed
  with rs(2) assms(2) obtain r where "r \<in> set rs" "(g, v) \<in> set r" by auto
  from mapE_set [OF rs(1) \<open>r \<in> set rs\<close>] obtain f where
    "f \<in> set (map (\<lambda>((f, i), b). f) ?found)" "array_payload specs ?found f = Inr r"
    unfolding set_sort set_remdups by blast
  then show ?thesis using array_payload_fits [OF _ \<open>(g, v) \<in> set r\<close>] guard_bounds_arrays [of _ _ _ specs x "[]"] by fastforce
qed

lemma persistent_prefixes_fit:
  assumes "frame_fits (pq_specs q) guard" "frame_fits (pq_specs q) (pq_defaults q)"
    "p \<in> set (persistent_array_prefixes q guard)"
  shows "prefix_fits (pq_specs q) p"
proof -
  obtain n control row f upper where p: "p = held_over q guard n upper control row"
    "control \<in> set (persistent_controls q f upper)" "row \<in> set (bit_rows (length (persistent_switches q)))"
    using assms(3) by (auto simp: persistent_array_prefixes_def Let_def split: if_splits option.splits dest!: in_set_takeD)
  have rows: "set row \<subseteq> {''0'', ''1''}" if "row \<in> set (bit_rows n)" for n row
    using that by (induction n arbitrary: row) fastforce+
  have "dmem control (pq_specs q)" "bounded_integer (spec_named (pq_specs q) control) (upper + 1) = upper + 1"
    using p(2) by (auto simp: persistent_controls_def Let_def)
  then have c: "frame_fits (pq_specs q) (dset control (show_int (upper + 1)) guard)"
    using in_domain_bounded [of "spec_named (pq_specs q) control" "upper + 1"]
    by (intro frame_fits_dset [OF assms(1)] value_fits_show) auto
  have "frame_fits (pq_specs q) (dupdate (dset control (show_int (upper + 1)) guard) (zip (persistent_switches q) row))"
  proof (rule frame_fits_dupdate [OF c])
    fix f v assume fv: "(f, v) \<in> set (zip (persistent_switches q) row)"
    then have "f \<in> set (persistent_switches q)" "v \<in> set row" by (auto dest: set_zip_leftD set_zip_rightD)
    moreover have "dmem f (pq_specs q)" if "f \<in> set (persistent_switches q)" for f
      using that by (auto simp: persistent_switches_def dest!: in_set_takeD)
    ultimately show "dmem f (pq_specs q) \<and> value_fits (spec_named (pq_specs q) f) v"
      using rows [OF p(3)] value_fits_bit by blast
  qed
  then show ?thesis using p(1) assms(2) by (simp add: held_over_def)
qed

lemma in_concat_map: "x \<in> set (concat (map F xs)) \<longleftrightarrow> (\<exists>y \<in> set xs. x \<in> set (F y))"
  by simp

lemma guard_variants_fit:
  assumes "frame_fits (pq_specs q) active" "frame_fits (pq_specs q) (pq_defaults q)" "p \<in> set (guard_variants q hold active)"
  shows "prefix_fits (pq_specs q) p"
proof -
  obtain f where f: "f \<in> set (take 4 (guard_scalar_fields q))"
    "p \<in> set (map (held_value q hold active f)
      (take 4 (filter (\<lambda>v. in_domain (spec_named (pq_specs q) f) v \<and> dget active f \<noteq> Some (show_int v)) (guard_literals q))))"
    using assms(3) unfolding guard_variants_def in_concat_map by blast
  then obtain v where v: "p = held_value q hold active f v"
    "v \<in> set (filter (\<lambda>v. in_domain (spec_named (pq_specs q) f) v \<and> dget active f \<noteq> Some (show_int v)) (guard_literals q))"
    unfolding set_map by (blast dest: in_set_takeD)
  have p: "p = held_value q hold active f v" "f \<in> set (guard_scalar_fields q)" "in_domain (spec_named (pq_specs q) f) v"
    using v in_set_takeD [OF f(1)] by simp_all
  have "dmem f (pq_specs q)" using p(2) unfolding guard_scalar_fields_def dmem_def set_map set_filter by blast
  then have "frame_fits (pq_specs q) (dset f (show_int v) active)"
    using p(3) by (intro frame_fits_dset [OF assms(1)] value_fits_show)
  then show ?thesis using p(1) assms(2) by (simp add: held_value_def)
qed

lemma obligation_prefixes_fit:
  assumes "frame_fits (pq_specs q) guard" "frame_fits (pq_specs q) (pq_defaults q)"
    "obligation_prefixes q guard x = Inr ps" "p \<in> set ps"
  shows "prefix_fits (pq_specs q) p"
proof -
  obtain vs where vs: "array_guard_values (jget (obj_of x) ''goal_expression'') (pq_specs q) = Inr vs"
    using assms(3) by (cases "array_guard_values (jget (obj_of x) ''goal_expression'') (pq_specs q)")
      (simp_all add: obligation_prefixes_def)
  have "vs \<noteq> []" using assms(3,4) vs by (intro notI) (simp add: obligation_prefixes_def)
  then have ps: "ps = (pq_defaults q # replicate (guard_hold q vs) (dupdate guard vs)) #
      guard_variants q (guard_hold q vs) (dupdate guard vs)"
    using assms(3) vs by (simp add: obligation_prefixes_def)
  have active: "frame_fits (pq_specs q) (dupdate guard vs)"
    using array_guard_fits [OF vs] by (intro frame_fits_dupdate [OF assms(1)])
  from assms(4) consider "p = pq_defaults q # replicate (guard_hold q vs) (dupdate guard vs)"
    | "p \<in> set (guard_variants q (guard_hold q vs) (dupdate guard vs))" unfolding ps by auto
  then show ?thesis
    using assms(2) active guard_variants_fit [OF active assms(2)] by cases simp_all
qed

lemma sweeps_fit:
  assumes "frame_fits (pq_specs q) (pq_defaults q)" "p \<in> set (sweeps q)"
  shows "prefix_fits (pq_specs q) p"
proof -
  obtain f v where p: "p = [dset f (show_int v) (pq_defaults q), dset f (show_int v) (pq_defaults q)]"
    "f \<in> set (integer_fields (pq_abi q))" "in_domain (spec_named (pq_specs q) f) v"
    using assms(2) by (auto simp: sweeps_def Let_def dest!: in_set_takeD)
  have "frame_fits (pq_specs q) (dset f (show_int v) (pq_defaults q))"
    using p(2,3) action_field_dmem(2) [OF p(2)]
    by (intro frame_fits_dset [OF assms(1)] value_fits_show) (simp_all add: pq_specs_def)
  then show ?thesis using p(1) by simp
qed

lemma bool_frame_fits:
  assumes "frame_fits (pq_specs q) frame" "f \<in> set (boolean_fields (pq_abi q))"
  shows "frame_fits (pq_specs q) (dset f ''1'' frame)"
  using action_field_dmem(1) [OF assms(2)] by (intro frame_fits_dset [OF assms(1)] value_fits_bit(2)) (simp add: pq_specs_def)

lemma pairs_in_order_mem: "(a, b) \<in> set (pairs_in_order xs) \<Longrightarrow> a \<in> set xs \<and> b \<in> set xs"
  by (induction xs) auto

lemma permutations_of_mem: "row \<in> set (permutations_of k xs) \<Longrightarrow> length row = k \<and> set row \<subseteq> set xs"
  by (induction k arbitrary: row xs) (fastforce dest: in_set_takeD in_set_dropD)+

lemma write_take_fits:
  assumes "frame_fits (pq_specs q) (pq_defaults q)" "p \<in> set (write_take_prefixes q)"
  shows "prefix_fits (pq_specs q) p"
proof -
  obtain a b v where p: "p = write_take q a b v" "(a, b) \<in> set (pairs_in_order (boolean_fields (pq_abi q)))"
    using assms(2) by (auto simp: write_take_prefixes_def)
  note ab = pairs_in_order_mem [OF p(2)]
  note bits = bool_frame_fits [OF assms(1), of a] bool_frame_fits [OF assms(1), of b]
  have "frame_fits (pq_specs q) (dset f (clamped (pq_specs q) f v) (dset a ''1'' (pq_defaults q)))"
    if "f \<in> set (integer_fields (pq_abi q))" for f
    by (rule frame_fits_dset [OF bits(1) _ value_fits_clamped])
      (use ab action_field_dmem(2) [OF that] in \<open>simp_all add: pq_specs_def\<close>)
  then show ?thesis using p(1) ab bits assms(1)
    by (simp add: write_take_def Let_def split: list.splits)
qed

lemma protocol_fits:
  assumes "frame_fits (pq_specs q) (pq_defaults q)" "p \<in> set (protocol_prefixes q)"
  shows "prefix_fits (pq_specs q) p"
proof -
  obtain gate roles v where p: "p = protocol q gate roles v" "gate \<in> set (boolean_fields (pq_abi q))"
    "roles \<in> set (permutations_of 4 (filter (\<lambda>f. f \<noteq> gate) (boolean_fields (pq_abi q))))"
    using assms(2) by (auto simp: protocol_prefixes_def)
  define low where "low = foldl (\<lambda>d f. dset f (clamped (pq_specs q) f v) d) (dset gate ''1'' (pq_defaults q)) (integer_fields (pq_abi q))"
  have low: "frame_fits (pq_specs q) low" unfolding low_def
    using bool_frame_fits [OF assms(1) p(2)] action_field_dmem(2) value_fits_clamped
    by (intro frame_fits_foldl) (simp_all add: pq_specs_def)
  have "frame_fits (pq_specs q) (dset (roles ! k) ''1'' low)" if "k < 4" for k
    using permutations_of_mem [OF p(3)] that by (intro bool_frame_fits [OF low]) (auto simp: subset_iff nth_mem)
  then have roles: "frame_fits (pq_specs q) (dset (roles ! k) ''1'' low)" if "k \<in> {0, 1, 2, 3}" for k using that by auto
  have "set p \<subseteq> {low, dset (roles ! 0) ''1'' low, dset (roles ! 1) ''1'' low, dset (roles ! 2) ''1'' low, dset (roles ! 3) ''1'' low}"
    using p(1) by (auto simp: protocol_def Let_def low_def [symmetric])
  then show ?thesis using low roles unfolding prefix_fits_def by blast
qed

lemma hold_last_from: "p \<in> set (hold_last ps) \<Longrightarrow> p \<in> set ps \<or> (\<exists>q \<in> set ps. \<exists>r. q \<noteq> [] \<and> p = q @ r) \<or> [] \<in> set ps"
  by (cases "ps = []"; cases "last ps = []") (force simp: hold_last_def dest: in_set_butlastD last_in_set)+

lemma hold_last_fits:
  assumes "\<forall>p \<in> set ps. prefix_fits specs p \<and> p \<noteq> []" "p \<in> set (hold_last ps)"
  shows "prefix_fits specs p"
proof (cases "ps = []")
  case False
  then have "p \<in> set (butlast ps) \<or> p = last ps @ replicate 210 (last (last ps))"
    using assms(2) by (auto simp: hold_last_def)
  moreover have fits: "prefix_fits specs (last ps)" "last (last ps) \<in> set (last ps)" using assms(1) False by auto
  then have "frame_fits specs (last (last ps))" unfolding prefix_fits_def by blast
  ultimately show ?thesis using assms(1) fits(1) by (auto dest: in_set_butlastD)
qed (use assms in \<open>simp add: hold_last_def\<close>)

lemma planned_not_empty:
  "p \<in> set (persistent_array_prefixes q guard) \<Longrightarrow> p \<noteq> []"
  "obligation_prefixes q guard x = Inr ps \<Longrightarrow> p \<in> set ps \<Longrightarrow> p \<noteq> []"
  "p \<in> set (sweeps q) \<Longrightarrow> p \<noteq> []" "p \<in> set (write_take_prefixes q) \<Longrightarrow> p \<noteq> []" "p \<in> set (protocol_prefixes q) \<Longrightarrow> p \<noteq> []"
  by (auto simp: persistent_array_prefixes_def held_over_def obligation_prefixes_def sweeps_def write_take_prefixes_def write_take_def
      protocol_prefixes_def protocol_def guard_variants_def held_value_def Let_def bindE_eq_Inr split: if_splits option.splits)

lemma planned_prefixes_fitting:
  assumes "entries_ok (pq_abi q)" "planned_prefixes q cs = Inr ps" "p \<in> set ps"
  shows "prefix_fits (pq_specs q) p \<and> p \<noteq> []"
proof -
  have defaults: "frame_fits (pq_specs q) (pq_defaults q)"
    using default_frame_fits [OF assms(1)] by (simp add: pq_specs_def pq_defaults_def)
  obtain guard obs where g: "guard_frame q cs = Inr guard"
    "mapE (obligation_prefixes q guard) (list_at (pq_task q) ''control_obligations'') = Inr obs"
    using assms(2) by (auto simp: planned_prefixes_def bindE_eq_Inr)
  note guard = guard_frame_fits [OF assms(1) g(1)]
  define base where "base = (if usable_conditions q cs = [] then [] else [[pq_defaults q, guard, guard, guard, guard]])
    @ persistent_array_prefixes q guard @ concat obs @ sweeps q @ write_take_prefixes q @ protocol_prefixes q"
  define good where "good p \<longleftrightarrow> prefix_fits (pq_specs q) p \<and> p \<noteq> []" for p
  have "\<forall>p \<in> set (concat obs). good p"
    unfolding good_def using mapE_set [OF g(2)] obligation_prefixes_fit [OF guard defaults] planned_not_empty(2) by fastforce
  moreover have "\<forall>p \<in> set (persistent_array_prefixes q guard). good p" "\<forall>p \<in> set (sweeps q). good p"
    "\<forall>p \<in> set (write_take_prefixes q). good p" "\<forall>p \<in> set (protocol_prefixes q). good p"
    unfolding good_def using persistent_prefixes_fit [OF guard defaults] sweeps_fit [OF defaults]
      write_take_fits [OF defaults] protocol_fits [OF defaults] planned_not_empty(1,3-5) by blast+
  moreover have "good [pq_defaults q, guard, guard, guard, guard]" using defaults guard by (simp add: good_def)
  ultimately have base: "\<forall>p \<in> set base. good p" unfolding base_def by (simp add: ball_Un del: set_concat)
  have "ps = (if truthy (jget (pq_task q) ''timers'') then hold_last base else base)"
    using assms(2) g by (auto simp: planned_prefixes_def base_def Let_def split: if_splits)
  then have "p \<in> set base \<or> p \<in> set (hold_last base)" using assms(3) by (auto split: if_splits)
  moreover have "p \<noteq> []" if "p \<in> set (hold_last base)"
    using hold_last_from [OF that] base unfolding good_def by auto
  ultimately show ?thesis using base hold_last_fits [of base "pq_specs q" p] unfolding good_def by blast
qed

end
