(* ===== verification/Goal_Builder.thy ===== *)
theory Goal_Builder
  imports Planned_Prefixes
begin

text \<open>
  The document of goal tasks (\<open>build_goal_tasks\<close> of \<open>fuzzer/pipeline/goal_tasks.py\<close>): the plan's
  tasks with their conditions, timers and state, the planned prefixes, the combined modes appended to
  the tasks the whole target shares, and the bound on the prefixes kept.
\<close>

section \<open>Parts of a task\<close>

record state_slot =
  sl_name :: string
  sl_block :: string
  sl_region :: string
  sl_offset :: json
  sl_ctype :: json

text \<open>The offset comes from the entry, else from the field of the harness region with its index.\<close>

definition harness_region :: "(string, json) dict \<Rightarrow> (string, json) dict option" where
  "harness_region layout =
     find (\<lambda>r. jget r ''source'' = JStr ''harness'') (map obj_of (list_at layout ''regions''))"

definition state_slot_of :: "(string, json) dict option \<Rightarrow> (string, json) dict \<Rightarrow> state_slot" where
  "state_slot_of harness entry =
     (let spec = obj_at entry ''spec'';
          key = ''f'' @ show_int ((if truthy (jget entry ''index'') then int_at entry ''index'' else 1) - 1);
          (region, offset) =
            (if jget entry ''offset'' = JNull \<and> harness \<noteq> None then
               (''semantist_harness_state'',
                case dget (dict_of (map (\<lambda>f. (str_of (jget (obj_of f) ''name''), obj_of f)) (list_at (the harness) ''fields''))) key of
                  None \<Rightarrow> JNull
                | Some field \<Rightarrow> jget field ''offset'')
             else (''instance'', jget entry ''offset''))
      in \<lparr>sl_name = entry_name entry, sl_block = str_of (jget entry ''block_kind''), sl_region = region,
          sl_offset = offset, sl_ctype = jget spec ''c_type''\<rparr>)"

definition state_slice :: "abi_document \<Rightarrow> (string, json) dict \<Rightarrow> state_slot list" where
  "state_slice abi layout =
     map (state_slot_of (harness_region layout))
       (filter (\<lambda>e. jget e ''block_kind'' \<in> {JStr ''VAR'', JStr ''VAR_OUTPUT'', JStr ''VAR_IN_OUT''} \<and>
           jget (obj_at e ''spec'') ''kind'' \<in> {JStr ''scalar'', JStr ''array''})
         (ad_state_fields abi))"

definition TIMER_TYPES :: "string list" where
  "TIMER_TYPES = [''TON'', ''TOF'', ''TP'', ''TON_TIME'', ''TOF_TIME'', ''TP_TIME'', ''TON_LTIME'', ''TOF_LTIME'', ''TP_LTIME'']"

definition timers :: "(string, json) dict \<Rightarrow> (json \<times> string) list" where
  "timers task =
     concat (map (\<lambda>d. let t = py_upper (shown_at (obj_of d) ''type_name'') in
         if t \<in> set TIMER_TYPES then [(jget (obj_of d) ''symbol'', t)] else [])
       (list_at task ''data_dependencies''))"

definition same_condition :: "condition \<Rightarrow> condition \<Rightarrow> bool" where
  "same_condition a b = (cn_field a = cn_field b \<and> cn_op a = cn_op b \<and> same_number (cn_const a) (cn_const b))"

fun dedupe_conditions :: "condition list \<Rightarrow> condition list \<Rightarrow> condition list" where
  "dedupe_conditions seen [] = []"
| "dedupe_conditions seen (c # cs) =
     (if \<exists>s \<in> set seen. same_condition c s then dedupe_conditions seen cs
      else c # dedupe_conditions (c # seen) cs)"

definition task_conditions :: "(string, json) dict \<Rightarrow> condition list" where
  "task_conditions task =
     dedupe_conditions []
       (concat (map (\<lambda>o'. conditions (jget (obj_of o') ''goal_expression'')) (list_at task ''control_obligations'')) @
        conditions (jget task ''terminal_goal_expression''))"

definition goal_class :: "json \<Rightarrow> string" where
  "goal_class kind =
     (if kind = JStr ''hazard_violation'' then ''defect''
      else if kind \<in> JStr ` {''branch'', ''cycle'', ''output'', ''exploration''} then str_of kind else ''exploration'')"

definition OBJECTIVE_HAZARDS :: "string list" where
  "OBJECTIVE_HAZARDS = [''array_access'', ''pointer_access'', ''division'', ''modulo'', ''dangerous_conversion'']"

text \<open>The numbers of a document as sorted integers; the second form truncates floats.\<close>

definition integer_literals :: "json \<Rightarrow> int list" where
  "integer_literals doc = int_set (List.map_filter index_of (collect_literals doc))"

definition sorted_numbers :: "json list \<Rightarrow> json list" where
  "sorted_numbers vs = sort_key (\<lambda>v. case number_of v of Some x \<Rightarrow> x | None \<Rightarrow> 0) vs"

section \<open>One task\<close>

record build_request =
  br_abi :: abi_document
  br_layout :: "(string, json) dict"
  br_plan_tasks :: "(string, json) dict list"
  br_contract :: "string option"
  br_runtime :: "(int, (string, json) dict) dict option"
  br_stg :: "(string, json) dict option"
  br_effect_model :: "(string, json) dict option"
  br_files :: "string \<Rightarrow> string option"
  br_float_text :: "rat \<Rightarrow> string"

record goal_task =
  gt_task_id :: json
  gt_runtime :: json
  gt_stable :: json
  gt_kind :: json
  gt_hazard :: json
  gt_modeling :: json
  gt_source :: json
  gt_plan_modeling :: json
  gt_class :: string
  gt_reach :: "int list"
  gt_polarity :: json
  gt_history :: bool
  gt_fields :: "string list"
  gt_state :: "state_slot list"
  gt_paths :: "(json \<times> condition list) list"
  gt_abstraction :: "(string \<times> int list) list"
  gt_edges :: "string list"
  gt_timers :: "(json \<times> string) list"
  gt_suitable :: bool
  gt_attempts :: int
  gt_queries :: int
  gt_calls :: int
  gt_literals :: "json list"
  gt_prefixes :: "frame_values list list"
  gt_total :: nat
  gt_goal :: json
  gt_obligations :: json

definition runtime_entry :: "build_request \<Rightarrow> json \<Rightarrow> goal_error + (string, json) dict option" where
  "runtime_entry b runtime_id =
     (case br_runtime b of
        None \<Rightarrow> Inr None
      | Some index \<Rightarrow>
          if runtime_id = JNull then Inr None
          else case py_int runtime_id of
            None \<Rightarrow> Inl BadRuntimeId
          | Some i \<Rightarrow>
              (case dget index i of
                 Some entry \<Rightarrow> if is_str (jget entry ''modeling'') then Inr (Some entry) else Inl (MissingModeling i)
               | None \<Rightarrow> Inl (MissingModeling i)))"

definition reach_ids :: "build_request \<Rightarrow> (string, json) dict option \<Rightarrow> int list" where
  "reach_ids b goal_entry =
     (case (br_runtime b, goal_entry) of
        (Some index, Some goal) \<Rightarrow>
          sort (map fst (filter (\<lambda>(i, entry). jget entry ''kind'' = JStr ''hazard_reach'' \<and>
            jget entry ''node_id'' = jget goal ''node_id'' \<and> jget entry ''hazard'' = jget goal ''hazard'') index))
      | _ \<Rightarrow> [])"

definition global_literals :: "build_request \<Rightarrow> int list" where
  "global_literals b = int_set (concat (map (\<lambda>t. integer_literals (JObj t)) (br_plan_tasks b)))"

definition update_reads :: "build_request \<Rightarrow> (string, string list) dict option" where
  "update_reads b =
     map_option (\<lambda>model.
       foldl (\<lambda>d op. if jget op ''kind'' = JStr ''assign'' \<and> is_str (jget op ''target_symbol'')
           then let s = str_of (jget op ''target_symbol'') in
             dset s ((case dget d s of None \<Rightarrow> [] | Some l \<Rightarrow> l) @ texts_at op ''reads'') d
           else d) []
         (concat (map (\<lambda>pou. pou_operations (obj_of pou)) (list_at model ''pous''))))
       (br_stg b)"

definition request_for :: "build_request \<Rightarrow> (string, json) dict \<Rightarrow> prefix_request" where
  "request_for b task =
     \<lparr>pq_abi = br_abi b, pq_task = task, pq_literals = global_literals b, pq_update_reads = update_reads b,
      pq_float_text = br_float_text b\<rparr>"

text \<open>\<open>sequence[-1:]\<close>\<close>

definition last_frame :: "frame_values list \<Rightarrow> frame_values list" where
  "last_frame p = (if p = [] then [] else [last p])"

definition build_task :: "build_request \<Rightarrow> bool \<Rightarrow> (string, json) dict \<Rightarrow> goal_error + goal_task" where
  "build_task b one_frame task =
     (let goal = obj_at task ''terminal_goal_expression''; hazard = jget task ''terminal_hazard'';
          inputs = map entry_name (action_entries (br_abi b)); cs = task_conditions task;
          values = take 8 (integer_literals (JObj task)) in
      bindE (runtime_entry b (jget task ''terminal_runtime_id'')) (\<lambda>entry.
      bindE (planned_prefixes (request_for b task) cs) (\<lambda>ps.
        Inr \<lparr>gt_task_id = jget task ''task_id'', gt_runtime = jget task ''terminal_runtime_id'',
          gt_stable = jget task ''terminal_target_id'', gt_kind = jget task ''terminal_kind'', gt_hazard = hazard,
          gt_modeling = (case entry of None \<Rightarrow> jget task ''modeling_status'' | Some e \<Rightarrow> jget e ''modeling''),
          gt_source = jget goal ''source'', gt_plan_modeling = jget task ''modeling_status'',
          gt_class = goal_class (jget task ''terminal_kind''), gt_reach = reach_ids b entry,
          gt_polarity = jor (jget task ''polarity'') (jget goal ''polarity''),
          gt_history = (\<not> one_frame \<or> truthy (jget task ''temporal_requirements'')), gt_fields = inputs,
          gt_state = state_slice (br_abi b) (br_layout b),
          gt_paths = map (\<lambda>p. (jget (obj_of p) ''path_id'', cs)) (list_at task ''candidate_paths''),
          gt_abstraction = (if values = [] then [] else map (\<lambda>name. (name, values)) inputs),
          gt_edges = map entry_name (filter (\<lambda>e. is_bool (obj_at e ''spec'')) (action_entries (br_abi b))),
          gt_timers = timers task, gt_suitable = (hazard \<in> set (map JStr OBJECTIVE_HAZARDS)),
          gt_attempts = 2000, gt_queries = 20, gt_calls = 2,
          gt_literals = sorted_numbers (collect_literals (JObj task)),
          gt_prefixes = (if one_frame then map last_frame ps else ps), gt_total = 0,
          gt_goal = jget task ''terminal_goal_expression'', gt_obligations = jget task ''control_obligations''\<rparr>)))"

section \<open>Combined modes\<close>

definition combined_step :: "build_request \<Rightarrow> frame_values \<Rightarrow> condition \<Rightarrow> goal_error + frame_values" where
  "combined_step b frame c =
     (let spec = spec_named (action_specs (br_abi b)) (cn_field c) in
      if dmem (cn_field c) frame \<and> is_scalar spec \<and> is_numeric (cn_const c)
      then (case condition_value (br_float_text b) spec (cn_op c) (cn_const c) of
              None \<Rightarrow> Inl BadConstant | Some v \<Rightarrow> Inr (dset (cn_field c) v frame))
      else Inr frame)"

definition combined_frame :: "build_request \<Rightarrow> goal_task list \<Rightarrow> goal_error + frame_values" where
  "combined_frame b tasks =
     foldE (combined_step b) (default_frame (br_abi b)) (concat (map (\<lambda>t. concat (map snd (gt_paths t))) tasks))"

definition mode_masks :: "nat \<Rightarrow> nat list" where
  "mode_masks n = 0 # map (\<lambda>bit. 2 ^ bit) [0..<n] @ [2 ^ n - 1]"

text \<open>\<open>int(v)\<close> of a literal; an infinite one raises.\<close>

definition literal_int :: "json \<Rightarrow> goal_error + int" where
  "literal_int v = (case number_of v of None \<Rightarrow> Inl BadConstant | Some x \<Rightarrow> Inr (int_part x))"

definition spread_values :: "int list \<Rightarrow> int list" where
  "spread_values ts = (if 2 \<le> length ts \<and> Max (set ts) - Min (set ts) \<le> 128 then [Min (set ts)..Max (set ts)] else [])"

definition mode_values :: "goal_task list \<Rightarrow> goal_error + int list" where
  "mode_values tasks =
     bindE (mapE literal_int (concat (map gt_literals tasks))) (\<lambda>vs.
       Inr (int_set (vs @ concat (map (\<lambda>t. concat (map (\<lambda>(f, ts). spread_values ts) (gt_abstraction t))) tasks))))"

definition mode_variants :: "build_request \<Rightarrow> frame_values \<Rightarrow> int list \<Rightarrow> frame_values list" where
  "mode_variants b combined values =
     combined #
     concat (map (\<lambda>f. concat (map (\<lambda>v.
         map (\<lambda>w. dset f (clamped (action_specs (br_abi b)) f w) combined) [v - 1, v, v + 1]) (take 256 values)))
       (take 4 (integer_fields (br_abi b))))"

definition mask_frame :: "string list \<Rightarrow> nat \<Rightarrow> frame_values \<Rightarrow> frame_values" where
  "mask_frame names mode variant =
     foldl (\<lambda>d (i, f). dset f (if bit mode i then ''1'' else ''0'') d) variant (enumerate 0 names)"

definition mode_sequence :: "build_request \<Rightarrow> bool \<Rightarrow> bool \<Rightarrow> frame_values \<Rightarrow> frame_values list" where
  "mode_sequence b one_frame timed frame =
     (if one_frame then [frame] else [default_frame (br_abi b), frame, frame, frame, frame]) @
     (if timed then replicate 210 frame else [])"

definition mode_sequences :: "build_request \<Rightarrow> bool \<Rightarrow> goal_task list \<Rightarrow> goal_error + frame_values list list" where
  "mode_sequences b one_frame tasks =
     bindE (combined_frame b tasks) (\<lambda>combined.
     bindE (mode_values tasks) (\<lambda>values.
       let names = boolean_fields (br_abi b); timed = (\<exists>t \<in> set tasks. gt_timers t \<noteq> []) in
       Inr (concat (map (\<lambda>variant. map (\<lambda>mode. mode_sequence b one_frame timed (mask_frame names mode variant))
           (mode_masks (length names)))
         (take 96 (mode_variants b combined values))))))"

definition shares_modes :: "goal_task list \<Rightarrow> nat \<Rightarrow> bool" where
  "shares_modes tasks k =
     (if \<exists>t \<in> set tasks. gt_hazard t = JStr ''array_access'' then gt_hazard (tasks ! k) = JStr ''array_access''
      else k < length tasks \<and> gt_class (tasks ! k) = ''defect'' \<and> (\<forall>j < k. gt_class (tasks ! j) \<noteq> ''defect''))"

definition finish_task :: "frame_values list list \<Rightarrow> goal_task list \<Rightarrow> nat \<Rightarrow> goal_task" where
  "finish_task modes tasks k =
     (let t = tasks ! k; ps = gt_prefixes t @ (if shares_modes tasks k then modes else []) in
      t\<lparr>gt_total := length ps, gt_prefixes := bounded_prefixes ps k (length tasks)\<rparr>)"

section \<open>The document\<close>

record goal_document =
  gd_contract :: "string option"
  gd_target :: "(string, json) dict"
  gd_effects :: cycle_effects
  gd_single_cycle :: bool
  gd_unknown :: bool
  gd_tasks :: "goal_task list"

definition task_effects :: "build_request \<Rightarrow> cycle_effects" where
  "task_effects b =
     (let e = cycle_effects (br_files b) (br_abi b)
            (case br_effect_model b of None \<Rightarrow> br_stg b | Some m \<Rightarrow> Some m) in
      if \<exists>t \<in> set (br_plan_tasks b). truthy (jget t ''temporal_requirements'')
      then e\<lparr>ce_mode := ''multi_cycle'',
             ce_reasons := sort (remdups (''temporal_requirement'' # ce_reasons e))\<rparr>
      else e)"

definition build_goal_tasks :: "build_request \<Rightarrow> goal_error + goal_document" where
  "build_goal_tasks b =
     (let effects = task_effects b; one_frame = (ce_mode effects \<noteq> ''multi_cycle'') in
      bindE (mapE (build_task b one_frame) (br_plan_tasks b)) (\<lambda>tasks.
      bindE (mode_sequences b one_frame tasks) (\<lambda>modes.
        Inr \<lparr>gd_contract = br_contract b, gd_target = ad_target (br_abi b), gd_effects = effects,
          gd_single_cycle = (ce_mode effects = ''single_cycle''), gd_unknown = (ce_mode effects = ''unknown''),
          gd_tasks = map (finish_task modes tasks) [0..<length tasks]\<rparr>)))"

section \<open>The planned prefixes of a document\<close>

lemma combined_fits:
  assumes "entries_ok (br_abi b)" "combined_frame b tasks = Inr frame"
  shows "frame_fits (action_specs (br_abi b)) frame"
proof (rule foldE_invariant [OF assms(2) [unfolded combined_frame_def]])
  show "frame_fits (action_specs (br_abi b)) (default_frame (br_abi b))" by (rule default_frame_fits [OF assms(1)])
next
  fix s c s' assume s: "frame_fits (action_specs (br_abi b)) s" "combined_step b s c = Inr s'"
  then have "dmem (cn_field c) s \<longleftrightarrow> dmem (cn_field c) (action_specs (br_abi b))"
    by (simp add: frame_fits_def dmem_def)
  with s show "frame_fits (action_specs (br_abi b)) s'"
    by (auto simp: combined_step_def Let_def intro!: frame_fits_dset dest!: condition_value_fits split: if_splits option.splits)
qed

lemma mask_frame_fits:
  assumes "frame_fits (action_specs abi) frame" "set names \<subseteq> set (boolean_fields abi)"
  shows "frame_fits (action_specs abi) (mask_frame names mode frame)"
proof -
  have "frame_fits (action_specs abi) (foldl (\<lambda>d (i, f). dset f (if bit mode i then ''1'' else ''0'') d) frame kvs)"
    if "frame_fits (action_specs abi) frame" "snd ` set kvs \<subseteq> set (boolean_fields abi)" for kvs frame
    using that
  proof (induction kvs arbitrary: frame)
    case (Cons kv kvs)
    obtain i f where kv: "kv = (i, f)" by (cases kv)
    have "frame_fits (action_specs abi) (dset f (if bit mode i then ''1'' else ''0'') frame)"
      using Cons.prems kv action_field_dmem(1) [of f abi] value_fits_bit [of "spec_named (action_specs abi) f"]
      by (intro frame_fits_dset) auto
    then show ?case using Cons.IH Cons.prems(2) kv by simp
  qed simp
  moreover have "snd ` set (enumerate 0 names) = set names" by (metis list.set_map map_snd_enumerate)
  ultimately show ?thesis using assms by (simp add: mask_frame_def)
qed

lemma variant_fits:
  assumes "frame_fits (action_specs (br_abi b)) combined" "frame \<in> set (mode_variants b combined vals)"
  shows "frame_fits (action_specs (br_abi b)) frame"
proof -
  consider "frame = combined"
    | f w where "frame = dset f (clamped (action_specs (br_abi b)) f w) combined" "f \<in> set (integer_fields (br_abi b))"
    using assms(2) unfolding mode_variants_def by (fastforce dest: in_set_takeD)
  then show ?thesis
    using assms(1) action_field_dmem(2) value_fits_clamped by cases (auto intro!: frame_fits_dset)
qed

lemma mode_sequences_fit:
  assumes "entries_ok (br_abi b)" "mode_sequences b one_frame tasks = Inr ps" "p \<in> set ps"
  shows "prefix_fits (action_specs (br_abi b)) p \<and> p \<noteq> []"
proof -
  obtain combined vals where c: "combined_frame b tasks = Inr combined" "mode_values tasks = Inr vals"
    using assms(2) by (auto simp: mode_sequences_def bindE_eq_Inr)
  note combined = combined_fits [OF assms(1) c(1)]
  obtain variant mode timed where p: "p = mode_sequence b one_frame timed (mask_frame (boolean_fields (br_abi b)) mode variant)"
    "variant \<in> set (mode_variants b combined vals)"
    using assms(2,3) c by (auto simp: mode_sequences_def Let_def dest!: in_set_takeD)
  have "frame_fits (action_specs (br_abi b)) (mask_frame (boolean_fields (br_abi b)) mode variant)"
    by (rule mask_frame_fits [OF variant_fits [OF combined p(2)] order_refl])
  then show ?thesis using p(1) default_frame_fits [OF assms(1)] by (simp add: mode_sequence_def)
qed

lemma build_task_fits:
  assumes "entries_ok (br_abi b)" "build_task b one_frame task = Inr t" "p \<in> set (gt_prefixes t)"
  shows "prefix_fits (action_specs (br_abi b)) p \<and> p \<noteq> []"
proof -
  obtain ps where ps: "planned_prefixes (request_for b task) (task_conditions task) = Inr ps"
    "gt_prefixes t = (if one_frame then map last_frame ps else ps)"
    using assms(2) by (auto simp: build_task_def Let_def bindE_eq_Inr)
  have fit: "prefix_fits (action_specs (br_abi b)) q \<and> q \<noteq> []" if "q \<in> set ps" for q
    using planned_prefixes_fitting [of "request_for b task", OF _ ps(1) that] assms(1)
    by (simp add: request_for_def pq_specs_def)
  then show ?thesis using ps(2) assms(3)
    by (auto simp: last_frame_def prefix_fits_def split: if_splits)
qed

lemma shares_modes_sequences: "finish_task modes tasks k = (tasks ! k)\<lparr>gt_total :=
    length (gt_prefixes (tasks ! k) @ (if shares_modes tasks k then modes else [])), gt_prefixes :=
    bounded_prefixes (gt_prefixes (tasks ! k) @ (if shares_modes tasks k then modes else [])) k (length tasks)\<rparr>"
  by (simp add: finish_task_def Let_def)

text \<open>
  (C19) The document has a goal task for each task of the plan, in order; a task keeps at most 96 of
  its planned prefixes and records how many there were; no kept prefix is empty, and each of its
  frames gives exactly the action fields of the interface a value, where every integer lies in the
  range of its type. A document marked single-cycle has a plan without temporal requirements and
  effects that need no second cycle.
\<close>

theorem goal_prefixes_fit:
  assumes "entries_ok (br_abi b)" "build_goal_tasks b = Inr d"
  shows "map gt_task_id (gd_tasks d) = map (\<lambda>t. jget t ''task_id'') (br_plan_tasks b) \<and>
    (\<forall>t \<in> set (gd_tasks d). length (gt_prefixes t) = min (gt_total t) MAX_PLANNED_PREFIXES_PER_TASK \<and>
       (\<forall>p \<in> set (gt_prefixes t). p \<noteq> [] \<and> (\<forall>frame \<in> set p. frame_fits (action_specs (br_abi b)) frame))) \<and>
    (gd_single_cycle d \<longrightarrow> ce_mode (task_effects b) = ''single_cycle'' \<and>
       (\<forall>t \<in> set (br_plan_tasks b). \<not> truthy (jget t ''temporal_requirements'')))"
proof -
  let ?one = "ce_mode (task_effects b) \<noteq> ''multi_cycle''"
  obtain tasks modes where b: "mapE (build_task b ?one) (br_plan_tasks b) = Inr tasks"
    "mode_sequences b ?one tasks = Inr modes" "gd_tasks d = map (finish_task modes tasks) [0..<length tasks]"
    "gd_single_cycle d \<longleftrightarrow> ce_mode (task_effects b) = ''single_cycle''"
    using assms(2) by (auto simp: build_goal_tasks_def Let_def bindE_eq_Inr)
  have ids: "list_all2 (\<lambda>task t. gt_task_id t = jget task ''task_id'') (br_plan_tasks b) tasks"
    using mapE_Inr_all2 [OF b(1)]
    by (rule list_all2_mono) (auto simp: build_task_def Let_def bindE_eq_Inr)
  then have "map gt_task_id tasks = map (\<lambda>t. jget t ''task_id'') (br_plan_tasks b)"
    by (auto simp: list_all2_conv_all_nth intro: nth_equalityI)
  moreover have "map gt_task_id (gd_tasks d) = map gt_task_id tasks"
    unfolding b(3) by (auto simp: shares_modes_sequences intro: nth_equalityI)
  moreover have "length (gt_prefixes t) = min (gt_total t) MAX_PLANNED_PREFIXES_PER_TASK \<and>
      (\<forall>p \<in> set (gt_prefixes t). p \<noteq> [] \<and> (\<forall>frame \<in> set p. frame_fits (action_specs (br_abi b)) frame))"
    if "t \<in> set (gd_tasks d)" for t
  proof -
    have "\<exists>k. k < length tasks \<and> t = finish_task modes tasks k" using that unfolding b(3) by auto
    then obtain k where k: "k < length tasks" "t = finish_task modes tasks k" by blast
    let ?ps = "gt_prefixes (tasks ! k) @ (if shares_modes tasks k then modes else [])"
    have t: "gt_total t = length ?ps" "gt_prefixes t = bounded_prefixes ?ps k (length tasks)"
      using k(2) by (simp_all add: shares_modes_sequences)
    note spread = bounded_prefixes_kept [OF k(1), of ?ps]
    have "prefix_fits (action_specs (br_abi b)) p \<and> p \<noteq> []" if "p \<in> set ?ps" for p
    proof -
      obtain task where "build_task b ?one task = Inr (tasks ! k)"
        using mapE_set [OF b(1), of "tasks ! k"] k(1) by auto
      from build_task_fits [OF assms(1) this] mode_sequences_fit [OF assms(1) b(2)] that show ?thesis
        by (auto split: if_splits)
    qed
    moreover have "set (bounded_prefixes ?ps k (length tasks)) \<subseteq> set ?ps"
      using list_emb_set [of "(=)" "bounded_prefixes ?ps k (length tasks)" ?ps] spread by blast
    ultimately have "\<forall>p \<in> set (gt_prefixes t). prefix_fits (action_specs (br_abi b)) p \<and> p \<noteq> []"
      unfolding t(2) by blast
    then show ?thesis using spread t(1) unfolding t(2) prefix_fits_def by simp
  qed
  ultimately show ?thesis using b(4) by (auto simp: task_effects_def Let_def split: if_splits)
qed

definition demo_guard :: json where
  "demo_guard = JObj [(''kind'', JObj [(''kind'', JStr ''binary''), (''operator'', JStr ''>'')]),
     (''operands'', JList
       [JObj [(''kind'', JObj [(''kind'', JStr ''variable''), (''qualified_name'', JStr ''Clamp.X'')])],
        JObj [(''kind'', JObj [(''kind'', JStr ''literal''), (''value'', JObj [(''value'', JInt 5)])])]])]"

definition demo_build :: build_request where
  "demo_build = \<lparr>br_abi = demo_abi_document, br_layout = [],
     br_plan_tasks = [[(''task_id'', JStr ''t1''), (''terminal_kind'', JStr ''hazard_violation''),
       (''terminal_goal_expression'', demo_guard)]],
     br_contract = None, br_runtime = None, br_stg = Some demo_model, br_effect_model = None,
     br_files = (\<lambda>_. None), br_float_text = (\<lambda>_. [])\<rparr>"

lemma demo_build_succeeds:
  "entries_ok (br_abi demo_build) \<and>
   (case build_goal_tasks demo_build of Inl e \<Rightarrow> False
      | Inr d \<Rightarrow> gd_single_cycle d \<and> map gt_prefixes (gd_tasks d) \<noteq> [])"
  by code_simp

lemma goal_prefixes_fit_witness:
  "\<exists>d. build_goal_tasks demo_build = Inr d \<and>
     (\<forall>t \<in> set (gd_tasks d). length (gt_prefixes t) = min (gt_total t) MAX_PLANNED_PREFIXES_PER_TASK)"
proof -
  obtain d where "build_goal_tasks demo_build = Inr d" using demo_build_succeeds by (auto split: sum.splits)
  with goal_prefixes_fit [of demo_build d] demo_build_succeeds show ?thesis by blast
qed

end
