(* ===== verification/Native_Probe.thy ===== *)
theory Native_Probe
  imports Goal_Builder
begin

text \<open>
  What a native run shows: the observation decoded from its outputs and its classification as a
  candidate finding (\<open>fuzzer/pipeline/probe.py\<close>), and the audit of the probes against the risks of the
  source, with the taint of pointer values it rests on (\<open>fuzzer/pipeline/probe_audit.py\<close>). The
  process itself is a parameter: its exit, its error output and the lines of its two trace files.
\<close>

section \<open>Platform assumptions\<close>

definition as_int :: "json \<Rightarrow> int" where
  "as_int v = (case py_int v of Some i \<Rightarrow> i | None \<Rightarrow> 0)"

definition named_types :: "json list \<Rightarrow> (string, (string, json) dict) dict" where
  "named_types items = dict_of (map (\<lambda>i. (py_upper (shown_at (obj_of i) ''name''), obj_of i)) items)"

definition type_named :: "(string, (string, json) dict) dict \<Rightarrow> json \<Rightarrow> (string, json) dict" where
  "type_named tys name =
     (case dget tys (py_upper (if truthy name then py_str name else [])) of None \<Rightarrow> [] | Some t \<Rightarrow> t)"

definition pou_symbol_types :: "(string, json) dict \<Rightarrow> (string, json) dict" where
  "pou_symbol_types pou =
     dict_of (map (\<lambda>i. (str_of (jget (obj_of i) ''qualified_name''), jget (obj_of i) ''type_name'')) (pou_symbols pou))"

definition pointer_symbols :: "(string, (string, json) dict) dict \<Rightarrow> (string, json) dict \<Rightarrow> string list" where
  "pointer_symbols tys symbols =
     map fst (filter (\<lambda>(name, t). jget (type_named tys t) ''kind'' = JStr ''pointer'') symbols)"

definition pointer_width :: "(string, (string, json) dict) dict \<Rightarrow> (string, json) dict \<Rightarrow> int" where
  "pointer_width tys symbols =
     foldl max 0 (map (\<lambda>(name, t). as_int (jor (jget (type_named tys t) ''bit_width'') (JInt 0)))
       (filter (\<lambda>(name, t). jget (type_named tys t) ''kind'' = JStr ''pointer'') symbols))"

definition assignments_of :: "(string, json) dict \<Rightarrow> (string, json) dict list" where
  "assignments_of pou = filter (\<lambda>op. jget op ''kind'' = JStr ''assign'') (pou_operations pou)"

record assumption =
  as_source :: "(string, json) dict"
  as_pointer_bits :: int
  as_integer_bits :: int
  as_target :: string

record taint_state =
  tt_tainted :: "string set"
  tt_found :: "(string \<times> int, assumption) dict"
  tt_changed :: bool

record taint_env =
  te_types :: "(string, (string, json) dict) dict"
  te_symbols :: "(string, json) dict"
  te_width :: int

definition op_target :: "(string, json) dict \<Rightarrow> string" where
  "op_target op = str_of (jget op ''target_symbol'')"

definition op_active :: "string set \<Rightarrow> (string, json) dict \<Rightarrow> bool" where
  "op_active tainted op = (op_target op \<noteq> [] \<and> tainted \<inter> set (texts_at op ''reads'') \<noteq> {})"

definition target_type :: "taint_env \<Rightarrow> (string, json) dict \<Rightarrow> (string, json) dict" where
  "target_type env op = type_named (te_types env)
     (case dget (te_symbols env) (op_target op) of None \<Rightarrow> JNull | Some t \<Rightarrow> t)"

definition target_width :: "taint_env \<Rightarrow> (string, json) dict \<Rightarrow> int" where
  "target_width env op = as_int (jor (jor (jget (target_type env op) ''semantic_bit_width'')
     (jget (target_type env op) ''bit_width'')) (JInt 0))"

definition op_narrows :: "taint_env \<Rightarrow> (string, json) dict \<Rightarrow> bool" where
  "op_narrows env op =
     (jget (target_type env op) ''kind'' = JStr ''integer'' \<and> 0 < target_width env op \<and> target_width env op < te_width env)"

definition op_place :: "(string, json) dict \<Rightarrow> string \<times> int" where
  "op_place op = (let source = obj_at op ''source'' in
     (shown_at source ''file'', as_int (jor (jget source ''start_line'') (JInt 0))))"

definition taint_step :: "taint_env \<Rightarrow> taint_state \<Rightarrow> (string, json) dict \<Rightarrow> taint_state" where
  "taint_step env s op =
     (if \<not> op_active (tt_tainted s) op then s
      else let s = (if op_narrows env op
             then s\<lparr>tt_found := dset (op_place op) \<lparr>as_source = obj_at op ''source'', as_pointer_bits = te_width env,
                      as_integer_bits = target_width env op, as_target = op_target op\<rparr> (tt_found s)\<rparr>
             else s) in
        if op_target op \<notin> tt_tainted s
        then s\<lparr>tt_tainted := insert (op_target op) (tt_tainted s), tt_changed := True\<rparr> else s)"

definition taint_pass :: "taint_env \<Rightarrow> (string, json) dict list \<Rightarrow> taint_state \<Rightarrow> taint_state" where
  "taint_pass env ops s = foldl (taint_step env) (s\<lparr>tt_changed := False\<rparr>) ops"

fun taint_rounds :: "nat \<Rightarrow> taint_env \<Rightarrow> (string, json) dict list \<Rightarrow> taint_state \<Rightarrow> taint_state" where
  "taint_rounds 0 env ops s = s"
| "taint_rounds (Suc n) env ops s =
     (let s' = taint_pass env ops s in if tt_changed s' then taint_rounds n env ops s' else s')"

definition taint_env_of :: "(string, json) dict \<Rightarrow> (string, (string, json) dict) dict \<Rightarrow> taint_env" where
  "taint_env_of pou tys = \<lparr>te_types = tys, te_symbols = pou_symbol_types pou,
     te_width = pointer_width tys (pou_symbol_types pou)\<rparr>"

definition taint_start :: "taint_env \<Rightarrow> taint_state" where
  "taint_start env = \<lparr>tt_tainted = set (pointer_symbols (te_types env) (te_symbols env)), tt_found = [], tt_changed = False\<rparr>"

definition platform_assumptions ::
    "(string, json) dict \<Rightarrow> (string, (string, json) dict) dict \<Rightarrow> ((string \<times> int) \<times> assumption) list" where
  "platform_assumptions pou tys =
     (let env = taint_env_of pou tys; ops = assignments_of pou in
      if te_width env = 0 then [] else tt_found (taint_rounds (length ops + 1) env ops (taint_start env)))"

subsection \<open>The taint is exact\<close>

inductive_set derived :: "string set \<Rightarrow> (string, json) dict list \<Rightarrow> string set"
    for starts :: "string set" and ops :: "(string, json) dict list" where
  derived_start: "x \<in> starts \<Longrightarrow> x \<in> derived starts ops"
| derived_step: "op \<in> set ops \<Longrightarrow> op_target op \<noteq> [] \<Longrightarrow> x \<in> derived starts ops \<Longrightarrow> x \<in> set (texts_at op ''reads'') \<Longrightarrow>
    op_target op \<in> derived starts ops"

definition places :: "taint_state \<Rightarrow> (string \<times> int) set" where
  "places s = set (dkeys (tt_found s))"

definition taint_sound :: "taint_env \<Rightarrow> string set \<Rightarrow> (string, json) dict list \<Rightarrow> taint_state \<Rightarrow> bool" where
  "taint_sound env starts ops s =
     (starts \<subseteq> tt_tainted s \<and> tt_tainted s \<subseteq> derived starts ops \<and>
      (\<forall>k \<in> places s. \<exists>op \<in> set ops. op_place op = k \<and> op_narrows env op \<and>
         op_active (derived starts ops) op))"

lemma op_active_mono: "op_active A op \<Longrightarrow> A \<subseteq> B \<Longrightarrow> op_active B op"
  by (auto simp: op_active_def)

lemma taint_step_fields:
  "tt_tainted (taint_step env s op) =
     (if op_active (tt_tainted s) op then insert (op_target op) (tt_tainted s) else tt_tainted s)"
  "tt_changed (taint_step env s op) = (tt_changed s \<or> (op_active (tt_tainted s) op \<and> op_target op \<notin> tt_tainted s))"
  "places (taint_step env s op) =
     (if op_active (tt_tainted s) op \<and> op_narrows env op then insert (op_place op) (places s)
      else places s)"
  by (auto simp: places_def taint_step_def Let_def set_dkeys_dset)

lemma taint_step_sound:
  assumes "taint_sound env starts ops s" "op \<in> set ops"
  shows "taint_sound env starts ops (taint_step env s op)"
proof -
  have sub: "tt_tainted s \<subseteq> derived starts ops" using assms(1) by (simp add: taint_sound_def)
  have d: "op_target op \<in> derived starts ops" if a: "op_active (tt_tainted s) op"
  proof -
    obtain x where "x \<in> tt_tainted s" "x \<in> set (texts_at op ''reads'')" using a by (auto simp: op_active_def)
    then show ?thesis using a sub assms(2) derived_step [of op ops x starts] by (auto simp: op_active_def)
  qed
  show ?thesis using assms d op_active_mono [OF _ sub, of op]
    unfolding taint_sound_def taint_step_fields by auto
qed

lemma taint_fold_sound:
  "taint_sound env starts ops s \<Longrightarrow> set ys \<subseteq> set ops \<Longrightarrow> taint_sound env starts ops (foldl (taint_step env) s ys)"
  by (induction ys arbitrary: s) (auto intro: taint_step_sound)

lemma taint_pass_sound: "taint_sound env starts ops s \<Longrightarrow> taint_sound env starts ops (taint_pass env ops s)"
  unfolding taint_pass_def by (rule taint_fold_sound) (auto simp: taint_sound_def places_def)

lemma taint_rounds_sound: "taint_sound env starts ops s \<Longrightarrow> taint_sound env starts ops (taint_rounds n env ops s)"
  by (induction n arbitrary: s) (auto simp: Let_def taint_pass_sound)

text \<open>A pass that changes nothing has seen every operation with the final taint.\<close>

lemma taint_fold_changed: "tt_changed s \<Longrightarrow> tt_changed (foldl (taint_step env) s ys)"
  by (induction ys arbitrary: s) (auto simp: taint_step_fields)

lemma taint_fold_keys: "places s \<subseteq> places (foldl (taint_step env) s ys)"
proof (induction ys arbitrary: s)
  case (Cons y ys)
  have "places s \<subseteq> places (taint_step env s y)" by (auto simp: taint_step_fields)
  then show ?case using Cons [of "taint_step env s y"] by auto
qed simp

lemma taint_fold_unchanged:
  assumes "\<not> tt_changed (foldl (taint_step env) s ys)"
  shows "tt_tainted (foldl (taint_step env) s ys) = tt_tainted s \<and>
    (\<forall>op \<in> set ys. op_active (tt_tainted s) op \<longrightarrow> op_target op \<in> tt_tainted s \<and>
      (op_narrows env op \<longrightarrow> op_place op \<in> places (foldl (taint_step env) s ys)))"
  using assms
proof (induction ys arbitrary: s)
  case (Cons y ys)
  let ?s = "taint_step env s y"
  have nc: "\<not> tt_changed ?s" using Cons.prems taint_fold_changed [of ?s env ys] by auto
  then have same: "tt_tainted ?s = tt_tainted s" by (auto simp: taint_step_fields)
  have y: "op_target y \<in> tt_tainted s \<and> (op_narrows env y \<longrightarrow> op_place y \<in> places (foldl (taint_step env) ?s ys))"
    if "op_active (tt_tainted s) y"
    using that nc taint_fold_keys [of ?s env ys] by (auto simp: taint_step_fields)
  show ?case using Cons.IH [of ?s] Cons.prems same y by auto
qed simp

lemma taint_fold_mono: "tt_tainted s \<subseteq> tt_tainted (foldl (taint_step env) s ys)"
proof (induction ys arbitrary: s)
  case (Cons y ys)
  have "tt_tainted s \<subseteq> tt_tainted (taint_step env s y)" by (auto simp: taint_step_fields)
  then show ?case using Cons [of "taint_step env s y"] by auto
qed simp

lemma taint_fold_grows:
  assumes "tt_changed (foldl (taint_step env) s ys)" "\<not> tt_changed s"
  shows "\<exists>op \<in> set ys. op_target op \<notin> tt_tainted s \<and> op_target op \<in> tt_tainted (foldl (taint_step env) s ys)"
  using assms
proof (induction ys arbitrary: s)
  case (Cons y ys)
  let ?s = "taint_step env s y"
  show ?case
  proof (cases "tt_changed ?s")
    case True
    then have "op_active (tt_tainted s) y" "op_target y \<notin> tt_tainted s" using Cons.prems(2) by (auto simp: taint_step_fields)
    moreover then have "op_target y \<in> tt_tainted (foldl (taint_step env) ?s ys)"
      using taint_fold_mono [of ?s env ys] by (auto simp: taint_step_fields)
    ultimately show ?thesis by auto
  next
    case False
    then have "tt_tainted s = tt_tainted ?s" using Cons.prems(2) by (auto simp: taint_step_fields)
    then show ?thesis using Cons.IH [of ?s] Cons.prems(1) False by auto
  qed
qed simp

definition taint_stable :: "taint_env \<Rightarrow> (string, json) dict list \<Rightarrow> taint_state \<Rightarrow> bool" where
  "taint_stable env ops s =
     (\<forall>op \<in> set ops. op_active (tt_tainted s) op \<longrightarrow> op_target op \<in> tt_tainted s \<and>
        (op_narrows env op \<longrightarrow> op_place op \<in> places s))"

lemma taint_rounds_stable:
  "card (op_target ` set ops - tt_tainted s) < n \<Longrightarrow> taint_stable env ops (taint_rounds n env ops s)"
proof (induction n arbitrary: s)
  case (Suc n)
  let ?s = "taint_pass env ops s"
  show ?case
  proof (cases "tt_changed ?s")
    case True
    then obtain op where op: "op \<in> set ops" "op_target op \<notin> tt_tainted s" "op_target op \<in> tt_tainted ?s"
      using taint_fold_grows [of env "s\<lparr>tt_changed := False\<rparr>" ops] by (auto simp: taint_pass_def)
    have "tt_tainted s \<subseteq> tt_tainted ?s"
      using taint_fold_mono [of "s\<lparr>tt_changed := False\<rparr>" env ops] by (simp add: taint_pass_def)
    then have "card (op_target ` set ops - tt_tainted ?s) < card (op_target ` set ops - tt_tainted s)"
      using op by (intro psubset_card_mono) auto
    then show ?thesis using Suc True by simp
  next
    case False
    then have "taint_stable env ops ?s"
      using taint_fold_unchanged [of env "s\<lparr>tt_changed := False\<rparr>" ops] by (auto simp: taint_stable_def taint_pass_def places_def)
    then show ?thesis using False by simp
  qed
qed simp

lemma stable_is_derived:
  assumes "taint_stable env ops s" "taint_sound env starts ops s"
  shows "tt_tainted s = derived starts ops"
proof
  show "tt_tainted s \<subseteq> derived starts ops" using assms(2) by (simp add: taint_sound_def)
  show "derived starts ops \<subseteq> tt_tainted s"
  proof
    fix x assume "x \<in> derived starts ops"
    then show "x \<in> tt_tainted s"
    proof induction
      case (derived_start x)
      then show ?case using assms(2) by (auto simp: taint_sound_def)
    next
      case (derived_step op x)
      then have "op_active (tt_tainted s) op" by (auto simp: op_active_def)
      then show ?case using assms(1) derived_step(1) by (simp add: taint_stable_def)
    qed
  qed
qed

text \<open>
  (C20) The search for pointer values stored in narrower integers ends within its rounds and is exact:
  a place is reported exactly when an assignment there reads a symbol derived from a pointer, through
  any number of assignments in any order, and stores it in an integer narrower than a pointer.
\<close>

theorem platform_assumptions_exact:
  "set (dkeys (platform_assumptions pou tys)) =
     (if te_width (taint_env_of pou tys) = 0 then {}
      else op_place ` {op \<in> set (assignments_of pou). op_narrows (taint_env_of pou tys) op \<and>
        op_active (derived (set (pointer_symbols tys (pou_symbol_types pou))) (assignments_of pou)) op})"
proof (cases "te_width (taint_env_of pou tys) = 0")
  case False
  define env ops starts where defs: "env = taint_env_of pou tys" "ops = assignments_of pou"
    "starts = set (pointer_symbols tys (pou_symbol_types pou))"
  define s where "s = taint_rounds (length ops + 1) env ops (taint_start env)"
  have start: "taint_sound env starts ops (taint_start env)"
    by (auto simp: places_def taint_sound_def taint_start_def defs taint_env_of_def intro: derived_start)
  have "card (op_target ` set ops - tt_tainted (taint_start env)) \<le> card (op_target ` set ops)"
    by (intro card_mono) auto
  also have "\<dots> \<le> length ops" using card_image_le [of "set ops" op_target] card_length [of ops] by simp
  finally have stable: "taint_stable env ops s" unfolding s_def by (intro taint_rounds_stable) simp
  have sound: "taint_sound env starts ops s" unfolding s_def by (rule taint_rounds_sound [OF start])
  note d = stable_is_derived [OF stable sound]
  have "places s = op_place ` {op \<in> set ops. op_narrows env op \<and> op_active (derived starts ops) op}"
  proof (intro equalityI subsetI)
    fix k assume "k \<in> places s"
    then show "k \<in> op_place ` {op \<in> set ops. op_narrows env op \<and> op_active (derived starts ops) op}"
      using sound unfolding taint_sound_def by (auto simp: image_iff Bex_def)
  next
    fix k assume "k \<in> op_place ` {op \<in> set ops. op_narrows env op \<and> op_active (derived starts ops) op}"
    then show "k \<in> places s" using stable unfolding taint_stable_def d by blast
  qed
  then show ?thesis using False by (simp add: platform_assumptions_def Let_def s_def defs places_def)
qed (simp add: platform_assumptions_def Let_def)

section \<open>Audit of the probes\<close>

definition risk_kind ::
    "(string, json) dict \<Rightarrow> (string, (string, json) dict) dict \<Rightarrow> (string, (string, json) dict) dict \<Rightarrow> string option" where
  "risk_kind e expressions tys =
     (let kind = obj_at e ''kind''; name = jget kind ''kind''; op = py_upper (shown_at kind ''operator'') in
      if name = JStr ''array_index'' then Some ''array_access''
      else if name = JStr ''cast'' then Some ''dangerous_conversion''
      else if name = JStr ''binary'' \<and> op \<in> {''+'', ''-'', ''*'', ''**''} then Some ''arithmetic_boundary''
      else if name = JStr ''binary'' \<and> op = ''/'' then Some ''division''
      else if name = JStr ''binary'' \<and> op = ''MOD'' then Some ''modulo''
      else if name = JStr ''call'' \<and> contains ''_TO_'' (py_upper (shown_at kind ''callee'')) then
        (let operands = list_at e ''operands'';
             source = (case operands of [] \<Rightarrow> [] | x # xs \<Rightarrow>
               (case dget expressions (str_of x) of None \<Rightarrow> [] | Some d \<Rightarrow> d)) in
         if jget (type_named tys (jget source ''type_name'')) ''kind'' = JStr ''float'' \<and>
            jget (type_named tys (jget e ''type_name'')) ''kind'' = JStr ''integer''
         then Some ''dangerous_conversion'' else None)
      else None)"

record risk =
  rk_pou :: json
  rk_expression :: string
  rk_kind :: string
  rk_source :: json
  rk_status :: string
  rk_runtime :: "int list"
  rk_mapped :: "int list"
  rk_tasks :: "int list option"

record audit_input =
  ai_pous :: "(string, json) dict list"
  ai_entries :: "(string, json) dict list"
  ai_mappings :: "(string, json) dict list"
  ai_tasks :: "int list option"

definition runtime_by_node :: "audit_input \<Rightarrow> string \<Rightarrow> (string, json) dict list" where
  "runtime_by_node a node =
     filter (\<lambda>e. jget e ''kind'' = JStr ''hazard_violation'' \<and> py_str (jget e ''node_id'') = node) (ai_entries a)"

definition mapped_runtime :: "audit_input \<Rightarrow> int set" where
  "mapped_runtime a =
     (\<lambda>e. as_int (jget e ''runtime_id'')) ` {e \<in> set (ai_mappings a). jget e ''mapping_kind'' = JStr ''hazard_violation''}"

definition pou_types :: "(string, json) dict \<Rightarrow> (string, (string, json) dict) dict" where
  "pou_types pou = named_types (list_at (obj_at pou ''environment'') ''types'')"

definition pou_expressions :: "(string, json) dict \<Rightarrow> (string, (string, json) dict) dict" where
  "pou_expressions pou =
     dict_of (map (\<lambda>i. (str_of (jget (obj_of i) ''id''), obj_of i)) (list_at (obj_at pou ''environment'') ''expressions''))"

definition narrowing_assignment :: "(string, json) dict \<Rightarrow> bool" where
  "narrowing_assignment op =
     (jget op ''kind'' = JStr ''assign'' \<and> truthy (jget (obj_at op ''conversion'') ''potentially_narrowing'') \<and>
      truthy (jget op ''value''))"

definition expected_risks :: "(string, json) dict \<Rightarrow> (string \<times> string, json) dict" where
  "expected_risks pou =
     (let expressions = pou_expressions pou;
          direct = dict_of (concat (map (\<lambda>(i, e). case risk_kind e expressions (pou_types pou) of
             None \<Rightarrow> [] | Some k \<Rightarrow> [((py_str (jget e ''id''), k), jget e ''source'')]) expressions)) in
      foldl (\<lambda>d op. dsetdefault (py_str (jget op ''value''), ''dangerous_conversion'') (jget op ''source'') d) direct
        (filter narrowing_assignment (pou_operations pou)))"

definition hazard_nodes :: "(string, json) dict \<Rightarrow> string \<times> string \<Rightarrow> (string, json) dict list" where
  "hazard_nodes pou key =
     filter (\<lambda>n. obj_at n ''hazard'' \<noteq> [] \<and> jget (obj_at n ''hazard'') ''expression_id'' = JStr (fst key) \<and>
         jget (obj_at n ''hazard'') ''kind'' = JStr (snd key))
       (map obj_of (list_at (obj_at pou ''graph'') ''nodes''))"

definition risk_targets :: "audit_input \<Rightarrow> (string, json) dict \<Rightarrow> string \<times> string \<Rightarrow> (string, json) dict list" where
  "risk_targets a pou key =
     concat (map (\<lambda>n. runtime_by_node a (py_str (jget n ''id''))) (hazard_nodes pou key))"

definition runtime_ids_of :: "(string, json) dict list \<Rightarrow> int list" where
  "runtime_ids_of = map (\<lambda>t. as_int (jget t ''runtime_id''))"

definition risk_mapped :: "audit_input \<Rightarrow> (string, json) dict list \<Rightarrow> int list" where
  "risk_mapped a targets = filter (\<lambda>i. i \<in> mapped_runtime a) (runtime_ids_of targets)"

definition risk_status :: "audit_input \<Rightarrow> (string, json) dict \<Rightarrow> string \<times> string \<Rightarrow> string" where
  "risk_status a pou key =
     (let targets = risk_targets a pou key; ids = risk_mapped a targets in
      if hazard_nodes pou key = [] then ''MISSING_SOURCE_TARGET''
      else if targets = [] then ''MISSING_RUNTIME_TARGET''
      else if \<exists>t \<in> set targets. jget t ''violation_predicate'' = JNull then ''MISSING_PREDICATE''
      else if ids = [] then ''MISSING_IR_PROBE''
      else if (case ai_tasks a of None \<Rightarrow> False | Some ts \<Rightarrow> set ts \<inter> set ids = {}) then ''MISSING_SEARCH_TASK''
      else ''INSTRUMENTED'')"

definition audit_risk :: "audit_input \<Rightarrow> (string, json) dict \<Rightarrow> (string \<times> string) \<times> json \<Rightarrow> risk" where
  "audit_risk a pou r =
     (let targets = risk_targets a pou (fst r); ids = risk_mapped a targets in
      \<lparr>rk_pou = jget (obj_at pou ''pou'') ''qualified_name'', rk_expression = fst (fst r), rk_kind = snd (fst r),
       rk_source = snd r, rk_status = risk_status a pou (fst r), rk_runtime = runtime_ids_of targets, rk_mapped = ids,
       rk_tasks = map_option (\<lambda>ts. int_set (filter (\<lambda>i. i \<in> set ids) ts)) (ai_tasks a)\<rparr>)"

record audit =
  au_status :: string
  au_risks :: "risk list"
  au_incomplete :: nat
  au_assumptions :: "assumption list"

text \<open>An unreadable document is \<open>None\<close>.\<close>

definition audit_probe_completeness :: "audit_input option \<Rightarrow> audit" where
  "audit_probe_completeness input = (case input of
     None \<Rightarrow> \<lparr>au_status = ''FAILED'', au_risks = [], au_incomplete = 0, au_assumptions = []\<rparr>
   | Some a \<Rightarrow>
       (let risks = concat (map (\<lambda>pou. map (audit_risk a pou) (expected_risks pou)) (ai_pous a));
            assumptions = concat (map (\<lambda>pou. map snd (platform_assumptions pou (pou_types pou))) (ai_pous a));
            incomplete = length (filter (\<lambda>r. rk_status r \<noteq> ''INSTRUMENTED'') risks) in
        \<lparr>au_status = (if incomplete \<noteq> 0 \<or> assumptions \<noteq> [] then ''INCOMPLETE'' else ''COMPLETE''),
         au_risks = risks, au_incomplete = incomplete, au_assumptions = assumptions\<rparr>))"

section \<open>The runtime index\<close>

definition is_pending_narrowing :: "(string, json) dict \<Rightarrow> bool" where
  "is_pending_narrowing e =
     (jget (obj_at e ''violation_predicate'') ''kind'' = JStr ''narrowing'' \<and> jget e ''modeling'' = JStr ''conservative'')"

definition assumption_keys :: "(string, json) dict list \<Rightarrow> (json \<times> string \<times> json \<times> int \<times> int) set" where
  "assumption_keys pous =
     set (concat (map (\<lambda>pou. map (\<lambda>(k, a). (jget (obj_at pou ''pou'') ''qualified_name'',
         py_str (jget (as_source a) ''file''), jget (as_source a) ''start_line'', as_pointer_bits a, as_integer_bits a))
       (platform_assumptions pou (pou_types pou))) pous))"

definition mark_narrowing :: "(json \<times> string \<times> json \<times> int \<times> int) set \<Rightarrow> (string, json) dict \<Rightarrow> (string, json) dict" where
  "mark_narrowing keys e =
     (let predicate = obj_at e ''violation_predicate''; source = obj_at e ''source'' in
      if jget predicate ''kind'' = JStr ''narrowing'' \<and>
         (jget e ''pou'', py_str (jget source ''file''), jget source ''start_line'',
          as_int (jget predicate ''source_bit_width''), as_int (jget predicate ''target_bit_width'')) \<in> keys
      then dset ''platform_pointer_narrowing'' (JBool True) e else e)"

type_synonym runtime_index = "(int, (string, json) dict) dict"

text \<open>\<open>model\<close> is the STG document beside the index, \<open>None\<close> when it cannot be read.\<close>

definition load_runtime_index :: "(string, json) dict \<Rightarrow> (string, json) dict list option \<Rightarrow> runtime_index" where
  "load_runtime_index data model =
     (let index = dict_of (map (\<lambda>e. (as_int (jget (obj_of e) ''runtime_id''), obj_of e)) (list_at data ''entries'')) in
      if \<not> (\<exists>(i, e) \<in> set index. is_pending_narrowing e) then index
      else case model of
        None \<Rightarrow> index
      | Some pous \<Rightarrow> map (\<lambda>(i, e). (i, mark_narrowing (assumption_keys pous) e)) index)"

section \<open>Observations\<close>

record observation =
  ob_returncode :: "int option"
  ob_timed_out :: bool
  ob_stderr :: string
  ob_hits :: "(int, int list) dict"
  ob_states :: "(string, json) dict list"
  ob_crashed :: bool
  ob_scan_budget :: bool
  ob_signal :: "string option"

definition target_hits :: "observation \<Rightarrow> string \<Rightarrow> runtime_index \<Rightarrow> (string, json) dict list" where
  "target_hits ob kind index =
     List.map_filter (\<lambda>(i, cycles). case dget index i of
         Some e \<Rightarrow> if jget e ''kind'' = JStr kind then Some e else None | None \<Rightarrow> None)
       (ob_hits ob)"

text \<open>
  The lines of the trace files as JSON, \<open>None\<close> for a line that is none. Records are objects and the
  numbers in them integers, as the instrumented program writes them.
\<close>

definition decode_hits :: "json option list \<Rightarrow> (int, int list) dict" where
  "decode_hits ls =
     foldl (\<lambda>hits l. case l of
         None \<Rightarrow> hits
       | Some r \<Rightarrow>
           (let i = as_int (jget_or (obj_of r) ''runtime_id'' (JInt (-1))) in
            if i < 0 then hits
            else dset i ((case dget hits i of None \<Rightarrow> [] | Some cs \<Rightarrow> cs) @
              [as_int (jget_or (obj_of r) ''cycle'' (JInt 0))]) hits)) [] ls"

definition decode_states :: "json option list \<Rightarrow> (string, json) dict list" where
  "decode_states ls =
     List.map_filter (\<lambda>l. case l of
         Some (JObj r) \<Rightarrow> (case jget r ''fields'' of JObj f \<Rightarrow> Some f | _ \<Rightarrow> None)
       | _ \<Rightarrow> None) ls"

text \<open>The end of the process: it could not start, ran out of time, or exited.\<close>

datatype process_end = NotStarted string | TimedOut string | Exited int string

text \<open>\<open>signal.Signals(n).name\<close> of the host, or the number.\<close>

definition probe ::
    "(int \<Rightarrow> string option) \<Rightarrow> process_end \<Rightarrow> json option list \<Rightarrow> json option list \<Rightarrow> observation" where
  "probe signal_names ending hit_lines state_lines = (case ending of
     NotStarted message \<Rightarrow>
       \<lparr>ob_returncode = Some 127, ob_timed_out = False, ob_stderr = ''native probe could not start: '' @ message,
        ob_hits = [], ob_states = [], ob_crashed = False, ob_scan_budget = False, ob_signal = None\<rparr>
   | TimedOut stderr \<Rightarrow>
       \<lparr>ob_returncode = None, ob_timed_out = True, ob_stderr = stderr, ob_hits = decode_hits hit_lines,
        ob_states = decode_states state_lines, ob_crashed = False,
        ob_scan_budget = contains ''semantist-scan-budget-exceeded'' stderr, ob_signal = None\<rparr>
   | Exited code stderr \<Rightarrow>
       \<lparr>ob_returncode = Some code, ob_timed_out = False, ob_stderr = stderr, ob_hits = decode_hits hit_lines,
        ob_states = decode_states state_lines, ob_crashed = (code < 0 \<or> 128 \<le> code),
        ob_scan_budget = contains ''semantist-scan-budget-exceeded'' stderr,
        ob_signal = (if code < 0 then Some (case signal_names (- code) of Some n \<Rightarrow> n | None \<Rightarrow> show_int (- code))
                     else None)\<rparr>)"

section \<open>Classification\<close>

definition oracle_for_hazard :: "string \<Rightarrow> string" where
  "oracle_for_hazard hazard =
     (if hazard = ''array_access'' then ''array_access'' else if hazard = ''pointer_access'' then ''null_dereference''
      else if hazard = ''division'' \<or> hazard = ''modulo'' then ''division_by_zero''
      else if hazard = ''dangerous_conversion'' then ''conversion_out_of_range'' else ''crash'')"

record candidate =
  ca_oracle :: string
  ca_hazard :: string
  ca_runtime :: "int option"
  ca_cycle :: json
  ca_source :: json
  ca_kind :: string
  ca_diagnostic :: "string option"
  ca_modeling :: json
  ca_observed :: "string option"

definition observed_conversion :: "(string, json) dict \<Rightarrow> bool" where
  "observed_conversion e =
     (let p = obj_at e ''violation_predicate'' in
      jget e ''hazard'' = JStr ''dangerous_conversion'' \<and>
      (jget p ''kind'' = JStr ''float_to_integer'' \<and> jget p ''target_bit_width'' \<in> JInt ` {8, 16, 32, 64} \<and>
         jget p ''signed'' \<noteq> JNull \<or>
       jget p ''kind'' = JStr ''narrowing'' \<and> jget e ''platform_pointer_narrowing'' = JBool True))"

definition justified :: "runtime_index \<Rightarrow> int \<Rightarrow> bool" where
  "justified index i = (case dget index i of
     None \<Rightarrow> False
   | Some e \<Rightarrow> jget e ''kind'' = JStr ''hazard_violation'' \<and>
       (jget e ''modeling'' = JStr ''exact'' \<or> observed_conversion e))"

definition hazard_candidate :: "(string, json) dict \<Rightarrow> int \<Rightarrow> int list \<Rightarrow> candidate" where
  "hazard_candidate e i cycles =
     (let hazard = (if truthy (jget e ''hazard'') then py_str (jget e ''hazard'') else ''semantic_violation'') in
      \<lparr>ca_oracle = oracle_for_hazard hazard, ca_hazard = hazard, ca_runtime = Some i,
       ca_cycle = (if cycles = [] then JNull else JInt (last cycles)), ca_source = jget e ''source'',
       ca_kind = ''hazard_violation'', ca_diagnostic = None, ca_modeling = jget e ''modeling'',
       ca_observed = (if observed_conversion e then Some (str_of (jget (obj_at e ''violation_predicate'') ''kind'')) else None)\<rparr>)"

definition budget_candidate :: candidate where
  "budget_candidate = \<lparr>ca_oracle = ''scan_budget'', ca_hazard = ''scan_budget'', ca_runtime = None, ca_cycle = JNull,
     ca_source = JNull, ca_kind = ''scan_budget'', ca_diagnostic = Some ''semantist-scan-budget-exceeded'',
     ca_modeling = JNull, ca_observed = None\<rparr>"

definition crash_oracle :: "observation \<Rightarrow> string" where
  "crash_oracle ob =
     (let t = ob_stderr ob in
      if contains ''division by zero'' t \<or> contains ''FPE'' t \<or> ob_signal ob = Some ''SIGFPE'' then ''division_by_zero''
      else if contains ''out of bounds'' t \<or> contains ''buffer-overflow'' t \<or> contains ''bounds'' t then ''array_access''
      else if contains ''null'' t \<and> contains ''pointer'' t then ''null_dereference''
      else ''crash'')"

definition crash_candidate :: "observation \<Rightarrow> candidate" where
  "crash_candidate ob =
     \<lparr>ca_oracle = crash_oracle ob, ca_hazard = crash_oracle ob, ca_runtime = None,
      ca_cycle = (if ob_states ob = [] then JNull else jget (last (ob_states ob)) ''__cycle''),
      ca_source = JNull, ca_kind = ''crash'',
      ca_diagnostic = (if ob_stderr ob \<noteq> [] then Some (hd (splitlines (ob_stderr ob))) else ob_signal ob),
      ca_modeling = JNull, ca_observed = None\<rparr>"

definition classify :: "observation \<Rightarrow> runtime_index \<Rightarrow> candidate option" where
  "classify ob index =
     (if ob_timed_out ob then None
      else case find (\<lambda>(i, cycles). justified index i) (sort_key fst (ob_hits ob)) of
        Some (i, cycles) \<Rightarrow> Some (hazard_candidate (the (dget index i)) i cycles)
      | None \<Rightarrow>
          if ob_scan_budget ob then Some budget_candidate
          else if ob_crashed ob then Some (crash_candidate ob)
          else None)"

text \<open>\<open>_replay_status\<close> of \<open>fuzzer/pipeline/replay.py\<close>: the status of a replayed finding.\<close>

definition native_replay_status :: "observation \<Rightarrow> candidate option \<Rightarrow> string option \<Rightarrow> string" where
  "native_replay_status ob c expected =
     (let wanted = (expected \<noteq> None \<and> expected \<noteq> Some []) in
      if ob_timed_out ob then ''TIMEOUT''
      else case c of
        None \<Rightarrow> if ob_returncode ob \<noteq> None \<and> ob_returncode ob \<noteq> Some 0 then ''FAILED''
                else if wanted then ''REPLAY_MISMATCH'' else ''candidate''
      | Some c \<Rightarrow> if wanted \<and> Some (ca_oracle c) \<noteq> expected then ''REPLAY_MISMATCH''
                  else if wanted then ''confirmed'' else ''candidate'')"

text \<open>
  (C22) A run is classified by the evidence with the strongest claim. A run that timed out is no
  candidate. Else the hit with the smallest identifier whose target is a violation modelled exactly,
  or a conversion observed natively, decides, whatever else was seen; hits of other targets never
  make a candidate. Without one, an exceeded scan budget decides before a crash, and a run with
  none of the three is no candidate.
\<close>

theorem classify_strongest_evidence:
  assumes "dict_ok (ob_hits ob)"
  shows "case classify ob index of
      None \<Rightarrow> ob_timed_out ob \<or> (\<forall>i \<in> set (dkeys (ob_hits ob)). \<not> justified index i) \<and> \<not> ob_scan_budget ob \<and> \<not> ob_crashed ob
    | Some c \<Rightarrow> \<not> ob_timed_out ob \<and>
        (case ca_runtime c of
           Some i \<Rightarrow> justified index i \<and> ca_kind c = ''hazard_violation'' \<and>
             (\<exists>cycles. (i, cycles) \<in> set (ob_hits ob) \<and> c = hazard_candidate (the (dget index i)) i cycles) \<and>
             (\<forall>j \<in> set (dkeys (ob_hits ob)). justified index j \<longrightarrow> i \<le> j)
         | None \<Rightarrow> (\<forall>i \<in> set (dkeys (ob_hits ob)). \<not> justified index i) \<and>
             (if ob_scan_budget ob then c = budget_candidate else ob_crashed ob \<and> c = crash_candidate ob))"
proof -
  let ?hits = "sort_key fst (ob_hits ob)"
  have rt: "ca_runtime (hazard_candidate e i cs) = Some i" "ca_kind (hazard_candidate e i cs) = ''hazard_violation''"
    "ca_runtime budget_candidate = None" "ca_runtime (crash_candidate ob) = None" for e i cs
    by (simp_all add: hazard_candidate_def budget_candidate_def crash_candidate_def Let_def)
  have least: "i \<le> j" if hit: "find (\<lambda>(i, cs). justified index i) ?hits = Some (i, cs)" "(j, cs') \<in> set (ob_hits ob)" "justified index j"
    for i cs j cs'
  proof -
    obtain k where k: "k < length ?hits" "?hits ! k = (i, cs)" "\<forall>m < k. \<not> (case ?hits ! m of (i, cs) \<Rightarrow> justified index i)"
      using iffD1 [OF find_Some_iff hit(1)] by metis
    obtain m where m: "m < length ?hits" "?hits ! m = (j, cs')" using hit(2) by (metis in_set_conv_nth set_sort)
    have "k \<le> m" using k(3) m(2) hit(3) by (metis case_prod_conv not_le)
    moreover have "sorted (map fst ?hits)" by simp
    ultimately have "map fst ?hits ! k \<le> map fst ?hits ! m" using m(1) by (intro sorted_nth_mono) simp_all
    then show ?thesis using k m by simp
  qed
  show ?thesis
  proof (cases "find (\<lambda>(i, cs). justified index i) ?hits")
    case None
    then have "\<forall>i \<in> set (dkeys (ob_hits ob)). \<not> justified index i" by (auto simp: find_None_iff)
    with None rt(3,4) show ?thesis by (simp add: classify_def)
  next
    case (Some h)
    obtain i cs where h: "h = (i, cs)" by (cases h)
    have "(i, cs) \<in> set (ob_hits ob)" "justified index i"
      using Some h by (auto simp: find_Some_iff) (metis nth_mem set_sort length_sort)
    with Some h rt least [OF Some [unfolded h]] show ?thesis by (auto simp: classify_def)
  qed
qed

definition demo_index :: runtime_index where
  "demo_index = [(4, [(''kind'', JStr ''hazard_violation''), (''hazard'', JStr ''division''), (''modeling'', JStr ''exact'')]),
     (2, [(''kind'', JStr ''hazard_violation''), (''hazard'', JStr ''array_access''), (''modeling'', JStr ''conservative'')])]"

definition demo_observation :: observation where
  "demo_observation = \<lparr>ob_returncode = Some (-8), ob_timed_out = False, ob_stderr = [], ob_hits = [(4, [0, 3]), (2, [1])],
     ob_states = [], ob_crashed = True, ob_scan_budget = False, ob_signal = Some ''SIGFPE''\<rparr>"

lemma classify_strongest_evidence_witness:
  "map_option ca_runtime (classify demo_observation demo_index) = Some (Some 4)"
proof -
  have ok: "dict_ok (ob_hits demo_observation)" "\<not> justified demo_index 2" by code_simp+
  have justified: "justified demo_index 4" "4 \<in> set (dkeys (ob_hits demo_observation))" by code_simp+
  have "classify demo_observation demo_index \<noteq> None" by code_simp
  then obtain c where c: "classify demo_observation demo_index = Some c" by blast
  from classify_strongest_evidence [OF ok(1), of demo_index] c justified have "\<exists>i. ca_runtime c = Some i \<and> justified demo_index i"
    by (auto simp: demo_observation_def split: option.splits)
  then obtain i where i: "ca_runtime c = Some i" "justified demo_index i" by blast
  then have "i = 4 \<or> i = 2" by (auto simp: justified_def demo_index_def split: if_splits)
  then show ?thesis using c i ok(2) by auto
qed

end
