(* ===== verification/Frame_Minimizer.thy ===== *)
theory Frame_Minimizer
  imports Native_Probe Frames_Roundtrip "HOL-Library.Sublist"
begin

text \<open>
  Shortening the testcase of a candidate (\<open>fuzzer/pipeline/minimize.py\<close>): blocks of frames are deleted
  and values replaced as long as the run still shows the same signature. Every run of the target is
  numbered; what run \<open>n\<close> shows and whether the deadline has passed before it are parameters, so a
  target that behaves differently from run to run is covered.
\<close>

section \<open>Runs\<close>

type_synonym run_signature = "string \<times> int option \<times> string"

definition run_signature :: "candidate \<Rightarrow> run_signature" where
  "run_signature c = (ca_oracle c, ca_runtime c, py_str (ca_source c))"

record minimizer =
  mi_abi :: target_abi
  mi_index :: runtime_index
  mi_signature :: run_signature
  mi_probe :: "nat \<Rightarrow> string \<Rightarrow> observation"
  mi_expired :: "nat \<Rightarrow> bool"

datatype minimize_error = Unparsed frame_error | NotEncoded frame_error | DeadlineExhausted

definition encode_frames :: "target_abi \<Rightarrow> testcase \<Rightarrow> frame list \<Rightarrow> frame_error + string" where
  "encode_frames abi original frames =
     build_testcase abi (map (\<lambda>f. map (\<lambda>(k, v). (k, Some v)) (f_values f)) frames) (tc_shared original)
       (tc_init_profile original) None (Some (map f_dt_ns frames)) (\<exists>f \<in> set frames. f_dt_ns f \<noteq> None)"

text \<open>\<open>_probe_timeout\<close> raises before a run the deadline leaves no time for.\<close>

definition run_target :: "minimizer \<Rightarrow> nat \<Rightarrow> string \<Rightarrow> minimize_error + candidate option" where
  "run_target m n data =
     (if mi_expired m n then Inl DeadlineExhausted else Inr (classify (mi_probe m n data) (mi_index m)))"

definition shows_signature :: "minimizer \<Rightarrow> nat \<Rightarrow> string \<Rightarrow> bool" where
  "shows_signature m n data =
     (map_option run_signature (classify (mi_probe m n data) (mi_index m)) = Some (mi_signature m))"

text \<open>A trial that cannot be encoded does not trigger and costs no run.\<close>

definition triggers :: "minimizer \<Rightarrow> testcase \<Rightarrow> nat \<Rightarrow> frame list \<Rightarrow> minimize_error + bool \<times> nat" where
  "triggers m tc n frames = (case encode_frames (mi_abi m) tc frames of
     Inl e \<Rightarrow> Inr (False, n)
   | Inr data \<Rightarrow> bindE (run_target m n data) (\<lambda>c.
       Inr (map_option run_signature c = Some (mi_signature m), n + 1)))"

section \<open>Deleting frames\<close>

definition BLOCKS :: "nat list" where
  "BLOCKS = [32, 16, 8, 4, 2, 1]"

definition without_block :: "nat \<Rightarrow> nat \<Rightarrow> 'a list \<Rightarrow> 'a list" where
  "without_block i block xs = take i xs @ drop (i + block) xs"

fun try_blocks ::
    "minimizer \<Rightarrow> testcase \<Rightarrow> nat list \<Rightarrow> nat \<Rightarrow> nat \<Rightarrow> frame list \<Rightarrow> minimize_error + nat option \<times> nat" where
  "try_blocks m tc [] n i frames = Inr (None, n)"
| "try_blocks m tc (block # blocks) n i frames =
     (if length frames < i + block \<or> without_block i block frames = [] then try_blocks m tc blocks n i frames
      else bindE (triggers m tc n (without_block i block frames)) (\<lambda>(ok, n').
        if ok then Inr (Some block, n') else try_blocks m tc blocks n' i frames))"

record deletion =
  de_runs :: nat
  de_frames :: "frame list"
  de_removed :: nat
  de_changed :: bool

lemma try_blocks_Some:
  "try_blocks m tc blocks n i frames = Inr (Some block, n') \<Longrightarrow>
    block \<in> set blocks \<and> i + block \<le> length frames \<and> without_block i block frames \<noteq> []"
  by (induction blocks arbitrary: n) (auto simp: res_simps split: if_splits)

lemma length_without_block: "i + block \<le> length xs \<Longrightarrow> length (without_block i block xs) = length xs - block"
  by (simp add: without_block_def)

text \<open>One pass over the frames: at each index the largest block that can go is deleted.\<close>

function delete_pass :: "minimizer \<Rightarrow> testcase \<Rightarrow> nat \<Rightarrow> deletion \<Rightarrow> minimize_error + deletion" where
  "delete_pass m tc i d =
     (if length (de_frames d) \<le> i then Inr d
      else bindE (try_blocks m tc BLOCKS (de_runs d) i (de_frames d)) (\<lambda>(found, n).
        case found of
          None \<Rightarrow> delete_pass m tc (i + 1) (d\<lparr>de_runs := n\<rparr>)
        | Some block \<Rightarrow> delete_pass m tc i
            (d\<lparr>de_runs := n, de_frames := without_block i block (de_frames d), de_removed := de_removed d + block,
               de_changed := True\<rparr>)))"
  by pat_completeness auto
termination
proof (relation "measure (\<lambda>(m, tc, i, d). length (de_frames d) - i)")
  fix m tc i and d :: deletion and r found n block
  assume *: "\<not> length (de_frames d) \<le> i" "try_blocks m tc BLOCKS (de_runs d) i (de_frames d) = Inr r"
    "(found, n) = r" "found = Some block"
  then have "block \<in> set BLOCKS" "i + block \<le> length (de_frames d)"
    using try_blocks_Some [of m tc BLOCKS "de_runs d" i "de_frames d" block n] by auto
  then show "((m, tc, i, d\<lparr>de_runs := n, de_frames := without_block i block (de_frames d),
      de_removed := de_removed d + block, de_changed := True\<rparr>), m, tc, i, d)
      \<in> measure (\<lambda>(m, tc, i, d). length (de_frames d) - i)"
    using *(1) by (auto simp: length_without_block BLOCKS_def)
qed auto

declare delete_pass.simps [simp del]

fun delete_rounds :: "nat \<Rightarrow> minimizer \<Rightarrow> testcase \<Rightarrow> deletion \<Rightarrow> minimize_error + deletion" where
  "delete_rounds 0 m tc d = Inr d"
| "delete_rounds (Suc k) m tc d =
     bindE (delete_pass m tc 0 (d\<lparr>de_changed := False\<rparr>)) (\<lambda>d'.
       if de_changed d' then delete_rounds k m tc d' else Inr d')"

section \<open>Simplifying values\<close>

record simplification =
  si_runs :: nat
  si_frames :: "frame list"
  si_count :: nat

definition with_value :: "frame list \<Rightarrow> nat \<Rightarrow> string \<Rightarrow> string \<Rightarrow> frame list" where
  "with_value frames k name v = frames[k := (frames ! k)\<lparr>f_values := dset name v (f_values (frames ! k))\<rparr>]"

definition simpler_values :: "(string, string) dict \<Rightarrow> string \<Rightarrow> string \<Rightarrow> string list" where
  "simpler_values defaults name current =
     (case dget defaults name of None \<Rightarrow> current | Some v \<Rightarrow> v) #
     (if current \<in> {''0'', ''0.0''} then [] else [''0'', ''1''])"

fun try_values ::
    "minimizer \<Rightarrow> testcase \<Rightarrow> nat \<Rightarrow> string \<Rightarrow> string list \<Rightarrow> simplification \<Rightarrow> minimize_error + simplification" where
  "try_values m tc k name [] s = Inr s"
| "try_values m tc k name (v # vs) s =
     bindE (triggers m tc (si_runs s) (with_value (si_frames s) k name v)) (\<lambda>(ok, n).
       if ok then Inr (s\<lparr>si_runs := n, si_frames := with_value (si_frames s) k name v, si_count := si_count s + 1\<rparr>)
       else try_values m tc k name vs (s\<lparr>si_runs := n\<rparr>))"

definition simplify_value :: "minimizer \<Rightarrow> testcase \<Rightarrow> simplification \<Rightarrow> nat \<times> string \<Rightarrow> minimize_error + simplification" where
  "simplify_value m tc s place = (case place of (k, name) \<Rightarrow>
     (case dget (f_values (si_frames s ! k)) name of
        None \<Rightarrow> Inr s
      | Some current \<Rightarrow>
          try_values m tc k name
            (filter (\<lambda>v. v \<noteq> current)
              (simpler_values (dict_of (map (\<lambda>p. (p_name p, default_value p)) (a_params (mi_abi m)))) name current)) s))"

definition value_places :: "frame list \<Rightarrow> (nat \<times> string) list" where
  "value_places frames = concat (map (\<lambda>(k, f). map (Pair k) (dkeys (f_values f))) (enumerate 0 frames))"

section \<open>The minimizer\<close>

record minimized =
  mz_testcase :: string
  mz_frames :: nat
  mz_depth :: "int option"
  mz_removed :: nat
  mz_simplified :: nat

definition MAX_MINIMIZE_ROUNDS :: nat where
  "MAX_MINIMIZE_ROUNDS = 6"

definition parse_plain :: "string \<Rightarrow> target_abi \<Rightarrow> frame_error + testcase" where
  "parse_plain data abi = parse_testcase data abi 10000000 None"

definition minimize_frames :: "minimizer \<Rightarrow> nat \<Rightarrow> string \<Rightarrow> minimize_error + minimized" where
  "minimize_frames m rounds data =
     (case parse_plain data (mi_abi m) of
        Inl e \<Rightarrow> Inl (Unparsed e)
      | Inr tc \<Rightarrow>
          bindE (delete_rounds rounds m tc
              \<lparr>de_runs = 0, de_frames = tc_frames tc, de_removed = 0, de_changed = False\<rparr>) (\<lambda>d.
          bindE (foldE (simplify_value m tc) \<lparr>si_runs = de_runs d, si_frames = de_frames d, si_count = 0\<rparr>
              (value_places (de_frames d))) (\<lambda>s.
            case encode_frames (mi_abi m) tc (si_frames s) of
              Inl e \<Rightarrow> Inl (NotEncoded e)
            | Inr result \<Rightarrow>
                bindE (run_target m (si_runs s) result) (\<lambda>c.
                  case c of
                    Some c' \<Rightarrow> if run_signature c' = mi_signature m
                      then Inr \<lparr>mz_testcase = result, mz_frames = length (si_frames s),
                        mz_depth = map_option (\<lambda>i. i + 1) (index_of (ca_cycle c')),
                        mz_removed = de_removed d, mz_simplified = si_count s\<rparr>
                      else Inr \<lparr>mz_testcase = data, mz_frames = length (tc_frames tc), mz_depth = None,
                        mz_removed = 0, mz_simplified = 0\<rparr>
                  | None \<Rightarrow> Inr \<lparr>mz_testcase = data, mz_frames = length (tc_frames tc), mz_depth = None,
                      mz_removed = 0, mz_simplified = 0\<rparr>))))"

section \<open>Which frames the trigger needs\<close>

record ablation =
  ab_depth :: nat
  ab_required :: "nat list"
  ab_triggers :: "bool list"
  ab_time_dependency :: bool

definition baseline_values :: "target_abi \<Rightarrow> (string, string) dict" where
  "baseline_values abi = dict_of (map (\<lambda>p. (p_name p, default_value p)) (a_params abi))"

definition ablation_trial :: "minimizer \<Rightarrow> testcase \<Rightarrow> nat \<Rightarrow> minimize_error + bool" where
  "ablation_trial m tc k =
     (let frames = (tc_frames tc)[k := (tc_frames tc ! k)\<lparr>f_values := baseline_values (mi_abi m)\<rparr>] in
      case encode_frames (mi_abi m) tc frames of
        Inl e \<Rightarrow> Inl (NotEncoded e)
      | Inr data \<Rightarrow> bindE (run_target m k data) (\<lambda>c. Inr (map_option run_signature c = Some (mi_signature m))))"

definition history_ablation :: "minimizer \<Rightarrow> string \<Rightarrow> minimize_error + ablation" where
  "history_ablation m data =
     (case parse_plain data (mi_abi m) of
        Inl e \<Rightarrow> Inl (Unparsed e)
      | Inr tc \<Rightarrow>
          bindE (mapE (ablation_trial m tc) [0..<length (tc_frames tc)]) (\<lambda>still.
            let required = filter (\<lambda>k. \<not> still ! k) [0..<length still] in
            Inr \<lparr>ab_depth = length (tc_frames tc), ab_required = required, ab_triggers = still,
              ab_time_dependency = (0 < length required \<and> length required < length (tc_frames tc))\<rparr>))"

section \<open>The result shows the finding\<close>

lemma subseq_without_block: "subseq (without_block i block xs) xs"
proof -
  have "subseq (drop (i + block) xs) (drop i xs)"
    by (metis add.commute drop_drop suffix_drop suffix_imp_subseq)
  then have "subseq (take i xs @ drop (i + block) xs) (take i xs @ drop i xs)"
    by (simp only: subseq_append')
  then show ?thesis by (simp add: without_block_def)
qed

definition kept_frames :: "frame list \<Rightarrow> deletion \<Rightarrow> bool" where
  "kept_frames original d \<longleftrightarrow>
     subseq (de_frames d) original \<and> de_removed d + length (de_frames d) = length original \<and>
     (original \<noteq> [] \<longrightarrow> de_frames d \<noteq> [])"

lemma delete_pass_kept:
  "delete_pass m tc i d = Inr d' \<Longrightarrow> kept_frames original d \<Longrightarrow> kept_frames original d'"
proof (induction m tc i d arbitrary: d' rule: delete_pass.induct)
  case (1 m tc i d)
  show ?case
  proof (cases "length (de_frames d) \<le> i")
    case True
    then show ?thesis using 1 by (simp add: delete_pass.simps)
  next
    case False
    then obtain found n where f: "try_blocks m tc BLOCKS (de_runs d) i (de_frames d) = Inr (found, n)"
      using 1 by (auto simp: delete_pass.simps [of m tc i d] res_simps)
    show ?thesis
    proof (cases found)
      case None
      then show ?thesis
        using 1(1) [OF False f refl None, of d'] 1(3,4) False f
        by (simp add: delete_pass.simps [of m tc i d] kept_frames_def)
    next
      case (Some block)
      have b: "i + block \<le> length (de_frames d)" "without_block i block (de_frames d) \<noteq> []"
        using try_blocks_Some f Some by auto
      have "kept_frames original (d\<lparr>de_runs := n, de_frames := without_block i block (de_frames d),
          de_removed := de_removed d + block, de_changed := True\<rparr>)"
        using 1(4) b subseq_order.order_trans [OF subseq_without_block]
        by (auto simp: kept_frames_def length_without_block)
      then show ?thesis using 1(2) [OF False f refl Some, of d'] 1(3) False f Some
        by (simp add: delete_pass.simps [of m tc i d])
    qed
  qed
qed

lemma delete_rounds_kept:
  "delete_rounds k m tc d = Inr d' \<Longrightarrow> kept_frames original d \<Longrightarrow> kept_frames original d'"
proof (induction k arbitrary: d)
  case (Suc k)
  obtain d1 where d1: "delete_pass m tc 0 (d\<lparr>de_changed := False\<rparr>) = Inr d1"
    using Suc.prems(1) by (auto simp: res_simps)
  have "kept_frames original d1"
    using delete_pass_kept [OF d1, of original] Suc.prems(2) by (simp add: kept_frames_def)
  then show ?case using Suc d1 by (auto split: if_splits)
qed simp

text \<open>Simplified frames keep their place, their time step and their fields.\<close>

definition same_shape :: "frame \<Rightarrow> frame \<Rightarrow> bool" where
  "same_shape f g \<longleftrightarrow> f_index f = f_index g \<and> f_dt_ns f = f_dt_ns g \<and> dkeys (f_values f) = dkeys (f_values g)"

lemma with_value_shape:
  assumes "list_all2 same_shape frames kept" "k < length frames \<Longrightarrow> name \<in> set (dkeys (f_values (frames ! k)))"
  shows "list_all2 same_shape (with_value frames k name v) kept"
proof (cases "k < length frames")
  case True
  have "dkeys (dset name v (f_values (frames ! k))) = dkeys (f_values (frames ! k))"
    using assms(2) [OF True] dkeys_dset_mem [of name "f_values (frames ! k)" v] by (simp add: dmem_iff)
  then have "same_shape ((frames ! k)\<lparr>f_values := dset name v (f_values (frames ! k))\<rparr>) (kept ! k)"
    using list_all2_nthD [OF assms(1) True] by (simp add: same_shape_def)
  then have "list_all2 same_shape (with_value frames k name v) (kept[k := kept ! k])"
    using assms(1) unfolding with_value_def by (intro list_all2_update_cong) auto
  then show ?thesis by simp
next
  case False
  then show ?thesis using assms(1) by (simp add: with_value_def list_update_beyond)
qed

lemma try_values_shape:
  "try_values m tc k name vs s = Inr s' \<Longrightarrow> list_all2 same_shape (si_frames s) kept \<Longrightarrow>
    (k < length (si_frames s) \<Longrightarrow> name \<in> set (dkeys (f_values (si_frames s ! k)))) \<Longrightarrow>
    list_all2 same_shape (si_frames s') kept"
proof (induction vs arbitrary: s)
  case (Cons v vs)
  obtain ok n where t: "triggers m tc (si_runs s) (with_value (si_frames s) k name v) = Inr (ok, n)"
    using Cons.prems(1) by (auto simp: res_simps)
  show ?case
  proof (cases ok)
    case True
    then show ?thesis using Cons.prems t with_value_shape [of "si_frames s" kept k name v] by auto
  next
    case False
    then show ?thesis using Cons.IH [of "s\<lparr>si_runs := n\<rparr>"] Cons.prems t by simp
  qed
qed simp

lemma simplify_value_shape:
  assumes "simplify_value m tc s place = Inr s'" "list_all2 same_shape (si_frames s) kept"
  shows "list_all2 same_shape (si_frames s') kept"
proof -
  obtain k name where p: "place = (k, name)" by (cases place)
  show ?thesis
  proof (cases "dget (f_values (si_frames s ! k)) name")
    case None
    then show ?thesis using assms p by (simp add: simplify_value_def)
  next
    case (Some current)
    then have "name \<in> set (dkeys (f_values (si_frames s ! k)))" using dmem_iff by (force simp: dmem_def)
    then show ?thesis using try_values_shape assms p Some by (fastforce simp: simplify_value_def)
  qed
qed

text \<open>
  (C17) Minimizing a candidate returns either its testcase as it was or one that a run of the target was
  seen to show the same signature on: the text written from some of the frames of the original, in
  their order, with their time steps and fields, where only values may differ. The counts say how many
  frames went, and at least one frame is left when there was one. This holds for targets that behave
  differently from run to run.
\<close>

theorem minimize_frames_reproduces:
  assumes "parse_plain data (mi_abi m) = Inr tc" "minimize_frames m rounds data = Inr r"
  shows "(mz_testcase r = data \<and> mz_removed r = 0 \<and> mz_simplified r = 0 \<and> mz_depth r = None) \<or>
    (\<exists>kept frames n. subseq kept (tc_frames tc) \<and> list_all2 same_shape frames kept \<and>
       encode_frames (mi_abi m) tc frames = Inr (mz_testcase r) \<and> shows_signature m n (mz_testcase r) \<and>
       mz_frames r = length kept \<and> mz_removed r + length kept = length (tc_frames tc) \<and>
       (tc_frames tc \<noteq> [] \<longrightarrow> kept \<noteq> []))"
proof -
  let ?start = "\<lparr>de_runs = 0, de_frames = tc_frames tc, de_removed = 0, de_changed = False\<rparr>"
  obtain d where d: "delete_rounds rounds m tc ?start = Inr d"
    using assms by (auto simp: minimize_frames_def res_simps)
  obtain s where s: "foldE (simplify_value m tc) \<lparr>si_runs = de_runs d, si_frames = de_frames d, si_count = 0\<rparr>
      (value_places (de_frames d)) = Inr s"
    using assms d by (auto simp: minimize_frames_def res_simps)
  obtain result where e: "encode_frames (mi_abi m) tc (si_frames s) = Inr result"
    using assms d s by (cases "encode_frames (mi_abi m) tc (si_frames s)") (simp_all add: minimize_frames_def)
  obtain c where c: "run_target m (si_runs s) result = Inr c"
    using assms d s e by (cases "run_target m (si_runs s) result") (simp_all add: minimize_frames_def)
  have r: "(\<exists>c'. c = Some c' \<and> run_signature c' = mi_signature m \<and> mz_testcase r = result \<and>
        mz_frames r = length (si_frames s) \<and> mz_removed r = de_removed d) \<or>
      (mz_testcase r = data \<and> mz_removed r = 0 \<and> mz_simplified r = 0 \<and> mz_depth r = None)"
    using assms d s e c by (auto simp: minimize_frames_def split: option.splits if_splits)
  have kept: "kept_frames (tc_frames tc) d" by (rule delete_rounds_kept [OF d]) (simp add: kept_frames_def)
  have shape: "list_all2 same_shape (si_frames s) (de_frames d)"
  proof (rule foldE_invariant [OF s])
    show "list_all2 same_shape (si_frames \<lparr>si_runs = de_runs d, si_frames = de_frames d, si_count = 0\<rparr>) (de_frames d)"
      by (simp add: list_all2_same same_shape_def)
  qed (rule simplify_value_shape)
  have "shows_signature m (si_runs s) result" if "c = Some c'" "run_signature c' = mi_signature m" for c'
    using c that by (simp add: run_target_def shows_signature_def split: if_splits)
  then show ?thesis
    using r kept e shape list_all2_lengthD [OF shape] unfolding kept_frames_def by metis
qed

definition demo_minimizer :: minimizer where
  "demo_minimizer = \<lparr>mi_abi = demo_abi, mi_index = demo_index,
     mi_signature = (''division_by_zero'', Some 4, ''None''), mi_probe = (\<lambda>n data. demo_observation), mi_expired = (\<lambda>n. 9 < n)\<rparr>"

lemma demo_minimized:
  "(case minimize_frames demo_minimizer 2 demo_text of
      Inl e \<Rightarrow> False | Inr r \<Rightarrow> mz_removed r = 1 \<and> mz_simplified r = 1) \<and>
    (case parse_plain demo_text demo_abi of Inl e \<Rightarrow> False | Inr tc \<Rightarrow> length (tc_frames tc) = 2)"
  by code_simp

theorem minimize_frames_reproduces_witness:
  "\<exists>r n. minimize_frames demo_minimizer 2 demo_text = Inr r \<and> shows_signature demo_minimizer n (mz_testcase r) \<and>
    mz_frames r = 1"
proof -
  obtain r tc where r: "minimize_frames demo_minimizer 2 demo_text = Inr r" "mz_removed r = 1"
    and tc: "parse_plain demo_text (mi_abi demo_minimizer) = Inr tc" "length (tc_frames tc) = 2"
    using demo_minimized by (auto simp: demo_minimizer_def split: sum.splits)
  from minimize_frames_reproduces [OF tc(1) r(1)] r tc(2) show ?thesis by auto
qed

end
