(* ===== verification/Campaign_State.thy ===== *)
theory Campaign_State
  imports Frame_Minimizer
begin

text \<open>
  The state of a campaign and its bookkeeping (\<open>fuzzer/pipeline/campaign.py\<close>, \<open>metrics.py\<close>): the
  switches, the budget of solver queries, the weights of the sources, the results of queries, the
  distance of a testcase to a task, and the seeds a solver gives back to the engine. The lines of
  \<open>events.jsonl\<close> are reduced to the counts of their kinds; weights and distances are exact numbers
  instead of rounded ones. The fields of a goal task are those of \<open>Goal_Builder\<close>.
\<close>

section \<open>Switches and priorities\<close>

definition ABLATION_ALIASES :: "(string \<times> string) list" where
  "ABLATION_ALIASES =
     [(''v3_no_symbolic'', ''no_symbolic''), (''v3_symbolic_initial_only'', ''symbolic_initial_only''),
      (''v3_symbolic_start'', ''symbolic_start''), (''v3_no_goal_prefix'', ''no_goal_prefix''),
      (''v3_no_distance'', ''no_distance''), (''v3_no_time_guidance'', ''no_time_guidance''),
      (''v3_no_snapshot'', ''no_snapshot''), (''v3_no_state_copy'', ''no_state_copy''), (''v3_llm'', ''llm''),
      (''v3_llm_initial_only'', ''llm_initial_only'')]"

definition take_alias :: "(string, json) dict \<Rightarrow> (string, json) dict \<Rightarrow> string \<times> string \<Rightarrow> (string, json) dict" where
  "take_alias config switches names = (case names of (alias, switch) \<Rightarrow>
     if \<not> dmem switch switches \<and> dmem alias config then dset switch (jget config alias) switches
     else switches)"

definition normalize_ablations :: "(string, json) dict \<Rightarrow> (string, json) dict" where
  "normalize_ablations config =
     dset ''ablations'' (JObj (foldl (take_alias config) (obj_at config ''ablations'') ABLATION_ALIASES)) config"

definition solver_prefix_skip_reason :: "(string, json) dict \<Rightarrow> goal_task \<Rightarrow> bool \<Rightarrow> string option" where
  "solver_prefix_skip_reason record task single_cycle =
     (if single_cycle then Some ''single_cycle_uses_cold_queries''
      else if jget record ''task_id'' \<noteq> gt_task_id task then Some ''unrelated_task''
      else if jget record ''queue'' \<noteq> JStr ''klee_suffix'' \<or>
          jget record ''trigger'' \<notin> {JStr ''task_distance_improved'', JStr ''native_hazard_reach''} \<or>
          jget record ''task_unresolved'' \<noteq> JBool True \<or> index_of (jget record ''native_execution'') = None
        then Some ''missing_native_task_progress''
      else if \<not> gt_suitable task \<or> gt_class task \<noteq> ''defect'' then Some ''task_not_symbolically_suitable''
      else None)"

definition at_goal_frontier :: "json \<Rightarrow> bool" where
  "at_goal_frontier distance = (case distance of
     JInt i \<Rightarrow> i \<le> 0
   | JFloat r \<Rightarrow> (case decimal_value r of Some x \<Rightarrow> x \<le> 0 | None \<Rightarrow> False)
   | _ \<Rightarrow> False)"

definition solver_prefix_priority :: "(string, json) dict \<Rightarrow> int \<times> int \<times> int" where
  "solver_prefix_priority record =
     (if jget record ''trigger'' = JStr ''native_hazard_reach'' then 1 else 0,
      if at_goal_frontier (jget record ''distance'') then 1 else 0,
      case jget record ''consecutive_no_progress'' of JInt n \<Rightarrow> max 0 n | _ \<Rightarrow> 0)"

definition last_items :: "nat \<Rightarrow> 'a list \<Rightarrow> 'a list" where
  "last_items n xs = drop (length xs - n) xs"

definition solver_feedback_cutoff :: "rat \<Rightarrow> rat \<Rightarrow> rat list \<Rightarrow> rat" where
  "solver_feedback_cutoff engine_deadline minimum_margin costs =
     engine_deadline - max minimum_margin (foldl max 0 (filter (\<lambda>c. 0 < c) (last_items 5 costs)) * 2 + 2)"

definition startup_query_timeout :: "rat \<Rightarrow> nat \<Rightarrow> bool \<Rightarrow> rat" where
  "startup_query_timeout remaining later_tasks native_guided =
     min (if native_guided then 10 else 5)
       (max (1 / 1000) (remaining - (5 + min 5 (of_nat later_tasks * 2))))"

section \<open>Metrics\<close>

record metrics =
  me_events :: "(string, nat) dict"
  me_counters :: "(string, int) dict"

definition new_metrics :: metrics where
  "new_metrics = \<lparr>me_events = [],
     me_counters = map (\<lambda>n. (n, 0)) [''executions'', ''scans'', ''snapshot_hits'', ''snapshot_saved_scans'',
       ''snapshot_attempts'', ''snapshot_misses'', ''candidates'', ''confirmed'', ''solver_queries'',
       ''llm_calls'', ''llm_tokens'']\<rparr>"

definition dget_or :: "('k, 'v) dict \<Rightarrow> 'k \<Rightarrow> 'v \<Rightarrow> 'v" where
  "dget_or d k v = (case dget d k of Some x \<Rightarrow> x | None \<Rightarrow> v)"

definition count_event :: "string \<Rightarrow> metrics \<Rightarrow> metrics" where
  "count_event kind m = m\<lparr>me_events := dset kind (dget_or (me_events m) kind 0 + 1) (me_events m)\<rparr>"

definition add_counter :: "string \<Rightarrow> int \<Rightarrow> metrics \<Rightarrow> metrics" where
  "add_counter name v m = m\<lparr>me_counters := dset name (dget_or (me_counters m) name 0 + v) (me_counters m)\<rparr>"

definition metrics_summary :: "metrics \<Rightarrow> (string \<times> nat) list \<times> (string, int) dict" where
  "metrics_summary m = (sort_key fst (me_events m), me_counters m)"

section \<open>The state\<close>

record source_stat =
  so_attempts :: nat
  so_gains :: nat
  so_weight :: rat

record solver_result =
  sr_status :: string
  sr_reason :: "string option"
  sr_solver_scope :: json
  sr_model_scope :: json
  sr_candidate :: "string option"
  sr_seed_only :: bool
  sr_seed_files :: "string list"
  sr_goal_reached :: bool

record symbolic_record =
  sy_query :: string
  sy_task :: string
  sy_status :: string
  sy_reason :: "string option"
  sy_solver_scope :: json
  sy_model_scope :: json
  sy_candidate :: "string option"
  sy_native :: "string option"

text \<open>The lines of \<open>klee-results.jsonl\<close>: the outcome of a suffix, or of its native replay.\<close>

datatype klee_record =
    SuffixResult string string string string bool
  | NativeReplay string string string string

record seed_file =
  sf_id :: nat
  sf_text :: string
  sf_query :: string
  sf_task :: string
  sf_hits :: "int set"
  sf_new_state :: bool
  sf_improved :: bool
  sf_distance :: "rat option"

record campaign_candidate =
  cc_id :: string
  cc_testcase :: string
  cc_observation :: observation
  cc_info :: candidate
  cc_source :: string
  cc_query :: "string option"
  cc_scope :: json
  cc_depth :: int

record campaign_env =
  cv_max_evaluations :: int
  cv_tasks :: "goal_task list"
  cv_single_cycle :: bool
  cv_abi :: target_abi
  cv_index :: runtime_index
  cv_contract :: "(string, json) dict"
  cv_audit :: audit
  cv_ablations :: "(string, json) dict"

section \<open>Budget and sources\<close>

definition task_name :: "goal_task \<Rightarrow> string" where
  "task_name t = py_str (gt_task_id t)"

definition task_limits :: "campaign_env \<Rightarrow> (string, int) dict" where
  "task_limits env =
     dict_of (concat (map (\<lambda>t. if truthy (gt_task_id t) then [(task_name t, max 0 (gt_queries t))] else [])
       (cv_tasks env)))"

record budget =
  bu_used :: nat
  bu_tasks :: "(string, nat) dict"

definition campaign_limit :: "campaign_env \<Rightarrow> int" where
  "campaign_limit env = max 0 (cv_max_evaluations env)"

text \<open>A claim that is refused is \<open>None\<close>.\<close>

definition claim_solver_budget :: "campaign_env \<Rightarrow> string \<Rightarrow> budget \<Rightarrow> budget option" where
  "claim_solver_budget env task b =
     (if campaign_limit env \<le> int (bu_used b) then None
      else if dget_or (task_limits env) task (campaign_limit env) \<le> int (dget_or (bu_tasks b) task 0) then None
      else Some \<lparr>bu_used = bu_used b + 1, bu_tasks = dset task (dget_or (bu_tasks b) task 0 + 1) (bu_tasks b)\<rparr>)"

definition new_source :: source_stat where
  "new_source = \<lparr>so_attempts = 0, so_gains = 0, so_weight = 1\<rparr>"

definition raised_weight :: "rat \<Rightarrow> rat" where
  "raised_weight w = min 2 (w * (8 / 10) + 55 / 100)"

definition lowered_weight :: "rat \<Rightarrow> rat" where
  "lowered_weight w = max (1 / 10) (w * (85 / 100))"

definition source_attempt :: "bool \<Rightarrow> source_stat \<Rightarrow> source_stat" where
  "source_attempt gained s =
     (if gained then s\<lparr>so_attempts := so_attempts s + 1, so_gains := so_gains s + 1, so_weight := raised_weight (so_weight s)\<rparr>
      else s\<lparr>so_attempts := so_attempts s + 1, so_weight := lowered_weight (so_weight s)\<rparr>)"

definition source_credit :: "source_stat \<Rightarrow> source_stat" where
  "source_credit s = s\<lparr>so_gains := so_gains s + 1, so_weight := raised_weight (so_weight s)\<rparr>"

definition update_source ::
    "string \<Rightarrow> (source_stat \<Rightarrow> source_stat) \<Rightarrow> (string, source_stat) dict \<Rightarrow> (string, source_stat) dict" where
  "update_source source f stats = dset source (f (dget_or stats source new_source)) stats"

section \<open>Distance to a task\<close>

definition find_task :: "campaign_env \<Rightarrow> string \<Rightarrow> goal_task option" where
  "find_task env task = find (\<lambda>t. gt_task_id t = JStr task) (cv_tasks env)"

text \<open>The last frame's values, over which the last state of the run is laid, under upper-case names.\<close>

definition shown_values :: "testcase \<Rightarrow> observation \<Rightarrow> (string, json) dict" where
  "shown_values tc ob =
     dupdate (dict_of (map (\<lambda>(k, v). (py_upper k, JStr v)) (f_values (last (tc_frames tc)))))
       (if ob_states ob = [] then [] else map (\<lambda>(k, v). (py_upper k, v)) (last (ob_states ob)))"

text \<open>\<open>float(x)\<close> of a value, \<open>None\<close> when it is not a finite number.\<close>

definition float_of :: "json \<Rightarrow> rat option" where
  "float_of v = (case v of
     JStr s \<Rightarrow> decimal_value s
   | JInt i \<Rightarrow> Some (as_double (of_int i))
   | _ \<Rightarrow> number_of v)"

definition penalty :: "string \<Rightarrow> rat \<Rightarrow> rat \<Rightarrow> rat option" where
  "penalty op l r =
     (if op \<in> {''='', ''==''} then Some \<bar>l - r\<bar>
      else if op \<in> {''<>'', ''!=''} then Some (if l \<noteq> r then 0 else 1)
      else if op = ''<'' then Some (max 0 (l - r + 1))
      else if op = ''<='' then Some (max 0 (l - r))
      else if op = ''>'' then Some (max 0 (r - l + 1))
      else if op = ''>='' then Some (max 0 (r - l))
      else None)"

definition condition_penalty :: "(string, json) dict \<Rightarrow> condition \<Rightarrow> rat option" where
  "condition_penalty vs c =
     (case dget vs (py_upper (cn_field c)) of
        None \<Rightarrow> None
      | Some v \<Rightarrow> (case (float_of v, float_of (cn_const c)) of
            (Some l, Some r) \<Rightarrow> penalty (cn_op c) l r
          | _ \<Rightarrow> None))"

text \<open>A path without conditions, or with one that cannot be read, has no score.\<close>

definition path_score :: "(string, json) dict \<Rightarrow> condition list \<Rightarrow> rat option" where
  "path_score vs cs =
     (if cs = [] \<or> (\<exists>c \<in> set cs. condition_penalty vs c = None) then None
      else Some (sum_list (map (\<lambda>c. the (condition_penalty vs c)) cs)))"

definition least :: "rat list \<Rightarrow> rat option" where
  "least xs = (case xs of [] \<Rightarrow> None | x # ys \<Rightarrow> Some (foldl min x ys))"

definition solver_task_distance :: "campaign_env \<Rightarrow> string \<Rightarrow> testcase \<Rightarrow> observation \<Rightarrow> rat option" where
  "solver_task_distance env task tc ob =
     (if task = [] then None
      else case find_task env task of
        None \<Rightarrow> None
      | Some t \<Rightarrow> least (List.map_filter (\<lambda>(i, cs). path_score (shown_values tc ob) cs) (gt_paths t)))"

definition solver_state_key :: "campaign_env \<Rightarrow> string \<Rightarrow> observation \<Rightarrow> string option" where
  "solver_state_key env task ob =
     (if task = [] \<or> ob_states ob = [] then None
      else let names = (case find_task env task of None \<Rightarrow> [] | Some t \<Rightarrow>
               map (\<lambda>s. py_upper (sl_name s)) (filter (\<lambda>s. sl_block s \<in> {''VAR'', ''VAR_OUTPUT'', ''VAR_IN_OUT''}) (gt_state t)));
             projection = dict_of (map (\<lambda>(k, v). (py_upper k, v))
               (filter (\<lambda>(k, v). py_upper k \<in> set names) (last (ob_states ob)))) in
        if projection = [] then None else Some (dumps (JObj projection)))"

section \<open>The campaign\<close>

text \<open>Confirmation: the attempts of a candidate, what shortening did to its testcase, and the finding.\<close>

record attempt =
  at_round :: nat
  at_status :: string
  at_returncode :: "int option"
  at_hits :: "int list"
  at_oracle :: "string option"
  at_runtime :: "int option"

datatype shortening = Skipped | Shortened nat nat nat nat | ShorteningFailed string

record confirmation =
  ev_id :: string
  ev_status :: string
  ev_hits :: "int list"
  ev_oracle :: string
  ev_shortening :: shortening
  ev_attempts :: "attempt list"

record finding =
  fi_id :: string
  fi_oracle :: string
  fi_runtime :: "int option"
  fi_source :: json
  fi_validity :: string
  fi_cause :: string
  fi_evidence :: string
  fi_platform :: string
  fi_assumptions :: "assumption list"
  fi_vulnerability :: string
  fi_nature :: string
  fi_history :: string
  fi_support :: json
  fi_fidelity :: json
  fi_stub :: json
  fi_scope :: json
  fi_provenance :: "string \<times> string option \<times> json"

record campaign =
  cp_budget :: budget
  cp_sources :: "(string, source_stat) dict"
  cp_metrics :: metrics
  cp_results :: "symbolic_record list"
  cp_unsupported :: "symbolic_record list"
  cp_klee :: "klee_record list"
  cp_seed_hits :: "int set"
  cp_seed_states :: "string set"
  cp_best :: "(string, rat) dict"
  cp_next_seed :: nat
  cp_seeds :: "seed_file list"
  cp_candidates :: "campaign_candidate list"
  cp_confirmed :: "finding list"
  cp_evidence :: "confirmation list"
  cp_replays :: "(string \<times> string) list"

definition new_campaign :: campaign where
  "new_campaign = \<lparr>cp_budget = \<lparr>bu_used = 0, bu_tasks = []\<rparr>,
     cp_sources = [(''fuzz'', new_source), (''solver'', new_source)], cp_metrics = new_metrics, cp_results = [],
     cp_unsupported = [], cp_klee = [], cp_seed_hits = {}, cp_seed_states = {}, cp_best = [], cp_next_seed = 1,
     cp_seeds = [], cp_candidates = [], cp_confirmed = [], cp_evidence = [], cp_replays = []\<rparr>"

definition note_event :: "string \<Rightarrow> campaign \<Rightarrow> campaign" where
  "note_event kind c = c\<lparr>cp_metrics := count_event kind (cp_metrics c)\<rparr>"

definition bump :: "string \<Rightarrow> int \<Rightarrow> campaign \<Rightarrow> campaign" where
  "bump name v c = c\<lparr>cp_metrics := add_counter name v (cp_metrics c)\<rparr>"

definition record_source_result :: "string \<Rightarrow> bool \<Rightarrow> campaign \<Rightarrow> campaign" where
  "record_source_result source gained c =
     note_event ''source_weight'' (c\<lparr>cp_sources := update_source source (source_attempt gained) (cp_sources c)\<rparr>)"

definition credit_solver_feedback :: "campaign \<Rightarrow> campaign" where
  "credit_solver_feedback c =
     note_event ''solver_feedback_gain'' (c\<lparr>cp_sources := update_source ''solver'' source_credit (cp_sources c)\<rparr>)"

definition symbolic_record_of :: "string \<Rightarrow> string \<Rightarrow> solver_result \<Rightarrow> symbolic_record" where
  "symbolic_record_of query task r =
     \<lparr>sy_query = query, sy_task = task, sy_status = sr_status r, sy_reason = sr_reason r,
      sy_solver_scope = sr_solver_scope r, sy_model_scope = sr_model_scope r, sy_candidate = sr_candidate r,
      sy_native = None\<rparr>"

definition record_symbolic_result :: "string \<Rightarrow> string \<Rightarrow> solver_result \<Rightarrow> campaign \<Rightarrow> campaign" where
  "record_symbolic_result query task r c =
     (let entry = symbolic_record_of query task r; c = bump ''solver_queries'' 1 (c\<lparr>cp_results := cp_results c @ [entry]\<rparr>);
          c = (if sr_status r = ''UNSUPPORTED'' then c\<lparr>cp_unsupported := cp_unsupported c @ [entry]\<rparr> else c) in
      record_source_result ''solver'' False c)"

definition scope_is_approximate :: "json \<Rightarrow> bool" where
  "scope_is_approximate scope =
     (truthy (jget (obj_of scope) ''imprecise'') \<or> truthy (jget (obj_of scope) ''contract_approximate'') \<or>
      py_lower (shown_at (obj_of scope) ''semantic_fidelity'') = ''approximate'' \<or>
      truthy (jget (obj_of scope) ''stub_used''))"

definition record_klee_queue_result :: "string \<Rightarrow> string \<Rightarrow> string \<Rightarrow> solver_result \<Rightarrow> campaign \<Rightarrow> campaign" where
  "record_klee_queue_result prefix_id query task r c =
     c\<lparr>cp_klee := cp_klee c @ [SuffixResult prefix_id query task (sr_status r) (sr_status r \<in> {''SAT'', ''SAT_APPROX''})]\<rparr>"

definition native_status :: "observation \<Rightarrow> bool \<Rightarrow> bool \<Rightarrow> string" where
  "native_status ob matched model_goal_reached =
     (if ob_timed_out ob then ''TIMEOUT'' else if matched then ''candidate''
      else if model_goal_reached then ''model_goal_reached'' else ''REPLAY_MISMATCH'')"

definition record_klee_native_replay :: "string \<Rightarrow> string \<Rightarrow> string \<Rightarrow> string \<Rightarrow> campaign \<Rightarrow> campaign" where
  "record_klee_native_replay prefix_id query task status c =
     c\<lparr>cp_klee := cp_klee c @ [NativeReplay prefix_id query task status]\<rparr>"

text \<open>The last record of the query gets the status of its native replay.\<close>

fun update_first :: "('a \<Rightarrow> bool) \<Rightarrow> ('a \<Rightarrow> 'a) \<Rightarrow> 'a list \<Rightarrow> 'a list" where
  "update_first P f [] = []"
| "update_first P f (x # xs) = (if P x then f x # xs else x # update_first P f xs)"

definition mark_native_replay_status :: "string \<Rightarrow> string \<Rightarrow> campaign \<Rightarrow> campaign" where
  "mark_native_replay_status query status c =
     c\<lparr>cp_results := rev (update_first (\<lambda>r. sy_query r = query) (\<lambda>r. r\<lparr>sy_native := Some status\<rparr>)
       (rev (cp_results c)))\<rparr>"

definition scope_depth :: "json \<Rightarrow> int" where
  "scope_depth scope = (case py_int (jor (jget (obj_of scope) ''query_depth'') (JInt 0)) of Some d \<Rightarrow> d | None \<Rightarrow> 0)"

definition query_result_depth :: "campaign_env \<Rightarrow> solver_result \<Rightarrow> string \<Rightarrow> int \<Rightarrow> int" where
  "query_result_depth env r data fallback =
     (if 0 < scope_depth (sr_model_scope r) then scope_depth (sr_model_scope r)
      else if 0 < scope_depth (sr_solver_scope r) then scope_depth (sr_solver_scope r)
      else case parse_plain data (cv_abi env) of
        Inr tc \<Rightarrow> int (length (tc_frames tc))
      | Inl e \<Rightarrow> max 1 fallback)"

text \<open>The testcase of a solver result; reading its file gives the bytes or the text of the error.\<close>

definition SAT_STATUSES :: "string list" where
  "SAT_STATUSES = [''SAT'', ''SAT_APPROX'']"

definition solver_candidate :: "(string \<Rightarrow> string + string) \<Rightarrow> solver_result \<Rightarrow> solver_result \<times> string option" where
  "solver_candidate read r =
     (if sr_status r \<notin> {''SAT'', ''SAT_APPROX'', ''REPLAY_MISMATCH'', ''UNKNOWN'', ''UNSAT''} then (r, None)
      else case sr_candidate r of
        Some (ch # path) \<Rightarrow>
          (case read (ch # path) of
             Inr data \<Rightarrow> (r, Some data)
           | Inl e \<Rightarrow> if sr_status r \<notin> set SAT_STATUSES then (r, None)
               else (r\<lparr>sr_status := ''REPLAY_MISMATCH'', sr_reason := Some (''solver candidate unavailable: '' @ e)\<rparr>, None))
      | _ \<Rightarrow> if sr_status r \<notin> set SAT_STATUSES then (r, None)
          else (r\<lparr>sr_status := ''REPLAY_MISMATCH'',
            sr_reason := Some ''solver reported SAT without candidate_file''\<rparr>, None))"

section \<open>Seeds from the solver\<close>

definition seed_case :: "campaign_env \<Rightarrow> string \<Rightarrow> frame_error + testcase" where
  "seed_case env data =
     bindE (parse_plain data (cv_abi env)) (\<lambda>tc. bindE (validate tc (cv_abi env)) (\<lambda>u. Inr tc))"

definition best_after :: "string \<Rightarrow> bool \<Rightarrow> rat option \<Rightarrow> (string, rat) dict \<Rightarrow> (string, rat) dict" where
  "best_after task improved distance best =
     (case distance of Some d \<Rightarrow> if improved then dset task d best else best | None \<Rightarrow> best)"

text \<open>A seed is published when its run hit a new target, left a new state or came closer.\<close>

definition publish_seed ::
    "campaign_env \<Rightarrow> bool \<Rightarrow> string \<Rightarrow> testcase \<Rightarrow> observation \<Rightarrow> string \<Rightarrow> string \<Rightarrow> campaign \<Rightarrow> bool \<times> campaign" where
  "publish_seed env writable data tc ob query task c =
     (let new_hits = set (dkeys (ob_hits ob)) - cp_seed_hits c; key = solver_state_key env task ob;
          new_state = (case key of None \<Rightarrow> False | Some k \<Rightarrow> k \<notin> cp_seed_states c);
          distance = solver_task_distance env task tc ob;
          improved = (case (distance, dget (cp_best c) task) of (Some d, Some b) \<Rightarrow> d < b | _ \<Rightarrow> False) in
      if new_hits = {} \<and> \<not> new_state \<and> \<not> improved then (False, note_event ''solver_seed_rejected'' c)
      else if \<not> writable then (False, note_event ''solver_seed_rejected'' c)
      else (True, note_event ''solver_seed_enqueued'' (bump ''solver_seeds_enqueued'' 1
        (c\<lparr>cp_seed_hits := cp_seed_hits c \<union> set (dkeys (ob_hits ob)),
           cp_seed_states := (case key of None \<Rightarrow> cp_seed_states c | Some k \<Rightarrow> insert k (cp_seed_states c)),
           cp_best := best_after task improved distance (cp_best c),
           cp_next_seed := cp_next_seed c + 1,
           cp_seeds := cp_seeds c @ [\<lparr>sf_id = cp_next_seed c, sf_text = data, sf_query = query, sf_task = task,
             sf_hits = new_hits, sf_new_state = new_state, sf_improved = improved, sf_distance = distance\<rparr>]\<rparr>))))"

text \<open>\<open>OverflowError\<close> of a time literal is no \<open>ValueError\<close> and is not caught.\<close>

definition offer_solver_seed ::
    "campaign_env \<Rightarrow> bool \<Rightarrow> bool \<Rightarrow> string \<Rightarrow> observation \<Rightarrow> string \<Rightarrow> string \<Rightarrow> campaign \<Rightarrow>
      frame_error + bool \<times> campaign" where
  "offer_solver_seed env stopped writable data ob query task c =
     (if stopped then Inr (False, note_event ''solver_seed_rejected'' c)
      else if ob_timed_out ob \<or> ob_returncode ob \<noteq> Some 0 \<or> ob_scan_budget ob then Inr (False, c)
      else if classify ob (cv_index env) \<noteq> None then Inr (False, c)
      else case seed_case env data of
        Inl e \<Rightarrow> if e = Overflow then Inl Overflow else Inr (False, c)
      | Inr tc \<Rightarrow>
          if tc_frames tc = [] \<or> 300 < length (tc_frames tc) \<or> tc_init_profile tc \<noteq> ''cold'' then Inr (False, c)
          else Inr (publish_seed env writable data tc ob query task c))"

text \<open>The run of a prefix without a state gives the distance a solver has to improve on.\<close>

definition no_observation :: observation where
  "no_observation = \<lparr>ob_returncode = Some 0, ob_timed_out = False, ob_stderr = [], ob_hits = [], ob_states = [],
     ob_crashed = False, ob_scan_budget = False, ob_signal = None\<rparr>"

definition record_distance_baseline :: "campaign_env \<Rightarrow> string \<Rightarrow> testcase \<Rightarrow> campaign \<Rightarrow> campaign" where
  "record_distance_baseline env task tc c =
     (case solver_task_distance env task tc no_observation of
        None \<Rightarrow> c
      | Some d \<Rightarrow> note_event ''solver_distance_baseline''
          (c\<lparr>cp_best := dset task (case dget (cp_best c) task of None \<Rightarrow> d | Some b \<Rightarrow> min b d) (cp_best c)\<rparr>))"

section \<open>Candidates\<close>

type_synonym candidate_site = "string \<times> int option \<times> json \<times> json \<times> string option"

definition candidate_site :: "candidate \<Rightarrow> candidate_site" where
  "candidate_site i = (ca_oracle i, ca_runtime i, jget (obj_of (ca_source i)) ''file'',
     jget (obj_of (ca_source i)) ''start_offset'', if ca_kind i = ''crash'' then ca_diagnostic i else None)"

definition finding_id :: "nat \<Rightarrow> string" where
  "finding_id n = ''F'' @ replicate (4 - length (show_nat n)) CHR ''0'' @ show_nat n"

definition register_candidate ::
    "string \<Rightarrow> observation \<Rightarrow> candidate \<Rightarrow> string \<Rightarrow> int \<Rightarrow> string option \<Rightarrow> json \<Rightarrow> campaign \<Rightarrow> campaign" where
  "register_candidate data ob info source depth query scope c =
     (if candidate_site info \<in> candidate_site ` cc_info ` set (cp_candidates c) then c
      else bump ''candidates'' 1 (note_event ''candidate''
        (c\<lparr>cp_candidates := cp_candidates c @
            [\<lparr>cc_id = finding_id (length (cp_candidates c) + 1), cc_testcase = data, cc_observation = ob,
              cc_info = info, cc_source = source, cc_query = query, cc_scope = scope, cc_depth = depth\<rparr>]\<rparr>)))"

end
