(* ===== verification/Campaign_Confirm.thy ===== *)
theory Campaign_Confirm
  imports Campaign_State
begin

text \<open>
  Confirmation of candidates (\<open>confirm\<close> and \<open>_run_confirmation\<close> of \<open>fuzzer/pipeline/campaign.py\<close>): each
  open candidate is shortened, run three times, and once more three times when that failed and time is
  left. The runs and the clock are parameters. The replay package written for a finding is not modelled.
\<close>

section \<open>Matching runs\<close>

definition candidate_key :: "candidate \<Rightarrow> string \<times> int option \<times> string option" where
  "candidate_key i = (ca_oracle i, ca_runtime i, if truthy (ca_source i) then Some (dumps (ca_source i)) else None)"

definition same_candidate :: "candidate \<Rightarrow> candidate option \<Rightarrow> bool" where
  "same_candidate first second = (case second of None \<Rightarrow> False | Some s \<Rightarrow> candidate_key first = candidate_key s)"

definition run_matches :: "campaign_env \<Rightarrow> candidate \<Rightarrow> observation \<Rightarrow> bool" where
  "run_matches env info ob = same_candidate info (classify ob (cv_index env))"

section \<open>The finding\<close>

definition nature_of :: "string \<Rightarrow> string" where
  "nature_of oracle =
     (if oracle \<in> {''array_access'', ''null_dereference''} then ''memory_or_bounds''
      else if oracle \<in> {''conversion_out_of_range'', ''division_by_zero''} then ''arithmetic_or_conversion''
      else if oracle = ''scan_budget'' then ''scan_budget'' else ''crash'')"

definition cause_of :: "candidate \<Rightarrow> string" where
  "cause_of i =
     (if truthy (ca_source i) then ''source''
      else if ca_kind i = ''crash'' then
        (if contains ''semantist'' (py_lower (case ca_diagnostic i of None \<Rightarrow> [] | Some d \<Rightarrow> d)) then ''harness''
         else ''runtime'')
      else ''undetermined'')"

definition cause_evidence :: "candidate \<Rightarrow> string" where
  "cause_evidence i = (case ca_diagnostic i of
     Some (ch # d) \<Rightarrow> ch # d
   | _ \<Rightarrow> (case ca_observed i of
       Some (ch # p) \<Rightarrow> ''native typed predicate: '' @ ch # p
     | _ \<Rightarrow> ''runtime semantic probe''))"

text \<open>Any exception while the testcase is parsed and validated makes it violate the contract.\<close>

definition contract_case :: "campaign_env \<Rightarrow> string \<Rightarrow> testcase option" where
  "contract_case env data = (case seed_case env data of Inr tc \<Rightarrow> Some tc | Inl e \<Rightarrow> None)"

definition contract_text :: "campaign_env \<Rightarrow> string \<Rightarrow> json" where
  "contract_text env key = jget_or (cv_contract env) key (JStr ''unknown'')"

definition fidelity_of :: "campaign_env \<Rightarrow> json" where
  "fidelity_of env =
     (if au_assumptions (cv_audit env) \<noteq> [] then JStr ''approximate'' else contract_text env ''semantic_fidelity'')"

definition confirm :: "campaign_env \<Rightarrow> campaign_candidate \<Rightarrow> observation list \<Rightarrow> finding option" where
  "confirm env cand obs =
     (let i = cc_info cand; tc = contract_case env (cc_testcase cand); assumed = au_assumptions (cv_audit env) in
      if length (filter (run_matches env i) obs) < 3 then None
      else Some \<lparr>fi_id = cc_id cand, fi_oracle = ca_oracle i, fi_runtime = ca_runtime i, fi_source = ca_source i,
        fi_validity = (if tc = None then ''violates_contract'' else ''satisfies_confirmed''),
        fi_cause = cause_of i, fi_evidence = cause_evidence i,
        fi_platform = (if assumed \<noteq> [] then ''platform_assumption_model_incomplete'' else ''declared_profile''),
        fi_assumptions = assumed,
        fi_vulnerability = (if assumed \<noteq> [] \<or> cause_of i \<noteq> ''source'' then ''not_established''
          else ''source_risk_confirmed_under_model''),
        fi_nature = nature_of (ca_oracle i),
        fi_history = (case tc of None \<Rightarrow> ''undetermined''
          | Some t \<Rightarrow> if 1 < length (tc_frames t) then ''history_dependent'' else ''single_cycle''),
        fi_support = contract_text env ''support_status'', fi_fidelity = fidelity_of env,
        fi_stub = jget_or (cv_contract env) ''stub_used'' (JList []),
        fi_scope = jor (cc_scope cand) (jget_or (cv_contract env) ''model_scope'' (JObj [])),
        fi_provenance = (cc_source cand, cc_query cand, cc_scope cand)\<rparr>)"

section \<open>A confirmation pass\<close>

text \<open>
  By the candidate's identifier: whether there is time to shorten it, the runs of the shortening and
  its deadline, the three runs of its testcase, whether there is time for three more, and these.
\<close>

record confirm_io =
  ci_shorten :: "string \<Rightarrow> bool"
  ci_probe :: "string \<Rightarrow> nat \<Rightarrow> string \<Rightarrow> observation"
  ci_expired :: "string \<Rightarrow> nat \<Rightarrow> bool"
  ci_first :: "string \<Rightarrow> string \<Rightarrow> nat \<Rightarrow> observation"
  ci_retry :: "string \<Rightarrow> bool"
  ci_again :: "string \<Rightarrow> string \<Rightarrow> nat \<Rightarrow> observation"

definition candidate_minimizer :: "campaign_env \<Rightarrow> confirm_io \<Rightarrow> campaign_candidate \<Rightarrow> minimizer" where
  "candidate_minimizer env io cand =
     \<lparr>mi_abi = cv_abi env, mi_index = cv_index env, mi_signature = run_signature (cc_info cand),
      mi_probe = ci_probe io (cc_id cand), mi_expired = ci_expired io (cc_id cand)\<rparr>"

definition shortening_failed :: "frame_error \<Rightarrow> string \<Rightarrow> frame_error + shortening \<times> string" where
  "shortening_failed e data = (if e = Overflow then Inl Overflow else Inr (ShorteningFailed ''FAILED'', data))"

definition shorten :: "campaign_env \<Rightarrow> confirm_io \<Rightarrow> campaign_candidate \<Rightarrow> frame_error + shortening \<times> string" where
  "shorten env io cand =
     (let data = cc_testcase cand in
      case parse_plain data (cv_abi env) of
        Inl e \<Rightarrow> shortening_failed e data
      | Inr tc \<Rightarrow>
          if 1 < length (tc_frames tc) \<and> ci_shorten io (cc_id cand) then
            (case minimize_frames (candidate_minimizer env io cand) 1 data of
               Inl DeadlineExhausted \<Rightarrow> Inr (ShorteningFailed ''TIMEOUT'', data)
             | Inl (Unparsed e) \<Rightarrow> shortening_failed e data
             | Inl (NotEncoded e) \<Rightarrow> shortening_failed e data
             | Inr r \<Rightarrow> Inr (Shortened (length (tc_frames tc)) (mz_frames r) (mz_removed r) (mz_simplified r),
                 if mz_frames r < length (tc_frames tc) then mz_testcase r else data))
          else Inr (Skipped, data))"

definition attempt_of :: "campaign_env \<Rightarrow> candidate \<Rightarrow> nat \<Rightarrow> observation \<Rightarrow> attempt" where
  "attempt_of env info round_number ob =
     \<lparr>at_round = round_number,
      at_status = (if ob_timed_out ob then ''TIMEOUT'' else if run_matches env info ob then ''MATCH'' else ''REPLAY_MISMATCH''),
      at_returncode = ob_returncode ob, at_hits = dkeys (ob_hits ob),
      at_oracle = map_option ca_oracle (classify ob (cv_index env)),
      at_runtime = (case classify ob (cv_index env) of None \<Rightarrow> None | Some i \<Rightarrow> ca_runtime i)\<rparr>"

definition first_round :: "confirm_io \<Rightarrow> campaign_candidate \<Rightarrow> observation list" where
  "first_round io cand = map (ci_first io (cc_id cand) (cc_testcase cand)) [0..<3]"

definition retry_round :: "confirm_io \<Rightarrow> campaign_candidate \<Rightarrow> observation list" where
  "retry_round io cand = map (ci_again io (cc_id cand) (cc_testcase cand)) [0..<3]"

text \<open>The rounds that were run, and the finding of the last one.\<close>

definition confirm_rounds :: "campaign_env \<Rightarrow> confirm_io \<Rightarrow> campaign_candidate \<Rightarrow> observation list list \<times> finding option" where
  "confirm_rounds env io cand =
     (case confirm env cand (first_round io cand) of
        Some f \<Rightarrow> ([first_round io cand], Some f)
      | None \<Rightarrow> if ci_retry io (cc_id cand)
          then ([first_round io cand, retry_round io cand], confirm env cand (retry_round io cand))
          else ([first_round io cand], None))"

definition confirmation_of ::
    "campaign_env \<Rightarrow> campaign_candidate \<Rightarrow> shortening \<Rightarrow> observation list list \<Rightarrow> finding option \<Rightarrow> confirmation" where
  "confirmation_of env cand s rounds found =
     (let attempts = concat (map (\<lambda>(k, obs). map (attempt_of env (cc_info cand) k) obs) (enumerate 1 rounds)) in
      \<lparr>ev_id = cc_id cand,
       ev_status = (if found \<noteq> None then ''confirmed''
         else if \<exists>a \<in> set attempts. at_status a = ''TIMEOUT'' then ''TIMEOUT'' else ''REPLAY_MISMATCH''),
       ev_hits = dkeys (ob_hits (cc_observation cand)), ev_oracle = ca_oracle (cc_info cand), ev_shortening = s,
       ev_attempts = attempts\<rparr>)"

definition confirm_one ::
    "campaign_env \<Rightarrow> confirm_io \<Rightarrow> campaign \<Rightarrow> campaign_candidate \<times> shortening \<Rightarrow> campaign" where
  "confirm_one env io c entry =
     (let (cand, s) = entry; (rounds, found) = confirm_rounds env io cand;
          c = c\<lparr>cp_evidence := cp_evidence c @ [confirmation_of env cand s rounds found]\<rparr> in
      case found of
        None \<Rightarrow> c
      | Some f \<Rightarrow> bump ''confirmed'' 1 (note_event ''confirmed'' (c\<lparr>cp_confirmed := cp_confirmed c @ [f]\<rparr>)))"

definition pending_candidates :: "campaign \<Rightarrow> campaign_candidate list" where
  "pending_candidates c = filter (\<lambda>cand. cc_id cand \<notin> fi_id ` set (cp_confirmed c)) (cp_candidates c)"

definition replace_candidates :: "campaign_candidate list \<Rightarrow> campaign_candidate list \<Rightarrow> campaign_candidate list" where
  "replace_candidates news olds =
     map (\<lambda>old. case find (\<lambda>new. cc_id new = cc_id old) news of None \<Rightarrow> old | Some new \<Rightarrow> new) olds"

definition with_testcases ::
    "campaign_candidate list \<Rightarrow> (shortening \<times> string) list \<Rightarrow> campaign_candidate list" where
  "with_testcases cands shortened = map (\<lambda>(cand, s, data). cand\<lparr>cc_testcase := data\<rparr>) (zip cands shortened)"

definition run_confirmation :: "campaign_env \<Rightarrow> confirm_io \<Rightarrow> campaign \<Rightarrow> frame_error + campaign" where
  "run_confirmation env io c =
     (if pending_candidates c = [] then Inr c
      else bindE (mapE (shorten env io) (pending_candidates c)) (\<lambda>shortened.
        let cands = with_testcases (pending_candidates c) shortened in
        Inr (foldl (confirm_one env io)
          (note_event ''confirmation_probes'' (c\<lparr>cp_candidates := replace_candidates cands (cp_candidates c)\<rparr>))
          (zip cands (map fst shortened)))))"

end
