(* ===== verification/Campaign_Run.thy ===== *)
theory Campaign_Run
  imports Campaign_Confirm "HOL-Library.Product_Lexorder"
begin

text \<open>
  The run of a campaign (\<open>fuzzer/pipeline/campaign.py\<close>): solver queries at the start and on the
  prefixes the engine finds, the candidates of the engine, and the report. A query is a parameter: its
  result, the files it wrote, the native runs of its testcases, and whether deadlines had passed. A
  campaign is a sequence of such events.
\<close>

section \<open>One query\<close>

text \<open>
  \<open>qr_run k\<close> is the native run of the \<open>k\<close>-th testcase of the query. \<open>qr_late\<close>, \<open>qr_stopped\<close> and
  \<open>qr_writable\<close> say whether the deadline had passed, the engine had stopped and the queue could be
  written at the \<open>k\<close>-th testcase.
\<close>

record query_run =
  qr_result :: solver_result
  qr_read :: "string \<Rightarrow> string + string"
  qr_run :: "nat \<Rightarrow> string \<Rightarrow> observation"
  qr_late :: "nat \<Rightarrow> bool"
  qr_stopped :: "nat \<Rightarrow> bool"
  qr_writable :: "nat \<Rightarrow> bool"

definition offer_nth ::
    "campaign_env \<Rightarrow> query_run \<Rightarrow> string \<Rightarrow> string \<Rightarrow> nat \<Rightarrow> string \<Rightarrow> campaign \<Rightarrow> frame_error + campaign" where
  "offer_nth env q query task k data c =
     bindE (offer_solver_seed env (qr_stopped q k) (qr_writable q k) data (qr_run q k data) query task c)
       (\<lambda>(offered, c). Inr c)"

text \<open>Further seeds of a result that only gives seeds, at most 15, until the deadline.\<close>

fun offer_seed_files ::
    "campaign_env \<Rightarrow> query_run \<Rightarrow> string \<Rightarrow> string \<Rightarrow> nat \<Rightarrow> string list \<Rightarrow> campaign \<Rightarrow> frame_error + campaign" where
  "offer_seed_files env q query task k [] c = Inr c"
| "offer_seed_files env q query task k (ref # refs) c =
     (if qr_late q k then Inr c
      else case qr_read q ref of
        Inl e \<Rightarrow> offer_seed_files env q query task (k + 1) refs c
      | Inr data \<Rightarrow> bindE (offer_nth env q query task k data c) (offer_seed_files env q query task (k + 1) refs))"

definition offer_additional_seeds ::
    "campaign_env \<Rightarrow> query_run \<Rightarrow> string \<Rightarrow> string \<Rightarrow> solver_result \<Rightarrow> campaign \<Rightarrow> frame_error + campaign" where
  "offer_additional_seeds env q query task r c =
     (if sr_seed_only r then offer_seed_files env q query task 1 (take 15 (sr_seed_files r)) c else Inr c)"

text \<open>What the query was about.\<close>

record query_place =
  qp_prefix :: string
  qp_query :: string
  qp_task :: string
  qp_goal :: int
  qp_live :: bool
  qp_fallback :: int

text \<open>
  The native run of a model decides: a candidate is registered when the run is classified as one and
  hit the goal of the query.
\<close>

definition replay_model ::
    "campaign_env \<Rightarrow> query_place \<Rightarrow> solver_result \<Rightarrow> string \<Rightarrow> observation \<Rightarrow> campaign \<Rightarrow> campaign" where
  "replay_model env p r data ob c =
     (let info = classify ob (cv_index env); hit = (qp_goal p \<in> set (dkeys (ob_hits ob)));
          status = native_status ob (info \<noteq> None \<and> hit) (sr_goal_reached r \<and> hit);
          c = mark_native_replay_status (qp_query p) status
            (record_klee_native_replay (qp_prefix p) (qp_query p) (qp_task p) status c) in
      case info of
        None \<Rightarrow> c
      | Some i \<Rightarrow> if hit
          then note_event ''goal_reached'' (register_candidate data ob i ''solver''
            (query_result_depth env r data (qp_fallback p)) (Some (qp_query p)) (sr_model_scope r) c)
          else c)"

definition record_query :: "query_place \<Rightarrow> solver_result \<Rightarrow> campaign \<Rightarrow> campaign" where
  "record_query p r c =
     (let c = record_symbolic_result (qp_query p) (qp_task p) r c in
      note_event ''solver_result''
        (if qp_live p then record_klee_queue_result (qp_prefix p) (qp_query p) (qp_task p) r c else c))"

definition feed_back ::
    "campaign_env \<Rightarrow> query_place \<Rightarrow> query_run \<Rightarrow> solver_result \<Rightarrow> string \<Rightarrow> campaign \<Rightarrow> frame_error + campaign" where
  "feed_back env p q r data c =
     bindE (offer_nth env q (qp_query p) (qp_task p) 0 data c) (\<lambda>c.
     bindE (offer_additional_seeds env q (qp_query p) (qp_task p) r c) (\<lambda>c.
       let c = (if qp_live p then note_event ''solver_feedback_cutoff'' c else c) in
       Inr (if sr_status r \<in> set SAT_STATUSES then replay_model env p r data (qr_run q 0 data) c else c)))"

definition finish_query :: "campaign_env \<Rightarrow> query_place \<Rightarrow> query_run \<Rightarrow> campaign \<Rightarrow> frame_error + campaign" where
  "finish_query env p q c =
     (let (r, testcase) = solver_candidate (qr_read q) (qr_result q) in
      case testcase of
        None \<Rightarrow> Inr (record_query p r c)
      | Some data \<Rightarrow> feed_back env p q r data (record_query p r c))"

section \<open>Queries at the start\<close>

text \<open>The upper bound of an integer type as a real, for a field a conversion reads.\<close>

definition float_conversion_anchor ::
    "runtime_index \<Rightarrow> abi_document \<Rightarrow> goal_task \<Rightarrow> (string \<times> string) option" where
  "float_conversion_anchor index abi task =
     (let predicate = (case py_int (gt_runtime task) of None \<Rightarrow> [] | Some i \<Rightarrow>
            (case dget index i of None \<Rightarrow> [] | Some e \<Rightarrow> obj_at e ''violation_predicate''));
          width = jget predicate ''target_bit_width''; sign = jget predicate ''signed'' in
      if jget predicate ''kind'' \<noteq> JStr ''float_to_integer'' \<or> width \<notin> JInt ` {8, 16, 32, 64} \<or> sign = JNull then None
      else map_option (\<lambda>e. (entry_name e,
          show_int (2 ^ nat (int_of width - (if truthy sign then 1 else 0))) @ ''.0''))
        (find (\<lambda>e. entry_name e \<in> set (gt_fields task) \<and> is_real (obj_at e ''spec'')) (ad_frame_fields abi)))"

record startup_env =
  su_available :: bool
  su_abi :: abi_document
  su_suggested :: "string \<Rightarrow> bool"
  su_late :: "nat \<Rightarrow> bool"
  su_query :: "nat \<Rightarrow> query_run"

record startup_state =
  ss_campaign :: campaign
  ss_attempted :: nat
  ss_clock :: nat

definition eligible_tasks :: "campaign_env \<Rightarrow> goal_task list" where
  "eligible_tasks env =
     filter (\<lambda>t. gt_hazard t \<in> set (map JStr OBJECTIVE_HAZARDS) \<and> gt_suitable t \<and> gt_runtime t \<noteq> JNull) (cv_tasks env)"

definition ordered_tasks :: "campaign_env \<Rightarrow> startup_env \<Rightarrow> goal_task list" where
  "ordered_tasks env su =
     filter (\<lambda>t. su_suggested su (task_name t)) (eligible_tasks env) @
     filter (\<lambda>t. \<not> su_suggested su (task_name t)) (eligible_tasks env)"

text \<open>The loops stop when the clock has run out or the budget is used; each look at the clock is counted.\<close>

definition startup_over :: "campaign_env \<Rightarrow> startup_env \<Rightarrow> startup_state \<Rightarrow> bool" where
  "startup_over env su s = (su_late su (ss_clock s) \<or> campaign_limit env \<le> int (ss_attempted s))"

definition tick :: "startup_state \<Rightarrow> startup_state" where
  "tick s = s\<lparr>ss_clock := ss_clock s + 1\<rparr>"

definition goal_of :: "goal_task \<Rightarrow> int" where
  "goal_of t = (case py_int (gt_runtime t) of Some i \<Rightarrow> i | None \<Rightarrow> 0)"

definition startup_place :: "nat \<Rightarrow> goal_task \<Rightarrow> query_place" where
  "startup_place n t = \<lparr>qp_prefix = ''cold'', qp_query = ''q-start-'' @ show_nat n @ ''-'' @ py_str (gt_runtime t),
     qp_task = task_name t, qp_goal = goal_of t, qp_live = False, qp_fallback = 1\<rparr>"

text \<open>One variant of a task; \<open>None\<close> when the variants end here, else the status of its result.\<close>

definition startup_variant ::
    "campaign_env \<Rightarrow> startup_env \<Rightarrow> goal_task \<Rightarrow> bool \<Rightarrow> startup_state \<Rightarrow> frame_error + startup_state \<times> string option" where
  "startup_variant env su t anchored s =
     (if startup_over env su s then Inr (tick s, None)
      else case claim_solver_budget env (task_name t) (cp_budget (ss_campaign s)) of
        None \<Rightarrow> Inr (tick s, None)
      | Some b \<Rightarrow>
          (let n = ss_attempted s + 1; q = su_query su n;
               c = (ss_campaign s)\<lparr>cp_budget := b\<rparr>; c = (if anchored then note_event ''solver_trigger'' c else c) in
           bindE (finish_query env (startup_place n t) q c) (\<lambda>c.
             Inr ((tick s)\<lparr>ss_campaign := c, ss_attempted := n\<rparr>, Some (sr_status (qr_result q))))))"

definition startup_task ::
    "campaign_env \<Rightarrow> startup_env \<Rightarrow> startup_state \<Rightarrow> goal_task \<Rightarrow> frame_error + startup_state" where
  "startup_task env su s t =
     bindE (startup_variant env su t False s) (\<lambda>(s, previous).
       if float_conversion_anchor (cv_index env) (su_abi su) t \<noteq> None \<and> previous \<in> {Some ''UNKNOWN'', Some ''UNSAT''}
       then bindE (startup_variant env su t True s) (\<lambda>(s, status). Inr s)
       else Inr s)"

text \<open>Once the loop over the tasks has ended the remaining tasks are not looked at.\<close>

fun startup_tasks ::
    "campaign_env \<Rightarrow> startup_env \<Rightarrow> goal_task list \<Rightarrow> startup_state \<Rightarrow> frame_error + startup_state" where
  "startup_tasks env su [] s = Inr s"
| "startup_tasks env su (t # ts) s =
     (if startup_over env su s then Inr (tick s)
      else bindE (startup_task env su (tick s) t) (startup_tasks env su ts))"

definition run_symbolic_startup :: "campaign_env \<Rightarrow> startup_env \<Rightarrow> campaign \<Rightarrow> frame_error + campaign" where
  "run_symbolic_startup env su c =
     (if truthy (jget (cv_ablations env) ''no_symbolic'') \<or> \<not> su_available su then Inr c
      else bindE (startup_tasks env su (ordered_tasks env su) \<lparr>ss_campaign = c, ss_attempted = 0, ss_clock = 0\<rparr>) (\<lambda>s.
        let c = ss_campaign s; c = (if 0 < ss_attempted s then note_event ''symbolic_startup'' c else c) in
        Inr (if campaign_limit env \<le> int (ss_attempted s) then note_event ''solver_budget_exhausted'' c else c)))"

section \<open>Queries on prefixes of the engine\<close>

text \<open>
  A record of the queue of prefixes: its JSON object, the content of its frames file (none when there
  is no file), and for each task it is tried on whether the search had to stop, whether the engine had
  reached the task, and the query.
\<close>

record live_input =
  li_record :: "(string, json) dict"
  li_content :: "string option"
  li_stop :: "nat \<Rightarrow> bool"
  li_reached :: "string \<Rightarrow> bool"
  li_query :: "nat \<Rightarrow> query_run"

record live_state =
  lv_campaign :: campaign
  lv_seen :: "(string \<times> string option) set"
  lv_queries :: "(string, nat) dict"
  lv_processed :: nat
  lv_exhausted :: bool

definition live_tasks :: "campaign_env \<Rightarrow> goal_task list" where
  "live_tasks env = filter (\<lambda>t. gt_suitable t \<and> gt_class t = ''defect'' \<and> gt_runtime t \<noteq> JNull) (cv_tasks env)"

definition note_live :: "string \<Rightarrow> live_state \<Rightarrow> live_state" where
  "note_live kind s = s\<lparr>lv_campaign := note_event kind (lv_campaign s)\<rparr>"

definition live_place :: "string \<Rightarrow> testcase \<Rightarrow> goal_task \<Rightarrow> query_place" where
  "live_place prefix_id tc t =
     \<lparr>qp_prefix = prefix_id, qp_query = ''live-prefix-'' @ prefix_id @ ''-'' @ show_int (goal_of t), qp_task = task_name t,
      qp_goal = goal_of t, qp_live = True, qp_fallback = int (length (tc_frames tc)) + 1\<rparr>"

text \<open>A task that has used up its own share of queries is skipped; a refused claim ends the monitor (and the tasks of
  this record, which the second result tells).\<close>

definition live_query ::
    "campaign_env \<Rightarrow> live_input \<Rightarrow> string \<Rightarrow> testcase \<Rightarrow> nat \<Rightarrow> goal_task \<Rightarrow> live_state \<Rightarrow>
      frame_error + live_state \<times> bool" where
  "live_query env i prefix_id tc k t s =
     (let s = note_live ''solver_trigger'' s in
      case claim_solver_budget env (task_name t) (cp_budget (lv_campaign s)) of
        None \<Rightarrow> Inr (note_live ''solver_budget_exhausted'' (s\<lparr>lv_exhausted := True\<rparr>), True)
      | Some b \<Rightarrow>
          bindE (finish_query env (live_place prefix_id tc t) (li_query i k) ((lv_campaign s)\<lparr>cp_budget := b\<rparr>)) (\<lambda>c.
            Inr (s\<lparr>lv_campaign := c, lv_processed := lv_processed s + 1,
              lv_queries := dset (task_name t) (dget_or (lv_queries s) (task_name t) 0 + 1) (lv_queries s)\<rparr>, False)))"

fun live_tasks_loop ::
    "campaign_env \<Rightarrow> live_input \<Rightarrow> string \<Rightarrow> testcase \<Rightarrow> nat \<Rightarrow> goal_task list \<Rightarrow> live_state \<Rightarrow> frame_error + live_state" where
  "live_tasks_loop env i prefix_id tc k [] s = Inr s"
| "live_tasks_loop env i prefix_id tc k (t # ts) s =
     (if solver_prefix_skip_reason (li_record i) t False \<noteq> None
      then live_tasks_loop env i prefix_id tc (k + 1) ts (note_live ''solver_trigger'' s)
      else let s = s\<lparr>lv_campaign := record_distance_baseline env (task_name t) tc (lv_campaign s)\<rparr> in
        if li_stop i k then Inr s
        else if li_reached i (task_name t) \<or> max 0 (gt_queries t) \<le> int (dget_or (lv_queries s) (task_name t) 0)
        then live_tasks_loop env i prefix_id tc (k + 1) ts (note_live ''solver_trigger'' s)
        else bindE (live_query env i prefix_id tc k t s) (\<lambda>(s, ended).
          if ended then Inr s else live_tasks_loop env i prefix_id tc (k + 1) ts s))"

definition plain_text :: "json \<Rightarrow> string option" where
  "plain_text v = (case v of JStr s \<Rightarrow> Some s | _ \<Rightarrow> None)"

definition live_case ::
    "campaign_env \<Rightarrow> live_input \<Rightarrow> string \<Rightarrow> string option \<Rightarrow> testcase \<Rightarrow> live_state \<Rightarrow> frame_error + live_state" where
  "live_case env i prefix_id task tc s =
     (if tc_frames tc = [] then Inr s
      else case task of
        None \<Rightarrow> Inr (note_live ''solver_trigger'' s)
      | Some name \<Rightarrow>
          (let ts = filter (\<lambda>t. task_name t = name) (live_tasks env) in
           if ts = [] then Inr (note_live ''solver_trigger'' s) else live_tasks_loop env i prefix_id tc 0 ts s))"

definition live_record :: "campaign_env \<Rightarrow> live_input \<Rightarrow> live_state \<Rightarrow> frame_error + live_state" where
  "live_record env i s =
     (let r = li_record i; task = plain_text (jget r ''task_id'') in
      case plain_text (jget r ''prefix_id'') of
        None \<Rightarrow> Inr (note_live ''prefix_record_invalid'' s)
      | Some prefix_id \<Rightarrow>
          if prefix_id = [] then Inr (note_live ''prefix_record_invalid'' s)
          else if (prefix_id, task) \<in> lv_seen s then Inr s
          else if plain_text (jget r ''frames_file'') \<in> {None, Some []} then Inr (note_live ''prefix_record_invalid'' s)
          else case li_content i of
            None \<Rightarrow> Inr (note_live ''prefix_record_invalid'' s)
          | Some data \<Rightarrow> (case parse_plain data (cv_abi env) of
                Inl e \<Rightarrow> Inr (note_live ''prefix_record_invalid'' s)
              | Inr tc \<Rightarrow> live_case env i prefix_id task tc (s\<lparr>lv_seen := insert (prefix_id, task) (lv_seen s)\<rparr>)))"

text \<open>\<open>sorted(records, key=solver_prefix_priority, reverse=True)\<close> keeps the order of equal records.\<close>

definition by_priority :: "live_input list \<Rightarrow> live_input list" where
  "by_priority is = rev (sort_key (\<lambda>i. solver_prefix_priority (li_record i)) (rev is))"

text \<open>One look at the queue; \<open>over k\<close> tells that the search had to stop before its \<open>k\<close>-th record.\<close>

fun live_records ::
    "campaign_env \<Rightarrow> (nat \<Rightarrow> bool) \<Rightarrow> nat \<Rightarrow> live_input list \<Rightarrow> live_state \<Rightarrow> frame_error + live_state" where
  "live_records env over k [] s = Inr s"
| "live_records env over k (i # is) s =
     (if over k then Inr s else bindE (live_record env i s) (live_records env over (k + 1) is))"

definition live_poll ::
    "campaign_env \<Rightarrow> (nat \<Rightarrow> bool) \<Rightarrow> live_input list \<Rightarrow> live_state \<Rightarrow> frame_error + live_state" where
  "live_poll env over is s = (if lv_exhausted s then Inr s else live_records env over 0 (by_priority is) s)"

definition live_start :: "campaign \<Rightarrow> live_state" where
  "live_start c = \<lparr>lv_campaign = c, lv_seen = {}, lv_queries = [], lv_processed = 0, lv_exhausted = False\<rparr>"

text \<open>The monitor: its polls until it stops. It does not run without tasks or when it is switched off.\<close>

definition run_live_prefix_solver ::
    "campaign_env \<Rightarrow> ((nat \<Rightarrow> bool) \<times> live_input list) list \<Rightarrow> campaign \<Rightarrow> frame_error + campaign" where
  "run_live_prefix_solver env polls c =
     (if truthy (jget (cv_ablations env) ''no_symbolic'') \<or> truthy (jget (cv_ablations env) ''symbolic_initial_only'')
      then Inr c
      else if live_tasks env = [] then Inr (note_event ''solver_monitor'' c)
      else bindE (foldE (\<lambda>s (over, is). live_poll env over is s) (live_start (note_event ''solver_scheduler'' c)) polls)
        (\<lambda>s. Inr (note_event ''solver_monitor'' (lv_campaign s))))"

section \<open>The end of the engine\<close>

text \<open>
  The summary the engine wrote, the candidates it left (name, testcase and native run, in the order of
  their names), and the confirmation passes: after each new candidate and twice at the end.
\<close>

record engine_run =
  en_summary :: "(string, json) dict"
  en_files :: "(string \<times> string \<times> observation) list"
  en_confirm :: "string \<Rightarrow> confirm_io"
  en_last :: confirm_io
  en_closing :: confirm_io

datatype campaign_error = BadEngineSummary string | BadTestcase frame_error

definition lift_frame :: "frame_error + 'a \<Rightarrow> campaign_error + 'a" where
  "lift_frame r = (case r of Inl e \<Rightarrow> Inl (BadTestcase e) | Inr x \<Rightarrow> Inr x)"

definition replay_status_of :: "campaign_env \<Rightarrow> observation \<Rightarrow> string" where
  "replay_status_of env ob =
     (if classify ob (cv_index env) \<noteq> None then ''candidate'' else if ob_timed_out ob then ''TIMEOUT''
      else if ob_returncode ob \<noteq> None \<and> ob_returncode ob \<noteq> Some 0 then ''FAILED'' else ''REPLAY_MISMATCH'')"

definition register_and_confirm ::
    "campaign_env \<Rightarrow> confirm_io \<Rightarrow> string \<Rightarrow> observation \<Rightarrow> candidate \<Rightarrow> int \<Rightarrow> campaign \<Rightarrow> campaign_error + campaign" where
  "register_and_confirm env io data ob i depth c =
     (let c' = register_candidate data ob i ''fuzz'' depth None JNull c in
      if length (cp_candidates c) < length (cp_candidates c') then lift_frame (run_confirmation env io c') else Inr c')"

definition engine_candidate ::
    "campaign_env \<Rightarrow> engine_run \<Rightarrow> campaign \<Rightarrow> string \<times> string \<times> observation \<Rightarrow> campaign_error + campaign" where
  "engine_candidate env en c entry = (case entry of (name, data, ob) \<Rightarrow>
     let c = note_event ''engine_candidate_replay'' (c\<lparr>cp_replays := cp_replays c @ [(name, replay_status_of env ob)]\<rparr>) in
     case classify ob (cv_index env) of
       None \<Rightarrow> Inr c
     | Some i \<Rightarrow>
         bindE (lift_frame (parse_plain data (cv_abi env))) (\<lambda>tc.
           register_and_confirm env (en_confirm en name) data ob i (int (length (tc_frames tc))) c))"

definition check_summary :: "(string, json) dict \<Rightarrow> campaign_error + unit" where
  "check_summary summary =
     forE (\<lambda>name. assertE (case jget summary name of JInt i \<Rightarrow> 0 \<le> i | _ \<Rightarrow> False) (BadEngineSummary name))
       [''executions'', ''scans'', ''candidates'']"

definition summary_int :: "(string, json) dict \<Rightarrow> string \<Rightarrow> int" where
  "summary_int summary name = as_int (jget_or summary name (JInt 0))"

definition engine_metrics :: "(string, json) dict \<Rightarrow> campaign \<Rightarrow> campaign" where
  "engine_metrics summary c =
     foldl (\<lambda>c (counter, name). bump counter (summary_int summary name) c) c
       [(''executions'', ''executions''), (''scans'', ''scans''), (''engine_executions'', ''executions''),
        (''engine_scans'', ''scans''), (''solver_seeds_loaded'', ''solver_seeds_loaded''),
        (''solver_seeds_executed'', ''solver_seeds_executed''), (''solver_seeds_retained'', ''solver_seeds_retained'')]"

definition snapshot_metrics :: "(string, json) dict \<Rightarrow> campaign \<Rightarrow> campaign" where
  "snapshot_metrics summary c =
     (let hits = summary_int summary ''cache_hits'';
          c = bump ''snapshot_saved_scans'' (summary_int summary ''saved_scans'') (bump ''snapshot_hits'' hits c) in
      case jget summary ''snapshot_attempts'' of
        JNull \<Rightarrow> note_event ''snapshot_stats_unavailable'' c
      | attempts \<Rightarrow> bump ''snapshot_misses''
          (case jget summary ''snapshot_misses'' of JNull \<Rightarrow> max 0 (as_int attempts - hits) | misses \<Rightarrow> as_int misses)
          (bump ''snapshot_attempts'' (as_int attempts) c))"

definition engine_finished :: "campaign_env \<Rightarrow> engine_run \<Rightarrow> campaign \<Rightarrow> campaign_error + campaign" where
  "engine_finished env en c =
     bindE (check_summary (en_summary en)) (\<lambda>u.
     let s = en_summary en; c = engine_metrics s (note_event ''engine_finished'' c);
         c = (credit_solver_feedback ^^ nat (summary_int s ''solver_seeds_retained'')) c;
         c = record_source_result ''fuzz'' (summary_int s ''candidates'' \<noteq> 0) (snapshot_metrics s c) in
     bindE (foldE (engine_candidate env en) c (en_files en)) (\<lambda>c.
     bindE (lift_frame (run_confirmation env (en_last en) c)) (\<lambda>c.
       lift_frame (run_confirmation env (en_closing en) (note_event ''post_fuzz_symbolic_verification'' c)))))"

text \<open>
  An engine that failed: the testcase it was running, if it left one, is run once more and its candidate
  confirmed; an exception on the way is only noted. The campaign then ends with its report.
\<close>

definition engine_failed :: "campaign_env \<Rightarrow> (string \<times> observation) option \<Rightarrow> confirm_io \<Rightarrow> campaign \<Rightarrow> campaign" where
  "engine_failed env left io c =
     (let c = note_event ''engine_finished'' c in
      case left of
        None \<Rightarrow> c
      | Some (data, ob) \<Rightarrow>
          note_event ''engine_crash_replay'' (case classify ob (cv_index env) of
            None \<Rightarrow> c
          | Some i \<Rightarrow> (case parse_plain data (cv_abi env) of
                Inl e \<Rightarrow> c
              | Inr tc \<Rightarrow>
                  (let c = register_candidate data ob i ''engine_crash_recovery'' (int (length (tc_frames tc))) None JNull c in
                   case run_confirmation env io c of Inl e \<Rightarrow> c | Inr c \<Rightarrow> c))))"

section \<open>Reachable campaigns\<close>

inductive campaign_reach :: "campaign_env \<Rightarrow> campaign \<Rightarrow> bool" for env where
  reach_start: "campaign_reach env new_campaign"
| reach_startup: "campaign_reach env c \<Longrightarrow> run_symbolic_startup env su c = Inr c' \<Longrightarrow> campaign_reach env c'"
| reach_live: "campaign_reach env c \<Longrightarrow> run_live_prefix_solver env polls c = Inr c' \<Longrightarrow> campaign_reach env c'"
| reach_finished: "campaign_reach env c \<Longrightarrow> engine_finished env en c = Inr c' \<Longrightarrow> campaign_reach env c'"
| reach_failed: "campaign_reach env c \<Longrightarrow> campaign_reach env (engine_failed env left io c)"

section \<open>Invariants of a campaign\<close>

text \<open>
  What every step of a campaign is made of. An invariant has to survive these; the query that is
  claimed is the one whose result is recorded, and only native runs give candidates.
\<close>

locale campaign_invariant =
  fixes env :: campaign_env and inv :: "campaign \<Rightarrow> bool"
  assumes started: "inv new_campaign"
    and noted: "inv c \<Longrightarrow> inv (note_event kind c)"
    and bumped: "inv c \<Longrightarrow> inv (bump name v c)"
    and sourced: "inv c \<Longrightarrow> inv (record_source_result ''fuzz'' gained c)"
    and credited: "inv c \<Longrightarrow> inv (credit_solver_feedback c)"
    and queried: "inv c \<Longrightarrow> claim_solver_budget env task (cp_budget c) = Some b \<Longrightarrow>
      inv (record_symbolic_result query task r (c\<lparr>cp_budget := b\<rparr>))"
    and audited: "inv c \<Longrightarrow> inv (c\<lparr>cp_klee := klee\<rparr>)"
    and marked: "inv c \<Longrightarrow> inv (mark_native_replay_status query status c)"
    and published: "inv c \<Longrightarrow> seed_case env data = Inr tc \<Longrightarrow> tc_frames tc \<noteq> [] \<Longrightarrow>
      length (tc_frames tc) \<le> 300 \<Longrightarrow> tc_init_profile tc = ''cold'' \<Longrightarrow>
      inv (snd (publish_seed env writable data tc ob query task c))"
    and measured: "inv c \<Longrightarrow> inv (record_distance_baseline env task tc c)"
    and registered: "inv c \<Longrightarrow> classify ob (cv_index env) = Some i \<Longrightarrow>
      inv (register_candidate data ob i source depth q scope c)"
    and replayed: "inv c \<Longrightarrow> inv (c\<lparr>cp_replays := replays\<rparr>)"
    and confirmed: "inv c \<Longrightarrow> run_confirmation env io c = Inr c' \<Longrightarrow> inv c'"
begin

lemma offered_seed:
  assumes "inv c" "offer_solver_seed env stopped writable data ob query task c = Inr (offered, c')"
  shows "inv c'"
proof -
  consider "c' = c" | "c' = note_event ''solver_seed_rejected'' c"
    | tc where "seed_case env data = Inr tc" "tc_frames tc \<noteq> []" "length (tc_frames tc) \<le> 300"
        "tc_init_profile tc = ''cold''" "(offered, c') = publish_seed env writable data tc ob query task c"
    using assms(2) by (auto simp: offer_solver_seed_def split: if_splits sum.splits)
  then show ?thesis
  proof cases
    case 3
    then show ?thesis using published [OF assms(1) 3(1-4)] by (metis snd_conv)
  qed (use assms(1) noted in auto)
qed

lemma offered: "inv c \<Longrightarrow> offer_nth env q query task k data c = Inr c' \<Longrightarrow> inv c'"
  by (auto simp: offer_nth_def res_simps intro: offered_seed)

lemma offered_files: "inv c \<Longrightarrow> offer_seed_files env q query task k refs c = Inr c' \<Longrightarrow> inv c'"
proof (induction refs arbitrary: k c)
  case (Cons ref refs)
  show ?case
  proof (cases "qr_late q k")
    case False
    show ?thesis
    proof (cases "qr_read q ref")
      case (Inl e)
      then show ?thesis using False Cons.prems Cons.IH [of c] by simp
    next
      case (Inr data)
      then obtain c1 where "offer_nth env q query task k data c = Inr c1"
          "offer_seed_files env q query task (Suc k) refs c1 = Inr c'"
        using False Cons.prems(2) by (auto simp: res_simps)
      then show ?thesis using Cons.IH offered [OF Cons.prems(1)] by blast
    qed
  qed (use Cons.prems in simp)
qed simp

lemma offered_additional: "inv c \<Longrightarrow> offer_additional_seeds env q query task r c = Inr c' \<Longrightarrow> inv c'"
  by (auto simp: offer_additional_seeds_def split: if_splits intro: offered_files)

lemma replayed_model: "inv c \<Longrightarrow> inv (replay_model env p r data ob c)"
  using audited marked registered noted
  by (auto simp: replay_model_def Let_def record_klee_native_replay_def split: option.splits)

lemma fed_back: 
  assumes "inv c" "feed_back env p q r data c = Inr c'"
  shows "inv c'"
proof -
  obtain c1 c2 where c1: "offer_nth env q (qp_query p) (qp_task p) 0 data c = Inr c1"
    and c2: "offer_additional_seeds env q (qp_query p) (qp_task p) r c1 = Inr c2"
    using assms(2) by (auto simp: feed_back_def res_simps)
  then have "inv c2" using assms(1) offered offered_additional by blast
  then show ?thesis using assms(2) c1 c2 noted replayed_model by (auto simp: feed_back_def Let_def split: if_splits)
qed

lemma recorded_query:
  assumes "inv c" "claim_solver_budget env (qp_task p) (cp_budget c) = Some b"
  shows "inv (record_query p r (c\<lparr>cp_budget := b\<rparr>))"
  using queried [OF assms] audited noted by (auto simp: record_query_def record_klee_queue_result_def Let_def)

lemma finished_query:
  assumes "inv c" "claim_solver_budget env (qp_task p) (cp_budget c) = Some b"
    and "finish_query env p q (c\<lparr>cp_budget := b\<rparr>) = Inr c'"
  shows "inv c'"
proof -
  obtain r testcase where r: "solver_candidate (qr_read q) (qr_result q) = (r, testcase)" by fastforce
  show ?thesis
  proof (cases testcase)
    case None
    then show ?thesis using r assms(3) recorded_query [OF assms(1,2), of r] by (simp add: finish_query_def)
  next
    case (Some data)
    then have "feed_back env p q r data (record_query p r (c\<lparr>cp_budget := b\<rparr>)) = Inr c'"
      using r assms(3) by (simp add: finish_query_def)
    then show ?thesis by (rule fed_back [OF recorded_query [OF assms(1,2)]])
  qed
qed

lemma startup_variant_inv:
  assumes "inv (ss_campaign s)" "startup_variant env su t anchored s = Inr (s', status)"
  shows "inv (ss_campaign s')"
proof (cases "startup_over env su s \<or> claim_solver_budget env (task_name t) (cp_budget (ss_campaign s)) = None")
  case True
  then have "s' = tick s" using assms(2) by (cases "startup_over env su s") (simp_all add: startup_variant_def)
  then show ?thesis using assms(1) by (simp add: tick_def)
next
  case False
  then obtain b where b: "claim_solver_budget env (task_name t) (cp_budget (ss_campaign s)) = Some b" by auto
  define c where "c = (if anchored then note_event ''solver_trigger'' (ss_campaign s) else ss_campaign s)"
  have c: "inv c" "cp_budget c = cp_budget (ss_campaign s)"
    "(if anchored then note_event ''solver_trigger'' ((ss_campaign s)\<lparr>cp_budget := b\<rparr>) else (ss_campaign s)\<lparr>cp_budget := b\<rparr>) =
      c\<lparr>cp_budget := b\<rparr>"
    using assms(1) noted by (auto simp: c_def note_event_def)
  obtain c' where c': "finish_query env (startup_place (ss_attempted s + 1) t) (su_query su (ss_attempted s + 1))
      (c\<lparr>cp_budget := b\<rparr>) = Inr c'" "ss_campaign s' = c'"
    using assms(2) False b by (auto simp: startup_variant_def Let_def c(3) res_simps)
  have "claim_solver_budget env (qp_task (startup_place (ss_attempted s + 1) t)) (cp_budget c) = Some b"
    using b c(2) by (simp add: startup_place_def)
  from finished_query [OF c(1) this c'(1)] c'(2) show ?thesis by simp
qed

lemma startup_task_inv:
  assumes "inv (ss_campaign s)" "startup_task env su s t = Inr s'"
  shows "inv (ss_campaign s')"
proof -
  obtain s1 status where s1: "startup_variant env su t False s = Inr (s1, status)"
    using assms(2) by (auto simp: startup_task_def res_simps)
  then have "inv (ss_campaign s1)" by (rule startup_variant_inv [OF assms(1)])
  moreover have "s' = s1 \<or> (\<exists>status'. startup_variant env su t True s1 = Inr (s', status'))"
    using assms(2) s1 by (auto simp: startup_task_def res_simps split: if_splits)
  ultimately show ?thesis using startup_variant_inv by blast
qed

lemma startup_tasks_inv:
  "inv (ss_campaign s) \<Longrightarrow> startup_tasks env su ts s = Inr s' \<Longrightarrow> inv (ss_campaign s')"
proof (induction ts arbitrary: s)
  case (Cons t ts)
  have ticked: "inv (ss_campaign (tick s))" using Cons.prems(1) by (simp add: tick_def)
  show ?case
  proof (cases "startup_over env su s")
    case True
    then show ?thesis using Cons.prems(2) ticked by simp
  next
    case False
    then obtain s1 where s1: "startup_task env su (tick s) t = Inr s1" "startup_tasks env su ts s1 = Inr s'"
      using Cons.prems(2) by (auto simp: res_simps)
    from Cons.IH [OF startup_task_inv [OF ticked s1(1)] s1(2)] show ?thesis .
  qed
qed simp

lemma startup_inv:
  assumes "inv c" "run_symbolic_startup env su c = Inr c'"
  shows "inv c'"
proof (cases "truthy (jget (cv_ablations env) ''no_symbolic'') \<or> \<not> su_available su")
  case True
  then show ?thesis using assms by (auto simp: run_symbolic_startup_def)
next
  case False
  then obtain s where s: "startup_tasks env su (ordered_tasks env su) \<lparr>ss_campaign = c, ss_attempted = 0, ss_clock = 0\<rparr> = Inr s"
    using assms(2) by (auto simp: run_symbolic_startup_def res_simps)
  have "inv (ss_campaign s)" by (rule startup_tasks_inv [OF _ s]) (simp add: assms(1))
  then show ?thesis using False s assms(2) noted by (auto simp: run_symbolic_startup_def Let_def split: if_splits)
qed

lemma live_noted: "inv (lv_campaign s) \<Longrightarrow> inv (lv_campaign (note_live kind s))"
  by (simp add: note_live_def noted)

lemma live_query_inv:
  assumes "inv (lv_campaign s)" "live_query env i prefix_id tc k t s = Inr (s', ended)"
  shows "inv (lv_campaign s')"
proof -
  define s1 where "s1 = note_live ''solver_trigger'' s"
  have s1: "inv (lv_campaign s1)" using live_noted [OF assms(1)] by (simp add: s1_def)
  show ?thesis
  proof (cases "claim_solver_budget env (task_name t) (cp_budget (lv_campaign s1))")
    case None
    then have "s' = note_live ''solver_budget_exhausted'' (s1\<lparr>lv_exhausted := True\<rparr>)"
      using assms(2) by (simp add: live_query_def s1_def [symmetric] Let_def)
    then show ?thesis using s1 by (simp add: live_noted)
  next
    case (Some b)
    then obtain c where c: "finish_query env (live_place prefix_id tc t) (li_query i k) ((lv_campaign s1)\<lparr>cp_budget := b\<rparr>) = Inr c"
      and "lv_campaign s' = c"
      using assms(2) by (auto simp: live_query_def s1_def [symmetric] Let_def res_simps)
    moreover have "claim_solver_budget env (qp_task (live_place prefix_id tc t)) (cp_budget (lv_campaign s1)) = Some b"
      using Some by (simp add: live_place_def)
    ultimately show ?thesis using finished_query [OF s1] by blast
  qed
qed

lemma live_tasks_loop_inv:
  "inv (lv_campaign s) \<Longrightarrow> live_tasks_loop env i prefix_id tc k ts s = Inr s' \<Longrightarrow> inv (lv_campaign s')"
proof (induction ts arbitrary: k s)
  case (Cons t ts)
  define s1 where "s1 = s\<lparr>lv_campaign := record_distance_baseline env (task_name t) tc (lv_campaign s)\<rparr>"
  have s1: "inv (lv_campaign s1)" using Cons.prems(1) by (simp add: s1_def measured)
  consider "live_tasks_loop env i prefix_id tc (k + 1) ts (note_live ''solver_trigger'' s) = Inr s'"
    | "s' = s1"
    | "live_tasks_loop env i prefix_id tc (k + 1) ts (note_live ''solver_trigger'' s1) = Inr s'"
    | s2 ended where "live_query env i prefix_id tc k t s1 = Inr (s2, ended)"
        "s' = s2 \<or> live_tasks_loop env i prefix_id tc (k + 1) ts s2 = Inr s'"
    using Cons.prems(2) by (fastforce simp: s1_def [symmetric] Let_def res_simps split: if_splits)
  then show ?case
  proof cases
    case 4
    then show ?thesis using Cons.IH live_query_inv [OF s1] by blast
  qed (use Cons s1 live_noted in blast)+
qed simp

lemma live_case_inv:
  "inv (lv_campaign s) \<Longrightarrow> live_case env i prefix_id task tc s = Inr s' \<Longrightarrow> inv (lv_campaign s')"
  using live_noted live_tasks_loop_inv [of s] by (auto simp: live_case_def Let_def split: option.splits if_splits)

lemma live_record_inv:
  "inv (lv_campaign s) \<Longrightarrow> live_record env i s = Inr s' \<Longrightarrow> inv (lv_campaign s')"
  by (auto simp: live_record_def Let_def split: option.splits if_splits sum.splits intro: live_noted dest!: live_case_inv [rotated])

lemma live_records_inv:
  "inv (lv_campaign s) \<Longrightarrow> live_records env over k is s = Inr s' \<Longrightarrow> inv (lv_campaign s')"
proof (induction "is" arbitrary: k s)
  case (Cons i "is")
  then show ?case using live_record_inv by (cases "over k") (fastforce simp: res_simps)+
qed simp

lemma live_inv:
  assumes "inv c" "run_live_prefix_solver env polls c = Inr c'"
  shows "inv c'"
proof -
  have "inv (lv_campaign s)"
    if "foldE (\<lambda>s (over, is). live_poll env over is s) (live_start (note_event ''solver_scheduler'' c)) polls = Inr s" for s
  proof (rule foldE_invariant [OF that])
    show "inv (lv_campaign (live_start (note_event ''solver_scheduler'' c)))"
      by (simp add: live_start_def noted assms(1))
    show "inv (lv_campaign s')" if "inv (lv_campaign s)" "(case p of (over, is) \<Rightarrow> live_poll env over is s) = Inr s'" for s p s'
      using that live_records_inv by (cases p) (auto simp: live_poll_def split: if_splits)
  qed
  then show ?thesis using assms noted by (auto simp: run_live_prefix_solver_def res_simps split: if_splits)
qed

lemma bumped_all: "inv c \<Longrightarrow> inv (foldl (\<lambda>c (counter, name). bump counter (f name) c) c ps)"
  by (induction ps arbitrary: c) (auto simp: bumped)

lemma credited_all: "inv c \<Longrightarrow> inv ((credit_solver_feedback ^^ n) c)"
  by (induction n) (auto simp: credited)

lemma lifted_confirmed: "inv c \<Longrightarrow> lift_frame (run_confirmation env io c) = Inr c' \<Longrightarrow> inv c'"
  using confirmed by (auto simp: lift_frame_def split: sum.splits)

lemma engine_candidate_inv:
  assumes "inv c" "engine_candidate env en c entry = Inr c'"
  shows "inv c'"
proof -
  obtain name data ob where e: "entry = (name, data, ob)" by (cases entry) auto
  define c1 where
    "c1 = note_event ''engine_candidate_replay'' (c\<lparr>cp_replays := cp_replays c @ [(name, replay_status_of env ob)]\<rparr>)"
  have c1: "inv c1" unfolding c1_def by (rule noted [OF replayed [OF assms(1)]])
  show ?thesis
  proof (cases "classify ob (cv_index env)")
    case None
    then show ?thesis using assms(2) c1 by (simp add: engine_candidate_def e c1_def [symmetric] Let_def)
  next
    case (Some i)
    then obtain depth where "register_and_confirm env (en_confirm en name) data ob i depth c1 = Inr c'"
      using assms(2) by (auto simp: engine_candidate_def e c1_def [symmetric] Let_def res_simps)
    then show ?thesis
      by (auto simp: register_and_confirm_def Let_def split: if_splits
        intro: lifted_confirmed [OF registered [OF c1 Some]] registered [OF c1 Some])
  qed
qed

lemma finished_pass:
  assumes "inv c" "engine_finished env en c = Inr c'"
  obtains c3 where "inv c3" "run_confirmation env (en_closing en) c3 = Inr c'"
proof -
  define s where "s = en_summary en"
  define c1 where "c1 = record_source_result ''fuzz'' (summary_int s ''candidates'' \<noteq> 0)
    (snapshot_metrics s ((credit_solver_feedback ^^ nat (summary_int s ''solver_seeds_retained''))
      (engine_metrics s (note_event ''engine_finished'' c))))"
  have snapshots: "inv (snapshot_metrics s c)" if "inv c" for c
    using that bumped noted by (auto simp: snapshot_metrics_def Let_def split: json.splits)
  have c1: "inv c1"
    unfolding c1_def engine_metrics_def using assms(1) by (intro sourced snapshots credited_all bumped_all noted)
  obtain c2 c3 where "foldE (engine_candidate env en) c1 (en_files en) = Inr c2"
    and c3: "lift_frame (run_confirmation env (en_last en) c2) = Inr c3"
    and c': "lift_frame (run_confirmation env (en_closing en) (note_event ''post_fuzz_symbolic_verification'' c3)) = Inr c'"
    using assms(2) by (auto simp: engine_finished_def s_def [symmetric] c1_def [symmetric] Let_def res_simps)
  then have "inv c2" using foldE_invariant [where I = inv] c1 engine_candidate_inv by metis
  then have "inv (note_event ''post_fuzz_symbolic_verification'' c3)" using lifted_confirmed [OF _ c3] noted by blast
  moreover have "run_confirmation env (en_closing en) (note_event ''post_fuzz_symbolic_verification'' c3) = Inr c'"
    using c' by (auto simp: lift_frame_def split: sum.splits)
  ultimately show ?thesis by (rule that)
qed

lemma finished_inv: "inv c \<Longrightarrow> engine_finished env en c = Inr c' \<Longrightarrow> inv c'"
  using finished_pass confirmed by metis

lemma failed_inv: "inv c \<Longrightarrow> inv (engine_failed env left io c)"
  by (auto simp: engine_failed_def Let_def split: option.splits sum.splits
    intro!: noted intro: confirmed [rotated] registered)

theorem reachable: "campaign_reach env c \<Longrightarrow> inv c"
  by (induction rule: campaign_reach.induct) (auto intro: started startup_inv live_inv finished_inv failed_inv)

end

end
