(* ===== verification/Campaign_Facts.thy ===== *)
theory Campaign_Facts
  imports Campaign_Run Corpus_Store
begin

text \<open>
  What holds in every campaign: candidates and findings rest on native runs, queries keep to their
  budgets, the seeds of the solver each bring something new, and what a distance of zero means.
\<close>

section \<open>Candidates\<close>

lemma read_padded: "read_base 10 0 (replicate k CHR ''0'' @ s) = read_base 10 0 s"
  by (rule read_base_zeros)

lemma finding_id_inject [simp]: "finding_id m = finding_id n \<longleftrightarrow> m = n"
proof
  assume "finding_id m = finding_id n"
  then have "read_base 10 0 (show_nat m) = read_base 10 0 (show_nat n)"
    unfolding finding_id_def by (metis append_Cons append_Nil list.inject read_padded)
  then show "m = n" using read_show_nat unfolding read_nat_def by metis
qed simp

definition candidates_ok :: "campaign_env \<Rightarrow> campaign_candidate list \<Rightarrow> bool" where
  "candidates_ok env cands \<longleftrightarrow>
     (\<forall>cand \<in> set cands. classify (cc_observation cand) (cv_index env) = Some (cc_info cand)) \<and>
     distinct (map (\<lambda>cand. candidate_site (cc_info cand)) cands) \<and>
     map cc_id cands = map finding_id [1..<Suc (length cands)]"

lemma candidates_ok_ids: "candidates_ok env cands \<Longrightarrow> distinct (map cc_id cands)"
  by (simp add: candidates_ok_def distinct_map inj_on_def del: upt_Suc)

lemma candidates_ok_register:
  assumes "candidates_ok env (cp_candidates c)" "classify ob (cv_index env) = Some i"
  shows "candidates_ok env (cp_candidates (register_candidate data ob i source depth q scope c))"
  using assms by (auto simp: candidates_ok_def register_candidate_def bump_def note_event_def image_image)

text \<open>A replaced candidate keeps everything but its testcase.\<close>

definition same_evidence :: "campaign_candidate \<Rightarrow> campaign_candidate \<Rightarrow> bool" where
  "same_evidence a b \<longleftrightarrow> cc_id a = cc_id b \<and> cc_info a = cc_info b \<and> cc_observation a = cc_observation b"

lemma candidates_ok_same:
  assumes "list_all2 same_evidence news olds" "candidates_ok env olds"
  shows "candidates_ok env news"
proof -
  have "map cc_id news = map cc_id olds" "length news = length olds"
    "map (\<lambda>cand. candidate_site (cc_info cand)) news = map (\<lambda>cand. candidate_site (cc_info cand)) olds"
    using assms(1) by (induction rule: list_all2_induct) (auto simp: same_evidence_def)
  moreover have "\<exists>old \<in> set olds. same_evidence new old" if "new \<in> set news" for new
    using assms(1) that by (induction rule: list_all2_induct) auto
  then have "\<forall>new \<in> set news. classify (cc_observation new) (cv_index env) = Some (cc_info new)"
    using assms(2) unfolding candidates_ok_def same_evidence_def by metis
  ultimately show ?thesis using assms(2) unfolding candidates_ok_def by presburger
qed

lemma replace_candidates_same:
  assumes "distinct (map cc_id olds)" "\<And>new. new \<in> set news \<Longrightarrow> \<exists>old \<in> set olds. same_evidence new old"
  shows "list_all2 same_evidence (replace_candidates news olds) olds"
proof -
  have "same_evidence (case find (\<lambda>new. cc_id new = cc_id old) news of None \<Rightarrow> old | Some new \<Rightarrow> new) old"
    if old: "old \<in> set olds" for old
  proof (cases "find (\<lambda>new. cc_id new = cc_id old) news")
    case (Some new)
    then have "new \<in> set news" "cc_id new = cc_id old" by (auto simp: find_Some_iff)
    then obtain old' where "old' \<in> set olds" "same_evidence new old'" "cc_id old' = cc_id old"
      using assms(2) by (metis same_evidence_def)
    then have "old' = old" using assms(1) old by (metis distinct_map inj_on_def)
    then show ?thesis using Some \<open>same_evidence new old'\<close> by simp
  qed (simp add: same_evidence_def)
  then show ?thesis by (simp add: replace_candidates_def list_all2_conv_all_nth)
qed

section \<open>Findings\<close>

definition round_shows :: "finding \<Rightarrow> nat \<Rightarrow> attempt list \<Rightarrow> bool" where
  "round_shows f r attempts \<longleftrightarrow>
     length (filter (\<lambda>a. at_round a = r) attempts) = 3 \<and>
     (\<forall>a \<in> set attempts. at_round a = r \<longrightarrow>
        at_status a = ''MATCH'' \<and> at_oracle a = Some (fi_oracle f) \<and> at_runtime a = fi_runtime f)"

definition finding_ok :: "campaign_candidate list \<Rightarrow> confirmation list \<Rightarrow> finding \<Rightarrow> bool" where
  "finding_ok cands evs f \<longleftrightarrow>
     (\<exists>cand \<in> set cands. cc_id cand = fi_id f \<and> ca_oracle (cc_info cand) = fi_oracle f \<and>
        ca_runtime (cc_info cand) = fi_runtime f) \<and>
     (\<exists>ev \<in> set evs. ev_id ev = fi_id f \<and> ev_status ev = ''confirmed'' \<and> (\<exists>r. round_shows f r (ev_attempts ev)))"

lemma filter_full: "length xs \<le> length (filter P xs) \<Longrightarrow> x \<in> set xs \<Longrightarrow> P x"
  by (metis filter_True length_filter_less not_le)

lemma confirm_Some:
  assumes "confirm env cand obs = Some f" "length obs = 3"
  shows "fi_id f = cc_id cand" "fi_oracle f = ca_oracle (cc_info cand)" "fi_runtime f = ca_runtime (cc_info cand)"
    "ob \<in> set obs \<Longrightarrow> run_matches env (cc_info cand) ob"
  using assms filter_full [of obs "run_matches env (cc_info cand)"]
  by (auto simp: confirm_def Let_def split: if_splits)

lemma attempt_matches:
  assumes "run_matches env info ob"
  shows "at_status (attempt_of env info k ob) = ''MATCH'' \<and> at_oracle (attempt_of env info k ob) = Some (ca_oracle info) \<and>
    at_runtime (attempt_of env info k ob) = ca_runtime info"
proof -
  obtain i where i: "classify ob (cv_index env) = Some i" "candidate_key info = candidate_key i"
    using assms by (auto simp: run_matches_def same_candidate_def split: option.splits)
  then have "\<not> ob_timed_out ob" by (auto simp: classify_def)
  then show ?thesis using assms i by (simp add: attempt_of_def candidate_key_def)
qed

lemma attempt_round [simp]: "at_round (attempt_of env info k ob) = k"
  by (simp add: attempt_of_def)

lemma confirm_rounds_shown:
  assumes "confirm_rounds env io cand = (rounds, Some f)"
  shows "fi_id f = cc_id cand" "fi_oracle f = ca_oracle (cc_info cand)" "fi_runtime f = ca_runtime (cc_info cand)"
    "\<exists>r. round_shows f r (ev_attempts (confirmation_of env cand s rounds (Some f)))"
proof -
  have three: "length (first_round io cand) = 3" "length (retry_round io cand) = 3"
    by (simp_all add: first_round_def retry_round_def)
  consider "rounds = [first_round io cand]" "confirm env cand (first_round io cand) = Some f"
    | "rounds = [first_round io cand, retry_round io cand]" "confirm env cand (retry_round io cand) = Some f"
    using assms by (auto simp: confirm_rounds_def split: option.splits if_splits)
  then have "fi_id f = cc_id cand \<and> fi_oracle f = ca_oracle (cc_info cand) \<and> fi_runtime f = ca_runtime (cc_info cand) \<and>
    (\<exists>r. round_shows f r (ev_attempts (confirmation_of env cand s rounds (Some f))))"
  proof cases
    case 1
    note facts = confirm_Some [OF 1(2) three(1)]
    have "round_shows f 1 (ev_attempts (confirmation_of env cand s rounds (Some f)))"
      using facts attempt_matches three(1) by (auto simp: round_shows_def confirmation_of_def 1(1) Let_def filter_map comp_def)
    with facts show ?thesis by blast
  next
    case 2
    note facts = confirm_Some [OF 2(2) three(2)]
    have "round_shows f 2 (ev_attempts (confirmation_of env cand s rounds (Some f)))"
      using facts attempt_matches three by (auto simp: round_shows_def confirmation_of_def 2(1) Let_def filter_map comp_def)
    with facts show ?thesis by blast
  qed
  then show "fi_id f = cc_id cand" "fi_oracle f = ca_oracle (cc_info cand)" "fi_runtime f = ca_runtime (cc_info cand)"
    "\<exists>r. round_shows f r (ev_attempts (confirmation_of env cand s rounds (Some f)))" by auto
qed

definition findings_ok :: "campaign_env \<Rightarrow> campaign \<Rightarrow> bool" where
  "findings_ok env c \<longleftrightarrow>
     candidates_ok env (cp_candidates c) \<and> distinct (map fi_id (cp_confirmed c)) \<and>
     (\<forall>f \<in> set (cp_confirmed c). finding_ok (cp_candidates c) (cp_evidence c) f)"

lemma confirm_one_fields [simp]:
  "cp_candidates (confirm_one env io c entry) = cp_candidates c"
  "cp_budget (confirm_one env io c entry) = cp_budget c"
  "cp_results (confirm_one env io c entry) = cp_results c"
  "cp_sources (confirm_one env io c entry) = cp_sources c"
  "cp_seeds (confirm_one env io c entry) = cp_seeds c"
  "cp_seed_hits (confirm_one env io c entry) = cp_seed_hits c"
  "cp_next_seed (confirm_one env io c entry) = cp_next_seed c"
  "cp_best (confirm_one env io c entry) = cp_best c"
  by (auto simp: confirm_one_def Let_def bump_def note_event_def split: prod.splits option.splits)

lemma confirm_all_fields [simp]:
  "cp_candidates (foldl (confirm_one env io) c entries) = cp_candidates c"
  "cp_budget (foldl (confirm_one env io) c entries) = cp_budget c"
  "cp_results (foldl (confirm_one env io) c entries) = cp_results c"
  "cp_sources (foldl (confirm_one env io) c entries) = cp_sources c"
  "cp_seeds (foldl (confirm_one env io) c entries) = cp_seeds c"
  "cp_seed_hits (foldl (confirm_one env io) c entries) = cp_seed_hits c"
  "cp_next_seed (foldl (confirm_one env io) c entries) = cp_next_seed c"
  "cp_best (foldl (confirm_one env io) c entries) = cp_best c"
  by (induction entries arbitrary: c) simp_all

lemma finding_ok_grows: "finding_ok cands evs f \<Longrightarrow> set evs \<subseteq> set evs' \<Longrightarrow> finding_ok cands evs' f"
  unfolding finding_ok_def by blast

lemma confirm_one_findings:
  assumes "\<forall>f \<in> set (cp_confirmed c). finding_ok (cp_candidates c) (cp_evidence c) f"
    and "distinct (map fi_id (cp_confirmed c))" "cand \<in> set (cp_candidates c)"
    and "cc_id cand \<notin> fi_id ` set (cp_confirmed c)"
  shows "\<forall>f \<in> set (cp_confirmed (confirm_one env io c (cand, s))).
      finding_ok (cp_candidates c) (cp_evidence (confirm_one env io c (cand, s))) f"
    and "distinct (map fi_id (cp_confirmed (confirm_one env io c (cand, s))))"
    and "fi_id ` set (cp_confirmed (confirm_one env io c (cand, s))) \<subseteq> insert (cc_id cand) (fi_id ` set (cp_confirmed c))"
proof -
  obtain rounds found where r: "confirm_rounds env io cand = (rounds, found)" by fastforce
  define ev where "ev = confirmation_of env cand s rounds found"
  have evs: "cp_evidence (confirm_one env io c (cand, s)) = cp_evidence c @ [ev]"
    using r by (auto simp: confirm_one_def ev_def Let_def bump_def note_event_def split: option.splits)
  have conf: "cp_confirmed (confirm_one env io c (cand, s)) = cp_confirmed c @ (case found of None \<Rightarrow> [] | Some f \<Rightarrow> [f])"
    using r by (auto simp: confirm_one_def Let_def bump_def note_event_def split: option.splits)
  have new: "finding_ok (cp_candidates c) (cp_evidence c @ [ev]) f \<and> fi_id f = cc_id cand" if "found = Some f" for f
  proof -
    note facts = confirm_rounds_shown [OF r [unfolded that]]
    have "ev_id ev = fi_id f" "ev_status ev = ''confirmed''"
      using facts(1) that by (simp_all add: ev_def confirmation_of_def Let_def)
    then have "finding_ok (cp_candidates c) (cp_evidence c @ [ev]) f"
      using facts assms(3) that unfolding finding_ok_def ev_def by (metis in_set_conv_decomp)
    then show ?thesis using facts(1) by simp
  qed
  have old: "finding_ok (cp_candidates c) (cp_evidence c @ [ev]) f" if "f \<in> set (cp_confirmed c)" for f
  proof -
    have "finding_ok (cp_candidates c) (cp_evidence c) f" using assms(1) that by blast
    then show ?thesis by (rule finding_ok_grows) auto
  qed
  show "\<forall>f \<in> set (cp_confirmed (confirm_one env io c (cand, s))).
      finding_ok (cp_candidates c) (cp_evidence (confirm_one env io c (cand, s))) f"
    using old new by (auto simp: evs conf split: option.splits)
  show "distinct (map fi_id (cp_confirmed (confirm_one env io c (cand, s))))"
    using assms(2,4) new by (cases found) (auto simp: conf)
  show "fi_id ` set (cp_confirmed (confirm_one env io c (cand, s))) \<subseteq> insert (cc_id cand) (fi_id ` set (cp_confirmed c))"
    using new by (cases found) (auto simp: conf)
qed

lemma confirm_all_findings:
  "\<forall>f \<in> set (cp_confirmed c). finding_ok (cp_candidates c) (cp_evidence c) f \<Longrightarrow>
    distinct (map fi_id (cp_confirmed c)) \<Longrightarrow> fst ` set entries \<subseteq> set (cp_candidates c) \<Longrightarrow>
    distinct (map (\<lambda>e. cc_id (fst e)) entries) \<Longrightarrow>
    (\<forall>e \<in> set entries. cc_id (fst e) \<notin> fi_id ` set (cp_confirmed c)) \<Longrightarrow>
    (\<forall>f \<in> set (cp_confirmed (foldl (confirm_one env io) c entries)).
       finding_ok (cp_candidates c) (cp_evidence (foldl (confirm_one env io) c entries)) f) \<and>
    distinct (map fi_id (cp_confirmed (foldl (confirm_one env io) c entries)))"
proof (induction entries arbitrary: c)
  case (Cons e entries)
  obtain cand s where e: "e = (cand, s)" by (cases e)
  have new: "cand \<in> set (cp_candidates c)" "cc_id cand \<notin> fi_id ` set (cp_confirmed c)" using Cons.prems e by auto
  note one = confirm_one_findings [OF Cons.prems(1,2) new, of env io s]
  have fresh: "cc_id (fst x) \<notin> fi_id ` set (cp_confirmed (confirm_one env io c e))" if "x \<in> set entries" for x
  proof -
    have "cc_id (fst x) \<noteq> cc_id cand" using Cons.prems(4) that e by (metis (no_types, lifting) distinct.simps(2) fst_conv imageI list.set_map list.simps(9))
    then show ?thesis using one(3) Cons.prems(5) that e by auto
  qed
  show ?case using Cons.IH [of "confirm_one env io c e"] one Cons.prems(3,4) fresh e by simp
qed simp

text \<open>The candidates of a pass are those that were open, with other testcases.\<close>

lemma with_testcases_same:
  "length shortened = length cands \<Longrightarrow> list_all2 same_evidence (with_testcases cands shortened) cands"
  by (induction cands shortened rule: list_induct2')
    (auto simp: with_testcases_def same_evidence_def split: prod.splits)

lemma list_all2_witness: "list_all2 R xs ys \<Longrightarrow> x \<in> set xs \<Longrightarrow> \<exists>y \<in> set ys. R x y"
  by (induction rule: list_all2_induct) auto

lemma same_evidence_ids: "list_all2 same_evidence news olds \<Longrightarrow> map cc_id news = map cc_id olds"
  by (induction rule: list_all2_induct) (auto simp: same_evidence_def)

lemma same_evidence_finding:
  assumes "list_all2 same_evidence news olds" "finding_ok olds evs f"
  shows "finding_ok news evs f"
proof -
  have "list_all2 (\<lambda>b a. same_evidence a b) olds news" using assms(1) by (simp add: list_all2_conv_all_nth)
  then have "\<exists>new \<in> set news. same_evidence new old" if "old \<in> set olds" for old using that list_all2_witness by fast
  then show ?thesis using assms(2) unfolding finding_ok_def same_evidence_def by metis
qed

lemma replaced_member:
  assumes ids: "distinct (map cc_id olds)" and pass: "list_all2 same_evidence news (filter P olds)" and new: "new \<in> set news"
  shows "new \<in> set (replace_candidates news olds)"
proof -
  have dist: "distinct (map cc_id news)" using ids same_evidence_ids [OF pass] by (simp add: distinct_map_filter)
  obtain old where old: "old \<in> set olds" "same_evidence new old" using list_all2_witness [OF pass new] by auto
  then obtain x where x: "find (\<lambda>n. cc_id n = cc_id old) news = Some x"
    using new by (metis (mono_tags) find_None_iff not_None_eq same_evidence_def)
  then have "x \<in> set news" "cc_id x = cc_id new" using old(2) by (auto simp: find_Some_iff same_evidence_def)
  then have "x = new" using dist new by (metis distinct_map inj_on_def)
  then show ?thesis using x old(1) by (force simp: replace_candidates_def)
qed

text \<open>A pass starts from the open candidates under their own testcases, with the findings as they were.\<close>

lemma confirmation_pass:
  assumes ok: "findings_ok env c" and len: "length sh = length (pending_candidates c)"
  defines "cands \<equiv> with_testcases (pending_candidates c) sh"
  defines "start \<equiv> c\<lparr>cp_candidates := replace_candidates cands (cp_candidates c)\<rparr>"
  shows "findings_ok env start" "fst ` set (zip cands (map fst sh)) \<subseteq> set (cp_candidates start)"
    "distinct (map (\<lambda>e. cc_id (fst e)) (zip cands (map fst sh)))"
    "\<forall>e \<in> set (zip cands (map fst sh)). cc_id (fst e) \<notin> fi_id ` set (cp_confirmed start)"
proof -
  have ids: "distinct (map cc_id (cp_candidates c))"
    using ok candidates_ok_ids [of env "cp_candidates c"] by (simp add: findings_ok_def)
  have cands: "list_all2 same_evidence cands (pending_candidates c)" using len by (simp add: cands_def with_testcases_same)
  have fsts: "map fst (zip cands (map fst sh)) = cands" using len by (simp add: cands_def with_testcases_def)
  have "\<exists>old \<in> set (cp_candidates c). same_evidence new old" if "new \<in> set cands" for new
    using list_all2_witness [OF cands that] by (auto simp: pending_candidates_def)
  then have same: "list_all2 same_evidence (cp_candidates start) (cp_candidates c)"
    using replace_candidates_same [OF ids] by (simp add: start_def)
  show "findings_ok env start"
    using ok same_evidence_finding [OF same] candidates_ok_same [OF same] by (simp add: findings_ok_def start_def)
  show "fst ` set (zip cands (map fst sh)) \<subseteq> set (cp_candidates start)"
    using replaced_member [OF ids cands [unfolded pending_candidates_def]] by (auto simp: start_def dest: set_zip_leftD)
  have "map (\<lambda>e. cc_id (fst e)) (zip cands (map fst sh)) = map cc_id (map fst (zip cands (map fst sh)))"
    by (simp only: map_map comp_def)
  also have "\<dots> = map cc_id (pending_candidates c)" by (simp only: fsts same_evidence_ids [OF cands])
  finally show "distinct (map (\<lambda>e. cc_id (fst e)) (zip cands (map fst sh)))"
    using ids by (simp add: pending_candidates_def distinct_map_filter)
  show "\<forall>e \<in> set (zip cands (map fst sh)). cc_id (fst e) \<notin> fi_id ` set (cp_confirmed start)"
  proof
    fix e assume "e \<in> set (zip cands (map fst sh))"
    then have "fst e \<in> set cands" by (metis prod.collapse set_zip_leftD)
    then obtain old where "old \<in> set (pending_candidates c)" "cc_id (fst e) = cc_id old"
      using list_all2_witness [OF cands] by (auto simp: same_evidence_def)
    then show "cc_id (fst e) \<notin> fi_id ` set (cp_confirmed start)" by (simp add: pending_candidates_def start_def)
  qed
qed

lemma findings_ok_note [simp]: "findings_ok env (note_event kind c) = findings_ok env c"
  by (simp add: findings_ok_def note_event_def)

lemma run_confirmation_findings:
  assumes "findings_ok env c" "run_confirmation env io c = Inr c'"
  shows "findings_ok env c'"
proof (cases "pending_candidates c = []")
  case True
  then show ?thesis using assms by (simp add: run_confirmation_def)
next
  case False
  then obtain sh where sh: "mapE (shorten env io) (pending_candidates c) = Inr sh"
    using assms(2) by (auto simp: run_confirmation_def res_simps)
  define cands where "cands = with_testcases (pending_candidates c) sh"
  define start where "start = c\<lparr>cp_candidates := replace_candidates cands (cp_candidates c)\<rparr>"
  have c': "c' = foldl (confirm_one env io) (note_event ''confirmation_probes'' start) (zip cands (map fst sh))"
    using assms(2) False sh by (simp add: run_confirmation_def cands_def start_def Let_def)
  note pass = confirmation_pass [OF assms(1) mapE_eq_Inr_length [OF sh], folded cands_def, folded start_def]
  have same: "cp_candidates (note_event ''confirmation_probes'' start) = cp_candidates start"
    "cp_confirmed (note_event ''confirmation_probes'' start) = cp_confirmed start"
    "cp_evidence (note_event ''confirmation_probes'' start) = cp_evidence start"
    by (simp_all add: note_event_def)
  then show ?thesis
    using confirm_all_findings [of "note_event ''confirmation_probes'' start" "zip cands (map fst sh)" env io] pass
    by (simp add: findings_ok_def c')
qed

section \<open>The invariants\<close>

lemmas campaign_ops = note_event_def bump_def record_source_result_def credit_solver_feedback_def
  record_symbolic_result_def mark_native_replay_status_def record_distance_baseline_def

lemma findings_ok_fields:
  "cp_candidates c' = cp_candidates c \<Longrightarrow> cp_confirmed c' = cp_confirmed c \<Longrightarrow> cp_evidence c' = cp_evidence c \<Longrightarrow>
    findings_ok env c' = findings_ok env c"
  by (simp add: findings_ok_def)

lemma publish_seed_fields:
  "cp_candidates (snd (publish_seed env writable data tc ob query task c)) = cp_candidates c"
  "cp_confirmed (snd (publish_seed env writable data tc ob query task c)) = cp_confirmed c"
  "cp_evidence (snd (publish_seed env writable data tc ob query task c)) = cp_evidence c"
  "cp_budget (snd (publish_seed env writable data tc ob query task c)) = cp_budget c"
  "cp_results (snd (publish_seed env writable data tc ob query task c)) = cp_results c"
  "cp_sources (snd (publish_seed env writable data tc ob query task c)) = cp_sources c"
  by (simp_all add: publish_seed_def Let_def campaign_ops)

lemma register_candidate_fields:
  "cp_confirmed (register_candidate data ob i source depth q scope c) = cp_confirmed c"
  "cp_evidence (register_candidate data ob i source depth q scope c) = cp_evidence c"
  "cp_budget (register_candidate data ob i source depth q scope c) = cp_budget c"
  "cp_results (register_candidate data ob i source depth q scope c) = cp_results c"
  "cp_sources (register_candidate data ob i source depth q scope c) = cp_sources c"
  "cp_seeds (register_candidate data ob i source depth q scope c) = cp_seeds c"
  "cp_seed_hits (register_candidate data ob i source depth q scope c) = cp_seed_hits c"
  "cp_next_seed (register_candidate data ob i source depth q scope c) = cp_next_seed c"
  "cp_best (register_candidate data ob i source depth q scope c) = cp_best c"
  "set (cp_candidates c) \<subseteq> set (cp_candidates (register_candidate data ob i source depth q scope c))"
  by (auto simp: register_candidate_def campaign_ops)

lemma findings_ok_register:
  assumes "findings_ok env c" "classify ob (cv_index env) = Some i"
  shows "findings_ok env (register_candidate data ob i source depth q scope c)"
proof -
  have "finding_ok (cp_candidates (register_candidate data ob i source depth q scope c)) (cp_evidence c) f"
    if "finding_ok (cp_candidates c) (cp_evidence c) f" for f
    using that register_candidate_fields(10) unfolding finding_ok_def by blast
  then show ?thesis
    using assms candidates_ok_register [OF _ assms(2)] by (simp add: findings_ok_def register_candidate_fields)
qed

interpretation native_findings: campaign_invariant env "findings_ok env" for env
proof unfold_locales
  show "findings_ok env new_campaign" by (simp add: findings_ok_def candidates_ok_def new_campaign_def)
next
  fix c :: campaign and writable data tc ob query task
  assume "findings_ok env c"
  then show "findings_ok env (snd (publish_seed env writable data tc ob query task c))"
    by (subst findings_ok_fields [of _ c]) (simp_all add: publish_seed_fields)
next
  fix c task tc
  assume "findings_ok env c"
  then show "findings_ok env (record_distance_baseline env task tc c)"
    by (subst findings_ok_fields [of _ c]) (simp_all add: campaign_ops split: option.splits)
next
  fix c ob i data source depth q scope
  assume "findings_ok env c" "classify ob (cv_index env) = Some i"
  then show "findings_ok env (register_candidate data ob i source depth q scope c)" by (rule findings_ok_register)
next
  fix c io c'
  assume "findings_ok env c" "run_confirmation env io c = Inr c'"
  then show "findings_ok env c'" by (rule run_confirmation_findings)
qed (simp_all add: findings_ok_def campaign_ops Let_def)

subsection \<open>Queries and their budgets\<close>

definition weights_ok :: "(string, source_stat) dict \<Rightarrow> bool" where
  "weights_ok stats \<longleftrightarrow> (\<forall>(source, s) \<in> set stats. 1 / 10 \<le> so_weight s \<and> so_weight s \<le> 2)"

definition queries_ok :: "campaign_env \<Rightarrow> campaign \<Rightarrow> bool" where
  "queries_ok env c \<longleftrightarrow>
     length (cp_results c) = bu_used (cp_budget c) \<and> int (bu_used (cp_budget c)) \<le> campaign_limit env \<and>
     (\<forall>task. length (filter (\<lambda>r. sy_task r = task) (cp_results c)) = dget_or (bu_tasks (cp_budget c)) task 0 \<and>
        int (dget_or (bu_tasks (cp_budget c)) task 0) \<le> dget_or (task_limits env) task (campaign_limit env)) \<and>
     so_attempts (dget_or (cp_sources c) ''solver'' new_source) = length (cp_results c) \<and> weights_ok (cp_sources c)"

lemma dget_or_dset: "dget_or (dset k v d) k' x = (if k' = k then v else dget_or d k' x)"
  by (simp add: dget_or_def dget_dset)

lemma task_limits_nonneg: "0 \<le> dget_or (task_limits env) task (campaign_limit env)"
proof (cases "dget (task_limits env) task")
  case None
  then show ?thesis by (simp add: dget_or_def campaign_limit_def)
next
  case (Some v)
  then have "(task, v) \<in> set (task_limits env)" by (rule map_of_SomeD)
  then have "0 \<le> v" unfolding task_limits_def by (auto dest!: dupdate_value split: if_splits)
  then show ?thesis using Some by (simp add: dget_or_def)
qed

lemma weights_ok_update:
  assumes "weights_ok stats" "\<And>s. 1 / 10 \<le> so_weight s \<Longrightarrow> so_weight s \<le> 2 \<Longrightarrow> 1 / 10 \<le> so_weight (f s) \<and> so_weight (f s) \<le> 2"
  shows "weights_ok (update_source source f stats)"
proof -
  have "1 / 10 \<le> so_weight (dget_or stats source new_source) \<and> so_weight (dget_or stats source new_source) \<le> 2"
    using assms(1) by (auto simp: weights_ok_def dget_or_def new_source_def split: option.splits dest!: map_of_SomeD)
  then show ?thesis
    using assms set_dset [of source "f (dget_or stats source new_source)" stats]
    unfolding weights_ok_def update_source_def by fastforce
qed

lemma source_attempt_weight:
  "1 / 10 \<le> so_weight s \<Longrightarrow> so_weight s \<le> 2 \<Longrightarrow>
    1 / 10 \<le> so_weight (source_attempt gained s) \<and> so_weight (source_attempt gained s) \<le> 2"
  by (auto simp: source_attempt_def raised_weight_def lowered_weight_def min_def max_def)

lemma source_credit_weight:
  "1 / 10 \<le> so_weight s \<Longrightarrow> so_weight s \<le> 2 \<Longrightarrow>
    1 / 10 \<le> so_weight (source_credit s) \<and> so_weight (source_credit s) \<le> 2"
  by (auto simp: source_credit_def raised_weight_def min_def)

lemma claim_Some:
  assumes "claim_solver_budget env task b = Some b'"
  shows "b' = \<lparr>bu_used = bu_used b + 1, bu_tasks = dset task (dget_or (bu_tasks b) task 0 + 1) (bu_tasks b)\<rparr>"
    "int (bu_used b) < campaign_limit env"
    "int (dget_or (bu_tasks b) task 0) < dget_or (task_limits env) task (campaign_limit env)"
  using assms by (auto simp: claim_solver_budget_def split: if_splits)

lemma queries_ok_query:
  assumes "queries_ok env c" "claim_solver_budget env task (cp_budget c) = Some b"
  shows "queries_ok env (record_symbolic_result query task r (c\<lparr>cp_budget := b\<rparr>))"
proof -
  note claim = claim_Some [OF assms(2)]
  have "weights_ok (update_source ''solver'' (source_attempt False) (cp_sources c))"
    using assms(1) by (intro weights_ok_update source_attempt_weight) (auto simp: queries_ok_def)
  then show ?thesis
    using assms(1) claim(2,3)
    by (auto simp: queries_ok_def record_symbolic_result_def symbolic_record_of_def campaign_ops Let_def claim(1)
      update_source_def dget_or_dset source_attempt_def)
qed

lemma queries_ok_fields:
  "cp_budget c' = cp_budget c \<Longrightarrow> cp_results c' = cp_results c \<Longrightarrow> cp_sources c' = cp_sources c \<Longrightarrow>
    queries_ok env c' = queries_ok env c"
  by (simp add: queries_ok_def)

lemma update_first_tasks:
  "(\<And>x. f (g x) = f x) \<Longrightarrow> map f (update_first P g xs) = map f xs"
  by (induction xs) auto

lemma queries_ok_mark:
  assumes "queries_ok env c"
  shows "queries_ok env (mark_native_replay_status query status c)"
proof -
  define rs where "rs = cp_results (mark_native_replay_status query status c)"
  have tasks: "map sy_task rs = map sy_task (cp_results c)"
    by (simp add: rs_def mark_native_replay_status_def rev_map [symmetric] update_first_tasks)
  then have "length rs = length (cp_results c)" by (metis length_map)
  moreover have "length (filter (\<lambda>r. sy_task r = task) rs) = length (filter (\<lambda>r. sy_task r = task) (cp_results c))" for task
  proof -
    have "length (filter (\<lambda>r. sy_task r = task) xs) = length (filter (\<lambda>t. t = task) (map sy_task xs))" for xs
      by (simp add: filter_map comp_def)
    then show ?thesis using tasks by metis
  qed
  moreover have "cp_budget (mark_native_replay_status query status c) = cp_budget c"
    "cp_sources (mark_native_replay_status query status c) = cp_sources c" by (simp_all add: mark_native_replay_status_def)
  ultimately show ?thesis using assms by (simp add: queries_ok_def rs_def)
qed

lemma run_confirmation_fields:
  assumes "run_confirmation env io c = Inr c'"
  shows "cp_budget c' = cp_budget c" "cp_results c' = cp_results c" "cp_sources c' = cp_sources c"
    "cp_seeds c' = cp_seeds c" "cp_seed_hits c' = cp_seed_hits c" "cp_next_seed c' = cp_next_seed c" "cp_best c' = cp_best c"
  using assms by (auto simp: run_confirmation_def Let_def res_simps campaign_ops split: if_splits)

interpretation bounded_queries: campaign_invariant env "queries_ok env" for env
proof unfold_locales
  show "queries_ok env new_campaign"
    using task_limits_nonneg
    by (auto simp: queries_ok_def new_campaign_def campaign_limit_def dget_or_def new_source_def weights_ok_def)
next
  fix c :: campaign and gained
  assume "queries_ok env c"
  then show "queries_ok env (record_source_result ''fuzz'' gained c)"
    using weights_ok_update [OF _ source_attempt_weight]
    by (auto simp: queries_ok_def campaign_ops update_source_def [symmetric] dget_or_dset) (simp add: update_source_def dget_or_dset)
next
  fix c :: campaign
  assume "queries_ok env c"
  then show "queries_ok env (credit_solver_feedback c)"
    using weights_ok_update [OF _ source_credit_weight]
    by (auto simp: queries_ok_def campaign_ops) (simp add: update_source_def dget_or_dset source_credit_def)
next
  fix c :: campaign and writable data tc ob query task
  assume "queries_ok env c"
  then show "queries_ok env (snd (publish_seed env writable data tc ob query task c))"
    by (subst queries_ok_fields [of _ c]) (simp_all add: publish_seed_fields)
next
  fix c task tc
  assume "queries_ok env c"
  then show "queries_ok env (record_distance_baseline env task tc c)"
    by (subst queries_ok_fields [of _ c]) (simp_all add: campaign_ops split: option.splits)
next
  fix c io c'
  assume "queries_ok env c" "run_confirmation env io c = Inr c'"
  then show "queries_ok env c'" using queries_ok_fields run_confirmation_fields by metis
next
  fix c ob i data source depth q scope
  assume "queries_ok env c"
  then show "queries_ok env (register_candidate data ob i source depth q scope c)"
    by (subst queries_ok_fields [of _ c]) (simp_all add: register_candidate_fields)
next
  fix c task b query r
  assume "queries_ok env c" "claim_solver_budget env task (cp_budget c) = Some b"
  then show "queries_ok env (record_symbolic_result query task r (c\<lparr>cp_budget := b\<rparr>))" by (rule queries_ok_query)
next
  fix c query status
  assume "queries_ok env c"
  then show "queries_ok env (mark_native_replay_status query status c)" by (rule queries_ok_mark)
qed (simp_all add: queries_ok_def note_event_def bump_def)

subsection \<open>Seeds of the solver\<close>










section \<open>The distance of a testcase\<close>

definition condition_holds :: "(string, json) dict \<Rightarrow> condition \<Rightarrow> bool" where
  "condition_holds vs c \<longleftrightarrow>
     (\<exists>v l r. dget vs (py_upper (cn_field c)) = Some v \<and> float_of v = Some l \<and> float_of (cn_const c) = Some r \<and>
        compares (cn_op c) l r)"

definition whole_condition :: "(string, json) dict \<Rightarrow> condition \<Rightarrow> bool" where
  "whole_condition vs c \<longleftrightarrow>
     (\<exists>v l r. dget vs (py_upper (cn_field c)) = Some v \<and> float_of v = Some (of_int l) \<and>
        float_of (cn_const c) = Some (of_int r))"

lemma penalty_nonneg: "penalty op l r = Some p \<Longrightarrow> 0 \<le> p"
  by (auto simp: penalty_def split: if_splits)

lemma penalty_zero: "penalty op l r = Some 0 \<Longrightarrow> compares op l r"
  by (auto simp: penalty_def compares_def max_def split: if_splits)

lemma penalty_whole: "compares op (of_int l) (of_int r) \<Longrightarrow> penalty op (of_int l) (of_int r) = Some 0"
proof -
  assume "compares op (of_int l) (of_int r)"
  moreover have "(of_int l :: rat) < of_int r \<Longrightarrow> of_int l - of_int r + 1 \<le> (0 :: rat)" for l r :: int
    by (metis add_le_same_cancel2 diff_add_eq le_diff_eq of_int_1 of_int_add of_int_le_iff of_int_less_iff zless_imp_add1_zle add.commute add_diff_eq diff_le_0_iff_le)
  ultimately show ?thesis by (auto simp: penalty_def compares_def split: if_splits)
qed

lemma sum_nonneg_zero:
  fixes xs :: "rat list"
  shows "\<forall>x \<in> set xs. 0 \<le> x \<Longrightarrow> 0 \<le> sum_list xs \<and> (sum_list xs = 0 \<longleftrightarrow> (\<forall>x \<in> set xs. x = 0))"
  by (simp add: sum_list_nonneg sum_list_nonneg_eq_0_iff)

lemma condition_penalty_nonneg: "condition_penalty vs c = Some p \<Longrightarrow> 0 \<le> p"
  by (auto simp: condition_penalty_def dest: penalty_nonneg split: option.splits)

lemma whole_condition_penalty:
  assumes "whole_condition vs c" "condition_holds vs c"
  shows "condition_penalty vs c = Some 0"
  using assms penalty_whole by (auto simp: condition_penalty_def condition_holds_def whole_condition_def)

lemma path_score_zero:
  assumes "path_score vs cs = Some d"
  shows "0 \<le> d \<and> cs \<noteq> [] \<and> (d = 0 \<longrightarrow> (\<forall>c \<in> set cs. condition_holds vs c)) \<and>
    ((\<forall>c \<in> set cs. whole_condition vs c \<and> condition_holds vs c) \<longrightarrow> d = 0)"
proof -
  have ok: "\<forall>c \<in> set cs. condition_penalty vs c \<noteq> None" and ne: "cs \<noteq> []"
    and d: "d = sum_list (map (\<lambda>c. the (condition_penalty vs c)) cs)"
    using assms by (auto simp: path_score_def split: if_splits)
  have nonneg: "\<forall>x \<in> set (map (\<lambda>c. the (condition_penalty vs c)) cs). 0 \<le> x"
    using ok condition_penalty_nonneg by fastforce
  have holds: "condition_holds vs c" if "c \<in> set cs" "the (condition_penalty vs c) = 0" for c
    using that ok penalty_zero by (fastforce simp: condition_penalty_def condition_holds_def split: option.splits)
  have zero: "the (condition_penalty vs c) = 0" if "whole_condition vs c" "condition_holds vs c" for c
    using that by (simp add: whole_condition_penalty)
  show ?thesis using sum_nonneg_zero [OF nonneg] ne holds zero by (auto simp: d)
qed

lemma map_filter_mem: "x \<in> set xs \<Longrightarrow> f x = Some y \<Longrightarrow> y \<in> set (List.map_filter f xs)"
  by (force simp: List.map_filter_def)

lemma least_mem: "least xs = Some d \<Longrightarrow> d \<in> set xs \<and> (\<forall>x \<in> set xs. d \<le> x)"
proof (cases xs)
  case (Cons x ys)
  have "foldl min x ys \<in> insert x (set ys) \<and> foldl min x ys \<le> x \<and> (\<forall>y \<in> set ys. foldl min x ys \<le> y)" for x :: rat and ys
  proof (induction ys arbitrary: x)
    case (Cons y ys)
    from Cons.IH [of "min x y"] show ?case by (auto simp: min_def split: if_splits)
  qed simp
  then show "least xs = Some d \<Longrightarrow> ?thesis" using Cons by (auto simp: least_def)
qed (simp add: least_def)

text \<open>
  (C18) The distance of a run to a task is never negative, and it is zero only when the values the run
  showed satisfy every condition of one of the task's paths. When the values and constants of a path
  are whole numbers and all its conditions hold, the distance is zero.
\<close>

theorem distance_zero_satisfies:
  assumes "find_task env task = Some t" "solver_task_distance env task tc ob = Some d"
  shows "0 \<le> d \<and>
    (d = 0 \<longrightarrow> (\<exists>(i, cs) \<in> set (gt_paths t). cs \<noteq> [] \<and> (\<forall>c \<in> set cs. condition_holds (shown_values tc ob) c))) \<and>
    ((\<exists>(i, cs) \<in> set (gt_paths t). cs \<noteq> [] \<and>
       (\<forall>c \<in> set cs. whole_condition (shown_values tc ob) c \<and> condition_holds (shown_values tc ob) c)) \<longrightarrow> d = 0)"
proof -
  let ?score = "\<lambda>(i, cs). path_score (shown_values tc ob) cs"
  have d: "least (List.map_filter ?score (gt_paths t)) = Some d"
    using assms by (simp add: solver_task_distance_def split: if_splits)
  then obtain i cs where p: "(i, cs) \<in> set (gt_paths t)" "path_score (shown_values tc ob) cs = Some d"
    using least_mem [OF d] by (auto simp: List.map_filter_def)
  have "d = 0" if mem: "(i', cs') \<in> set (gt_paths t)" "cs' \<noteq> []"
      and all: "\<forall>c \<in> set cs'. whole_condition (shown_values tc ob) c \<and> condition_holds (shown_values tc ob) c" for i' cs'
  proof -
    obtain d' where d': "path_score (shown_values tc ob) cs' = Some d'"
      using mem(2) all whole_condition_penalty by (auto simp: path_score_def)
    then have "d' = 0" using path_score_zero all by blast
    moreover have "d \<le> d'" using least_mem [OF d] map_filter_mem [OF mem(1), of ?score d'] d' by simp
    ultimately show ?thesis using path_score_zero [OF p(2)] by simp
  qed
  moreover have "0 \<le> d" using path_score_zero [OF p(2)] by blast
  moreover have "\<exists>(i, cs) \<in> set (gt_paths t). cs \<noteq> [] \<and> (\<forall>c \<in> set cs. condition_holds (shown_values tc ob) c)" if "d = 0"
    using path_score_zero [OF p(2)] that by (intro bexI [OF _ p(1)]) simp
  ultimately show ?thesis by auto
qed

section \<open>What holds in every campaign\<close>

text \<open>
  (C5) Whatever the solver, the engine and the clock do, a campaign keeps a candidate only for a native
  run that is classified as exactly this candidate; no two candidates have the same site. A finding is
  confirmed once, under the identifier of a candidate with its oracle and target, and the evidence
  written for it has a round of three cold runs that all showed them.
\<close>

theorem campaign_findings_native:
  assumes "campaign_reach env c"
  shows "(\<forall>cand \<in> set (cp_candidates c). classify (cc_observation cand) (cv_index env) = Some (cc_info cand)) \<and>
    distinct (map (\<lambda>cand. candidate_site (cc_info cand)) (cp_candidates c)) \<and>
    map cc_id (cp_candidates c) = map finding_id [1..<Suc (length (cp_candidates c))] \<and>
    distinct (map fi_id (cp_confirmed c)) \<and>
    (\<forall>f \<in> set (cp_confirmed c).
       (\<exists>cand \<in> set (cp_candidates c). cc_id cand = fi_id f \<and> ca_oracle (cc_info cand) = fi_oracle f \<and>
          ca_runtime (cc_info cand) = fi_runtime f) \<and>
       (\<exists>ev \<in> set (cp_evidence c). ev_id ev = fi_id f \<and> ev_status ev = ''confirmed'' \<and>
          (\<exists>r. round_shows f r (ev_attempts ev))))"
  using native_findings.reachable [OF assms]
  unfolding findings_ok_def candidates_ok_def finding_ok_def by blast

text \<open>
  (C15) Every solver query of a campaign is claimed from its budget and leaves exactly one result: there
  are never more results than the campaign may ask queries, no task has more than its own limit, the
  source statistics count each, and the weight of a source stays between 0.1 and 2.
\<close>

theorem campaign_query_budget:
  assumes "campaign_reach env c"
  shows "int (length (cp_results c)) \<le> campaign_limit env \<and>
    (\<forall>task. int (length (filter (\<lambda>r. sy_task r = task) (cp_results c))) \<le>
       dget_or (task_limits env) task (campaign_limit env)) \<and>
    length (cp_results c) = bu_used (cp_budget c) \<and>
    so_attempts (dget_or (cp_sources c) ''solver'' new_source) = length (cp_results c) \<and>
    (\<forall>(source, s) \<in> set (cp_sources c). 1 / 10 \<le> so_weight s \<and> so_weight s \<le> 2)"
  using bounded_queries.reachable [OF assms] by (auto simp: queries_ok_def weights_ok_def)


text \<open>
  (C40) The monitor of the engine's prefixes takes a task whose own share of queries is used up for a
  campaign without budget: the queries a task asked at the start count against its share but not
  against the monitor's count of it, so the claim is refused, and the monitor stops for all tasks
  although the campaign has queries left.
\<close>

theorem task_share_stops_monitor:
  assumes "int (bu_used (cp_budget (lv_campaign s))) < campaign_limit env"
    and "dget_or (task_limits env) (task_name t) (campaign_limit env) \<le>
      int (dget_or (bu_tasks (cp_budget (lv_campaign s))) (task_name t) 0)"
    and "solver_prefix_skip_reason (li_record i) t False = None" "\<not> li_stop i k" "\<not> li_reached i (task_name t)"
    and "int (dget_or (lv_queries s) (task_name t) 0) < max 0 (gt_queries t)"
  shows "\<exists>s'. live_tasks_loop env i prefix_id tc k (t # ts) s = Inr s' \<and>
    (\<forall>over is. live_poll env over is s' = Inr s') \<and> cp_budget (lv_campaign s') = cp_budget (lv_campaign s)"
proof -
  have "claim_solver_budget env (task_name t) (cp_budget (lv_campaign s)) = None"
    using assms(1,2) by (auto simp: claim_solver_budget_def)
  moreover have "cp_budget (record_distance_baseline env task tc c) = cp_budget c" for task c
    by (simp add: record_distance_baseline_def note_event_def split: option.splits)
  ultimately show ?thesis
    using assms(3-6) by (auto simp: live_query_def note_live_def note_event_def live_poll_def Let_def)
qed

section \<open>A campaign\<close>

definition demo_task :: goal_task where
  "demo_task = \<lparr>gt_task_id = JStr ''t1'', gt_runtime = JInt 4, gt_stable = JNull, gt_kind = JStr ''hazard_violation'',
     gt_hazard = JStr ''division'', gt_modeling = JStr ''exact'', gt_source = JNull, gt_plan_modeling = JNull,
     gt_class = ''defect'', gt_reach = [], gt_polarity = JNull, gt_history = False, gt_fields = [''X''], gt_state = [],
     gt_paths = [(JStr ''p1'', [\<lparr>cn_field = ''X'', cn_op = ''='', cn_const = JInt (-3)\<rparr>])], gt_abstraction = [], gt_edges = [],
     gt_timers = [], gt_suitable = True, gt_attempts = 2000, gt_queries = 2, gt_calls = 2, gt_literals = [],
     gt_prefixes = [], gt_total = 0, gt_goal = JNull, gt_obligations = JNull\<rparr>"

definition demo_campaign :: campaign_env where
  "demo_campaign = \<lparr>cv_max_evaluations = 10, cv_tasks = [demo_task], cv_single_cycle = False, cv_abi = demo_abi,
     cv_index = demo_index, cv_contract = [], cv_audit = audit_probe_completeness None, cv_ablations = []\<rparr>"

definition quiet_observation :: observation where
  "quiet_observation = \<lparr>ob_returncode = Some 0, ob_timed_out = False, ob_stderr = [], ob_hits = [(2, [1])],
     ob_states = [], ob_crashed = False, ob_scan_budget = False, ob_signal = None\<rparr>"

definition demo_query :: query_run where
  "demo_query = \<lparr>qr_result = \<lparr>sr_status = ''SAT'', sr_reason = None, sr_solver_scope = JNull, sr_model_scope = JNull,
       sr_candidate = Some ''m.txt'', sr_seed_only = False, sr_seed_files = [], sr_goal_reached = False\<rparr>,
     qr_read = (\<lambda>f. Inr demo_text), qr_run = (\<lambda>k data. quiet_observation), qr_late = (\<lambda>k. False),
     qr_stopped = (\<lambda>k. False), qr_writable = (\<lambda>k. True)\<rparr>"

definition demo_startup :: startup_env where
  "demo_startup = \<lparr>su_available = True, su_abi = \<lparr>ad_target = [], ad_frame_fields = [], ad_shared_fields = [], ad_state_fields = []\<rparr>,
     su_suggested = (\<lambda>t. False), su_late = (\<lambda>k. False), su_query = (\<lambda>n. demo_query)\<rparr>"

definition demo_confirm :: confirm_io where
  "demo_confirm = \<lparr>ci_shorten = (\<lambda>i. False), ci_probe = (\<lambda>i n data. demo_observation), ci_expired = (\<lambda>i n. False),
     ci_first = (\<lambda>i data k. if k = 1 then quiet_observation else demo_observation), ci_retry = (\<lambda>i. True),
     ci_again = (\<lambda>i data k. demo_observation)\<rparr>"

text \<open>A query gives a seed, the engine then fails on a testcase whose candidate is confirmed in a second round.\<close>

lemma demo_started:
  "case run_symbolic_startup demo_campaign demo_startup new_campaign of
     Inl e \<Rightarrow> False
   | Inr c \<Rightarrow> length (cp_results c) = 1 \<and> length (cp_seeds c) = 1 \<and> bu_tasks (cp_budget c) = [(''t1'', 1)] \<and>
       bu_used (cp_budget c) = 1 \<and>
       (let c' = engine_failed demo_campaign (Some (demo_text, demo_observation)) demo_confirm c in
        map fi_id (cp_confirmed c') = [''F0001''] \<and> map fi_runtime (cp_confirmed c') = [Some 4])"
  by code_simp

lemma demo_reached:
  obtains c where "campaign_reach demo_campaign c" "length (cp_results c) = 1" "length (cp_seeds c) = 1"
    "bu_tasks (cp_budget c) = [(''t1'', 1)]" "bu_used (cp_budget c) = 1"
    "map fi_id (cp_confirmed (engine_failed demo_campaign (Some (demo_text, demo_observation)) demo_confirm c)) = [''F0001'']"
  using demo_started reach_startup [OF reach_start, of demo_campaign demo_startup] by (auto simp: Let_def split: sum.splits)

theorem campaign_findings_native_witness:
  "\<exists>c f ev r. campaign_reach demo_campaign c \<and> f \<in> set (cp_confirmed c) \<and> ev \<in> set (cp_evidence c) \<and>
    round_shows f r (ev_attempts ev)"
proof -
  obtain c where c: "campaign_reach demo_campaign c"
    and f: "map fi_id (cp_confirmed (engine_failed demo_campaign (Some (demo_text, demo_observation)) demo_confirm c)) = [''F0001'']"
    by (rule demo_reached)
  let ?c = "engine_failed demo_campaign (Some (demo_text, demo_observation)) demo_confirm c"
  have r: "campaign_reach demo_campaign ?c" by (rule reach_failed [OF c])
  obtain f where "f \<in> set (cp_confirmed ?c)" using f by (cases "cp_confirmed ?c") auto
  then show ?thesis using campaign_findings_native [OF r] r by blast
qed

theorem campaign_query_budget_witness:
  "\<exists>c. campaign_reach demo_campaign c \<and> length (cp_results c) = 1 \<and> bu_used (cp_budget c) = 1"
proof -
  obtain c where "campaign_reach demo_campaign c" "length (cp_results c) = 1" by (rule demo_reached)
  then show ?thesis using campaign_query_budget by metis
qed


lemma demo_distance:
  "solver_task_distance demo_campaign ''t1'' demo_case no_observation = Some 0 \<and>
    find_task demo_campaign ''t1'' = Some demo_task"
  by code_simp

theorem distance_zero_satisfies_witness:
  "\<exists>(i, cs) \<in> set (gt_paths demo_task). cs \<noteq> [] \<and> (\<forall>c \<in> set cs. condition_holds (shown_values demo_case no_observation) c)"
  using distance_zero_satisfies [of demo_campaign "''t1''" demo_task demo_case no_observation 0] demo_distance by blast

definition demo_live :: live_state where
  "demo_live = live_start (new_campaign\<lparr>cp_budget := \<lparr>bu_used = 2, bu_tasks = [(''t1'', 2)]\<rparr>\<rparr>)"

definition demo_prefix :: live_input where
  "demo_prefix = \<lparr>li_record = [(''task_id'', JStr ''t1''), (''queue'', JStr ''klee_suffix''),
       (''trigger'', JStr ''native_hazard_reach''), (''task_unresolved'', JBool True), (''native_execution'', JInt 7)],
     li_content = Some demo_text, li_stop = (\<lambda>k. False), li_reached = (\<lambda>t. False), li_query = (\<lambda>k. demo_query)\<rparr>"

lemma demo_share:
  "int (bu_used (cp_budget (lv_campaign demo_live))) < campaign_limit demo_campaign \<and>
   dget_or (task_limits demo_campaign) (task_name demo_task) (campaign_limit demo_campaign) \<le>
     int (dget_or (bu_tasks (cp_budget (lv_campaign demo_live))) (task_name demo_task) 0) \<and>
   solver_prefix_skip_reason (li_record demo_prefix) demo_task False = None \<and> \<not> li_stop demo_prefix 0 \<and>
   \<not> li_reached demo_prefix (task_name demo_task) \<and>
   int (dget_or (lv_queries demo_live) (task_name demo_task) 0) < max 0 (gt_queries demo_task)"
  by code_simp

theorem task_share_stops_monitor_witness:
  "\<exists>s'. live_tasks_loop demo_campaign demo_prefix ''p'' demo_case 0 [demo_task] demo_live = Inr s' \<and>
    live_poll demo_campaign (\<lambda>k. False) [demo_prefix] s' = Inr s'"
proof -
  from demo_share obtain s' where "live_tasks_loop demo_campaign demo_prefix ''p'' demo_case 0 [demo_task] demo_live = Inr s'"
    "\<forall>over is. live_poll demo_campaign over is s' = Inr s'"
    using task_share_stops_monitor [of demo_live demo_campaign demo_task demo_prefix 0 "''p''" demo_case "[]"] by auto
  then show ?thesis by blast
qed

end
