(* ===== verification/Campaign_Report.thy ===== *)
theory Campaign_Report
  imports Campaign_Facts
begin

text \<open>
  The report of a campaign (\<open>_write_report\<close> of \<open>fuzzer/pipeline/campaign.py\<close>): the counts of statuses,
  the status of the symbolic phase and the verdict on the whole run. Times and the texts of the report
  files are not modelled; whether the bundle says that there is no symbolic model is a parameter.
\<close>

section \<open>Counts\<close>

definition count_where :: "('a \<Rightarrow> bool) \<Rightarrow> 'a list \<Rightarrow> nat" where
  "count_where P xs = length (filter P xs)"

definition query_count :: "campaign \<Rightarrow> string \<Rightarrow> nat" where
  "query_count c status = count_where (\<lambda>r. sy_status r = status) (cp_results c)"

definition native_count :: "campaign \<Rightarrow> string \<Rightarrow> nat" where
  "native_count c status = count_where (\<lambda>r. sy_native r = Some status) (cp_results c)"

definition evidence_count :: "campaign \<Rightarrow> string \<Rightarrow> nat" where
  "evidence_count c status = count_where (\<lambda>ev. ev_status ev = status) (cp_evidence c)"

definition replay_count :: "campaign \<Rightarrow> string \<Rightarrow> nat" where
  "replay_count c status = count_where (\<lambda>(name, s). s = status) (cp_replays c)"

definition status_counts :: "campaign \<Rightarrow> (string \<times> nat) list" where
  "status_counts c =
     [(''candidate'', length (cp_candidates c)), (''confirmed'', length (cp_confirmed c)),
      (''FAILED'', query_count c ''FAILED'' + replay_count c ''FAILED''),
      (''ERROR'', query_count c ''ERROR''), (''UNSUPPORTED'', query_count c ''UNSUPPORTED''),
      (''TIMEOUT'', query_count c ''TIMEOUT'' + evidence_count c ''TIMEOUT'' + replay_count c ''TIMEOUT''),
      (''REPLAY_MISMATCH'', query_count c ''REPLAY_MISMATCH'' + native_count c ''REPLAY_MISMATCH'' +
         evidence_count c ''REPLAY_MISMATCH'' + replay_count c ''REPLAY_MISMATCH'')]"

section \<open>The symbolic phase\<close>

definition some_status :: "campaign \<Rightarrow> string \<Rightarrow> bool" where
  "some_status c status = (\<exists>r \<in> set (cp_results c). sy_status r = status)"

definition some_native :: "campaign \<Rightarrow> string \<Rightarrow> bool" where
  "some_native c status = (\<exists>r \<in> set (cp_results c). sy_native r = Some status)"

definition symbolic_start :: "campaign_env \<Rightarrow> string option \<Rightarrow> campaign \<Rightarrow> string \<times> string option" where
  "symbolic_start env unsupported c =
     (if truthy (jget (cv_ablations env) ''no_symbolic'') then (''UNSUPPORTED'', Some ''disabled_by_no_symbolic_ablation'')
      else if unsupported \<noteq> None \<and> cp_results c = [] then (''UNSUPPORTED'', unsupported)
      else if cp_results c = [] then (''NOT_RUN'', None) else (''completed'', None))"

definition symbolic_status :: "campaign_env \<Rightarrow> string option \<Rightarrow> campaign \<Rightarrow> string \<times> string option" where
  "symbolic_status env unsupported c =
     (if some_status c ''TIMEOUT'' \<or> some_native c ''TIMEOUT'' then (''TIMEOUT'', None)
      else if some_status c ''REPLAY_MISMATCH'' \<or> some_native c ''REPLAY_MISMATCH'' then (''REPLAY_MISMATCH'', None)
      else if some_status c ''FAILED'' \<or> some_status c ''ERROR'' then (''FAILED'', None)
      else if some_status c ''UNSUPPORTED'' then (''UNSUPPORTED'', None)
      else if some_status c ''UNKNOWN'' then (''INCOMPLETE'', Some ''symbolic_query_unresolved'')
      else symbolic_start env unsupported c)"

record fidelity_counts =
  fc_faithful :: nat
  fc_approximate :: nat
  fc_unknown :: nat

definition result_fidelity :: "symbolic_record \<Rightarrow> string option" where
  "result_fidelity r =
     (if sy_status r \<notin> {''SAT'', ''SAT_APPROX'', ''UNSAT'', ''UNKNOWN''} then None
      else if sy_status r = ''UNKNOWN'' then Some ''unknown''
      else if sy_status r = ''SAT_APPROX'' \<or> scope_is_approximate (sy_model_scope r) then Some ''approximate''
      else Some ''faithful'')"

definition finding_fidelity :: "campaign_env \<Rightarrow> finding \<Rightarrow> string option" where
  "finding_fidelity env f =
     (let v = jor (fi_fidelity f) (jget (cv_contract env) ''semantic_fidelity'');
          fidelity = py_lower (if truthy v then py_str v else []) in
      Some (if scope_is_approximate (fi_scope f) \<or> fidelity = ''approximate'' \<or> truthy (fi_stub f) then ''approximate''
        else if fidelity = ''semantic'' then ''faithful'' else ''unknown''))"

definition fidelity_count :: "('a \<Rightarrow> string option) \<Rightarrow> 'a list \<Rightarrow> fidelity_counts" where
  "fidelity_count f xs =
     \<lparr>fc_faithful = count_where (\<lambda>x. f x = Some ''faithful'') xs,
      fc_approximate = count_where (\<lambda>x. f x = Some ''approximate'') xs,
      fc_unknown = count_where (\<lambda>x. f x = Some ''unknown'') xs\<rparr>"

section \<open>The report\<close>

record task_progress =
  tp_task :: string
  tp_used :: nat
  tp_remaining :: int
  tp_statuses :: "string list"

definition progress_of :: "campaign_env \<Rightarrow> campaign \<Rightarrow> string \<Rightarrow> task_progress" where
  "progress_of env c task =
     (let rs = filter (\<lambda>r. sy_task r = task) (cp_results c) in
      \<lparr>tp_task = task, tp_used = length rs,
       tp_remaining = max 0 (dget_or (task_limits env) task (cv_max_evaluations env) - int (length rs)),
       tp_statuses = map sy_status rs\<rparr>)"

record solver_feedback =
  sb_enqueued :: int
  sb_executed :: int
  sb_retained :: int
  sb_not_fed :: nat

definition solver_feedback_of :: "metrics \<Rightarrow> solver_feedback" where
  "solver_feedback_of m =
     \<lparr>sb_enqueued = dget_or (me_counters m) ''solver_seeds_enqueued'' 0,
      sb_executed = dget_or (me_counters m) ''solver_seeds_executed'' 0,
      sb_retained = dget_or (me_counters m) ''solver_seeds_retained'' 0,
      sb_not_fed = dget_or (me_events m) ''solver_seed_not_fed'' 0\<rparr>"

record report =
  rp_counts :: "(string \<times> nat) list"
  rp_source_risks :: nat
  rp_verification :: string
  rp_symbolic :: string
  rp_reason :: "string option"
  rp_fidelity :: json
  rp_results :: fidelity_counts
  rp_confirmed :: fidelity_counts
  rp_progress :: "task_progress list"
  rp_feedback :: solver_feedback
  rp_findings :: "finding list"

definition INCOMPLETE_SYMBOLIC :: "string list" where
  "INCOMPLETE_SYMBOLIC = [''FAILED'', ''UNSUPPORTED'', ''TIMEOUT'', ''REPLAY_MISMATCH'', ''NOT_RUN'', ''INCOMPLETE'']"

definition FAILED_RUNS :: "string list" where
  "FAILED_RUNS = [''FAILED'', ''TIMEOUT'', ''REPLAY_MISMATCH'']"

definition verification_status :: "campaign_env \<Rightarrow> string option \<Rightarrow> campaign \<Rightarrow> string" where
  "verification_status env unsupported c =
     (if au_status (cv_audit env) \<noteq> ''COMPLETE'' \<or>
         fst (symbolic_status env unsupported c) \<in> set INCOMPLETE_SYMBOLIC \<or>
         (\<exists>(name, s) \<in> set (cp_replays c). s \<in> set FAILED_RUNS) \<or>
         (\<exists>ev \<in> set (cp_evidence c). ev_status ev \<in> set FAILED_RUNS) then ''incomplete''
      else ''executed'')"

definition write_report :: "campaign_env \<Rightarrow> string option \<Rightarrow> string list \<Rightarrow> campaign \<Rightarrow> report" where
  "write_report env unsupported engine_tasks c =
     \<lparr>rp_counts = status_counts c,
      rp_source_risks = count_where (\<lambda>f. fi_vulnerability f = ''source_risk_confirmed_under_model'') (cp_confirmed c),
      rp_verification = verification_status env unsupported c,
      rp_symbolic = fst (symbolic_status env unsupported c), rp_reason = snd (symbolic_status env unsupported c),
      rp_fidelity = fidelity_of env, rp_results = fidelity_count result_fidelity (cp_results c),
      rp_confirmed = fidelity_count (finding_fidelity env) (cp_confirmed c),
      rp_progress = map (progress_of env c) (remdups engine_tasks), rp_feedback = solver_feedback_of (cp_metrics c),
      rp_findings = cp_confirmed c\<rparr>"

section \<open>Every candidate has been looked at\<close>

definition judged :: "campaign \<Rightarrow> string \<Rightarrow> bool" where
  "judged c i \<longleftrightarrow> i \<in> fi_id ` set (cp_confirmed c) \<or>
     (\<exists>ev \<in> set (cp_evidence c). ev_id ev = i \<and> ev_status ev \<in> set FAILED_RUNS)"

lemma confirm_one_judged:
  "judged (confirm_one env io c (cand, s)) (cc_id cand)" "judged c i \<Longrightarrow> judged (confirm_one env io c (cand, s)) i"
proof -
  obtain rounds found where r: "confirm_rounds env io cand = (rounds, found)" by fastforce
  have found: "fi_id f = cc_id cand" if "found = Some f" for f using confirm_rounds_shown(1) r that by simp
  have evs: "cp_evidence (confirm_one env io c (cand, s)) = cp_evidence c @ [confirmation_of env cand s rounds found]"
    using r by (auto simp: confirm_one_def Let_def bump_def note_event_def split: option.splits)
  have conf: "cp_confirmed (confirm_one env io c (cand, s)) = cp_confirmed c @ (case found of None \<Rightarrow> [] | Some f \<Rightarrow> [f])"
    using r by (auto simp: confirm_one_def Let_def bump_def note_event_def split: option.splits)
  have "ev_id (confirmation_of env cand s rounds None) = cc_id cand"
    "ev_status (confirmation_of env cand s rounds None) \<in> set FAILED_RUNS"
    by (simp_all add: confirmation_of_def FAILED_RUNS_def Let_def)
  then show "judged (confirm_one env io c (cand, s)) (cc_id cand)"
    using found by (cases found) (auto simp: judged_def evs conf)
  show "judged c i \<Longrightarrow> judged (confirm_one env io c (cand, s)) i" by (auto simp: judged_def evs conf)
qed

lemma confirm_all_judged:
  "judged c i \<or> i \<in> (\<lambda>e. cc_id (fst e)) ` set entries \<Longrightarrow> judged (foldl (confirm_one env io) c entries) i"
proof (induction entries arbitrary: c)
  case (Cons e entries)
  then show ?case using confirm_one_judged [where env = env and io = io and c = c and cand = "fst e" and s = "snd e"]
    by (auto simp del: confirm_one_fields)
qed simp

lemma run_confirmation_judged:
  assumes "findings_ok env c" "run_confirmation env io c = Inr c'" "cand \<in> set (cp_candidates c')"
  shows "judged c' (cc_id cand)"
proof (cases "pending_candidates c = []")
  case True
  then show ?thesis using assms(2,3) by (auto simp: run_confirmation_def pending_candidates_def judged_def filter_empty_conv)
next
  case False
  then obtain sh where sh: "mapE (shorten env io) (pending_candidates c) = Inr sh"
    using assms(2) by (auto simp: run_confirmation_def res_simps)
  define cands where "cands = with_testcases (pending_candidates c) sh"
  define start where
    "start = note_event ''confirmation_probes'' (c\<lparr>cp_candidates := replace_candidates cands (cp_candidates c)\<rparr>)"
  have c': "c' = foldl (confirm_one env io) start (zip cands (map fst sh))"
    using assms(2) False sh by (simp add: run_confirmation_def cands_def start_def Let_def)
  have len: "length sh = length (pending_candidates c)" by (rule mapE_eq_Inr_length [OF sh])
  have ids: "map cc_id cands = map cc_id (pending_candidates c)"
    using same_evidence_ids [OF with_testcases_same [OF len]] by (simp add: cands_def)
  have fsts: "map fst (zip cands (map fst sh)) = cands" using len by (simp add: cands_def with_testcases_def)
  have "cc_id cand \<in> cc_id ` set (cp_candidates c)"
  proof -
    have "list_all2 same_evidence (cp_candidates start) (cp_candidates c)"
      using replace_candidates_same [of "cp_candidates c" cands] candidates_ok_ids [of env "cp_candidates c"] assms(1)
        list_all2_witness [OF with_testcases_same [OF len], folded cands_def]
      by (fastforce simp: start_def note_event_def findings_ok_def pending_candidates_def)
    then show ?thesis using assms(3) c' by (metis confirm_all_fields(1) image_eqI list.set_map same_evidence_ids)
  qed
  then obtain old where old: "old \<in> set (cp_candidates c)" "cc_id old = cc_id cand" by fastforce
  consider "cc_id cand \<in> fi_id ` set (cp_confirmed c)" | "cc_id cand \<in> cc_id ` set (pending_candidates c)"
  proof (cases "cc_id cand \<in> fi_id ` set (cp_confirmed c)")
    case False
    then have "old \<in> set (pending_candidates c)" using old by (simp add: pending_candidates_def)
    then show ?thesis using that(2) old(2) by (metis image_eqI)
  qed (rule that(1))
  then show ?thesis
  proof cases
    case 1
    then show ?thesis unfolding c' by (intro confirm_all_judged) (simp add: judged_def start_def note_event_def)
  next
    case 2
    then have "cc_id cand \<in> cc_id ` fst ` set (zip cands (map fst sh))" using ids fsts by (metis list.set_map)
    then show ?thesis unfolding c' by (intro confirm_all_judged) (simp add: image_image)
  qed
qed

lemma executed_completed:
  assumes "verification_status env unsupported c = ''executed''"
  shows "au_status (cv_audit env) = ''COMPLETE''" "cp_results c \<noteq> []"
    "\<forall>r \<in> set (cp_results c). sy_status r \<notin> {''FAILED'', ''ERROR'', ''UNSUPPORTED'', ''TIMEOUT'', ''REPLAY_MISMATCH'', ''UNKNOWN''} \<and>
       sy_native r \<notin> {Some ''TIMEOUT'', Some ''REPLAY_MISMATCH''}"
    "\<forall>(name, s) \<in> set (cp_replays c). s \<notin> set FAILED_RUNS"
    "\<forall>ev \<in> set (cp_evidence c). ev_status ev \<notin> set FAILED_RUNS"
proof -
  have s: "fst (symbolic_status env unsupported c) \<notin> set INCOMPLETE_SYMBOLIC"
    and rest: "au_status (cv_audit env) = ''COMPLETE''" "\<forall>(name, s) \<in> set (cp_replays c). s \<notin> set FAILED_RUNS"
      "\<forall>ev \<in> set (cp_evidence c). ev_status ev \<notin> set FAILED_RUNS"
    using assms by (auto simp: verification_status_def split: if_splits)
  have no: "\<not> some_status c x" if "x \<in> {''FAILED'', ''ERROR'', ''UNSUPPORTED'', ''TIMEOUT'', ''REPLAY_MISMATCH'', ''UNKNOWN''}" for x
    using s that by (auto simp: symbolic_status_def INCOMPLETE_SYMBOLIC_def split: if_splits)
  have no_native: "\<not> some_native c ''TIMEOUT''" "\<not> some_native c ''REPLAY_MISMATCH''"
    using s by (auto simp: symbolic_status_def INCOMPLETE_SYMBOLIC_def split: if_splits)
  have "fst (symbolic_start env unsupported c) \<notin> set INCOMPLETE_SYMBOLIC"
    using s no no_native by (simp add: symbolic_status_def)
  then show "cp_results c \<noteq> []" by (auto simp: symbolic_start_def INCOMPLETE_SYMBOLIC_def split: if_splits)
  show "\<forall>r \<in> set (cp_results c). sy_status r \<notin> {''FAILED'', ''ERROR'', ''UNSUPPORTED'', ''TIMEOUT'', ''REPLAY_MISMATCH'', ''UNKNOWN''} \<and>
       sy_native r \<notin> {Some ''TIMEOUT'', Some ''REPLAY_MISMATCH''}"
  proof
    fix r assume r: "r \<in> set (cp_results c)"
    then show "sy_status r \<notin> {''FAILED'', ''ERROR'', ''UNSUPPORTED'', ''TIMEOUT'', ''REPLAY_MISMATCH'', ''UNKNOWN''} \<and>
        sy_native r \<notin> {Some ''TIMEOUT'', Some ''REPLAY_MISMATCH''}"
      using no [of "sy_status r"] no_native r unfolding some_status_def some_native_def by force
  qed
qed (use assms in \<open>auto simp: verification_status_def split: if_splits\<close>)

text \<open>What a confirmation pass leaves behind: evidence of a failed run, or a finding.\<close>

definition evidence_settled :: "campaign \<Rightarrow> bool" where
  "evidence_settled c \<longleftrightarrow>
     (\<forall>ev \<in> set (cp_evidence c). ev_status ev \<in> set FAILED_RUNS \<or> ev_id ev \<in> fi_id ` set (cp_confirmed c))"

lemma evidence_settled_fields:
  "cp_evidence c' = cp_evidence c \<Longrightarrow> cp_confirmed c' = cp_confirmed c \<Longrightarrow> evidence_settled c' = evidence_settled c"
  by (simp add: evidence_settled_def)

lemma confirm_one_settled:
  assumes "evidence_settled c"
  shows "evidence_settled (confirm_one env io c entry)"
proof -
  obtain cand s where e: "entry = (cand, s)" by force
  obtain rounds found where r: "confirm_rounds env io cand = (rounds, found)" by fastforce
  have found: "fi_id f = cc_id cand" if "found = Some f" for f using confirm_rounds_shown(1) r that by simp
  have "ev_id (confirmation_of env cand s rounds found) = cc_id cand"
    "found = None \<Longrightarrow> ev_status (confirmation_of env cand s rounds found) \<in> set FAILED_RUNS"
    by (simp_all add: confirmation_of_def FAILED_RUNS_def Let_def)
  then show ?thesis
    using assms found r
    by (cases found) (auto simp: e evidence_settled_def confirm_one_def Let_def bump_def note_event_def)
qed

lemma run_confirmation_settled:
  assumes "evidence_settled c" "run_confirmation env io c = Inr c'"
  shows "evidence_settled c'"
proof -
  have all: "evidence_settled (foldl (confirm_one env io) c1 entries)" if "evidence_settled c1" for c1 entries
    using that by (induction entries arbitrary: c1) (auto intro: confirm_one_settled)
  show ?thesis
    using assms by (auto simp: run_confirmation_def Let_def res_simps note_event_def split: if_splits intro!: all)
      (simp_all add: evidence_settled_def)
qed

interpretation settled_evidence: campaign_invariant env evidence_settled for env
proof unfold_locales
  show "evidence_settled new_campaign" by (simp add: evidence_settled_def new_campaign_def)
next
  fix c :: campaign and writable data tc ob query task
  assume "evidence_settled c"
  then show "evidence_settled (snd (publish_seed env writable data tc ob query task c))"
    by (subst evidence_settled_fields [of _ c]) (simp_all add: publish_seed_fields)
next
  fix c task tc
  assume "evidence_settled c"
  then show "evidence_settled (record_distance_baseline env task tc c)"
    by (subst evidence_settled_fields [of _ c]) (simp_all add: campaign_ops split: option.splits)
next
  fix c ob i data source depth q scope
  assume "evidence_settled c" "classify ob (cv_index env) = Some i"
  then show "evidence_settled (register_candidate data ob i source depth q scope c)"
    by (subst evidence_settled_fields [of _ c]) (simp_all add: register_candidate_fields)
next
  fix c io c'
  assume "evidence_settled c" "run_confirmation env io c = Inr c'"
  then show "evidence_settled c'" by (rule run_confirmation_settled)
qed (simp_all add: evidence_settled_def campaign_ops Let_def)

text \<open>
  (C6) What the verdict executed of a report says of any reachable campaign, also of one whose engine
  failed: the probes were complete, at least one query was asked and none of them failed or was left
  open, no model was refuted by its native run, no confirmation run failed, and every candidate that was
  ever run again for its confirmation is a finding of the report. When the engine finished normally, that
  is every candidate the campaign kept, each with three native runs that show it; after a failed engine
  a candidate may be left without such a run (\<open>failed_engine_leaves_candidate\<close>).
\<close>

theorem executed_report_confirms:
  assumes "campaign_reach env c" and "rp_verification (write_report env unsupported tasks c) = ''executed''"
  shows "au_status (cv_audit env) = ''COMPLETE'' \<and> cp_results c \<noteq> [] \<and>
    (\<forall>r \<in> set (cp_results c).
       sy_status r \<notin> {''FAILED'', ''ERROR'', ''UNSUPPORTED'', ''TIMEOUT'', ''REPLAY_MISMATCH'', ''UNKNOWN''} \<and>
       sy_native r \<notin> {Some ''TIMEOUT'', Some ''REPLAY_MISMATCH''}) \<and>
    (\<forall>ev \<in> set (cp_evidence c). ev_status ev \<notin> set FAILED_RUNS \<and>
       (\<exists>f \<in> set (rp_findings (write_report env unsupported tasks c)). fi_id f = ev_id ev)) \<and>
    (\<forall>c0 en. campaign_reach env c0 \<longrightarrow> engine_finished env en c0 = Inr c \<longrightarrow>
       (\<forall>cand \<in> set (cp_candidates c). \<exists>f \<in> set (rp_findings (write_report env unsupported tasks c)).
          fi_id f = cc_id cand \<and> (\<exists>ev \<in> set (cp_evidence c). ev_id ev = cc_id cand \<and> (\<exists>r. round_shows f r (ev_attempts ev)))))"
proof -
  have executed: "verification_status env unsupported c = ''executed''" and found: "rp_findings (write_report env unsupported tasks c) = cp_confirmed c"
    using assms(2) by (simp_all add: write_report_def)
  note facts = executed_completed [OF executed]
  have settled: "\<forall>ev \<in> set (cp_evidence c). \<exists>f \<in> set (cp_confirmed c). fi_id f = ev_id ev"
    using settled_evidence.reachable [OF assms(1)] facts(5) by (fastforce simp: evidence_settled_def)
  have "\<exists>f \<in> set (cp_confirmed c). fi_id f = cc_id cand \<and>
      (\<exists>ev \<in> set (cp_evidence c). ev_id ev = cc_id cand \<and> (\<exists>r. round_shows f r (ev_attempts ev)))"
    if fin: "campaign_reach env c0" "engine_finished env en c0 = Inr c" and cand: "cand \<in> set (cp_candidates c)" for c0 en cand
  proof -
    obtain c3 where c3: "findings_ok env c3" "run_confirmation env (en_closing en) c3 = Inr c"
      using native_findings.finished_pass [OF native_findings.reachable [OF fin(1)] fin(2)] .
    have ok: "findings_ok env c" by (rule run_confirmation_findings [OF c3])
    have "cc_id cand \<in> fi_id ` set (cp_confirmed c)"
      using run_confirmation_judged [OF c3 cand] facts(5) by (auto simp: judged_def)
    then obtain f where f: "f \<in> set (cp_confirmed c)" "fi_id f = cc_id cand" by auto
    then have "finding_ok (cp_candidates c) (cp_evidence c) f" using ok by (simp add: findings_ok_def)
    then show ?thesis using f unfolding finding_ok_def by metis
  qed
  then show ?thesis using facts settled found by auto
qed

text \<open>A campaign whose probes are complete: its query is answered, its engine leaves one candidate.\<close>

definition checked_campaign :: campaign_env where
  "checked_campaign = demo_campaign\<lparr>cv_audit := (cv_audit demo_campaign)\<lparr>au_status := ''COMPLETE''\<rparr>\<rparr>"

definition unsat_startup :: startup_env where
  "unsat_startup = demo_startup\<lparr>su_query := (\<lambda>n. demo_query\<lparr>qr_result := (qr_result demo_query)\<lparr>sr_status := ''UNSAT''\<rparr>\<rparr>)\<rparr>"

definition sure_confirm :: confirm_io where
  "sure_confirm = demo_confirm\<lparr>ci_first := (\<lambda>i data k. demo_observation)\<rparr>"

definition demo_engine :: engine_run where
  "demo_engine = \<lparr>en_summary = [(''executions'', JInt 9), (''scans'', JInt 12), (''candidates'', JInt 1)],
     en_files = [(''candidate-1.txt'', demo_text, demo_observation)], en_confirm = (\<lambda>n. sure_confirm),
     en_last = sure_confirm, en_closing = sure_confirm\<rparr>"


lemma demo_executed:
  "case bindE (lift_frame (run_symbolic_startup checked_campaign unsat_startup new_campaign))
      (engine_finished checked_campaign demo_engine) of
     Inl e \<Rightarrow> False
   | Inr c \<Rightarrow> verification_status checked_campaign None c = ''executed'' \<and> map cc_id (cp_candidates c) = [''F0001'']"
  by code_simp

theorem executed_report_confirms_witness:
  "\<exists>c f. campaign_reach checked_campaign c \<and> rp_verification (write_report checked_campaign None [''t1''] c) = ''executed'' \<and>
    f \<in> set (cp_confirmed c) \<and> fi_id f = ''F0001''"
proof -
  obtain c0 c where c0: "run_symbolic_startup checked_campaign unsat_startup new_campaign = Inr c0"
    and c: "engine_finished checked_campaign demo_engine c0 = Inr c" "verification_status checked_campaign None c = ''executed''"
      "map cc_id (cp_candidates c) = [''F0001'']"
    using demo_executed by (auto simp: lift_frame_def split: sum.splits)
  have r: "campaign_reach checked_campaign c0" by (rule reach_startup [OF reach_start c0])
  obtain cand where cand: "cand \<in> set (cp_candidates c)" "cc_id cand = ''F0001''" using c(3) by (cases "cp_candidates c") auto
  have w: "rp_verification (write_report checked_campaign None [''t1''] c) = ''executed''"
    "rp_findings (write_report checked_campaign None [''t1''] c) = cp_confirmed c" using c(2) by (simp_all add: write_report_def)
  note closing = reach_finished [OF r c(1)]
  show ?thesis using executed_report_confirms [OF closing w(1)] closing r c(1) cand w by metis
qed

text \<open>
  The verdict does not look at the engine: the query of the start gives a candidate, the engine then
  fails and leaves no testcase, so no confirmation is run, and the report still says executed.
\<close>

definition hit_startup :: startup_env where
  "hit_startup = demo_startup\<lparr>su_query := (\<lambda>n. demo_query\<lparr>qr_run := (\<lambda>k data. demo_observation)\<rparr>)\<rparr>"

lemma failed_engine_leaves_candidate:
  "case run_symbolic_startup checked_campaign hit_startup new_campaign of
     Inl e \<Rightarrow> False
   | Inr c \<Rightarrow> (let c = engine_failed checked_campaign None demo_confirm c in
       verification_status checked_campaign None c = ''executed'' \<and> map cc_id (cp_candidates c) = [''F0001''] \<and>
       cp_confirmed c = [])"
  by code_simp

end
